(* ===== verification/Xls_Prelude.thy ===== *)
theory Xls_Prelude
  imports Main "HOL-Library.Word" "HOL-Library.Monad_Syntax"
begin

text \<open>
  Shared ground of the development: how the C++ error mechanisms are represented, and the
  arithmetic of bit vectors that every component uses.

  \<^item> \<open>absl::StatusOr<T>\<close> is the sum \<open>status + 'a\<close> (\<open>Inl\<close> the error).
  \<^item> A failing \<open>XLS_CHECK\<close> aborts the process; a function that can abort returns
    an \<open>option\<close>, with \<open>None\<close> for the abort. \<open>StatusOr::value()\<close> aborts on an error.
  \<^item> Bit vectors are lists of bits, least significant bit first, as \<open>Bits::Get\<close> numbers
    them. \<open>unum\<close> is the unsigned and \<open>snum\<close> the two's complement reading of such a list.
\<close>

unbundle bit_operations_syntax

named_theorems bits_rep
named_theorems bits_val
named_theorems eval_sound

section \<open>Errors\<close>

datatype status =
    InvalidArgument | OutOfRange | NotFound | Internal | Unimplemented | Aborted | ResourceExhausted | DeadlineExceeded

type_synonym 'a statusor = "status + 'a"
type_synonym uint64 = "64 word"
type_synonym uint8 = "8 word"

definition CHECK :: "bool \<Rightarrow> unit option" where
  "CHECK b = (if b then Some () else None)"

primrec status_value :: "'a statusor \<Rightarrow> 'a option" where
  "status_value (Inl e) = None"
| "status_value (Inr x) = Some x"

lemma CHECK_simps [simp]: "CHECK True = Some ()" "CHECK False = None"
  by (simp_all add: CHECK_def)

lemma CHECK_bind [simp]: "CHECK b \<bind> f = (if b then f () else None)"
  by (simp add: CHECK_def)

lemma CHECK_eq_Some [simp]: "CHECK b = Some u \<longleftrightarrow> b"
  by (simp add: CHECK_def)

section \<open>Bit lists as numbers\<close>

abbreviation unum :: "bool list \<Rightarrow> nat" where
  "unum \<equiv> horner_sum of_bool 2"

definition snum :: "bool list \<Rightarrow> int" where
  "snum bs = (if bs \<noteq> [] \<and> last bs then int (unum bs) - 2 ^ length bs else int (unum bs))"

definition nat_bl :: "nat \<Rightarrow> nat \<Rightarrow> bool list" where
  "nat_bl n k = map (bit k) [0..<n]"

definition int_bl :: "nat \<Rightarrow> int \<Rightarrow> bool list" where
  "int_bl n k = map (bit k) [0..<n]"

lemma length_nat_bl [simp]: "length (nat_bl n k) = n"
  by (simp add: nat_bl_def)

lemma length_int_bl [simp]: "length (int_bl n k) = n"
  by (simp add: int_bl_def)

lemma nth_nat_bl [simp]: "i < n \<Longrightarrow> nat_bl n k ! i = bit k i"
  by (simp add: nat_bl_def)

lemma nth_int_bl [simp]: "i < n \<Longrightarrow> int_bl n k ! i = bit k i"
  by (simp add: int_bl_def)

lemma unum_bound [simp]: "unum bs < 2 ^ length bs"
  by (induction bs) (simp_all add: of_bool_def)

lemma bit_unum_iff: "bit (unum bs) i \<longleftrightarrow> i < length bs \<and> bs ! i"
  by (simp add: bit_horner_sum_bit_iff)

lemma unum_nat_bl [simp]: "unum (nat_bl n k) = k mod 2 ^ n"
  by (simp add: nat_bl_def horner_sum_bit_eq_take_bit take_bit_eq_mod)

lemma nat_bl_unum [simp]: "nat_bl (length bs) (unum bs) = bs"
  by (rule nth_equalityI) (simp_all add: bit_unum_iff)

lemma nat_bl_unum_eq: "n = length bs \<Longrightarrow> nat_bl n (unum bs) = bs"
  by simp

lemma unum_eq_iff: "length xs = length ys \<Longrightarrow> unum xs = unum ys \<longleftrightarrow> xs = ys"
  by (metis nat_bl_unum)

lemma nat_bl_eq_iff: "nat_bl n j = nat_bl n k \<longleftrightarrow> j mod 2 ^ n = k mod 2 ^ n"
  by (metis length_nat_bl unum_eq_iff unum_nat_bl)

lemma nat_bl_mod [simp]: "nat_bl n (k mod 2 ^ n) = nat_bl n k"
  by (simp add: nat_bl_eq_iff)

lemma nat_bl_0 [simp]: "nat_bl 0 k = []" "nat_bl n 0 = replicate n False"
  by (simp_all add: nat_bl_def list_eq_iff_nth_eq)

lemma unum_append: "unum (xs @ ys) = unum xs + 2 ^ length xs * unum ys"
  by (induction xs) (simp_all add: algebra_simps)

lemma unum_replicate_False [simp]: "unum (replicate n False) = 0"
  by (induction n) simp_all

lemma unum_replicate_True [simp]: "unum (replicate n True) = 2 ^ n - 1"
proof (induction n)
  case (Suc n)
  have "(1::nat) \<le> 2 ^ n" by simp
  then have "Suc (2 * (2 ^ n - Suc 0)) = 2 * 2 ^ n - Suc 0" by linarith
  with Suc show ?case by simp
qed simp

lemma unum_eq_0_iff: "unum bs = 0 \<longleftrightarrow> True \<notin> set bs"
  by (induction bs) auto

lemma unum_eq_max_iff: "unum bs = 2 ^ length bs - 1 \<longleftrightarrow> False \<notin> set bs"
proof -
  have "False \<notin> set bs \<longleftrightarrow> bs = replicate (length bs) True"
    by (auto simp: list_eq_iff_nth_eq in_set_conv_nth)
  also have "\<dots> \<longleftrightarrow> unum bs = unum (replicate (length bs) True)"
    by (simp only: unum_eq_iff length_replicate)
  finally show ?thesis by simp
qed

lemma unum_take_drop: "unum bs = unum (take n bs) + 2 ^ n * unum (drop n bs)"
proof (cases "n \<le> length bs")
  case True
  then show ?thesis using unum_append [of "take n bs" "drop n bs"] by simp
qed simp

lemma unum_take: "unum (take n bs) = unum bs mod 2 ^ n"
proof -
  have "unum (take n bs) < 2 ^ n"
    using unum_bound [of "take n bs"] by (rule less_le_trans) simp
  then have "(unum (take n bs) + 2 ^ n * unum (drop n bs)) mod 2 ^ n = unum (take n bs)" by simp
  then show ?thesis by (simp only: unum_take_drop [of bs n, symmetric])
qed

lemma unum_drop: "unum (drop n bs) = unum bs div 2 ^ n"
proof -
  have "unum (take n bs) < 2 ^ n"
    using unum_bound [of "take n bs"] by (rule less_le_trans) simp
  then have "(unum (take n bs) + 2 ^ n * unum (drop n bs)) div 2 ^ n = unum (drop n bs)" by simp
  then show ?thesis by (simp only: unum_take_drop [of bs n, symmetric])
qed

lemma unum_less_exp_iff: "unum bs < 2 ^ n \<longleftrightarrow> True \<notin> set (drop n bs)"
  by (simp add: unum_drop div_eq_0_iff flip: unum_eq_0_iff)

lemma set_drop_conv_nth: "x \<in> set (drop n bs) \<longleftrightarrow> (\<exists>i. n \<le> i \<and> i < length bs \<and> bs ! i = x)"
  by (auto simp: in_set_conv_nth) (metis add.commute le_add1 less_diff_conv, metis le_add_diff_inverse diff_less_mono)

subsection \<open>Two's complement\<close>

lemma snum_Nil [simp]: "snum [] = 0"
  by (simp add: snum_def)

lemma snum_append: "ys \<noteq> [] \<Longrightarrow> snum (xs @ ys) = int (unum xs) + 2 ^ length xs * snum ys"
  by (simp add: snum_def unum_append power_add algebra_simps)

lemma snum_snoc: "snum (xs @ [b]) = int (unum xs) - 2 ^ length xs * of_bool b"
  by (simp add: snum_def unum_append)

lemma snum_singleton [simp]: "snum [b] = - of_bool b"
  using snum_snoc [of "[]" b] by simp

lemma snum_range:
  assumes "bs \<noteq> []"
  shows "- (2 ^ (length bs - 1)) \<le> snum bs" and "snum bs < 2 ^ (length bs - 1)"
proof -
  obtain xs b where bs: "bs = xs @ [b]" using assms by (metis rev_exhaust)
  have "int (unum xs) < 2 ^ length xs"
    using unum_bound [of xs] by (metis of_nat_less_iff of_nat_numeral of_nat_power)
  moreover have "0 \<le> int (unum xs)" by simp
  ultimately show "- (2 ^ (length bs - 1)) \<le> snum bs" "snum bs < 2 ^ (length bs - 1)"
    by (cases b; simp add: bs snum_snoc; linarith)+
qed

lemma snum_neg_iff: "snum bs < 0 \<longleftrightarrow> bs \<noteq> [] \<and> last bs"
proof -
  have "int (unum bs) < 2 ^ length bs"
    using unum_bound [of bs] by (metis of_nat_less_iff of_nat_numeral of_nat_power)
  then show ?thesis by (auto simp: snum_def)
qed

lemma snum_mod: "snum bs mod 2 ^ length bs = int (unum bs)"
proof -
  have "int (unum bs) mod 2 ^ length bs = int (unum bs)"
    using unum_bound [of bs]
    by (metis mod_less of_nat_mod of_nat_numeral of_nat_power)
  then show ?thesis by (auto simp: snum_def mod_diff_right_eq [symmetric])
qed

lemma snum_nonneg: "\<not> (bs \<noteq> [] \<and> last bs) \<Longrightarrow> snum bs = int (unum bs)"
  by (auto simp: snum_def)

lemma int_bl_mod [simp]: "int_bl n (k mod 2 ^ n) = int_bl n k"
  by (simp add: int_bl_def bit_take_bit_iff flip: take_bit_eq_mod)

lemma int_bl_of_nat [simp]: "int_bl n (int k) = nat_bl n k"
  by (simp add: int_bl_def nat_bl_def bit_of_nat_iff)

lemma int_bl_eq_nat_bl: "int_bl n k = nat_bl n (nat (k mod 2 ^ n))"
  by (metis int_bl_mod int_bl_of_nat nat_0_le zero_less_numeral zero_less_power pos_mod_sign)

lemma unum_int_bl: "int (unum (int_bl n k)) = k mod 2 ^ n"
  by (simp add: int_bl_eq_nat_bl nat_mod_distrib zmod_int)

lemma int_bl_snum [simp]: "int_bl (length bs) (snum bs) = bs"
  by (metis int_bl_mod int_bl_of_nat nat_bl_unum snum_mod)

lemma int_bl_eq_iff: "int_bl n j = int_bl n k \<longleftrightarrow> j mod 2 ^ n = k mod 2 ^ n"
  by (metis int_bl_mod unum_int_bl)

lemma bit_snum_low: "i < length bs \<Longrightarrow> bit (snum bs) i = bs ! i"
  by (metis int_bl_snum nth_int_bl)

lemma snum_unique:
  assumes "length bs = n" and "n > 0"
    and "- (2 ^ (n - 1)) \<le> k" and "k < 2 ^ (n - 1)" and "k mod 2 ^ n = int (unum bs)"
  shows "snum bs = k"
proof -
  have bs: "bs \<noteq> []" using assms by auto
  have pow: "(2::int) ^ n = 2 * 2 ^ (n - 1)" using assms(2) by (simp flip: power_Suc)
  have "snum bs mod 2 ^ n = k mod 2 ^ n" using assms(1,5) snum_mod [of bs] by simp
  then have "2 ^ n dvd snum bs - k" by (simp add: mod_eq_dvd_iff)
  moreover have "\<bar>snum bs - k\<bar> < 2 ^ n"
    using snum_range [OF bs] assms pow by auto
  ultimately show ?thesis by (metis dvd_imp_le_int leD eq_iff_diff_eq_0 abs_of_pos zero_less_numeral zero_less_power)
qed

lemma bit_snum_high:
  assumes "length bs \<le> i"
  shows "bit (snum bs) i \<longleftrightarrow> bs \<noteq> [] \<and> last bs"
proof (cases "bs = []")
  case False
  have "snum bs = signed_take_bit (length bs - 1) (snum bs)"
    using snum_range [OF False] by (simp add: signed_take_bit_int_eq_self)
  moreover have "bit (signed_take_bit (length bs - 1) (snum bs)) i =
      bit (snum bs) (min (length bs - 1) i)"
    by (simp add: bit_signed_take_bit_iff)
  ultimately have "bit (snum bs) i = bit (snum bs) (min (length bs - 1) i)" by simp
  also have "min (length bs - 1) i = length bs - 1" using assms by simp
  also have "bit (snum bs) (length bs - 1) = bs ! (length bs - 1)"
    using False by (simp add: bit_snum_low)
  finally show ?thesis using False by (simp add: last_conv_nth)
qed simp

lemma snum_int_bl:
  assumes "n > 0" and "- (2 ^ (n - 1)) \<le> k" and "k < 2 ^ (n - 1)"
  shows "snum (int_bl n k) = k"
  using assms by (intro snum_unique [of _ n]) (simp_all add: unum_int_bl)

lemma snum_replicate_True: "snum (replicate (Suc n) True) = -1"
proof -
  have "replicate (Suc n) True = replicate n True @ [True]" by (simp add: replicate_append_same)
  then show ?thesis by (simp only: snum_snoc) (simp add: of_nat_diff)
qed

lemma snum_eq_0_or_m1_iff:
  assumes "bs \<noteq> []"
  shows "snum bs = 0 \<or> snum bs = -1 \<longleftrightarrow> (\<forall>b\<in>set bs. b = last bs)"
proof
  obtain n where n: "length bs = Suc n" using assms by (cases bs) auto
  assume "snum bs = 0 \<or> snum bs = -1"
  then have "snum bs = snum (replicate (Suc n) False) \<or> snum bs = snum (replicate (Suc n) True)"
    unfolding snum_replicate_True by (auto simp: snum_def)
  then have "bs = replicate (Suc n) False \<or> bs = replicate (Suc n) True"
    by (metis int_bl_snum length_replicate n)
  then show "\<forall>b\<in>set bs. b = last bs" by (elim disjE) (simp_all del: replicate_Suc)
next
  assume *: "\<forall>b\<in>set bs. b = last bs"
  obtain n where n: "length bs = Suc n" using assms by (cases bs) auto
  have "bs = replicate (Suc n) (last bs)" using n * by (intro replicate_eqI) blast+
  moreover have "snum (replicate (Suc n) b) = (if b then -1 else 0)" for b
    by (cases b) (simp_all only: snum_replicate_True if_True, simp add: snum_def)
  ultimately show "snum bs = 0 \<or> snum bs = -1" by metis
qed

section \<open>Loops that search for the first index\<close>

text \<open>\<open>for (i = 0; i < n; ++i) if (p(i)) return i;  return n;\<close>\<close>

definition first_index :: "(nat \<Rightarrow> bool) \<Rightarrow> nat \<Rightarrow> nat" where
  "first_index p n = length (takeWhile (\<lambda>i. \<not> p i) [0..<n])"

lemma first_index_le [simp]: "first_index p n \<le> n"
  using length_takeWhile_le [of "\<lambda>i. \<not> p i" "[0..<n]"] by (simp add: first_index_def)

lemma first_index_before: "i < first_index p n \<Longrightarrow> \<not> p i"
proof -
  assume i: "i < first_index p n"
  then have "takeWhile (\<lambda>i. \<not> p i) [0..<n] ! i \<in> set (takeWhile (\<lambda>i. \<not> p i) [0..<n])"
    by (simp add: first_index_def)
  moreover have "takeWhile (\<lambda>i. \<not> p i) [0..<n] ! i = i"
    using i first_index_le [of p n] by (simp add: first_index_def takeWhile_nth)
  ultimately show "\<not> p i" by (metis set_takeWhileD)
qed

lemma first_index_at: "first_index p n < n \<Longrightarrow> p (first_index p n)"
  using nth_length_takeWhile [of "\<lambda>i. \<not> p i" "[0..<n]"] by (simp add: first_index_def)

lemma first_index_eq_iff:
  "first_index p n = k \<longleftrightarrow> k \<le> n \<and> (\<forall>i<k. \<not> p i) \<and> (k < n \<longrightarrow> p k)"
proof (intro iffI conjI)
  assume "k \<le> n \<and> (\<forall>i<k. \<not> p i) \<and> (k < n \<longrightarrow> p k)"
  then show "first_index p n = k"
    by (metis first_index_at first_index_before first_index_le leD le_neq_implies_less
        linorder_neqE_nat)
qed (auto dest: first_index_before first_index_at)

lemma first_index_cong [cong]:
  "n = m \<Longrightarrow> (\<And>i. i < m \<Longrightarrow> p i = q i) \<Longrightarrow> first_index p n = first_index q m"
  by (auto simp: first_index_def intro!: arg_cong [where f = length] takeWhile_cong)

lemma first_index_eq_n_iff: "first_index p n = n \<longleftrightarrow> (\<forall>i<n. \<not> p i)"
  by (simp add: first_index_eq_iff)

section \<open>Conversions to 32-bit integers\<close>

text \<open>
  The code keeps some indices and sizes in \<open>int32_t\<close>, \<open>int\<close> or \<open>uint32_t\<close>. The wrap-around is that of two's complement, also
  for signed sums, where the language leaves it open.
\<close>

definition to_int32 :: "int \<Rightarrow> int" where
  "to_int32 x = (x + 2 ^ 31) mod 2 ^ 32 - 2 ^ 31"

definition to_uint32 :: "nat \<Rightarrow> nat" where
  "to_uint32 n = n mod 2 ^ 32"

lemma to_int32_small [simp]: "- (2 ^ 31) \<le> x \<Longrightarrow> x < 2 ^ 31 \<Longrightarrow> to_int32 x = x"
  by (simp add: to_int32_def)

lemma to_uint32_small [simp]: "n < 2 ^ 32 \<Longrightarrow> to_uint32 n = n"
  by (simp add: to_uint32_def)

end
