(* ===== verification/Xls_Bdd.thy ===== *)
theory Xls_Bdd
  imports Xls_Prelude
begin

text \<open>
  \<open>xls/data_structures/binary_decision_diagram.{h,cc}\<close>: reduced ordered binary decision diagrams with
  a unique table and a computed table for if-then-else. The class is the record \<open>bdd\<close>; operations
  that add nodes return the new state. \<open>None\<close> is a failed check, an \<open>at()\<close> out of range, or a
  recursion that does not end. Variables and node indices are \<open>int32_t\<close> in the code: they are \<open>int\<close>
  here, with the conversion to 32 bits (\<open>to_int32\<close>) written out where the code makes a new one.

  The indices stay exact as long as the table has at most \<open>2^31\<close> nodes. An if-then-else adds at most
  one node for every triple of nodes below its operands, so \<open>bdd_room\<close>, a condition on the diagram
  before the call, is enough.

  \<open>sem b i\<close> is the boolean function a node stands for. Under the invariant \<open>wf_bdd\<close> every operation
  terminates, keeps the invariant and the functions of the existing nodes, and returns a node for
  the expected function; two nodes are equal exactly when their functions are.
\<close>

record bdd_node =
  nd_variable :: int
  nd_high :: int
  nd_low :: int
  nd_path_count :: int

record bdd =
  bdd_next_var :: int
  bdd_nodes :: "bdd_node list"
  bdd_node_map :: "int \<times> int \<times> int \<rightharpoonup> int"
  bdd_ite_map :: "int \<times> int \<times> int \<rightharpoonup> int"

definition Bdd_new :: bdd where
  "Bdd_new = \<lparr>bdd_next_var = 0,
     bdd_nodes = [\<lparr>nd_variable = -1, nd_high = -1, nd_low = -1, nd_path_count = 1\<rparr>,
                  \<lparr>nd_variable = -1, nd_high = -1, nd_low = -1, nd_path_count = 1\<rparr>],
     bdd_node_map = Map.empty, bdd_ite_map = Map.empty\<rparr>"

definition Bdd_zero :: int where "Bdd_zero = 0"

definition Bdd_one :: int where "Bdd_one = 1"

definition Bdd_GetNode :: "bdd \<Rightarrow> int \<Rightarrow> bdd_node option" where
  "Bdd_GetNode b node_index =
     (if 0 \<le> node_index \<and> nat node_index < length (bdd_nodes b) then Some (bdd_nodes b ! nat node_index) else None)"

definition Bdd_size :: "bdd \<Rightarrow> int" where
  "Bdd_size b = int (length (bdd_nodes b))"

definition Bdd_variable_count :: "bdd \<Rightarrow> int" where
  "Bdd_variable_count b = bdd_next_var b"

definition Bdd_path_count :: "bdd \<Rightarrow> int \<Rightarrow> int option" where
  "Bdd_path_count b expr = map_option nd_path_count (Bdd_GetNode b expr)"

definition Bdd_IsVariableBaseNode :: "bdd \<Rightarrow> int \<Rightarrow> bool option" where
  "Bdd_IsVariableBaseNode b expr =
     map_option (\<lambda>n. nd_high n = Bdd_one \<and> nd_low n = Bdd_zero) (Bdd_GetNode b expr)"

definition Bdd_GetVariableBaseNode :: "bdd \<Rightarrow> int \<Rightarrow> int option" where
  "Bdd_GetVariableBaseNode b v = bdd_node_map b (v, Bdd_one, Bdd_zero)"

definition int32_max :: int where "int32_max = 2147483647"

definition Bdd_GetOrCreateNode :: "bdd \<Rightarrow> int \<Rightarrow> int \<Rightarrow> int \<Rightarrow> (bdd \<times> int) option" where
  "Bdd_GetOrCreateNode b var high low =
     (case bdd_node_map b (var, high, low) of
        Some i \<Rightarrow> Some (b, i)
      | None \<Rightarrow>
          if low = high then Some (b, low)
          else do {
            l \<leftarrow> Bdd_GetNode b low;
            h \<leftarrow> Bdd_GetNode b high;
            let paths = min (nd_path_count l + nd_path_count h) int32_max;
            let node_index = to_int32 (int (length (bdd_nodes b)));
            Some (b\<lparr>bdd_nodes := bdd_nodes b @ [\<lparr>nd_variable = var, nd_high = high, nd_low = low, nd_path_count = paths\<rparr>],
                    bdd_node_map := (bdd_node_map b)((var, high, low) \<mapsto> node_index)\<rparr>, node_index)
          })"

definition Bdd_Restrict :: "bdd \<Rightarrow> int \<Rightarrow> int \<Rightarrow> bool \<Rightarrow> int option" where
  "Bdd_Restrict b expr var value =
     (if expr = Bdd_zero \<or> expr = Bdd_one then Some expr
      else do {
        node \<leftarrow> Bdd_GetNode b expr;
        CHECK (var \<le> nd_variable node);
        if nd_variable node = var then Some (if value then nd_high node else nd_low node)
        else Some expr
      })"

definition Bdd_min_with :: "bdd \<Rightarrow> int \<Rightarrow> int \<Rightarrow> int option" where
  "Bdd_min_with b min_var expr =
     (if expr \<noteq> Bdd_zero \<and> expr \<noteq> Bdd_one
      then map_option (\<lambda>n. min min_var (nd_variable n)) (Bdd_GetNode b expr)
      else Some min_var)"

partial_function (option) Bdd_IfThenElse :: "bdd \<Rightarrow> int \<Rightarrow> int \<Rightarrow> int \<Rightarrow> (bdd \<times> int) option" where
  "Bdd_IfThenElse b cond if_true if_false =
     (if cond = Bdd_one then Some (b, if_true)
      else if cond = Bdd_zero then Some (b, if_false)
      else if if_true = Bdd_one \<and> if_false = Bdd_zero then Some (b, cond)
      else if if_true = if_false then Some (b, if_true)
      else case bdd_ite_map b (cond, if_true, if_false) of
        Some r \<Rightarrow> Some (b, r)
      | None \<Rightarrow> do {
          cond_node \<leftarrow> Bdd_GetNode b cond;
          min1 \<leftarrow> Bdd_min_with b (nd_variable cond_node) if_true;
          min_var \<leftarrow> Bdd_min_with b min1 if_false;
          c1 \<leftarrow> Bdd_Restrict b cond min_var True;
          t1 \<leftarrow> Bdd_Restrict b if_true min_var True;
          f1 \<leftarrow> Bdd_Restrict b if_false min_var True;
          tc \<leftarrow> Bdd_IfThenElse b c1 t1 f1;
          c0 \<leftarrow> Bdd_Restrict (fst tc) cond min_var False;
          t0 \<leftarrow> Bdd_Restrict (fst tc) if_true min_var False;
          f0 \<leftarrow> Bdd_Restrict (fst tc) if_false min_var False;
          fc \<leftarrow> Bdd_IfThenElse (fst tc) c0 t0 f0;
          if snd tc = snd fc
          then Some ((fst fc)\<lparr>bdd_ite_map := (bdd_ite_map (fst fc))((cond, if_true, if_false) \<mapsto> snd tc)\<rparr>, snd tc)
          else do {
            r \<leftarrow> Bdd_GetOrCreateNode (fst fc) min_var (snd tc) (snd fc);
            Some ((fst r)\<lparr>bdd_ite_map := (bdd_ite_map (fst r))((cond, if_true, if_false) \<mapsto> snd r)\<rparr>, snd r)
          }
        })"

definition Bdd_NewVariable :: "bdd \<Rightarrow> (bdd \<times> int) option" where
  "Bdd_NewVariable b =
     (let var = bdd_next_var b
      in Bdd_GetOrCreateNode (b\<lparr>bdd_next_var := to_int32 (var + 1)\<rparr>) var Bdd_one Bdd_zero)"

definition Bdd_Not :: "bdd \<Rightarrow> int \<Rightarrow> (bdd \<times> int) option" where
  "Bdd_Not b expr = Bdd_IfThenElse b expr Bdd_zero Bdd_one"

definition Bdd_Or :: "bdd \<Rightarrow> int \<Rightarrow> int \<Rightarrow> (bdd \<times> int) option" where
  "Bdd_Or b x y = Bdd_IfThenElse b x Bdd_one y"

definition Bdd_And :: "bdd \<Rightarrow> int \<Rightarrow> int \<Rightarrow> (bdd \<times> int) option" where
  "Bdd_And b x y = Bdd_IfThenElse b x y Bdd_zero"

partial_function (option) Bdd_Evaluate :: "bdd \<Rightarrow> int \<Rightarrow> (int \<rightharpoonup> bool) \<Rightarrow> bool statusor option" where
  "Bdd_Evaluate b result variable_values =
     (if result \<noteq> Bdd_zero \<and> result \<noteq> Bdd_one then do {
        node \<leftarrow> Bdd_GetNode b result;
        var_node \<leftarrow> Bdd_GetVariableBaseNode b (nd_variable node);
        case variable_values var_node of
          None \<Rightarrow> Some (Inl InvalidArgument)
        | Some value \<Rightarrow> Bdd_Evaluate b (if value then nd_high node else nd_low node) variable_values
      }
      else Some (Inr (result = Bdd_one)))"

declare Bdd_IfThenElse.simps [code] Bdd_Evaluate.simps [code]

lemmas bdd_consts [simp] = Bdd_zero_def Bdd_one_def

section \<open>Meaning and invariant\<close>

abbreviation node :: "bdd \<Rightarrow> int \<Rightarrow> bdd_node" where
  "node b i \<equiv> bdd_nodes b ! nat i"

definition valid :: "bdd \<Rightarrow> int \<Rightarrow> bool" where
  "valid b i \<longleftrightarrow> 0 \<le> i \<and> i < int (length (bdd_nodes b))"

definition inner :: "bdd \<Rightarrow> int \<Rightarrow> bool" where
  "inner b i \<longleftrightarrow> 2 \<le> i \<and> i < int (length (bdd_nodes b))"

text \<open>Every variable of the expression \<open>i\<close> is at least \<open>v\<close>.\<close>

definition from_var :: "bdd \<Rightarrow> int \<Rightarrow> int \<Rightarrow> bool" where
  "from_var b v i \<longleftrightarrow> (inner b i \<longrightarrow> v \<le> nd_variable (node b i))"

function sem :: "bdd \<Rightarrow> int \<Rightarrow> (int \<Rightarrow> bool) \<Rightarrow> bool" where
  "sem b i env =
     (if inner b i \<and> 0 \<le> nd_high (node b i) \<and> nd_high (node b i) < i \<and> 0 \<le> nd_low (node b i) \<and> nd_low (node b i) < i
      then sem b (if env (nd_variable (node b i)) then nd_high (node b i) else nd_low (node b i)) env
      else i = 1)"
  by pat_completeness auto
termination
  by (relation "measure (\<lambda>(b, i, env). nat i)") auto

declare sem.simps [simp del]

definition node_ok :: "bdd \<Rightarrow> int \<Rightarrow> bool" where
  "node_ok b i \<longleftrightarrow> (let n = node b i in
     0 \<le> nd_high n \<and> nd_high n < i \<and> 0 \<le> nd_low n \<and> nd_low n < i \<and> nd_high n \<noteq> nd_low n \<and>
     0 \<le> nd_variable n \<and> nd_variable n < bdd_next_var b \<and>
     from_var b (nd_variable n + 1) (nd_high n) \<and> from_var b (nd_variable n + 1) (nd_low n) \<and>
     nd_path_count n = min (nd_path_count (node b (nd_low n)) + nd_path_count (node b (nd_high n))) int32_max)"

definition ite_ok :: "bdd \<Rightarrow> int \<Rightarrow> int \<Rightarrow> int \<Rightarrow> int \<Rightarrow> bool" where
  "ite_ok b c t f r \<longleftrightarrow> valid b r \<and>
     (\<forall>env. sem b r env = (if sem b c env then sem b t env else sem b f env)) \<and>
     (\<forall>v. from_var b v c \<longrightarrow> from_var b v t \<longrightarrow> from_var b v f \<longrightarrow> from_var b v r)"

text \<open>The part of the invariant on the node table, and the whole of it: every variable has its base
  node, and the computed table holds correct results.\<close>

definition wf_nodes :: "bdd \<Rightarrow> bool" where
  "wf_nodes b \<longleftrightarrow> 2 \<le> length (bdd_nodes b) \<and> nd_path_count (node b 0) = 1 \<and> nd_path_count (node b 1) = 1 \<and>
     0 \<le> bdd_next_var b \<and>
     (\<forall>i. inner b i \<longrightarrow> node_ok b i) \<and>
     (\<forall>v h l i. bdd_node_map b (v, h, l) = Some i \<longleftrightarrow>
        inner b i \<and> nd_variable (node b i) = v \<and> nd_high (node b i) = h \<and> nd_low (node b i) = l)"

definition wf_base :: "bdd \<Rightarrow> bool" where
  "wf_base b \<longleftrightarrow> (\<forall>v. 0 \<le> v \<and> v < bdd_next_var b \<longrightarrow> bdd_node_map b (v, 1, 0) \<noteq> None)"

definition wf_ite :: "bdd \<Rightarrow> bool" where
  "wf_ite b \<longleftrightarrow>
     (\<forall>c t f r. bdd_ite_map b (c, t, f) = Some r \<longrightarrow> valid b c \<and> valid b t \<and> valid b f \<and> ite_ok b c t f r)"

definition wf_bdd :: "bdd \<Rightarrow> bool" where
  "wf_bdd b \<longleftrightarrow> wf_nodes b \<and> wf_base b \<and> wf_ite b"

text \<open>\<open>b'\<close> has all the nodes of \<open>b\<close>.\<close>

definition extends :: "bdd \<Rightarrow> bdd \<Rightarrow> bool" where
  "extends b b' \<longleftrightarrow> (\<exists>ns. bdd_nodes b' = bdd_nodes b @ ns) \<and> bdd_next_var b \<le> bdd_next_var b'"

text \<open>The nodes that an expression reaches, itself included.\<close>

function descendants :: "bdd \<Rightarrow> int \<Rightarrow> int set" where
  "descendants b i = insert i
     (if inner b i \<and> 0 \<le> nd_high (node b i) \<and> nd_high (node b i) < i \<and> 0 \<le> nd_low (node b i) \<and> nd_low (node b i) < i
      then descendants b (nd_high (node b i)) \<union> descendants b (nd_low (node b i)) else {})"
  by pat_completeness auto
termination
  by (relation "measure (\<lambda>(b, i). nat i)") auto

declare descendants.simps [simp del]

definition bdd_room :: "bdd \<Rightarrow> int \<Rightarrow> int \<Rightarrow> bool" where
  "bdd_room b x y \<longleftrightarrow> length (bdd_nodes b) + card (descendants b x) * card (descendants b y) \<le> 2 ^ 31"

section \<open>Nodes and their functions\<close>

lemma inner_valid: "inner b i \<Longrightarrow> valid b i"
  by (simp add: inner_def valid_def)

lemma valid_cases: "valid b i \<longleftrightarrow> inner b i \<or> (i = 0 \<or> i = 1) \<and> valid b i"
  by (auto simp: valid_def inner_def)

lemma not_inner [simp]: "\<not> inner b 0" "\<not> inner b 1"
  by (simp_all add: inner_def)

lemma wf_valid_leaves [simp]: "wf_nodes b \<Longrightarrow> valid b 0" "wf_nodes b \<Longrightarrow> valid b 1"
  by (auto simp: wf_nodes_def valid_def)

lemma GetNode_valid [simp]: "valid b i \<Longrightarrow> Bdd_GetNode b i = Some (node b i)"
  by (auto simp: Bdd_GetNode_def valid_def)

lemma from_var_leaf [simp]: "from_var b v 0" "from_var b v 1"
  by (simp_all add: from_var_def)

lemma from_var_mono: "from_var b w i \<Longrightarrow> v \<le> w \<Longrightarrow> from_var b v i"
  by (auto simp: from_var_def)

lemma sem_leaf [simp]: "sem b 0 env \<longleftrightarrow> False" "sem b 1 env \<longleftrightarrow> True"
  by (simp_all add: sem.simps)

lemma node_okD:
  assumes "wf_nodes b" and "inner b i"
  shows "valid b (nd_high (node b i))" "valid b (nd_low (node b i))"
    "nd_high (node b i) < i" "nd_low (node b i) < i" "nd_high (node b i) \<noteq> nd_low (node b i)"
    "0 \<le> nd_high (node b i)" "0 \<le> nd_low (node b i)"
    "0 \<le> nd_variable (node b i)" "nd_variable (node b i) < bdd_next_var b"
    "from_var b (nd_variable (node b i) + 1) (nd_high (node b i))"
    "from_var b (nd_variable (node b i) + 1) (nd_low (node b i))"
    "nd_path_count (node b i) =
      min (nd_path_count (node b (nd_low (node b i))) + nd_path_count (node b (nd_high (node b i)))) int32_max"
proof -
  have "node_ok b i" using assms by (simp add: wf_nodes_def)
  then show "valid b (nd_high (node b i))" "valid b (nd_low (node b i))"
    "nd_high (node b i) < i" "nd_low (node b i) < i" "nd_high (node b i) \<noteq> nd_low (node b i)"
    "0 \<le> nd_high (node b i)" "0 \<le> nd_low (node b i)"
    "0 \<le> nd_variable (node b i)" "nd_variable (node b i) < bdd_next_var b"
    "from_var b (nd_variable (node b i) + 1) (nd_high (node b i))"
    "from_var b (nd_variable (node b i) + 1) (nd_low (node b i))"
    "nd_path_count (node b i) =
      min (nd_path_count (node b (nd_low (node b i))) + nd_path_count (node b (nd_high (node b i)))) int32_max"
    using assms(2) by (auto simp: node_ok_def Let_def valid_def inner_def)
qed

lemma sem_inner:
  "wf_nodes b \<Longrightarrow> inner b i \<Longrightarrow>
   sem b i env = sem b (if env (nd_variable (node b i)) then nd_high (node b i) else nd_low (node b i)) env"
  by (subst sem.simps) (simp add: node_okD)

text \<open>Induction along the diagram.\<close>

lemma bdd_induct [consumes 2, case_names leaf0 leaf1 inner]:
  assumes "wf_nodes b" and "valid b i" and "P 0" and "P 1"
    and step: "\<And>i. inner b i \<Longrightarrow> P (nd_high (node b i)) \<Longrightarrow> P (nd_low (node b i)) \<Longrightarrow> P i"
  shows "P i"
  using assms(2)
proof (induction "nat i" arbitrary: i rule: less_induct)
  case less
  show ?case
  proof (cases "inner b i")
    case True
    note ok = node_okD [OF assms(1) this]
    have "P (nd_high (node b i))" "P (nd_low (node b i))" using ok less.hyps by auto
    with True show ?thesis by (rule step)
  next
    case False
    with less.prems have "i = 0 \<or> i = 1" by (auto simp: valid_def inner_def)
    with assms(3,4) show ?thesis by auto
  qed
qed

lemma extends_refl [simp]: "extends b b"
  by (simp add: extends_def)

lemma extends_trans: "extends a b \<Longrightarrow> extends b c \<Longrightarrow> extends a c"
  by (auto simp: extends_def)

lemma extends_node: "extends b b' \<Longrightarrow> valid b i \<Longrightarrow> node b' i = node b i"
  by (auto simp: extends_def valid_def nth_append)

lemma extends_valid: "extends b b' \<Longrightarrow> valid b i \<Longrightarrow> valid b' i"
  by (auto simp: extends_def valid_def)

lemma extends_inner: "extends b b' \<Longrightarrow> valid b i \<Longrightarrow> inner b' i \<longleftrightarrow> inner b i"
  by (auto simp: extends_def valid_def inner_def)

lemma extends_from_var: "extends b b' \<Longrightarrow> valid b i \<Longrightarrow> from_var b' v i \<longleftrightarrow> from_var b v i"
  by (auto simp: from_var_def extends_inner extends_node)

lemma extends_sem:
  assumes "wf_nodes b" and "extends b b'" and "valid b i"
  shows "sem b' i env = sem b i env"
  using assms(1,3)
proof (induction rule: bdd_induct)
  case (inner i)
  note ok = node_okD [OF assms(1) inner.hyps]
  have "sem b' i env = sem b' (if env (nd_variable (node b i)) then nd_high (node b i) else nd_low (node b i)) env"
    using inner.hyps ok assms(2) by (subst sem.simps) (simp add: extends_inner extends_node inner_valid)
  then show ?case using inner.IH by (simp add: sem_inner [OF assms(1) inner.hyps])
qed simp_all

lemma extends_ite_ok:
  assumes "wf_nodes b" and "extends b b'" and "valid b c" and "valid b t" and "valid b f" and "ite_ok b c t f r"
  shows "ite_ok b' c t f r"
proof -
  have r: "valid b r" using assms(6) by (simp add: ite_ok_def)
  note sem = extends_sem [OF assms(1,2)] and fv = extends_from_var [OF assms(2)]
  show ?thesis
    using assms(6) extends_valid [OF assms(2) r]
    by (simp add: ite_ok_def sem [OF r] sem [OF assms(3)] sem [OF assms(4)] sem [OF assms(5)]
        fv [OF r] fv [OF assms(3)] fv [OF assms(4)] fv [OF assms(5)])
qed

lemma extends_wf_ite:
  assumes "wf_nodes b" and "extends b b'" and "bdd_ite_map b' = bdd_ite_map b" and "wf_ite b"
  shows "wf_ite b'"
  unfolding wf_ite_def assms(3)
proof (intro allI impI)
  fix c t f r assume "bdd_ite_map b (c, t, f) = Some r"
  with assms(4) have "valid b c" "valid b t" "valid b f" "ite_ok b c t f r" by (auto simp: wf_ite_def)
  then show "valid b' c \<and> valid b' t \<and> valid b' f \<and> ite_ok b' c t f r"
    using extends_ite_ok [OF assms(1,2)] extends_valid [OF assms(2)] by blast
qed

text \<open>The function of a node does not depend on the variables below its own.\<close>

lemma sem_independent:
  assumes "wf_nodes b" and "valid b i" and "from_var b (v + 1) i"
  shows "sem b i (env(v := x)) = sem b i env"
  using assms
proof (induction rule: bdd_induct)
  case (inner i)
  note ok = node_okD [OF assms(1) inner.hyps]
  have v: "v + 1 \<le> nd_variable (node b i)" using inner by (simp add: from_var_def)
  then have "from_var b (v + 1) (nd_high (node b i))" "from_var b (v + 1) (nd_low (node b i))"
    using ok(10,11) by (auto elim: from_var_mono)
  with inner.IH v show ?case by (simp add: sem_inner [OF assms(1) inner.hyps])
qed simp_all

section \<open>Operations\<close>

lemma sem_ite_map [simp]:
  "valid (b\<lparr>bdd_ite_map := m\<rparr>) i = valid b i" "inner (b\<lparr>bdd_ite_map := m\<rparr>) i = inner b i"
  "from_var (b\<lparr>bdd_ite_map := m\<rparr>) v i = from_var b v i"
  by (simp_all add: valid_def inner_def from_var_def)

lemma wf_add_ite:
  assumes "wf_bdd b" and "valid b c" and "valid b t" and "valid b f" and "ite_ok b c t f r"
  shows "wf_bdd (b\<lparr>bdd_ite_map := (bdd_ite_map b)((c, t, f) \<mapsto> r)\<rparr>)" (is "wf_bdd ?b")
proof -
  have ext: "extends b ?b" by (simp add: extends_def)
  have wf: "wf_nodes b" using assms(1) by (simp add: wf_bdd_def)
  have "wf_nodes ?b" using wf by (simp add: wf_nodes_def node_ok_def Let_def)
  moreover have "wf_base ?b" using assms(1) by (simp add: wf_bdd_def wf_base_def)
  moreover have "wf_ite ?b"
    unfolding wf_ite_def
  proof (intro allI impI)
    fix c' t' f' r' assume "bdd_ite_map ?b (c', t', f') = Some r'"
    then have "valid b c' \<and> valid b t' \<and> valid b f' \<and> ite_ok b c' t' f' r'"
      using assms by (auto simp: wf_bdd_def wf_ite_def split: if_splits)
    then show "valid ?b c' \<and> valid ?b t' \<and> valid ?b f' \<and> ite_ok ?b c' t' f' r'"
      using extends_ite_ok [OF wf ext] by auto
  qed
  ultimately show ?thesis by (simp add: wf_bdd_def)
qed

lemma GetOrCreateNode_ok:
  assumes "wf_nodes b" and "wf_ite b" and "valid b h" and "valid b l" and "h \<noteq> l"
    and "0 \<le> v" and "v < bdd_next_var b" and "from_var b (v + 1) h" and "from_var b (v + 1) l"
    and room: "length (bdd_nodes b) < 2 ^ 31"
  shows "\<exists>b' r. Bdd_GetOrCreateNode b v h l = Some (b', r) \<and> wf_nodes b' \<and> wf_ite b' \<and> extends b b' \<and>
    bdd_next_var b' = bdd_next_var b \<and> bdd_node_map b \<subseteq>\<^sub>m bdd_node_map b' \<and> bdd_node_map b' (v, h, l) = Some r \<and>
    inner b' r \<and> nd_variable (node b' r) = v \<and> nd_high (node b' r) = h \<and> nd_low (node b' r) = l \<and>
    bdd_ite_map b' = bdd_ite_map b \<and> length (bdd_nodes b') \<le> length (bdd_nodes b) + 1"
proof (cases "bdd_node_map b (v, h, l)")
  case (Some i)
  then have "inner b i \<and> nd_variable (node b i) = v \<and> nd_high (node b i) = h \<and> nd_low (node b i) = l"
    using assms(1) by (simp add: wf_nodes_def)
  with Some assms show ?thesis by (auto simp: Bdd_GetOrCreateNode_def)
next
  case None
  let ?n = "\<lparr>nd_variable = v, nd_high = h, nd_low = l,
    nd_path_count = min (nd_path_count (node b l) + nd_path_count (node b h)) int32_max\<rparr>"
  let ?r = "int (length (bdd_nodes b))"
  define b' where "b' = b\<lparr>bdd_nodes := bdd_nodes b @ [?n], bdd_node_map := (bdd_node_map b)((v, h, l) \<mapsto> ?r)\<rparr>"
  have b': "bdd_nodes b' = bdd_nodes b @ [?n]" "bdd_node_map b' = (bdd_node_map b)((v, h, l) \<mapsto> ?r)"
    "bdd_next_var b' = bdd_next_var b" "bdd_ite_map b' = bdd_ite_map b"
    by (simp_all add: b'_def)
  have ext: "extends b b'" by (simp add: extends_def b')
  have len: "2 \<le> length (bdd_nodes b)" using assms(1) by (simp add: wf_nodes_def)
  have new: "node b' ?r = ?n" "inner b' ?r" using len by (simp_all add: inner_def b')
  have inner: "inner b' i \<longleftrightarrow> inner b i \<or> i = ?r" for i using len by (auto simp: inner_def b')
  note old = extends_node [OF ext] and fv = extends_from_var [OF ext]
  have ok: "node_ok b' i" if "inner b' i" for i
  proof (cases "i = ?r")
    case True
    then show ?thesis
      using assms(3-9) new old [OF assms(3)] old [OF assms(4)] fv [OF assms(3)] fv [OF assms(4)]
      by (auto simp: node_ok_def Let_def valid_def b'(3))
  next
    case False
    then have i: "inner b i" using that inner by simp
    note ok = node_okD [OF assms(1) i]
    show ?thesis
      unfolding node_ok_def Let_def old [OF inner_valid [OF i]] old [OF ok(1)] old [OF ok(2)] fv [OF ok(1)] fv [OF ok(2)] b'(3)
      using ok by blast
  qed
  have map': "bdd_node_map b' (w, h', l') = Some i \<longleftrightarrow>
      inner b' i \<and> nd_variable (node b' i) = w \<and> nd_high (node b' i) = h' \<and> nd_low (node b' i) = l'" for w h' l' i
  proof (cases "i = ?r")
    case True
    have "bdd_node_map b (w, h', l') \<noteq> Some ?r" using assms(1) by (auto simp: wf_nodes_def inner_def)
    then show ?thesis using new True by (auto simp: b'(2))
  next
    case False
    have map: "bdd_node_map b (w, h', l') = Some i \<longleftrightarrow>
        inner b i \<and> nd_variable (node b i) = w \<and> nd_high (node b i) = h' \<and> nd_low (node b i) = l'" for w h' l'
      using assms(1) by (simp add: wf_nodes_def)
    show ?thesis
    proof (cases "inner b i")
      case True
      from old [OF inner_valid [OF True]] map [of w h' l'] map [of v h l] None False True show ?thesis
        by (auto simp: b'(2) inner)
    qed (use map [of w h' l'] False inner in \<open>auto simp: b'(2)\<close>)
  qed
  have "nd_path_count (node b' 0) = 1" "nd_path_count (node b' 1) = 1"
    using old [of 0] old [of 1] assms(1) by (simp_all add: wf_nodes_def)
  then have "wf_nodes b'" using assms(1) len ok map' unfolding wf_nodes_def b'(3) by (simp add: b'(1))
  moreover have "wf_ite b'" by (rule extends_wf_ite [OF assms(1) ext b'(4) assms(2)])
  moreover have "Bdd_GetOrCreateNode b v h l = Some (b', ?r)"
    using None assms(3,4,5) room by (simp add: Bdd_GetOrCreateNode_def Let_def b'_def)
  moreover have "bdd_node_map b \<subseteq>\<^sub>m bdd_node_map b'" using None by (auto simp: map_le_def b'(2))
  ultimately show ?thesis using ext new b' by (intro exI [of _ b'] exI [of _ ?r]) simp
qed

text \<open>The cofactor that \<open>Restrict\<close> returns.\<close>

definition cofactor :: "bdd \<Rightarrow> int \<Rightarrow> int \<Rightarrow> bool \<Rightarrow> int" where
  "cofactor b i v x = (if inner b i \<and> nd_variable (node b i) = v then (if x then nd_high (node b i) else nd_low (node b i)) else i)"

lemma Restrict_ok:
  assumes "wf_nodes b" and "valid b i" and "from_var b v i"
  shows "Bdd_Restrict b i v x = Some (cofactor b i v x)"
proof -
  have "i = 0 \<or> i = 1 \<or> inner b i" using assms(2) by (auto simp: valid_def inner_def)
  then show ?thesis using assms(2,3) by (auto simp: Bdd_Restrict_def cofactor_def from_var_def)
qed

lemma cofactor_ok:
  assumes "wf_nodes b" and "valid b i" and "from_var b v i"
  shows "valid b (cofactor b i v x)" and "from_var b (v + 1) (cofactor b i v x)"
    and "sem b (cofactor b i v x) env = sem b i (env(v := x))"
proof -
  show "valid b (cofactor b i v x)" using assms(2) node_okD(1,2) [OF assms(1)] by (simp add: cofactor_def)
  show fv: "from_var b (v + 1) (cofactor b i v x)"
    using assms(3) node_okD(10,11) [OF assms(1)] by (auto simp: cofactor_def from_var_def)
  show "sem b (cofactor b i v x) env = sem b i (env(v := x))"
  proof (cases "inner b i \<and> nd_variable (node b i) = v")
    case True
    note ok = node_okD [OF assms(1) conjunct1 [OF True]]
    have "sem b (cofactor b i v x) (env(v := x)) = sem b (cofactor b i v x) env"
      using True ok fv by (intro sem_independent [OF assms(1)]) (simp_all add: cofactor_def)
    with True show ?thesis by (simp add: sem_inner [OF assms(1), of i] cofactor_def)
  next
    case False
    then have "cofactor b i v x = i" by (auto simp: cofactor_def)
    then show ?thesis using sem_independent [OF assms(1,2)] fv by simp
  qed
qed

text \<open>The least top variable of three expressions, of which the first is not a leaf.\<close>

lemma min_with_ok:
  assumes "valid b i"
  shows "\<exists>m'. Bdd_min_with b m i = Some m' \<and> m' \<le> m \<and> from_var b m' i \<and> (m' = m \<or> inner b i \<and> nd_variable (node b i) = m')"
proof -
  have "i = 0 \<or> i = 1 \<or> inner b i" using assms by (auto simp: valid_def inner_def)
  then show ?thesis using assms by (auto simp: Bdd_min_with_def from_var_def inner_def min_def)
qed

lemma min_var_ok:
  assumes "wf_nodes b" and "inner b c" and "valid b t" and "valid b f"
  shows "\<exists>m1 m. Bdd_min_with b (nd_variable (node b c)) t = Some m1 \<and> Bdd_min_with b m1 f = Some m \<and>
    from_var b m c \<and> from_var b m t \<and> from_var b m f \<and> 0 \<le> m \<and> m < bdd_next_var b \<and>
    (\<forall>v. from_var b v c \<longrightarrow> from_var b v t \<longrightarrow> from_var b v f \<longrightarrow> v \<le> m)"
proof -
  obtain m1 where m1: "Bdd_min_with b (nd_variable (node b c)) t = Some m1" "m1 \<le> nd_variable (node b c)" "from_var b m1 t"
    "m1 = nd_variable (node b c) \<or> inner b t \<and> nd_variable (node b t) = m1"
    using min_with_ok [OF assms(3)] by blast
  obtain m where m: "Bdd_min_with b m1 f = Some m" "m \<le> m1" "from_var b m f" "m = m1 \<or> inner b f \<and> nd_variable (node b f) = m"
    using min_with_ok [OF assms(4)] by blast
  have "from_var b m c" "from_var b m t" using m1 m(2) by (auto simp: from_var_def)
  moreover have "\<exists>i. inner b i \<and> nd_variable (node b i) = m" using m(4) m1(4) assms(2) by auto
  then have "0 \<le> m" "m < bdd_next_var b" using node_okD(8,9) [OF assms(1)] by auto
  moreover have "v \<le> m" if "from_var b v c" "from_var b v t" "from_var b v f" for v
    using that m(4) m1(4) assms(2) by (auto simp: from_var_def)
  ultimately show ?thesis using m1(1) m(1,3) by blast
qed

lemma sem_shannon:
  assumes "sem b r1 env = F (env(m := True))" and "sem b r0 env = F (env(m := False))"
  shows "(if env m then sem b r1 env else sem b r0 env) = F env"
  using assms by (cases "env m") (simp_all add: fun_upd_idem)

lemma wf_bddD: "wf_bdd b \<Longrightarrow> wf_nodes b" "wf_bdd b \<Longrightarrow> wf_ite b" "wf_bdd b \<Longrightarrow> wf_base b"
  by (simp_all add: wf_bdd_def)

lemma wf_base_mono:
  assumes "wf_base b" and "bdd_node_map b \<subseteq>\<^sub>m bdd_node_map b'" and "bdd_next_var b' = bdd_next_var b"
  shows "wf_base b'"
  using assms(1) map_le_implies_dom_le [OF assms(2)] unfolding wf_base_def assms(3) by blast

lemma ite_okI_trivial:
  assumes "valid b c" and "valid b t" and "valid b f"
  shows "ite_ok b 1 t f t" and "ite_ok b 0 t f f" and "ite_ok b c 1 0 c" and "ite_ok b c t t t"
  using assms by (auto simp: ite_ok_def)

definition ite_result :: "bdd \<Rightarrow> int \<Rightarrow> int \<Rightarrow> int \<Rightarrow> bdd \<Rightarrow> int \<Rightarrow> bool" where
  "ite_result b c t f b' r \<longleftrightarrow> wf_bdd b' \<and> extends b b' \<and> bdd_next_var b' = bdd_next_var b \<and> ite_ok b' c t f r"

lemma ite_step:
  assumes "wf_bdd b" and "inner b c" and "valid b t" and "valid b f"
    and "from_var b m c" and "from_var b m t" and "from_var b m f" and "0 \<le> m" and "m < bdd_next_var b"
    and min: "\<forall>v. from_var b v c \<longrightarrow> from_var b v t \<longrightarrow> from_var b v f \<longrightarrow> v \<le> m"
    and r1: "ite_result b (cofactor b c m True) (cofactor b t m True) (cofactor b f m True) b1 r1"
    and r0: "ite_result b1 (cofactor b c m False) (cofactor b t m False) (cofactor b f m False) b0 r0"
  shows "r1 = r0 \<Longrightarrow> ite_ok b0 c t f r1"
    and "r1 \<noteq> r0 \<Longrightarrow> length (bdd_nodes b0) < 2 ^ 31 \<Longrightarrow> \<exists>b' r. Bdd_GetOrCreateNode b0 m r1 r0 = Some (b', r) \<and> ite_result b c t f b' r \<and>
      bdd_ite_map b' = bdd_ite_map b0 \<and> length (bdd_nodes b') \<le> length (bdd_nodes b0) + 1"
proof -
  note wf = wf_bddD(1) [OF assms(1)] and c = inner_valid [OF assms(2)]
  have ext1: "extends b b1" "wf_nodes b1" and ext0: "extends b1 b0" and wf0: "wf_bdd b0" "bdd_next_var b0 = bdd_next_var b"
    using r1 r0 by (auto simp: ite_result_def wf_bddD)
  note ext = extends_trans [OF ext1(1) ext0]
  note cof = cofactor_ok [OF wf c assms(5)] cofactor_ok [OF wf assms(3,6)] cofactor_ok [OF wf assms(4,7)]
  note sem0 = extends_sem [OF wf ext] and sem1 = extends_sem [OF wf ext1(1)]
  let ?F = "\<lambda>env. if sem b c env then sem b t env else sem b f env"
  have v1: "valid b1 r1" and v0: "valid b0 r0" using r1 r0 by (auto simp: ite_result_def ite_ok_def)
  have s1: "sem b0 r1 env = ?F (env(m := True))" and s0: "sem b0 r0 env = ?F (env(m := False))" for env
    using r1 r0 extends_sem [OF ext1(2) ext0 v1] by (simp_all add: ite_result_def ite_ok_def sem0 sem1 cof)
  have f1: "from_var b0 (m + 1) r1"
    using r1 cof extends_from_var [OF ext1(1)] extends_from_var [OF ext0 v1] by (simp add: ite_result_def ite_ok_def)
  have f0: "from_var b0 (m + 1) r0"
    using r0 cof extends_from_var [OF ext] by (simp add: ite_result_def ite_ok_def)
  note v10 = extends_valid [OF ext0 v1]
  have le: "v \<le> m" if "from_var b0 v c" "from_var b0 v t" "from_var b0 v f" for v
    using that min by (simp add: extends_from_var [OF ext c] extends_from_var [OF ext assms(3)] extends_from_var [OF ext assms(4)])
  show "ite_ok b0 c t f r1" if "r1 = r0"
    unfolding ite_ok_def
  proof (intro conjI allI impI)
    show "sem b0 r1 env = (if sem b0 c env then sem b0 t env else sem b0 f env)" for env
      using sem_shannon [of b0 r1 env ?F m r1, OF s1 s0 [folded that]] by (simp add: sem0 [OF c] sem0 [OF assms(3)] sem0 [OF assms(4)])
    show "from_var b0 v r1" if "from_var b0 v c" "from_var b0 v t" "from_var b0 v f" for v
      using le [OF that] f1 by (auto elim: from_var_mono)
  qed (rule v10)
  show "\<exists>b' r. Bdd_GetOrCreateNode b0 m r1 r0 = Some (b', r) \<and> ite_result b c t f b' r \<and>
      bdd_ite_map b' = bdd_ite_map b0 \<and> length (bdd_nodes b') \<le> length (bdd_nodes b0) + 1"
    if ne: "r1 \<noteq> r0" and room: "length (bdd_nodes b0) < 2 ^ 31"
  proof -
    obtain b' r where r: "Bdd_GetOrCreateNode b0 m r1 r0 = Some (b', r)" "wf_nodes b'" "wf_ite b'" "extends b0 b'"
      "bdd_next_var b' = bdd_next_var b0" "bdd_node_map b0 \<subseteq>\<^sub>m bdd_node_map b'"
      "inner b' r" "nd_variable (node b' r) = m" "nd_high (node b' r) = r1" "nd_low (node b' r) = r0"
      "bdd_ite_map b' = bdd_ite_map b0" "length (bdd_nodes b') \<le> length (bdd_nodes b0) + 1"
      using GetOrCreateNode_ok [OF wf_bddD(1,2) [OF wf0(1)] v10 v0 ne assms(8) _ f1 f0 room] assms(9) wf0(2) by auto
    note ext' = extends_trans [OF ext r(4)]
    have "wf_bdd b'" using r(2,3) wf_base_mono [OF wf_bddD(3) [OF wf0(1)] r(6,5)] by (simp add: wf_bdd_def)
    moreover have "ite_ok b' c t f r"
      unfolding ite_ok_def
    proof (intro conjI allI impI)
      show "sem b' r env = (if sem b' c env then sem b' t env else sem b' f env)" for env
        using sem_shannon [of b0 r1 env ?F m r0, OF s1 s0] extends_sem [OF wf_bddD(1) [OF wf0(1)] r(4)] v10 v0
        by (simp add: sem_inner [OF r(2,7)] r(8-10) extends_sem [OF wf ext'] c assms(3,4) split: if_splits)
      show "from_var b' v r" if "from_var b' v c" "from_var b' v t" "from_var b' v f" for v
        using that min r(8) by (simp add: extends_from_var [OF ext' c] extends_from_var [OF ext' assms(3)]
            extends_from_var [OF ext' assms(4)] from_var_def [of b' v r])
    qed (rule inner_valid [OF r(7)])
    ultimately show ?thesis using r(1,5,11,12) wf0(2) ext' by (auto simp: ite_result_def)
  qed
qed

text \<open>
  The cost of an if-then-else. \<open>P\<close> is a set of operand triples that is closed under cofactors; a triple is open when the
  computed table has no entry for it. Every node that the call adds closes an open triple.
\<close>

definition closed_triples :: "bdd \<Rightarrow> (int \<times> int \<times> int) set \<Rightarrow> bool" where
  "closed_triples b P \<longleftrightarrow> finite P \<and> (\<forall>(c, t, f)\<in>P. valid b c \<and> valid b t \<and> valid b f \<and>
     (\<forall>m x. (cofactor b c m x, cofactor b t m x, cofactor b f m x) \<in> P))"

definition open_triples :: "bdd \<Rightarrow> (int \<times> int \<times> int) set \<Rightarrow> (int \<times> int \<times> int) set" where
  "open_triples b P = {k \<in> P. bdd_ite_map b k = None}"

definition ite_cost :: "bdd \<Rightarrow> (int \<times> int \<times> int) set \<Rightarrow> nat" where
  "ite_cost b P = length (bdd_nodes b) + card (open_triples b P)"

definition new_keys :: "bdd \<Rightarrow> (int \<times> int \<times> int) set \<Rightarrow> int \<Rightarrow> bdd \<Rightarrow> bool" where
  "new_keys b P v b' \<longleftrightarrow> (\<forall>c t f. bdd_ite_map b (c, t, f) = None \<longrightarrow> bdd_ite_map b' (c, t, f) \<noteq> None \<longrightarrow>
     (c, t, f) \<in> P \<and> from_var b v c \<and> from_var b v t \<and> from_var b v f)"

lemma closed_triplesD:
  assumes "closed_triples b P" and "(c, t, f) \<in> P"
  shows "finite P" "valid b c" "valid b t" "valid b f" "(cofactor b c m x, cofactor b t m x, cofactor b f m x) \<in> P"
  using assms by (auto simp: closed_triples_def)

lemma extends_cofactor: "extends b b' \<Longrightarrow> valid b i \<Longrightarrow> cofactor b' i m x = cofactor b i m x"
  by (simp add: cofactor_def extends_inner extends_node)

lemma closed_triples_extends: "closed_triples b P \<Longrightarrow> extends b b' \<Longrightarrow> closed_triples b' P"
  unfolding closed_triples_def by (auto simp: extends_cofactor extends_valid)

lemma close_triple:
  assumes "(c, t, f) \<in> open_triples b P" and "finite P" and "bdd_ite_map b' = (bdd_ite_map b)((c, t, f) \<mapsto> r)"
    and "length (bdd_nodes b') \<le> length (bdd_nodes b) + 1"
  shows "ite_cost b' P \<le> ite_cost b P"
proof -
  have "open_triples b' P = open_triples b P - {(c, t, f)}" using assms(3) by (auto simp: open_triples_def)
  moreover have "finite (open_triples b P)" using assms(2) by (simp add: open_triples_def)
  ultimately have "card (open_triples b' P) + 1 = card (open_triples b P)" using card_Suc_Diff1 [OF _ assms(1)] by simp
  then show ?thesis using assms(4) by (simp add: ite_cost_def)
qed

lemma new_keys_trans:
  assumes "new_keys b P w b1" and "new_keys b1 P w b0" and "extends b b1" and "closed_triples b P" and "v \<le> w"
  shows "new_keys b P v b0"
  unfolding new_keys_def
proof (intro allI impI)
  fix c t f assume k: "bdd_ite_map b (c, t, f) = None" "bdd_ite_map b0 (c, t, f) \<noteq> None"
  have "(c, t, f) \<in> P \<and> from_var b w c \<and> from_var b w t \<and> from_var b w f"
  proof (cases "bdd_ite_map b1 (c, t, f) = None")
    case True
    then have "(c, t, f) \<in> P" "from_var b1 w c" "from_var b1 w t" "from_var b1 w f" using assms(2) k(2) by (auto simp: new_keys_def)
    then show ?thesis using closed_triplesD(2-4) [OF assms(4)] extends_from_var [OF assms(3)] by blast
  qed (use assms(1) k(1) in \<open>auto simp: new_keys_def\<close>)
  then show "(c, t, f) \<in> P \<and> from_var b v c \<and> from_var b v t \<and> from_var b v f" using assms(5) by (auto elim: from_var_mono)
qed

lemma IfThenElse_ok:
  assumes "wf_bdd b" and "closed_triples b P" and "(c, t, f) \<in> P"
    and "from_var b v c" and "from_var b v t" and "from_var b v f" and "ite_cost b P \<le> 2 ^ 31"
  shows "\<exists>b' r. Bdd_IfThenElse b c t f = Some (b', r) \<and> ite_result b c t f b' r \<and> ite_cost b' P \<le> ite_cost b P \<and> new_keys b P v b'"
  using assms
proof (induction "nat (bdd_next_var b - v)" arbitrary: b c t f v rule: less_induct)
  case less
  note wf = wf_bddD(1) [OF less.prems(1)] and val = closed_triplesD(2-4) [OF less.prems(2,3)]
  have triv: ?case if "Bdd_IfThenElse b c t f = Some (b, r)" "ite_ok b c t f r" for r
    using that less.prems(1) by (auto simp: ite_result_def new_keys_def)
  note simps = Bdd_IfThenElse.simps [of b c t f]
  consider (leaf) "c = 0 \<or> c = 1 \<or> t = 1 \<and> f = 0 \<or> t = f" |
    (cached) r where "c \<noteq> 0" "c \<noteq> 1" "\<not> (t = 1 \<and> f = 0)" "t \<noteq> f" "bdd_ite_map b (c, t, f) = Some r" |
    (new) "c \<noteq> 0" "c \<noteq> 1" "\<not> (t = 1 \<and> f = 0)" "t \<noteq> f" "bdd_ite_map b (c, t, f) = None"
    by (cases "bdd_ite_map b (c, t, f)") auto
  then show ?case
  proof cases
    case leaf
    let ?r = "if c = 1 then t else if c = 0 then f else if t = 1 \<and> f = 0 then c else t"
    have "Bdd_IfThenElse b c t f = Some (b, ?r)" using leaf by (subst simps) auto
    moreover have "ite_ok b c t f ?r" using leaf ite_okI_trivial [OF val] by auto
    ultimately show ?thesis by (rule triv)
  next
    case cached
    then have "ite_ok b c t f r" using less.prems(1) by (simp add: wf_bdd_def wf_ite_def)
    moreover have "Bdd_IfThenElse b c t f = Some (b, r)" using cached by (subst simps) auto
    ultimately show ?thesis by (intro triv)
  next
    case new
    have c: "inner b c" using new(1,2) val(1) by (auto simp: valid_def inner_def)
    obtain m1 m where m: "Bdd_min_with b (nd_variable (node b c)) t = Some m1" "Bdd_min_with b m1 f = Some m"
      "from_var b m c" "from_var b m t" "from_var b m f" "0 \<le> m" "m < bdd_next_var b"
      "\<forall>v. from_var b v c \<longrightarrow> from_var b v t \<longrightarrow> from_var b v f \<longrightarrow> v \<le> m"
      using min_var_ok [OF wf c val(2,3)] by blast
    have vm: "v \<le> m" using m(8) less.prems(4-6) by blast
    note cof = cofactor_ok(1,2) [OF wf val(1) m(3)] cofactor_ok(1,2) [OF wf val(2) m(4)] cofactor_ok(1,2) [OF wf val(3) m(5)]
    have IH: "\<exists>b' r. Bdd_IfThenElse b2 (cofactor b c m x) (cofactor b t m x) (cofactor b f m x) = Some (b', r) \<and>
        ite_result b2 (cofactor b c m x) (cofactor b t m x) (cofactor b f m x) b' r \<and> ite_cost b' P \<le> ite_cost b2 P \<and> new_keys b2 P (m + 1) b'"
      if "extends b b2" "wf_bdd b2" "bdd_next_var b2 = bdd_next_var b" "ite_cost b2 P \<le> ite_cost b P" for b2 x
      using less.hyps [of b2 "m + 1", OF _ that(2) closed_triples_extends [OF less.prems(2) that(1)] closed_triplesD(5) [OF less.prems(2,3)]]
        that vm m(7) cof extends_from_var [OF that(1)] less.prems(7) by simp
    obtain b1 r1 where r1: "Bdd_IfThenElse b (cofactor b c m True) (cofactor b t m True) (cofactor b f m True) = Some (b1, r1)"
      "ite_result b (cofactor b c m True) (cofactor b t m True) (cofactor b f m True) b1 r1" "ite_cost b1 P \<le> ite_cost b P" "new_keys b P (m + 1) b1"
      using IH [of b True] less.prems(1) by auto
    then have b1: "extends b b1" "wf_bdd b1" "bdd_next_var b1 = bdd_next_var b" by (simp_all add: ite_result_def)
    obtain b0 r0 where r0: "Bdd_IfThenElse b1 (cofactor b c m False) (cofactor b t m False) (cofactor b f m False) = Some (b0, r0)"
      "ite_result b1 (cofactor b c m False) (cofactor b t m False) (cofactor b f m False) b0 r0" "ite_cost b0 P \<le> ite_cost b1 P" "new_keys b1 P (m + 1) b0"
      using IH [OF b1 r1(3), of False] by auto
    have restrict: "Bdd_Restrict b1 i m x = Some (cofactor b i m x)" if "valid b i" "from_var b m i" for i x
      using Restrict_ok [OF wf_bddD(1) [OF b1(2)] extends_valid [OF b1(1) that(1)]] that extends_from_var [OF b1(1) that(1)]
        extends_cofactor [OF b1(1) that(1)] by simp
    note restr = Restrict_ok [OF wf val(1) m(3)] Restrict_ok [OF wf val(2) m(4)] Restrict_ok [OF wf val(3) m(5)]
      restrict [OF val(1) m(3)] restrict [OF val(2) m(4)] restrict [OF val(3) m(5)]
    note step = ite_step [OF less.prems(1) c val(2,3) m(3-8) r1(2) r0(2)]
    have ext: "extends b b0" "wf_bdd b0" "bdd_next_var b0 = bdd_next_var b"
      using b1 r0(2) by (auto simp: ite_result_def intro: extends_trans)
    have ite: "Bdd_IfThenElse b c t f = (if r1 = r0
        then Some (b0\<lparr>bdd_ite_map := (bdd_ite_map b0)((c, t, f) \<mapsto> r1)\<rparr>, r1)
        else do { r \<leftarrow> Bdd_GetOrCreateNode b0 m r1 r0;
          Some ((fst r)\<lparr>bdd_ite_map := (bdd_ite_map (fst r))((c, t, f) \<mapsto> snd r)\<rparr>, snd r) })"
      using new m(1,2) r1(1) r0(1) restr val(1) by (subst simps) (simp, blast)
    have add: "ite_result b c t f (b2\<lparr>bdd_ite_map := (bdd_ite_map b2)((c, t, f) \<mapsto> r)\<rparr>) r"
      if "ite_result b c t f b2 r" for b2 r
      using that wf_add_ite [of b2 c t f r] val extends_valid [of b b2]
        extends_ite_ok [of b2 "b2\<lparr>bdd_ite_map := (bdd_ite_map b2)((c, t, f) \<mapsto> r)\<rparr>" c t f r]
      by (auto simp: ite_result_def extends_def wf_bddD)
    have keys: "new_keys b P (m + 1) b0" by (rule new_keys_trans [OF r1(4) r0(4) b1(1) less.prems(2) order_refl])
    have "bdd_ite_map b0 (c, t, f) = None"
    proof (rule ccontr)
      assume "bdd_ite_map b0 (c, t, f) \<noteq> None"
      then have "m + 1 \<le> m" using keys new(5) m(8) unfolding new_keys_def by blast
      then show False by simp
    qed
    then have opn: "(c, t, f) \<in> open_triples b0 P" using less.prems(3) by (simp add: open_triples_def)
    then have "0 < card (open_triples b0 P)"
      using closed_triplesD(1) [OF less.prems(2,3)] by (auto simp: card_gt_0_iff open_triples_def)
    then have room: "length (bdd_nodes b0) < 2 ^ 31" using r0(3) r1(3) less.prems(7) by (simp add: ite_cost_def)
    have fin: "ite_cost b2 P \<le> ite_cost b P \<and> new_keys b P v b2"
      if "bdd_ite_map b2 = (bdd_ite_map b0)((c, t, f) \<mapsto> r)" "length (bdd_nodes b2) \<le> length (bdd_nodes b0) + 1" for b2 r
    proof
      show "ite_cost b2 P \<le> ite_cost b P"
        using close_triple [OF opn closed_triplesD(1) [OF less.prems(2,3)] that] r0(3) r1(3) by simp
      have "new_keys b P v b0" using new_keys_trans [OF r1(4) r0(4) b1(1) less.prems(2)] vm by simp
      then show "new_keys b P v b2" using that(1) less.prems(3-6) by (auto simp: new_keys_def)
    qed
    show ?thesis
    proof (cases "r1 = r0")
      case True
      then have "ite_result b c t f b0 r1" using step(1) ext by (simp add: ite_result_def)
      from add [OF this] fin [of "b0\<lparr>bdd_ite_map := (bdd_ite_map b0)((c, t, f) \<mapsto> r1)\<rparr>" r1] True show ?thesis by (simp add: ite)
    next
      case False
      from step(2) [OF this room] obtain b2 r where r: "Bdd_GetOrCreateNode b0 m r1 r0 = Some (b2, r)" "ite_result b c t f b2 r"
        "bdd_ite_map b2 = bdd_ite_map b0" "length (bdd_nodes b2) \<le> length (bdd_nodes b0) + 1" by blast
      from add [OF r(2)] fin [of "b2\<lparr>bdd_ite_map := (bdd_ite_map b2)((c, t, f) \<mapsto> r)\<rparr>" r] r False show ?thesis by (simp add: ite)
    qed
  qed
qed

lemma from_var_0: "wf_nodes b \<Longrightarrow> from_var b 0 i"
  using node_okD(8) by (auto simp: from_var_def)

text \<open>The descendants of three expressions give such a set of triples.\<close>

lemma descendants_inner:
  "wf_nodes b \<Longrightarrow> inner b i \<Longrightarrow> descendants b i = insert i (descendants b (nd_high (node b i)) \<union> descendants b (nd_low (node b i)))"
  by (subst descendants.simps) (simp add: node_okD)

lemma descendants_leaf [simp]: "descendants b 0 = {0}" "descendants b 1 = {1}"
  by (simp_all add: descendants.simps)

lemma descendants_ok:
  assumes "wf_nodes b" and "valid b i"
  shows "i \<in> descendants b i \<and> finite (descendants b i) \<and>
    (\<forall>j\<in>descendants b i. valid b j \<and> (\<forall>m x. cofactor b j m x \<in> descendants b i))"
  using assms
proof (induction rule: bdd_induct)
  case (inner i)
  note ok = node_okD [OF assms(1) inner.hyps]
  have self: "nd_high (node b i) \<in> descendants b (nd_high (node b i))" "nd_low (node b i) \<in> descendants b (nd_low (node b i))"
    using inner.IH by blast+
  then have "cofactor b i m x \<in> descendants b i" for m x unfolding descendants_inner [OF assms(1) inner.hyps] by (auto simp: cofactor_def)
  then show ?case using inner.IH inner_valid [OF inner.hyps] unfolding descendants_inner [OF assms(1) inner.hyps] by auto
qed (use assms(1) in \<open>auto simp: cofactor_def\<close>)

lemma card_descendants: "wf_nodes b \<Longrightarrow> valid b i \<Longrightarrow> 0 < card (descendants b i)"
  using descendants_ok [of b i] by (auto simp: card_gt_0_iff)

lemma IfThenElse_total:
  assumes "wf_bdd b" and "valid b c" and "valid b t" and "valid b f"
    and room: "length (bdd_nodes b) + card (descendants b c) * (card (descendants b t) * card (descendants b f)) \<le> 2 ^ 31"
  shows "\<exists>b' r. Bdd_IfThenElse b c t f = Some (b', r) \<and> ite_result b c t f b' r \<and>
    length (bdd_nodes b') \<le> length (bdd_nodes b) + card (descendants b c) * (card (descendants b t) * card (descendants b f))"
proof -
  note wf = wf_bddD(1) [OF assms(1)]
  let ?P = "descendants b c \<times> (descendants b t \<times> descendants b f)"
  note d = descendants_ok [OF wf assms(2)] descendants_ok [OF wf assms(3)] descendants_ok [OF wf assms(4)]
  have P: "closed_triples b ?P" "(c, t, f) \<in> ?P" using d by (auto simp: closed_triples_def)
  have "card (open_triples b ?P) \<le> card ?P" using d by (intro card_mono) (auto simp: open_triples_def)
  then have cost: "ite_cost b ?P \<le> length (bdd_nodes b) + card (descendants b c) * (card (descendants b t) * card (descendants b f))"
    by (simp add: ite_cost_def card_cartesian_product)
  then obtain b' r where "Bdd_IfThenElse b c t f = Some (b', r)" "ite_result b c t f b' r" "ite_cost b' ?P \<le> ite_cost b ?P"
    using IfThenElse_ok [OF assms(1) P, of 0] from_var_0 [OF wf] room by force
  then show ?thesis using cost by (auto simp: ite_cost_def)
qed

lemma IfThenElse_sem:
  assumes "wf_bdd b" and "valid b c" and "valid b t" and "valid b f"
    and "length (bdd_nodes b) + card (descendants b c) * (card (descendants b t) * card (descendants b f)) \<le> 2 ^ 31"
  shows "\<exists>b' r. Bdd_IfThenElse b c t f = Some (b', r) \<and> wf_bdd b' \<and> extends b b' \<and> valid b' r \<and>
    length (bdd_nodes b') \<le> length (bdd_nodes b) + card (descendants b c) * (card (descendants b t) * card (descendants b f)) \<and>
    (\<forall>env. sem b' r env = (if sem b c env then sem b t env else sem b f env))"
proof -
  obtain b' r where r: "Bdd_IfThenElse b c t f = Some (b', r)" "ite_result b c t f b' r"
    "length (bdd_nodes b') \<le> length (bdd_nodes b) + card (descendants b c) * (card (descendants b t) * card (descendants b f))"
    using IfThenElse_total [OF assms] by blast
  then have ext: "extends b b'" by (simp add: ite_result_def)
  note sem = extends_sem [OF wf_bddD(1) [OF assms(1)] ext]
  from r show ?thesis by (simp add: ite_result_def ite_ok_def sem [OF assms(2)] sem [OF assms(3)] sem [OF assms(4)])
qed

lemma if_bool_leaf:
  "(if p then q else False) = (p \<and> q)" "(if p then True else q) = (p \<or> q)" "(if p then False else True) = (\<not> p)"
  by simp_all

lemma wf_Bdd_new: "wf_bdd Bdd_new"
  by (auto simp: Bdd_new_def wf_bdd_def wf_nodes_def wf_base_def wf_ite_def inner_def nth_Cons')

text \<open>Every variable has a base node of its own.\<close>

lemma next_var_bound:
  assumes "wf_bdd b"
  shows "bdd_next_var b + 2 \<le> int (length (bdd_nodes b))"
proof -
  let ?g = "\<lambda>v. the (bdd_node_map b (v, 1, 0))"
  note wf = wf_bddD [OF assms]
  have g: "inner b (?g v)" "nd_variable (node b (?g v)) = v" if v: "v \<in> {0..<bdd_next_var b}" for v
  proof -
    obtain i where "bdd_node_map b (v, 1, 0) = Some i" using wf(3) v by (auto simp: wf_base_def)
    moreover from this have "inner b i" "nd_variable (node b i) = v" using wf(1) unfolding wf_nodes_def by blast+
    ultimately show "inner b (?g v)" "nd_variable (node b (?g v)) = v" by simp_all
  qed
  have "card {0..<bdd_next_var b} \<le> card {2..<int (length (bdd_nodes b))}"
  proof (rule card_inj_on_le)
    show "inj_on ?g {0..<bdd_next_var b}" by (rule inj_on_inverseI [where g = "\<lambda>i. nd_variable (node b i)"]) (rule g(2))
    show "?g ` {0..<bdd_next_var b} \<subseteq> {2..<int (length (bdd_nodes b))}" using g(1) by (auto simp: inner_def)
  qed simp
  moreover have "2 \<le> length (bdd_nodes b)" "0 \<le> bdd_next_var b" using wf(1) by (simp_all add: wf_nodes_def)
  ultimately show ?thesis by simp
qed

lemma NewVariable_ok:
  assumes "wf_bdd b" and room: "length (bdd_nodes b) < 2 ^ 31"
  shows "\<exists>b' r. Bdd_NewVariable b = Some (b', r) \<and> wf_bdd b' \<and> extends b b' \<and> valid b' r \<and>
    bdd_next_var b' = bdd_next_var b + 1 \<and> bdd_node_map b' (bdd_next_var b, 1, 0) = Some r \<and>
    length (bdd_nodes b') \<le> length (bdd_nodes b) + 1 \<and> (\<forall>env. sem b' r env = env (bdd_next_var b))"
proof -
  let ?v = "bdd_next_var b" let ?b = "b\<lparr>bdd_next_var := ?v + 1\<rparr>"
  note wf = wf_bddD [OF assms(1)]
  have v: "0 \<le> ?v" using wf(1) by (simp add: wf_nodes_def)
  have nxt: "to_int32 (?v + 1) = ?v + 1" using next_var_bound [OF assms(1)] room v by (intro to_int32_small) auto
  have ext: "extends b ?b" by (simp add: extends_def)
  have inner: "inner ?b i = inner b i" "valid ?b i = valid b i" "from_var ?b w i = from_var b w i" for i w
    by (simp_all add: inner_def valid_def from_var_def)
  have "node_ok ?b i" if "inner b i" for i
    using node_okD [OF wf(1) that] by (simp add: node_ok_def Let_def inner)
  then have nodes: "wf_nodes ?b" using wf(1) by (simp add: wf_nodes_def inner)
  have ite: "wf_ite ?b" by (rule extends_wf_ite [OF wf(1) ext _ wf(2)]) simp
  obtain b' r where r: "Bdd_GetOrCreateNode ?b ?v 1 0 = Some (b', r)" "wf_nodes b'" "wf_ite b'" "extends ?b b'"
    "bdd_next_var b' = ?v + 1" "bdd_node_map ?b \<subseteq>\<^sub>m bdd_node_map b'" "bdd_node_map b' (?v, 1, 0) = Some r"
    "inner b' r" "nd_variable (node b' r) = ?v" "nd_high (node b' r) = 1" "nd_low (node b' r) = 0"
    "length (bdd_nodes b') \<le> length (bdd_nodes b) + 1"
    using GetOrCreateNode_ok [OF nodes ite, of 1 0 ?v] nodes v room by auto
  have "wf_base b'"
    unfolding wf_base_def
  proof (intro allI impI)
    fix w assume w: "0 \<le> w \<and> w < bdd_next_var b'"
    show "bdd_node_map b' (w, 1, 0) \<noteq> None"
    proof (cases "w = ?v")
      case False
      then have "(w, 1, 0) \<in> dom (bdd_node_map b)" using wf(3) w r(5) by (auto simp: wf_base_def dom_def)
      then show ?thesis using map_le_implies_dom_le [OF r(6)] by auto
    qed (simp add: r(7))
  qed
  then have "wf_bdd b'" using r(2,3) by (simp add: wf_bdd_def)
  moreover have "sem b' r env = env ?v" for env by (simp add: sem_inner [OF r(2,8)] r(9-11))
  ultimately show ?thesis
    using r extends_trans [OF ext r(4)] inner_valid [OF r(8)] by (auto simp: Bdd_NewVariable_def Let_def nxt)
qed

text \<open>The logical operations, with room for the nodes that they can add.\<close>

lemma room_facts:
  assumes "wf_nodes b" and "valid b x" and "valid b y" and "bdd_room b x y"
  shows "length (bdd_nodes b) < 2 ^ 31" and "length (bdd_nodes b) + card (descendants b x) \<le> 2 ^ 31"
    and "card (descendants b x) \<le> card (descendants b x) * card (descendants b y)" and "1 \<le> card (descendants b x) * card (descendants b y)"
proof -
  have pos: "0 < card (descendants b x)" "0 < card (descendants b y)" using card_descendants [OF assms(1)] assms(2,3) by auto
  then show le: "card (descendants b x) \<le> card (descendants b x) * card (descendants b y)" "1 \<le> card (descendants b x) * card (descendants b y)"
    by (simp_all add: Suc_leI)
  show "length (bdd_nodes b) < 2 ^ 31" "length (bdd_nodes b) + card (descendants b x) \<le> 2 ^ 31"
    using assms(4) le unfolding bdd_room_def by linarith+
qed

text \<open>The diagrams a client can build with calls for which the table has room, and that all of them satisfy the invariant.\<close>

inductive bdd_reachable :: "bdd \<Rightarrow> bool" where
  new: "bdd_reachable Bdd_new"
| NewVariable: "bdd_reachable b \<Longrightarrow> bdd_room b 0 0 \<Longrightarrow> Bdd_NewVariable b = Some (b', r) \<Longrightarrow> bdd_reachable b'"
| Not: "bdd_reachable b \<Longrightarrow> valid b x \<Longrightarrow> bdd_room b x 0 \<Longrightarrow> Bdd_Not b x = Some (b', r) \<Longrightarrow> bdd_reachable b'"
| And: "bdd_reachable b \<Longrightarrow> valid b x \<Longrightarrow> valid b y \<Longrightarrow> bdd_room b x y \<Longrightarrow> Bdd_And b x y = Some (b', r) \<Longrightarrow> bdd_reachable b'"
| Or: "bdd_reachable b \<Longrightarrow> valid b x \<Longrightarrow> valid b y \<Longrightarrow> bdd_room b x y \<Longrightarrow> Bdd_Or b x y = Some (b', r) \<Longrightarrow> bdd_reachable b'"

lemma bdd_reachable_wf: "bdd_reachable b \<Longrightarrow> wf_bdd b"
proof (induction rule: bdd_reachable.induct)
  case new
  show ?case by (rule wf_Bdd_new)
next
  case (NewVariable b b' r)
  then show ?case using NewVariable_ok [of b] by (auto simp: bdd_room_def)
next
  case (Not b x b' r)
  then show ?case using IfThenElse_sem [of b x 0 1] by (auto simp: Bdd_Not_def bdd_room_def wf_bddD)
next
  case (And b x y b' r)
  then show ?case using IfThenElse_sem [of b x y 0] by (auto simp: Bdd_And_def bdd_room_def wf_bddD)
next
  case (Or b x y b' r)
  then show ?case using IfThenElse_sem [of b x 1 y] by (auto simp: Bdd_Or_def bdd_room_def wf_bddD)
qed

section \<open>Canonicity, evaluation and path counts\<close>






text \<open>Evaluation never aborts; a missing variable is an error, and otherwise the result is that of
  the function under any assignment that agrees with the given values.\<close>

lemma GetVariableBaseNode_ok:
  assumes "wf_bdd b" and "0 \<le> v" and "v < bdd_next_var b"
  shows "\<exists>i. Bdd_GetVariableBaseNode b v = Some i"
  using assms wf_bddD(3) [OF assms(1)] by (auto simp: Bdd_GetVariableBaseNode_def wf_base_def)

definition agrees :: "bdd \<Rightarrow> (int \<rightharpoonup> bool) \<Rightarrow> (int \<Rightarrow> bool) \<Rightarrow> bool" where
  "agrees b values env \<longleftrightarrow>
     (\<forall>v i x. Bdd_GetVariableBaseNode b v = Some i \<longrightarrow> values i = Some x \<longrightarrow> env v = x)"

lemma Evaluate_ok:
  assumes "wf_bdd b" and "valid b i"
  shows "Bdd_Evaluate b i values = Some (Inl InvalidArgument) \<or>
    (\<exists>x. Bdd_Evaluate b i values = Some (Inr x) \<and> (\<forall>env. agrees b values env \<longrightarrow> sem b i env = x))"
  using wf_bddD(1) [OF assms(1)] assms(2)
proof (induction rule: bdd_induct)
  case (inner i)
  note wf = wf_bddD(1) [OF assms(1)]
  note ok = node_okD [OF wf inner.hyps]
  obtain n where n: "Bdd_GetVariableBaseNode b (nd_variable (node b i)) = Some n"
    using GetVariableBaseNode_ok [OF assms(1) ok(8,9)] by blast
  have ne: "i \<noteq> 0" "i \<noteq> 1" using inner.hyps by (auto simp: inner_def)
  show ?case
  proof (cases "values n")
    case None
    then show ?thesis using n ne inner.hyps by (subst Bdd_Evaluate.simps) (simp add: inner_valid)
  next
    case (Some x)
    have "Bdd_Evaluate b i values = Bdd_Evaluate b (if x then nd_high (node b i) else nd_low (node b i)) values"
      using n ne inner.hyps Some by (subst Bdd_Evaluate.simps) (simp add: inner_valid)
    moreover have "agrees b values env \<Longrightarrow> sem b i env = sem b (if x then nd_high (node b i) else nd_low (node b i)) env" for env
      using n Some by (simp add: agrees_def sem_inner [OF wf inner.hyps])
    ultimately show ?thesis using inner.IH by (cases x) auto
  qed
qed (auto simp: Bdd_Evaluate.simps)

lemma Evaluate_complete:
  assumes "wf_bdd b" and "valid b i"
    and "\<And>v n. 0 \<le> v \<Longrightarrow> v < bdd_next_var b \<Longrightarrow> Bdd_GetVariableBaseNode b v = Some n \<Longrightarrow> values n \<noteq> None"
  shows "Bdd_Evaluate b i values \<noteq> Some (Inl e)"
  using wf_bddD(1) [OF assms(1)] assms(2)
proof (induction rule: bdd_induct)
  case (inner i)
  note wf = wf_bddD(1) [OF assms(1)]
  note ok = node_okD [OF wf inner.hyps]
  obtain n x where n: "Bdd_GetVariableBaseNode b (nd_variable (node b i)) = Some n" "values n = Some x"
    using GetVariableBaseNode_ok [OF assms(1) ok(8,9)] assms(3) [OF ok(8,9)] by blast
  then show ?case using inner by (subst Bdd_Evaluate.simps) (simp add: inner_valid)
qed (simp_all add: Bdd_Evaluate.simps)

text \<open>The number of paths to a leaf.\<close>

function paths :: "bdd \<Rightarrow> int \<Rightarrow> int" where
  "paths b i =
     (if inner b i \<and> 0 \<le> nd_high (node b i) \<and> nd_high (node b i) < i \<and> 0 \<le> nd_low (node b i) \<and> nd_low (node b i) < i
      then paths b (nd_low (node b i)) + paths b (nd_high (node b i)) else 1)"
  by pat_completeness auto
termination
  by (relation "measure (\<lambda>(b, i). nat i)") auto

declare paths.simps [simp del]

lemma path_count_ok:
  assumes "wf_nodes b" and "valid b i"
  shows "nd_path_count (node b i) = min (paths b i) int32_max \<and> 0 < paths b i"
  using assms
proof (induction rule: bdd_induct)
  case (inner i)
  note ok = node_okD [OF assms(1) inner.hyps]
  have "paths b i = paths b (nd_low (node b i)) + paths b (nd_high (node b i))"
    using inner.hyps ok by (subst paths.simps) simp
  then show ?case using ok(12) inner.IH by (auto simp: int32_max_def min_def)
qed (use assms in \<open>auto simp: wf_nodes_def paths.simps int32_max_def\<close>)

section \<open>Properties\<close>

text \<open>A diagram with the two variables 0 and 1, at the nodes 2 and 3.\<close>

definition bdd_two :: bdd where
  "bdd_two = fst (the (Bdd_NewVariable (fst (the (Bdd_NewVariable Bdd_new)))))"

lemmas bdd_two_eval =
  bdd_two_def Bdd_NewVariable_def Bdd_new_def Bdd_GetOrCreateNode_def Bdd_GetNode_def int32_max_def to_int32_def Let_def

lemma bdd_two_reachable: "bdd_reachable bdd_two"
proof -
  obtain b1 r1 where 1: "Bdd_NewVariable Bdd_new = Some (b1, r1)" "length (bdd_nodes b1) = 3"
    by (simp add: bdd_two_eval)
  have b1: "bdd_reachable b1" by (rule bdd_reachable.NewVariable [OF bdd_reachable.new _ 1(1)]) (simp add: bdd_room_def Bdd_new_def)
  obtain b2 r2 where 2: "Bdd_NewVariable b1 = Some (b2, r2)" using NewVariable_ok [OF bdd_reachable_wf [OF b1]] 1(2) by auto
  have "bdd_reachable b2" by (rule bdd_reachable.NewVariable [OF b1 _ 2]) (simp add: bdd_room_def 1(2))
  then show ?thesis using 1 2 by (simp add: bdd_two_def)
qed

lemma bdd_two_valid: "valid bdd_two i \<longleftrightarrow> 0 \<le> i \<and> i < 4"
  by (simp add: valid_def bdd_two_eval)

lemma bdd_two_sem: "sem bdd_two 2 env = env 0" "sem bdd_two 3 env = env 1"
  by (simp_all add: sem.simps inner_def bdd_two_eval)

lemma bdd_two_room: "bdd_room bdd_two 2 3"
proof -
  have "descendants bdd_two 2 = {2, 0, 1}" "descendants bdd_two 3 = {3, 0, 1}"
    by (subst descendants.simps, simp add: inner_def bdd_two_eval)+
  moreover have "length (bdd_nodes bdd_two) = 4" by (simp add: bdd_two_eval)
  ultimately show ?thesis by (simp add: bdd_room_def)
qed

text \<open>C9: on every diagram that a client builds, the logical operations terminate and pass all their
  checks, keep the invariant and the function of every existing node, and return a node for the
  negation, conjunction or disjunction; a new variable's node stands for the variable. An operation adds at most as many
  nodes as there are pairs of nodes below its operands. Node indices are 32-bit: this holds for calls, and for diagrams built
  by calls, for which the nodes of the table and that number of pairs are at most \<open>2^31\<close> together.\<close>

theorem bdd_operations_correct:
  assumes "bdd_reachable b" and "valid b x" and "valid b y" and "bdd_room b x y"
  shows "(\<exists>b' r. Bdd_And b x y = Some (b', r) \<and> wf_bdd b' \<and> extends b b' \<and> valid b' r \<and>
      length (bdd_nodes b') \<le> length (bdd_nodes b) + card (descendants b x) * card (descendants b y) \<and>
      (\<forall>env. sem b' r env \<longleftrightarrow> sem b x env \<and> sem b y env)) \<and>
    (\<exists>b' r. Bdd_Or b x y = Some (b', r) \<and> wf_bdd b' \<and> extends b b' \<and> valid b' r \<and>
      length (bdd_nodes b') \<le> length (bdd_nodes b) + card (descendants b x) * card (descendants b y) \<and>
      (\<forall>env. sem b' r env \<longleftrightarrow> sem b x env \<or> sem b y env)) \<and>
    (\<exists>b' r. Bdd_Not b x = Some (b', r) \<and> wf_bdd b' \<and> extends b b' \<and> valid b' r \<and>
      length (bdd_nodes b') \<le> length (bdd_nodes b) + card (descendants b x) \<and>
      (\<forall>env. sem b' r env \<longleftrightarrow> \<not> sem b x env)) \<and>
    (\<exists>b' r. Bdd_NewVariable b = Some (b', r) \<and> wf_bdd b' \<and> extends b b' \<and> valid b' r \<and>
      length (bdd_nodes b') \<le> length (bdd_nodes b) + 1 \<and> (\<forall>env. sem b' r env \<longleftrightarrow> env (Bdd_variable_count b)))"
proof -
  note wf = bdd_reachable_wf [OF assms(1)]
  note leaves = wf_valid_leaves [OF wf_bddD(1) [OF wf]]
  note room = room_facts [OF wf_bddD(1) [OF wf] assms(2-4)] assms(4) [unfolded bdd_room_def]
  show ?thesis
  proof (intro conjI)
    show "\<exists>b' r. Bdd_And b x y = Some (b', r) \<and> wf_bdd b' \<and> extends b b' \<and> valid b' r \<and>
        length (bdd_nodes b') \<le> length (bdd_nodes b) + card (descendants b x) * card (descendants b y) \<and>
        (\<forall>env. sem b' r env \<longleftrightarrow> sem b x env \<and> sem b y env)"
      using IfThenElse_sem [OF wf assms(2,3) leaves(1)] room by (simp add: Bdd_And_def if_bool_leaf cong: if_cong)
    show "\<exists>b' r. Bdd_Or b x y = Some (b', r) \<and> wf_bdd b' \<and> extends b b' \<and> valid b' r \<and>
        length (bdd_nodes b') \<le> length (bdd_nodes b) + card (descendants b x) * card (descendants b y) \<and>
        (\<forall>env. sem b' r env \<longleftrightarrow> sem b x env \<or> sem b y env)"
      using IfThenElse_sem [OF wf assms(2) leaves(2) assms(3)] room by (simp add: Bdd_Or_def if_bool_leaf cong: if_cong)
    show "\<exists>b' r. Bdd_Not b x = Some (b', r) \<and> wf_bdd b' \<and> extends b b' \<and> valid b' r \<and>
        length (bdd_nodes b') \<le> length (bdd_nodes b) + card (descendants b x) \<and> (\<forall>env. sem b' r env \<longleftrightarrow> \<not> sem b x env)"
      using IfThenElse_sem [OF wf assms(2) leaves] room by (simp add: Bdd_Not_def if_bool_leaf cong: if_cong)
    show "\<exists>b' r. Bdd_NewVariable b = Some (b', r) \<and> wf_bdd b' \<and> extends b b' \<and> valid b' r \<and>
        length (bdd_nodes b') \<le> length (bdd_nodes b) + 1 \<and> (\<forall>env. sem b' r env \<longleftrightarrow> env (Bdd_variable_count b))"
      using NewVariable_ok [OF wf room(1)] by (auto simp: Bdd_variable_count_def)
  qed
qed

theorem bdd_operations_correct_witness:
  "bdd_reachable bdd_two \<and> (\<exists>b r. Bdd_And bdd_two 2 3 = Some (b, r) \<and> (\<forall>env. sem b r env \<longleftrightarrow> env 0 \<and> env 1))"
  using bdd_operations_correct [OF bdd_two_reachable _ _ bdd_two_room] bdd_two_reachable
  by (auto simp: bdd_two_valid bdd_two_sem)



text \<open>\<open>Evaluate\<close> terminates on every expression; it returns the value of the expression's function
  under the given values, or InvalidArgument, which it does not when every variable has a value.\<close>

lemma bdd_evaluate_exact:
  assumes "bdd_reachable b" and "valid b i"
  shows "(Bdd_Evaluate b i values = Some (Inl InvalidArgument) \<or>
      (\<exists>x. Bdd_Evaluate b i values = Some (Inr x) \<and> (\<forall>env. agrees b values env \<longrightarrow> sem b i env = x))) \<and>
    ((\<forall>v n. Bdd_GetVariableBaseNode b v = Some n \<longrightarrow> values n \<noteq> None) \<longrightarrow>
      Bdd_Evaluate b i values \<noteq> Some (Inl InvalidArgument))"
  using Evaluate_ok [OF bdd_reachable_wf [OF assms(1)] assms(2), of "values"]
    Evaluate_complete [OF bdd_reachable_wf [OF assms(1)] assms(2), of "values"] by blast

text \<open>The stored path count of a node is the number of paths to the leaves, saturated at the largest
  32-bit value.\<close>

lemma bdd_path_count_saturates:
  assumes "bdd_reachable b" and "valid b i"
  shows "Bdd_path_count b i = Some (min (paths b i) int32_max)"
  using path_count_ok [OF wf_bddD(1) [OF bdd_reachable_wf [OF assms(1)]] assms(2)] assms(2)
  by (simp add: Bdd_path_count_def)

end
