(* ===== verification/Xls_Search.thy ===== *)
theory Xls_Search
  imports Xls_Prelude
begin

text \<open>
  \<open>xls/data_structures/binary_search.cc\<close> and \<open>xls/data_structures/transitive_closure.h\<close>.

  The searches take the predicate as a function; \<open>XLS_RET_CHECK\<close> failing is the status \<open>Internal\<close>.
  The 64-bit integers are \<open>int\<close>: a subtraction that leaves the range is undefined behaviour, which is
  \<open>None\<close> like a failed check. The closure is Warshall's algorithm on indices; a hash relation is a
  map from nodes to sets.
\<close>

section \<open>Binary search\<close>

definition int64_ok :: "int \<Rightarrow> bool" where
  "int64_ok x \<longleftrightarrow> - (2 ^ 63) \<le> x \<and> x < 2 ^ 63"

function max_true_loop :: "(int \<Rightarrow> bool statusor) \<Rightarrow> int \<Rightarrow> int \<Rightarrow> int statusor option" where
  "max_true_loop f highest_true lowest_false =
     (if \<not> int64_ok (lowest_false - 1) then None
      else if highest_true < lowest_false - 1 then
        (if \<not> int64_ok (lowest_false - highest_true) then None
         else let middle = highest_true + (lowest_false - highest_true) div 2
         in case f middle of
              Inl e \<Rightarrow> Some (Inl e)
            | Inr f_middle \<Rightarrow>
                if f_middle then max_true_loop f middle lowest_false
                else max_true_loop f highest_true middle)
      else Some (Inr highest_true))"
  by pat_completeness auto
termination
  by (relation "measure (\<lambda>(f, h, l). nat (l - h))") auto

declare max_true_loop.simps [simp del]

definition BinarySearchMaxTrueWithStatus :: "int \<Rightarrow> int \<Rightarrow> (int \<Rightarrow> bool statusor) \<Rightarrow> int statusor option" where
  "BinarySearchMaxTrueWithStatus start stop f =
     (if \<not> start \<le> stop then Some (Inl Internal)
      else case f start of
        Inl e \<Rightarrow> Some (Inl e)
      | Inr f_start \<Rightarrow>
          if \<not> f_start then Some (Inl InvalidArgument)
          else case f stop of
            Inl e \<Rightarrow> Some (Inl e)
          | Inr f_end \<Rightarrow> if f_end then Some (Inr stop) else max_true_loop f start stop)"

function min_true_loop :: "(int \<Rightarrow> bool statusor) \<Rightarrow> int \<Rightarrow> int \<Rightarrow> int statusor option" where
  "min_true_loop f highest_false lowest_true =
     (if \<not> int64_ok (lowest_true - 1) then None
      else if highest_false < lowest_true - 1 then
        (if \<not> int64_ok (lowest_true - highest_false) then None
         else let middle = highest_false + (lowest_true - highest_false) div 2
         in case f middle of
              Inl e \<Rightarrow> Some (Inl e)
            | Inr f_middle \<Rightarrow>
                if f_middle then min_true_loop f highest_false middle
                else min_true_loop f middle lowest_true)
      else Some (Inr lowest_true))"
  by pat_completeness auto
termination
  by (relation "measure (\<lambda>(f, h, l). nat (l - h))") auto

declare min_true_loop.simps [simp del]

definition BinarySearchMinTrueWithStatus :: "int \<Rightarrow> int \<Rightarrow> (int \<Rightarrow> bool statusor) \<Rightarrow> int statusor option" where
  "BinarySearchMinTrueWithStatus start stop f =
     (if \<not> start \<le> stop then Some (Inl Internal)
      else case f stop of
        Inl e \<Rightarrow> Some (Inl e)
      | Inr f_end \<Rightarrow>
          if \<not> f_end then Some (Inl InvalidArgument)
          else case f start of
            Inl e \<Rightarrow> Some (Inl e)
          | Inr f_start \<Rightarrow> if f_start then Some (Inr start) else min_true_loop f start stop)"

definition BinarySearchMaxTrue :: "int \<Rightarrow> int \<Rightarrow> (int \<Rightarrow> bool) \<Rightarrow> int option" where
  "BinarySearchMaxTrue start stop f = do {
     CHECK (start \<le> stop);
     CHECK (f start);
     if f stop then Some stop
     else do {
       r \<leftarrow> BinarySearchMaxTrueWithStatus start stop (\<lambda>i. Inr (f i));
       status_value r
     }
   }"

definition BinarySearchMinTrue :: "int \<Rightarrow> int \<Rightarrow> (int \<Rightarrow> bool) \<Rightarrow> int option" where
  "BinarySearchMinTrue start stop f = do {
     CHECK (start \<le> stop);
     CHECK (f stop);
     if f start then Some start
     else do {
       r \<leftarrow> BinarySearchMinTrueWithStatus start stop (\<lambda>i. Inr (f i));
       status_value r
     }
   }"

section \<open>Transitive closure\<close>

type_synonym 'v hash_relation = "'v \<rightharpoonup> 'v set"

definition tc_get :: "nat hash_relation \<Rightarrow> nat \<Rightarrow> nat \<Rightarrow> bool" where
  "tc_get rel i j \<longleftrightarrow> (case rel i of None \<Rightarrow> False | Some s \<Rightarrow> j \<in> s)"

text \<open>\<open>operator[]\<close> inserts an empty set for a missing key, also when the bit is cleared.\<close>

definition tc_set :: "nat hash_relation \<Rightarrow> nat \<Rightarrow> nat \<Rightarrow> bool \<Rightarrow> nat hash_relation" where
  "tc_set rel i j value =
     (let s = (case rel i of None \<Rightarrow> {} | Some s \<Rightarrow> s)
      in rel(i \<mapsto> (if value then insert j s else s - {j})))"

definition tc_row :: "nat hash_relation \<Rightarrow> nat \<Rightarrow> nat \<Rightarrow> nat list \<Rightarrow> nat hash_relation \<Rightarrow> nat hash_relation" where
  "tc_row lag k i js closure =
     fold (\<lambda>j closure. tc_set closure i j (tc_get lag i j \<or> tc_get lag i k \<and> tc_get lag k j)) js closure"

definition tc_round :: "nat \<Rightarrow> nat hash_relation \<Rightarrow> nat \<Rightarrow> nat list \<Rightarrow> nat hash_relation \<Rightarrow> nat hash_relation" where
  "tc_round n lag k rows closure = fold (\<lambda>i closure. tc_row lag k i [0..<n] closure) rows closure"

definition tc_warshall :: "nat \<Rightarrow> nat list \<Rightarrow> nat hash_relation \<Rightarrow> nat hash_relation" where
  "tc_warshall n ks lag = fold (\<lambda>k lag. tc_round n lag k [0..<n] lag) ks lag"

text \<open>The relation as the list of its entries in the (unspecified) order of iteration.\<close>

definition tc_nodes :: "('v \<times> 'v list) list \<Rightarrow> 'v::linorder list" where
  "tc_nodes relation = sorted_list_of_set (fst ` set relation \<union> (\<Union>(_, cs) \<in> set relation. set cs))"

definition tc_initial :: "('v \<Rightarrow> nat) \<Rightarrow> ('v \<times> 'v list) list \<Rightarrow> nat hash_relation" where
  "tc_initial node_to_index relation =
     fold (\<lambda>(node, children) lag. fold (\<lambda>child lag. tc_set lag (node_to_index node) (node_to_index child) True) children lag)
       relation Map.empty"

definition tc_node_to_index :: "'v list \<Rightarrow> 'v \<Rightarrow> nat" where
  "tc_node_to_index ordered_nodes v = length (takeWhile (\<lambda>w. w \<noteq> v) ordered_nodes)"

text \<open>The entries of the result, as the set of its pairs: a key is created only with its first child.\<close>

definition tc_result :: "'v list \<Rightarrow> nat hash_relation \<Rightarrow> ('v \<times> 'v) set" where
  "tc_result ordered_nodes closure =
     (\<lambda>(i, j). (ordered_nodes ! i, ordered_nodes ! j)) `
       set (filter (\<lambda>(i, j). tc_get closure i j)
         (List.product [0..<length ordered_nodes] [0..<length ordered_nodes]))"

definition TransitiveClosure :: "('v::linorder \<times> 'v list) list \<Rightarrow> ('v \<times> 'v) set" where
  "TransitiveClosure relation =
     (if relation = [] then {}
      else let ordered_nodes = tc_nodes relation;
               n = length ordered_nodes;
               lag = tc_initial (tc_node_to_index ordered_nodes) relation
           in tc_result ordered_nodes (tc_warshall n [0..<n] lag))"

section \<open>Correctness of the searches\<close>

text \<open>What the two loops keep: the predicate holds at one end of the range and fails at the other.\<close>

lemma middle_between: "h < l - 1 \<Longrightarrow> h < h + (l - h) div 2 \<and> h + (l - h) div 2 < l" for h l :: int
  by auto

lemma max_true_loop_ok:
  "h < l \<Longrightarrow> - (2 ^ 63) \<le> h \<Longrightarrow> l < 2 ^ 63 \<Longrightarrow> l - h < 2 ^ 63 \<Longrightarrow> f h = Inr True \<Longrightarrow> f l = Inr False \<Longrightarrow>
   (\<And>i. h \<le> i \<Longrightarrow> i \<le> l \<Longrightarrow> \<exists>x. f i = Inr x) \<Longrightarrow>
   \<exists>k. max_true_loop f h l = Some (Inr k) \<and> h \<le> k \<and> k < l \<and> f k = Inr True \<and> f (k + 1) = Inr False"
proof (induction f h l rule: max_true_loop.induct)
  case (1 f h l)
  let ?m = "h + (l - h) div 2"
  have ok: "int64_ok (l - 1)" "int64_ok (l - h)" using "1.prems"(1-4) by (auto simp: int64_ok_def)
  show ?case
  proof (cases "h < l - 1")
    case True
    note m = middle_between [OF True]
    obtain x where x: "f ?m = Inr x" using "1.prems"(7) [of ?m] m by auto
    show ?thesis
    proof (cases x)
      case True
      have "\<exists>k. max_true_loop f ?m l = Some (Inr k) \<and> ?m \<le> k \<and> k < l \<and> f k = Inr True \<and> f (k + 1) = Inr False"
        using "1.IH"(1) [OF _ \<open>h < l - 1\<close> _ refl x] ok True x m "1.prems" by auto
      then show ?thesis using \<open>h < l - 1\<close> ok x True m by (subst max_true_loop.simps) (auto simp: Let_def)
    next
      case False
      have "\<exists>k. max_true_loop f h ?m = Some (Inr k) \<and> h \<le> k \<and> k < ?m \<and> f k = Inr True \<and> f (k + 1) = Inr False"
        using "1.IH"(2) [OF _ \<open>h < l - 1\<close> _ refl x] ok False x m "1.prems" by auto
      then show ?thesis using \<open>h < l - 1\<close> ok x False m by (subst max_true_loop.simps) (auto simp: Let_def)
    qed
  next
    case False
    then have "l = h + 1" using "1.prems"(1) by simp
    then show ?thesis using ok "1.prems"(5,6) by (subst max_true_loop.simps) simp
  qed
qed

lemma min_true_loop_ok:
  "h < l \<Longrightarrow> - (2 ^ 63) \<le> h \<Longrightarrow> l < 2 ^ 63 \<Longrightarrow> l - h < 2 ^ 63 \<Longrightarrow> f h = Inr False \<Longrightarrow> f l = Inr True \<Longrightarrow>
   (\<And>i. h \<le> i \<Longrightarrow> i \<le> l \<Longrightarrow> \<exists>x. f i = Inr x) \<Longrightarrow>
   \<exists>k. min_true_loop f h l = Some (Inr k) \<and> h < k \<and> k \<le> l \<and> f k = Inr True \<and> f (k - 1) = Inr False"
proof (induction f h l rule: min_true_loop.induct)
  case (1 f h l)
  let ?m = "h + (l - h) div 2"
  have ok: "int64_ok (l - 1)" "int64_ok (l - h)" using "1.prems"(1-4) by (auto simp: int64_ok_def)
  show ?case
  proof (cases "h < l - 1")
    case True
    note m = middle_between [OF True]
    obtain x where x: "f ?m = Inr x" using "1.prems"(7) [of ?m] m by auto
    show ?thesis
    proof (cases x)
      case True
      have "\<exists>k. min_true_loop f h ?m = Some (Inr k) \<and> h < k \<and> k \<le> ?m \<and> f k = Inr True \<and> f (k - 1) = Inr False"
        using "1.IH"(1) [OF _ \<open>h < l - 1\<close> _ refl x] ok True x m "1.prems" by auto
      then show ?thesis using \<open>h < l - 1\<close> ok x True m by (subst min_true_loop.simps) (auto simp: Let_def)
    next
      case False
      have "\<exists>k. min_true_loop f ?m l = Some (Inr k) \<and> ?m < k \<and> k \<le> l \<and> f k = Inr True \<and> f (k - 1) = Inr False"
        using "1.IH"(2) [OF _ \<open>h < l - 1\<close> _ refl x] ok False x m "1.prems" by auto
      then show ?thesis using \<open>h < l - 1\<close> ok x False m by (subst min_true_loop.simps) (auto simp: Let_def)
    qed
  next
    case False
    then have "l = h + 1" using "1.prems"(1) by simp
    then show ?thesis using ok "1.prems"(5,6) by (subst min_true_loop.simps) simp
  qed
qed

section \<open>Correctness of the closure\<close>

lemma tc_get_set: "tc_get (tc_set r i j v) a b = (if a = i \<and> b = j then v else tc_get r a b)"
  by (auto simp: tc_get_def tc_set_def Let_def split: option.splits)

lemma tc_get_row:
  "tc_get (tc_row lag k i js c) a b =
    (if a = i \<and> b \<in> set js then tc_get lag i b \<or> tc_get lag i k \<and> tc_get lag k b else tc_get c a b)"
  by (induction js arbitrary: c) (auto simp: tc_row_def tc_get_set)

lemma tc_get_round:
  "tc_get (tc_round n lag k rows c) a b =
    (if a \<in> set rows \<and> b < n then tc_get lag a b \<or> tc_get lag a k \<and> tc_get lag k b else tc_get c a b)"
  by (induction rows arbitrary: c) (auto simp: tc_round_def tc_get_row)

abbreviation pairs :: "nat hash_relation \<Rightarrow> (nat \<times> nat) set" where
  "pairs r \<equiv> {(i, j). tc_get r i j}"

definition warshall_step :: "nat \<Rightarrow> (nat \<times> nat) set \<Rightarrow> (nat \<times> nat) set" where
  "warshall_step k r = r \<union> {(a, b). (a, k) \<in> r \<and> (k, b) \<in> r}"

lemma pairs_round:
  assumes "pairs lag \<subseteq> {..<n} \<times> {..<n}"
  shows "pairs (tc_round n lag k [0..<n] lag) = warshall_step k (pairs lag)"
  using assms by (auto simp: tc_get_round warshall_step_def)

lemma warshall_step_through:
  assumes "\<And>k a b. k < m \<Longrightarrow> (a, k) \<in> s \<Longrightarrow> (k, b) \<in> s \<Longrightarrow> (a, b) \<in> s"
    and "k < Suc m" and "(a, k) \<in> warshall_step m s" and "(k, b) \<in> warshall_step m s"
  shows "(a, b) \<in> warshall_step m s"
  using assms(2-4) unfolding warshall_step_def less_Suc_eq by (auto dest: assms(1))

lemma warshall_steps:
  assumes "r \<subseteq> {..<n} \<times> {..<n}" and "m \<le> n"
  defines "s \<equiv> fold warshall_step [0..<m] r"
  shows "s \<subseteq> {..<n} \<times> {..<n} \<and> r \<subseteq> s \<and> s \<subseteq> r\<^sup>+ \<and> (\<forall>k<m. \<forall>a b. (a, k) \<in> s \<longrightarrow> (k, b) \<in> s \<longrightarrow> (a, b) \<in> s)"
  using assms(2) unfolding s_def
proof (induction m)
  case (Suc m)
  let ?s = "fold warshall_step [0..<m] r"
  have IH: "?s \<subseteq> {..<n} \<times> {..<n}" "r \<subseteq> ?s" "?s \<subseteq> r\<^sup>+"
    "\<And>k a b. k < m \<Longrightarrow> (a, k) \<in> ?s \<Longrightarrow> (k, b) \<in> ?s \<Longrightarrow> (a, b) \<in> ?s"
    using Suc by auto
  have step: "fold warshall_step [0..<Suc m] r = warshall_step m ?s" by simp
  show ?case
    unfolding step
  proof (intro conjI allI impI)
    show "warshall_step m ?s \<subseteq> {..<n} \<times> {..<n}" "r \<subseteq> warshall_step m ?s"
      using IH(1,2) by (auto simp: warshall_step_def)
    show "warshall_step m ?s \<subseteq> r\<^sup>+"
      using IH(3) by (auto simp: warshall_step_def intro: trancl_trans)
    fix k a b
    assume "k < Suc m" "(a, k) \<in> warshall_step m ?s" "(k, b) \<in> warshall_step m ?s"
    then show "(a, b) \<in> warshall_step m ?s" using warshall_step_through [of m ?s k a b] IH(4) by blast
  qed
qed (use assms(1) in auto)

lemma warshall_closure:
  assumes "r \<subseteq> {..<n} \<times> {..<n}"
  shows "fold warshall_step [0..<n] r = r\<^sup>+"
proof -
  let ?s = "fold warshall_step [0..<n] r"
  have s: "?s \<subseteq> {..<n} \<times> {..<n}" "r \<subseteq> ?s" "?s \<subseteq> r\<^sup>+" "\<forall>k<n. \<forall>a b. (a, k) \<in> ?s \<longrightarrow> (k, b) \<in> ?s \<longrightarrow> (a, b) \<in> ?s"
    using warshall_steps [OF assms, of n] by auto
  then have "trans ?s" by (intro transI) blast
  with s(2) have "r\<^sup>+ \<subseteq> ?s" by (metis trancl_id trancl_mono_subset)
  with s(3) show ?thesis by blast
qed

lemma pairs_warshall:
  assumes "pairs lag \<subseteq> {..<n} \<times> {..<n}"
  shows "pairs (tc_warshall n [0..<n] lag) = (pairs lag)\<^sup>+"
proof -
  have "pairs (tc_warshall n [0..<m] lag) = fold warshall_step [0..<m] (pairs lag)" if "m \<le> n" for m
    using that
  proof (induction m)
    case (Suc m)
    have "pairs (tc_warshall n [0..<m] lag) \<subseteq> {..<n} \<times> {..<n}"
      using Suc warshall_steps [OF assms, of m] by simp
    from pairs_round [OF this] Suc show ?case by (simp add: tc_warshall_def)
  qed (simp add: tc_warshall_def)
  from this [of n] show ?thesis using warshall_closure [OF assms] by simp
qed

lemma tc_result_eq:
  assumes "pairs c \<subseteq> {..<length vs} \<times> {..<length vs}"
  shows "tc_result vs c = (\<lambda>(i, j). (vs ! i, vs ! j)) ` pairs c"
proof -
  have "set (filter (\<lambda>(i, j). tc_get c i j) (List.product [0..<length vs] [0..<length vs])) = pairs c"
    using assms by auto
  then show ?thesis by (simp only: tc_result_def)
qed

lemma tc_get_children:
  "tc_get (fold (\<lambda>child lag. tc_set lag i (f child) True) cs lag) a b \<longleftrightarrow> tc_get lag a b \<or> a = i \<and> b \<in> f ` set cs"
  by (induction cs arbitrary: lag) (auto simp: tc_get_set)

lemma tc_get_initial:
  "tc_get (tc_initial f rel) a b \<longleftrightarrow> (\<exists>x\<in>set rel. a = f (fst x) \<and> b \<in> f ` set (snd x))"
proof -
  have "tc_get (fold (\<lambda>(node, children) lag. fold (\<lambda>child lag. tc_set lag (f node) (f child) True) children lag) rel lag) a b \<longleftrightarrow>
      tc_get lag a b \<or> (\<exists>x\<in>set rel. a = f (fst x) \<and> b \<in> f ` set (snd x))" for lag
    by (induction rel arbitrary: lag) (simp_all add: tc_get_children case_prod_unfold disj_assoc)
  then show ?thesis by (simp add: tc_initial_def tc_get_def)
qed

lemma trancl_image:
  assumes "inj_on g A" and "r \<subseteq> A \<times> A"
  shows "(\<lambda>(i, j). (g i, g j)) ` (r\<^sup>+) = ((\<lambda>(i, j). (g i, g j)) ` r)\<^sup>+" (is "?m ` _ = ?s\<^sup>+")
proof (intro equalityI subsetI)
  fix p assume "p \<in> ?m ` (r\<^sup>+)"
  then obtain i j where "p = (g i, g j)" "(i, j) \<in> r\<^sup>+" by auto
  from this(2) have "(g i, g j) \<in> ?s\<^sup>+"
    by (induction rule: trancl_induct) (force intro: trancl_into_trancl)+
  with \<open>p = _\<close> show "p \<in> ?s\<^sup>+" by simp
next
  have field: "i \<in> A" "j \<in> A" if "(i, j) \<in> r\<^sup>+" for i j
    using that trancl_subset_Sigma [OF assms(2)] by auto
  fix p assume "p \<in> ?s\<^sup>+"
  then obtain a b where p: "p = (a, b)" "(a, b) \<in> ?s\<^sup>+" by (cases p) auto
  from p(2) have "(a, b) \<in> ?m ` (r\<^sup>+)"
  proof (induction rule: trancl_induct)
    case (step b c)
    then obtain i j j' k where *: "a = g i" "b = g j" "(i, j) \<in> r\<^sup>+" "b = g j'" "c = g k" "(j', k) \<in> r" by auto
    then have "j = j'" using inj_onD [OF assms(1)] field assms(2) by auto
    with * have "(i, k) \<in> r\<^sup>+" by (auto intro: trancl_into_trancl)
    with * show ?case by force
  qed auto
  with p show "p \<in> ?m ` (r\<^sup>+)" by simp
qed

lemma node_to_index_ok:
  assumes "v \<in> set vs"
  shows "tc_node_to_index vs v < length vs" and "vs ! tc_node_to_index vs v = v"
proof -
  have "takeWhile (\<lambda>w. w \<noteq> v) vs \<noteq> vs" using assms by (auto simp: takeWhile_eq_all_conv)
  then show "tc_node_to_index vs v < length vs"
    using length_takeWhile_le [of "\<lambda>w. w \<noteq> v" vs] takeWhile_eq_take [of "\<lambda>w. w \<noteq> v" vs]
    by (cases "length (takeWhile (\<lambda>w. w \<noteq> v) vs) = length vs") (auto simp: tc_node_to_index_def)
  then show "vs ! tc_node_to_index vs v = v"
    using nth_length_takeWhile [of "\<lambda>w. w \<noteq> v" vs] by (simp add: tc_node_to_index_def)
qed

section \<open>Properties\<close>

text \<open>\<open>BinarySearchMaxTrue\<close> terminates without overflow on every range shorter than \<open>2^63\<close> and returns
  a true value whose successor is false or out of the range; when the predicate is monotone this
  is the greatest true value. \<open>BinarySearchMinTrue\<close> is its mirror image.\<close>

lemma binary_search_exact:
  assumes "int64_ok start" and "int64_ok stop" and "start \<le> stop" and "int64_ok (stop - start)"
    and "f start" and "\<forall>i j. start \<le> i \<longrightarrow> i \<le> j \<longrightarrow> j \<le> stop \<longrightarrow> f j \<longrightarrow> f i"
    and "g stop" and "\<forall>i j. start \<le> i \<longrightarrow> i \<le> j \<longrightarrow> j \<le> stop \<longrightarrow> g i \<longrightarrow> g j"
  shows "\<exists>k m. BinarySearchMaxTrue start stop f = Some k \<and> BinarySearchMinTrue start stop g = Some m \<and>
    start \<le> k \<and> k \<le> stop \<and> f k \<and> (\<forall>i. start \<le> i \<longrightarrow> i \<le> stop \<longrightarrow> f i \<longleftrightarrow> i \<le> k) \<and>
    start \<le> m \<and> m \<le> stop \<and> g m \<and> (\<forall>i. start \<le> i \<longrightarrow> i \<le> stop \<longrightarrow> g i \<longleftrightarrow> m \<le> i)"
proof -
  have "\<exists>k. BinarySearchMaxTrue start stop f = Some k \<and> start \<le> k \<and> k \<le> stop \<and> f k \<and> (k = stop \<or> \<not> f (k + 1))"
  proof (cases "f stop")
    case False
    then have "start < stop" using assms(3,5) by (cases "start = stop") auto
    then show ?thesis
      using max_true_loop_ok [of start stop "\<lambda>i. Inr (f i)"] assms(1-5) False
      by (auto simp: int64_ok_def BinarySearchMaxTrue_def BinarySearchMaxTrueWithStatus_def)
  qed (use assms(3,5) in \<open>simp add: BinarySearchMaxTrue_def\<close>)
  then obtain k where k: "BinarySearchMaxTrue start stop f = Some k" "start \<le> k" "k \<le> stop" "f k" "k = stop \<or> \<not> f (k + 1)" by blast
  have "\<exists>m. BinarySearchMinTrue start stop g = Some m \<and> start \<le> m \<and> m \<le> stop \<and> g m \<and> (m = start \<or> \<not> g (m - 1))"
  proof (cases "g start")
    case False
    then have "start < stop" using assms(3,7) by (cases "start = stop") auto
    then show ?thesis
      using min_true_loop_ok [of start stop "\<lambda>i. Inr (g i)"] assms(1-4,7) False
      by (auto simp: int64_ok_def BinarySearchMinTrue_def BinarySearchMinTrueWithStatus_def)
  qed (use assms(3,7) in \<open>simp add: BinarySearchMinTrue_def\<close>)
  then obtain m where m: "BinarySearchMinTrue start stop g = Some m" "start \<le> m" "m \<le> stop" "g m" "m = start \<or> \<not> g (m - 1)" by blast
  have "f i \<longleftrightarrow> i \<le> k" if "start \<le> i" "i \<le> stop" for i
  proof
    assume "f i"
    show "i \<le> k"
    proof (rule ccontr)
      assume "\<not> i \<le> k"
      then have "start \<le> k + 1" "k + 1 \<le> i" "k \<noteq> stop" using k that by auto
      with assms(6) [rule_format, of "k + 1" i] \<open>f i\<close> that(2) k(5) show False by simp
    qed
  qed (use assms(6) [rule_format, of i k] k that in simp)
  moreover have "g i \<longleftrightarrow> m \<le> i" if "start \<le> i" "i \<le> stop" for i
  proof
    assume "g i"
    show "m \<le> i"
    proof (rule ccontr)
      assume "\<not> m \<le> i"
      then have "i \<le> m - 1" "m - 1 \<le> stop" "m \<noteq> start" using m that by auto
      with assms(8) [rule_format, of i "m - 1"] \<open>g i\<close> that(1) m(5) show False by simp
    qed
  qed (use assms(8) [rule_format, of m i] m that in simp)
  ultimately show ?thesis using k m by blast
qed

text \<open>C20: \<open>TransitiveClosure\<close> returns the transitive closure of the relation, whatever the order in which
  the hash maps are visited.\<close>

theorem transitive_closure_exact:
  "TransitiveClosure relation = {(v, w). \<exists>cs. (v, cs) \<in> set relation \<and> w \<in> set cs}\<^sup>+"
proof (cases "relation = []")
  case False
  let ?vs = "tc_nodes relation" let ?f = "tc_node_to_index ?vs" let ?n = "length ?vs"
  let ?E = "{(v, w). \<exists>cs. (v, cs) \<in> set relation \<and> w \<in> set cs}"
  let ?lag = "tc_initial ?f relation" let ?m = "\<lambda>(i, j). (?vs ! i, ?vs ! j)"
  have vs: "distinct ?vs" "set ?vs = fst ` set relation \<union> (\<Union>(_, cs) \<in> set relation. set cs)"
  proof -
    have "finite (fst ` set relation \<union> (\<Union>(_, cs) \<in> set relation. set cs))" by auto
    then show "distinct ?vs" "set ?vs = fst ` set relation \<union> (\<Union>(_, cs) \<in> set relation. set cs)"
      by (simp_all only: tc_nodes_def set_sorted_list_of_set distinct_sorted_list_of_set)
  qed
  have idx: "?f v < ?n" "?vs ! ?f v = v" if "v \<in> set ?vs" for v using node_to_index_ok [OF that] by auto
  have mem: "v \<in> set ?vs" "w \<in> set ?vs" if "(v, cs) \<in> set relation" "w \<in> set cs" for v w cs using that vs(2) by force+
  have lag: "pairs ?lag = (\<lambda>(v, w). (?f v, ?f w)) ` ?E" by (auto simp: tc_get_initial image_iff; force)
  have dom: "pairs ?lag \<subseteq> {..<?n} \<times> {..<?n}" unfolding lag using idx(1) mem by auto
  have "(case (case e of (v, w) \<Rightarrow> (?f v, ?f w)) of (i, j) \<Rightarrow> (?vs ! i, ?vs ! j)) = e" if "e \<in> ?E" for e
    using that idx(2) mem by auto
  then have edges: "?m ` pairs ?lag = ?E" unfolding lag image_image by simp
  note closure = pairs_warshall [OF dom]
  have "pairs (tc_warshall ?n [0..<?n] ?lag) \<subseteq> {..<?n} \<times> {..<?n}"
    unfolding closure by (rule trancl_subset_Sigma [OF dom])
  then have "tc_result ?vs (tc_warshall ?n [0..<?n] ?lag) = ?m ` pairs (tc_warshall ?n [0..<?n] ?lag)"
    by (rule tc_result_eq)
  also have "\<dots> = (?m ` pairs ?lag)\<^sup>+"
    unfolding closure
    by (rule trancl_image [OF _ dom]) (use vs(1) in \<open>simp add: inj_on_def nth_eq_iff_index_eq\<close>)
  finally show ?thesis using False by (simp add: TransitiveClosure_def Let_def edges)
qed (simp add: TransitiveClosure_def)

end
