(* ===== verification/Xls_Union_Find.thy ===== *)
theory Xls_Union_Find
  imports Xls_Prelude
begin

text \<open>
  \<open>xls/data_structures/union_find_map.h\<close> and \<open>union_find.h\<close>: the disjoint-set forest with values and the
  set-like wrapper. \<open>vector::at\<close> out of range is \<open>None\<close>. Indices and sizes are \<open>uint32_t\<close> in the code:
  they are \<open>nat\<close> here, with the wrap-around modulo \<open>2^32\<close> written out where the code converts a
  length or adds two sizes. \<open>uf_fits\<close> is the size limit that the class documents.

  The forest is described by \<open>uf_rep\<close>, the root an index leads to. \<open>FindRoot\<close> returns it and, although
  it is written as path halving, leaves the forest as it is; union by size alone keeps every path
  logarithmic. The locale \<open>union_store\<close> states what a client relies on, and derives that a sequence
  of unions yields the equivalence closure of the pairs united.
\<close>

record uf_node =
  un_parent :: nat
  un_size :: nat

record ('k, 'v) union_find_map =
  uf_key_to_index :: "'k \<rightharpoonup> nat"
  uf_keys :: "'k list"
  uf_values :: "'v list"
  uf_nodes :: "uf_node list"

definition vec_at :: "'a list \<Rightarrow> nat \<Rightarrow> 'a option" where
  "vec_at xs i = (if i < length xs then Some (xs ! i) else None)"

definition UnionFindMap_new :: "('k, 'v) union_find_map" where
  "UnionFindMap_new = \<lparr>uf_key_to_index = Map.empty, uf_keys = [], uf_values = [], uf_nodes = []\<rparr>"

definition UnionFindMap_GetIndex :: "('k, 'v) union_find_map \<Rightarrow> 'k \<Rightarrow> nat option" where
  "UnionFindMap_GetIndex m key = uf_key_to_index m key"

partial_function (option) UnionFindMap_FindRoot :: "uf_node list \<Rightarrow> nat \<Rightarrow> (uf_node list \<times> nat) option" where
  "UnionFindMap_FindRoot nodes x = do {
     x_node \<leftarrow> vec_at nodes x;
     let p = un_parent x_node;
     p_node \<leftarrow> vec_at nodes p;
     let pp = un_parent p_node;
     if p = x then Some (nodes, x)
     else UnionFindMap_FindRoot (nodes[p := p_node\<lparr>un_parent := pp\<rparr>]) p
   }"

definition UnionFindMap_Insert_merge ::
    "('k, 'v) union_find_map \<Rightarrow> 'k \<Rightarrow> 'v \<Rightarrow> ('v \<Rightarrow> 'v \<Rightarrow> 'v) \<Rightarrow> ('k, 'v) union_find_map option" where
  "UnionFindMap_Insert_merge m key value merge =
     (case uf_key_to_index m key of
        Some i \<Rightarrow> do {
          (nodes, index) \<leftarrow> UnionFindMap_FindRoot (uf_nodes m) i;
          old \<leftarrow> vec_at (uf_values m) index;
          Some (m\<lparr>uf_nodes := nodes, uf_values := (uf_values m)[index := merge old value]\<rparr>)
        }
      | None \<Rightarrow>
          let index = to_uint32 (length (uf_nodes m))
          in Some \<lparr>uf_key_to_index = (uf_key_to_index m)(key \<mapsto> index), uf_keys = uf_keys m @ [key],
                   uf_values = uf_values m @ [value],
                   uf_nodes = uf_nodes m @ [\<lparr>un_parent = index, un_size = 1\<rparr>]\<rparr>)"

definition UnionFindMap_Insert :: "('k, 'v) union_find_map \<Rightarrow> 'k \<Rightarrow> 'v \<Rightarrow> ('k, 'v) union_find_map option" where
  "UnionFindMap_Insert m key value = UnionFindMap_Insert_merge m key value (\<lambda>old_val new_val. new_val)"

text \<open>\<open>None\<close>: an exception; the inner option is the function's own \<open>nullopt\<close>.\<close>

definition UnionFindMap_Find ::
    "('k, 'v) union_find_map \<Rightarrow> 'k \<Rightarrow> (('k, 'v) union_find_map \<times> ('k \<times> 'v) option) option" where
  "UnionFindMap_Find m key =
     (case UnionFindMap_GetIndex m key of
        Some i \<Rightarrow> do {
          (nodes, found) \<leftarrow> UnionFindMap_FindRoot (uf_nodes m) i;
          k \<leftarrow> vec_at (uf_keys m) found;
          v \<leftarrow> vec_at (uf_values m) found;
          Some (m\<lparr>uf_nodes := nodes\<rparr>, Some (k, v))
        }
      | None \<Rightarrow> Some (m, None))"

definition UnionFindMap_link ::
    "('k, 'v) union_find_map \<Rightarrow> nat \<Rightarrow> nat \<Rightarrow> ('v \<Rightarrow> 'v \<Rightarrow> 'v) \<Rightarrow> ('k, 'v) union_find_map option" where
  "UnionFindMap_link m x_root y_root merge = do {
     x_node \<leftarrow> vec_at (uf_nodes m) x_root;
     y_node \<leftarrow> vec_at (uf_nodes m) y_root;
     let x_root_size = un_size x_node;
     let y_root_size = un_size y_node;
     let (x_root, y_root) = (if x_root_size < y_root_size then (y_root, x_root) else (x_root, y_root));
     x_value \<leftarrow> vec_at (uf_values m) x_root;
     y_value \<leftarrow> vec_at (uf_values m) y_root;
     let new_value = merge x_value y_value;
     let nodes = (uf_nodes m)[y_root := (uf_nodes m ! y_root)\<lparr>un_parent := x_root\<rparr>];
     Some (m\<lparr>uf_values := (uf_values m)[x_root := new_value, y_root := new_value],
             uf_nodes := nodes[x_root := (nodes ! x_root)\<lparr>un_size := to_uint32 (x_root_size + y_root_size)\<rparr>]\<rparr>)
   }"

definition UnionFindMap_Union ::
    "('k, 'v) union_find_map \<Rightarrow> 'k \<Rightarrow> 'k \<Rightarrow> ('v \<Rightarrow> 'v \<Rightarrow> 'v) \<Rightarrow> (('k, 'v) union_find_map \<times> bool) option" where
  "UnionFindMap_Union m x y merge =
     (case (UnionFindMap_GetIndex m x, UnionFindMap_GetIndex m y) of
        (Some x_index, Some y_index) \<Rightarrow> do {
          (nodes1, x_root) \<leftarrow> UnionFindMap_FindRoot (uf_nodes m) x_index;
          (nodes2, y_root) \<leftarrow> UnionFindMap_FindRoot nodes1 y_index;
          let m = m\<lparr>uf_nodes := nodes2\<rparr>;
          if x_root \<noteq> y_root then do {
            m' \<leftarrow> UnionFindMap_link m x_root y_root merge;
            Some (m', True)
          }
          else Some (m, True)
        }
      | _ \<Rightarrow> Some (m, False))"

definition UnionFindMap_Contains :: "('k, 'v) union_find_map \<Rightarrow> 'k \<Rightarrow> bool" where
  "UnionFindMap_Contains m key \<longleftrightarrow> uf_key_to_index m key \<noteq> None"

definition UnionFindMap_GetKeys :: "('k, 'v) union_find_map \<Rightarrow> 'k list" where
  "UnionFindMap_GetKeys m = uf_keys m"

fun UnionFindMap_representatives ::
    "('k, 'v) union_find_map \<Rightarrow> 'k list \<Rightarrow> 'k set \<Rightarrow> (('k, 'v) union_find_map \<times> 'k set) option" where
  "UnionFindMap_representatives m [] result = Some (m, result)"
| "UnionFindMap_representatives m (key # keys) result = do {
     (m', found) \<leftarrow> UnionFindMap_Find m key;
     (case found of
        None \<Rightarrow> None
      | Some (k, v) \<Rightarrow> UnionFindMap_representatives m' keys (insert k result))
   }"

definition UnionFindMap_GetRepresentatives :: "('k, 'v) union_find_map \<Rightarrow> (('k, 'v) union_find_map \<times> 'k set) option" where
  "UnionFindMap_GetRepresentatives m = UnionFindMap_representatives m (uf_keys m) {}"

section \<open>The wrapper without values\<close>

type_synonym 'k union_find = "('k, unit) union_find_map"

definition UnionFind_Insert :: "'k union_find \<Rightarrow> 'k \<Rightarrow> 'k union_find option" where
  "UnionFind_Insert m element = UnionFindMap_Insert m element ()"

definition UnionFind_Union :: "'k union_find \<Rightarrow> 'k \<Rightarrow> 'k \<Rightarrow> 'k union_find option" where
  "UnionFind_Union m x y = do {
     (m', ok) \<leftarrow> UnionFindMap_Union m x y (\<lambda>_ _. ());
     CHECK ok;
     Some m'
   }"

definition UnionFind_Find :: "'k union_find \<Rightarrow> 'k \<Rightarrow> ('k union_find \<times> 'k) option" where
  "UnionFind_Find m element = do {
     (m', result) \<leftarrow> UnionFindMap_Find m element;
     CHECK (result \<noteq> None);
     Some (m', fst (the result))
   }"

definition UnionFind_GetRepresentatives :: "'k union_find \<Rightarrow> ('k union_find \<times> 'k set) option" where
  "UnionFind_GetRepresentatives m = UnionFindMap_GetRepresentatives m"

definition UnionFind_size :: "'k union_find \<Rightarrow> nat" where
  "UnionFind_size m = length (UnionFindMap_GetKeys m)"

section \<open>The forest\<close>

abbreviation parent :: "uf_node list \<Rightarrow> nat \<Rightarrow> nat" where
  "parent ns i \<equiv> un_parent (ns ! i)"

abbreviation weight :: "uf_node list \<Rightarrow> nat \<Rightarrow> nat" where
  "weight ns i \<equiv> un_size (ns ! i)"

text \<open>An index that is not a root weighs at most half of its parent.\<close>

definition descends :: "uf_node list \<Rightarrow> nat \<Rightarrow> bool" where
  "descends ns i \<longleftrightarrow> parent ns i < length ns \<and> 0 < weight ns i \<and> 2 * weight ns i \<le> weight ns (parent ns i)"

text \<open>The distance to the heaviest node bounds the number of steps upward.\<close>

definition headroom :: "uf_node list \<Rightarrow> nat \<Rightarrow> nat" where
  "headroom ns i = Max (set (map un_size ns)) - weight ns i"

lemma headroom_parent:
  assumes "descends ns i"
  shows "headroom ns (parent ns i) < headroom ns i"
proof -
  have "weight ns (parent ns i) \<in> set (map un_size ns)"
    using assms by (auto simp: descends_def)
  then have "weight ns (parent ns i) \<le> Max (set (map un_size ns))" by (intro Max_ge) simp_all
  moreover have "weight ns i < weight ns (parent ns i)" using assms by (simp add: descends_def)
  ultimately show ?thesis unfolding headroom_def by linarith
qed

function uf_rep :: "uf_node list \<Rightarrow> nat \<Rightarrow> nat" where
  "uf_rep ns i = (if i < length ns \<and> parent ns i \<noteq> i \<and> descends ns i then uf_rep ns (parent ns i) else i)"
  by pat_completeness auto
termination by (relation "measure (\<lambda>(ns, i). headroom ns i)") (simp_all add: headroom_parent)

declare uf_rep.simps [simp del]

function uf_depth :: "uf_node list \<Rightarrow> nat \<Rightarrow> nat" where
  "uf_depth ns i = (if i < length ns \<and> parent ns i \<noteq> i \<and> descends ns i then Suc (uf_depth ns (parent ns i)) else 0)"
  by pat_completeness auto
termination by (relation "measure (\<lambda>(ns, i). headroom ns i)") (simp_all add: headroom_parent)

declare uf_depth.simps [simp del]

definition linked :: "uf_node list \<Rightarrow> bool" where
  "linked ns \<longleftrightarrow>
     (\<forall>i<length ns. parent ns i < length ns \<and> 0 < weight ns i \<and> (parent ns i \<noteq> i \<longrightarrow> descends ns i))"

definition members :: "uf_node list \<Rightarrow> nat \<Rightarrow> nat set" where
  "members ns r = {j. j < length ns \<and> uf_rep ns j = r}"

definition forest :: "uf_node list \<Rightarrow> bool" where
  "forest ns \<longleftrightarrow> linked ns \<and> (\<forall>i<length ns. parent ns i = i \<longrightarrow> weight ns i = card (members ns i))"

definition wf_uf :: "('k, 'v) union_find_map \<Rightarrow> bool" where
  "wf_uf m \<longleftrightarrow> forest (uf_nodes m) \<and> length (uf_keys m) = length (uf_nodes m) \<and>
     length (uf_values m) = length (uf_nodes m) \<and>
     (\<forall>k i. uf_key_to_index m k = Some i \<longleftrightarrow> i < length (uf_keys m) \<and> uf_keys m ! i = k)"

text \<open>The documented limit: fewer than \<open>2^32\<close> elements.\<close>

definition uf_fits :: "('k, 'v) union_find_map \<Rightarrow> bool" where
  "uf_fits m \<longleftrightarrow> length (uf_nodes m) < 2 ^ 32"

lemma forest_linked: "forest ns \<Longrightarrow> linked ns"
  by (simp add: forest_def)

lemma linked_parent: "linked ns \<Longrightarrow> i < length ns \<Longrightarrow> parent ns i < length ns"
  by (simp add: linked_def)

lemma uf_rep_root: "parent ns i = i \<Longrightarrow> uf_rep ns i = i"
  by (simp add: uf_rep.simps)

lemma uf_rep_step: "linked ns \<Longrightarrow> i < length ns \<Longrightarrow> uf_rep ns (parent ns i) = uf_rep ns i"
  by (cases "parent ns i = i") (simp_all add: uf_rep.simps[of ns i] linked_def)

lemma uf_depth_root: "parent ns i = i \<Longrightarrow> uf_depth ns i = 0"
  by (simp add: uf_depth.simps)

lemma uf_depth_step:
  "linked ns \<Longrightarrow> i < length ns \<Longrightarrow> parent ns i \<noteq> i \<Longrightarrow> uf_depth ns i = Suc (uf_depth ns (parent ns i))"
  by (subst uf_depth.simps) (simp add: linked_def)

text \<open>Induction along the path to the root.\<close>

lemma linked_induct [consumes 2, case_names root up]:
  assumes "linked ns" and "i < length ns"
    and root: "\<And>i. i < length ns \<Longrightarrow> parent ns i = i \<Longrightarrow> P i"
    and up: "\<And>i. i < length ns \<Longrightarrow> parent ns i \<noteq> i \<Longrightarrow> P (parent ns i) \<Longrightarrow> P i"
  shows "P i"
  using assms(2)
proof (induction "headroom ns i" arbitrary: i rule: less_induct)
  case less
  show ?case
  proof (cases "parent ns i = i")
    case False
    then have "descends ns i" using assms(1) less.prems by (simp add: linked_def)
    then have "P (parent ns i)"
      by (intro less.hyps headroom_parent linked_parent[OF assms(1)] less.prems)
    then show ?thesis by (rule up[OF less.prems False])
  qed (use less.prems root in auto)
qed

lemma uf_rep_bound [simp]:
  assumes "linked ns" and "i < length ns"
  shows "uf_rep ns i < length ns"
  using assms by (induction rule: linked_induct) (simp_all add: uf_rep_root uf_rep_step[OF assms(1)])

lemma uf_rep_is_root [simp]:
  assumes "linked ns" and "i < length ns"
  shows "parent ns (uf_rep ns i) = uf_rep ns i"
  using assms by (induction rule: linked_induct) (simp_all add: uf_rep_root uf_rep_step[OF assms(1)])

lemma uf_rep_idem [simp]: "linked ns \<Longrightarrow> i < length ns \<Longrightarrow> uf_rep ns (uf_rep ns i) = uf_rep ns i"
  by (simp add: uf_rep_root)

section \<open>Finding a root\<close>

lemma vec_at_eq [simp]: "i < length xs \<Longrightarrow> vec_at xs i = Some (xs ! i)"
  by (simp add: vec_at_def)

lemma vec_at_None: "length xs \<le> i \<Longrightarrow> vec_at xs i = None"
  by (simp add: vec_at_def)

lemma FindRoot_eq:
  assumes "linked ns" and "i < length ns"
  shows "UnionFindMap_FindRoot ns i = Some (ns, uf_rep ns i)"
  using assms
proof (induction rule: linked_induct)
  case (root i)
  then show ?case by (subst UnionFindMap_FindRoot.simps) (simp add: uf_rep_root)
next
  case (up i)
  then show ?case
    using assms(1) linked_parent[OF assms(1) up(1)]
    by (subst UnionFindMap_FindRoot.simps) (simp add: uf_rep_step)
qed

section \<open>Adding a node\<close>

definition uf_extend :: "uf_node list \<Rightarrow> uf_node list" where
  "uf_extend ns = ns @ [\<lparr>un_parent = length ns, un_size = 1\<rparr>]"

lemma uf_extend_parent:
  "parent (uf_extend ns) i = (if i = length ns then i else parent ns i)" if "i \<le> length ns"
  using that by (auto simp: uf_extend_def nth_append)

lemma uf_extend_weight:
  "weight (uf_extend ns) i = (if i = length ns then 1 else weight ns i)" if "i \<le> length ns"
  using that by (auto simp: uf_extend_def nth_append)

lemma length_uf_extend [simp]: "length (uf_extend ns) = Suc (length ns)"
  by (simp add: uf_extend_def)

lemma linked_extend: "linked ns \<Longrightarrow> linked (uf_extend ns)"
  unfolding linked_def length_uf_extend
proof (intro allI impI)
  fix i
  assume l: "\<forall>i<length ns. parent ns i < length ns \<and> 0 < weight ns i \<and> (parent ns i \<noteq> i \<longrightarrow> descends ns i)"
    and "i < Suc (length ns)"
  then consider "i = length ns" | "i < length ns" by linarith
  then show "parent (uf_extend ns) i < Suc (length ns) \<and> 0 < weight (uf_extend ns) i \<and>
      (parent (uf_extend ns) i \<noteq> i \<longrightarrow> descends (uf_extend ns) i)"
  proof cases
    case 2
    with l have "parent ns i < length ns" "0 < weight ns i" "parent ns i \<noteq> i \<longrightarrow> descends ns i" by blast+
    with 2 show ?thesis by (simp add: descends_def uf_extend_parent uf_extend_weight)
  qed (simp add: uf_extend_parent uf_extend_weight)
qed

lemma uf_rep_extend:
  assumes "linked ns" and "i < length ns"
  shows "uf_rep (uf_extend ns) i = uf_rep ns i"
  using assms
proof (induction rule: linked_induct)
  case (root i)
  then show ?case by (simp add: uf_rep_root uf_extend_parent)
next
  case (up i)
  then have "uf_rep (uf_extend ns) i = uf_rep (uf_extend ns) (parent ns i)"
    using uf_rep_step[OF linked_extend[OF assms(1)], of i] by (simp add: uf_extend_parent)
  with up assms(1) show ?case by (simp add: uf_rep_step)
qed

lemma uf_rep_extend_new: "uf_rep (uf_extend ns) (length ns) = length ns"
  by (simp add: uf_rep_root uf_extend_parent)

lemma forest_extend:
  assumes "forest ns"
  shows "forest (uf_extend ns)"
proof -
  note l = forest_linked[OF assms]
  have "j \<in> members (uf_extend ns) i \<longleftrightarrow> j \<in> (if i = length ns then {i} else members ns i)"
    if "i \<le> length ns" for i j
    using that uf_rep_bound[OF l, of j] uf_rep_extend[OF l, of j] uf_rep_extend_new[of ns]
    by (cases "j = length ns"; cases "j < length ns") (auto simp: members_def)
  then have "members (uf_extend ns) i = (if i = length ns then {i} else members ns i)" if "i \<le> length ns" for i
    using that by blast
  then have "weight (uf_extend ns) i = card (members (uf_extend ns) i)"
    if "i < Suc (length ns)" "parent (uf_extend ns) i = i" for i
    using assms that by (cases "i = length ns") (simp_all add: forest_def uf_extend_parent uf_extend_weight)
  then show ?thesis by (simp add: forest_def linked_extend[OF l])
qed

section \<open>Linking two roots\<close>

definition uf_link :: "uf_node list \<Rightarrow> nat \<Rightarrow> nat \<Rightarrow> uf_node list" where
  "uf_link ns x y =
     (let ns1 = ns[y := (ns ! y)\<lparr>un_parent := x\<rparr>]
      in ns1[x := (ns1 ! x)\<lparr>un_size := weight ns x + weight ns y\<rparr>])"

lemma length_uf_link [simp]: "length (uf_link ns x y) = length ns"
  by (simp add: uf_link_def Let_def)

lemma uf_link_parent:
  "parent (uf_link ns x y) i = (if i = y then x else parent ns i)"
  if "x < length ns" "y < length ns" "x \<noteq> y"
  using that by (auto simp: uf_link_def Let_def nth_list_update)

lemma uf_link_weight:
  "weight (uf_link ns x y) i = (if i = x then weight ns x + weight ns y else weight ns i)"
  if "x < length ns" "y < length ns" "x \<noteq> y"
  using that by (auto simp: uf_link_def Let_def nth_list_update)

text \<open>Two distinct roots, the second no heavier than the first.\<close>

definition linkable :: "uf_node list \<Rightarrow> nat \<Rightarrow> nat \<Rightarrow> bool" where
  "linkable ns x y \<longleftrightarrow> x < length ns \<and> y < length ns \<and> x \<noteq> y \<and> parent ns x = x \<and> parent ns y = y \<and>
     weight ns y \<le> weight ns x"

lemma linked_link:
  assumes "linked ns" and "linkable ns x y"
  shows "linked (uf_link ns x y)"
proof -
  have xy: "x < length ns" "y < length ns" "x \<noteq> y" "parent ns x = x" "parent ns y = y" "weight ns y \<le> weight ns x"
    using assms(2) by (auto simp: linkable_def)
  note [simp] = uf_link_parent[OF xy(1-3)] uf_link_weight[OF xy(1-3)]
  show ?thesis
    using assms(1) xy by (fastforce simp: linked_def descends_def)
qed

lemma uf_rep_link:
  assumes "linked ns" and "linkable ns x y" and "i < length ns"
  shows "uf_rep (uf_link ns x y) i = (if uf_rep ns i = y then x else uf_rep ns i)"
proof -
  have xy: "x < length ns" "y < length ns" "x \<noteq> y" "parent ns x = x" "parent ns y = y"
    using assms(2) by (auto simp: linkable_def)
  note par = uf_link_parent[OF xy(1-3)]
  note step = uf_rep_step[OF linked_link[OF assms(1,2)], unfolded length_uf_link]
  have x: "uf_rep (uf_link ns x y) x = x" using xy by (simp add: uf_rep_root par)
  show ?thesis
    using assms(1,3)
  proof (induction rule: linked_induct)
    case (root i)
    then show ?case using x step[of i] by (cases "i = y") (simp_all add: uf_rep_root par)
  next
    case (up i)
    then have "i \<noteq> y" using xy by auto
    then show ?case using up step[of i] by (simp add: par uf_rep_step[OF assms(1)] split: if_splits)
  qed
qed

lemma forest_link:
  assumes "forest ns" and "linkable ns x y"
  shows "forest (uf_link ns x y)"
proof -
  note l = forest_linked[OF assms(1)]
  have xy: "x < length ns" "y < length ns" "x \<noteq> y" "parent ns x = x" "parent ns y = y"
    using assms(2) by (auto simp: linkable_def)
  have w: "weight ns i = card (members ns i)" if "i < length ns" "parent ns i = i" for i
    using assms(1) that by (simp add: forest_def)
  have "j \<in> members (uf_link ns x y) x \<longleftrightarrow> j \<in> members ns x \<union> members ns y" for j
    using uf_rep_link[OF l assms(2), of j] xy(3) by (cases "j < length ns") (simp_all add: members_def)
  then have "members (uf_link ns x y) x = members ns x \<union> members ns y" by blast
  moreover have "members ns x \<inter> members ns y = {}" using xy by (auto simp: members_def)
  moreover have "finite (members ns i)" for i by (simp add: members_def)
  ultimately have x: "card (members (uf_link ns x y) x) = weight ns x + weight ns y"
    using xy by (simp add: w card_Un_disjoint)
  have "members (uf_link ns x y) i = members ns i" if "i \<noteq> x" "i \<noteq> y" for i
    using that by (auto simp: members_def uf_rep_link[OF l assms(2)] split: if_splits)
  then show ?thesis
    using x w xy
    by (auto simp: forest_def linked_link[OF l assms(2)] uf_link_parent[OF xy(1-3)] uf_link_weight[OF xy(1-3)])
qed

lemma root_weights:
  assumes "forest ns" and "x < length ns" and "y < length ns" and "x \<noteq> y" and "parent ns x = x" and "parent ns y = y"
  shows "weight ns x + weight ns y \<le> length ns"
proof -
  have "weight ns x + weight ns y = card (members ns x) + card (members ns y)" using assms by (simp add: forest_def)
  also have "\<dots> = card (members ns x \<union> members ns y)"
    using assms(4) by (intro card_Un_disjoint[symmetric]) (auto simp: members_def)
  also have "\<dots> \<le> card {..<length ns}" by (rule card_mono) (auto simp: members_def)
  finally show ?thesis by simp
qed

section \<open>Depth\<close>

lemma weight_depth:
  assumes "linked ns" and "i < length ns"
  shows "2 ^ uf_depth ns i * weight ns i \<le> weight ns (uf_rep ns i)"
  using assms
proof (induction rule: linked_induct)
  case (root i)
  then show ?case by (simp add: uf_rep_root uf_depth_root)
next
  case (up i)
  then have "2 * weight ns i \<le> weight ns (parent ns i)" using assms(1) by (simp add: linked_def descends_def)
  then have "2 ^ uf_depth ns (parent ns i) * (2 * weight ns i) \<le> 2 ^ uf_depth ns (parent ns i) * weight ns (parent ns i)"
    by (rule mult_left_mono) simp
  also have "\<dots> \<le> weight ns (uf_rep ns i)" using up uf_rep_step[OF assms(1)] by simp
  finally show ?case using up assms(1) by (simp add: uf_depth_step mult.assoc mult.left_commute)
qed

lemma depth_log:
  assumes "forest ns" and "i < length ns"
  shows "2 ^ uf_depth ns i \<le> length ns"
proof -
  note l = forest_linked[OF assms(1)]
  have "2 ^ uf_depth ns i \<le> 2 ^ uf_depth ns i * weight ns i" using l assms(2) by (simp add: linked_def Suc_le_eq)
  also have "\<dots> \<le> weight ns (uf_rep ns i)" by (rule weight_depth[OF l assms(2)])
  also have "\<dots> = card (members ns (uf_rep ns i))" using assms l by (simp add: forest_def)
  also have "\<dots> \<le> card {..<length ns}" by (rule card_mono) (auto simp: members_def)
  finally show ?thesis by simp
qed

section \<open>The operations on a well-formed map\<close>

definition uf_root :: "('k, 'v) union_find_map \<Rightarrow> 'k \<Rightarrow> nat" where
  "uf_root m k = uf_rep (uf_nodes m) (the (uf_key_to_index m k))"

definition uf_elements :: "('k, 'v) union_find_map \<Rightarrow> 'k set" where
  "uf_elements m = dom (uf_key_to_index m)"

definition uf_find :: "('k, 'v) union_find_map \<Rightarrow> 'k \<Rightarrow> 'k" where
  "uf_find m k = uf_keys m ! uf_root m k"

definition uf_value :: "('k, 'v) union_find_map \<Rightarrow> 'k \<Rightarrow> 'v" where
  "uf_value m k = uf_values m ! uf_root m k"

lemma wf_uf_linked: "wf_uf m \<Longrightarrow> linked (uf_nodes m)"
  by (simp add: wf_uf_def forest_linked)

lemma wf_uf_index: "wf_uf m \<Longrightarrow> uf_key_to_index m k = Some i \<Longrightarrow> i < length (uf_nodes m) \<and> uf_keys m ! i = k"
  by (simp add: wf_uf_def)

lemma wf_uf_lengths:
  "wf_uf m \<Longrightarrow> length (uf_keys m) = length (uf_nodes m)" "wf_uf m \<Longrightarrow> length (uf_values m) = length (uf_nodes m)"
  by (simp_all add: wf_uf_def)

lemma wf_uf_key: "wf_uf m \<Longrightarrow> i < length (uf_nodes m) \<Longrightarrow> uf_key_to_index m (uf_keys m ! i) = Some i"
  by (simp add: wf_uf_def)

lemma wf_uf_elements: "wf_uf m \<Longrightarrow> uf_elements m = set (uf_keys m)"
  by (auto simp: uf_elements_def in_set_conv_nth wf_uf_def)

lemma wf_uf_card:
  assumes "wf_uf m"
  shows "card (uf_elements m) = length (uf_nodes m)"
proof -
  have "distinct (uf_keys m)"
    unfolding distinct_conv_nth using wf_uf_key[OF assms] wf_uf_lengths(1)[OF assms] by (metis option.inject)
  then show ?thesis using distinct_card wf_uf_lengths(1)[OF assms] by (metis wf_uf_elements[OF assms])
qed

lemma uf_root_bound: "wf_uf m \<Longrightarrow> k \<in> uf_elements m \<Longrightarrow> uf_root m k < length (uf_nodes m)"
  by (auto simp: uf_root_def uf_elements_def dest: wf_uf_index intro!: uf_rep_bound wf_uf_linked)

lemma uf_root_is_root: "wf_uf m \<Longrightarrow> k \<in> uf_elements m \<Longrightarrow> parent (uf_nodes m) (uf_root m k) = uf_root m k"
  by (auto simp: uf_root_def uf_elements_def dest: wf_uf_index intro!: uf_rep_is_root wf_uf_linked)

lemma FindRoot_uf_root:
  assumes "wf_uf m" and "uf_key_to_index m k = Some i"
  shows "UnionFindMap_FindRoot (uf_nodes m) i = Some (uf_nodes m, uf_root m k)"
  using assms FindRoot_eq[OF wf_uf_linked[OF assms(1)]] by (simp add: uf_root_def wf_uf_index)

text \<open>Two keys have one representative exactly when they have one root.\<close>

lemma uf_find_eq:
  assumes "wf_uf m" and "a \<in> uf_elements m" and "b \<in> uf_elements m"
  shows "uf_find m a = uf_find m b \<longleftrightarrow> uf_root m a = uf_root m b"
  using assms uf_root_bound[OF assms(1)] wf_uf_key[OF assms(1)] unfolding uf_find_def
  by (metis option.inject)

lemma uf_find_element: "wf_uf m \<Longrightarrow> k \<in> uf_elements m \<Longrightarrow> uf_find m k \<in> uf_elements m"
  by (simp add: uf_find_def wf_uf_elements[of m] wf_uf_lengths uf_root_bound)

lemma uf_find_idem:
  assumes "wf_uf m" and "k \<in> uf_elements m"
  shows "uf_find m (uf_find m k) = uf_find m k"
proof -
  have "uf_root m (uf_find m k) = uf_root m k"
    using assms uf_rep_root[OF uf_root_is_root[OF assms]]
    by (simp add: uf_root_def[of m "uf_find m k"]) (simp add: uf_find_def wf_uf_key uf_root_bound)
  then show ?thesis by (simp add: uf_find_def)
qed

lemma Find_eq:
  assumes "wf_uf m"
  shows "UnionFindMap_Find m k =
     Some (m, if k \<in> uf_elements m then Some (uf_find m k, uf_value m k) else None)"
proof (cases "uf_key_to_index m k")
  case (Some i)
  then have "k \<in> uf_elements m" by (auto simp: uf_elements_def)
  with Some show ?thesis
    using assms FindRoot_uf_root[OF assms Some] uf_root_bound[OF assms]
    by (simp add: UnionFindMap_Find_def UnionFindMap_GetIndex_def wf_uf_lengths uf_find_def uf_value_def)
qed (auto simp: UnionFindMap_Find_def UnionFindMap_GetIndex_def uf_elements_def)

lemma wf_uf_new: "wf_uf UnionFindMap_new"
  by (simp add: wf_uf_def UnionFindMap_new_def forest_def linked_def)

subsection \<open>Insertion\<close>

definition uf_add :: "('k, 'v) union_find_map \<Rightarrow> 'k \<Rightarrow> 'v \<Rightarrow> ('k, 'v) union_find_map" where
  "uf_add m k v = \<lparr>uf_key_to_index = (uf_key_to_index m)(k \<mapsto> length (uf_nodes m)), uf_keys = uf_keys m @ [k],
     uf_values = uf_values m @ [v], uf_nodes = uf_extend (uf_nodes m)\<rparr>"

definition uf_store :: "('k, 'v) union_find_map \<Rightarrow> nat \<Rightarrow> 'v \<Rightarrow> ('k, 'v) union_find_map" where
  "uf_store m i v = m\<lparr>uf_values := (uf_values m)[i := v]\<rparr>"

lemma Insert_merge_eq:
  assumes "wf_uf m" and "uf_fits m"
  shows "UnionFindMap_Insert_merge m k v f =
    Some (if k \<in> uf_elements m then uf_store m (uf_root m k) (f (uf_value m k) v) else uf_add m k v)"
proof (cases "uf_key_to_index m k")
  case (Some i)
  then have "k \<in> uf_elements m" by (auto simp: uf_elements_def)
  with Some show ?thesis
    using assms FindRoot_uf_root[OF assms(1) Some] uf_root_bound[OF assms(1)]
    by (simp add: UnionFindMap_Insert_merge_def wf_uf_lengths uf_store_def uf_value_def)
qed (use assms(2) in \<open>auto simp: UnionFindMap_Insert_merge_def uf_elements_def uf_add_def uf_extend_def uf_fits_def Let_def\<close>)

lemma wf_uf_add:
  assumes "wf_uf m" and "k \<notin> uf_elements m"
  shows "wf_uf (uf_add m k v)"
proof -
  have *: "(uf_key_to_index m a = Some i) = (i < length (uf_nodes m) \<and> uf_keys m ! i = a)" for a i
    using assms(1) by (simp add: wf_uf_def)
  have None: "uf_key_to_index m k = None" using assms(2) by (auto simp: uf_elements_def)
  have "(uf_key_to_index (uf_add m k v) a = Some i) =
      (i < Suc (length (uf_nodes m)) \<and> (uf_keys m @ [k]) ! i = a)" for a i
    using *[of a i] *[of k i] None assms(1) by (auto simp: uf_add_def nth_append wf_uf_lengths less_Suc_eq)
  with assms(1) show ?thesis by (simp add: wf_uf_def uf_add_def forest_extend)
qed

lemma uf_add_facts:
  assumes "wf_uf m" and "k \<notin> uf_elements m"
  shows "uf_elements (uf_add m k v) = insert k (uf_elements m)"
    and "uf_find (uf_add m k v) k = k" and "uf_value (uf_add m k v) k = v"
    and "a \<in> uf_elements m \<Longrightarrow> uf_find (uf_add m k v) a = uf_find m a"
    and "a \<in> uf_elements m \<Longrightarrow> uf_value (uf_add m k v) a = uf_value m a"
proof -
  show "uf_elements (uf_add m k v) = insert k (uf_elements m)" by (simp add: uf_elements_def uf_add_def)
  have new: "uf_root (uf_add m k v) k = length (uf_nodes m)"
    by (simp add: uf_root_def uf_add_def uf_rep_extend_new)
  then show "uf_find (uf_add m k v) k = k" "uf_value (uf_add m k v) k = v"
    using assms(1) by (simp_all add: uf_find_def uf_value_def uf_add_def wf_uf_lengths nth_append)
  assume a: "a \<in> uf_elements m"
  then obtain i where i: "uf_key_to_index m a = Some i" "i < length (uf_nodes m)"
    using wf_uf_index[OF assms(1)] by (auto simp: uf_elements_def)
  have "uf_root (uf_add m k v) a = uf_root m a"
    using a assms i by (auto simp: uf_root_def uf_add_def uf_rep_extend wf_uf_linked)
  then show "uf_find (uf_add m k v) a = uf_find m a" "uf_value (uf_add m k v) a = uf_value m a"
    using uf_root_bound[OF assms(1) a] assms(1)
    by (simp_all add: uf_find_def uf_value_def uf_add_def wf_uf_lengths nth_append)
qed

lemma uf_store_facts:
  "wf_uf (uf_store m i v) = wf_uf m" "uf_elements (uf_store m i v) = uf_elements m"
  "uf_root (uf_store m i v) = uf_root m" "uf_find (uf_store m i v) = uf_find m"
  by (simp_all add: uf_store_def wf_uf_def uf_elements_def uf_root_def uf_find_def fun_eq_iff)

lemma uf_fits_insert:
  assumes "wf_uf m" and "card (insert k (uf_elements m)) < 2 ^ 32"
  shows "uf_fits m" and "uf_fits (uf_store m i v)" and "k \<notin> uf_elements m \<Longrightarrow> uf_fits (uf_add m k v)"
proof -
  have fin: "finite (uf_elements m)" using wf_uf_elements[OF assms(1)] by simp
  have "card (uf_elements m) \<le> card (insert k (uf_elements m))" by (rule card_mono) (use fin in auto)
  then show fits: "uf_fits m" using assms(2) by (simp add: uf_fits_def wf_uf_card[OF assms(1)])
  then show "uf_fits (uf_store m i v)" by (simp add: uf_fits_def uf_store_def)
  show "uf_fits (uf_add m k v)" if "k \<notin> uf_elements m"
    using assms(2) fin that by (simp add: uf_fits_def uf_add_def wf_uf_card[OF assms(1)])
qed

lemma uf_store_value:
  assumes "wf_uf m" and "k \<in> uf_elements m" and "a \<in> uf_elements m"
  shows "uf_value (uf_store m (uf_root m k) v) a = (if uf_find m a = uf_find m k then v else uf_value m a)"
  using assms uf_root_bound[OF assms(1)]
  by (auto simp: uf_find_eq uf_value_def uf_store_facts) (auto simp: uf_store_def wf_uf_lengths nth_list_update)

subsection \<open>Union\<close>

text \<open>\<open>uf_join m r s v\<close>: the root \<open>s\<close> goes below the root \<open>r\<close> and both store \<open>v\<close>.\<close>

definition uf_join :: "('k, 'v) union_find_map \<Rightarrow> nat \<Rightarrow> nat \<Rightarrow> 'v \<Rightarrow> ('k, 'v) union_find_map" where
  "uf_join m r s v = m\<lparr>uf_values := (uf_values m)[r := v, s := v], uf_nodes := uf_link (uf_nodes m) r s\<rparr>"

definition uf_heavier :: "('k, 'v) union_find_map \<Rightarrow> 'k \<Rightarrow> 'k \<Rightarrow> bool" where
  "uf_heavier m x y \<longleftrightarrow> weight (uf_nodes m) (uf_root m x) < weight (uf_nodes m) (uf_root m y)"

lemma wf_uf_join:
  assumes "wf_uf m" and "linkable (uf_nodes m) r s"
  shows "wf_uf (uf_join m r s v)"
  using assms by (simp add: wf_uf_def uf_join_def forest_link)

lemma uf_join_root:
  assumes "wf_uf m" and "linkable (uf_nodes m) r s" and "a \<in> uf_elements m"
  shows "uf_root (uf_join m r s v) a = (if uf_root m a = s then r else uf_root m a)"
proof -
  obtain i where "uf_key_to_index m a = Some i" "i < length (uf_nodes m)"
    using wf_uf_index[OF assms(1)] assms(3) by (auto simp: uf_elements_def)
  then show ?thesis
    using assms by (simp add: uf_root_def uf_join_def uf_rep_link wf_uf_linked)
qed

lemma uf_join_facts:
  assumes "wf_uf m" and "linkable (uf_nodes m) r s"
  shows "uf_elements (uf_join m r s v) = uf_elements m"
    and "a \<in> uf_elements m \<Longrightarrow> uf_find (uf_join m r s v) a =
           (if uf_root m a \<in> {r, s} then uf_keys m ! r else uf_find m a)"
    and "a \<in> uf_elements m \<Longrightarrow> uf_value (uf_join m r s v) a = (if uf_root m a \<in> {r, s} then v else uf_value m a)"
proof -
  show "uf_elements (uf_join m r s v) = uf_elements m" by (simp add: uf_elements_def uf_join_def)
  assume a: "a \<in> uf_elements m"
  show "uf_find (uf_join m r s v) a = (if uf_root m a \<in> {r, s} then uf_keys m ! r else uf_find m a)"
    unfolding uf_find_def uf_join_root[OF assms a] by (simp add: uf_join_def)
  show "uf_value (uf_join m r s v) a = (if uf_root m a \<in> {r, s} then v else uf_value m a)"
    unfolding uf_value_def uf_join_root[OF assms a]
    using uf_root_bound[OF assms(1) a] assms
    by (auto simp: uf_join_def wf_uf_lengths linkable_def nth_list_update)
qed

lemma linkable_roots:
  assumes "wf_uf m" and "x \<in> uf_elements m" and "y \<in> uf_elements m" and "uf_root m x \<noteq> uf_root m y"
    and "\<not> uf_heavier m x y"
  shows "linkable (uf_nodes m) (uf_root m x) (uf_root m y)"
  using assms by (simp add: linkable_def uf_heavier_def uf_root_bound uf_root_is_root)

definition uf_union :: "('k, 'v) union_find_map \<Rightarrow> 'k \<Rightarrow> 'k \<Rightarrow> ('v \<Rightarrow> 'v \<Rightarrow> 'v) \<Rightarrow> ('k, 'v) union_find_map" where
  "uf_union m x y f =
     (let (x, y) = (if uf_heavier m x y then (y, x) else (x, y))
      in if uf_root m x = uf_root m y then m
         else uf_join m (uf_root m x) (uf_root m y) (f (uf_value m x) (uf_value m y)))"

lemma link_eq:
  assumes "wf_uf m" and "x \<in> uf_elements m" and "y \<in> uf_elements m" and "uf_root m x \<noteq> uf_root m y" and "uf_fits m"
  shows "UnionFindMap_link m (uf_root m x) (uf_root m y) f = Some (uf_union m x y f)"
proof -
  have "weight (uf_nodes m) (uf_root m x) + weight (uf_nodes m) (uf_root m y) \<le> length (uf_nodes m)"
    using assms by (intro root_weights uf_root_bound uf_root_is_root) (auto simp: wf_uf_def)
  then have sum: "weight (uf_nodes m) (uf_root m x) + weight (uf_nodes m) (uf_root m y) < 2 ^ 32"
    using assms(5) by (simp add: uf_fits_def)
  show ?thesis
    using assms(1-4) uf_root_bound[OF assms(1)] to_uint32_small[OF sum]
    by (auto simp: UnionFindMap_link_def uf_union_def uf_heavier_def uf_join_def uf_link_def uf_value_def
        wf_uf_lengths Let_def add.commute)
qed

lemma Union_eq:
  assumes "wf_uf m" and "uf_fits m"
  shows "UnionFindMap_Union m x y f =
    Some (if x \<in> uf_elements m \<and> y \<in> uf_elements m then (uf_union m x y f, True) else (m, False))"
proof (cases "x \<in> uf_elements m \<and> y \<in> uf_elements m")
  case True
  then obtain i j where "uf_key_to_index m x = Some i" "uf_key_to_index m y = Some j"
    by (auto simp: uf_elements_def)
  then show ?thesis
    using True link_eq[OF assms(1) _ _ _ assms(2)] FindRoot_uf_root[OF assms(1)]
    by (auto simp: UnionFindMap_Union_def UnionFindMap_GetIndex_def Let_def uf_union_def)
next
  case False
  then show ?thesis
    by (auto simp: UnionFindMap_Union_def UnionFindMap_GetIndex_def uf_elements_def split: option.splits)
qed

lemma uf_union_cases:
  assumes "wf_uf m" and "x \<in> uf_elements m" and "y \<in> uf_elements m"
  obtains "uf_root m x = uf_root m y" and "uf_union m x y f = m"
  | x' y' where "(x', y') = (if uf_heavier m x y then (y, x) else (x, y))" and "linkable (uf_nodes m) (uf_root m x') (uf_root m y')"
      and "uf_union m x y f = uf_join m (uf_root m x') (uf_root m y') (f (uf_value m x') (uf_value m y'))"
proof (cases "uf_root m x = uf_root m y")
  case True
  then show ?thesis using that(1) by (simp add: uf_union_def uf_heavier_def)
next
  case False
  show ?thesis
  proof (cases "uf_heavier m x y")
    case True
    then have "linkable (uf_nodes m) (uf_root m y) (uf_root m x)"
      using assms False by (intro linkable_roots) (auto simp: uf_heavier_def)
    with True False show ?thesis using that(2)[of y x] by (simp add: uf_union_def)
  next
    case h: False
    then show ?thesis using linkable_roots[OF assms False h] False that(2)[of x y] by (simp add: uf_union_def)
  qed
qed

lemma wf_uf_union:
  assumes "wf_uf m" and "x \<in> uf_elements m" and "y \<in> uf_elements m"
  shows "wf_uf (uf_union m x y f)"
  by (rule uf_union_cases[OF assms, of f]) (use assms in \<open>simp_all add: wf_uf_join\<close>)

lemma uf_fits_union:
  assumes "wf_uf m" and "x \<in> uf_elements m" and "y \<in> uf_elements m"
  shows "uf_fits (uf_union m x y f) = uf_fits m"
  by (rule uf_union_cases[OF assms, of f]) (simp_all add: uf_fits_def uf_join_def)

lemma uf_union_elements:
  assumes "wf_uf m" and "x \<in> uf_elements m" and "y \<in> uf_elements m"
  shows "uf_elements (uf_union m x y f) = uf_elements m"
  by (rule uf_union_cases[OF assms, of f]) (use assms in \<open>simp_all add: uf_join_facts\<close>)

lemma uf_union_find:
  assumes "wf_uf m" and "x \<in> uf_elements m" and "y \<in> uf_elements m" and "a \<in> uf_elements m"
  shows "uf_find (uf_union m x y f) a =
    (if uf_find m a \<in> {uf_find m x, uf_find m y} then uf_find m (if uf_heavier m x y then y else x) else uf_find m a)"
proof -
  have in_iff: "uf_find m a \<in> {uf_find m x, uf_find m y} \<longleftrightarrow> uf_root m a \<in> {uf_root m x, uf_root m y}"
    using assms by (auto simp: uf_find_eq)
  show ?thesis
    unfolding in_iff
  proof (rule uf_union_cases[OF assms(1-3), of f])
    assume "uf_root m x = uf_root m y" and "uf_union m x y f = m"
    then show "uf_find (uf_union m x y f) a =
      (if uf_root m a \<in> {uf_root m x, uf_root m y} then uf_find m (if uf_heavier m x y then y else x) else uf_find m a)"
      by (auto simp: uf_find_def)
  next
    fix x' y'
    assume xy: "(x', y') = (if uf_heavier m x y then (y, x) else (x, y))"
      and l: "linkable (uf_nodes m) (uf_root m x') (uf_root m y')"
      and u: "uf_union m x y f = uf_join m (uf_root m x') (uf_root m y') (f (uf_value m x') (uf_value m y'))"
    show "uf_find (uf_union m x y f) a =
      (if uf_root m a \<in> {uf_root m x, uf_root m y} then uf_find m (if uf_heavier m x y then y else x) else uf_find m a)"
      unfolding u uf_join_facts(2)[OF assms(1) l assms(4)] using xy
      by (cases "uf_heavier m x y") (simp_all add: uf_find_def insert_commute)
  qed
qed

lemma uf_union_value:
  assumes "wf_uf m" and "x \<in> uf_elements m" and "y \<in> uf_elements m" and "a \<in> uf_elements m"
    and "uf_find m x \<noteq> uf_find m y"
  shows "uf_value (uf_union m x y f) a =
    (if uf_find m a \<in> {uf_find m x, uf_find m y}
     then if uf_heavier m x y then f (uf_value m y) (uf_value m x) else f (uf_value m x) (uf_value m y)
     else uf_value m a)"
proof -
  have in_iff: "uf_find m a \<in> {uf_find m x, uf_find m y} \<longleftrightarrow> uf_root m a \<in> {uf_root m x, uf_root m y}"
    using assms by (auto simp: uf_find_eq)
  have ne: "uf_root m x \<noteq> uf_root m y" using assms by (auto simp: uf_find_def)
  obtain x' y' where xy: "(x', y') = (if uf_heavier m x y then (y, x) else (x, y))"
      and l: "linkable (uf_nodes m) (uf_root m x') (uf_root m y')"
      and u: "uf_union m x y f = uf_join m (uf_root m x') (uf_root m y') (f (uf_value m x') (uf_value m y'))"
    by (rule uf_union_cases[OF assms(1-3), of f]) (use ne in auto)
  show ?thesis
    unfolding in_iff u uf_join_facts(3)[OF assms(1) l assms(4)] using xy
    by (cases "uf_heavier m x y") (simp_all add: insert_commute)
qed

lemma uf_union_same:
  assumes "wf_uf m" and "x \<in> uf_elements m" and "y \<in> uf_elements m" and "a \<in> uf_elements m" and "b \<in> uf_elements m"
  shows "uf_find (uf_union m x y f) a = uf_find (uf_union m x y f) b \<longleftrightarrow>
    uf_find m a = uf_find m b \<or> {uf_find m a, uf_find m b} = {uf_find m x, uf_find m y}"
  using assms by (auto simp: uf_union_find doubleton_eq_iff)

section \<open>What a client relies on\<close>

text \<open>A client's calls, and the store they lead to.\<close>

datatype 'k uf_call = UfInsert 'k | UfUnion 'k 'k

primrec uf_calls ::
    "('s \<Rightarrow> 'k \<Rightarrow> 's option) \<Rightarrow> ('s \<Rightarrow> 'k \<Rightarrow> 'k \<Rightarrow> 's option) \<Rightarrow> 'k uf_call list \<Rightarrow> 's \<Rightarrow> 's option" where
  "uf_calls ins uni [] s = Some s"
| "uf_calls ins uni (c # cs) s =
     (case c of UfInsert k \<Rightarrow> ins s k | UfUnion x y \<Rightarrow> uni s x y) \<bind> uf_calls ins uni cs"

primrec calls_elements :: "'k uf_call list \<Rightarrow> 'k set \<Rightarrow> 'k set" where
  "calls_elements [] A = A"
| "calls_elements (c # cs) A = calls_elements cs (case c of UfInsert k \<Rightarrow> insert k A | UfUnion x y \<Rightarrow> A)"

lemma calls_elements_mono: "A \<subseteq> calls_elements cs A"
proof (induction cs arbitrary: A)
  case (Cons c cs)
  have "A \<subseteq> (case c of UfInsert k \<Rightarrow> insert k A | UfUnion x y \<Rightarrow> A)" by (auto split: uf_call.split)
  then show ?case using Cons.IH by (auto simp del: subset_iff)
qed simp

lemma calls_elements_finite: "finite A \<Longrightarrow> finite (calls_elements cs A)"
  by (induction cs arbitrary: A) (auto split: uf_call.split)

text \<open>Every union names elements that were inserted before it.\<close>

primrec calls_ok :: "'k uf_call list \<Rightarrow> 'k set \<Rightarrow> bool" where
  "calls_ok [] A \<longleftrightarrow> True"
| "calls_ok (c # cs) A \<longleftrightarrow>
     (case c of UfInsert k \<Rightarrow> calls_ok cs (insert k A) | UfUnion x y \<Rightarrow> x \<in> A \<and> y \<in> A \<and> calls_ok cs A)"

definition calls_pairs :: "'k uf_call list \<Rightarrow> ('k \<times> 'k) set" where
  "calls_pairs cs = {(x, y). UfUnion x y \<in> set cs}"

definition generated :: "('k \<times> 'k) set \<Rightarrow> ('k \<times> 'k) set" where
  "generated U = (U \<union> U\<inverse>)\<^sup>*"

lemma calls_pairs_simps [simp]:
  "calls_pairs [] = {}" "calls_pairs (UfInsert k # cs) = calls_pairs cs"
  "calls_pairs (UfUnion x y # cs) = insert (x, y) (calls_pairs cs)"
  by (auto simp: calls_pairs_def)

lemma generated_insert:
  "(a, b) \<in> generated (insert (x, y) U) \<longleftrightarrow> (a, b) \<in> generated U \<or>
     (a, x) \<in> generated U \<and> (y, b) \<in> generated U \<or> (a, y) \<in> generated U \<and> (x, b) \<in> generated U"
proof -
  have "generated (insert (x, y) U) = (insert (x, y) (insert (y, x) (U \<union> U\<inverse>)))\<^sup>*"
    unfolding generated_def by (rule arg_cong[of _ _ rtrancl]) auto
  then show ?thesis
    by (auto simp: rtrancl_insert generated_def intro: rtrancl_trans)
qed

lemma generated_sym: "(a, b) \<in> generated U \<Longrightarrow> (b, a) \<in> generated U"
  unfolding generated_def by (metis Un_commute converse_Un converse_converse rtrancl_converseI)

lemma generated_outside:
  assumes "(a, b) \<in> generated U" and "a \<notin> Field U"
  shows "b = a"
  using assms(1) unfolding generated_def
proof (cases rule: converse_rtranclE)
  case (step c)
  then have "a \<in> Field U" by (auto simp: Field_def)
  with assms(2) show ?thesis by blast
qed simp

locale union_store =
  fixes inv :: "'s \<Rightarrow> bool" and elements :: "'s \<Rightarrow> 'k set" and find :: "'s \<Rightarrow> 'k \<Rightarrow> 'k"
    and empty :: 's and ins :: "'s \<Rightarrow> 'k \<Rightarrow> 's option" and uni :: "'s \<Rightarrow> 'k \<Rightarrow> 'k \<Rightarrow> 's option" and limit :: nat
  assumes empty_law: "inv empty" "elements empty = {}"
    and find_law: "inv s \<Longrightarrow> k \<in> elements s \<Longrightarrow> find s k \<in> elements s"
    and insert_law: "inv s \<Longrightarrow> card (insert k (elements s)) < limit \<Longrightarrow> \<exists>s'. ins s k = Some s' \<and> inv s' \<and> elements s' = insert k (elements s) \<and>
          (\<forall>a\<in>elements s. find s' a = find s a) \<and> (k \<notin> elements s \<longrightarrow> find s' k = k)"
    and union_law: "inv s \<Longrightarrow> x \<in> elements s \<Longrightarrow> y \<in> elements s \<Longrightarrow>
          \<exists>s'. uni s x y = Some s' \<and> inv s' \<and> elements s' = elements s \<and>
          (\<forall>a\<in>elements s. \<forall>b\<in>elements s. find s' a = find s' b \<longleftrightarrow>
             find s a = find s b \<or> {find s a, find s b} = {find s x, find s y})"
begin

definition denotes :: "'s \<Rightarrow> ('k \<times> 'k) set \<Rightarrow> bool" where
  "denotes s U \<longleftrightarrow> inv s \<and> Field U \<subseteq> elements s \<and>
     (\<forall>a\<in>elements s. \<forall>b\<in>elements s. find s a = find s b \<longleftrightarrow> (a, b) \<in> generated U)"

lemma denotes_empty: "denotes empty {}"
  by (simp add: denotes_def empty_law)

lemma denotes_insert:
  assumes "denotes s U" and room: "card (insert k (elements s)) < limit"
  shows "\<exists>s'. ins s k = Some s' \<and> denotes s' U \<and> elements s' = insert k (elements s)"
proof -
  have inv: "inv s" and U: "Field U \<subseteq> elements s" using assms by (auto simp: denotes_def)
  have eq: "find s a = find s b \<longleftrightarrow> (a, b) \<in> generated U" if "a \<in> elements s" "b \<in> elements s" for a b
    using assms that by (auto simp: denotes_def)
  obtain s' where s': "ins s k = Some s'" "inv s'" "elements s' = insert k (elements s)"
      and old: "\<And>a. a \<in> elements s \<Longrightarrow> find s' a = find s a" and new: "k \<notin> elements s \<Longrightarrow> find s' k = k"
    using insert_law[OF inv room] by blast
  have fresh: "find s' k \<noteq> find s' a \<and> (k, a) \<notin> generated U \<and> (a, k) \<notin> generated U"
    if k: "k \<notin> elements s" and a: "a \<in> elements s" for a
  proof (intro conjI notI)
    show False if "find s' k = find s' a" using that find_law[OF inv a] new[OF k] old[OF a] k by simp
    have "k \<notin> Field U" using U k by blast
    then show *: False if "(k, a) \<in> generated U" using generated_outside[OF that] k a by blast
    show False if "(a, k) \<in> generated U" using *[OF generated_sym[OF that]] .
  qed
  have "find s' a = find s' b \<longleftrightarrow> (a, b) \<in> generated U" if ab: "a \<in> elements s'" "b \<in> elements s'" for a b
  proof (cases "k \<in> elements s")
    case True
    then show ?thesis using that eq old s'(3) by (simp add: insert_absorb)
  next
    case False
    have refl: "(k, k) \<in> generated U" by (simp add: generated_def)
    consider "a = k" "b = k" | "a = k" "b \<in> elements s" | "b = k" "a \<in> elements s"
      | "a \<in> elements s" "b \<in> elements s" using ab unfolding s'(3) by blast
    then show ?thesis
    proof cases
      case 2 then show ?thesis using fresh[OF False, of b] by simp
    next
      case 3 then show ?thesis using fresh[OF False, of a] by auto
    next
      case 4 then show ?thesis using eq[of a b] old[of a] old[of b] by simp
    qed (simp add: refl)
  qed
  with s' U show ?thesis by (auto simp: denotes_def)
qed

lemma denotes_union:
  assumes "denotes s U" and xy: "x \<in> elements s" "y \<in> elements s"
  shows "\<exists>s'. uni s x y = Some s' \<and> denotes s' (insert (x, y) U) \<and> elements s' = elements s"
proof -
  have inv: "inv s" and U: "Field U \<subseteq> elements s" using assms by (auto simp: denotes_def)
  have eq: "find s a = find s b \<longleftrightarrow> (a, b) \<in> generated U" if "a \<in> elements s" "b \<in> elements s" for a b
    using assms that by (auto simp: denotes_def)
  obtain s' where s': "uni s x y = Some s'" "inv s'" "elements s' = elements s"
      and same: "\<And>a b. a \<in> elements s \<Longrightarrow> b \<in> elements s \<Longrightarrow> find s' a = find s' b \<longleftrightarrow>
             find s a = find s b \<or> {find s a, find s b} = {find s x, find s y}"
    using union_law[OF inv xy] by blast
  have "find s' a = find s' b \<longleftrightarrow> (a, b) \<in> generated (insert (x, y) U)"
    if ab: "a \<in> elements s" "b \<in> elements s" for a b
    unfolding same[OF ab] generated_insert eq[OF ab, symmetric] eq[OF ab(1) xy(1), symmetric]
      eq[OF ab(1) xy(2), symmetric] eq[OF xy(1) ab(2), symmetric] eq[OF xy(2) ab(2), symmetric]
    by (auto simp: doubleton_eq_iff)
  moreover have "Field (insert (x, y) U) \<subseteq> elements s" using U xy by (auto simp: Field_def)
  ultimately show ?thesis using s' by (auto simp: denotes_def)
qed

lemma denotes_calls:
  "denotes s U \<Longrightarrow> calls_ok cs (elements s) \<Longrightarrow> finite (elements s) \<Longrightarrow> card (calls_elements cs (elements s)) < limit \<Longrightarrow>
   \<exists>s'. uf_calls ins uni cs s = Some s' \<and> denotes s' (U \<union> calls_pairs cs) \<and>
     elements s' = calls_elements cs (elements s)"
proof (induction cs arbitrary: s U)
  case (Cons c cs)
  show ?case
  proof (cases c)
    case (UfInsert k)
    have "card (insert k (elements s)) \<le> card (calls_elements cs (insert k (elements s)))"
      using Cons.prems(3) by (intro card_mono calls_elements_finite calls_elements_mono) simp
    then have "card (insert k (elements s)) < limit" using Cons.prems(4) UfInsert by simp
    then obtain s1 where s1: "ins s k = Some s1" "denotes s1 U" "elements s1 = insert k (elements s)"
      using denotes_insert[OF Cons.prems(1)] by blast
    show ?thesis using Cons.IH[OF s1(2)] Cons.prems(2-4) s1 UfInsert by simp
  next
    case (UfUnion x y)
    with Cons.prems(2) have "x \<in> elements s" "y \<in> elements s" by simp_all
    then obtain s1 where s1: "uni s x y = Some s1" "denotes s1 (insert (x, y) U)" "elements s1 = elements s"
      using denotes_union[OF Cons.prems(1)] by blast
    show ?thesis using Cons.IH[OF s1(2)] Cons.prems(2-4) s1 UfUnion by simp
  qed
qed simp

lemma calls_generate:
  assumes "calls_ok cs {}" and "card (calls_elements cs {}) < limit"
  shows "\<exists>s. uf_calls ins uni cs empty = Some s \<and> inv s \<and> elements s = calls_elements cs {} \<and>
    (\<forall>a\<in>elements s. \<forall>b\<in>elements s. find s a = find s b \<longleftrightarrow> (a, b) \<in> generated (calls_pairs cs))"
  using denotes_calls[OF denotes_empty, of cs] assms by (auto simp: denotes_def empty_law)

end

lemma UnionFind_Insert_eq:
  "wf_uf m \<Longrightarrow> uf_fits m \<Longrightarrow> UnionFind_Insert m k =
     Some (if k \<in> uf_elements m then uf_store m (uf_root m k) () else uf_add m k ())"
  by (simp add: UnionFind_Insert_def UnionFindMap_Insert_def Insert_merge_eq)

lemma UnionFind_Union_eq:
  "wf_uf m \<Longrightarrow> uf_fits m \<Longrightarrow> UnionFind_Union m x y =
     (if x \<in> uf_elements m \<and> y \<in> uf_elements m then Some (uf_union m x y (\<lambda>_ _. ())) else None)"
  by (simp add: UnionFind_Union_def Union_eq)

lemma UnionFind_Find_eq:
  "wf_uf m \<Longrightarrow> UnionFind_Find m k = (if k \<in> uf_elements m then Some (m, uf_find m k) else None)"
  by (simp add: UnionFind_Find_def Find_eq)

interpretation uf: union_store "\<lambda>m :: 'k union_find. wf_uf m \<and> uf_fits m" uf_elements uf_find UnionFindMap_new
  UnionFind_Insert UnionFind_Union "2 ^ 32"
proof
  show "wf_uf (UnionFindMap_new :: 'k union_find) \<and> uf_fits (UnionFindMap_new :: 'k union_find)"
    by (simp add: wf_uf_new) (simp add: uf_fits_def UnionFindMap_new_def)
  show "uf_elements (UnionFindMap_new :: 'k union_find) = {}" by (simp add: UnionFindMap_new_def uf_elements_def)
next
  fix m :: "'k union_find" and k
  assume "wf_uf m \<and> uf_fits m" and "k \<in> uf_elements m"
  then show "uf_find m k \<in> uf_elements m" by (simp add: uf_find_element)
next
  fix m :: "'k union_find" and k
  assume "wf_uf m \<and> uf_fits m" and "card (insert k (uf_elements m)) < 2 ^ 32"
  moreover from this have "uf_fits (uf_store m (uf_root m k) ())" by (auto intro: uf_fits_insert(2))
  ultimately show "\<exists>s'. UnionFind_Insert m k = Some s' \<and> (wf_uf s' \<and> uf_fits s') \<and> uf_elements s' = insert k (uf_elements m) \<and>
      (\<forall>a\<in>uf_elements m. uf_find s' a = uf_find m a) \<and> (k \<notin> uf_elements m \<longrightarrow> uf_find s' k = k)"
    by (cases "k \<in> uf_elements m")
      (simp_all add: UnionFind_Insert_eq uf_store_facts insert_absorb uf_add_facts wf_uf_add uf_fits_insert)
next
  fix m :: "'k union_find" and x y
  assume "wf_uf m \<and> uf_fits m" and "x \<in> uf_elements m" and "y \<in> uf_elements m"
  then show "\<exists>s'. UnionFind_Union m x y = Some s' \<and> (wf_uf s' \<and> uf_fits s') \<and> uf_elements s' = uf_elements m \<and>
      (\<forall>a\<in>uf_elements m. \<forall>b\<in>uf_elements m. uf_find s' a = uf_find s' b \<longleftrightarrow>
         uf_find m a = uf_find m b \<or> {uf_find m a, uf_find m b} = {uf_find m x, uf_find m y})"
    by (simp add: UnionFind_Union_eq wf_uf_union uf_fits_union uf_union_elements uf_union_same)
qed

section \<open>Representatives\<close>

lemma representatives_eq:
  assumes "wf_uf m" and "set ks \<subseteq> uf_elements m"
  shows "UnionFindMap_representatives m ks acc = Some (m, acc \<union> uf_find m ` set ks)"
  using assms(2) by (induction ks arbitrary: acc) (simp_all add: Find_eq[OF assms(1)])

lemma GetRepresentatives_eq:
  "wf_uf m \<Longrightarrow> UnionFindMap_GetRepresentatives m = Some (m, uf_find m ` uf_elements m)"
  by (simp add: UnionFindMap_GetRepresentatives_def representatives_eq wf_uf_elements)

lemma Insert_merge_behaviour:
  assumes "wf_uf m" and room: "card (insert k (uf_elements m)) < 2 ^ 32"
  shows "\<exists>m'. UnionFindMap_Insert_merge m k v f = Some m' \<and> wf_uf m' \<and> uf_fits m' \<and>
      uf_elements m' = insert k (uf_elements m) \<and>
      (\<forall>a\<in>insert k (uf_elements m). UnionFindMap_Find m' a = Some (m', Some
         (if a \<in> uf_elements m then uf_find m a else k,
          if k \<notin> uf_elements m then (if a = k then v else uf_value m a)
          else if uf_find m a = uf_find m k then f (uf_value m k) v else uf_value m a)))"
proof (cases "k \<in> uf_elements m")
  case True
  then show ?thesis using assms(1) uf_fits_insert[OF assms]
    by (auto simp: Insert_merge_eq uf_store_facts insert_absorb Find_eq uf_store_value)
next
  case False
  then show ?thesis using assms(1) uf_fits_insert[OF assms] by (auto simp: Insert_merge_eq uf_add_facts wf_uf_add Find_eq)
qed

lemma Union_behaviour:
  assumes "wf_uf m" and "uf_fits m"
  shows "\<exists>m'. UnionFindMap_Union m x y f = Some (m', x \<in> uf_elements m \<and> y \<in> uf_elements m) \<and> wf_uf m' \<and> uf_fits m' \<and>
      (x \<notin> uf_elements m \<or> y \<notin> uf_elements m \<longrightarrow> m' = m) \<and>
      (x \<in> uf_elements m \<and> y \<in> uf_elements m \<and> uf_find m x \<noteq> uf_find m y \<longrightarrow>
        (\<forall>a\<in>uf_elements m. UnionFindMap_Find m' a = Some (m', Some
           (if uf_find m a \<in> {uf_find m x, uf_find m y} then
              if uf_heavier m x y then (uf_find m y, f (uf_value m y) (uf_value m x))
              else (uf_find m x, f (uf_value m x) (uf_value m y))
            else (uf_find m a, uf_value m a)))))"
  using assms
  by (auto simp: Union_eq wf_uf_union uf_fits_union Find_eq uf_union_elements uf_union_find uf_union_value)

section \<open>Properties\<close>

text \<open>C21: a sequence of \<open>Insert\<close> and \<open>Union\<close> calls on a fresh \<open>UnionFind\<close>, each union naming elements
  inserted before it, with fewer than \<open>2^32\<close> different elements (the documented limit: indices and sizes are 32-bit
  words), never aborts; afterwards \<open>Find\<close> succeeds exactly on the inserted elements, and two
  of them have the same representative if and only if they are related by the equivalence closure of
  the pairs that were united.\<close>

theorem union_find_equivalence_closure:
  assumes "calls_ok cs {}" and "card (calls_elements cs {}) < 2 ^ 32"
  shows "\<exists>m. uf_calls UnionFind_Insert UnionFind_Union cs UnionFindMap_new = Some m \<and>
    (\<forall>a. UnionFind_Find m a = None \<longleftrightarrow> a \<notin> calls_elements cs {}) \<and>
    (\<forall>a b. a \<in> calls_elements cs {} \<and> b \<in> calls_elements cs {} \<longrightarrow>
       (UnionFind_Find m a = UnionFind_Find m b \<longleftrightarrow> (a, b) \<in> (calls_pairs cs \<union> (calls_pairs cs)\<inverse>)\<^sup>*))"
  using uf.calls_generate[OF assms] by (auto simp: UnionFind_Find_eq generated_def)

lemma union_find_equivalence_closure_witness:
  "\<exists>m. uf_calls UnionFind_Insert UnionFind_Union
        [UfInsert (1::nat), UfInsert 2, UfInsert 3, UfUnion 3 1] UnionFindMap_new = Some m \<and>
     UnionFind_Find m 1 = UnionFind_Find m 3 \<and> UnionFind_Find m 4 = None"
proof -
  let ?cs = "[UfInsert (1::nat), UfInsert 2, UfInsert 3, UfUnion 3 1]"
  have el: "calls_elements ?cs {} = {1, 2, 3}" by auto
  have "(1, 3) \<in> (calls_pairs ?cs \<union> (calls_pairs ?cs)\<inverse>)\<^sup>*" by (rule r_into_rtrancl) (simp add: calls_pairs_def)
  moreover have "calls_ok ?cs {}" by simp
  ultimately show ?thesis using union_find_equivalence_closure[of ?cs] unfolding el by auto
qed

text \<open>C33: on a map that satisfies the invariant, \<open>FindRoot\<close> of a stored index returns the root of its
  tree and leaves every node as it was (the assignment written as path halving stores back the value
  just read), and the path it walks has at most logarithmic length: a node at depth \<open>d\<close> requires
  at least \<open>2^d\<close> nodes.\<close>

theorem union_find_root_logarithmic:
  assumes "wf_uf m" and "i < length (uf_nodes m)"
  shows "UnionFindMap_FindRoot (uf_nodes m) i = Some (uf_nodes m, uf_rep (uf_nodes m) i) \<and>
    parent (uf_nodes m) (uf_rep (uf_nodes m) i) = uf_rep (uf_nodes m) i \<and>
    2 ^ uf_depth (uf_nodes m) i \<le> length (uf_nodes m)"
  using assms by (auto simp: FindRoot_eq wf_uf_linked depth_log wf_uf_def)

text \<open>C34: the map with values keeps its invariant under every operation, as long as it holds fewer than \<open>2^32\<close> keys (the
  documented limit). Inserting a new key makes a
  class of its own with the given value; inserting an old one merges into the value of its class only.
  A union of known keys joins their classes and stores the merged value for all their members, the
  value of the heavier class first; a union with an unknown key changes nothing and returns false.\<close>

theorem union_find_map_operations:
  assumes "wf_uf m" and "card (insert k (uf_elements m)) < 2 ^ 32"
  shows "(\<exists>m'. UnionFindMap_Insert_merge m k v f = Some m' \<and> wf_uf m' \<and> uf_fits m' \<and>
      uf_elements m' = insert k (uf_elements m) \<and>
      (\<forall>a\<in>insert k (uf_elements m). UnionFindMap_Find m' a = Some (m', Some
         (if a \<in> uf_elements m then uf_find m a else k,
          if k \<notin> uf_elements m then (if a = k then v else uf_value m a)
          else if uf_find m a = uf_find m k then f (uf_value m k) v else uf_value m a)))) \<and>
    (\<exists>m'. UnionFindMap_Union m x y f = Some (m', x \<in> uf_elements m \<and> y \<in> uf_elements m) \<and> wf_uf m' \<and> uf_fits m' \<and>
      (x \<notin> uf_elements m \<or> y \<notin> uf_elements m \<longrightarrow> m' = m) \<and>
      (x \<in> uf_elements m \<and> y \<in> uf_elements m \<and> uf_find m x \<noteq> uf_find m y \<longrightarrow>
        (\<forall>a\<in>uf_elements m. UnionFindMap_Find m' a = Some (m', Some
           (if uf_find m a \<in> {uf_find m x, uf_find m y} then
              if uf_heavier m x y then (uf_find m y, f (uf_value m y) (uf_value m x))
              else (uf_find m x, f (uf_value m x) (uf_value m y))
            else (uf_find m a, uf_value m a))))))"
  using Insert_merge_behaviour[OF assms, of v f] Union_behaviour[OF assms(1) uf_fits_insert(1)[OF assms], of x y f] by blast

definition uf_sample :: "(nat, nat) union_find_map" where
  "uf_sample = uf_add (uf_add UnionFindMap_new 4 10) 7 20"

lemma uf_sample_wf: "wf_uf uf_sample"
  unfolding uf_sample_def
  by (intro wf_uf_add wf_uf_new) (simp_all add: UnionFindMap_new_def uf_elements_def uf_add_def)

lemma union_find_root_logarithmic_witness:
  "wf_uf uf_sample \<and> 1 < length (uf_nodes uf_sample) \<and>
   UnionFindMap_FindRoot (uf_nodes uf_sample) 1 = Some (uf_nodes uf_sample, uf_rep (uf_nodes uf_sample) 1)"
proof -
  have "1 < length (uf_nodes uf_sample)" by (simp add: uf_sample_def uf_add_def UnionFindMap_new_def)
  with union_find_root_logarithmic[OF uf_sample_wf this] uf_sample_wf show ?thesis by simp
qed

lemma union_find_map_operations_witness:
  "wf_uf uf_sample \<and> (\<exists>m'. UnionFindMap_Union uf_sample 4 7 (+) = Some (m', True) \<and>
     UnionFindMap_Find m' 7 = Some (m', Some (4, 30)))"
proof -
  have el: "4 \<in> uf_elements uf_sample" "7 \<in> uf_elements uf_sample"
    by (simp_all add: uf_sample_def uf_elements_def uf_add_def UnionFindMap_new_def)
  have "uf_elements uf_sample = {4, 7}" by (auto simp: uf_sample_def uf_elements_def uf_add_def UnionFindMap_new_def split: if_splits)
  then have room: "card (insert 0 (uf_elements uf_sample)) < 2 ^ 32" by simp
  have "uf_find uf_sample 4 = 4" "uf_find uf_sample 7 = 7" "uf_value uf_sample 4 = 10" "uf_value uf_sample 7 = 20"
    "\<not> uf_heavier uf_sample 4 7"
    by (simp_all add: uf_sample_def uf_heavier_def uf_find_def uf_value_def uf_root_def uf_rep.simps
      uf_add_def UnionFindMap_new_def uf_extend_def)
  then show ?thesis
    using union_find_map_operations[OF uf_sample_wf room, where v = 0 and f = "(+)" and x = 4 and y = 7] el uf_sample_wf by auto
qed

text \<open>\<open>GetRepresentatives\<close> returns, without changing the map, exactly the keys that represent
  themselves; every inserted key is represented by exactly one of them.\<close>

lemma union_find_representatives:
  assumes "wf_uf m"
  shows "\<exists>R. UnionFindMap_GetRepresentatives m = Some (m, R) \<and> R \<subseteq> uf_elements m \<and>
    R = {k \<in> uf_elements m. uf_find m k = k} \<and>
    (\<forall>k\<in>uf_elements m. \<exists>!r. r \<in> R \<and> uf_find m r = uf_find m k)"
proof -
  have R: "uf_find m ` uf_elements m = {k \<in> uf_elements m. uf_find m k = k}"
    using uf_find_idem[OF assms] uf_find_element[OF assms] by force
  have "\<exists>!r. r \<in> {k \<in> uf_elements m. uf_find m k = k} \<and> uf_find m r = uf_find m k" if "k \<in> uf_elements m" for k
    using uf_find_idem[OF assms that] uf_find_element[OF assms that] by auto
  then show ?thesis by (auto simp: GetRepresentatives_eq[OF assms] R)
qed

end
