(* ===== verification/Xls_Type.thy ===== *)
theory Xls_Type
  imports Xls_Prelude
begin

text \<open>
  \<open>xls/ir/type.{h,cc}\<close>, the protobuf image of types (\<open>xls/ir/xls_type.proto\<close>) and its reader
  \<open>Package::GetTypeFromProto\<close>.

  A package hands out one object per type, so that the code compares types by pointer; here types
  are values and the comparison is equality. Bit counts and array sizes are \<open>nat\<close>: the constructors
  and the reader refuse negative ones.
\<close>

datatype xls_type = BitsType nat | TupleType "xls_type list" | ArrayType nat xls_type | TokenType

datatype type_kind = kTuple | kBits | kArray | kToken

definition TypeKindToString :: "type_kind \<Rightarrow> string" where
  "TypeKindToString k = (case k of kTuple \<Rightarrow> ''tuple'' | kBits \<Rightarrow> ''bits'' | kArray \<Rightarrow> ''array'' | kToken \<Rightarrow> ''token'')"

definition Type_kind :: "xls_type \<Rightarrow> type_kind" where
  "Type_kind t = (case t of BitsType n \<Rightarrow> kBits | TupleType ms \<Rightarrow> kTuple | ArrayType n e \<Rightarrow> kArray | TokenType \<Rightarrow> kToken)"

definition Type_IsBits :: "xls_type \<Rightarrow> bool" where "Type_IsBits t \<longleftrightarrow> Type_kind t = kBits"

definition Type_IsTuple :: "xls_type \<Rightarrow> bool" where "Type_IsTuple t \<longleftrightarrow> Type_kind t = kTuple"

definition Type_IsArray :: "xls_type \<Rightarrow> bool" where "Type_IsArray t \<longleftrightarrow> Type_kind t = kArray"

definition Type_IsToken :: "xls_type \<Rightarrow> bool" where "Type_IsToken t \<longleftrightarrow> Type_kind t = kToken"

text \<open>The checked downcasts deliver the fields of the subclass.\<close>

definition Type_AsBitsOrDie :: "xls_type \<Rightarrow> nat option" where
  "Type_AsBitsOrDie t = (case t of BitsType n \<Rightarrow> Some n | _ \<Rightarrow> None)"

definition Type_AsTupleOrDie :: "xls_type \<Rightarrow> xls_type list option" where
  "Type_AsTupleOrDie t = (case t of TupleType ms \<Rightarrow> Some ms | _ \<Rightarrow> None)"

definition Type_AsArrayOrDie :: "xls_type \<Rightarrow> (nat \<times> xls_type) option" where
  "Type_AsArrayOrDie t = (case t of ArrayType n e \<Rightarrow> Some (n, e) | _ \<Rightarrow> None)"

definition Type_AsTokenOrDie :: "xls_type \<Rightarrow> unit option" where
  "Type_AsTokenOrDie t = (case t of TokenType \<Rightarrow> Some () | _ \<Rightarrow> None)"

definition Type_AsBits :: "xls_type \<Rightarrow> nat statusor option" where
  "Type_AsBits t = (if Type_IsBits t then map_option Inr (Type_AsBitsOrDie t) else Some (Inl InvalidArgument))"

definition Type_AsArray :: "xls_type \<Rightarrow> (nat \<times> xls_type) statusor option" where
  "Type_AsArray t = (if Type_IsArray t then map_option Inr (Type_AsArrayOrDie t) else Some (Inl InvalidArgument))"

fun Type_GetFlatBitCount :: "xls_type \<Rightarrow> nat" where
  "Type_GetFlatBitCount (BitsType n) = n"
| "Type_GetFlatBitCount (TupleType ms) = sum_list (map Type_GetFlatBitCount ms)"
| "Type_GetFlatBitCount (ArrayType n e) = Type_GetFlatBitCount e * n"
| "Type_GetFlatBitCount TokenType = 0"

fun Type_leaf_count :: "xls_type \<Rightarrow> nat" where
  "Type_leaf_count (BitsType n) = 1"
| "Type_leaf_count (TupleType ms) = sum_list (map Type_leaf_count ms)"
| "Type_leaf_count (ArrayType n e) = n * Type_leaf_count e"
| "Type_leaf_count TokenType = 1"

fun Type_IsEqualTo :: "xls_type \<Rightarrow> xls_type \<Rightarrow> bool"
and Type_members_equal :: "xls_type list \<Rightarrow> xls_type list \<Rightarrow> bool" where
  "Type_IsEqualTo (BitsType n) other = (case other of BitsType m \<Rightarrow> n = m | _ \<Rightarrow> False)"
| "Type_IsEqualTo (TupleType ms) other =
     (case other of TupleType ms' \<Rightarrow> length ms = length ms' \<and> Type_members_equal ms ms' | _ \<Rightarrow> False)"
| "Type_IsEqualTo (ArrayType n e) other =
     (case other of ArrayType n' e' \<Rightarrow> n = n' \<and> Type_IsEqualTo e e' | _ \<Rightarrow> False)"
| "Type_IsEqualTo TokenType other = (case other of TokenType \<Rightarrow> True | _ \<Rightarrow> False)"
| "Type_members_equal (m # ms) (m' # ms') \<longleftrightarrow> Type_IsEqualTo m m' \<and> Type_members_equal ms ms'"
| "Type_members_equal _ _ \<longleftrightarrow> True"

section \<open>Text\<close>

text \<open>Numbers as \<open>absl::StrCat\<close> and \<open>StrFormat\<close> (\<open>%d\<close>, \<open>%x\<close>) print them.\<close>

definition digit_char :: "nat \<Rightarrow> char" where
  "digit_char d = (if d < 10 then char_of (48 + d) else char_of (87 + d))"

function num_string :: "nat \<Rightarrow> nat \<Rightarrow> string" where
  "num_string base n =
     (if base < 2 \<or> n < base then [digit_char n] else num_string base (n div base) @ [digit_char (n mod base)])"
  by pat_completeness auto
termination
  by (relation "measure snd") auto

declare num_string.simps [simp del]

abbreviation dec_string :: "nat \<Rightarrow> string" where
  "dec_string \<equiv> num_string 10"

fun StrJoin :: "string list \<Rightarrow> string \<Rightarrow> string" where
  "StrJoin [] sep = ''''"
| "StrJoin [s] sep = s"
| "StrJoin (s # ss) sep = s @ sep @ StrJoin ss sep"

fun Type_ToString :: "xls_type \<Rightarrow> string" where
  "Type_ToString (BitsType n) = ''bits['' @ dec_string n @ '']''"
| "Type_ToString (TupleType ms) = ''('' @ StrJoin (map Type_ToString ms) '', '' @ '')''"
| "Type_ToString (ArrayType n e) = Type_ToString e @ ''['' @ dec_string n @ '']''"
| "Type_ToString TokenType = ''token''"

record function_type =
  ft_parameters :: "xls_type list"
  ft_return_type :: xls_type

definition FunctionType_IsEqualTo :: "function_type \<Rightarrow> function_type \<Rightarrow> bool" where
  "FunctionType_IsEqualTo f other \<longleftrightarrow>
     Type_IsEqualTo (ft_return_type f) (ft_return_type other) \<and>
     length (ft_parameters f) = length (ft_parameters other) \<and>
     Type_members_equal (ft_parameters f) (ft_parameters other)"

definition FunctionType_ToString :: "function_type \<Rightarrow> string" where
  "FunctionType_ToString f =
     ''('' @ StrJoin (map Type_ToString (ft_parameters f)) '', '' @ '') -> '' @ Type_ToString (ft_return_type f)"

section \<open>Arrays and tokens\<close>

fun GetArrayDimensionCount :: "xls_type \<Rightarrow> nat" where
  "GetArrayDimensionCount (ArrayType n e) = 1 + GetArrayDimensionCount e"
| "GetArrayDimensionCount _ = 0"

fun GetIndexedElementType :: "xls_type \<Rightarrow> nat \<Rightarrow> xls_type statusor" where
  "GetIndexedElementType t 0 = Inr t"
| "GetIndexedElementType (ArrayType n e) (Suc k) = GetIndexedElementType e k"
| "GetIndexedElementType t (Suc k) = Inl InvalidArgument"

fun TypeHasToken :: "xls_type \<Rightarrow> bool" where
  "TypeHasToken TokenType \<longleftrightarrow> True"
| "TypeHasToken (ArrayType n e) \<longleftrightarrow> TypeHasToken e"
| "TypeHasToken (TupleType ms) \<longleftrightarrow> list_ex TypeHasToken ms"
| "TypeHasToken (BitsType n) \<longleftrightarrow> False"

section \<open>Protobufs\<close>

datatype type_enum = INVALID | BITS | TUPLE | ARRAY | TOKEN

text \<open>The optional fields are options, and \<open>int64\<close> fields are integers.\<close>

datatype type_proto =
  TypeProto (tp_type_enum: "type_enum option") (tp_bit_count: "int option")
    (tp_tuple_elements: "type_proto list") (tp_array_size: "int option") (tp_array_element: "type_proto option")

fun Type_ToProto :: "xls_type \<Rightarrow> type_proto" where
  "Type_ToProto (BitsType n) = TypeProto (Some BITS) (Some (int n)) [] None None"
| "Type_ToProto (TupleType ms) = TypeProto (Some TUPLE) None (map Type_ToProto ms) None None"
| "Type_ToProto (ArrayType n e) = TypeProto (Some ARRAY) None [] (Some (int n)) (Some (Type_ToProto e))"
| "Type_ToProto TokenType = TypeProto (Some TOKEN) None [] None None"

fun GetTypeFromProto :: "type_proto \<Rightarrow> xls_type statusor"
and GetTypesFromProtos :: "type_proto list \<Rightarrow> xls_type list statusor" where
  "GetTypeFromProto (TypeProto kind bit_count tuple_elements array_size array_element) =
     (case kind of
        None \<Rightarrow> Inl InvalidArgument
      | Some BITS \<Rightarrow>
          (case bit_count of None \<Rightarrow> Inl InvalidArgument
           | Some n \<Rightarrow> if n < 0 then Inl InvalidArgument else Inr (BitsType (nat n)))
      | Some TUPLE \<Rightarrow> map_sum id TupleType (GetTypesFromProtos tuple_elements)
      | Some ARRAY \<Rightarrow>
          (case array_size of None \<Rightarrow> Inl InvalidArgument
           | Some n \<Rightarrow>
               if n < 0 then Inl InvalidArgument
               else (case array_element of None \<Rightarrow> Inl InvalidArgument
                     | Some e \<Rightarrow> map_sum id (ArrayType (nat n)) (GetTypeFromProto e)))
      | Some TOKEN \<Rightarrow> Inr TokenType
      | Some INVALID \<Rightarrow> Inl InvalidArgument)"
| "GetTypesFromProtos [] = Inr []"
| "GetTypesFromProtos (p # ps) =
     (case GetTypeFromProto p of Inl e \<Rightarrow> Inl e | Inr t \<Rightarrow> map_sum id ((#) t) (GetTypesFromProtos ps))"

record function_type_proto =
  fp_parameters :: "type_proto list"
  fp_return_type :: "type_proto option"

definition FunctionType_ToProto :: "function_type \<Rightarrow> function_type_proto" where
  "FunctionType_ToProto f =
     \<lparr>fp_parameters = map Type_ToProto (ft_parameters f), fp_return_type = Some (Type_ToProto (ft_return_type f))\<rparr>"

definition GetFunctionTypeFromProto :: "function_type_proto \<Rightarrow> function_type statusor" where
  "GetFunctionTypeFromProto proto =
     (case GetTypesFromProtos (fp_parameters proto) of
        Inl e \<Rightarrow> Inl e
      | Inr params \<Rightarrow>
          (case fp_return_type proto of
             None \<Rightarrow> Inl InvalidArgument
           | Some r \<Rightarrow> map_sum id (\<lambda>t. \<lparr>ft_parameters = params, ft_return_type = t\<rparr>) (GetTypeFromProto r)))"

section \<open>Comparison and protobufs\<close>

lemma Type_IsEqualTo_eq: "Type_IsEqualTo t u \<longleftrightarrow> t = u"
  and Type_members_equal_eq: "length ts = length us \<Longrightarrow> Type_members_equal ts us \<longleftrightarrow> ts = us"
  by (induction t u and ts us rule: Type_IsEqualTo_Type_members_equal.induct) (auto split: xls_type.splits)

lemma FunctionType_IsEqualTo_eq: "FunctionType_IsEqualTo f g \<longleftrightarrow> ft_return_type f = ft_return_type g \<and> ft_parameters f = ft_parameters g"
  by (auto simp: FunctionType_IsEqualTo_def Type_IsEqualTo_eq Type_members_equal_eq)

lemma GetTypesFromProtos_map:
  "(\<And>t. t \<in> set ts \<Longrightarrow> GetTypeFromProto (Type_ToProto t) = Inr t) \<Longrightarrow> GetTypesFromProtos (map Type_ToProto ts) = Inr ts"
  by (induction ts) auto

lemma GetTypeFromProto_ToProto: "GetTypeFromProto (Type_ToProto t) = Inr t"
  by (induction t rule: Type_ToProto.induct) (simp_all add: GetTypesFromProtos_map)

lemma GetFunctionTypeFromProto_ToProto: "GetFunctionTypeFromProto (FunctionType_ToProto f) = Inr f"
  by (simp add: GetFunctionTypeFromProto_def FunctionType_ToProto_def GetTypesFromProtos_map GetTypeFromProto_ToProto)

lemma GetIndexedElementType_ok_iff:
  "(\<exists>u. GetIndexedElementType t k = Inr u) \<longleftrightarrow> k \<le> GetArrayDimensionCount t"
  by (induction t k rule: GetIndexedElementType.induct) auto

lemma Type_kind_simps [simp]:
  "Type_IsBits (BitsType n)" "\<not> Type_IsBits (TupleType ms)" "\<not> Type_IsBits (ArrayType n e)" "\<not> Type_IsBits TokenType"
  "\<not> Type_IsTuple (BitsType n)" "Type_IsTuple (TupleType ms)" "\<not> Type_IsTuple (ArrayType n e)" "\<not> Type_IsTuple TokenType"
  "\<not> Type_IsArray (BitsType n)" "\<not> Type_IsArray (TupleType ms)" "Type_IsArray (ArrayType n e)" "\<not> Type_IsArray TokenType"
  "\<not> Type_IsToken (BitsType n)" "\<not> Type_IsToken (TupleType ms)" "\<not> Type_IsToken (ArrayType n e)" "Type_IsToken TokenType"
  by (simp_all add: Type_IsBits_def Type_IsTuple_def Type_IsArray_def Type_IsToken_def Type_kind_def)

lemma Type_IsBitsE: "Type_IsBits t \<Longrightarrow> (\<And>n. t = BitsType n \<Longrightarrow> P) \<Longrightarrow> P"
  by (cases t) auto

lemma Type_IsTupleE: "Type_IsTuple t \<Longrightarrow> (\<And>ms. t = TupleType ms \<Longrightarrow> P) \<Longrightarrow> P"
  by (cases t) auto

lemma Type_IsArrayE: "Type_IsArray t \<Longrightarrow> (\<And>n e. t = ArrayType n e \<Longrightarrow> P) \<Longrightarrow> P"
  by (cases t) auto

end
