(* ===== verification/Xls_Math_Util.thy ===== *)
theory Xls_Math_Util
  imports Complex_Main Xls_Prelude "HOL-Library.Signed_Division"
begin

text \<open>
  \<open>xls/common/math_util.{h,cc}\<close> and the mask helper of \<open>xls/common/bits_util.h\<close>: rounded
  division, integer logarithms, and the mixed-radix iterator.

  Integer types that the code instantiates at \<open>int64_t\<close> are \<open>int\<close>; C++ division truncates
  towards zero, which is \<open>sdiv\<close>/\<open>smod\<close>. An argument that a \<open>XLS_DCHECK\<close> excludes (and that
  raises SIGFPE in an optimised build) gives \<open>None\<close>.
\<close>

section \<open>Rounded division\<close>

definition CeilOrFloorOfRatio :: "bool \<Rightarrow> int \<Rightarrow> int \<Rightarrow> int option" where
  "CeilOrFloorOfRatio ceil numerator denominator =
     (if denominator = 0 then None
      else if numerator = - (2 ^ 63) \<and> denominator = -1 then None
      else
        let rounded_toward_zero = numerator sdiv denominator;
            needs_round = (numerator smod denominator \<noteq> 0);
            same_sign = ((numerator \<ge> 0) = (denominator \<ge> 0))
        in Some (if ceil then rounded_toward_zero + of_bool (same_sign \<and> needs_round)
                 else rounded_toward_zero - of_bool (\<not> same_sign \<and> needs_round)))"

definition CeilOfRatio :: "int \<Rightarrow> int \<Rightarrow> int option" where
  "CeilOfRatio numerator denominator = CeilOrFloorOfRatio True numerator denominator"

definition FloorOfRatio :: "int \<Rightarrow> int \<Rightarrow> int option" where
  "FloorOfRatio numerator denominator = CeilOrFloorOfRatio False numerator denominator"

definition RoundUpToNearest :: "int \<Rightarrow> int \<Rightarrow> int option" where
  "RoundUpToNearest v divisor = map_option (\<lambda>q. q * divisor) (CeilOfRatio v divisor)"

definition RoundDownToNearest :: "int \<Rightarrow> int \<Rightarrow> int option" where
  "RoundDownToNearest v divisor =
     (if divisor = 0 then None else Some (v sdiv divisor * divisor))"

text \<open>Counts and sizes are non-negative and the divisor a positive constant: the quotient is
  then a natural number.\<close>

definition ceil_ratio :: "nat \<Rightarrow> nat \<Rightarrow> nat" where
  "ceil_ratio n d = nat (the (CeilOfRatio (int n) (int d)))"

lemma smod_eq_0_iff: "(a::int) smod b = 0 \<longleftrightarrow> b dvd a"
  by (cases "a = 0") (simp_all add: signed_modulo_int_def dvd_eq_mod_eq_0 [symmetric] sgn_0_0)

lemma sgn_eq_same_sign: "(a::int) \<noteq> 0 \<Longrightarrow> b \<noteq> 0 \<Longrightarrow> sgn a = sgn b \<longleftrightarrow> (a \<ge> 0) = (b \<ge> 0)"
  by (auto simp: sgn_if)

lemma FloorOfRatio_eq_div:
  assumes "d \<noteq> 0" and "\<not> (n = - (2 ^ 63) \<and> d = -1)"
  shows "FloorOfRatio n d = Some (n div d)"
proof -
  have "n sdiv d - of_bool ((n \<ge> 0) \<noteq> (d \<ge> 0) \<and> \<not> d dvd n) = n div d"
    using assms(1) sgn_eq_same_sign [of n d]
    by (cases "n = 0") (simp_all add: signed_divide_int_eq_divide_int)
  with assms show ?thesis
    by (simp add: FloorOfRatio_def CeilOrFloorOfRatio_def smod_eq_0_iff Let_def)
qed

lemma CeilOfRatio_eq_div:
  assumes "d \<noteq> 0" and "\<not> (n = - (2 ^ 63) \<and> d = -1)"
  shows "CeilOfRatio n d = Some (- (- n div d))"
proof -
  have neg: "(- n) sdiv d = - (n sdiv d)"
    by (simp add: signed_divide_int_def)
  have "sgn (- n) \<noteq> sgn d \<longleftrightarrow> (n \<ge> 0) = (d \<ge> 0)" if "n \<noteq> 0"
    using that assms(1) by (auto simp: sgn_if)
  then have "n sdiv d + of_bool ((n \<ge> 0) = (d \<ge> 0) \<and> \<not> d dvd n) = - (- n div d)"
    using assms(1) neg
    by (cases "n = 0") (simp_all add: divide_int_eq_signed_divide_int)
  with assms show ?thesis
    by (simp add: CeilOfRatio_def CeilOrFloorOfRatio_def smod_eq_0_iff Let_def)
qed

lemma ceil_ratio_eq:
  assumes "d > 0"
  shows "ceil_ratio n d = (n + d - 1) div d"
proof -
  have "- int n div int d = - int ((n + d - 1) div d)"
  proof (rule int_div_pos_eq)
    have *: "(n + d - 1) div d * d + (n + d - 1) mod d = n + d - 1" "(n + d - 1) mod d < d"
      using assms by simp_all
    show "- int n = int d * - int ((n + d - 1) div d) + int (d - 1 - (n + d - 1) mod d)"
      using assms * by (simp add: of_nat_diff algebra_simps flip: of_nat_mult of_nat_add)
    show "0 \<le> int (d - 1 - (n + d - 1) mod d)" by simp
    show "int (d - 1 - (n + d - 1) mod d) < int d" using assms by simp
  qed
  with assms show ?thesis by (simp add: ceil_ratio_def CeilOfRatio_eq_div)
qed

section \<open>Masks and logarithms\<close>

definition Mask :: "nat \<Rightarrow> uint64" where
  "Mask bit_count = (if bit_count = 64 then -1 else push_bit bit_count 1 - 1)"

definition IsPowerOfTwo :: "uint64 \<Rightarrow> bool" where
  "IsPowerOfTwo x \<longleftrightarrow> x \<noteq> 0 \<and> x AND (x - 1) = 0"

definition Clz :: "uint64 \<Rightarrow> nat" where
  "Clz v = first_index (\<lambda>i. drop_bit (64 - i - 1) v AND 1 \<noteq> 0) 64"

definition FloorOfLog2 :: "uint64 \<Rightarrow> nat" where
  "FloorOfLog2 v = (if v = 0 then 0 else 63 - Clz v)"

definition CeilOfLog2 :: "uint64 \<Rightarrow> nat" where
  "CeilOfLog2 v =
     (if v = 0 then 0
      else let floor = FloorOfLog2 v in if v AND (v - 1) = 0 then floor else floor + 1)"

lemma Mask_eq_mask: "n \<le> 64 \<Longrightarrow> Mask n = mask n"
  by (auto simp: Mask_def mask_eq_decr_exp push_bit_eq_mult)

lemma bit_Mask_iff: "n \<le> 64 \<Longrightarrow> bit (Mask n) i \<longleftrightarrow> i < n"
  by (auto simp: Mask_eq_mask bit_mask_iff)

lemma shift_and_1_iff_bit: "drop_bit k (w::'a::len word) AND 1 \<noteq> 0 \<longleftrightarrow> bit w k"
  by (simp add: and_one_eq bit_iff_odd_drop_bit mod2_eq_if)

lemma unat_less_exp_iff_bits: "unat (w::'a::len word) < 2 ^ n \<longleftrightarrow> (\<forall>i\<ge>n. \<not> bit w i)"
proof
  assume "unat w < 2 ^ n"
  then have "take_bit n (unat w) = unat w" by (simp add: take_bit_nat_eq_self_iff)
  then have "bit w i \<longrightarrow> i < n" for i
    by (metis bit_take_bit_iff bit_unsigned_iff possible_bit_nat)
  then show "\<forall>i\<ge>n. \<not> bit w i" by (meson leD)
next
  assume *: "\<forall>i\<ge>n. \<not> bit w i"
  have "take_bit n (unat w) = unat w"
    by (rule bit_eqI) (use * in \<open>auto simp: bit_take_bit_iff bit_unsigned_iff not_le [symmetric]\<close>)
  then show "unat w < 2 ^ n" by (simp add: take_bit_nat_eq_self_iff)
qed

lemma exp_le_unat_if_bit: "bit (w::'a::len word) k \<Longrightarrow> 2 ^ k \<le> unat w"
  using unat_less_exp_iff_bits [of w k] by (auto simp: not_less)

lemma bit_if_between:
  assumes "2 ^ k \<le> unat (w::'a::len word)" and "unat w < 2 ^ (k + 1)"
  shows "bit w k"
proof (rule ccontr)
  assume "\<not> bit w k"
  moreover have "\<forall>i\<ge>k + 1. \<not> bit w i" using assms(2) by (simp only: unat_less_exp_iff_bits)
  ultimately have "\<forall>i\<ge>k. \<not> bit w i" by (metis Suc_eq_plus1 Suc_leI le_neq_implies_less)
  then have "unat w < 2 ^ k" by (simp only: unat_less_exp_iff_bits)
  with assms(1) show False by simp
qed

lemma Clz_eq_first: "Clz v = first_index (\<lambda>i. bit v (63 - i)) 64"
  by (simp add: Clz_def shift_and_1_iff_bit)

lemma Clz_less: "v \<noteq> 0 \<Longrightarrow> Clz v < 64"
proof (rule ccontr)
  assume "v \<noteq> 0" and "\<not> Clz v < 64"
  then have "\<forall>i<64. \<not> bit v (63 - i)"
    using first_index_le [of "\<lambda>i. bit v (63 - i)" 64]
    by (simp add: Clz_eq_first flip: first_index_eq_n_iff)
  then have "\<not> bit v j" if "j < 64" for j
    using that by (auto dest: spec [of _ "63 - j"])
  then have "v = 0" by (auto intro: bit_word_eqI)
  with \<open>v \<noteq> 0\<close> show False by simp
qed

lemma FloorOfLog2_bounds:
  assumes "v \<noteq> 0"
  shows "2 ^ FloorOfLog2 v \<le> unat v" and "unat v < 2 ^ (FloorOfLog2 v + 1)"
    and "bit v (FloorOfLog2 v)" and "FloorOfLog2 v < 64"
proof -
  note lt = Clz_less [OF assms]
  show b: "bit v (FloorOfLog2 v)"
    using first_index_at [of "\<lambda>i. bit v (63 - i)" 64] lt assms
    by (simp add: FloorOfLog2_def Clz_eq_first)
  then show "2 ^ FloorOfLog2 v \<le> unat v" by (rule exp_le_unat_if_bit)
  have "\<not> bit v i" if "i > FloorOfLog2 v" for i
  proof (cases "i < 64")
    case True
    then have "63 - i < Clz v" using that lt assms by (simp add: FloorOfLog2_def)
    from first_index_before [OF this [unfolded Clz_eq_first]] True show ?thesis by simp
  qed (use bit_imp_le_length [of v i] in auto)
  then show "unat v < 2 ^ (FloorOfLog2 v + 1)" by (simp only: unat_less_exp_iff_bits) simp
  show "FloorOfLog2 v < 64" unfolding FloorOfLog2_def by (split if_split) arith
qed

lemma and_pred_eq_0_iff:
  assumes "v \<noteq> 0"
  shows "v AND (v - 1) = 0 \<longleftrightarrow> unat v = 2 ^ FloorOfLog2 v"
proof
  let ?k = "FloorOfLog2 v"
  note bounds = FloorOfLog2_bounds [OF assms]
  have pred: "unat (v - 1) = unat v - 1"
    using assms by (simp add: unat_minus_one)
  show "unat v = 2 ^ ?k" if "v AND (v - 1) = 0"
  proof (rule ccontr)
    assume "unat v \<noteq> 2 ^ ?k"
    then have "2 ^ ?k \<le> unat (v - 1)" using bounds(1) pred by simp
    moreover have "unat (v - 1) < 2 ^ (?k + 1)" using bounds(2) pred by simp
    ultimately have "bit (v - 1) ?k" by (rule bit_if_between)
    with bounds(3) have "bit (v AND (v - 1)) ?k" by (simp add: bit_and_iff)
    with that show False by simp
  qed
  show "v AND (v - 1) = 0" if "unat v = 2 ^ ?k"
  proof (rule bit_word_eqI)
    fix i assume "i < LENGTH(64)"
    have "i \<le> ?k" if "bit v i"
      using that bounds(2) unat_less_exp_iff_bits [of v "?k + 1"] by (metis Suc_eq_plus1 not_less_eq_eq)
    moreover have "\<not> bit (v - 1) i" if "i \<ge> ?k"
      using that pred \<open>unat v = 2 ^ ?k\<close> unat_less_exp_iff_bits [of "v - 1" ?k] by simp
    moreover have "\<not> bit v i" if "i < ?k"
    proof -
      have "bit (unat v) i \<longleftrightarrow> i = ?k" using \<open>unat v = 2 ^ ?k\<close> by (simp add: bit_exp_iff)
      with that show ?thesis by (simp add: bit_unsigned_iff)
    qed
    ultimately show "bit (v AND (v - 1)) i \<longleftrightarrow> bit (0 :: uint64) i"
      by (auto simp: bit_and_iff not_less [symmetric])
  qed
qed

lemma IsPowerOfTwo_iff: "IsPowerOfTwo v \<longleftrightarrow> (\<exists>k. unat v = 2 ^ k)"
proof (cases "v = 0")
  case False
  have "unat v = 2 ^ FloorOfLog2 v" if "unat v = 2 ^ k" for k
  proof -
    have "k = FloorOfLog2 v"
      using FloorOfLog2_bounds(1,2) [OF False] that
      by (metis Suc_eq_plus1 le_antisym less_Suc_eq_le numeral_One one_less_numeral_iff
          power_increasing_iff power_strict_increasing_iff semiring_norm(76))
    with that show ?thesis by simp
  qed
  then show ?thesis using False by (auto simp: IsPowerOfTwo_def and_pred_eq_0_iff)
qed (simp add: IsPowerOfTwo_def)

lemma CeilOfLog2_bounds:
  assumes "v \<noteq> 0"
  shows "unat v \<le> 2 ^ CeilOfLog2 v" and "CeilOfLog2 v > 0 \<Longrightarrow> 2 ^ (CeilOfLog2 v - 1) < unat v"
proof -
  note b = FloorOfLog2_bounds(1,2) [OF assms]
  show "unat v \<le> 2 ^ CeilOfLog2 v"
    using b(2) and_pred_eq_0_iff [OF assms] assms by (simp add: CeilOfLog2_def Let_def)
  show "2 ^ (CeilOfLog2 v - 1) < unat v" if "CeilOfLog2 v > 0"
  proof (cases "v AND (v - 1) = 0")
    case True
    with that assms have k: "FloorOfLog2 v > 0" "CeilOfLog2 v = FloorOfLog2 v"
      by (simp_all add: CeilOfLog2_def)
    then have "(2::nat) ^ (FloorOfLog2 v - 1) < 2 ^ FloorOfLog2 v" by simp
    also note b(1)
    finally show ?thesis using k by simp
  next
    case False
    with b(1) and_pred_eq_0_iff [OF assms] assms show ?thesis
      by (simp add: CeilOfLog2_def Let_def order_less_le)
  qed
qed

section \<open>Mixed-radix iteration\<close>

text \<open>\<open>increment_number\<close> returns whether the counter overflowed together with the new
  digits. The callback is a state transformer that also says whether to stop.\<close>

fun increment_number :: "int list \<Rightarrow> int list \<Rightarrow> bool \<times> int list" where
  "increment_number (r # rs) (d # ds) =
     (if d + 1 \<ge> r then let (overflow, ds') = increment_number rs ds in (overflow, 0 # ds')
      else (False, (d + 1) # ds))"
| "increment_number _ ds = (True, ds)"

fun mixed_radix_left :: "int list \<Rightarrow> int list \<Rightarrow> nat" where
  "mixed_radix_left (r # rs) (d # ds) =
     nat (r - 1 - d) + max 1 (nat r) * mixed_radix_left rs ds"
| "mixed_radix_left _ _ = 0"

lemma increment_number_left:
  "increment_number rs ds = (False, ds') \<Longrightarrow> mixed_radix_left rs ds' < mixed_radix_left rs ds"
proof (induction rs ds arbitrary: ds' rule: increment_number.induct)
  case (1 r rs d ds)
  show ?case
  proof (cases "d + 1 \<ge> r")
    case True
    with "1.prems" obtain es where es: "increment_number rs ds = (False, es)" "ds' = 0 # es"
      by (auto split: prod.splits)
    have "mixed_radix_left rs es + 1 \<le> mixed_radix_left rs ds"
      using "1.IH" [OF True es(1)] by simp
    then have "max 1 (nat r) * (mixed_radix_left rs es + 1) \<le> max 1 (nat r) * mixed_radix_left rs ds"
      by (rule mult_le_mono2)
    moreover have "nat (r - 1) < max 1 (nat r)" by arith
    ultimately have
      "nat (r - 1) + max 1 (nat r) * mixed_radix_left rs es < max 1 (nat r) * mixed_radix_left rs ds"
      unfolding distrib_left by linarith
    with es(2) True show ?thesis by simp
  qed (use "1.prems" in auto)
qed auto

function mixed_radix_loop ::
  "int list \<Rightarrow> (int list \<Rightarrow> 's \<Rightarrow> bool \<times> 's) \<Rightarrow> int list \<Rightarrow> 's \<Rightarrow> bool \<times> 's" where
  "mixed_radix_loop radix f number s =
     (let (stop, s') = f number s in
      if stop then (True, s')
      else let (overflow, number') = increment_number radix number in
           if overflow then (False, s') else mixed_radix_loop radix f number' s')"
  by pat_completeness auto
termination
  by (relation "measure (\<lambda>(radix, f, number, s). mixed_radix_left radix number)")
    (auto intro: increment_number_left)

declare mixed_radix_loop.simps [simp del]

definition MixedRadixIterate ::
  "int list \<Rightarrow> (int list \<Rightarrow> 's \<Rightarrow> bool \<times> 's) \<Rightarrow> 's \<Rightarrow> bool \<times> 's" where
  "MixedRadixIterate radix f s = mixed_radix_loop radix f (replicate (length radix) 0) s"

text \<open>The reference: the callback runs over the list of all numbers, least significant
  digit fastest, until it asks to stop.\<close>

fun iterate_until :: "('a \<Rightarrow> 's \<Rightarrow> bool \<times> 's) \<Rightarrow> 'a list \<Rightarrow> 's \<Rightarrow> bool \<times> 's" where
  "iterate_until f [] s = (False, s)"
| "iterate_until f (x # xs) s =
     (let (stop, s') = f x s in if stop then (True, s') else iterate_until f xs s')"

fun mixed_radix_numbers :: "int list \<Rightarrow> int list list" where
  "mixed_radix_numbers [] = [[]]"
| "mixed_radix_numbers (r # rs) =
     concat (map (\<lambda>ds. map (\<lambda>d. d # ds) [0..max 0 (r - 1)]) (mixed_radix_numbers rs))"

fun mixed_radix_from :: "int list \<Rightarrow> int list \<Rightarrow> int list list" where
  "mixed_radix_from (r # rs) (d # ds) =
     map (\<lambda>e. e # ds) [d..max d (r - 1)] @
     concat (map (\<lambda>es. map (\<lambda>e. e # es) [0..max 0 (r - 1)]) (tl (mixed_radix_from rs ds)))"
| "mixed_radix_from _ ds = [ds]"

lemma mixed_radix_from_unfold:
  "length rs = length ds \<Longrightarrow>
   mixed_radix_from rs ds =
     ds # (case increment_number rs ds of
             (overflow, ds') \<Rightarrow> if overflow then [] else mixed_radix_from rs ds')"
proof (induction rs ds rule: increment_number.induct)
  case (1 r rs d ds)
  obtain ov es where es: "increment_number rs ds = (ov, es)" by fastforce
  show ?case
  proof (cases "d + 1 \<ge> r")
    case True
    then have one: "[d..max d (r - 1)] = [d]" by (simp add: max_def upto.simps)
    have tl: "tl (mixed_radix_from rs ds) = (if ov then [] else mixed_radix_from rs es)"
      using "1.IH" [OF True] "1.prems" es by simp
    show ?thesis
    proof (cases ov)
      case False
      then have "mixed_radix_from rs es = es # tl (mixed_radix_from rs es)"
        by (cases "(rs, es)" rule: mixed_radix_from.cases) (auto simp: upto.simps [of _ "max _ _"])
      then have "concat (map f (mixed_radix_from rs es)) =
          f es @ concat (map f (tl (mixed_radix_from rs es)))" for f :: "int list \<Rightarrow> int list list"
        by (metis concat.simps(2) list.simps(9))
      with False True one tl es show ?thesis by (simp add: max.commute)
    qed (use True one tl es in simp)
  next
    case False
    then have "[d..max d (r - 1)] = d # [d + 1..max (d + 1) (r - 1)]"
      by (simp add: max_def upto.simps [of d])
    with False show ?thesis by simp
  qed
qed auto

lemma mixed_radix_from_zero:
  "mixed_radix_from rs (replicate (length rs) 0) = mixed_radix_numbers rs"
proof (induction rs)
  case (Cons r rs)
  have "mixed_radix_from rs (replicate (length rs) 0) =
      replicate (length rs) 0 # tl (mixed_radix_from rs (replicate (length rs) 0))"
    by (subst (1 2) mixed_radix_from_unfold) (simp_all split: prod.splits)
  then have "mixed_radix_numbers rs = replicate (length rs) 0 # tl (mixed_radix_numbers rs)"
    by (simp only: Cons.IH)
  then have "concat (map f (mixed_radix_numbers rs)) =
      f (replicate (length rs) 0) @ concat (map f (tl (mixed_radix_numbers rs)))"
    for f :: "int list \<Rightarrow> int list list"
    by (metis concat.simps(2) list.simps(9))
  then show ?case by (simp add: Cons.IH)
qed simp

lemma mixed_radix_loop_eq:
  "length radix = length number \<Longrightarrow>
   mixed_radix_loop radix f number s = iterate_until f (mixed_radix_from radix number) s"
proof (induction radix f number s rule: mixed_radix_loop.induct)
  case (1 radix f number s)
  have len: "length (snd (increment_number radix number)) = length number"
    by (induction radix number rule: increment_number.induct) (auto split: prod.splits)
  obtain stop s' where f: "f number s = (stop, s')" by fastforce
  obtain ov number' where inc: "increment_number radix number = (ov, number')" by fastforce
  from "1.IH" [OF f [symmetric] refl _ inc [symmetric] refl] len "1.prems" inc f
  show ?case
    by (simp add: mixed_radix_loop.simps [of radix f number] mixed_radix_from_unfold)
qed

section \<open>Properties\<close>

text \<open>\<open>CeilOfRatio\<close> and \<open>FloorOfRatio\<close> return the exact ceiling and floor of the ratio of
  two integers for every sign combination, with the two arguments that the checks exclude set
  aside.\<close>

lemma ratio_rounding_exact:
  assumes "d \<noteq> 0" and "\<not> (n = - (2 ^ 63) \<and> d = -1)"
  shows "CeilOfRatio n d = Some \<lceil>real_of_int n / real_of_int d\<rceil> \<and>
    FloorOfRatio n d = Some \<lfloor>real_of_int n / real_of_int d\<rfloor>"
  using CeilOfRatio_eq_div [OF assms] FloorOfRatio_eq_div [OF assms]
  by (simp add: ceiling_divide_eq_div floor_divide_of_int_eq)

text \<open>\<open>FloorOfLog2\<close> and \<open>CeilOfLog2\<close> bracket a non-zero 64-bit value between adjacent
  powers of two.\<close>

lemma log2_exact:
  assumes "v \<noteq> 0"
  shows "2 ^ FloorOfLog2 v \<le> unat v \<and> unat v < 2 ^ (FloorOfLog2 v + 1) \<and>
    unat v \<le> 2 ^ CeilOfLog2 v \<and> (\<forall>k. unat v \<le> 2 ^ k \<longrightarrow> CeilOfLog2 v \<le> k)"
proof (intro conjI allI impI)
  show "2 ^ FloorOfLog2 v \<le> unat v" "unat v < 2 ^ (FloorOfLog2 v + 1)" "unat v \<le> 2 ^ CeilOfLog2 v"
    using FloorOfLog2_bounds [OF assms] CeilOfLog2_bounds [OF assms] by auto
  fix k assume k: "unat v \<le> 2 ^ k"
  show "CeilOfLog2 v \<le> k"
  proof (rule ccontr)
    assume "\<not> CeilOfLog2 v \<le> k"
    then have "(2::nat) ^ k \<le> 2 ^ (CeilOfLog2 v - 1)" and "CeilOfLog2 v > 0"
      by (auto intro: power_increasing)
    with CeilOfLog2_bounds(2) [OF assms] k show False by linarith
  qed
qed

text \<open>\<open>MixedRadixIterate\<close> terminates and calls the callback on every mixed-radix number,
  least significant digit fastest, until it asks to stop.\<close>

lemma MixedRadixIterate_visits_all:
  "MixedRadixIterate radix f s = iterate_until f (mixed_radix_numbers radix) s"
  by (simp add: MixedRadixIterate_def mixed_radix_loop_eq mixed_radix_from_zero)

end
