(* ===== verification/Xls_Inline_Bitmap.thy ===== *)
theory Xls_Inline_Bitmap
  imports Xls_Math_Util
begin

text \<open>
  \<open>xls/data_structures/inline_bitmap.h\<close>: a bitmap of \<open>bm_count\<close> bits stored in 64-bit
  words. The words are \<open>64 word\<close>s, so masks, shifts and the byte view are the machine's.

  The bits of the last word above \<open>bm_count\<close> are not part of the value: the constructor
  with \<open>fill\<close> leaves them set, \<open>operator==\<close> masks them off. \<open>bits_of\<close> is the abstraction to a
  list of bits; \<open>wf_bitmap\<close> is the representation invariant that the \<open>Bits\<close> class relies on
  (the right number of words, and no stray bits in word 0).

  \<open>Get\<close>, \<open>Set\<close>, \<open>GetByte\<close> and \<open>SetByte\<close> guard their index by \<open>XLS_DCHECK\<close> only: the index
  is a precondition of the model's function.
\<close>

section \<open>State and operations\<close>

record inline_bitmap =
  bm_count :: nat
  bm_data :: "uint64 list"

definition InlineBitmap :: "nat \<Rightarrow> bool \<Rightarrow> inline_bitmap" where
  "InlineBitmap bit_count fill =
     \<lparr>bm_count = bit_count, bm_data = replicate (ceil_ratio bit_count 64) (if fill then -1 else 0)\<rparr>"

definition word_count :: "inline_bitmap \<Rightarrow> nat" where
  "word_count b = length (bm_data b)"

definition byte_count :: "inline_bitmap \<Rightarrow> nat" where
  "byte_count b = ceil_ratio (bm_count b) 8"

definition MaskForWord :: "inline_bitmap \<Rightarrow> nat \<Rightarrow> uint64" where
  "MaskForWord b wordno =
     (let remainder = bm_count b mod 64
      in if int wordno < int (word_count b) - 1 \<or> remainder = 0 then Mask 64 else Mask remainder)"

definition MaskLastWord :: "inline_bitmap \<Rightarrow> inline_bitmap" where
  "MaskLastWord b =
     (let last_wordno = word_count b - 1
      in b\<lparr>bm_data := (bm_data b)[last_wordno := bm_data b ! last_wordno AND MaskForWord b last_wordno]\<rparr>)"

definition InlineBitmap_FromWord :: "uint64 \<Rightarrow> nat \<Rightarrow> bool \<Rightarrow> inline_bitmap" where
  "InlineBitmap_FromWord w bit_count fill =
     (let result = InlineBitmap bit_count fill
      in if bit_count \<noteq> 0
         then result\<lparr>bm_data := (bm_data result)[0 := w AND MaskForWord result 0]\<rparr>
         else result)"

definition InlineBitmap_eq :: "inline_bitmap \<Rightarrow> inline_bitmap \<Rightarrow> bool" where
  "InlineBitmap_eq a b \<longleftrightarrow>
     bm_count a = bm_count b \<and>
     list_all (\<lambda>wordno. let mask = MaskForWord a wordno
                        in bm_data a ! wordno AND mask = bm_data b ! wordno AND mask)
       [0..<word_count a]"

definition InlineBitmap_IsAllOnes :: "inline_bitmap \<Rightarrow> bool" where
  "InlineBitmap_IsAllOnes b \<longleftrightarrow>
     list_all (\<lambda>wordno. let mask = MaskForWord b wordno in bm_data b ! wordno AND mask = mask)
       [0..<word_count b]"

definition InlineBitmap_IsAllZeroes :: "inline_bitmap \<Rightarrow> bool" where
  "InlineBitmap_IsAllZeroes b \<longleftrightarrow>
     list_all (\<lambda>wordno. let mask = MaskForWord b wordno in bm_data b ! wordno AND mask = 0)
       [0..<word_count b]"

definition InlineBitmap_Get :: "inline_bitmap \<Rightarrow> nat \<Rightarrow> bool" where
  "InlineBitmap_Get b index =
     (let w = bm_data b ! (index div 64); bitno = index mod 64
      in drop_bit bitno w AND 1 \<noteq> 0)"

definition InlineBitmap_Set :: "inline_bitmap \<Rightarrow> nat \<Rightarrow> bool \<Rightarrow> inline_bitmap" where
  "InlineBitmap_Set b index v =
     (let w = bm_data b ! (index div 64); bitno = index mod 64
      in b\<lparr>bm_data := (bm_data b)[index div 64 :=
             (if v then w OR push_bit bitno 1 else w AND NOT (push_bit bitno 1))]\<rparr>)"

definition InlineBitmap_GetWord :: "inline_bitmap \<Rightarrow> nat \<Rightarrow> uint64" where
  "InlineBitmap_GetWord b wordno =
     (if wordno = 0 \<and> word_count b = 0 then 0 else bm_data b ! wordno)"

text \<open>The byte view of the words, little endian.\<close>

definition InlineBitmap_SetByte :: "inline_bitmap \<Rightarrow> nat \<Rightarrow> uint8 \<Rightarrow> inline_bitmap" where
  "InlineBitmap_SetByte b byteno v =
     (let w = bm_data b ! (byteno div 8); shift = 8 * (byteno mod 8)
      in MaskLastWord
           (b\<lparr>bm_data := (bm_data b)[byteno div 8 :=
                (w AND NOT (push_bit shift 0xFF)) OR push_bit shift (ucast v)]\<rparr>))"

definition InlineBitmap_GetByte :: "inline_bitmap \<Rightarrow> nat \<Rightarrow> uint8" where
  "InlineBitmap_GetByte b byteno = ucast (drop_bit (8 * (byteno mod 8)) (bm_data b ! (byteno div 8)))"

definition InlineBitmap_Union :: "inline_bitmap \<Rightarrow> inline_bitmap \<Rightarrow> inline_bitmap option" where
  "InlineBitmap_Union a b = do {
     CHECK (bm_count a = bm_count b);
     Some (a\<lparr>bm_data := map (\<lambda>i. bm_data a ! i OR bm_data b ! i) [0..<length (bm_data a)]\<rparr>)
   }"

text \<open>\<open>AbslHashValue\<close> combines the width and the raw words.\<close>

definition InlineBitmap_hash_input :: "inline_bitmap \<Rightarrow> nat \<times> uint64 list" where
  "InlineBitmap_hash_input b = (bm_count b, bm_data b)"

text \<open>\<open>UCmp\<close> first scans the high bits that only one operand has, then compares the common
  bits from the top.\<close>

fun UCmp_any_set :: "(nat \<Rightarrow> bool) \<Rightarrow> nat \<Rightarrow> nat \<Rightarrow> bool" where
  "UCmp_any_set get idx 0 = False"
| "UCmp_any_set get idx (Suc bit_diff) = (if get idx then True else UCmp_any_set get (idx - 1) bit_diff)"

fun UCmp_common :: "(nat \<Rightarrow> bool) \<Rightarrow> (nat \<Rightarrow> bool) \<Rightarrow> nat \<Rightarrow> nat \<Rightarrow> nat \<Rightarrow> int" where
  "UCmp_common mine other my_idx other_idx 0 = 0"
| "UCmp_common mine other my_idx other_idx (Suc n) =
     (let my_word = mine my_idx; other_word = other other_idx
      in if my_word \<and> \<not> other_word then 1
         else if \<not> my_word \<and> other_word then -1
         else UCmp_common mine other (my_idx - 1) (other_idx - 1) n)"

definition InlineBitmap_UCmp :: "inline_bitmap \<Rightarrow> inline_bitmap \<Rightarrow> int" where
  "InlineBitmap_UCmp a b =
     (let bit_min = min (bm_count a) (bm_count b);
          more = bm_count a - bm_count b;
          less = bm_count b - bm_count a;
          my_idx = bm_count a - 1;
          other_idx = bm_count b - 1
      in if UCmp_any_set (InlineBitmap_Get a) my_idx more then 1
         else if UCmp_any_set (InlineBitmap_Get b) other_idx less then -1
         else UCmp_common (InlineBitmap_Get a) (InlineBitmap_Get b)
                (my_idx - more) (other_idx - less) bit_min)"

section \<open>Abstraction and invariant\<close>

definition bits_of :: "inline_bitmap \<Rightarrow> bool list" where
  "bits_of b = map (InlineBitmap_Get b) [0..<bm_count b]"

abbreviation uval :: "inline_bitmap \<Rightarrow> nat" where
  "uval b \<equiv> unum (bits_of b)"

definition wf_words :: "inline_bitmap \<Rightarrow> bool" where
  "wf_words b \<longleftrightarrow> length (bm_data b) = (bm_count b + 63) div 64"

definition wf_bitmap :: "inline_bitmap \<Rightarrow> bool" where
  "wf_bitmap b \<longleftrightarrow> wf_words b \<and>
     (\<forall>i<64. bm_count b \<le> i \<longrightarrow> bm_count b \<noteq> 0 \<longrightarrow> \<not> bit (bm_data b ! 0) i)"

definition rep :: "inline_bitmap \<Rightarrow> bool list \<Rightarrow> bool" where
  "rep b bs \<longleftrightarrow> wf_bitmap b \<and> bits_of b = bs"

section \<open>The interface of a bit store\<close>

text \<open>What the loops of \<open>Bits\<close> and \<open>BitsRope\<close> that fill a bitmap rely on.\<close>

locale bit_store =
  fixes invar :: "'b \<Rightarrow> bool"
    and size_of :: "'b \<Rightarrow> nat"
    and get :: "'b \<Rightarrow> nat \<Rightarrow> bool"
    and set_bit_at :: "'b \<Rightarrow> nat \<Rightarrow> bool \<Rightarrow> 'b"
  assumes invar_set: "invar b \<Longrightarrow> i < size_of b \<Longrightarrow> invar (set_bit_at b i v)"
    and size_set: "size_of (set_bit_at b i v) = size_of b"
    and get_set: "invar b \<Longrightarrow> i < size_of b \<Longrightarrow> j < size_of b \<Longrightarrow>
      get (set_bit_at b i v) j = (if j = i then v else get b j)"
begin

lemma fold_set:
  assumes "invar b" and "\<forall>i\<in>set idxs. p i \<longrightarrow> i + off < size_of b"
  shows "invar (fold (\<lambda>i b. if p i then set_bit_at b (i + off) (v i) else b) idxs b)"
    and "size_of (fold (\<lambda>i b. if p i then set_bit_at b (i + off) (v i) else b) idxs b) = size_of b"
    and "j < size_of b \<Longrightarrow> distinct idxs \<Longrightarrow>
      get (fold (\<lambda>i b. if p i then set_bit_at b (i + off) (v i) else b) idxs b) j =
        (if off \<le> j \<and> j - off \<in> set idxs \<and> p (j - off) then v (j - off) else get b j)"
  using assms
  by (induction idxs arbitrary: b) (auto simp: invar_set size_set get_set split: if_splits)

lemma fill_loop:
  assumes "invar b" and "off + n \<le> size_of b"
  shows "invar (fold (\<lambda>i b. set_bit_at b (i + off) (v i)) [0..<n] b)"
    and "size_of (fold (\<lambda>i b. set_bit_at b (i + off) (v i)) [0..<n] b) = size_of b"
    and "j < size_of b \<Longrightarrow>
      get (fold (\<lambda>i b. set_bit_at b (i + off) (v i)) [0..<n] b) j =
        (if off \<le> j \<and> j < off + n then v (j - off) else get b j)"
  using assms fold_set [where p = "\<lambda>_. True" and off = off and v = v and idxs = "[0..<n]" and b = b]
  by auto

end

section \<open>Words, masks and bits\<close>

lemma Get_eq_bit: "InlineBitmap_Get b i = bit (bm_data b ! (i div 64)) (i mod 64)"
  by (simp add: InlineBitmap_Get_def Let_def shift_and_1_iff_bit)

lemma length_bits_of [simp]: "length (bits_of b) = bm_count b"
  by (simp add: bits_of_def)

lemma nth_bits_of [simp]: "i < bm_count b \<Longrightarrow> bits_of b ! i = InlineBitmap_Get b i"
  by (simp add: bits_of_def)

lemma uval_bound [simp]: "uval b < 2 ^ bm_count b"
  using unum_bound [of "bits_of b"] by simp

lemma wf_words_less: "wf_words b \<Longrightarrow> i < bm_count b \<Longrightarrow> i div 64 < length (bm_data b)"
  by (simp add: wf_words_def)

lemma word_index_arith:
  fixes w n :: nat
  assumes "w < (n + 63) div 64"
  shows "w + 1 < (n + 63) div 64 \<or> n mod 64 = 0 \<Longrightarrow> w * 64 + 64 \<le> n"
    and "\<not> (w + 1 < (n + 63) div 64 \<or> n mod 64 = 0) \<Longrightarrow> w * 64 + n mod 64 = n"
proof -
  show "w * 64 + 64 \<le> n" if "w + 1 < (n + 63) div 64 \<or> n mod 64 = 0"
    using that
  proof
    assume "n mod 64 = 0"
    then obtain q where "n = 64 * q" by auto
    with assms show ?thesis by simp
  qed linarith
  show "w * 64 + n mod 64 = n" if "\<not> (w + 1 < (n + 63) div 64 \<or> n mod 64 = 0)"
  proof -
    have eq: "(n + 63) div 64 = w + 1" and "n \<noteq> 64 * (w + 1)" using that assms by auto
    moreover have "64 * (w + 1) \<le> n + 63" "n + 63 < 64 * (w + 2)"
      using div_times_less_eq_dividend [of "n + 63" 64] dividend_less_div_times [of 64 "n + 63"]
      unfolding eq by simp_all
    ultimately have "n div 64 = w" by (intro div_nat_eqI) simp_all
    then show ?thesis by (metis div_mult_mod_eq)
  qed
qed

lemma bit_MaskForWord:
  assumes "wf_words b" and "w < word_count b" and "i < 64"
  shows "bit (MaskForWord b w) i \<longleftrightarrow> w * 64 + i < bm_count b"
proof -
  have w: "w < (bm_count b + 63) div 64" and wc: "word_count b = (bm_count b + 63) div 64"
    using assms by (simp_all add: wf_words_def word_count_def)
  have last: "int w < int (word_count b) - 1 \<longleftrightarrow> w + 1 < (bm_count b + 63) div 64"
    unfolding wc by linarith
  show ?thesis
  proof (cases "w + 1 < (bm_count b + 63) div 64 \<or> bm_count b mod 64 = 0")
    case True
    then have "w * 64 + 64 \<le> bm_count b" by (rule word_index_arith(1) [OF w])
    with assms(3) show ?thesis using True by (simp add: MaskForWord_def last Mask_def)
  next
    case False
    then have eq: "w * 64 + bm_count b mod 64 = bm_count b" by (rule word_index_arith(2) [OF w])
    have "bit (MaskForWord b w) i \<longleftrightarrow> i < bm_count b mod 64"
      using False by (simp add: MaskForWord_def last Let_def bit_Mask_iff less_imp_le)
    then show ?thesis using eq by linarith
  qed
qed

lemma bm_count_simps [simp]:
  "bm_count (InlineBitmap n fill) = n"
  "bm_count (InlineBitmap_FromWord w n fill) = n"
  "bm_count (InlineBitmap_Set b i v) = bm_count b"
  "bm_count (MaskLastWord b) = bm_count b"
  "bm_count (InlineBitmap_SetByte b k y) = bm_count b"
  by (simp_all add: InlineBitmap_def InlineBitmap_FromWord_def InlineBitmap_Set_def
      MaskLastWord_def InlineBitmap_SetByte_def Let_def)

lemma length_bm_data_simps [simp]:
  "length (bm_data (InlineBitmap n fill)) = (n + 63) div 64"
  "length (bm_data (InlineBitmap_FromWord w n fill)) = (n + 63) div 64"
  "length (bm_data (InlineBitmap_Set b i v)) = length (bm_data b)"
  "length (bm_data (MaskLastWord b)) = length (bm_data b)"
  "length (bm_data (InlineBitmap_SetByte b k y)) = length (bm_data b)"
  by (simp_all add: InlineBitmap_def InlineBitmap_FromWord_def InlineBitmap_Set_def
      MaskLastWord_def InlineBitmap_SetByte_def Let_def ceil_ratio_eq add.commute)

lemma wf_words_simps [simp]:
  "wf_words (InlineBitmap n fill)"
  "wf_words (InlineBitmap_FromWord w n fill)"
  "wf_words (InlineBitmap_Set b i v) = wf_words b"
  "wf_words (MaskLastWord b) = wf_words b"
  "wf_words (InlineBitmap_SetByte b k y) = wf_words b"
  by (simp_all add: wf_words_def)

lemma byte_count_eq: "byte_count b = (bm_count b + 7) div 8"
  by (simp add: byte_count_def ceil_ratio_eq)

section \<open>Reading after writing\<close>

lemma nth_data_new [simp]:
  "w < (n + 63) div 64 \<Longrightarrow> bm_data (InlineBitmap n fill) ! w = (if fill then -1 else 0)"
  by (simp add: InlineBitmap_def ceil_ratio_eq)

lemma Get_new [simp]: "i < n \<Longrightarrow> InlineBitmap_Get (InlineBitmap n fill) i = fill"
  using wf_words_less [of "InlineBitmap n fill" i] by (simp add: Get_eq_bit)

lemma bits_of_new [simp]: "bits_of (InlineBitmap n fill) = replicate n fill"
  by (simp add: list_eq_iff_nth_eq)

lemma wf_new [simp]: "wf_bitmap (InlineBitmap n False)"
  by (auto simp: wf_bitmap_def InlineBitmap_def ceil_ratio_eq wf_words_def)

lemma Get_FromWord:
  assumes "i < n"
  shows "InlineBitmap_Get (InlineBitmap_FromWord w n fill) i = (if i < 64 then bit w i else fill)"
proof -
  let ?b = "InlineBitmap n fill"
  have wc: "word_count ?b > 0" "i div 64 < length (bm_data ?b)"
    using assms wf_words_less [of ?b i] by (simp_all add: word_count_def)
  have "bit (MaskForWord ?b 0) i" if "i < 64"
    using bit_MaskForWord [OF _ wc(1) that] assms by simp
  then show ?thesis
    using assms wc(2)
    by (auto simp: Get_eq_bit InlineBitmap_FromWord_def Let_def nth_list_update bit_and_iff)
qed

lemma wf_FromWord [simp]: "wf_bitmap (InlineBitmap_FromWord w n fill)"
proof -
  let ?b = "InlineBitmap n fill"
  have "\<not> bit (MaskForWord ?b 0) i" if "i < 64" "n \<le> i" "n \<noteq> 0" for i
    using bit_MaskForWord [of ?b 0 i] that by (simp add: word_count_def)
  moreover have "bm_data ?b \<noteq> []" if "n \<noteq> 0"
    using that by (simp flip: length_greater_0_conv)
  ultimately show ?thesis
    using wf_words_simps(2) [of w n fill] unfolding wf_bitmap_def
    by (auto simp: InlineBitmap_FromWord_def Let_def nth_list_update bit_and_iff)
qed

lemma bit_nth_data_Set:
  assumes "i div 64 < length (bm_data b)" and "k < 64"
  shows "bit (bm_data (InlineBitmap_Set b i v) ! w) k =
    (if w = i div 64 \<and> k = i mod 64 then v else bit (bm_data b ! w) k)"
  using assms
  by (auto simp: InlineBitmap_Set_def Let_def nth_list_update bit_or_iff bit_and_iff
      bit_not_iff bit_exp_iff)

lemma Get_Set:
  assumes "wf_words b" and "i < bm_count b" and "j < bm_count b"
  shows "InlineBitmap_Get (InlineBitmap_Set b i v) j = (if j = i then v else InlineBitmap_Get b j)"
proof -
  have "j = i \<longleftrightarrow> j div 64 = i div 64 \<and> j mod 64 = i mod 64" by (metis div_mult_mod_eq)
  then show ?thesis
    using bit_nth_data_Set [OF wf_words_less [OF assms(1,2)]] by (simp add: Get_eq_bit)
qed

lemma wf_Set [simp]:
  assumes "wf_bitmap b" and "i < bm_count b"
  shows "wf_bitmap (InlineBitmap_Set b i v)"
proof -
  have "wf_words b" using assms by (simp add: wf_bitmap_def)
  note * = bit_nth_data_Set [OF wf_words_less [OF this assms(2)]]
  show ?thesis
    using assms unfolding wf_bitmap_def by (auto simp: * dest: less_imp_le)
qed

interpretation bm: bit_store wf_bitmap bm_count InlineBitmap_Get InlineBitmap_Set
  by unfold_locales (simp_all, simp add: Get_Set wf_bitmap_def)

section \<open>Comparison, reduction and bytes\<close>

lemma all_words_iff_all_bits:
  assumes "wf_words b"
  shows "list_all (\<lambda>w. \<forall>i<64. w * 64 + i < bm_count b \<longrightarrow> P (w * 64 + i)) [0..<word_count b] \<longleftrightarrow>
    (\<forall>i<bm_count b. P i)"
proof
  assume *: "list_all (\<lambda>w. \<forall>i<64. w * 64 + i < bm_count b \<longrightarrow> P (w * 64 + i)) [0..<word_count b]"
  show "\<forall>i<bm_count b. P i"
  proof (intro allI impI)
    fix i assume i: "i < bm_count b"
    then have "i div 64 \<in> set [0..<word_count b]"
      using assms by (simp add: word_count_def wf_words_less)
    with * have "\<forall>k<64. i div 64 * 64 + k < bm_count b \<longrightarrow> P (i div 64 * 64 + k)"
      unfolding list_all_iff by (rule bspec)
    from spec [OF this, of "i mod 64"] i show "P i" by simp
  qed
qed (simp add: list_all_iff)

lemma word64_eq_iff_bits: "(a :: uint64) = b \<longleftrightarrow> (\<forall>i<64. bit a i = bit b i)"
  by (auto intro: bit_word_eqI)

lemma Get_word_bit: "i < 64 \<Longrightarrow> InlineBitmap_Get b (w * 64 + i) = bit (bm_data b ! w) i"
  by (simp add: Get_eq_bit)

lemma masked_words_eq_iff:
  assumes "wf_words a" and "w < word_count a"
  shows "x AND MaskForWord a w = y AND MaskForWord a w \<longleftrightarrow>
    (\<forall>i<64. w * 64 + i < bm_count a \<longrightarrow> bit x i = bit y i)"
  using assms by (auto simp: word64_eq_iff_bits bit_and_iff bit_MaskForWord)

lemma InlineBitmap_eq_iff:
  assumes "wf_words a"
  shows "InlineBitmap_eq a b \<longleftrightarrow> bits_of a = bits_of b"
proof -
  have "InlineBitmap_eq a b \<longleftrightarrow> bm_count a = bm_count b \<and>
      list_all (\<lambda>w. \<forall>i<64. w * 64 + i < bm_count a \<longrightarrow>
        InlineBitmap_Get a (w * 64 + i) = InlineBitmap_Get b (w * 64 + i)) [0..<word_count a]"
  proof -
    have "(\<forall>w\<in>set [0..<word_count a].
          bm_data a ! w AND MaskForWord a w = bm_data b ! w AND MaskForWord a w) =
        (\<forall>w\<in>set [0..<word_count a]. \<forall>i<64. w * 64 + i < bm_count a \<longrightarrow>
          InlineBitmap_Get a (w * 64 + i) = InlineBitmap_Get b (w * 64 + i))"
      by (rule ball_cong [OF refl]) (simp add: masked_words_eq_iff [OF assms] Get_word_bit)
    then show ?thesis unfolding InlineBitmap_eq_def Let_def list_all_iff by simp
  qed
  also have "\<dots> \<longleftrightarrow> bm_count a = bm_count b \<and>
      (\<forall>i<bm_count a. InlineBitmap_Get a i = InlineBitmap_Get b i)"
    by (simp only: all_words_iff_all_bits [OF assms,
          where P = "\<lambda>i. InlineBitmap_Get a i = InlineBitmap_Get b i"])
  also have "\<dots> \<longleftrightarrow> bits_of a = bits_of b"
    unfolding list_eq_iff_nth_eq length_bits_of by (simp cong: conj_cong)
  finally show ?thesis .
qed

lemma InlineBitmap_IsAllZeroes_iff:
  assumes "wf_words b"
  shows "InlineBitmap_IsAllZeroes b \<longleftrightarrow> uval b = 0"
proof -
  have "InlineBitmap_IsAllZeroes b \<longleftrightarrow>
      list_all (\<lambda>w. \<forall>i<64. w * 64 + i < bm_count b \<longrightarrow> \<not> InlineBitmap_Get b (w * 64 + i))
        [0..<word_count b]"
    using assms masked_words_eq_iff [OF assms, of _ _ 0]
    by (auto simp: InlineBitmap_IsAllZeroes_def Let_def Get_word_bit list_all_iff)
  also have "\<dots> \<longleftrightarrow> (\<forall>i<bm_count b. \<not> InlineBitmap_Get b i)"
    by (rule all_words_iff_all_bits [OF assms])
  finally show ?thesis by (auto simp: unum_eq_0_iff bits_of_def)
qed

lemma InlineBitmap_IsAllOnes_iff:
  assumes "wf_words b"
  shows "InlineBitmap_IsAllOnes b \<longleftrightarrow> False \<notin> set (bits_of b)"
proof -
  have "InlineBitmap_IsAllOnes b \<longleftrightarrow>
      list_all (\<lambda>w. \<forall>i<64. w * 64 + i < bm_count b \<longrightarrow> InlineBitmap_Get b (w * 64 + i))
        [0..<word_count b]"
    using assms masked_words_eq_iff [OF assms, of _ _ "-1"]
    by (auto simp: InlineBitmap_IsAllOnes_def Let_def Get_word_bit list_all_iff)
  also have "\<dots> \<longleftrightarrow> (\<forall>i<bm_count b. InlineBitmap_Get b i)"
    by (rule all_words_iff_all_bits [OF assms])
  finally show ?thesis by (auto simp: bits_of_def)
qed

subsection \<open>Unsigned comparison\<close>

definition compare_nat :: "nat \<Rightarrow> nat \<Rightarrow> int" where
  "compare_nat x y = (if x < y then -1 else if x = y then 0 else 1)"

lemma UCmp_any_set_iff:
  "k \<le> Suc idx \<Longrightarrow> UCmp_any_set get idx k \<longleftrightarrow> (\<exists>i\<le>idx. Suc idx - k \<le> i \<and> get i)"
proof (induction get idx k rule: UCmp_any_set.induct)
  case (2 get idx k)
  show ?case
  proof (cases "get idx")
    case False
    show ?thesis
    proof (cases "k = 0")
      case True
      with False show ?thesis by (auto simp: le_Suc_eq)
    next
      case k: False
      with "2.prems" obtain j where "idx = Suc j" by (cases idx) auto
      with "2.IH" False "2.prems" show ?thesis by (auto simp: le_Suc_eq)
    qed
  qed (use "2.prems" in auto)
qed auto

lemma unum_upto_Suc:
  "unum (map f [0..<Suc n]) = unum (map f [0..<n]) + 2 ^ n * of_bool (f n)"
  by (simp add: unum_append)

lemma UCmp_common_eq:
  "UCmp_common mine other (m - 1) (m - 1) m =
     compare_nat (unum (map mine [0..<m])) (unum (map other [0..<m]))"
proof (induction m)
  case (Suc m)
  have "unum (map f [0..<m]) < 2 ^ m" for f
    using unum_bound [of "map f [0..<m]"] by simp
  from this [of mine] this [of other] Suc show ?case
    by (simp add: unum_upto_Suc compare_nat_def Let_def del: upt_Suc)
qed (simp add: compare_nat_def)

lemmas UCmp_common_eq' = UCmp_common_eq [simplified One_nat_def]

lemma unum_upto_high:
  assumes "n \<le> m"
  shows "\<exists>i\<ge>n. i < m \<and> f i \<Longrightarrow> 2 ^ n \<le> unum (map f [0..<m])"
    and "\<not> (\<exists>i\<ge>n. i < m \<and> f i) \<Longrightarrow> unum (map f [0..<m]) = unum (map f [0..<n])"
proof -
  have split: "unum (map f [0..<m]) = unum (map f [0..<n]) + 2 ^ n * unum (map f [n..<m])"
  proof -
    have "[0..<m] = [0..<n] @ [n..<m]"
      using assms upt_add_eq_append [of 0 n "m - n"] by simp
    then show ?thesis using unum_append [of "map f [0..<n]" "map f [n..<m]"] by simp
  qed
  show "2 ^ n \<le> unum (map f [0..<m])" if "\<exists>i\<ge>n. i < m \<and> f i"
  proof -
    have "unum (map f [n..<m]) \<noteq> 0" using that by (auto simp: unum_eq_0_iff image_iff)
    then have "2 ^ n * 1 \<le> 2 ^ n * unum (map f [n..<m])" by (intro mult_le_mono2) simp
    then show ?thesis unfolding split by linarith
  qed
  show "unum (map f [0..<m]) = unum (map f [0..<n])" if "\<not> (\<exists>i\<ge>n. i < m \<and> f i)"
  proof -
    have "unum (map f [n..<m]) = 0" using that by (auto simp: unum_eq_0_iff)
    with split show ?thesis by simp
  qed
qed

lemma UCmp_any_set_high:
  "n < m \<Longrightarrow> UCmp_any_set f (m - 1) (m - n) \<longleftrightarrow> (\<exists>i\<ge>n. i < m \<and> f i)"
proof -
  assume "n < m"
  then have "Suc (m - 1) - (m - n) = n" "m - n \<le> Suc (m - 1)" by simp_all
  moreover have "i \<le> m - 1 \<longleftrightarrow> i < m" for i using \<open>n < m\<close> by auto
  ultimately show "UCmp_any_set f (m - 1) (m - n) \<longleftrightarrow> (\<exists>i\<ge>n. i < m \<and> f i)"
    by (subst UCmp_any_set_iff) auto
qed

lemmas UCmp_any_set_high' = UCmp_any_set_high [simplified One_nat_def]

lemma InlineBitmap_UCmp_eq: "InlineBitmap_UCmp a b = compare_nat (uval a) (uval b)"
proof -
  let ?n = "bm_count a" and ?m = "bm_count b"
  let ?fa = "InlineBitmap_Get a" and ?fb = "InlineBitmap_Get b"
  have low: "unum (map f [0..<k]) < 2 ^ k" for f :: "nat \<Rightarrow> bool" and k
    using unum_bound [of "map f [0..<k]"] by simp
  consider "?n = ?m" | "?m < ?n" | "?n < ?m" by linarith
  then show ?thesis
  proof cases
    case 1
    then show ?thesis by (simp add: InlineBitmap_UCmp_def UCmp_common_eq' bits_of_def Let_def)
  next
    case 2
    note high = unum_upto_high [OF less_imp_le [OF 2], of ?fa]
    show ?thesis
    proof (cases "\<exists>i\<ge>?m. i < ?n \<and> ?fa i")
      case True
      from high(1) [OF True] low [of ?fb ?m] have "uval b < uval a" unfolding bits_of_def by linarith
      with True 2 show ?thesis
        by (simp add: InlineBitmap_UCmp_def UCmp_any_set_high' Let_def compare_nat_def)
    next
      case False
      from high(2) [OF False] False 2 show ?thesis
        by (auto simp: InlineBitmap_UCmp_def UCmp_any_set_high' UCmp_common_eq' Let_def bits_of_def)
    qed
  next
    case 3
    note high = unum_upto_high [OF less_imp_le [OF 3], of ?fb]
    show ?thesis
    proof (cases "\<exists>i\<ge>?n. i < ?m \<and> ?fb i")
      case True
      from high(1) [OF True] low [of ?fa ?n] have "uval a < uval b" unfolding bits_of_def by linarith
      with True 3 show ?thesis
        by (simp add: InlineBitmap_UCmp_def UCmp_any_set_high' Let_def compare_nat_def)
    next
      case False
      from high(2) [OF False] False 3 show ?thesis
        by (auto simp: InlineBitmap_UCmp_def UCmp_any_set_high' UCmp_common_eq' Let_def bits_of_def)
    qed
  qed
qed

subsection \<open>Words and bytes\<close>

lemma unat_GetWord_0:
  assumes "wf_bitmap b" and "bm_count b \<le> 64"
  shows "unat (InlineBitmap_GetWord b 0) = uval b"
proof (cases "bm_count b = 0")
  case True
  with assms show ?thesis
    by (simp add: InlineBitmap_GetWord_def wf_bitmap_def wf_words_def word_count_def bits_of_def)
next
  case False
  have "bit (unat (bm_data b ! 0)) i = bit (uval b) i" for i
  proof (cases "i < 64")
    case True
    then show ?thesis
      using assms False
      by (cases "i < bm_count b")
        (auto simp: bit_unsigned_iff bit_unum_iff Get_eq_bit wf_bitmap_def)
  next
    case ge: False
    then have "\<not> bit (bm_data b ! 0) i" using bit_imp_le_length [of "bm_data b ! 0" i] by auto
    with ge assms(2) show ?thesis by (simp add: bit_unsigned_iff bit_unum_iff)
  qed
  then have "unat (bm_data b ! 0) = uval b" by (simp add: bit_eq_iff)
  moreover have "word_count b \<noteq> 0"
    using assms(1) False wf_words_less [of b 0] by (auto simp: wf_bitmap_def word_count_def)
  ultimately show ?thesis by (simp add: InlineBitmap_GetWord_def)
qed

lemma byte_bit_index:
  fixes i k :: nat
  assumes "i < 8"
  shows "(8 * k + i) div 64 = k div 8" and "(8 * k + i) mod 64 = 8 * (k mod 8) + i"
proof -
  have k: "8 * k + i = 64 * (k div 8) + (8 * (k mod 8) + i)"
    using mult_div_mod_eq [of 8 k] by linarith
  have "8 * (k mod 8) + i < 64" using assms by (simp add: less_Suc_eq_le)
  then show "(8 * k + i) div 64 = k div 8" "(8 * k + i) mod 64 = 8 * (k mod 8) + i"
    unfolding k by simp_all
qed

lemma bit_GetByte:
  assumes "i < 8"
  shows "bit (InlineBitmap_GetByte b k) i = InlineBitmap_Get b (8 * k + i)"
proof -
  note idx = byte_bit_index [OF assms, of k]
  with assms show ?thesis
    by (simp add: InlineBitmap_GetByte_def Get_eq_bit bit_ucast_iff bit_drop_bit_eq idx)
qed

lemma nth_data_MaskLastWord:
  assumes "wf_words b" and "w < word_count b" and "i < 64"
  shows "bit (bm_data (MaskLastWord b) ! w) i \<longleftrightarrow>
    bit (bm_data b ! w) i \<and> (w = word_count b - 1 \<longrightarrow> w * 64 + i < bm_count b)"
  using assms bit_MaskForWord [OF assms(1), of "word_count b - 1" i]
  by (auto simp: MaskLastWord_def Let_def nth_list_update bit_and_iff word_count_def)

lemma bit_0xFF: "bit (0xFF :: uint64) i \<longleftrightarrow> i < 8"
proof -
  have mask: "(0xFF :: uint64) = mask 8" by (simp add: mask_eq_decr_exp)
  show ?thesis unfolding mask bit_mask_iff by auto
qed

lemma bit_set_byte_word:
  assumes "k < 8" and "i < 64"
  shows "bit ((w :: uint64) AND NOT (push_bit (8 * k) 0xFF) OR push_bit (8 * k) (ucast (v :: uint8))) i =
    (if i div 8 = k then bit v (i mod 8) else bit w i)"
proof -
  have byte: "i div 8 = k \<longleftrightarrow> 8 * k \<le> i \<and> i - 8 * k < 8"
    by (auto simp: div_nat_eqI)
  have rest: "i mod 8 = i - 8 * k" if "i div 8 = k"
    using that by (simp add: minus_div_mult_eq_mod [symmetric] mult.commute)
  have "bit (push_bit (8 * k) (0xFF :: uint64)) i \<longleftrightarrow> i div 8 = k"
    using assms(2) unfolding bit_push_bit_iff bit_0xFF byte by auto
  moreover have "bit (push_bit (8 * k) (ucast v :: uint64)) i \<longleftrightarrow> i div 8 = k \<and> bit v (i mod 8)"
    using assms(2) rest bit_imp_le_length [of v "i - 8 * k"]
    by (auto simp: bit_push_bit_iff bit_ucast_iff byte)
  ultimately show ?thesis
    using assms(2) by (simp add: bit_or_iff bit_and_iff bit_not_iff)
qed

definition set_byte_raw :: "inline_bitmap \<Rightarrow> nat \<Rightarrow> uint8 \<Rightarrow> inline_bitmap" where
  "set_byte_raw b k v = b\<lparr>bm_data := (bm_data b)[k div 8 :=
     (bm_data b ! (k div 8) AND NOT (push_bit (8 * (k mod 8)) 0xFF)) OR
       push_bit (8 * (k mod 8)) (ucast v)]\<rparr>"

lemma SetByte_eq_raw: "InlineBitmap_SetByte b k v = MaskLastWord (set_byte_raw b k v)"
  by (simp add: InlineBitmap_SetByte_def set_byte_raw_def Let_def)

lemma set_byte_raw_simps [simp]:
  "bm_count (set_byte_raw b k v) = bm_count b"
  "word_count (set_byte_raw b k v) = word_count b"
  "wf_words (set_byte_raw b k v) = wf_words b"
  by (simp_all add: set_byte_raw_def word_count_def wf_words_def)

lemma bit_nth_data_set_byte_raw:
  assumes "k div 8 < word_count b" and "i < 64"
  shows "bit (bm_data (set_byte_raw b k v) ! w) i =
    (if w = k div 8 \<and> i div 8 = k mod 8 then bit v (i mod 8) else bit (bm_data b ! w) i)"
  using assms by (simp add: set_byte_raw_def nth_list_update bit_set_byte_word word_count_def)

lemma byte_index_split: "(j::nat) div 64 = k div 8 \<and> j mod 64 div 8 = k mod 8 \<longleftrightarrow> j div 8 = k"
proof -
  have "j div 8 div 8 = j div 64" by (simp flip: div_mult2_eq)
  moreover have "j mod 64 = 8 * (j div 8 mod 8) + j mod 8"
    using mod_mult2_eq [of j 8 8] by simp
  then have "j div 8 mod 8 = j mod 64 div 8" by simp
  ultimately show ?thesis by (metis div_mult_mod_eq)
qed

lemma Get_SetByte:
  assumes "wf_words b" and "k < byte_count b" and "j < bm_count b"
  shows "InlineBitmap_Get (InlineBitmap_SetByte b k v) j =
    (if j div 8 = k then bit v (j mod 8) else InlineBitmap_Get b j)"
proof -
  have j: "j div 64 < word_count b"
    using wf_words_less [OF assms(1,3)] by (simp add: word_count_def)
  have k: "k div 8 < word_count b"
    using assms(1,2) by (simp add: wf_words_def byte_count_eq word_count_def)
  have "InlineBitmap_Get (InlineBitmap_SetByte b k v) j =
      bit (bm_data (set_byte_raw b k v) ! (j div 64)) (j mod 64)"
  proof -
    have "j div 64 * 64 + j mod 64 < bm_count b" using assms(3) by simp
    then have "bit (bm_data (MaskLastWord (set_byte_raw b k v)) ! (j div 64)) (j mod 64) =
        bit (bm_data (set_byte_raw b k v) ! (j div 64)) (j mod 64)"
      using nth_data_MaskLastWord [of "set_byte_raw b k v" "j div 64" "j mod 64"] assms(1) j
      by (metis mod_less_divisor set_byte_raw_simps zero_less_numeral)
    then show ?thesis by (simp only: SetByte_eq_raw Get_eq_bit)
  qed
  also have "\<dots> = (if j div 8 = k then bit v (j mod 8) else InlineBitmap_Get b j)"
    by (simp add: bit_nth_data_set_byte_raw [OF k] byte_index_split mod_mod_cancel Get_eq_bit)
  finally show ?thesis .
qed

lemma wf_SetByte [simp]:
  assumes "wf_bitmap b" and "k < byte_count b"
  shows "wf_bitmap (InlineBitmap_SetByte b k v)"
proof -
  have words: "wf_words b" using assms(1) by (simp add: wf_bitmap_def)
  then have "\<not> bit (bm_data (InlineBitmap_SetByte b k v) ! 0) i"
    if "i < 64" "bm_count b \<le> i" "bm_count b \<noteq> 0" for i
    using nth_data_MaskLastWord [of "set_byte_raw b k v" 0 i] that wf_words_less [of b 0]
    by (simp add: SetByte_eq_raw wf_words_def word_count_def) (simp add: set_byte_raw_def)
  with words show ?thesis by (simp add: wf_bitmap_def)
qed

lemma InlineBitmap_Union_eq:
  assumes "wf_bitmap a" and "wf_bitmap b" and "bm_count a = bm_count b"
  shows "\<exists>r. InlineBitmap_Union a b = Some r \<and> rep r (map2 (\<or>) (bits_of a) (bits_of b))"
proof -
  let ?r = "a\<lparr>bm_data := map (\<lambda>i. bm_data a ! i OR bm_data b ! i) [0..<length (bm_data a)]\<rparr>"
  have words: "wf_words a" using assms(1) by (simp add: wf_bitmap_def)
  have get: "InlineBitmap_Get ?r i = (InlineBitmap_Get a i \<or> InlineBitmap_Get b i)"
    if "i < bm_count a" for i
    using wf_words_less [OF words that] by (simp add: Get_eq_bit bit_or_iff)
  have "bm_data ?r ! 0 = bm_data a ! 0 OR bm_data b ! 0" if "bm_count a \<noteq> 0"
    using wf_words_less [OF words, of 0] that by simp
  then have "wf_bitmap ?r" using assms by (auto simp: wf_bitmap_def wf_words_def bit_or_iff)
  moreover have "bits_of ?r = map2 (\<or>) (bits_of a) (bits_of b)"
    by (rule nth_equalityI) (simp_all add: assms(3) get [simplified assms(3)])
  ultimately show ?thesis using assms(3) by (simp add: InlineBitmap_Union_def rep_def)
qed

section \<open>Properties\<close>

text \<open>\<open>Set\<close> writes one bit of a bitmap and keeps every other bit, the width and the
  invariant; \<open>SetByte\<close> does so for the eight bits of one byte.\<close>

lemma bitmap_update_laws:
  assumes "wf_bitmap b" and "i < bm_count b" and "j < bm_count b" and "k < byte_count b"
  shows "wf_bitmap (InlineBitmap_Set b i v) \<and> bm_count (InlineBitmap_Set b i v) = bm_count b \<and>
    InlineBitmap_Get (InlineBitmap_Set b i v) j = (if j = i then v else InlineBitmap_Get b j) \<and>
    wf_bitmap (InlineBitmap_SetByte b k y) \<and>
    InlineBitmap_Get (InlineBitmap_SetByte b k y) j =
      (if j div 8 = k then bit y (j mod 8) else InlineBitmap_Get b j)"
  using assms Get_Set [of b i j v] Get_SetByte [of b k j y] by (auto simp: wf_bitmap_def [of b])

text \<open>\<open>UCmp\<close> compares two bitmaps of any widths as unsigned numbers, and returns -1, 0 or 1.\<close>

lemma UCmp_compares:
  "InlineBitmap_UCmp a b = (if uval a < uval b then -1 else if uval a = uval b then 0 else 1)"
  by (simp add: InlineBitmap_UCmp_eq compare_nat_def)

text \<open>
  \<open>clear_tail\<close>: the bits of the words past the width are clear. \<open>MaskLastWord\<close> clears them; the word-filling
  constructor leaves them set when the width is not a multiple of 64.
\<close>

definition clear_tail :: "inline_bitmap \<Rightarrow> bool" where
  "clear_tail b \<longleftrightarrow> (\<forall>w<word_count b. \<forall>i<64. bm_count b \<le> w * 64 + i \<longrightarrow> \<not> bit (bm_data b ! w) i)"

lemma masked_word_bit:
  assumes "wf_words b" and "w < word_count b" and "i < 64"
  shows "bit (x AND MaskForWord b w) i \<longleftrightarrow> bit x i \<and> w * 64 + i < bm_count b"
  using assms by (simp add: bit_and_iff bit_MaskForWord)

lemma eq_words_iff:
  assumes "wf_words a" and "wf_words b"
  shows "InlineBitmap_eq a b \<longleftrightarrow> bm_count a = bm_count b \<and>
    (\<forall>w<word_count a. \<forall>i<64. w * 64 + i < bm_count a \<longrightarrow> bit (bm_data a ! w) i = bit (bm_data b ! w) i)"
  using assms(1) by (auto simp: InlineBitmap_eq_def list_all_iff Let_def word64_eq_iff_bits masked_word_bit)

lemma hash_iff_clear:
  assumes "wf_words a" and "wf_words b" and "clear_tail b" and "InlineBitmap_eq a b"
  shows "InlineBitmap_hash_input a = InlineBitmap_hash_input b \<longleftrightarrow> clear_tail a"
proof -
  have count: "bm_count a = bm_count b" and len: "length (bm_data a) = length (bm_data b)"
    and same: "\<And>w i. w < length (bm_data a) \<Longrightarrow> i < 64 \<Longrightarrow> w * 64 + i < bm_count a \<Longrightarrow> bit (bm_data a ! w) i = bit (bm_data b ! w) i"
    using assms by (auto simp: eq_words_iff word_count_def wf_words_def)
  show ?thesis
  proof
    assume "InlineBitmap_hash_input a = InlineBitmap_hash_input b"
    then show "clear_tail a" using assms(3) by (simp add: InlineBitmap_hash_input_def clear_tail_def word_count_def)
  next
    assume clear: "clear_tail a"
    have "bit (bm_data a ! w) i = bit (bm_data b ! w) i" if "w < length (bm_data a)" "i < 64" for w i
      using that same[of w i] clear assms(3) count len
      by (cases "w * 64 + i < bm_count a") (auto simp: clear_tail_def word_count_def)
    then have "bm_data a = bm_data b" using len by (intro nth_equalityI) (simp_all add: word64_eq_iff_bits)
    then show "InlineBitmap_hash_input a = InlineBitmap_hash_input b" using count by (simp add: InlineBitmap_hash_input_def)
  qed
qed

lemma MaskLastWord_clear:
  assumes "wf_words b"
  shows "clear_tail (MaskLastWord b)" and "InlineBitmap_eq b (MaskLastWord b)"
proof -
  have bits: "bit (bm_data (MaskLastWord b) ! w) i \<longleftrightarrow> bit (bm_data b ! w) i \<and> w * 64 + i < bm_count b"
    if w: "w < word_count b" and i: "i < 64" for w i
  proof (cases "w = word_count b - 1")
    case True
    then show ?thesis using w i masked_word_bit[OF assms w i] by (simp add: MaskLastWord_def Let_def word_count_def)
  next
    case False
    then have "w * 64 + i < bm_count b" using w i assms unfolding word_count_def wf_words_def by linarith
    then show ?thesis using False by (simp add: MaskLastWord_def Let_def)
  qed
  show "clear_tail (MaskLastWord b)" using bits by (simp add: clear_tail_def word_count_def)
  show "InlineBitmap_eq b (MaskLastWord b)" using bits assms by (simp add: eq_words_iff)
qed

lemma FromWord_fill_not_clear:
  assumes "64 < n" and "n mod 64 \<noteq> 0"
  shows "\<not> clear_tail (InlineBitmap_FromWord x n True)"
proof -
  let ?b = "InlineBitmap_FromWord x n True"
  define q r where "q = n div 64" and "r = n mod 64"
  then have n: "n = 64 * q + r" and r: "1 \<le> r" using assms(2) by (simp_all add: Suc_leI)
  have "64 * (q + 1) \<le> (64 * q + r) + 63" using r by simp
  then have "64 * (q + 1) \<le> n + 63" unfolding n[symmetric] .
  then have "q + 1 \<le> (n + 63) div 64" using div_le_mono[of "64 * (q + 1)" "n + 63" 64] by simp
  then have w: "n div 64 < (n + 63) div 64" "n div 64 \<noteq> 0" using assms(1) by (simp_all add: q_def div_eq_0_iff)
  then have "bm_data ?b ! (n div 64) = -1" using assms(1) by (simp add: InlineBitmap_FromWord_def Let_def)
  then have "bit (bm_data ?b ! (n div 64)) (n mod 64)" by simp
  moreover have "n \<le> n div 64 * 64 + n mod 64" by simp
  moreover have "n div 64 < word_count ?b" "n mod 64 < 64" using w(1) by (simp_all add: word_count_def)
  ultimately show ?thesis unfolding clear_tail_def bm_count_simps by blast
qed

text \<open>C32: when equal bitmaps have equal hash inputs. Of two bitmaps that \<open>operator==\<close> calls equal, one of which has no bits
  set past its width, the hash inputs agree exactly when the other has none either. So the hash does not respect equality on
  the values of the word-filling constructor: for every width above 64 that is not a multiple of 64, its result equals the bitmap with the
  last word masked, and their hash inputs differ.\<close>

theorem hash_compatible_with_eq_iff_clear:
  assumes "wf_words a" and "wf_words b" and "clear_tail b" and "InlineBitmap_eq a b" and "64 < n" and "n mod 64 \<noteq> 0"
  shows "(InlineBitmap_hash_input a = InlineBitmap_hash_input b \<longleftrightarrow> clear_tail a) \<and>
    InlineBitmap_eq (InlineBitmap_FromWord x n True) (MaskLastWord (InlineBitmap_FromWord x n True)) \<and>
    InlineBitmap_hash_input (InlineBitmap_FromWord x n True) \<noteq> InlineBitmap_hash_input (MaskLastWord (InlineBitmap_FromWord x n True))"
proof -
  let ?b = "InlineBitmap_FromWord x n True"
  note m = MaskLastWord_clear[OF wf_words_simps(2), of x n True]
  have "InlineBitmap_hash_input ?b \<noteq> InlineBitmap_hash_input (MaskLastWord ?b)"
    using hash_iff_clear[OF _ _ m] FromWord_fill_not_clear[OF assms(5,6)] by simp
  then show ?thesis using hash_iff_clear[OF assms(1-4)] m(2) by blast
qed

theorem hash_compatible_with_eq_iff_clear_witness:
  "InlineBitmap_eq (InlineBitmap 3 False) (InlineBitmap 3 False) \<and>
   InlineBitmap_hash_input (InlineBitmap_FromWord (-1) 65 True) \<noteq> InlineBitmap_hash_input (MaskLastWord (InlineBitmap_FromWord (-1) 65 True))"
proof -
  have "InlineBitmap_eq (InlineBitmap 3 False) (InlineBitmap 3 False)" by (simp add: InlineBitmap_eq_def list_all_iff Let_def)
  moreover have "clear_tail (InlineBitmap 3 False)" by (simp add: clear_tail_def word_count_def)
  ultimately show ?thesis using hash_compatible_with_eq_iff_clear[of "InlineBitmap 3 False" "InlineBitmap 3 False" 65 "-1"] by simp
qed

end
