(* ===== verification/Xls_Bits.thy ===== *)
theory Xls_Bits
  imports Xls_Inline_Bitmap
begin

text \<open>
  \<open>xls/ir/bits.{h,cc}\<close> and \<open>xls/ir/bit_push_buffer.h\<close>: literal values as vectors of bits. A
  \<open>Bits\<close> object holds exactly one \<open>InlineBitmap\<close>, so the class is that type.

  A method that contains an \<open>XLS_CHECK\<close>, or an \<open>XLS_DCHECK\<close> that a caller can violate, returns
  an \<open>option\<close>; \<open>returns m bs\<close> states that such a call does not abort and that its result
  represents the bit list \<open>bs\<close>. Values of C++ type \<open>int64_t\<close> that are data (not sizes) are
  \<open>64 word\<close>s read with \<open>sint\<close>.
\<close>

type_synonym bits = inline_bitmap

abbreviation Bits_Get :: "bits \<Rightarrow> nat \<Rightarrow> bool" where
  "Bits_Get \<equiv> InlineBitmap_Get"

abbreviation Bits_eq :: "bits \<Rightarrow> bits \<Rightarrow> bool" where
  "Bits_eq \<equiv> InlineBitmap_eq"

abbreviation Bits_IsZero :: "bits \<Rightarrow> bool" where
  "Bits_IsZero \<equiv> InlineBitmap_IsAllZeroes"

abbreviation Bits_IsAllOnes :: "bits \<Rightarrow> bool" where
  "Bits_IsAllOnes \<equiv> InlineBitmap_IsAllOnes"

section \<open>Construction\<close>

definition Bits_new :: "nat \<Rightarrow> bits" where
  "Bits_new bit_count = InlineBitmap bit_count False"

definition Bits_FromSpan :: "bool list \<Rightarrow> bits" where
  "Bits_FromSpan bs =
     fold (\<lambda>i bitmap. InlineBitmap_Set bitmap i (bs ! i)) [0..<length bs]
       (InlineBitmap (length bs) False)"

definition MinBitCountUnsigned :: "uint64 \<Rightarrow> nat" where
  "MinBitCountUnsigned v = (if v = 0 then 0 else FloorOfLog2 v + 1)"

definition MinBitCountSigned :: "uint64 \<Rightarrow> nat" where
  "MinBitCountSigned v =
     (if v = 0 then 0
      else if sint v < 0 then MinBitCountUnsigned (- (v + 1)) + 1
      else MinBitCountUnsigned v + 1)"

definition UBitsWithStatus :: "uint64 \<Rightarrow> nat \<Rightarrow> bits statusor" where
  "UBitsWithStatus v bit_count =
     (if MinBitCountUnsigned v > bit_count then Inl InvalidArgument
      else Inr (InlineBitmap_FromWord v bit_count False))"

definition SBitsWithStatus :: "uint64 \<Rightarrow> nat \<Rightarrow> bits statusor" where
  "SBitsWithStatus v bit_count =
     (if MinBitCountSigned v > bit_count then Inl InvalidArgument
      else let fill = (signed_drop_bit 63 v \<noteq> 0)
           in Inr (InlineBitmap_FromWord v bit_count fill))"

definition UBits :: "uint64 \<Rightarrow> nat \<Rightarrow> bits option" where
  "UBits v bit_count = status_value (UBitsWithStatus v bit_count)"

definition SBits :: "uint64 \<Rightarrow> nat \<Rightarrow> bits option" where
  "SBits v bit_count = status_value (SBitsWithStatus v bit_count)"

definition Bits_AllOnes :: "nat \<Rightarrow> bits option" where
  "Bits_AllOnes bit_count = (if bit_count = 0 then Some (Bits_new 0) else SBits (-1) bit_count)"

definition Bits_UpdateWithSet :: "bits \<Rightarrow> nat \<Rightarrow> bool \<Rightarrow> bits option" where
  "Bits_UpdateWithSet b index v = do {
     CHECK (index < bm_count b);
     Some (InlineBitmap_Set b index v)
   }"

definition Bits_PowerOfTwo :: "nat \<Rightarrow> nat \<Rightarrow> bits option" where
  "Bits_PowerOfTwo set_bit_index bit_count = Bits_UpdateWithSet (Bits_new bit_count) set_bit_index True"

text \<open>For a zero width, \<open>bit_count - 1\<close> is the index -1 and the write is out of range.\<close>

definition Bits_MaxSigned :: "nat \<Rightarrow> bits option" where
  "Bits_MaxSigned bit_count = do {
     ones \<leftarrow> Bits_AllOnes bit_count;
     if bit_count = 0 then None else Bits_UpdateWithSet ones (bit_count - 1) False
   }"

definition Bits_MinSigned :: "nat \<Rightarrow> bits option" where
  "Bits_MinSigned bit_count =
     (if bit_count = 0 then None else Bits_PowerOfTwo (bit_count - 1) bit_count)"

text \<open>\<open>SetByte\<close> requires its byte to exist.\<close>

fun Bits_FromBytes_loop :: "inline_bitmap \<Rightarrow> uint8 list \<Rightarrow> inline_bitmap option" where
  "Bits_FromBytes_loop bitmap [] = Some bitmap"
| "Bits_FromBytes_loop bitmap (byte # rest) = do {
     CHECK (length rest < byte_count bitmap);
     Bits_FromBytes_loop (InlineBitmap_SetByte bitmap (length rest) byte) rest
   }"

definition Bits_FromBytes :: "uint8 list \<Rightarrow> nat \<Rightarrow> bits option" where
  "Bits_FromBytes bytes bit_count = do {
     CHECK (bit_count \<le> length bytes * 8);
     Bits_FromBytes_loop (InlineBitmap bit_count False) bytes
   }"

section \<open>Observation\<close>

definition Bits_msb :: "bits \<Rightarrow> bool" where
  "Bits_msb b = (if bm_count b = 0 then False else Bits_Get b (bm_count b - 1))"

definition Bits_GetFromMsb :: "bits \<Rightarrow> nat \<Rightarrow> bool option" where
  "Bits_GetFromMsb b index = do {
     CHECK (index < bm_count b);
     Some (Bits_Get b (bm_count b - index - 1))
   }"

definition Bits_ToBitVector :: "bits \<Rightarrow> bool list" where
  "Bits_ToBitVector b = map (Bits_Get b) [0..<bm_count b]"

definition Bits_PopCount :: "bits \<Rightarrow> nat" where
  "Bits_PopCount b = fold (\<lambda>i count. if Bits_Get b i then count + 1 else count) [0..<bm_count b] 0"

definition Bits_IsOne :: "bits \<Rightarrow> bool" where
  "Bits_IsOne b \<longleftrightarrow> Bits_PopCount b = 1 \<and> Bits_Get b 0"

definition Bits_IsPowerOfTwo :: "bits \<Rightarrow> bool" where
  "Bits_IsPowerOfTwo b \<longleftrightarrow> Bits_PopCount b = 1"

definition Bits_CountLeadingZeros :: "bits \<Rightarrow> nat" where
  "Bits_CountLeadingZeros b = first_index (\<lambda>i. Bits_Get b (bm_count b - 1 - i)) (bm_count b)"

definition Bits_CountLeadingOnes :: "bits \<Rightarrow> nat" where
  "Bits_CountLeadingOnes b = first_index (\<lambda>i. \<not> Bits_Get b (bm_count b - 1 - i)) (bm_count b)"

definition Bits_CountTrailingZeros :: "bits \<Rightarrow> nat" where
  "Bits_CountTrailingZeros b = first_index (\<lambda>i. Bits_Get b i) (bm_count b)"

definition Bits_CountTrailingOnes :: "bits \<Rightarrow> nat" where
  "Bits_CountTrailingOnes b = first_index (\<lambda>i. \<not> Bits_Get b i) (bm_count b)"

text \<open>The result carries (leading zeros, set bits, trailing zeros); the outer \<open>option\<close> is the
  \<open>XLS_CHECK\<close>s, the inner one the returned flag.\<close>

definition Bits_HasSingleRunOfSetBits :: "bits \<Rightarrow> (nat \<times> nat \<times> nat) option option" where
  "Bits_HasSingleRunOfSetBits b =
     (let leading_zeros = Bits_CountLeadingZeros b;
          trailing_zeros = Bits_CountTrailingZeros b
      in if bm_count b = trailing_zeros
         then do { CHECK (leading_zeros = bm_count b); Some None }
         else if list_all (Bits_Get b) [trailing_zeros..<bm_count b - leading_zeros]
         then do {
           CHECK (leading_zeros + trailing_zeros \<le> bm_count b);
           Some (Some (leading_zeros, bm_count b - leading_zeros - trailing_zeros, trailing_zeros))
         }
         else Some None)"

definition Bits_FitsInNBitsUnsigned :: "bits \<Rightarrow> nat \<Rightarrow> bool" where
  "Bits_FitsInNBitsUnsigned b n \<longleftrightarrow> list_all (\<lambda>i. \<not> Bits_Get b i) [n..<bm_count b]"

definition Bits_FitsInNBitsSigned :: "bits \<Rightarrow> nat \<Rightarrow> bool" where
  "Bits_FitsInNBitsSigned b n \<longleftrightarrow>
     (if n = 0 then Bits_IsZero b
      else list_all (\<lambda>i. Bits_Get b i = Bits_msb b) [n - 1..<bm_count b])"

definition Bits_FitsInUint64 :: "bits \<Rightarrow> bool" where
  "Bits_FitsInUint64 b = Bits_FitsInNBitsUnsigned b 64"

definition Bits_FitsInInt64 :: "bits \<Rightarrow> bool" where
  "Bits_FitsInInt64 b = Bits_FitsInNBitsSigned b 64"

definition Bits_ToUint64 :: "bits \<Rightarrow> uint64 statusor" where
  "Bits_ToUint64 b =
     (if bm_count b = 0 then Inr 0
      else if \<not> Bits_FitsInUint64 b then Inl InvalidArgument
      else Inr (InlineBitmap_GetWord b 0))"

definition Bits_WordToUint64 :: "bits \<Rightarrow> nat \<Rightarrow> uint64 statusor" where
  "Bits_WordToUint64 b word_number =
     (if bm_count b = 0 then Inr 0 else Inr (InlineBitmap_GetWord b word_number))"

definition Bits_ToInt64 :: "bits \<Rightarrow> uint64 statusor" where
  "Bits_ToInt64 b =
     (if \<not> Bits_FitsInInt64 b then Inl InvalidArgument
      else let w = InlineBitmap_GetWord b 0
           in Inr (if Bits_msb b \<and> bm_count b < 64 then w OR push_bit (bm_count b) (-1) else w))"

definition Bits_Slice :: "bits \<Rightarrow> nat \<Rightarrow> nat \<Rightarrow> bits option" where
  "Bits_Slice b start width = do {
     CHECK (start + width \<le> bm_count b);
     Some (fold (\<lambda>i result. if Bits_Get b (start + i) then InlineBitmap_Set result i True else result)
             [0..<width] (Bits_new width))
   }"

definition Bits_ToBytes :: "bits \<Rightarrow> uint8 list" where
  "Bits_ToBytes b =
     (let buffer = rev (map (InlineBitmap_GetByte b) [0..<byte_count b])
      in if bm_count b mod 8 \<noteq> 0
         then buffer[0 := buffer ! 0 AND ucast (Mask (bm_count b mod 8))]
         else buffer)"

section \<open>Ropes and push buffers\<close>

record bits_rope =
  rope_bitmap :: inline_bitmap
  rope_index :: nat

definition BitsRope :: "nat \<Rightarrow> bits_rope" where
  "BitsRope total_bit_count = \<lparr>rope_bitmap = InlineBitmap total_bit_count False, rope_index = 0\<rparr>"

definition BitsRope_push_back :: "bits_rope \<Rightarrow> bits \<Rightarrow> bits_rope" where
  "BitsRope_push_back rope b =
     rope\<lparr>rope_bitmap := fold (\<lambda>i bitmap. InlineBitmap_Set bitmap (i + rope_index rope) (Bits_Get b i))
                               [0..<bm_count b] (rope_bitmap rope),
          rope_index := rope_index rope + bm_count b\<rparr>"

definition BitsRope_push_bit :: "bits_rope \<Rightarrow> bool \<Rightarrow> bits_rope" where
  "BitsRope_push_bit rope v =
     rope\<lparr>rope_bitmap := InlineBitmap_Set (rope_bitmap rope) (rope_index rope) v,
          rope_index := rope_index rope + 1\<rparr>"

definition BitsRope_Build :: "bits_rope \<Rightarrow> bits option" where
  "BitsRope_Build rope = do {
     CHECK (rope_index rope = bm_count (rope_bitmap rope));
     Some (rope_bitmap rope)
   }"

definition Bits_FlattenTo :: "bits \<Rightarrow> bool list \<Rightarrow> bool list" where
  "Bits_FlattenTo b buffer =
     fold (\<lambda>i buffer. buffer @ [Bits_Get b (bm_count b - i - 1)]) [0..<bm_count b] buffer"

definition BitPushBuffer_GetUint8Data :: "bool list \<Rightarrow> uint8 list" where
  "BitPushBuffer_GetUint8Data bitmap =
     fold (\<lambda>i result. result[i div 8 := result ! (i div 8) OR
                               push_bit (7 - i mod 8) (if bitmap ! i then 1 else 0)])
       [0..<length bitmap] (replicate (ceil_ratio (length bitmap) 8) 0)"

section \<open>Representation\<close>

definition returns :: "bits option \<Rightarrow> bool list \<Rightarrow> bool" where
  "returns m bs \<longleftrightarrow> (\<exists>b. m = Some b \<and> rep b bs)"

lemma repI:
  "wf_bitmap b \<Longrightarrow> bm_count b = length bs \<Longrightarrow> (\<And>i. i < length bs \<Longrightarrow> Bits_Get b i = bs ! i) \<Longrightarrow> rep b bs"
  by (auto simp: rep_def list_eq_iff_nth_eq)

lemma rep_wf [dest]: "rep b bs \<Longrightarrow> wf_bitmap b"
  by (simp add: rep_def)

lemma rep_words: "rep b bs \<Longrightarrow> wf_words b"
  by (simp add: rep_def wf_bitmap_def)

lemma rep_count: "rep b bs \<Longrightarrow> bm_count b = length bs"
  by (auto simp: rep_def)

lemma rep_bits: "rep b bs \<Longrightarrow> bits_of b = bs"
  by (simp add: rep_def)

lemma rep_get: "rep b bs \<Longrightarrow> i < length bs \<Longrightarrow> Bits_Get b i = bs ! i"
  by (auto simp: rep_def)

lemmas rep_simps = rep_count rep_bits rep_get

lemma rep_bits_of: "wf_bitmap b \<Longrightarrow> rep b (bits_of b)"
  by (simp add: rep_def)

lemma returns_Some [simp]: "returns (Some b) bs \<longleftrightarrow> rep b bs"
  by (simp add: returns_def)

lemma returns_None [simp]: "\<not> returns None bs"
  by (simp add: returns_def)

lemma returns_bind:
  "returns m bs \<Longrightarrow> (\<And>b. rep b bs \<Longrightarrow> returns (f b) cs) \<Longrightarrow> returns (m \<bind> f) cs"
  by (auto simp: returns_def)

lemma returns_bindE:
  assumes "returns m bs"
  obtains b where "m = Some b" and "rep b bs"
  using assms by (auto simp: returns_def)

section \<open>Constructors\<close>

lemma rep_new [bits_rep]: "rep (Bits_new n) (replicate n False)"
  by (simp add: rep_def Bits_new_def)

lemma rep_FromSpan [bits_rep]: "rep (Bits_FromSpan bs) bs"
proof (rule repI)
  let ?b = "InlineBitmap (length bs) False"
  note loop = bm.fill_loop [where b = ?b and off = 0 and n = "length bs" and v = "\<lambda>i. bs ! i", simplified]
  show "wf_bitmap (Bits_FromSpan bs)" "bm_count (Bits_FromSpan bs) = length bs"
    using loop(1,2) by (simp_all add: Bits_FromSpan_def)
  show "Bits_Get (Bits_FromSpan bs) i = bs ! i" if "i < length bs" for i
    using loop(3) [OF that] that by (simp add: Bits_FromSpan_def)
qed

lemma MinBitCountUnsigned_le_iff: "MinBitCountUnsigned v \<le> n \<longleftrightarrow> unat v < 2 ^ n"
proof (cases "v = 0")
  case False
  note b = FloorOfLog2_bounds(1,2) [OF False]
  show ?thesis
  proof
    assume "MinBitCountUnsigned v \<le> n"
    then have "(2::nat) ^ (FloorOfLog2 v + 1) \<le> 2 ^ n"
      using False by (intro power_increasing) (simp_all add: MinBitCountUnsigned_def)
    with b(2) show "unat v < 2 ^ n" by linarith
  next
    assume "unat v < 2 ^ n"
    with b(1) have "(2::nat) ^ FloorOfLog2 v < 2 ^ n" by linarith
    then show "MinBitCountUnsigned v \<le> n" using False by (simp add: MinBitCountUnsigned_def)
  qed
qed (simp add: MinBitCountUnsigned_def)

lemma rep_FromWord_unsigned:
  assumes "unat w < 2 ^ n"
  shows "rep (InlineBitmap_FromWord w n False) (nat_bl n (unat w))"
proof (rule repI)
  have "\<not> bit w i" if "\<not> i < 64" for i using that bit_imp_le_length [of w i] by auto
  then show "Bits_Get (InlineBitmap_FromWord w n False) i = nat_bl n (unat w) ! i"
    if "i < length (nat_bl n (unat w))" for i
    using that by (simp add: Get_FromWord bit_unsigned_iff)
qed simp_all

lemma UBitsWithStatus_ok:
  "unat v < 2 ^ n \<Longrightarrow> \<exists>b. UBitsWithStatus v n = Inr b \<and> rep b (nat_bl n (unat v))"
  using MinBitCountUnsigned_le_iff [of v n] rep_FromWord_unsigned [of v n]
  by (simp add: UBitsWithStatus_def not_less)

lemma UBitsWithStatus_error:
  "\<not> unat v < 2 ^ n \<Longrightarrow> UBitsWithStatus v n = Inl InvalidArgument"
  using MinBitCountUnsigned_le_iff [of v n] by (simp add: UBitsWithStatus_def not_less)

lemma returns_UBits [bits_rep]: "unat v < 2 ^ n \<Longrightarrow> returns (UBits v n) (nat_bl n (unat v))"
  using UBitsWithStatus_ok [of v n] by (auto simp: UBits_def)

lemma UBits_eq_None_iff: "UBits v n = None \<longleftrightarrow> \<not> unat v < 2 ^ n"
  using UBitsWithStatus_ok [of v n] UBitsWithStatus_error [of v n]
  by (cases "unat v < 2 ^ n") (auto simp: UBits_def)

lemma uint64_bound: "int (unat (v :: uint64)) < 2 ^ 64"
  using unsigned_less [of v] by simp

lemma unat_bound64: "unat (v :: uint64) < 2 ^ 64"
  using uint64_bound [of v] by (metis of_nat_less_iff of_nat_numeral of_nat_power)

lemma sint_uint64: "sint (v :: uint64) = (if bit v 63 then int (unat v) - 2 ^ 64 else int (unat v))"
  using uint64_bound [of v]
  by (simp add: sint_uint signed_take_bit_eq_take_bit_minus bit_uint_iff take_bit_int_eq_self)

lemma sint_neg_unat:
  fixes v :: uint64
  assumes "sint v < 0"
  shows "int (unat (- (v + 1))) = - sint v - 1"
proof -
  have "bit v 63" using assms uint64_bound [of v] by (auto simp: sint_uint64 split: if_splits)
  have "- (v + 1) = -1 - v" by (simp add: algebra_simps)
  then have "unat (- (v + 1)) = unat (-1 - v)" by (rule arg_cong)
  also have "\<dots> = unat (-1 :: uint64) - unat v" by (rule unat_sub) simp
  also have "int \<dots> = 2 ^ 64 - 1 - int (unat v)"
    using unat_bound64 [of v] by (subst of_nat_diff) (simp_all add: unsigned_minus_1_eq_mask mask_eq_exp_minus_1)
  finally show ?thesis using \<open>bit v 63\<close> by (simp add: sint_uint64)
qed

lemma MinBitCountSigned_le_iff:
  "MinBitCountSigned v \<le> n \<longleftrightarrow>
     v = 0 \<or> (n > 0 \<and> - (2 ^ (n - 1)) \<le> sint v \<and> sint v < 2 ^ (n - 1))"
proof -
  have suc: "MinBitCountUnsigned w + 1 \<le> n \<longleftrightarrow> n > 0 \<and> int (unat w) < 2 ^ (n - 1)" for w
  proof -
    have "MinBitCountUnsigned w + 1 \<le> n \<longleftrightarrow> n > 0 \<and> MinBitCountUnsigned w \<le> n - 1" by auto
    also have "\<dots> \<longleftrightarrow> n > 0 \<and> int (unat w) < 2 ^ (n - 1)"
      unfolding MinBitCountUnsigned_le_iff
      by (metis of_nat_less_iff of_nat_numeral of_nat_power)
    finally show ?thesis .
  qed
  show ?thesis
  proof (cases "sint v < 0")
    case True
    then have "v \<noteq> 0" by auto
    with True show ?thesis unfolding MinBitCountSigned_def
      by (simp only: suc sint_neg_unat [OF True] if_True if_False) auto
  next
    case False
    then have "sint v = int (unat v)" using uint64_bound [of v] by (auto simp: sint_uint64)
    moreover have "- (2 ^ (n - 1)) \<le> int (unat v)"
      using order_trans [of "- (2 ^ (n - 1))" 0 "int (unat v)"] by simp
    ultimately show ?thesis using False unfolding MinBitCountSigned_def
      by (cases "v = 0") (simp_all only: suc if_True if_False, auto)
  qed
qed

lemma signed_drop_bit_63: "signed_drop_bit 63 (v :: uint64) \<noteq> 0 \<longleftrightarrow> bit v 63"
proof
  assume "bit v 63"
  then have "bit (signed_drop_bit 63 v) 0" by (simp add: bit_signed_drop_bit_iff)
  then show "signed_drop_bit 63 v \<noteq> 0" by (auto simp del: bit_0)
next
  assume "signed_drop_bit 63 v \<noteq> 0"
  then obtain i where "i < 64" and "bit (signed_drop_bit 63 v) i"
    by (metis bit_0_eq bot_apply bot_bool_def word64_eq_iff_bits)
  then show "bit v 63" by (cases "i = 0") (auto simp: bit_signed_drop_bit_iff split: if_splits)
qed

lemma bit_sint_uint64: "bit (sint (v :: uint64)) i = (if i < 64 then bit v i else bit v 63)"
  using bit_imp_le_length [of v i] by (auto simp: bit_sint_iff less_Suc_eq)

lemma rep_FromWord_signed: "rep (InlineBitmap_FromWord v n (bit v 63)) (int_bl n (sint v))"
  by (rule repI) (simp_all add: Get_FromWord bit_sint_uint64)

lemma SBitsWithStatus_ok:
  assumes "v = 0 \<or> (n > 0 \<and> - (2 ^ (n - 1)) \<le> sint v \<and> sint v < 2 ^ (n - 1))"
  shows "\<exists>b. SBitsWithStatus v n = Inr b \<and> rep b (int_bl n (sint v))"
  using assms MinBitCountSigned_le_iff [of v n] rep_FromWord_signed [of v n]
  by (simp add: SBitsWithStatus_def Let_def signed_drop_bit_63 not_less)

lemma SBitsWithStatus_error:
  "\<not> (v = 0 \<or> (n > 0 \<and> - (2 ^ (n - 1)) \<le> sint v \<and> sint v < 2 ^ (n - 1))) \<Longrightarrow>
   SBitsWithStatus v n = Inl InvalidArgument"
  unfolding SBitsWithStatus_def not_le [symmetric] MinBitCountSigned_le_iff by simp

lemma returns_SBits [bits_rep]:
  "v = 0 \<or> (n > 0 \<and> - (2 ^ (n - 1)) \<le> sint v \<and> sint v < 2 ^ (n - 1)) \<Longrightarrow>
   returns (SBits v n) (int_bl n (sint v))"
  using SBitsWithStatus_ok [of v n] by (auto simp: SBits_def)

lemma returns_AllOnes [bits_rep]: "returns (Bits_AllOnes n) (replicate n True)"
proof (cases "n = 0")
  case True
  then show ?thesis using rep_new [of 0] by (simp add: Bits_AllOnes_def)
next
  case False
  have "int_bl n (sint (-1 :: uint64)) = replicate n True" by (simp add: list_eq_iff_nth_eq)
  moreover have "(-1 :: int) < 2 ^ (n - 1)" by (rule less_trans [of _ 0]) simp_all
  ultimately show ?thesis
    using returns_SBits [of "-1" n] False by (simp add: Bits_AllOnes_def)
qed

lemma returns_UpdateWithSet [bits_rep]:
  "rep b bs \<Longrightarrow> i < length bs \<Longrightarrow> returns (Bits_UpdateWithSet b i v) (bs[i := v])"
  by (auto simp: Bits_UpdateWithSet_def rep_count nth_list_update Get_Set rep_words rep_get
      intro!: repI wf_Set dest: rep_wf)

lemma returns_PowerOfTwo [bits_rep]:
  "i < n \<Longrightarrow> returns (Bits_PowerOfTwo i n) (nat_bl n (2 ^ i))"
proof -
  assume "i < n"
  then have "(replicate n False)[i := True] = nat_bl n (2 ^ i)"
    by (auto simp: list_eq_iff_nth_eq nth_list_update bit_exp_iff)
  with returns_UpdateWithSet [OF rep_new, of i n True] \<open>i < n\<close> show ?thesis
    by (simp add: Bits_PowerOfTwo_def)
qed

lemma returns_MaxSigned:
  assumes "n > 0"
  shows "returns (Bits_MaxSigned n) (int_bl n (2 ^ (n - 1) - 1))"
proof -
  have "(2::int) ^ (n - 1) - 1 = mask (n - 1)" by (simp add: mask_eq_exp_minus_1)
  then have "(replicate n True)[n - 1 := False] = int_bl n (2 ^ (n - 1) - 1)"
    by (auto simp: list_eq_iff_nth_eq nth_list_update bit_mask_iff)
  then show ?thesis
    using assms returns_UpdateWithSet [of _ "replicate n True" "n - 1" False]
    unfolding Bits_MaxSigned_def
    by (intro returns_bind [OF returns_AllOnes]) simp
qed

lemma returns_MinSigned:
  assumes "n > 0"
  shows "returns (Bits_MinSigned n) (int_bl n (- (2 ^ (n - 1))))"
proof -
  have "(2::int) ^ n = 2 * 2 ^ (n - 1)" using assms by (simp flip: power_Suc)
  then have "- (2 ^ (n - 1)) mod (2::int) ^ n = 2 ^ (n - 1)"
    by (intro int_mod_pos_eq [where q = "-1"]) simp_all
  then have "int_bl n (- (2 ^ (n - 1))) = nat_bl n (2 ^ (n - 1))"
    by (simp add: int_bl_eq_nat_bl nat_power_eq)
  with returns_PowerOfTwo [of "n - 1" n] assms show ?thesis by (simp add: Bits_MinSigned_def)
qed

section \<open>Observers\<close>

lemma rep_msb [bits_val]: "rep b bs \<Longrightarrow> Bits_msb b \<longleftrightarrow> bs \<noteq> [] \<and> last bs"
  by (cases "bs = []") (auto simp: Bits_msb_def rep_count rep_get last_conv_nth)

lemma rep_ToBitVector [bits_val]: "rep b bs \<Longrightarrow> Bits_ToBitVector b = bs"
  by (simp add: Bits_ToBitVector_def rep_def bits_of_def)

lemma rep_eq [bits_val]: "rep a as \<Longrightarrow> rep b bs \<Longrightarrow> Bits_eq a b \<longleftrightarrow> as = bs"
  by (simp add: InlineBitmap_eq_iff rep_words rep_bits)

lemma rep_IsZero [bits_val]: "rep b bs \<Longrightarrow> Bits_IsZero b \<longleftrightarrow> unum bs = 0"
  by (simp add: InlineBitmap_IsAllZeroes_iff rep_words rep_bits)

lemma rep_IsAllOnes [bits_val]: "rep b bs \<Longrightarrow> Bits_IsAllOnes b \<longleftrightarrow> unum bs = 2 ^ length bs - 1"
  using unum_eq_max_iff [of bs] by (simp add: InlineBitmap_IsAllOnes_iff rep_words rep_bits)

lemma fold_count: "fold (\<lambda>i count. if p i then count + 1 else count) xs (k::nat) = k + length (filter p xs)"
  by (induction xs arbitrary: k) simp_all

lemma rep_PopCount [bits_val]: "rep b bs \<Longrightarrow> Bits_PopCount b = length (filter id bs)"
  by (auto simp: Bits_PopCount_def fold_count rep_def bits_of_def filter_map o_def)

lemma rep_FitsInNBitsUnsigned [bits_val]:
  "rep b bs \<Longrightarrow> Bits_FitsInNBitsUnsigned b n \<longleftrightarrow> unum bs < 2 ^ n"
  by (auto simp: Bits_FitsInNBitsUnsigned_def list_all_iff unum_less_exp_iff set_drop_conv_nth
      rep_count rep_get)

lemma rep_FitsInNBitsSigned [bits_val]:
  assumes "rep b bs" and "n > 0"
  shows "Bits_FitsInNBitsSigned b n \<longleftrightarrow> - (2 ^ (n - 1)) \<le> snum bs \<and> snum bs < 2 ^ (n - 1)"
proof (cases "length bs < n")
  case True
  then have empty: "[n - 1..<bm_count b] = []" using assms by (simp add: rep_count)
  have "- (2 ^ (n - 1)) \<le> snum bs \<and> snum bs < 2 ^ (n - 1)"
  proof (cases "bs = []")
    case False
    have "(2::int) ^ (length bs - 1) \<le> 2 ^ (n - 1)" using True by (intro power_increasing) auto
    with snum_range [OF False] show ?thesis by linarith
  qed simp
  with assms(2) show ?thesis unfolding Bits_FitsInNBitsSigned_def empty by simp
next
  case False
  define k where "k = n - 1"
  define lo where "lo = take k bs"
  define hi where "hi = drop k bs"
  have hi: "hi \<noteq> []" and bs: "bs = lo @ hi" and len: "length lo = k"
    using False assms(2) by (auto simp: hi_def lo_def k_def)
  have set_hi: "x \<in> set hi \<longleftrightarrow> (\<exists>i\<in>{k..<length bs}. bs ! i = x)" for x
    unfolding hi_def set_drop_conv_nth by auto
  have last: "last bs = last hi" "Bits_msb b = last hi"
    using hi bs rep_msb [OF assms(1)] by auto
  have "Bits_FitsInNBitsSigned b n \<longleftrightarrow> (\<forall>i\<in>{k..<length bs}. bs ! i = last hi)"
    using assms last
    by (simp add: Bits_FitsInNBitsSigned_def list_all_iff rep_count rep_get k_def)
  also have "\<dots> \<longleftrightarrow> (\<forall>x\<in>set hi. x = last hi)"
    using set_hi by blast
  also have "\<dots> \<longleftrightarrow> snum hi = 0 \<or> snum hi = -1"
    by (simp add: snum_eq_0_or_m1_iff [OF hi])
  also have "\<dots> \<longleftrightarrow> - (2 ^ k) \<le> snum bs \<and> snum bs < 2 ^ k"
  proof -
    have lo: "int (unum lo) < 2 ^ k" "0 \<le> int (unum lo)"
      using unum_bound [of lo] unfolding len
      by (metis of_nat_less_iff of_nat_numeral of_nat_power) simp
    have eq: "snum bs = int (unum lo) + 2 ^ k * snum hi" using hi by (simp add: bs snum_append len)
    have "snum bs \<ge> 2 ^ k" if "snum hi \<ge> 1"
      using mult_left_mono [OF that, of "2 ^ k"] lo unfolding eq by linarith
    moreover have "snum bs < - (2 ^ k)" if "snum hi \<le> -2"
      using mult_left_mono [OF that, of "2 ^ k"] lo unfolding eq by linarith
    ultimately have "snum hi = 0 \<or> snum hi = -1" if "- (2 ^ k) \<le> snum bs \<and> snum bs < 2 ^ k"
      using that by linarith
    moreover have "- (2 ^ k) \<le> snum bs \<and> snum bs < 2 ^ k" if "snum hi = 0 \<or> snum hi = -1"
    proof -
      have "- (2 ^ k) \<le> int (unum lo) + 2 ^ k * s \<and> int (unum lo) + 2 ^ k * s < 2 ^ k"
        if "s = 0 \<or> s = -1" for s :: int
        using that
        by (elim disjE; intro conjI; simp only: mult_zero_right mult_minus1_right; use lo in linarith)
      with that show ?thesis unfolding eq by blast
    qed
    ultimately show ?thesis by (rule iffI [rotated])
  qed
  finally show ?thesis by (simp add: k_def)
qed

lemma rep_GetWord:
  assumes "rep b bs" and "i < 64" and "i < length bs"
  shows "bit (InlineBitmap_GetWord b 0) i = bs ! i"
proof -
  have "word_count b \<noteq> 0"
    using wf_words_less [OF rep_words [OF assms(1)], of i] assms
    by (auto simp: word_count_def rep_count)
  then show ?thesis
    using assms rep_get [OF assms(1,3)] by (simp add: InlineBitmap_GetWord_def Get_eq_bit)
qed

lemma unat_GetWord_take:
  assumes "rep b bs" 
  shows "unat (InlineBitmap_GetWord b 0) = unum (take 64 bs)"
proof (cases "length bs \<le> 64")
  case True
  then show ?thesis using unat_GetWord_0 [of b] assms by (auto simp: rep_def)
next
  case False
  have "bit (unat (InlineBitmap_GetWord b 0)) i = bit (unum (take 64 bs)) i" for i
    using rep_GetWord [OF assms, of i] False bit_imp_le_length [of "InlineBitmap_GetWord b 0" i]
    by (auto simp: bit_unsigned_iff bit_unum_iff)
  then show ?thesis by (simp add: bit_eq_iff)
qed

lemma rep_ToUint64 [bits_val]:
  assumes "rep b bs"
  shows "Bits_ToUint64 b = (if unum bs < 2 ^ 64 then Inr (of_nat (unum bs)) else Inl InvalidArgument)"
proof (cases "unum bs < 2 ^ 64")
  case True
  then have "unat (InlineBitmap_GetWord b 0) = unum bs"
    by (simp add: unat_GetWord_take [OF assms] unum_take)
  then have "InlineBitmap_GetWord b 0 = of_nat (unum bs)" 
    using True by (simp add: word_unat_eq_iff unsigned_of_nat take_bit_nat_eq_self)
  with True assms show ?thesis
    by (auto simp: Bits_ToUint64_def Bits_FitsInUint64_def rep_FitsInNBitsUnsigned rep_count)
next
  case False
  then have "bs \<noteq> []" by auto
  with False assms show ?thesis
    by (simp add: Bits_ToUint64_def Bits_FitsInUint64_def rep_FitsInNBitsUnsigned rep_count)
qed

lemma rep_ToInt64 [bits_val]:
  assumes "rep b bs"
  shows "Bits_ToInt64 b =
    (if - (2 ^ 63) \<le> snum bs \<and> snum bs < 2 ^ 63 then Inr (of_int (snum bs)) else Inl InvalidArgument)"
proof (cases "- (2 ^ 63) \<le> snum bs \<and> snum bs < 2 ^ 63")
  case fits: True
  let ?w = "InlineBitmap_GetWord b 0"
  let ?r = "if Bits_msb b \<and> bm_count b < 64 then ?w OR push_bit (bm_count b) (-1) else ?w"
  have "bit ?r i = bit (of_int (snum bs) :: uint64) i" if "i < 64" for i
  proof (cases "i < length bs")
    case True
    from bit_snum_low [OF True] True that rep_GetWord [OF assms that True] rep_count [OF assms] show ?thesis
      by (auto simp: bit_or_iff bit_not_iff bit_mask_iff bit_of_int_iff)
  next
    case False
    then have short: "length bs < 64" using that by simp
    have "\<not> bit ?w i"
    proof -
      have "unat ?w < 2 ^ length bs" using short by (simp add: unat_GetWord_take [OF assms])
      then show ?thesis using False by (simp add: unat_less_exp_iff_bits not_less)
    qed
    moreover have "bit (snum bs) i \<longleftrightarrow> bs \<noteq> [] \<and> last bs"
      using False by (simp add: bit_snum_high)
    ultimately show ?thesis
      using short False that rep_msb [OF assms] rep_count [OF assms]
      by (auto simp: bit_or_iff bit_not_iff bit_mask_iff bit_of_int_iff)
  qed
  then have "?r = of_int (snum bs)" by (simp add: word64_eq_iff_bits)
  with fits assms show ?thesis
    by (simp add: Bits_ToInt64_def Bits_FitsInInt64_def rep_FitsInNBitsSigned Let_def)
next
  case False
  with assms show ?thesis
    by (simp add: Bits_ToInt64_def Bits_FitsInInt64_def rep_FitsInNBitsSigned)
qed

lemma returns_Slice [bits_rep]:
  assumes "rep b bs" and "start + width \<le> length bs"
  shows "returns (Bits_Slice b start width) (take width (drop start bs))"
proof -
  let ?r = "fold (\<lambda>i result. if Bits_Get b (start + i) then InlineBitmap_Set result i True else result)
    [0..<width] (Bits_new width)"
  note loop = bm.fold_set [where b = "Bits_new width" and idxs = "[0..<width]" and off = 0
      and p = "\<lambda>i. Bits_Get b (start + i)" and v = "\<lambda>_. True", unfolded add_0_right]
  have wf: "wf_bitmap (Bits_new width)" and cnt: "bm_count (Bits_new width) = width"
    using rep_new [of width] by (auto simp: rep_def Bits_new_def)
  have "rep ?r (take width (drop start bs))"
  proof (rule repI)
    show "wf_bitmap ?r" using loop(1) wf cnt by simp
    show "bm_count ?r = length (take width (drop start bs))"
      using loop(2) wf cnt assms(2) by simp
    show "Bits_Get ?r i = take width (drop start bs) ! i"
      if "i < length (take width (drop start bs))" for i
      using loop(3) [of i] wf cnt that assms rep_get [OF assms(1), of "start + i"]
      by (simp add: Bits_new_def)
  qed
  with assms show ?thesis by (simp add: Bits_Slice_def rep_count)
qed

section \<open>Ropes\<close>

definition rope_holds :: "bits_rope \<Rightarrow> nat \<Rightarrow> bool list \<Rightarrow> bool" where
  "rope_holds rope n bs \<longleftrightarrow>
     wf_bitmap (rope_bitmap rope) \<and> bm_count (rope_bitmap rope) = n \<and>
     rope_index rope = length bs \<and> length bs \<le> n \<and>
     (\<forall>i<length bs. InlineBitmap_Get (rope_bitmap rope) i = bs ! i)"

lemma rope_new: "rope_holds (BitsRope n) n []"
  by (simp add: rope_holds_def BitsRope_def)

lemma rope_push_back:
  assumes "rope_holds rope n bs" and "rep b cs" and "length bs + length cs \<le> n"
  shows "rope_holds (BitsRope_push_back rope b) n (bs @ cs)"
proof -
  note loop = bm.fill_loop [where b = "rope_bitmap rope" and off = "rope_index rope"
      and n = "length cs" and v = "\<lambda>i. Bits_Get b i"]
  show ?thesis
    using assms loop
    by (auto simp: rope_holds_def BitsRope_push_back_def rep_count rep_get nth_append)
qed

lemma rope_push_bit:
  assumes "rope_holds rope n bs" and "length bs < n"
  shows "rope_holds (BitsRope_push_bit rope v) n (bs @ [v])"
  using assms bm.get_set [of "rope_bitmap rope" "length bs" _ v] bm.invar_set
  by (auto simp: rope_holds_def BitsRope_push_bit_def nth_append less_Suc_eq)

lemma rope_Build: "rope_holds rope n bs \<Longrightarrow> length bs = n \<Longrightarrow> returns (BitsRope_Build rope) bs"
  by (auto simp: rope_holds_def BitsRope_Build_def intro!: repI)

section \<open>Bytes\<close>

lemma byte_count_rep: "rep b bs \<Longrightarrow> byte_count b = (length bs + 7) div 8"
  by (simp add: byte_count_eq rep_count)

definition byte_at :: "bool list \<Rightarrow> nat \<Rightarrow> uint8" where
  "byte_at bs k = of_nat (unum (take 8 (drop (8 * k) bs)))"

lemma bit_byte_at: "i < 8 \<Longrightarrow> bit (byte_at bs k) i \<longleftrightarrow> 8 * k + i < length bs \<and> bs ! (8 * k + i)"
  by (auto simp: byte_at_def bit_of_nat_iff bit_unum_iff)

lemma uint8_eqI: "(\<And>i. i < 8 \<Longrightarrow> bit (a :: uint8) i = bit b i) \<Longrightarrow> a = b"
  by (rule bit_word_eqI) simp

lemma bytes_ceil: "(n + 7) div 8 = n div 8 + of_bool (n mod 8 \<noteq> 0)" for n :: nat
proof (cases "n mod 8 = 0")
  case False
  then have "(n + 7) div 8 = (8 * (n div 8 + 1) + (n mod 8 - 1)) div 8"
    using mult_div_mod_eq [of 8 n] by simp
  also have "\<dots> = n div 8 + 1"
    using mod_less_divisor [of 8 n] by (subst div_mult_self4) (simp_all add: less_imp_diff_less)
  finally show ?thesis using False by simp
next
  case True
  then obtain q where "n = 8 * q" by auto
  then show ?thesis by simp
qed

lemma ToBytes_eq:
  assumes "rep b bs"
  shows "Bits_ToBytes b = rev (map (byte_at bs) [0..<(length bs + 7) div 8])"
proof -
  let ?n = "(length bs + 7) div 8"
  let ?buf = "rev (map (InlineBitmap_GetByte b) [0..<?n])"
  have lt: "8 * k + 8 \<le> length bs" if "k < length bs div 8" for k using that by linarith
  have full: "InlineBitmap_GetByte b k = byte_at bs k" if "8 * k + 8 \<le> length bs" for k
    using that by (intro uint8_eqI) (simp add: bit_GetByte bit_byte_at rep_get [OF assms])
  have "(if length bs mod 8 \<noteq> 0 then ?buf[0 := ?buf ! 0 AND ucast (Mask (length bs mod 8))] else ?buf)
      = rev (map (byte_at bs) [0..<?n])"
  proof (cases "length bs mod 8 = 0")
    case True
    then have "?n = length bs div 8" by (simp add: bytes_ceil)
    with lt have "\<And>k. k < ?n \<Longrightarrow> 8 * k + 8 \<le> length bs" by simp
    with True full show ?thesis by simp
  next
    case False
    then have n: "?n = Suc (length bs div 8)" by (simp add: bytes_ceil)
    have "InlineBitmap_GetByte b (length bs div 8) AND ucast (Mask (length bs mod 8)) =
        byte_at bs (length bs div 8)"
    proof (rule uint8_eqI)
      fix i :: nat assume i: "i < 8"
      have idx: "8 * (length bs div 8) + i < length bs \<longleftrightarrow> i < length bs mod 8"
        using mult_div_mod_eq [of 8 "length bs"] by linarith
      have "length bs mod 8 \<le> 64" by (rule order_trans [of _ 7]) simp_all
      then show "bit (InlineBitmap_GetByte b (length bs div 8) AND ucast (Mask (length bs mod 8))) i =
          bit (byte_at bs (length bs div 8)) i"
        using i idx rep_get [OF assms, of "8 * (length bs div 8) + i"]
        by (auto simp: bit_and_iff bit_GetByte bit_byte_at bit_ucast_iff bit_Mask_iff)
    qed
    with False lt full show ?thesis unfolding n by simp
  qed
  then show ?thesis
    by (simp only: Bits_ToBytes_def Let_def byte_count_rep [OF assms] rep_count [OF assms])
qed

lemma FromBytes_loop:
  assumes "wf_bitmap b" and "length bytes \<le> byte_count b"
  shows "\<exists>r. Bits_FromBytes_loop b bytes = Some r \<and> wf_bitmap r \<and> bm_count r = bm_count b \<and>
    (\<forall>j<bm_count b. Bits_Get r j =
      (if j div 8 < length bytes then bit (bytes ! (length bytes - 1 - j div 8)) (j mod 8)
       else Bits_Get b j))"
  using assms
proof (induction bytes arbitrary: b)
  case (Cons y ys)
  let ?b = "InlineBitmap_SetByte b (length ys) y"
  have k: "length ys < byte_count b" using Cons.prems(2) by simp
  have wf: "wf_bitmap ?b" using Cons.prems(1) k by simp
  have "length ys \<le> byte_count ?b" using k by (simp add: byte_count_eq)
  from Cons.IH [OF wf this] obtain r where r: "Bits_FromBytes_loop ?b ys = Some r" "wf_bitmap r"
    "bm_count r = bm_count b"
    "\<forall>j<bm_count b. Bits_Get r j =
      (if j div 8 < length ys then bit (ys ! (length ys - 1 - j div 8)) (j mod 8) else Bits_Get ?b j)"
    by auto
  have "Bits_Get ?b j = (if j div 8 = length ys then bit y (j mod 8) else Bits_Get b j)"
    if "j < bm_count b" for j
    using Get_SetByte [OF _ k that] Cons.prems(1) by (simp add: wf_bitmap_def)
  with r k show ?case
    by (auto simp: nth_Cons' less_Suc_eq) 
qed simp

lemma returns_FromBytes [bits_rep]:
  assumes "length bytes = (n + 7) div 8"
  shows "returns (Bits_FromBytes bytes n)
    (map (\<lambda>j. bit (bytes ! (length bytes - 1 - j div 8)) (j mod 8)) [0..<n])"
proof -
  have len: "n \<le> length bytes * 8" and byte: "\<And>j. j < n \<Longrightarrow> j div 8 < length bytes"
    using assms by (linarith, simp)
  have "length bytes \<le> byte_count (InlineBitmap n False)"
    using assms by (simp add: byte_count_eq)
  from FromBytes_loop [OF wf_new this] byte show ?thesis
    by (auto simp: Bits_FromBytes_def len intro!: repI)
qed

lemma FromBytes_ToBytes:
  assumes "rep b bs"
  shows "returns (Bits_FromBytes (Bits_ToBytes b) (length bs)) bs"
proof -
  let ?n = "(length bs + 7) div 8"
  have "map (\<lambda>j. bit (Bits_ToBytes b ! (?n - 1 - j div 8)) (j mod 8)) [0..<length bs] = bs"
  proof (rule nth_equalityI)
    fix j assume j: "j < length (map (\<lambda>j. bit (Bits_ToBytes b ! (?n - 1 - j div 8)) (j mod 8)) [0..<length bs])"
    then have k: "j div 8 < ?n" by simp
    then have "Bits_ToBytes b ! (?n - 1 - j div 8) = byte_at bs (j div 8)"
      by (simp add: ToBytes_eq [OF assms] rev_nth)
    with j show "map (\<lambda>j. bit (Bits_ToBytes b ! (?n - 1 - j div 8)) (j mod 8)) [0..<length bs] ! j = bs ! j"
      by (simp add: bit_byte_at)
  qed simp
  with returns_FromBytes [of "Bits_ToBytes b" "length bs"] show ?thesis
    by (simp add: ToBytes_eq [OF assms])
qed

subsection \<open>The number a byte string spells\<close>

definition be_val :: "uint8 list \<Rightarrow> nat" where
  "be_val bytes = horner_sum unat 256 (rev bytes)"

definition le_bits :: "uint8 list \<Rightarrow> bool list" where
  "le_bits ys = concat (map (\<lambda>y. map (bit y) [0..<8]) ys)"

lemma unum_byte_bits: "unum (map (bit (y :: uint8)) [0..<8]) = unat y"
proof -
  have "map (bit y) [0..<8] = map (bit (unat y)) [0..<8]" by (simp add: bit_unsigned_iff)
  then have "unum (map (bit y) [0..<8]) = take_bit 8 (unat y)"
    by (simp only: horner_sum_bit_eq_take_bit)
  also have "\<dots> = unat y" using unsigned_less [of y, where 'a = nat]
    by (simp add: take_bit_nat_eq_self)
  finally show ?thesis .
qed

lemma horner_bytes_eq: "horner_sum unat 256 ys = unum (le_bits ys)"
proof (induction ys)
  case (Cons y ys)
  have "le_bits (y # ys) = map (bit y) [0..<8] @ le_bits ys" by (simp add: le_bits_def)
  then have "unum (le_bits (y # ys)) = unum (map (bit y) [0..<8]) + 2 ^ 8 * unum (le_bits ys)"
    by (simp only: unum_append) simp
  with Cons show ?case by (simp add: unum_byte_bits)
qed (simp add: le_bits_def)

lemma length_le_bits [simp]: "length (le_bits ys) = 8 * length ys"
  by (induction ys) (simp_all add: le_bits_def)

lemma nth_le_bits: "j < 8 * length ys \<Longrightarrow> le_bits ys ! j = bit (ys ! (j div 8)) (j mod 8)"
proof (induction ys arbitrary: j)
  case (Cons y ys)
  have split: "le_bits (y # ys) = map (bit y) [0..<8] @ le_bits ys" by (simp add: le_bits_def)
  show ?case
  proof (cases "j < 8")
    case True
    then show ?thesis by (simp add: split nth_append)
  next
    case False
    have "le_bits ys ! (j - 8) = bit (ys ! ((j - 8) div 8)) ((j - 8) mod 8)"
      using Cons.prems False by (intro Cons.IH) simp
    moreover have "j div 8 = Suc ((j - 8) div 8)" "(j - 8) mod 8 = j mod 8"
      using False by (simp_all add: le_div_geq le_mod_geq)
    ultimately show ?thesis using False by (simp add: split nth_append)
  qed
qed simp

lemma bit_be_val:
  "bit (be_val bytes) j \<longleftrightarrow>
     j div 8 < length bytes \<and> bit (bytes ! (length bytes - 1 - j div 8)) (j mod 8)"
proof -
  have "bit (be_val bytes) j \<longleftrightarrow> j < 8 * length bytes \<and> le_bits (rev bytes) ! j"
    by (simp add: be_val_def horner_bytes_eq bit_unum_iff)
  moreover have "j < 8 * length bytes \<longleftrightarrow> j div 8 < length bytes"
    by (simp add: div_less_iff_less_mult mult.commute)
  ultimately show ?thesis
    using nth_le_bits [of j "rev bytes"] by (auto simp: rev_nth)
qed

lemma returns_FromBytes_val:
  assumes "length bytes = (n + 7) div 8"
  shows "returns (Bits_FromBytes bytes n) (nat_bl n (be_val bytes))"
proof -
  have "j div 8 < length bytes" if "j < n" for j using assms that by simp
  then have "map (\<lambda>j. bit (bytes ! (length bytes - 1 - j div 8)) (j mod 8)) [0..<n] =
      nat_bl n (be_val bytes)"
    by (simp add: list_eq_iff_nth_eq bit_be_val)
  with returns_FromBytes [OF assms] show ?thesis by simp
qed

lemma be_val_bytes_of:
  "be_val (rev (map (byte_at bs) [0..<(length bs + 7) div 8])) = unum bs"
proof -
  let ?n = "(length bs + 7) div 8"
  have "bit (be_val (rev (map (byte_at bs) [0..<?n]))) j = bit (unum bs) j" for j
  proof (cases "j div 8 < ?n")
    case True
    then have "rev (map (byte_at bs) [0..<?n]) ! (?n - 1 - j div 8) = byte_at bs (j div 8)"
      by (simp add: rev_nth)
    with True show ?thesis by (simp add: bit_be_val bit_unum_iff bit_byte_at)
  next
    case False
    moreover from False have "\<not> j < length bs" using div_le_mono [of "j + 8" "length bs + 7" 8] by auto
    ultimately show ?thesis by (simp add: bit_be_val bit_unum_iff)
  qed
  then show ?thesis by (simp add: bit_eq_iff)
qed

lemma be_val_ToBytes: "rep b bs \<Longrightarrow> be_val (Bits_ToBytes b) = unum bs"
  by (simp only: ToBytes_eq be_val_bytes_of)

lemma length_ToBytes: "rep b bs \<Longrightarrow> length (Bits_ToBytes b) = (length bs + 7) div 8"
  by (simp add: ToBytes_eq)

section \<open>Properties\<close>

text \<open>\<open>UBitsWithStatus\<close> and \<open>SBitsWithStatus\<close> succeed exactly when the 64-bit value fits in the
  width as an unsigned (two's complement) number, and then hold that number; otherwise they
  return InvalidArgument.\<close>

lemma word_constructors_exact:
  "(if unat v < 2 ^ n then \<exists>b. UBitsWithStatus v n = Inr b \<and> rep b (nat_bl n (unat v))
    else UBitsWithStatus v n = Inl InvalidArgument) \<and>
   (if v = 0 \<or> (n > 0 \<and> - (2 ^ (n - 1)) \<le> sint v \<and> sint v < 2 ^ (n - 1))
    then \<exists>b. SBitsWithStatus v n = Inr b \<and> rep b (int_bl n (sint v))
    else SBitsWithStatus v n = Inl InvalidArgument)"
  using UBitsWithStatus_ok [of v n] UBitsWithStatus_error [of v n]
    SBitsWithStatus_ok [of v n] SBitsWithStatus_error [of v n]
  by (intro conjI; split if_split) blast+

text \<open>C31: \<open>ToUint64\<close> and \<open>ToInt64\<close> return the unsigned and the two's complement value of a bit
  vector of any width when it fits in 64 bits, and InvalidArgument otherwise.\<close>

theorem word_conversions_exact:
  assumes "rep b bs"
  shows "Bits_ToUint64 b = (if unum bs < 2 ^ 64 then Inr (of_nat (unum bs)) else Inl InvalidArgument) \<and>
    Bits_ToInt64 b =
      (if - (2 ^ 63) \<le> snum bs \<and> snum bs < 2 ^ 63 then Inr (of_int (snum bs)) else Inl InvalidArgument)"
  using rep_ToUint64 [OF assms] rep_ToInt64 [OF assms] by simp

theorem word_conversions_exact_witness:
  "Bits_ToUint64 (Bits_FromSpan [True, False, True]) = Inr 5 \<and>
   Bits_ToInt64 (Bits_FromSpan [True, False, True]) = Inr (-3)"
  using word_conversions_exact [OF rep_FromSpan, of "[True, False, True]"]
  by (simp add: snum_def)

text \<open>C30: \<open>ToBytes\<close> is the big-endian byte image of the value, padded with zero bits, and
  \<open>FromBytes\<close> reads it back.\<close>

theorem bytes_round_trip:
  assumes "rep b bs"
  shows "returns (Bits_FromBytes (Bits_ToBytes b) (length bs)) bs \<and>
    length (Bits_ToBytes b) = (length bs + 7) div 8 \<and> be_val (Bits_ToBytes b) = unum bs"
  using FromBytes_ToBytes [OF assms] length_ToBytes [OF assms] be_val_ToBytes [OF assms] by simp

theorem bytes_round_trip_witness:
  "returns (Bits_FromBytes (Bits_ToBytes (Bits_FromSpan (replicate 9 True))) 9) (replicate 9 True) \<and>
   length (Bits_ToBytes (Bits_FromSpan (replicate 9 True))) = 2"
  using bytes_round_trip [OF rep_FromSpan, of "replicate 9 True"] by simp

end
