(* ===== verification/Xls_Big_Int.thy ===== *)
theory Xls_Big_Int
  imports Xls_Bits
begin

text \<open>
  \<open>xls/ir/big_int.{h,cc}\<close>: arbitrary-precision integers on top of BoringSSL's BIGNUM.

  The \<open>BN_*\<close> functions are not part of the repository: they are the fields of a record
  \<open>bn_api\<close> that every operation takes as an argument, and the locale \<open>bignum\<close> states their
  documented behaviour (\<open>openssl/bn.h\<close>) through the integer \<open>num b\<close> that a \<open>BIGNUM\<close> denotes.
  \<open>int_bn\<close> is an instance on HOL integers. \<open>BN_div\<close> truncates and its remainder has the sign
  of the numerator; \<open>BN_bn2bin_padded\<close> fails when the magnitude does not fit.
\<close>

section \<open>The BIGNUM interface\<close>

record 'b bn_api =
  BN_init :: 'b
  BN_bin2bn :: "uint8 list \<Rightarrow> 'b"
  BN_bn2bin_padded :: "nat \<Rightarrow> 'b \<Rightarrow> uint8 list option"
  BN_is_zero :: "'b \<Rightarrow> bool"
  BN_is_negative :: "'b \<Rightarrow> bool"
  BN_set_negative :: "'b \<Rightarrow> bool \<Rightarrow> 'b"
  BN_add_word :: "'b \<Rightarrow> uint64 \<Rightarrow> 'b"
  BN_sub_word :: "'b \<Rightarrow> uint64 \<Rightarrow> 'b"
  BN_num_bits :: "'b \<Rightarrow> nat"
  BN_num_bytes :: "'b \<Rightarrow> nat"
  BN_add :: "'b \<Rightarrow> 'b \<Rightarrow> 'b"
  BN_sub :: "'b \<Rightarrow> 'b \<Rightarrow> 'b"
  BN_mul :: "'b \<Rightarrow> 'b \<Rightarrow> 'b"
  BN_div :: "'b \<Rightarrow> 'b \<Rightarrow> 'b \<times> 'b"
  BN_cmp :: "'b \<Rightarrow> 'b \<Rightarrow> int"

fun bit_length :: "nat \<Rightarrow> nat" where
  "bit_length n = (if n = 0 then 0 else Suc (bit_length (n div 2)))"

declare bit_length.simps [simp del]

locale bignum =
  fixes B :: "'b bn_api" and num :: "'b \<Rightarrow> int"
  assumes num_init: "num (BN_init B) = 0"
    and num_bin2bn: "num (BN_bin2bn B bytes) = int (be_val bytes)"
    and bn2bin_padded: "nat \<bar>num a\<bar> < 256 ^ len \<Longrightarrow>
      \<exists>bytes. BN_bn2bin_padded B len a = Some bytes \<and> length bytes = len \<and> be_val bytes = nat \<bar>num a\<bar>"
    and bn2bin_padded_fails: "\<not> nat \<bar>num a\<bar> < 256 ^ len \<Longrightarrow> BN_bn2bin_padded B len a = None"
    and is_zero: "BN_is_zero B a \<longleftrightarrow> num a = 0"
    and is_negative: "BN_is_negative B a \<longleftrightarrow> num a < 0"
    and num_set_negative: "num (BN_set_negative B a neg) = (if neg then - \<bar>num a\<bar> else \<bar>num a\<bar>)"
    and num_add_word: "num (BN_add_word B a w) = num a + int (unat w)"
    and num_sub_word: "num (BN_sub_word B a w) = num a - int (unat w)"
    and num_bits: "BN_num_bits B a = bit_length (nat \<bar>num a\<bar>)"
    and num_bytes: "BN_num_bytes B a = (BN_num_bits B a + 7) div 8"
    and num_add: "num (BN_add B a b) = num a + num b"
    and num_sub: "num (BN_sub B a b) = num a - num b"
    and num_mul: "num (BN_mul B a b) = num a * num b"
    and num_quot: "num b \<noteq> 0 \<Longrightarrow> num (fst (BN_div B a b)) = num a sdiv num b"
    and num_rem: "num b \<noteq> 0 \<Longrightarrow> num (snd (BN_div B a b)) = num a smod num b"
    and cmp_zero: "BN_cmp B a b = 0 \<longleftrightarrow> num a = num b"
    and cmp_neg: "BN_cmp B a b < 0 \<longleftrightarrow> num a < num b"

section \<open>The BigInt class\<close>

definition BigInt_eq :: "'b bn_api \<Rightarrow> 'b \<Rightarrow> 'b \<Rightarrow> bool" where
  "BigInt_eq B lhs rhs \<longleftrightarrow> BN_cmp B lhs rhs = 0"

definition BigInt_MakeUnsigned :: "'b bn_api \<Rightarrow> bits \<Rightarrow> 'b" where
  "BigInt_MakeUnsigned B b = BN_bin2bn B (Bits_ToBytes b)"

definition BigInt_MakeSigned :: "'b bn_api \<Rightarrow> bits \<Rightarrow> 'b" where
  "BigInt_MakeSigned B b =
     (if bm_count b = 0 \<or> \<not> Bits_msb b then BigInt_MakeUnsigned B b
      else
        let byte_vector = map (\<lambda>byte. NOT byte) (Bits_ToBytes b);
            bits_in_msb = bm_count b mod 8;
            byte_vector =
              (if bits_in_msb \<noteq> 0
               then byte_vector[0 := byte_vector ! 0 AND ucast (Mask bits_in_msb)]
               else byte_vector)
        in BN_set_negative B (BN_add_word B (BN_bin2bn B byte_vector) 1) True)"

definition BigInt_Negate :: "'b bn_api \<Rightarrow> 'b \<Rightarrow> 'b" where
  "BigInt_Negate B input = BN_set_negative B input (\<not> BN_is_negative B input)"

definition BigInt_SignedBitCount :: "'b bn_api \<Rightarrow> 'b \<Rightarrow> nat" where
  "BigInt_SignedBitCount B a =
     (if BN_is_zero B a then 0
      else if BN_is_negative B a
      then BN_num_bits B (BN_sub_word B (BigInt_Negate B a) 1) + 1
      else BN_num_bits B a + 1)"

definition BigInt_UnsignedBitCount :: "'b bn_api \<Rightarrow> 'b \<Rightarrow> nat option" where
  "BigInt_UnsignedBitCount B a = do {
     CHECK (\<not> BN_is_negative B a);
     Some (BN_num_bits B a)
   }"

definition BigInt_ToSignedBits :: "'b bn_api \<Rightarrow> 'b \<Rightarrow> bits option" where
  "BigInt_ToSignedBits B a =
     (if BN_is_zero B a then Some (Bits_new 0)
      else do {
        let is_negative = BN_is_negative B a;
        let magnitude = BN_set_negative B a False;
        let decremented_if_negative = (if is_negative then BN_sub_word B magnitude 1 else magnitude);
        byte_vector \<leftarrow> BN_bn2bin_padded B (BN_num_bytes B decremented_if_negative) decremented_if_negative;
        let byte_vector = (if is_negative then map (\<lambda>byte. NOT byte) byte_vector else byte_vector);
        let result_bit_count = BigInt_SignedBitCount B a;
        low \<leftarrow> Bits_FromBytes byte_vector (result_bit_count - 1);
        high \<leftarrow> (if is_negative then Bits_AllOnes 1 else Some (Bits_new 1));
        BitsRope_Build (BitsRope_push_back (BitsRope_push_back (BitsRope result_bit_count) low) high)
      })"

definition BigInt_ToUnsignedBits :: "'b bn_api \<Rightarrow> 'b \<Rightarrow> bits option" where
  "BigInt_ToUnsignedBits B a = do {
     CHECK (\<not> BN_is_negative B a);
     byte_vector \<leftarrow> BN_bn2bin_padded B (BN_num_bytes B a) a;
     Bits_FromBytes byte_vector (BN_num_bits B a)
   }"

text \<open>The outer \<open>option\<close> is an abort inside the conversion, the sum the returned status.\<close>

definition BigInt_ToSignedBitsWithBitCount :: "'b bn_api \<Rightarrow> 'b \<Rightarrow> nat \<Rightarrow> bits statusor option" where
  "BigInt_ToSignedBitsWithBitCount B a bit_count =
     (let min_bit_count = BigInt_SignedBitCount B a
      in if bit_count < min_bit_count then Some (Inl InvalidArgument)
         else do {
           bits \<leftarrow> BigInt_ToSignedBits B a;
           high \<leftarrow> (if BN_is_negative B a then Bits_AllOnes (bit_count - min_bit_count)
                    else Some (Bits_new (bit_count - min_bit_count)));
           r \<leftarrow> BitsRope_Build (BitsRope_push_back (BitsRope_push_back (BitsRope bit_count) bits) high);
           Some (Inr r)
         })"

definition BigInt_ToUnsignedBitsWithBitCount :: "'b bn_api \<Rightarrow> 'b \<Rightarrow> nat \<Rightarrow> bits statusor option" where
  "BigInt_ToUnsignedBitsWithBitCount B a bit_count = do {
     min_bit_count \<leftarrow> BigInt_UnsignedBitCount B a;
     if bit_count < min_bit_count then Some (Inl InvalidArgument)
     else do {
       bits \<leftarrow> BigInt_ToUnsignedBits B a;
       r \<leftarrow> BitsRope_Build (BitsRope_push_back (BitsRope_push_back (BitsRope bit_count) bits)
              (Bits_new (bit_count - min_bit_count)));
       Some (Inr r)
     }
   }"

definition BigInt_Add :: "'b bn_api \<Rightarrow> 'b \<Rightarrow> 'b \<Rightarrow> 'b" where
  "BigInt_Add B lhs rhs = BN_add B lhs rhs"

definition BigInt_Sub :: "'b bn_api \<Rightarrow> 'b \<Rightarrow> 'b \<Rightarrow> 'b" where
  "BigInt_Sub B lhs rhs = BN_sub B lhs rhs"

definition BigInt_Mul :: "'b bn_api \<Rightarrow> 'b \<Rightarrow> 'b \<Rightarrow> 'b" where
  "BigInt_Mul B lhs rhs = BN_mul B lhs rhs"

definition BigInt_Div :: "'b bn_api \<Rightarrow> 'b \<Rightarrow> 'b \<Rightarrow> 'b" where
  "BigInt_Div B lhs rhs = fst (BN_div B lhs rhs)"

definition BigInt_Mod :: "'b bn_api \<Rightarrow> 'b \<Rightarrow> 'b \<Rightarrow> 'b" where
  "BigInt_Mod B lhs rhs = snd (BN_div B lhs rhs)"

definition BigInt_LessThan :: "'b bn_api \<Rightarrow> 'b \<Rightarrow> 'b \<Rightarrow> bool" where
  "BigInt_LessThan B lhs rhs \<longleftrightarrow> BN_cmp B lhs rhs < 0"

section \<open>Bit lengths\<close>

lemma bit_length_0 [simp]: "bit_length 0 = 0"
  by (simp add: bit_length.simps)

lemma bit_length_le_iff: "bit_length n \<le> k \<longleftrightarrow> n < 2 ^ k"
proof (induction n arbitrary: k rule: bit_length.induct)
  case (1 n)
  show ?case
  proof (cases "n = 0")
    case False
    show ?thesis
    proof (cases k)
      case (Suc j)
      have "bit_length n \<le> k \<longleftrightarrow> n div 2 < 2 ^ j"
        using False Suc "1.IH" [OF False] by (subst bit_length.simps) simp
      then show ?thesis using Suc by auto
    qed (use False in \<open>simp add: bit_length.simps\<close>)
  qed simp
qed

lemma less_exp_bit_length [simp]: "n < 2 ^ bit_length n"
  using bit_length_le_iff [of n "bit_length n"] by simp

lemma bit_length_fits_bytes: "n < 256 ^ ((bit_length n + 7) div 8)"
proof -
  have "(2::nat) ^ bit_length n \<le> 2 ^ (8 * ((bit_length n + 7) div 8))"
    by (rule power_increasing) simp_all
  also have "\<dots> = 256 ^ ((bit_length n + 7) div 8)" by (simp add: power_mult)
  finally show ?thesis using less_exp_bit_length [of n] by linarith
qed

section \<open>An instance on HOL integers\<close>

definition nat_bytes :: "nat \<Rightarrow> nat \<Rightarrow> uint8 list" where
  "nat_bytes len n = rev (map (\<lambda>k. of_nat (n div 256 ^ k)) [0..<len])"

definition int_bn :: "int bn_api" where
  "int_bn = \<lparr>
     BN_init = 0,
     BN_bin2bn = (\<lambda>bytes. int (be_val bytes)),
     BN_bn2bin_padded = (\<lambda>len a. if nat \<bar>a\<bar> < 256 ^ len then Some (nat_bytes len (nat \<bar>a\<bar>)) else None),
     BN_is_zero = (\<lambda>a. a = 0),
     BN_is_negative = (\<lambda>a. a < 0),
     BN_set_negative = (\<lambda>a neg. if neg then - \<bar>a\<bar> else \<bar>a\<bar>),
     BN_add_word = (\<lambda>a w. a + int (unat w)),
     BN_sub_word = (\<lambda>a w. a - int (unat w)),
     BN_num_bits = (\<lambda>a. bit_length (nat \<bar>a\<bar>)),
     BN_num_bytes = (\<lambda>a. (bit_length (nat \<bar>a\<bar>) + 7) div 8),
     BN_add = (+), BN_sub = (-), BN_mul = (*),
     BN_div = (\<lambda>a b. (a sdiv b, a smod b)),
     BN_cmp = (\<lambda>a b. sgn (a - b)) \<rparr>"

lemma length_nat_bytes [simp]: "length (nat_bytes len n) = len"
  by (simp add: nat_bytes_def)

lemma be_val_nat_bytes: "n < 256 ^ len \<Longrightarrow> be_val (nat_bytes len n) = n"
proof (rule bit_eqI)
  fix j assume n: "n < 256 ^ len"
  have "n < 2 ^ (8 * len)" using n by (simp add: power_mult)
  then have high: "bit n j \<longrightarrow> j < 8 * len"
    by (metis bit_take_bit_iff take_bit_nat_eq_self)
  have div: "n div 256 ^ k = drop_bit (8 * k) n" for k
    by (simp add: drop_bit_eq_div power_mult)
  have "8 * (j div 8) + j mod 8 = j" by simp
  then show "bit (be_val (nat_bytes len n)) j = bit n j"
    using high
    by (auto simp: bit_be_val nat_bytes_def rev_nth bit_of_nat_iff div bit_drop_bit_eq)
qed

interpretation int_bignum: bignum int_bn "\<lambda>x. x"
  by unfold_locales
    (auto simp: int_bn_def be_val_nat_bytes sgn_if nat_less_iff)

section \<open>Conversions\<close>

lemma unum_map_Not: "unum (map Not bs) + 1 + unum bs = 2 ^ length bs"
proof (induction bs)
  case (Cons b bs)
  then show ?case by (cases b) simp_all
qed simp

lemma byte_at_Not_full:
  "8 * k + 8 \<le> length bs \<Longrightarrow> NOT (byte_at bs k) = byte_at (map Not bs) k"
  by (rule uint8_eqI) (simp add: bit_not_iff bit_byte_at)

lemma byte_at_Not_last:
  assumes "length bs mod 8 \<noteq> 0"
  shows "NOT (byte_at bs (length bs div 8)) AND ucast (Mask (length bs mod 8)) =
    byte_at (map Not bs) (length bs div 8)"
proof (rule uint8_eqI)
  fix i :: nat assume i: "i < 8"
  have "8 * (length bs div 8) + i < length bs \<longleftrightarrow> i < length bs mod 8"
    using mult_div_mod_eq [of 8 "length bs"] by linarith
  moreover have "length bs mod 8 \<le> 64" by (rule order_trans [of _ 7]) simp_all
  ultimately show "bit (NOT (byte_at bs (length bs div 8)) AND ucast (Mask (length bs mod 8))) i =
      bit (byte_at (map Not bs) (length bs div 8)) i"
    using i by (auto simp: bit_and_iff bit_not_iff bit_byte_at bit_ucast_iff bit_Mask_iff)
qed

lemma inverted_bytes:
  assumes "rep b bs"
  shows "(let ys = map (\<lambda>y. NOT y) (Bits_ToBytes b)
          in if length bs mod 8 \<noteq> 0 then ys[0 := ys ! 0 AND ucast (Mask (length bs mod 8))] else ys) =
    rev (map (byte_at (map Not bs)) [0..<(length bs + 7) div 8])"
proof (cases "length bs mod 8 = 0")
  case True
  then have n: "(length bs + 7) div 8 = length bs div 8" by (simp add: bytes_ceil)
  have "8 * k + 8 \<le> length bs" if "k < length bs div 8" for k using that by linarith
  with True byte_at_Not_full show ?thesis
    by (simp add: ToBytes_eq [OF assms] n rev_map o_def)
next
  case False
  then have n: "(length bs + 7) div 8 = Suc (length bs div 8)" by (simp add: bytes_ceil)
  have "8 * k + 8 \<le> length bs" if "k < length bs div 8" for k using that by linarith
  with False byte_at_Not_full byte_at_Not_last [OF False] show ?thesis
    by (simp add: ToBytes_eq [OF assms] n rev_map o_def)
qed

lemma be_val_map_NOT:
  assumes "m < 2 ^ k" and "length bytes = (k + 7) div 8" and "be_val bytes = m"
  shows "nat_bl k (be_val (map (\<lambda>y. NOT y) bytes)) = map Not (nat_bl k m)"
proof (rule nth_equalityI)
  fix j assume "j < length (nat_bl k (be_val (map (\<lambda>y. NOT y) bytes)))"
  then have j: "j < k" by simp
  then have b: "j div 8 < length bytes" using assms(2) by simp
  have "bit m j \<longleftrightarrow> bit (bytes ! (length bytes - 1 - j div 8)) (j mod 8)"
    using b bit_be_val [of bytes j] assms(3) by simp
  with j b show "nat_bl k (be_val (map (\<lambda>y. NOT y) bytes)) ! j = map Not (nat_bl k m) ! j"
    by (simp add: bit_be_val bit_not_iff)
qed simp

lemma int_bl_negative:
  assumes "m < 2 ^ k"
  shows "int_bl (k + 1) (- int m - 1) = map Not (nat_bl k m) @ [True]"
proof (rule nth_equalityI)
  fix j assume "j < length (int_bl (k + 1) (- int m - 1))"
  then have j: "j < k + 1" by simp
  have neg: "- int m - 1 = NOT (int m)" by (simp add: not_int_def)
  have "\<not> bit m k" using assms by (metis bit_take_bit_iff less_irrefl take_bit_nat_eq_self)
  with j show "int_bl (k + 1) (- int m - 1) ! j = (map Not (nat_bl k m) @ [True]) ! j"
    by (auto simp: neg bit_not_iff bit_of_nat_iff nth_append less_Suc_eq)
qed simp

lemma int_bl_positive:
  assumes "m < 2 ^ k"
  shows "int_bl (k + 1) (int m) = nat_bl k m @ [False]"
proof -
  have "\<not> bit m k" using assms by (metis bit_take_bit_iff less_irrefl take_bit_nat_eq_self)
  then show ?thesis by (auto simp: list_eq_iff_nth_eq nth_append less_Suc_eq)
qed

text \<open>The minimal two's complement width, as \<open>SignedBitCount\<close> computes it.\<close>

definition signed_width :: "int \<Rightarrow> nat" where
  "signed_width v = (if v = 0 then 0 else if v < 0 then bit_length (nat (- v - 1)) + 1
                     else bit_length (nat v) + 1)"

lemma signed_width_le_iff:
  assumes "v \<noteq> 0"
  shows "signed_width v \<le> n \<longleftrightarrow> n > 0 \<and> - (2 ^ (n - 1)) \<le> v \<and> v < 2 ^ (n - 1)"
proof -
  have "bit_length m + 1 \<le> n \<longleftrightarrow> n > 0 \<and> int m < 2 ^ (n - 1)" for m
  proof -
    have "bit_length m + 1 \<le> n \<longleftrightarrow> n > 0 \<and> bit_length m \<le> n - 1" by auto
    then show ?thesis unfolding bit_length_le_iff
      by (metis of_nat_less_iff of_nat_numeral of_nat_power)
  qed
  from this [of "nat (- v - 1)"] this [of "nat v"] assms show ?thesis
    by (cases "v < 0") (auto simp: signed_width_def intro: order_trans [of _ 0])
qed

lemma snum_signed_width: "snum (int_bl (signed_width v) v) = v"
proof (cases "v = 0")
  case False
  then show ?thesis using signed_width_le_iff [OF False, of "signed_width v"]
    by (intro snum_int_bl) simp_all
qed (simp add: signed_width_def int_bl_def)

context bignum
begin

lemma num_MakeUnsigned: "rep b bs \<Longrightarrow> num (BigInt_MakeUnsigned B b) = int (unum bs)"
  by (simp add: BigInt_MakeUnsigned_def num_bin2bn be_val_ToBytes)

lemma num_MakeSigned:
  assumes "rep b bs"
  shows "num (BigInt_MakeSigned B b) = snum bs"
proof (cases "bs \<noteq> [] \<and> last bs")
  case False
  then show ?thesis
    using assms rep_msb [OF assms]
    by (auto simp: BigInt_MakeSigned_def num_MakeUnsigned rep_count snum_nonneg)
next
  case True
  have "be_val (rev (map (byte_at (map Not bs)) [0..<(length bs + 7) div 8])) = unum (map Not bs)"
    using be_val_bytes_of [of "map Not bs"] by simp
  moreover have "BigInt_MakeSigned B b = BN_set_negative B
      (BN_add_word B (BN_bin2bn B (rev (map (byte_at (map Not bs)) [0..<(length bs + 7) div 8]))) 1) True"
    using True rep_msb [OF assms] inverted_bytes [OF assms]
    by (simp add: BigInt_MakeSigned_def rep_count [OF assms] Let_def)
  ultimately have "num (BigInt_MakeSigned B b) = - (int (unum (map Not bs)) + 1)"
    by (simp add: num_set_negative num_add_word num_bin2bn)
  also have "\<dots> = int (unum bs) - 2 ^ length bs"
  proof -
    have "int (unum (map Not bs)) + 1 + int (unum bs) = 2 ^ length bs"
      using unum_map_Not [of bs] by (metis of_nat_1 of_nat_add of_nat_numeral of_nat_power)
    then show ?thesis by simp
  qed
  finally show ?thesis using True by (simp add: snum_def)
qed

lemma num_Negate: "num (BigInt_Negate B a) = - num a"
  by (simp add: BigInt_Negate_def num_set_negative is_negative)

lemma SignedBitCount_eq: "BigInt_SignedBitCount B a = signed_width (num a)"
  by (auto simp: BigInt_SignedBitCount_def is_zero is_negative num_bits num_sub_word num_Negate
      signed_width_def)

lemma returns_ToUnsignedBits:
  assumes "num a \<ge> 0"
  shows "returns (BigInt_ToUnsignedBits B a) (nat_bl (bit_length (nat (num a))) (nat (num a)))"
proof -
  have "nat \<bar>num a\<bar> < 256 ^ BN_num_bytes B a"
    by (simp only: num_bytes num_bits bit_length_fits_bytes)
  from bn2bin_padded [OF this] obtain bytes where
    "BN_bn2bin_padded B (BN_num_bytes B a) a = Some bytes"
    "length bytes = BN_num_bytes B a" "be_val bytes = nat (num a)"
    using assms by auto
  with returns_FromBytes_val [of bytes "BN_num_bits B a"] assms show ?thesis
    by (simp add: BigInt_ToUnsignedBits_def is_negative num_bytes num_bits)
qed

lemma returns_ToSignedBits:
  "returns (BigInt_ToSignedBits B a) (int_bl (signed_width (num a)) (num a))"
proof (cases "num a = 0")
  case True
  then show ?thesis
    using rep_new [of 0] by (simp add: BigInt_ToSignedBits_def is_zero signed_width_def int_bl_def)
next
  case nz: False
  define neg where "neg = (num a < 0)"
  define d where "d = (if neg then BN_sub_word B (BN_set_negative B a False) 1
                       else BN_set_negative B a False)"
  define m where "m = nat \<bar>num d\<bar>"
  define k where "k = bit_length m"
  have num_d: "num d = (if neg then - num a - 1 else num a)"
    by (auto simp: d_def neg_def num_sub_word num_set_negative)
  have m: "num a = (if neg then - int m - 1 else int m)"
    using nz by (auto simp: m_def num_d neg_def)
  have mk: "m < 2 ^ k" by (simp add: k_def)
  have width: "signed_width (num a) = k + 1"
    using nz by (auto simp: signed_width_def k_def m_def num_d neg_def)
  have bytes_len: "BN_num_bytes B d = (k + 7) div 8"
    by (simp add: num_bytes num_bits k_def m_def)
  have "nat \<bar>num d\<bar> < 256 ^ BN_num_bytes B d"
    by (simp only: num_bytes num_bits bit_length_fits_bytes)
  from bn2bin_padded [OF this] obtain bytes where bytes:
    "BN_bn2bin_padded B (BN_num_bytes B d) d = Some bytes"
    "length bytes = (k + 7) div 8" "be_val bytes = m"
    by (auto simp: bytes_len m_def)
  let ?ys = "if neg then map (\<lambda>y. NOT y) bytes else bytes"
  let ?lo = "if neg then map Not (nat_bl k m) else nat_bl k m"
  have low: "returns (Bits_FromBytes ?ys k) ?lo"
    using returns_FromBytes_val [of ?ys k] bytes(2,3) be_val_map_NOT [OF mk bytes(2,3)]
    by (cases neg) simp_all
  have high: "returns (if neg then Bits_AllOnes 1 else Some (Bits_new 1)) [neg]"
    using returns_AllOnes [of 1] rep_new [of 1] by simp
  have value_bits: "?lo @ [neg] = int_bl (k + 1) (num a)"
    using int_bl_negative [OF mk] int_bl_positive [OF mk] m by (cases neg) simp_all
  show ?thesis
  proof -
    obtain l h where l: "Bits_FromBytes ?ys k = Some l" "rep l ?lo"
      and h: "(if neg then Bits_AllOnes 1 else Some (Bits_new 1)) = Some h" "rep h [neg]"
      using low high by (auto elim!: returns_bindE simp del: One_nat_def)
    have "rope_holds (BitsRope_push_back (BitsRope_push_back (BitsRope (k + 1)) l) h) (k + 1) (?lo @ [neg])"
      by (rule rope_push_back [OF rope_push_back [OF rope_new l(2), simplified] h(2)]) simp_all
    from rope_Build [OF this]
    have "returns (BitsRope_Build (BitsRope_push_back (BitsRope_push_back (BitsRope (k + 1)) l) h))
        (int_bl (k + 1) (num a))"
      by (simp only: value_bits) simp
    moreover have "BigInt_ToSignedBits B a =
        BitsRope_Build (BitsRope_push_back (BitsRope_push_back (BitsRope (k + 1)) l) h)"
      using nz bytes(1) l(1) h(1) unfolding BigInt_ToSignedBits_def SignedBitCount_eq width Let_def
      by (simp add: is_zero is_negative flip: neg_def d_def)
    ultimately show ?thesis by (simp only: width)
  qed
qed

lemma ToSignedBitsWithBitCount_ok:
  assumes "signed_width (num a) \<le> n"
  shows "\<exists>r. BigInt_ToSignedBitsWithBitCount B a n = Some (Inr r) \<and> rep r (int_bl n (num a))"
proof -
  let ?w = "signed_width (num a)"
  let ?low = "int_bl ?w (num a)"
  let ?ext = "replicate (n - ?w) (num a < 0)"
  obtain l where l: "BigInt_ToSignedBits B a = Some l" "rep l ?low"
    using returns_ToSignedBits by (rule returns_bindE)
  have "returns (if num a < 0 then Bits_AllOnes (n - ?w) else Some (Bits_new (n - ?w))) ?ext"
    using returns_AllOnes rep_new by simp
  then obtain h where h:
    "(if num a < 0 then Bits_AllOnes (n - ?w) else Some (Bits_new (n - ?w))) = Some h" "rep h ?ext"
    by (rule returns_bindE)
  have holds: "rope_holds (BitsRope_push_back (BitsRope_push_back (BitsRope n) l) h) n (?low @ ?ext)"
    using assms by (intro rope_push_back [OF rope_push_back [OF rope_new l(2)], simplified] h(2)) simp_all
  have "bit (num a) i \<longleftrightarrow> num a < 0" if "?w \<le> i" for i
    using bit_snum_high [of ?low i] snum_neg_iff [of ?low] that by (simp add: snum_signed_width)
  then have "?low @ ?ext = int_bl n (num a)"
    using assms by (auto simp: list_eq_iff_nth_eq nth_append)
  then obtain r where "BitsRope_Build (BitsRope_push_back (BitsRope_push_back (BitsRope n) l) h) = Some r"
    "rep r (int_bl n (num a))"
    using rope_Build [OF holds] assms by (auto elim: returns_bindE)
  then show ?thesis
    using assms l(1) h(1)
    by (simp add: BigInt_ToSignedBitsWithBitCount_def SignedBitCount_eq is_negative)
qed

lemma ToUnsignedBitsWithBitCount_ok:
  assumes "num a \<ge> 0" and "nat (num a) < 2 ^ n"
  shows "\<exists>r. BigInt_ToUnsignedBitsWithBitCount B a n = Some (Inr r) \<and> rep r (nat_bl n (nat (num a)))"
proof -
  let ?w = "bit_length (nat (num a))"
  let ?low = "nat_bl ?w (nat (num a))"
  let ?ext = "replicate (n - ?w) False"
  have w: "?w \<le> n" using assms(2) by (simp add: bit_length_le_iff)
  obtain l where l: "BigInt_ToUnsignedBits B a = Some l" "rep l ?low"
    using returns_ToUnsignedBits [OF assms(1)] by (rule returns_bindE)
  have holds: "rope_holds (BitsRope_push_back (BitsRope_push_back (BitsRope n) l) (Bits_new (n - ?w))) n (?low @ ?ext)"
    using w by (intro rope_push_back [OF rope_push_back [OF rope_new l(2)], simplified] rep_new) simp_all
  have "unum (?low @ ?ext) = nat (num a)" by (simp add: unum_append)
  then have "?low @ ?ext = nat_bl n (nat (num a))"
    using w by (intro iffD1 [OF unum_eq_iff]) (use assms(2) in simp_all)
  then obtain r where
    "BitsRope_Build (BitsRope_push_back (BitsRope_push_back (BitsRope n) l) (Bits_new (n - ?w))) = Some r"
    "rep r (nat_bl n (nat (num a)))"
    using rope_Build [OF holds] w by (auto elim: returns_bindE)
  then show ?thesis
    using w l(1) assms(1)
    by (simp add: BigInt_ToUnsignedBitsWithBitCount_def BigInt_UnsignedBitCount_def is_negative num_bits)
qed

end

section \<open>Properties\<close>

text \<open>C25: converting a bit vector to a signed \<open>BigInt\<close> and back gives its value in the smallest
  two's complement width that holds it.\<close>

theorem BigInt_signed_round_trip:
  assumes "bignum B num" and "rep b bs"
  shows "returns (BigInt_ToSignedBits B (BigInt_MakeSigned B b)) (int_bl (signed_width (snum bs)) (snum bs)) \<and>
    snum (int_bl (signed_width (snum bs)) (snum bs)) = snum bs \<and> signed_width (snum bs) \<le> length bs"
proof (intro conjI)
  show "returns (BigInt_ToSignedBits B (BigInt_MakeSigned B b)) (int_bl (signed_width (snum bs)) (snum bs))"
    using bignum.returns_ToSignedBits [OF assms(1), of "BigInt_MakeSigned B b"]
    by (simp add: bignum.num_MakeSigned [OF assms])
  show "snum (int_bl (signed_width (snum bs)) (snum bs)) = snum bs" by (rule snum_signed_width)
  show "signed_width (snum bs) \<le> length bs"
  proof (cases "snum bs = 0")
    case False
    then have "bs \<noteq> []" by auto
    from snum_range [OF this] this show ?thesis by (simp add: signed_width_le_iff [OF False])
  qed (simp add: signed_width_def)
qed

theorem BigInt_signed_round_trip_witness:
  "returns (BigInt_ToSignedBits int_bn (BigInt_MakeSigned int_bn (Bits_FromSpan [False, True, True, True])))
     (int_bl (signed_width (-2)) (-2))"
  using BigInt_signed_round_trip [OF int_bignum.bignum_axioms rep_FromSpan, of "[False, True, True, True]"]
  by (simp add: snum_def)

end
