(* ===== verification/Xls_Bits_Ops.thy ===== *)
theory Xls_Bits_Ops
  imports Xls_Big_Int
begin

text \<open>
  \<open>xls/ir/bits_ops.cc\<close>: the operations on \<open>Bits\<close> that give the IR its meaning. Operations on
  at most 64 bits run on machine words, wider ones on bytes or on \<open>BigInt\<close>s; the lemmas state
  one result for both paths. Operations that use \<open>BigInt\<close> take the \<open>BIGNUM\<close> functions as
  their first argument.
\<close>

section \<open>Bitwise operations\<close>

definition bits_bytewise ::
  "(uint64 \<Rightarrow> uint64 \<Rightarrow> uint64) \<Rightarrow> (uint8 \<Rightarrow> uint8 \<Rightarrow> uint8) \<Rightarrow> bits \<Rightarrow> bits \<Rightarrow> bits option" where
  "bits_bytewise word_op byte_op lhs rhs = do {
     CHECK (bm_count lhs = bm_count rhs);
     if bm_count lhs \<le> 64 then do {
       lhs_int \<leftarrow> status_value (Bits_ToUint64 lhs);
       rhs_int \<leftarrow> status_value (Bits_ToUint64 rhs);
       UBits (word_op lhs_int rhs_int) (bm_count lhs)
     }
     else Bits_FromBytes (map2 byte_op (Bits_ToBytes lhs) (Bits_ToBytes rhs)) (bm_count lhs)
   }"

definition bits_And :: "bits \<Rightarrow> bits \<Rightarrow> bits option" where
  "bits_And lhs rhs = bits_bytewise (\<lambda>x y. x AND y) (\<lambda>x y. x AND y) lhs rhs"

definition bits_Or :: "bits \<Rightarrow> bits \<Rightarrow> bits option" where
  "bits_Or lhs rhs = bits_bytewise (\<lambda>x y. x OR y) (\<lambda>x y. x OR y) lhs rhs"

definition bits_Xor :: "bits \<Rightarrow> bits \<Rightarrow> bits option" where
  "bits_Xor lhs rhs = bits_bytewise (\<lambda>x y. x XOR y) (\<lambda>x y. x XOR y) lhs rhs"

definition bits_Nand :: "bits \<Rightarrow> bits \<Rightarrow> bits option" where
  "bits_Nand lhs rhs =
     bits_bytewise (\<lambda>x y. NOT (x AND y) AND Mask (bm_count lhs)) (\<lambda>x y. NOT (x AND y)) lhs rhs"

definition bits_Nor :: "bits \<Rightarrow> bits \<Rightarrow> bits option" where
  "bits_Nor lhs rhs =
     bits_bytewise (\<lambda>x y. NOT (x OR y) AND Mask (bm_count lhs)) (\<lambda>x y. NOT (x OR y)) lhs rhs"

definition bits_Not :: "bits \<Rightarrow> bits option" where
  "bits_Not b =
     (if bm_count b \<le> 64 then do {
        x \<leftarrow> status_value (Bits_ToUint64 b);
        UBits (NOT x AND Mask (bm_count b)) (bm_count b)
      }
      else Bits_FromBytes (map (\<lambda>byte. NOT byte) (Bits_ToBytes b)) (bm_count b))"

text \<open>\<open>operands.at(0)\<close> aborts on an empty span.\<close>

fun bits_accumulate :: "(bits \<Rightarrow> bits \<Rightarrow> bits option) \<Rightarrow> bits \<Rightarrow> bits list \<Rightarrow> bits option" where
  "bits_accumulate f accum [] = Some accum"
| "bits_accumulate f accum (b # bs) = do { r \<leftarrow> f accum b; bits_accumulate f r bs }"

definition bits_nary :: "(bits \<Rightarrow> bits \<Rightarrow> bits option) \<Rightarrow> bits list \<Rightarrow> bits option" where
  "bits_nary f operands = (case operands of [] \<Rightarrow> None | b # bs \<Rightarrow> bits_accumulate f b bs)"

definition bits_NaryAnd :: "bits list \<Rightarrow> bits option" where
  "bits_NaryAnd operands = bits_nary bits_And operands"

definition bits_NaryOr :: "bits list \<Rightarrow> bits option" where
  "bits_NaryOr operands = bits_nary bits_Or operands"

definition bits_NaryXor :: "bits list \<Rightarrow> bits option" where
  "bits_NaryXor operands = bits_nary bits_Xor operands"

definition bits_NaryNand :: "bits list \<Rightarrow> bits option" where
  "bits_NaryNand operands = do { accum \<leftarrow> bits_nary bits_And operands; bits_Not accum }"

definition bits_NaryNor :: "bits list \<Rightarrow> bits option" where
  "bits_NaryNor operands = do { accum \<leftarrow> bits_nary bits_Or operands; bits_Not accum }"

definition bits_AndReduce :: "bits \<Rightarrow> bits option" where
  "bits_AndReduce operand = (if Bits_IsAllOnes operand then UBits 1 1 else UBits 0 1)"

definition bits_OrReduce :: "bits \<Rightarrow> bits option" where
  "bits_OrReduce operand = (if Bits_IsZero operand then UBits 0 1 else UBits 1 1)"

definition bits_XorReduce :: "bits \<Rightarrow> bits option" where
  "bits_XorReduce operand = (if Bits_PopCount operand mod 2 = 1 then UBits 1 1 else UBits 0 1)"

section \<open>Concatenation, extension and shifts\<close>

fun rope_push_all :: "bits_rope \<Rightarrow> bits list \<Rightarrow> bits_rope" where
  "rope_push_all rope [] = rope"
| "rope_push_all rope (b # bs) = rope_push_all (BitsRope_push_back rope b) bs"

definition bits_Concat :: "bits list \<Rightarrow> bits option" where
  "bits_Concat inputs =
     (let new_bit_count = sum_list (map bm_count inputs)
      in BitsRope_Build (rope_push_all (BitsRope new_bit_count) (rev inputs)))"

definition bits_ZeroExtend :: "bits \<Rightarrow> nat \<Rightarrow> bits option" where
  "bits_ZeroExtend b new_bit_count = do {
     CHECK (new_bit_count \<ge> bm_count b);
     zeros \<leftarrow> UBits 0 (new_bit_count - bm_count b);
     bits_Concat [zeros, b]
   }"

definition bits_SignExtend :: "bits \<Rightarrow> nat \<Rightarrow> bits option" where
  "bits_SignExtend b new_bit_count = do {
     CHECK (new_bit_count \<ge> bm_count b);
     let ext_width = new_bit_count - bm_count b;
     ext \<leftarrow> (if Bits_msb b then Bits_AllOnes ext_width else Some (Bits_new ext_width));
     bits_Concat [ext, b]
   }"

definition bits_TruncateOrSignExtend :: "bits \<Rightarrow> nat \<Rightarrow> bits option" where
  "bits_TruncateOrSignExtend b bit_count =
     (if bm_count b = bit_count then Some b
      else if bm_count b < bit_count then bits_SignExtend b bit_count
      else Bits_Slice b 0 bit_count)"

definition bits_ShiftLeftLogical :: "bits \<Rightarrow> nat \<Rightarrow> bits option" where
  "bits_ShiftLeftLogical b shift_amount = do {
     let shift_amount = min shift_amount (bm_count b);
     low \<leftarrow> Bits_Slice b 0 (bm_count b - shift_amount);
     zeros \<leftarrow> UBits 0 shift_amount;
     bits_Concat [low, zeros]
   }"

definition bits_ShiftRightLogical :: "bits \<Rightarrow> nat \<Rightarrow> bits option" where
  "bits_ShiftRightLogical b shift_amount = do {
     let shift_amount = min shift_amount (bm_count b);
     zeros \<leftarrow> UBits 0 shift_amount;
     high \<leftarrow> Bits_Slice b shift_amount (bm_count b - shift_amount);
     bits_Concat [zeros, high]
   }"

definition bits_ShiftRightArith :: "bits \<Rightarrow> nat \<Rightarrow> bits option" where
  "bits_ShiftRightArith b shift_amount = do {
     let shift_amount = min shift_amount (bm_count b);
     ext \<leftarrow> (if Bits_msb b then Bits_AllOnes shift_amount else UBits 0 shift_amount);
     high \<leftarrow> Bits_Slice b shift_amount (bm_count b - shift_amount);
     bits_Concat [ext, high]
   }"

section \<open>Arithmetic\<close>

definition bits_Add :: "'b bn_api \<Rightarrow> bits \<Rightarrow> bits \<Rightarrow> bits option" where
  "bits_Add B lhs rhs = do {
     CHECK (bm_count lhs = bm_count rhs);
     if bm_count lhs \<le> 64 then do {
       lhs_int \<leftarrow> status_value (Bits_ToUint64 lhs);
       rhs_int \<leftarrow> status_value (Bits_ToUint64 rhs);
       UBits ((lhs_int + rhs_int) AND Mask (bm_count lhs)) (bm_count lhs)
     }
     else do {
       sum \<leftarrow> BigInt_ToSignedBits B (BigInt_Add B (BigInt_MakeSigned B lhs) (BigInt_MakeSigned B rhs));
       bits_TruncateOrSignExtend sum (bm_count lhs)
     }
   }"

definition bits_Sub :: "'b bn_api \<Rightarrow> bits \<Rightarrow> bits \<Rightarrow> bits option" where
  "bits_Sub B lhs rhs = do {
     CHECK (bm_count lhs = bm_count rhs);
     if bm_count lhs \<le> 64 then do {
       lhs_int \<leftarrow> status_value (Bits_ToUint64 lhs);
       rhs_int \<leftarrow> status_value (Bits_ToUint64 rhs);
       UBits ((lhs_int - rhs_int) AND Mask (bm_count lhs)) (bm_count lhs)
     }
     else do {
       diff \<leftarrow> BigInt_ToSignedBits B (BigInt_Sub B (BigInt_MakeSigned B lhs) (BigInt_MakeSigned B rhs));
       bits_TruncateOrSignExtend diff (bm_count lhs)
     }
   }"

definition bits_Mul :: "'b bn_api \<Rightarrow> bits \<Rightarrow> bits \<Rightarrow> bits option" where
  "bits_Mul B lhs rhs = do {
     CHECK (bm_count lhs = bm_count rhs);
     if bm_count lhs \<le> 64 then do {
       lhs_int \<leftarrow> status_value (Bits_ToUint64 lhs);
       rhs_int \<leftarrow> status_value (Bits_ToUint64 rhs);
       UBits ((lhs_int * rhs_int) AND Mask (bm_count lhs)) (bm_count lhs)
     }
     else do {
       lhs_ext \<leftarrow> bits_SignExtend lhs (bm_count lhs);
       rhs_ext \<leftarrow> bits_SignExtend rhs (bm_count lhs);
       let product = BigInt_Mul B (BigInt_MakeSigned B lhs_ext) (BigInt_MakeSigned B rhs_ext);
       st \<leftarrow> BigInt_ToSignedBitsWithBitCount B product (bm_count lhs * 2);
       wide \<leftarrow> status_value st;
       Bits_Slice wide 0 (bm_count lhs)
     }
   }"

definition bits_SMul :: "'b bn_api \<Rightarrow> bits \<Rightarrow> bits \<Rightarrow> bits option" where
  "bits_SMul B lhs rhs = do {
     let result_width = bm_count lhs + bm_count rhs;
     if result_width \<le> 64 then do {
       lhs_int \<leftarrow> status_value (Bits_ToInt64 lhs);
       rhs_int \<leftarrow> status_value (Bits_ToInt64 rhs);
       SBits (lhs_int * rhs_int) result_width
     }
     else do {
       let product = BigInt_Mul B (BigInt_MakeSigned B lhs) (BigInt_MakeSigned B rhs);
       st \<leftarrow> BigInt_ToSignedBitsWithBitCount B product result_width;
       status_value st
     }
   }"

definition bits_UMul :: "'b bn_api \<Rightarrow> bits \<Rightarrow> bits \<Rightarrow> bits option" where
  "bits_UMul B lhs rhs = do {
     let result_width = bm_count lhs + bm_count rhs;
     if result_width \<le> 64 then do {
       lhs_int \<leftarrow> status_value (Bits_ToUint64 lhs);
       rhs_int \<leftarrow> status_value (Bits_ToUint64 rhs);
       UBits (lhs_int * rhs_int) result_width
     }
     else do {
       let product = BigInt_Mul B (BigInt_MakeUnsigned B lhs) (BigInt_MakeUnsigned B rhs);
       st \<leftarrow> BigInt_ToUnsignedBitsWithBitCount B product result_width;
       status_value st
     }
   }"

definition bits_UDiv :: "'b bn_api \<Rightarrow> bits \<Rightarrow> bits \<Rightarrow> bits option" where
  "bits_UDiv B lhs rhs =
     (if Bits_IsZero rhs then Bits_AllOnes (bm_count lhs)
      else do {
        q \<leftarrow> BigInt_ToUnsignedBits B
               (BigInt_Div B (BigInt_MakeUnsigned B lhs) (BigInt_MakeUnsigned B rhs));
        bits_ZeroExtend q (bm_count lhs)
      })"

definition bits_UMod :: "'b bn_api \<Rightarrow> bits \<Rightarrow> bits \<Rightarrow> bits option" where
  "bits_UMod B lhs rhs =
     (if Bits_IsZero rhs then Some (Bits_new (bm_count rhs))
      else do {
        m \<leftarrow> BigInt_ToUnsignedBits B
               (BigInt_Mod B (BigInt_MakeUnsigned B lhs) (BigInt_MakeUnsigned B rhs));
        bits_ZeroExtend m (bm_count rhs)
      })"

section \<open>Comparison\<close>

definition bits_UEqual :: "bits \<Rightarrow> bits \<Rightarrow> bool" where
  "bits_UEqual lhs rhs \<longleftrightarrow> InlineBitmap_UCmp lhs rhs = 0"

definition bits_ULessThan :: "bits \<Rightarrow> bits \<Rightarrow> bool" where
  "bits_ULessThan lhs rhs \<longleftrightarrow> InlineBitmap_UCmp lhs rhs < 0"

definition bits_ULessThanOrEqual :: "bits \<Rightarrow> bits \<Rightarrow> bool" where
  "bits_ULessThanOrEqual lhs rhs \<longleftrightarrow> InlineBitmap_UCmp lhs rhs \<le> 0"

definition bits_UGreaterThan :: "bits \<Rightarrow> bits \<Rightarrow> bool" where
  "bits_UGreaterThan lhs rhs \<longleftrightarrow> \<not> bits_ULessThanOrEqual lhs rhs"

definition bits_UGreaterThanOrEqual :: "bits \<Rightarrow> bits \<Rightarrow> bool" where
  "bits_UGreaterThanOrEqual lhs rhs \<longleftrightarrow> \<not> bits_ULessThan lhs rhs"

definition bits_SEqual :: "'b bn_api \<Rightarrow> bits \<Rightarrow> bits \<Rightarrow> bool" where
  "bits_SEqual B lhs rhs \<longleftrightarrow> BigInt_eq B (BigInt_MakeSigned B lhs) (BigInt_MakeSigned B rhs)"

definition bits_SLessThan :: "'b bn_api \<Rightarrow> bits \<Rightarrow> bits \<Rightarrow> bool option" where
  "bits_SLessThan B lhs rhs =
     (if bm_count lhs \<le> 64 \<and> bm_count rhs \<le> 64 then do {
        x \<leftarrow> status_value (Bits_ToInt64 lhs);
        y \<leftarrow> status_value (Bits_ToInt64 rhs);
        Some (sint x < sint y)
      }
      else Some (BigInt_LessThan B (BigInt_MakeSigned B lhs) (BigInt_MakeSigned B rhs)))"

definition bits_SLessThanOrEqual :: "'b bn_api \<Rightarrow> bits \<Rightarrow> bits \<Rightarrow> bool option" where
  "bits_SLessThanOrEqual B lhs rhs =
     (if bits_SEqual B lhs rhs then Some True else bits_SLessThan B lhs rhs)"

definition bits_SGreaterThan :: "'b bn_api \<Rightarrow> bits \<Rightarrow> bits \<Rightarrow> bool option" where
  "bits_SGreaterThan B lhs rhs = map_option Not (bits_SLessThanOrEqual B lhs rhs)"

definition bits_SGreaterThanOrEqual :: "'b bn_api \<Rightarrow> bits \<Rightarrow> bits \<Rightarrow> bool option" where
  "bits_SGreaterThanOrEqual B lhs rhs = map_option Not (bits_SLessThan B lhs rhs)"

section \<open>Signed division, negation\<close>

definition bits_SDiv :: "'b bn_api \<Rightarrow> bits \<Rightarrow> bits \<Rightarrow> bits option" where
  "bits_SDiv B lhs rhs =
     (if Bits_IsZero rhs then
        (if bm_count lhs = 0 then UBits 0 0
         else do {
           zero \<leftarrow> UBits 0 (bm_count lhs);
           neg \<leftarrow> bits_SLessThan B lhs zero;
           if neg then do {
             one \<leftarrow> UBits 1 1;
             zeros \<leftarrow> UBits 0 (bm_count lhs - 1);
             bits_Concat [one, zeros]
           }
           else do {
             ones \<leftarrow> Bits_AllOnes (bm_count lhs - 1);
             bits_ZeroExtend ones (bm_count lhs)
           }
         })
      else do {
        q \<leftarrow> BigInt_ToSignedBits B (BigInt_Div B (BigInt_MakeSigned B lhs) (BigInt_MakeSigned B rhs));
        bits_TruncateOrSignExtend q (bm_count lhs)
      })"

definition bits_SMod :: "'b bn_api \<Rightarrow> bits \<Rightarrow> bits \<Rightarrow> bits option" where
  "bits_SMod B lhs rhs =
     (if Bits_IsZero rhs then Some (Bits_new (bm_count rhs))
      else do {
        m \<leftarrow> BigInt_ToSignedBits B (BigInt_Mod B (BigInt_MakeSigned B lhs) (BigInt_MakeSigned B rhs));
        bits_TruncateOrSignExtend m (bm_count rhs)
      })"

definition bits_Negate :: "'b bn_api \<Rightarrow> bits \<Rightarrow> bits option" where
  "bits_Negate B b =
     (if bm_count b < 64 then do {
        x \<leftarrow> status_value (Bits_ToInt64 b);
        UBits (- x AND Mask (bm_count b)) (bm_count b)
      }
      else do {
        negated \<leftarrow> BigInt_ToSignedBits B (BigInt_Negate B (BigInt_MakeSigned B b));
        bits_TruncateOrSignExtend negated (bm_count b)
      })"

definition bits_Abs :: "'b bn_api \<Rightarrow> bits \<Rightarrow> bits option" where
  "bits_Abs B b = do {
     negative \<leftarrow> Bits_GetFromMsb b 0;
     if negative then bits_Negate B b else Some b
   }"

section \<open>One-hot encodings, slices and prefixes\<close>

definition bits_OneHotLsbToMsb :: "bits \<Rightarrow> bits option" where
  "bits_OneHotLsbToMsb b =
     Bits_PowerOfTwo (first_index (\<lambda>i. Bits_Get b i) (bm_count b)) (bm_count b + 1)"

fun find_high :: "(nat \<Rightarrow> bool) \<Rightarrow> nat \<Rightarrow> nat option" where
  "find_high p 0 = None"
| "find_high p (Suc i) = (if p i then Some i else find_high p i)"

definition bits_OneHotMsbToLsb :: "bits \<Rightarrow> bits option" where
  "bits_OneHotMsbToLsb b =
     (case find_high (Bits_Get b) (bm_count b) of
        Some i \<Rightarrow> Bits_PowerOfTwo i (bm_count b + 1)
      | None \<Rightarrow> Bits_PowerOfTwo (bm_count b) (bm_count b + 1))"

definition bits_Reverse :: "bits \<Rightarrow> bits" where
  "bits_Reverse b = Bits_FromSpan (rev (Bits_ToBitVector b))"

definition bits_DropLeadingZeroes :: "bits \<Rightarrow> bits option" where
  "bits_DropLeadingZeroes b =
     (case find_high (Bits_Get b) (bm_count b) of
        None \<Rightarrow> Some (Bits_new 0)
      | Some first_one \<Rightarrow> Bits_Slice b 0 (first_one + 1))"

definition bits_BitSliceUpdate :: "bits \<Rightarrow> nat \<Rightarrow> bits \<Rightarrow> bits option" where
  "bits_BitSliceUpdate to_update start update_value =
     (if start \<ge> bm_count to_update then Some to_update
      else do {
        lsb_slice \<leftarrow> Bits_Slice to_update 0 start;
        update_slice \<leftarrow> Bits_Slice update_value 0
                          (min (bm_count update_value) (bm_count to_update - start));
        let msb_start = min (bm_count to_update) (start + bm_count update_value);
        msb_slice \<leftarrow> Bits_Slice to_update msb_start (bm_count to_update - msb_start);
        bits_Concat [msb_slice, update_slice, lsb_slice]
      })"

definition bits_LongestCommonPrefixLSB :: "bits list \<Rightarrow> bits option" where
  "bits_LongestCommonPrefixLSB bits_span =
     (case bits_span of
        [] \<Rightarrow> Some (Bits_new 0)
      | first # _ \<Rightarrow> do {
          CHECK (list_all (\<lambda>b. bm_count b = bm_count first) bits_span);
          let n = first_index (\<lambda>i. list_ex (\<lambda>b. Bits_Get b i \<noteq> Bits_Get first i) bits_span) (bm_count first);
          Some (Bits_FromSpan (map (Bits_Get first) [0..<n]))
        })"

definition bits_LongestCommonPrefixMSB :: "bits list \<Rightarrow> bits option" where
  "bits_LongestCommonPrefixMSB bits_span = do {
     r \<leftarrow> bits_LongestCommonPrefixLSB (map bits_Reverse bits_span);
     Some (bits_Reverse r)
   }"


section \<open>Comparison with an \<open>int64_t\<close>\<close>

text \<open>The right-hand side is a machine word read as signed; the unsigned comparisons abort on a
  negative one.\<close>

definition ubits64 :: "uint64 \<Rightarrow> bits option" where
  "ubits64 rhs = do { CHECK (sint rhs \<ge> 0); UBits rhs 64 }"

definition bits_UEqual_int64 :: "bits \<Rightarrow> uint64 \<Rightarrow> bool option" where
  "bits_UEqual_int64 lhs rhs = do { r \<leftarrow> ubits64 rhs; Some (bits_UEqual lhs r) }"

definition bits_UGreaterThanOrEqual_int64 :: "bits \<Rightarrow> uint64 \<Rightarrow> bool option" where
  "bits_UGreaterThanOrEqual_int64 lhs rhs = do { r \<leftarrow> ubits64 rhs; Some (bits_UGreaterThanOrEqual lhs r) }"

definition bits_UGreaterThan_int64 :: "bits \<Rightarrow> uint64 \<Rightarrow> bool option" where
  "bits_UGreaterThan_int64 lhs rhs = do { r \<leftarrow> ubits64 rhs; Some (bits_UGreaterThan lhs r) }"

definition bits_ULessThanOrEqual_int64 :: "bits \<Rightarrow> uint64 \<Rightarrow> bool option" where
  "bits_ULessThanOrEqual_int64 lhs rhs = do { r \<leftarrow> ubits64 rhs; Some (bits_ULessThanOrEqual lhs r) }"

definition bits_ULessThan_int64 :: "bits \<Rightarrow> uint64 \<Rightarrow> bool option" where
  "bits_ULessThan_int64 lhs rhs = do { r \<leftarrow> ubits64 rhs; Some (bits_ULessThan lhs r) }"

definition bits_SEqual_int64 :: "'b bn_api \<Rightarrow> bits \<Rightarrow> uint64 \<Rightarrow> bool option" where
  "bits_SEqual_int64 B lhs rhs = do { r \<leftarrow> SBits rhs 64; Some (bits_SEqual B lhs r) }"

definition bits_SGreaterThanOrEqual_int64 :: "'b bn_api \<Rightarrow> bits \<Rightarrow> uint64 \<Rightarrow> bool option" where
  "bits_SGreaterThanOrEqual_int64 B lhs rhs = do { r \<leftarrow> SBits rhs 64; bits_SGreaterThanOrEqual B lhs r }"

definition bits_SGreaterThan_int64 :: "'b bn_api \<Rightarrow> bits \<Rightarrow> uint64 \<Rightarrow> bool option" where
  "bits_SGreaterThan_int64 B lhs rhs = do { r \<leftarrow> SBits rhs 64; bits_SGreaterThan B lhs r }"

definition bits_SLessThanOrEqual_int64 :: "'b bn_api \<Rightarrow> bits \<Rightarrow> uint64 \<Rightarrow> bool option" where
  "bits_SLessThanOrEqual_int64 B lhs rhs = do { r \<leftarrow> SBits rhs 64; bits_SLessThanOrEqual B lhs r }"

definition bits_SLessThan_int64 :: "'b bn_api \<Rightarrow> bits \<Rightarrow> uint64 \<Rightarrow> bool option" where
  "bits_SLessThan_int64 B lhs rhs = do { r \<leftarrow> SBits rhs 64; bits_SLessThan B lhs r }"

section \<open>Logical operations by name\<close>

text \<open>\<open>kOther\<close> stands for every operation of \<open>Op\<close> that is not a logical one.\<close>

datatype logical_op = kAnd | kOr | kXor | kNand | kNor | kOther

definition LogicalOpIdentity :: "logical_op \<Rightarrow> nat \<Rightarrow> bits option" where
  "LogicalOpIdentity op width =
     (case op of
        kAnd \<Rightarrow> Bits_AllOnes width
      | kNand \<Rightarrow> Bits_AllOnes width
      | kOr \<Rightarrow> Some (Bits_new width)
      | kNor \<Rightarrow> Some (Bits_new width)
      | kXor \<Rightarrow> Some (Bits_new width)
      | kOther \<Rightarrow> None)"

definition DoLogicalOp :: "logical_op \<Rightarrow> bits list \<Rightarrow> bits option" where
  "DoLogicalOp op operands = do {
     CHECK (length operands > 0);
     case op of
       kAnd \<Rightarrow> bits_NaryAnd operands
     | kOr \<Rightarrow> bits_NaryOr operands
     | kXor \<Rightarrow> bits_NaryXor operands
     | kNand \<Rightarrow> bits_NaryNand operands
     | kNor \<Rightarrow> bits_NaryNor operands
     | kOther \<Rightarrow> None
   }"

section \<open>Correctness of the bitwise operations\<close>

lemma unum_less_64: "length bs \<le> 64 \<Longrightarrow> unum bs < 2 ^ 64"
  by (rule less_le_trans [OF unum_bound power_increasing]) simp_all

lemma ToUint64_small:
  "rep b bs \<Longrightarrow> length bs \<le> 64 \<Longrightarrow> status_value (Bits_ToUint64 b) = Some (of_nat (unum bs))"
  using unum_less_64 [of bs] by (simp add: rep_ToUint64)

lemma bit_of_nat_unum: "bit (of_nat (unum bs) :: uint64) i \<longleftrightarrow> i < 64 \<and> i < length bs \<and> bs ! i"
  by (auto simp: bit_of_nat_iff bit_unum_iff dest: bit_imp_le_length)

lemma returns_UBits_eq:
  assumes "\<And>i. i < 64 \<Longrightarrow> bit (w :: uint64) i \<longleftrightarrow> i < length bs \<and> bs ! i" and "length bs = n" and "n \<le> 64"
  shows "returns (UBits w n) bs"
proof -
  have "bit (unat w) i = bit (unum bs) i" for i
    using assms(1) [of i] assms(2,3) by (cases "i < 64") (auto simp: bit_unum_iff bit_simps dest: bit_imp_le_length)
  then have w: "unat w = unum bs" by (rule bit_eqI)
  then have "unat w < 2 ^ n" using assms(2) unum_bound [of bs] by simp
  from returns_UBits [OF this] show ?thesis using w assms(2) by (simp add: nat_bl_unum_eq)
qed

lemma nth_ToBytes:
  assumes "rep b bs" and "k < (length bs + 7) div 8"
  shows "Bits_ToBytes b ! ((length bs + 7) div 8 - 1 - k) = byte_at bs k"
  using assms(2) by (simp add: ToBytes_eq [OF assms(1)] rev_nth)

lemma byte_of_index: "j < n \<Longrightarrow> j div 8 < (n + 7) div 8" for n :: nat
  by linarith

lemma bit_byte_of_index: "j < length bs \<Longrightarrow> bit (byte_at bs (j div 8)) (j mod 8) = bs ! j"
  by (simp add: bit_byte_at)

lemma returns_bytewise:
  assumes a: "rep a as" and b: "rep b bs" and len: "length as = length bs"
    and low: "\<And>x y i. length as \<le> 64 \<Longrightarrow> i < length as \<Longrightarrow> bit (word_op x y) i = g (bit x i) (bit y i)"
    and high: "\<And>x y i. length as \<le> 64 \<Longrightarrow> length as \<le> i \<Longrightarrow> i < 64 \<Longrightarrow> \<not> bit x i \<Longrightarrow> \<not> bit y i \<Longrightarrow> \<not> bit (word_op x y) i"
    and byte: "\<And>x y i. i < 8 \<Longrightarrow> bit (byte_op x y) i = g (bit x i) (bit y i)"
  shows "returns (bits_bytewise word_op byte_op a b) (map2 g as bs)"
proof (cases "length as \<le> 64")
  case True
  let ?w = "word_op (of_nat (unum as)) (of_nat (unum bs))"
  have "bit ?w i \<longleftrightarrow> i < length as \<and> map2 g as bs ! i" if "i < 64" for i
    using low [OF True, of i] high [OF True, of i] that len
    by (cases "i < length as") (simp_all add: bit_of_nat_unum)
  then have "returns (UBits ?w (length as)) (map2 g as bs)"
    using True len by (intro returns_UBits_eq) simp_all
  with True show ?thesis
    using a b len by (simp add: bits_bytewise_def rep_count ToUint64_small)
next
  case False
  let ?n = "(length as + 7) div 8"
  let ?ys = "map2 byte_op (Bits_ToBytes a) (Bits_ToBytes b)"
  have ys: "length ?ys = ?n" using a b len by (simp add: length_ToBytes)
  have "map (\<lambda>j. bit (?ys ! (length ?ys - 1 - j div 8)) (j mod 8)) [0..<length as] = map2 g as bs"
  proof (rule nth_equalityI)
    fix j assume "j < length (map (\<lambda>j. bit (?ys ! (length ?ys - 1 - j div 8)) (j mod 8)) [0..<length as])"
    then have j: "j < length as" by simp
    have k: "j div 8 < ?n" using j by (rule byte_of_index)
    have nth: "?ys ! (?n - 1 - j div 8) = byte_op (byte_at as (j div 8)) (byte_at bs (j div 8))"
      using k ys nth_ToBytes [OF a k] nth_ToBytes [OF b] len by simp
    have "map (\<lambda>j. bit (?ys ! (length ?ys - 1 - j div 8)) (j mod 8)) [0..<length as] ! j =
        bit (?ys ! (?n - 1 - j div 8)) (j mod 8)"
      using j by (simp only: ys) simp
    also have "\<dots> = g (as ! j) (bs ! j)"
      unfolding nth using j len by (simp add: byte bit_byte_of_index)
    finally show "map (\<lambda>j. bit (?ys ! (length ?ys - 1 - j div 8)) (j mod 8)) [0..<length as] ! j = map2 g as bs ! j"
      using j len by simp
  qed (simp add: len)
  with returns_FromBytes [OF ys] False a b len show ?thesis
    by (simp add: bits_bytewise_def rep_count)
qed

lemma bytewise_mismatch: "bm_count a \<noteq> bm_count b \<Longrightarrow> bits_bytewise f g a b = None"
  by (simp add: bits_bytewise_def)

lemma returns_And [bits_rep]:
  "rep a as \<Longrightarrow> rep b bs \<Longrightarrow> length as = length bs \<Longrightarrow> returns (bits_And a b) (map2 (\<and>) as bs)"
  unfolding bits_And_def by (rule returns_bytewise) (simp_all add: bit_and_iff)

lemma returns_Or [bits_rep]:
  "rep a as \<Longrightarrow> rep b bs \<Longrightarrow> length as = length bs \<Longrightarrow> returns (bits_Or a b) (map2 (\<or>) as bs)"
  unfolding bits_Or_def by (rule returns_bytewise) (simp_all add: bit_or_iff)

lemma returns_Xor [bits_rep]:
  "rep a as \<Longrightarrow> rep b bs \<Longrightarrow> length as = length bs \<Longrightarrow> returns (bits_Xor a b) (map2 (\<noteq>) as bs)"
  unfolding bits_Xor_def by (rule returns_bytewise) (simp_all add: bit_xor_iff)

lemma returns_Nand [bits_rep]:
  "rep a as \<Longrightarrow> rep b bs \<Longrightarrow> length as = length bs \<Longrightarrow>
   returns (bits_Nand a b) (map2 (\<lambda>x y. \<not> (x \<and> y)) as bs)"
  unfolding bits_Nand_def
  by (rule returns_bytewise) (auto simp: bit_and_iff bit_or_iff bit_not_iff bit_Mask_iff rep_count)

lemma returns_Nor [bits_rep]:
  "rep a as \<Longrightarrow> rep b bs \<Longrightarrow> length as = length bs \<Longrightarrow>
   returns (bits_Nor a b) (map2 (\<lambda>x y. \<not> (x \<or> y)) as bs)"
  unfolding bits_Nor_def
  by (rule returns_bytewise) (simp_all add: bit_and_iff bit_or_iff bit_not_iff bit_Mask_iff rep_count)

text \<open>\<open>Not\<close> runs the binary loop with one operand.\<close>

lemma bits_Not_bytewise:
  "bits_Not b = bits_bytewise (\<lambda>x y. NOT x AND Mask (bm_count b)) (\<lambda>x y. NOT x) b b"
proof -
  have "status_value (Bits_ToUint64 b) \<bind> (\<lambda>x. status_value (Bits_ToUint64 b) \<bind> (\<lambda>y. f x)) =
      status_value (Bits_ToUint64 b) \<bind> f" for f :: "uint64 \<Rightarrow> bits option"
    by (cases "status_value (Bits_ToUint64 b)") simp_all
  moreover have "map2 (\<lambda>x y. NOT x) ys ys = map (\<lambda>x. NOT x) ys" for ys :: "uint8 list"
    by (induction ys) simp_all
  ultimately show ?thesis by (simp add: bits_Not_def bits_bytewise_def)
qed

lemma returns_Not [bits_rep]: "rep b bs \<Longrightarrow> returns (bits_Not b) (map Not bs)"
proof -
  assume b: "rep b bs"
  have "map2 (\<lambda>x y. \<not> x) bs bs = map Not bs" by (induction bs) simp_all
  moreover have "returns (bits_Not b) (map2 (\<lambda>x y. \<not> x) bs bs)"
    unfolding bits_Not_bytewise using b
    by (intro returns_bytewise) (simp_all add: bit_and_iff bit_not_iff bit_Mask_iff rep_count)
  ultimately show ?thesis by simp
qed

lemma returns_accumulate:
  assumes "\<And>a b as bs. rep a as \<Longrightarrow> rep b bs \<Longrightarrow> length as = length bs \<Longrightarrow> returns (f a b) (map2 g as bs)"
    and "rep acc zs" and "list_all2 rep ops bss" and "\<forall>bs\<in>set bss. length bs = length zs"
  shows "returns (bits_accumulate f acc ops) (foldl (map2 g) zs bss)"
  using assms(3,2,4)
proof (induction ops bss arbitrary: acc zs rule: list_all2_induct)
  case (Cons b ops bs bss)
  obtain r where "f acc b = Some r" "rep r (map2 g zs bs)"
    using Cons assms(1) [of acc zs b bs] by (auto elim: returns_bindE)
  with Cons show ?case by simp
qed simp

lemma returns_nary:
  assumes "\<And>a b as bs. rep a as \<Longrightarrow> rep b bs \<Longrightarrow> length as = length bs \<Longrightarrow> returns (f a b) (map2 g as bs)"
    and "list_all2 rep ops bss" and "bss \<noteq> []" and "\<forall>bs\<in>set bss. length bs = n"
  shows "returns (bits_nary f ops) (foldl (map2 g) (hd bss) (tl bss))"
  using assms by (cases bss; cases ops) (auto simp: bits_nary_def intro: returns_accumulate)


lemma returns_bit: "returns (if x then UBits 1 1 else UBits 0 1) [x]"
  using returns_UBits [of 1 1] returns_UBits [of 0 1] by (simp add: nat_bl_def bit_0)

lemma returns_AndReduce [bits_rep]: "rep b bs \<Longrightarrow> returns (bits_AndReduce b) [False \<notin> set bs]"
  using returns_bit [of "False \<notin> set bs"] unum_eq_max_iff [of bs]
  by (simp add: bits_AndReduce_def rep_IsAllOnes)

lemma returns_OrReduce [bits_rep]: "rep b bs \<Longrightarrow> returns (bits_OrReduce b) [True \<in> set bs]"
  using returns_bit [of "True \<in> set bs"]
  by (cases "True \<in> set bs") (simp_all add: bits_OrReduce_def rep_IsZero unum_eq_0_iff)

lemma odd_count_True: "odd (length (filter id bs)) = foldr (\<noteq>) bs False"
  by (induction bs) auto

lemma returns_XorReduce [bits_rep]: "rep b bs \<Longrightarrow> returns (bits_XorReduce b) [foldr (\<noteq>) bs False]"
  using returns_bit [of "odd (length (filter id bs))"] odd_count_True [of bs]
  by (simp only: bits_XorReduce_def rep_PopCount odd_iff_mod_2_eq_one)

section \<open>Correctness of concatenation, extension and shifts\<close>

lemma rope_push_all_holds:
  assumes "list_all2 rep ins bss" and "rope_holds rope n acc"
    and "length acc + length (concat bss) \<le> n"
  shows "rope_holds (rope_push_all rope ins) n (acc @ concat bss)"
  using assms
proof (induction ins bss arbitrary: rope acc rule: list_all2_induct)
  case (Cons b ins bs bss)
  from rope_push_back [OF Cons.prems(1) Cons.hyps(1)] Cons.prems(2)
  have "rope_holds (BitsRope_push_back rope b) n (acc @ bs)" by simp
  from Cons.IH [OF this] Cons.prems(2) show ?case by simp
qed simp

lemma returns_Concat [bits_rep]:
  assumes "list_all2 rep ins bss"
  shows "returns (bits_Concat ins) (concat (rev bss))"
proof -
  have "sum_list (map bm_count ins) = sum_list (map length bss)"
    using assms by (induction ins bss rule: list_all2_induct) (simp_all add: rep_count)
  then have n: "sum_list (map bm_count ins) = length (concat (rev bss))"
    by (simp add: length_concat flip: rev_map)
  have "rope_holds (rope_push_all (BitsRope (length (concat (rev bss)))) (rev ins))
      (length (concat (rev bss))) (concat (rev bss))"
    using rope_push_all_holds [of "rev ins" "rev bss" "BitsRope (length (concat (rev bss)))" _ "[]"] assms
    by (simp add: list_all2_rev rope_new)
  from rope_Build [OF this] show ?thesis by (simp add: bits_Concat_def n)
qed

lemma returns_Concat2: "rep a as \<Longrightarrow> rep b bs \<Longrightarrow> returns (bits_Concat [a, b]) (bs @ as)"
  using returns_Concat [of "[a, b]" "[as, bs]"] by simp

lemma returns_Concat2_bind:
  "returns m as \<Longrightarrow> returns k bs \<Longrightarrow>
   returns (m \<bind> (\<lambda>a. k \<bind> (\<lambda>b. bits_Concat [a, b]))) (bs @ as)"
  by (auto elim!: returns_bindE intro: returns_Concat2)

lemma returns_zeros: "returns (UBits 0 n) (replicate n False)"
  using returns_UBits [of 0 n] by simp

lemma returns_ZeroExtend [bits_rep]:
  assumes "rep b bs" and "length bs \<le> n"
  shows "returns (bits_ZeroExtend b n) (nat_bl n (unum bs))"
proof -
  have "nat_bl n (unum bs) = bs @ replicate (n - length bs) False"
    using assms(2) by (auto simp: list_eq_iff_nth_eq nth_append bit_unum_iff)
  then show ?thesis
    using returns_Concat2_bind [OF returns_zeros, of "Some b" bs] assms
    by (simp add: bits_ZeroExtend_def rep_count)
qed

lemma int_bl_extend:
  "length bs \<le> n \<Longrightarrow> int_bl n (snum bs) = bs @ replicate (n - length bs) (bs \<noteq> [] \<and> last bs)"
  by (rule nth_equalityI) (auto simp: nth_append bit_snum_low bit_snum_high)

lemma int_bl_truncate: "n \<le> length bs \<Longrightarrow> int_bl n (snum bs) = take n bs"
  by (rule nth_equalityI) (auto simp: bit_snum_low)

lemma returns_SignExtend [bits_rep]:
  assumes "rep b bs" and "length bs \<le> n"
  shows "returns (bits_SignExtend b n) (int_bl n (snum bs))"
proof -
  let ?s = "bs \<noteq> [] \<and> last bs"
  have "returns (if ?s then Bits_AllOnes (n - length bs) else Some (Bits_new (n - length bs)))
      (replicate (n - length bs) ?s)"
    using returns_AllOnes rep_new by simp
  from returns_Concat2_bind [OF this, of "Some b" bs] show ?thesis
    using assms by (simp add: bits_SignExtend_def rep_count rep_msb int_bl_extend Let_def)
qed

lemma returns_TruncateOrSignExtend [bits_rep]:
  "rep b bs \<Longrightarrow> returns (bits_TruncateOrSignExtend b n) (int_bl n (snum bs))"
  using returns_SignExtend [of b bs n] returns_Slice [of b bs 0 n]
  by (auto simp: bits_TruncateOrSignExtend_def rep_count int_bl_truncate)

text \<open>The shifted list, from the numbers it stands for.\<close>

lemma nat_bl_shl:
  "nat_bl (length bs) (unum bs * 2 ^ k) =
    replicate (min k (length bs)) False @ take (length bs - min k (length bs)) bs"
  by (rule nth_equalityI)
    (auto simp: nth_append bit_unum_iff bit_push_bit_iff simp flip: push_bit_eq_mult)

lemma nat_bl_shr:
  "nat_bl (length bs) (unum bs div 2 ^ k) =
    drop (min k (length bs)) bs @ replicate (min k (length bs)) False"
  by (rule nth_equalityI; cases "k \<le> length bs")
    (auto simp: nth_append bit_unum_iff bit_drop_bit_eq simp flip: drop_bit_eq_div)

lemma int_bl_sar:
  "int_bl (length bs) (snum bs div 2 ^ k) =
    drop (min k (length bs)) bs @ replicate (min k (length bs)) (bs \<noteq> [] \<and> last bs)"
proof -
  let ?k = "min k (length bs)" let ?s = "bs \<noteq> [] \<and> last bs"
  have b: "bit (snum bs) (k + i) = (drop ?k bs @ replicate ?k ?s) ! i" if "i < length bs" for i
    using that by (cases "k + i < length bs"; cases "k \<le> length bs") (auto simp: nth_append bit_snum_low bit_snum_high)
  show ?thesis by (rule nth_equalityI) (simp_all add: b bit_drop_bit_eq flip: drop_bit_eq_div)
qed

lemma returns_ShiftLeftLogical [bits_rep]:
  assumes "rep b bs"
  shows "returns (bits_ShiftLeftLogical b k) (nat_bl (length bs) (unum bs * 2 ^ k))"
proof -
  let ?k = "min k (length bs)"
  have "returns (bits_ShiftLeftLogical b k) (replicate ?k False @ take (length bs - ?k) bs)"
    using returns_Concat2_bind [OF returns_Slice [OF assms, of 0 "length bs - ?k"] returns_zeros [of ?k]] assms
    by (simp add: bits_ShiftLeftLogical_def rep_count Let_def)
  then show ?thesis by (simp only: nat_bl_shl)
qed

lemma returns_ShiftRightLogical [bits_rep]:
  assumes "rep b bs"
  shows "returns (bits_ShiftRightLogical b k) (nat_bl (length bs) (unum bs div 2 ^ k))"
proof -
  let ?k = "min k (length bs)"
  have "returns (bits_ShiftRightLogical b k) (drop ?k bs @ replicate ?k False)"
    using returns_Concat2_bind [OF returns_zeros [of ?k] returns_Slice [OF assms, of ?k "length bs - ?k"]] assms
    by (simp add: bits_ShiftRightLogical_def rep_count Let_def)
  then show ?thesis by (simp only: nat_bl_shr)
qed

lemma returns_ShiftRightArith [bits_rep]:
  assumes "rep b bs"
  shows "returns (bits_ShiftRightArith b k) (int_bl (length bs) (snum bs div 2 ^ k))"
proof -
  let ?k = "min k (length bs)"
  let ?s = "bs \<noteq> [] \<and> last bs"
  have "returns (if s then Bits_AllOnes ?k else UBits 0 ?k) (replicate ?k s)" for s
    using returns_AllOnes [of ?k] returns_zeros [of ?k] by simp
  from returns_Concat2_bind [OF this [of ?s] returns_Slice [OF assms, of ?k "length bs - ?k"]]
  have "returns (bits_ShiftRightArith b k) (drop ?k bs @ replicate ?k ?s)"
    using assms by (simp add: bits_ShiftRightArith_def rep_count rep_msb Let_def)
  then show ?thesis by (simp only: int_bl_sar)
qed


section \<open>Correctness of arithmetic\<close>

lemma int_bl_snum_op:
  assumes "length as = n" and "length bs = n"
  shows "int_bl n (snum as + snum bs) = nat_bl n (unum as + unum bs)"
    and "int_bl n (snum as - snum bs) = int_bl n (int (unum as) - int (unum bs))"
    and "int_bl n (snum as * snum bs) = nat_bl n (unum as * unum bs)"
proof -
  have a: "snum as mod 2 ^ n = int (unum as) mod 2 ^ n" and b: "snum bs mod 2 ^ n = int (unum bs) mod 2 ^ n"
    using assms by (simp_all flip: snum_mod)
  show "int_bl n (snum as + snum bs) = nat_bl n (unum as + unum bs)"
    using mod_add_cong [OF a b] by (simp flip: int_bl_of_nat add: int_bl_eq_iff)
  show "int_bl n (snum as - snum bs) = int_bl n (int (unum as) - int (unum bs))"
    using mod_diff_cong [OF a b] by (simp add: int_bl_eq_iff)
  show "int_bl n (snum as * snum bs) = nat_bl n (unum as * unum bs)"
    using mod_mult_cong [OF a b] by (simp flip: int_bl_of_nat add: int_bl_eq_iff)
qed

lemma take_int_bl: "m \<le> n \<Longrightarrow> take m (int_bl n k) = int_bl m k"
  by (simp add: int_bl_def take_map)

lemma returns_UBits_masked:
  assumes "n \<le> 64"
  shows "returns (UBits (of_int k AND Mask n) n) (int_bl n k)"
  using assms by (intro returns_UBits_eq) (auto simp: bit_and_iff bit_Mask_iff bit_of_int_iff)

lemma snum_range_le: "- (2 ^ (length bs - 1)) \<le> snum bs \<and> snum bs \<le> 2 ^ (length bs - 1)"
  using snum_range [of bs] by (cases "bs = []") simp_all

lemma abs_snum_le: "2 * \<bar>snum bs\<bar> \<le> 2 ^ length bs"
proof (cases "bs = []")
  case False
  then have "(2::int) ^ length bs = 2 * 2 ^ (length bs - 1)"
    by (simp flip: power_Suc)
  then show ?thesis using snum_range [OF False] by simp
qed simp

lemma snum_mult_range:
  assumes "as \<noteq> []" and "bs \<noteq> []"
  shows "- (2 ^ (length as + length bs - 1)) \<le> snum as * snum bs"
    and "snum as * snum bs < 2 ^ (length as + length bs - 1)"
proof -
  have "(2 * \<bar>snum as\<bar>) * (2 * \<bar>snum bs\<bar>) \<le> 2 ^ length as * 2 ^ length bs"
    by (intro mult_mono abs_snum_le) simp_all
  then have "4 * \<bar>snum as * snum bs\<bar> \<le> 2 ^ (length as + length bs)"
    by (simp add: abs_mult power_add)
  moreover have "(2::int) ^ (length as + length bs) = 2 * 2 ^ (length as + length bs - 1)"
    using assms by (simp flip: power_Suc)
  moreover have "(0::int) < 2 ^ (length as + length bs - 1)" by simp
  ultimately show "- (2 ^ (length as + length bs - 1)) \<le> snum as * snum bs"
    "snum as * snum bs < 2 ^ (length as + length bs - 1)"
    by linarith+
qed

lemma signed_width_mult: "signed_width (snum as * snum bs) \<le> length as + length bs"
proof (cases "snum as * snum bs = 0")
  case False
  then have "as \<noteq> []" "bs \<noteq> []" by auto
  from snum_mult_range [OF this] this show ?thesis
    by (simp add: signed_width_le_iff [OF False])
qed (simp add: signed_width_def)

lemma unum_mult_less: "unum as * unum bs < 2 ^ (length as + length bs)"
  by (simp add: power_add mult_strict_mono)

lemma ToInt64_small:
  assumes "rep b bs" and "length bs \<le> 64"
  shows "status_value (Bits_ToInt64 b) = Some (of_int (snum bs))"
proof -
  have "(2::int) ^ (length bs - 1) \<le> 2 ^ 63"
    using assms(2) by (intro power_increasing) simp_all
  then have "- (2 ^ 63) \<le> snum bs \<and> snum bs < 2 ^ 63"
    using snum_range [of bs] by (cases "bs = []") (simp, linarith)
  with assms(1) show ?thesis by (simp add: rep_ToInt64 del: power_numeral)
qed

lemma sint_of_int64: "- (2 ^ 63) \<le> k \<Longrightarrow> k < 2 ^ 63 \<Longrightarrow> sint (of_int k :: uint64) = k"
  by (simp add: signed_of_int signed_take_bit_int_eq_self)

lemma snum_eq_0_iff: "snum bs = 0 \<longleftrightarrow> unum bs = 0"
proof
  assume "snum bs = 0"
  then show "unum bs = 0" using snum_mod [of bs] by simp
next
  assume "unum bs = 0"
  then have "\<not> (bs \<noteq> [] \<and> last bs)" by (metis last_in_set unum_eq_0_iff)
  with \<open>unum bs = 0\<close> show "snum bs = 0" by (simp add: snum_nonneg)
qed

context bignum
begin

lemma returns_signed_result:
  "num v = k \<Longrightarrow> returns (BigInt_ToSignedBits B v \<bind> (\<lambda>r. bits_TruncateOrSignExtend r n)) (int_bl n k)"
  using returns_bind [OF returns_ToSignedBits [of v], of "\<lambda>r. bits_TruncateOrSignExtend r n" "int_bl n k"]
    returns_TruncateOrSignExtend [of _ "int_bl (signed_width k) k" n]
  by (simp add: snum_signed_width)

lemmas num_ops = BigInt_Add_def BigInt_Sub_def BigInt_Mul_def BigInt_Div_def BigInt_Mod_def
  num_add num_sub num_mul num_quot num_rem num_MakeSigned num_MakeUnsigned num_Negate

lemma returns_Add:
  assumes "rep a as" and "rep b bs" and "length as = length bs"
  shows "returns (bits_Add B a b) (nat_bl (length as) (unum as + unum bs))"
proof (cases "length as \<le> 64")
  case True
  with returns_UBits_masked [of "length as" "int (unum as + unum bs)"] assms show ?thesis
    by (simp add: bits_Add_def rep_count ToUint64_small del: of_nat_add of_nat_mult)
      (simp add: of_nat_add of_nat_mult)
next
  case False
  with returns_signed_result [of "BigInt_Add B (BigInt_MakeSigned B a) (BigInt_MakeSigned B b)"
      "snum as + snum bs" "length as"] assms
  show ?thesis by (simp add: bits_Add_def rep_count num_ops int_bl_snum_op)
qed

lemma returns_Sub:
  assumes "rep a as" and "rep b bs" and "length as = length bs"
  shows "returns (bits_Sub B a b) (int_bl (length as) (int (unum as) - int (unum bs)))"
proof (cases "length as \<le> 64")
  case True
  with returns_UBits_masked [of "length as" "int (unum as) - int (unum bs)"] assms show ?thesis
    by (simp add: bits_Sub_def rep_count ToUint64_small)
next
  case False
  with returns_signed_result [of "BigInt_Sub B (BigInt_MakeSigned B a) (BigInt_MakeSigned B b)"
      "snum as - snum bs" "length as"] assms
  show ?thesis by (simp add: bits_Sub_def rep_count num_ops int_bl_snum_op)
qed

lemma returns_Mul:
  assumes "rep a as" and "rep b bs" and "length as = length bs"
  shows "returns (bits_Mul B a b) (nat_bl (length as) (unum as * unum bs))"
proof (cases "length as \<le> 64")
  case True
  with returns_UBits_masked [of "length as" "int (unum as * unum bs)"] assms show ?thesis
    by (simp add: bits_Mul_def rep_count ToUint64_small del: of_nat_add of_nat_mult)
      (simp add: of_nat_add of_nat_mult)
next
  case False
  let ?n = "length as"
  obtain a' where a': "bits_SignExtend a ?n = Some a'" "rep a' as"
    using returns_SignExtend [OF assms(1), of ?n] by (auto elim: returns_bindE)
  obtain b' where b': "bits_SignExtend b ?n = Some b'" "rep b' bs"
    using returns_SignExtend [OF assms(2), of ?n] assms(3) by (auto elim: returns_bindE)
  let ?p = "BigInt_Mul B (BigInt_MakeSigned B a') (BigInt_MakeSigned B b')"
  have p: "num ?p = snum as * snum bs" using a' b' by (simp add: num_ops)
  then obtain r where r: "BigInt_ToSignedBitsWithBitCount B ?p (?n * 2) = Some (Inr r)"
    "rep r (int_bl (?n * 2) (snum as * snum bs))"
    using ToSignedBitsWithBitCount_ok [of ?p "?n * 2"] signed_width_mult [of as bs] assms(3)
    by (auto simp: mult_2_right)
  have "take ?n (int_bl (?n * 2) (snum as * snum bs)) = int_bl ?n (snum as * snum bs)"
    by (simp add: take_int_bl)
  also have "\<dots> = nat_bl ?n (unum as * unum bs)"
    using assms(3) by (intro int_bl_snum_op) simp_all
  finally have low: "take ?n (int_bl (?n * 2) (snum as * snum bs)) = nat_bl ?n (unum as * unum bs)" .
  from low returns_Slice [OF r(2), of 0 ?n] have "returns (Bits_Slice r 0 ?n) (nat_bl ?n (unum as * unum bs))"
    by simp
  moreover have "bits_Mul B a b = Bits_Slice r 0 ?n"
    using False assms(3) r(1) a'(1) b'(1)
    by (simp add: bits_Mul_def rep_count [OF assms(1)] rep_count [OF assms(2)] Let_def)
  ultimately show ?thesis by simp
qed

lemma returns_SMul:
  assumes "rep a as" and "rep b bs"
  shows "returns (bits_SMul B a b) (int_bl (length as + length bs) (snum as * snum bs))"
proof (cases "length as + length bs \<le> 64")
  case True
  let ?k = "snum as * snum bs" and ?n = "length as + length bs"
  have fits: "?k = 0 \<or> (?n > 0 \<and> - (2 ^ (?n - 1)) \<le> ?k \<and> ?k < 2 ^ (?n - 1))"
    using snum_mult_range [of as bs] by (cases "as = [] \<or> bs = []") auto
  have "(2::int) ^ (?n - 1) \<le> 2 ^ 63" using True by (intro power_increasing) simp_all
  then have "sint (of_int ?k :: uint64) = ?k"
    using fits by (intro sint_of_int64) auto
  with fits returns_SBits [of "of_int ?k" ?n] have "returns (SBits (of_int ?k) ?n) (int_bl ?n ?k)" by auto
  with True assms show ?thesis by (simp add: bits_SMul_def rep_count ToInt64_small)
next
  case False
  let ?p = "BigInt_Mul B (BigInt_MakeSigned B a) (BigInt_MakeSigned B b)"
  have "num ?p = snum as * snum bs" using assms by (simp add: num_ops)
  with False ToSignedBitsWithBitCount_ok [of ?p "length as + length bs"] signed_width_mult [of as bs] assms
  show ?thesis by (auto simp: bits_SMul_def rep_count Let_def)
qed

lemma returns_UMul:
  assumes "rep a as" and "rep b bs"
  shows "returns (bits_UMul B a b) (nat_bl (length as + length bs) (unum as * unum bs))"
proof (cases "length as + length bs \<le> 64")
  case True
  let ?k = "unum as * unum bs" and ?n = "length as + length bs"
  have "(2::nat) ^ ?n \<le> 2 ^ 64" using True by (intro power_increasing) simp_all
  then have "unat (of_nat ?k :: uint64) = ?k"
    using unum_mult_less [of as bs] by (simp only: unat_of_nat) simp
  with returns_UBits [of "of_nat ?k" ?n] unum_mult_less [of as bs]
  have "returns (UBits (of_nat ?k) ?n) (nat_bl ?n ?k)" by simp
  with True assms show ?thesis by (simp add: bits_UMul_def rep_count ToUint64_small)
next
  case False
  let ?p = "BigInt_Mul B (BigInt_MakeUnsigned B a) (BigInt_MakeUnsigned B b)"
  have p: "num ?p = int (unum as * unum bs)" using assms by (simp add: num_ops)
  then have "num ?p \<ge> 0" and "nat (num ?p) = unum as * unum bs" by (simp_all only: nat_int of_nat_0_le_iff)
  with False ToUnsignedBitsWithBitCount_ok [of ?p "length as + length bs"] unum_mult_less [of as bs] assms
  show ?thesis by (auto simp: bits_UMul_def rep_count Let_def)
qed

lemma returns_UDiv:
  assumes "rep a as" and "rep b bs"
  shows "returns (bits_UDiv B a b)
    (if unum bs = 0 then replicate (length as) True else nat_bl (length as) (unum as div unum bs))"
proof (cases "unum bs = 0")
  case True
  with assms returns_AllOnes show ?thesis by (simp add: bits_UDiv_def rep_IsZero rep_count)
next
  case False
  let ?q = "BigInt_Div B (BigInt_MakeUnsigned B a) (BigInt_MakeUnsigned B b)"
  let ?k = "unum as div unum bs"
  have q: "num ?q = int ?k"
    using assms False
    by (cases "unum as = 0") (simp_all add: num_ops signed_divide_int_def zdiv_int)
  have "?k < 2 ^ length as" using unum_bound [of as] div_le_dividend le_less_trans by blast
  then have "length (nat_bl (bit_length ?k) ?k) \<le> length as" by (simp add: bit_length_le_iff)
  then have "returns (BigInt_ToUnsignedBits B ?q \<bind> (\<lambda>q. bits_ZeroExtend q (length as))) (nat_bl (length as) ?k)"
    using returns_ToUnsignedBits [of ?q] returns_ZeroExtend [of _ "nat_bl (bit_length ?k) ?k" "length as"]
    by (intro returns_bind) (simp_all add: q)
  with False assms show ?thesis by (simp add: bits_UDiv_def rep_IsZero rep_count)
qed

lemma returns_UMod:
  assumes "rep a as" and "rep b bs"
  shows "returns (bits_UMod B a b)
    (if unum bs = 0 then replicate (length bs) False else nat_bl (length bs) (unum as mod unum bs))"
proof (cases "unum bs = 0")
  case True
  with assms rep_new show ?thesis by (simp add: bits_UMod_def rep_IsZero rep_count)
next
  case False
  let ?q = "BigInt_Mod B (BigInt_MakeUnsigned B a) (BigInt_MakeUnsigned B b)"
  let ?k = "unum as mod unum bs"
  have q: "num ?q = int ?k"
    using assms False
    by (cases "unum as = 0") (simp_all add: num_ops signed_modulo_int_def zmod_int)
  have "?k < 2 ^ length bs" using unum_bound [of bs] False mod_less_divisor [of "unum bs" "unum as"] by linarith
  then have "length (nat_bl (bit_length ?k) ?k) \<le> length bs" by (simp add: bit_length_le_iff)
  then have "returns (BigInt_ToUnsignedBits B ?q \<bind> (\<lambda>q. bits_ZeroExtend q (length bs))) (nat_bl (length bs) ?k)"
    using returns_ToUnsignedBits [of ?q] returns_ZeroExtend [of _ "nat_bl (bit_length ?k) ?k" "length bs"]
    by (intro returns_bind) (simp_all add: q)
  with False assms show ?thesis by (simp add: bits_UMod_def rep_IsZero rep_count)
qed

lemma SEqual_iff: "rep a as \<Longrightarrow> rep b bs \<Longrightarrow> bits_SEqual B a b \<longleftrightarrow> snum as = snum bs"
  by (simp add: bits_SEqual_def BigInt_eq_def cmp_zero num_MakeSigned)

lemma SLessThan_iff:
  assumes "rep a as" and "rep b bs"
  shows "bits_SLessThan B a b = Some (snum as < snum bs)"
proof (cases "length as \<le> 64 \<and> length bs \<le> 64")
  case True
  have "sint (of_int (snum cs) :: uint64) = snum cs" if "length cs \<le> 64" for cs
  proof (cases "cs = []")
    case False
    have "(2::int) ^ (length cs - 1) \<le> 2 ^ 63" using that by (intro power_increasing) simp_all
    then show ?thesis using snum_range [OF False] by (intro sint_of_int64) linarith+
  qed simp
  with True assms show ?thesis by (simp add: bits_SLessThan_def rep_count ToInt64_small)
next
  case False
  with assms show ?thesis
    by (auto simp: bits_SLessThan_def rep_count BigInt_LessThan_def cmp_neg num_MakeSigned)
qed

lemma SLessThanOrEqual_iff:
  "rep a as \<Longrightarrow> rep b bs \<Longrightarrow> bits_SLessThanOrEqual B a b = Some (snum as \<le> snum bs)"
  by (auto simp: bits_SLessThanOrEqual_def SEqual_iff SLessThan_iff)

lemma returns_SDiv:
  assumes "rep a as" and "rep b bs"
  shows "returns (bits_SDiv B a b) (int_bl (length as)
    (if snum bs \<noteq> 0 then snum as sdiv snum bs
     else if snum as < 0 then - (2 ^ (length as - 1)) else 2 ^ (length as - 1) - 1))"
proof (cases "unum bs = 0")
  case False
  let ?q = "BigInt_Div B (BigInt_MakeSigned B a) (BigInt_MakeSigned B b)"
  have "num ?q = snum as sdiv snum bs"
    using assms False by (simp add: num_ops snum_eq_0_iff)
  from returns_signed_result [OF this] False assms show ?thesis
    by (simp add: bits_SDiv_def rep_IsZero rep_count snum_eq_0_iff)
next
  case True
  show ?thesis
  proof (cases "length as")
    case 0
    with True assms returns_zeros [of 0] show ?thesis
      by (simp add: bits_SDiv_def rep_IsZero rep_count int_bl_def)
  next
    case (Suc m)
    obtain z where z: "UBits 0 (Suc m) = Some z" "rep z (replicate (Suc m) False)"
      using returns_zeros [of "Suc m"] by (rule returns_bindE)
    have z0: "snum (replicate (Suc m) False) = 0" by (simp add: snum_eq_0_iff del: replicate_Suc)
    have "int_bl (Suc m) (- (2 ^ m)) = replicate m False @ [True]"
      using int_bl_negative [of "2 ^ m - 1" m] nat_bl_unum [of "replicate m True"] by (simp add: of_nat_diff)
    then have min: "returns (UBits 1 1 \<bind> (\<lambda>one. UBits 0 m \<bind> (\<lambda>zeros. bits_Concat [one, zeros])))
        (int_bl (Suc m) (- (2 ^ m)))"
      using returns_Concat2_bind [OF returns_bit [of True, simplified] returns_zeros [of m]] by simp
    have "int_bl (Suc m) (2 ^ m - 1) = nat_bl (Suc m) (unum (replicate m True))"
      by (simp add: of_nat_diff flip: int_bl_of_nat)
    then have max: "returns (Bits_AllOnes m \<bind> (\<lambda>ones. bits_ZeroExtend ones (Suc m))) (int_bl (Suc m) (2 ^ m - 1))"
      using returns_bind [OF returns_AllOnes, of m "\<lambda>ones. bits_ZeroExtend ones (Suc m)"]
        returns_ZeroExtend [of _ "replicate m True" "Suc m"] by simp
    show ?thesis
      using True Suc z(1) min max assms SLessThan_iff [OF assms(1) z(2)]
      by (simp add: bits_SDiv_def rep_IsZero rep_count z0 snum_eq_0_iff del: replicate_Suc)
  qed
qed

lemma returns_SMod:
  assumes "rep a as" and "rep b bs"
  shows "returns (bits_SMod B a b)
    (if snum bs = 0 then replicate (length bs) False else int_bl (length bs) (snum as smod snum bs))"
proof (cases "snum bs = 0")
  case True
  with assms rep_new show ?thesis by (simp add: bits_SMod_def rep_IsZero rep_count snum_eq_0_iff)
next
  case False
  let ?q = "BigInt_Mod B (BigInt_MakeSigned B a) (BigInt_MakeSigned B b)"
  have "num ?q = snum as smod snum bs"
    using assms False by (simp add: num_ops)
  from returns_signed_result [OF this] False assms show ?thesis
    by (simp add: bits_SMod_def rep_IsZero rep_count snum_eq_0_iff)
qed

lemma returns_Negate:
  assumes "rep b bs"
  shows "returns (bits_Negate B b) (int_bl (length bs) (- snum bs))"
proof (cases "length bs < 64")
  case True
  with returns_UBits_masked [of "length bs" "- snum bs"] assms show ?thesis
    by (simp add: bits_Negate_def rep_count ToInt64_small)
next
  case False
  have "num (BigInt_Negate B (BigInt_MakeSigned B b)) = - snum bs"
    using assms by (simp add: num_ops)
  from returns_signed_result [OF this] False assms show ?thesis
    by (simp add: bits_Negate_def rep_count)
qed

lemma returns_Abs:
  assumes "rep b bs" and "bs \<noteq> []"
  shows "returns (bits_Abs B b) (int_bl (length bs) \<bar>snum bs\<bar>)"
  using returns_Negate [OF assms(1)] assms snum_neg_iff [of bs]
  by (auto simp: bits_Abs_def Bits_GetFromMsb_def rep_count rep_get last_conv_nth)

end


section \<open>Correctness of comparison\<close>

lemma UCmp_rep: "rep a as \<Longrightarrow> rep b bs \<Longrightarrow> InlineBitmap_UCmp a b = compare_nat (unum as) (unum bs)"
  by (simp add: InlineBitmap_UCmp_eq rep_bits)

lemma UEqual_iff [bits_val]: "rep a as \<Longrightarrow> rep b bs \<Longrightarrow> bits_UEqual a b \<longleftrightarrow> unum as = unum bs"
  by (simp add: bits_UEqual_def UCmp_rep compare_nat_def)

lemma ULessThan_iff [bits_val]: "rep a as \<Longrightarrow> rep b bs \<Longrightarrow> bits_ULessThan a b \<longleftrightarrow> unum as < unum bs"
  by (simp add: bits_ULessThan_def UCmp_rep compare_nat_def)

lemma ULessThanOrEqual_iff [bits_val]:
  "rep a as \<Longrightarrow> rep b bs \<Longrightarrow> bits_ULessThanOrEqual a b \<longleftrightarrow> unum as \<le> unum bs"
  by (auto simp: bits_ULessThanOrEqual_def UCmp_rep compare_nat_def)

lemma UGreaterThan_iff [bits_val]: "rep a as \<Longrightarrow> rep b bs \<Longrightarrow> bits_UGreaterThan a b \<longleftrightarrow> unum bs < unum as"
  by (auto simp: bits_UGreaterThan_def ULessThanOrEqual_iff)

lemma UGreaterThanOrEqual_iff [bits_val]:
  "rep a as \<Longrightarrow> rep b bs \<Longrightarrow> bits_UGreaterThanOrEqual a b \<longleftrightarrow> unum bs \<le> unum as"
  by (auto simp: bits_UGreaterThanOrEqual_def ULessThan_iff)

lemma ubits64_ok:
  assumes "sint rhs \<ge> 0"
  shows "\<exists>r. ubits64 rhs = Some r \<and> rep r (nat_bl 64 (unat rhs))"
  using returns_UBits [of rhs 64] unat_bound64 [of rhs] assms
  by (auto simp: ubits64_def elim: returns_bindE)

lemma ubits64_error: "sint rhs < 0 \<Longrightarrow> ubits64 rhs = None"
  by (simp add: ubits64_def)

lemma UCmp_int64_iff:
  assumes "rep a as" and "sint rhs \<ge> 0"
  shows "bits_UEqual_int64 a rhs = Some (int (unum as) = sint rhs)"
    and "bits_ULessThan_int64 a rhs = Some (int (unum as) < sint rhs)"
    and "bits_ULessThanOrEqual_int64 a rhs = Some (int (unum as) \<le> sint rhs)"
    and "bits_UGreaterThan_int64 a rhs = Some (int (unum as) > sint rhs)"
    and "bits_UGreaterThanOrEqual_int64 a rhs = Some (int (unum as) \<ge> sint rhs)"
proof -
  obtain r where r: "ubits64 rhs = Some r" "rep r (nat_bl 64 (unat rhs))"
    using ubits64_ok [OF assms(2)] by blast
  have u: "unum (nat_bl 64 (unat rhs)) = unat rhs" using unat_bound64 [of rhs] by simp
  have "\<not> bit rhs 63" using assms(2) uint64_bound [of rhs] by (auto simp: sint_uint64 split: if_splits)
  then have s: "sint rhs = int (unat rhs)" by (simp add: sint_uint64)
  show "bits_UEqual_int64 a rhs = Some (int (unum as) = sint rhs)"
    "bits_ULessThan_int64 a rhs = Some (int (unum as) < sint rhs)"
    "bits_ULessThanOrEqual_int64 a rhs = Some (int (unum as) \<le> sint rhs)"
    "bits_UGreaterThan_int64 a rhs = Some (int (unum as) > sint rhs)"
    "bits_UGreaterThanOrEqual_int64 a rhs = Some (int (unum as) \<ge> sint rhs)"
    unfolding s of_nat_eq_iff of_nat_less_iff of_nat_le_iff using r(1)
    by (simp_all add: assms u bits_UEqual_int64_def bits_ULessThan_int64_def bits_ULessThanOrEqual_int64_def
        bits_UGreaterThan_int64_def bits_UGreaterThanOrEqual_int64_def UEqual_iff [OF assms(1) r(2)]
        ULessThan_iff [OF assms(1) r(2)] ULessThanOrEqual_iff [OF assms(1) r(2)]
        UGreaterThan_iff [OF assms(1) r(2)] UGreaterThanOrEqual_iff [OF assms(1) r(2)]
        del: unum_nat_bl)
qed

section \<open>Correctness of one-hot encodings, slices and prefixes\<close>

lemma find_high_Some: "find_high p n = Some i \<longleftrightarrow> i < n \<and> p i \<and> (\<forall>j. i < j \<and> j < n \<longrightarrow> \<not> p j)"
  by (induction n) (auto simp: less_Suc_eq)

lemma find_high_None: "find_high p n = None \<longleftrightarrow> (\<forall>j<n. \<not> p j)"
  by (induction n) (auto simp: less_Suc_eq)

lemma returns_OneHotLsbToMsb [bits_rep]:
  assumes "rep b bs"
  shows "returns (bits_OneHotLsbToMsb b) (nat_bl (length bs + 1) (2 ^ first_index ((!) bs) (length bs)))"
proof -
  have "first_index (Bits_Get b) (length bs) = first_index ((!) bs) (length bs)"
    using assms by (intro first_index_cong) (simp_all add: rep_get)
  with returns_PowerOfTwo [of "first_index ((!) bs) (length bs)" "length bs + 1"] assms show ?thesis
    by (simp add: bits_OneHotLsbToMsb_def rep_count less_Suc_eq_le)
qed

lemma returns_OneHotMsbToLsb [bits_rep]:
  assumes "rep b bs"
  shows "returns (bits_OneHotMsbToLsb b)
    (nat_bl (length bs + 1) (2 ^ (case find_high ((!) bs) (length bs) of Some i \<Rightarrow> i | None \<Rightarrow> length bs)))"
proof -
  have cong: "find_high (Bits_Get b) n = find_high ((!) bs) n" if "n \<le> length bs" for n
    using that assms by (induction n) (simp_all add: rep_get)
  have "(case find_high ((!) bs) (length bs) of Some i \<Rightarrow> i | None \<Rightarrow> length bs) < length bs + 1"
    by (auto simp: find_high_Some split: option.split)
  from returns_PowerOfTwo [OF this] cong [of "length bs"] assms show ?thesis
    by (auto simp: bits_OneHotMsbToLsb_def rep_count split: option.split)
qed

lemma rep_Reverse [bits_rep]: "rep b bs \<Longrightarrow> rep (bits_Reverse b) (rev bs)"
  by (simp add: bits_Reverse_def rep_ToBitVector rep_FromSpan)

lemma returns_BitSliceUpdate [bits_rep]:
  assumes "rep b bs" and "rep u us"
  shows "returns (bits_BitSliceUpdate b start u)
    (take (length bs) (take start bs @ us @ drop (start + length us) bs))"
proof (cases "start \<ge> length bs")
  case True
  with assms show ?thesis by (simp add: bits_BitSliceUpdate_def rep_count)
next
  case False
  let ?n = "length bs" let ?k = "min (length us) (?n - start)" let ?m = "min ?n (start + length us)"
  obtain l where l: "Bits_Slice b 0 start = Some l" "rep l (take start bs)"
    using returns_Slice [OF assms(1), of 0 start] False by (auto elim: returns_bindE)
  obtain v where v: "Bits_Slice u 0 ?k = Some v" "rep v (take ?k us)"
    using returns_Slice [OF assms(2), of 0 ?k] by (auto elim: returns_bindE)
  obtain h where h: "Bits_Slice b ?m (?n - ?m) = Some h" "rep h (drop ?m bs)"
    using returns_Slice [OF assms(1), of ?m "?n - ?m"] by (auto elim: returns_bindE)
  have "returns (bits_Concat [h, v, l]) (take start bs @ take ?k us @ drop ?m bs)"
    using returns_Concat [of "[h, v, l]" "[drop ?m bs, take ?k us, take start bs]"] l v h by simp
  moreover have "take start bs @ take ?k us @ drop ?m bs =
      take ?n (take start bs @ us @ drop (start + length us) bs)"
    using False by (cases "start + length us \<le> ?n") (auto simp: min_def)
  ultimately show ?thesis
    using False l(1) v(1) h(1) assms by (simp add: bits_BitSliceUpdate_def rep_count Let_def)
qed

lemma returns_DropLeadingZeroes [bits_rep]:
  assumes "rep b bs"
  shows "\<exists>cs k. returns (bits_DropLeadingZeroes b) cs \<and> bs = cs @ replicate k False \<and> (cs \<noteq> [] \<longrightarrow> last cs)"
proof (cases "find_high (Bits_Get b) (bm_count b)")
  case None
  then have "\<forall>j<length bs. \<not> bs ! j" using assms by (simp add: find_high_None rep_count rep_get)
  then have "bs = [] @ replicate (length bs) False" by (simp add: list_eq_iff_nth_eq)
  then show ?thesis using None rep_new [of 0]
    by (intro exI [of _ "[]"] exI [of _ "length bs"]) (simp add: bits_DropLeadingZeroes_def)
next
  case (Some i)
  then have i: "i < length bs" "bs ! i" "\<forall>j. i < j \<and> j < length bs \<longrightarrow> \<not> bs ! j"
    using assms rep_get [OF assms] by (auto simp: find_high_Some rep_count)
  have "bs = take (i + 1) bs @ replicate (length bs - (i + 1)) False"
    using i by (intro nth_equalityI) (auto simp: nth_append)
  moreover have "last (take (i + 1) bs)" using i by (simp add: take_Suc_conv_app_nth)
  ultimately show ?thesis
    using returns_Slice [OF assms, of 0 "i + 1"] i(1) Some
    by (intro exI [of _ "take (i + 1) bs"] exI [of _ "length bs - (i + 1)"])
      (simp add: bits_DropLeadingZeroes_def)
qed

section \<open>Properties\<close>

text \<open>The bitwise operations act on each bit, on the word path and on the byte path alike, and
  abort when the widths differ.\<close>

lemma bitwise_ops_pointwise:
  assumes "rep a as" and "rep b bs" and "length as = length bs"
  shows "returns (bits_And a b) (map2 (\<and>) as bs) \<and> returns (bits_Or a b) (map2 (\<or>) as bs) \<and>
    returns (bits_Xor a b) (map2 (\<noteq>) as bs) \<and> returns (bits_Nand a b) (map2 (\<lambda>x y. \<not> (x \<and> y)) as bs) \<and>
    returns (bits_Nor a b) (map2 (\<lambda>x y. \<not> (x \<or> y)) as bs) \<and> returns (bits_Not a) (map Not as)"
  using assms by (intro conjI returns_And returns_Or returns_Xor returns_Nand returns_Nor returns_Not)

text \<open>C18: \<open>Add\<close>, \<open>Sub\<close>, \<open>Mul\<close> and \<open>Negate\<close> are arithmetic modulo a power of two, whether the
  operands take the 64-bit path or the \<open>BigInt\<close> path.\<close>

theorem arithmetic_modular:
  assumes "bignum B num" and "rep a as" and "rep b bs" and "length as = length bs"
  shows "returns (bits_Add B a b) (nat_bl (length as) (unum as + unum bs)) \<and>
    returns (bits_Sub B a b) (int_bl (length as) (int (unum as) - int (unum bs))) \<and>
    returns (bits_Mul B a b) (nat_bl (length as) (unum as * unum bs)) \<and>
    returns (bits_Negate B a) (int_bl (length as) (- snum as))"
  using bignum.returns_Add [OF assms] bignum.returns_Sub [OF assms] bignum.returns_Mul [OF assms]
    bignum.returns_Negate [OF assms(1,2)] by simp

theorem arithmetic_modular_witness:
  "returns (bits_Add int_bn (Bits_FromSpan (replicate 70 True)) (Bits_FromSpan (replicate 70 True)))
     (nat_bl 70 (2 ^ 70 - 1 + (2 ^ 70 - 1)))"
  using arithmetic_modular [OF int_bignum.bignum_axioms rep_FromSpan rep_FromSpan,
      of "replicate 70 True" "replicate 70 True"]
  by (simp only: unum_replicate_True length_replicate simp_thms)

text \<open>C26: \<open>UMul\<close> and \<open>SMul\<close> return the exact unsigned and signed product in the sum of the
  widths; the conversions they use cannot fail.\<close>

theorem widening_products_exact:
  assumes "bignum B num" and "rep a as" and "rep b bs"
  shows "returns (bits_UMul B a b) (nat_bl (length as + length bs) (unum as * unum bs)) \<and>
    unum as * unum bs < 2 ^ (length as + length bs) \<and>
    returns (bits_SMul B a b) (int_bl (length as + length bs) (snum as * snum bs)) \<and>
    snum (int_bl (length as + length bs) (snum as * snum bs)) = snum as * snum bs"
proof (intro conjI)
  show "snum (int_bl (length as + length bs) (snum as * snum bs)) = snum as * snum bs"
  proof (cases "snum as * snum bs = 0")
    case True
    then show ?thesis by (simp only: snum_eq_0_iff int_bl_of_nat [of _ 0, simplified] unum_replicate_False)
  next
    case False
    then have "as \<noteq> []" "bs \<noteq> []" by auto
    from snum_mult_range [OF this] this show ?thesis by (intro snum_int_bl) simp_all
  qed
qed (use bignum.returns_UMul [OF assms] bignum.returns_SMul [OF assms] unum_mult_less in blast)+

theorem widening_products_exact_witness:
  "returns (bits_UMul int_bn (Bits_FromSpan [True, True]) (Bits_FromSpan [True, False, True]))
     [True, True, True, True, False]"
  using widening_products_exact [OF int_bignum.bignum_axioms rep_FromSpan rep_FromSpan, of "[True, True]" "[True, False, True]"]
  by (simp add: nat_bl_def bit_iff_odd)

text \<open>C19: division and remainder: the unsigned ones are those of the natural numbers, the signed
  ones truncate toward zero (and wrap for the quotient of the least value by -1), and division by
  zero gives the all-ones, largest or smallest value, its remainder zero.\<close>

theorem division_exact:
  assumes "bignum B num" and "rep a as" and "rep b bs"
  shows "returns (bits_UDiv B a b)
      (if unum bs = 0 then replicate (length as) True else nat_bl (length as) (unum as div unum bs)) \<and>
    returns (bits_UMod B a b)
      (if unum bs = 0 then replicate (length bs) False else nat_bl (length bs) (unum as mod unum bs)) \<and>
    returns (bits_SDiv B a b) (int_bl (length as)
      (if snum bs \<noteq> 0 then snum as sdiv snum bs
       else if snum as < 0 then - (2 ^ (length as - 1)) else 2 ^ (length as - 1) - 1)) \<and>
    returns (bits_SMod B a b)
      (if snum bs = 0 then replicate (length bs) False else int_bl (length bs) (snum as smod snum bs))"
  using bignum.returns_UDiv [OF assms] bignum.returns_UMod [OF assms] bignum.returns_SDiv [OF assms]
    bignum.returns_SMod [OF assms] by blast

theorem division_exact_witness:
  "returns (bits_UDiv int_bn (Bits_FromSpan [True, True, True]) (Bits_FromSpan [False, True])) (nat_bl 3 3)"
  using division_exact [OF int_bignum.bignum_axioms rep_FromSpan rep_FromSpan, of "[True, True, True]" "[False, True]"]
  by (simp add: numeral_2_eq_2 [symmetric] numeral_3_eq_3 [symmetric])

text \<open>C29: the comparisons decide the order of the unsigned and of the signed values, for operands
  of different widths too.\<close>

theorem comparisons_exact:
  assumes "bignum B num" and "rep a as" and "rep b bs"
  shows "(bits_UEqual a b \<longleftrightarrow> unum as = unum bs) \<and> (bits_ULessThan a b \<longleftrightarrow> unum as < unum bs) \<and>
    (bits_ULessThanOrEqual a b \<longleftrightarrow> unum as \<le> unum bs) \<and> (bits_UGreaterThan a b \<longleftrightarrow> unum bs < unum as) \<and>
    (bits_UGreaterThanOrEqual a b \<longleftrightarrow> unum bs \<le> unum as) \<and> (bits_SEqual B a b \<longleftrightarrow> snum as = snum bs) \<and>
    bits_SLessThan B a b = Some (snum as < snum bs) \<and> bits_SLessThanOrEqual B a b = Some (snum as \<le> snum bs) \<and>
    bits_SGreaterThan B a b = Some (snum bs < snum as) \<and>
    bits_SGreaterThanOrEqual B a b = Some (snum bs \<le> snum as)"
  using assms(2,3) bignum.SEqual_iff [OF assms] bignum.SLessThan_iff [OF assms] bignum.SLessThanOrEqual_iff [OF assms]
  by (auto simp: bits_val bits_SGreaterThan_def bits_SGreaterThanOrEqual_def)

theorem comparisons_exact_witness:
  "bits_ULessThan (Bits_FromSpan [True]) (Bits_FromSpan [False, True]) \<and>
   bits_SLessThan int_bn (Bits_FromSpan [True]) (Bits_FromSpan [True, False]) = Some True"
  using comparisons_exact [OF int_bignum.bignum_axioms rep_FromSpan rep_FromSpan, of "[True]" "[False, True]"]
    comparisons_exact [OF int_bignum.bignum_axioms rep_FromSpan rep_FromSpan, of "[True]" "[True, False]"]
  by (simp add: snum_def)

text \<open>Shifts by any amount are multiplication, unsigned and signed floor division by a power
  of two; extension keeps the unsigned (signed) value; \<open>Concat\<close> puts its first operand at the
  most significant end; \<open>BitSliceUpdate\<close> overwrites the bits that are in range.\<close>

lemma structural_ops_exact:
  assumes "rep a as" and "rep b bs"
  shows "returns (bits_ShiftLeftLogical a k) (nat_bl (length as) (unum as * 2 ^ k)) \<and>
    returns (bits_ShiftRightLogical a k) (nat_bl (length as) (unum as div 2 ^ k)) \<and>
    returns (bits_ShiftRightArith a k) (int_bl (length as) (snum as div 2 ^ k)) \<and>
    returns (bits_ZeroExtend a (length as + k)) (nat_bl (length as + k) (unum as)) \<and>
    returns (bits_SignExtend a (length as + k)) (int_bl (length as + k) (snum as)) \<and>
    returns (bits_Concat [a, b]) (bs @ as) \<and>
    returns (bits_BitSliceUpdate a k b) (take (length as) (take k as @ bs @ drop (k + length bs) as))"
  using assms by (intro conjI returns_ShiftLeftLogical returns_ShiftRightLogical returns_ShiftRightArith
      returns_ZeroExtend returns_SignExtend returns_Concat2 returns_BitSliceUpdate) simp_all

end
