(* ===== verification/Xls_Format.thy ===== *)
theory Xls_Format
  imports Xls_Type Xls_Bits_Ops
begin

text \<open>
  Numbers as text: \<open>xls/ir/format_preference.{h,cc}\<close>, \<open>xls/ir/format_strings.cc\<close>, the printers of
  \<open>xls/ir/bits.cc\<close>, \<open>xls/common/string_to_int.cc\<close> and \<open>xls/ir/number_parser.cc\<close>. Strings are lists of
  characters. A function that returns a \<open>StatusOr\<close> and can also abort has type \<open>'a statusor option\<close>.
\<close>

section \<open>Format preferences\<close>

datatype format_preference =
  kDefault | kBinary | kSignedDecimal | kUnsignedDecimal | kHex | kPlainBinary | kPlainHex

definition FormatPreferenceToString :: "format_preference \<Rightarrow> string" where
  "FormatPreferenceToString p = (case p of
     kDefault \<Rightarrow> ''default'' | kBinary \<Rightarrow> ''binary'' | kSignedDecimal \<Rightarrow> ''signed-decimal''
   | kUnsignedDecimal \<Rightarrow> ''unsigned-decimal'' | kHex \<Rightarrow> ''hex'' | kPlainBinary \<Rightarrow> ''plain_binary'' | kPlainHex \<Rightarrow> ''plain_hex'')"

definition FormatPreferenceToXlsSpecifier :: "format_preference \<Rightarrow> string" where
  "FormatPreferenceToXlsSpecifier p = (case p of
     kDefault \<Rightarrow> ''{}'' | kBinary \<Rightarrow> ''{:#b}'' | kUnsignedDecimal \<Rightarrow> ''{:u}'' | kSignedDecimal \<Rightarrow> ''{:d}''
   | kHex \<Rightarrow> ''{:#x}'' | kPlainBinary \<Rightarrow> ''{:b}'' | kPlainHex \<Rightarrow> ''{:x}'')"

definition FormatPreferenceToVerilogSpecifier :: "format_preference \<Rightarrow> string" where
  "FormatPreferenceToVerilogSpecifier p = (case p of
     kDefault \<Rightarrow> ''%d'' | kSignedDecimal \<Rightarrow> ''%d'' | kUnsignedDecimal \<Rightarrow> ''%u'' | kBinary \<Rightarrow> ''0b%b''
   | kHex \<Rightarrow> ''0x%h'' | kPlainBinary \<Rightarrow> ''%b'' | kPlainHex \<Rightarrow> ''%h'')"

definition FormatPreferenceFromString :: "string \<Rightarrow> format_preference statusor" where
  "FormatPreferenceFromString s =
     (if s = ''default'' then Inr kDefault
      else if s = ''binary'' then Inr kBinary
      else if s = ''hex'' then Inr kHex
      else if s = ''signed-decimal'' then Inr kSignedDecimal
      else if s = ''unsigned-decimal'' then Inr kUnsignedDecimal
      else if s = ''plain_binary'' then Inr kPlainBinary
      else if s = ''plain_hex'' then Inr kPlainHex
      else Inl InvalidArgument)"

section \<open>Format strings\<close>

datatype format_step = Fragment string | Argument format_preference

definition push_fragment :: "string \<Rightarrow> format_step list \<Rightarrow> format_step list" where
  "push_fragment fragment steps = (if fragment \<noteq> [] then steps @ [Fragment fragment] else steps)"

text \<open>The rest of the string after a marker that stands at its front.\<close>

definition consume_substr :: "string \<Rightarrow> string \<Rightarrow> string option" where
  "consume_substr m s = (if take (length m) s = m then Some (drop (length m) s) else None)"

lemma consume_substr_length: "consume_substr m s = Some r \<Longrightarrow> m \<noteq> [] \<Longrightarrow> length r < length s"
  by (cases m; cases s) (auto simp: consume_substr_def split: if_splits)

text \<open>The markers in the order in which the loop tries them: a brace for the fragment, or an argument.\<close>

definition format_markers :: "(string \<times> (char + format_preference)) list" where
  "format_markers =
     [(''{{'', Inl (CHR ''{'')), (''}}'', Inl (CHR ''}'')), (''{}'', Inr kDefault), (''{:u}'', Inr kUnsignedDecimal),
      (''{:d}'', Inr kSignedDecimal), (''{:x}'', Inr kPlainHex), (''{:#x}'', Inr kHex), (''{:b}'', Inr kPlainBinary),
      (''{:#b}'', Inr kBinary)]"

fun consume_marker :: "(string \<times> 'a) list \<Rightarrow> string \<Rightarrow> ('a \<times> string) option" where
  "consume_marker [] s = None"
| "consume_marker ((m, a) # ms) s =
     (case consume_substr m s of Some r \<Rightarrow> Some (a, r) | None \<Rightarrow> consume_marker ms s)"

lemma consume_marker_length:
  "consume_marker ms s = Some (a, r) \<Longrightarrow> (\<And>m a. (m, a) \<in> set ms \<Longrightarrow> m \<noteq> []) \<Longrightarrow> length r < length s"
  by (induction ms s rule: consume_marker.induct) (auto split: option.splits dest: consume_substr_length)

lemma format_marker_length: "consume_marker format_markers s = Some (a, r) \<Longrightarrow> length r < length s"
  by (erule consume_marker_length) (auto simp: format_markers_def)

function ParseFormatString_loop :: "string \<Rightarrow> string \<Rightarrow> format_step list \<Rightarrow> format_step list statusor" where
  "ParseFormatString_loop s fragment steps =
     (case s of
        [] \<Rightarrow> Inr (push_fragment fragment steps)
      | c # cs \<Rightarrow>
          (case consume_marker format_markers s of
             Some (Inl brace, r) \<Rightarrow> ParseFormatString_loop r (fragment @ [brace]) steps
           | Some (Inr p, r) \<Rightarrow> ParseFormatString_loop r '''' (push_fragment fragment steps @ [Argument p])
           | None \<Rightarrow>
               if c = CHR ''{'' then Inl InvalidArgument
               else if c = CHR ''}'' then Inl InvalidArgument
               else ParseFormatString_loop cs (fragment @ [c]) steps))"
  by pat_completeness auto
termination
  by (relation "measure (\<lambda>(s, fragment, steps). length s)") (auto dest!: format_marker_length)

declare ParseFormatString_loop.simps [simp del]

definition ParseFormatString :: "string \<Rightarrow> format_step list statusor" where
  "ParseFormatString format_string = ParseFormatString_loop format_string '''' []"

definition OperandsExpectedByFormat :: "format_step list \<Rightarrow> nat" where
  "OperandsExpectedByFormat format = length (filter (\<lambda>step. case step of Argument p \<Rightarrow> True | Fragment s \<Rightarrow> False) format)"

definition StepsToXlsFormatString :: "format_step list \<Rightarrow> string" where
  "StepsToXlsFormatString format = concat (map (\<lambda>step. case step of
     Argument p \<Rightarrow> FormatPreferenceToXlsSpecifier p | Fragment s \<Rightarrow> s) format)"

definition StepsToVerilogFormatString :: "format_step list \<Rightarrow> string" where
  "StepsToVerilogFormatString format = concat (map (\<lambda>step. case step of
     Argument p \<Rightarrow> FormatPreferenceToVerilogSpecifier p | Fragment s \<Rightarrow> s) format)"

section \<open>Printing bits\<close>

fun ToRawDigits_loop :: "bits \<Rightarrow> nat \<Rightarrow> bool \<Rightarrow> nat \<Rightarrow> bool \<Rightarrow> string \<Rightarrow> string option" where
  "ToRawDigits_loop b digit_width include_separators 0 eliding_leading_zeros result = Some result"
| "ToRawDigits_loop b digit_width include_separators (Suc digit_no) eliding_leading_zeros result = do {
     let result = (if include_separators \<and> (digit_no + 1) mod 4 = 0 \<and> result \<noteq> '''' then result @ ''_'' else result);
     let start = digit_no * digit_width;
     let width = min digit_width (bm_count b - start);
     digit \<leftarrow> Bits_Slice b start width;
     digit_value \<leftarrow> status_value (Bits_ToUint64 digit);
     if digit_value = 0 \<and> eliding_leading_zeros \<and> digit_no \<noteq> 0
     then ToRawDigits_loop b digit_width include_separators digit_no eliding_leading_zeros result
     else ToRawDigits_loop b digit_width include_separators digit_no False (result @ num_string 16 (unat digit_value))
   }"

definition Bits_ToRawDigits :: "bits \<Rightarrow> format_preference \<Rightarrow> bool \<Rightarrow> string option" where
  "Bits_ToRawDigits b preference emit_leading_zeros = do {
     CHECK (preference \<noteq> kDefault);
     if preference = kSignedDecimal then do {
       CHECK (\<not> emit_leading_zeros);
       CHECK (Bits_FitsInInt64 b);
       v \<leftarrow> status_value (Bits_ToInt64 b);
       Some (if sint v < 0 then ''-'' @ dec_string (nat (- sint v)) else dec_string (nat (sint v)))
     }
     else if preference = kUnsignedDecimal then do {
       CHECK (\<not> emit_leading_zeros);
       CHECK (Bits_FitsInUint64 b);
       v \<leftarrow> status_value (Bits_ToUint64 b);
       Some (dec_string (unat v))
     }
     else if bm_count b = 0 then Some ''0''
     else do {
       let binary_format = (preference = kBinary \<or> preference = kPlainBinary);
       let hex_format = (preference = kHex \<or> preference = kPlainHex);
       let plain_format = (preference = kPlainBinary \<or> preference = kPlainHex);
       CHECK (binary_format \<or> hex_format);
       let digit_width = (if binary_format then 1 else 4);
       let digit_count = ceil_ratio (bm_count b) digit_width;
       ToRawDigits_loop b digit_width (\<not> plain_format) digit_count (\<not> emit_leading_zeros) ''''
     }
   }"

definition Bits_ToString :: "bits \<Rightarrow> format_preference \<Rightarrow> bool \<Rightarrow> string option" where
  "Bits_ToString b preference include_bit_count = do {
     let preference = (if preference = kDefault then (if bm_count b \<le> 64 then kUnsignedDecimal else kHex) else preference);
     digits \<leftarrow> Bits_ToRawDigits b preference False;
     Some ((if preference = kBinary then ''0b'' else if preference = kHex then ''0x'' else '''') @ digits @
       (if include_bit_count then '' ['' @ dec_string (bm_count b) @ '' bits]'' else ''''))
   }"

section \<open>Reading machine integers\<close>

definition char_to_digit :: "nat \<Rightarrow> char \<Rightarrow> nat statusor option" where
  "char_to_digit base c =
     (let k = of_char c :: nat;
          check = (\<lambda>digit. if digit < base then Inr digit else Inl InvalidArgument)
      in if base \<in> {2, 8, 10} then Some (if k < 48 then Inl InvalidArgument else check (k - 48))
         else if base = 16 then
           Some (if 97 \<le> k \<and> k \<le> 102 then check (k - 97 + 10)
                 else if 65 \<le> k \<and> k \<le> 70 then check (k - 65 + 10)
                 else if 48 \<le> k \<and> k \<le> 57 then check (k - 48)
                 else Inl InvalidArgument)
         else None)"

text \<open>The accumulator is a 128-bit integer of which the upper half stays zero.\<close>

fun StrTo64Base_loop :: "nat \<Rightarrow> string \<Rightarrow> nat \<Rightarrow> nat statusor option" where
  "StrTo64Base_loop base [] accum = Some (Inr accum)"
| "StrTo64Base_loop base (c # s) accum =
     (case char_to_digit base c of
        None \<Rightarrow> None
      | Some (Inl e) \<Rightarrow> Some (Inl e)
      | Some (Inr digit) \<Rightarrow>
          let accum = accum * base + digit
          in if accum div 2 ^ 64 \<noteq> 0 then Some (Inl InvalidArgument) else StrTo64Base_loop base s accum)"

definition ConsumePrefix :: "string \<Rightarrow> string \<Rightarrow> string" where
  "ConsumePrefix p s = (case consume_substr p s of Some r \<Rightarrow> r | None \<Rightarrow> s)"

definition StrTo64Base :: "string \<Rightarrow> nat \<Rightarrow> uint64 statusor option" where
  "StrTo64Base s base =
     (if s = ''0'' \<or> s = ''-0'' then Some (Inr 0)
      else
        let negated = (consume_substr ''-'' s \<noteq> None);
            s = ConsumePrefix ''-'' s;
            (s, base) =
              (if base = 0 then
                 (case consume_substr ''0b'' s of Some r \<Rightarrow> (r, 2) | None \<Rightarrow>
                  case consume_substr ''0x'' s of Some r \<Rightarrow> (r, 16) | None \<Rightarrow>
                  case consume_substr ''0'' s of Some r \<Rightarrow> (r, 8) | None \<Rightarrow> (s, 10))
               else if base = 16 then (ConsumePrefix ''0x'' s, base)
               else if base = 8 then (ConsumePrefix ''0'' s, base)
               else if base = 2 then (ConsumePrefix ''0b'' s, base)
               else (s, base))
        in if base < 2 then Some (Inl Internal)
           else if s = '''' then Some (Inl InvalidArgument)
           else
             (case StrTo64Base_loop base s 0 of
                None \<Rightarrow> None
              | Some (Inl e) \<Rightarrow> Some (Inl e)
              | Some (Inr accum) \<Rightarrow>
                  Some (Inr (if negated then - of_nat accum else of_nat accum))))"

section \<open>Reading numbers of any width\<close>

text \<open>\<open>absl::SimpleAtoi\<close> on a string of one character: a decimal digit or a failure.\<close>

definition SimpleAtoi_char :: "char \<Rightarrow> uint64 option" where
  "SimpleAtoi_char c =
     (let k = of_char c :: nat in if 48 \<le> k \<and> k \<le> 57 then Some (of_nat (k - 48)) else None)"

fun ParseDecimal_loop :: "'b bn_api \<Rightarrow> string \<Rightarrow> bits \<Rightarrow> bits statusor option" where
  "ParseDecimal_loop B [] result = Some (Inr result)"
| "ParseDecimal_loop B (c # s) result = do {
     bits_10 \<leftarrow> UBits 10 8;
     result \<leftarrow> bits_UMul B result bits_10;
     case SimpleAtoi_char c of
       None \<Rightarrow> Some (Inl InvalidArgument)
     | Some magnitude \<Rightarrow> do {
         new_char \<leftarrow> UBits magnitude (bm_count result);
         result \<leftarrow> bits_Add B result new_char;
         result \<leftarrow> bits_DropLeadingZeroes result;
         ParseDecimal_loop B s result
       }
   }"

function ParseChunks :: "nat \<Rightarrow> nat \<Rightarrow> string \<Rightarrow> bits list \<Rightarrow> bits list statusor option" where
  "ParseChunks base base_bits s chunks =
     (let step_size = 64 div base_bits
      in if s = '''' \<or> step_size = 0 then Some (Inr chunks)
         else do {
           let chunk_length = min step_size (length s);
           chunk_value_or \<leftarrow> StrTo64Base (take chunk_length s) base;
           case chunk_value_or of
             Inl e \<Rightarrow> Some (Inl InvalidArgument)
           | Inr chunk_value \<Rightarrow> do {
               chunk \<leftarrow> UBits chunk_value (chunk_length * base_bits);
               ParseChunks base base_bits (drop chunk_length s) (chunks @ [chunk])
             }
         })"
  by pat_completeness auto
termination
  by (relation "measure (\<lambda>(base, base_bits, s, chunks). length s)") auto

declare ParseChunks.simps [simp del]

text \<open>\<open>None\<close> as bit count is the constant \<open>kMinimumBitCount\<close>.\<close>

definition ParseUnsignedNumberHelper ::
    "'b bn_api \<Rightarrow> string \<Rightarrow> format_preference \<Rightarrow> nat option \<Rightarrow> bits statusor option" where
  "ParseUnsignedNumberHelper B input format bit_count =
     (if format = kDefault then Some (Inl InvalidArgument)
      else
        let numeric_string = filter (\<lambda>c. c \<noteq> CHR ''_'') input
        in if numeric_string = '''' then Some (Inl InvalidArgument)
           else if format = kUnsignedDecimal then do {
             result \<leftarrow> UBits 0 32;
             ParseDecimal_loop B numeric_string result
           }
           else if format \<noteq> kBinary \<and> format \<noteq> kHex then Some (Inl InvalidArgument)
           else do {
             let (base, base_bits) = (if format = kBinary then (2, 1) else (16, 4));
             chunks_or \<leftarrow> ParseChunks base base_bits numeric_string [];
             case chunks_or of
               Inl e \<Rightarrow> Some (Inl e)
             | Inr chunks \<Rightarrow> do {
                 unnarrowed \<leftarrow> bits_Concat chunks;
                 map_option Inr
                   (case bit_count of
                      None \<Rightarrow> Bits_Slice unnarrowed 0 (bm_count unnarrowed - Bits_CountLeadingZeros unnarrowed)
                    | Some n \<Rightarrow>
                        if bm_count unnarrowed < n
                        then BitsRope_Build (BitsRope_push_back (BitsRope_push_back (BitsRope n) unnarrowed)
                               (Bits_new (n - bm_count unnarrowed)))
                        else Bits_Slice unnarrowed 0 n)
               }
           })"

definition ParseUnsignedNumberWithoutPrefix ::
    "'b bn_api \<Rightarrow> string \<Rightarrow> format_preference \<Rightarrow> nat option \<Rightarrow> bits statusor option" where
  "ParseUnsignedNumberWithoutPrefix B input format bit_count = ParseUnsignedNumberHelper B input format bit_count"

definition GetSignAndMagnitude :: "'b bn_api \<Rightarrow> string \<Rightarrow> (bool \<times> bits) statusor option" where
  "GetSignAndMagnitude B input =
     (case input of [] \<Rightarrow> Some (Inl InvalidArgument) | c # cs \<Rightarrow>
        let is_negative = (c = CHR ''-'');
            numeric_substring = (if is_negative then cs else input);
            parse = (\<lambda>s format. map_option (map_sum id (\<lambda>value. (is_negative, value)))
                                  (ParseUnsignedNumberHelper B s format None))
        in if length numeric_substring \<ge> 2 \<and> numeric_substring ! 0 = CHR ''0'' then
             (let base_char = numeric_substring ! 1
              in if base_char = CHR ''b'' then parse (drop 2 numeric_substring) kBinary
                 else if base_char = CHR ''x'' then parse (drop 2 numeric_substring) kHex
                 else Some (Inl InvalidArgument))
           else parse numeric_substring kUnsignedDecimal)"

definition ParseNumber :: "'b bn_api \<Rightarrow> string \<Rightarrow> bits statusor option" where
  "ParseNumber B input =
     GetSignAndMagnitude B input \<bind> (\<lambda>pair_or. case pair_or of
       Inl e \<Rightarrow> Some (Inl e)
     | Inr (is_negative, magnitude) \<Rightarrow>
         if is_negative \<and> \<not> Bits_IsZero magnitude then do {
           extended \<leftarrow> bits_ZeroExtend magnitude (bm_count magnitude + 1);
           result \<leftarrow> bits_Negate B extended;
           let leading_ones = Bits_CountLeadingOnes result;
           if \<not> leading_ones > 0 then Some (Inl Internal)
           else map_option Inr (Bits_Slice result 0 (bm_count result - leading_ones + 1))
         }
         else Some (Inr magnitude))"

definition ParseNumberAsUint64 :: "'b bn_api \<Rightarrow> string \<Rightarrow> uint64 statusor option" where
  "ParseNumberAsUint64 B input =
     GetSignAndMagnitude B input \<bind> (\<lambda>pair_or. case pair_or of
       Inl e \<Rightarrow> Some (Inl e)
     | Inr (is_negative, magnitude) \<Rightarrow>
         if is_negative \<and> \<not> Bits_IsZero magnitude \<or> bm_count magnitude > 64 then Some (Inl InvalidArgument)
         else Some (Bits_ToUint64 magnitude))"

definition ParseNumberAsInt64 :: "'b bn_api \<Rightarrow> string \<Rightarrow> uint64 statusor option" where
  "ParseNumberAsInt64 B input =
     GetSignAndMagnitude B input \<bind> (\<lambda>pair_or. case pair_or of
       Inl e \<Rightarrow> Some (Inl e)
     | Inr (is_negative, magnitude) \<Rightarrow>
         if \<not> is_negative then
           if bm_count magnitude > 63 then Some (Inl InvalidArgument)
           else map_option Bits_ToInt64 (bits_ZeroExtend magnitude 64)
         else if bm_count magnitude \<ge> 64 then
           if bm_count magnitude = 64 \<and> Bits_msb magnitude \<and> Bits_PopCount magnitude = 1
           then Some (Inr (push_bit 63 1)) else Some (Inl InvalidArgument)
         else do {
           extended \<leftarrow> bits_ZeroExtend magnitude 64;
           negated \<leftarrow> bits_Negate B extended;
           Some (Bits_ToInt64 negated)
         })"

text \<open>\<open>Get\<close> guards its index by a \<open>XLS_DCHECK\<close>, which the width-0 result of parsing a zero violates.\<close>

definition ParseNumberAsBool :: "'b bn_api \<Rightarrow> string \<Rightarrow> bool statusor option" where
  "ParseNumberAsBool B input =
     (if input = ''true'' then Some (Inr True)
      else if input = ''false'' then Some (Inr False)
      else GetSignAndMagnitude B input \<bind> (\<lambda>pair_or. case pair_or of
       Inl e \<Rightarrow> Some (Inl e)
     | Inr (is_negative, magnitude) \<Rightarrow>
         if is_negative then Some (Inl InvalidArgument)
         else if bm_count magnitude > 1 then Some (Inl InvalidArgument)
         else do {
           CHECK (0 < bm_count magnitude);
           Some (Inr (Bits_Get magnitude 0))
         }))"

section \<open>Format strings round trip\<close>

definition brace_free :: "string \<Rightarrow> bool" where
  "brace_free s \<longleftrightarrow> CHR ''{'' \<notin> set s \<and> CHR ''}'' \<notin> set s"

text \<open>The steps the parser builds from a text without doubled braces.\<close>

fun normal_steps :: "format_step list \<Rightarrow> bool" where
  "normal_steps [] \<longleftrightarrow> True"
| "normal_steps (Argument p # steps) \<longleftrightarrow> normal_steps steps"
| "normal_steps [Fragment s] \<longleftrightarrow> s \<noteq> '''' \<and> brace_free s"
| "normal_steps (Fragment s # Argument p # steps) \<longleftrightarrow> s \<noteq> '''' \<and> brace_free s \<and> normal_steps steps"
| "normal_steps (Fragment s # Fragment t # steps) \<longleftrightarrow> False"

lemma consume_marker_plain:
  "c \<noteq> CHR ''{'' \<Longrightarrow> c \<noteq> CHR ''}'' \<Longrightarrow> consume_marker format_markers (c # cs) = None"
  by (simp add: format_markers_def consume_substr_def)

lemma consume_marker_specifier:
  "consume_marker format_markers (FormatPreferenceToXlsSpecifier p @ s) = Some (Inr p, s)"
  by (cases p) (simp_all add: format_markers_def consume_substr_def FormatPreferenceToXlsSpecifier_def)

lemma ParseFormatString_fragment:
  "brace_free f \<Longrightarrow> ParseFormatString_loop (f @ s) fragment steps = ParseFormatString_loop s (fragment @ f) steps"
proof (induction f arbitrary: fragment)
  case (Cons c f)
  then have "c \<noteq> CHR ''{''" "c \<noteq> CHR ''}''" "brace_free f" by (auto simp: brace_free_def)
  then show ?case
    using Cons.IH[of "fragment @ [c]"] consume_marker_plain[of c "f @ s"]
    by (subst ParseFormatString_loop.simps) simp
qed simp

lemma ParseFormatString_argument:
  "ParseFormatString_loop (FormatPreferenceToXlsSpecifier p @ s) fragment steps =
   ParseFormatString_loop s '''' (push_fragment fragment steps @ [Argument p])"
proof -
  obtain c cs where "FormatPreferenceToXlsSpecifier p @ s = c # cs"
    by (cases "FormatPreferenceToXlsSpecifier p @ s")
      (auto simp: FormatPreferenceToXlsSpecifier_def split: format_preference.splits)
  then show ?thesis
    using consume_marker_specifier[of p s] by (subst ParseFormatString_loop.simps) simp
qed

lemma StepsToXlsFormatString_Cons:
  "StepsToXlsFormatString [] = ''''"
  "StepsToXlsFormatString (Argument p # steps) = FormatPreferenceToXlsSpecifier p @ StepsToXlsFormatString steps"
  "StepsToXlsFormatString (Fragment s # steps) = s @ StepsToXlsFormatString steps"
  by (simp_all add: StepsToXlsFormatString_def)

lemma ParseFormatString_steps:
  "normal_steps steps \<Longrightarrow> ParseFormatString_loop (StepsToXlsFormatString steps) '''' acc = Inr (acc @ steps)"
proof (induction steps arbitrary: acc rule: normal_steps.induct)
  case 1
  then show ?case by (subst ParseFormatString_loop.simps) (simp add: StepsToXlsFormatString_def push_fragment_def)
next
  case (2 p steps)
  then show ?case by (simp add: StepsToXlsFormatString_Cons ParseFormatString_argument push_fragment_def)
next
  case (3 s)
  then show ?case
    using ParseFormatString_fragment[of s "''''" "''''" acc]
    by (simp add: StepsToXlsFormatString_Cons ParseFormatString_loop.simps[of "''''"] push_fragment_def)
next
  case (4 s p steps)
  then show ?case
    by (simp add: StepsToXlsFormatString_Cons ParseFormatString_fragment ParseFormatString_argument push_fragment_def)
qed simp

section \<open>Digits\<close>

definition digits_val :: "nat \<Rightarrow> nat list \<Rightarrow> nat" where
  "digits_val base ds = foldl (\<lambda>a d. a * base + d) 0 ds"

lemma foldl_digits:
  "foldl (\<lambda>a d. a * base + d) k ds = k * base ^ length ds + foldl (\<lambda>a d. a * base + d) (0::nat) ds"
proof (induction ds arbitrary: k)
  case (Cons d ds)
  from Cons[of "k * base + d"] Cons[of d] show ?case by (simp add: algebra_simps)
qed simp

lemma digits_foldl: "foldl (\<lambda>a d. a * base + d) k ds = k * base ^ length ds + digits_val base ds"
  unfolding digits_val_def by (rule foldl_digits)

lemma digits_val_simps [simp]:
  "digits_val base [] = 0" "digits_val base (ds @ [d]) = digits_val base ds * base + d"
  by (simp_all add: digits_val_def)

lemma digits_val_Cons: "digits_val base (d # ds) = d * base ^ length ds + digits_val base ds"
  using digits_foldl[of base d ds] by (simp add: digits_val_def)

lemma digits_val_append: "digits_val base (ds @ es) = digits_val base ds * base ^ length es + digits_val base es"
  using digits_foldl[of base "digits_val base ds" es] by (simp add: digits_val_def)

lemma digits_val_bound: "\<forall>d\<in>set ds. d < base \<Longrightarrow> digits_val base ds < base ^ length ds"
proof (induction ds)
  case (Cons d ds)
  then have "d * base ^ length ds + digits_val base ds < (d + 1) * base ^ length ds" by simp
  also have "\<dots> \<le> base * base ^ length ds" using Cons.prems by (intro mult_right_mono) auto
  finally show ?case by (simp add: digits_val_Cons)
qed simp

lemma of_char_digit_char: "d < 10 \<Longrightarrow> of_char (digit_char d) = 48 + d" "10 \<le> d \<Longrightarrow> d < 16 \<Longrightarrow> of_char (digit_char d) = 87 + d"
  by (simp_all add: digit_char_def)

lemma char_neq_digit:
  assumes "d < 16" and "of_char c < (48::nat) \<or> 57 < (of_char c :: nat) \<and> (of_char c :: nat) < 97 \<or> 102 < (of_char c :: nat)"
  shows "digit_char d \<noteq> c"
  using assms of_char_digit_char[of d] by (cases "d < 10") auto

lemma digit_char_special:
  assumes "d < 16"
  shows "digit_char d \<noteq> CHR ''_''" "digit_char d \<noteq> CHR ''-''" "digit_char d \<noteq> CHR ''x''"
  using assms by (simp_all add: char_neq_digit)

lemma digit_char_0_iff:
  assumes "d < 16"
  shows "digit_char d = CHR ''0'' \<longleftrightarrow> d = 0"
proof
  assume "digit_char d = CHR ''0''"
  then have "of_char (digit_char d) = (48::nat)" by simp
  then show "d = 0" using of_char_digit_char[of d] assms by (cases "d < 10") auto
qed (simp add: digit_char_def char_of_def bit_0)

lemma filter_digit_chars:
  "\<forall>d\<in>set ds. d < 16 \<Longrightarrow> filter (\<lambda>c. c \<noteq> CHR ''_'') (map digit_char ds) = map digit_char ds"
  by (induction ds) (auto simp: digit_char_special)

lemma num_string_digits:
  assumes "2 \<le> base"
  shows "\<exists>ds. num_string base n = map digit_char ds \<and> ds \<noteq> [] \<and> (\<forall>d\<in>set ds. d < base) \<and>
    digits_val base ds = n \<and> (1 < length ds \<longrightarrow> hd ds \<noteq> 0)"
  using assms
proof (induction base n rule: num_string.induct)
  case (1 base n)
  show ?case
  proof (cases "n < base")
    case True
    then have "num_string base n = map digit_char [n]" by (simp add: num_string.simps[of base n])
    then show ?thesis using True by (intro exI[of _ "[n]"]) (simp add: digits_val_def)
  next
    case False
    with 1 obtain ds where ds: "num_string base (n div base) = map digit_char ds" "ds \<noteq> []" "\<forall>d\<in>set ds. d < base"
      "digits_val base ds = n div base" "1 < length ds \<longrightarrow> hd ds \<noteq> 0"
      by auto
    have "num_string base n = map digit_char (ds @ [n mod base])"
      using False 1(2) ds(1) by (subst num_string.simps) simp
    moreover have "hd ds \<noteq> 0"
    proof (cases "1 < length ds")
      case False
      with ds(2) obtain d where "ds = [d]" by (cases ds) auto
      with ds(4) \<open>\<not> n < base\<close> 1(2) show ?thesis
        by (auto simp: digits_val_def div_eq_0_iff)
    qed (use ds(5) in blast)
    moreover have "digits_val base (ds @ [n mod base]) = n" using ds(4) by simp
    ultimately show ?thesis
      using ds(2,3) 1(2) by (intro exI[of _ "ds @ [n mod base]"]) auto
  qed
qed

section \<open>Decimal numbers\<close>

text \<open>A bit list without leading zeros.\<close>

definition trimmed :: "bool list \<Rightarrow> bool" where
  "trimmed bs \<longleftrightarrow> (bs \<noteq> [] \<longrightarrow> last bs)"

text \<open>\<open>parses m n\<close>: the call returns the number \<open>n\<close> in as few bits as possible.\<close>

definition parses :: "bits statusor option \<Rightarrow> nat \<Rightarrow> bool" where
  "parses m n \<longleftrightarrow> (\<exists>b bs. m = Some (Inr b) \<and> rep b bs \<and> unum bs = n \<and> trimmed bs)"

lemma SimpleAtoi_digit: "d < 10 \<Longrightarrow> SimpleAtoi_char (digit_char d) = Some (of_nat d)"
  using of_char_digit_char(1)[of d] by (simp add: SimpleAtoi_char_def Let_def)

lemma unum_pad_zeros: "bs = cs @ replicate k False \<Longrightarrow> unum cs = unum bs"
  by (simp add: unum_append)

context bignum
begin

lemma ParseDecimal_step:
  assumes "rep r rs" and "d < 10"
  shows "\<exists>r' rs'. rep r' rs' \<and> unum rs' = unum rs * 10 + d \<and> trimmed rs' \<and>
    ParseDecimal_loop B (digit_char d # s) r = ParseDecimal_loop B s r'"
proof -
  obtain ten where ten: "UBits 10 8 = Some ten" "rep ten (nat_bl 8 10)"
    using returns_UBits[of 10 8] by (auto elim: returns_bindE)
  let ?n = "length rs + 8"
  have "unum rs + 1 \<le> 2 ^ length rs" using unum_bound[of rs] by linarith
  then have "(unum rs + 1) * 10 \<le> 2 ^ length rs * 256" by (intro mult_mono) simp_all
  then have less: "unum rs * 10 + d < 2 ^ ?n" using assms(2) by (simp add: power_add)
  obtain p where p: "bits_UMul B r ten = Some p" "rep p (nat_bl ?n (unum rs * 10))"
    using returns_UMul[OF assms(1) ten(2)] by (auto simp: unum_nat_bl elim: returns_bindE)
  have d: "unat (of_nat d :: uint64) = d" using assms(2) by (simp add: unat_of_nat)
  have "d < 2 ^ ?n" using less by linarith
  then obtain c where c: "UBits (of_nat d) ?n = Some c" "rep c (nat_bl ?n d)"
    using returns_UBits[of "of_nat d :: uint64" ?n] d by (auto elim: returns_bindE)
  obtain t where t: "bits_Add B p c = Some t" "rep t (nat_bl ?n (unum rs * 10 + d))"
    using returns_Add[OF p(2) c(2)] less by (auto simp: unum_nat_bl elim: returns_bindE)
  obtain cs k where cs: "returns (bits_DropLeadingZeroes t) cs" "nat_bl ?n (unum rs * 10 + d) = cs @ replicate k False" "trimmed cs"
    using returns_DropLeadingZeroes[OF t(2)] by (auto simp: trimmed_def)
  then obtain r' where r': "bits_DropLeadingZeroes t = Some r'" "rep r' cs" by (auto elim: returns_bindE)
  have "unum cs = unum rs * 10 + d" using unum_pad_zeros[OF cs(2)] less by (simp add: unum_nat_bl)
  moreover have "ParseDecimal_loop B (digit_char d # s) r = ParseDecimal_loop B s r'"
    using ten(1) p c(1) t(1) r'(1) by (simp add: SimpleAtoi_digit[OF assms(2)] rep_count)
  ultimately show ?thesis using r'(2) cs(3) by blast
qed

lemma ParseDecimal_ok:
  "rep r rs \<Longrightarrow> \<forall>d\<in>set ds. d < 10 \<Longrightarrow> ds \<noteq> [] \<or> trimmed rs \<Longrightarrow>
   parses (ParseDecimal_loop B (map digit_char ds) r) (foldl (\<lambda>a d. a * 10 + d) (unum rs) ds)"
proof (induction ds arbitrary: r rs)
  case Nil
  then show ?case by (auto simp: parses_def)
next
  case (Cons d ds)
  then obtain r' rs' where r': "rep r' rs'" "unum rs' = unum rs * 10 + d" "trimmed rs'"
      "ParseDecimal_loop B (digit_char d # map digit_char ds) r = ParseDecimal_loop B (map digit_char ds) r'"
    using ParseDecimal_step[OF Cons.prems(1), of d "map digit_char ds"] by auto
  have "parses (ParseDecimal_loop B (map digit_char ds) r') (foldl (\<lambda>a d. a * 10 + d) (unum rs') ds)"
    using Cons.prems(2) r'(1,3) by (intro Cons.IH) simp_all
  with r'(2,4) show ?case by simp
qed

lemma ParseUnsigned_decimal:
  assumes "\<forall>d\<in>set ds. d < 10" and "ds \<noteq> []"
  shows "parses (ParseUnsignedNumberHelper B (map digit_char ds) kUnsignedDecimal w) (digits_val 10 ds)"
proof -
  obtain z where z: "UBits 0 32 = Some z" "rep z (replicate 32 False)"
    using returns_UBits[of 0 32] by (auto elim: returns_bindE)
  have "\<forall>d\<in>set ds. d < 16" using assms(1) by auto
  then show ?thesis
    using ParseDecimal_ok[OF z(2) assms(1)] z(1) assms(2)
    by (simp add: ParseUnsignedNumberHelper_def filter_digit_chars digits_val_def)
qed

end

section \<open>Hexadecimal and binary numbers\<close>

lemma StrTo64Base_loop_ok:
  assumes "base \<in> {2, 16}" and "\<forall>d\<in>set ds. d < base" and "k * base ^ length ds + digits_val base ds < 2 ^ 64"
  shows "StrTo64Base_loop base (map digit_char ds) k = Some (Inr (k * base ^ length ds + digits_val base ds))"
  using assms(2,3)
proof (induction ds arbitrary: k)
  case (Cons d ds)
  have d: "char_to_digit base (digit_char d) = Some (Inr d)"
    using assms(1) Cons.prems(1) of_char_digit_char[of d] by (cases "d < 10") (auto simp: char_to_digit_def Let_def)
  have eq: "(k * base + d) * base ^ length ds + digits_val base ds = k * base ^ length (d # ds) + digits_val base (d # ds)"
    by (simp add: digits_val_Cons algebra_simps)
  have "k * base + d \<le> (k * base + d) * base ^ length ds" using assms(1) by auto
  also have "\<dots> \<le> (k * base + d) * base ^ length ds + digits_val base ds" by simp
  also have "\<dots> < 2 ^ 64" unfolding eq by (rule Cons.prems(2))
  finally have "k * base + d < 2 ^ 64" .
  then show ?case using Cons.IH[of "k * base + d"] Cons.prems d eq by simp
qed simp

lemma no_prefix:
  assumes "\<forall>d\<in>set ds. d < base" and "base \<in> {2, 16}"
  shows "consume_substr ''-'' (map digit_char ds) = None"
    and "base = 16 \<Longrightarrow> consume_substr ''0x'' (map digit_char ds) = None"
    and "base = 2 \<Longrightarrow> consume_substr ''0b'' (map digit_char ds) = None"
proof -
  have lt: "\<forall>d\<in>set ds. d < 16" using assms by auto
  show "consume_substr ''-'' (map digit_char ds) = None"
    using lt by (cases ds) (auto simp: consume_substr_def digit_char_special)
  show "consume_substr ''0x'' (map digit_char ds) = None" if "base = 16"
    using lt by (cases ds; cases "tl ds") (auto simp: consume_substr_def digit_char_special)
  show "consume_substr ''0b'' (map digit_char ds) = None" if "base = 2"
  proof (cases "tl ds")
    case (Cons e es)
    then have "e \<in> set ds" by (cases ds) auto
    with assms that have "e < 2" by auto
    then have "digit_char e \<noteq> CHR ''b''" using of_char_digit_char(1)[of e] by auto
    with Cons show ?thesis by (cases ds) (auto simp: consume_substr_def)
  qed (cases ds; auto simp: consume_substr_def)
qed

lemma StrTo64Base_ok:
  assumes "base \<in> {2, 16}" and "\<forall>d\<in>set ds. d < base" and "ds \<noteq> []" and "digits_val base ds < 2 ^ 64"
  shows "StrTo64Base (map digit_char ds) base = Some (Inr (of_nat (digits_val base ds)))"
proof (cases "map digit_char ds = ''0'' \<or> map digit_char ds = ''-0''")
  case True
  have "\<forall>d\<in>set ds. d < 16" using assms by auto
  with True have "ds = [0]"
    using assms(3) by (cases ds) (auto simp: digit_char_0_iff digit_char_special)
  then show ?thesis using True by (simp add: StrTo64Base_def digits_val_def)
next
  case False
  note np = no_prefix[OF assms(2,1)]
  show ?thesis
    using False assms np StrTo64Base_loop_ok[OF assms(1,2), of 0]
    by (auto simp: StrTo64Base_def ConsumePrefix_def Let_def)
qed

lemma nat_bl_digits:
  assumes "\<forall>d\<in>set ds. d < 2 ^ w"
  shows "nat_bl (length ds * w) (digits_val (2 ^ w) ds) = concat (rev (map (nat_bl w) ds))"
  using assms
proof (induction ds)
  case (Cons d ds)
  let ?low = "concat (rev (map (nat_bl w) ds))"
  have len: "length ?low = length ds * w" by (simp add: length_concat sum_list_triv rev_map o_def)
  have "digits_val (2 ^ w) ds < 2 ^ (length ds * w)"
    using digits_val_bound[of ds "2 ^ w"] Cons.prems by (simp add: mult.commute flip: power_mult)
  then have low: "unum ?low = digits_val (2 ^ w) ds"
    using Cons by (simp add: unum_nat_bl flip: Cons.IH)
  have "unum (?low @ nat_bl w d) = digits_val (2 ^ w) (d # ds)"
    using Cons.prems unfolding unum_append low len digits_val_Cons
    by (simp add: unum_nat_bl mult.commute flip: power_mult)
  moreover have "length (d # ds) * w = length (?low @ nat_bl w d)" unfolding length_append len by simp
  ultimately show ?case using nat_bl_unum_eq[of "length (d # ds) * w" "?low @ nat_bl w d"] by simp
qed simp

lemma concat_rev_take_drop:
  "concat (rev (map f (drop n ds))) @ concat (rev (map f (take n ds))) = concat (rev (map f ds))"
  by (metis append_take_drop_id concat_append map_append rev_append)

lemma ParseChunks_ok:
  assumes "(base, w) \<in> {(2, 1), (16, 4)}" and "\<forall>d\<in>set ds. d < base" and "list_all2 rep chunks css"
  shows "\<exists>chunks' css'. ParseChunks base w (map digit_char ds) chunks = Some (Inr chunks') \<and>
    list_all2 rep chunks' css' \<and> concat (rev css') = concat (rev (map (nat_bl w) ds)) @ concat (rev css)"
  using assms(2,3)
proof (induction "length ds" arbitrary: ds chunks css rule: less_induct)
  case less
  show ?case
  proof (cases "ds = []")
    case True
    then show ?thesis using less.prems(2) by (subst ParseChunks.simps) auto
  next
    case False
    let ?step = "64 div w" let ?n = "min ?step (length ds)"
    let ?es = "take ?n ds" let ?v = "digits_val base ?es"
    have step: "0 < ?step" "base = 2 ^ w" "?step * w = 64" "base \<in> {2, 16}" using assms(1) by auto
    have es: "\<forall>d\<in>set ?es. d < base" "?es \<noteq> []" "length ?es = ?n"
      using less.prems(1) False step(1) by (auto dest: in_set_takeD)
    have v: "?v < 2 ^ (?n * w)" using digits_val_bound[OF es(1)] es(3) step(2) by (simp add: mult.commute flip: power_mult)
    have "?n * w \<le> 64" using step(3) by (metis min.cobounded1 mult_le_mono1)
    then have "(2::nat) ^ (?n * w) \<le> 2 ^ 64" by (intro power_increasing) simp_all
    with v have v64: "?v < 2 ^ 64" by linarith
    note str = StrTo64Base_ok[OF step(4) es(1,2) v64]
    have uv: "unat (of_nat ?v :: uint64) = ?v" using v64 by (simp add: unat_of_nat)
    obtain c where c: "UBits (of_nat ?v) (?n * w) = Some c" "rep c (nat_bl (?n * w) ?v)"
      using returns_UBits[of "of_nat ?v :: uint64" "?n * w"] v uv by (auto elim: returns_bindE)
    have cbits: "nat_bl (?n * w) ?v = concat (rev (map (nat_bl w) ?es))"
      using nat_bl_digits[of ?es w] es step(2) by simp
    obtain chunks' css' where rest: "ParseChunks base w (map digit_char (drop ?n ds)) (chunks @ [c]) = Some (Inr chunks')"
        "list_all2 rep chunks' css'"
        "concat (rev css') = concat (rev (map (nat_bl w) (drop ?n ds))) @ concat (rev (css @ [nat_bl (?n * w) ?v]))"
      using less.hyps[of "drop ?n ds" "chunks @ [c]" "css @ [nat_bl (?n * w) ?v]"] less.prems c(2) step(1) False
      by (auto simp: list_all2_appendI dest: in_set_dropD)
    have "ParseChunks base w (map digit_char ds) chunks = Some (Inr chunks')"
      using False step(1) str c(1) rest(1)
      by (subst ParseChunks.simps) (simp add: Let_def take_map drop_map)
    moreover have "concat (rev css') = concat (rev (map (nat_bl w) ds)) @ concat (rev css)"
      unfolding rest(3) cbits using concat_rev_take_drop[of "nat_bl w" ?n ds] by simp
    ultimately show ?thesis using rest(2) by blast
  qed
qed

lemma Slice_significant:
  assumes "rep b bs"
  shows "\<exists>r cs. Bits_Slice b 0 (bm_count b - Bits_CountLeadingZeros b) = Some r \<and> rep r cs \<and>
    unum cs = unum bs \<and> trimmed cs"
proof -
  let ?z = "Bits_CountLeadingZeros b" let ?n = "length bs"
  let ?p = "\<lambda>i. Bits_Get b (bm_count b - 1 - i)"
  have z: "?z = first_index ?p ?n" using assms by (simp add: Bits_CountLeadingZeros_def rep_count)
  have le: "?z \<le> ?n" unfolding z by simp
  have zero: "\<not> bs ! j" if "?n - ?z \<le> j" "j < ?n" for j
    using first_index_before[of "?n - 1 - j" ?p ?n] that rep_get[OF assms that(2)] le
    by (simp add: z rep_count[OF assms])
  have "bs = take (?n - ?z) bs @ replicate ?z False"
    using le zero by (intro nth_equalityI) (auto simp: nth_append)
  then have "unum (take (?n - ?z) bs) = unum bs" by (rule unum_pad_zeros)
  moreover have "trimmed (take (?n - ?z) bs)"
  proof (cases "?z < ?n")
    case True
    then have "?p ?z" using first_index_at[of ?p ?n] by (simp add: z)
    then have "bs ! (?n - ?z - 1)" using rep_get[OF assms, of "?n - 1 - ?z"] True by (simp add: rep_count[OF assms] diff_diff_add add.commute)
    then show ?thesis using True by (simp add: trimmed_def last_conv_nth)
  qed (simp add: trimmed_def)
  moreover obtain r where "Bits_Slice b 0 (?n - ?z) = Some r" "rep r (take (?n - ?z) bs)"
    using returns_Slice[OF assms, of 0 "?n - ?z"] by (auto elim: returns_bindE)
  ultimately show ?thesis using rep_count[OF assms] by auto
qed

lemma ParseUnsigned_power:
  assumes "(format, base) \<in> {(kBinary, 2), (kHex, 16)}" and "\<forall>d\<in>set ds. d < base" and "ds \<noteq> []"
    and "filter (\<lambda>c. c \<noteq> CHR ''_'') s = map digit_char ds"
  shows "parses (ParseUnsignedNumberHelper B s format None) (digits_val base ds)"
proof -
  obtain w where bw: "(base, w) \<in> {(2, 1), (16, 4)}" "base = 2 ^ w" "format \<noteq> kDefault" "format \<noteq> kUnsignedDecimal"
    "format = kBinary \<and> base = 2 \<and> w = 1 \<or> format = kHex \<and> base = 16 \<and> w = 4" using assms(1) by force
  obtain chunks css where chunks: "ParseChunks base w (map digit_char ds) [] = Some (Inr chunks)"
      "list_all2 rep chunks css" "concat (rev css) = concat (rev (map (nat_bl w) ds))"
    using ParseChunks_ok[OF bw(1) assms(2), of "[]" "[]"] by auto
  obtain u where u: "bits_Concat chunks = Some u" "rep u (concat (rev (map (nat_bl w) ds)))"
    using returns_Concat[OF chunks(2)] chunks(3) by (auto elim: returns_bindE)
  obtain r cs where r: "Bits_Slice u 0 (bm_count u - Bits_CountLeadingZeros u) = Some r" "rep r cs"
      "unum cs = unum (concat (rev (map (nat_bl w) ds)))" "trimmed cs"
    using Slice_significant[OF u(2)] by blast
  have "unum (nat_bl (length ds * w) (digits_val base ds)) = digits_val base ds"
    using digits_val_bound[OF assms(2)] bw(2) by (simp add: unum_nat_bl mult.commute flip: power_mult)
  then have "unum cs = digits_val base ds"
    using r(3) nat_bl_digits[of ds w] assms(2) unfolding bw(2) by simp
  moreover have "ParseUnsignedNumberHelper B s format None = Some (Inr r)"
    using bw chunks(1) u(1) r(1) assms
    by (auto simp: ParseUnsignedNumberHelper_def Let_def)
  ultimately show ?thesis using r by (auto simp: parses_def)
qed

section \<open>Printing and reading back\<close>

definition digit_at :: "bool list \<Rightarrow> nat \<Rightarrow> nat \<Rightarrow> nat" where
  "digit_at bs w i = unum (take w (drop (i * w) bs))"

lemma digit_at_bound: "digit_at bs w i < 2 ^ w"
proof -
  have "unum (take w (drop (i * w) bs)) < 2 ^ length (take w (drop (i * w) bs))" by (rule unum_bound)
  also have "\<dots> \<le> 2 ^ w" by (rule power_increasing) simp_all
  finally show ?thesis unfolding digit_at_def .
qed

lemma digit_at_val: "digits_val (2 ^ w) (rev (map (digit_at bs w) [0..<n])) = unum (take (n * w) bs)"
proof (induction n)
  case (Suc n)
  have "take (Suc n * w) bs = take (n * w) bs @ take w (drop (n * w) bs)" by (metis add.commute mult_Suc take_add)
  moreover have "length (take (n * w) bs) = n * w \<or> take w (drop (n * w) bs) = []" by auto
  ultimately show ?case
    using Suc by (auto simp: digits_val_Cons digit_at_def unum_append mult.commute simp flip: power_mult)
qed simp

fun strip_zeros :: "nat list \<Rightarrow> nat list" where
  "strip_zeros (0 # d # ds) = strip_zeros (d # ds)"
| "strip_zeros ds = ds"

lemma strip_zeros_val [simp]: "digits_val base (strip_zeros ds) = digits_val base ds"
  by (induction ds rule: strip_zeros.induct) (simp_all add: digits_val_Cons)

lemma strip_zeros_set: "set (strip_zeros ds) \<subseteq> set ds" "ds \<noteq> [] \<Longrightarrow> strip_zeros ds \<noteq> []"
  by (induction ds rule: strip_zeros.induct) auto

lemma num_string_16: "d < 16 \<Longrightarrow> num_string 16 d = [digit_char d]"
  by (simp add: num_string.simps)

lemma raw_digit:
  assumes "rep b bs" and "w \<in> {1, 4}" and "i * w < length bs"
  shows "\<exists>d v. Bits_Slice b (i * w) (min w (bm_count b - i * w)) = Some d \<and> Bits_ToUint64 d = Inr v \<and>
    unat v = digit_at bs w i"
proof -
  have eq: "take (min w (length bs - i * w)) (drop (i * w) bs) = take w (drop (i * w) bs)"
    by (metis length_drop take_all_iff min_def linorder_linear take_take)
  have "digit_at bs w i < 2 ^ 64"
    using digit_at_bound[of bs w i] assms(2) by (auto intro: less_trans)
  moreover have "i * w + min w (length bs - i * w) \<le> length bs" using assms(3) by linarith
  then obtain d where "Bits_Slice b (i * w) (min w (length bs - i * w)) = Some d" "rep d (take w (drop (i * w) bs))"
    using returns_Slice[OF assms(1), of "i * w" "min w (length bs - i * w)"] eq by (auto elim: returns_bindE)
  ultimately show ?thesis
    by (simp add: rep_count[OF assms(1)] rep_ToUint64 unat_of_nat digit_at_def)
qed

definition unseparated :: "string \<Rightarrow> string" where
  "unseparated s = filter (\<lambda>c. c \<noteq> CHR ''_'') s"

lemma ToRawDigits_step:
  assumes "rep b bs" and "w \<in> {1, 4}" and "n * w < length bs"
  shows "\<exists>sepd. unseparated sepd = unseparated res \<and> (res = [] \<longrightarrow> sepd = []) \<and>
    ToRawDigits_loop b w sep (Suc n) eliding res =
      (if digit_at bs w n = 0 \<and> eliding \<and> n \<noteq> 0 then ToRawDigits_loop b w sep n eliding sepd
       else ToRawDigits_loop b w sep n False (sepd @ [digit_char (digit_at bs w n)]))"
proof -
  obtain d v where d: "Bits_Slice b (n * w) (min w (bm_count b - n * w)) = Some d" "Bits_ToUint64 d = Inr v"
      "unat v = digit_at bs w n"
    using raw_digit[OF assms] by blast
  have "digit_at bs w n < 16" using digit_at_bound[of bs w n] assms(2) by auto
  then have "num_string 16 (unat v) = [digit_char (digit_at bs w n)]" by (simp add: num_string_16 d(3))
  moreover have "v = 0 \<longleftrightarrow> digit_at bs w n = 0" using d(3) by (metis unat_eq_zero)
  ultimately show ?thesis
    using d by (intro exI[of _ "if sep \<and> (n + 1) mod 4 = 0 \<and> res \<noteq> [] then res @ ''_'' else res"])
      (auto simp: unseparated_def Let_def)
qed

lemma ToRawDigits_all:
  assumes "rep b bs" and "w \<in> {1, 4}"
  shows "n * w < length bs + w \<Longrightarrow> \<exists>s. ToRawDigits_loop b w sep n False res = Some s \<and>
    unseparated s = unseparated res @ map digit_char (rev (map (digit_at bs w) [0..<n]))"
proof (induction n arbitrary: res)
  case (Suc n)
  then have n: "n * w < length bs" using assms(2) by auto
  have d: "digit_at bs w n < 16" using digit_at_bound[of bs w n] assms(2) by auto
  obtain sepd where sepd: "unseparated sepd = unseparated res"
      "ToRawDigits_loop b w sep (Suc n) False res = ToRawDigits_loop b w sep n False (sepd @ [digit_char (digit_at bs w n)])"
    using ToRawDigits_step[OF assms n, of res sep False] by auto
  show ?case
    using Suc.IH[of "sepd @ [digit_char (digit_at bs w n)]"] n sepd d
    by (auto simp: unseparated_def digit_char_special)
qed (simp add: unseparated_def)

lemma ToRawDigits_stripped:
  assumes "rep b bs" and "w \<in> {1, 4}"
  shows "n * w < length bs + w \<Longrightarrow> \<exists>s. ToRawDigits_loop b w sep n True [] = Some s \<and>
    unseparated s = map digit_char (strip_zeros (rev (map (digit_at bs w) [0..<n])))"
proof (induction n)
  case (Suc n)
  then have n: "n * w < length bs" using assms(2) by auto
  let ?d = "digit_at bs w n"
  have d: "?d < 16" using digit_at_bound[of bs w n] assms(2) by auto
  have step: "ToRawDigits_loop b w sep (Suc n) True [] =
      (if ?d = 0 \<and> n \<noteq> 0 then ToRawDigits_loop b w sep n True []
       else ToRawDigits_loop b w sep n False [digit_char ?d])"
    using ToRawDigits_step[OF assms n, of "[]" sep True] by auto
  show ?case
  proof (cases "?d = 0 \<and> n \<noteq> 0")
    case True
    then obtain k where "n = Suc k" by (cases n) auto
    with True show ?thesis using Suc.IH n step by simp
  next
    case False
    then have "strip_zeros (?d # rev (map (digit_at bs w) [0..<n])) = ?d # rev (map (digit_at bs w) [0..<n])"
      by (cases n; cases ?d) auto
    moreover obtain s where "ToRawDigits_loop b w sep n False [digit_char ?d] = Some s"
        "unseparated s = unseparated [digit_char ?d] @ map digit_char (rev (map (digit_at bs w) [0..<n]))"
      using ToRawDigits_all[OF assms, of n sep "[digit_char ?d]"] n by auto
    moreover have "unseparated [digit_char ?d] = [digit_char ?d]" using d by (simp add: unseparated_def digit_char_special)
    ultimately show ?thesis using step False by (simp only: if_False) simp
  qed
qed (simp add: unseparated_def)

lemma raw_digits_text:
  assumes "rep b bs" and "(preference, base) \<in> {(kBinary, 2), (kPlainBinary, 2), (kHex, 16), (kPlainHex, 16)}"
  shows "\<exists>s ds. Bits_ToRawDigits b preference False = Some s \<and> unseparated s = map digit_char ds \<and> ds \<noteq> [] \<and>
    (\<forall>d\<in>set ds. d < base) \<and> digits_val base ds = unum bs"
proof (cases "bs = []")
  case True
  then have "Bits_ToRawDigits b preference False = Some ''0''"
    using assms by (auto simp: Bits_ToRawDigits_def rep_count)
  moreover have "unseparated ''0'' = map digit_char [0]" using digit_char_0_iff[of 0] by (simp add: unseparated_def)
  ultimately show ?thesis using True assms(2) by (intro exI[of _ "''0''"] exI[of _ "[0]"]) (auto simp: digits_val_def)
next
  case False
  define w :: nat where "w = (if base = 2 then 1 else 4)"
  define n where "n = ceil_ratio (length bs) w"
  have w: "w \<in> {1, 4}" "base = 2 ^ w" using assms(2) by (auto simp: w_def)
  have n: "n * w < length bs + w" "length bs \<le> n * w"
    using w(1) by (auto simp: n_def ceil_ratio_eq)
  then have "0 < n" using False by (cases n) auto
  note n = n this
  let ?ds = "strip_zeros (rev (map (digit_at bs w) [0..<n]))"
  obtain s where s: "ToRawDigits_loop b w (preference \<notin> {kPlainBinary, kPlainHex}) n True [] = Some s"
      "unseparated s = map digit_char ?ds"
    using ToRawDigits_stripped[OF assms(1) w(1) n(1)] by blast
  have "Bits_ToRawDigits b preference False = Some s"
    using s(1) assms(2) False unfolding n_def w_def
    by (auto simp: Bits_ToRawDigits_def rep_count[OF assms(1)] Let_def)
  moreover have "digits_val base ?ds = unum bs" using n(2) unfolding w(2) by (simp add: digit_at_val)
  moreover have "?ds \<noteq> []" using n(3) strip_zeros_set(2)[of "rev (map (digit_at bs w) [0..<n])"] by simp
  moreover have "\<forall>d\<in>set ?ds. d < base"
    using strip_zeros_set(1)[of "rev (map (digit_at bs w) [0..<n])"] digit_at_bound[of bs w] by (auto simp: w(2))
  ultimately show ?thesis using s(2) by blast
qed

definition parses_pair :: "(bool \<times> bits) statusor option \<Rightarrow> bool \<Rightarrow> nat \<Rightarrow> bool" where
  "parses_pair m neg n \<longleftrightarrow> (\<exists>b bs. m = Some (Inr (neg, b)) \<and> rep b bs \<and> unum bs = n \<and> trimmed bs)"

lemma GetSignAndMagnitude_power:
  assumes "(format, base, c) \<in> {(kBinary, 2, CHR ''b''), (kHex, 16, CHR ''x'')}" and "\<forall>d\<in>set ds. d < base"
    and "ds \<noteq> []" and "unseparated s = map digit_char ds"
  shows "parses_pair (GetSignAndMagnitude B (CHR ''0'' # c # s)) False (digits_val base ds)"
  using ParseUnsigned_power[of format base ds s B] assms
  by (fastforce simp: GetSignAndMagnitude_def Let_def parses_def parses_pair_def unseparated_def)

context bignum
begin

lemma GetSignAndMagnitude_decimal:
  "parses_pair (GetSignAndMagnitude B (dec_string n)) False n"
  "parses_pair (GetSignAndMagnitude B (CHR ''-'' # dec_string n)) True n"
proof -
  obtain ds where ds: "dec_string n = map digit_char ds" "ds \<noteq> []" "\<forall>d\<in>set ds. d < 10" "digits_val 10 ds = n"
      "1 < length ds \<longrightarrow> hd ds \<noteq> 0"
    using num_string_digits[of 10 n] by auto
  then obtain d es where d: "ds = d # es" "d < 10" by (cases ds) auto
  have first: "\<not> (length (dec_string n) \<ge> 2 \<and> dec_string n ! 0 = CHR ''0'')" "digit_char d \<noteq> CHR ''-''"
    using ds(1,5) d digit_char_0_iff[of d] digit_char_special(2)[of d] by auto
  have "parses (ParseUnsignedNumberHelper B (dec_string n) kUnsignedDecimal None) n"
    using ParseUnsigned_decimal[OF ds(3,2)] ds(1,4) by simp
  then show "parses_pair (GetSignAndMagnitude B (dec_string n)) False n"
    "parses_pair (GetSignAndMagnitude B (CHR ''-'' # dec_string n)) True n"
    using first ds(1) d
    by (auto simp: GetSignAndMagnitude_def Let_def parses_def parses_pair_def)
qed

lemma ParseNumber_positive: "parses_pair (GetSignAndMagnitude B s) False n \<Longrightarrow> parses (ParseNumber B s) n"
  by (auto simp: ParseNumber_def parses_def parses_pair_def)

end

lemma ToString_parses:
  assumes "bignum B num" and "rep b bs"
    and "preference \<in> {kBinary, kHex} \<or> unum bs < 2 ^ 64 \<and> preference \<in> {kUnsignedDecimal, kDefault} \<or>
      64 < length bs \<and> preference = kDefault"
  shows "\<exists>s. Bits_ToString b preference False = Some s \<and> parses (ParseNumber B s) (unum bs)"
proof -
  have power: "\<exists>s. Bits_ToString b p False = Some s \<and> parses (ParseNumber B s) (unum bs)"
    if p: "(p, base, c) \<in> {(kBinary, 2, CHR ''b''), (kHex, 16, CHR ''x'')}" for p c and base :: nat
  proof -
    have "(p, base) \<in> {(kBinary, 2), (kPlainBinary, 2), (kHex, 16), (kPlainHex, 16)}" using p by auto
    then obtain s ds where s: "Bits_ToRawDigits b p False = Some s" "unseparated s = map digit_char ds" "ds \<noteq> []"
        "\<forall>d\<in>set ds. d < base" "digits_val base ds = unum bs"
      using raw_digits_text[OF assms(2)] by blast
    have "parses (ParseNumber B (CHR ''0'' # c # s)) (unum bs)"
      using bignum.ParseNumber_positive[OF assms(1) GetSignAndMagnitude_power[OF p s(4,3,2)]] s(5) by simp
    then show ?thesis using s(1) p by (auto simp: Bits_ToString_def Let_def)
  qed
  have decimal: "Bits_ToString b kUnsignedDecimal False = Some (dec_string (unum bs))" if "unum bs < 2 ^ 64"
    using that assms(2)
    by (simp add: Bits_ToString_def Bits_ToRawDigits_def Bits_FitsInUint64_def rep_FitsInNBitsUnsigned rep_ToUint64 unat_of_nat)
  have default: "Bits_ToString b kDefault False = Bits_ToString b (if length bs \<le> 64 then kUnsignedDecimal else kHex) False"
    using assms(2) by (simp add: Bits_ToString_def rep_count)
  have dec: "parses (ParseNumber B (dec_string (unum bs))) (unum bs)"
    by (intro bignum.ParseNumber_positive[OF assms(1)] bignum.GetSignAndMagnitude_decimal(1)[OF assms(1)])
  show ?thesis
    using assms(3) power[of kBinary 2 "CHR ''b''"] power[of kHex 16 "CHR ''x''"] decimal dec
    by (cases "length bs \<le> 64") (auto simp: default)
qed

lemma leading_ones_split:
  assumes "rep b bs" and "bs \<noteq> []" and "last bs"
  shows "0 < Bits_CountLeadingOnes b" "Bits_CountLeadingOnes b \<le> length bs"
    "snum (take (length bs - Bits_CountLeadingOnes b + 1) bs) = snum bs"
proof -
  let ?L = "Bits_CountLeadingOnes b" let ?n = "length bs"
  let ?p = "\<lambda>i. \<not> Bits_Get b (bm_count b - 1 - i)"
  have L: "?L = first_index ?p ?n" using assms(1) by (simp add: Bits_CountLeadingOnes_def rep_count)
  show le: "?L \<le> ?n" unfolding L by simp
  have one: "bs ! j" if "?n - ?L \<le> j" "j < ?n" for j
    using first_index_before[of "?n - 1 - j" ?p ?n] that rep_get[OF assms(1) that(2)] le
    by (simp add: L rep_count[OF assms(1)])
  show pos: "0 < ?L"
  proof (rule ccontr)
    assume "\<not> 0 < ?L"
    then have "?p 0" using first_index_at[of ?p ?n] assms(2) by (simp add: L)
    then show False using assms rep_get[OF assms(1), of "?n - 1"] by (simp add: rep_count last_conv_nth)
  qed
  let ?us = "take (?n - ?L) bs"
  have "bs = ?us @ replicate ?L True" using le one by (intro nth_equalityI) (auto simp: nth_append)
  moreover have "snum (replicate ?L True) = -1" using pos snum_replicate_True[of "?L - 1"] by simp
  ultimately have "snum bs = int (unum ?us) - 2 ^ length ?us"
    using pos snum_append[of "replicate ?L True" ?us] by simp
  moreover have "take (?n - ?L + 1) bs = ?us @ [True]"
    using pos le one[of "?n - ?L"] by (simp add: take_Suc_conv_app_nth)
  ultimately show "snum (take (?n - ?L + 1) bs) = snum bs" by (simp add: snum_snoc)
qed

context bignum
begin

lemma ParseNumber_negative:
  assumes "parses_pair (GetSignAndMagnitude B s) True n" and "0 < n"
  shows "\<exists>r rs. ParseNumber B s = Some (Inr r) \<and> rep r rs \<and> snum rs = - int n"
proof -
  obtain m ms where m: "GetSignAndMagnitude B s = Some (Inr (True, m))" "rep m ms" "unum ms = n"
    using assms(1) by (auto simp: parses_pair_def)
  have "nat_bl (length ms + 1) (unum ms) = ms @ [False]"
    using nat_bl_unum_eq[of "length ms + 1" "ms @ [False]"] by (simp add: unum_append)
  then obtain e where e: "bits_ZeroExtend m (length ms + 1) = Some e" "rep e (ms @ [False])"
    using returns_ZeroExtend[OF m(2), of "length ms + 1"] by (auto elim: returns_bindE)
  have pos: "snum (ms @ [False]) = int n" using m(3) by (simp add: snum_snoc)
  have bound: "int n < 2 ^ length ms" using unum_bound[of ms] m(3) by (metis of_nat_less_iff of_nat_numeral of_nat_power)
  let ?rs = "int_bl (length ms + 1) (- int n)"
  obtain r where r: "bits_Negate B e = Some r" "rep r ?rs"
    using returns_Negate[OF e(2)] pos by (auto elim: returns_bindE)
  have "- (2 ^ length ms) \<le> - int n" using bound by linarith
  moreover have "- int n < 2 ^ length ms" by (rule le_less_trans[of _ 0]) simp_all
  ultimately have sn: "snum ?rs = - int n" by (intro snum_int_bl) simp_all
  then have "?rs \<noteq> [] \<and> last ?rs" using assms(2) snum_neg_iff[of ?rs] by simp
  note lead = leading_ones_split[OF r(2) conjunct1[OF this] conjunct2[OF this]]
  let ?k = "length ?rs - Bits_CountLeadingOnes r + 1"
  have "?k \<le> length ?rs" using lead(1,2) by simp
  then obtain t where t: "Bits_Slice r 0 ?k = Some t" "rep t (take ?k ?rs)"
    using returns_Slice[OF r(2), of 0 ?k] by (auto elim: returns_bindE)
  have "ParseNumber B s = Some (Inr t)"
    using m e(1) r t(1) lead(1) assms(2) by (simp add: ParseNumber_def rep_count rep_IsZero)
  then show ?thesis using t(2) lead(3) sn by auto
qed

end

lemma signed_ToString_parses:
  assumes "bignum B num" and "rep b bs" and "- (2 ^ 63) \<le> snum bs" and "snum bs < 2 ^ 63"
  shows "\<exists>s r rs. Bits_ToString b kSignedDecimal False = Some s \<and> ParseNumber B s = Some (Inr r) \<and> rep r rs \<and>
    (if snum bs < 0 then snum rs else int (unum rs)) = snum bs"
proof -
  have fits: "Bits_FitsInInt64 b" using assms by (simp add: Bits_FitsInInt64_def rep_FitsInNBitsSigned)
  have v: "Bits_ToInt64 b = Inr (of_int (snum bs))" "sint (of_int (snum bs) :: uint64) = snum bs"
    using assms(3,4) rep_ToInt64[OF assms(2)] by (simp_all add: sint_of_int64)
  have s: "Bits_ToString b kSignedDecimal False =
      Some (if snum bs < 0 then CHR ''-'' # dec_string (nat (- snum bs)) else dec_string (nat (snum bs)))"
    using fits v by (simp add: Bits_ToString_def Bits_ToRawDigits_def)
  show ?thesis
  proof (cases "snum bs < 0")
    case True
    then show ?thesis
      using bignum.ParseNumber_negative[OF assms(1) bignum.GetSignAndMagnitude_decimal(2)[OF assms(1), of "nat (- snum bs)"]] s
      by auto
  next
    case False
    then show ?thesis
      using bignum.ParseNumber_positive[OF assms(1) bignum.GetSignAndMagnitude_decimal(1)[OF assms(1), of "nat (snum bs)"]] s
      by (fastforce simp: parses_def)
  qed
qed

section \<open>Defects\<close>

text \<open>A sign after the base prefix reaches \<open>StrTo64Base\<close>, whose negative result does not fit the chunk.\<close>

lemma hex_sign_aborts: "ParseNumber B ''0x-1'' = None"
proof -
  have "UBits (- 1) 8 = None" by (simp add: UBits_eq_None_iff unsigned_minus_1_eq_mask mask_eq_exp_minus_1)
  moreover have "StrTo64Base ''-1'' 16 = Some (Inr (- 1))"
    by (simp add: StrTo64Base_def ConsumePrefix_def consume_substr_def char_to_digit_def Let_def)
  ultimately have "ParseChunks 16 4 ''-1'' [] = None" by (subst ParseChunks.simps) (simp add: Let_def)
  then show ?thesis
    by (simp add: ParseNumber_def GetSignAndMagnitude_def ParseUnsignedNumberHelper_def Let_def)
qed

text \<open>A zero is parsed as a value of width 0, which \<open>ParseNumberAsBool\<close> then indexes.\<close>

lemma zero_as_bool_aborts:
  assumes "bignum B num"
  shows "ParseNumberAsBool B ''0'' = None"
proof -
  obtain b bs where "GetSignAndMagnitude B (dec_string 0) = Some (Inr (False, b))" "rep b bs" "unum bs = 0" "trimmed bs"
    using bignum.GetSignAndMagnitude_decimal(1)[OF assms, of 0] by (auto simp: parses_pair_def)
  moreover from this have "bs = []" by (cases bs rule: rev_cases) (auto simp: trimmed_def unum_append)
  moreover have "dec_string 0 = ''0''" using digit_char_0_iff[of 0] by (simp add: num_string.simps)
  ultimately show ?thesis by (simp add: ParseNumberAsBool_def rep_count)
qed

text \<open>Doubled braces are lost when the steps are printed again.\<close>

lemma format_braces_lost:
  "ParseFormatString ''{{'' = Inr [Fragment ''{''] \<and>
   ParseFormatString (StepsToXlsFormatString [Fragment ''{'']) = Inl InvalidArgument"
  by (simp add: ParseFormatString_def ParseFormatString_loop.simps StepsToXlsFormatString_def format_markers_def
      consume_substr_def push_fragment_def)

lemma trimmed_zero: "trimmed bs \<longleftrightarrow> (if unum bs = 0 then bs = [] else bs \<noteq> [] \<and> last bs)"
  by (cases bs rule: rev_cases) (auto simp: trimmed_def unum_append)

lemma ToString_trimmed:
  assumes "bignum B num" and "rep b bs"
    and "preference \<in> {kBinary, kHex} \<or> unum bs < 2 ^ 64 \<and> preference \<in> {kUnsignedDecimal, kDefault} \<or>
      64 < length bs \<and> preference = kDefault"
  shows "\<exists>s r rs. Bits_ToString b preference False = Some s \<and> ParseNumber B s = Some (Inr r) \<and> rep r rs \<and>
    unum rs = unum bs \<and> (if unum bs = 0 then rs = [] else rs \<noteq> [] \<and> last rs)"
proof -
  obtain s r rs where s: "Bits_ToString b preference False = Some s" "ParseNumber B s = Some (Inr r)" "rep r rs"
      "unum rs = unum bs" "trimmed rs"
    using ToString_parses[OF assms] unfolding parses_def by blast
  have "if unum bs = 0 then rs = [] else rs \<noteq> [] \<and> last rs" using s(5) unfolding trimmed_zero s(4) .
  with s(1-4) show ?thesis by blast
qed

section \<open>Properties\<close>

text \<open>C35: printing a bit vector and parsing the text gives the number back: in binary and in hexadecimal
  (with separators and elided leading zeros) for every width, in the default format, and in decimal for
  values of 64 bits, unsigned in the fewest possible bits and signed with its sign. The fewest possible bits are
  none at all for zero: a printed zero comes back as the value of 0 bits, where the comment at \<open>ParseNumber\<close> in
  \<open>number_parser.h\<close> gives \<open>UBits(0, 1)\<close>, a value of one bit, as the result for \<open>0\<close>.\<close>

theorem number_text_round_trip:
  assumes "bignum B num" and "rep b bs"
  shows "(preference \<in> {kBinary, kHex} \<or> unum bs < 2 ^ 64 \<and> preference \<in> {kUnsignedDecimal, kDefault} \<or>
        64 < length bs \<and> preference = kDefault \<longrightarrow>
      (\<exists>s r rs. Bits_ToString b preference False = Some s \<and> ParseNumber B s = Some (Inr r) \<and> rep r rs \<and>
         unum rs = unum bs \<and> (if unum bs = 0 then rs = [] else rs \<noteq> [] \<and> last rs))) \<and>
    (- (2 ^ 63) \<le> snum bs \<and> snum bs < 2 ^ 63 \<longrightarrow>
      (\<exists>s r rs. Bits_ToString b kSignedDecimal False = Some s \<and> ParseNumber B s = Some (Inr r) \<and> rep r rs \<and>
         (if snum bs < 0 then snum rs else int (unum rs)) = snum bs))"
  using ToString_trimmed[OF assms, of preference] signed_ToString_parses[OF assms] by blast

lemma number_text_round_trip_witness:
  "\<exists>s r rs. Bits_ToString (Bits_FromSpan (replicate 70 True)) kHex False = Some s \<and>
     ParseNumber int_bn s = Some (Inr r) \<and> rep r rs \<and> unum rs = 2 ^ 70 - 1"
  using number_text_round_trip[OF int_bignum.bignum_axioms rep_FromSpan[of "replicate 70 True"], of kHex]
  by (auto simp only: unum_replicate_True simp_thms insertCI)

text \<open>C36: printing format steps in the XLS syntax and parsing the text gives the steps back, for steps in the
  parser's normal form (no empty or adjacent fragments) whose fragments contain no braces.\<close>

theorem format_string_round_trip:
  assumes "normal_steps steps"
  shows "ParseFormatString (StepsToXlsFormatString steps) = Inr steps"
  using ParseFormatString_steps[OF assms, of "[]"] by (simp add: ParseFormatString_def)

lemma format_string_round_trip_witness:
  "normal_steps [Fragment ''x is '', Argument kHex] \<and>
   ParseFormatString (StepsToXlsFormatString [Fragment ''x is '', Argument kHex]) = Inr [Fragment ''x is '', Argument kHex]"
  using format_string_round_trip[of "[Fragment ''x is '', Argument kHex]"] by (simp add: brace_free_def)

end
