(* ===== verification/Xls_Value.thy ===== *)
theory Xls_Value
  imports Xls_Format
begin

text \<open>
  \<open>xls/ir/value.{h,cc}\<close>, the value part of \<open>xls/ir/value_helpers.{h,cc}\<close> and \<open>Package::GetTypeForValue\<close>: the
  values the IR computes on. A value is invalid, a bit vector, a tuple, an array or a token; a token
  carries an empty element vector.

  \<open>None\<close> is an abort: \<open>LOG(FATAL)\<close> on a value of the wrong kind, access to the wrong alternative of the
  payload variant, an element index out of range, or \<open>value()\<close> on an error status.

  \<open>has_type v t\<close> is the intended typing: the bit vectors are well formed and as wide as the type says,
  arrays are not empty and all their elements have the element type. The code looks at the first
  element of an array only (\<open>ValueConformsToType\<close>, \<open>SameTypeAs\<close>, \<open>GetTypeForValue\<close>, \<open>TypeAsProto\<close>); on typed
  values all of these agree with the intended typing.
\<close>

unbundle bit_operations_syntax

datatype xvalue = VInvalid | VBits bits | VTuple "xvalue list" | VArray "xvalue list" | VToken

datatype value_kind = VKInvalid | VKBits | VKTuple | VKArray | VKToken

definition ValueKindToString :: "value_kind \<Rightarrow> string" where
  "ValueKindToString k = (case k of
     VKInvalid \<Rightarrow> ''invalid'' | VKBits \<Rightarrow> ''bits'' | VKTuple \<Rightarrow> ''tuple'' | VKArray \<Rightarrow> ''array'' | VKToken \<Rightarrow> ''token'')"

section \<open>Accessors\<close>

definition Value_kind :: "xvalue \<Rightarrow> value_kind" where
  "Value_kind v = (case v of
     VInvalid \<Rightarrow> VKInvalid | VBits b \<Rightarrow> VKBits | VTuple es \<Rightarrow> VKTuple | VArray es \<Rightarrow> VKArray | VToken \<Rightarrow> VKToken)"

definition Value_IsTuple :: "xvalue \<Rightarrow> bool" where "Value_IsTuple v \<longleftrightarrow> Value_kind v = VKTuple"

definition Value_IsArray :: "xvalue \<Rightarrow> bool" where "Value_IsArray v \<longleftrightarrow> Value_kind v = VKArray"

definition Value_IsBits :: "xvalue \<Rightarrow> bool" where "Value_IsBits v \<longleftrightarrow> (case v of VBits b \<Rightarrow> True | _ \<Rightarrow> False)"

definition Value_IsToken :: "xvalue \<Rightarrow> bool" where "Value_IsToken v \<longleftrightarrow> Value_kind v = VKToken"

definition Value_bits :: "xvalue \<Rightarrow> bits option" where
  "Value_bits v = (case v of VBits b \<Rightarrow> Some b | _ \<Rightarrow> None)"

definition Value_GetBitsWithStatus :: "xvalue \<Rightarrow> bits statusor option" where
  "Value_GetBitsWithStatus v = (if \<not> Value_IsBits v then Some (Inl InvalidArgument) else map_option Inr (Value_bits v))"

definition Value_elements :: "xvalue \<Rightarrow> xvalue list option" where
  "Value_elements v = (case v of VTuple es \<Rightarrow> Some es | VArray es \<Rightarrow> Some es | VToken \<Rightarrow> Some [] | _ \<Rightarrow> None)"

definition Value_GetElements :: "xvalue \<Rightarrow> xvalue list statusor" where
  "Value_GetElements v = (case Value_elements v of None \<Rightarrow> Inl InvalidArgument | Some es \<Rightarrow> Inr es)"

definition at_opt :: "'a list \<Rightarrow> nat \<Rightarrow> 'a option" where
  "at_opt xs i = (if i < length xs then Some (xs ! i) else None)"

definition Value_element :: "xvalue \<Rightarrow> nat \<Rightarrow> xvalue option" where
  "Value_element v i = Value_elements v \<bind> (\<lambda>es. at_opt es i)"

definition Value_size :: "xvalue \<Rightarrow> nat option" where
  "Value_size v = map_option length (Value_elements v)"

definition Value_empty :: "xvalue \<Rightarrow> bool option" where
  "Value_empty v = map_option (\<lambda>es. es = []) (Value_elements v)"

definition Value_Bool :: "bool \<Rightarrow> xvalue option" where
  "Value_Bool enabled = map_option VBits (UBits (if enabled then 1 else 0) 1)"

section \<open>Traversals\<close>

text \<open>A loop that leaves at the first element for which the test fails.\<close>

fun all_opt :: "('a \<Rightarrow> bool option) \<Rightarrow> 'a list \<Rightarrow> bool option" where
  "all_opt f [] = Some True"
| "all_opt f (x # xs) = f x \<bind> (\<lambda>b. if b then all_opt f xs else Some False)"

lemma all_opt_cong [fundef_cong]: "xs = ys \<Longrightarrow> (\<And>x. x \<in> set ys \<Longrightarrow> f x = g x) \<Longrightarrow> all_opt f xs = all_opt g ys"
proof (induction ys arbitrary: xs)
  case (Cons y ys)
  from Cons.IH[OF refl] Cons.prems show ?case by (simp cong: if_cong)
qed simp

fun Value_GetFlatBitCount :: "xvalue \<Rightarrow> nat option" where
  "Value_GetFlatBitCount (VBits b) = Some (bm_count b)"
| "Value_GetFlatBitCount VToken = Some 0"
| "Value_GetFlatBitCount (VTuple es) = map_option sum_list (those (map Value_GetFlatBitCount es))"
| "Value_GetFlatBitCount (VArray []) = Some 0"
| "Value_GetFlatBitCount (VArray (e # es)) = map_option ((*) (length (e # es))) (Value_GetFlatBitCount e)"
| "Value_GetFlatBitCount VInvalid = None"

fun Value_IsAllZeros :: "xvalue \<Rightarrow> bool option" where
  "Value_IsAllZeros (VBits b) = Some (Bits_IsZero b)"
| "Value_IsAllZeros (VTuple es) = all_opt Value_IsAllZeros es"
| "Value_IsAllZeros (VArray es) = all_opt Value_IsAllZeros es"
| "Value_IsAllZeros _ = None"

fun Value_IsAllOnes :: "xvalue \<Rightarrow> bool option" where
  "Value_IsAllOnes (VBits b) = Some (Bits_IsAllOnes b)"
| "Value_IsAllOnes (VTuple es) = all_opt Value_IsAllOnes es"
| "Value_IsAllOnes (VArray es) = all_opt Value_IsAllOnes es"
| "Value_IsAllOnes _ = None"

fun Value_ToString :: "format_preference \<Rightarrow> xvalue \<Rightarrow> string option" where
  "Value_ToString p VInvalid = Some ''<invalid value>''"
| "Value_ToString p (VBits b) = map_option (\<lambda>s. ''bits['' @ dec_string (bm_count b) @ '']:'' @ s) (Bits_ToString b p False)"
| "Value_ToString p (VTuple es) = map_option (\<lambda>ss. ''('' @ StrJoin ss '', '' @ '')'') (those (map (Value_ToString p) es))"
| "Value_ToString p (VArray es) = map_option (\<lambda>ss. ''['' @ StrJoin ss '', '' @ '']'') (those (map (Value_ToString p) es))"
| "Value_ToString p VToken = Some ''token''"

fun Value_ToHumanString :: "format_preference \<Rightarrow> xvalue \<Rightarrow> string option" where
  "Value_ToHumanString p VInvalid = Some ''<invalid value>''"
| "Value_ToHumanString p (VBits b) = Bits_ToString b p False"
| "Value_ToHumanString p (VArray es) = map_option (\<lambda>ss. ''['' @ StrJoin ss '', '' @ '']'') (those (map (Value_ToHumanString p) es))"
| "Value_ToHumanString p (VTuple es) = map_option (\<lambda>ss. ''('' @ StrJoin ss '', '' @ '')'') (those (map (Value_ToHumanString p) es))"
| "Value_ToHumanString p VToken = Some ''token''"

fun Value_FlattenTo :: "xvalue \<Rightarrow> bool list \<Rightarrow> bool list option"
and Values_FlattenTo :: "xvalue list \<Rightarrow> bool list \<Rightarrow> bool list option" where
  "Value_FlattenTo (VBits b) buffer = Some (Bits_FlattenTo b buffer)"
| "Value_FlattenTo (VTuple es) buffer = Values_FlattenTo es buffer"
| "Value_FlattenTo (VArray es) buffer = Values_FlattenTo es buffer"
| "Value_FlattenTo _ buffer = None"
| "Values_FlattenTo [] buffer = Some buffer"
| "Values_FlattenTo (e # es) buffer = Value_FlattenTo e buffer \<bind> Values_FlattenTo es"

fun Value_SameTypeAs :: "xvalue \<Rightarrow> xvalue \<Rightarrow> bool option"
and Values_SameTypeAs :: "xvalue list \<Rightarrow> xvalue list \<Rightarrow> bool option" where
  "Value_SameTypeAs VInvalid other = (case other of VInvalid \<Rightarrow> None | _ \<Rightarrow> Some False)"
| "Value_SameTypeAs (VBits a) other = (case other of VBits b \<Rightarrow> Some (bm_count a = bm_count b) | _ \<Rightarrow> Some False)"
| "Value_SameTypeAs (VTuple es) other =
     (case other of VTuple fs \<Rightarrow> if length es \<noteq> length fs then Some False else Values_SameTypeAs es fs | _ \<Rightarrow> Some False)"
| "Value_SameTypeAs (VArray es) other =
     (case other of
        VArray fs \<Rightarrow>
          (if length es = length fs
           then (case (es, fs) of (e # es', f # fs') \<Rightarrow> Value_SameTypeAs e f | _ \<Rightarrow> None)
           else Some False)
      | _ \<Rightarrow> Some False)"
| "Value_SameTypeAs VToken other = (case other of VToken \<Rightarrow> Some True | _ \<Rightarrow> Some False)"
| "Values_SameTypeAs (e # es) (f # fs) = Value_SameTypeAs e f \<bind> (\<lambda>b. if b then Values_SameTypeAs es fs else Some False)"
| "Values_SameTypeAs _ _ = Some True"

fun Value_TypeAsProto :: "xvalue \<Rightarrow> type_proto statusor"
and Values_TypeAsProto :: "xvalue list \<Rightarrow> type_proto list statusor" where
  "Value_TypeAsProto (VBits b) = Inr (TypeProto (Some BITS) (Some (int (bm_count b))) [] None None)"
| "Value_TypeAsProto (VTuple es) = map_sum id (\<lambda>ps. TypeProto (Some TUPLE) None ps None None) (Values_TypeAsProto es)"
| "Value_TypeAsProto (VArray []) = Inl Internal"
| "Value_TypeAsProto (VArray (e # es)) =
     map_sum id (\<lambda>p. TypeProto (Some ARRAY) None [] (Some (int (length (e # es)))) (Some p)) (Value_TypeAsProto e)"
| "Value_TypeAsProto VToken = Inr (TypeProto (Some TOKEN) None [] None None)"
| "Value_TypeAsProto VInvalid = Inl Internal"
| "Values_TypeAsProto [] = Inr []"
| "Values_TypeAsProto (e # es) =
     (case Value_TypeAsProto e of Inl s \<Rightarrow> Inl s | Inr p \<Rightarrow> map_sum id ((#) p) (Values_TypeAsProto es))"

fun Value_eq :: "xvalue \<Rightarrow> xvalue \<Rightarrow> bool option"
and Values_eq :: "xvalue list \<Rightarrow> xvalue list \<Rightarrow> bool option" where
  "Value_eq VInvalid other = (case other of VInvalid \<Rightarrow> None | _ \<Rightarrow> Some False)"
| "Value_eq (VBits a) other = (case other of VBits b \<Rightarrow> Some (Bits_eq a b) | _ \<Rightarrow> Some False)"
| "Value_eq (VTuple es) other =
     (case other of VTuple fs \<Rightarrow> if length es \<noteq> length fs then Some False else Values_eq es fs | _ \<Rightarrow> Some False)"
| "Value_eq (VArray es) other =
     (case other of VArray fs \<Rightarrow> if length es \<noteq> length fs then Some False else Values_eq es fs | _ \<Rightarrow> Some False)"
| "Value_eq VToken other = (case other of VToken \<Rightarrow> Some True | _ \<Rightarrow> Some False)"
| "Values_eq (e # es) (f # fs) = Value_eq e f \<bind> (\<lambda>b. if b then Values_eq es fs else Some False)"
| "Values_eq _ _ = Some True"

section \<open>Arrays\<close>

definition Value_Array :: "xvalue list \<Rightarrow> xvalue statusor option" where
  "Value_Array elements = (case elements of
     [] \<Rightarrow> Some (Inl Unimplemented)
   | e # es \<Rightarrow> map_option (\<lambda>ok. if ok then Inr (VArray elements) else Inl Internal) (all_opt (Value_SameTypeAs e) es))"

definition Value_ArrayOrDie :: "xvalue list \<Rightarrow> xvalue option" where
  "Value_ArrayOrDie elements = Value_Array elements \<bind> status_value"

text \<open>\<open>UBitsArray\<close> and \<open>SBitsArray\<close> have the same text but for the constructor \<open>mk\<close> of the elements.\<close>

fun bits_values :: "('w \<Rightarrow> bits statusor) \<Rightarrow> 'w list \<Rightarrow> xvalue list statusor" where
  "bits_values mk [] = Inr []"
| "bits_values mk (x # xs) =
     (case mk x of Inl e \<Rightarrow> Inl e | Inr b \<Rightarrow> map_sum id ((#) (VBits b)) (bits_values mk xs))"

definition bits_array :: "('w \<Rightarrow> bits statusor) \<Rightarrow> 'w list \<Rightarrow> xvalue statusor option" where
  "bits_array mk elements =
     (if elements = [] then Some (Inl Unimplemented)
      else (case bits_values mk elements of Inl e \<Rightarrow> Some (Inl e) | Inr vs \<Rightarrow> Value_Array vs))"

definition Value_UBitsArray :: "uint64 list \<Rightarrow> nat \<Rightarrow> xvalue statusor option" where
  "Value_UBitsArray elements bit_count = bits_array (\<lambda>x. UBitsWithStatus x bit_count) elements"

definition Value_SBitsArray :: "uint64 list \<Rightarrow> nat \<Rightarrow> xvalue statusor option" where
  "Value_SBitsArray elements bit_count = bits_array (\<lambda>x. SBitsWithStatus x bit_count) elements"

text \<open>\<open>element_size\<close> is \<open>None\<close> where the code has \<open>-1\<close>, before the first row.\<close>

fun rows_values ::
    "('w \<Rightarrow> xvalue statusor option) \<Rightarrow> 'w list \<Rightarrow> nat option \<Rightarrow> xvalue list statusor option" where
  "rows_values mk [] element_size = Some (Inr [])"
| "rows_values mk (x # xs) element_size = do {
     r \<leftarrow> mk x;
     case r of
       Inl e \<Rightarrow> Some (Inl e)
     | Inr v \<Rightarrow> do {
         n \<leftarrow> Value_size v;
         if element_size \<noteq> None \<and> element_size \<noteq> Some n then Some (Inl Internal)
         else map_option (map_sum id ((#) v)) (rows_values mk xs (if element_size = None then Some n else element_size))
       }
   }"

definition rows_array :: "('w \<Rightarrow> xvalue statusor option) \<Rightarrow> 'w list \<Rightarrow> xvalue statusor option" where
  "rows_array mk elements =
     (if elements = [] then Some (Inl Unimplemented)
      else rows_values mk elements None \<bind> (\<lambda>r. case r of Inl e \<Rightarrow> Some (Inl e) | Inr vs \<Rightarrow> Value_Array vs))"

definition Value_UBits2DArray :: "uint64 list list \<Rightarrow> nat \<Rightarrow> xvalue statusor option" where
  "Value_UBits2DArray elements bit_count = rows_array (\<lambda>x. Value_UBitsArray x bit_count) elements"

definition Value_SBits2DArray :: "uint64 list list \<Rightarrow> nat \<Rightarrow> xvalue statusor option" where
  "Value_SBits2DArray elements bit_count = rows_array (\<lambda>x. Value_SBitsArray x bit_count) elements"

section \<open>Helpers on values\<close>

fun GetTypeForValue :: "xvalue \<Rightarrow> xls_type option" where
  "GetTypeForValue (VBits b) = Some (BitsType (bm_count b))"
| "GetTypeForValue (VTuple es) = map_option TupleType (those (map GetTypeForValue es))"
| "GetTypeForValue (VArray []) = None"
| "GetTypeForValue (VArray (e # es)) = map_option (ArrayType (length (e # es))) (GetTypeForValue e)"
| "GetTypeForValue VToken = Some TokenType"
| "GetTypeForValue VInvalid = None"

fun ValueOfType :: "(nat \<Rightarrow> bits option) \<Rightarrow> xls_type \<Rightarrow> xvalue option" where
  "ValueOfType fbits (BitsType n) = map_option VBits (fbits n)"
| "ValueOfType fbits (TupleType ts) = map_option VTuple (those (map (ValueOfType fbits) ts))"
| "ValueOfType fbits (ArrayType n t) = those (map (\<lambda>_. ValueOfType fbits t) [0..<n]) \<bind> Value_ArrayOrDie"
| "ValueOfType fbits TokenType = Some VToken"

definition ZeroOfType :: "xls_type \<Rightarrow> xvalue option" where
  "ZeroOfType t = ValueOfType (\<lambda>bit_count. UBits 0 bit_count) t"

definition AllOnesOfType :: "xls_type \<Rightarrow> xvalue option" where
  "AllOnesOfType t = ValueOfType (\<lambda>bit_count. if bit_count = 0 then Some (Bits_new 0) else SBits (- 1) bit_count) t"

fun ValueConformsToType :: "xvalue \<Rightarrow> xls_type \<Rightarrow> bool option"
and ValuesConformToTypes :: "xvalue list \<Rightarrow> xls_type list \<Rightarrow> bool option" where
  "ValueConformsToType (VBits b) t = Some (case t of BitsType n \<Rightarrow> bm_count b = n | _ \<Rightarrow> False)"
| "ValueConformsToType (VArray es) t =
     (case t of
        ArrayType n u \<Rightarrow>
          if n = length es then (case es of [] \<Rightarrow> None | e # es' \<Rightarrow> ValueConformsToType e u) else Some False
      | _ \<Rightarrow> Some False)"
| "ValueConformsToType (VTuple es) t =
     (case t of TupleType ts \<Rightarrow> if length ts \<noteq> length es then Some False else ValuesConformToTypes es ts | _ \<Rightarrow> Some False)"
| "ValueConformsToType VToken t = Some (t = TokenType)"
| "ValueConformsToType VInvalid t = None"
| "ValuesConformToTypes (e # es) (t # ts) =
     ValueConformsToType e t \<bind> (\<lambda>b. if b then ValuesConformToTypes es ts else Some False)"
| "ValuesConformToTypes _ _ = Some True"

fun ValueLeafNodes :: "xvalue \<Rightarrow> xvalue list option" where
  "ValueLeafNodes (VBits b) = Some [VBits b]"
| "ValueLeafNodes VToken = Some [VToken]"
| "ValueLeafNodes (VTuple es) = map_option concat (those (map ValueLeafNodes es))"
| "ValueLeafNodes (VArray es) = map_option concat (those (map ValueLeafNodes es))"
| "ValueLeafNodes VInvalid = None"

text \<open>A \<open>float\<close> is its IEEE bit pattern, which is all \<open>bit_cast\<close> sees of it.\<close>

definition F32ToTuple :: "32 word \<Rightarrow> xvalue option" where
  "F32ToTuple x = do {
     let sign = (if drop_bit 31 x \<noteq> 0 then 1 else 0 :: uint8);
     let exponent = (ucast (drop_bit 23 x) :: uint8);
     let fraction = x AND mask 23;
     s \<leftarrow> Bits_FromBytes [sign] 1;
     e \<leftarrow> Bits_FromBytes [exponent] 8;
     f \<leftarrow> UBits (ucast fraction) 23;
     Some (VTuple [VBits s, VBits e, VBits f])
   }"

definition f32_field :: "xvalue \<Rightarrow> nat \<Rightarrow> nat \<Rightarrow> 32 word statusor option" where
  "f32_field v i width = do {
     e \<leftarrow> Value_element v i;
     b \<leftarrow> Value_bits e;
     Some (if bm_count b \<noteq> width then Inl Internal else map_sum id ucast (Bits_ToUint64 b))
   }"

definition TupleToF32 :: "xvalue \<Rightarrow> 32 word statusor option" where
  "TupleToF32 v =
     (if \<not> Value_IsTuple v then Some (Inl Internal)
      else Value_size v \<bind> (\<lambda>n. if n \<noteq> 3 then Some (Inl Internal) else
        f32_field v 0 1 \<bind> (\<lambda>r. case r of Inl e \<Rightarrow> Some (Inl e) | Inr sign \<Rightarrow>
        f32_field v 1 8 \<bind> (\<lambda>r. case r of Inl e \<Rightarrow> Some (Inl e) | Inr exponent \<Rightarrow>
        f32_field v 2 23 \<bind> (\<lambda>r. case r of Inl e \<Rightarrow> Some (Inl e) | Inr fraction \<Rightarrow>
          Some (Inr ((push_bit 31 sign OR push_bit 23 exponent) OR fraction)))))))"

section \<open>Typing\<close>

fun has_type :: "xvalue \<Rightarrow> xls_type \<Rightarrow> bool" where
  "has_type (VBits b) t = (case t of BitsType n \<Rightarrow> wf_bitmap b \<and> bm_count b = n | _ \<Rightarrow> False)"
| "has_type (VTuple es) t = (case t of TupleType ts \<Rightarrow> list_all2 has_type es ts | _ \<Rightarrow> False)"
| "has_type (VArray es) t = (case t of ArrayType n u \<Rightarrow> es \<noteq> [] \<and> length es = n \<and> list_all (\<lambda>e. has_type e u) es | _ \<Rightarrow> False)"
| "has_type VToken t \<longleftrightarrow> t = TokenType"
| "has_type VInvalid t \<longleftrightarrow> False"

fun inhabited :: "xls_type \<Rightarrow> bool" where
  "inhabited (BitsType n) \<longleftrightarrow> True"
| "inhabited (TupleType ts) \<longleftrightarrow> list_all inhabited ts"
| "inhabited (ArrayType n t) \<longleftrightarrow> 0 < n \<and> inhabited t"
| "inhabited TokenType \<longleftrightarrow> True"

lemma has_type_iff [simp]:
  "has_type v (BitsType n) \<longleftrightarrow> (\<exists>b. v = VBits b \<and> wf_bitmap b \<and> bm_count b = n)"
  "has_type v (TupleType ts) \<longleftrightarrow> (\<exists>es. v = VTuple es \<and> list_all2 has_type es ts)"
  "has_type v (ArrayType n t) \<longleftrightarrow> (\<exists>es. v = VArray es \<and> es \<noteq> [] \<and> length es = n \<and> list_all (\<lambda>e. has_type e t) es)"
  "has_type v TokenType \<longleftrightarrow> v = VToken"
  by (cases v; auto)+

declare has_type.simps(1-3) [simp del]

lemma those_eq_Some_iff: "those xs = Some ys \<longleftrightarrow> xs = map Some ys"
  by (induction xs arbitrary: ys) (auto split: option.splits)

lemma those_map_Some: "list_all2 (\<lambda>x y. f x = Some y) xs ys \<Longrightarrow> those (map f xs) = Some ys"
  by (induction rule: list_all2_induct) simp_all

lemma those_map_cong: "(\<And>x. x \<in> set xs \<Longrightarrow> f x = Some (g x)) \<Longrightarrow> those (map f xs) = Some (map g xs)"
  by (induction xs) simp_all

lemma list_all2_mono_set:
  "list_all2 P xs ys \<Longrightarrow> (\<And>x y. x \<in> set xs \<Longrightarrow> y \<in> set ys \<Longrightarrow> P x y \<Longrightarrow> Q x y) \<Longrightarrow> list_all2 Q xs ys"
  by (rule list.rel_mono_strong)

lemma list_all2_setD1: "list_all2 P xs ys \<Longrightarrow> x \<in> set xs \<Longrightarrow> \<exists>y\<in>set ys. P x y"
  by (induction rule: list_all2_induct) auto

lemma typed_members: "list_all2 has_type es ts \<Longrightarrow> list_all (\<lambda>e. \<exists>t. has_type e t) es"
  by (auto simp: list_all_iff dest: list_all2_setD1)

lemma all_opt_eq_Some: "(\<And>x. x \<in> set xs \<Longrightarrow> f x = Some (p x)) \<Longrightarrow> all_opt f xs = Some (list_all p xs)"
  by (induction xs) simp_all

lemma GetTypeForValue_typed: "has_type v t \<Longrightarrow> GetTypeForValue v = Some t"
proof (induction t arbitrary: v)
  case (TupleType ts)
  then obtain es where "v = VTuple es" and es: "list_all2 has_type es ts" by auto
  moreover have "list_all2 (\<lambda>e t. GetTypeForValue e = Some t) es ts"
    using es by (rule list_all2_mono_set) (use TupleType.IH in auto)
  ultimately show ?case by (simp add: those_map_Some)
next
  case (ArrayType n t)
  then obtain e es where "v = VArray (e # es)" "has_type e t" "length (e # es) = n" by (auto simp: neq_Nil_conv)
  then show ?case using ArrayType.IH by auto
qed auto

lemma has_type_unique: "has_type v t \<Longrightarrow> has_type v u \<Longrightarrow> t = u"
  by (metis GetTypeForValue_typed option.inject)

lemma ValueConformsToType_typed: "has_type v u \<Longrightarrow> ValueConformsToType v t = Some (t = u)"
  and ValuesConformToTypes_typed:
    "list_all2 has_type es us \<Longrightarrow> length ts = length es \<Longrightarrow> ValuesConformToTypes es ts = Some (ts = us)"
proof (induction v t and es ts arbitrary: u and us rule: ValueConformsToType_ValuesConformToTypes.induct)
  case (2 es t)
  then show ?case by (cases u; cases t; cases es) auto
next
  case (3 es t)
  then show ?case by (cases u; cases t) (auto simp: list_all2_lengthD)
next
  case (6 e es t ts)
  then show ?case by (cases us) auto
qed (auto split: xls_type.splits simp: has_type.simps)

lemma Value_SameTypeAs_typed: "has_type v t \<Longrightarrow> has_type w u \<Longrightarrow> Value_SameTypeAs v w = Some (t = u)"
  and Values_SameTypeAs_typed:
    "list_all2 has_type es ts \<Longrightarrow> list_all2 has_type fs us \<Longrightarrow> length es = length fs \<Longrightarrow> Values_SameTypeAs es fs = Some (ts = us)"
proof (induction v w and es fs arbitrary: t u and ts us rule: Value_SameTypeAs_Values_SameTypeAs.induct)
  case (3 es w)
  then show ?case by (cases t; cases u) (auto simp: list_all2_lengthD)
next
  case (4 es w)
  then show ?case by (cases t; cases u; cases es) (auto simp: neq_Nil_conv)
next
  case (6 e es f fs)
  then show ?case by (cases ts; cases us) auto
qed (auto split: xls_type.splits xvalue.splits simp: has_type.simps)

lemma Value_TypeAsProto_typed: "has_type v t \<Longrightarrow> Value_TypeAsProto v = Inr (Type_ToProto t)"
  and Values_TypeAsProto_typed: "list_all2 has_type es ts \<Longrightarrow> Values_TypeAsProto es = Inr (map Type_ToProto ts)"
proof (induction v and es arbitrary: t and ts rule: Value_TypeAsProto_Values_TypeAsProto.induct)
  case (8 e es)
  then show ?case by (cases ts) auto
qed (auto split: xls_type.splits simp: has_type.simps)

lemma Value_GetFlatBitCount_typed: "has_type v t \<Longrightarrow> Value_GetFlatBitCount v = Some (Type_GetFlatBitCount t)"
proof (induction t arbitrary: v)
  case (TupleType ts)
  then obtain es where "v = VTuple es" and es: "list_all2 has_type es ts" by auto
  moreover have "list_all2 (\<lambda>e t. Value_GetFlatBitCount e = Some (Type_GetFlatBitCount t)) es ts"
    using es by (rule list_all2_mono_set) (use TupleType.IH in auto)
  then have "those (map Value_GetFlatBitCount es) = Some (map Type_GetFlatBitCount ts)"
    by (intro those_map_Some) (simp add: list_all2_map2)
  ultimately show ?case by simp
next
  case (ArrayType n t)
  then obtain e es where "v = VArray (e # es)" "has_type e t" "length (e # es) = n" by (auto simp: neq_Nil_conv)
  then show ?case using ArrayType.IH by auto
qed auto

lemma Value_Array_typed:
  assumes "es \<noteq> []" and "list_all (\<lambda>e. has_type e t) es"
  shows "Value_Array es = Some (Inr (VArray es))"
proof -
  obtain e es' where es: "es = e # es'" using assms(1) by (cases es) auto
  have "all_opt (Value_SameTypeAs e) es' = Some (list_all (\<lambda>_. True) es')"
    using assms(2) es by (intro all_opt_eq_Some) (auto simp: list_all_iff Value_SameTypeAs_typed)
  then show ?thesis using es by (simp add: Value_Array_def list_all_iff)
qed

lemma Value_Array_mixed:
  assumes "has_type e t" and "list_all (\<lambda>f. \<exists>u. has_type f u) es" and "\<not> list_all (\<lambda>f. has_type f t) es"
  shows "Value_Array (e # es) = Some (Inl Internal)"
proof -
  have "all_opt (Value_SameTypeAs e) es = Some (list_all (\<lambda>f. has_type f t) es)"
  proof (rule all_opt_eq_Some)
    fix f assume "f \<in> set es"
    then obtain u where "has_type f u" using assms(2) by (auto simp: list_all_iff)
    then show "Value_SameTypeAs e f = Some (has_type f t)"
      using assms(1) has_type_unique by (auto simp: Value_SameTypeAs_typed)
  qed
  then show ?thesis using assms(3) by (simp add: Value_Array_def)
qed

section \<open>Values of a type\<close>

text \<open>The values all of whose bit vectors have the bits \<open>fill n\<close>.\<close>

fun leaves_filled :: "(nat \<Rightarrow> bool list) \<Rightarrow> xvalue \<Rightarrow> bool" where
  "leaves_filled fill (VBits b) \<longleftrightarrow> bits_of b = fill (bm_count b)"
| "leaves_filled fill (VTuple es) \<longleftrightarrow> list_all (leaves_filled fill) es"
| "leaves_filled fill (VArray es) \<longleftrightarrow> list_all (leaves_filled fill) es"
| "leaves_filled fill VToken \<longleftrightarrow> True"
| "leaves_filled fill VInvalid \<longleftrightarrow> False"

lemma ValueOfType_None: "\<not> inhabited t \<Longrightarrow> ValueOfType f t = None"
proof (induction t)
  case (TupleType ts)
  then obtain t where "t \<in> set ts" "ValueOfType f t = None" by (auto simp: list_all_iff)
  then have "those (map (ValueOfType f) ts) = None" by (induction ts) (auto split: option.splits)
  then show ?case by simp
next
  case (ArrayType n t)
  then show ?case by (cases n) (auto simp: Value_ArrayOrDie_def Value_Array_def upt_conv_Cons simp del: upt_Suc)
qed auto

lemma ValueOfType_typed:
  assumes fill: "\<And>n. returns (f n) (fill n)" and len: "\<And>n. length (fill n) = n" and "inhabited t"
  shows "\<exists>v. ValueOfType f t = Some v \<and> has_type v t \<and> leaves_filled fill v"
  using assms(3)
proof (induction t)
  case (BitsType n)
  obtain b where "f n = Some b" "rep b (fill n)" using fill[of n] by (auto elim: returns_bindE)
  then show ?case using len by (auto simp: rep_simps)
next
  case (TupleType ts)
  have "\<exists>es. list_all2 (\<lambda>t v. ValueOfType f t = Some v \<and> has_type v t \<and> leaves_filled fill v) ts es"
    using TupleType unfolding list_all_iff
  proof (induction ts)
    case (Cons t ts)
    then obtain es where "list_all2 (\<lambda>t v. ValueOfType f t = Some v \<and> has_type v t \<and> leaves_filled fill v) ts es" by auto
    moreover obtain v where "ValueOfType f t = Some v \<and> has_type v t \<and> leaves_filled fill v" using Cons.prems by auto
    ultimately show ?case by (intro exI[of _ "v # es"]) simp
  qed (auto intro: exI[of _ "[]"])
  then obtain es where es: "list_all2 (\<lambda>t v. ValueOfType f t = Some v \<and> has_type v t \<and> leaves_filled fill v) ts es" ..
  then have "those (map (ValueOfType f) ts) = Some es" by (intro those_map_Some) (auto elim: list_all2_mono)
  moreover have "list_all2 has_type es ts" using es by (subst list_all2_conv_all_nth) (simp add: list_all2_conv_all_nth)
  moreover have "list_all (leaves_filled fill) es" using es by (auto simp: list_all2_conv_all_nth list_all_length)
  ultimately show ?case by simp
next
  case (ArrayType n t)
  then obtain v where v: "ValueOfType f t = Some v" "has_type v t" "leaves_filled fill v" "0 < n" by auto
  have "those (map (\<lambda>_. ValueOfType f t) [0..<n]) = Some (replicate n v)"
    using v(1) by (simp add: those_eq_Some_iff map_replicate_const)
  moreover have "Value_Array (replicate n v) = Some (Inr (VArray (replicate n v)))"
    using v by (intro Value_Array_typed[of _ t]) (auto simp: list_all_iff)
  ultimately show ?case using v by (simp add: Value_ArrayOrDie_def list_all_iff)
qed simp

lemma ZeroOfType_typed: "inhabited t \<Longrightarrow> \<exists>v. ZeroOfType t = Some v \<and> has_type v t \<and> leaves_filled (\<lambda>n. replicate n False) v"
  unfolding ZeroOfType_def using returns_UBits[of 0] by (intro ValueOfType_typed) simp_all

lemma AllOnesOfType_typed:
  assumes "inhabited t"
  shows "\<exists>v. AllOnesOfType t = Some v \<and> has_type v t \<and> leaves_filled (\<lambda>n. replicate n True) v"
proof -
  have ones: "returns (if n = 0 then Some (Bits_new 0) else SBits (- 1) n) (replicate n True)" for n
  proof (cases "n = 0")
    case False
    have "int_bl n (- 1) = replicate n True" by (rule nth_equalityI) simp_all
    moreover have "- 1 < (2 :: int) ^ (n - 1)" by (rule less_trans[of _ 0]) simp_all
    then have "returns (SBits (- 1) n) (int_bl n (sint (- 1 :: uint64)))"
      using False by (intro returns_SBits) simp_all
    ultimately show ?thesis using False by simp
  qed (use rep_new[of 0] in simp)
  show ?thesis unfolding AllOnesOfType_def using ones assms by (intro ValueOfType_typed) simp_all
qed

lemma Value_IsAllZeros_filled:
  "has_type v t \<Longrightarrow> \<not> TypeHasToken t \<Longrightarrow> Value_IsAllZeros v = Some (leaves_filled (\<lambda>n. replicate n False) v)"
proof (induction t arbitrary: v)
  case (BitsType n)
  then obtain b where "v = VBits b" "wf_bitmap b" by auto
  moreover have "Bits_IsZero b \<longleftrightarrow> bits_of b = replicate (bm_count b) False" if "wf_bitmap b"
    using rep_IsZero[OF rep_bits_of[OF that]] by (auto simp: unum_eq_0_iff list_eq_iff_nth_eq in_set_conv_nth)
  ultimately show ?case by simp
next
  case (TupleType ts)
  then obtain es where es: "v = VTuple es" "list_all2 has_type es ts" by auto
  have "Value_IsAllZeros e = Some (leaves_filled (\<lambda>n. replicate n False) e)" if e: "e \<in> set es" for e
  proof -
    obtain t where "t \<in> set ts" "has_type e t" using list_all2_setD1[OF es(2) e] by auto
    then show ?thesis using TupleType by (auto simp: list_ex_iff)
  qed
  then show ?case using es(1) by (simp add: all_opt_eq_Some)
next
  case (ArrayType n t)
  then obtain es where "v = VArray es" "list_all (\<lambda>e. has_type e t) es" by auto
  with ArrayType show ?case
    using all_opt_eq_Some[of es Value_IsAllZeros "leaves_filled (\<lambda>n. replicate n False)"] by (simp add: list_all_iff)
qed simp

section \<open>Flattening and equality\<close>

text \<open>The bits of a value, most significant first, in the order of the leaves.\<close>

fun flat_bits :: "xvalue \<Rightarrow> bool list" where
  "flat_bits (VBits b) = rev (bits_of b)"
| "flat_bits (VTuple es) = concat (map flat_bits es)"
| "flat_bits (VArray es) = concat (map flat_bits es)"
| "flat_bits _ = []"

lemma fold_snoc: "fold (\<lambda>i buffer. buffer @ [f i]) is buffer = buffer @ map f is"
  by (induction "is" arbitrary: buffer) simp_all

lemma Bits_FlattenTo_eq: "Bits_FlattenTo b buffer = buffer @ rev (bits_of b)"
proof -
  have "map (\<lambda>i. Bits_Get b (bm_count b - i - 1)) [0..<bm_count b] = rev (bits_of b)"
    by (rule nth_equalityI) (simp_all add: rev_nth)
  then show ?thesis by (simp add: Bits_FlattenTo_def fold_snoc)
qed

lemma Values_FlattenTo_concat:
  "(\<And>e buffer. e \<in> set es \<Longrightarrow> Value_FlattenTo e buffer = Some (buffer @ flat_bits e)) \<Longrightarrow>
   Values_FlattenTo es buffer = Some (buffer @ concat (map flat_bits es))"
  by (induction es arbitrary: buffer) auto

lemma Value_FlattenTo_typed:
  "has_type v t \<Longrightarrow> \<not> TypeHasToken t \<Longrightarrow> Value_FlattenTo v buffer = Some (buffer @ flat_bits v)"
proof (induction t arbitrary: v buffer)
  case (TupleType ts)
  then obtain es where es: "v = VTuple es" "list_all2 has_type es ts" by auto
  have "Values_FlattenTo es buffer = Some (buffer @ concat (map flat_bits es))"
    using list_all2_setD1[OF es(2)] TupleType.IH TupleType.prems(2)
    by (intro Values_FlattenTo_concat) (fastforce simp: list_ex_iff)
  then show ?case using es(1) by simp
next
  case (ArrayType n t)
  then show ?case by (auto simp: list_all_iff intro!: Values_FlattenTo_concat)
qed (auto simp: Bits_FlattenTo_eq)

lemma length_concat_const: "(\<And>x. x \<in> set xs \<Longrightarrow> length (f x) = n) \<Longrightarrow> length (concat (map f xs)) = length xs * n"
  by (induction xs) auto

lemma length_flat_bits: "has_type v t \<Longrightarrow> length (flat_bits v) = Type_GetFlatBitCount t"
proof (induction t arbitrary: v)
  case (TupleType ts)
  then obtain es where es: "v = VTuple es" "list_all2 has_type es ts" by auto
  have "length (concat (map flat_bits es)) = sum_list (map Type_GetFlatBitCount ts)"
    using es(2) TupleType.IH by (induction es ts rule: list_all2_induct) auto
  then show ?case using es(1) by simp
next
  case (ArrayType n t)
  then show ?case by (auto simp: list_all_iff mult.commute length_concat_const)
qed auto

text \<open>The contents of a value, with bit vectors as bit lists.\<close>

datatype sval = SBitsV "bool list" | STupleV "sval list" | SArrayV "sval list" | STokenV | SInvalidV

fun sval_of :: "xvalue \<Rightarrow> sval" where
  "sval_of (VBits b) = SBitsV (bits_of b)"
| "sval_of (VTuple es) = STupleV (map sval_of es)"
| "sval_of (VArray es) = SArrayV (map sval_of es)"
| "sval_of VToken = STokenV"
| "sval_of VInvalid = SInvalidV"

lemma Value_eq_typed: "has_type v t \<Longrightarrow> has_type w u \<Longrightarrow> Value_eq v w = Some (sval_of v = sval_of w)"
  and Values_eq_typed:
    "list_all (\<lambda>e. \<exists>t. has_type e t) es \<Longrightarrow> list_all (\<lambda>e. \<exists>t. has_type e t) fs \<Longrightarrow> length es = length fs \<Longrightarrow>
     Values_eq es fs = Some (map sval_of es = map sval_of fs)"
proof (induction v w and es fs arbitrary: t u rule: Value_eq_Values_eq.induct)
  case (2 a other)
  then show ?case
    by (cases t; cases u) (auto simp: rep_eq[OF rep_bits_of rep_bits_of])
next
  case (3 es other)
  then show ?case
    by (cases t; cases u; cases other) (auto dest: map_eq_imp_length_eq typed_members)
next
  case (4 es other)
  then show ?case by (cases t; cases u; cases other) (auto dest: map_eq_imp_length_eq simp: list_all_iff)
next
  case (6 e es f fs)
  then show ?case by auto
qed (auto split: xls_type.splits xvalue.splits simp: has_type.simps)

section \<open>Floats\<close>

lemma f32_field_eq:
  assumes "rep b bs" and "length bs = width" and "width \<le> 32" and "i < length es" and "es ! i = VBits b"
  shows "f32_field (VTuple es) i width = Some (Inr (of_nat (unum bs)))"
proof -
  have "unum bs < 2 ^ 32"
    using unum_bound[of bs] assms(2) power_increasing[OF assms(3), of "2::nat"] by simp
  then have "Bits_ToUint64 b = Inr (of_nat (unum bs))" and "unat (of_nat (unum bs) :: uint64) = unum bs"
    using assms(1) by (simp_all add: rep_ToUint64 unat_of_nat)
  moreover from this(2) have "ucast (of_nat (unum bs) :: uint64) = (of_nat (unum bs) :: 32 word)" by (metis of_nat_unat)
  ultimately show ?thesis
    using assms by (simp add: f32_field_def Value_element_def Value_elements_def at_opt_def Value_bits_def rep_count)
qed

lemma one_byte:
  assumes "0 < n" and "n \<le> 8"
  shows "returns (Bits_FromBytes [y] n) (nat_bl n (unat y))"
  using returns_FromBytes_val[of "[y]" n] assms by (simp add: be_val_def)

lemma f32_parts:
  fixes x :: "32 word"
  shows "push_bit 31 (of_nat (unat (if drop_bit 31 x \<noteq> 0 then 1 else 0 :: uint8))) OR
      push_bit 23 (of_nat (unat (ucast (drop_bit 23 x) :: uint8))) OR of_nat (unat (ucast (x AND mask 23) :: uint64)) = x"
    (is "?l = _")
proof (rule bit_word_eqI)
  fix i assume "i < LENGTH(32)"
  then have "i = 31 \<or> (23 \<le> i \<and> i < 31) \<or> i < 23" by auto
  moreover have "drop_bit 31 x \<noteq> 0 \<longleftrightarrow> bit x 31"
  proof
    assume "drop_bit 31 x \<noteq> 0"
    then obtain j where j: "bit x (31 + j)" by (auto simp: bit_eq_iff bit_drop_bit_eq)
    then have "31 + j < 32" using bit_imp_le_length[OF j] by simp
    then show "bit x 31" using j by simp
  next
    assume "bit x 31"
    then have "bit (drop_bit 31 x) 0" by (simp only: bit_drop_bit_eq o_apply add_0_right)
    then show "drop_bit 31 x \<noteq> 0" by auto
  qed
  ultimately show "bit ?l i = bit x i"
    by (auto simp: bit_simps)
qed

lemma F32ToTuple_round_trip: "F32ToTuple x \<bind> TupleToF32 = Some (Inr x)"
proof -
  let ?s = "if drop_bit 31 x \<noteq> 0 then 1 else 0 :: uint8" and ?e = "ucast (drop_bit 23 x) :: uint8"
    and ?f = "ucast (x AND mask 23) :: uint64"
  have "unat ?f = take_bit 23 (unat x)"
    by (rule bit_eqI) (auto simp: bit_simps dest: bit_imp_le_length)
  then have f: "unat ?f < 2 ^ 23" by (simp only: take_bit_nat_less_exp)
  have e8: "unat ?e mod 256 = unat ?e" by (rule mod_less) (use unsigned_less[of ?e] in simp)
  obtain s e f where s: "Bits_FromBytes [?s] 1 = Some s" "rep s (nat_bl 1 (unat ?s))"
      and e: "Bits_FromBytes [?e] 8 = Some e" "rep e (nat_bl 8 (unat ?e))"
      and f: "UBits ?f 23 = Some f" "rep f (nat_bl 23 (unat ?f))"
    using one_byte[of 1 ?s] one_byte[of 8 ?e] returns_UBits[OF f] by (auto elim!: returns_bindE)
  let ?v = "VTuple [VBits s, VBits e, VBits f]"
  have "F32ToTuple x = Some ?v" using s(1) e(1) f(1) by (simp add: F32ToTuple_def Let_def)
  moreover have "f32_field ?v 0 1 = Some (Inr (of_nat (unat ?s)))"
    "f32_field ?v 1 8 = Some (Inr (of_nat (unat ?e)))" "f32_field ?v 2 23 = Some (Inr (of_nat (unat ?f)))"
    using f32_field_eq[OF s(2), of 1 0 "[VBits s, VBits e, VBits f]"]
      f32_field_eq[OF e(2), of 8 1 "[VBits s, VBits e, VBits f]"]
      f32_field_eq[OF f(2), of 23 2 "[VBits s, VBits e, VBits f]"] \<open>unat ?f < 2 ^ 23\<close> e8
    by simp_all
  ultimately show ?thesis
    using f32_parts[of x]
    by (simp add: TupleToF32_def Value_IsTuple_def Value_kind_def Value_size_def Value_elements_def or.assoc)
qed

section \<open>Properties\<close>

text \<open>C37: Values that have the types \<open>t\<close> and \<open>u\<close>: the type a package computes for a value is its type, conforming to a
  type means having it, comparing the types of two values compares their types, the type is written as the protobuf of
  the type (which reads back as that type), and the flat bit count is that of the type. None of these aborts.\<close>

theorem value_type_operations_agree:
  assumes "has_type v t" and "has_type w u"
  shows "GetTypeForValue v = Some t \<and> ValueConformsToType v u = Some (t = u) \<and> Value_SameTypeAs v w = Some (t = u) \<and>
    (\<exists>p. Value_TypeAsProto v = Inr p \<and> GetTypeFromProto p = Inr t) \<and>
    Value_GetFlatBitCount v = Some (Type_GetFlatBitCount t)"
  using assms GetTypeFromProto_ToProto[of t]
  by (auto simp: GetTypeForValue_typed ValueConformsToType_typed Value_SameTypeAs_typed Value_TypeAsProto_typed
    Value_GetFlatBitCount_typed)

theorem value_type_operations_agree_witness:
  "GetTypeForValue (VTuple [VBits (Bits_new 3), VArray [VToken]]) = Some (TupleType [BitsType 3, ArrayType 1 TokenType]) \<and>
   Value_SameTypeAs (VTuple [VBits (Bits_new 3), VArray [VToken]]) (VBits (Bits_new 2)) = Some False"
  using value_type_operations_agree[of "VTuple [VBits (Bits_new 3), VArray [VToken]]"
      "TupleType [BitsType 3, ArrayType 1 TokenType]" "VBits (Bits_new 2)" "BitsType 2"]
    rep_new[of 3] rep_new[of 2] by (simp add: rep_def Bits_new_def)

text \<open>\<open>ZeroOfType\<close> and \<open>AllOnesOfType\<close> return for the types without empty arrays and abort for all others; the
  value they return has the type, and every bit vector in it is all zeros (all ones).\<close>

lemma values_of_type:
  "(ZeroOfType t = None \<longleftrightarrow> \<not> inhabited t) \<and>
   (\<forall>v. ZeroOfType t = Some v \<longrightarrow> has_type v t \<and> leaves_filled (\<lambda>n. replicate n False) v) \<and>
   (AllOnesOfType t = None \<longleftrightarrow> \<not> inhabited t) \<and>
   (\<forall>v. AllOnesOfType t = Some v \<longrightarrow> has_type v t \<and> leaves_filled (\<lambda>n. replicate n True) v)"
proof (cases "inhabited t")
  case True
  then show ?thesis using ZeroOfType_typed AllOnesOfType_typed by fastforce
next
  case False
  then show ?thesis by (simp add: ZeroOfType_def AllOnesOfType_def ValueOfType_None)
qed

text \<open>Flattening a value without tokens appends exactly the bits of its leaves, most significant first, as many as
  the type's flat bit count; two values of one type are equal for \<open>operator==\<close> exactly when they have the same contents.\<close>

lemma value_flattening_and_equality:
  assumes "has_type v t" and "has_type w t" and "\<not> TypeHasToken t"
  shows "Value_FlattenTo v buffer = Some (buffer @ flat_bits v) \<and> length (flat_bits v) = Type_GetFlatBitCount t \<and>
    Value_eq v w = Some (sval_of v = sval_of w) \<and>
    Value_IsAllZeros v = Some (leaves_filled (\<lambda>n. replicate n False) v)"
  using assms by (simp add: Value_FlattenTo_typed length_flat_bits Value_eq_typed Value_IsAllZeros_filled)

end
