(* ===== verification/Xls_Ir.thy ===== *)
theory Xls_Ir
  imports Xls_Value
begin

text \<open>
  The IR graph: the operations of \<open>xls/ir/op_specification.py\<close> with the attributes their node classes carry, nodes,
  functions and packages, and the depth-first traversals \<open>Node::Accept\<close> (\<open>xls/ir/node.cc\<close>) and \<open>FunctionBase::Accept\<close>
  (\<open>xls/ir/function_base.cc\<close>) on which the verifier and the interpreter rest.

  A \<open>Node*\<close> is a number, resolved in the node list of its function; a \<open>Function*\<close> is an index into the functions of the
  package. The users of a node are read off the operand lists, which is the consistency \<open>VerifyNode\<close> checks.

  A visitor is its handler: a function of the node that maps the visitor's state to a new one, a status error (\<open>Inl\<close>) or
  an abort (\<open>None\<close>).
\<close>

section \<open>Sequencing of fallible steps\<close>

definition bindS :: "'a statusor option \<Rightarrow> ('a \<Rightarrow> 'b statusor option) \<Rightarrow> 'b statusor option" where
  "bindS m f = m \<bind> (\<lambda>r. case r of Inl e \<Rightarrow> Some (Inl e) | Inr x \<Rightarrow> f x)"

definition returnS :: "'a \<Rightarrow> 'a statusor option" where
  "returnS x = Some (Inr x)"

definition errorS :: "status \<Rightarrow> 'a statusor option" where
  "errorS e = Some (Inl e)"

definition RET_CHECK :: "bool \<Rightarrow> unit statusor option" where
  "RET_CHECK b = (if b then returnS () else errorS Internal)"

lemma bindS_simps [simp]: "bindS (returnS x) f = f x" "bindS (errorS e) f = errorS e" "bindS None f = None"
  "bindS (Some (Inr x)) f = f x" "bindS (Some (Inl e)) f = errorS e"
  by (simp_all add: bindS_def returnS_def errorS_def)

lemma bindS_eq_returnS: "bindS m f = returnS y \<longleftrightarrow> (\<exists>x. m = returnS x \<and> f x = returnS y)"
  by (cases m; auto simp: bindS_def returnS_def errorS_def split: sum.splits)

lemma returnS_inject [simp]: "returnS x = returnS y \<longleftrightarrow> x = y" "returnS x \<noteq> errorS e" "returnS x \<noteq> None" "errorS e \<noteq> returnS x"
  "None \<noteq> returnS x" "errorS e \<noteq> None"
  by (simp_all add: returnS_def errorS_def)

lemma RET_CHECK_simps [simp]: "RET_CHECK b = returnS u \<longleftrightarrow> b" "bindS (RET_CHECK b) f = (if b then f () else errorS Internal)"
  by (simp_all add: RET_CHECK_def)

lemma bindS_cong [fundef_cong]: "m = m' \<Longrightarrow> (\<And>x. m' = returnS x \<Longrightarrow> f x = g x) \<Longrightarrow> bindS m f = bindS m' g"
  by (auto simp: bindS_def returnS_def intro!: Option.bind_cong split: sum.splits)

section \<open>Operations\<close>

datatype lsb_or_msb = kLsb | kMsb

text \<open>
  One constructor per node class, with the operations of the class that share it. Attributes of type \<open>int64_t\<close> that
  the verifier tests for negative values are integers, the others natural numbers.
\<close>

datatype bin_op = Op_Add | Op_Sub | Op_UDiv | Op_SDiv | Op_UMod | Op_SMod | Op_Shll | Op_Shra | Op_Shrl

datatype mul_op = Op_SMul | Op_UMul

datatype nary_op = Op_And | Op_Nand | Op_Nor | Op_Or | Op_Xor

datatype reduction_op = Op_AndReduce | Op_OrReduce | Op_XorReduce

datatype compare_op = Op_Eq | Op_Ne | Op_SGe | Op_SGt | Op_SLe | Op_SLt | Op_UGe | Op_UGt | Op_ULe | Op_ULt

datatype un_op = Op_Identity | Op_Neg | Op_Not | Op_Reverse

datatype extend_op = Op_SignExt | Op_ZeroExt

record register =
  reg_name :: string
  reg_type :: xls_type
  reg_has_reset :: bool

text \<open>A register write has an optional load enable and an optional reset operand, in this order.\<close>

datatype block_op =
    Op_InputPort | Op_OutputPort | Op_RegisterRead register | Op_RegisterWrite register bool bool
  | Op_InstantiationInput | Op_InstantiationOutput

datatype (plugins only: code) ir_op =
    BinOp bin_op | ArithOp mul_op nat | PartialProductOp mul_op nat | NaryOp nary_op | BitwiseReductionOp reduction_op
  | CompareOp compare_op | UnOp un_op | ExtendOp extend_op nat
  | BitSlice int int | DynamicBitSlice int | BitSliceUpdate | Concat
  | Decode nat | Encode | OneHot lsb_or_msb | OneHotSelect | PrioritySelect | Select nat bool | Gate
  | Tuple | TupleIndex int | Array xls_type | ArrayIndex | ArraySlice int | ArrayUpdate | ArrayConcat
  | Literal xvalue | Param | Invoke nat | Map nat | CountedFor int int nat | DynamicCountedFor nat
  | AfterAll | Assert string "string option" | Trace "format_step list" | Cover string
  | Receive int bool | Send int | BlockOp block_op

definition OpIsSideEffecting :: "ir_op \<Rightarrow> bool" where
  "OpIsSideEffecting op \<longleftrightarrow> (case op of
     Assert _ _ \<Rightarrow> True | Trace _ \<Rightarrow> True | Cover _ \<Rightarrow> True | Receive _ _ \<Rightarrow> True | Send _ \<Rightarrow> True
   | BlockOp _ \<Rightarrow> True | Param \<Rightarrow> True | Gate \<Rightarrow> True | _ \<Rightarrow> False)"

record ir_node =
  node_op :: ir_op
  node_operands :: "nat list"
  node_type :: xls_type
  node_id :: int
  node_name :: string

record ir_function =
  fn_nodes :: "(nat \<times> ir_node) list"
  fn_params :: "nat list"
  fn_return :: nat

type_synonym ir_package = "ir_function list"

datatype channel_ops = kSendOnly | kReceiveOnly | kSendReceive

datatype channel_kind = kStreaming | kSingleValue

record channel =
  channel_id :: int
  channel_name :: string
  supported_ops :: channel_ops
  ch_kind :: channel_kind
  channel_type :: xls_type
  initial_values :: "xvalue list"

definition Channel_CanSend :: "channel \<Rightarrow> bool" where
  "Channel_CanSend c \<longleftrightarrow> supported_ops c = kSendOnly \<or> supported_ops c = kSendReceive"

definition Channel_CanReceive :: "channel \<Rightarrow> bool" where
  "Channel_CanReceive c \<longleftrightarrow> supported_ops c = kReceiveOnly \<or> supported_ops c = kSendReceive"

definition HasChannelWithId :: "channel list \<Rightarrow> int \<Rightarrow> bool" where
  "HasChannelWithId channels i \<longleftrightarrow> find (\<lambda>c. channel_id c = i) channels \<noteq> None"

definition GetChannel :: "channel list \<Rightarrow> int \<Rightarrow> channel statusor" where
  "GetChannel channels i = (case find (\<lambda>c. channel_id c = i) channels of None \<Rightarrow> Inl NotFound | Some c \<Rightarrow> Inr c)"

definition GetNode :: "ir_function \<Rightarrow> nat \<Rightarrow> ir_node option" where
  "GetNode f n = map_of (fn_nodes f) n"

definition GetType :: "ir_function \<Rightarrow> nat \<Rightarrow> xls_type option" where
  "GetType f n = map_option node_type (GetNode f n)"

definition node_users :: "ir_function \<Rightarrow> nat \<Rightarrow> nat list" where
  "node_users f n = [m. (m, nd) \<leftarrow> fn_nodes f, n \<in> set (node_operands nd)]"

definition BitCountOrDie :: "ir_node \<Rightarrow> nat option" where
  "BitCountOrDie nd = Type_AsBitsOrDie (node_type nd)"

definition operand :: "ir_node \<Rightarrow> nat \<Rightarrow> nat option" where
  "operand nd i = at_opt (node_operands nd) i"

definition operand_type :: "ir_function \<Rightarrow> ir_node \<Rightarrow> nat \<Rightarrow> xls_type option" where
  "operand_type f nd i = operand nd i \<bind> GetType f"

definition param_type :: "ir_function \<Rightarrow> nat \<Rightarrow> xls_type option" where
  "param_type f i = at_opt (fn_params f) i \<bind> GetType f"

definition return_type :: "ir_function \<Rightarrow> xls_type option" where
  "return_type f = GetType f (fn_return f)"

section \<open>Traversal\<close>

text \<open>
  \<open>tr\<close> are the nodes on the path from the root of the traversal. The code sets the mark of a node before it turns to the
  operands and unsets it after them, so that the set is the same before and after a call that returns.
\<close>

type_synonym 's visitor = "nat \<Rightarrow> ir_node \<Rightarrow> 's \<Rightarrow> 's statusor option"

function Node_Accept :: "ir_function \<Rightarrow> 's visitor \<Rightarrow> nat \<Rightarrow> nat set \<Rightarrow> nat set \<times> 's \<Rightarrow> (nat set \<times> 's) statusor option"
and Nodes_Accept :: "ir_function \<Rightarrow> 's visitor \<Rightarrow> nat list \<Rightarrow> nat set \<Rightarrow> nat set \<times> 's \<Rightarrow> (nat set \<times> 's) statusor option" where
  "Node_Accept f h n tr st =
     (if n \<in> fst st then returnS st
      else if n \<in> tr then errorS Internal
      else (case GetNode f n of
              None \<Rightarrow> None
            | Some nd \<Rightarrow>
                bindS (Nodes_Accept f h (node_operands nd) (insert n tr) st) (\<lambda>st.
                  bindS (h n nd (snd st)) (\<lambda>s. returnS (insert n (fst st), s)))))"
| "Nodes_Accept f h [] tr st = returnS st"
| "Nodes_Accept f h (n # ns) tr st = bindS (Node_Accept f h n tr st) (\<lambda>st. Nodes_Accept f h ns tr st)"
  by pat_completeness auto
termination
proof (relation "measures [
    \<lambda>x. case x of Inl (f, h, n, tr, st) \<Rightarrow> card (fst ` set (fn_nodes f) - tr) | Inr (f, h, ns, tr, st) \<Rightarrow> card (fst ` set (fn_nodes f) - tr),
    \<lambda>x. case x of Inl (f, h, n, tr, st) \<Rightarrow> 0 | Inr (f, h, ns, tr, st) \<Rightarrow> length ns]", goal_cases)
  case (2 f h n tr st nd)
  then have "n \<in> fst ` set (fn_nodes f) - tr" by (auto simp: GetNode_def dest!: map_of_SomeD intro: image_eqI[rotated])
  then have "card (fst ` set (fn_nodes f) - insert n tr) < card (fst ` set (fn_nodes f) - tr)"
    by (intro psubset_card_mono) auto
  then show ?case by simp
qed auto

declare Node_Accept.simps [simp del]

definition trivial_visitor :: "unit visitor" where
  "trivial_visitor n nd s = returnS s"

definition FunctionBase_Accept :: "ir_function \<Rightarrow> 's visitor \<Rightarrow> 's \<Rightarrow> 's statusor option" where
  "FunctionBase_Accept f h s =
     bindS (Nodes_Accept f h [n. (n, nd) \<leftarrow> fn_nodes f, node_users f n = []] {} ({}, s)) (\<lambda>(visited, s).
       if card visited < length (fn_nodes f)
       then bindS (Nodes_Accept f trivial_visitor (map fst (fn_nodes f)) {} ({}, ())) (\<lambda>_. errorS Internal)
       else returnS s)"

section \<open>Traversals follow a topological order\<close>

text \<open>Handling a list of nodes one after the other, and orders in which every node comes after its operands.\<close>

fun run_nodes :: "ir_function \<Rightarrow> 's visitor \<Rightarrow> nat list \<Rightarrow> 's \<Rightarrow> 's statusor option" where
  "run_nodes f h [] s = returnS s"
| "run_nodes f h (n # ns) s = (case GetNode f n of None \<Rightarrow> None | Some nd \<Rightarrow> bindS (h n nd s) (run_nodes f h ns))"

fun topological :: "ir_function \<Rightarrow> nat set \<Rightarrow> nat list \<Rightarrow> bool" where
  "topological f visited [] \<longleftrightarrow> True"
| "topological f visited (n # ns) \<longleftrightarrow>
     n \<notin> visited \<and> (case GetNode f n of None \<Rightarrow> False | Some nd \<Rightarrow> set (node_operands nd) \<subseteq> visited) \<and>
     topological f (insert n visited) ns"

lemma bindS_assoc: "bindS (bindS m f) g = bindS m (\<lambda>x. bindS (f x) g)"
  by (cases m) (auto simp: bindS_def errorS_def split: sum.splits)

lemma bindS_returnS [simp]: "bindS m returnS = m"
  by (cases m) (auto simp: bindS_def returnS_def split: sum.splits)

lemma topological_append: "topological f visited (xs @ ys) \<longleftrightarrow> topological f visited xs \<and> topological f (visited \<union> set xs) ys"
  by (induction xs arbitrary: visited) auto

lemma topological_distinct: "topological f visited ns \<Longrightarrow> distinct ns \<and> set ns \<inter> visited = {}"
  by (induction ns arbitrary: visited) auto

lemma topological_nodes: "topological f visited ns \<Longrightarrow> set ns \<subseteq> fst ` set (fn_nodes f)"
proof (induction ns arbitrary: visited)
  case (Cons n ns)
  then obtain nd where "GetNode f n = Some nd" by (auto split: option.splits)
  then have "(n, nd) \<in> set (fn_nodes f)" by (simp add: GetNode_def map_of_SomeD)
  then show ?case using Cons by (auto split: option.splits intro: image_eqI[rotated])
qed simp

lemma run_nodes_append: "run_nodes f h (xs @ ys) s = bindS (run_nodes f h xs s) (run_nodes f h ys)"
  by (induction xs arbitrary: s) (auto simp: bindS_assoc split: option.splits intro!: bindS_cong)

text \<open>\<open>traces f visited visited' g ns\<close>: the traversal \<open>g\<close> started with the visited nodes \<open>visited\<close> handles \<open>ns\<close>.\<close>

definition traces ::
    "ir_function \<Rightarrow> nat set \<Rightarrow> nat set \<Rightarrow> ('s visitor \<Rightarrow> nat set \<times> 's \<Rightarrow> (nat set \<times> 's) statusor option) \<Rightarrow> nat list \<Rightarrow> bool" where
  "traces f visited visited' g ns \<longleftrightarrow> topological f visited ns \<and> visited' = visited \<union> set ns \<and>
     (\<forall>h s. g h (visited, s) = bindS (run_nodes f h ns s) (\<lambda>s. returnS (visited', s)))"

lemma Accept_traces:
  "h = trivial_visitor \<Longrightarrow> Node_Accept f h n tr st = returnS st' \<Longrightarrow>
   \<exists>ns. traces f (fst st) (fst st') (\<lambda>h. Node_Accept f (h :: 's visitor) n tr) ns \<and> n \<in> fst st' \<and> set ns \<inter> tr = {}"
  "h = trivial_visitor \<Longrightarrow> Nodes_Accept f h ms tr st = returnS st' \<Longrightarrow>
   \<exists>ns. traces f (fst st) (fst st') (\<lambda>h. Nodes_Accept f (h :: 's visitor) ms tr) ns \<and> set ms \<subseteq> fst st' \<and> set ns \<inter> tr = {}"
proof (induction f h n tr st and f h ms tr st arbitrary: st' and st' rule: Node_Accept_Nodes_Accept.induct)
  case (1 f h n tr st)
  consider "n \<in> fst st" "st' = st"
    | nd st1 where "n \<notin> fst st" "n \<notin> tr" "GetNode f n = Some nd" "Nodes_Accept f h (node_operands nd) (insert n tr) st = returnS st1"
        "fst st' = insert n (fst st1)"
    using "1.prems" by (subst (asm) Node_Accept.simps)
      (auto split: if_splits option.splits simp: bindS_eq_returnS trivial_visitor_def)
  then show ?case
  proof cases
    case 1
    then show ?thesis by (intro exI[of _ "[]"]) (simp add: traces_def Node_Accept.simps)
  next
    case (2 nd st1)
    obtain ns where ns: "traces f (fst st) (fst st1) (\<lambda>h. Nodes_Accept f (h :: 's visitor) (node_operands nd) (insert n tr)) ns"
        "set (node_operands nd) \<subseteq> fst st1" "set ns \<inter> insert n tr = {}"
      using "1.IH"[OF 2(1-3) "1.prems"(1) 2(4)] by auto
    then show ?thesis using 2
      by (intro exI[of _ "ns @ [n]"]) (auto simp: traces_def topological_append Node_Accept.simps run_nodes_append bindS_assoc)
  qed
next
  case (2 f h tr st)
  then show ?case by (intro exI[of _ "[]"]) (simp add: traces_def)
next
  case (3 f h n ns tr st)
  then obtain st1 where st1: "Node_Accept f h n tr st = returnS st1" "Nodes_Accept f h ns tr st1 = returnS st'"
    by (auto simp: bindS_eq_returnS)
  obtain xs where xs: "traces f (fst st) (fst st1) (\<lambda>h. Node_Accept f (h :: 's visitor) n tr) xs" "n \<in> fst st1" "set xs \<inter> tr = {}"
    using "3.IH"(1)[OF "3.prems"(1) st1(1)] by auto
  obtain ys where ys: "traces f (fst st1) (fst st') (\<lambda>h. Nodes_Accept f (h :: 's visitor) ns tr) ys" "set ns \<subseteq> fst st'" "set ys \<inter> tr = {}"
    using "3.IH"(2)[OF st1(1) "3.prems"(1) st1(2)] by auto
  show ?case using xs ys
    by (intro exI[of _ "xs @ ys"]) (auto simp: traces_def topological_append run_nodes_append bindS_assoc)
qed

definition node_ids :: "ir_function \<Rightarrow> nat set" where
  "node_ids f = fst ` set (fn_nodes f)"

lemma FunctionBase_Accept_order:
  assumes "FunctionBase_Accept f trivial_visitor () = returnS ()" and "distinct (map fst (fn_nodes f))"
  shows "\<exists>ns. topological f {} ns \<and> distinct ns \<and> set ns = node_ids f \<and>
    (\<forall>(h :: 's visitor) s. FunctionBase_Accept f h s = run_nodes f h ns s)"
proof -
  let ?start = "[n. (n, nd) \<leftarrow> fn_nodes f, node_users f n = []]"
  obtain visited where v: "Nodes_Accept f trivial_visitor ?start {} ({}, ()) = returnS (visited, ())"
      and all: "\<not> card visited < length (fn_nodes f)"
    using assms(1) by (auto simp: FunctionBase_Accept_def bindS_eq_returnS split: if_splits)
  obtain ns where ns: "traces f {} visited (\<lambda>h. Nodes_Accept f (h :: 's visitor) ?start {}) ns"
    using Accept_traces(2)[OF refl v] by auto
  then have topo: "topological f {} ns" and vis: "visited = set ns" by (auto simp: traces_def)
  have sub: "set ns \<subseteq> node_ids f" using topological_nodes[OF topo] by (simp add: node_ids_def)
  have "card (node_ids f) = length (fn_nodes f)" using distinct_card[OF assms(2)] by (simp add: node_ids_def)
  then have "set ns = node_ids f" using sub all vis by (intro card_seteq) (auto simp: node_ids_def)
  moreover have "FunctionBase_Accept f h s = run_nodes f h ns s" for h :: "'s visitor" and s
    using ns all by (simp add: FunctionBase_Accept_def traces_def bindS_assoc)
  ultimately show ?thesis using topo topological_distinct[OF topo] by blast
qed

text \<open>The graph has no cycle when every node can be ranked above its operands.\<close>

definition operands_ranked :: "ir_function \<Rightarrow> (nat \<Rightarrow> nat) \<Rightarrow> bool" where
  "operands_ranked f rank \<longleftrightarrow> (\<forall>(n, nd)\<in>set (fn_nodes f). \<forall>m\<in>set (node_operands nd). m \<in> node_ids f \<and> rank m < rank n)"

lemma GetNode_in: "GetNode f n = Some nd \<Longrightarrow> (n, nd) \<in> set (fn_nodes f)"
  by (simp add: GetNode_def map_of_SomeD)

lemma GetNode_ids: "n \<in> node_ids f \<longleftrightarrow> (\<exists>nd. GetNode f n = Some nd)"
  using map_of_eq_None_iff[of "fn_nodes f" n] by (auto simp: GetNode_def node_ids_def)

lemma GetNode_member: "distinct (map fst (fn_nodes f)) \<Longrightarrow> (n, nd) \<in> set (fn_nodes f) \<Longrightarrow> GetNode f n = Some nd"
  by (simp add: GetNode_def)

lemma Accept_ranked:
  assumes "operands_ranked f rank"
  shows "h = trivial_visitor \<Longrightarrow> g = f \<Longrightarrow> n \<in> node_ids f \<Longrightarrow> \<forall>t\<in>tr. rank n < rank t \<Longrightarrow> \<exists>st'. Node_Accept g h n tr st = returnS st'"
    and "h = trivial_visitor \<Longrightarrow> g = f \<Longrightarrow> set ms \<subseteq> node_ids f \<Longrightarrow> \<forall>m\<in>set ms. \<forall>t\<in>tr. rank m < rank t \<Longrightarrow>
      \<exists>st'. Nodes_Accept g h ms tr st = returnS st'"
proof (induction g h n tr st and g h ms tr st rule: Node_Accept_Nodes_Accept.induct)
  case (1 g h n tr st)
  obtain nd where nd: "GetNode f n = Some nd" using "1.prems"(3) GetNode_ids by blast
  have "n \<notin> tr" using "1.prems"(4) by auto
  show ?case
  proof (cases "n \<in> fst st")
    case False
    have ops: "set (node_operands nd) \<subseteq> node_ids f" "\<forall>m\<in>set (node_operands nd). rank m < rank n"
      using assms GetNode_in[OF nd] by (auto simp: operands_ranked_def)
    then have "\<forall>m\<in>set (node_operands nd). \<forall>t\<in>insert n tr. rank m < rank t" using "1.prems"(4) by force
    then show ?thesis using "1.IH"[OF False \<open>n \<notin> tr\<close> _ "1.prems"(1,2) ops(1)] nd False \<open>n \<notin> tr\<close> "1.prems"(1,2)
      by (auto simp: Node_Accept.simps trivial_visitor_def)
  qed (cases st; simp add: Node_Accept.simps)
next
  case (3 g h n ns tr st)
  then obtain st1 where st1: "Node_Accept g h n tr st = returnS st1" by auto
  then show ?case using "3.IH"(2)[OF st1] "3.prems" by auto
next
  case (2 g h tr st)
  show ?case by (cases st) simp
qed

lemma topological_closed: "topological f visited ns \<Longrightarrow> n \<in> set ns \<Longrightarrow> GetNode f n = Some nd \<Longrightarrow> set (node_operands nd) \<subseteq> visited \<union> set ns"
  by (induction ns arbitrary: visited) force+

lemma node_users_Nil_iff: "node_users f n = [] \<longleftrightarrow> (\<forall>(m, nd)\<in>set (fn_nodes f). n \<notin> set (node_operands nd))"
  by (auto simp: node_users_def split: if_splits)

lemma FunctionBase_Accept_ranked:
  assumes ranked: "operands_ranked f rank" and dist: "distinct (map fst (fn_nodes f))"
  shows "FunctionBase_Accept f trivial_visitor () = returnS ()"
proof -
  let ?start = "[n. (n, nd) \<leftarrow> fn_nodes f, node_users f n = []]"
  have start: "set ?start = {n \<in> node_ids f. node_users f n = []}" by (force simp: node_ids_def)
  then obtain visited where v: "Nodes_Accept f trivial_visitor ?start {} ({}, ()) = returnS (visited, ())"
    using Accept_ranked(2)[OF ranked refl refl, of ?start "{}" "({}, ())"] by auto
  obtain ns where ns: "traces f {} visited (\<lambda>h. Nodes_Accept f (h :: unit visitor) ?start {}) ns" "set ?start \<subseteq> visited"
    using Accept_traces(2)[OF refl v] by auto
  then have topo: "topological f {} ns" and vis: "visited = set ns" by (auto simp: traces_def)
  have "node_ids f \<subseteq> visited"
  proof (rule ccontr)
    assume "\<not> node_ids f \<subseteq> visited"
    moreover have "finite (node_ids f - visited)" by (simp add: node_ids_def)
    ultimately have "Max (rank ` (node_ids f - visited)) \<in> rank ` (node_ids f - visited)" by (intro Max_in) auto
    then obtain n where n: "n \<in> node_ids f" "n \<notin> visited" and max: "rank n = Max (rank ` (node_ids f - visited))" by auto
    have top: "\<forall>m\<in>node_ids f - visited. rank m \<le> rank n"
      unfolding max using \<open>finite (node_ids f - visited)\<close> by (intro ballI Max_ge) auto
    have "{n \<in> node_ids f. node_users f n = []} \<subseteq> visited" using ns(2) unfolding start[symmetric] .
    then have "node_users f n \<noteq> []" using n by auto
    then obtain m nd where m: "(m, nd) \<in> set (fn_nodes f)" "n \<in> set (node_operands nd)"
      unfolding node_users_Nil_iff by auto
    then have "rank n < rank m" "m \<in> node_ids f" using ranked by (auto simp: operands_ranked_def node_ids_def intro: image_eqI[rotated])
    then have "m \<in> visited" using top by force
    then have "n \<in> visited" using topological_closed[OF topo, of m nd] GetNode_member[OF dist m(1)] m(2) vis by auto
    then show False using n(2) by simp
  qed
  then have "length (fn_nodes f) \<le> card visited"
    using card_mono[of visited "node_ids f"] distinct_card[OF dist] vis by (simp add: node_ids_def)
  then show ?thesis using v by (simp add: FunctionBase_Accept_def)
qed

text \<open>Every node once, and every operand a node of the function.\<close>

definition well_linked :: "ir_function \<Rightarrow> bool" where
  "well_linked f \<longleftrightarrow> distinct (map fst (fn_nodes f)) \<and> (\<forall>(n, nd)\<in>set (fn_nodes f). set (node_operands nd) \<subseteq> node_ids f)"

lemma set_node_users:
  assumes "well_linked f"
  shows "m \<in> set (node_users f n) \<longleftrightarrow> (\<exists>nd. GetNode f m = Some nd \<and> n \<in> set (node_operands nd))"
  using assms by (auto simp: node_users_def well_linked_def split: if_splits dest!: GetNode_in intro: GetNode_member)

lemma topological_ranked:
  assumes dist: "distinct (map fst (fn_nodes f))" and topo: "topological f {} ns" and all: "set ns = node_ids f"
  shows "\<exists>rank. operands_ranked f rank"
proof -
  let ?rank = "\<lambda>n. length (takeWhile (\<lambda>m. m \<noteq> n) ns)"
  have "m \<in> node_ids f \<and> ?rank m < ?rank n" if nd: "(n, nd) \<in> set (fn_nodes f)" "m \<in> set (node_operands nd)" for n nd m
  proof -
    have "n \<in> set ns" using nd(1) all by (auto simp: node_ids_def intro: image_eqI[rotated])
    then obtain xs ys where split: "ns = xs @ n # ys" "n \<notin> set xs" by (meson split_list_first)
    have m: "m \<in> set xs" using topo split nd(2) GetNode_member[OF dist nd(1)] by (auto simp: topological_append)
    then obtain us vs where us: "xs = us @ m # vs" "m \<notin> set us" by (meson split_list_first)
    have "takeWhile (\<lambda>m. m \<noteq> n) ns = xs" by (subst split(1), subst takeWhile_append2) (use split(2) in auto)
    moreover have "takeWhile (\<lambda>k. k \<noteq> m) ns = us"
      by (subst split(1), subst us(1), subst append_assoc, subst takeWhile_append2) (use us(2) in auto)
    ultimately show ?thesis using us m split(1) all by auto
  qed
  then show ?thesis unfolding operands_ranked_def by (intro exI[of _ ?rank]) blast
qed

section \<open>Properties\<close>

text \<open>C39: The depth-first cycle check of a function whose node identifiers are distinct and whose operands are nodes of the
  function succeeds exactly when the graph has no cycle (the nodes can be ranked above their operands). When it succeeds
  there is one order of all the nodes, each once and after its operands, such that every visitor's traversal is the
  handling of the nodes in that order, up to the first error.\<close>

theorem traversal_order:
  assumes "distinct (map fst (fn_nodes f))" and "\<forall>(n, nd)\<in>set (fn_nodes f). set (node_operands nd) \<subseteq> node_ids f"
  shows "(FunctionBase_Accept f trivial_visitor () = returnS () \<longleftrightarrow> (\<exists>rank. operands_ranked f rank)) \<and>
    (FunctionBase_Accept f trivial_visitor () = returnS () \<longrightarrow>
      (\<exists>ns. topological f {} ns \<and> distinct ns \<and> set ns = node_ids f \<and>
        (\<forall>(h :: 's visitor) s. FunctionBase_Accept f h s = run_nodes f h ns s)))"
proof -
  have "\<exists>rank. operands_ranked f rank" if acc: "FunctionBase_Accept f trivial_visitor () = returnS ()"
    using FunctionBase_Accept_order[OF acc assms(1)] topological_ranked[OF assms(1)] by blast
  then show ?thesis
    using FunctionBase_Accept_ranked assms(1) FunctionBase_Accept_order[OF _ assms(1), where 's = 's] by blast
qed

definition two_nodes :: "nat \<Rightarrow> ir_function" where
  "two_nodes n = \<lparr>fn_nodes =
     [(0, \<lparr>node_op = UnOp Op_Not, node_operands = [1], node_type = BitsType 1, node_id = 1, node_name = []\<rparr>),
      (1, \<lparr>node_op = UnOp Op_Not, node_operands = [n], node_type = BitsType 1, node_id = 2, node_name = []\<rparr>),
      (2, \<lparr>node_op = Param, node_operands = [], node_type = BitsType 1, node_id = 3, node_name = ''x''\<rparr>)],
     fn_params = [2], fn_return = 0\<rparr>"

theorem traversal_order_witness:
  "FunctionBase_Accept (two_nodes 2) trivial_visitor () = returnS () \<and>
   FunctionBase_Accept (two_nodes 0) trivial_visitor () \<noteq> returnS ()"
proof
  have "operands_ranked (two_nodes 2) (\<lambda>n. 2 - n)" by (simp add: operands_ranked_def two_nodes_def node_ids_def)
  then show "FunctionBase_Accept (two_nodes 2) trivial_visitor () = returnS ()"
    using traversal_order[of "two_nodes 2"] by (auto simp: two_nodes_def node_ids_def)
  have "\<not> operands_ranked (two_nodes 0) rank" for rank by (auto simp: operands_ranked_def two_nodes_def)
  then show "FunctionBase_Accept (two_nodes 0) trivial_visitor () \<noteq> returnS ()"
    using traversal_order[of "two_nodes 0"] by (auto simp: two_nodes_def node_ids_def)
qed

end
