(* ===== verification/Xls_Interpreter.thy ===== *)
theory Xls_Interpreter
  imports Xls_Ir
begin

text \<open>
  \<open>xls/interpreter/ir_interpreter.{h,cc}\<close> and \<open>xls/interpreter/function_interpreter.cc\<close>: the evaluation of IR functions.

  The state of the visitor is the map from nodes to values and the recorded events. Every handler is one definition; a
  handler returns the new state, a status error (\<open>Inl\<close>) or aborts (\<open>None\<close>: a failed check, \<open>at\<close> out of range, the wrong
  alternative of a value). The handlers that call functions of the package get the interpreter of functions as their
  argument \<open>call\<close>.

  \<open>InterpretFunction\<close> recurses through invocations, which nothing bounds in the code. Its first argument bounds the depth
  of the calls; a call that exceeds it is \<open>None\<close>. The loop of \<open>HandleDynamicCountedFor\<close> ends when the index meets its
  limit, which need not happen: it is a partial function, whose value is \<open>None\<close> when the loop runs forever.
\<close>

record interp_events =
  trace_msgs :: "string list"
  assert_msgs :: "string list"

record interp =
  node_values :: "nat \<Rightarrow> xvalue option"
  interp_events :: interp_events

type_synonym interp_call = "ir_function \<Rightarrow> xvalue list \<Rightarrow> (xvalue \<times> interp_events) statusor option"

section \<open>Resolving operands and setting results\<close>

fun mapS :: "('a \<Rightarrow> 'b statusor option) \<Rightarrow> 'a list \<Rightarrow> 'b list statusor option" where
  "mapS f [] = returnS []"
| "mapS f (x # xs) = bindS (f x) (\<lambda>y. bindS (mapS f xs) (\<lambda>ys. returnS (y # ys)))"

lemma mapS_cong [fundef_cong]:
  assumes "xs = ys" and "\<And>x. x \<in> set ys \<Longrightarrow> f x = g x"
  shows "mapS f xs = mapS g ys"
proof -
  have "mapS f ys = mapS g ys" using assms(2) by (induction ys) simp_all
  then show ?thesis using assms(1) by simp
qed

definition BitsToBoundedUint64 :: "bits \<Rightarrow> uint64 \<Rightarrow> uint64 option" where
  "BitsToBoundedUint64 b upper_limit =
     (if MinBitCountUnsigned upper_limit \<le> bm_count b
      then do {
        limit \<leftarrow> UBits upper_limit (bm_count b);
        if bits_UGreaterThan b limit then Some upper_limit else status_value (Bits_ToUint64 b)
      }
      else status_value (Bits_ToUint64 b))"

definition ResolveAsValue :: "interp \<Rightarrow> nat \<Rightarrow> xvalue option" where
  "ResolveAsValue st n = node_values st n"

definition ResolveAsBits :: "interp \<Rightarrow> nat \<Rightarrow> bits option" where
  "ResolveAsBits st n = node_values st n \<bind> Value_bits"

definition ResolveAsBool :: "interp \<Rightarrow> nat \<Rightarrow> bool option" where
  "ResolveAsBool st n = do {
     b \<leftarrow> node_values st n \<bind> Value_bits;
     CHECK (bm_count b = 1);
     Some (Bits_IsAllOnes b)
   }"

definition ResolveAsBitsVector :: "interp \<Rightarrow> nat list \<Rightarrow> bits list option" where
  "ResolveAsBitsVector st nodes = those (map (ResolveAsBits st) nodes)"

definition ResolveAsBoundedUint64 :: "interp \<Rightarrow> nat \<Rightarrow> uint64 \<Rightarrow> uint64 option" where
  "ResolveAsBoundedUint64 st n upper_limit = ResolveAsBits st n \<bind> (\<lambda>b. BitsToBoundedUint64 b upper_limit)"

definition operand_bits :: "interp \<Rightarrow> ir_node \<Rightarrow> nat \<Rightarrow> bits option" where
  "operand_bits st nd i = operand nd i \<bind> ResolveAsBits st"

definition operand_value :: "interp \<Rightarrow> ir_node \<Rightarrow> nat \<Rightarrow> xvalue option" where
  "operand_value st nd i = operand nd i \<bind> ResolveAsValue st"

definition SetValueResult :: "nat \<Rightarrow> ir_node \<Rightarrow> xvalue \<Rightarrow> interp \<Rightarrow> interp statusor option" where
  "SetValueResult n nd result st =
     (if node_values st n \<noteq> None then errorS Internal
      else do {
        ok \<leftarrow> ValueConformsToType result (node_type nd);
        if \<not> ok then errorS Internal
        else returnS (st\<lparr>node_values := (node_values st)(n \<mapsto> result)\<rparr>)
      })"

definition SetBitsResult :: "nat \<Rightarrow> ir_node \<Rightarrow> bits \<Rightarrow> interp \<Rightarrow> interp statusor option" where
  "SetBitsResult n nd result st =
     (if \<not> Type_IsBits (node_type nd) then errorS Internal
      else do {
        w \<leftarrow> BitCountOrDie nd;
        if w \<noteq> bm_count result then errorS Internal else SetValueResult n nd (VBits result) st
      })"

definition SetUint64Result :: "nat \<Rightarrow> ir_node \<Rightarrow> uint64 \<Rightarrow> interp \<Rightarrow> interp statusor option" where
  "SetUint64Result n nd result st =
     (if \<not> Type_IsBits (node_type nd) then errorS Internal
      else do {
        w \<leftarrow> BitCountOrDie nd;
        if w < MinBitCountUnsigned result then errorS Internal
        else do { b \<leftarrow> UBits result w; SetValueResult n nd (VBits b) st }
      })"

definition VerifyAllBitsTypes :: "ir_function \<Rightarrow> ir_node \<Rightarrow> unit statusor option" where
  "VerifyAllBitsTypes f nd = do {
     types \<leftarrow> those (map (GetType f) (node_operands nd));
     if list_all Type_IsBits types \<and> Type_IsBits (node_type nd) then returnS () else errorS Unimplemented
   }"

definition AddInterpreterEvents :: "interp_events \<Rightarrow> interp \<Rightarrow> interp" where
  "AddInterpreterEvents events st =
     st\<lparr>interp_events := \<lparr>trace_msgs = trace_msgs (interp_events st) @ trace_msgs events,
                          assert_msgs = assert_msgs (interp_events st) @ assert_msgs events\<rparr>\<rparr>"

section \<open>Arithmetic\<close>

definition bits_unary :: "(bits \<Rightarrow> bits option) \<Rightarrow> nat \<Rightarrow> ir_node \<Rightarrow> interp \<Rightarrow> interp statusor option" where
  "bits_unary g n nd st = do { a \<leftarrow> operand_bits st nd 0; r \<leftarrow> g a; SetBitsResult n nd r st }"

definition bits_binary :: "(bits \<Rightarrow> bits \<Rightarrow> bits option) \<Rightarrow> nat \<Rightarrow> ir_node \<Rightarrow> interp \<Rightarrow> interp statusor option" where
  "bits_binary g n nd st = do { a \<leftarrow> operand_bits st nd 0; b \<leftarrow> operand_bits st nd 1; r \<leftarrow> g a b; SetBitsResult n nd r st }"

definition HandleAdd :: "'b bn_api \<Rightarrow> nat \<Rightarrow> ir_node \<Rightarrow> interp \<Rightarrow> interp statusor option" where
  "HandleAdd B = bits_binary (bits_Add B)"

definition HandleSub :: "'b bn_api \<Rightarrow> nat \<Rightarrow> ir_node \<Rightarrow> interp \<Rightarrow> interp statusor option" where
  "HandleSub B = bits_binary (bits_Sub B)"

definition HandleUDiv :: "'b bn_api \<Rightarrow> nat \<Rightarrow> ir_node \<Rightarrow> interp \<Rightarrow> interp statusor option" where
  "HandleUDiv B = bits_binary (bits_UDiv B)"

definition HandleSDiv :: "'b bn_api \<Rightarrow> nat \<Rightarrow> ir_node \<Rightarrow> interp \<Rightarrow> interp statusor option" where
  "HandleSDiv B = bits_binary (bits_SDiv B)"

definition HandleUMod :: "'b bn_api \<Rightarrow> nat \<Rightarrow> ir_node \<Rightarrow> interp \<Rightarrow> interp statusor option" where
  "HandleUMod B = bits_binary (bits_UMod B)"

definition HandleSMod :: "'b bn_api \<Rightarrow> nat \<Rightarrow> ir_node \<Rightarrow> interp \<Rightarrow> interp statusor option" where
  "HandleSMod B = bits_binary (bits_SMod B)"

definition HandleNeg :: "'b bn_api \<Rightarrow> nat \<Rightarrow> ir_node \<Rightarrow> interp \<Rightarrow> interp statusor option" where
  "HandleNeg B = bits_unary (bits_Negate B)"

definition HandleNot :: "nat \<Rightarrow> ir_node \<Rightarrow> interp \<Rightarrow> interp statusor option" where
  "HandleNot = bits_unary bits_Not"

definition HandleReverse :: "nat \<Rightarrow> ir_node \<Rightarrow> interp \<Rightarrow> interp statusor option" where
  "HandleReverse = bits_unary (\<lambda>b. Some (bits_Reverse b))"

definition HandleIdentity :: "nat \<Rightarrow> ir_node \<Rightarrow> interp \<Rightarrow> interp statusor option" where
  "HandleIdentity n nd st = do { v \<leftarrow> operand_value st nd 0; SetValueResult n nd v st }"

definition HandleAndReduce :: "nat \<Rightarrow> ir_node \<Rightarrow> interp \<Rightarrow> interp statusor option" where
  "HandleAndReduce = bits_unary bits_AndReduce"

definition HandleOrReduce :: "nat \<Rightarrow> ir_node \<Rightarrow> interp \<Rightarrow> interp statusor option" where
  "HandleOrReduce = bits_unary bits_OrReduce"

definition HandleXorReduce :: "nat \<Rightarrow> ir_node \<Rightarrow> interp \<Rightarrow> interp statusor option" where
  "HandleXorReduce = bits_unary bits_XorReduce"

definition bits_nary_handler :: "(bits list \<Rightarrow> bits option) \<Rightarrow> nat \<Rightarrow> ir_node \<Rightarrow> interp \<Rightarrow> interp statusor option" where
  "bits_nary_handler g n nd st = do {
     operands \<leftarrow> ResolveAsBitsVector st (node_operands nd);
     accum \<leftarrow> g operands;
     SetBitsResult n nd accum st
   }"

definition HandleNaryAnd :: "nat \<Rightarrow> ir_node \<Rightarrow> interp \<Rightarrow> interp statusor option" where
  "HandleNaryAnd = bits_nary_handler bits_NaryAnd"

definition HandleNaryNand :: "nat \<Rightarrow> ir_node \<Rightarrow> interp \<Rightarrow> interp statusor option" where
  "HandleNaryNand = bits_nary_handler bits_NaryNand"

definition HandleNaryNor :: "nat \<Rightarrow> ir_node \<Rightarrow> interp \<Rightarrow> interp statusor option" where
  "HandleNaryNor = bits_nary_handler bits_NaryNor"

definition HandleNaryOr :: "nat \<Rightarrow> ir_node \<Rightarrow> interp \<Rightarrow> interp statusor option" where
  "HandleNaryOr = bits_nary_handler bits_NaryOr"

definition HandleNaryXor :: "nat \<Rightarrow> ir_node \<Rightarrow> interp \<Rightarrow> interp statusor option" where
  "HandleNaryXor = bits_nary_handler bits_NaryXor"

definition HandleConcat :: "nat \<Rightarrow> ir_node \<Rightarrow> interp \<Rightarrow> interp statusor option" where
  "HandleConcat = bits_nary_handler bits_Concat"

definition fit_product :: "(bits \<Rightarrow> nat \<Rightarrow> bits option) \<Rightarrow> nat \<Rightarrow> bits \<Rightarrow> bits option" where
  "fit_product ext mul_width result =
     (if bm_count result > mul_width then Bits_Slice result 0 mul_width
      else if bm_count result < mul_width then ext result mul_width
      else Some result)"

definition HandleSMul :: "'b bn_api \<Rightarrow> nat \<Rightarrow> ir_node \<Rightarrow> interp \<Rightarrow> interp statusor option" where
  "HandleSMul B n nd st = do {
     mul_width \<leftarrow> BitCountOrDie nd;
     a \<leftarrow> operand_bits st nd 0;
     b \<leftarrow> operand_bits st nd 1;
     result \<leftarrow> bits_SMul B a b;
     r \<leftarrow> fit_product bits_SignExtend mul_width result;
     SetBitsResult n nd r st
   }"

definition HandleUMul :: "'b bn_api \<Rightarrow> nat \<Rightarrow> ir_node \<Rightarrow> interp \<Rightarrow> interp statusor option" where
  "HandleUMul B n nd st = do {
     mul_width \<leftarrow> BitCountOrDie nd;
     a \<leftarrow> operand_bits st nd 0;
     b \<leftarrow> operand_bits st nd 1;
     result \<leftarrow> bits_UMul B a b;
     r \<leftarrow> fit_product bits_ZeroExtend mul_width result;
     SetBitsResult n nd r st
   }"

definition HandleSMulp :: "'b bn_api \<Rightarrow> nat \<Rightarrow> nat \<Rightarrow> ir_node \<Rightarrow> interp \<Rightarrow> interp statusor option" where
  "HandleSMulp B mul_width n nd st = do {
     a \<leftarrow> operand_bits st nd 0;
     b \<leftarrow> operand_bits st nd 1;
     result \<leftarrow> bits_SMul B a b;
     r \<leftarrow> fit_product bits_SignExtend mul_width result;
     SetValueResult n nd (VTuple [VBits (Bits_new mul_width), VBits r]) st
   }"

definition HandleUMulp :: "'b bn_api \<Rightarrow> nat \<Rightarrow> nat \<Rightarrow> ir_node \<Rightarrow> interp \<Rightarrow> interp statusor option" where
  "HandleUMulp B mul_width n nd st = do {
     a \<leftarrow> operand_bits st nd 0;
     b \<leftarrow> operand_bits st nd 1;
     result \<leftarrow> bits_UMul B a b;
     r \<leftarrow> fit_product bits_ZeroExtend mul_width result;
     SetValueResult n nd (VTuple [VBits (Bits_new mul_width), VBits r]) st
   }"

section \<open>Comparisons\<close>

definition bits_compare :: "(bits \<Rightarrow> bits \<Rightarrow> bool option) \<Rightarrow> nat \<Rightarrow> ir_node \<Rightarrow> interp \<Rightarrow> interp statusor option" where
  "bits_compare g n nd st = do {
     a \<leftarrow> operand_bits st nd 0;
     b \<leftarrow> operand_bits st nd 1;
     r \<leftarrow> g a b;
     SetUint64Result n nd (if r then 1 else 0) st
   }"

definition HandleEq :: "ir_function \<Rightarrow> nat \<Rightarrow> ir_node \<Rightarrow> interp \<Rightarrow> interp statusor option" where
  "HandleEq f n nd st = bindS (VerifyAllBitsTypes f nd) (\<lambda>_. bits_compare (\<lambda>a b. Some (Bits_eq a b)) n nd st)"

definition HandleNe :: "ir_function \<Rightarrow> nat \<Rightarrow> ir_node \<Rightarrow> interp \<Rightarrow> interp statusor option" where
  "HandleNe f n nd st = bindS (VerifyAllBitsTypes f nd) (\<lambda>_. bits_compare (\<lambda>a b. Some (\<not> Bits_eq a b)) n nd st)"

definition HandleSGe :: "'b bn_api \<Rightarrow> nat \<Rightarrow> ir_node \<Rightarrow> interp \<Rightarrow> interp statusor option" where
  "HandleSGe B = bits_compare (bits_SGreaterThanOrEqual B)"

definition HandleSGt :: "'b bn_api \<Rightarrow> nat \<Rightarrow> ir_node \<Rightarrow> interp \<Rightarrow> interp statusor option" where
  "HandleSGt B = bits_compare (bits_SGreaterThan B)"

definition HandleSLe :: "'b bn_api \<Rightarrow> nat \<Rightarrow> ir_node \<Rightarrow> interp \<Rightarrow> interp statusor option" where
  "HandleSLe B = bits_compare (bits_SLessThanOrEqual B)"

definition HandleSLt :: "'b bn_api \<Rightarrow> nat \<Rightarrow> ir_node \<Rightarrow> interp \<Rightarrow> interp statusor option" where
  "HandleSLt B = bits_compare (bits_SLessThan B)"

definition HandleUGe :: "nat \<Rightarrow> ir_node \<Rightarrow> interp \<Rightarrow> interp statusor option" where
  "HandleUGe = bits_compare (\<lambda>a b. Some (bits_UGreaterThanOrEqual a b))"

definition HandleUGt :: "nat \<Rightarrow> ir_node \<Rightarrow> interp \<Rightarrow> interp statusor option" where
  "HandleUGt = bits_compare (\<lambda>a b. Some (bits_UGreaterThan a b))"

definition HandleULe :: "nat \<Rightarrow> ir_node \<Rightarrow> interp \<Rightarrow> interp statusor option" where
  "HandleULe = bits_compare (\<lambda>a b. Some (bits_ULessThanOrEqual a b))"

definition HandleULt :: "nat \<Rightarrow> ir_node \<Rightarrow> interp \<Rightarrow> interp statusor option" where
  "HandleULt = bits_compare (\<lambda>a b. Some (bits_ULessThan a b))"

section \<open>Shifts, extensions and slices\<close>

definition bits_shift :: "(bits \<Rightarrow> nat \<Rightarrow> bits option) \<Rightarrow> nat \<Rightarrow> ir_node \<Rightarrow> interp \<Rightarrow> interp statusor option" where
  "bits_shift g n nd st = do {
     input \<leftarrow> operand_bits st nd 0;
     amount \<leftarrow> operand nd 1;
     shift_amt \<leftarrow> ResolveAsBoundedUint64 st amount (of_nat (bm_count input));
     r \<leftarrow> g input (unat shift_amt);
     SetBitsResult n nd r st
   }"

definition HandleShll :: "nat \<Rightarrow> ir_node \<Rightarrow> interp \<Rightarrow> interp statusor option" where
  "HandleShll = bits_shift bits_ShiftLeftLogical"

definition HandleShra :: "nat \<Rightarrow> ir_node \<Rightarrow> interp \<Rightarrow> interp statusor option" where
  "HandleShra = bits_shift bits_ShiftRightArith"

definition HandleShrl :: "nat \<Rightarrow> ir_node \<Rightarrow> interp \<Rightarrow> interp statusor option" where
  "HandleShrl = bits_shift bits_ShiftRightLogical"

definition HandleSignExtend :: "nat \<Rightarrow> nat \<Rightarrow> ir_node \<Rightarrow> interp \<Rightarrow> interp statusor option" where
  "HandleSignExtend new_bit_count = bits_unary (\<lambda>b. bits_SignExtend b new_bit_count)"

definition HandleZeroExtend :: "nat \<Rightarrow> nat \<Rightarrow> ir_node \<Rightarrow> interp \<Rightarrow> interp statusor option" where
  "HandleZeroExtend new_bit_count = bits_unary (\<lambda>b. bits_ZeroExtend b new_bit_count)"

definition HandleBitSlice :: "int \<Rightarrow> int \<Rightarrow> nat \<Rightarrow> ir_node \<Rightarrow> interp \<Rightarrow> interp statusor option" where
  "HandleBitSlice start width = bits_unary (\<lambda>b. do {
     CHECK (0 \<le> start \<and> 0 \<le> width);
     Bits_Slice b (nat start) (nat width)
   })"

definition HandleBitSliceUpdate :: "nat \<Rightarrow> ir_node \<Rightarrow> interp \<Rightarrow> interp statusor option" where
  "HandleBitSliceUpdate n nd st = do {
     to_update \<leftarrow> operand_bits st nd 0;
     start \<leftarrow> operand_bits st nd 1;
     update_value \<leftarrow> operand_bits st nd 2;
     out_of_bounds \<leftarrow> bits_UGreaterThanOrEqual_int64 start (of_nat (bm_count to_update));
     if out_of_bounds then SetBitsResult n nd to_update st
     else do {
       start_index \<leftarrow> status_value (Bits_ToUint64 start);
       r \<leftarrow> bits_BitSliceUpdate to_update (unat start_index) update_value;
       SetBitsResult n nd r st
     }
   }"

definition HandleDynamicBitSlice :: "ir_function \<Rightarrow> int \<Rightarrow> nat \<Rightarrow> ir_node \<Rightarrow> interp \<Rightarrow> interp statusor option" where
  "HandleDynamicBitSlice f width n nd st = do {
     arg \<leftarrow> operand nd 0;
     arg_type \<leftarrow> GetType f arg;
     operand_width \<leftarrow> Type_AsBitsOrDie arg_type;
     start_bits \<leftarrow> operand_bits st nd 1;
     CHECK (0 \<le> width);
     out_of_bounds \<leftarrow> bits_UGreaterThanOrEqual_int64 start_bits (of_nat operand_width);
     if out_of_bounds then SetBitsResult n nd (Bits_new (nat width)) st
     else do {
       start \<leftarrow> status_value (Bits_ToUint64 start_bits);
       operand \<leftarrow> ResolveAsBits st arg;
       shifted_value \<leftarrow> bits_ShiftRightLogical operand (unat start);
       truncated_value \<leftarrow> Bits_Slice shifted_value 0 (nat width);
       SetBitsResult n nd truncated_value st
     }
   }"

section \<open>Encoders\<close>

text \<open>
  \<open>input_value\<close> is an \<open>int64_t\<close> initialised with a \<open>uint64_t\<close>: a value with the top bit set is negative, compares below the
  width, and indexes out of range.
\<close>

definition HandleDecode :: "nat \<Rightarrow> ir_node \<Rightarrow> interp \<Rightarrow> interp statusor option" where
  "HandleDecode n nd st = do {
     b \<leftarrow> operand_bits st nd 0;
     bindS (Some (Bits_ToUint64 b)) (\<lambda>input_value. do {
       width \<leftarrow> BitCountOrDie nd;
       if sint input_value < int width then do {
         CHECK (0 \<le> sint input_value);
         r \<leftarrow> Bits_PowerOfTwo (nat (sint input_value)) width;
         SetBitsResult n nd r st
       }
       else SetBitsResult n nd (Bits_new width) st
     })
   }"

fun encode_loop :: "bits \<Rightarrow> nat \<Rightarrow> nat list \<Rightarrow> bits \<Rightarrow> bits option" where
  "encode_loop input width [] result = Some result"
| "encode_loop input width (i # is) result =
     (if Bits_Get input i
      then do { b \<leftarrow> UBits (of_nat i) width; r \<leftarrow> bits_Or result b; encode_loop input width is r }
      else encode_loop input width is result)"

definition HandleEncode :: "nat \<Rightarrow> ir_node \<Rightarrow> interp \<Rightarrow> interp statusor option" where
  "HandleEncode n nd st = do {
     input \<leftarrow> operand_bits st nd 0;
     width \<leftarrow> BitCountOrDie nd;
     result \<leftarrow> encode_loop input width [0..<bm_count input] (Bits_new width);
     SetBitsResult n nd result st
   }"

definition HandleOneHot :: "lsb_or_msb \<Rightarrow> nat \<Rightarrow> ir_node \<Rightarrow> interp \<Rightarrow> interp statusor option" where
  "HandleOneHot priority n nd st = do {
     output_width \<leftarrow> BitCountOrDie nd;
     input \<leftarrow> operand_bits st nd 0;
     let input_width = bm_count input;
     let index = (\<lambda>i. if priority = kLsb then i else input_width - i - 1);
     one \<leftarrow> UBits 1 output_width;
     case find (\<lambda>i. Bits_Get input (index i)) [0..<input_width] of
       Some i \<Rightarrow> do { r \<leftarrow> bits_ShiftLeftLogical one (index i); SetBitsResult n nd r st }
     | None \<Rightarrow> do { r \<leftarrow> bits_ShiftLeftLogical one (output_width - 1); SetBitsResult n nd r st }
   }"

section \<open>Selects\<close>

lemma xls_member_size: "t \<in> set ts \<Longrightarrow> size t < Suc (size_list size ts)"
  by (induction ts) auto

fun or_inputs :: "bits \<Rightarrow> xvalue list \<Rightarrow> bits option" where
  "or_inputs result [] = Some result"
| "or_inputs result (v # vs) = do { b \<leftarrow> Value_bits v; r \<leftarrow> bits_Or result b; or_inputs r vs }"

definition input_elements :: "xvalue list \<Rightarrow> nat \<Rightarrow> xvalue list option" where
  "input_elements inputs i = those (map (\<lambda>v. Value_element v i) inputs)"

function DeepOr :: "xls_type \<Rightarrow> xvalue list \<Rightarrow> xvalue statusor option" where
  "DeepOr (BitsType n) inputs = map_option (\<lambda>r. Inr (VBits r)) (or_inputs (Bits_new n) inputs)"
| "DeepOr (ArrayType n t) inputs =
     bindS (mapS (\<lambda>i. input_elements inputs i \<bind> DeepOr t) [0..<n]) Value_Array"
| "DeepOr (TupleType ts) inputs =
     bindS (mapS (\<lambda>(i, t). input_elements inputs i \<bind> DeepOr t) (zip [0..<length ts] ts)) (\<lambda>es. returnS (VTuple es))"
| "DeepOr TokenType inputs = errorS Internal"
  by pat_completeness auto
termination
  by (relation "measure (\<lambda>(t, inputs). size t)") (auto dest: set_zip_rightD intro!: xls_member_size)

definition HandleOneHotSel :: "nat \<Rightarrow> ir_node \<Rightarrow> interp \<Rightarrow> interp statusor option" where
  "HandleOneHotSel n nd st = do {
     selector \<leftarrow> operand_bits st nd 0;
     activated_inputs \<leftarrow> those (map (\<lambda>i. operand_value st nd (i + 1)) (filter (Bits_Get selector) [0..<bm_count selector]));
     bindS (DeepOr (node_type nd) activated_inputs) (\<lambda>result. SetValueResult n nd result st)
   }"

definition HandlePrioritySel :: "nat \<Rightarrow> ir_node \<Rightarrow> interp \<Rightarrow> interp statusor option" where
  "HandlePrioritySel n nd st = do {
     selector \<leftarrow> operand_bits st nd 0;
     v \<leftarrow> (case find (Bits_Get selector) [0..<bm_count selector] of
            Some i \<Rightarrow> operand_value st nd (i + 1)
          | None \<Rightarrow> ZeroOfType (node_type nd));
     SetValueResult n nd v st
   }"

definition HandleSel :: "nat \<Rightarrow> bool \<Rightarrow> nat \<Rightarrow> ir_node \<Rightarrow> interp \<Rightarrow> interp statusor option" where
  "HandleSel cases_size has_default n nd st = do {
     selector \<leftarrow> operand_bits st nd 0;
     last_case \<leftarrow> UBits (of_nat cases_size - 1) (bm_count selector);
     if bits_UGreaterThan selector last_case then
       (if \<not> has_default then errorS Internal
        else do { v \<leftarrow> operand_value st nd (length (node_operands nd) - 1); SetValueResult n nd v st })
     else
       bindS (Some (Bits_ToUint64 selector)) (\<lambda>i. do {
         CHECK (unat i < cases_size);
         v \<leftarrow> operand_value st nd (unat i + 1);
         SetValueResult n nd v st
       })
   }"

definition HandleGate :: "nat \<Rightarrow> ir_node \<Rightarrow> interp \<Rightarrow> interp statusor option" where
  "HandleGate n nd st = do {
     condition \<leftarrow> operand_bits st nd 0;
     v \<leftarrow> (if Bits_IsOne condition then operand_value st nd 1 else ZeroOfType (node_type nd));
     SetValueResult n nd v st
   }"

section \<open>Tuples and arrays\<close>

definition HandleTuple :: "nat \<Rightarrow> ir_node \<Rightarrow> interp \<Rightarrow> interp statusor option" where
  "HandleTuple n nd st = do {
     tuple_values \<leftarrow> those (map (ResolveAsValue st) (node_operands nd));
     SetValueResult n nd (VTuple tuple_values) st
   }"

definition HandleTupleIndex :: "int \<Rightarrow> nat \<Rightarrow> ir_node \<Rightarrow> interp \<Rightarrow> interp statusor option" where
  "HandleTupleIndex tuple_index n nd st = do {
     v \<leftarrow> operand_value st nd 0;
     elements \<leftarrow> Value_elements v;
     CHECK (0 \<le> tuple_index);
     e \<leftarrow> at_opt elements (nat tuple_index);
     SetValueResult n nd e st
   }"

definition HandleArray :: "nat \<Rightarrow> ir_node \<Rightarrow> interp \<Rightarrow> interp statusor option" where
  "HandleArray n nd st = do {
     operand_values \<leftarrow> those (map (ResolveAsValue st) (node_operands nd));
     bindS (Value_Array operand_values) (\<lambda>result. SetValueResult n nd result st)
   }"

text \<open>\<open>array->size() - 1\<close> is passed as a \<open>uint64_t\<close>: an empty array gives the largest limit.\<close>

fun ArrayIndex_loop :: "interp \<Rightarrow> nat list \<Rightarrow> xvalue \<Rightarrow> xvalue option" where
  "ArrayIndex_loop st [] array = Some array"
| "ArrayIndex_loop st (index_operand # indices) array = do {
     size \<leftarrow> Value_size array;
     index \<leftarrow> ResolveAsBits st index_operand;
     idx \<leftarrow> BitsToBoundedUint64 index (of_nat size - 1);
     e \<leftarrow> Value_element array (unat idx);
     ArrayIndex_loop st indices e
   }"

definition HandleArrayIndex :: "nat \<Rightarrow> ir_node \<Rightarrow> interp \<Rightarrow> interp statusor option" where
  "HandleArrayIndex n nd st = do {
     array \<leftarrow> operand_value st nd 0;
     e \<leftarrow> ArrayIndex_loop st (tl (node_operands nd)) array;
     SetValueResult n nd e st
   }"

text \<open>The loop of \<open>HandleArraySlice\<close> compares its index as a \<open>uint64_t\<close> with the wrapping sum \<open>start + width\<close>.\<close>

definition HandleArraySlice :: "int \<Rightarrow> nat \<Rightarrow> ir_node \<Rightarrow> interp \<Rightarrow> interp statusor option" where
  "HandleArraySlice width n nd st = do {
     array \<leftarrow> operand_value st nd 0;
     size \<leftarrow> Value_size array;
     start_operand \<leftarrow> operand nd 1;
     start \<leftarrow> ResolveAsBoundedUint64 st start_operand (of_nat size - 1);
     CHECK (0 \<le> width);
     sliced \<leftarrow> those (map (\<lambda>i. if i \<ge> size then Value_element array (size - 1) else Value_element array i)
                  [unat start..<unat (start + of_int width)]);
     bindS (Value_Array sliced) (\<lambda>result. SetValueResult n nd result st)
   }"

fun SetArrayElement :: "bits list \<Rightarrow> xvalue \<Rightarrow> xvalue list \<Rightarrow> xvalue list statusor option" where
  "SetArrayElement [] v elements = errorS Internal"
| "SetArrayElement (i # indices) v elements = do {
     index \<leftarrow> BitsToBoundedUint64 i (of_nat (length elements));
     if unat index \<ge> length elements then returnS elements
     else if indices = [] then returnS (elements[unat index := v])
     else do {
       subelements \<leftarrow> Value_elements (elements ! unat index);
       bindS (SetArrayElement indices v subelements) (\<lambda>subelements.
         bindS (Value_Array subelements) (\<lambda>array_element. returnS (elements[unat index := array_element])))
     }
   }"

definition HandleArrayUpdate :: "nat \<Rightarrow> ir_node \<Rightarrow> interp \<Rightarrow> interp statusor option" where
  "HandleArrayUpdate n nd st = do {
     input_array \<leftarrow> operand_value st nd 0;
     update_value \<leftarrow> operand_value st nd 1;
     let indices = drop 2 (node_operands nd);
     if indices = [] then SetValueResult n nd update_value st
     else
       bindS (Some (Value_GetElements input_array)) (\<lambda>array_elements. do {
         index_vector \<leftarrow> ResolveAsBitsVector st indices;
         bindS (SetArrayElement index_vector update_value array_elements) (\<lambda>array_elements.
           bindS (Value_Array array_elements) (\<lambda>result. SetValueResult n nd result st))
       })
   }"

definition HandleArrayConcat :: "nat \<Rightarrow> ir_node \<Rightarrow> interp \<Rightarrow> interp statusor option" where
  "HandleArrayConcat n nd st = do {
     elements \<leftarrow> those (map (\<lambda>a. ResolveAsValue st a \<bind> Value_elements) (node_operands nd));
     bindS (Value_Array (concat elements)) (\<lambda>result. SetValueResult n nd result st)
   }"

definition HandleLiteral :: "xvalue \<Rightarrow> nat \<Rightarrow> ir_node \<Rightarrow> interp \<Rightarrow> interp statusor option" where
  "HandleLiteral v n nd st = SetValueResult n nd v st"

section \<open>Events\<close>

definition HandleAfterAll :: "nat \<Rightarrow> ir_node \<Rightarrow> interp \<Rightarrow> interp statusor option" where
  "HandleAfterAll n nd st = SetValueResult n nd VToken st"

definition HandleAssert :: "string \<Rightarrow> nat \<Rightarrow> ir_node \<Rightarrow> interp \<Rightarrow> interp statusor option" where
  "HandleAssert message n nd st = do {
     condition \<leftarrow> operand nd 1 \<bind> ResolveAsBool st;
     let events = interp_events st;
     let st' = (if condition then st else st\<lparr>interp_events := events\<lparr>assert_msgs := assert_msgs events @ [message]\<rparr>\<rparr>);
     SetValueResult n nd VToken st'
   }"

fun Trace_loop :: "interp \<Rightarrow> format_step list \<Rightarrow> nat list \<Rightarrow> string \<Rightarrow> string statusor option" where
  "Trace_loop st [] args trace_output = (if args \<noteq> [] then errorS Internal else returnS trace_output)"
| "Trace_loop st (Fragment s # steps) args trace_output = Trace_loop st steps args (trace_output @ s)"
| "Trace_loop st (Argument arg_format # steps) args trace_output =
     (case args of
        [] \<Rightarrow> errorS Internal
      | arg # args \<Rightarrow> do {
          v \<leftarrow> ResolveAsValue st arg;
          s \<leftarrow> Value_ToHumanString arg_format v;
          Trace_loop st steps args (trace_output @ s)
        })"

definition HandleTrace :: "format_step list \<Rightarrow> nat \<Rightarrow> ir_node \<Rightarrow> interp \<Rightarrow> interp statusor option" where
  "HandleTrace format n nd st = do {
     condition \<leftarrow> operand nd 1 \<bind> ResolveAsBool st;
     if condition then
       bindS (Trace_loop st format (drop 2 (node_operands nd)) []) (\<lambda>trace_output.
         let events = interp_events st in
         SetValueResult n nd VToken (st\<lparr>interp_events := events\<lparr>trace_msgs := trace_msgs events @ [trace_output]\<rparr>\<rparr>))
     else SetValueResult n nd VToken st
   }"

definition HandleCover :: "nat \<Rightarrow> ir_node \<Rightarrow> interp \<Rightarrow> interp statusor option" where
  "HandleCover n nd st = returnS st"

section \<open>Calls and loops\<close>

definition HandleInvoke :: "interp_call \<Rightarrow> ir_function \<Rightarrow> nat \<Rightarrow> ir_node \<Rightarrow> interp \<Rightarrow> interp statusor option" where
  "HandleInvoke call to_apply n nd st = do {
     args \<leftarrow> those (map (operand_value st nd) [0..<length (fn_params to_apply)]);
     bindS (call to_apply args) (\<lambda>(v, events). SetValueResult n nd v (AddInterpreterEvents events st))
   }"

fun Map_loop :: "interp_call \<Rightarrow> ir_function \<Rightarrow> xvalue list \<Rightarrow> xvalue list \<Rightarrow> interp \<Rightarrow> (xvalue list \<times> interp) statusor option" where
  "Map_loop call to_apply [] results st = returnS (results, st)"
| "Map_loop call to_apply (operand_element # es) results st =
     bindS (call to_apply [operand_element]) (\<lambda>(v, events).
       Map_loop call to_apply es (results @ [v]) (AddInterpreterEvents events st))"

definition HandleMap :: "interp_call \<Rightarrow> ir_function \<Rightarrow> nat \<Rightarrow> ir_node \<Rightarrow> interp \<Rightarrow> interp statusor option" where
  "HandleMap call to_apply n nd st = do {
     array \<leftarrow> operand_value st nd 0;
     elements \<leftarrow> Value_elements array;
     bindS (Map_loop call to_apply elements [] st) (\<lambda>(results, st).
       bindS (Value_Array results) (\<lambda>result_array. SetValueResult n nd result_array st))
   }"

text \<open>The induction variable is an \<open>int64_t\<close>, passed to \<open>UBits\<close> as a \<open>uint64_t\<close>.\<close>

fun CountedFor_loop ::
    "interp_call \<Rightarrow> ir_function \<Rightarrow> xvalue list \<Rightarrow> nat \<Rightarrow> int \<Rightarrow> nat \<Rightarrow> uint64 \<Rightarrow> xvalue \<Rightarrow> interp \<Rightarrow> (xvalue \<times> interp) statusor option" where
  "CountedFor_loop call body invariant_args width stride 0 iv loop_state st = returnS (loop_state, st)"
| "CountedFor_loop call body invariant_args width stride (Suc trips) iv loop_state st = do {
     index \<leftarrow> UBits iv width;
     bindS (call body (VBits index # loop_state # invariant_args)) (\<lambda>(v, events).
       CountedFor_loop call body invariant_args width stride trips (iv + of_int stride) v (AddInterpreterEvents events st))
   }"

definition HandleCountedFor ::
    "interp_call \<Rightarrow> int \<Rightarrow> int \<Rightarrow> ir_function \<Rightarrow> nat \<Rightarrow> ir_node \<Rightarrow> interp \<Rightarrow> interp statusor option" where
  "HandleCountedFor call trip_count stride body n nd st = do {
     invariant_args \<leftarrow> those (map (ResolveAsValue st) (tl (node_operands nd)));
     loop_state \<leftarrow> operand_value st nd 0;
     arg0_type \<leftarrow> param_type body 0;
     width \<leftarrow> Type_AsBitsOrDie arg0_type;
     bindS (CountedFor_loop call body invariant_args width stride (nat trip_count) 0 loop_state st)
       (\<lambda>(loop_state, st). SetValueResult n nd loop_state st)
   }"

partial_function (option) DynamicCountedFor_loop ::
    "'b bn_api \<Rightarrow> interp_call \<Rightarrow> ir_function \<Rightarrow> xvalue list \<Rightarrow> bits \<Rightarrow> bits \<Rightarrow> bits \<Rightarrow> xvalue \<Rightarrow> interp \<Rightarrow> (xvalue \<times> interp) statusor option" where
  "DynamicCountedFor_loop B call body invariant_args index_limit extended_stride index loop_state st =
     (if bits_SEqual B index index_limit then Some (Inr (loop_state, st))
      else do {
        r \<leftarrow> call body (VBits index # loop_state # invariant_args);
        (case r of
           Inl e \<Rightarrow> Some (Inl e)
         | Inr loop_result \<Rightarrow> do {
             index' \<leftarrow> bits_Add B index extended_stride;
             DynamicCountedFor_loop B call body invariant_args index_limit extended_stride index' (fst loop_result)
               (AddInterpreterEvents (snd loop_result) st)
           })
      })"

definition HandleDynamicCountedFor ::
    "'b bn_api \<Rightarrow> interp_call \<Rightarrow> ir_function \<Rightarrow> nat \<Rightarrow> ir_node \<Rightarrow> interp \<Rightarrow> interp statusor option" where
  "HandleDynamicCountedFor B call body n nd st = do {
     invariant_args \<leftarrow> those (map (ResolveAsValue st) (drop 3 (node_operands nd)));
     loop_state \<leftarrow> operand_value st nd 0;
     index_type \<leftarrow> param_type body 0;
     width \<leftarrow> Type_AsBitsOrDie index_type;
     trip_count_unsigned \<leftarrow> operand_bits st nd 1;
     trip_count \<leftarrow> bits_ZeroExtend trip_count_unsigned (bm_count trip_count_unsigned + 1);
     stride \<leftarrow> operand_bits st nd 2;
     index_limit \<leftarrow> bits_SMul B trip_count stride;
     let index = Bits_new width;
     if \<not> Bits_IsZero index then errorS Internal
     else do {
       extended_stride \<leftarrow> bits_SignExtend stride (bm_count index);
       bindS (DynamicCountedFor_loop B call body invariant_args index_limit extended_stride index loop_state st)
         (\<lambda>(loop_state, st). SetValueResult n nd loop_state st)
     }
   }"

section \<open>Dispatch\<close>

definition HandleBinOp :: "'b bn_api \<Rightarrow> bin_op \<Rightarrow> nat \<Rightarrow> ir_node \<Rightarrow> interp \<Rightarrow> interp statusor option" where
  "HandleBinOp B op = (case op of
     Op_Add \<Rightarrow> HandleAdd B | Op_Sub \<Rightarrow> HandleSub B | Op_UDiv \<Rightarrow> HandleUDiv B | Op_SDiv \<Rightarrow> HandleSDiv B
   | Op_UMod \<Rightarrow> HandleUMod B | Op_SMod \<Rightarrow> HandleSMod B
   | Op_Shll \<Rightarrow> HandleShll | Op_Shra \<Rightarrow> HandleShra | Op_Shrl \<Rightarrow> HandleShrl)"

definition HandleNaryOp :: "nary_op \<Rightarrow> nat \<Rightarrow> ir_node \<Rightarrow> interp \<Rightarrow> interp statusor option" where
  "HandleNaryOp op = (case op of
     Op_And \<Rightarrow> HandleNaryAnd | Op_Nand \<Rightarrow> HandleNaryNand | Op_Nor \<Rightarrow> HandleNaryNor | Op_Or \<Rightarrow> HandleNaryOr | Op_Xor \<Rightarrow> HandleNaryXor)"

definition HandleReduction :: "reduction_op \<Rightarrow> nat \<Rightarrow> ir_node \<Rightarrow> interp \<Rightarrow> interp statusor option" where
  "HandleReduction op = (case op of
     Op_AndReduce \<Rightarrow> HandleAndReduce | Op_OrReduce \<Rightarrow> HandleOrReduce | Op_XorReduce \<Rightarrow> HandleXorReduce)"

definition HandleCompareOp :: "'b bn_api \<Rightarrow> ir_function \<Rightarrow> compare_op \<Rightarrow> nat \<Rightarrow> ir_node \<Rightarrow> interp \<Rightarrow> interp statusor option" where
  "HandleCompareOp B f op = (case op of
     Op_Eq \<Rightarrow> HandleEq f | Op_Ne \<Rightarrow> HandleNe f
   | Op_SGe \<Rightarrow> HandleSGe B | Op_SGt \<Rightarrow> HandleSGt B | Op_SLe \<Rightarrow> HandleSLe B | Op_SLt \<Rightarrow> HandleSLt B
   | Op_UGe \<Rightarrow> HandleUGe | Op_UGt \<Rightarrow> HandleUGt | Op_ULe \<Rightarrow> HandleULe | Op_ULt \<Rightarrow> HandleULt)"

definition HandleUnOp :: "'b bn_api \<Rightarrow> un_op \<Rightarrow> nat \<Rightarrow> ir_node \<Rightarrow> interp \<Rightarrow> interp statusor option" where
  "HandleUnOp B op = (case op of
     Op_Identity \<Rightarrow> HandleIdentity | Op_Neg \<Rightarrow> HandleNeg B | Op_Not \<Rightarrow> HandleNot | Op_Reverse \<Rightarrow> HandleReverse)"

text \<open>
  \<open>VisitSingleNode\<close> (in \<open>node.cc\<close>) calls the handler of the operation. \<open>param\<close> is the
  handler of parameters, which the classes derived from \<open>IrInterpreter\<close> override. The operations of procs and blocks are
  not implemented by this interpreter.
\<close>

definition IrInterpreter_Visit ::
    "'b bn_api \<Rightarrow> interp_call \<Rightarrow> ir_package \<Rightarrow> (nat \<Rightarrow> ir_node \<Rightarrow> interp \<Rightarrow> interp statusor option) \<Rightarrow> ir_function \<Rightarrow> nat \<Rightarrow> ir_node \<Rightarrow> interp \<Rightarrow> interp statusor option" where
  "IrInterpreter_Visit B call pkg param f n nd st = (case node_op nd of
     BinOp op \<Rightarrow> HandleBinOp B op n nd st
   | ArithOp op w \<Rightarrow> (case op of Op_SMul \<Rightarrow> HandleSMul B n nd st | Op_UMul \<Rightarrow> HandleUMul B n nd st)
   | PartialProductOp op w \<Rightarrow> (case op of Op_SMul \<Rightarrow> HandleSMulp B w n nd st | Op_UMul \<Rightarrow> HandleUMulp B w n nd st)
   | NaryOp op \<Rightarrow> HandleNaryOp op n nd st
   | BitwiseReductionOp op \<Rightarrow> HandleReduction op n nd st
   | CompareOp op \<Rightarrow> HandleCompareOp B f op n nd st
   | UnOp op \<Rightarrow> HandleUnOp B op n nd st
   | ExtendOp op w \<Rightarrow> (case op of Op_SignExt \<Rightarrow> HandleSignExtend w n nd st | Op_ZeroExt \<Rightarrow> HandleZeroExtend w n nd st)
   | BitSlice start width \<Rightarrow> HandleBitSlice start width n nd st
   | DynamicBitSlice width \<Rightarrow> HandleDynamicBitSlice f width n nd st
   | BitSliceUpdate \<Rightarrow> HandleBitSliceUpdate n nd st
   | Concat \<Rightarrow> HandleConcat n nd st
   | Decode w \<Rightarrow> HandleDecode n nd st
   | Encode \<Rightarrow> HandleEncode n nd st
   | OneHot priority \<Rightarrow> HandleOneHot priority n nd st
   | OneHotSelect \<Rightarrow> HandleOneHotSel n nd st
   | PrioritySelect \<Rightarrow> HandlePrioritySel n nd st
   | Select cases has_default \<Rightarrow> HandleSel cases has_default n nd st
   | Gate \<Rightarrow> HandleGate n nd st
   | Tuple \<Rightarrow> HandleTuple n nd st
   | TupleIndex i \<Rightarrow> HandleTupleIndex i n nd st
   | Array t \<Rightarrow> HandleArray n nd st
   | ArrayIndex \<Rightarrow> HandleArrayIndex n nd st
   | ArraySlice width \<Rightarrow> HandleArraySlice width n nd st
   | ArrayUpdate \<Rightarrow> HandleArrayUpdate n nd st
   | ArrayConcat \<Rightarrow> HandleArrayConcat n nd st
   | Literal v \<Rightarrow> HandleLiteral v n nd st
   | Param \<Rightarrow> param n nd st
   | Invoke g \<Rightarrow> at_opt pkg g \<bind> (\<lambda>to_apply. HandleInvoke call to_apply n nd st)
   | Map g \<Rightarrow> at_opt pkg g \<bind> (\<lambda>to_apply. HandleMap call to_apply n nd st)
   | CountedFor trip_count stride g \<Rightarrow> at_opt pkg g \<bind> (\<lambda>body. HandleCountedFor call trip_count stride body n nd st)
   | DynamicCountedFor g \<Rightarrow> at_opt pkg g \<bind> (\<lambda>body. HandleDynamicCountedFor B call body n nd st)
   | AfterAll \<Rightarrow> HandleAfterAll n nd st
   | Assert message label \<Rightarrow> HandleAssert message n nd st
   | Trace format \<Rightarrow> HandleTrace format n nd st
   | Cover label \<Rightarrow> HandleCover n nd st
   | Receive c b \<Rightarrow> errorS Unimplemented
   | Send c \<Rightarrow> errorS Unimplemented
   | BlockOp op \<Rightarrow> errorS Unimplemented)"

definition init_interp :: interp where
  "init_interp = \<lparr>node_values = \<lambda>_. None, interp_events = \<lparr>trace_msgs = [], assert_msgs = []\<rparr>\<rparr>"

definition IrInterpreter_HandleParam :: "nat \<Rightarrow> ir_node \<Rightarrow> interp \<Rightarrow> interp statusor option" where
  "IrInterpreter_HandleParam n nd st = errorS Unimplemented"

section \<open>Functions\<close>

definition index_of :: "'a \<Rightarrow> 'a list \<Rightarrow> nat" where
  "index_of x xs = length (takeWhile (\<lambda>y. y \<noteq> x) xs)"

definition GetParamIndex :: "ir_function \<Rightarrow> nat \<Rightarrow> nat statusor" where
  "GetParamIndex f param =
     (if index_of param (fn_params f) = length (fn_params f) then Inl InvalidArgument else Inr (index_of param (fn_params f)))"

definition FunctionInterpreter_HandleParam ::
    "ir_function \<Rightarrow> xvalue list \<Rightarrow> nat \<Rightarrow> ir_node \<Rightarrow> interp \<Rightarrow> interp statusor option" where
  "FunctionInterpreter_HandleParam f args n nd st =
     bindS (Some (GetParamIndex f n)) (\<lambda>index.
       if index \<ge> length args then errorS Internal else SetValueResult n nd (args ! index) st)"

fun check_args :: "ir_function \<Rightarrow> nat \<Rightarrow> xvalue list \<Rightarrow> unit statusor option" where
  "check_args f argno [] = returnS ()"
| "check_args f argno (v # vs) = do {
     param \<leftarrow> param_type f argno;
     value_type \<leftarrow> GetTypeForValue v;
     if value_type \<noteq> param then errorS InvalidArgument else check_args f (argno + 1) vs
   }"

definition InterpretFunction_step ::
    "'b bn_api \<Rightarrow> interp_call \<Rightarrow> ir_package \<Rightarrow> ir_function \<Rightarrow> xvalue list \<Rightarrow> (xvalue \<times> interp_events) statusor option" where
  "InterpretFunction_step B call pkg f args =
     (if length args \<noteq> length (fn_params f) then errorS InvalidArgument
      else
        bindS (check_args f 0 args) (\<lambda>_.
          bindS (FunctionBase_Accept f (IrInterpreter_Visit B call pkg (FunctionInterpreter_HandleParam f args) f) init_interp)
            (\<lambda>visitor. do {
               result \<leftarrow> ResolveAsValue visitor (fn_return f);
               returnS (result, interp_events visitor)
             })))"

primrec InterpretFunction ::
    "'b bn_api \<Rightarrow> nat \<Rightarrow> ir_package \<Rightarrow> ir_function \<Rightarrow> xvalue list \<Rightarrow> (xvalue \<times> interp_events) statusor option" where
  "InterpretFunction B 0 pkg f args = None"
| "InterpretFunction B (Suc depth) pkg f args = InterpretFunction_step B (InterpretFunction B depth pkg) pkg f args"

fun set_operands :: "ir_function \<Rightarrow> nat list \<Rightarrow> xvalue list \<Rightarrow> interp \<Rightarrow> interp statusor option" where
  "set_operands f (n # ns) (v # vs) st =
     (if node_values st n \<noteq> None then set_operands f ns vs st
      else do {
        nd \<leftarrow> GetNode f n;
        bindS (SetValueResult n nd v st) (set_operands f ns vs)
      })"
| "set_operands f _ _ st = returnS st"

definition InterpretNode ::
    "'b bn_api \<Rightarrow> nat \<Rightarrow> ir_package \<Rightarrow> ir_function \<Rightarrow> nat \<Rightarrow> ir_node \<Rightarrow> xvalue list \<Rightarrow> xvalue statusor option" where
  "InterpretNode B depth pkg f n nd operand_values =
     (if OpIsSideEffecting (node_op nd) \<and> node_op nd \<noteq> Gate then errorS InvalidArgument
      else if length (node_operands nd) \<noteq> length operand_values then errorS Internal
      else
        bindS (set_operands f (node_operands nd) operand_values init_interp) (\<lambda>visitor.
          bindS (IrInterpreter_Visit B (InterpretFunction B depth pkg) pkg IrInterpreter_HandleParam f n nd visitor)
            (\<lambda>visitor. do { v \<leftarrow> ResolveAsValue visitor n; returnS v })))"

definition InterpreterEventsToStatus :: "interp_events \<Rightarrow> unit statusor" where
  "InterpreterEventsToStatus events = (if assert_msgs events = [] then Inr () else Inl Aborted)"

definition InterpreterResultToStatusOrValue :: "xvalue \<times> interp_events \<Rightarrow> xvalue statusor" where
  "InterpreterResultToStatusOrValue result =
     (case InterpreterEventsToStatus (snd result) of Inl e \<Rightarrow> Inl e | Inr _ \<Rightarrow> Inr (fst result))"

definition DropInterpreterEvents :: "(xvalue \<times> interp_events) statusor \<Rightarrow> xvalue statusor" where
  "DropInterpreterEvents result = (case result of Inl e \<Rightarrow> Inl e | Inr r \<Rightarrow> InterpreterResultToStatusOrValue r)"

end
