(* ===== verification/Xls_Verifier.thy ===== *)
theory Xls_Verifier
  imports Xls_Ir
begin

text \<open>
  \<open>xls/ir/verifier.cc\<close>: the checks of a node against its operation (the class \<open>NodeChecker\<close>), \<open>VerifyNode\<close>,
  \<open>VerifyFunctionBase\<close>, \<open>VerifyFunction\<close>, \<open>VerifyTokenConnectivity\<close> and \<open>VerifyProc\<close>.

  A check is a status: \<open>returnS ()\<close>, an error without its message, or \<open>None\<close> where an accessor would abort. Types are
  interned by the package, so that the comparison of \<open>Type*\<close> pointers is equality. The ownership of types and the
  uplinks to the package, which the model does not have, are not checked.
\<close>

section \<open>Sequences of checks\<close>

fun seq_ok :: "unit statusor option list \<Rightarrow> unit statusor option" where
  "seq_ok [] = returnS ()"
| "seq_ok (c # cs) = bindS c (\<lambda>_. seq_ok cs)"

lemma seq_ok_iff [simp]: "seq_ok cs = returnS u \<longleftrightarrow> (\<forall>c\<in>set cs. c = returnS ())"
  by (induction cs) (auto simp: bindS_eq_returnS)

declare seq_ok.simps [simp del]

definition error_if :: "bool \<Rightarrow> status \<Rightarrow> unit statusor option" where
  "error_if b e = (if b then errorS e else returnS ())"

lemma error_if_iff [simp]: "error_if b e = returnS u \<longleftrightarrow> \<not> b"
  by (simp add: error_if_def)

section \<open>Expectations\<close>

definition ExpectOperandCount :: "ir_node \<Rightarrow> nat \<Rightarrow> unit statusor option" where
  "ExpectOperandCount nd expected = error_if (length (node_operands nd) \<noteq> expected) Internal"

definition ExpectOperandCountRange :: "ir_node \<Rightarrow> nat \<Rightarrow> nat \<Rightarrow> unit statusor option" where
  "ExpectOperandCountRange nd lower_limit upper_limit =
     error_if (length (node_operands nd) < lower_limit \<or> length (node_operands nd) > upper_limit) Internal"

definition ExpectOperandCountGt :: "ir_node \<Rightarrow> nat \<Rightarrow> unit statusor option" where
  "ExpectOperandCountGt nd expected = error_if (length (node_operands nd) \<le> expected) Internal"

definition ExpectSameType :: "xls_type \<Rightarrow> xls_type \<Rightarrow> unit statusor option" where
  "ExpectSameType type_a type_b = error_if (type_a \<noteq> type_b) Internal"

definition ExpectOperandHasType :: "ir_function \<Rightarrow> ir_node \<Rightarrow> nat \<Rightarrow> xls_type \<Rightarrow> unit statusor option" where
  "ExpectOperandHasType f nd operand_no type = operand_type f nd operand_no \<bind> (\<lambda>t. error_if (t \<noteq> type) Internal)"

definition ExpectDoesNotContainToken :: "ir_node \<Rightarrow> unit statusor option" where
  "ExpectDoesNotContainToken nd = error_if (TypeHasToken (node_type nd)) Internal"

definition ExpectHasTokenType :: "ir_node \<Rightarrow> unit statusor option" where
  "ExpectHasTokenType nd = error_if (\<not> Type_IsToken (node_type nd)) Internal"

text \<open>The checks of the type of a node take the type; the absent element type and size are \<open>None\<close> and \<open>-1\<close>.\<close>

definition ExpectHasArrayType :: "xls_type \<Rightarrow> xls_type option \<Rightarrow> int \<Rightarrow> unit statusor option" where
  "ExpectHasArrayType t expected_element_type expected_size =
     (if \<not> Type_IsArray t then errorS Internal
      else do {
        a \<leftarrow> Type_AsArrayOrDie t;
        if expected_element_type \<noteq> None \<and> expected_element_type \<noteq> Some (snd a) then errorS Internal
        else if expected_size \<ge> 0 \<and> int (fst a) \<noteq> expected_size then errorS Internal
        else returnS ()
      })"

definition ExpectOperandHasArrayType :: "ir_function \<Rightarrow> ir_node \<Rightarrow> nat \<Rightarrow> xls_type option \<Rightarrow> int \<Rightarrow> unit statusor option" where
  "ExpectOperandHasArrayType f nd operand_no expected_element_type expected_size = do {
     t \<leftarrow> operand_type f nd operand_no;
     if \<not> Type_IsArray t then errorS Internal
     else do {
       a \<leftarrow> Type_AsArrayOrDie t;
       if expected_element_type \<noteq> None \<and> expected_element_type \<noteq> Some (snd a) then errorS Internal
       else if expected_size \<ge> 0 \<and> int (fst a) \<noteq> expected_size then errorS Internal
       else returnS ()
     }
   }"

definition ExpectHasType :: "xls_type \<Rightarrow> xls_type \<Rightarrow> unit statusor option" where
  "ExpectHasType t type = error_if (t \<noteq> type) Internal"

definition ExpectHasTupleType :: "xls_type \<Rightarrow> unit statusor option" where
  "ExpectHasTupleType t = error_if (\<not> Type_IsTuple t) Internal"

definition ExpectHasEmptyTupleType :: "xls_type \<Rightarrow> unit statusor option" where
  "ExpectHasEmptyTupleType t =
     (if \<not> Type_IsTuple t then errorS Internal else Type_AsTupleOrDie t \<bind> (\<lambda>ts. error_if (length ts \<noteq> 0) Internal))"

definition ExpectHasBitsType :: "xls_type \<Rightarrow> int \<Rightarrow> unit statusor option" where
  "ExpectHasBitsType t expected_bit_count =
     (if \<not> Type_IsBits t then errorS Internal
      else Type_AsBitsOrDie t \<bind> (\<lambda>w. error_if (expected_bit_count \<noteq> -1 \<and> int w \<noteq> expected_bit_count) Internal))"

definition ExpectOperandHasBitsType :: "ir_function \<Rightarrow> ir_node \<Rightarrow> nat \<Rightarrow> int \<Rightarrow> unit statusor option" where
  "ExpectOperandHasBitsType f nd operand_no expected_bit_count = do {
     t \<leftarrow> operand_type f nd operand_no;
     if \<not> Type_IsBits t then errorS Internal
     else Type_AsBitsOrDie t \<bind> (\<lambda>w. error_if (expected_bit_count \<noteq> -1 \<and> int w \<noteq> expected_bit_count) Internal)
   }"

definition ExpectOperandHasTokenType :: "ir_function \<Rightarrow> ir_node \<Rightarrow> nat \<Rightarrow> unit statusor option" where
  "ExpectOperandHasTokenType f nd operand_no = operand_type f nd operand_no \<bind> (\<lambda>t. error_if (\<not> Type_IsToken t) Internal)"

definition ExpectAllSameType :: "ir_function \<Rightarrow> ir_node \<Rightarrow> unit statusor option" where
  "ExpectAllSameType f nd = seq_ok (map (\<lambda>i. ExpectOperandHasType f nd i (node_type nd)) [0..<length (node_operands nd)])"

definition ExpectAllSameBitsType :: "ir_function \<Rightarrow> ir_node \<Rightarrow> unit statusor option" where
  "ExpectAllSameBitsType f nd = seq_ok [ExpectHasBitsType (node_type nd) (-1), ExpectAllSameType f nd]"

definition ExpectOperandsSameBitsType :: "ir_function \<Rightarrow> ir_node \<Rightarrow> unit statusor option" where
  "ExpectOperandsSameBitsType f nd =
     (if length (node_operands nd) = 0 then returnS ()
      else operand_type f nd 0 \<bind> (\<lambda>type. seq_ok (map (\<lambda>i. ExpectOperandHasType f nd i type) [1..<length (node_operands nd)])))"

fun ExpectValueIsType :: "xvalue \<Rightarrow> xls_type \<Rightarrow> unit statusor option"
and ExpectValuesAreTypes :: "xvalue list \<Rightarrow> xls_type list \<Rightarrow> unit statusor option" where
  "ExpectValueIsType (VBits b) t = (case t of BitsType n \<Rightarrow> RET_CHECK (bm_count b = n) | _ \<Rightarrow> errorS Internal)"
| "ExpectValueIsType VToken t = RET_CHECK (t = TokenType)"
| "ExpectValueIsType (VTuple es) t =
     (case t of TupleType ts \<Rightarrow> if length es \<noteq> length ts then errorS Internal else ExpectValuesAreTypes es ts | _ \<Rightarrow> errorS Internal)"
| "ExpectValueIsType (VArray es) t =
     (case t of
        ArrayType n u \<Rightarrow> if length es \<noteq> n then errorS Internal else ExpectValuesAreTypes es (replicate n u)
      | _ \<Rightarrow> errorS Internal)"
| "ExpectValueIsType VInvalid t = errorS Internal"
| "ExpectValuesAreTypes (e # es) (t # ts) = bindS (ExpectValueIsType e t) (\<lambda>_. ExpectValuesAreTypes es ts)"
| "ExpectValuesAreTypes _ _ = returnS ()"

definition VerifyMultidimensionalArrayIndex :: "ir_function \<Rightarrow> nat list \<Rightarrow> xls_type \<Rightarrow> unit statusor option" where
  "VerifyMultidimensionalArrayIndex f indices type_to_index =
     seq_ok (map (\<lambda>index. GetType f index \<bind> (\<lambda>t. error_if (\<not> Type_IsBits t) InvalidArgument)) indices @
       [error_if (length indices > GetArrayDimensionCount type_to_index) InvalidArgument])"

section \<open>Checks of the operations\<close>

definition NodeChecker_HandleAdd :: "ir_function \<Rightarrow> ir_node \<Rightarrow> unit statusor option" where
  "NodeChecker_HandleAdd f nd = seq_ok [ExpectOperandCount nd 2, ExpectAllSameBitsType f nd]"

definition NodeChecker_HandleAndReduce :: "ir_function \<Rightarrow> ir_node \<Rightarrow> unit statusor option" where
  "NodeChecker_HandleAndReduce f nd = seq_ok [ExpectOperandCount nd 1, ExpectOperandHasBitsType f nd 0 (-1), ExpectHasBitsType (node_type nd) 1]"

definition NodeChecker_HandleOrReduce :: "ir_function \<Rightarrow> ir_node \<Rightarrow> unit statusor option" where
  "NodeChecker_HandleOrReduce f nd = seq_ok [ExpectOperandCount nd 1, ExpectOperandHasBitsType f nd 0 (-1), ExpectHasBitsType (node_type nd) 1]"

definition NodeChecker_HandleXorReduce :: "ir_function \<Rightarrow> ir_node \<Rightarrow> unit statusor option" where
  "NodeChecker_HandleXorReduce f nd = seq_ok [ExpectOperandCount nd 1, ExpectOperandHasBitsType f nd 0 (-1), ExpectHasBitsType (node_type nd) 1]"

definition NodeChecker_HandleAssert :: "ir_function \<Rightarrow> ir_node \<Rightarrow> unit statusor option" where
  "NodeChecker_HandleAssert f nd = seq_ok [ExpectOperandCount nd 2, ExpectOperandHasTokenType f nd 0, ExpectOperandHasBitsType f nd 1 1, ExpectHasTokenType nd]"

definition NodeChecker_HandleTrace :: "format_step list \<Rightarrow> ir_function \<Rightarrow> ir_node \<Rightarrow> unit statusor option" where
  "NodeChecker_HandleTrace format f nd = seq_ok (
     [ExpectOperandHasTokenType f nd 0, ExpectOperandHasBitsType f nd 1 1] @
     map (\<lambda>i. ExpectOperandHasBitsType f nd i (-1)) [2..<length (node_operands nd)] @
     [ExpectOperandCount nd (OperandsExpectedByFormat format + 2), ExpectHasTokenType nd])"

definition NodeChecker_HandleCover :: "ir_function \<Rightarrow> ir_node \<Rightarrow> unit statusor option" where
  "NodeChecker_HandleCover f nd = seq_ok [ExpectOperandCount nd 2, ExpectOperandHasTokenType f nd 0, ExpectOperandHasBitsType f nd 1 1, ExpectHasTokenType nd]"

definition NodeChecker_HandleNaryAnd :: "ir_function \<Rightarrow> ir_node \<Rightarrow> unit statusor option" where
  "NodeChecker_HandleNaryAnd f nd = seq_ok [ExpectOperandCountGt nd 0, ExpectAllSameBitsType f nd]"

definition NodeChecker_HandleNaryNand :: "ir_function \<Rightarrow> ir_node \<Rightarrow> unit statusor option" where
  "NodeChecker_HandleNaryNand f nd = seq_ok [ExpectOperandCountGt nd 0, ExpectAllSameBitsType f nd]"

definition NodeChecker_HandleNaryNor :: "ir_function \<Rightarrow> ir_node \<Rightarrow> unit statusor option" where
  "NodeChecker_HandleNaryNor f nd = seq_ok [ExpectOperandCountGt nd 0, ExpectAllSameBitsType f nd]"

definition NodeChecker_HandleAfterAll :: "ir_function \<Rightarrow> ir_node \<Rightarrow> unit statusor option" where
  "NodeChecker_HandleAfterAll f nd = seq_ok (ExpectHasTokenType nd # map (ExpectOperandHasTokenType f nd) [0..<length (node_operands nd)])"

definition NodeChecker_HandleReceive :: "channel list \<Rightarrow> int \<Rightarrow> bool \<Rightarrow> ir_function \<Rightarrow> ir_node \<Rightarrow> unit statusor option" where
  "NodeChecker_HandleReceive channels channel is_blocking f nd = seq_ok [
     ExpectOperandCountRange nd 1 2,
     ExpectOperandHasTokenType f nd 0,
     if length (node_operands nd) > 1 then ExpectOperandHasBitsType f nd 1 1 else returnS (),
     error_if (\<not> HasChannelWithId channels channel) Internal,
     bindS (Some (GetChannel channels channel)) (\<lambda>c.
       let expected_type = (if is_blocking then TupleType [TokenType, channel_type c]
                            else TupleType [TokenType, channel_type c, BitsType 1]) in
       seq_ok [error_if (node_type nd \<noteq> expected_type) Internal, error_if (\<not> Channel_CanReceive c) Internal])]"

definition NodeChecker_HandleSend :: "channel list \<Rightarrow> int \<Rightarrow> ir_function \<Rightarrow> ir_node \<Rightarrow> unit statusor option" where
  "NodeChecker_HandleSend channels channel f nd = seq_ok [
     ExpectHasTokenType nd,
     ExpectOperandCountRange nd 2 3,
     ExpectOperandHasTokenType f nd 0,
     if length (node_operands nd) > 2 then ExpectOperandHasBitsType f nd 2 1 else returnS (),
     error_if (\<not> HasChannelWithId channels channel) Internal,
     bindS (Some (GetChannel channels channel)) (\<lambda>c.
       seq_ok [error_if (\<not> Channel_CanSend c) Internal, ExpectOperandHasType f nd 1 (channel_type c)])]"

definition NodeChecker_HandleArray :: "ir_function \<Rightarrow> ir_node \<Rightarrow> unit statusor option" where
  "NodeChecker_HandleArray f nd = bindS (ExpectHasArrayType (node_type nd) None (-1)) (\<lambda>_. do {
     a \<leftarrow> Type_AsArrayOrDie (node_type nd);
     seq_ok (ExpectOperandCount nd (fst a) #
       map (\<lambda>i. ExpectOperandHasType f nd i (snd a)) [0..<length (node_operands nd)])
   })"

text \<open>\<open>start() + width()\<close> and the products of loop counters are computed on \<open>int64_t\<close>.\<close>

definition NodeChecker_HandleBitSlice :: "int \<Rightarrow> int \<Rightarrow> ir_function \<Rightarrow> ir_node \<Rightarrow> unit statusor option" where
  "NodeChecker_HandleBitSlice start width f nd = 
     bindS (seq_ok [ExpectHasBitsType (node_type nd) width, ExpectOperandCount nd 1, ExpectOperandHasBitsType f nd 0 (-1)]) (\<lambda>_. do {
       t \<leftarrow> operand_type f nd 0;
       bit_count \<leftarrow> Type_AsBitsOrDie t;
       seq_ok [
         error_if (start < 0) Internal,
         error_if (width < 0) Internal,
         error_if (int bit_count < sint (of_int start + of_int width :: uint64)) Internal]
     })"

definition NodeChecker_HandleDynamicBitSlice :: "int \<Rightarrow> ir_function \<Rightarrow> ir_node \<Rightarrow> unit statusor option" where
  "NodeChecker_HandleDynamicBitSlice width f nd = 
     bindS (seq_ok [ExpectHasBitsType (node_type nd) width, ExpectOperandCount nd 2,
                    ExpectOperandHasBitsType f nd 0 (-1), ExpectOperandHasBitsType f nd 1 (-1)]) (\<lambda>_. do {
       t \<leftarrow> operand_type f nd 0;
       bit_count \<leftarrow> Type_AsBitsOrDie t;
       seq_ok [error_if (width < 0) Internal, error_if (int bit_count < width) Internal]
     })"

definition NodeChecker_HandleBitSliceUpdate :: "ir_function \<Rightarrow> ir_node \<Rightarrow> unit statusor option" where
  "NodeChecker_HandleBitSliceUpdate f nd = 
     bindS (seq_ok [ExpectOperandHasBitsType f nd 0 (-1), ExpectOperandHasBitsType f nd 1 (-1), ExpectOperandHasBitsType f nd 2 (-1)]) (\<lambda>_. do {
       t \<leftarrow> operand_type f nd 0;
       w \<leftarrow> Type_AsBitsOrDie t;
       ExpectHasBitsType (node_type nd) (int w)
     })"

fun Concat_bits :: "ir_function \<Rightarrow> nat list \<Rightarrow> nat \<Rightarrow> nat statusor option" where
  "Concat_bits f [] total_bits = returnS total_bits"
| "Concat_bits f (a # as) total_bits = do {
     t \<leftarrow> GetType f a;
     bindS (ExpectHasBitsType t (-1)) (\<lambda>_. do { w \<leftarrow> Type_AsBitsOrDie t; Concat_bits f as (total_bits + w) })
   }"

definition NodeChecker_HandleConcat :: "ir_function \<Rightarrow> ir_node \<Rightarrow> unit statusor option" where
  "NodeChecker_HandleConcat f nd = 
     bindS (Concat_bits f (node_operands nd) 0) (\<lambda>total_bits. ExpectHasBitsType (node_type nd) (int total_bits))"

definition types_match :: "xls_type option \<Rightarrow> xls_type option \<Rightarrow> unit statusor option" where
  "types_match t u = do { t \<leftarrow> t; u \<leftarrow> u; error_if (t \<noteq> u) Internal }"

definition NodeChecker_HandleCountedFor :: "ir_package \<Rightarrow> int \<Rightarrow> int \<Rightarrow> nat \<Rightarrow> ir_function \<Rightarrow> ir_node \<Rightarrow> unit statusor option" where
  "NodeChecker_HandleCountedFor pkg trip_count stride g f nd = 
     bindS (seq_ok [RET_CHECK (trip_count \<ge> 0), error_if (length (node_operands nd) = 0) Internal]) (\<lambda>_. do {
       body \<leftarrow> at_opt pkg g;
       let invariant_args_count = length (node_operands nd) - 1;
       bindS (error_if (length (fn_params body) \<noteq> 2 + invariant_args_count) Internal) (\<lambda>_. do {
         i_type \<leftarrow> param_type body 0;
         let max_i = (of_int stride * (of_int trip_count - 1) :: uint64);
         let min_i_bits = (if trip_count \<le> 1 then 1 else MinBitCountUnsigned max_i);
         seq_ok ([
           if \<not> Type_IsBits i_type then errorS Internal
             else Type_AsBitsOrDie i_type \<bind> (\<lambda>w. error_if (w < min_i_bits) Internal),
           types_match (operand_type f nd 0) (return_type body),
           types_match (operand_type f nd 0) (param_type body 1)] @
           map (\<lambda>i. types_match (operand_type f nd (i + 1)) (param_type body (i + 2))) [0..<invariant_args_count] @
           [ExpectOperandHasType f nd 0 (node_type nd)])
       })
     })"

definition NodeChecker_HandleDecode :: "nat \<Rightarrow> ir_function \<Rightarrow> ir_node \<Rightarrow> unit statusor option" where
  "NodeChecker_HandleDecode width f nd = 
     bindS (seq_ok [ExpectOperandHasBitsType f nd 0 (-1), ExpectHasBitsType (node_type nd) (int width)]) (\<lambda>_. do {
       t \<leftarrow> operand_type f nd 0;
       operand_width \<leftarrow> Type_AsBitsOrDie t;
       error_if (operand_width < 63 \<and> width > 2 ^ operand_width) Internal
     })"

definition NodeChecker_HandleDynamicCountedFor :: "ir_package \<Rightarrow> nat \<Rightarrow> ir_function \<Rightarrow> ir_node \<Rightarrow> unit statusor option" where
  "NodeChecker_HandleDynamicCountedFor pkg g f nd = do {
     body \<leftarrow> at_opt pkg g;
     let operand_count = int (length (node_operands nd));
     bindS (error_if (int (length (fn_params body)) \<noteq> 2 + (operand_count - 3)) Internal) (\<lambda>_. do {
       index_type \<leftarrow> param_type body 0;
       bindS (error_if (\<not> Type_IsBits index_type) Internal) (\<lambda>_. do {
         index_width \<leftarrow> Type_AsBitsOrDie index_type;
         seq_ok ([
           types_match (operand_type f nd 0) (return_type body),
           types_match (operand_type f nd 0) (param_type body 1)] @
           map (\<lambda>i. types_match (operand_type f nd (i + 3)) (param_type body (i + 2))) [0..<length (node_operands nd) - 3] @
           [operand_type f nd 1 \<bind> (\<lambda>t. if \<not> Type_IsBits t then errorS Internal
              else Type_AsBitsOrDie t \<bind> (\<lambda>w. error_if (\<not> w < index_width) Internal)),
            operand_type f nd 2 \<bind> (\<lambda>t. if \<not> Type_IsBits t then errorS Internal
              else Type_AsBitsOrDie t \<bind> (\<lambda>w. error_if (\<not> w \<le> index_width) Internal)),
            ExpectOperandHasType f nd 0 (node_type nd)])
       })
     })
   }"

definition NodeChecker_HandleEncode :: "ir_function \<Rightarrow> ir_node \<Rightarrow> unit statusor option" where
  "NodeChecker_HandleEncode f nd = 
     bindS (ExpectOperandHasBitsType f nd 0 (-1)) (\<lambda>_. do {
       t \<leftarrow> operand_type f nd 0;
       w \<leftarrow> Type_AsBitsOrDie t;
       ExpectHasBitsType (node_type nd) (int (MinBitCountUnsigned (of_nat w - 1)))
     })"

definition NodeChecker_HandleUDiv :: "ir_function \<Rightarrow> ir_node \<Rightarrow> unit statusor option" where
  "NodeChecker_HandleUDiv f nd = seq_ok [ExpectOperandCount nd 2, ExpectAllSameBitsType f nd]"

definition NodeChecker_HandleSDiv :: "ir_function \<Rightarrow> ir_node \<Rightarrow> unit statusor option" where
  "NodeChecker_HandleSDiv f nd = seq_ok [ExpectOperandCount nd 2, ExpectAllSameBitsType f nd]"

definition NodeChecker_HandleUMod :: "ir_function \<Rightarrow> ir_node \<Rightarrow> unit statusor option" where
  "NodeChecker_HandleUMod f nd = seq_ok [ExpectOperandCount nd 2, ExpectAllSameBitsType f nd]"

definition NodeChecker_HandleSMod :: "ir_function \<Rightarrow> ir_node \<Rightarrow> unit statusor option" where
  "NodeChecker_HandleSMod f nd = seq_ok [ExpectOperandCount nd 2, ExpectAllSameBitsType f nd]"

definition NodeChecker_HandleEq :: "ir_function \<Rightarrow> ir_node \<Rightarrow> unit statusor option" where
  "NodeChecker_HandleEq f nd = seq_ok [ExpectOperandCount nd 2, ExpectOperandsSameBitsType f nd, ExpectHasBitsType (node_type nd) 1]"

definition NodeChecker_HandleUGe :: "ir_function \<Rightarrow> ir_node \<Rightarrow> unit statusor option" where
  "NodeChecker_HandleUGe f nd = seq_ok [ExpectOperandCount nd 2, ExpectOperandsSameBitsType f nd, ExpectHasBitsType (node_type nd) 1]"

definition NodeChecker_HandleUGt :: "ir_function \<Rightarrow> ir_node \<Rightarrow> unit statusor option" where
  "NodeChecker_HandleUGt f nd = seq_ok [ExpectOperandCount nd 2, ExpectOperandsSameBitsType f nd, ExpectHasBitsType (node_type nd) 1]"

definition NodeChecker_HandleSGe :: "ir_function \<Rightarrow> ir_node \<Rightarrow> unit statusor option" where
  "NodeChecker_HandleSGe f nd = seq_ok [ExpectOperandCount nd 2, ExpectOperandsSameBitsType f nd, ExpectHasBitsType (node_type nd) 1]"

definition NodeChecker_HandleSGt :: "ir_function \<Rightarrow> ir_node \<Rightarrow> unit statusor option" where
  "NodeChecker_HandleSGt f nd = seq_ok [ExpectOperandCount nd 2, ExpectOperandsSameBitsType f nd, ExpectHasBitsType (node_type nd) 1]"

definition NodeChecker_HandleIdentity :: "ir_function \<Rightarrow> ir_node \<Rightarrow> unit statusor option" where
  "NodeChecker_HandleIdentity f nd = seq_ok [ExpectOperandCount nd 1, ExpectAllSameType f nd]"

definition NodeChecker_HandleArrayIndex :: "ir_function \<Rightarrow> ir_node \<Rightarrow> unit statusor option" where
  "NodeChecker_HandleArrayIndex f nd = 
     bindS (ExpectOperandCountGt nd 0) (\<lambda>_. do {
       t \<leftarrow> operand_type f nd 0;
       let indices = tl (node_operands nd);
       seq_ok [
         VerifyMultidimensionalArrayIndex f indices t,
         ExpectDoesNotContainToken nd,
         bindS (Some (GetIndexedElementType t (length indices))) (\<lambda>indexed_type. error_if (node_type nd \<noteq> indexed_type) InvalidArgument)]
     })"

definition NodeChecker_HandleArraySlice :: "int \<Rightarrow> ir_function \<Rightarrow> ir_node \<Rightarrow> unit statusor option" where
  "NodeChecker_HandleArraySlice width f nd = 
     bindS (seq_ok [ExpectOperandHasArrayType f nd 0 None (-1), ExpectOperandHasBitsType f nd 1 (-1), ExpectDoesNotContainToken nd]) (\<lambda>_. do {
       t \<leftarrow> operand_type f nd 0;
       a \<leftarrow> Type_AsArrayOrDie t;
       seq_ok [
         ExpectHasArrayType (node_type nd) (Some (snd a)) width,
         error_if (fst a = 0) InvalidArgument,
         error_if (width \<le> 0) InvalidArgument]
     })"

definition NodeChecker_HandleArrayUpdate :: "ir_function \<Rightarrow> ir_node \<Rightarrow> unit statusor option" where
  "NodeChecker_HandleArrayUpdate f nd = 
     bindS (ExpectOperandCountGt nd 1) (\<lambda>_. do {
       t \<leftarrow> operand_type f nd 0;
       value_type \<leftarrow> operand_type f nd 1;
       let indices = drop 2 (node_operands nd);
       seq_ok [
         ExpectSameType (node_type nd) t,
         VerifyMultidimensionalArrayIndex f indices t,
         bindS (Some (GetIndexedElementType t (length indices))) (\<lambda>indexed_type. error_if (value_type \<noteq> indexed_type) InvalidArgument)]
     })"

fun ArrayConcat_size :: "ir_function \<Rightarrow> nat list \<Rightarrow> xls_type option \<Rightarrow> nat \<Rightarrow> (xls_type option \<times> nat) statusor option" where
  "ArrayConcat_size f [] zeroth_element_type sz = returnS (zeroth_element_type, sz)"
| "ArrayConcat_size f (a # as) zeroth_element_type sz = do {
     t \<leftarrow> GetType f a;
     bindS (ExpectHasArrayType t None (-1)) (\<lambda>_. do {
       operand_type \<leftarrow> Type_AsArrayOrDie t;
       (case zeroth_element_type of
          None \<Rightarrow> ArrayConcat_size f as (Some (snd operand_type)) (sz + fst operand_type)
        | Some e \<Rightarrow>
            if snd operand_type \<noteq> e then errorS Internal else ArrayConcat_size f as zeroth_element_type (sz + fst operand_type))
     })
   }"

definition NodeChecker_HandleArrayConcat :: "ir_function \<Rightarrow> ir_node \<Rightarrow> unit statusor option" where
  "NodeChecker_HandleArrayConcat f nd = 
     bindS (ExpectOperandCountGt nd 0) (\<lambda>_.
       bindS (ArrayConcat_size f (node_operands nd) None 0) (\<lambda>(zeroth_element_type, sz).
         ExpectHasArrayType (node_type nd) zeroth_element_type (int sz)))"

definition NodeChecker_HandleInvoke :: "ir_package \<Rightarrow> nat \<Rightarrow> ir_function \<Rightarrow> ir_node \<Rightarrow> unit statusor option" where
  "NodeChecker_HandleInvoke pkg g f nd = do {
     func \<leftarrow> at_opt pkg g;
     seq_ok (
       [error_if (length (node_operands nd) \<noteq> length (fn_params func)) Internal] @
       map (\<lambda>i. param_type func i \<bind> ExpectOperandHasType f nd i) [0..<length (node_operands nd)] @
       [return_type func \<bind> ExpectSameType (node_type nd)])
   }"

definition NodeChecker_HandleLiteral :: "xvalue \<Rightarrow> ir_function \<Rightarrow> ir_node \<Rightarrow> unit statusor option" where
  "NodeChecker_HandleLiteral v f nd = seq_ok [ExpectOperandCount nd 0, ExpectValueIsType v (node_type nd)]"

definition NodeChecker_HandleULe :: "ir_function \<Rightarrow> ir_node \<Rightarrow> unit statusor option" where
  "NodeChecker_HandleULe f nd = seq_ok [ExpectOperandCount nd 2, ExpectOperandsSameBitsType f nd, ExpectHasBitsType (node_type nd) 1]"

definition NodeChecker_HandleULt :: "ir_function \<Rightarrow> ir_node \<Rightarrow> unit statusor option" where
  "NodeChecker_HandleULt f nd = seq_ok [ExpectOperandCount nd 2, ExpectOperandsSameBitsType f nd, ExpectHasBitsType (node_type nd) 1]"

definition NodeChecker_HandleSLe :: "ir_function \<Rightarrow> ir_node \<Rightarrow> unit statusor option" where
  "NodeChecker_HandleSLe f nd = seq_ok [ExpectOperandCount nd 2, ExpectOperandsSameBitsType f nd, ExpectHasBitsType (node_type nd) 1]"

definition NodeChecker_HandleSLt :: "ir_function \<Rightarrow> ir_node \<Rightarrow> unit statusor option" where
  "NodeChecker_HandleSLt f nd = seq_ok [ExpectOperandCount nd 2, ExpectOperandsSameBitsType f nd, ExpectHasBitsType (node_type nd) 1]"

definition NodeChecker_HandleMap :: "ir_package \<Rightarrow> nat \<Rightarrow> ir_function \<Rightarrow> ir_node \<Rightarrow> unit statusor option" where
  "NodeChecker_HandleMap pkg g f nd = 
     bindS (seq_ok [ExpectOperandCount nd 1, ExpectHasArrayType (node_type nd) None (-1),
                    operand_type f nd 0 \<bind> (\<lambda>t. ExpectHasArrayType t None (-1))]) (\<lambda>_. do {
       to_apply \<leftarrow> at_opt pkg g;
       out \<leftarrow> Type_AsArrayOrDie (node_type nd);
       arg \<leftarrow> operand_type f nd 0 \<bind> Type_AsArrayOrDie;
       seq_ok [
         return_type to_apply \<bind> ExpectSameType (snd out),
         RET_CHECK (1 = length (fn_params to_apply)),
         param_type to_apply 0 \<bind> ExpectSameType (snd arg)]
     })"

definition NodeChecker_HandleSMul :: "ir_function \<Rightarrow> ir_node \<Rightarrow> unit statusor option" where
  "NodeChecker_HandleSMul f nd = seq_ok [ExpectOperandCount nd 2, ExpectOperandHasBitsType f nd 0 (-1), ExpectOperandHasBitsType f nd 1 (-1), ExpectHasBitsType (node_type nd) (-1)]"

definition NodeChecker_HandleUMul :: "ir_function \<Rightarrow> ir_node \<Rightarrow> unit statusor option" where
  "NodeChecker_HandleUMul f nd = seq_ok [ExpectOperandCount nd 2, ExpectOperandHasBitsType f nd 0 (-1), ExpectOperandHasBitsType f nd 1 (-1), ExpectHasBitsType (node_type nd) (-1)]"

definition NodeChecker_HandleSMulp :: "ir_function \<Rightarrow> ir_node \<Rightarrow> unit statusor option" where
  "NodeChecker_HandleSMulp f nd = 
     bindS (seq_ok [ExpectOperandCount nd 2, ExpectOperandHasBitsType f nd 0 (-1), ExpectOperandHasBitsType f nd 1 (-1),
                    ExpectHasTupleType (node_type nd)]) (\<lambda>_. do {
       types \<leftarrow> Type_AsTupleOrDie (node_type nd);
       bindS (error_if (length types \<noteq> 2) Internal) (\<lambda>_.
         seq_ok [error_if (\<not> Type_IsBits (types ! 0)) Internal, error_if (types ! 1 \<noteq> types ! 0) Internal])
     })"

definition NodeChecker_HandleUMulp :: "ir_function \<Rightarrow> ir_node \<Rightarrow> unit statusor option" where
  "NodeChecker_HandleUMulp f nd = 
     bindS (seq_ok [ExpectOperandCount nd 2, ExpectOperandHasBitsType f nd 0 (-1), ExpectOperandHasBitsType f nd 1 (-1),
                    ExpectHasTupleType (node_type nd)]) (\<lambda>_. do {
       types \<leftarrow> Type_AsTupleOrDie (node_type nd);
       bindS (error_if (length types \<noteq> 2) Internal) (\<lambda>_.
         seq_ok [error_if (\<not> Type_IsBits (types ! 0)) Internal, error_if (\<not> Type_IsEqualTo (types ! 1) (types ! 0)) Internal])
     })"

definition NodeChecker_HandleNe :: "ir_function \<Rightarrow> ir_node \<Rightarrow> unit statusor option" where
  "NodeChecker_HandleNe f nd = seq_ok [ExpectOperandCount nd 2, ExpectOperandsSameBitsType f nd, ExpectHasBitsType (node_type nd) 1]"

definition NodeChecker_HandleNeg :: "ir_function \<Rightarrow> ir_node \<Rightarrow> unit statusor option" where
  "NodeChecker_HandleNeg f nd = seq_ok [ExpectOperandCount nd 1, ExpectAllSameBitsType f nd]"

definition NodeChecker_HandleNot :: "ir_function \<Rightarrow> ir_node \<Rightarrow> unit statusor option" where
  "NodeChecker_HandleNot f nd = seq_ok [ExpectOperandCount nd 1, ExpectAllSameBitsType f nd]"

definition NodeChecker_HandleOneHot :: "ir_function \<Rightarrow> ir_node \<Rightarrow> unit statusor option" where
  "NodeChecker_HandleOneHot f nd = 
     bindS (seq_ok [ExpectOperandCount nd 1, ExpectOperandHasBitsType f nd 0 (-1)]) (\<lambda>_. do {
       t \<leftarrow> operand_type f nd 0;
       operand_bit_count \<leftarrow> Type_AsBitsOrDie t;
       ExpectHasBitsType (node_type nd) (int (operand_bit_count + 1))
     })"

definition NodeChecker_HandleOneHotSel :: "ir_function \<Rightarrow> ir_node \<Rightarrow> unit statusor option" where
  "NodeChecker_HandleOneHotSel f nd = 
     bindS (seq_ok [error_if (length (node_operands nd) < 2) Internal, ExpectOperandHasBitsType f nd 0 (-1),
                    ExpectDoesNotContainToken nd]) (\<lambda>_. do {
       t \<leftarrow> operand_type f nd 0;
       selector_width \<leftarrow> Type_AsBitsOrDie t;
       error_if (selector_width \<noteq> length (tl (node_operands nd))) Internal
     })"

definition NodeChecker_HandlePrioritySel :: "ir_function \<Rightarrow> ir_node \<Rightarrow> unit statusor option" where
  "NodeChecker_HandlePrioritySel f nd = 
     bindS (seq_ok [error_if (length (node_operands nd) < 2) Internal, ExpectOperandHasBitsType f nd 0 (-1),
                    ExpectDoesNotContainToken nd]) (\<lambda>_. do {
       t \<leftarrow> operand_type f nd 0;
       selector_width \<leftarrow> Type_AsBitsOrDie t;
       error_if (selector_width \<noteq> length (tl (node_operands nd))) Internal
     })"

definition NodeChecker_HandleNaryOr :: "ir_function \<Rightarrow> ir_node \<Rightarrow> unit statusor option" where
  "NodeChecker_HandleNaryOr f nd = seq_ok [ExpectOperandCountGt nd 0, ExpectAllSameBitsType f nd]"

definition NodeChecker_HandleNaryXor :: "ir_function \<Rightarrow> ir_node \<Rightarrow> unit statusor option" where
  "NodeChecker_HandleNaryXor f nd = seq_ok [ExpectOperandCountGt nd 0, ExpectAllSameBitsType f nd]"

definition NodeChecker_HandleParam :: "ir_function \<Rightarrow> ir_node \<Rightarrow> unit statusor option" where
  "NodeChecker_HandleParam f nd = seq_ok [ExpectOperandCount nd 0]"

definition NodeChecker_HandleReverse :: "ir_function \<Rightarrow> ir_node \<Rightarrow> unit statusor option" where
  "NodeChecker_HandleReverse f nd = seq_ok [ExpectOperandCount nd 1, ExpectAllSameBitsType f nd]"

definition NodeChecker_HandleSel :: "nat \<Rightarrow> bool \<Rightarrow> ir_function \<Rightarrow> ir_node \<Rightarrow> unit statusor option" where
  "NodeChecker_HandleSel cases_size has_default f nd = 
     bindS (error_if (length (node_operands nd) < 2) Internal) (\<lambda>_. do {
       t \<leftarrow> operand_type f nd 0;
       bindS (seq_ok [ExpectHasBitsType t (-1), ExpectDoesNotContainToken nd]) (\<lambda>_. do {
         selector_width \<leftarrow> Type_AsBitsOrDie t;
         let minimum_selector_width = MinBitCountUnsigned (of_nat cases_size - 1);
         let power_of_2_cases = IsPowerOfTwo (of_nat cases_size);
         bindS (error_if (selector_width < minimum_selector_width \<or>
                  selector_width = minimum_selector_width \<and> power_of_2_cases \<and> has_default \<or>
                  (selector_width > minimum_selector_width \<or> selector_width = minimum_selector_width \<and> \<not> power_of_2_cases) \<and>
                    \<not> has_default) Internal) (\<lambda>_.
           seq_ok (map (\<lambda>i. ExpectOperandHasType f nd (i + 1) (node_type nd)) [0..<cases_size]))
       })
     })"

definition NodeChecker_HandleShiftOp :: "ir_function \<Rightarrow> ir_node \<Rightarrow> unit statusor option" where
  "NodeChecker_HandleShiftOp f nd = seq_ok [
     ExpectHasBitsType (node_type nd) (-1),
     operand_type f nd 0 \<bind> (\<lambda>t. ExpectSameType t (node_type nd)),
     ExpectOperandHasBitsType f nd 1 (-1)]"

definition NodeChecker_HandleShll :: "ir_function \<Rightarrow> ir_node \<Rightarrow> unit statusor option" where
  "NodeChecker_HandleShll f nd = NodeChecker_HandleShiftOp f nd"

definition NodeChecker_HandleShra :: "ir_function \<Rightarrow> ir_node \<Rightarrow> unit statusor option" where
  "NodeChecker_HandleShra f nd = NodeChecker_HandleShiftOp f nd"

definition NodeChecker_HandleShrl :: "ir_function \<Rightarrow> ir_node \<Rightarrow> unit statusor option" where
  "NodeChecker_HandleShrl f nd = NodeChecker_HandleShiftOp f nd"

definition NodeChecker_HandleSub :: "ir_function \<Rightarrow> ir_node \<Rightarrow> unit statusor option" where
  "NodeChecker_HandleSub f nd = seq_ok [ExpectOperandCount nd 2, ExpectAllSameBitsType f nd]"

definition NodeChecker_HandleTuple :: "ir_function \<Rightarrow> ir_node \<Rightarrow> unit statusor option" where
  "NodeChecker_HandleTuple f nd = bindS (ExpectHasTupleType (node_type nd)) (\<lambda>_. do {
     types \<leftarrow> Type_AsTupleOrDie (node_type nd);
     bindS (error_if (length types \<noteq> length (node_operands nd)) Internal) (\<lambda>_.
       seq_ok (map (\<lambda>i. ExpectOperandHasType f nd i (types ! i)) [0..<length (node_operands nd)]))
   })"

definition NodeChecker_HandleTupleIndex :: "int \<Rightarrow> ir_function \<Rightarrow> ir_node \<Rightarrow> unit statusor option" where
  "NodeChecker_HandleTupleIndex index f nd = 
     bindS (seq_ok [ExpectOperandCount nd 1, operand_type f nd 0 \<bind> ExpectHasTupleType]) (\<lambda>_. do {
       types \<leftarrow> operand_type f nd 0 \<bind> Type_AsTupleOrDie;
       bindS (error_if (index < 0 \<or> index \<ge> int (length types)) Internal) (\<lambda>_.
         ExpectSameType (node_type nd) (types ! nat index))
     })"

definition NodeChecker_HandleExtendOp :: "nat \<Rightarrow> ir_function \<Rightarrow> ir_node \<Rightarrow> unit statusor option" where
  "NodeChecker_HandleExtendOp new_bit_count f nd =
     bindS (seq_ok [ExpectOperandCount nd 1, ExpectOperandHasBitsType f nd 0 (-1)]) (\<lambda>_. do {
       t \<leftarrow> operand_type f nd 0;
       operand_bit_count \<leftarrow> Type_AsBitsOrDie t;
       seq_ok [error_if (new_bit_count < operand_bit_count) Internal, ExpectHasBitsType (node_type nd) (int new_bit_count)]
     })"

definition NodeChecker_HandleSignExtend :: "nat \<Rightarrow> ir_function \<Rightarrow> ir_node \<Rightarrow> unit statusor option" where
  "NodeChecker_HandleSignExtend new_bit_count f nd = NodeChecker_HandleExtendOp new_bit_count f nd"

definition NodeChecker_HandleZeroExtend :: "nat \<Rightarrow> ir_function \<Rightarrow> ir_node \<Rightarrow> unit statusor option" where
  "NodeChecker_HandleZeroExtend new_bit_count f nd = NodeChecker_HandleExtendOp new_bit_count f nd"

definition NodeChecker_HandleInputPort :: "ir_function \<Rightarrow> ir_node \<Rightarrow> unit statusor option" where
  "NodeChecker_HandleInputPort f nd = seq_ok [ExpectOperandCount nd 0]"

definition NodeChecker_HandleOutputPort :: "ir_function \<Rightarrow> ir_node \<Rightarrow> unit statusor option" where
  "NodeChecker_HandleOutputPort f nd = seq_ok [ExpectOperandCount nd 1, ExpectHasEmptyTupleType (node_type nd)]"

definition NodeChecker_HandleRegisterRead :: "register \<Rightarrow> ir_function \<Rightarrow> ir_node \<Rightarrow> unit statusor option" where
  "NodeChecker_HandleRegisterRead reg f nd = ExpectHasType (node_type nd) (reg_type reg)"

definition NodeChecker_HandleRegisterWrite :: "register \<Rightarrow> bool \<Rightarrow> bool \<Rightarrow> ir_function \<Rightarrow> ir_node \<Rightarrow> unit statusor option" where
  "NodeChecker_HandleRegisterWrite reg has_load_enable has_reset f nd = seq_ok [
     ExpectOperandHasType f nd 0 (reg_type reg),
     error_if (reg_has_reset reg \<and> \<not> has_reset) Internal,
     error_if (\<not> reg_has_reset reg \<and> has_reset) Internal,
     if has_reset then operand_type f nd (if has_load_enable then 2 else 1) \<bind> (\<lambda>t. error_if (t \<noteq> BitsType 1) Internal) else returnS (),
     if has_load_enable then operand_type f nd 1 \<bind> (\<lambda>t. error_if (t \<noteq> BitsType 1) Internal) else returnS ()]"

definition NodeChecker_HandleInstantiationInput :: "ir_function \<Rightarrow> ir_node \<Rightarrow> unit statusor option" where
  "NodeChecker_HandleInstantiationInput f nd = seq_ok [ExpectOperandCount nd 1, ExpectHasEmptyTupleType (node_type nd)]"

definition NodeChecker_HandleInstantiationOutput :: "ir_function \<Rightarrow> ir_node \<Rightarrow> unit statusor option" where
  "NodeChecker_HandleInstantiationOutput f nd = seq_ok [ExpectOperandCount nd 0]"

definition NodeChecker_HandleGate :: "ir_function \<Rightarrow> ir_node \<Rightarrow> unit statusor option" where
  "NodeChecker_HandleGate f nd = seq_ok [ExpectOperandCount nd 2, ExpectOperandHasBitsType f nd 0 1, ExpectOperandHasType f nd 1 (node_type nd)]"

section \<open>Dispatch\<close>

definition NodeChecker_BinOp :: "bin_op \<Rightarrow> ir_function \<Rightarrow> ir_node \<Rightarrow> unit statusor option" where
  "NodeChecker_BinOp op = (case op of
     Op_Add \<Rightarrow> NodeChecker_HandleAdd | Op_Sub \<Rightarrow> NodeChecker_HandleSub | Op_UDiv \<Rightarrow> NodeChecker_HandleUDiv
   | Op_SDiv \<Rightarrow> NodeChecker_HandleSDiv | Op_UMod \<Rightarrow> NodeChecker_HandleUMod | Op_SMod \<Rightarrow> NodeChecker_HandleSMod
   | Op_Shll \<Rightarrow> NodeChecker_HandleShll | Op_Shra \<Rightarrow> NodeChecker_HandleShra | Op_Shrl \<Rightarrow> NodeChecker_HandleShrl)"

definition NodeChecker_NaryOp :: "nary_op \<Rightarrow> ir_function \<Rightarrow> ir_node \<Rightarrow> unit statusor option" where
  "NodeChecker_NaryOp op = (case op of
     Op_And \<Rightarrow> NodeChecker_HandleNaryAnd | Op_Nand \<Rightarrow> NodeChecker_HandleNaryNand | Op_Nor \<Rightarrow> NodeChecker_HandleNaryNor
   | Op_Or \<Rightarrow> NodeChecker_HandleNaryOr | Op_Xor \<Rightarrow> NodeChecker_HandleNaryXor)"

definition NodeChecker_Reduction :: "reduction_op \<Rightarrow> ir_function \<Rightarrow> ir_node \<Rightarrow> unit statusor option" where
  "NodeChecker_Reduction op = (case op of
     Op_AndReduce \<Rightarrow> NodeChecker_HandleAndReduce | Op_OrReduce \<Rightarrow> NodeChecker_HandleOrReduce
   | Op_XorReduce \<Rightarrow> NodeChecker_HandleXorReduce)"

definition NodeChecker_CompareOp :: "compare_op \<Rightarrow> ir_function \<Rightarrow> ir_node \<Rightarrow> unit statusor option" where
  "NodeChecker_CompareOp op = (case op of
     Op_Eq \<Rightarrow> NodeChecker_HandleEq | Op_Ne \<Rightarrow> NodeChecker_HandleNe
   | Op_SGe \<Rightarrow> NodeChecker_HandleSGe | Op_SGt \<Rightarrow> NodeChecker_HandleSGt | Op_SLe \<Rightarrow> NodeChecker_HandleSLe | Op_SLt \<Rightarrow> NodeChecker_HandleSLt
   | Op_UGe \<Rightarrow> NodeChecker_HandleUGe | Op_UGt \<Rightarrow> NodeChecker_HandleUGt | Op_ULe \<Rightarrow> NodeChecker_HandleULe | Op_ULt \<Rightarrow> NodeChecker_HandleULt)"

definition NodeChecker_UnOp :: "un_op \<Rightarrow> ir_function \<Rightarrow> ir_node \<Rightarrow> unit statusor option" where
  "NodeChecker_UnOp op = (case op of
     Op_Identity \<Rightarrow> NodeChecker_HandleIdentity | Op_Neg \<Rightarrow> NodeChecker_HandleNeg | Op_Not \<Rightarrow> NodeChecker_HandleNot
   | Op_Reverse \<Rightarrow> NodeChecker_HandleReverse)"

definition NodeChecker_BlockOp :: "block_op \<Rightarrow> ir_function \<Rightarrow> ir_node \<Rightarrow> unit statusor option" where
  "NodeChecker_BlockOp op = (case op of
     Op_InputPort \<Rightarrow> NodeChecker_HandleInputPort | Op_OutputPort \<Rightarrow> NodeChecker_HandleOutputPort
   | Op_RegisterRead reg \<Rightarrow> NodeChecker_HandleRegisterRead reg
   | Op_RegisterWrite reg has_load_enable has_reset \<Rightarrow> NodeChecker_HandleRegisterWrite reg has_load_enable has_reset
   | Op_InstantiationInput \<Rightarrow> NodeChecker_HandleInstantiationInput | Op_InstantiationOutput \<Rightarrow> NodeChecker_HandleInstantiationOutput)"

definition NodeChecker_Visit :: "ir_package \<Rightarrow> channel list \<Rightarrow> ir_function \<Rightarrow> ir_node \<Rightarrow> unit statusor option" where
  "NodeChecker_Visit pkg channels f nd = (case node_op nd of
     BinOp op \<Rightarrow> NodeChecker_BinOp op f nd
   | ArithOp op w \<Rightarrow> (case op of Op_SMul \<Rightarrow> NodeChecker_HandleSMul f nd | Op_UMul \<Rightarrow> NodeChecker_HandleUMul f nd)
   | PartialProductOp op w \<Rightarrow> (case op of Op_SMul \<Rightarrow> NodeChecker_HandleSMulp f nd | Op_UMul \<Rightarrow> NodeChecker_HandleUMulp f nd)
   | NaryOp op \<Rightarrow> NodeChecker_NaryOp op f nd
   | BitwiseReductionOp op \<Rightarrow> NodeChecker_Reduction op f nd
   | CompareOp op \<Rightarrow> NodeChecker_CompareOp op f nd
   | UnOp op \<Rightarrow> NodeChecker_UnOp op f nd
   | ExtendOp op w \<Rightarrow> (case op of Op_SignExt \<Rightarrow> NodeChecker_HandleSignExtend w f nd | Op_ZeroExt \<Rightarrow> NodeChecker_HandleZeroExtend w f nd)
   | BitSlice start width \<Rightarrow> NodeChecker_HandleBitSlice start width f nd
   | DynamicBitSlice width \<Rightarrow> NodeChecker_HandleDynamicBitSlice width f nd
   | BitSliceUpdate \<Rightarrow> NodeChecker_HandleBitSliceUpdate f nd
   | Concat \<Rightarrow> NodeChecker_HandleConcat f nd
   | Decode w \<Rightarrow> NodeChecker_HandleDecode w f nd
   | Encode \<Rightarrow> NodeChecker_HandleEncode f nd
   | OneHot priority \<Rightarrow> NodeChecker_HandleOneHot f nd
   | OneHotSelect \<Rightarrow> NodeChecker_HandleOneHotSel f nd
   | PrioritySelect \<Rightarrow> NodeChecker_HandlePrioritySel f nd
   | Select cases_size has_default \<Rightarrow> NodeChecker_HandleSel cases_size has_default f nd
   | Gate \<Rightarrow> NodeChecker_HandleGate f nd
   | Tuple \<Rightarrow> NodeChecker_HandleTuple f nd
   | TupleIndex index \<Rightarrow> NodeChecker_HandleTupleIndex index f nd
   | Array t \<Rightarrow> NodeChecker_HandleArray f nd
   | ArrayIndex \<Rightarrow> NodeChecker_HandleArrayIndex f nd
   | ArraySlice width \<Rightarrow> NodeChecker_HandleArraySlice width f nd
   | ArrayUpdate \<Rightarrow> NodeChecker_HandleArrayUpdate f nd
   | ArrayConcat \<Rightarrow> NodeChecker_HandleArrayConcat f nd
   | Literal v \<Rightarrow> NodeChecker_HandleLiteral v f nd
   | Param \<Rightarrow> NodeChecker_HandleParam f nd
   | Invoke g \<Rightarrow> NodeChecker_HandleInvoke pkg g f nd
   | Map g \<Rightarrow> NodeChecker_HandleMap pkg g f nd
   | CountedFor trip_count stride g \<Rightarrow> NodeChecker_HandleCountedFor pkg trip_count stride g f nd
   | DynamicCountedFor g \<Rightarrow> NodeChecker_HandleDynamicCountedFor pkg g f nd
   | AfterAll \<Rightarrow> NodeChecker_HandleAfterAll f nd
   | Assert message label \<Rightarrow> NodeChecker_HandleAssert f nd
   | Trace format \<Rightarrow> NodeChecker_HandleTrace format f nd
   | Cover label \<Rightarrow> NodeChecker_HandleCover f nd
   | Receive channel is_blocking \<Rightarrow> NodeChecker_HandleReceive channels channel is_blocking f nd
   | Send channel \<Rightarrow> NodeChecker_HandleSend channels channel f nd
   | BlockOp op \<Rightarrow> NodeChecker_BlockOp op f nd)"

section \<open>Functions\<close>

text \<open>
  The users of a node are computed from the operands (\<open>node_users\<close>), so that the second loop of \<open>VerifyNode\<close> tests what
  holds by construction. An operand in another function is one that the node list does not resolve.
\<close>

definition VerifyNode :: "ir_package \<Rightarrow> channel list \<Rightarrow> ir_function \<Rightarrow> nat \<Rightarrow> ir_node \<Rightarrow> unit statusor option" where
  "VerifyNode pkg channels f n nd = seq_ok (
     map (\<lambda>a. seq_ok [RET_CHECK (n \<in> set (node_users f a)), RET_CHECK (GetNode f a \<noteq> None)]) (node_operands nd) @
     map (\<lambda>u. GetNode f u \<bind> (\<lambda>user. RET_CHECK (n \<in> set (node_operands user)))) (node_users f n) @
     [NodeChecker_Visit pkg channels f nd])"

definition VerifyNodeIdUnique :: "ir_node \<Rightarrow> int set \<Rightarrow> int set statusor option" where
  "VerifyNodeIdUnique nd ids =
     (if node_op nd \<noteq> Param then if node_id nd \<in> ids then errorS Internal else returnS (insert (node_id nd) ids)
      else returnS ids)"

fun VerifyNodeIds :: "ir_node list \<Rightarrow> int set \<Rightarrow> int set statusor option" where
  "VerifyNodeIds [] ids = returnS ids"
| "VerifyNodeIds (nd # nds) ids = bindS (VerifyNodeIdUnique nd ids) (VerifyNodeIds nds)"

fun verify_params :: "ir_function \<Rightarrow> nat list \<Rightarrow> nat set \<Rightarrow> string set \<Rightarrow> nat set statusor option" where
  "verify_params f [] param_set param_names = returnS param_set"
| "verify_params f (p # ps) param_set param_names =
     (if p \<in> param_set then errorS Internal
      else do {
        nd \<leftarrow> GetNode f p;
        if node_name nd \<in> param_names then errorS Internal
        else verify_params f ps (insert p param_set) (insert (node_name nd) param_names)
      })"

definition VerifyFunctionBase :: "ir_package \<Rightarrow> channel list \<Rightarrow> ir_function \<Rightarrow> unit statusor option" where
  "VerifyFunctionBase pkg channels f =
     bindS (VerifyNodeIds (map snd (fn_nodes f)) {}) (\<lambda>_.
     bindS (FunctionBase_Accept f trivial_visitor ()) (\<lambda>_.
     bindS (seq_ok (map (\<lambda>(n, nd). VerifyNode pkg channels f n nd) (fn_nodes f))) (\<lambda>_.
     bindS (verify_params f (fn_params f) {} {}) (\<lambda>param_set.
       let param_nodes = filter (\<lambda>(n, nd). node_op nd = Param) (fn_nodes f) in
       seq_ok (map (\<lambda>(n, nd). RET_CHECK (n \<in> param_set)) param_nodes @
         [RET_CHECK (card param_set = length param_nodes)])))))"

definition VerifyFunction :: "ir_package \<Rightarrow> channel list \<Rightarrow> ir_function \<Rightarrow> unit statusor option" where
  "VerifyFunction pkg channels f = seq_ok (
     VerifyFunctionBase pkg channels f #
     map (\<lambda>(n, nd). error_if (case node_op nd of Send _ \<Rightarrow> True | Receive _ _ \<Rightarrow> True | _ \<Rightarrow> False) Internal) (fn_nodes f))"

section \<open>Token connectivity and procs\<close>

definition maybe_add_to_worklist :: "nat \<Rightarrow> nat list \<times> nat set \<Rightarrow> nat list \<times> nat set" where
  "maybe_add_to_worklist n st = (if n \<in> snd st then st else (fst st @ [n], insert n (snd st)))"

lemma maybe_add_fold:
  "set ns \<subseteq> A \<Longrightarrow> finite A \<Longrightarrow>
   card (A - snd (fold maybe_add_to_worklist ns st)) + length (fst (fold maybe_add_to_worklist ns st)) =
   card (A - snd st) + length (fst st)"
proof (induction ns arbitrary: st)
  case (Cons n ns)
  have "card (A - snd (maybe_add_to_worklist n st)) + length (fst (maybe_add_to_worklist n st)) = card (A - snd st) + length (fst st)"
  proof (cases "n \<in> snd st")
    case False
    then have "n \<in> A - snd st" using Cons.prems by simp
    then have "card (A - snd st) = Suc (card (A - snd st - {n}))" using Cons.prems(2) by (intro card.remove) auto
    moreover have "A - insert n (snd st) = A - snd st - {n}" by auto
    ultimately show ?thesis using False by (simp add: maybe_add_to_worklist_def)
  qed (simp add: maybe_add_to_worklist_def)
  then show ?case using Cons by simp
qed simp

text \<open>
  The two worklist loops of \<open>VerifyTokenConnectivity\<close> differ in the nodes \<open>next n\<close> they turn to after a node \<open>n\<close>.
  Dereferencing a node that does not exist is \<open>None\<close>.
\<close>

function token_closure :: "ir_function \<Rightarrow> (nat \<Rightarrow> nat list option) \<Rightarrow> nat list \<times> nat set \<Rightarrow> nat set \<Rightarrow> nat set option" where
  "token_closure f next ([], visited) reached = Some reached"
| "token_closure f next (n # worklist, visited) reached =
     (case next n of
        None \<Rightarrow> None
      | Some ns \<Rightarrow>
          if list_all (\<lambda>m. GetNode f m \<noteq> None) ns
          then token_closure f next (fold maybe_add_to_worklist ns (worklist, visited)) (insert n reached)
          else None)"
  by pat_completeness auto
termination
proof (relation "measure (\<lambda>(f, next, (worklist, visited), reached). card (node_ids f - visited) + length worklist)", goal_cases)
  case (2 f nxt n worklist visited reached ns)
  have "set ns \<subseteq> node_ids f" using 2(2) by (auto simp: list_all_iff GetNode_ids)
  then show ?case
    using maybe_add_fold[of ns "node_ids f" "(worklist, visited)"] by (simp add: node_ids_def case_prod_beta)
qed simp

definition token_users :: "ir_function \<Rightarrow> nat \<Rightarrow> nat list option" where
  "token_users f n = do { t \<leftarrow> GetType f n; Some (if TypeHasToken t then node_users f n else []) }"

definition token_operands :: "ir_function \<Rightarrow> nat \<Rightarrow> nat list option" where
  "token_operands f n = do {
     nd \<leftarrow> GetNode f n;
     types \<leftarrow> those (map (GetType f) (node_operands nd));
     Some [a. (a, t) \<leftarrow> zip (node_operands nd) types, TypeHasToken t]
   }"

definition VerifyTokenConnectivity :: "nat \<Rightarrow> nat \<Rightarrow> ir_function \<Rightarrow> unit statusor option" where
  "VerifyTokenConnectivity source_token sink_token f = do {
     connected_to_source \<leftarrow> token_closure f (token_users f) (maybe_add_to_worklist source_token ([], {})) {};
     connected_to_sink \<leftarrow> token_closure f (token_operands f) (maybe_add_to_worklist sink_token ([], {})) {};
     seq_ok (
       map (\<lambda>(n, nd).
         if TypeHasToken (node_type nd) \<and> OpIsSideEffecting (node_op nd)
         then seq_ok [error_if (n \<notin> connected_to_source) Internal, error_if (n \<notin> connected_to_sink) Internal]
         else returnS ()) (fn_nodes f) @
       [error_if (sink_token \<notin> connected_to_source) Internal])
   }"

record ir_proc =
  proc_base :: ir_function
  InitValues :: "xvalue list"
  NextToken :: nat
  NextState :: "nat list"

text \<open>
  The message of the test of the token parameter names \<open>proc->param(1)\<close>, which does not exist when the proc has no state:
  the failing test aborts there.
\<close>

definition VerifyProc :: "ir_package \<Rightarrow> channel list \<Rightarrow> ir_proc \<Rightarrow> unit statusor option" where
  "VerifyProc pkg channels p = (let f = proc_base p; state_params = tl (fn_params f) in
     bindS (VerifyFunctionBase pkg channels f) (\<lambda>_.
     bindS (RET_CHECK (length (fn_params f) = length state_params + 1)) (\<lambda>_. do {
       token_type \<leftarrow> param_type f 0;
       bindS (if token_type = TokenType then returnS () else param_type f 1 \<bind> (\<lambda>_. errorS Internal)) (\<lambda>_.
       bindS (seq_ok [RET_CHECK (length state_params = length (InitValues p)), RET_CHECK (length state_params = length (NextState p))]) (\<lambda>_.
       bindS (seq_ok (map (\<lambda>i. do {
           state_type \<leftarrow> param_type f (i + 1);
           next_type \<leftarrow> GetType f (NextState p ! i);
           bindS (RET_CHECK (state_type = next_type)) (\<lambda>_. ValueConformsToType (InitValues p ! i) state_type \<bind> RET_CHECK)
         }) [0..<length state_params])) (\<lambda>_. do {
         next_token_type \<leftarrow> GetType f (NextToken p);
         bindS (RET_CHECK (Type_IsToken next_token_type)) (\<lambda>_.
           VerifyTokenConnectivity (hd (fn_params f)) (NextToken p) f)
       })))
     })))"

section \<open>What the expectations establish\<close>

named_theorems expect_iff

declare bindS_eq_returnS [expect_iff]

lemma Some_eq_returnS [expect_iff]: "Some s = returnS x \<longleftrightarrow> s = Inr x"
  by (simp add: returnS_def)

lemma bind_returnS_iff: "m \<bind> g = returnS y \<longleftrightarrow> (\<exists>x. m = Some x \<and> g x = returnS y)"
  by (cases m) auto

lemma Type_As_iff [expect_iff]:
  "Type_AsBitsOrDie t = Some w \<longleftrightarrow> t = BitsType w"
  "Type_AsArrayOrDie t = Some a \<longleftrightarrow> t = ArrayType (fst a) (snd a)"
  "Type_AsTupleOrDie t = Some ts \<longleftrightarrow> t = TupleType ts"
  "Type_IsBits t \<longleftrightarrow> (\<exists>w. t = BitsType w)"
  "Type_IsArray t \<longleftrightarrow> (\<exists>k e. t = ArrayType k e)"
  "Type_IsTuple t \<longleftrightarrow> (\<exists>ts. t = TupleType ts)"
  "Type_IsToken t \<longleftrightarrow> t = TokenType"
  by (cases t; cases a; auto simp: Type_AsBitsOrDie_def Type_AsArrayOrDie_def Type_AsTupleOrDie_def)+

lemma ExpectOperandCount_iff [expect_iff]:
  "ExpectOperandCount nd k = returnS u \<longleftrightarrow> length (node_operands nd) = k"
  "ExpectOperandCountRange nd lo hi = returnS u \<longleftrightarrow> lo \<le> length (node_operands nd) \<and> length (node_operands nd) \<le> hi"
  "ExpectOperandCountGt nd k = returnS u \<longleftrightarrow> k < length (node_operands nd)"
  by (auto simp: ExpectOperandCount_def ExpectOperandCountRange_def ExpectOperandCountGt_def)

lemma ExpectSameType_iff [expect_iff]: "ExpectSameType t t' = returnS u \<longleftrightarrow> t = t'" "ExpectHasType t t' = returnS u \<longleftrightarrow> t = t'"
  by (simp_all add: ExpectSameType_def ExpectHasType_def)

lemma ExpectOperandHasType_iff [expect_iff]: "ExpectOperandHasType f nd i t = returnS u \<longleftrightarrow> operand_type f nd i = Some t"
  by (auto simp: ExpectOperandHasType_def bind_returnS_iff)

lemma ExpectToken_iff [expect_iff]:
  "ExpectDoesNotContainToken nd = returnS u \<longleftrightarrow> \<not> TypeHasToken (node_type nd)"
  "ExpectHasTokenType nd = returnS u \<longleftrightarrow> node_type nd = TokenType"
  "ExpectOperandHasTokenType f nd i = returnS u \<longleftrightarrow> operand_type f nd i = Some TokenType"
  by (auto simp: ExpectDoesNotContainToken_def ExpectHasTokenType_def ExpectOperandHasTokenType_def bind_returnS_iff Type_As_iff)

lemma ExpectHasArrayType_iff [expect_iff]:
  "ExpectHasArrayType t e s = returnS u \<longleftrightarrow>
   (\<exists>k d. t = ArrayType k d \<and> (e = None \<or> e = Some d) \<and> (s < 0 \<or> int k = s))"
  by (auto simp: ExpectHasArrayType_def bind_returnS_iff Type_As_iff split: if_splits)

lemma ExpectOperandHasArrayType_iff [expect_iff]:
  "ExpectOperandHasArrayType f nd i e s = returnS u \<longleftrightarrow>
   (\<exists>k d. operand_type f nd i = Some (ArrayType k d) \<and> (e = None \<or> e = Some d) \<and> (s < 0 \<or> int k = s))"
  by (cases "operand_type f nd i"; auto simp: ExpectOperandHasArrayType_def bind_returnS_iff Type_As_iff split: if_splits)

lemma ExpectHasTupleType_iff [expect_iff]:
  "ExpectHasTupleType t = returnS u \<longleftrightarrow> (\<exists>ts. t = TupleType ts)"
  "ExpectHasEmptyTupleType t = returnS u \<longleftrightarrow> t = TupleType []"
  by (auto simp: ExpectHasTupleType_def ExpectHasEmptyTupleType_def bind_returnS_iff Type_As_iff split: if_splits)

lemma ExpectHasBitsType_iff [expect_iff]:
  "ExpectHasBitsType t k = returnS u \<longleftrightarrow> (\<exists>w. t = BitsType w \<and> (k = -1 \<or> int w = k))"
  by (auto simp: ExpectHasBitsType_def bind_returnS_iff Type_As_iff split: if_splits)

lemma ExpectOperandHasBitsType_iff [expect_iff]:
  "ExpectOperandHasBitsType f nd i k = returnS u \<longleftrightarrow> (\<exists>w. operand_type f nd i = Some (BitsType w) \<and> (k = -1 \<or> int w = k))"
  by (cases "operand_type f nd i"; auto simp: ExpectOperandHasBitsType_def bind_returnS_iff Type_As_iff split: if_splits)

lemma ExpectAllSameType_iff [expect_iff]:
  "ExpectAllSameType f nd = returnS u \<longleftrightarrow> (\<forall>i<length (node_operands nd). operand_type f nd i = Some (node_type nd))"
  by (auto simp: ExpectAllSameType_def expect_iff)

lemma ExpectAllSameBitsType_iff [expect_iff]:
  "ExpectAllSameBitsType f nd = returnS u \<longleftrightarrow>
   (\<exists>w. node_type nd = BitsType w \<and> (\<forall>i<length (node_operands nd). operand_type f nd i = Some (BitsType w)))"
  by (auto simp: ExpectAllSameBitsType_def expect_iff)

lemma ExpectOperandsSameBitsType_iff [expect_iff]:
  "ExpectOperandsSameBitsType f nd = returnS u \<longleftrightarrow>
   (node_operands nd = [] \<or> (\<exists>t. \<forall>i<length (node_operands nd). operand_type f nd i = Some t))"
proof (cases "node_operands nd")
  case (Cons a as)
  have all: "(\<forall>i<length (node_operands nd). p i) \<longleftrightarrow> p 0 \<and> (\<forall>i\<in>{1..<length (node_operands nd)}. p i)" for p :: "nat \<Rightarrow> bool"
  proof -
    have "{..<length (node_operands nd)} = insert 0 {1..<length (node_operands nd)}" using Cons by auto
    then have "(\<forall>i\<in>{..<length (node_operands nd)}. p i) \<longleftrightarrow> (\<forall>i\<in>insert 0 {1..<length (node_operands nd)}. p i)" by (rule arg_cong)
    then show ?thesis unfolding lessThan_iff[symmetric] Ball_def by blast
  qed
  have "operand_type f nd 0 = Some t \<Longrightarrow> ?thesis" for t
    using Cons unfolding all by (auto simp: ExpectOperandsSameBitsType_def expect_iff)
  then show ?thesis using Cons unfolding all
    by (cases "operand_type f nd 0") (auto simp: ExpectOperandsSameBitsType_def)
qed (simp add: ExpectOperandsSameBitsType_def)

lemma types_match_iff [expect_iff]: "types_match t t' = returnS u \<longleftrightarrow> (\<exists>x. t = Some x \<and> t' = Some x)"
  by (auto simp: types_match_def bind_returnS_iff)

lemma VerifyMultidimensionalArrayIndex_iff [expect_iff]:
  "VerifyMultidimensionalArrayIndex f indices t = returnS u \<longleftrightarrow>
   (\<forall>a\<in>set indices. \<exists>w. GetType f a = Some (BitsType w)) \<and> length indices \<le> GetArrayDimensionCount t"
  by (fastforce simp: VerifyMultidimensionalArrayIndex_def bind_returnS_iff Type_As_iff)

section \<open>Token connectivity is reachability\<close>

text \<open>\<open>token_flow f\<close> has an edge from each node whose type holds a token to each of its users.\<close>

definition token_flow :: "ir_function \<Rightarrow> (nat \<times> nat) set" where
  "token_flow f = {(a, b). \<exists>t nd. GetType f a = Some t \<and> TypeHasToken t \<and> GetNode f b = Some nd \<and> a \<in> set (node_operands nd)}"

lemma maybe_add_fold_sets:
  "snd (fold maybe_add_to_worklist ns st) = snd st \<union> set ns"
  "set (fst st) \<subseteq> snd st \<Longrightarrow> set (fst (fold maybe_add_to_worklist ns st)) = set (fst st) \<union> (set ns - snd st)"
proof -
  show "snd (fold maybe_add_to_worklist ns st) = snd st \<union> set ns"
    by (induction ns arbitrary: st) (auto simp: maybe_add_to_worklist_def)
  show "set (fst st) \<subseteq> snd st \<Longrightarrow> set (fst (fold maybe_add_to_worklist ns st)) = set (fst st) \<union> (set ns - snd st)"
  proof (induction ns arbitrary: st)
    case (Cons n ns)
    have "set (fst (maybe_add_to_worklist n st)) \<subseteq> snd (maybe_add_to_worklist n st)"
      using Cons.prems by (auto simp: maybe_add_to_worklist_def)
    from Cons.IH[OF this] show ?case by (auto simp: maybe_add_to_worklist_def)
  qed simp
qed

lemma token_closure_reach:
  assumes nxt: "\<And>n. n \<in> node_ids f \<Longrightarrow> \<exists>ns. nxt n = Some ns \<and> set ns = R `` {n}" and R: "R \<subseteq> node_ids f \<times> node_ids f"
  shows "g = f \<Longrightarrow> h = nxt \<Longrightarrow> set (fst st) \<subseteq> snd st \<Longrightarrow> snd st = reached \<union> set (fst st) \<Longrightarrow> snd st \<subseteq> node_ids f \<Longrightarrow>
    R `` reached \<subseteq> snd st \<Longrightarrow> token_closure g h st reached = Some (R\<^sup>* `` snd st)"
proof (induction g h st reached rule: token_closure.induct)
  case (1 g h visited reached)
  then have "R\<^sup>* `` reached = reached" by (intro Image_closed_trancl) simp
  then show ?case using 1 by simp
next
  case (2 g h n worklist visited reached)
  obtain ns where ns: "nxt n = Some ns" "set ns = R `` {n}" using nxt[of n] "2.prems" by auto
  then have sub: "set ns \<subseteq> node_ids f" using R by auto
  then have all: "list_all (\<lambda>m. \<exists>nd. GetNode f m = Some nd) ns" by (auto simp: list_all_iff GetNode_ids[symmetric])
  let ?st = "fold maybe_add_to_worklist ns (worklist, visited)"
  have st: "snd ?st = visited \<union> set ns" "set (fst ?st) = set worklist \<union> (set ns - visited)"
    using "2.prems" maybe_add_fold_sets[where st = "(worklist, visited)" and ns = ns] by auto
  have "token_closure g h ?st (insert n reached) = Some (R\<^sup>* `` snd ?st)"
  proof (rule "2.IH")
    show "h n = Some ns" using "2.prems" ns by simp
    show "list_all (\<lambda>m. GetNode g m \<noteq> None) ns" using all "2.prems" by simp
    show "set (fst ?st) \<subseteq> snd ?st" using st "2.prems" by auto
    show "snd ?st = insert n reached \<union> set (fst ?st)" using st "2.prems" by auto
    show "snd ?st \<subseteq> node_ids f" using st "2.prems" sub by auto
    have "R `` reached \<subseteq> visited" using "2.prems"(6) by simp
    then show "R `` insert n reached \<subseteq> snd ?st" unfolding st(1) ns(2) by blast
  qed (use "2.prems" in auto)
  moreover have "n \<in> visited" using "2.prems" by auto
  then have "set ns \<subseteq> R\<^sup>* `` visited" using ns(2) by blast
  then have "R\<^sup>* `` set ns \<subseteq> R\<^sup>* `` visited" by (blast intro: rtrancl_trans)
  then have "R\<^sup>* `` snd ?st = R\<^sup>* `` visited" unfolding st(1) Image_Un by blast
  ultimately show ?case using "2.prems"(1,2) ns all by simp
qed

lemma token_users_flow: "well_linked f \<Longrightarrow> n \<in> node_ids f \<Longrightarrow> \<exists>ns. token_users f n = Some ns \<and> set ns = token_flow f `` {n}"
  by (auto simp: token_users_def GetNode_ids GetType_def token_flow_def set_node_users)

lemma token_operands_flow:
  assumes "well_linked f" and "n \<in> node_ids f"
  shows "\<exists>ns. token_operands f n = Some ns \<and> set ns = (token_flow f)\<inverse> `` {n}"
proof -
  obtain nd where nd: "GetNode f n = Some nd" using assms(2) GetNode_ids by blast
  have "\<forall>a\<in>set (node_operands nd). \<exists>x. GetType f a = Some x"
    using assms(1) GetNode_in[OF nd] unfolding well_linked_def GetType_def by (auto simp: GetNode_ids[symmetric])
  then obtain ty where ty: "\<And>a. a \<in> set (node_operands nd) \<Longrightarrow> GetType f a = Some (ty a)" by metis
  then have "those (map (GetType f) (node_operands nd)) = Some (map ty (node_operands nd))" by (rule those_map_cong)
  moreover have "set [a. (a, t) \<leftarrow> zip as (map ty as), TypeHasToken t] = {a \<in> set as. TypeHasToken (ty a)}" for as
    by (induction as) auto
  ultimately show ?thesis using nd ty by (auto simp: token_operands_def token_flow_def)
qed

lemma token_flow_ids: "well_linked f \<Longrightarrow> token_flow f \<subseteq> node_ids f \<times> node_ids f"
  by (auto simp: token_flow_def GetNode_ids GetType_def)

lemma VerifyTokenConnectivity_flow:
  assumes "well_linked f" and "source_token \<in> node_ids f" and "sink_token \<in> node_ids f"
  shows "VerifyTokenConnectivity source_token sink_token f =
    (if (source_token, sink_token) \<in> (token_flow f)\<^sup>* \<and>
        (\<forall>(n, nd)\<in>set (fn_nodes f). TypeHasToken (node_type nd) \<and> OpIsSideEffecting (node_op nd) \<longrightarrow>
           (source_token, n) \<in> (token_flow f)\<^sup>* \<and> (n, sink_token) \<in> (token_flow f)\<^sup>*)
     then returnS () else errorS Internal)"
proof -
  let ?R = "token_flow f"
  have source: "token_closure f (token_users f) (maybe_add_to_worklist source_token ([], {})) {} = Some (?R\<^sup>* `` {source_token})"
    using token_closure_reach[where st = "([source_token], {source_token})" and reached = "{}",
        OF token_users_flow[OF assms(1)] token_flow_ids[OF assms(1)] refl refl] assms(2)
    by (simp add: maybe_add_to_worklist_def)
  have "?R\<inverse> \<subseteq> node_ids f \<times> node_ids f" using token_flow_ids[OF assms(1)] by auto
  then have sink: "token_closure f (token_operands f) (maybe_add_to_worklist sink_token ([], {})) {} = Some ((?R\<inverse>)\<^sup>* `` {sink_token})"
    using token_closure_reach[where st = "([sink_token], {sink_token})" and reached = "{}",
        OF token_operands_flow[OF assms(1)] _ refl refl] assms(3)
    by (simp add: maybe_add_to_worklist_def)
  have err: "c = returnS () \<or> c = errorS Internal"
    if "c \<in> set (map (\<lambda>(n, nd).
         if TypeHasToken (node_type nd) \<and> OpIsSideEffecting (node_op nd)
         then seq_ok [error_if (n \<notin> ?R\<^sup>* `` {source_token}) Internal, error_if (n \<notin> (?R\<inverse>)\<^sup>* `` {sink_token}) Internal]
         else returnS ()) (fn_nodes f) @ [error_if (sink_token \<notin> ?R\<^sup>* `` {source_token}) Internal])" for c
    using that by (auto simp: error_if_def seq_ok.simps split: if_splits)
  have seq: "seq_ok cs = (if \<forall>c\<in>set cs. c = returnS () then returnS () else errorS Internal)"
    if "\<forall>c\<in>set cs. c = returnS () \<or> c = errorS Internal" for cs
    using that by (induction cs) (auto simp: seq_ok.simps)
  show ?thesis unfolding VerifyTokenConnectivity_def source sink
    by (subst Option.bind.bind_lunit, subst Option.bind.bind_lunit, subst seq, use err in blast)
      (auto simp: rtrancl_converse error_if_def split: if_splits intro!: bexI[rotated])
qed

section \<open>Property\<close>

text \<open>C11: \<open>VerifyTokenConnectivity\<close> decides reachability along the flow of tokens. On a function whose operands resolve it
  returns without an abort, and it accepts exactly when the sink is reachable from the source and every side-effecting
  node with a token in its type lies on the way from the source to the sink; otherwise it returns an internal error.\<close>

theorem token_connectivity_exact:
  assumes "well_linked f" and "source_token \<in> node_ids f" and "sink_token \<in> node_ids f"
  shows "VerifyTokenConnectivity source_token sink_token f =
    (if (source_token, sink_token) \<in> (token_flow f)\<^sup>* \<and>
        (\<forall>(n, nd)\<in>set (fn_nodes f). TypeHasToken (node_type nd) \<and> OpIsSideEffecting (node_op nd) \<longrightarrow>
           (source_token, n) \<in> (token_flow f)\<^sup>* \<and> (n, sink_token) \<in> (token_flow f)\<^sup>*)
     then returnS () else errorS Internal)"
  using VerifyTokenConnectivity_flow[OF assms] .

definition token_graph :: ir_function where
  "token_graph = \<lparr>fn_nodes =
     [(0, \<lparr>node_op = Param, node_operands = [], node_type = TokenType, node_id = 1, node_name = ''tkn''\<rparr>),
      (1, \<lparr>node_op = Param, node_operands = [], node_type = BitsType 1, node_id = 2, node_name = ''x''\<rparr>),
      (2, \<lparr>node_op = Assert ''x is set'' None, node_operands = [0, 1], node_type = TokenType, node_id = 3, node_name = []\<rparr>)],
     fn_params = [0, 1], fn_return = 2\<rparr>"

lemma token_flow_graph: "token_flow token_graph = {(0, 2)}"
  by (auto simp: token_flow_def GetType_def GetNode_def token_graph_def split: if_splits)

theorem token_connectivity_exact_witness:
  "VerifyTokenConnectivity 0 2 token_graph = returnS () \<and> VerifyTokenConnectivity 0 0 token_graph = errorS Internal"
proof -
  have wl: "well_linked token_graph" "0 \<in> node_ids token_graph" "2 \<in> node_ids token_graph"
    by (simp_all add: well_linked_def node_ids_def token_graph_def)
  have "(2, 0) \<notin> {(0 :: nat, 2 :: nat)}\<^sup>*" by (auto elim: converse_rtranclE)
  then show ?thesis
    using token_connectivity_exact[OF wl(1,2,3)] token_connectivity_exact[OF wl(1,2,2)]
    unfolding token_flow_graph by (auto simp: token_graph_def OpIsSideEffecting_def)
qed

end
