(* ===== verification/Xls_Soundness.thy ===== *)
theory Xls_Soundness
  imports Xls_Interpreter Xls_Verifier
begin

text \<open>
  The verifier and the interpreter together: a function that \<open>VerifyFunction\<close> accepts is interpreted without an abort and
  without an error, and its result has the type of the return value.

  The verifier does not check everything the interpreter relies on. What it leaves open is the predicate \<open>interpretable\<close>
  of a node; each of its conjuncts is a case the verifier accepts and the interpreter rejects or aborts on.
\<close>

section \<open>Typed states\<close>

text \<open>The nodes in \<open>V\<close> have values of their types, the others have none.\<close>

definition typed_state :: "ir_function \<Rightarrow> nat set \<Rightarrow> interp \<Rightarrow> bool" where
  "typed_state f V st \<longleftrightarrow> (\<forall>n. n \<notin> V \<longrightarrow> node_values st n = None) \<and>
     (\<forall>n\<in>V. \<exists>v t. node_values st n = Some v \<and> GetType f n = Some t \<and> has_type v t)"

definition ready :: "ir_function \<Rightarrow> nat set \<Rightarrow> nat \<Rightarrow> ir_node \<Rightarrow> interp \<Rightarrow> bool" where
  "ready f V n nd st \<longleftrightarrow> typed_state f V st \<and> n \<notin> V \<and> GetNode f n = Some nd"

definition steps_to :: "ir_function \<Rightarrow> nat set \<Rightarrow> interp statusor option \<Rightarrow> bool" where
  "steps_to f V r \<longleftrightarrow> (\<exists>st. r = returnS st \<and> typed_state f V st)"

lemma set_value:
  assumes "ready f V n nd st" and "has_type v (node_type nd)" and "node_values st' = node_values st"
  shows "steps_to f (insert n V) (SetValueResult n nd v st')"
proof -
  have none: "node_values st' n = None" using assms by (simp add: ready_def typed_state_def)
  then have "SetValueResult n nd v st' = returnS (st'\<lparr>node_values := (node_values st')(n \<mapsto> v)\<rparr>)"
    by (simp add: SetValueResult_def ValueConformsToType_typed[OF assms(2)])
  then show ?thesis using assms by (auto simp: steps_to_def ready_def typed_state_def GetType_def)
qed

lemma set_bits:
  assumes "ready f V n nd st" and "node_type nd = BitsType (length bs)" and "rep b bs" and "node_values st' = node_values st"
  shows "steps_to f (insert n V) (SetBitsResult n nd b st')"
proof -
  have "has_type (VBits b) (node_type nd)" using assms(2,3) by (simp add: rep_count rep_def)
  from set_value[OF assms(1) this assms(4)] show ?thesis
    using assms(2,3) by (simp add: SetBitsResult_def BitCountOrDie_def Type_AsBitsOrDie_def rep_count)
qed

lemma set_bool:
  assumes "ready f V n nd st" and "node_type nd = BitsType 1" and "k = 0 \<or> k = 1"
  shows "steps_to f (insert n V) (SetUint64Result n nd k st)"
proof -
  have "unat k < 2 ^ 1" using assms(3) by auto
  from returns_UBits[OF this] obtain b where b: "UBits k 1 = Some b" "rep b (nat_bl 1 (unat k))" by (auto simp: returns_def)
  then have "has_type (VBits b) (node_type nd)" using assms(2) by (simp add: rep_count rep_def)
  from set_value[OF assms(1) this refl] show ?thesis
    using assms(2) b \<open>unat k < 2 ^ 1\<close> MinBitCountUnsigned_le_iff[of k 1]
    by (simp add: SetUint64Result_def BitCountOrDie_def Type_AsBitsOrDie_def not_less)
qed

lemma operand_valued:
  assumes "typed_state f V st" and "operand_type f nd i = Some t" and "operand nd i = Some a" and "a \<in> V"
  shows "\<exists>v. operand_value st nd i = Some v \<and> has_type v t"
  using assms by (auto simp: typed_state_def operand_type_def operand_value_def ResolveAsValue_def)

text \<open>A node whose operands all have values.\<close>

definition fed :: "ir_function \<Rightarrow> nat set \<Rightarrow> nat \<Rightarrow> ir_node \<Rightarrow> interp \<Rightarrow> bool" where
  "fed f V n nd st \<longleftrightarrow> ready f V n nd st \<and> set (node_operands nd) \<subseteq> V"

lemma fed_ready: "fed f V n nd st \<Longrightarrow> ready f V n nd st"
  by (simp add: fed_def)

lemma operand_SomeD: "operand nd i = Some a \<Longrightarrow> i < length (node_operands nd) \<and> a = node_operands nd ! i \<and> a \<in> set (node_operands nd)"
  by (auto simp: operand_def at_opt_def split: if_splits)

lemma fed_value:
  assumes "fed f V n nd st" and "operand_type f nd i = Some t"
  shows "\<exists>v. operand_value st nd i = Some v \<and> has_type v t"
proof -
  obtain a where a: "operand nd i = Some a" using assms(2) by (auto simp: operand_type_def split: Option.bind_splits)
  then have "a \<in> V" using assms(1) operand_SomeD[OF a] by (auto simp: fed_def)
  moreover have "typed_state f V st" using assms(1) by (simp add: fed_def ready_def)
  ultimately show ?thesis using operand_valued[OF _ assms(2) a] by blast
qed

lemma bits_rep_of: "has_type v (BitsType w) \<Longrightarrow> \<exists>b bs. v = VBits b \<and> rep b bs \<and> length bs = w"
  by (auto simp: rep_def bits_of_def)

lemma fed_bits:
  assumes "fed f V n nd st" and "operand_type f nd i = Some (BitsType w)"
  shows "\<exists>b bs. operand_bits st nd i = Some b \<and> operand_value st nd i = Some (VBits b) \<and> rep b bs \<and> length bs = w"
proof -
  obtain v where v: "operand_value st nd i = Some v" "has_type v (BitsType w)" using fed_value[OF assms] by blast
  obtain b bs where b: "v = VBits b" "rep b bs" "length bs = w" using bits_rep_of[OF v(2)] by blast
  have "operand_bits st nd i = operand_value st nd i \<bind> Value_bits"
    by (cases "operand nd i") (simp_all add: operand_bits_def operand_value_def ResolveAsBits_def ResolveAsValue_def)
  then show ?thesis using v b by (auto simp: Value_bits_def)
qed

section \<open>Bits handlers\<close>

lemma unary_steps:
  assumes "fed f V n nd st" and "operand_type f nd 0 = Some (BitsType u)" and "node_type nd = BitsType w"
    and "\<And>a as. rep a as \<Longrightarrow> length as = u \<Longrightarrow> \<exists>rs. returns (g a) rs \<and> length rs = w"
  shows "steps_to f (insert n V) (bits_unary g n nd st)"
proof -
  obtain a as where a: "operand_bits st nd 0 = Some a" "rep a as" "length as = u" using fed_bits[OF assms(1,2)] by blast
  obtain rs r where r: "g a = Some r" "rep r rs" "length rs = w" using assms(4)[OF a(2,3)] by (auto simp: returns_def)
  then have "steps_to f (insert n V) (SetBitsResult n nd r st)"
    using set_bits[OF fed_ready[OF assms(1)], of rs r st] assms(3) by simp
  then show ?thesis using a r by (simp add: bits_unary_def)
qed

lemma binary_steps:
  assumes "fed f V n nd st" and "operand_type f nd 0 = Some (BitsType u)" and "operand_type f nd 1 = Some (BitsType v)"
    and "node_type nd = BitsType w"
    and "\<And>a as b bs. rep a as \<Longrightarrow> length as = u \<Longrightarrow> rep b bs \<Longrightarrow> length bs = v \<Longrightarrow> \<exists>rs. returns (g a b) rs \<and> length rs = w"
  shows "steps_to f (insert n V) (bits_binary g n nd st)"
proof -
  obtain a as where a: "operand_bits st nd 0 = Some a" "rep a as" "length as = u" using fed_bits[OF assms(1,2)] by blast
  obtain b bs where b: "operand_bits st nd 1 = Some b" "rep b bs" "length bs = v" using fed_bits[OF assms(1,3)] by blast
  obtain rs r where r: "g a b = Some r" "rep r rs" "length rs = w" using assms(5)[OF a(2,3) b(2,3)] by (auto simp: returns_def)
  then have "steps_to f (insert n V) (SetBitsResult n nd r st)"
    using set_bits[OF fed_ready[OF assms(1)], of rs r st] assms(4) by simp
  then show ?thesis using a b r by (simp add: bits_binary_def)
qed

lemma compare_steps:
  assumes "fed f V n nd st" and "operand_type f nd 0 = Some (BitsType u)" and "operand_type f nd 1 = Some (BitsType v)"
    and "node_type nd = BitsType 1"
    and "\<And>a as b bs. rep a as \<Longrightarrow> length as = u \<Longrightarrow> rep b bs \<Longrightarrow> length bs = v \<Longrightarrow> \<exists>r. g a b = Some r"
  shows "steps_to f (insert n V) (bits_compare g n nd st)"
proof -
  obtain a as where a: "operand_bits st nd 0 = Some a" "rep a as" "length as = u" using fed_bits[OF assms(1,2)] by blast
  obtain b bs where b: "operand_bits st nd 1 = Some b" "rep b bs" "length bs = v" using fed_bits[OF assms(1,3)] by blast
  obtain r where "g a b = Some r" using assms(5)[OF a(2,3) b(2,3)] by blast
  then show ?thesis using a b set_bool[OF fed_ready[OF assms(1)] assms(4), of "if r then 1 else 0"] by (simp add: bits_compare_def)
qed

lemma BitsToBoundedUint64_ok:
  assumes "rep b bs"
  shows "BitsToBoundedUint64 b limit = Some (of_nat (min (unum bs) (unat limit)))"
proof -
  have len: "unum bs < 2 ^ length bs" by (rule unum_bound)
  have lim: "unat limit < 2 ^ 64" using unsigned_less[of limit] by simp
  show ?thesis
  proof (cases "unat limit < 2 ^ length bs")
    case True
    then obtain l where l: "UBits limit (length bs) = Some l" "rep l (nat_bl (length bs) (unat limit))"
      using returns_UBits[OF True] by (auto simp: returns_def)
    then have gt: "bits_UGreaterThan b l \<longleftrightarrow> unat limit < unum bs"
      using UGreaterThan_iff[OF assms l(2)] True by (simp add: unum_nat_bl)
    then show ?thesis using True l assms lim MinBitCountUnsigned_le_iff[of limit "length bs"]
      by (auto simp: BitsToBoundedUint64_def rep_count rep_ToUint64 min_def)
  next
    case False
    then have "unum bs \<le> unat limit" "unum bs < 2 ^ 64" using len lim by linarith+
    then show ?thesis using False assms MinBitCountUnsigned_le_iff[of limit "length bs"]
      by (auto simp: BitsToBoundedUint64_def rep_count rep_ToUint64 min_def)
  qed
qed

lemma shift_steps:
  assumes "fed f V n nd st" and "operand_type f nd 0 = Some (BitsType w)" and "operand_type f nd 1 = Some (BitsType v)"
    and "node_type nd = BitsType w" and "\<And>a as k. rep a as \<Longrightarrow> length as = w \<Longrightarrow> \<exists>rs. returns (g a k) rs \<and> length rs = w"
  shows "steps_to f (insert n V) (bits_shift g n nd st)"
proof -
  obtain a as where a: "operand_bits st nd 0 = Some a" "rep a as" "length as = w" using fed_bits[OF assms(1,2)] by blast
  obtain b bs where b: "operand_bits st nd 1 = Some b" "rep b bs" "length bs = v" using fed_bits[OF assms(1,3)] by blast
  obtain c where c: "operand nd 1 = Some c" "ResolveAsBits st c = Some b"
    using b(1) by (auto simp: operand_bits_def split: Option.bind_splits)
  let ?k = "of_nat (min (unum bs) (unat (of_nat (bm_count a) :: uint64))) :: uint64"
  obtain rs r where r: "g a (unat ?k) = Some r" "rep r rs" "length rs = w"
    using assms(5)[OF a(2,3), of "unat ?k"] by (auto simp: returns_def)
  then have "steps_to f (insert n V) (SetBitsResult n nd r st)"
    using set_bits[OF fed_ready[OF assms(1)], of rs r st] assms(4) by simp
  then show ?thesis using a c r by (simp add: bits_shift_def ResolveAsBoundedUint64_def BitsToBoundedUint64_ok[OF b(2)])
qed

lemma returns_length: "returns m bs \<Longrightarrow> length bs = w \<Longrightarrow> \<exists>rs. returns m rs \<and> length rs = w"
  by blast

lemma arith_steps:
  assumes "fed f V n nd st" and "length (node_operands nd) = 2"
    and "node_type nd = BitsType w" and "\<forall>i<length (node_operands nd). operand_type f nd i = Some (BitsType w)"
    and "\<And>a as b bs. rep a as \<Longrightarrow> rep b bs \<Longrightarrow> length as = w \<Longrightarrow> length bs = w \<Longrightarrow> \<exists>rs. returns (g a b) rs \<and> length rs = w"
  shows "steps_to f (insert n V) (bits_binary g n nd st)"
  using assms by (intro binary_steps[OF assms(1)]) auto

lemma BinOp_steps:
  assumes B: "bignum B num" and fed: "fed f V n nd st" and ok: "NodeChecker_BinOp op f nd = returnS ()"
  shows "steps_to f (insert n V) (HandleBinOp B op n nd st)"
proof -
  consider (shift) "op \<in> {Op_Shll, Op_Shra, Op_Shrl}" | (arith) "op \<notin> {Op_Shll, Op_Shra, Op_Shrl}" by blast
  then show ?thesis
  proof cases
    case shift
    then have "NodeChecker_HandleShiftOp f nd = returnS ()"
      using ok by (auto simp: NodeChecker_BinOp_def NodeChecker_HandleShll_def NodeChecker_HandleShra_def NodeChecker_HandleShrl_def)
    then obtain w v where ty: "node_type nd = BitsType w" "operand_type f nd 0 = Some (BitsType w)" "operand_type f nd 1 = Some (BitsType v)"
      by (auto simp: NodeChecker_HandleShiftOp_def expect_iff bind_returnS_iff)
    note step = shift_steps[OF fed ty(2,3,1)]
    have "steps_to f (insert n V) (HandleShll n nd st)" unfolding HandleShll_def
      by (rule step) (metis returns_ShiftLeftLogical length_nat_bl)
    moreover have "steps_to f (insert n V) (HandleShrl n nd st)" unfolding HandleShrl_def
      by (rule step) (metis returns_ShiftRightLogical length_nat_bl)
    moreover have "steps_to f (insert n V) (HandleShra n nd st)" unfolding HandleShra_def
      by (rule step) (metis returns_ShiftRightArith length_int_bl)
    ultimately show ?thesis using shift by (auto simp: HandleBinOp_def)
  next
    case arith
    then have "seq_ok [ExpectOperandCount nd 2, ExpectAllSameBitsType f nd] = returnS ()"
      using ok by (cases op) (auto simp: NodeChecker_BinOp_def NodeChecker_HandleAdd_def NodeChecker_HandleSub_def
          NodeChecker_HandleUDiv_def NodeChecker_HandleSDiv_def NodeChecker_HandleUMod_def NodeChecker_HandleSMod_def)
    then obtain w where ty: "length (node_operands nd) = 2" "node_type nd = BitsType w"
        "\<forall>i<length (node_operands nd). operand_type f nd i = Some (BitsType w)" by (auto simp: expect_iff)
    note step = arith_steps[OF fed ty]
    have "steps_to f (insert n V) (HandleAdd B n nd st)" unfolding HandleAdd_def
      by (rule step) (metis bignum.returns_Add[OF B] length_nat_bl)
    moreover have "steps_to f (insert n V) (HandleSub B n nd st)" unfolding HandleSub_def
      by (rule step) (metis bignum.returns_Sub[OF B] length_int_bl)
    moreover have "steps_to f (insert n V) (HandleUDiv B n nd st)" unfolding HandleUDiv_def
      by (rule step, rule returns_length, erule (1) bignum.returns_UDiv[OF B]) simp
    moreover have "steps_to f (insert n V) (HandleSDiv B n nd st)" unfolding HandleSDiv_def
      by (rule step) (metis bignum.returns_SDiv[OF B] length_int_bl)
    moreover have "steps_to f (insert n V) (HandleUMod B n nd st)" unfolding HandleUMod_def
      by (rule step, rule returns_length, erule (1) bignum.returns_UMod[OF B]) simp
    moreover have "steps_to f (insert n V) (HandleSMod B n nd st)" unfolding HandleSMod_def
      by (rule step, rule returns_length, erule (1) bignum.returns_SMod[OF B]) simp
    ultimately show ?thesis using arith by (cases op) (simp_all add: HandleBinOp_def)
  qed
qed

lemma UnOp_steps:
  assumes B: "bignum B num" and fed: "fed f V n nd st" and ok: "NodeChecker_UnOp op f nd = returnS ()"
  shows "steps_to f (insert n V) (HandleUnOp B op n nd st)"
proof (cases "op = Op_Identity")
  case True
  then have ty: "operand_type f nd 0 = Some (node_type nd)"
    using ok by (auto simp: NodeChecker_UnOp_def NodeChecker_HandleIdentity_def expect_iff)
  obtain v where v: "operand_value st nd 0 = Some v" "has_type v (node_type nd)" using fed_value[OF fed ty] by blast
  then show ?thesis using True set_value[OF fed_ready[OF fed] v(2) refl] by (simp add: HandleUnOp_def HandleIdentity_def)
next
  case False
  then have "seq_ok [ExpectOperandCount nd 1, ExpectAllSameBitsType f nd] = returnS ()"
    using ok by (cases op) (auto simp: NodeChecker_UnOp_def NodeChecker_HandleNeg_def NodeChecker_HandleNot_def NodeChecker_HandleReverse_def)
  then obtain w where ty: "operand_type f nd 0 = Some (BitsType w)" "node_type nd = BitsType w" by (auto simp: expect_iff)
  note step = unary_steps[OF fed ty]
  have "steps_to f (insert n V) (HandleNeg B n nd st)" unfolding HandleNeg_def
    by (rule step) (metis bignum.returns_Negate[OF B] length_int_bl)
  moreover have "steps_to f (insert n V) (HandleNot n nd st)" unfolding HandleNot_def
    by (rule step) (metis returns_Not length_map)
  moreover have "steps_to f (insert n V) (HandleReverse n nd st)" unfolding HandleReverse_def
    by (rule step) (metis rep_Reverse length_rev returns_def)
  ultimately show ?thesis using False by (cases op) (simp_all add: HandleUnOp_def)
qed

lemma Reduction_steps:
  assumes fed: "fed f V n nd st" and ok: "NodeChecker_Reduction op f nd = returnS ()"
  shows "steps_to f (insert n V) (HandleReduction op n nd st)"
proof -
  have "seq_ok [ExpectOperandCount nd 1, ExpectOperandHasBitsType f nd 0 (-1), ExpectHasBitsType (node_type nd) 1] = returnS ()"
    using ok by (cases op) (auto simp: NodeChecker_Reduction_def NodeChecker_HandleAndReduce_def NodeChecker_HandleOrReduce_def
        NodeChecker_HandleXorReduce_def)
  then obtain w where ty: "operand_type f nd 0 = Some (BitsType w)" "node_type nd = BitsType 1" by (auto simp: expect_iff)
  note step = unary_steps[OF fed ty]
  have "steps_to f (insert n V) (HandleAndReduce n nd st)" unfolding HandleAndReduce_def
    by (rule step, rule returns_length, rule returns_AndReduce) auto
  moreover have "steps_to f (insert n V) (HandleOrReduce n nd st)" unfolding HandleOrReduce_def
    by (rule step, rule returns_length, rule returns_OrReduce) auto
  moreover have "steps_to f (insert n V) (HandleXorReduce n nd st)" unfolding HandleXorReduce_def
    by (rule step, rule returns_length, rule returns_XorReduce) auto
  ultimately show ?thesis by (cases op) (simp_all add: HandleReduction_def)
qed

lemma CompareOp_steps:
  assumes B: "bignum B num" and fed: "fed f V n nd st" and ok: "NodeChecker_CompareOp op f nd = returnS ()"
    and bits: "operand_type f nd 0 = Some (BitsType w)"
  shows "steps_to f (insert n V) (HandleCompareOp B f op n nd st)"
proof -
  have "seq_ok [ExpectOperandCount nd 2, ExpectOperandsSameBitsType f nd, ExpectHasBitsType (node_type nd) 1] = returnS ()"
    using ok by (cases op) (auto simp: NodeChecker_CompareOp_def NodeChecker_HandleEq_def NodeChecker_HandleNe_def
        NodeChecker_HandleSGe_def NodeChecker_HandleSGt_def NodeChecker_HandleSLe_def NodeChecker_HandleSLt_def
        NodeChecker_HandleUGe_def NodeChecker_HandleUGt_def NodeChecker_HandleULe_def NodeChecker_HandleULt_def)
  then have len: "length (node_operands nd) = 2" and ty: "operand_type f nd 1 = Some (BitsType w)" "node_type nd = BitsType 1"
    and all: "\<forall>i<length (node_operands nd). operand_type f nd i = Some (BitsType w)"
    using bits by (auto simp: expect_iff)
  note step = compare_steps[OF fed bits ty]
  have "map (GetType f) (node_operands nd) = map Some (replicate 2 (BitsType w))"
    using all len by (intro nth_equalityI) (auto simp: operand_type_def operand_def at_opt_def)
  then have types: "VerifyAllBitsTypes f nd = returnS ()"
    using ty by (simp add: VerifyAllBitsTypes_def those_eq_Some_iff numeral_2_eq_2)
  show ?thesis
    by (cases op; simp add: HandleCompareOp_def HandleEq_def HandleNe_def types HandleSGe_def HandleSGt_def HandleSLe_def
        HandleSLt_def HandleUGe_def HandleUGt_def HandleULe_def HandleULt_def; rule step)
      (auto simp: bits_SGreaterThanOrEqual_def bits_SGreaterThan_def bignum.SLessThan_iff[OF B] bignum.SLessThanOrEqual_iff[OF B])
qed

lemma typed_bits_vector:
  assumes "typed_state f V st" and "set as \<subseteq> V" and "list_all2 (\<lambda>a w. GetType f a = Some (BitsType w)) as ws"
  shows "\<exists>bs bss. ResolveAsBitsVector st as = Some bs \<and> list_all2 rep bs bss \<and> map length bss = ws"
  using assms(3,2)
proof (induction rule: list_all2_induct)
  case (Cons a as w ws)
  then obtain v where v: "node_values st a = Some v" "has_type v (BitsType w)" using assms(1) by (auto simp: typed_state_def)
  then obtain b c where b: "v = VBits b" "rep b c" "length c = w" using bits_rep_of by blast
  obtain bs bss where IH: "ResolveAsBitsVector st as = Some bs" "list_all2 rep bs bss" "map length bss = ws" using Cons by auto
  have "ResolveAsBitsVector st (a # as) = Some (b # bs)"
    using IH(1) v b by (simp add: ResolveAsBitsVector_def ResolveAsBits_def Value_bits_def)
  then show ?case using IH b by (intro exI[of _ "b # bs"] exI[of _ "c # bss"]) auto
qed (simp add: ResolveAsBitsVector_def)

lemma operand_types_list:
  "\<forall>i<length (node_operands nd). operand_type f nd i = Some (ts ! i) \<Longrightarrow> length ts = length (node_operands nd) \<Longrightarrow>
   list_all2 (\<lambda>a t. GetType f a = Some t) (node_operands nd) ts"
  by (auto simp: list_all2_conv_all_nth operand_type_def operand_def at_opt_def)

lemma nary_steps:
  assumes fed: "fed f V n nd st" and ty: "node_type nd = BitsType w"
    and ops: "list_all2 (\<lambda>a w. GetType f a = Some (BitsType w)) (node_operands nd) ws"
    and g: "\<And>bs bss. list_all2 rep bs bss \<Longrightarrow> map length bss = ws \<Longrightarrow> \<exists>rs. returns (g bs) rs \<and> length rs = w"
  shows "steps_to f (insert n V) (bits_nary_handler g n nd st)"
proof -
  have V: "typed_state f V st" "set (node_operands nd) \<subseteq> V" using fed by (auto simp: fed_def ready_def)
  obtain bs bss where bs: "ResolveAsBitsVector st (node_operands nd) = Some bs" "list_all2 rep bs bss" "map length bss = ws"
    using typed_bits_vector[OF V ops] by blast
  obtain rs r where r: "g bs = Some r" "rep r rs" "length rs = w" using g[OF bs(2,3)] by (auto simp: returns_def)
  then have "steps_to f (insert n V) (SetBitsResult n nd r st)" using set_bits[OF fed_ready[OF fed], of rs r st] ty by simp
  then show ?thesis using bs r by (simp add: bits_nary_handler_def)
qed

lemma length_foldl_map2: "\<forall>bs\<in>set bss. length bs = length zs \<Longrightarrow> length (foldl (map2 g) zs bss) = length zs"
  by (induction bss arbitrary: zs) auto

lemma nary_returns:
  assumes "\<And>a b as bs. rep a as \<Longrightarrow> rep b bs \<Longrightarrow> length as = length bs \<Longrightarrow> returns (f a b) (map2 g as bs)"
    and "list_all2 rep ops bss" and "map length bss = replicate k w" and "0 < k"
  shows "\<exists>rs. returns (bits_nary f ops) rs \<and> length rs = w"
proof -
  have ne: "bss \<noteq> []" using assms(3,4) by auto
  have len: "length bs = w" if "bs \<in> set bss" for bs
  proof -
    have "length bs \<in> set (map length bss)" using that by simp
    then show ?thesis unfolding assms(3) by simp
  qed
  have "returns (bits_nary f ops) (foldl (map2 g) (hd bss) (tl bss))"
    by (rule returns_nary[OF _ assms(2) ne]) (use assms(1) len in auto)
  moreover have "length (foldl (map2 g) (hd bss) (tl bss)) = w"
    using len ne by (subst length_foldl_map2) (auto dest: list.set_sel(2))
  ultimately show ?thesis by blast
qed

lemma NaryOp_steps:
  assumes fed: "fed f V n nd st" and ok: "NodeChecker_NaryOp op f nd = returnS ()"
  shows "steps_to f (insert n V) (HandleNaryOp op n nd st)"
proof -
  have "seq_ok [ExpectOperandCountGt nd 0, ExpectAllSameBitsType f nd] = returnS ()"
    using ok by (cases op) (auto simp: NodeChecker_NaryOp_def NodeChecker_HandleNaryAnd_def NodeChecker_HandleNaryNand_def
        NodeChecker_HandleNaryNor_def NodeChecker_HandleNaryOr_def NodeChecker_HandleNaryXor_def)
  then obtain w where pos: "0 < length (node_operands nd)" and ty: "node_type nd = BitsType w"
      and all: "\<forall>i<length (node_operands nd). operand_type f nd i = Some (BitsType w)" by (auto simp: expect_iff)
  have ops: "list_all2 (\<lambda>a w. GetType f a = Some (BitsType w)) (node_operands nd) (replicate (length (node_operands nd)) w)"
    using all by (auto simp: list_all2_conv_all_nth operand_type_def operand_def at_opt_def)
  note step = nary_steps[OF fed ty ops]
  note ret = nary_returns[OF _ _ _ pos]
  have neg: "\<exists>rs. returns (m \<bind> bits_Not) rs \<and> length rs = w" if m: "\<exists>rs. returns m rs \<and> length rs = w" for m
  proof -
    obtain r rs where "m = Some r" "rep r rs" "length rs = w" using m by (auto simp: returns_def)
    then show ?thesis using returns_Not[of r rs] by (intro exI[of _ "map Not rs"]) simp
  qed
  have "steps_to f (insert n V) (HandleNaryAnd n nd st)" unfolding HandleNaryAnd_def
    by (rule step) (auto simp: bits_NaryAnd_def intro: ret[OF returns_And])
  moreover have "steps_to f (insert n V) (HandleNaryOr n nd st)" unfolding HandleNaryOr_def
    by (rule step) (auto simp: bits_NaryOr_def intro: ret[OF returns_Or])
  moreover have "steps_to f (insert n V) (HandleNaryXor n nd st)" unfolding HandleNaryXor_def
    by (rule step) (auto simp: bits_NaryXor_def intro: ret[OF returns_Xor])
  moreover have "steps_to f (insert n V) (HandleNaryNand n nd st)" unfolding HandleNaryNand_def
    by (rule step) (auto simp: bits_NaryNand_def intro!: neg intro: ret[OF returns_And])
  moreover have "steps_to f (insert n V) (HandleNaryNor n nd st)" unfolding HandleNaryNor_def
    by (rule step) (auto simp: bits_NaryNor_def intro!: neg intro: ret[OF returns_Or])
  ultimately show ?thesis by (cases op) (simp_all add: HandleNaryOp_def)
qed

lemma Concat_bits_ok:
  "Concat_bits f as k = returnS total_bits \<Longrightarrow>
   \<exists>ws. list_all2 (\<lambda>a w. GetType f a = Some (BitsType w)) as ws \<and> total_bits = k + sum_list ws"
proof (induction as arbitrary: k)
  case (Cons a as)
  then obtain w where w: "GetType f a = Some (BitsType w)" "Concat_bits f as (k + w) = returnS total_bits"
    by (auto simp: bind_returnS_iff expect_iff)
  then obtain ws where "list_all2 (\<lambda>a w. GetType f a = Some (BitsType w)) as ws" "total_bits = k + w + sum_list ws"
    using Cons.IH by blast
  then show ?case using w by (intro exI[of _ "w # ws"]) simp
qed simp

lemma Concat_steps:
  assumes fed: "fed f V n nd st" and ok: "NodeChecker_HandleConcat f nd = returnS ()"
  shows "steps_to f (insert n V) (HandleConcat n nd st)"
proof -
  obtain total_bits where t: "Concat_bits f (node_operands nd) 0 = returnS total_bits" "node_type nd = BitsType total_bits"
    using ok by (auto simp: NodeChecker_HandleConcat_def expect_iff)
  then obtain ws where ws: "list_all2 (\<lambda>a w. GetType f a = Some (BitsType w)) (node_operands nd) ws" "node_type nd = BitsType (sum_list ws)"
    using Concat_bits_ok[OF t(1)] by auto
  show ?thesis unfolding HandleConcat_def
    by (rule nary_steps[OF fed ws(2,1)], rule returns_length, erule returns_Concat)
      (auto simp: length_concat rev_map[symmetric])
qed

lemma fit_product_returns:
  assumes "rep r rs" and "\<forall>b bs. rep b bs \<and> length bs \<le> w \<longrightarrow> (\<exists>cs. returns (ext b w) cs \<and> length cs = w)"
  shows "\<exists>cs. returns (fit_product ext w r) cs \<and> length cs = w"
proof -
  have "\<exists>cs. returns (ext r w) cs \<and> length cs = w" if "length rs \<le> w" using assms that by blast
  then show ?thesis using assms(1) returns_Slice[OF assms(1), of 0 w]
  by (cases "length rs" w rule: linorder_cases) (auto simp: fit_product_def rep_count returns_def)
qed

lemma product_fits:
  assumes B: "bignum B num" and reps: "rep a as" "rep b bs"
  shows "\<exists>r rs. bits_SMul B a b = Some r \<and> returns (fit_product bits_SignExtend w r) rs \<and> length rs = w"
    and "\<exists>r rs. bits_UMul B a b = Some r \<and> returns (fit_product bits_ZeroExtend w r) rs \<and> length rs = w"
proof -
  have sx: "\<forall>b bs. rep b bs \<and> length bs \<le> w \<longrightarrow> (\<exists>cs. returns (bits_SignExtend b w) cs \<and> length cs = w)"
    using returns_SignExtend length_int_bl by blast
  have zx: "\<forall>b bs. rep b bs \<and> length bs \<le> w \<longrightarrow> (\<exists>cs. returns (bits_ZeroExtend b w) cs \<and> length cs = w)"
    using returns_ZeroExtend length_nat_bl by blast
  obtain r where r: "bits_SMul B a b = Some r" "rep r (int_bl (length as + length bs) (snum as * snum bs))"
    using bignum.returns_SMul[OF B reps] by (auto simp: returns_def)
  then show "\<exists>r rs. bits_SMul B a b = Some r \<and> returns (fit_product bits_SignExtend w r) rs \<and> length rs = w"
    using fit_product_returns[where ext = bits_SignExtend, OF r(2) sx] by blast
  obtain r where r: "bits_UMul B a b = Some r" "rep r (nat_bl (length as + length bs) (unum as * unum bs))"
    using bignum.returns_UMul[OF B reps] by (auto simp: returns_def)
  then show "\<exists>r rs. bits_UMul B a b = Some r \<and> returns (fit_product bits_ZeroExtend w r) rs \<and> length rs = w"
    using fit_product_returns[where ext = bits_ZeroExtend, OF r(2) zx] by blast
qed

lemma mul_operands:
  assumes fed: "fed f V n nd st" and "operand_type f nd 0 = Some (BitsType u)" and "operand_type f nd 1 = Some (BitsType v)"
  obtains a as b bs where "operand_bits st nd 0 = Some a" "operand_bits st nd 1 = Some b" "rep a as" "rep b bs"
  using fed_bits[OF assms(1,2)] fed_bits[OF assms(1,3)] by blast

lemma ArithOp_steps:
  assumes B: "bignum B num" and fed: "fed f V n nd st" and ty: "node_type nd = BitsType w"
    and ops: "operand_type f nd 0 = Some (BitsType u)" "operand_type f nd 1 = Some (BitsType v)"
  shows "steps_to f (insert n V) (HandleSMul B n nd st)" and "steps_to f (insert n V) (HandleUMul B n nd st)"
proof -
  obtain a as b bs where ab: "operand_bits st nd 0 = Some a" "operand_bits st nd 1 = Some b" "rep a as" "rep b bs"
    using mul_operands[OF fed ops] .
  have set: "steps_to f (insert n V) (m \<bind> (\<lambda>r. SetBitsResult n nd r st))" if "returns m rs" "length rs = w" for m rs
    using that set_bits[OF fed_ready[OF fed], of rs] ty by (auto simp: returns_def)
  show "steps_to f (insert n V) (HandleSMul B n nd st)" using product_fits(1)[OF B ab(3,4), of w] ab(1,2) ty
    by (auto simp: HandleSMul_def BitCountOrDie_def Type_AsBitsOrDie_def intro: set)
  show "steps_to f (insert n V) (HandleUMul B n nd st)" using product_fits(2)[OF B ab(3,4), of w] ab(1,2) ty
    by (auto simp: HandleUMul_def BitCountOrDie_def Type_AsBitsOrDie_def intro: set)
qed

lemma PartialProductOp_steps:
  assumes B: "bignum B num" and fed: "fed f V n nd st" and ty: "node_type nd = TupleType [BitsType w, BitsType w]"
    and ops: "operand_type f nd 0 = Some (BitsType u)" "operand_type f nd 1 = Some (BitsType v)"
  shows "steps_to f (insert n V) (HandleSMulp B w n nd st)" and "steps_to f (insert n V) (HandleUMulp B w n nd st)"
proof -
  obtain a as b bs where ab: "operand_bits st nd 0 = Some a" "operand_bits st nd 1 = Some b" "rep a as" "rep b bs"
    using mul_operands[OF fed ops] .
  have zero: "wf_bitmap (Bits_new w)" "bm_count (Bits_new w) = w" 
    using rep_new[of w] rep_count[OF rep_new[of w]] by (simp_all add: rep_def)
  have set: "steps_to f (insert n V) (m \<bind> (\<lambda>r. SetValueResult n nd (VTuple [VBits (Bits_new w), VBits r]) st))"
    if m: "returns m rs" "length rs = w" for m rs
  proof -
    obtain r where r: "m = Some r" "rep r rs" using m by (auto simp: returns_def)
    then have "wf_bitmap r" "bm_count r = w" using rep_count[OF r(2)] m(2) by (simp_all add: rep_def)
    then have "has_type (VTuple [VBits (Bits_new w), VBits r]) (node_type nd)" using ty zero by simp
    from set_value[OF fed_ready[OF fed] this refl] show ?thesis using r by simp
  qed
  obtain r1 rs1 where "bits_SMul B a b = Some r1" "returns (fit_product bits_SignExtend w r1) rs1" "length rs1 = w"
    using product_fits(1)[OF B ab(3,4), of w] by blast
  then show "steps_to f (insert n V) (HandleSMulp B w n nd st)" using ab(1,2) set by (simp add: HandleSMulp_def)
  obtain r2 rs2 where "bits_UMul B a b = Some r2" "returns (fit_product bits_ZeroExtend w r2) rs2" "length rs2 = w"
    using product_fits(2)[OF B ab(3,4), of w] by blast
  then show "steps_to f (insert n V) (HandleUMulp B w n nd st)" using ab(1,2) set by (simp add: HandleUMulp_def)
qed

lemma ExtendOp_steps:
  assumes fed: "fed f V n nd st" and ok: "NodeChecker_HandleExtendOp w f nd = returnS ()"
  shows "steps_to f (insert n V) (HandleSignExtend w n nd st)" and "steps_to f (insert n V) (HandleZeroExtend w n nd st)"
proof -
  obtain u where u: "operand_type f nd 0 = Some (BitsType u)" "u \<le> w" "node_type nd = BitsType w"
    using ok by (auto simp: NodeChecker_HandleExtendOp_def expect_iff bind_returnS_iff)
  note step = unary_steps[OF fed u(1,3)]
  show "steps_to f (insert n V) (HandleSignExtend w n nd st)" unfolding HandleSignExtend_def
    by (rule step, rule returns_length, erule returns_SignExtend) (use u in auto)
  show "steps_to f (insert n V) (HandleZeroExtend w n nd st)" unfolding HandleZeroExtend_def
    by (rule step, rule returns_length, erule returns_ZeroExtend) (use u in auto)
qed

section \<open>Slices and encoders\<close>

lemma BitSlice_steps:
  assumes fed: "fed f V n nd st" and ok: "NodeChecker_HandleBitSlice start width f nd = returnS ()" and fits: "start + width < 2 ^ 63"
  shows "steps_to f (insert n V) (HandleBitSlice start width n nd st)"
proof -
  obtain u w where u: "operand_type f nd 0 = Some (BitsType u)" "0 \<le> start" "0 \<le> width" "node_type nd = BitsType w" "int w = width"
      "sint (of_int start + of_int width :: uint64) \<le> int u"
    using ok by (auto simp: NodeChecker_HandleBitSlice_def expect_iff bind_returnS_iff)
  have "sint (of_int start + of_int width :: uint64) = start + width"
    using sint_of_int64[of "start + width"] u(2,3) fits by simp
  then have le: "nat start + nat width \<le> u" "nat width = w" using u by auto
  show ?thesis unfolding HandleBitSlice_def
  proof (rule unary_steps[OF fed u(1,4)])
    fix a as assume a: "rep a as" "length as = u"
    have "returns (Bits_Slice a (nat start) (nat width)) (take (nat width) (drop (nat start) as))"
      using returns_Slice[OF a(1)] le(1) a(2) by simp
    then show "\<exists>rs. returns (CHECK (0 \<le> start \<and> 0 \<le> width) \<bind> (\<lambda>_. Bits_Slice a (nat start) (nat width))) rs \<and> length rs = w"
      using u(2,3) le a(2) by (intro exI[of _ "take (nat width) (drop (nat start) as)"]) (auto simp: CHECK_def)
  qed
qed

lemma sint_of_nat64: "k < 2 ^ 63 \<Longrightarrow> sint (of_nat k :: uint64) = int k"
  using sint_of_int64[of "int k"] by simp

lemma DynamicBitSlice_steps:
  assumes fed: "fed f V n nd st" and ok: "NodeChecker_HandleDynamicBitSlice width f nd = returnS ()"
    and fits: "\<And>u. operand_type f nd 0 = Some (BitsType u) \<Longrightarrow> u < 2 ^ 63"
  shows "steps_to f (insert n V) (HandleDynamicBitSlice f width n nd st)"
proof -
  obtain u v w where u: "operand_type f nd 0 = Some (BitsType u)" "operand_type f nd 1 = Some (BitsType v)" "0 \<le> width" "width \<le> int u"
      "node_type nd = BitsType w" "int w = width"
    using ok by (auto simp: NodeChecker_HandleDynamicBitSlice_def expect_iff bind_returnS_iff)
  obtain a as where a: "operand_bits st nd 0 = Some a" "rep a as" "length as = u" using fed_bits[OF fed u(1)] by blast
  obtain b bs where b: "operand_bits st nd 1 = Some b" "rep b bs" using fed_bits[OF fed u(2)] by blast
  obtain c where c: "operand nd 0 = Some c" "ResolveAsBits st c = Some a" "GetType f c = Some (BitsType u)"
    using a(1) u(1) by (auto simp: operand_bits_def operand_type_def split: Option.bind_splits)
  have s: "sint (of_nat u :: uint64) = int u" using fits[OF u(1)] by (rule sint_of_nat64)
  have oob: "bits_UGreaterThanOrEqual_int64 b (of_nat u) = Some (unum bs \<ge> u)"
    using UCmp_int64_iff(5)[OF b(2), of "of_nat u"] s by simp
  note set = set_bits[OF fed_ready[OF fed] _ _ refl]
  show ?thesis
  proof (cases "unum bs \<ge> u")
    case True
    then show ?thesis using c b oob u set[OF _ rep_new[of w]]
      by (auto simp: HandleDynamicBitSlice_def Type_AsBitsOrDie_def CHECK_def)
  next
    case False
    then have start: "Bits_ToUint64 b = Inr (of_nat (unum bs))"
      using b(2) fits[OF u(1)] by (simp add: rep_ToUint64)
    let ?k = "unat (of_nat (unum bs) :: uint64)"
    obtain r where r: "bits_ShiftRightLogical a ?k = Some r" "rep r (nat_bl u (unum as div 2 ^ ?k))"
      using returns_ShiftRightLogical[OF a(2), of ?k] a(3) by (auto simp: returns_def)
    obtain t where t: "Bits_Slice r 0 w = Some t" "rep t (take w (drop 0 (nat_bl u (unum as div 2 ^ ?k))))"
      using returns_Slice[OF r(2), of 0 w] u by (auto simp: returns_def)
    then have "steps_to f (insert n V) (SetBitsResult n nd t st)" using set[OF _ t(2)] u by simp
    then show ?thesis using False c b oob u(3,6) start r t by (auto simp: HandleDynamicBitSlice_def Type_AsBitsOrDie_def CHECK_def)
  qed
qed

lemma BitSliceUpdate_steps:
  assumes fed: "fed f V n nd st" and ok: "NodeChecker_HandleBitSliceUpdate f nd = returnS ()"
    and fits: "\<And>u. operand_type f nd 0 = Some (BitsType u) \<Longrightarrow> u < 2 ^ 63"
  shows "steps_to f (insert n V) (HandleBitSliceUpdate n nd st)"
proof -
  obtain u v w where u: "operand_type f nd 0 = Some (BitsType u)" "operand_type f nd 1 = Some (BitsType v)" "operand_type f nd 2 = Some (BitsType w)"
      "node_type nd = BitsType u"
    using ok by (auto simp: NodeChecker_HandleBitSliceUpdate_def expect_iff bind_returnS_iff)
  obtain a as where a: "operand_bits st nd 0 = Some a" "rep a as" "length as = u" using fed_bits[OF fed u(1)] by blast
  obtain b bs where b: "operand_bits st nd 1 = Some b" "rep b bs" using fed_bits[OF fed u(2)] by blast
  obtain c cs where c: "operand_bits st nd 2 = Some c" "rep c cs" using fed_bits[OF fed u(3)] by blast
  have s: "sint (of_nat u :: uint64) = int u" using fits[OF u(1)] by (rule sint_of_nat64)
  have oob: "bits_UGreaterThanOrEqual_int64 b (of_nat u) = Some (unum bs \<ge> u)"
    using UCmp_int64_iff(5)[OF b(2), of "of_nat u"] s by simp
  note set = set_bits[OF fed_ready[OF fed] _ _ refl]
  show ?thesis
  proof (cases "unum bs \<ge> u")
    case True
    then show ?thesis using a b c oob u set[OF _ a(2)] by (simp add: HandleBitSliceUpdate_def rep_count)
  next
    case False
    then have start: "Bits_ToUint64 b = Inr (of_nat (unum bs))" using b(2) fits[OF u(1)] by (simp add: rep_ToUint64)
    let ?k = "unat (of_nat (unum bs) :: uint64)"
    obtain r where r: "bits_BitSliceUpdate a ?k c = Some r" "rep r (take (length as) (take ?k as @ cs @ drop (?k + length cs) as))"
      using returns_BitSliceUpdate[OF a(2) c(2), of ?k] by (auto simp: returns_def)
    have "length (take (length as) (take ?k as @ cs @ drop (?k + length cs) as)) = u" using a(3) by auto
    then have "steps_to f (insert n V) (SetBitsResult n nd r st)" using set[OF _ r(2)] u by metis
    then show ?thesis using False a b c oob start r by (simp add: HandleBitSliceUpdate_def rep_count[OF a(2)])
  qed
qed

lemma Decode_steps:
  assumes fed: "fed f V n nd st" and ok: "NodeChecker_HandleDecode w f nd = returnS ()"
    and fits: "\<And>u. operand_type f nd 0 = Some (BitsType u) \<Longrightarrow> u < 64"
  shows "steps_to f (insert n V) (HandleDecode n nd st)"
proof -
  obtain u where u: "operand_type f nd 0 = Some (BitsType u)" "node_type nd = BitsType w"
    using ok by (auto simp: NodeChecker_HandleDecode_def expect_iff bind_returnS_iff)
  obtain a as where a: "operand_bits st nd 0 = Some a" "rep a as" "length as = u" using fed_bits[OF fed u(1)] by blast
  have "2 ^ u \<le> (2 ^ 63 :: nat)" using fits[OF u(1)] by (intro power_increasing) auto
  then have k: "unum as < 2 ^ 63" using unum_bound[of as] a(3) by simp
  then have val: "Bits_ToUint64 a = Inr (of_nat (unum as))" "sint (of_nat (unum as) :: uint64) = int (unum as)"
    using a(2) by (simp_all add: rep_ToUint64 sint_of_nat64)
  note set = set_bits[OF fed_ready[OF fed] _ _ refl]
  show ?thesis
  proof (cases "unum as < w")
    case True
    obtain r where r: "Bits_PowerOfTwo (unum as) w = Some r" "rep r (nat_bl w (2 ^ unum as))"
      using returns_PowerOfTwo[OF True] by (auto simp: returns_def)
    then show ?thesis using True a u val set[OF _ r(2)] by (simp add: HandleDecode_def BitCountOrDie_def Type_AsBitsOrDie_def CHECK_def)
  next
    case False
    then show ?thesis using a u val set[OF _ rep_new[of w]] by (simp add: HandleDecode_def BitCountOrDie_def Type_AsBitsOrDie_def)
  qed
qed

lemma unat_of_nat64: "k < 2 ^ 64 \<Longrightarrow> unat (of_nat k :: uint64) = k"
  by (simp add: unsigned_of_nat take_bit_nat_eq_self)

lemma unat_of_nat64_pred:
  assumes "0 < k" and "k < 2 ^ 64"
  shows "unat (of_nat k - 1 :: uint64) = k - 1"
proof -
  have "(of_nat k - 1 :: uint64) = of_nat (k - 1)" using assms(1) by (simp add: of_nat_diff)
  then show ?thesis using assms(2) unat_of_nat64[of "k - 1"] by simp
qed

lemma encode_loop_ok:
  "rep acc cs \<Longrightarrow> length cs = width \<Longrightarrow> \<forall>i\<in>set is. i < 2 ^ 64 \<and> i < 2 ^ width \<Longrightarrow>
   \<exists>r rs. encode_loop input width is acc = Some r \<and> rep r rs \<and> length rs = width"
proof (induction "is" arbitrary: acc cs)
  case (Cons i is')
  then have i: "unat (of_nat i :: uint64) < 2 ^ width" by (simp add: unat_of_nat64)
  then obtain b where b: "UBits (of_nat i) width = Some b" "rep b (nat_bl width (unat (of_nat i :: uint64)))"
    using returns_UBits[OF i] by (auto simp: returns_def)
  obtain r where r: "bits_Or acc b = Some r" "rep r (map2 (\<or>) cs (nat_bl width (unat (of_nat i :: uint64))))"
    using returns_Or[OF Cons.prems(1) b(2)] Cons.prems(2) by (auto simp: returns_def)
  show ?case using Cons.IH[OF r(2)] Cons.IH[OF Cons.prems(1,2)] Cons.prems b r by auto
qed auto

lemma Encode_steps:
  assumes fed: "fed f V n nd st" and ok: "NodeChecker_HandleEncode f nd = returnS ()"
    and fits: "\<And>u. operand_type f nd 0 = Some (BitsType u) \<Longrightarrow> u < 2 ^ 63"
  shows "steps_to f (insert n V) (HandleEncode n nd st)"
proof -
  obtain u w where u: "operand_type f nd 0 = Some (BitsType u)" "node_type nd = BitsType w" "w = MinBitCountUnsigned (of_nat u - 1)"
    using ok by (auto simp: NodeChecker_HandleEncode_def expect_iff bind_returnS_iff)
  obtain a as where a: "operand_bits st nd 0 = Some a" "rep a as" "length as = u" using fed_bits[OF fed u(1)] by blast
  have "i < 2 ^ 64 \<and> i < 2 ^ w" if i: "i < u" for i
  proof -
    have "unat (of_nat u - 1 :: uint64) = u - 1"
      using fits[OF u(1)] i by (intro unat_of_nat64_pred) auto
    moreover have "unat (of_nat u - 1 :: uint64) < 2 ^ w" using MinBitCountUnsigned_le_iff[of "of_nat u - 1" w] u(3) by simp
    ultimately show ?thesis using i fits[OF u(1)] by auto
  qed
  then obtain r rs where r: "encode_loop a w [0..<u] (Bits_new w) = Some r" "rep r rs" "length rs = w"
    using encode_loop_ok[OF rep_new[of w], of w "[0..<u]" a] by auto
  then have "steps_to f (insert n V) (SetBitsResult n nd r st)" using set_bits[OF fed_ready[OF fed] _ r(2) refl] u by simp
  then show ?thesis using a r u by (simp add: HandleEncode_def BitCountOrDie_def Type_AsBitsOrDie_def rep_count[OF a(2)])
qed

lemma OneHot_steps:
  assumes fed: "fed f V n nd st" and ok: "NodeChecker_HandleOneHot f nd = returnS ()"
  shows "steps_to f (insert n V) (HandleOneHot priority n nd st)"
proof -
  obtain u where u: "operand_type f nd 0 = Some (BitsType u)" "node_type nd = BitsType (u + 1)"
    using ok by (auto simp: NodeChecker_HandleOneHot_def expect_iff bind_returnS_iff)
  obtain a as where a: "operand_bits st nd 0 = Some a" "rep a as" "length as = u" using fed_bits[OF fed u(1)] by blast
  obtain b where b: "UBits 1 (u + 1) = Some b" "rep b (nat_bl (u + 1) (unat (1 :: uint64)))"
    using returns_UBits[of 1 "u + 1"] one_less_power[of "2 :: nat" "u + 1"] by (auto simp: returns_def)
  have shl: "steps_to f (insert n V) (bits_ShiftLeftLogical b k \<bind> (\<lambda>r. SetBitsResult n nd r st))" for k
  proof -
    obtain r where r: "bits_ShiftLeftLogical b k = Some r" "rep r (nat_bl (u + 1) (unum (nat_bl (u + 1) (unat (1 :: uint64))) * 2 ^ k))"
      using returns_ShiftLeftLogical[OF b(2), of k] by (auto simp: returns_def)
    then show ?thesis using set_bits[OF fed_ready[OF fed] _ r(2) refl] u(2) by simp
  qed
  show ?thesis using a u b shl
    by (auto simp: HandleOneHot_def BitCountOrDie_def Type_AsBitsOrDie_def Let_def split: option.splits)
qed

section \<open>Selects\<close>

lemma mapS_ok:
  "\<forall>x\<in>set xs. \<exists>y. g x = returnS y \<and> P x y \<Longrightarrow> \<exists>ys. mapS g xs = returnS ys \<and> list_all2 P xs ys"
proof (induction xs)
  case (Cons x xs)
  then obtain y ys where "g x = returnS y" "P x y" "mapS g xs = returnS ys" "list_all2 P xs ys" by auto
  then show ?case by (intro exI[of _ "y # ys"]) simp
qed simp

lemma or_inputs_ok:
  "rep acc cs \<Longrightarrow> length cs = w \<Longrightarrow> list_all (\<lambda>v. has_type v (BitsType w)) vs \<Longrightarrow>
   \<exists>r rs. or_inputs acc vs = Some r \<and> rep r rs \<and> length rs = w"
proof (induction vs arbitrary: acc cs)
  case (Cons v vs)
  then obtain b bs where b: "v = VBits b" "rep b bs" "length bs = w" using bits_rep_of[of v w] by auto
  obtain r where r: "bits_Or acc b = Some r" "rep r (map2 (\<or>) cs bs)"
    using returns_Or[OF Cons.prems(1) b(2)] Cons.prems(2) b(3) by (auto simp: returns_def)
  show ?case using Cons.IH[OF r(2)] Cons.prems b r by (simp add: Value_bits_def)
qed auto

lemma input_elements_ok:
  assumes "list_all (\<lambda>v. \<exists>es. Value_elements v = Some es \<and> i < length es \<and> has_type (es ! i) t) inputs"
  shows "\<exists>es. input_elements inputs i = Some es \<and> list_all (\<lambda>v. has_type v t) es"
  using assms
proof (induction inputs)
  case (Cons v vs)
  then obtain es fs where "Value_elements v = Some es" "i < length es" "has_type (es ! i) t"
      "input_elements vs i = Some fs" "list_all (\<lambda>v. has_type v t) fs" by auto
  then show ?case by (intro exI[of _ "es ! i # fs"]) (simp add: input_elements_def Value_element_def at_opt_def)
qed (simp add: input_elements_def)

lemma DeepOr_typed:
  "inhabited t \<Longrightarrow> \<not> TypeHasToken t \<Longrightarrow> list_all (\<lambda>v. has_type v t) inputs \<Longrightarrow> \<exists>r. DeepOr t inputs = returnS r \<and> has_type r t"
proof (induction t arbitrary: inputs)
  case (BitsType w)
  then obtain r rs where "or_inputs (Bits_new w) inputs = Some r" "rep r rs" "length rs = w" using or_inputs_ok[OF rep_new[of w], of w inputs] by auto
  then show ?case by (auto simp: returnS_def rep_def dest: rep_count)
next
  case (ArrayType k t)
  have "\<exists>y. input_elements inputs i \<bind> DeepOr t = returnS y \<and> has_type y t" if "i \<in> set [0..<k]" for i
  proof -
    have "\<exists>es. input_elements inputs i = Some es \<and> list_all (\<lambda>v. has_type v t) es"
      using ArrayType.prems(3) that by (intro input_elements_ok) (auto simp: list_all_iff Value_elements_def)
    then show ?thesis using ArrayType.IH ArrayType.prems by auto
  qed
  then obtain ys where ys: "mapS (\<lambda>i. input_elements inputs i \<bind> DeepOr t) [0..<k] = returnS ys" "list_all2 (\<lambda>i y. has_type y t) [0..<k] ys"
    using mapS_ok[of "[0..<k]" "\<lambda>i. input_elements inputs i \<bind> DeepOr t" "\<lambda>i y. has_type y t"] by blast
  then have "length ys = k" "list_all (\<lambda>e. has_type e t) ys" by (auto simp: list_all2_conv_all_nth list_all_length)
  then show ?case using ys(1) Value_Array_typed[of ys t] ArrayType.prems(1) by (auto simp: returnS_def)
next
  case (TupleType ts)
  have "\<exists>y. (case p of (i, t) \<Rightarrow> input_elements inputs i \<bind> DeepOr t) = returnS y \<and> has_type y (snd p)"
    if p: "p \<in> set (zip [0..<length ts] ts)" for p
  proof -
    obtain i where i: "p = (i, ts ! i)" "i < length ts" using p by (auto simp: set_zip)
    have "\<exists>es. input_elements inputs i = Some es \<and> list_all (\<lambda>v. has_type v (ts ! i)) es"
      using TupleType.prems(3) i(2)
      by (intro input_elements_ok) (auto simp: list_all_iff Value_elements_def list_all2_conv_all_nth)
    moreover have "ts ! i \<in> set ts" "inhabited (ts ! i)" "\<not> TypeHasToken (ts ! i)"
      using TupleType.prems(1,2) i(2) by (auto simp: list_all_length list_ex_iff)
    ultimately show ?thesis using TupleType.IH i by auto
  qed
  then obtain ys where ys: "mapS (\<lambda>(i, t). input_elements inputs i \<bind> DeepOr t) (zip [0..<length ts] ts) = returnS ys"
      "list_all2 (\<lambda>p y. has_type y (snd p)) (zip [0..<length ts] ts) ys"
    using mapS_ok[of "zip [0..<length ts] ts" "\<lambda>(i, t). input_elements inputs i \<bind> DeepOr t" "\<lambda>p y. has_type y (snd p)"] by blast
  then have "list_all2 has_type ys ts" by (auto simp: list_all2_conv_all_nth)
  then show ?case using ys(1) by simp
qed simp

lemma OneHotSel_steps:
  assumes fed: "fed f V n nd st" and ok: "NodeChecker_HandleOneHotSel f nd = returnS ()" and inh: "inhabited (node_type nd)"
    and cases: "\<forall>i\<in>{1..<length (node_operands nd)}. operand_type f nd i = Some (node_type nd)"
  shows "steps_to f (insert n V) (HandleOneHotSel n nd st)"
proof -
  obtain u where u: "operand_type f nd 0 = Some (BitsType u)" "u = length (tl (node_operands nd))" "\<not> TypeHasToken (node_type nd)"
    using ok by (auto simp: NodeChecker_HandleOneHotSel_def expect_iff bind_returnS_iff)
  obtain a as where a: "operand_bits st nd 0 = Some a" "rep a as" "length as = u" using fed_bits[OF fed u(1)] by blast
  have "\<exists>v. operand_value st nd (i + 1) = Some v \<and> has_type v (node_type nd)" if "i < u" for i
    using that u(2) cases by (intro fed_value[OF fed]) auto
  then obtain g where g: "\<And>i. i < u \<Longrightarrow> operand_value st nd (i + 1) = Some (g i) \<and> has_type (g i) (node_type nd)" by metis
  let ?sel = "filter (Bits_Get a) [0..<u]"
  have act: "those (map (\<lambda>i. operand_value st nd (i + 1)) ?sel) = Some (map g ?sel)" using g by (intro those_map_cong) auto
  have "list_all (\<lambda>v. has_type v (node_type nd)) (map g ?sel)" using g by (auto simp: list_all_iff)
  then obtain r where r: "DeepOr (node_type nd) (map g ?sel) = returnS r" "has_type r (node_type nd)" using DeepOr_typed[OF inh u(3)] by blast
  show ?thesis using a act r set_value[OF fed_ready[OF fed] r(2) refl] by (simp add: HandleOneHotSel_def rep_count)
qed

lemma zero_typed: "inhabited t \<Longrightarrow> \<exists>v. ZeroOfType t = Some v \<and> has_type v t"
  using ZeroOfType_typed by blast

lemma PrioritySel_steps:
  assumes fed: "fed f V n nd st" and ok: "NodeChecker_HandlePrioritySel f nd = returnS ()" and inh: "inhabited (node_type nd)"
    and cases: "\<forall>i\<in>{1..<length (node_operands nd)}. operand_type f nd i = Some (node_type nd)"
  shows "steps_to f (insert n V) (HandlePrioritySel n nd st)"
proof -
  obtain u where u: "operand_type f nd 0 = Some (BitsType u)" "u = length (tl (node_operands nd))"
    using ok by (auto simp: NodeChecker_HandlePrioritySel_def expect_iff bind_returnS_iff)
  obtain a as where a: "operand_bits st nd 0 = Some a" "rep a as" "length as = u" using fed_bits[OF fed u(1)] by blast
  have cases': "\<exists>v. operand_value st nd (i + 1) = Some v \<and> has_type v (node_type nd)" if "i < u" for i
    using that u(2) cases by (intro fed_value[OF fed]) auto
  show ?thesis
  proof (cases "find (Bits_Get a) [0..<u]")
    case None
    then show ?thesis using a zero_typed[OF inh] set_value[OF fed_ready[OF fed] _ refl] by (auto simp: HandlePrioritySel_def rep_count)
  next
    case (Some i)
    then have "i < u" by (auto simp: find_Some_iff)
    then show ?thesis using Some a cases'[of i] set_value[OF fed_ready[OF fed] _ refl] by (auto simp: HandlePrioritySel_def rep_count)
  qed
qed

lemma Gate_steps:
  assumes fed: "fed f V n nd st" and ok: "NodeChecker_HandleGate f nd = returnS ()" and inh: "inhabited (node_type nd)"
  shows "steps_to f (insert n V) (HandleGate n nd st)"
proof -
  have ty: "operand_type f nd 0 = Some (BitsType 1)" "operand_type f nd 1 = Some (node_type nd)"
    using ok by (auto simp: NodeChecker_HandleGate_def expect_iff)
  show ?thesis using fed_bits[OF fed ty(1)] fed_value[OF fed ty(2)] zero_typed[OF inh] set_value[OF fed_ready[OF fed] _ refl]
    by (auto simp: HandleGate_def)
qed

text \<open>The width of a select's selector determines whether a default is needed.\<close>

lemma power_of_2_cases:
  assumes "IsPowerOfTwo (of_nat k)" and "0 < k" and "k < 2 ^ 64" and "w = MinBitCountUnsigned (of_nat k - 1)"
  shows "k = 2 ^ w"
proof -
  have k: "unat (of_nat k :: uint64) = k" "unat (of_nat k - 1 :: uint64) = k - 1"
    using assms unat_of_nat64[of k] unat_of_nat64_pred[of k] by auto
  obtain m where m: "k = 2 ^ m" using assms(1) k(1) IsPowerOfTwo_iff by metis
  have "k - 1 < 2 ^ w" using assms(4) MinBitCountUnsigned_le_iff[of "of_nat k - 1" w] k by simp
  moreover have "2 ^ w \<le> k" 
  proof -
    have "w \<le> m" using assms(4) MinBitCountUnsigned_le_iff[of "of_nat k - 1" m] k m by simp
    then show ?thesis using m by simp
  qed
  ultimately show ?thesis by linarith
qed

lemma Sel_steps:
  assumes fed: "fed f V n nd st" and ok: "NodeChecker_HandleSel k has_default f nd = returnS ()"
    and operands: "length (node_operands nd) = 1 + k + (if has_default then 1 else 0)" and k: "0 < k" "k < 2 ^ 64"
    and default: "has_default \<longrightarrow> operand_type f nd (k + 1) = Some (node_type nd)"
  shows "steps_to f (insert n V) (HandleSel k has_default n nd st)"
proof -
  let ?m = "MinBitCountUnsigned (of_nat k - 1)"
  obtain u where u: "operand_type f nd 0 = Some (BitsType u)" "?m \<le> u" "u = ?m \<and> IsPowerOfTwo (of_nat k) \<or> has_default"
      and cases: "\<forall>i<k. operand_type f nd (i + 1) = Some (node_type nd)"
    using ok by (auto simp: NodeChecker_HandleSel_def expect_iff bind_returnS_iff Let_def)
  obtain a as where a: "operand_bits st nd 0 = Some a" "rep a as" "length as = u" using fed_bits[OF fed u(1)] by blast
  have pred: "unat (of_nat k - 1 :: uint64) = k - 1" using k by (rule unat_of_nat64_pred)
  then have bound: "k - 1 < 2 ^ u" using u(2) MinBitCountUnsigned_le_iff[of "of_nat k - 1" u] by simp
  then obtain l where l: "UBits (of_nat k - 1) u = Some l" "rep l (nat_bl u (k - 1))"
    using returns_UBits[of "of_nat k - 1" u] pred by (auto simp: returns_def)
  have gt: "bits_UGreaterThan a l \<longleftrightarrow> k - 1 < unum as" using UGreaterThan_iff[OF a(2) l(2)] bound by (simp add: unum_nat_bl)
  note set = set_value[OF fed_ready[OF fed] _ refl]
  show ?thesis
  proof (cases "k - 1 < unum as")
    case True
    have has_default
    proof (rule ccontr)
      assume "\<not> has_default"
      then have "k = 2 ^ u" using u(3) power_of_2_cases[OF _ k] by blast
      then show False using True unum_bound[of as] a(3) by simp
    qed
    then obtain v where "operand_value st nd (k + 1) = Some v" "has_type v (node_type nd)" using fed_value[OF fed] default by blast
    then show ?thesis using True gt a l \<open>has_default\<close> operands set by (simp add: HandleSel_def rep_count)
  next
    case False
    then have i: "unum as < k" using k(1) by simp
    then have val: "Bits_ToUint64 a = Inr (of_nat (unum as))" "unat (of_nat (unum as) :: uint64) = unum as"
      using a(2) k(2) unat_of_nat64[of "unum as"] by (simp_all add: rep_ToUint64)
    obtain v where "operand_value st nd (unum as + 1) = Some v" "has_type v (node_type nd)" using fed_value[OF fed] cases i by blast
    then show ?thesis using False gt a l i val set by (simp add: HandleSel_def rep_count CHECK_def)
  qed
qed

section \<open>Aggregates\<close>

lemma typed_values:
  assumes "typed_state f V st" and "set as \<subseteq> V" and "list_all2 (\<lambda>a t. GetType f a = Some t) as ts"
  shows "\<exists>vs. those (map (ResolveAsValue st) as) = Some vs \<and> list_all2 has_type vs ts"
  using assms(3,2)
proof (induction rule: list_all2_induct)
  case (Cons a as t ts)
  then obtain v vs where "node_values st a = Some v" "has_type v t" "those (map (ResolveAsValue st) as) = Some vs" "list_all2 has_type vs ts"
    using assms(1) by (auto simp: typed_state_def)
  moreover have "ResolveAsValue st = node_values st" by (simp add: ResolveAsValue_def fun_eq_iff)
  ultimately show ?case by (intro exI[of _ "v # vs"]) simp
qed simp

lemma fed_values:
  assumes "fed f V n nd st" and "\<forall>i<length (node_operands nd). operand_type f nd i = Some (ts ! i)" and "length ts = length (node_operands nd)"
  shows "\<exists>vs. those (map (ResolveAsValue st) (node_operands nd)) = Some vs \<and> list_all2 has_type vs ts"
  using assms typed_values[OF _ _ operand_types_list] by (auto simp: fed_def ready_def)

lemma Tuple_steps:
  assumes fed: "fed f V n nd st" and ok: "NodeChecker_HandleTuple f nd = returnS ()"
  shows "steps_to f (insert n V) (HandleTuple n nd st)"
proof -
  obtain ts where ts: "node_type nd = TupleType ts" "length ts = length (node_operands nd)"
      "\<forall>i<length (node_operands nd). operand_type f nd i = Some (ts ! i)"
    using ok by (auto simp: NodeChecker_HandleTuple_def expect_iff bind_returnS_iff)
  obtain vs where vs: "those (map (ResolveAsValue st) (node_operands nd)) = Some vs" "list_all2 has_type vs ts" using fed_values[OF fed ts(3,2)] by blast
  then have "has_type (VTuple vs) (node_type nd)" using ts(1) by simp
  from set_value[OF fed_ready[OF fed] this refl] show ?thesis using vs by (simp add: HandleTuple_def)
qed

lemma TupleIndex_steps:
  assumes fed: "fed f V n nd st" and ok: "NodeChecker_HandleTupleIndex i f nd = returnS ()"
  shows "steps_to f (insert n V) (HandleTupleIndex i n nd st)"
proof -
  obtain ts where ts: "operand_type f nd 0 = Some (TupleType ts)" "0 \<le> i" "i < int (length ts)" "node_type nd = ts ! nat i"
    using ok by (auto simp: NodeChecker_HandleTupleIndex_def expect_iff bind_returnS_iff)
  obtain es where es: "operand_value st nd 0 = Some (VTuple es)" "list_all2 has_type es ts" using fed_value[OF fed ts(1)] by auto
  then have "nat i < length es" "has_type (es ! nat i) (node_type nd)" using ts by (auto simp: list_all2_conv_all_nth)
  then show ?thesis using es ts(2) set_value[OF fed_ready[OF fed] _ refl] by (simp add: HandleTupleIndex_def Value_elements_def CHECK_def at_opt_def)
qed

lemma array_result:
  assumes "ready f V n nd st" and "node_type nd = ArrayType (length es) t" and "es \<noteq> []" and "list_all (\<lambda>e. has_type e t) es"
    and "node_values st' = node_values st"
  shows "steps_to f (insert n V) (bindS (Value_Array es) (\<lambda>r. SetValueResult n nd r st'))"
  using set_value[OF assms(1) _ assms(5), of "VArray es"] assms(2-4) Value_Array_typed[OF assms(3,4)] by simp

lemma Array_steps:
  assumes fed: "fed f V n nd st" and ok: "NodeChecker_HandleArray f nd = returnS ()" and inh: "inhabited (node_type nd)"
  shows "steps_to f (insert n V) (HandleArray n nd st)"
proof -
  obtain t where t: "node_type nd = ArrayType (length (node_operands nd)) t"
      "\<forall>i<length (node_operands nd). operand_type f nd i = Some t"
    using ok by (auto simp: NodeChecker_HandleArray_def expect_iff bind_returnS_iff)
  obtain vs where vs: "those (map (ResolveAsValue st) (node_operands nd)) = Some vs" "list_all2 has_type vs (replicate (length (node_operands nd)) t)"
    using fed_values[OF fed, of "replicate (length (node_operands nd)) t"] t(2) by auto
  then have len: "length vs = length (node_operands nd)" "list_all (\<lambda>e. has_type e t) vs" by (auto simp: list_all2_conv_all_nth list_all_length)
  then have "vs \<noteq> []" using inh t(1) by auto
  then show ?thesis using array_result[OF fed_ready[OF fed] _ _ len(2) refl] t(1) len(1) vs(1) by (simp add: HandleArray_def)
qed

fun machine_sized :: "xls_type \<Rightarrow> bool" where
  "machine_sized (BitsType n) \<longleftrightarrow> n < 2 ^ 63"
| "machine_sized (TupleType ts) \<longleftrightarrow> list_all machine_sized ts"
| "machine_sized (ArrayType n t) \<longleftrightarrow> n < 2 ^ 63 \<and> machine_sized t"
| "machine_sized TokenType \<longleftrightarrow> True"

lemma GetIndexedElementType_Suc: "GetIndexedElementType t (Suc k) = Inr r \<Longrightarrow> \<exists>m d. t = ArrayType m d \<and> GetIndexedElementType d k = Inr r"
  by (cases t) auto

lemma typed_index:
  assumes "typed_state f V st" and "a \<in> V" and "GetType f a = Some (BitsType w)"
  shows "\<exists>b bs. ResolveAsBits st a = Some b \<and> rep b bs"
proof -
  obtain v where "node_values st a = Some v" "has_type v (BitsType w)" using assms by (auto simp: typed_state_def)
  then show ?thesis using bits_rep_of[of v w] by (auto simp: ResolveAsBits_def Value_bits_def)
qed

lemma ArrayIndex_loop_typed:
  assumes "typed_state f V st"
  shows "set indices \<subseteq> V \<Longrightarrow> \<forall>a\<in>set indices. \<exists>w. GetType f a = Some (BitsType w) \<Longrightarrow> has_type array t \<Longrightarrow> machine_sized t \<Longrightarrow>
    GetIndexedElementType t (length indices) = Inr r \<Longrightarrow> \<exists>v. ArrayIndex_loop st indices array = Some v \<and> has_type v r"
proof (induction indices arbitrary: array t)
  case (Cons a indices)
  obtain m d where t: "t = ArrayType m d" "GetIndexedElementType d (length indices) = Inr r"
    using GetIndexedElementType_Suc Cons.prems(5) by (metis length_Cons)
  then obtain es where es: "array = VArray es" "es \<noteq> []" "length es = m" "list_all (\<lambda>e. has_type e d) es" using Cons.prems(3) by auto
  obtain b bs where b: "ResolveAsBits st a = Some b" "rep b bs" using typed_index[OF assms, of a] Cons.prems(1,2) by fastforce
  have m: "0 < m" "m < 2 ^ 64" using es(2,3) Cons.prems(4) t(1) by auto
  let ?i = "of_nat (min (unum bs) (m - 1)) :: uint64"
  have idx: "BitsToBoundedUint64 b (of_nat m - 1) = Some ?i" using BitsToBoundedUint64_ok[OF b(2), of "of_nat m - 1"] unat_of_nat64_pred[OF m] by simp
  have lt: "unat ?i < m" using unat_of_nat64[of "min (unum bs) (m - 1)"] m by simp
  then have e: "has_type (es ! unat ?i) d" using es(3,4) by (simp add: list_all_length)
  obtain v where v: "ArrayIndex_loop st indices (es ! unat ?i) = Some v" "has_type v r"
    using Cons.IH[OF _ _ e _ t(2)] Cons.prems(1,2,4) t(1) by auto
  have "Value_element array (unat ?i) = Some (es ! unat ?i)" "Value_size array = Some m"
    using es lt by (simp_all add: Value_element_def Value_size_def Value_elements_def at_opt_def)
  then show ?case using b idx v by (simp del: of_nat_min)
qed auto

lemma ArrayIndex_steps:
  assumes fed: "fed f V n nd st" and ok: "NodeChecker_HandleArrayIndex f nd = returnS ()"
    and sized: "\<And>t. operand_type f nd 0 = Some t \<Longrightarrow> machine_sized t"
  shows "steps_to f (insert n V) (HandleArrayIndex n nd st)"
proof -
  obtain t where t: "operand_type f nd 0 = Some t" "\<forall>a\<in>set (tl (node_operands nd)). \<exists>w. GetType f a = Some (BitsType w)"
      "GetIndexedElementType t (length (tl (node_operands nd))) = Inr (node_type nd)"
    using ok by (auto simp: NodeChecker_HandleArrayIndex_def expect_iff bind_returnS_iff Let_def)
  obtain v where v: "operand_value st nd 0 = Some v" "has_type v t" using fed_value[OF fed t(1)] by blast
  have "set (tl (node_operands nd)) \<subseteq> V" "typed_state f V st" using fed by (cases "node_operands nd"; auto simp: fed_def ready_def)+
  then obtain e where "ArrayIndex_loop st (tl (node_operands nd)) v = Some e" "has_type e (node_type nd)"
    using ArrayIndex_loop_typed[OF _ _ t(2) v(2) sized[OF t(1)] t(3)] by blast
  then show ?thesis using v set_value[OF fed_ready[OF fed] _ refl] by (simp add: HandleArrayIndex_def)
qed

lemma ArraySlice_steps:
  assumes fed: "fed f V n nd st" and ok: "NodeChecker_HandleArraySlice width f nd = returnS ()"
    and sized: "\<And>t. operand_type f nd 0 = Some t \<Longrightarrow> machine_sized t" "machine_sized (node_type nd)"
  shows "steps_to f (insert n V) (HandleArraySlice width n nd st)"
proof -
  obtain k d w where t: "operand_type f nd 0 = Some (ArrayType k d)" "operand_type f nd 1 = Some (BitsType w)" "node_type nd = ArrayType (nat width) d" "0 < width"
    using ok by (auto simp: NodeChecker_HandleArraySlice_def expect_iff bind_returnS_iff)
  obtain es where es: "operand_value st nd 0 = Some (VArray es)" "es \<noteq> []" "length es = k" "list_all (\<lambda>e. has_type e d) es"
    using fed_value[OF fed t(1)] by auto
  obtain b bs where b: "operand_bits st nd 1 = Some b" "rep b bs" using fed_bits[OF fed t(2)] by blast
  obtain c where c: "operand nd 1 = Some c" "ResolveAsBits st c = Some b" using b(1) by (auto simp: operand_bits_def split: Option.bind_splits)
  have k: "0 < k" "k < 2 ^ 63" "nat width < 2 ^ 63" using es(2,3) sized(1)[OF t(1)] sized(2) t(3) by auto
  let ?i = "min (unum bs) (k - 1)" let ?s = "of_nat ?i :: uint64"
  have start: "ResolveAsBoundedUint64 st c (of_nat k - 1) = Some ?s"
    using BitsToBoundedUint64_ok[OF b(2), of "of_nat k - 1"] unat_of_nat64_pred[of k] k c(2) by (simp add: ResolveAsBoundedUint64_def)
  have i: "?i < k" using k(1) by simp
  have "(?s + of_int width :: uint64) = of_nat (?i + nat width)" using t(4) by simp
  then have limit: "unat (?s + of_int width :: uint64) = ?i + nat width" "unat ?s = ?i"
    using unat_of_nat64[of "?i + nat width"] unat_of_nat64[of ?i] i k by simp_all
  let ?g = "\<lambda>i. if i \<ge> k then es ! (k - 1) else es ! i"
  have typed: "has_type (es ! i) d" if "i < k" for i using that es(3,4) by (simp add: list_all_length)
  have "those (map (\<lambda>i. if i \<ge> k then Value_element (VArray es) (k - 1) else Value_element (VArray es) i) [?i..<?i + nat width])
      = Some (map ?g [?i..<?i + nat width])"
    using es(3) k(1) by (intro those_map_cong) (auto simp: Value_element_def Value_elements_def at_opt_def)
  moreover have "steps_to f (insert n V) (bindS (Value_Array (map ?g [?i..<?i + nat width])) (\<lambda>r. SetValueResult n nd r st))"
    using typed k(1) t(3,4) by (intro array_result[OF fed_ready[OF fed] _ _ _ refl, of _ d]) (auto simp: list_all_iff)
  ultimately show ?thesis using es(1,3) c start limit t(4)
    by (simp add: HandleArraySlice_def Value_size_def Value_elements_def CHECK_def del: of_nat_min)
qed

lemma SetArrayElement_typed:
  "list_all2 rep indices bss \<Longrightarrow> indices \<noteq> [] \<Longrightarrow> has_type (VArray es) t \<Longrightarrow> machine_sized t \<Longrightarrow>
   GetIndexedElementType t (length indices) = Inr r \<Longrightarrow> has_type v r \<Longrightarrow>
   \<exists>es'. SetArrayElement indices v es = returnS es' \<and> has_type (VArray es') t"
proof (induction indices arbitrary: es t bss)
  case (Cons i indices)
  obtain m d where t: "t = ArrayType m d" "GetIndexedElementType d (length indices) = Inr r"
    using GetIndexedElementType_Suc Cons.prems(5) by (metis length_Cons)
  then have es: "es \<noteq> []" "length es = m" "list_all (\<lambda>e. has_type e d) es" "m < 2 ^ 64" using Cons.prems(3,4) by auto
  obtain bs bss' where bs: "bss = bs # bss'" "rep i bs" "list_all2 rep indices bss'" using Cons.prems(1) by (auto simp: list_all2_Cons1)
  let ?i = "min (unum bs) m"
  have idx: "BitsToBoundedUint64 i (of_nat (length es)) = Some (of_nat ?i)" "unat (of_nat ?i :: uint64) = ?i"
    using BitsToBoundedUint64_ok[OF bs(2), of "of_nat m"] unat_of_nat64[of m] unat_of_nat64[of ?i] es by simp_all
  have upd: "has_type (VArray (es[k := e])) t" if "has_type e d" for e k
    using es t(1) that by (auto simp: list_all_iff dest!: set_update_subset_insert[THEN subsetD])
  show ?case
  proof (cases "?i < m")
    case False
    then show ?thesis using idx es(2) Cons.prems(3) by (simp del: of_nat_min)
  next
    case lt: True
    then have "unum bs < m" by linarith
    show ?thesis
    proof (cases "indices = []")
      case True
      then have "has_type v d" using t(2) Cons.prems(6) by simp
      then show ?thesis using True \<open>unum bs < m\<close> idx es(2) upd by (simp del: of_nat_min)
    next
      case False
      then obtain m' d' where d: "d = ArrayType m' d'" using GetIndexedElementType_Suc[of d] t(2) by (cases indices) fastforce+
      have "has_type (es ! ?i) d" using lt es(2,3) by (simp add: list_all_length)
      then obtain sub where sub: "es ! ?i = VArray sub" "has_type (VArray sub) d" using d by auto
      have "machine_sized d" using Cons.prems(4) t(1) by simp
      then obtain sub' where sub': "SetArrayElement indices v sub = returnS sub'" "has_type (VArray sub') d"
        using Cons.IH[OF bs(3) False sub(2) _ t(2) Cons.prems(6)] by blast
      then have "Value_Array sub' = returnS (VArray sub')" using d Value_Array_typed[of sub' d'] by (simp add: returnS_def)
      then show ?thesis using False \<open>unum bs < m\<close> idx es(2) sub sub' upd[OF sub'(2)] by (simp add: Value_elements_def del: of_nat_min)
    qed
  qed
qed simp

lemma ArrayUpdate_steps:
  assumes fed: "fed f V n nd st" and ok: "NodeChecker_HandleArrayUpdate f nd = returnS ()" and sized: "machine_sized (node_type nd)"
  shows "steps_to f (insert n V) (HandleArrayUpdate n nd st)"
proof -
  let ?idx = "drop 2 (node_operands nd)"
  obtain r where t: "operand_type f nd 0 = Some (node_type nd)" "operand_type f nd 1 = Some r"
      "\<forall>a\<in>set ?idx. \<exists>w. GetType f a = Some (BitsType w)" "GetIndexedElementType (node_type nd) (length ?idx) = Inr r"
    using ok by (auto simp: NodeChecker_HandleArrayUpdate_def expect_iff bind_returnS_iff Let_def)
  obtain a where a: "operand_value st nd 0 = Some a" "has_type a (node_type nd)" using fed_value[OF fed t(1)] by blast
  obtain v where v: "operand_value st nd 1 = Some v" "has_type v r" using fed_value[OF fed t(2)] by blast
  note set = set_value[OF fed_ready[OF fed] _ refl]
  show ?thesis
  proof (cases "?idx = []")
    case True
    then show ?thesis using a v set t(4) by (simp add: HandleArrayUpdate_def)
  next
    case False
    then obtain m d where ty: "node_type nd = ArrayType m d" 
      using GetIndexedElementType_Suc[of "node_type nd"] t(4) by (cases ?idx) fastforce+
    then obtain es where es: "a = VArray es" "has_type (VArray es) (node_type nd)" using a(2) by auto
    have V: "typed_state f V st" "set ?idx \<subseteq> V" using fed by (auto simp: fed_def ready_def dest: in_set_dropD)
    obtain g where g: "\<forall>a\<in>set ?idx. GetType f a = Some (BitsType (g a))" using bchoice[OF t(3)] by blast
    have "list_all2 (\<lambda>a w. GetType f a = Some (BitsType w)) ?idx (map g ?idx)" unfolding list_all2_map2 list_all2_same using g .
    then obtain bs bss where bs: "ResolveAsBitsVector st ?idx = Some bs" "list_all2 rep bs bss" using typed_bits_vector[OF V] by blast
    have len: "length bs = length ?idx" using bs(1) by (auto simp: ResolveAsBitsVector_def those_eq_Some_iff dest: arg_cong[of _ _ length])
    then have "bs \<noteq> []" "GetIndexedElementType (node_type nd) (length bs) = Inr r" using False t(4) by auto
    then obtain es' where es': "SetArrayElement bs v es = returnS es'" "has_type (VArray es') (node_type nd)"
      using SetArrayElement_typed[OF bs(2) _ es(2) sized _ v(2)] by blast
    then have "Value_Array es' = returnS (VArray es')" using ty Value_Array_typed[of es' d] by (simp add: returnS_def)
    then show ?thesis using False a(1) v(1) es(1) bs(1) es' set[OF es'(2)]
      by (simp add: HandleArrayUpdate_def Value_GetElements_def Value_elements_def Let_def)
  qed
qed

lemma ArrayConcat_size_ok:
  "ArrayConcat_size f as z k = returnS (z', sz) \<Longrightarrow> as \<noteq> [] \<or> z \<noteq> None \<Longrightarrow>
   \<exists>e ks. list_all2 (\<lambda>a k. GetType f a = Some (ArrayType k e)) as ks \<and> z' = Some e \<and> (z = None \<or> z = Some e) \<and> sz = k + sum_list ks"
proof (induction as arbitrary: z k)
  case (Cons a as)
  then obtain m e where m: "GetType f a = Some (ArrayType m e)" "z = None \<or> z = Some e" "ArrayConcat_size f as (Some e) (k + m) = returnS (z', sz)"
    by (cases z) (auto simp: bind_returnS_iff expect_iff split: if_splits)
  then obtain ks where "list_all2 (\<lambda>a k. GetType f a = Some (ArrayType k e)) as ks" "z' = Some e" "sz = k + m + sum_list ks"
    using Cons.IH[OF m(3)] by auto
  then show ?case using m by (intro exI[of _ e] exI[of _ "m # ks"]) auto
qed auto

lemma ArrayConcat_steps:
  assumes fed: "fed f V n nd st" and ok: "NodeChecker_HandleArrayConcat f nd = returnS ()"
  shows "steps_to f (insert n V) (HandleArrayConcat n nd st)"
proof -
  obtain z sz where z: "node_operands nd \<noteq> []" "ArrayConcat_size f (node_operands nd) None 0 = returnS (z, sz)"
      "ExpectHasArrayType (node_type nd) z (int sz) = returnS ()"
    using ok by (auto simp: NodeChecker_HandleArrayConcat_def expect_iff)
  obtain e ks where e: "list_all2 (\<lambda>a k. GetType f a = Some (ArrayType k e)) (node_operands nd) ks" "z = Some e" "sz = sum_list ks"
    using ArrayConcat_size_ok[OF z(2)] z(1) by auto
  then have ty: "node_type nd = ArrayType (sum_list ks) e" using z(3) by (auto simp: expect_iff)
  have V: "typed_state f V st" "set (node_operands nd) \<subseteq> V" using fed by (auto simp: fed_def ready_def)
  have "\<exists>ess. those (map (\<lambda>a. ResolveAsValue st a \<bind> Value_elements) as) = Some ess \<and>
      list_all2 (\<lambda>es k. es \<noteq> [] \<and> length es = k \<and> list_all (\<lambda>x. has_type x e) es) ess ks"
    if "list_all2 (\<lambda>a k. GetType f a = Some (ArrayType k e)) as ks" "set as \<subseteq> V" for as ks
    using that
  proof (induction rule: list_all2_induct)
    case (Cons a as k ks)
    then obtain v ess where v: "node_values st a = Some v" "has_type v (ArrayType k e)"
        and ess: "those (map (\<lambda>a. ResolveAsValue st a \<bind> Value_elements) as) = Some ess"
        "list_all2 (\<lambda>es k. es \<noteq> [] \<and> length es = k \<and> list_all (\<lambda>x. has_type x e) es) ess ks"
      using V(1) by (auto simp: typed_state_def)
    obtain es where es: "v = VArray es" "es \<noteq> []" "length es = k" "list_all (\<lambda>x. has_type x e) es" using v(2) by auto
    then have "ResolveAsValue st a \<bind> Value_elements = Some es" using v(1) by (simp add: ResolveAsValue_def Value_elements_def)
    then show ?case using es ess by (intro exI[of _ "es # ess"]) simp
  qed simp
  from this[OF e(1) V(2)] obtain ess where ess: "those (map (\<lambda>a. ResolveAsValue st a \<bind> Value_elements) (node_operands nd)) = Some ess"
      "list_all2 (\<lambda>es k. es \<noteq> [] \<and> length es = k \<and> list_all (\<lambda>x. has_type x e) es) ess ks" by blast
  from ess(2) have "length (concat ess) = sum_list ks" "list_all (\<lambda>x. has_type x e) (concat ess)" by (induction rule: list_all2_induct) auto
  moreover have "concat ess \<noteq> []"
  proof -
    have "length ess = length (node_operands nd)" using ess(2) e(1) by (auto dest!: list_all2_lengthD)
    then have "ess \<noteq> []" using z(1) by auto
    then show ?thesis using ess(2) by (cases ess) (auto simp: list_all2_Cons1)
  qed
  ultimately show ?thesis using array_result[OF fed_ready[OF fed] _ _ _ refl] ty ess(1) by (simp add: HandleArrayConcat_def)
qed

section \<open>Literals and events\<close>

fun wf_value :: "xvalue \<Rightarrow> bool" where
  "wf_value (VBits b) \<longleftrightarrow> wf_bitmap b"
| "wf_value (VTuple es) \<longleftrightarrow> list_all wf_value es"
| "wf_value (VArray es) \<longleftrightarrow> list_all wf_value es"
| "wf_value VToken \<longleftrightarrow> True"
| "wf_value VInvalid \<longleftrightarrow> False"

lemma ExpectValueIsType_typed:
  "ExpectValueIsType v t = returnS () \<Longrightarrow> wf_value v \<Longrightarrow> inhabited t \<Longrightarrow> has_type v t"
  "ExpectValuesAreTypes vs ts = returnS () \<Longrightarrow> length vs = length ts \<Longrightarrow> list_all wf_value vs \<Longrightarrow> list_all inhabited ts \<Longrightarrow> list_all2 has_type vs ts"
proof (induction v t and vs ts rule: ExpectValueIsType_ExpectValuesAreTypes.induct)
  case (3 es t)
  then show ?case by (cases t) (auto split: if_splits)
next
  case (4 es t)
  then show ?case by (cases t) (auto split: if_splits simp: list_all2_conv_all_nth list_all_length)
qed (auto simp: bindS_eq_returnS split: xls_type.splits)

lemma Literal_steps:
  assumes fed: "fed f V n nd st" and ok: "NodeChecker_HandleLiteral v f nd = returnS ()" and "inhabited (node_type nd)" and "wf_value v"
  shows "steps_to f (insert n V) (HandleLiteral v n nd st)"
  using assms ExpectValueIsType_typed(1)[of v "node_type nd"] set_value[OF fed_ready[OF fed] _ refl]
  by (simp add: NodeChecker_HandleLiteral_def HandleLiteral_def)

lemma bool_operand:
  assumes "ready f V n nd st" and "operand_type f nd i = Some (BitsType 1)" and "operand nd i = Some a" and "a \<in> V"
  shows "\<exists>c. ResolveAsBool st a = Some c"
proof -
  have "typed_state f V st" using assms(1) by (simp add: ready_def)
  then obtain v where v: "operand_value st nd i = Some v" "has_type v (BitsType 1)" using operand_valued[OF _ assms(2-4)] by blast
  then obtain b bs where b: "v = VBits b" "rep b bs" "length bs = 1" using bits_rep_of by blast
  then show ?thesis using v(1) assms(3) rep_count[OF b(2)]
    by (simp add: ResolveAsBool_def operand_value_def ResolveAsValue_def Value_bits_def CHECK_def)
qed

lemma AfterAll_steps:
  assumes "ready f V n nd st" and "NodeChecker_HandleAfterAll f nd = returnS ()"
  shows "steps_to f (insert n V) (HandleAfterAll n nd st)"
  using assms set_value[OF assms(1) _ refl] by (simp add: NodeChecker_HandleAfterAll_def HandleAfterAll_def expect_iff)

lemma Assert_steps:
  assumes rdy: "ready f V n nd st" and ok: "NodeChecker_HandleAssert f nd = returnS ()" and V: "set (drop 1 (node_operands nd)) \<subseteq> V"
  shows "steps_to f (insert n V) (HandleAssert message n nd st)"
proof -
  have t: "length (node_operands nd) = 2" "operand_type f nd 1 = Some (BitsType 1)" "node_type nd = TokenType"
    using ok by (auto simp: NodeChecker_HandleAssert_def expect_iff)
  then obtain a b where ops: "node_operands nd = [a, b]" by (cases "node_operands nd" rule: list.exhaust; cases "tl (node_operands nd)") auto
  then have "operand nd 1 = Some b" "b \<in> V" using V by (auto simp: operand_def at_opt_def)
  then obtain c where "ResolveAsBool st b = Some c" "operand nd 1 = Some b" using bool_operand[OF rdy t(2)] by blast
  then show ?thesis using t(3) set_value[OF rdy, of VToken] by (simp add: HandleAssert_def Let_def)
qed

text \<open>\<open>printable p w\<close>: printing a value of \<open>w\<close> bits in the format \<open>p\<close> does not fail the check of the decimal formats.\<close>

definition printable :: "format_preference \<Rightarrow> nat \<Rightarrow> bool" where
  "printable p w \<longleftrightarrow> (p = kSignedDecimal \<or> p = kUnsignedDecimal \<longrightarrow> w \<le> 64)"

fun args_printable :: "ir_function \<Rightarrow> format_step list \<Rightarrow> nat list \<Rightarrow> bool" where
  "args_printable f [] args \<longleftrightarrow> args = []"
| "args_printable f (Fragment s # steps) args \<longleftrightarrow> args_printable f steps args"
| "args_printable f (Argument p # steps) args \<longleftrightarrow>
     (case args of [] \<Rightarrow> False
      | a # args \<Rightarrow> (case GetType f a of Some (BitsType w) \<Rightarrow> printable p w | _ \<Rightarrow> False) \<and> args_printable f steps args)"

lemma Bits_ToString_ok:
  assumes "rep b bs" and "printable p (length bs)"
  shows "\<exists>s. Bits_ToString b p False = Some s"
proof -
  have small: "Bits_FitsInUint64 b" "Bits_FitsInInt64 b" if "length bs \<le> 64"
    using ToUint64_small[OF assms(1) that] ToInt64_small[OF assms(1) that]
      rep_FitsInNBitsUnsigned[OF assms(1), of 64] unum_less_64[OF that]
    by (auto simp: Bits_ToInt64_def Bits_FitsInUint64_def split: if_splits)
  have dec: "\<exists>s. Bits_ToRawDigits b q False = Some s" if "q = kUnsignedDecimal \<or> q = kSignedDecimal" "length bs \<le> 64" for q
    using that small ToUint64_small[OF assms(1)] ToInt64_small[OF assms(1)]
    by (auto simp: Bits_ToRawDigits_def CHECK_def)
  have pow: "\<exists>s. Bits_ToRawDigits b q False = Some s" if "q \<in> {kBinary, kPlainBinary, kHex, kPlainHex}" for q
    using that raw_digits_text[OF assms(1), of q 2] raw_digits_text[OF assms(1), of q 16] by auto
  have "\<exists>s. Bits_ToRawDigits b (if p = kDefault then (if bm_count b \<le> 64 then kUnsignedDecimal else kHex) else p) False = Some s"
    using assms dec pow by (cases p) (auto simp: printable_def rep_count)
  then show ?thesis by (auto simp: Bits_ToString_def Let_def)
qed

lemma Trace_loop_ok:
  "typed_state f V st \<Longrightarrow> set args \<subseteq> V \<Longrightarrow> args_printable f steps args \<Longrightarrow> \<exists>s. Trace_loop st steps args out = returnS s"
proof (induction st steps args out rule: Trace_loop.induct)
  case (3 st p steps args out)
  then obtain a args' w where a: "args = a # args'" "GetType f a = Some (BitsType w)" "printable p w" "args_printable f steps args'"
    by (auto split: list.splits option.splits xls_type.splits)
  obtain v where v: "node_values st a = Some v" "has_type v (BitsType w)" using "3.prems"(1,2) a by (auto simp: typed_state_def)
  then obtain b bs where b: "v = VBits b" "rep b bs" "length bs = w" using bits_rep_of by blast
  obtain s where s: "Value_ToHumanString p v = Some s" using Bits_ToString_ok[OF b(2), of p] a(3) b by auto
  have V: "set args' \<subseteq> V" using "3.prems"(2) a(1) by simp
  obtain r where "Trace_loop st steps args' (out @ s) = returnS r"
    using "3.IH"[OF a(1) _ s "3.prems"(1) V a(4)] v(1) by (auto simp: ResolveAsValue_def)
  then show ?case using a v s by (simp add: ResolveAsValue_def)
qed auto

lemma Trace_steps:
  assumes rdy: "ready f V n nd st" and ok: "NodeChecker_HandleTrace format f nd = returnS ()" and V: "set (drop 1 (node_operands nd)) \<subseteq> V"
    and print: "args_printable f format (drop 2 (node_operands nd))"
  shows "steps_to f (insert n V) (HandleTrace format n nd st)"
proof -
  have t: "operand_type f nd 1 = Some (BitsType 1)" "node_type nd = TokenType"
    using ok by (auto simp: NodeChecker_HandleTrace_def expect_iff)
  then obtain b where b: "operand nd 1 = Some b" by (auto simp: operand_type_def split: Option.bind_splits)
  moreover have "node_operands nd ! 1 \<in> set (drop 1 (node_operands nd))"
    using operand_SomeD[OF b] nth_mem[of 0 "drop 1 (node_operands nd)"] by simp
  ultimately have "b \<in> V" using V operand_SomeD[OF b] by blast
  then obtain c where c: "ResolveAsBool st b = Some c" using bool_operand[OF rdy t(1) b] by blast
  have "set (drop 2 (node_operands nd)) \<subseteq> V" using V set_drop_subset_set_drop[of 1 2 "node_operands nd"] by auto
  moreover have "typed_state f V st" using rdy by (simp add: ready_def)
  ultimately obtain s where "Trace_loop st format (drop 2 (node_operands nd)) [] = returnS s" using Trace_loop_ok print by blast
  then show ?thesis using b c t(2) set_value[OF rdy, of VToken] by (simp add: HandleTrace_def Let_def)
qed

end
