(* ===== verification/Xls_Verified.thy ===== *)
theory Xls_Verified
  imports Xls_Soundness
begin

text \<open>
  Calls, loops and whole functions: the second half of the soundness of verified functions. The contract between a
  node that calls a function and the interpreter of functions is \<open>call_sound\<close>; the interpreter meets it for every
  function of a verified package, by induction on the depth of the calls.
\<close>

section \<open>Calls\<close>

definition args_typed :: "ir_function \<Rightarrow> xvalue list \<Rightarrow> bool" where
  "args_typed g args \<longleftrightarrow> list_all2 (\<lambda>v p. \<exists>t. GetType g p = Some t \<and> has_type v t) args (fn_params g)"

definition call_sound :: "interp_call \<Rightarrow> ir_function \<Rightarrow> bool" where
  "call_sound call g \<longleftrightarrow> (\<forall>args. args_typed g args \<longrightarrow>
     (\<exists>v events t. call g args = returnS (v, events) \<and> return_type g = Some t \<and> has_type v t))"

lemma call_soundD:
  assumes "call_sound call g" and "args_typed g args" and "return_type g = Some t"
  obtains v events where "call g args = returnS (v, events)" "has_type v t"
  using assms by (auto simp: call_sound_def)

lemma param_type_Some: "param_type g i = Some t \<longleftrightarrow> i < length (fn_params g) \<and> GetType g (fn_params g ! i) = Some t"
  by (auto simp: param_type_def at_opt_def)

lemma args_typedI:
  "length args = length (fn_params g) \<Longrightarrow> (\<And>i. i < length args \<Longrightarrow> \<exists>t. param_type g i = Some t \<and> has_type (args ! i) t) \<Longrightarrow> args_typed g args"
  by (auto simp: args_typed_def list_all2_conv_all_nth param_type_Some)

lemma events_values [simp]: "node_values (AddInterpreterEvents e st) = node_values st"
  by (simp add: AddInterpreterEvents_def)

lemma Invoke_steps:
  assumes fed: "fed f V n nd st" and g: "at_opt pkg i = Some g" and ok: "NodeChecker_HandleInvoke pkg i f nd = returnS ()"
    and call: "call_sound call g"
  shows "steps_to f (insert n V) (HandleInvoke call g n nd st)"
proof -
  have len: "length (node_operands nd) = length (fn_params g)" and ret: "return_type g = Some (node_type nd)"
    and types: "\<forall>i<length (node_operands nd). \<exists>t. param_type g i = Some t \<and> operand_type f nd i = Some t"
    using ok g by (auto simp: NodeChecker_HandleInvoke_def expect_iff bind_returnS_iff)
  have "\<forall>i<length (fn_params g). \<exists>v t. operand_value st nd i = Some v \<and> param_type g i = Some t \<and> has_type v t"
    using types len fed_value[OF fed] by metis
  then obtain v where v: "\<And>i. i < length (fn_params g) \<Longrightarrow> operand_value st nd i = Some (v i) \<and> (\<exists>t. param_type g i = Some t \<and> has_type (v i) t)"
    by metis
  then have args: "those (map (operand_value st nd) [0..<length (fn_params g)]) = Some (map v [0..<length (fn_params g)])"
    by (intro those_map_cong) auto
  have "args_typed g (map v [0..<length (fn_params g)])" using v by (intro args_typedI) auto
  then obtain r events where "call g (map v [0..<length (fn_params g)]) = returnS (r, events)" "has_type r (node_type nd)"
    using call_soundD[OF call _ ret] by blast
  then show ?thesis using args set_value[OF fed_ready[OF fed]] by (simp add: HandleInvoke_def)
qed

lemma Map_loop_ok:
  assumes call: "call_sound call g" and par: "length (fn_params g) = 1" "param_type g 0 = Some d" and ret: "return_type g = Some e"
  shows "list_all (\<lambda>x. has_type x d) es \<Longrightarrow> \<exists>rs st'. Map_loop call g es results st = returnS (results @ rs, st') \<and>
    length rs = length es \<and> list_all (\<lambda>x. has_type x e) rs \<and> node_values st' = node_values st"
proof (induction es arbitrary: results st)
  case (Cons x es)
  have "args_typed g [x]" using Cons.prems par by (intro args_typedI) auto
  then obtain v events where v: "call g [x] = returnS (v, events)" "has_type v e" using call_soundD[OF call _ ret] by blast
  obtain rs st' where "Map_loop call g es (results @ [v]) (AddInterpreterEvents events st) = returnS ((results @ [v]) @ rs, st')"
      "length rs = length es" "list_all (\<lambda>x. has_type x e) rs" "node_values st' = node_values (AddInterpreterEvents events st)"
    using Cons.IH[of "results @ [v]" "AddInterpreterEvents events st"] Cons.prems by auto
  then show ?case using v by (intro exI[of _ "v # rs"] exI[of _ st']) simp
qed simp

lemma Map_steps:
  assumes fed: "fed f V n nd st" and g: "at_opt pkg i = Some g" and ok: "NodeChecker_HandleMap pkg i f nd = returnS ()"
    and call: "call_sound call g"
    and sizes: "\<And>k d m e. operand_type f nd 0 = Some (ArrayType k d) \<Longrightarrow> node_type nd = ArrayType m e \<Longrightarrow> k = m"
  shows "steps_to f (insert n V) (HandleMap call g n nd st)"
proof -
  obtain k d e where t: "operand_type f nd 0 = Some (ArrayType k d)" "node_type nd = ArrayType k e" "return_type g = Some e"
      "length (fn_params g) = 1" "param_type g 0 = Some d"
    using ok g sizes by (fastforce simp: NodeChecker_HandleMap_def expect_iff bind_returnS_iff)
  obtain es where es: "operand_value st nd 0 = Some (VArray es)" "es \<noteq> []" "length es = k" "list_all (\<lambda>x. has_type x d) es"
    using fed_value[OF fed t(1)] by auto
  obtain rs st' where rs: "Map_loop call g es [] st = returnS (rs, st')" "length rs = length es" "list_all (\<lambda>x. has_type x e) rs" "node_values st' = node_values st"
    using Map_loop_ok[OF call t(4,5,3) es(4), of "[]" st] by auto
  have "rs \<noteq> []" using rs(2) es(2) by auto
  then have "steps_to f (insert n V) (bindS (Value_Array rs) (\<lambda>r. SetValueResult n nd r st'))"
    using array_result[OF fed_ready[OF fed] _ _ rs(3,4)] t(2) rs(2) es(3) by simp
  then show ?thesis using es(1) rs(1) by (simp add: HandleMap_def Value_elements_def)
qed

section \<open>Counted loops\<close>

text \<open>The invariant arguments of a loop body.\<close>

definition loop_args :: "ir_function \<Rightarrow> xvalue list \<Rightarrow> bool" where
  "loop_args body invariant_args \<longleftrightarrow> length (fn_params body) = length invariant_args + 2 \<and>
     (\<forall>i<length invariant_args. \<exists>t. param_type body (i + 2) = Some t \<and> has_type (invariant_args ! i) t)"

lemma loop_args_typed:
  assumes "loop_args body invs" and "param_type body 0 = Some (BitsType w)" and "param_type body 1 = Some t"
    and "rep b bs" and "length bs = w" and "has_type v t"
  shows "args_typed body (VBits b # v # invs)"
proof (rule args_typedI)
  show "length (VBits b # v # invs) = length (fn_params body)" using assms(1) by (simp add: loop_args_def)
  fix i assume "i < length (VBits b # v # invs)"
  then consider "i = 0" | "i = 1" | j where "i = j + 2" "j < length invs" by (cases i; cases "i - 1") auto
  then show "\<exists>t. param_type body i = Some t \<and> has_type ((VBits b # v # invs) ! i) t"
    by cases (use assms in \<open>auto simp: loop_args_def rep_def bits_of_def\<close>)
qed

lemma CountedFor_loop_ok:
  assumes call: "call_sound call body" and invs: "loop_args body invs" and ix: "param_type body 0 = Some (BitsType w)"
    and ty: "param_type body 1 = Some t" "return_type body = Some t"
  shows "has_type v t \<Longrightarrow> \<forall>j<trips. unat (iv + of_nat j * of_int stride) < 2 ^ w \<Longrightarrow>
    \<exists>v' st'. CountedFor_loop call body invs w stride trips iv v st = returnS (v', st') \<and> has_type v' t \<and> node_values st' = node_values st"
proof (induction trips arbitrary: iv v st)
  case (Suc trips)
  have iv: "unat iv < 2 ^ w" using Suc.prems(2)[rule_format, of 0] by simp
  then obtain b where b: "UBits iv w = Some b" "rep b (nat_bl w (unat iv))" using returns_UBits[OF iv] by (auto simp: returns_def)
  obtain r events where r: "call body (VBits b # v # invs) = returnS (r, events)" "has_type r t"
    using call_soundD[OF call loop_args_typed[OF invs ix ty(1) b(2) _ Suc.prems(1)] ty(2)] by auto
  have "unat (iv + of_int stride + of_nat j * of_int stride) < 2 ^ w" if "j < trips" for j
    using Suc.prems(2)[rule_format, of "Suc j"] that by (simp add: algebra_simps)
  then show ?case using Suc.IH[OF r(2), of "iv + of_int stride" "AddInterpreterEvents events st"] b r(1) by auto
qed simp

text \<open>
  The verifier's bound on the width of the induction variable suffices when the product it computes does not overflow.
  A negative stride makes the product negative, which as an unsigned number takes all 64 bits.
\<close>

lemma int_unat_of_int64: "0 \<le> k \<Longrightarrow> k < 2 ^ 64 \<Longrightarrow> int (unat (of_int k :: uint64)) = k"
  by (simp add: unsigned_of_int take_bit_int_eq_self)

lemma counted_for_index:
  assumes fits: "MinBitCountUnsigned (of_int stride * (of_int trips - 1)) \<le> w" and small: "\<bar>stride\<bar> * (trips - 1) < 2 ^ 63"
    and j: "int j < trips"
  shows "unat (of_nat j * of_int stride :: uint64) < 2 ^ w"
proof (cases "0 \<le> stride")
  case True
  have le: "stride * int j \<le> stride * (trips - 1)" using True j by (intro mult_left_mono) auto
  have eq: "(of_nat j * of_int stride :: uint64) = of_int (stride * int j)" by (simp add: mult.commute)
  have "0 \<le> stride * int j" "stride * int j < 2 ^ 64" using True le small by auto
  then have a: "int (unat (of_nat j * of_int stride :: uint64)) = stride * int j" unfolding eq by (rule int_unat_of_int64)
  have eq': "(of_int stride * (of_int trips - 1) :: uint64) = of_int (stride * (trips - 1))" by simp
  have "0 \<le> stride * (trips - 1)" "stride * (trips - 1) < 2 ^ 64" using True j small by auto
  then have "int (unat (of_int stride * (of_int trips - 1) :: uint64)) = stride * (trips - 1)" unfolding eq' by (rule int_unat_of_int64)
  then show ?thesis using a le fits unfolding MinBitCountUnsigned_le_iff by linarith
next
  case False
  show ?thesis
  proof (cases "trips = 1")
    case True
    then show ?thesis using j by simp
  next
    case False
    let ?p = "stride * (trips - 1)"
    have neg: "- (2 ^ 63) \<le> ?p" "?p < 0" using \<open>\<not> 0 \<le> stride\<close> False j small by (auto simp: abs_if mult_less_0_iff)
    then have "sint (of_int ?p :: uint64) = ?p" using sint_of_int64[of ?p] by simp
    then have "int (unat (of_int ?p :: uint64)) = ?p + 2 ^ 64" using neg(2) sint_uint64[of "of_int ?p"] by (auto split: if_splits)
    then have "int (2 ^ 63) \<le> int (unat (of_int ?p :: uint64))" using neg(1) by simp
    then have "2 ^ 63 \<le> unat (of_int ?p :: uint64)" by (simp only: of_nat_le_iff)
    moreover have "unat (of_int ?p :: uint64) < 2 ^ w" using fits unfolding MinBitCountUnsigned_le_iff by simp
    ultimately have "(2 :: nat) ^ 63 < 2 ^ w" by (rule le_less_trans)
    then have "63 < w" by (rule power_less_imp_less_exp[rotated]) simp
    then have "64 \<le> w" by simp
    then have "(2 :: nat) ^ 64 \<le> 2 ^ w" by (intro power_increasing) auto
    moreover have "unat (of_nat j * of_int stride :: uint64) < 2 ^ 64" using unsigned_less[of "of_nat j * of_int stride :: uint64"] by simp
    ultimately show ?thesis by linarith
  qed
qed

lemma operand_type_drop: "i < length (drop k (node_operands nd)) \<Longrightarrow> operand_type f nd (i + k) = GetType f (drop k (node_operands nd) ! i)"
  by (auto simp: operand_type_def operand_def at_opt_def add.commute)

lemma loop_invariant_args:
  assumes fed: "fed f V n nd st" and len: "length (fn_params body) = length (drop k (node_operands nd)) + 2"
    and args: "\<forall>i<length (drop k (node_operands nd)). \<exists>t. operand_type f nd (i + k) = Some t \<and> param_type body (i + 2) = Some t"
  shows "\<exists>invs. those (map (ResolveAsValue st) (drop k (node_operands nd))) = Some invs \<and> loop_args body invs"
proof -
  let ?inv = "drop k (node_operands nd)"
  have V: "typed_state f V st" "set ?inv \<subseteq> V" using fed by (auto simp: fed_def ready_def dest: in_set_dropD)
  obtain ts where ts: "\<And>i. i < length ?inv \<Longrightarrow> operand_type f nd (i + k) = Some (ts i) \<and> param_type body (i + 2) = Some (ts i)"
    using args by metis
  have "list_all2 (\<lambda>a t. GetType f a = Some t) ?inv (map ts [0..<length ?inv])"
    using ts operand_type_drop[where k = k and nd = nd and f = f] by (simp add: list_all2_conv_all_nth)
  then obtain invs where "those (map (ResolveAsValue st) ?inv) = Some invs" "list_all2 has_type invs (map ts [0..<length ?inv])"
    using typed_values[OF V] by blast
  then show ?thesis using ts len by (auto simp: loop_args_def list_all2_conv_all_nth)
qed

lemma CountedFor_steps:
  assumes fed: "fed f V n nd st" and g: "at_opt pkg i = Some body" and ok: "NodeChecker_HandleCountedFor pkg trips stride i f nd = returnS ()"
    and call: "call_sound call body" and small: "\<bar>stride\<bar> * (trips - 1) < 2 ^ 63"
  shows "steps_to f (insert n V) (HandleCountedFor call trips stride body n nd st)"
proof -
  let ?inv = "tl (node_operands nd)"
  obtain w where w: "param_type body 0 = Some (BitsType w)"
      "(if trips \<le> 1 then 1 else MinBitCountUnsigned (of_int stride * (of_int trips - 1))) \<le> w" "0 \<le> trips"
      and ne: "node_operands nd \<noteq> []" and len: "length (fn_params body) = length (node_operands nd) + 1"
      and ty: "operand_type f nd 0 = Some (node_type nd)" "param_type body 1 = Some (node_type nd)" "return_type body = Some (node_type nd)"
      and args: "\<forall>i<length (node_operands nd) - 1. \<exists>t. operand_type f nd (i + 1) = Some t \<and> param_type body (i + 2) = Some t"
    using ok g by (auto simp: NodeChecker_HandleCountedFor_def expect_iff bind_returnS_iff Let_def split: if_splits)
  obtain invs where invs: "those (map (ResolveAsValue st) ?inv) = Some invs" and la: "loop_args body invs"
    using loop_invariant_args[OF fed, where k = 1] len ne args by (auto simp: drop_Suc Suc_diff_Suc)
  obtain v where v: "operand_value st nd 0 = Some v" "has_type v (node_type nd)" using fed_value[OF fed ty(1)] by blast
  have "unat (0 + of_nat j * of_int stride :: uint64) < 2 ^ w" if "j < nat trips" for j
  proof (cases "trips \<le> 1")
    case True
    then have "j = 0" using that by linarith
    then show ?thesis by simp
  next
    case False
    then show ?thesis using counted_for_index[OF _ small, of w j] w(2) that by simp
  qed
  then obtain v' st' where "CountedFor_loop call body invs w stride (nat trips) 0 v st = returnS (v', st')" "has_type v' (node_type nd)" "node_values st' = node_values st"
    using CountedFor_loop_ok[OF call la w(1) ty(2,3) v(2)] by blast
  then show ?thesis using invs v(1) w(1) set_value[OF fed_ready[OF fed]] by (simp add: HandleCountedFor_def Type_AsBitsOrDie_def)
qed

section \<open>Dynamic counted loops\<close>

text \<open>The loop ends exactly when the limit \<open>trip_count * stride\<close> is a number of the index's width.\<close>

definition in_range :: "nat \<Rightarrow> int \<Rightarrow> bool" where
  "in_range w k \<longleftrightarrow> 0 < w \<and> - (2 ^ (w - 1)) \<le> k \<and> k < 2 ^ (w - 1)"

lemma in_range_between:
  assumes "in_range w (int k * s)" and "j \<le> k" and "0 < w"
  shows "in_range w (int j * s)"
proof (cases "0 \<le> s")
  case True
  then have "int j * s \<le> int k * s" "0 \<le> int j * s" using assms(2) by (auto intro: mult_right_mono)
  moreover have "- (2 ^ (w - 1)) \<le> (0 :: int)" by simp
  ultimately show ?thesis using assms(1) unfolding in_range_def by linarith
next
  case False
  then have "int k * s \<le> int j * s" "int j * s \<le> 0" using assms(2) by (auto intro: mult_right_mono_neg simp: mult_nonneg_nonpos)
  moreover have "0 < (2 :: int) ^ (w - 1)" by simp
  ultimately show ?thesis using assms(1) unfolding in_range_def by linarith
qed

lemma snum_in_range: "bs \<noteq> [] \<Longrightarrow> in_range (length bs) (snum bs)"
  using snum_range[of bs] by (simp add: in_range_def)

lemma index_step:
  assumes B: "bignum B num" and i: "rep i is" "length is = w" "snum is = int j * s" and e: "rep e es" "length es = w" "snum es = s"
    and "in_range w (int (Suc j) * s)"
  shows "\<exists>i' is'. bits_Add B i e = Some i' \<and> rep i' is' \<and> length is' = w \<and> snum is' = int (Suc j) * s"
proof -
  have "returns (bits_Add B i e) (int_bl w (snum is + snum es))"
    using bignum.returns_Add[OF B i(1) e(1)] int_bl_snum_op(1)[of "is" w es] i(2) e(2) by simp
  then have "returns (bits_Add B i e) (int_bl w (int (Suc j) * s))" using i(3) e(3) by (simp add: algebra_simps)
  moreover have "snum (int_bl w (int (Suc j) * s)) = int (Suc j) * s" using assms(8) unfolding in_range_def by (intro snum_int_bl) auto
  ultimately show ?thesis unfolding returns_def by (metis length_int_bl)
qed

lemma DynamicCountedFor_loop_ok:
  assumes B: "bignum B num" and call: "call_sound call body" and invs: "loop_args body invs" and ix: "param_type body 0 = Some (BitsType w)"
    and ty: "param_type body 1 = Some t" "return_type body = Some t"
    and e: "rep e es" "length es = w" "snum es = s" and l: "rep l ls" "snum ls = int k * s" and range: "in_range w (int k * s)"
  shows "has_type v t \<Longrightarrow> rep i is \<Longrightarrow> length is = w \<Longrightarrow> snum is = int j * s \<Longrightarrow> j \<le> k \<Longrightarrow>
    \<exists>v' st'. DynamicCountedFor_loop B call body invs l e i v st = returnS (v', st') \<and> has_type v' t \<and> node_values st' = node_values st"
proof (induction "k - j" arbitrary: j i "is" v st)
  case 0
  then have "bits_SEqual B i l" using bignum.SEqual_iff[OF B \<open>rep i is\<close> l(1)] l(2) by simp
  then show ?case using 0 by (subst DynamicCountedFor_loop.simps) (simp add: returnS_def)
next
  case (Suc m)
  show ?case
  proof (cases "bits_SEqual B i l")
    case True
    then show ?thesis using Suc.prems by (subst DynamicCountedFor_loop.simps) (simp add: returnS_def)
  next
    case False
    obtain r events where r: "call body (VBits i # v # invs) = returnS (r, events)" "has_type r t"
      using call_soundD[OF call loop_args_typed[OF invs ix ty(1) Suc.prems(2,3,1)] ty(2)] by auto
    have "0 < w" using range by (simp add: in_range_def)
    moreover have "Suc j \<le> k" using Suc.hyps(2) by simp
    ultimately have "in_range w (int (Suc j) * s)" using in_range_between[OF range] by blast
    then obtain i' is' where i': "bits_Add B i e = Some i'" "rep i' is'" "length is' = w" "snum is' = int (Suc j) * s"
      using index_step[OF B Suc.prems(2-4) e] by blast
    have "m = k - Suc j" using Suc.hyps(2) by simp
    then obtain v' st' where "DynamicCountedFor_loop B call body invs l e i' r (AddInterpreterEvents events st) = returnS (v', st')"
        "has_type v' t" "node_values st' = node_values (AddInterpreterEvents events st)"
      using Suc.hyps(1)[OF _ r(2) i'(2-4) \<open>Suc j \<le> k\<close>] by blast
    then show ?thesis using False r(1) i'(1) by (subst DynamicCountedFor_loop.simps) (simp add: returnS_def)
  qed
qed

lemma DynamicCountedFor_loop_diverges:
  "DynamicCountedFor_loop B call body invs l e i v st = Some y \<Longrightarrow> bignum B num \<Longrightarrow> call_sound call body \<Longrightarrow> loop_args body invs \<Longrightarrow>
   param_type body 0 = Some (BitsType w) \<Longrightarrow> param_type body 1 = Some t \<Longrightarrow> return_type body = Some t \<Longrightarrow>
   rep e es \<Longrightarrow> length es = w \<Longrightarrow> rep l ls \<Longrightarrow> \<not> in_range w (snum ls) \<Longrightarrow> 0 < w \<Longrightarrow>
   has_type v t \<Longrightarrow> rep i is \<Longrightarrow> length is = w \<Longrightarrow> False"
proof (induction arbitrary: "is" rule: DynamicCountedFor_loop.raw_induct[rotated, consumes 1, case_names step])
  case (step loop B call body invs l e i v st y)
  have "is \<noteq> []" using step.prems by auto
  then have "in_range w (snum is)" using snum_in_range[of "is"] step.prems by simp
  then have ne: "\<not> bits_SEqual B i l" using bignum.SEqual_iff[of B num i "is" l ls] step.prems by auto
  have "args_typed body (VBits i # v # invs)" using loop_args_typed[of body invs w t i "is" v] step.prems by blast
  then obtain r events where r: "call body (VBits i # v # invs) = returnS (r, events)" "has_type r t"
    using call_soundD[of call body "VBits i # v # invs" t] step.prems by blast
  obtain i' where i': "bits_Add B i e = Some i'" "rep i' (nat_bl w (unum is + unum es))"
    using bignum.returns_Add[of B num i "is" e es] step.prems by (auto simp: returns_def)
  have "loop B call body invs l e i' r (AddInterpreterEvents events st) = Some y"
    using step.hyps ne r(1) i'(1) by (simp add: returnS_def)
  from step.IH[OF this step.prems(1-11) r(2) i'(2)] show ?case by simp
qed

lemma trip_count_extended:
  assumes "rep b bs"
  shows "\<exists>t ts. bits_ZeroExtend b (bm_count b + 1) = Some t \<and> rep t ts \<and> length ts = length bs + 1 \<and> snum ts = int (unum bs)"
proof -
  have "returns (bits_ZeroExtend b (bm_count b + 1)) (nat_bl (length bs + 1) (unum bs))"
    using returns_ZeroExtend[OF assms, of "length bs + 1"] by (simp add: rep_count[OF assms])
  moreover have "snum (nat_bl (length bs + 1) (unum bs)) = int (unum bs)"
  proof -
    have "int (unum bs) < 2 ^ length bs" using unum_bound[of bs] by (metis of_nat_less_iff of_nat_numeral of_nat_power)
    moreover have "- (2 ^ length bs) \<le> int (unum bs)" by (rule order_trans[of _ 0]) simp_all
    ultimately have "snum (int_bl (length bs + 1) (int (unum bs))) = int (unum bs)" by (intro snum_int_bl) auto
    then show ?thesis by simp
  qed
  ultimately show ?thesis unfolding returns_def by (metis length_nat_bl)
qed

lemma index_limit_value:
  assumes B: "bignum B num" and t: "rep t ts" "ts \<noteq> []" and s: "rep s ss"
  shows "\<exists>l ls. bits_SMul B t s = Some l \<and> rep l ls \<and> snum ls = snum ts * snum ss"
proof -
  let ?n = "length ts + length ss"
  have "snum (int_bl ?n (snum ts * snum ss)) = snum ts * snum ss"
  proof (cases "ss = []")
    case True
    then show ?thesis using t(2) snum_int_bl[of ?n 0] by simp
  next
    case False
    then show ?thesis using snum_mult_range[OF t(2) False] by (intro snum_int_bl) auto
  qed
  then show ?thesis using bignum.returns_SMul[OF B t(1) s] unfolding returns_def by blast
qed

lemma stride_extended:
  assumes "rep c cs" and "length cs \<le> w" and "0 < w"
  shows "\<exists>e. bits_SignExtend c w = Some e \<and> rep e (int_bl w (snum cs)) \<and> snum (int_bl w (snum cs)) = snum cs"
proof -
  have "in_range w (snum cs)"
  proof (cases "cs = []")
    case False
    then have "(2 :: int) ^ (length cs - 1) \<le> 2 ^ (w - 1)" using assms(2) by (intro power_increasing) auto
    then show ?thesis using snum_range[OF False] assms(3) unfolding in_range_def by linarith
  qed (use assms(3) in \<open>simp add: in_range_def\<close>)
  then have "snum (int_bl w (snum cs)) = snum cs" unfolding in_range_def by (intro snum_int_bl) auto
  then show ?thesis using returns_SignExtend[OF assms(1,2)] by (auto simp: returns_def)
qed

lemma product_in_range:
  assumes "length bs + length cs \<le> w" and "0 < w"
  shows "in_range w (int (unum bs) * snum cs)"
proof (cases "cs = []")
  case False
  have "int (unum bs) * \<bar>snum cs\<bar> \<le> int (unum bs) * 2 ^ (length cs - 1)"
    using snum_range[OF False] by (intro mult_left_mono) auto
  also have "\<dots> < 2 ^ length bs * 2 ^ (length cs - 1)"
    using unum_bound[of bs] by (intro mult_strict_right_mono) (metis of_nat_less_iff of_nat_numeral of_nat_power, simp)
  also have "\<dots> = 2 ^ (length bs + (length cs - 1))" by (simp add: power_add)
  also have "\<dots> \<le> 2 ^ (w - 1)" using assms(1) False by (intro power_increasing) (cases cs; simp)+
  finally have "\<bar>int (unum bs) * snum cs\<bar> < 2 ^ (w - 1)" by (simp add: abs_mult)
  then show ?thesis using assms(2) unfolding in_range_def by linarith
qed (use assms(2) in \<open>simp add: in_range_def\<close>)

lemma DynamicCountedFor_types:
  assumes "at_opt pkg i = Some body" and "NodeChecker_HandleDynamicCountedFor pkg i f nd = returnS ()"
  obtains w u s where "param_type body 0 = Some (BitsType w)" "operand_type f nd 1 = Some (BitsType u)" "u < w"
    "operand_type f nd 2 = Some (BitsType s)" "s \<le> w"
    "length (fn_params body) = length (drop 3 (node_operands nd)) + 2" "3 \<le> length (node_operands nd)"
    "operand_type f nd 0 = Some (node_type nd)" "param_type body 1 = Some (node_type nd)" "return_type body = Some (node_type nd)"
    "\<forall>i<length (drop 3 (node_operands nd)). \<exists>t. operand_type f nd (i + 3) = Some t \<and> param_type body (i + 2) = Some t"
proof -
  have "3 \<le> length (node_operands nd)"
  proof -
    have "operand_type f nd 2 \<noteq> None"
      using assms by (auto simp: NodeChecker_HandleDynamicCountedFor_def expect_iff bind_returnS_iff Let_def)
    then show ?thesis by (auto simp: operand_type_def operand_def at_opt_def split: if_splits)
  qed
  then show ?thesis using assms that
    by (auto simp: NodeChecker_HandleDynamicCountedFor_def expect_iff bind_returnS_iff Let_def split: if_splits)
qed

text \<open>
  The handler of a verified loop whose body can be called: it returns a value of the type of the loop when
  \<open>trip_count * stride\<close> fits the width of the index, and runs forever otherwise.
\<close>

lemma DynamicCountedFor_outcome:
  assumes B: "bignum B num" and fed: "fed f V n nd st" and g: "at_opt pkg i = Some body"
    and ok: "NodeChecker_HandleDynamicCountedFor pkg i f nd = returnS ()" and call: "call_sound call body"
    and trip: "operand_bits st nd 1 = Some b" "rep b bs" and stride: "operand_bits st nd 2 = Some c" "rep c cs"
    and ix: "param_type body 0 = Some (BitsType w)"
  shows "if in_range w (int (unum bs) * snum cs) then steps_to f (insert n V) (HandleDynamicCountedFor B call body n nd st)
    else HandleDynamicCountedFor B call body n nd st = None"
proof -
  obtain w' u s where w: "param_type body 0 = Some (BitsType w')" "operand_type f nd 1 = Some (BitsType u)" "u < w'"
    "operand_type f nd 2 = Some (BitsType s)" "s \<le> w'"
    "length (fn_params body) = length (drop 3 (node_operands nd)) + 2" "3 \<le> length (node_operands nd)"
    and ty: "operand_type f nd 0 = Some (node_type nd)" "param_type body 1 = Some (node_type nd)" "return_type body = Some (node_type nd)"
    and args: "\<forall>i<length (drop 3 (node_operands nd)). \<exists>t. operand_type f nd (i + 3) = Some t \<and> param_type body (i + 2) = Some t"
    using DynamicCountedFor_types[OF g ok] by metis
  have [simp]: "w' = w" using w(1) ix by simp
  let ?inv = "drop 3 (node_operands nd)"
  obtain invs where invs: "those (map (ResolveAsValue st) ?inv) = Some invs" and la: "loop_args body invs"
    using loop_invariant_args[OF fed w(6) args] by blast
  obtain v where v: "operand_value st nd 0 = Some v" "has_type v (node_type nd)" using fed_value[OF fed ty(1)] by blast
  have len: "length cs = s" using fed_bits[OF fed w(4)] stride by (auto simp: rep_def bits_of_def)
  obtain t' ts' where t': "bits_ZeroExtend b (bm_count b + 1) = Some t'" "rep t' ts'" "length ts' = length bs + 1" "snum ts' = int (unum bs)"
    using trip_count_extended[OF trip(2)] by blast
  have "ts' \<noteq> []" using t'(3) by auto
  then obtain l ls where l: "bits_SMul B t' c = Some l" "rep l ls" "snum ls = int (unum bs) * snum cs"
    using index_limit_value[OF B t'(2) _ stride(2)] t'(4) by auto
  have cnt: "bm_count (Bits_new w) = w" "Bits_IsZero (Bits_new w)" using rep_count[OF rep_new[of w]] rep_IsZero[OF rep_new[of w]] by (simp_all add: unum_eq_0_iff)
  have w0: "0 < w" using w(3) by simp
  obtain e where e: "bits_SignExtend c w = Some e" "rep e (int_bl w (snum cs))" and es: "snum (int_bl w (snum cs)) = snum cs"
    using stride_extended[OF stride(2) _ w0] len w(5) by auto
  have unfold: "HandleDynamicCountedFor B call body n nd st =
      bindS (DynamicCountedFor_loop B call body invs l e (Bits_new w) v st) (\<lambda>(v, st). SetValueResult n nd v st)"
    using invs v(1) ix trip(1) stride(1) t'(1) l(1) e(1) cnt by (simp add: HandleDynamicCountedFor_def Type_AsBitsOrDie_def Let_def)
  have zero: "snum (replicate w False) = int 0 * snum cs" by (simp add: snum_eq_0_iff unum_eq_0_iff)
  show ?thesis
  proof (cases "in_range w (int (unum bs) * snum cs)")
    case True
    obtain v' st' where "DynamicCountedFor_loop B call body invs l e (Bits_new w) v st = returnS (v', st')" "has_type v' (node_type nd)" "node_values st' = node_values st"
      using DynamicCountedFor_loop_ok[where st = st, OF B call la ix ty(2,3) e(2) _ es l(2,3) True v(2) rep_new _ zero] by auto
    then show ?thesis using True unfold set_value[OF fed_ready[OF fed]] by simp
  next
    case False
    then have "DynamicCountedFor_loop B call body invs l e (Bits_new w) v st = None"
      using DynamicCountedFor_loop_diverges[where st = st, OF _ B call la ix ty(2,3) e(2) _ l(2) _ w0 v(2) rep_new] l(3) by fastforce
    then show ?thesis using False unfold by simp
  qed
qed

section \<open>What the verifier leaves open\<close>

text \<open>
  The interpreter sets no value for a cover node, reads neither the operands of \<open>after_all\<close> nor the token operand of
  \<open>assert\<close> and \<open>trace\<close>, and all operands of the other nodes.
\<close>

definition sets_value :: "ir_node \<Rightarrow> bool" where
  "sets_value nd \<longleftrightarrow> (case node_op nd of Cover label \<Rightarrow> False | _ \<Rightarrow> True)"

definition has_result :: "ir_function \<Rightarrow> nat \<Rightarrow> bool" where
  "has_result f n \<longleftrightarrow> (case GetNode f n of Some nd \<Rightarrow> sets_value nd | None \<Rightarrow> False)"

definition read_operands :: "ir_node \<Rightarrow> nat list" where
  "read_operands nd = (case node_op nd of
     AfterAll \<Rightarrow> [] | Cover label \<Rightarrow> [] | Assert m l \<Rightarrow> drop 1 (node_operands nd) | Trace format \<Rightarrow> drop 1 (node_operands nd)
   | _ \<Rightarrow> node_operands nd)"

definition callees :: "ir_node \<Rightarrow> nat list" where
  "callees nd = (case node_op nd of
     Invoke g \<Rightarrow> [g] | Map g \<Rightarrow> [g] | CountedFor t s g \<Rightarrow> [g] | DynamicCountedFor g \<Rightarrow> [g] | _ \<Rightarrow> [])"

definition bits_operand :: "ir_function \<Rightarrow> ir_node \<Rightarrow> nat \<Rightarrow> (nat \<Rightarrow> bool) \<Rightarrow> bool" where
  "bits_operand f nd i p \<longleftrightarrow> (case operand_type f nd i of Some (BitsType w) \<Rightarrow> p w | _ \<Rightarrow> False)"

definition array_size :: "xls_type option \<Rightarrow> nat" where
  "array_size t = (case t of Some (ArrayType k e) \<Rightarrow> k | _ \<Rightarrow> 0)"

definition cases_typed :: "ir_function \<Rightarrow> ir_node \<Rightarrow> bool" where
  "cases_typed f nd \<longleftrightarrow> list_all (\<lambda>i. operand_type f nd i = Some (node_type nd)) [1..<length (node_operands nd)]"

definition interpretable_op :: "ir_package \<Rightarrow> ir_function \<Rightarrow> ir_node \<Rightarrow> bool" where
  "interpretable_op pkg f nd \<longleftrightarrow> (case node_op nd of
     PartialProductOp op w \<Rightarrow> node_type nd = TupleType [BitsType w, BitsType w]
   | CompareOp op \<Rightarrow> bits_operand f nd 0 (\<lambda>w. True)
   | BitSlice start width \<Rightarrow> start + width < 2 ^ 63
   | Decode w \<Rightarrow> bits_operand f nd 0 (\<lambda>u. u < 64)
   | OneHotSelect \<Rightarrow> cases_typed f nd
   | PrioritySelect \<Rightarrow> cases_typed f nd
   | Select k has_default \<Rightarrow> length (node_operands nd) = 1 + k + (if has_default then 1 else 0) \<and> 0 < k \<and> k < 2 ^ 64 \<and>
       (has_default \<longrightarrow> operand_type f nd (k + 1) = Some (node_type nd))
   | Literal v \<Rightarrow> wf_value v
   | Map g \<Rightarrow> array_size (operand_type f nd 0) = array_size (Some (node_type nd))
   | CountedFor trip_count stride g \<Rightarrow> \<bar>stride\<bar> * (trip_count - 1) < 2 ^ 63
   | DynamicCountedFor g \<Rightarrow>
       (case at_opt pkg g \<bind> (\<lambda>body. param_type body 0) of
          Some (BitsType w) \<Rightarrow> bits_operand f nd 1 (\<lambda>u. bits_operand f nd 2 (\<lambda>s. u + s \<le> w))
        | _ \<Rightarrow> False)
   | Trace format \<Rightarrow> args_printable f format (drop 2 (node_operands nd))
   | Receive c b \<Rightarrow> False | Send c \<Rightarrow> False | BlockOp op \<Rightarrow> False
   | _ \<Rightarrow> True)"

definition interpretable :: "ir_package \<Rightarrow> ir_function \<Rightarrow> ir_node \<Rightarrow> bool" where
  "interpretable pkg f nd \<longleftrightarrow> inhabited (node_type nd) \<and> machine_sized (node_type nd) \<and> list_all (has_result f) (read_operands nd) \<and>
     interpretable_op pkg f nd"

lemma bits_operand_iff: "bits_operand f nd i p \<longleftrightarrow> (\<exists>w. operand_type f nd i = Some (BitsType w) \<and> p w)"
  by (auto simp: bits_operand_def split: option.splits xls_type.splits)

lemma cases_typed_iff: "cases_typed f nd \<longleftrightarrow> (\<forall>i\<in>{1..<length (node_operands nd)}. operand_type f nd i = Some (node_type nd))"
  by (auto simp: cases_typed_def list_all_iff)

lemmas visit_simps = IrInterpreter_Visit_def NodeChecker_Visit_def interpretable_op_def read_operands_def sets_value_def callees_def
  bits_operand_iff cases_typed_iff

lemma fedI: "ready f V n nd st \<Longrightarrow> set (node_operands nd) \<subseteq> V \<Longrightarrow> fed f V n nd st"
  by (simp add: fed_def)

section \<open>Every operation\<close>

lemma Visit_call_steps:
  assumes B: "bignum B num" and rdy: "ready f V n nd st" and reads: "set (read_operands nd) \<subseteq> V"
    and ok: "NodeChecker_Visit pkg channels f nd = returnS ()" and safe: "interpretable_op pkg f nd"
    and call: "\<forall>g\<in>set (callees nd). \<exists>fn. at_opt pkg g = Some fn \<and> call_sound call fn" and calls: "callees nd \<noteq> []"
  shows "steps_to f (insert n V) (IrInterpreter_Visit B call pkg param f n nd st)"
proof -
  have fed: "fed f V n nd st" using calls reads rdy by (cases "node_op nd") (auto simp: visit_simps intro: fedI)
  show ?thesis using calls
  proof (cases "node_op nd")
    case (Invoke g)
    then obtain fn where "at_opt pkg g = Some fn" "call_sound call fn" using call by (auto simp: visit_simps)
    then show ?thesis using Invoke ok Invoke_steps[OF fed] by (simp add: visit_simps)
  next
    case (Map g)
    then obtain fn where "at_opt pkg g = Some fn" "call_sound call fn" using call by (auto simp: visit_simps)
    moreover have "k = m" if "operand_type f nd 0 = Some (ArrayType k d)" "node_type nd = ArrayType m e" for k d m e
      using that safe Map by (simp add: visit_simps array_size_def)
    ultimately show ?thesis using Map ok Map_steps[OF fed, of pkg g fn call] by (simp add: visit_simps)
  next
    case (CountedFor t s g)
    then obtain fn where "at_opt pkg g = Some fn" "call_sound call fn" using call by (auto simp: visit_simps)
    then show ?thesis using CountedFor ok safe CountedFor_steps[OF fed] by (simp add: visit_simps)
  next
    case (DynamicCountedFor g)
    then obtain body where body: "at_opt pkg g = Some body" "call_sound call body" using call by (auto simp: visit_simps)
    then obtain w u s where ty: "param_type body 0 = Some (BitsType w)" "operand_type f nd 1 = Some (BitsType u)"
        "operand_type f nd 2 = Some (BitsType s)" and le: "u + s \<le> w"
      using safe DynamicCountedFor by (auto simp: visit_simps split: option.splits xls_type.splits)
    have ok': "NodeChecker_HandleDynamicCountedFor pkg g f nd = returnS ()" using ok DynamicCountedFor by (simp add: visit_simps)
    obtain b bs where b: "operand_bits st nd 1 = Some b" "rep b bs" "length bs = u" using fed_bits[OF fed ty(2)] by blast
    obtain c cs where c: "operand_bits st nd 2 = Some c" "rep c cs" "length cs = s" using fed_bits[OF fed ty(3)] by blast
    have "0 < w" using DynamicCountedFor_types[OF body(1) ok'] ty(1) by auto
    then have "in_range w (int (unum bs) * snum cs)" using product_in_range[of bs cs w] b(3) c(3) le by simp
    then show ?thesis using DynamicCountedFor_outcome[OF B fed body(1) ok' body(2) b(1,2) c(1,2) ty(1)] body(1) DynamicCountedFor
      by (simp add: visit_simps)
  qed (simp_all add: visit_simps)
qed

lemma Visit_steps:
  assumes B: "bignum B num" and rdy: "ready f V n nd st" and reads: "set (read_operands nd) \<subseteq> V"
    and ok: "NodeChecker_Visit pkg channels f nd = returnS ()" and safe: "interpretable pkg f nd"
    and sized: "\<And>i t. operand_type f nd i = Some t \<Longrightarrow> machine_sized t"
    and call: "\<forall>g\<in>set (callees nd). \<exists>fn. at_opt pkg g = Some fn \<and> call_sound call fn"
    and param: "node_op nd = Param \<Longrightarrow> steps_to f (insert n V) (param n nd st)"
  shows "steps_to f (if sets_value nd then insert n V else V) (IrInterpreter_Visit B call pkg param f n nd st)"
proof -
  have fed: "fed f V n nd st" if "read_operands nd = node_operands nd" using that reads rdy by (auto intro: fedI)
  have safe': "inhabited (node_type nd)" "machine_sized (node_type nd)" "interpretable_op pkg f nd"
    using safe by (simp_all add: interpretable_def)
  have width: "u < 2 ^ 63" if "operand_type f nd i = Some (BitsType u)" for i u using sized[OF that] by simp
  note calls = Visit_call_steps[OF B rdy reads ok safe'(3) call]
  show ?thesis
  proof (cases "node_op nd")
    case (ArithOp op w)
    then obtain u v k where "operand_type f nd 0 = Some (BitsType u)" "operand_type f nd 1 = Some (BitsType v)" "node_type nd = BitsType k"
      using ok by (cases op) (auto simp: visit_simps NodeChecker_HandleSMul_def NodeChecker_HandleUMul_def expect_iff)
    then show ?thesis using ArithOp ArithOp_steps[OF B fed] by (cases op) (simp_all add: visit_simps)
  next
    case (PartialProductOp op w)
    then obtain u v where "operand_type f nd 0 = Some (BitsType u)" "operand_type f nd 1 = Some (BitsType v)"
      using ok by (cases op) (auto simp: visit_simps NodeChecker_HandleSMulp_def NodeChecker_HandleUMulp_def expect_iff)
    then show ?thesis using PartialProductOp safe'(3) PartialProductOp_steps[OF B fed] by (cases op) (simp_all add: visit_simps)
  next
    case (CompareOp op)
    then show ?thesis using ok safe'(3) CompareOp_steps[OF B fed] by (auto simp: visit_simps)
  next
    case (ExtendOp op w)
    then have "NodeChecker_HandleExtendOp w f nd = returnS ()"
      using ok by (cases op) (simp_all add: visit_simps NodeChecker_HandleSignExtend_def NodeChecker_HandleZeroExtend_def)
    then show ?thesis using ExtendOp ExtendOp_steps[OF fed] by (cases op) (simp_all add: visit_simps)
  next
    case (Decode w)
    then show ?thesis using ok safe'(3) Decode_steps[OF fed] by (auto simp: visit_simps)
  next
    case (Select k has_default)
    then show ?thesis using ok safe'(3) Sel_steps[OF fed] by (auto simp: visit_simps)
  next
    case (Assert m l)
    then show ?thesis using ok reads Assert_steps[OF rdy] by (simp add: visit_simps)
  next
    case (Trace format)
    then show ?thesis using ok reads safe'(3) Trace_steps[OF rdy] by (simp add: visit_simps)
  next
    case (Cover label)
    then show ?thesis using rdy by (auto simp: visit_simps HandleCover_def steps_to_def ready_def)
  next
    case (BinOp op) then show ?thesis using ok BinOp_steps[OF B fed] by (simp add: visit_simps)
  next
    case (UnOp op) then show ?thesis using ok UnOp_steps[OF B fed] by (simp add: visit_simps)
  qed (use ok safe' rdy param calls width sized NaryOp_steps[OF fed] Reduction_steps[OF fed]
      BitSlice_steps[OF fed] DynamicBitSlice_steps[OF fed] BitSliceUpdate_steps[OF fed] Concat_steps[OF fed] Encode_steps[OF fed]
      OneHot_steps[OF fed] OneHotSel_steps[OF fed] PrioritySel_steps[OF fed] Gate_steps[OF fed] Tuple_steps[OF fed] TupleIndex_steps[OF fed]
      Array_steps[OF fed] ArrayIndex_steps[OF fed] ArraySlice_steps[OF fed] ArrayUpdate_steps[OF fed] ArrayConcat_steps[OF fed]
      Literal_steps[OF fed] AfterAll_steps[OF rdy] in \<open>simp_all add: visit_simps\<close>)
qed

section \<open>Functions\<close>

definition valued :: "ir_function \<Rightarrow> nat set" where
  "valued f = {n. has_result f n}"

lemma run_nodes_steps:
  assumes step: "\<And>n nd V st. n \<in> set ns \<Longrightarrow> ready f V n nd st \<Longrightarrow> set (node_operands nd) \<inter> valued f \<subseteq> V \<Longrightarrow>
      steps_to f (if sets_value nd then insert n V else V) (h n nd st)"
  shows "topological f visited ns \<Longrightarrow> typed_state f (visited \<inter> valued f) st \<Longrightarrow>
    steps_to f ((visited \<union> set ns) \<inter> valued f) (run_nodes f h ns st)"
  using step
proof (induction ns arbitrary: visited st)
  case (Cons n ns)
  obtain nd where nd: "GetNode f n = Some nd" "n \<notin> visited" "set (node_operands nd) \<subseteq> visited" "topological f (insert n visited) ns"
    using Cons.prems(1) by (auto split: option.splits)
  have eq: "(if sets_value nd then insert n (visited \<inter> valued f) else visited \<inter> valued f) = insert n visited \<inter> valued f"
    using nd(1) by (auto simp: valued_def has_result_def)
  have "ready f (visited \<inter> valued f) n nd st" using nd Cons.prems(2) by (simp add: ready_def)
  then have "steps_to f (insert n visited \<inter> valued f) (h n nd st)"
    using Cons.prems(3)[of n "visited \<inter> valued f" nd st] nd(3) eq by auto
  then obtain st1 where st1: "h n nd st = returnS st1" "typed_state f (insert n visited \<inter> valued f) st1" by (auto simp: steps_to_def)
  then have "steps_to f ((insert n visited \<union> set ns) \<inter> valued f) (run_nodes f h ns st1)"
    using Cons.IH[OF nd(4) st1(2)] Cons.prems(3) by simp
  then show ?case using nd(1) st1(1) by simp
qed (simp add: steps_to_def)

lemma verify_params_ok: "verify_params f ps P N = returnS Q \<Longrightarrow> Q = P \<union> set ps"
  by (induction ps arbitrary: P N) (auto simp: bind_returnS_iff split: if_splits)

lemma VerifyFunctionBase_nodes:
  assumes base: "VerifyFunctionBase pkg channels f = returnS ()"
  shows "FunctionBase_Accept f trivial_visitor () = returnS ()"
    and "(n, nd) \<in> set (fn_nodes f) \<Longrightarrow> NodeChecker_Visit pkg channels f nd = returnS ()"
    and "(n, nd) \<in> set (fn_nodes f) \<Longrightarrow> node_op nd = Param \<Longrightarrow> n \<in> set (fn_params f)"
    and "(n, nd) \<in> set (fn_nodes f) \<Longrightarrow> set (node_operands nd) \<subseteq> node_ids f"
proof -
  show "FunctionBase_Accept f trivial_visitor () = returnS ()" using base by (auto simp: VerifyFunctionBase_def bindS_eq_returnS)
  have node: "VerifyNode pkg channels f n nd = returnS ()" if "(n, nd) \<in> set (fn_nodes f)" for n nd
    using base that by (force simp: VerifyFunctionBase_def bindS_eq_returnS)
  show "NodeChecker_Visit pkg channels f nd = returnS ()" if "(n, nd) \<in> set (fn_nodes f)"
    using node[OF that] by (simp add: VerifyNode_def)
  show "set (node_operands nd) \<subseteq> node_ids f" if "(n, nd) \<in> set (fn_nodes f)"
    using node[OF that] by (auto simp: VerifyNode_def GetNode_ids ball_Un)
  obtain P where "verify_params f (fn_params f) {} {} = returnS P" "\<forall>(n, nd)\<in>set (fn_nodes f). node_op nd = Param \<longrightarrow> n \<in> P"
    using base by (force simp: VerifyFunctionBase_def bindS_eq_returnS Let_def)
  then show "n \<in> set (fn_params f)" if "(n, nd) \<in> set (fn_nodes f)" "node_op nd = Param" using that verify_params_ok by fastforce
qed

lemma VerifyFunction_base: "VerifyFunction pkg channels f = returnS () \<Longrightarrow> VerifyFunctionBase pkg channels f = returnS ()"
  by (simp add: VerifyFunction_def)

lemma index_of_member: "x \<in> set xs \<Longrightarrow> index_of x xs < length xs \<and> xs ! index_of x xs = x"
  by (induction xs) (auto simp: index_of_def)

lemma Param_steps:
  assumes rdy: "ready f V n nd st" and n: "n \<in> set (fn_params f)" and args: "args_typed f args"
  shows "steps_to f (insert n V) (FunctionInterpreter_HandleParam f args n nd st)"
proof -
  let ?i = "index_of n (fn_params f)"
  have i: "?i < length (fn_params f)" "fn_params f ! ?i = n"
    using index_of_member[OF n] by simp_all
  have "?i < length args" "has_type (args ! ?i) (node_type nd)"
    using args i rdy by (auto simp: args_typed_def list_all2_conv_all_nth ready_def GetType_def)
  then show ?thesis using i(1) set_value[OF rdy _ refl]
    by (simp add: FunctionInterpreter_HandleParam_def GetParamIndex_def)
qed

lemma check_args_ok:
  "(\<And>j. j < length vs \<Longrightarrow> \<exists>t. param_type f (i + j) = Some t \<and> has_type (vs ! j) t) \<Longrightarrow> check_args f i vs = returnS ()"
proof (induction vs arbitrary: i)
  case (Cons v vs)
  obtain t where t: "param_type f i = Some t" "has_type v t" using Cons.prems[of 0] by auto
  have "check_args f (i + 1) vs = returnS ()" using Cons.prems[of "Suc _"] by (intro Cons.IH) auto
  then show ?case using t GetTypeForValue_typed[OF t(2)] by simp
qed simp

definition wf_function :: "ir_package \<Rightarrow> ir_function \<Rightarrow> bool" where
  "wf_function pkg f \<longleftrightarrow> distinct (map fst (fn_nodes f)) \<and> has_result f (fn_return f) \<and>
     list_all (\<lambda>(n, nd). interpretable pkg f nd) (fn_nodes f)"

lemma function_steps:
  assumes B: "bignum B num" and ok: "VerifyFunction pkg channels f = returnS ()" and wf: "wf_function pkg f"
    and call: "\<forall>(n, nd)\<in>set (fn_nodes f). \<forall>g\<in>set (callees nd). \<exists>fn. at_opt pkg g = Some fn \<and> call_sound call fn"
    and args: "args_typed f args" and rdy: "ready f V n nd st" and V: "set (node_operands nd) \<inter> valued f \<subseteq> V"
  shows "steps_to f (if sets_value nd then insert n V else V)
    (IrInterpreter_Visit B call pkg (FunctionInterpreter_HandleParam f args) f n nd st)"
proof (rule Visit_steps[OF B rdy])
  note nodes = VerifyFunctionBase_nodes[OF VerifyFunction_base[OF ok]]
  have safe: "interpretable pkg f nd" if "GetNode f n = Some nd" for n nd
    using wf GetNode_in[OF that] by (auto simp: wf_function_def list_all_iff)
  have nd: "GetNode f n = Some nd" using rdy by (simp add: ready_def)
  have "set (read_operands nd) \<subseteq> set (node_operands nd)" by (auto simp: read_operands_def dest: in_set_dropD split: ir_op.splits)
  then show "set (read_operands nd) \<subseteq> V" using V safe[OF nd] by (auto simp: interpretable_def list_all_iff valued_def)
  show "NodeChecker_Visit pkg channels f nd = returnS ()" "interpretable pkg f nd" using nodes(2) safe nd GetNode_in by blast+
  show "machine_sized t" if t: "operand_type f nd i = Some t" for i t
    using t safe by (auto simp: operand_type_def GetType_def interpretable_def split: Option.bind_splits)
  show "\<forall>g\<in>set (callees nd). \<exists>fn. at_opt pkg g = Some fn \<and> call_sound call fn" using call GetNode_in[OF nd] by auto
  show "steps_to f (insert n V) (FunctionInterpreter_HandleParam f args n nd st)" if "node_op nd = Param"
    using Param_steps[OF rdy nodes(3)[OF GetNode_in[OF nd] that] args] .
qed

lemma InterpretFunction_step_sound:
  assumes B: "bignum B num" and ok: "VerifyFunction pkg channels f = returnS ()" and wf: "wf_function pkg f"
    and call: "\<forall>(n, nd)\<in>set (fn_nodes f). \<forall>g\<in>set (callees nd). \<exists>fn. at_opt pkg g = Some fn \<and> call_sound call fn"
    and args: "args_typed f args"
  shows "\<exists>v events t. InterpretFunction_step B call pkg f args = returnS (v, events) \<and> return_type f = Some t \<and> has_type v t"
proof -
  note nodes = VerifyFunctionBase_nodes[OF VerifyFunction_base[OF ok]]
  have dist: "distinct (map fst (fn_nodes f))" using wf by (simp add: wf_function_def)
  let ?h = "IrInterpreter_Visit B call pkg (FunctionInterpreter_HandleParam f args) f"
  obtain ns where ns: "topological f {} ns" "set ns = node_ids f" "FunctionBase_Accept f ?h init_interp = run_nodes f ?h ns init_interp"
    using FunctionBase_Accept_order[OF nodes(1) dist, where 's = interp] by blast
  have "steps_to f (({} \<union> set ns) \<inter> valued f) (run_nodes f ?h ns init_interp)"
    by (intro run_nodes_steps[OF function_steps[OF B ok wf call args] ns(1)]) (auto simp: typed_state_def init_interp_def)
  then obtain st where st: "run_nodes f ?h ns init_interp = returnS st" "typed_state f (node_ids f \<inter> valued f) st"
    using ns(2) by (auto simp: steps_to_def)
  have "fn_return f \<in> node_ids f \<inter> valued f"
    using wf by (auto simp: wf_function_def valued_def has_result_def GetNode_ids split: option.splits)
  then obtain v t where v: "node_values st (fn_return f) = Some v" "GetType f (fn_return f) = Some t" "has_type v t"
    using st(2) unfolding typed_state_def by blast
  have "length args = length (fn_params f)" using args by (auto simp: args_typed_def dest: list_all2_lengthD)
  moreover have "check_args f 0 args = returnS ()"
    using args by (intro check_args_ok) (auto simp: args_typed_def list_all2_conv_all_nth param_type_Some)
  ultimately show ?thesis using ns(3) st(1) v by (simp add: InterpretFunction_step_def ResolveAsValue_def return_type_def)
qed

section \<open>Packages\<close>

text \<open>\<open>rank\<close> orders the functions of a package so that calls go down; the package has no recursion.\<close>

definition calls_ranked :: "ir_package \<Rightarrow> (nat \<Rightarrow> nat) \<Rightarrow> bool" where
  "calls_ranked pkg rank \<longleftrightarrow> list_all (\<lambda>i. list_all (\<lambda>(n, nd). list_all (\<lambda>g. g < length pkg \<and> rank g < rank i) (callees nd)) (fn_nodes (pkg ! i)))
     [0..<length pkg]"

definition verified_package :: "ir_package \<Rightarrow> channel list \<Rightarrow> bool" where
  "verified_package pkg channels \<longleftrightarrow> list_all (\<lambda>f. VerifyFunction pkg channels f = returnS () \<and> wf_function pkg f) pkg"

lemma InterpretFunction_sound:
  assumes B: "bignum B num" and ok: "verified_package pkg channels" and rank: "calls_ranked pkg rank"
  shows "i < length pkg \<Longrightarrow> rank i < depth \<Longrightarrow> call_sound (InterpretFunction B depth pkg) (pkg ! i)"
proof (induction depth arbitrary: i)
  case (Suc depth)
  have f: "VerifyFunction pkg channels (pkg ! i) = returnS ()" "wf_function pkg (pkg ! i)"
    using ok Suc.prems(1) by (auto simp: verified_package_def list_all_length)
  have "\<forall>(n, nd)\<in>set (fn_nodes (pkg ! i)). \<forall>g\<in>set (callees nd).
      \<exists>fn. at_opt pkg g = Some fn \<and> call_sound (InterpretFunction B depth pkg) fn"
    using rank Suc unfolding calls_ranked_def list_all_iff at_opt_def by fastforce
  then show ?case using InterpretFunction_step_sound[OF B f] by (simp add: call_sound_def)
qed simp

section \<open>An example package\<close>

definition mk_node :: "ir_op \<Rightarrow> nat list \<Rightarrow> xls_type \<Rightarrow> int \<Rightarrow> string \<Rightarrow> ir_node" where
  "mk_node op operands t i name = \<lparr>node_op = op, node_operands = operands, node_type = t, node_id = i, node_name = name\<rparr>"

text \<open>\<open>step\<close> is the body of a loop and returns its state plus one; \<open>main\<close> runs it a number of times it computes.\<close>

definition step_function :: ir_function where
  "step_function = \<lparr>fn_nodes = [
     (0, mk_node Param [] (BitsType 3) 1 ''i''),
     (1, mk_node Param [] (BitsType 8) 2 ''x''),
     (2, mk_node (Literal (VBits (Bits_FromSpan [True, False, False, False, False, False, False, False]))) [] (BitsType 8) 3 []),
     (3, mk_node (BinOp Op_Add) [1, 2] (BitsType 8) 4 [])], fn_params = [0, 1], fn_return = 3\<rparr>"

definition main_function :: ir_function where
  "main_function = \<lparr>fn_nodes = [
     (0, mk_node Param [] (BitsType 8) 1 ''x''),
     (1, mk_node Param [] (BitsType 2) 2 ''trip''),
     (2, mk_node Param [] (BitsType 1) 3 ''stride''),
     (3, mk_node (DynamicCountedFor 0) [0, 1, 2] (BitsType 8) 4 []),
     (4, mk_node (CountedFor 3 2 0) [3] (BitsType 8) 5 [])], fn_params = [0, 1, 2], fn_return = 4\<rparr>"

definition example_package :: ir_package where
  "example_package = [step_function, main_function]"

lemmas example_defs = example_package_def step_function_def main_function_def mk_node_def

lemmas verify_simps = VerifyFunction_def VerifyFunctionBase_def VerifyNode_def VerifyNodeIdUnique_def NodeChecker_Visit_def
  NodeChecker_HandleParam_def NodeChecker_HandleLiteral_def NodeChecker_HandleAdd_def NodeChecker_BinOp_def
  NodeChecker_HandleDynamicCountedFor_def NodeChecker_HandleCountedFor_def expect_iff bind_returnS_iff error_if_def
  operand_type_def operand_def param_type_def return_type_def at_opt_def GetType_def GetNode_def node_users_def

lemma Bits_FromSpan_typed: "bm_count (Bits_FromSpan bs) = length bs" "wf_bitmap (Bits_FromSpan bs)"
  using rep_FromSpan[of bs] rep_count[OF rep_FromSpan[of bs]] by (simp_all add: rep_def)

lemma example_accepted:
  "FunctionBase_Accept step_function trivial_visitor () = returnS ()" "FunctionBase_Accept main_function trivial_visitor () = returnS ()"
  by (rule FunctionBase_Accept_ranked[where rank = "\<lambda>n. n"]; auto simp: example_defs operands_ranked_def node_ids_def)+

lemma example_verified:
  "VerifyFunction example_package [] step_function = returnS ()" "VerifyFunction example_package [] main_function = returnS ()"
proof -
  have "\<not> 3 < MinBitCountUnsigned 4" by (simp add: not_less MinBitCountUnsigned_le_iff)
  then show "VerifyFunction example_package [] step_function = returnS ()" "VerifyFunction example_package [] main_function = returnS ()"
    using example_accepted by (auto simp: verify_simps example_defs Let_def Bits_FromSpan_typed less_Suc_eq)
qed

lemma example_wf: "verified_package example_package []" "calls_ranked example_package (\<lambda>i. i)"
proof -
  have "wf_function example_package step_function" "wf_function example_package main_function"
    by (auto simp: wf_function_def interpretable_def interpretable_op_def has_result_def sets_value_def read_operands_def bits_operand_def
        example_defs Bits_FromSpan_typed GetNode_def operand_type_def operand_def at_opt_def GetType_def param_type_def)
  then show "verified_package example_package []" using example_verified by (simp add: verified_package_def example_package_def)
  show "calls_ranked example_package (\<lambda>i. i)" by (simp add: calls_ranked_def callees_def example_defs upt_rec)
qed

section \<open>Properties\<close>

text \<open>C1: A verified package does not go wrong. In a package without recursion whose functions the verifier accepts (and
  whose nodes are interpretable), interpreting a function on arguments of its parameters' types, with a call depth
  above its rank, ends without an abort and without a status error, and the result has the type of the return value.\<close>

theorem verified_functions_interpret:
  assumes "bignum B num" and "verified_package pkg channels" and "calls_ranked pkg rank"
    and "i < length pkg" and "rank i < depth" and "args_typed (pkg ! i) args"
  shows "\<exists>v events t. InterpretFunction B depth pkg (pkg ! i) args = returnS (v, events) \<and>
    return_type (pkg ! i) = Some t \<and> has_type v t"
  using InterpretFunction_sound[OF assms(1-5)] assms(6) by (auto simp: call_sound_def)

theorem verified_functions_interpret_witness:
  "\<exists>v events t. InterpretFunction int_bn 2 example_package main_function
      [VBits (Bits_FromSpan (replicate 8 False)), VBits (Bits_FromSpan [True, True]), VBits (Bits_FromSpan [True])] = returnS (v, events) \<and>
    return_type main_function = Some t \<and> has_type v t"
proof -
  have "args_typed main_function [VBits (Bits_FromSpan (replicate 8 False)), VBits (Bits_FromSpan [True, True]), VBits (Bits_FromSpan [True])]"
    by (simp add: args_typed_def example_defs GetType_def GetNode_def Bits_FromSpan_typed)
  then show ?thesis
    using verified_functions_interpret[OF int_bignum.bignum_axioms example_wf, of 1 2] by (simp add: example_package_def)
qed

text \<open>C15: Termination of \<open>dynamic_counted_for\<close>. For a loop the verifier accepts, with operands of their types and a body that
  can be called, the interpreter's loop returns a value of the loop's type when \<open>trip_count * stride\<close> is representable in
  the width of the index, and never returns when it is not.\<close>

theorem dynamic_counted_for_terminates_iff:
  assumes "bignum B num" and "fed f V n nd st" and "at_opt pkg i = Some body"
    and "NodeChecker_HandleDynamicCountedFor pkg i f nd = returnS ()" and "call_sound call body"
    and "operand_bits st nd 1 = Some trip" and "rep trip ts" and "operand_bits st nd 2 = Some stride" and "rep stride ss"
    and "param_type body 0 = Some (BitsType w)"
  shows "if in_range w (int (unum ts) * snum ss) then steps_to f (insert n V) (HandleDynamicCountedFor B call body n nd st)
    else HandleDynamicCountedFor B call body n nd st = None"
  using assms by (rule DynamicCountedFor_outcome)

definition loop_node :: ir_node where
  "loop_node = mk_node (DynamicCountedFor 0) [0, 1, 2] (BitsType 8) 4 []"

definition loop_function :: ir_function where
  "loop_function = \<lparr>fn_nodes = [
     (0, mk_node Param [] (BitsType 8) 1 ''x''),
     (1, mk_node Param [] (BitsType 2) 2 ''trip''),
     (2, mk_node Param [] (BitsType 3) 3 ''stride''),
     (3, loop_node)], fn_params = [0, 1, 2], fn_return = 3\<rparr>"

definition loop_state :: "bool list \<Rightarrow> interp" where
  "loop_state trip = init_interp\<lparr>node_values := [0 \<mapsto> VBits (Bits_FromSpan (replicate 8 False)),
     1 \<mapsto> VBits (Bits_FromSpan trip), 2 \<mapsto> VBits (Bits_FromSpan [True, True, False])]\<rparr>"

text \<open>An index of three bits: one round with the stride 3 ends, three rounds do not.\<close>

theorem dynamic_counted_for_terminates_iff_witness:
  "steps_to loop_function {0, 1, 2, 3} (HandleDynamicCountedFor int_bn (InterpretFunction int_bn 1 example_package) step_function 3 loop_node (loop_state [True, False])) \<and>
   HandleDynamicCountedFor int_bn (InterpretFunction int_bn 1 example_package) step_function 3 loop_node (loop_state [True, True]) = None"
proof -
  have fed: "fed loop_function {0, 1, 2} 3 loop_node (loop_state trip)" if "length trip = 2" for trip
    using that by (auto simp: fed_def ready_def typed_state_def loop_state_def loop_function_def loop_node_def mk_node_def init_interp_def
        GetType_def GetNode_def Bits_FromSpan_typed)
  have body: "at_opt example_package 0 = Some step_function" by (simp add: example_package_def at_opt_def)
  have ok: "NodeChecker_HandleDynamicCountedFor example_package 0 loop_function loop_node = returnS ()"
    by (simp add: verify_simps Let_def loop_function_def loop_node_def example_defs)
  have call: "call_sound (InterpretFunction int_bn 1 example_package) step_function"
    using InterpretFunction_sound[OF int_bignum.bignum_axioms example_wf, of 0 1] by (simp add: example_package_def)
  have ops: "operand_bits (loop_state trip) loop_node 1 = Some (Bits_FromSpan trip)"
      "operand_bits (loop_state trip) loop_node 2 = Some (Bits_FromSpan [True, True, False])" for trip
    by (simp_all add: operand_bits_def operand_def at_opt_def loop_node_def mk_node_def ResolveAsBits_def loop_state_def Value_bits_def)
  have ix: "param_type step_function 0 = Some (BitsType 3)"
    by (simp add: param_type_def at_opt_def GetType_def GetNode_def step_function_def mk_node_def)
  note outcome = dynamic_counted_for_terminates_iff[OF int_bignum.bignum_axioms fed body ok call ops(1) rep_FromSpan ops(2) rep_FromSpan ix]
  have "in_range 3 (int (unum [True, False]) * snum [True, True, False])" "\<not> in_range 3 (int (unum [True, True]) * snum [True, True, False])"
    by (simp_all add: in_range_def snum_def)
  then show ?thesis using outcome[of "[True, False]"] outcome[of "[True, True]"] by (simp add: insert_commute)
qed

section \<open>What the verifier accepts and the interpreter rejects\<close>

text \<open>A function of one operation applied to its parameters, and a value of all ones.\<close>

definition op_function :: "ir_op \<Rightarrow> xls_type list \<Rightarrow> xls_type \<Rightarrow> ir_function" where
  "op_function op ts t = \<lparr>fn_nodes =
     map (\<lambda>i. (i, mk_node Param [] (ts ! i) (int i) (replicate i CHR ''x''))) [0..<length ts] @
       [(length ts, mk_node op [0..<length ts] t (int (length ts)) [])],
     fn_params = [0..<length ts], fn_return = length ts\<rparr>"

definition ones :: "nat \<Rightarrow> xvalue" where
  "ones n = VBits (Bits_FromSpan (replicate n True))"

definition accepted_then :: "ir_op \<Rightarrow> xls_type list \<Rightarrow> xls_type \<Rightarrow> xvalue list \<Rightarrow> (xvalue \<times> interp_events) statusor option \<Rightarrow> bool" where
  "accepted_then op ts t args r \<longleftrightarrow> (let f = op_function op ts t in
     VerifyFunction [f] [] f = returnS () \<and> InterpretFunction int_bn 1 [f] f args = r)"

lemma gap_compare:
  "accepted_then (CompareOp Op_Eq) [TupleType [], TupleType []] (BitsType 1) [VTuple [], VTuple []] (errorS Unimplemented)"
  "accepted_then (CompareOp Op_ULt) [TupleType [], TupleType []] (BitsType 1) [VTuple [], VTuple []] None"
  by code_simp+

lemma gap_select:
  "accepted_then PrioritySelect [BitsType 1, BitsType 2] (BitsType 1) [ones 1, ones 2] (errorS Internal)"
  "accepted_then OneHotSelect [BitsType 1, BitsType 2] (BitsType 1) [ones 1, ones 2] None"
  "accepted_then (Select 1 True) [BitsType 1, BitsType 1, BitsType 2] (BitsType 1) [ones 1, ones 1, ones 2] (errorS Internal)"
  by code_simp+

lemma gap_width:
  "accepted_then (PartialProductOp Op_UMul 3) [BitsType 1, BitsType 1] (TupleType [BitsType 2, BitsType 2]) [ones 1, ones 1] (errorS Internal)"
  by code_simp

lemma gap_decode: "accepted_then (Decode 1) [BitsType 64] (BitsType 1) [ones 64] None"
  by code_simp

lemma gap_trace:
  "accepted_then (Trace [Argument kUnsignedDecimal]) [TokenType, BitsType 1, BitsType 65] TokenType [VToken, ones 1, ones 65] None"
  by code_simp

lemma gap_cover: "accepted_then (Cover ''label'') [TokenType, BitsType 1] TokenType [VToken, ones 1] None"
  by code_simp

text \<open>Functions of one operation that the verifier accepts and the interpreter does not evaluate on arguments of the
  parameters' types: a comparison of tuples (an error for \<open>eq\<close>, an abort for \<open>ult\<close>), a select whose case or default does
  not have the type of the node, a partial product whose \<open>width\<close> is not that of its type, a decode of a 64-bit value with
  the top bit set, a decimal trace of more than 64 bits, and a cover whose token is used.\<close>

lemma verifier_gaps:
  "accepted_then (CompareOp Op_Eq) [TupleType [], TupleType []] (BitsType 1) [VTuple [], VTuple []] (errorS Unimplemented) \<and>
   accepted_then (CompareOp Op_ULt) [TupleType [], TupleType []] (BitsType 1) [VTuple [], VTuple []] None \<and>
   accepted_then PrioritySelect [BitsType 1, BitsType 2] (BitsType 1) [ones 1, ones 2] (errorS Internal) \<and>
   accepted_then OneHotSelect [BitsType 1, BitsType 2] (BitsType 1) [ones 1, ones 2] None \<and>
   accepted_then (Select 1 True) [BitsType 1, BitsType 1, BitsType 2] (BitsType 1) [ones 1, ones 1, ones 2] (errorS Internal) \<and>
   accepted_then (PartialProductOp Op_UMul 3) [BitsType 1, BitsType 1] (TupleType [BitsType 2, BitsType 2]) [ones 1, ones 1] (errorS Internal) \<and>
   accepted_then (Decode 1) [BitsType 64] (BitsType 1) [ones 64] None \<and>
   accepted_then (Trace [Argument kUnsignedDecimal]) [TokenType, BitsType 1, BitsType 65] TokenType [VToken, ones 1, ones 65] None \<and>
   accepted_then (Cover ''label'') [TokenType, BitsType 1] TokenType [VToken, ones 1] None"
  using gap_compare gap_select gap_width gap_decode gap_trace gap_cover by blast

lemma check_args_mismatch:
  "list_all2 has_type vs ts \<Longrightarrow> length vs + i = length (fn_params f) \<Longrightarrow> map (GetType f) (drop i (fn_params f)) = map Some ps \<Longrightarrow> ts \<noteq> ps \<Longrightarrow>
   check_args f i vs = errorS InvalidArgument"
proof (induction arbitrary: i ps rule: list_all2_induct)
  case (Cons v vs t ts)
  have "drop i (fn_params f) = fn_params f ! i # drop (Suc i) (fn_params f)" using Cons.prems(1) by (intro Cons_nth_drop_Suc[symmetric]) simp
  then obtain p ps' where p: "ps = p # ps'" "GetType f (fn_params f ! i) = Some p" "map (GetType f) (drop (Suc i) (fn_params f)) = map Some ps'"
    using Cons.prems(2) by (cases ps) auto
  then have "param_type f i = Some p" using Cons.prems(1) by (simp add: param_type_Some)
  moreover have "check_args f (Suc i) vs = errorS InvalidArgument" if "t = p"
    using Cons.IH[of "Suc i" ps'] Cons.prems(1,3) p(1,3) that by simp
  ultimately show ?case using GetTypeForValue_typed[OF Cons.hyps(1)] by simp
qed auto

lemma typed_args:
  assumes "list_all2 has_type args ts" and "map (GetType f) (fn_params f) = map Some ts"
  shows "args_typed f args"
proof -
  have "GetType f (fn_params f ! i) = Some (ts ! i)" if "i < length ts" for i
    using assms(2) that by (metis length_map nth_map)
  moreover have "length (fn_params f) = length ts" using assms(2) by (metis length_map)
  ultimately show ?thesis using assms(1) by (simp add: args_typed_def list_all2_conv_all_nth)
qed

text \<open>Interpreting a function on well-typed values that are too few, too many or of other types than the parameters
  is an \<open>InvalidArgument\<close> error, whatever the function's nodes are.\<close>

lemma argument_mismatch_rejected:
  assumes "list_all2 has_type args ts" and "map (GetType f) (fn_params f) = map Some ps" and "ts \<noteq> ps"
  shows "InterpretFunction B (Suc depth) pkg f args = errorS InvalidArgument"
proof (cases "length args = length (fn_params f)")
  case True
  then have "check_args f 0 args = errorS InvalidArgument" using check_args_mismatch[OF assms(1), of 0 f ps] assms(2,3) by simp
  then show ?thesis using True by (simp add: InterpretFunction_step_def)
qed (simp add: InterpretFunction_step_def)

text \<open>C40: The interpreter's check of the arguments is exact. In a verified package without recursion, a function is called on
  well-typed values. If their number and types are those of the parameters, the call returns a value; otherwise it is refused with
  \<open>InvalidArgument\<close>, and a verified function with accepted arguments never fails with this status from inside.\<close>

theorem arguments_checked_exactly:
  assumes "bignum B num" and "verified_package pkg channels" and "calls_ranked pkg rank" and "i < length pkg" and "rank i < depth"
    and "list_all2 has_type args ts" and "map (GetType (pkg ! i)) (fn_params (pkg ! i)) = map Some ps"
  shows "(InterpretFunction B depth pkg (pkg ! i) args = errorS InvalidArgument \<longleftrightarrow> ts \<noteq> ps) \<and>
    ((\<exists>v events. InterpretFunction B depth pkg (pkg ! i) args = returnS (v, events)) \<longleftrightarrow> ts = ps)"
proof (cases "ts = ps")
  case True
  then have "args_typed (pkg ! i) args" using typed_args[OF assms(6)] assms(7) by simp
  then show ?thesis using InterpretFunction_sound[OF assms(1-5)] True by (auto simp: call_sound_def)
next
  case False
  obtain d where "depth = Suc d" using assms(5) by (cases depth) auto
  then have "InterpretFunction B depth pkg (pkg ! i) args = errorS InvalidArgument"
    using argument_mismatch_rejected[OF assms(6,7) False] by blast
  then show ?thesis using False by simp
qed

theorem arguments_checked_exactly_witness:
  "InterpretFunction int_bn 2 example_package main_function [VBits (Bits_FromSpan [True])] = errorS InvalidArgument \<and>
   InterpretFunction int_bn 2 example_package main_function
     [VBits (Bits_FromSpan (replicate 8 False)), VBits (Bits_FromSpan [True]), VBits (Bits_FromSpan [True])] = errorS InvalidArgument"
proof -
  have ps: "map (GetType main_function) (fn_params main_function) = map Some [BitsType 8, BitsType 2, BitsType 1]"
    by (simp add: example_defs GetType_def GetNode_def)
  note checked = arguments_checked_exactly[OF int_bignum.bignum_axioms example_wf, of 1 2]
  show ?thesis
    using checked[of "[VBits (Bits_FromSpan [True])]" "[BitsType 1]" "[BitsType 8, BitsType 2, BitsType 1]"]
      checked[of "[VBits (Bits_FromSpan (replicate 8 False)), VBits (Bits_FromSpan [True]), VBits (Bits_FromSpan [True])]"
        "[BitsType 8, BitsType 1, BitsType 1]" "[BitsType 8, BitsType 2, BitsType 1]"] ps
    by (simp add: example_package_def Bits_FromSpan_typed)
qed

end
