(* ===== verification/Xls_Node_Iterator.thy ===== *)
theory Xls_Node_Iterator
  imports Xls_Ir
begin

text \<open>
  The topological order of the nodes of a function, \<open>NodeIterator::Initialize\<close> of \<open>xls/ir/node_iterator.cc\<close>: nodes are
  emitted from the users to the operands, counting for each node how many of its users are still to come.

  \<open>TopoSort\<close> and \<open>ReverseTopoSort\<close> abort on a graph with a cycle, as the code does after naming the cycle; the theory
  shows that they return exactly on the graphs without a cycle, and that each node then comes after its operands.
  The debug check \<open>all_users_scheduled\<close> is part of the model, and shown never to fail.
\<close>

section \<open>The work list\<close>

record topo_state =
  pending_to_remaining_users :: "nat \<Rightarrow> int option"
  ready_nodes :: "nat list"
  ordered :: "nat list"

definition is_scheduled :: "topo_state \<Rightarrow> nat \<Rightarrow> bool" where
  "is_scheduled st n = (case pending_to_remaining_users st n of None \<Rightarrow> False | Some k \<Rightarrow> k < 0)"

definition all_users_scheduled :: "ir_function \<Rightarrow> topo_state \<Rightarrow> nat \<Rightarrow> bool" where
  "all_users_scheduled f st n = list_all (is_scheduled st) (node_users f n)"

definition bump_down_remaining_users :: "ir_function \<Rightarrow> nat \<Rightarrow> topo_state \<Rightarrow> topo_state option" where
  "bump_down_remaining_users f n st = do {
     CHECK (node_users f n \<noteq> []);
     let remaining_users = (case pending_to_remaining_users st n of None \<Rightarrow> int (length (node_users f n)) | Some k \<Rightarrow> k);
     CHECK (0 < remaining_users);
     Some (if remaining_users - 1 = 0
           then st\<lparr>pending_to_remaining_users := (pending_to_remaining_users st)(n \<mapsto> -1), ready_nodes := ready_nodes st @ [n]\<rparr>
           else st\<lparr>pending_to_remaining_users := (pending_to_remaining_users st)(n \<mapsto> remaining_users - 1)\<rparr>)
   }"

fun bump_operands :: "ir_function \<Rightarrow> nat list \<Rightarrow> nat set \<Rightarrow> topo_state \<Rightarrow> topo_state option" where
  "bump_operands f [] seen_operands st = Some st"
| "bump_operands f (o1 # os) seen_operands st =
     (if o1 \<in> seen_operands then bump_operands f os seen_operands st
      else bump_down_remaining_users f o1 st \<bind> bump_operands f os (insert o1 seen_operands))"

definition add_to_order :: "ir_function \<Rightarrow> nat \<Rightarrow> topo_state \<Rightarrow> topo_state option" where
  "add_to_order f r st = do {
     nd \<leftarrow> GetNode f r;
     CHECK (all_users_scheduled f st r);
     bump_operands f (rev (node_operands nd)) {} (st\<lparr>ordered := ordered st @ [r]\<rparr>)
   }"

definition seed_ready :: "nat \<Rightarrow> topo_state \<Rightarrow> topo_state option" where
  "seed_ready n st = do {
     CHECK (pending_to_remaining_users st n = None);
     Some (st\<lparr>pending_to_remaining_users := (pending_to_remaining_users st)(n \<mapsto> -1), ready_nodes := n # ready_nodes st\<rparr>)
   }"

text \<open>\<open>return_value\<close> is the return value of a function, and \<open>None\<close> for procs and blocks. It is seeded last, in front.\<close>

fun seed_nodes :: "ir_function \<Rightarrow> nat option \<Rightarrow> nat list \<Rightarrow> topo_state \<Rightarrow> topo_state option" where
  "seed_nodes f return_value [] st = Some st"
| "seed_nodes f return_value (n # ns) st =
     (if node_users f n = [] \<and> return_value \<noteq> Some n
      then do { CHECK (all_users_scheduled f st n); st \<leftarrow> seed_ready n st; seed_nodes f return_value ns st }
      else seed_nodes f return_value ns st)"

text \<open>
  The loop ends: a step takes a node off the ready list, and a node is put on it only by using up one of the users that
  remain.
\<close>

definition remaining_count :: "ir_function \<Rightarrow> topo_state \<Rightarrow> nat \<Rightarrow> nat" where
  "remaining_count f st n = (case pending_to_remaining_users st n of None \<Rightarrow> length (node_users f n) | Some k \<Rightarrow> nat k)"

definition mentioned :: "ir_function \<Rightarrow> nat set" where
  "mentioned f = (\<Union>(n, nd)\<in>set (fn_nodes f). set (node_operands nd))"

definition topo_measure :: "ir_function \<Rightarrow> topo_state \<Rightarrow> nat" where
  "topo_measure f st = sum (remaining_count f st) (mentioned f) + length (ready_nodes st)"

lemma finite_mentioned [simp]: "finite (mentioned f)"
  by (auto simp: mentioned_def)

lemma bump_down_measure:
  assumes "bump_down_remaining_users f n st = Some st'"
  shows "topo_measure f st' \<le> topo_measure f st"
proof -
  have users: "node_users f n \<noteq> []" and pos: "0 < remaining_count f st n"
    using assms by (auto simp: bump_down_remaining_users_def remaining_count_def CHECK_def Let_def split: option.splits if_splits)
  have n: "n \<in> mentioned f" using users by (auto simp: node_users_Nil_iff mentioned_def)
  have st': "remaining_count f st' m = (if m = n then remaining_count f st n - 1 else remaining_count f st m)" for m
    using assms by (auto simp: bump_down_remaining_users_def remaining_count_def CHECK_def Let_def split: option.splits if_splits)
  have "length (ready_nodes st') \<le> Suc (length (ready_nodes st))"
    using assms by (auto simp: bump_down_remaining_users_def CHECK_def Let_def split: option.splits if_splits)
  moreover have "sum (remaining_count f st') (mentioned f - {n}) = sum (remaining_count f st) (mentioned f - {n})"
    by (intro sum.cong) (auto simp: st')
  ultimately show ?thesis
    unfolding topo_measure_def sum.remove[OF finite_mentioned n] using pos by (simp add: st')
qed

lemma bump_operands_measure: "bump_operands f os seen st = Some st' \<Longrightarrow> topo_measure f st' \<le> topo_measure f st"
  by (induction f os seen st rule: bump_operands.induct)
    (auto split: if_splits option.splits bind_splits dest!: bump_down_measure)

lemma add_to_order_measure:
  assumes "add_to_order f r st = Some st'"
  shows "topo_measure f st' \<le> topo_measure f st"
proof -
  obtain nd :: ir_node where "bump_operands f (rev (node_operands nd)) {} (st\<lparr>ordered := ordered st @ [r]\<rparr>) = Some st'"
    using assms by (auto simp: add_to_order_def CHECK_def split: bind_splits if_splits)
  then show ?thesis using bump_operands_measure by (fastforce simp: topo_measure_def remaining_count_def[abs_def])
qed

function order_loop :: "ir_function \<Rightarrow> topo_state \<Rightarrow> topo_state option" where
  "order_loop f st =
     (case ready_nodes st of
        [] \<Rightarrow> Some st
      | r # ready \<Rightarrow> (case add_to_order f r (st\<lparr>ready_nodes := ready\<rparr>) of None \<Rightarrow> None | Some st' \<Rightarrow> order_loop f st'))"
  by pat_completeness auto
termination
  by (relation "measure (\<lambda>(f, st). topo_measure f st)")
    (auto dest!: add_to_order_measure simp: topo_measure_def remaining_count_def[abs_def])

declare order_loop.simps [simp del]

definition NodeIterator_Initialize :: "ir_function \<Rightarrow> nat option \<Rightarrow> nat list option" where
  "NodeIterator_Initialize f return_value = do {
     st \<leftarrow> seed_nodes f return_value (map fst (fn_nodes f)) \<lparr>pending_to_remaining_users = Map.empty, ready_nodes = [], ordered = []\<rparr>;
     st \<leftarrow> (case return_value of
              Some n \<Rightarrow> if n \<in> set (map fst (fn_nodes f)) \<and> node_users f n = [] then seed_ready n st else Some st
            | None \<Rightarrow> Some st);
     st \<leftarrow> order_loop f st;
     CHECK (\<not> length (ordered st) < length (fn_nodes f));
     Some (ordered st)
   }"

definition TopoSort :: "ir_function \<Rightarrow> nat option \<Rightarrow> nat list option" where
  "TopoSort f return_value = map_option rev (NodeIterator_Initialize f return_value)"

definition ReverseTopoSort :: "ir_function \<Rightarrow> nat option \<Rightarrow> nat list option" where
  "ReverseTopoSort f return_value = NodeIterator_Initialize f return_value"

section \<open>The invariant of the loop\<close>

text \<open>
  Every node on the two lists has all its users in the order; every other node still lacks a user, and the map counts the
  users that are missing.
\<close>

definition users_ordered :: "ir_function \<Rightarrow> topo_state \<Rightarrow> nat \<Rightarrow> nat" where
  "users_ordered f st n = length (filter (\<lambda>u. u \<in> set (ordered st)) (node_users f n))"

definition back_ordered :: "ir_function \<Rightarrow> nat list \<Rightarrow> bool" where
  "back_ordered f ns \<longleftrightarrow> (\<forall>xs n ys. ns = xs @ n # ys \<longrightarrow> set (node_users f n) \<subseteq> set xs)"

definition topo_inv :: "ir_function \<Rightarrow> topo_state \<Rightarrow> bool" where
  "topo_inv f st \<longleftrightarrow>
     distinct (ordered st @ ready_nodes st) \<and> set (ordered st @ ready_nodes st) \<subseteq> node_ids f \<and> back_ordered f (ordered st) \<and>
     (\<forall>n\<in>node_ids f.
        if n \<in> set (ordered st @ ready_nodes st)
        then pending_to_remaining_users st n = Some (-1) \<and> set (node_users f n) \<subseteq> set (ordered st)
        else users_ordered f st n < length (node_users f n) \<and>
             pending_to_remaining_users st n =
               (if users_ordered f st n = 0 then None else Some (int (length (node_users f n) - users_ordered f st n))))"

lemma distinct_node_users: "well_linked f \<Longrightarrow> distinct (node_users f n)"
proof -
  have "distinct (map fst ns) \<Longrightarrow> distinct [m. (m, nd) \<leftarrow> ns, n \<in> set (node_operands nd)] \<and>
      set [m. (m, nd) \<leftarrow> ns, n \<in> set (node_operands nd)] \<subseteq> fst ` set ns" for ns :: "(nat \<times> ir_node) list"
    by (induction ns) (auto simp: subset_iff image_iff split: if_splits)
  then show "well_linked f \<Longrightarrow> distinct (node_users f n)" by (simp add: well_linked_def node_users_def)
qed

lemma count_insert:
  "distinct us \<Longrightarrow> r \<notin> A \<Longrightarrow>
   length (filter (\<lambda>u. u \<in> insert r A) us) = length (filter (\<lambda>u. u \<in> A) us) + (if r \<in> set us then 1 else 0)"
  by (induction us) auto

lemma back_ordered_snoc: "back_ordered f (ns @ [n]) \<longleftrightarrow> back_ordered f ns \<and> set (node_users f n) \<subseteq> set ns"
proof -
  have "ns @ [n] = xs @ m # ys \<longleftrightarrow> (ys = [] \<and> m = n \<and> xs = ns) \<or> (\<exists>zs. ys = zs @ [n] \<and> ns = xs @ m # zs)" for xs m ys
    by (cases ys rule: rev_cases) auto
  then show ?thesis unfolding back_ordered_def by (simp only:) blast
qed

definition remaining_of :: "ir_function \<Rightarrow> topo_state \<Rightarrow> nat \<Rightarrow> int" where
  "remaining_of f st n = (case pending_to_remaining_users st n of None \<Rightarrow> int (length (node_users f n)) | Some k \<Rightarrow> k)"

lemma bump_down_effect:
  assumes "node_users f n \<noteq> []" and "0 < remaining_of f st n"
  shows "bump_down_remaining_users f n st = Some (
     if remaining_of f st n = 1
     then st\<lparr>pending_to_remaining_users := (pending_to_remaining_users st)(n \<mapsto> -1), ready_nodes := ready_nodes st @ [n]\<rparr>
     else st\<lparr>pending_to_remaining_users := (pending_to_remaining_users st)(n \<mapsto> remaining_of f st n - 1)\<rparr>)"
  using assms by (simp add: bump_down_remaining_users_def remaining_of_def CHECK_def Let_def)

lemma bump_operands_effect:
  "\<forall>n\<in>set os - seen. node_users f n \<noteq> [] \<and> 0 < remaining_of f st n \<Longrightarrow>
   \<exists>st' new. bump_operands f os seen st = Some st' \<and> ordered st' = ordered st \<and> ready_nodes st' = ready_nodes st @ new \<and> distinct new \<and>
     set new = {n \<in> set os - seen. remaining_of f st n = 1} \<and>
     (\<forall>n. pending_to_remaining_users st' n =
        (if n \<in> set os - seen then Some (if remaining_of f st n = 1 then -1 else remaining_of f st n - 1)
         else pending_to_remaining_users st n))"
proof (induction os arbitrary: seen st)
  case (Cons m os)
  show ?case
  proof (cases "m \<in> seen")
    case True
    then have "set (m # os) - seen = set os - seen" by auto
    then show ?thesis using Cons.IH[of seen st] Cons.prems True by simp
  next
    case False
    let ?st = "if remaining_of f st m = 1
      then st\<lparr>pending_to_remaining_users := (pending_to_remaining_users st)(m \<mapsto> -1), ready_nodes := ready_nodes st @ [m]\<rparr>
      else st\<lparr>pending_to_remaining_users := (pending_to_remaining_users st)(m \<mapsto> remaining_of f st m - 1)\<rparr>"
    have down: "bump_down_remaining_users f m st = Some ?st" using Cons.prems False by (intro bump_down_effect) auto
    have same: "remaining_of f ?st n = remaining_of f st n" if "n \<noteq> m" for n using that by (simp add: remaining_of_def)
    have "\<forall>n\<in>set os - insert m seen. node_users f n \<noteq> [] \<and> 0 < remaining_of f ?st n" using Cons.prems same by auto
    from Cons.IH[OF this] obtain st' new where st': "bump_operands f os (insert m seen) ?st = Some st'"
        "ordered st' = ordered ?st" "ready_nodes st' = ready_nodes ?st @ new" "distinct new"
        "set new = {n \<in> set os - insert m seen. remaining_of f ?st n = 1}"
        and pend: "\<forall>n. pending_to_remaining_users st' n =
          (if n \<in> set os - insert m seen then Some (if remaining_of f ?st n = 1 then -1 else remaining_of f ?st n - 1)
           else pending_to_remaining_users ?st n)" by blast
    have new: "set new = {n \<in> set os - insert m seen. remaining_of f st n = 1}" unfolding st'(5) using same by auto
    show ?thesis
    proof (intro exI conjI)
      show "bump_operands f (m # os) seen st = Some st'" using False down st'(1) by simp
      show "ready_nodes st' = ready_nodes st @ (if remaining_of f st m = 1 then m # new else new)" using st'(3) by simp
      show "set (if remaining_of f st m = 1 then m # new else new) = {n \<in> set (m # os) - seen. remaining_of f st n = 1}"
        using new False by auto
      show "\<forall>n. pending_to_remaining_users st' n =
        (if n \<in> set (m # os) - seen then Some (if remaining_of f st n = 1 then -1 else remaining_of f st n - 1)
         else pending_to_remaining_users st n)" using pend same False by auto
    qed (use st'(2,4) new in auto)
  qed
qed simp

lemma remaining_of_inv:
  assumes "topo_inv f st" and "n \<in> node_ids f" and "n \<notin> set (ordered st @ ready_nodes st)"
  shows "remaining_of f st n = int (length (node_users f n) - users_ordered f st n)" and "users_ordered f st n < length (node_users f n)"
  using assms by (auto simp: topo_inv_def remaining_of_def)

lemma add_to_order_inv:
  assumes inv: "topo_inv f st" and wf: "well_linked f" and ready: "ready_nodes st = r # rest"
  shows "\<exists>st'. add_to_order f r (st\<lparr>ready_nodes := rest\<rparr>) = Some st' \<and> topo_inv f st' \<and> ordered st' = ordered st @ [r]"
proof -
  let ?st = "st\<lparr>ready_nodes := rest, ordered := ordered st @ [r]\<rparr>"
  have r: "r \<in> node_ids f" "r \<notin> set (ordered st)" "r \<notin> set rest" using inv ready by (auto simp: topo_inv_def)
  then obtain nd where nd: "GetNode f r = Some nd" using GetNode_ids by blast
  have r_users: "set (node_users f r) \<subseteq> set (ordered st)" using inv ready r(1) by (auto simp: topo_inv_def)
  have "list_all (is_scheduled (st\<lparr>ready_nodes := rest\<rparr>)) (node_users f r)"
    using inv r_users by (fastforce simp: topo_inv_def list_all_iff is_scheduled_def)
  then have sched: "all_users_scheduled f (st\<lparr>ready_nodes := rest\<rparr>) r" by (simp add: all_users_scheduled_def)
  have user: "r \<in> set (node_users f n) \<longleftrightarrow> n \<in> set (node_operands nd)" for n using set_node_users[OF wf] nd by simp
  have ops: "set (node_operands nd) \<subseteq> node_ids f" using wf GetNode_in[OF nd] by (auto simp: well_linked_def)
  have fresh: "n \<notin> set (ordered st @ ready_nodes st)" if "n \<in> set (node_operands nd)" for n
    using inv that ops user[of n] r(2) unfolding topo_inv_def by (auto split: if_splits)
  have rem: "remaining_of f ?st n = remaining_of f st n" for n by (simp add: remaining_of_def)
  have op: "remaining_of f st n = int (length (node_users f n) - users_ordered f st n)" "users_ordered f st n < length (node_users f n)"
    if "n \<in> set (node_operands nd)" for n
    using remaining_of_inv[OF inv] ops fresh[OF that] that by blast+
  have "\<forall>n\<in>set (rev (node_operands nd)) - {}. node_users f n \<noteq> [] \<and> 0 < remaining_of f ?st n"
    using op rem by fastforce
  from bump_operands_effect[OF this] obtain st' new where st': "bump_operands f (rev (node_operands nd)) {} ?st = Some st'"
      "ordered st' = ordered st @ [r]" "ready_nodes st' = rest @ new" "distinct new"
      "set new = {n \<in> set (node_operands nd). remaining_of f st n = 1}"
      and pend: "\<And>n. pending_to_remaining_users st' n =
        (if n \<in> set (node_operands nd) then Some (if remaining_of f st n = 1 then -1 else remaining_of f st n - 1)
         else pending_to_remaining_users st n)" unfolding rem by auto
  have count: "users_ordered f st' n = users_ordered f st n + (if n \<in> set (node_operands nd) then 1 else 0)" for n
    using count_insert[OF distinct_node_users[OF wf] r(2), of n] unfolding users_ordered_def st'(2) user by simp
  have members: "set (ordered st' @ ready_nodes st') = set (ordered st @ ready_nodes st) \<union> set new" using st'(2,3) ready by auto
  have new_users: "set (node_users f n) \<subseteq> set (ordered st')" if "n \<in> set new" for n
  proof -
    have "users_ordered f st' n = length (node_users f n)" using that st'(5) op[of n] count[of n] by auto
    then show ?thesis
      unfolding users_ordered_def using length_filter_less[of _ "node_users f n" "\<lambda>u. u \<in> set (ordered st')"] by fastforce
  qed
  have "topo_inv f st'"
    unfolding topo_inv_def
  proof (intro conjI ballI)
    show "distinct (ordered st' @ ready_nodes st')"
      using inv ready st'(2-5) fresh by (fastforce simp: topo_inv_def)
    show "set (ordered st' @ ready_nodes st') \<subseteq> node_ids f" unfolding members using inv ops st'(5) by (auto simp: topo_inv_def)
    show "back_ordered f (ordered st')" unfolding st'(2) back_ordered_snoc using inv r_users by (simp add: topo_inv_def)
    fix n
    assume n: "n \<in> node_ids f"
    consider "n \<in> set new" | "n \<notin> set new" "n \<in> set (ordered st @ ready_nodes st)"
      | "n \<notin> set new" "n \<notin> set (ordered st @ ready_nodes st)" by blast
    then show "if n \<in> set (ordered st' @ ready_nodes st')
        then pending_to_remaining_users st' n = Some (-1) \<and> set (node_users f n) \<subseteq> set (ordered st')
        else users_ordered f st' n < length (node_users f n) \<and> pending_to_remaining_users st' n =
          (if users_ordered f st' n = 0 then None else Some (int (length (node_users f n) - users_ordered f st' n)))"
    proof cases
      case 1
      then show ?thesis using members new_users pend st'(5) by simp
    next
      case 2
      then have "n \<notin> set (node_operands nd)" using fresh by blast
      moreover have "pending_to_remaining_users st n = Some (-1)" "set (node_users f n) \<subseteq> set (ordered st)"
        using inv n 2(2) by (simp_all add: topo_inv_def)
      ultimately show ?thesis using 2(2) members pend[of n] st'(2) by auto
    next
      case 3
      then have "n \<notin> set (ordered st' @ ready_nodes st')" using members by blast
      moreover have "pending_to_remaining_users st n =
          (if users_ordered f st n = 0 then None else Some (int (length (node_users f n) - users_ordered f st n)))"
          "users_ordered f st n < length (node_users f n)"
        using inv n 3(2) by (auto simp: topo_inv_def)
      moreover have "remaining_of f st n \<noteq> 1" if "n \<in> set (node_operands nd)" using 3(1) that st'(5) by auto
      ultimately show ?thesis using pend[of n] count[of n] op[of n] by auto
    qed
  qed
  then show ?thesis using nd sched st'(1,2) by (simp add: add_to_order_def CHECK_def)
qed

lemma order_loop_inv:
  "topo_inv f st \<Longrightarrow> well_linked f \<Longrightarrow> \<exists>st'. order_loop f st = Some st' \<and> topo_inv f st' \<and> ready_nodes st' = [] \<and>
     (\<exists>later. ordered st' = ordered st @ take 1 (ready_nodes st) @ later)"
proof (induction f st rule: order_loop.induct)
  case (1 f st)
  show ?case
  proof (cases "ready_nodes st")
    case Nil
    then show ?thesis using 1 by (subst order_loop.simps) simp
  next
    case (Cons r rest)
    obtain st1 where st1: "add_to_order f r (st\<lparr>ready_nodes := rest\<rparr>) = Some st1" "topo_inv f st1" "ordered st1 = ordered st @ [r]"
      using add_to_order_inv[OF 1(2,3) Cons] by blast
    then show ?thesis using "1.IH"[OF Cons st1(1) st1(2) 1(3)] Cons by (subst order_loop.simps) auto
  qed
qed

lemma seed_nodes_effect:
  "(\<forall>n\<in>set ns. pending_to_remaining_users st n = None) \<Longrightarrow> distinct ns \<Longrightarrow>
   seed_nodes f rv ns st = Some (let seeds = filter (\<lambda>n. node_users f n = [] \<and> rv \<noteq> Some n) ns in
     st\<lparr>pending_to_remaining_users := (\<lambda>n. if n \<in> set seeds then Some (-1) else pending_to_remaining_users st n),
        ready_nodes := rev seeds @ ready_nodes st\<rparr>)"
proof (induction ns arbitrary: st)
  case (Cons n ns)
  let ?st = "st\<lparr>pending_to_remaining_users := (pending_to_remaining_users st)(n \<mapsto> -1), ready_nodes := n # ready_nodes st\<rparr>"
  have "\<forall>m\<in>set ns. pending_to_remaining_users ?st m = None" using Cons.prems by auto
  from Cons.IH[OF this] Cons.IH[of st] Cons.prems show ?case
    by (auto simp: seed_ready_def CHECK_def all_users_scheduled_def Let_def intro!: topo_state.equality ext)
qed simp

text \<open>The state in which the loop starts: the nodes without users, the return value first.\<close>

definition seeded :: "ir_function \<Rightarrow> nat option \<Rightarrow> topo_state \<Rightarrow> bool" where
  "seeded f rv st \<longleftrightarrow> ordered st = [] \<and> distinct (ready_nodes st) \<and>
     set (ready_nodes st) = {n \<in> node_ids f. node_users f n = []} \<and>
     pending_to_remaining_users st = (\<lambda>n. if n \<in> set (ready_nodes st) then Some (-1) else None) \<and>
     (\<forall>n. rv = Some n \<and> n \<in> set (ready_nodes st) \<longrightarrow> take 1 (ready_nodes st) = [n])"

lemma seeded_inv: "seeded f rv st \<Longrightarrow> topo_inv f st"
  by (auto simp: seeded_def topo_inv_def back_ordered_def users_ordered_def)

lemma Initialize_seeds:
  assumes "well_linked f"
  shows "\<exists>st. seeded f rv st \<and> NodeIterator_Initialize f rv =
    order_loop f st \<bind> (\<lambda>st. CHECK (\<not> length (ordered st) < length (fn_nodes f)) \<bind> (\<lambda>_. Some (ordered st)))"
proof -
  let ?seeds = "filter (\<lambda>n. node_users f n = [] \<and> rv \<noteq> Some n) (map fst (fn_nodes f))"
  let ?st = "\<lparr>pending_to_remaining_users = (\<lambda>n. if n \<in> set ?seeds then Some (-1) else None), ready_nodes = rev ?seeds, ordered = []\<rparr>"
  have dist: "distinct (map fst (fn_nodes f))" using assms by (simp add: well_linked_def)
  have seed: "seed_nodes f rv (map fst (fn_nodes f)) \<lparr>pending_to_remaining_users = Map.empty, ready_nodes = [], ordered = []\<rparr> = Some ?st"
    using seed_nodes_effect[OF _ dist, of "\<lparr>pending_to_remaining_users = Map.empty, ready_nodes = [], ordered = []\<rparr>" f rv] by (simp add: Let_def cong: if_cong)
  have init: "NodeIterator_Initialize f rv = (case rv of
         Some n \<Rightarrow> if n \<in> set (map fst (fn_nodes f)) \<and> node_users f n = [] then seed_ready n ?st else Some ?st
       | None \<Rightarrow> Some ?st) \<bind> (\<lambda>st. order_loop f st \<bind> (\<lambda>st. CHECK (\<not> length (ordered st) < length (fn_nodes f)) \<bind> (\<lambda>_. Some (ordered st))))"
    unfolding NodeIterator_Initialize_def seed Option.bind.simps ..
  show ?thesis
  proof (cases "\<exists>n. rv = Some n \<and> n \<in> node_ids f \<and> node_users f n = []")
    case True
    then obtain n where n: "rv = Some n" "n \<in> node_ids f" "node_users f n = []" by blast
    let ?st' = "?st\<lparr>pending_to_remaining_users := (pending_to_remaining_users ?st)(n \<mapsto> -1), ready_nodes := n # rev ?seeds\<rparr>"
    have "seed_ready n ?st = Some ?st'" using n(1) by (simp add: seed_ready_def CHECK_def)
    moreover have "seeded f rv ?st'" using n dist by (auto simp: seeded_def node_ids_def distinct_filter)
    ultimately show ?thesis using init n by (intro exI[of _ ?st']) (simp add: node_ids_def)
  next
    case False
    then have "seeded f rv ?st" using dist by (auto simp: seeded_def node_ids_def distinct_filter)
    moreover have "(case rv of Some n \<Rightarrow> if n \<in> set (map fst (fn_nodes f)) \<and> node_users f n = [] then seed_ready n ?st else Some ?st
        | None \<Rightarrow> Some ?st) = Some ?st" using False by (auto simp: node_ids_def split: option.splits)
    ultimately show ?thesis using init by (intro exI[of _ ?st]) simp
  qed
qed

section \<open>The order\<close>

lemma back_ordered_topological:
  assumes wf: "well_linked f" and dist: "distinct ns" and all: "set ns = node_ids f" and backward: "back_ordered f ns"
  shows "topological f {} (rev ns)"
proof -
  have "topological f {} (rev ys)" if "ns = xs @ ys" for xs ys
    using that
  proof (induction ys arbitrary: xs)
    case (Cons n ys)
    have ids: "n \<in> node_ids f" using Cons.prems all by auto
    then obtain nd where nd: "GetNode f n = Some nd" using GetNode_ids by blast
    have "m \<in> set ys" if m: "m \<in> set (node_operands nd)" for m
    proof (rule ccontr)
      assume "m \<notin> set ys"
      moreover have "m \<in> set ns" using wf GetNode_in[OF nd] m all by (auto simp: well_linked_def)
      ultimately have "m \<in> set (xs @ [n])" using Cons.prems by auto
      then obtain as bs where split: "xs @ [n] = as @ m # bs" by (meson split_list)
      then have "ns = as @ m # (bs @ ys)" using Cons.prems by (metis append_Cons append_assoc append_Nil)
      then have "set (node_users f m) \<subseteq> set as" using backward unfolding back_ordered_def by blast
      moreover have "n \<in> set (node_users f m)" using set_node_users[OF wf] nd m by blast
      moreover have "n \<notin> set as"
      proof -
        have "distinct (xs @ [n])" using dist Cons.prems by simp
        then show ?thesis using split by (cases bs rule: rev_cases) auto
      qed
      ultimately show False by blast
    qed
    then have "topological f (set ys) [n]" using nd dist Cons.prems by auto
    then show ?case using Cons.IH[of "xs @ [n]"] Cons.prems by (simp add: topological_append)
  qed simp
  then show ?thesis by (metis append_Nil)
qed

lemma all_ordered_iff:
  assumes wf: "well_linked f" and inv: "topo_inv f st" and finished: "ready_nodes st = []"
  shows "\<not> length (ordered st) < length (fn_nodes f) \<longleftrightarrow> set (ordered st) = node_ids f"
proof -
  have "card (node_ids f) = length (fn_nodes f)" using distinct_card wf by (fastforce simp: node_ids_def well_linked_def)
  moreover have "distinct (ordered st)" "set (ordered st) \<subseteq> node_ids f" using inv by (auto simp: topo_inv_def)
  ultimately show ?thesis
    using distinct_card[of "ordered st"] card_seteq[of "node_ids f" "set (ordered st)"] by (force simp: node_ids_def)
qed

lemma ranked_ordered:
  assumes wf: "well_linked f" and inv: "topo_inv f st" and finished: "ready_nodes st = []" and ranked: "operands_ranked f rank"
  shows "set (ordered st) = node_ids f"
proof (rule ccontr)
  let ?left = "node_ids f - set (ordered st)"
  assume "set (ordered st) \<noteq> node_ids f"
  then have ne: "?left \<noteq> {}" and fin: "finite ?left" using inv by (auto simp: topo_inv_def node_ids_def)
  have "Max (rank ` ?left) \<in> rank ` ?left" using ne fin by (intro Max_in) auto
  then obtain n where n: "n \<in> ?left" and max: "rank n = Max (rank ` ?left)" by auto
  have "users_ordered f st n < length (node_users f n)" using remaining_of_inv(2)[OF inv] n finished by simp
  then obtain u where u: "u \<in> set (node_users f n)" "u \<notin> set (ordered st)"
    unfolding users_ordered_def by (metis filter_True nat_neq_iff)
  then obtain nd where nd: "GetNode f u = Some nd" "n \<in> set (node_operands nd)" using set_node_users[OF wf] by blast
  then have "rank n < rank u" "u \<in> ?left" using ranked GetNode_in[OF nd(1)] GetNode_ids u(2) by (auto simp: operands_ranked_def)
  then show False using fin unfolding max by (meson Max_ge finite_imageI imageI leD)
qed

lemma NodeIterator_Initialize_cases:
  assumes wf: "well_linked f"
  shows "\<exists>ns. back_ordered f ns \<and> distinct ns \<and> set ns \<subseteq> node_ids f \<and>
    NodeIterator_Initialize f rv = (if set ns = node_ids f then Some ns else None) \<and>
    ((\<exists>rank. operands_ranked f rank) \<longrightarrow> set ns = node_ids f) \<and>
    (\<forall>n. rv = Some n \<and> n \<in> node_ids f \<and> node_users f n = [] \<longrightarrow> take 1 ns = [n])"
proof -
  obtain st where st: "seeded f rv st" and init: "NodeIterator_Initialize f rv =
      order_loop f st \<bind> (\<lambda>st. CHECK (\<not> length (ordered st) < length (fn_nodes f)) \<bind> (\<lambda>_. Some (ordered st)))"
    using Initialize_seeds[OF wf] by blast
  obtain st' later where st': "order_loop f st = Some st'" "topo_inv f st'" "ready_nodes st' = []"
      "ordered st' = ordered st @ take 1 (ready_nodes st) @ later"
    using order_loop_inv[OF seeded_inv[OF st] wf] by blast
  have "take 1 (ordered st') = [n]" if "rv = Some n" "n \<in> node_ids f" "node_users f n = []" for n
    using st st'(4) that by (auto simp: seeded_def)
  moreover have "NodeIterator_Initialize f rv = (if set (ordered st') = node_ids f then Some (ordered st') else None)"
    unfolding init st'(1) using all_ordered_iff[OF wf st'(2,3)] by (simp add: CHECK_def)
  ultimately show ?thesis
    using st'(2) ranked_ordered[OF wf st'(2,3)] by (intro exI[of _ "ordered st'"]) (auto simp: topo_inv_def)
qed

lemma TopoSort_spec:
  assumes "well_linked f"
  shows "((\<exists>ns. TopoSort f rv = Some ns) \<longleftrightarrow> (\<exists>rank. operands_ranked f rank)) \<and>
    (\<forall>ns. TopoSort f rv = Some ns \<longrightarrow> topological f {} ns \<and> distinct ns \<and> set ns = node_ids f \<and> ReverseTopoSort f rv = Some (rev ns) \<and>
      (\<forall>n. rv = Some n \<and> n \<in> node_ids f \<and> node_users f n = [] \<longrightarrow> last ns = n))"
proof -
  obtain ns where ns: "back_ordered f ns" "distinct ns"
      "NodeIterator_Initialize f rv = (if set ns = node_ids f then Some ns else None)"
      "(\<exists>rank. operands_ranked f rank) \<longrightarrow> set ns = node_ids f"
      "\<forall>n. rv = Some n \<and> n \<in> node_ids f \<and> node_users f n = [] \<longrightarrow> take 1 ns = [n]"
    using NodeIterator_Initialize_cases[OF assms, of rv] by (elim exE conjE) (rule that)
  have topo: "topological f {} (rev ns)" if "set ns = node_ids f" using back_ordered_topological[OF assms ns(2) that ns(1)] .
  have "\<exists>rank. operands_ranked f rank" if "set ns = node_ids f"
    using topological_ranked[OF _ topo[OF that]] assms that by (simp add: well_linked_def)
  moreover have "last (rev ns) = n" if "rv = Some n" "n \<in> node_ids f" "node_users f n = []" for n
    using ns(5) that by (cases ns) auto
  ultimately show ?thesis using ns(2-4) topo by (cases "set ns = node_ids f") (auto simp: TopoSort_def ReverseTopoSort_def)
qed

section \<open>Property\<close>

text \<open>C13: On a graph whose nodes are distinct and whose operands are nodes of it, \<open>TopoSort\<close> returns exactly when the graph
  has no cycle (and aborts otherwise). The result holds every node once, each after its operands; a return value that
  has no users comes last; \<open>ReverseTopoSort\<close> is the reverse order.\<close>

theorem topo_sort_exact:
  assumes "well_linked f"
  shows "((\<exists>ns. TopoSort f rv = Some ns) \<longleftrightarrow> (\<exists>rank. operands_ranked f rank)) \<and>
    (\<forall>ns. TopoSort f rv = Some ns \<longrightarrow> topological f {} ns \<and> distinct ns \<and> set ns = node_ids f \<and> ReverseTopoSort f rv = Some (rev ns) \<and>
      (\<forall>n. rv = Some n \<and> n \<in> node_ids f \<and> node_users f n = [] \<longrightarrow> last ns = n))"
  using TopoSort_spec[OF assms] .

theorem topo_sort_exact_witness:
  "(\<exists>ns. TopoSort (two_nodes 2) (Some 0) = Some ns \<and> topological (two_nodes 2) {} ns \<and> last ns = 0) \<and> TopoSort (two_nodes 0) (Some 0) = None"
proof
  have wf: "well_linked (two_nodes 2)" "well_linked (two_nodes 0)" by (simp_all add: well_linked_def two_nodes_def node_ids_def)
  have "operands_ranked (two_nodes 2) (\<lambda>n. 2 - n)" by (simp add: operands_ranked_def two_nodes_def node_ids_def)
  moreover have "0 \<in> node_ids (two_nodes 2)" "node_users (two_nodes 2) 0 = []" by (simp_all add: two_nodes_def node_ids_def node_users_def)
  ultimately show "\<exists>ns. TopoSort (two_nodes 2) (Some 0) = Some ns \<and> topological (two_nodes 2) {} ns \<and> last ns = 0"
    using topo_sort_exact[OF wf(1), of "Some 0"] by blast
  have "\<not> operands_ranked (two_nodes 0) rank" for rank by (auto simp: operands_ranked_def two_nodes_def)
  then show "TopoSort (two_nodes 0) (Some 0) = None" using topo_sort_exact[OF wf(2), of "Some 0"] by (cases "TopoSort (two_nodes 0) (Some 0)") blast+
qed

end
