(* ===== verification/Xls_Channel_Queue.thy ===== *)
theory Xls_Channel_Queue
  imports Xls_Ir
begin

text \<open>
  The queues behind the channels of a proc network, \<open>xls/interpreter/channel_queue.h\<close> and \<open>channel_queue.cc\<close>: the classes
  derived from \<open>ChannelQueue\<close> and the \<open>ChannelQueueManager\<close> that owns one queue per channel.

  The state of each class is a value; an operation returns the new state. \<open>GeneratedChannelQueue\<close> calls a function of the
  user, which is a parameter: the \<open>k\<close>-th call returns \<open>g k\<close>, and the state counts the calls. The manager is keyed by the
  identifier of the channel, which is unique in a package. The mutexes guard single operations, which are steps here.
\<close>

section \<open>The four kinds of queue\<close>

subsection \<open>FifoChannelQueue\<close>

definition Fifo_Enqueue :: "channel \<Rightarrow> xvalue \<Rightarrow> xvalue list \<Rightarrow> xvalue list statusor option" where
  "Fifo_Enqueue ch v q = do {
     conforms \<leftarrow> ValueConformsToType v (channel_type ch);
     if conforms then returnS (q @ [v]) else errorS InvalidArgument
   }"

definition Fifo_Dequeue :: "xvalue list \<Rightarrow> (xvalue \<times> xvalue list) statusor option" where
  "Fifo_Dequeue q = (case q of [] \<Rightarrow> errorS NotFound | v # q' \<Rightarrow> returnS (v, q'))"

definition Fifo_size :: "xvalue list \<Rightarrow> nat" where
  "Fifo_size q = length q"

definition Fifo_empty :: "xvalue list \<Rightarrow> bool" where
  "Fifo_empty q \<longleftrightarrow> q = []"

subsection \<open>GeneratedChannelQueue\<close>

definition Generated_Enqueue :: "channel \<Rightarrow> xvalue \<Rightarrow> nat \<Rightarrow> nat statusor option" where
  "Generated_Enqueue ch v calls = errorS Unimplemented"

definition Generated_Dequeue :: "(nat \<Rightarrow> xvalue statusor) \<Rightarrow> nat \<Rightarrow> (xvalue \<times> nat) statusor option" where
  "Generated_Dequeue g calls = bindS (Some (g calls)) (\<lambda>v. returnS (v, calls + 1))"

definition Generated_size :: "nat \<Rightarrow> nat" where
  "Generated_size calls = 2 ^ 63 - 1"

definition Generated_empty :: "nat \<Rightarrow> bool" where
  "Generated_empty calls \<longleftrightarrow> False"

subsection \<open>FixedChannelQueue\<close>

text \<open>A generated queue whose generator takes the values off a list.\<close>

definition Fixed_GenerateValue :: "xvalue list \<Rightarrow> (xvalue \<times> xvalue list) statusor" where
  "Fixed_GenerateValue q = (case q of [] \<Rightarrow> Inl ResourceExhausted | v # q' \<Rightarrow> Inr (v, q'))"

definition Fixed_Enqueue :: "channel \<Rightarrow> xvalue \<Rightarrow> xvalue list \<Rightarrow> xvalue list statusor option" where
  "Fixed_Enqueue ch v q = errorS Unimplemented"

definition Fixed_Dequeue :: "xvalue list \<Rightarrow> (xvalue \<times> xvalue list) statusor option" where
  "Fixed_Dequeue q = Some (Fixed_GenerateValue q)"

definition Fixed_size :: "xvalue list \<Rightarrow> nat" where
  "Fixed_size q = length q"

definition Fixed_empty :: "xvalue list \<Rightarrow> bool" where
  "Fixed_empty q \<longleftrightarrow> q = []"

subsection \<open>SingleValueChannelQueue\<close>

definition Single_Enqueue :: "channel \<Rightarrow> xvalue \<Rightarrow> xvalue option \<Rightarrow> xvalue option statusor option" where
  "Single_Enqueue ch v q = do {
     conforms \<leftarrow> ValueConformsToType v (channel_type ch);
     CHECK conforms;
     returnS (Some v)
   }"

definition Single_Dequeue :: "xvalue option \<Rightarrow> (xvalue \<times> xvalue option) statusor option" where
  "Single_Dequeue q = (case q of None \<Rightarrow> errorS ResourceExhausted | Some v \<Rightarrow> returnS (v, q))"

definition Single_size :: "xvalue option \<Rightarrow> nat" where
  "Single_size q = (if q \<noteq> None then 1 else 0)"

definition Single_empty :: "xvalue option \<Rightarrow> bool" where
  "Single_empty q \<longleftrightarrow> q = None"

section \<open>The interface\<close>

text \<open>
  What \<open>channel_queue.h\<close> promises of every queue: \<open>size\<close> counts the elements, \<open>empty\<close> tests for none, and \<open>Dequeue\<close> on an
  empty queue is an error. \<open>content q\<close> are the values that a client will see, in order.
\<close>

locale channel_queue_spec =
  fixes dequeue :: "'q \<Rightarrow> (xvalue \<times> 'q) statusor option" and count :: "'q \<Rightarrow> nat" and is_empty :: "'q \<Rightarrow> bool"
    and content :: "'q \<Rightarrow> xvalue list"
  assumes count: "count q = length (content q)"
    and is_empty: "is_empty q \<longleftrightarrow> content q = []"
    and dequeue_empty: "content q = [] \<Longrightarrow> \<exists>e. dequeue q = errorS e"
    and dequeue_hd: "content q \<noteq> [] \<Longrightarrow> \<exists>q'. dequeue q = returnS (hd (content q), q')"
begin

lemma is_empty_count: "is_empty q \<longleftrightarrow> count q = 0"
  by (simp add: is_empty count)

lemma dequeue_fails_iff: "(\<exists>e. dequeue q = errorS e) \<longleftrightarrow> is_empty q"
  using dequeue_empty[of q] dequeue_hd[of q] is_empty[of q] by auto

end

text \<open>Queues from which a value is taken once.\<close>

locale consuming_queue = channel_queue_spec +
  assumes dequeue_pops: "dequeue q = returnS (v, q') \<Longrightarrow> content q = v # content q'"
begin

fun drain :: "nat \<Rightarrow> 'a \<Rightarrow> (xvalue list \<times> 'a) statusor option" where
  "drain 0 q = returnS ([], q)"
| "drain (Suc k) q = bindS (dequeue q) (\<lambda>(v, q). bindS (drain k q) (\<lambda>(vs, q). returnS (v # vs, q)))"

lemma drain_order: "k \<le> count q \<Longrightarrow> \<exists>q'. drain k q = returnS (take k (content q), q') \<and> content q' = drop k (content q)"
proof (induction k arbitrary: q)
  case (Suc k)
  then have ne: "content q \<noteq> []" by (auto simp: count)
  then obtain q1 where q1: "dequeue q = returnS (hd (content q), q1)" using dequeue_hd by blast
  then have c: "content q = hd (content q) # content q1" using dequeue_pops by blast
  then have "k \<le> count q1" using Suc.prems by (metis count length_Cons Suc_le_mono)
  from Suc.IH[OF this] obtain q2 where q2: "drain k q1 = returnS (take k (content q1), q2)" "content q2 = drop k (content q1)" by blast
  show ?case
  proof (intro exI conjI)
    show "drain (Suc k) q = returnS (take (Suc k) (content q), q2)" by (subst c) (simp add: q1 q2)
    show "content q2 = drop (Suc k) (content q)" by (subst c) (simp add: q2)
  qed
qed simp

end

text \<open>First in, first out: a value that conforms to the type of the channel goes to the end.\<close>

locale fifo_queue = consuming_queue +
  fixes enqueue :: "channel \<Rightarrow> xvalue \<Rightarrow> 'a \<Rightarrow> 'a statusor option"
  assumes enqueue_end: "has_type v (channel_type ch) \<Longrightarrow> \<exists>q'. enqueue ch v q = returnS q' \<and> content q' = content q @ [v]"
    and enqueue_rejects: "has_type v t \<Longrightarrow> t \<noteq> channel_type ch \<Longrightarrow> enqueue ch v q = errorS InvalidArgument"
begin

fun fill :: "channel \<Rightarrow> xvalue list \<Rightarrow> 'a \<Rightarrow> 'a statusor option" where
  "fill ch [] q = returnS q"
| "fill ch (v # vs) q = bindS (enqueue ch v q) (fill ch vs)"

lemma fill_content:
  "list_all (\<lambda>v. has_type v (channel_type ch)) vs \<Longrightarrow> \<exists>q'. fill ch vs q = returnS q' \<and> content q' = content q @ vs"
proof (induction vs arbitrary: q)
  case (Cons v vs)
  then obtain q1 where q1: "enqueue ch v q = returnS q1" "content q1 = content q @ [v]" using enqueue_end by fastforce
  then show ?case using Cons.IH[of q1] Cons.prems by simp
qed simp

text \<open>What is sent on a queue that starts empty is received in the same order.\<close>

lemma fifo_order:
  assumes "list_all (\<lambda>v. has_type v (channel_type ch)) vs" and "content q = []"
  shows "\<exists>q1 q2. fill ch vs q = returnS q1 \<and> drain (length vs) q1 = returnS (vs, q2) \<and> is_empty q2"
proof -
  obtain q1 where q1: "fill ch vs q = returnS q1" "content q1 = vs" using fill_content[OF assms(1), of q] assms(2) by auto
  then obtain q2 where "drain (length vs) q1 = returnS (vs, q2)" "content q2 = []" using drain_order[of "length vs" q1] by (auto simp: count)
  then show ?thesis using q1 is_empty by blast
qed

end

text \<open>A register: the last value written is read any number of times.\<close>

locale single_value_queue = channel_queue_spec +
  fixes enqueue :: "channel \<Rightarrow> xvalue \<Rightarrow> 'a \<Rightarrow> 'a statusor option"
  assumes dequeue_keeps: "dequeue q = returnS (v, q') \<Longrightarrow> q' = q"
    and enqueue_replaces: "has_type v (channel_type ch) \<Longrightarrow> \<exists>q'. enqueue ch v q = returnS q' \<and> content q' = [v]"
begin

lemma read_after_write:
  assumes "has_type v (channel_type ch)"
  shows "\<exists>q'. enqueue ch v q = returnS q' \<and> dequeue q' = returnS (v, q')"
proof -
  obtain q1 where q1: "enqueue ch v q = returnS q1" "content q1 = [v]" using enqueue_replaces[OF assms] by blast
  then obtain q2 where "dequeue q1 = returnS (v, q2)" using dequeue_hd[of q1] by auto
  then show ?thesis using q1 dequeue_keeps by blast
qed

end

interpretation fixed: consuming_queue Fixed_Dequeue Fixed_size Fixed_empty "\<lambda>q. q"
  by unfold_locales (auto simp: Fixed_Dequeue_def Fixed_GenerateValue_def Fixed_size_def Fixed_empty_def returnS_def errorS_def
      neq_Nil_conv split: list.splits)

interpretation fifo: fifo_queue Fifo_Dequeue Fifo_size Fifo_empty "\<lambda>q. q" Fifo_Enqueue
  by unfold_locales (auto simp: Fifo_Dequeue_def Fifo_size_def Fifo_empty_def Fifo_Enqueue_def ValueConformsToType_typed
      neq_Nil_conv split: list.splits)

interpretation single: single_value_queue Single_Dequeue Single_size Single_empty "\<lambda>q. case q of None \<Rightarrow> [] | Some v \<Rightarrow> [v]" Single_Enqueue
  by unfold_locales (auto simp: Single_Dequeue_def Single_size_def Single_empty_def Single_Enqueue_def ValueConformsToType_typed CHECK_def
      split: option.splits)

section \<open>Queues of any kind\<close>

datatype queue_impl =
    FifoQueue "xvalue list"
  | GeneratedQueue "nat \<Rightarrow> xvalue statusor" nat
  | FixedQueue "xvalue list"
  | SingleValueQueue "xvalue option"

record channel_queue =
  queue_channel :: channel
  queue_impl :: queue_impl

definition with_impl :: "channel_queue \<Rightarrow> ('q \<Rightarrow> queue_impl) \<Rightarrow> 'q statusor option \<Rightarrow> channel_queue statusor option" where
  "with_impl q C r = bindS r (\<lambda>s. returnS (q\<lparr>queue_impl := C s\<rparr>))"

definition with_value :: "channel_queue \<Rightarrow> ('q \<Rightarrow> queue_impl) \<Rightarrow> (xvalue \<times> 'q) statusor option \<Rightarrow> (xvalue \<times> channel_queue) statusor option" where
  "with_value q C r = bindS r (\<lambda>(v, s). returnS (v, q\<lparr>queue_impl := C s\<rparr>))"

definition ChannelQueue_Enqueue :: "xvalue \<Rightarrow> channel_queue \<Rightarrow> channel_queue statusor option" where
  "ChannelQueue_Enqueue v q = (case queue_impl q of
     FifoQueue vs \<Rightarrow> with_impl q FifoQueue (Fifo_Enqueue (queue_channel q) v vs)
   | GeneratedQueue g k \<Rightarrow> with_impl q (GeneratedQueue g) (Generated_Enqueue (queue_channel q) v k)
   | FixedQueue vs \<Rightarrow> with_impl q FixedQueue (Fixed_Enqueue (queue_channel q) v vs)
   | SingleValueQueue w \<Rightarrow> with_impl q SingleValueQueue (Single_Enqueue (queue_channel q) v w))"

definition ChannelQueue_Dequeue :: "channel_queue \<Rightarrow> (xvalue \<times> channel_queue) statusor option" where
  "ChannelQueue_Dequeue q = (case queue_impl q of
     FifoQueue vs \<Rightarrow> with_value q FifoQueue (Fifo_Dequeue vs)
   | GeneratedQueue g k \<Rightarrow> with_value q (GeneratedQueue g) (Generated_Dequeue g k)
   | FixedQueue vs \<Rightarrow> with_value q FixedQueue (Fixed_Dequeue vs)
   | SingleValueQueue w \<Rightarrow> with_value q SingleValueQueue (Single_Dequeue w))"

definition ChannelQueue_size :: "channel_queue \<Rightarrow> nat" where
  "ChannelQueue_size q = (case queue_impl q of
     FifoQueue vs \<Rightarrow> Fifo_size vs | GeneratedQueue g k \<Rightarrow> Generated_size k | FixedQueue vs \<Rightarrow> Fixed_size vs | SingleValueQueue w \<Rightarrow> Single_size w)"

definition ChannelQueue_empty :: "channel_queue \<Rightarrow> bool" where
  "ChannelQueue_empty q = (case queue_impl q of
     FifoQueue vs \<Rightarrow> Fifo_empty vs | GeneratedQueue g k \<Rightarrow> Generated_empty k | FixedQueue vs \<Rightarrow> Fixed_empty vs | SingleValueQueue w \<Rightarrow> Single_empty w)"

definition IsSingleValueChannelQueue :: "channel_queue \<Rightarrow> bool" where
  "IsSingleValueChannelQueue q = (case queue_impl q of SingleValueQueue w \<Rightarrow> True | _ \<Rightarrow> False)"

section \<open>The manager\<close>

type_synonym queue_map = "int \<Rightarrow> channel_queue option"

record queue_manager =
  mgr_channels :: "channel list"
  mgr_queues :: queue_map
  queue_vec :: "int list"

fun add_user_queues :: "channel_queue list \<Rightarrow> queue_map \<Rightarrow> queue_map statusor" where
  "add_user_queues [] qs = Inr qs"
| "add_user_queues (q # user_defined_queues) qs =
     (if supported_ops (queue_channel q) \<noteq> kReceiveOnly then Inl InvalidArgument
      else if qs (channel_id (queue_channel q)) \<noteq> None then Inl InvalidArgument
      else if ch_kind (queue_channel q) \<noteq> kSingleValue \<and> IsSingleValueChannelQueue q then Inl InvalidArgument
      else if ch_kind (queue_channel q) = kSingleValue \<and> \<not> IsSingleValueChannelQueue q then Inl InvalidArgument
      else add_user_queues user_defined_queues (qs(channel_id (queue_channel q) \<mapsto> q)))"

fun add_default_queues :: "channel list \<Rightarrow> queue_map \<Rightarrow> queue_map" where
  "add_default_queues [] qs = qs"
| "add_default_queues (ch # channels) qs =
     add_default_queues channels
       (if qs (channel_id ch) \<noteq> None then qs
        else qs(channel_id ch \<mapsto> \<lparr>queue_channel = ch,
               queue_impl = (if ch_kind ch = kSingleValue then SingleValueQueue None else FifoQueue [])\<rparr>))"

text \<open>The identifiers of the queues in the map are those of the user's queues and of the channels.\<close>

definition ChannelQueueManager_Create :: "channel_queue list \<Rightarrow> channel list \<Rightarrow> queue_manager statusor" where
  "ChannelQueueManager_Create user_defined_queues channels =
     (case add_user_queues user_defined_queues Map.empty of
        Inl e \<Rightarrow> Inl e
      | Inr qs \<Rightarrow> Inr \<lparr>mgr_channels = channels, mgr_queues = add_default_queues channels qs,
          queue_vec = sort (remdups (map (channel_id \<circ> queue_channel) user_defined_queues @ map channel_id channels))\<rparr>)"

definition GetChannelByName :: "channel list \<Rightarrow> string \<Rightarrow> channel statusor" where
  "GetChannelByName channels name = (case find (\<lambda>c. channel_name c = name) channels of None \<Rightarrow> Inl NotFound | Some c \<Rightarrow> Inr c)"

definition GetQueueById :: "queue_manager \<Rightarrow> int \<Rightarrow> channel_queue statusor option" where
  "GetQueueById m i = bindS (Some (GetChannel (mgr_channels m) i)) (\<lambda>ch. mgr_queues m (channel_id ch) \<bind> returnS)"

definition GetQueueByName :: "queue_manager \<Rightarrow> string \<Rightarrow> channel_queue statusor option" where
  "GetQueueByName m name = bindS (Some (GetChannelByName (mgr_channels m) name)) (\<lambda>ch. mgr_queues m (channel_id ch) \<bind> returnS)"

section \<open>Typed queues\<close>

text \<open>
  Every value in the queue, and every value its generator returns, has the type of the channel; a generator does not fail.
  The queue of a channel on which procs send is not one that the user feeds.
\<close>

definition values_typed :: "channel_queue \<Rightarrow> bool" where
  "values_typed q \<longleftrightarrow> (let t = channel_type (queue_channel q) in case queue_impl q of
     FifoQueue vs \<Rightarrow> list_all (\<lambda>v. has_type v t) vs
   | GeneratedQueue g k \<Rightarrow> (\<forall>i. \<exists>v. g i = Inr v \<and> has_type v t)
   | FixedQueue vs \<Rightarrow> list_all (\<lambda>v. has_type v t) vs
   | SingleValueQueue w \<Rightarrow> (\<forall>v. w = Some v \<longrightarrow> has_type v t))"

definition accepts_sends :: "channel_queue \<Rightarrow> bool" where
  "accepts_sends q \<longleftrightarrow> (case queue_impl q of FifoQueue vs \<Rightarrow> True | SingleValueQueue w \<Rightarrow> True | _ \<Rightarrow> False)"

definition queue_ok :: "channel \<Rightarrow> channel_queue \<Rightarrow> bool" where
  "queue_ok ch q \<longleftrightarrow> queue_channel q = ch \<and> values_typed q \<and> (Channel_CanSend ch \<longrightarrow> accepts_sends q)"

definition manager_ok :: "queue_manager \<Rightarrow> bool" where
  "manager_ok m \<longleftrightarrow> (\<forall>ch\<in>set (mgr_channels m). \<exists>q. mgr_queues m (channel_id ch) = Some q \<and> queue_ok ch q)"

lemma Enqueue_ok:
  assumes ok: "queue_ok ch q" and ch: "Channel_CanSend ch" and v: "has_type v (channel_type ch)"
  shows "\<exists>q'. ChannelQueue_Enqueue v q = returnS q' \<and> queue_ok ch q'"
proof (cases "queue_impl q")
  case (FifoQueue vs)
  obtain vs' where "Fifo_Enqueue ch v vs = returnS vs'" "vs' = vs @ [v]" using fifo.enqueue_end[OF v] by blast
  then show ?thesis using FifoQueue ok v
    by (auto simp: ChannelQueue_Enqueue_def with_impl_def queue_ok_def values_typed_def accepts_sends_def Let_def)
next
  case (SingleValueQueue w)
  have "Single_Enqueue ch v w = returnS (Some v)" using v by (simp add: Single_Enqueue_def ValueConformsToType_typed CHECK_def)
  then show ?thesis using SingleValueQueue ok v
    by (auto simp: ChannelQueue_Enqueue_def with_impl_def queue_ok_def values_typed_def accepts_sends_def Let_def)
qed (use ok ch in \<open>auto simp: queue_ok_def accepts_sends_def\<close>)

lemma Dequeue_ok:
  assumes ok: "queue_ok ch q" and ne: "\<not> ChannelQueue_empty q"
  shows "\<exists>v q'. ChannelQueue_Dequeue q = returnS (v, q') \<and> has_type v (channel_type ch) \<and> queue_ok ch q'"
proof (cases "queue_impl q")
  case (FifoQueue vs)
  then show ?thesis using ok ne
    by (cases vs) (auto simp: ChannelQueue_Dequeue_def ChannelQueue_empty_def with_value_def Fifo_Dequeue_def Fifo_empty_def queue_ok_def
        values_typed_def accepts_sends_def Let_def)
next
  case (GeneratedQueue g k)
  then obtain v where "g k = Inr v" "has_type v (channel_type ch)" using ok by (fastforce simp: queue_ok_def values_typed_def Let_def)
  then show ?thesis using ok GeneratedQueue
    by (auto simp: ChannelQueue_Dequeue_def with_value_def Generated_Dequeue_def queue_ok_def values_typed_def accepts_sends_def Let_def)
next
  case (FixedQueue vs)
  then show ?thesis using ok ne
    by (cases vs) (auto simp: ChannelQueue_Dequeue_def ChannelQueue_empty_def with_value_def Fixed_Dequeue_def Fixed_GenerateValue_def
        Fixed_empty_def queue_ok_def values_typed_def accepts_sends_def Let_def)
next
  case (SingleValueQueue w)
  then show ?thesis using ok ne
    by (cases w) (auto simp: ChannelQueue_Dequeue_def ChannelQueue_empty_def with_value_def Single_Dequeue_def Single_empty_def queue_ok_def
        values_typed_def accepts_sends_def Let_def)
qed

lemma GetQueueById_ok:
  assumes "manager_ok m" and "GetChannel (mgr_channels m) i = Inr ch"
  shows "\<exists>q. GetQueueById m i = returnS q \<and> queue_ok ch q \<and> mgr_queues m i = Some q \<and> channel_id ch = i \<and> ch \<in> set (mgr_channels m)"
proof -
  have ch: "ch \<in> set (mgr_channels m)" "channel_id ch = i"
    using assms(2) by (auto simp: GetChannel_def find_Some_iff split: option.splits)
  then obtain q where "mgr_queues m i = Some q" "queue_ok ch q" using assms(1) by (auto simp: manager_ok_def)
  then show ?thesis using assms(2) ch by (simp add: GetQueueById_def)
qed

lemma manager_update:
  assumes "manager_ok m" and "queue_ok ch q" and "\<forall>c\<in>set (mgr_channels m). channel_id c = channel_id ch \<longrightarrow> c = ch"
  shows "manager_ok (m\<lparr>mgr_queues := (mgr_queues m)(channel_id ch \<mapsto> q)\<rparr>)"
  using assms by (auto simp: manager_ok_def)

section \<open>Creating the manager\<close>

lemma find_key_None: "find (\<lambda>x. k x = i) xs = None \<longleftrightarrow> i \<notin> k ` set xs"
  by (auto simp: find_None_iff)

lemma find_key_Some: "distinct (map k xs) \<Longrightarrow> x \<in> set xs \<Longrightarrow> find (\<lambda>y. k y = k x) xs = Some x"
  by (induction xs) auto

abbreviation queue_id :: "channel_queue \<Rightarrow> int" where
  "queue_id q \<equiv> channel_id (queue_channel q)"

definition user_queues_valid :: "channel_queue list \<Rightarrow> bool" where
  "user_queues_valid qs \<longleftrightarrow> distinct (map queue_id qs) \<and>
     list_all (\<lambda>q. supported_ops (queue_channel q) = kReceiveOnly \<and> (ch_kind (queue_channel q) = kSingleValue \<longleftrightarrow> IsSingleValueChannelQueue q)) qs"

definition new_queue :: "channel \<Rightarrow> channel_queue" where
  "new_queue ch = \<lparr>queue_channel = ch, queue_impl = (if ch_kind ch = kSingleValue then SingleValueQueue None else FifoQueue [])\<rparr>"

lemma add_user_queues_iff:
  "add_user_queues uqs qs =
     (if user_queues_valid uqs \<and> (\<forall>q\<in>set uqs. qs (queue_id q) = None)
      then Inr (\<lambda>i. case find (\<lambda>q. queue_id q = i) uqs of None \<Rightarrow> qs i | Some q \<Rightarrow> Some q)
      else Inl InvalidArgument)"
proof (induction uqs arbitrary: qs)
  case (Cons q uqs)
  have "(\<forall>p\<in>set uqs. (qs(queue_id q \<mapsto> q)) (queue_id p) = None) \<longleftrightarrow>
      (\<forall>p\<in>set uqs. qs (queue_id p) = None) \<and> queue_id q \<notin> queue_id ` set uqs"
    unfolding image_iff by (auto split: if_splits dest: sym)
  moreover have "(\<lambda>i. case find (\<lambda>q. queue_id q = i) uqs of None \<Rightarrow> (qs(queue_id q \<mapsto> q)) i | Some q \<Rightarrow> Some q) =
      (\<lambda>i. case find (\<lambda>q. queue_id q = i) (q # uqs) of None \<Rightarrow> qs i | Some q \<Rightarrow> Some q)" if "queue_id q \<notin> queue_id ` set uqs"
  proof
    fix i
    have "find (\<lambda>p. queue_id p = queue_id q) uqs = None" using that by (simp add: find_key_None)
    then show "(case find (\<lambda>q. queue_id q = i) uqs of None \<Rightarrow> (qs(queue_id q \<mapsto> q)) i | Some q \<Rightarrow> Some q) =
      (case find (\<lambda>q. queue_id q = i) (q # uqs) of None \<Rightarrow> qs i | Some q \<Rightarrow> Some q)" by (auto split: option.splits)
  qed
  ultimately show ?case by (auto simp: Cons.IH user_queues_valid_def)
qed (simp add: user_queues_valid_def)

lemma add_default_queues_eq:
  "distinct (map channel_id channels) \<Longrightarrow>
   add_default_queues channels qs = (\<lambda>i. case qs i of Some q \<Rightarrow> Some q | None \<Rightarrow> map_option new_queue (find (\<lambda>c. channel_id c = i) channels))"
proof (induction channels arbitrary: qs)
  case (Cons ch channels)
  have "find (\<lambda>c. channel_id c = channel_id ch) channels = None" using Cons.prems by (simp add: find_key_None)
  then show ?case using Cons by (auto simp: fun_eq_iff new_queue_def split: option.splits)
qed (auto split: option.splits)

text \<open>\<open>ChannelQueueManager::Create\<close> accepts the user's queues exactly when they belong to different receive-only channels
  and are single-value queues for single-value channels only; it refuses others with \<open>InvalidArgument\<close>. The manager then
  holds the user's queues, a new empty queue of the matching kind for every other channel, and the identifiers of its
  queues in increasing order.\<close>

lemma queue_manager_spec:
  assumes "distinct (map channel_id channels)"
  shows "(\<not> user_queues_valid uqs \<longrightarrow> ChannelQueueManager_Create uqs channels = Inl InvalidArgument) \<and>
    (user_queues_valid uqs \<longrightarrow> (\<exists>m. ChannelQueueManager_Create uqs channels = Inr m \<and> mgr_channels m = channels \<and>
       (\<forall>q\<in>set uqs. mgr_queues m (queue_id q) = Some q) \<and>
       (\<forall>ch\<in>set channels. channel_id ch \<notin> queue_id ` set uqs \<longrightarrow> mgr_queues m (channel_id ch) = Some (new_queue ch) \<and>
          ChannelQueue_empty (new_queue ch)) \<and>
       sorted (queue_vec m) \<and> distinct (queue_vec m) \<and> set (queue_vec m) = dom (mgr_queues m)))"
proof (cases "user_queues_valid uqs")
  case True
  let ?qs = "\<lambda>i. case find (\<lambda>q. queue_id q = i) uqs of None \<Rightarrow> None | Some q \<Rightarrow> Some q"
  let ?m = "\<lambda>i. case ?qs i of Some q \<Rightarrow> Some q | None \<Rightarrow> map_option new_queue (find (\<lambda>c. channel_id c = i) channels)"
  have dom: "dom ?m = queue_id ` set uqs \<union> channel_id ` set channels"
  proof (intro set_eqI)
    fix i
    show "i \<in> dom ?m \<longleftrightarrow> i \<in> queue_id ` set uqs \<union> channel_id ` set channels"
      using find_key_None[of queue_id i uqs] find_key_None[of channel_id i channels]
      by (cases "find (\<lambda>q. queue_id q = i) uqs"; cases "find (\<lambda>c. channel_id c = i) channels") auto
  qed
  have "ChannelQueueManager_Create uqs channels = Inr \<lparr>mgr_channels = channels, mgr_queues = ?m,
      queue_vec = sort (remdups (map (channel_id \<circ> queue_channel) uqs @ map channel_id channels))\<rparr>"
    using True by (simp add: ChannelQueueManager_Create_def add_user_queues_iff add_default_queues_eq[OF assms] cong: option.case_cong)
  moreover have "ChannelQueue_empty (new_queue ch)" for ch
    by (simp add: new_queue_def ChannelQueue_empty_def Fifo_empty_def Single_empty_def)
  moreover have "?m (queue_id q) = Some q" if "q \<in> set uqs" for q
    using find_key_Some[of queue_id uqs, OF _ that] True by (simp add: user_queues_valid_def)
  moreover have "?m (channel_id ch) = Some (new_queue ch)" if "ch \<in> set channels" "channel_id ch \<notin> queue_id ` set uqs" for ch
    using find_key_Some[of channel_id channels, OF assms that(1)] find_key_None[of queue_id "channel_id ch" uqs] that(2) by simp
  ultimately show ?thesis using True dom by (simp add: image_comp)
qed (simp add: ChannelQueueManager_Create_def add_user_queues_iff)

end
