(* ===== verification/Xls_Proc_Interpreter.thy ===== *)
theory Xls_Proc_Interpreter
  imports Xls_Verified Xls_Node_Iterator Xls_Channel_Queue
begin

text \<open>
  Procs and networks of procs: \<open>xls/interpreter/proc_interpreter.cc\<close>, which runs the nodes of one proc until the iteration is
  complete or blocked on a receive, and \<open>proc_network_interpreter.cc\<close>, which ticks the procs of a package in turn until no
  proc makes progress.

  The visitor of a proc keeps the node values and the set of executed nodes from one call to the next, so that a blocked
  iteration is resumed. The queues are shared by the procs and passed along. \<open>call\<close> interprets the functions that nodes of
  a proc invoke. A status error ends a run; what the run changed before it is not kept in the model.
\<close>

section \<open>The visitor of a proc\<close>

definition Receive_predicate :: "ir_node \<Rightarrow> nat option" where
  "Receive_predicate nd = at_opt (node_operands nd) 1"

definition Send_predicate :: "ir_node \<Rightarrow> nat option" where
  "Send_predicate nd = at_opt (node_operands nd) 2"

definition predicate_IsZero :: "interp \<Rightarrow> nat option \<Rightarrow> bool option" where
  "predicate_IsZero st p = (case p of None \<Rightarrow> Some False | Some n \<Rightarrow> map_option Bits_IsZero (ResolveAsBits st n))"

definition set_queue :: "int \<Rightarrow> channel_queue \<Rightarrow> queue_manager \<Rightarrow> queue_manager" where
  "set_queue i q m = m\<lparr>mgr_queues := (mgr_queues m)(i \<mapsto> q)\<rparr>"

definition with_manager :: "queue_manager \<Rightarrow> interp statusor option \<Rightarrow> (interp \<times> queue_manager) statusor option" where
  "with_manager m r = bindS r (\<lambda>st. returnS (st, m))"

definition ProcIrInterpreter_HandleReceive ::
    "int \<Rightarrow> bool \<Rightarrow> nat \<Rightarrow> ir_node \<Rightarrow> interp \<times> queue_manager \<Rightarrow> (interp \<times> queue_manager) statusor option" where
  "ProcIrInterpreter_HandleReceive ch_id is_blocking n nd s = (case s of (st, m) \<Rightarrow>
     bindS (GetQueueById m ch_id) (\<lambda>queue. do {
       off \<leftarrow> predicate_IsZero st (Receive_predicate nd);
       if off \<or> (\<not> is_blocking \<and> ChannelQueue_empty queue)
       then do { zero \<leftarrow> ZeroOfType (node_type nd); with_manager m (SetValueResult n nd zero st) }
       else
         bindS (ChannelQueue_Dequeue queue) (\<lambda>(v, queue').
           let m' = set_queue ch_id queue' m in
           if is_blocking then with_manager m' (SetValueResult n nd (VTuple [VToken, v]) st)
           else do { one \<leftarrow> UBits 1 1; with_manager m' (SetValueResult n nd (VTuple [VToken, v, VBits one]) st) })
     }))"

definition ProcIrInterpreter_HandleSend ::
    "int \<Rightarrow> nat \<Rightarrow> ir_node \<Rightarrow> interp \<times> queue_manager \<Rightarrow> (interp \<times> queue_manager) statusor option" where
  "ProcIrInterpreter_HandleSend ch_id n nd s = (case s of (st, m) \<Rightarrow>
     bindS (GetQueueById m ch_id) (\<lambda>queue. do {
       off \<leftarrow> predicate_IsZero st (Send_predicate nd);
       if off then with_manager m (SetValueResult n nd VToken st)
       else do {
         data \<leftarrow> operand_value st nd 1;
         bindS (ChannelQueue_Enqueue data queue) (\<lambda>queue'.
           with_manager (set_queue ch_id queue' m) (SetValueResult n nd VToken st))
       }
     }))"

definition ProcIrInterpreter_HandleParam :: "ir_function \<Rightarrow> xvalue list \<Rightarrow> nat \<Rightarrow> ir_node \<Rightarrow> interp \<Rightarrow> interp statusor option" where
  "ProcIrInterpreter_HandleParam f state n nd st =
     bindS (Some (GetParamIndex f n)) (\<lambda>index.
       if index = 0 then SetValueResult n nd VToken st
       else do { v \<leftarrow> at_opt state (index - 1); SetValueResult n nd v st })"

definition ProcIrInterpreter_Visit ::
    "'b bn_api \<Rightarrow> interp_call \<Rightarrow> ir_package \<Rightarrow> ir_function \<Rightarrow> xvalue list \<Rightarrow> (interp \<times> queue_manager) visitor" where
  "ProcIrInterpreter_Visit B call pkg f state n nd s = (case node_op nd of
     Receive ch_id is_blocking \<Rightarrow> ProcIrInterpreter_HandleReceive ch_id is_blocking n nd s
   | Send ch_id \<Rightarrow> ProcIrInterpreter_HandleSend ch_id n nd s
   | _ \<Rightarrow> with_manager (snd s) (IrInterpreter_Visit B call pkg (ProcIrInterpreter_HandleParam f state) f n nd (fst s)))"

section \<open>ProcInterpreter\<close>

record proc_visitor =
  pv_interp :: interp
  pv_visited :: "nat set"
  pv_state :: "xvalue list"

record proc_interpreter =
  pi_proc :: ir_proc
  topo_sort :: "nat list"
  current_iteration :: nat
  pi_visitor :: "proc_visitor option"

record run_result =
  iteration_complete :: bool
  progress_made :: bool
  blocked_channels :: "channel list"

definition ProcInterpreter_new :: "ir_proc \<Rightarrow> proc_interpreter option" where
  "ProcInterpreter_new p = do {
     order \<leftarrow> TopoSort (proc_base p) None;
     Some \<lparr>pi_proc = p, topo_sort = order, current_iteration = 0, pi_visitor = None\<rparr>
   }"

definition new_visitor :: "xvalue list \<Rightarrow> proc_visitor" where
  "new_visitor state = \<lparr>pv_interp = init_interp, pv_visited = {}, pv_state = state\<rparr>"

definition IsIterationComplete :: "proc_interpreter \<Rightarrow> bool" where
  "IsIterationComplete pin = (case pi_visitor pin of
     None \<Rightarrow> True
   | Some v \<Rightarrow> list_all (\<lambda>n. n \<in> pv_visited v) (NextState (pi_proc pin)) \<and> NextToken (pi_proc pin) \<in> pv_visited v)"

definition ProcInterpreter_ResolveState :: "proc_interpreter \<Rightarrow> xvalue list statusor option" where
  "ProcInterpreter_ResolveState pin = do {
     v \<leftarrow> pi_visitor pin;
     mapS (\<lambda>n. case node_values (pv_interp v) n of None \<Rightarrow> errorS NotFound | Some x \<Rightarrow> returnS x) (NextState (pi_proc pin))
   }"

definition ProcInterpreter_ResetState :: "proc_interpreter \<Rightarrow> proc_interpreter" where
  "ProcInterpreter_ResetState pin = pin\<lparr>pi_visitor := Some (new_visitor (InitValues (pi_proc pin)))\<rparr>"

text \<open>The channel on which a blocking receive waits.\<close>

definition receive_blocked :: "ir_node \<Rightarrow> interp \<Rightarrow> queue_manager \<Rightarrow> channel option statusor option" where
  "receive_blocked nd st m = (case node_op nd of
     Receive ch_id True \<Rightarrow> do {
       predicate \<leftarrow> (case Receive_predicate nd of None \<Rightarrow> Some True | Some p \<Rightarrow> map_option Bits_IsOne (ResolveAsValue st p \<bind> Value_bits));
       bindS (GetQueueById m ch_id) (\<lambda>queue. returnS (if predicate \<and> ChannelQueue_empty queue then Some (queue_channel queue) else None))
     }
   | _ \<Rightarrow> returnS None)"

record run_state =
  rs_visitor :: proc_visitor
  rs_manager :: queue_manager
  rs_result :: run_result

definition execute_node ::
    "'b bn_api \<Rightarrow> interp_call \<Rightarrow> ir_package \<Rightarrow> ir_function \<Rightarrow> nat \<Rightarrow> ir_node \<Rightarrow> run_state \<Rightarrow> run_state statusor option" where
  "execute_node B call pkg f n nd s =
     bindS (ProcIrInterpreter_Visit B call pkg f (pv_state (rs_visitor s)) n nd (pv_interp (rs_visitor s), rs_manager s)) (\<lambda>(st, m).
       returnS (s\<lparr>rs_visitor := (rs_visitor s)\<lparr>pv_interp := st, pv_visited := insert n (pv_visited (rs_visitor s))\<rparr>,
                  rs_manager := m, rs_result := (rs_result s)\<lparr>progress_made := True\<rparr>\<rparr>))"

definition run_node ::
    "'b bn_api \<Rightarrow> interp_call \<Rightarrow> ir_package \<Rightarrow> ir_function \<Rightarrow> nat \<Rightarrow> run_state \<Rightarrow> run_state statusor option" where
  "run_node B call pkg f n s =
     (if n \<in> pv_visited (rs_visitor s) then returnS s
      else do {
        nd \<leftarrow> GetNode f n;
        if list_all (\<lambda>a. a \<in> pv_visited (rs_visitor s)) (node_operands nd) then
          bindS (receive_blocked nd (pv_interp (rs_visitor s)) (rs_manager s)) (\<lambda>blocked.
            case blocked of
              Some ch \<Rightarrow> returnS (s\<lparr>rs_result := (rs_result s)\<lparr>blocked_channels := blocked_channels (rs_result s) @ [ch],
                                   iteration_complete := False\<rparr>\<rparr>)
            | None \<Rightarrow> execute_node B call pkg f n nd s)
        else returnS s
      })"

fun run_loop ::
    "'b bn_api \<Rightarrow> interp_call \<Rightarrow> ir_package \<Rightarrow> ir_function \<Rightarrow> nat list \<Rightarrow> run_state \<Rightarrow> run_state statusor option" where
  "run_loop B call pkg f [] s = returnS s"
| "run_loop B call pkg f (n # ns) s = bindS (run_node B call pkg f n s) (run_loop B call pkg f ns)"

definition start_iteration :: "proc_interpreter \<Rightarrow> proc_interpreter statusor option" where
  "start_iteration pin =
     (if IsIterationComplete pin then
        (case pi_visitor pin of
           None \<Rightarrow> returnS (ProcInterpreter_ResetState pin)
         | Some v \<Rightarrow> bindS (ProcInterpreter_ResolveState pin) (\<lambda>next_state. returnS (pin\<lparr>pi_visitor := Some (new_visitor next_state)\<rparr>)))
      else returnS pin)"

definition RunIterationUntilCompleteOrBlocked ::
    "'b bn_api \<Rightarrow> interp_call \<Rightarrow> ir_package \<Rightarrow> proc_interpreter \<Rightarrow> queue_manager \<Rightarrow>
     (run_result \<times> proc_interpreter \<times> queue_manager) statusor option" where
  "RunIterationUntilCompleteOrBlocked B call pkg pin m =
     bindS (start_iteration pin) (\<lambda>pin. do {
       visitor \<leftarrow> pi_visitor pin;
       bindS (run_loop B call pkg (proc_base (pi_proc pin)) (topo_sort pin)
               \<lparr>rs_visitor = visitor, rs_manager = m,
                rs_result = \<lparr>iteration_complete = True, progress_made = False, blocked_channels = []\<rparr>\<rparr>) (\<lambda>s.
       bindS (Some (InterpreterEventsToStatus (interp_events (pv_interp (rs_visitor s))))) (\<lambda>_.
         returnS ((rs_result s)\<lparr>blocked_channels := sort_key channel_id (blocked_channels (rs_result s))\<rparr>,
                  pin\<lparr>pi_visitor := Some (rs_visitor s),
                     current_iteration := current_iteration pin + (if iteration_complete (rs_result s) then 1 else 0)\<rparr>,
                  rs_manager s)))
     })"

section \<open>ProcNetworkInterpreter\<close>

record network =
  net_procs :: "proc_interpreter list"
  net_manager :: queue_manager

fun inject_values :: "xvalue list \<Rightarrow> channel_queue \<Rightarrow> channel_queue statusor option" where
  "inject_values [] q = returnS q"
| "inject_values (v # vs) q = bindS (ChannelQueue_Enqueue v q) (inject_values vs)"

fun inject_channels :: "channel list \<Rightarrow> queue_manager \<Rightarrow> queue_manager statusor option" where
  "inject_channels [] m = returnS m"
| "inject_channels (ch # channels) m = do {
     q \<leftarrow> mgr_queues m (channel_id ch);
     bindS (inject_values (initial_values ch) q) (\<lambda>q. inject_channels channels (set_queue (channel_id ch) q m))
   }"

definition ProcNetworkInterpreter_Create :: "ir_proc list \<Rightarrow> channel list \<Rightarrow> channel_queue list \<Rightarrow> network statusor option" where
  "ProcNetworkInterpreter_Create procs channels user_defined_queues =
     bindS (Some (ChannelQueueManager_Create user_defined_queues channels)) (\<lambda>m. do {
       interpreters \<leftarrow> those (map ProcInterpreter_new procs);
       bindS (inject_channels channels m) (\<lambda>m. returnS \<lparr>net_procs = interpreters, net_manager = m\<rparr>)
     })"

record tick_state =
  tk_network :: network
  completed_procs :: "nat set"
  blocked_channel_set :: "channel list"
  progress_made_this_loop :: bool

definition tick_proc :: "'b bn_api \<Rightarrow> interp_call \<Rightarrow> ir_package \<Rightarrow> nat \<Rightarrow> tick_state \<Rightarrow> tick_state statusor option" where
  "tick_proc B call pkg i s =
     (if i \<in> completed_procs s then returnS s
      else do {
        interpreter \<leftarrow> at_opt (net_procs (tk_network s)) i;
        bindS (RunIterationUntilCompleteOrBlocked B call pkg interpreter (net_manager (tk_network s))) (\<lambda>(result, interpreter, m).
          returnS (s\<lparr>tk_network := \<lparr>net_procs = (net_procs (tk_network s))[i := interpreter], net_manager = m\<rparr>,
                     progress_made_this_loop := progress_made_this_loop s \<or> progress_made result,
                     completed_procs := (if iteration_complete result then insert i (completed_procs s) else completed_procs s),
                     blocked_channel_set := List.union (blocked_channels result) (blocked_channel_set s)\<rparr>))
      })"

fun tick_procs :: "'b bn_api \<Rightarrow> interp_call \<Rightarrow> ir_package \<Rightarrow> nat list \<Rightarrow> tick_state \<Rightarrow> tick_state statusor option" where
  "tick_procs B call pkg [] s = returnS s"
| "tick_procs B call pkg (i # is) s = bindS (tick_proc B call pkg i s) (tick_procs B call pkg is)"

partial_function (option) tick_loop ::
    "'b bn_api \<Rightarrow> interp_call \<Rightarrow> ir_package \<Rightarrow> bool \<Rightarrow> tick_state \<Rightarrow> (bool \<times> tick_state) statusor option" where
  "tick_loop B call pkg global_progress_made s = do {
     r \<leftarrow> tick_procs B call pkg [0..<length (net_procs (tk_network s))] (s\<lparr>progress_made_this_loop := False, blocked_channel_set := []\<rparr>);
     (case r of
        Inl e \<Rightarrow> Some (Inl e)
      | Inr s' \<Rightarrow>
          if progress_made_this_loop s' then tick_loop B call pkg True s' else Some (Inr (global_progress_made, s')))
   }"

text \<open>The result is whether progress was made, with the blocked channels in the order of their identifiers if not.\<close>

definition TickInternal :: "'b bn_api \<Rightarrow> interp_call \<Rightarrow> ir_package \<Rightarrow> network \<Rightarrow> (bool \<times> channel list \<times> network) statusor option" where
  "TickInternal B call pkg net =
     bindS (tick_loop B call pkg False \<lparr>tk_network = net, completed_procs = {}, blocked_channel_set = [], progress_made_this_loop = True\<rparr>)
       (\<lambda>(progress, s). returnS (progress, if progress then [] else sort_key channel_id (blocked_channel_set s), tk_network s))"

definition Tick :: "'b bn_api \<Rightarrow> interp_call \<Rightarrow> ir_package \<Rightarrow> network \<Rightarrow> network statusor option" where
  "Tick B call pkg net =
     bindS (TickInternal B call pkg net) (\<lambda>(progress, blocked, net). if progress then returnS net else errorS Internal)"

definition needs_more_output :: "(channel \<times> int) list \<Rightarrow> network \<Rightarrow> bool option" where
  "needs_more_output output_counts net = do {
     sizes \<leftarrow> those (map (\<lambda>(ch, k). map_option (\<lambda>q. int (ChannelQueue_size q) < k) (mgr_queues (net_manager net) (channel_id ch))) output_counts);
     Some (\<exists>b\<in>set sizes. b)
   }"

partial_function (option) tick_until_output_loop ::
    "'b bn_api \<Rightarrow> interp_call \<Rightarrow> ir_package \<Rightarrow> (channel \<times> int) list \<Rightarrow> int option \<Rightarrow> int \<Rightarrow> network \<Rightarrow> (int \<times> network) statusor option" where
  "tick_until_output_loop B call pkg output_counts max_ticks ticks net = do {
     more \<leftarrow> needs_more_output output_counts net;
     if \<not> more then Some (Inr (ticks, net))
     else if (case max_ticks of Some k \<Rightarrow> k \<le> ticks | None \<Rightarrow> False) then Some (Inl DeadlineExceeded)
     else do {
       r \<leftarrow> Tick B call pkg net;
       (case r of
          Inl e \<Rightarrow> Some (Inl e)
        | Inr net \<Rightarrow> tick_until_output_loop B call pkg output_counts max_ticks (ticks + 1) net)
     }
   }"

text \<open>The code sorts the output channels by name, which fixes the text of the errors only.\<close>

definition TickUntilOutput ::
    "'b bn_api \<Rightarrow> interp_call \<Rightarrow> ir_package \<Rightarrow> (channel \<times> int) list \<Rightarrow> int option \<Rightarrow> network \<Rightarrow> (int \<times> network) statusor option" where
  "TickUntilOutput B call pkg output_counts max_ticks net =
     bindS (seq_ok (map (\<lambda>(ch, k). seq_ok [
         error_if (supported_ops ch \<noteq> kSendOnly) InvalidArgument,
         error_if (ch_kind ch = kSingleValue \<and> k > 1) InvalidArgument]) output_counts)) (\<lambda>_.
       tick_until_output_loop B call pkg output_counts max_ticks 0 net)"

partial_function (option) tick_until_blocked_loop ::
    "'b bn_api \<Rightarrow> interp_call \<Rightarrow> ir_package \<Rightarrow> int option \<Rightarrow> int \<Rightarrow> network \<Rightarrow> (int \<times> network) statusor option" where
  "tick_until_blocked_loop B call pkg max_ticks ticks net =
     (if (case max_ticks of Some k \<Rightarrow> k \<le> ticks | None \<Rightarrow> False) then Some (Inl DeadlineExceeded)
      else do {
        r \<leftarrow> TickInternal B call pkg net;
        (case r of
           Inl e \<Rightarrow> Some (Inl e)
         | Inr (progress, blocked, net) \<Rightarrow>
             if progress then tick_until_blocked_loop B call pkg max_ticks (ticks + 1) net else Some (Inr (ticks, net)))
      })"

definition TickUntilBlocked ::
    "'b bn_api \<Rightarrow> interp_call \<Rightarrow> ir_package \<Rightarrow> int option \<Rightarrow> network \<Rightarrow> (int \<times> network) statusor option" where
  "TickUntilBlocked B call pkg max_ticks net = tick_until_blocked_loop B call pkg max_ticks 0 net"

definition ProcNetworkInterpreter_ResolveState :: "network \<Rightarrow> xvalue list statusor list option" where
  "ProcNetworkInterpreter_ResolveState net = those (map ProcInterpreter_ResolveState (net_procs net))"

definition ProcNetworkInterpreter_ResetState :: "network \<Rightarrow> network" where
  "ProcNetworkInterpreter_ResetState net = net\<lparr>net_procs := map ProcInterpreter_ResetState (net_procs net)\<rparr>"

end
