(* ===== verification/Xls_Proc_Network.thy ===== *)
theory Xls_Proc_Network
  imports Xls_Proc_Interpreter
begin

text \<open>
  What the verifier establishes for the proc interpreter. For a proc that \<open>VerifyProc\<close> accepts, the token connectivity that
  the verifier checks makes the two notions of a finished iteration in \<open>proc_interpreter.cc\<close> agree; every node finds its
  operands, queues hold values of the types of their channels, and a tick of the network ends. An abort and a loop that
  does not end are both \<open>None\<close>, so that a result \<open>Some\<close> excludes both.
\<close>

section \<open>Verified procs\<close>

text \<open>
  As for functions, with the operations on channels: they read their operands after the token. Initial values are well
  formed, which the constructors of \<open>Value\<close> ensure.
\<close>

definition proc_interpretable :: "ir_package \<Rightarrow> ir_function \<Rightarrow> ir_node \<Rightarrow> bool" where
  "proc_interpretable pkg f nd \<longleftrightarrow> inhabited (node_type nd) \<and> machine_sized (node_type nd) \<and> (case node_op nd of
     Receive ch_id is_blocking \<Rightarrow> list_all (has_result f) (drop 1 (node_operands nd))
   | Send ch_id \<Rightarrow> list_all (has_result f) (drop 1 (node_operands nd))
   | _ \<Rightarrow> interpretable pkg f nd)"

definition verified_proc :: "ir_package \<Rightarrow> channel list \<Rightarrow> ir_proc \<Rightarrow> bool" where
  "verified_proc pkg channels p \<longleftrightarrow> VerifyProc pkg channels p = returnS () \<and>
     distinct (map fst (fn_nodes (proc_base p))) \<and> list_all (\<lambda>(n, nd). proc_interpretable pkg (proc_base p) nd) (fn_nodes (proc_base p)) \<and>
     list_all (\<lambda>v. \<exists>t. has_type v t) (InitValues p) \<and> list_all (has_result (proc_base p)) (NextState p)"

text \<open>The values of the state elements have the types of the state parameters.\<close>

definition state_typed :: "ir_function \<Rightarrow> xvalue list \<Rightarrow> bool" where
  "state_typed f vs \<longleftrightarrow> list_all2 (\<lambda>v n. \<exists>t. GetType f n = Some t \<and> has_type v t) vs (tl (fn_params f))"

lemma VerifyProc_facts:
  assumes "VerifyProc pkg channels p = returnS ()"
  defines "f \<equiv> proc_base p"
  shows "VerifyFunctionBase pkg channels f = returnS ()" and "fn_params f \<noteq> []" and "param_type f 0 = Some TokenType"
    and "length (InitValues p) = length (tl (fn_params f))" and "length (NextState p) = length (tl (fn_params f))"
    and "i < length (tl (fn_params f)) \<Longrightarrow> \<exists>t. GetType f (tl (fn_params f) ! i) = Some t \<and> GetType f (NextState p ! i) = Some t \<and>
      ValueConformsToType (InitValues p ! i) t = Some True"
    and "GetType f (NextToken p) = Some TokenType"
    and "VerifyTokenConnectivity (hd (fn_params f)) (NextToken p) f = returnS ()"
proof -
  note ok = assms(1)[unfolded VerifyProc_def Let_def f_def[symmetric]]
  show base: "VerifyFunctionBase pkg channels f = returnS ()" using ok by (auto simp: bindS_eq_returnS)
  show "fn_params f \<noteq> []"
  proof
    assume "fn_params f = []"
    then show False using ok base by simp
  qed
  then obtain tok ps where ps: "fn_params f = tok # ps" by (cases "fn_params f") auto
  have param: "param_type f (i + 1) = GetType f (ps ! i)" if "i < length ps" for i using that ps by (simp add: param_type_def at_opt_def)
  from ok base ps obtain tt where tt: "param_type f 0 = Some tt" and
    ok1: "bindS (if tt = TokenType then returnS () else param_type f 1 \<bind> (\<lambda>_. errorS Internal)) (\<lambda>_.
       bindS (seq_ok [RET_CHECK (length ps = length (InitValues p)), RET_CHECK (length ps = length (NextState p))]) (\<lambda>_.
       bindS (seq_ok (map (\<lambda>i. do {
           state_type \<leftarrow> param_type f (i + 1);
           next_type \<leftarrow> GetType f (NextState p ! i);
           bindS (RET_CHECK (state_type = next_type)) (\<lambda>_. ValueConformsToType (InitValues p ! i) state_type \<bind> RET_CHECK)
         }) [0..<length ps])) (\<lambda>_. do {
         next_token_type \<leftarrow> GetType f (NextToken p);
         bindS (RET_CHECK (Type_IsToken next_token_type)) (\<lambda>_.
           VerifyTokenConnectivity (hd (fn_params f)) (NextToken p) f)
       }))) = returnS ()"
    by (auto simp: bind_returnS_iff)
  have "tt = TokenType" using ok1 by (auto simp: bindS_eq_returnS bind_returnS_iff split: if_splits)
  with tt show "param_type f 0 = Some TokenType" by simp
  have ok2: "length ps = length (InitValues p) \<and> length ps = length (NextState p)"
    using ok1 \<open>tt = TokenType\<close> by (auto simp: bindS_eq_returnS)
  then show "length (InitValues p) = length (tl (fn_params f))" "length (NextState p) = length (tl (fn_params f))" using ps by simp_all
  have ok3: "i < length ps \<Longrightarrow> param_type f (i + 1) \<bind> (\<lambda>state_type. GetType f (NextState p ! i) \<bind> (\<lambda>next_type.
      bindS (RET_CHECK (state_type = next_type)) (\<lambda>_. ValueConformsToType (InitValues p ! i) state_type \<bind> RET_CHECK))) = returnS ()" for i
    using ok1 \<open>tt = TokenType\<close> by (simp add: bindS_eq_returnS)
  show "\<exists>t. GetType f (tl (fn_params f) ! i) = Some t \<and> GetType f (NextState p ! i) = Some t \<and>
      ValueConformsToType (InitValues p ! i) t = Some True" if i: "i < length (tl (fn_params f))"
    using ok3[of i] i ps param by (auto simp: bind_returnS_iff split: if_splits)
  show "GetType f (NextToken p) = Some TokenType" "VerifyTokenConnectivity (hd (fn_params f)) (NextToken p) f = returnS ()"
    using ok1 \<open>tt = TokenType\<close> by (auto simp: bindS_eq_returnS bind_returnS_iff Type_As_iff split: if_splits)
qed

lemma init_state_typed:
  assumes "verified_proc pkg channels p"
  shows "state_typed (proc_base p) (InitValues p)"
proof -
  have ok: "VerifyProc pkg channels p = returnS ()" using assms by (simp add: verified_proc_def)
  note facts = VerifyProc_facts[OF ok]
  have "\<exists>t. GetType (proc_base p) (tl (fn_params (proc_base p)) ! i) = Some t \<and> has_type (InitValues p ! i) t"
    if i: "i < length (InitValues p)" for i
  proof -
    obtain t where t: "GetType (proc_base p) (tl (fn_params (proc_base p)) ! i) = Some t" "ValueConformsToType (InitValues p ! i) t = Some True"
      using facts(6)[of i] i facts(4) by auto
    obtain u where u: "has_type (InitValues p ! i) u" using assms i by (auto simp: verified_proc_def list_all_length)
    then show ?thesis using t ValueConformsToType_typed[OF u, of t] by auto
  qed
  then show ?thesis using facts(4) by (simp add: state_typed_def list_all2_conv_all_nth)
qed

lemma verified_proc_linked:
  assumes "verified_proc pkg channels p"
  shows "well_linked (proc_base p)" and "\<exists>rank. operands_ranked (proc_base p) rank"
proof -
  have ok: "VerifyProc pkg channels p = returnS ()" and dist: "distinct (map fst (fn_nodes (proc_base p)))"
    using assms by (simp_all add: verified_proc_def)
  note nodes = VerifyFunctionBase_nodes[OF VerifyProc_facts(1)[OF ok]]
  show "well_linked (proc_base p)" using dist nodes(4) by (auto simp: well_linked_def)
  show "\<exists>rank. operands_ranked (proc_base p) rank"
    using FunctionBase_Accept_order[OF nodes(1) dist] topological_ranked[OF dist] by blast
qed

text \<open>A blocking receive lies on a token path to the next token.\<close>

lemma receive_reaches_token:
  assumes "verified_proc pkg channels p" and nd: "GetNode (proc_base p) n = Some nd" and op: "node_op nd = Receive i b"
  shows "(n, NextToken p) \<in> (token_flow (proc_base p))\<^sup>*"
proof -
  let ?f = "proc_base p"
  have ok: "VerifyProc pkg channels p = returnS ()" using assms(1) by (simp add: verified_proc_def)
  note facts = VerifyProc_facts[OF ok]
  have "hd (fn_params ?f) \<in> node_ids ?f" "NextToken p \<in> node_ids ?f"
    using facts(2,3,7) by (auto simp: GetNode_ids GetType_def param_type_def at_opt_def hd_conv_nth split: if_splits)
  from VerifyTokenConnectivity_flow[OF verified_proc_linked(1)[OF assms(1)] this]
  have flow: "\<forall>(n, nd)\<in>set (fn_nodes ?f). TypeHasToken (node_type nd) \<and> OpIsSideEffecting (node_op nd) \<longrightarrow>
      (n, NextToken p) \<in> (token_flow ?f)\<^sup>*"
    using facts(8) by (auto split: if_splits)
  have "NodeChecker_HandleReceive channels i b ?f nd = returnS ()"
    using VerifyFunctionBase_nodes(2)[OF facts(1) GetNode_in[OF nd]] op by (simp add: NodeChecker_Visit_def)
  then have "TypeHasToken (node_type nd)"
    by (auto simp: NodeChecker_HandleReceive_def expect_iff Let_def error_if_def split: if_splits)
  then show ?thesis using flow GetNode_in[OF nd] op by (auto simp: OpIsSideEffecting_def)
qed

section \<open>Operations on channels\<close>

lemma bit_rep:
  assumes "rep b bs" and "length bs = 1"
  shows "Bits_IsOne b \<longleftrightarrow> \<not> Bits_IsZero b"
proof -
  have "bm_count b = 1" using rep_count[OF assms(1)] assms(2) by simp
  then have "bs = [Bits_Get b 0]" using assms(1) by (simp add: rep_def bits_of_def)
  then show ?thesis using rep_PopCount[OF assms(1)] rep_IsZero[OF assms(1)] by (cases "Bits_Get b 0") (simp_all add: Bits_IsOne_def)
qed

text \<open>A predicate operand of one bit has a value, and is either zero or one.\<close>

lemma predicate_value:
  assumes typed: "typed_state f V st" and ty: "operand_type f nd i = Some (BitsType 1)" and a: "at_opt (node_operands nd) i = Some a" and V: "a \<in> V"
  shows "\<exists>b. ResolveAsBits st a = Some b \<and> ResolveAsValue st a \<bind> Value_bits = Some b \<and> (Bits_IsOne b \<longleftrightarrow> \<not> Bits_IsZero b)"
proof -
  have a': "operand nd i = Some a" using a by (simp add: operand_def)
  obtain v where v: "operand_value st nd i = Some v" "has_type v (BitsType 1)" using operand_valued[OF typed ty a' V] by blast
  then obtain b bs where b: "v = VBits b" "rep b bs" "length bs = 1" using bits_rep_of by blast
  then have "ResolveAsValue st a \<bind> Value_bits = Some b" using v(1) a' by (simp add: operand_value_def Value_bits_def)
  then show ?thesis using bit_rep[OF b(2,3)] by (simp add: ResolveAsBits_def ResolveAsValue_def)
qed

definition mgr_ok :: "channel list \<Rightarrow> queue_manager \<Rightarrow> bool" where
  "mgr_ok channels m \<longleftrightarrow> manager_ok m \<and> mgr_channels m = channels \<and> distinct (map channel_id channels)"

lemma mgr_queue:
  assumes "mgr_ok channels m" and "GetChannel channels i = Inr ch"
  shows "\<exists>q. GetQueueById m i = returnS q \<and> queue_ok ch q"
  using assms GetQueueById_ok[of m i ch] by (auto simp: mgr_ok_def)

lemma set_queue_ok:
  assumes m: "mgr_ok channels m" and ch: "GetChannel channels i = Inr ch" and q: "queue_ok ch q"
  shows "mgr_ok channels (set_queue i q m)"
proof -
  have i: "ch \<in> set channels" "channel_id ch = i" using ch by (auto simp: GetChannel_def find_Some_iff split: option.splits)
  have "\<forall>c\<in>set (mgr_channels m). channel_id c = channel_id ch \<longrightarrow> c = ch"
    using m i(1) by (auto simp: mgr_ok_def distinct_map dest: inj_onD)
  then show ?thesis using m manager_update[OF _ q, of m] i(2) by (auto simp: mgr_ok_def set_queue_def)
qed

text \<open>The result of a step on the visitor's values and the queues.\<close>

definition steps_with :: "ir_function \<Rightarrow> nat set \<Rightarrow> channel list \<Rightarrow> (interp \<times> queue_manager) statusor option \<Rightarrow> bool" where
  "steps_with f V channels r \<longleftrightarrow> (\<exists>st m. r = returnS (st, m) \<and> typed_state f V st \<and> mgr_ok channels m)"

lemma with_manager_steps: "steps_to f V r \<Longrightarrow> mgr_ok channels m \<Longrightarrow> steps_with f V channels (with_manager m r)"
  by (auto simp: steps_to_def steps_with_def with_manager_def)

lemma Receive_types:
  assumes "NodeChecker_HandleReceive channels i b f nd = returnS ()"
  shows "\<exists>ch. GetChannel channels i = Inr ch \<and> node_type nd =
      (if b then TupleType [TokenType, channel_type ch] else TupleType [TokenType, channel_type ch, BitsType 1])"
    and "Receive_predicate nd = Some a \<Longrightarrow> operand_type f nd 1 = Some (BitsType 1)"
  using assms by (auto simp: NodeChecker_HandleReceive_def expect_iff Let_def error_if_def Receive_predicate_def at_opt_def split: if_splits)

lemma receive_predicate_cases:
  assumes typed: "typed_state f V st" and reads: "set (drop 1 (node_operands nd)) \<subseteq> V"
    and ok: "NodeChecker_HandleReceive channels i b f nd = returnS ()"
  obtains off where "predicate_IsZero st (Receive_predicate nd) = Some off"
    "(case Receive_predicate nd of None \<Rightarrow> Some True | Some p \<Rightarrow> map_option Bits_IsOne (ResolveAsValue st p \<bind> Value_bits)) = Some (\<not> off)"
proof (cases "Receive_predicate nd")
  case None
  then show ?thesis using that[of False] by (simp add: predicate_IsZero_def)
next
  case (Some a)
  then have "a \<in> set (drop 1 (node_operands nd))"
    by (auto simp: Receive_predicate_def at_opt_def in_set_conv_nth split: if_splits intro!: exI[of _ 0])
  then obtain bb where "ResolveAsBits st a = Some bb" "ResolveAsValue st a \<bind> Value_bits = Some bb" "Bits_IsOne bb \<longleftrightarrow> \<not> Bits_IsZero bb"
    using predicate_value[OF typed Receive_types(2)[OF ok Some]] Some reads by (auto simp: Receive_predicate_def)
  then show ?thesis using that[of "Bits_IsZero bb"] Some by (simp add: predicate_IsZero_def)
qed

lemma receive_blocked_returns:
  assumes typed: "typed_state f V st" and reads: "set (drop 1 (node_operands nd)) \<subseteq> V" and mgr: "mgr_ok channels m"
    and ok: "NodeChecker_HandleReceive channels i True f nd = returnS ()" and op: "node_op nd = Receive i True"
  obtains off q ch where "predicate_IsZero st (Receive_predicate nd) = Some off" "GetQueueById m i = returnS q"
    "GetChannel channels i = Inr ch" "queue_ok ch q"
    "receive_blocked nd st m = returnS (if \<not> off \<and> ChannelQueue_empty q then Some ch else None)"
proof -
  obtain ch where ch: "GetChannel channels i = Inr ch" using Receive_types(1)[OF ok] by blast
  obtain q where q: "GetQueueById m i = returnS q" "queue_ok ch q" using mgr_queue[OF mgr ch] by blast
  obtain off where off: "predicate_IsZero st (Receive_predicate nd) = Some off"
      "(case Receive_predicate nd of None \<Rightarrow> Some True | Some p \<Rightarrow> map_option Bits_IsOne (ResolveAsValue st p \<bind> Value_bits)) = Some (\<not> off)"
    using receive_predicate_cases[OF typed reads ok] by blast
  show ?thesis using that[OF off(1) q(1) ch q(2)] off(2) q op by (simp add: receive_blocked_def queue_ok_def)
qed

lemma Receive_steps:
  assumes rdy: "ready f V n nd st" and reads: "set (drop 1 (node_operands nd)) \<subseteq> V" and mgr: "mgr_ok channels m"
    and ok: "NodeChecker_HandleReceive channels i b f nd = returnS ()" and op: "node_op nd = Receive i b" and inh: "inhabited (node_type nd)"
    and go: "receive_blocked nd st m = returnS None"
  shows "steps_with f (insert n V) channels (ProcIrInterpreter_HandleReceive i b n nd (st, m))"
proof -
  have typed: "typed_state f V st" using rdy by (simp add: ready_def)
  obtain ch where ch: "GetChannel channels i = Inr ch" and ty: "node_type nd =
      (if b then TupleType [TokenType, channel_type ch] else TupleType [TokenType, channel_type ch, BitsType 1])"
    using Receive_types(1)[OF ok] by blast
  obtain q where q: "GetQueueById m i = returnS q" "queue_ok ch q" using mgr_queue[OF mgr ch] by blast
  obtain off where off: "predicate_IsZero st (Receive_predicate nd) = Some off"
    using receive_predicate_cases[OF typed reads ok] by blast
  show ?thesis
  proof (cases "off \<or> (\<not> b \<and> ChannelQueue_empty q)")
    case True
    obtain z where z: "ZeroOfType (node_type nd) = Some z" "has_type z (node_type nd)" using ZeroOfType_typed[OF inh] by blast
    then show ?thesis using True off q(1) with_manager_steps[OF set_value[OF rdy z(2) refl] mgr]
      by (auto simp: ProcIrInterpreter_HandleReceive_def)
  next
    case False
    have "\<not> ChannelQueue_empty q"
    proof (cases b)
      case True
      then have "NodeChecker_HandleReceive channels i True f nd = returnS ()" "node_op nd = Receive i True" using ok op by simp_all
      from typed reads mgr this show ?thesis
        by (rule receive_blocked_returns) (use go off q(1) False in \<open>auto split: if_splits\<close>)
    qed (use False in simp)
    then obtain v q' where v: "ChannelQueue_Dequeue q = returnS (v, q')" "has_type v (channel_type ch)" "queue_ok ch q'"
      using Dequeue_ok[OF q(2)] by blast
    have m': "mgr_ok channels (set_queue i q' m)" using set_queue_ok[OF mgr ch v(3)] .
    obtain one where one: "UBits 1 1 = Some one" "rep one (nat_bl 1 1)" using returns_UBits[of 1 1] by (auto simp: returns_def)
    have one': "wf_bitmap one" "bm_count one = 1" using one(2) rep_count[OF one(2)] by (simp_all add: rep_def)
    have "has_type (if b then VTuple [VToken, v] else VTuple [VToken, v, VBits one]) (node_type nd)"
      using ty v(2) one' by simp
    from with_manager_steps[OF set_value[OF rdy this refl] m'] show ?thesis
      using False off q(1) v(1) one(1) by (simp add: ProcIrInterpreter_HandleReceive_def split: if_splits)
  qed
qed

lemma Send_steps:
  assumes rdy: "ready f V n nd st" and reads: "set (drop 1 (node_operands nd)) \<subseteq> V" and mgr: "mgr_ok channels m"
    and ok: "NodeChecker_HandleSend channels i f nd = returnS ()"
  shows "steps_with f (insert n V) channels (ProcIrInterpreter_HandleSend i n nd (st, m))"
proof -
  have typed: "typed_state f V st" using rdy by (simp add: ready_def)
  obtain ch where ch: "GetChannel channels i = Inr ch" "Channel_CanSend ch" "operand_type f nd 1 = Some (channel_type ch)"
      and ty: "node_type nd = TokenType" and len: "2 \<le> length (node_operands nd)"
      and pred: "length (node_operands nd) > 2 \<Longrightarrow> operand_type f nd 2 = Some (BitsType 1)"
    using ok by (auto simp: NodeChecker_HandleSend_def expect_iff error_if_def split: if_splits)
  obtain q where q: "GetQueueById m i = returnS q" "queue_ok ch q" using mgr_queue[OF mgr ch(1)] by blast
  have set: "steps_to f (insert n V) (SetValueResult n nd VToken st)" using set_value[OF rdy _ refl, of VToken] ty by simp
  have in_V: "node_operands nd ! k \<in> V" if "1 \<le> k" "k < length (node_operands nd)" for k
    using reads that by (auto simp: in_set_conv_nth subset_iff intro!: exI[of _ "k - 1"])
  obtain off where off: "predicate_IsZero st (Send_predicate nd) = Some off"
  proof (cases "length (node_operands nd) > 2")
    case True
    then show ?thesis using predicate_value[OF typed pred[OF True], of "node_operands nd ! 2"] in_V[of 2] that
      by (auto simp: predicate_IsZero_def Send_predicate_def at_opt_def)
  qed (use that in \<open>simp add: predicate_IsZero_def Send_predicate_def at_opt_def\<close>)
  obtain v where v: "operand_value st nd 1 = Some v" "has_type v (channel_type ch)"
    using operand_valued[OF typed ch(3), of "node_operands nd ! 1"] in_V[of 1] len by (auto simp: operand_def at_opt_def)
  obtain q' where q': "ChannelQueue_Enqueue v q = returnS q'" "queue_ok ch q'" using Enqueue_ok[OF q(2) ch(2) v(2)] by blast
  show ?thesis using off q(1) v(1) q'(1) with_manager_steps[OF set mgr] with_manager_steps[OF set set_queue_ok[OF mgr ch(1) q'(2)]]
    by (cases off) (simp_all add: ProcIrInterpreter_HandleSend_def)
qed

section \<open>One node\<close>

lemma ProcParam_steps:
  assumes rdy: "ready f V n nd st" and n: "n \<in> set (fn_params f)" and tok: "param_type f 0 = Some TokenType" and state: "state_typed f vs"
  shows "steps_to f (insert n V) (ProcIrInterpreter_HandleParam f vs n nd st)"
proof -
  let ?i = "index_of n (fn_params f)"
  have i: "?i < length (fn_params f)" "fn_params f ! ?i = n" using index_of_member[OF n] by simp_all
  have nd: "GetType f n = Some (node_type nd)" using rdy by (simp add: ready_def GetType_def)
  have index: "GetParamIndex f n = Inr ?i" using i(1) by (simp add: GetParamIndex_def)
  show ?thesis
  proof (cases "?i = 0")
    case True
    then have "node_type nd = TokenType" using tok nd i by (simp add: param_type_def at_opt_def split: if_splits)
    then show ?thesis using True index set_value[OF rdy _ refl, of VToken] by (simp add: ProcIrInterpreter_HandleParam_def)
  next
    case False
    then have j: "?i - 1 < length (tl (fn_params f))" "tl (fn_params f) ! (?i - 1) = n" using i by (simp_all add: nth_tl)
    then have "?i - 1 < length vs" "has_type (vs ! (?i - 1)) (node_type nd)"
      using state nd by (auto simp: state_typed_def list_all2_conv_all_nth)
    then show ?thesis using False index set_value[OF rdy _ refl] by (simp add: ProcIrInterpreter_HandleParam_def at_opt_def)
  qed
qed

definition proc_env :: "'b bn_api \<Rightarrow> ('b \<Rightarrow> int) \<Rightarrow> interp_call \<Rightarrow> ir_package \<Rightarrow> channel list \<Rightarrow> ir_proc \<Rightarrow> bool" where
  "proc_env B num call pkg channels p \<longleftrightarrow> bignum B num \<and> verified_proc pkg channels p \<and>
     (\<forall>(n, nd)\<in>set (fn_nodes (proc_base p)). \<forall>g\<in>set (callees nd). \<exists>fn. at_opt pkg g = Some fn \<and> call_sound call fn)"

lemma Visit_proc_steps:
  assumes env: "proc_env B num call pkg channels p" and f: "f = proc_base p"
    and rdy: "ready f (visited \<inter> valued f) n nd st" and ops: "set (node_operands nd) \<subseteq> visited"
    and mgr: "mgr_ok channels m" and state: "state_typed f vs" and go: "receive_blocked nd st m = returnS None"
  shows "steps_with f (insert n visited \<inter> valued f) channels (ProcIrInterpreter_Visit B call pkg f vs n nd (st, m))"
proof -
  have B: "bignum B num" and p: "verified_proc pkg channels p" using env by (simp_all add: proc_env_def)
  then have ok: "VerifyProc pkg channels p = returnS ()" by (simp add: verified_proc_def)
  note nodes = VerifyFunctionBase_nodes[OF VerifyProc_facts(1)[OF ok]]
  have nd: "GetNode f n = Some nd" using rdy by (simp add: ready_def)
  have node: "(n, nd) \<in> set (fn_nodes (proc_base p))" using GetNode_in[OF nd] f by simp
  have check: "NodeChecker_Visit pkg channels f nd = returnS ()" using nodes(2)[OF node] f by simp
  have all: "proc_interpretable pkg f mm" if "GetNode f k = Some mm" for k mm
    using p GetNode_in[OF that] f by (auto simp: verified_proc_def list_all_iff)
  note safe = all[OF nd]
  have V: "(if sets_value nd then insert n (visited \<inter> valued f) else visited \<inter> valued f) = insert n visited \<inter> valued f"
    using nd by (auto simp: valued_def has_result_def)
  consider (receive) i b where "node_op nd = Receive i b" | (send) i where "node_op nd = Send i"
    | (other) "interpretable pkg f nd" "ProcIrInterpreter_Visit B call pkg f vs n nd (st, m) =
        with_manager m (IrInterpreter_Visit B call pkg (ProcIrInterpreter_HandleParam f vs) f n nd st)"
    using safe by (cases "node_op nd") (auto simp: ProcIrInterpreter_Visit_def proc_interpretable_def)
  then show ?thesis
  proof cases
    case receive
    then have "set (drop 1 (node_operands nd)) \<subseteq> visited \<inter> valued f"
      using safe ops by (auto simp: proc_interpretable_def list_all_iff valued_def dest: in_set_dropD)
    from Receive_steps[OF rdy this mgr _ receive _ go] show ?thesis
      using receive safe check V by (auto simp: ProcIrInterpreter_Visit_def NodeChecker_Visit_def proc_interpretable_def sets_value_def)
  next
    case send
    then have "set (drop 1 (node_operands nd)) \<subseteq> visited \<inter> valued f"
      using safe ops by (auto simp: proc_interpretable_def list_all_iff valued_def dest: in_set_dropD)
    from Send_steps[OF rdy this mgr] show ?thesis
      using send check V by (auto simp: ProcIrInterpreter_Visit_def NodeChecker_Visit_def sets_value_def)
  next
    case other
    have "set (read_operands nd) \<subseteq> set (node_operands nd)" by (auto simp: read_operands_def dest: in_set_dropD split: ir_op.splits)
    then have reads: "set (read_operands nd) \<subseteq> visited \<inter> valued f" using ops other(1) by (auto simp: interpretable_def list_all_iff valued_def)
    have "steps_to f (if sets_value nd then insert n (visited \<inter> valued f) else visited \<inter> valued f)
        (IrInterpreter_Visit B call pkg (ProcIrInterpreter_HandleParam f vs) f n nd st)"
    proof (rule Visit_steps[OF B rdy reads check other(1)])
      show "machine_sized t" if t: "operand_type f nd i = Some t" for i t
        using t all by (auto simp: operand_type_def GetType_def proc_interpretable_def split: Option.bind_splits)
      show "\<forall>g\<in>set (callees nd). \<exists>fn. at_opt pkg g = Some fn \<and> call_sound call fn" using env node by (auto simp: proc_env_def)
      show "steps_to f (insert n (visited \<inter> valued f)) (ProcIrInterpreter_HandleParam f vs n nd st)" if "node_op nd = Param"
        using ProcParam_steps[OF rdy] nodes(3)[OF node that] VerifyProc_facts(3)[OF ok] state f by simp
    qed
    then show ?thesis using other(2) V with_manager_steps[OF _ mgr] by simp
  qed
qed

section \<open>A run over the nodes\<close>

text \<open>What the visitor knows between two nodes: the executed nodes, closed under operands, have values of their types.\<close>

definition visitor_ok :: "ir_function \<Rightarrow> proc_visitor \<Rightarrow> bool" where
  "visitor_ok f v \<longleftrightarrow> pv_visited v \<subseteq> node_ids f \<and>
     (\<forall>n nd. n \<in> pv_visited v \<and> GetNode f n = Some nd \<longrightarrow> set (node_operands nd) \<subseteq> pv_visited v) \<and>
     typed_state f (pv_visited v \<inter> valued f) (pv_interp v) \<and> state_typed f (pv_state v)"

text \<open>The four things that can happen to a node in the loop.\<close>

abbreviation executed :: "run_state \<Rightarrow> nat set" where
  "executed s \<equiv> pv_visited (rs_visitor s)"

inductive node_step :: "ir_function \<Rightarrow> channel list \<Rightarrow> nat \<Rightarrow> run_state \<Rightarrow> run_state \<Rightarrow> bool" for f channels where
  skip: "n \<in> executed s \<Longrightarrow> node_step f channels n s s"
| wait: "n \<notin> executed s \<Longrightarrow> GetNode f n = Some nd \<Longrightarrow> a \<in> set (node_operands nd) \<Longrightarrow> a \<notin> executed s \<Longrightarrow> node_step f channels n s s"
| block: "n \<notin> executed s \<Longrightarrow> GetNode f n = Some nd \<Longrightarrow> set (node_operands nd) \<subseteq> executed s \<Longrightarrow> node_op nd = Receive i True \<Longrightarrow>
    GetChannel channels i = Inr ch \<Longrightarrow> GetQueueById (rs_manager s) i = returnS q \<Longrightarrow> ChannelQueue_empty q \<Longrightarrow>
    node_step f channels n s (s\<lparr>rs_result := (rs_result s)\<lparr>blocked_channels := blocked_channels (rs_result s) @ [ch], iteration_complete := False\<rparr>\<rparr>)"
| execute: "n \<notin> executed s \<Longrightarrow> executed s' = insert n (executed s) \<Longrightarrow> pv_state (rs_visitor s') = pv_state (rs_visitor s) \<Longrightarrow>
    rs_result s' = (rs_result s)\<lparr>progress_made := True\<rparr> \<Longrightarrow> node_step f channels n s s'"

inductive node_steps :: "ir_function \<Rightarrow> channel list \<Rightarrow> nat list \<Rightarrow> run_state \<Rightarrow> run_state \<Rightarrow> bool" for f channels where
  steps_Nil: "node_steps f channels [] s s"
| steps_Cons: "node_step f channels n s s1 \<Longrightarrow> node_steps f channels ns s1 s' \<Longrightarrow> node_steps f channels (n # ns) s s'"

inductive_cases node_steps_NilE: "node_steps f channels [] s s'"
inductive_cases node_steps_ConsE: "node_steps f channels (n # ns) s s'"

lemma run_node_step:
  assumes env: "proc_env B num call pkg channels p" and f: "f = proc_base p" and n: "n \<in> node_ids f"
    and v: "visitor_ok f (rs_visitor s)" and mgr: "mgr_ok channels (rs_manager s)"
  shows "\<exists>s'. run_node B call pkg f n s = returnS s' \<and> node_step f channels n s s' \<and> visitor_ok f (rs_visitor s') \<and> mgr_ok channels (rs_manager s')"
proof -
  let ?st = "pv_interp (rs_visitor s)" and ?m = "rs_manager s"
  obtain nd where nd: "GetNode f n = Some nd" using n GetNode_ids by blast
  have p: "verified_proc pkg channels p" using env by (simp add: proc_env_def)
  then have ok: "VerifyProc pkg channels p = returnS ()" by (simp add: verified_proc_def)
  have check: "NodeChecker_Visit pkg channels f nd = returnS ()"
    using VerifyFunctionBase_nodes(2)[OF VerifyProc_facts(1)[OF ok]] GetNode_in[OF nd] f by simp
  have safe: "proc_interpretable pkg f nd" using p GetNode_in[OF nd] f by (auto simp: verified_proc_def list_all_iff)
  have typed: "typed_state f (executed s \<inter> valued f) ?st" using v by (simp add: visitor_ok_def)
  consider (skip) "n \<in> executed s" | (wait) a where "n \<notin> executed s" "a \<in> set (node_operands nd)" "a \<notin> executed s"
    | (ready) "n \<notin> executed s" "set (node_operands nd) \<subseteq> executed s" by blast
  then show ?thesis
  proof cases
    case skip
    then show ?thesis using v mgr by (auto simp: run_node_def intro: node_step.skip)
  next
    case wait
    then have "run_node B call pkg f n s = returnS s" using nd by (auto simp: run_node_def list_all_iff)
    then show ?thesis using v mgr node_step.wait[OF wait(1) nd wait(2,3)] by blast
  next
    case ready
    have run: "run_node B call pkg f n s = bindS (receive_blocked nd ?st ?m) (\<lambda>blocked. case blocked of
        Some ch \<Rightarrow> returnS (s\<lparr>rs_result := (rs_result s)\<lparr>blocked_channels := blocked_channels (rs_result s) @ [ch], iteration_complete := False\<rparr>\<rparr>)
      | None \<Rightarrow> execute_node B call pkg f n nd s)"
      using ready nd by (auto simp: run_node_def list_all_iff)
    have go: "?thesis" if free: "receive_blocked nd ?st ?m = returnS None"
    proof -
      have rdy: "ready f (executed s \<inter> valued f) n nd ?st" using typed nd ready(1) by (simp add: ready_def)
      have "state_typed f (pv_state (rs_visitor s))" using v by (simp add: visitor_ok_def)
      from Visit_proc_steps[OF env f rdy ready(2) mgr this free]
      obtain st' m' where st': "ProcIrInterpreter_Visit B call pkg f (pv_state (rs_visitor s)) n nd (?st, ?m) = returnS (st', m')"
          "typed_state f (insert n (executed s) \<inter> valued f) st'" "mgr_ok channels m'" by (auto simp: steps_with_def)
      let ?s = "s\<lparr>rs_visitor := (rs_visitor s)\<lparr>pv_interp := st', pv_visited := insert n (executed s)\<rparr>,
                  rs_manager := m', rs_result := (rs_result s)\<lparr>progress_made := True\<rparr>\<rparr>"
      have "visitor_ok f (rs_visitor ?s)" using v n nd ready(2) st'(2) by (fastforce simp: visitor_ok_def)
      moreover have "node_step f channels n s ?s" using ready(1) by (intro node_step.execute) simp_all
      ultimately show ?thesis using run free st'(1,3) by (auto simp: execute_node_def)
    qed
    show ?thesis
    proof (cases "\<exists>i. node_op nd = Receive i True")
      case True
      then obtain i where op: "node_op nd = Receive i True" by blast
      have reads: "set (drop 1 (node_operands nd)) \<subseteq> executed s \<inter> valued f"
        using safe ready(2) op by (auto simp: proc_interpretable_def list_all_iff valued_def dest: in_set_dropD)
      have check': "NodeChecker_HandleReceive channels i True f nd = returnS ()" using check op by (simp add: NodeChecker_Visit_def)
      from typed reads mgr check' op show ?thesis
      proof (rule receive_blocked_returns)
        fix off q ch
        assume b: "GetQueueById ?m i = returnS q" "GetChannel channels i = Inr ch"
          "receive_blocked nd ?st ?m = returnS (if \<not> off \<and> ChannelQueue_empty q then Some ch else None)"
        show ?thesis
        proof (cases "\<not> off \<and> ChannelQueue_empty q")
          case True
          then show ?thesis using run b v mgr node_step.block[OF ready(1) nd ready(2) op b(2,1)] by auto
        qed (use b(3) go in auto)
      qed
    next
      case False
      then show ?thesis using go by (cases "node_op nd") (auto simp: receive_blocked_def split: bool.splits)
    qed
  qed
qed

lemma run_loop_steps:
  assumes env: "proc_env B num call pkg channels p" and f: "f = proc_base p"
  shows "set ns \<subseteq> node_ids f \<Longrightarrow> visitor_ok f (rs_visitor s) \<Longrightarrow> mgr_ok channels (rs_manager s) \<Longrightarrow>
    \<exists>s'. run_loop B call pkg f ns s = returnS s' \<and> node_steps f channels ns s s' \<and> visitor_ok f (rs_visitor s') \<and> mgr_ok channels (rs_manager s')"
proof (induction ns arbitrary: s)
  case (Cons n ns)
  then obtain s1 where s1: "run_node B call pkg f n s = returnS s1" "node_step f channels n s s1" "visitor_ok f (rs_visitor s1)"
      "mgr_ok channels (rs_manager s1)" using run_node_step[OF env f, of n s] by auto
  then show ?case using Cons.IH[of s1] Cons.prems(1) by (auto intro: steps_Cons)
qed (auto intro: steps_Nil)

text \<open>Each step only adds to the executed nodes, and says so in the result.\<close>

lemma node_step_result:
  assumes "node_step f channels n s s'"
  shows "executed s \<subseteq> executed s'" and "executed s' \<subseteq> insert n (executed s)"
    and "progress_made (rs_result s') \<longleftrightarrow> progress_made (rs_result s) \<or> executed s' \<noteq> executed s"
    and "executed s' = executed s \<Longrightarrow> rs_visitor s' = rs_visitor s \<and> rs_manager s' = rs_manager s"
    and "iteration_complete (rs_result s') \<Longrightarrow> iteration_complete (rs_result s)"
    and "\<exists>new. blocked_channels (rs_result s') = blocked_channels (rs_result s) @ new"
  using assms by (cases; auto)+

lemma node_steps_result:
  assumes "node_steps f channels ns s s'"
  shows "executed s \<subseteq> executed s' \<and> executed s' \<subseteq> executed s \<union> set ns \<and>
    (progress_made (rs_result s') \<longleftrightarrow> progress_made (rs_result s) \<or> executed s' \<noteq> executed s) \<and>
    (executed s' = executed s \<longrightarrow> rs_visitor s' = rs_visitor s \<and> rs_manager s' = rs_manager s) \<and>
    (iteration_complete (rs_result s') \<longrightarrow> iteration_complete (rs_result s)) \<and>
    set (blocked_channels (rs_result s)) \<subseteq> set (blocked_channels (rs_result s'))"
  using assms
proof (induction rule: node_steps.induct)
  case (steps_Cons n s s1 ns s')
  note step = node_step_result[OF steps_Cons(1)]
  have sub: "executed s1 \<subseteq> executed s'" using steps_Cons.IH by (elim conjE)
  have ne: "executed s' = executed s \<longleftrightarrow> executed s1 = executed s \<and> executed s' = executed s1" using step(1) sub by blast
  show ?case
  proof (intro conjI impI)
    show "executed s \<subseteq> executed s'" using step(1) sub by blast
    show "executed s' \<subseteq> executed s \<union> set (n # ns)" using step(2) steps_Cons.IH by auto
    show "progress_made (rs_result s') \<longleftrightarrow> progress_made (rs_result s) \<or> executed s' \<noteq> executed s" unfolding ne using step(3) steps_Cons.IH by argo
    show "rs_visitor s' = rs_visitor s" "rs_manager s' = rs_manager s" if "executed s' = executed s"
      using that step(4) steps_Cons.IH unfolding ne by simp_all
    show "iteration_complete (rs_result s)" if "iteration_complete (rs_result s')" using that step(5) steps_Cons.IH by simp
    show "set (blocked_channels (rs_result s)) \<subseteq> set (blocked_channels (rs_result s'))" using step(6) steps_Cons.IH by auto
  qed
qed simp

text \<open>A node that was not executed waits for an operand, or is a receive from an empty queue and reported as blocked.\<close>

definition blocked_on :: "ir_function \<Rightarrow> channel list \<Rightarrow> nat set \<Rightarrow> nat \<Rightarrow> channel \<Rightarrow> bool" where
  "blocked_on f channels V n ch \<longleftrightarrow> n \<notin> V \<and> (\<exists>nd i. GetNode f n = Some nd \<and> set (node_operands nd) \<subseteq> V \<and>
     node_op nd = Receive i True \<and> GetChannel channels i = Inr ch)"

lemma node_steps_left:
  "node_steps f channels ns s s' \<Longrightarrow> topological f seen ns \<Longrightarrow> n \<in> set ns \<Longrightarrow> n \<notin> executed s' \<Longrightarrow>
   (\<exists>nd a. GetNode f n = Some nd \<and> a \<in> set (node_operands nd) \<and> a \<notin> executed s') \<or>
   (\<not> iteration_complete (rs_result s') \<and> (\<exists>ch\<in>set (blocked_channels (rs_result s')). blocked_on f channels (executed s') n ch))"
proof (induction arbitrary: seen rule: node_steps.induct)
  case (steps_Cons m s s1 ns s')
  obtain md where md: "GetNode f m = Some md" "set (node_operands md) \<subseteq> seen" "topological f (insert m seen) ns"
    using steps_Cons.prems(1) by (auto split: option.splits)
  show ?case
  proof (cases "n = m")
    case False
    then show ?thesis using steps_Cons.IH[OF md(3)] steps_Cons.prems by auto
  next
    case True
    note later = node_steps_result[OF steps_Cons(2)]
    have out: "a \<notin> executed s'" if "a \<notin> executed s1" "a \<in> insert m seen" for a
      using topological_distinct[OF md(3)] later that by auto
    have ops: "a \<in> insert m seen" if "GetNode f n = Some nd" "a \<in> set (node_operands nd)" for a nd using that md True by auto
    from steps_Cons(1) show ?thesis
    proof cases
      case (wait nd a)
      then show ?thesis using out[of a] ops[of nd a] True by blast
    next
      case (block nd i ch q)
      have e: "executed s1 = executed s" using block(1) by simp
      have "ch \<in> set (blocked_channels (rs_result s'))" "\<not> iteration_complete (rs_result s')" using later block(1) by auto
      moreover have "blocked_on f channels (executed s') n ch"
        using block steps_Cons.prems(3) True later e by (auto simp: blocked_on_def)
      ultimately show ?thesis by blast
    qed (use later steps_Cons.prems(3) True in auto)
  qed
qed simp

lemma node_steps_blocked:
  "node_steps f channels ns s s' \<Longrightarrow> topological f seen ns \<Longrightarrow>
   (\<not> iteration_complete (rs_result s') \<longrightarrow> \<not> iteration_complete (rs_result s) \<or>
     (\<exists>n\<in>set ns. \<exists>ch\<in>set (blocked_channels (rs_result s')). blocked_on f channels (executed s') n ch)) \<and>
   (iteration_complete (rs_result s') \<longrightarrow> blocked_channels (rs_result s') = blocked_channels (rs_result s))"
proof (induction arbitrary: seen rule: node_steps.induct)
  case (steps_Cons m s s1 ns s')
  have topo: "topological f (insert m seen) ns" using steps_Cons.prems by (auto split: option.splits)
  note later = node_steps_result[OF steps_Cons(2)]
  have "m \<notin> executed s'" if "m \<notin> executed s1" using topological_distinct[OF topo] later that by auto
  from steps_Cons(1) show ?case
  proof cases
    case (block nd i ch q)
    have e: "executed s1 = executed s" using block(1) by simp
    have "m \<notin> executed s'" using \<open>m \<notin> executed s1 \<Longrightarrow> m \<notin> executed s'\<close> block(2) e by simp
    then have "blocked_on f channels (executed s') m ch" using block later e by (auto simp: blocked_on_def)
    moreover have "ch \<in> set (blocked_channels (rs_result s'))" "\<not> iteration_complete (rs_result s')" using later block(1) by auto
    ultimately show ?thesis by auto
  qed (use steps_Cons.IH[OF topo] in auto)
qed simp

section \<open>An iteration\<close>

lemma token_path_unexecuted:
  assumes v: "visitor_ok f v" and path: "(n, t) \<in> (token_flow f)\<^sup>*" and n: "n \<notin> pv_visited v"
  shows "t \<notin> pv_visited v"
  using path n
proof (induction rule: rtrancl_induct)
  case (step a b)
  then obtain nd where "GetNode f b = Some nd" "a \<in> set (node_operands nd)" by (auto simp: token_flow_def)
  then show ?case using v step.IH[OF step.prems] by (auto simp: visitor_ok_def)
qed

lemma ranked_closed:
  assumes ranked: "operands_ranked f rank"
    and left: "\<And>n. n \<in> node_ids f \<Longrightarrow> n \<notin> V \<Longrightarrow> \<exists>nd a. GetNode f n = Some nd \<and> a \<in> set (node_operands nd) \<and> a \<notin> V"
  shows "node_ids f \<subseteq> V"
proof
  fix n
  assume "n \<in> node_ids f"
  then show "n \<in> V"
  proof (induction "rank n" arbitrary: n rule: less_induct)
    case less
    show ?case
    proof (rule ccontr)
      assume "n \<notin> V"
      then obtain nd a where a: "GetNode f n = Some nd" "a \<in> set (node_operands nd)" "a \<notin> V" using left[OF less.prems] by blast
      then have "rank a < rank n" "a \<in> node_ids f" using ranked GetNode_in[OF a(1)] by (auto simp: operands_ranked_def)
      then show False using less.hyps a(3) by blast
    qed
  qed
qed

definition fresh_result :: run_result where
  "fresh_result = \<lparr>iteration_complete = True, progress_made = False, blocked_channels = []\<rparr>"

text \<open>After a run, the iteration is complete exactly when all nodes were executed, and exactly when the next token was.\<close>

lemma run_outcome:
  assumes env: "proc_env B num call pkg channels p" and f: "f = proc_base p"
    and topo: "topological f {} ns" "set ns = node_ids f" and steps: "node_steps f channels ns s s'" and fresh: "rs_result s = fresh_result"
    and v: "visitor_ok f (rs_visitor s')"
  shows "iteration_complete (rs_result s') \<longleftrightarrow> executed s' = node_ids f"
    and "iteration_complete (rs_result s') \<longleftrightarrow> NextToken p \<in> executed s'"
    and "iteration_complete (rs_result s') \<longleftrightarrow> blocked_channels (rs_result s') = []"
    and "\<not> iteration_complete (rs_result s') \<Longrightarrow>
      \<exists>n. \<exists>ch\<in>set (blocked_channels (rs_result s')). blocked_on f channels (executed s') n ch"
proof -
  have p: "verified_proc pkg channels p" using env by (simp add: proc_env_def)
  then have ok: "VerifyProc pkg channels p = returnS ()" by (simp add: verified_proc_def)
  obtain rank where rank: "operands_ranked f rank" using verified_proc_linked(2)[OF p] f by blast
  have sub: "executed s' \<subseteq> node_ids f" using v by (simp add: visitor_ok_def)
  have token: "NextToken p \<in> node_ids f" using VerifyProc_facts(7)[OF ok] f by (auto simp: GetType_def GetNode_ids)
  have all: "executed s' = node_ids f" if "iteration_complete (rs_result s')"
    using ranked_closed[OF rank, of "executed s'"] node_steps_left[OF steps topo(1)] topo(2) that sub by blast
  note blocked = node_steps_blocked[OF steps topo(1)]
  show stuck: "\<exists>n. \<exists>ch\<in>set (blocked_channels (rs_result s')). blocked_on f channels (executed s') n ch"
    if "\<not> iteration_complete (rs_result s')" using blocked fresh that by (auto simp: fresh_result_def)
  have "NextToken p \<notin> executed s'" if inc: "\<not> iteration_complete (rs_result s')"
  proof -
    obtain n nd i where n: "n \<notin> executed s'" "GetNode f n = Some nd" "node_op nd = Receive i True"
      using stuck[OF inc] by (auto simp: blocked_on_def)
    then show ?thesis using token_path_unexecuted[OF v _ n(1)] receive_reaches_token[OF p, of n nd i True] f by simp
  qed
  then show "iteration_complete (rs_result s') \<longleftrightarrow> executed s' = node_ids f"
    "iteration_complete (rs_result s') \<longleftrightarrow> NextToken p \<in> executed s'" using all token by auto
  show "iteration_complete (rs_result s') \<longleftrightarrow> blocked_channels (rs_result s') = []"
    using blocked stuck fresh by (auto simp: fresh_result_def)
qed

definition pin_ok :: "proc_interpreter \<Rightarrow> bool" where
  "pin_ok pin \<longleftrightarrow> topological (proc_base (pi_proc pin)) {} (topo_sort pin) \<and> set (topo_sort pin) = node_ids (proc_base (pi_proc pin)) \<and>
     (\<forall>v. pi_visitor pin = Some v \<longrightarrow> visitor_ok (proc_base (pi_proc pin)) v)"

text \<open>The nodes that the current iteration still has to execute.\<close>

definition pending_nodes :: "proc_interpreter \<Rightarrow> nat set" where
  "pending_nodes pin = (let ids = node_ids (proc_base (pi_proc pin)) in
     if IsIterationComplete pin then ids else case pi_visitor pin of None \<Rightarrow> ids | Some v \<Rightarrow> ids - pv_visited v)"

lemma new_visitor_ok: "state_typed f vs \<Longrightarrow> visitor_ok f (new_visitor vs)"
  by (simp add: visitor_ok_def new_visitor_def typed_state_def init_interp_def)

lemma mapS_returns:
  "(\<And>x. x \<in> set xs \<Longrightarrow> \<exists>y. g x = returnS y \<and> P y x) \<Longrightarrow> \<exists>ys. mapS g xs = returnS ys \<and> list_all2 P ys xs"
proof (induction xs)
  case (Cons x xs)
  then obtain y ys where "g x = returnS y" "P y x" "mapS g xs = returnS ys" "list_all2 P ys xs" by (metis list.set_intros)
  then show ?case by simp
qed simp

lemma ResolveState_typed:
  assumes env: "proc_env B num call pkg channels p" and p: "p = pi_proc pin" and vis: "pi_visitor pin = Some v"
    and v: "visitor_ok (proc_base p) v" and complete: "IsIterationComplete pin"
  shows "\<exists>vs. ProcInterpreter_ResolveState pin = returnS vs \<and> state_typed (proc_base p) vs"
proof -
  let ?f = "proc_base p"
  have ver: "verified_proc pkg channels p" using env by (simp add: proc_env_def)
  then have ok: "VerifyProc pkg channels p = returnS ()" by (simp add: verified_proc_def)
  let ?g = "\<lambda>n. case node_values (pv_interp v) n of None \<Rightarrow> errorS NotFound | Some x \<Rightarrow> returnS x"
  have val: "\<exists>x. ?g n = returnS x \<and> (\<exists>t. GetType ?f n = Some t \<and> has_type x t)" if n: "n \<in> set (NextState p)" for n
  proof -
    have "n \<in> pv_visited v \<inter> valued ?f"
      using n complete vis p ver by (auto simp: IsIterationComplete_def verified_proc_def list_all_iff valued_def)
    moreover have "typed_state ?f (pv_visited v \<inter> valued ?f) (pv_interp v)" using v by (simp add: visitor_ok_def)
    ultimately obtain x t where "node_values (pv_interp v) n = Some x" "GetType ?f n = Some t" "has_type x t"
      unfolding typed_state_def by blast
    then show ?thesis by simp
  qed
  obtain vs where vs: "ProcInterpreter_ResolveState pin = returnS vs"
      "list_all2 (\<lambda>x n. \<exists>t. GetType ?f n = Some t \<and> has_type x t) vs (NextState p)"
    using mapS_returns[of "NextState p" ?g "\<lambda>x n. \<exists>t. GetType ?f n = Some t \<and> has_type x t", OF val] vis p
    by (auto simp: ProcInterpreter_ResolveState_def)
  have "state_typed ?f vs"
    unfolding state_typed_def list_all2_conv_all_nth
  proof (intro conjI allI impI)
    show "length vs = length (tl (fn_params ?f))" using list_all2_lengthD[OF vs(2)] VerifyProc_facts(5)[OF ok] by simp
    fix i assume i: "i < length vs"
    then have "i < length (tl (fn_params ?f))" using list_all2_lengthD[OF vs(2)] VerifyProc_facts(5)[OF ok] by simp
    from VerifyProc_facts(6)[OF ok this] list_all2_nthD[OF vs(2) i]
    show "\<exists>t. GetType ?f (tl (fn_params ?f) ! i) = Some t \<and> has_type (vs ! i) t" by auto
  qed
  then show ?thesis using vs(1) by blast
qed

lemma start_iteration_ok:
  assumes env: "proc_env B num call pkg channels (pi_proc pin)" and pin: "pin_ok pin"
  shows "\<exists>v. start_iteration pin = returnS (pin\<lparr>pi_visitor := Some v\<rparr>) \<and> visitor_ok (proc_base (pi_proc pin)) v \<and>
    node_ids (proc_base (pi_proc pin)) - pv_visited v = pending_nodes pin \<and>
    (if IsIterationComplete pin then pv_visited v = {} else pi_visitor pin = Some v)"
proof (cases "IsIterationComplete pin")
  case True
  obtain vs where vs: "start_iteration pin = returnS (pin\<lparr>pi_visitor := Some (new_visitor vs)\<rparr>)" "state_typed (proc_base (pi_proc pin)) vs"
  proof (cases "pi_visitor pin")
    case None
    have "state_typed (proc_base (pi_proc pin)) (InitValues (pi_proc pin))" using env by (auto simp: proc_env_def intro: init_state_typed)
    then show ?thesis using that[of "InitValues (pi_proc pin)"] True None by (simp add: start_iteration_def ProcInterpreter_ResetState_def)
  next
    case (Some v)
    have "visitor_ok (proc_base (pi_proc pin)) v" using pin Some by (simp add: pin_ok_def)
    from ResolveState_typed[OF env refl Some this True] show ?thesis using that True Some by (auto simp: start_iteration_def)
  qed
  then show ?thesis using True new_visitor_ok[OF vs(2)] by (auto simp: pending_nodes_def Let_def new_visitor_def)
next
  case False
  then obtain v where "pi_visitor pin = Some v" by (auto simp: IsIterationComplete_def split: option.splits)
  moreover have "pin\<lparr>pi_visitor := Some v\<rparr> = pin" using calculation by simp
  ultimately show ?thesis using False pin by (intro exI[of _ v]) (simp add: start_iteration_def pin_ok_def pending_nodes_def Let_def)
qed

lemma sort_key_Nil: "sort_key k xs = [] \<longleftrightarrow> xs = []"
  using set_empty[of "sort_key k xs"] by simp

text \<open>A run that executes nothing leaves the queues alone; the channels it reports are empty, and the proc waits on one of them.\<close>

definition queue_empty :: "queue_manager \<Rightarrow> channel \<Rightarrow> bool" where
  "queue_empty m ch \<longleftrightarrow> (\<exists>q. GetQueueById m (channel_id ch) = returnS q \<and> ChannelQueue_empty q)"

definition waits_on :: "channel list \<Rightarrow> queue_manager \<Rightarrow> proc_interpreter \<Rightarrow> channel \<Rightarrow> bool" where
  "waits_on channels m pin ch \<longleftrightarrow> queue_empty m ch \<and> (\<exists>v n. pi_visitor pin = Some v \<and> blocked_on (proc_base (pi_proc pin)) channels (pv_visited v) n ch)"

lemma node_steps_idle:
  "node_steps f channels ns s s' \<Longrightarrow> executed s' = executed s \<Longrightarrow> ch \<in> set (blocked_channels (rs_result s')) \<Longrightarrow>
   ch \<in> set (blocked_channels (rs_result s)) \<or> queue_empty (rs_manager s) ch"
proof (induction rule: node_steps.induct)
  case (steps_Cons n s s1 ns s')
  have same: "executed s1 = executed s" "executed s' = executed s1"
    using node_step_result(1)[OF steps_Cons(1)] node_steps_result[OF steps_Cons(2)] steps_Cons.prems(1) by auto
  then have m: "rs_manager s1 = rs_manager s" using node_step_result(4)[OF steps_Cons(1)] by simp
  from steps_Cons.IH[OF same(2) steps_Cons.prems(2)] consider "ch \<in> set (blocked_channels (rs_result s1))" | "queue_empty (rs_manager s) ch"
    using m by auto
  then show ?case
  proof cases
    case 1
    from steps_Cons(1) show ?thesis
    proof cases
      case (block nd i c q)
      then show ?thesis using 1 by (auto simp: queue_empty_def GetChannel_def find_Some_iff split: option.splits)
    qed (use 1 same in auto)
  qed simp
qed simp

lemma events_status: "InterpreterEventsToStatus ev = Inl Aborted \<or> InterpreterEventsToStatus ev = Inr ()"
  by (simp add: InterpreterEventsToStatus_def)

text \<open>
  The contract of \<open>RunIterationUntilCompleteOrBlocked\<close>. \<open>left\<close> are the nodes of the iteration that were not executed when the
  run ended.
\<close>

definition run_post ::
    "channel list \<Rightarrow> proc_interpreter \<Rightarrow> queue_manager \<Rightarrow> nat set \<Rightarrow> run_result \<Rightarrow> proc_interpreter \<Rightarrow> queue_manager \<Rightarrow> bool" where
  "run_post channels pin m left res pin' m' \<longleftrightarrow>
     pin_ok pin' \<and> pi_proc pin' = pi_proc pin \<and> mgr_ok channels m' \<and>
     (iteration_complete res \<longleftrightarrow> IsIterationComplete pin') \<and> (iteration_complete res \<longleftrightarrow> left = {}) \<and>
     (iteration_complete res \<longleftrightarrow> blocked_channels res = []) \<and>
     (\<exists>v. pi_visitor pin' = Some v \<and> left = node_ids (proc_base (pi_proc pin)) - pv_visited v) \<and>
     left \<subseteq> pending_nodes pin \<and> (progress_made res \<longleftrightarrow> left \<noteq> pending_nodes pin) \<and>
     current_iteration pin' = current_iteration pin + (if iteration_complete res then 1 else 0) \<and>
     (\<not> progress_made res \<longrightarrow> pin' = pin \<and> m' = m \<and> \<not> iteration_complete res \<and>
        (\<exists>ch\<in>set (blocked_channels res). waits_on channels m pin ch) \<and> (\<forall>ch\<in>set (blocked_channels res). queue_empty m ch))"

lemma verified_proc_nodes:
  assumes p: "verified_proc pkg channels p"
  shows "node_ids (proc_base p) \<noteq> {}" and "blocked_on (proc_base p) channels V n ch \<Longrightarrow> V \<noteq> {}"
    and "set (NextState p) \<subseteq> node_ids (proc_base p)"
proof -
  have ok: "VerifyProc pkg channels p = returnS ()" using p by (simp add: verified_proc_def)
  show "node_ids (proc_base p) \<noteq> {}" using VerifyProc_facts(7)[OF ok] GetNode_ids[of "NextToken p" "proc_base p"] by (auto simp: GetType_def)
  show "set (NextState p) \<subseteq> node_ids (proc_base p)"
    using p by (auto simp: verified_proc_def list_all_iff has_result_def GetNode_ids split: option.splits)
  assume "blocked_on (proc_base p) channels V n ch"
  then obtain nd i where nd: "GetNode (proc_base p) n = Some nd" "set (node_operands nd) \<subseteq> V" "node_op nd = Receive i True"
    by (auto simp: blocked_on_def)
  have "NodeChecker_HandleReceive channels i True (proc_base p) nd = returnS ()"
    using VerifyFunctionBase_nodes(2)[OF VerifyProc_facts(1)[OF ok] GetNode_in[OF nd(1)]] nd(3) by (simp add: NodeChecker_Visit_def)
  then have "node_operands nd \<noteq> []" by (auto simp: NodeChecker_HandleReceive_def expect_iff)
  then show "V \<noteq> {}" using nd(2) by auto
qed

lemma Run_ok:
  assumes env: "proc_env B num call pkg channels (pi_proc pin)" and pin: "pin_ok pin" and mgr: "mgr_ok channels m"
  shows "RunIterationUntilCompleteOrBlocked B call pkg pin m = errorS Aborted \<or>
    (\<exists>res pin' m' left. RunIterationUntilCompleteOrBlocked B call pkg pin m = returnS (res, pin', m') \<and> run_post channels pin m left res pin' m')"
proof -
  let ?p = "pi_proc pin" and ?f = "proc_base (pi_proc pin)"
  have ver: "verified_proc pkg channels ?p" using env by (simp add: proc_env_def)
  obtain v where start: "start_iteration pin = returnS (pin\<lparr>pi_visitor := Some v\<rparr>)" and v: "visitor_ok ?f v"
      and pend: "node_ids ?f - pv_visited v = pending_nodes pin" and origin: "if IsIterationComplete pin then pv_visited v = {} else pi_visitor pin = Some v"
    using start_iteration_ok[OF env pin] by blast
  let ?s = "\<lparr>rs_visitor = v, rs_manager = m, rs_result = fresh_result\<rparr>"
  have order: "topological ?f {} (topo_sort pin)" "set (topo_sort pin) = node_ids ?f" using pin by (simp_all add: pin_ok_def)
  obtain s where s: "run_loop B call pkg ?f (topo_sort pin) ?s = returnS s" "node_steps ?f channels (topo_sort pin) ?s s"
      "visitor_ok ?f (rs_visitor s)" "mgr_ok channels (rs_manager s)"
    using run_loop_steps[OF env refl, of "topo_sort pin" ?s] order(2) v mgr by auto
  note out = run_outcome[OF env refl order s(2) _ s(3), simplified]
  note res = node_steps_result[OF s(2), simplified]
  let ?pin = "pin\<lparr>pi_visitor := Some (rs_visitor s),
      current_iteration := current_iteration pin + (if iteration_complete (rs_result s) then 1 else 0)\<rparr>"
  let ?res = "(rs_result s)\<lparr>blocked_channels := sort_key channel_id (blocked_channels (rs_result s))\<rparr>"
  let ?left = "node_ids ?f - executed s"
  have run: "RunIterationUntilCompleteOrBlocked B call pkg pin m =
      bindS (Some (InterpreterEventsToStatus (interp_events (pv_interp (rs_visitor s))))) (\<lambda>_. returnS (?res, ?pin, rs_manager s))"
    using start s(1) by (simp add: RunIterationUntilCompleteOrBlocked_def fresh_result_def)
  have in_ids: "executed s \<subseteq> node_ids ?f" "pv_visited v \<subseteq> node_ids ?f" using s(3) v by (simp_all add: visitor_ok_def)
  have complete: "IsIterationComplete ?pin \<longleftrightarrow> iteration_complete (rs_result s)"
    using out(1,2) verified_proc_nodes(3)[OF ver] by (auto simp: IsIterationComplete_def list_all_iff)
  have progress: "progress_made (rs_result s) \<longleftrightarrow> ?left \<noteq> pending_nodes pin" "?left \<subseteq> pending_nodes pin"
    using res in_ids unfolding pend[symmetric] by (auto simp: fresh_result_def)
  have still: "?pin = pin \<and> rs_manager s = m \<and> \<not> iteration_complete (rs_result s) \<and>
      (\<exists>ch\<in>set (blocked_channels (rs_result s)). waits_on channels m pin ch) \<and> (\<forall>ch\<in>set (blocked_channels (rs_result s)). queue_empty m ch)"
    if no: "\<not> progress_made (rs_result s)"
  proof -
    have same: "executed s = pv_visited v" "rs_visitor s = v" "rs_manager s = m" using res no by (auto simp: fresh_result_def)
    have "\<not> IsIterationComplete pin"
    proof
      assume "IsIterationComplete pin"
      then have "executed s = {}" using origin same by simp
      then show False using out(1,4) verified_proc_nodes(1)[OF ver] verified_proc_nodes(2)[OF ver, of "executed s"] by (auto simp: fresh_result_def)
    qed
    then have vis: "pi_visitor pin = Some v" using origin by simp
    have inc: "\<not> iteration_complete (rs_result s)"
    proof
      assume "iteration_complete (rs_result s)"
      then have "IsIterationComplete ?pin" using complete by simp
      then show False using \<open>\<not> IsIterationComplete pin\<close> vis same(2) by (simp add: IsIterationComplete_def)
    qed
    have "?pin = pin" using inc vis same(2) by (intro proc_interpreter.equality) simp_all
    moreover have "\<forall>ch\<in>set (blocked_channels (rs_result s)). queue_empty m ch"
      using node_steps_idle[OF s(2)] same(1) by (auto simp: fresh_result_def)
    moreover have "\<exists>ch\<in>set (blocked_channels (rs_result s)). waits_on channels m pin ch"
    proof -
      obtain n ch where ch: "ch \<in> set (blocked_channels (rs_result s))" "blocked_on ?f channels (executed s) n ch" using out(4) inc by (auto simp: fresh_result_def)
      then show ?thesis using calculation(2) vis same(1) unfolding waits_on_def by auto
    qed
    ultimately show ?thesis using inc same(3) by blast
  qed
  have "run_post channels pin m ?left ?res ?pin (rs_manager s)"
    unfolding run_post_def
  proof (intro conjI impI)
    show "pin_ok ?pin" using order s(3) by (simp add: pin_ok_def)
    show "iteration_complete ?res \<longleftrightarrow> ?left = {}" using out(1) in_ids by (auto simp: fresh_result_def)
    show "iteration_complete ?res \<longleftrightarrow> blocked_channels ?res = []" using out(3) by (simp add: fresh_result_def sort_key_Nil)
  qed (use progress still complete s(4) in auto)
  then show ?thesis using run events_status[of "interp_events (pv_interp (rs_visitor s))"] by auto
qed

section \<open>A tick of the network\<close>

definition net_ok :: "'b bn_api \<Rightarrow> ('b \<Rightarrow> int) \<Rightarrow> interp_call \<Rightarrow> ir_package \<Rightarrow> channel list \<Rightarrow> network \<Rightarrow> bool" where
  "net_ok B num call pkg channels net \<longleftrightarrow> mgr_ok channels (net_manager net) \<and>
     (\<forall>pin\<in>set (net_procs net). proc_env B num call pkg channels (pi_proc pin) \<and> pin_ok pin)"

text \<open>The work that is left in the tick: the nodes that the procs which are not finished still have to execute.\<close>

definition active_procs :: "tick_state \<Rightarrow> nat set" where
  "active_procs s = {..<length (net_procs (tk_network s))} - completed_procs s"

definition tick_work :: "tick_state \<Rightarrow> nat" where
  "tick_work s = (\<Sum>i\<in>active_procs s. card (pending_nodes (net_procs (tk_network s) ! i)))"

lemma finite_pending [simp]: "finite (pending_nodes pin)"
  by (auto simp: pending_nodes_def Let_def node_ids_def split: option.splits)

definition round_step :: "'b bn_api \<Rightarrow> ('b \<Rightarrow> int) \<Rightarrow> interp_call \<Rightarrow> ir_package \<Rightarrow> channel list \<Rightarrow> nat set \<Rightarrow> tick_state \<Rightarrow> tick_state \<Rightarrow> bool" where
  "round_step B num call pkg channels I s s' \<longleftrightarrow>
     net_ok B num call pkg channels (tk_network s') \<and> length (net_procs (tk_network s')) = length (net_procs (tk_network s)) \<and>
     map pi_proc (net_procs (tk_network s')) = map pi_proc (net_procs (tk_network s)) \<and>
     (if progress_made_this_loop s' then progress_made_this_loop s \<and> tick_work s' \<le> tick_work s \<or> tick_work s' < tick_work s
      else \<not> progress_made_this_loop s \<and> tk_network s' = tk_network s \<and> completed_procs s' = completed_procs s \<and>
        (\<forall>i\<in>I - completed_procs s. \<exists>ch\<in>set (blocked_channel_set s'). waits_on channels (net_manager (tk_network s)) (net_procs (tk_network s) ! i) ch) \<and>
        (\<forall>ch\<in>set (blocked_channel_set s'). ch \<in> set (blocked_channel_set s) \<or> queue_empty (net_manager (tk_network s)) ch) \<and>
        set (blocked_channel_set s) \<subseteq> set (blocked_channel_set s'))"

lemma tick_proc_round:
  assumes net: "net_ok B num call pkg channels (tk_network s)" and i: "i < length (net_procs (tk_network s))"
  shows "tick_proc B call pkg i s = errorS Aborted \<or> (\<exists>s'. tick_proc B call pkg i s = returnS s' \<and> round_step B num call pkg channels {i} s s')"
proof (cases "i \<in> completed_procs s")
  case True
  then show ?thesis using net by (auto simp: tick_proc_def round_step_def)
next
  case False
  let ?procs = "net_procs (tk_network s)" and ?m = "net_manager (tk_network s)"
  have pin: "proc_env B num call pkg channels (pi_proc (?procs ! i))" "pin_ok (?procs ! i)" "mgr_ok channels ?m"
    using net i by (auto simp: net_ok_def)
  have get: "at_opt ?procs i = Some (?procs ! i)" using i by (simp add: at_opt_def)
  show ?thesis
  proof (cases "RunIterationUntilCompleteOrBlocked B call pkg (?procs ! i) ?m = errorS Aborted")
    case True
    then show ?thesis using False get by (simp add: tick_proc_def)
  next
    case ok: False
    obtain res pin' m' left where run: "RunIterationUntilCompleteOrBlocked B call pkg (?procs ! i) ?m = returnS (res, pin', m')"
        and post: "run_post channels (?procs ! i) ?m left res pin' m'" using Run_ok[OF pin] ok by blast
    let ?s = "s\<lparr>tk_network := \<lparr>net_procs = ?procs[i := pin'], net_manager = m'\<rparr>,
                progress_made_this_loop := progress_made_this_loop s \<or> progress_made res,
                completed_procs := (if iteration_complete res then insert i (completed_procs s) else completed_procs s),
                blocked_channel_set := List.union (blocked_channels res) (blocked_channel_set s)\<rparr>"
    have tick: "tick_proc B call pkg i s = returnS ?s" using False get run by (simp add: tick_proc_def)
    have procs: "map pi_proc (?procs[i := pin']) = map pi_proc ?procs" using post i by (simp add: run_post_def map_update list_update_same_conv)
    have ok': "net_ok B num call pkg channels (tk_network ?s)"
      using net post pin(1) by (auto simp: net_ok_def run_post_def dest!: set_update_subset_insert[THEN subsetD])
    have i_act: "i \<in> active_procs s" using False i by (simp add: active_procs_def)
    have fin: "finite (active_procs s)" by (simp add: active_procs_def)
    let ?w = "\<lambda>j. card (pending_nodes (?procs ! j))" and ?w' = "\<lambda>j. card (pending_nodes (?procs[i := pin'] ! j))"
    have rest: "sum ?w' (active_procs s - {i}) = sum ?w (active_procs s - {i})" by (intro sum.cong) auto
    have before: "tick_work s = card (pending_nodes (?procs ! i)) + sum ?w (active_procs s - {i})"
      unfolding tick_work_def using sum.remove[OF fin i_act] .
    have after: "tick_work ?s = card left + sum ?w (active_procs s - {i})"
    proof (cases "iteration_complete res")
      case True
      then have "active_procs ?s = active_procs s - {i}" "left = {}" using post by (auto simp: active_procs_def run_post_def)
      then show ?thesis using rest by (simp add: tick_work_def)
    next
      case inc: False
      then have act: "active_procs ?s = active_procs s" by (simp add: active_procs_def)
      obtain v where "pi_visitor pin' = Some v" "left = node_ids (proc_base (pi_proc (?procs ! i))) - pv_visited v"
          "\<not> IsIterationComplete pin'" "pi_proc pin' = pi_proc (?procs ! i)"
        using post inc unfolding run_post_def by metis
      then have "pending_nodes pin' = left" by (simp add: pending_nodes_def)
      then show ?thesis unfolding tick_work_def act using sum.remove[OF fin i_act, of ?w'] rest i by simp
    qed
    have "card left \<le> card (pending_nodes (?procs ! i))" "progress_made res \<Longrightarrow> card left < card (pending_nodes (?procs ! i))"
      using post by (auto simp: run_post_def intro!: card_mono psubset_card_mono)
    then have work: "tick_work ?s \<le> tick_work s" "progress_made res \<Longrightarrow> tick_work ?s < tick_work s" using before after by auto
    have idle: "?procs[i := pin'] = ?procs \<and> m' = ?m \<and> \<not> iteration_complete res" if "\<not> progress_made res"
      using post that by (auto simp: run_post_def)
    have "round_step B num call pkg channels {i} s ?s"
      unfolding round_step_def
    proof (intro conjI)
      show "if progress_made_this_loop ?s then progress_made_this_loop s \<and> tick_work ?s \<le> tick_work s \<or> tick_work ?s < tick_work s
        else \<not> progress_made_this_loop s \<and> tk_network ?s = tk_network s \<and> completed_procs ?s = completed_procs s \<and>
          (\<forall>i\<in>{i} - completed_procs s. \<exists>ch\<in>set (blocked_channel_set ?s). waits_on channels (net_manager (tk_network s)) (?procs ! i) ch) \<and>
          (\<forall>ch\<in>set (blocked_channel_set ?s). ch \<in> set (blocked_channel_set s) \<or> queue_empty (net_manager (tk_network s)) ch) \<and>
          set (blocked_channel_set s) \<subseteq> set (blocked_channel_set ?s)"
      proof (cases "progress_made_this_loop ?s")
        case True
        then show ?thesis using work by auto
      next
        case no: False
        then have "\<not> progress_made res" by simp
        then show ?thesis using no post idle by (auto simp: run_post_def)
      qed
    qed (use ok' procs in auto)
    then show ?thesis using tick by blast
  qed
qed

lemma round_step_refl: "net_ok B num call pkg channels (tk_network s) \<Longrightarrow> round_step B num call pkg channels {} s s"
  by (simp add: round_step_def)

lemma round_step_trans:
  assumes one: "round_step B num call pkg channels I s s1" and two: "round_step B num call pkg channels J s1 s2"
  shows "round_step B num call pkg channels (I \<union> J) s s2"
proof (cases "progress_made_this_loop s2")
  case True
  have "progress_made_this_loop s \<and> tick_work s2 \<le> tick_work s \<or> tick_work s2 < tick_work s"
  proof (cases "progress_made_this_loop s1")
    case p1: True
    then show ?thesis using one two True by (auto simp: round_step_def)
  next
    case False
    then have "tick_work s1 = tick_work s" using one by (simp add: round_step_def tick_work_def active_procs_def)
    then show ?thesis using two True False by (auto simp: round_step_def)
  qed
  then show ?thesis using one two True by (simp add: round_step_def)
next
  case False
  then have s1: "\<not> progress_made_this_loop s1" using two by (simp add: round_step_def)
  have same: "tk_network s1 = tk_network s" "completed_procs s1 = completed_procs s" using one s1 by (simp_all add: round_step_def)
  have sub: "set (blocked_channel_set s1) \<subseteq> set (blocked_channel_set s2)" using two False by (simp add: round_step_def)
  have "\<exists>ch\<in>set (blocked_channel_set s2). waits_on channels (net_manager (tk_network s)) (net_procs (tk_network s) ! i) ch"
    if i: "i \<in> I \<union> J - completed_procs s" for i
  proof (cases "i \<in> I")
    case True
    then have "\<exists>ch\<in>set (blocked_channel_set s1). waits_on channels (net_manager (tk_network s)) (net_procs (tk_network s) ! i) ch"
      using one s1 i unfolding round_step_def by auto
    then show ?thesis using sub by blast
  next
    case no: False
    then show ?thesis using two False i same unfolding round_step_def by auto
  qed
  moreover have "ch \<in> set (blocked_channel_set s) \<or> queue_empty (net_manager (tk_network s)) ch" if "ch \<in> set (blocked_channel_set s2)" for ch
    using one two s1 False that same unfolding round_step_def by auto
  ultimately show ?thesis using one two s1 False same sub unfolding round_step_def by auto
qed

lemma tick_procs_round:
  "net_ok B num call pkg channels (tk_network s) \<Longrightarrow> set is \<subseteq> {..<length (net_procs (tk_network s))} \<Longrightarrow>
   tick_procs B call pkg is s = errorS Aborted \<or> (\<exists>s'. tick_procs B call pkg is s = returnS s' \<and> round_step B num call pkg channels (set is) s s')"
proof (induction "is" arbitrary: s)
  case (Cons i "is")
  show ?case
  proof (cases "tick_proc B call pkg i s = errorS Aborted")
    case False
    then obtain s1 where s1: "tick_proc B call pkg i s = returnS s1" "round_step B num call pkg channels {i} s s1"
      using tick_proc_round[OF Cons.prems(1), of i] Cons.prems(2) by auto
    then have "net_ok B num call pkg channels (tk_network s1)" "set is \<subseteq> {..<length (net_procs (tk_network s1))}"
      using Cons.prems(2) by (auto simp: round_step_def)
    from Cons.IH[OF this] show ?thesis
    proof
      assume "\<exists>s'. tick_procs B call pkg is s1 = returnS s' \<and> round_step B num call pkg channels (set is) s1 s'"
      then obtain s' where "tick_procs B call pkg is s1 = returnS s'" "round_step B num call pkg channels ({i} \<union> set is) s s'"
        using round_step_trans[OF s1(2)] by blast
      then show ?thesis using s1(1) by auto
    qed (use s1(1) in simp)
  qed simp
qed (auto intro: round_step_refl)

text \<open>\<open>global\<close> says whether an earlier round made progress.\<close>

definition tick_post :: "'b bn_api \<Rightarrow> ('b \<Rightarrow> int) \<Rightarrow> interp_call \<Rightarrow> ir_package \<Rightarrow> channel list \<Rightarrow> bool \<Rightarrow> tick_state \<Rightarrow> bool \<Rightarrow> tick_state \<Rightarrow> bool" where
  "tick_post B num call pkg channels global s global' s' \<longleftrightarrow>
     net_ok B num call pkg channels (tk_network s') \<and> map pi_proc (net_procs (tk_network s')) = map pi_proc (net_procs (tk_network s)) \<and>
     (global \<longrightarrow> global') \<and>
     (\<not> global' \<longrightarrow> tk_network s' = tk_network s \<and>
        (\<forall>i\<in>active_procs s. \<exists>ch\<in>set (blocked_channel_set s'). waits_on channels (net_manager (tk_network s)) (net_procs (tk_network s) ! i) ch) \<and>
        (\<forall>ch\<in>set (blocked_channel_set s'). queue_empty (net_manager (tk_network s)) ch))"

lemma tick_loop_post:
  "net_ok B num call pkg channels (tk_network s) \<Longrightarrow>
   tick_loop B call pkg global s = errorS Aborted \<or>
   (\<exists>global' s'. tick_loop B call pkg global s = returnS (global', s') \<and> tick_post B num call pkg channels global s global' s')"
proof (induction "tick_work s" arbitrary: s global rule: less_induct)
  case less
  let ?s = "s\<lparr>progress_made_this_loop := False, blocked_channel_set := []\<rparr>" and ?is = "[0..<length (net_procs (tk_network s))]"
  have work: "tick_work ?s = tick_work s" by (simp add: tick_work_def active_procs_def)
  have loop: "tick_loop B call pkg global s = bindS (tick_procs B call pkg ?is ?s) (\<lambda>s'.
      if progress_made_this_loop s' then tick_loop B call pkg True s' else returnS (global, s'))"
    by (subst tick_loop.simps) (auto simp: bindS_def returnS_def intro!: Option.bind_cong split: sum.splits)
  consider "tick_procs B call pkg ?is ?s = errorS Aborted"
    | s1 where "tick_procs B call pkg ?is ?s = returnS s1" "round_step B num call pkg channels (set ?is) ?s s1"
    using tick_procs_round[of B num call pkg channels ?s ?is] less.prems by (auto simp: atLeast0LessThan)
  then show ?case
  proof cases
    case 1
    then show ?thesis using loop by simp
  next
    case 2
    show ?thesis
    proof (cases "progress_made_this_loop s1")
      case True
      have "tick_work s1 < tick_work s" "net_ok B num call pkg channels (tk_network s1)"
          "map pi_proc (net_procs (tk_network s1)) = map pi_proc (net_procs (tk_network s))"
        using 2(2) True work by (auto simp: round_step_def)
      then show ?thesis using less.hyps[of s1 True] loop 2(1) True by (auto simp: tick_post_def)
    next
      case False
      have "active_procs s \<subseteq> set ?is - completed_procs s" by (auto simp: active_procs_def)
      then have "tick_post B num call pkg channels global s global s1" using 2(2) False unfolding tick_post_def round_step_def by auto
      then show ?thesis using loop 2(1) False by simp
    qed
  qed
qed

lemma TickInternal_ok:
  assumes "net_ok B num call pkg channels net"
  shows "TickInternal B call pkg net = errorS Aborted \<or>
    (\<exists>progress blocked net'. TickInternal B call pkg net = returnS (progress, blocked, net') \<and> net_ok B num call pkg channels net' \<and>
       map pi_proc (net_procs net') = map pi_proc (net_procs net) \<and>
       (\<not> progress \<longrightarrow> net' = net \<and> sorted (map channel_id blocked) \<and>
          (\<forall>pin\<in>set (net_procs net). \<exists>ch\<in>set blocked. waits_on channels (net_manager net) pin ch) \<and>
          (\<forall>ch\<in>set blocked. queue_empty (net_manager net) ch)))"
proof -
  let ?s = "\<lparr>tk_network = net, completed_procs = {}, blocked_channel_set = [], progress_made_this_loop = True\<rparr>"
  consider "tick_loop B call pkg False ?s = errorS Aborted"
    | progress s' where "tick_loop B call pkg False ?s = returnS (progress, s')" "tick_post B num call pkg channels False ?s progress s'"
    using tick_loop_post[of B num call pkg channels ?s False] assms by auto
  then show ?thesis
  proof cases
    case 2
    have "active_procs ?s = {..<length (net_procs net)}" by (simp add: active_procs_def)
    then have "\<forall>pin\<in>set (net_procs net). \<exists>ch\<in>set (blocked_channel_set s'). waits_on channels (net_manager net) pin ch" if "\<not> progress"
      using 2(2) that by (auto simp: tick_post_def in_set_conv_nth)
    then show ?thesis using 2 by (auto simp: TickInternal_def tick_post_def)
  qed (simp add: TickInternal_def)
qed

section \<open>Creating a network\<close>

text \<open>
  The queues of the user are fed with values of the channel's type. Initial values have the type of the channel, and only
  channels whose queue accepts values have them.
\<close>

definition channels_ok :: "channel list \<Rightarrow> channel_queue list \<Rightarrow> bool" where
  "channels_ok channels uqs \<longleftrightarrow> distinct (map channel_id channels) \<and> user_queues_valid uqs \<and>
     (\<forall>q\<in>set uqs. queue_channel q \<in> set channels \<and> values_typed q \<and> (accepts_sends q \<or> initial_values (queue_channel q) = [])) \<and>
     (\<forall>ch\<in>set channels. list_all (\<lambda>v. has_type v (channel_type ch)) (initial_values ch))"

lemma accepting_enqueue:
  assumes "values_typed q" and "accepts_sends q" and "has_type v (channel_type (queue_channel q))"
  shows "\<exists>q'. ChannelQueue_Enqueue v q = returnS q' \<and> values_typed q' \<and> accepts_sends q' \<and> queue_channel q' = queue_channel q"
proof (cases "queue_impl q")
  case (FifoQueue vs)
  obtain vs' where "Fifo_Enqueue (queue_channel q) v vs = returnS vs'" "vs' = vs @ [v]" using fifo.enqueue_end[OF assms(3)] by blast
  then show ?thesis using FifoQueue assms by (auto simp: ChannelQueue_Enqueue_def with_impl_def values_typed_def accepts_sends_def Let_def)
next
  case (SingleValueQueue w)
  have "Single_Enqueue (queue_channel q) v w = returnS (Some v)" using assms(3) by (simp add: Single_Enqueue_def ValueConformsToType_typed CHECK_def)
  then show ?thesis using SingleValueQueue assms by (auto simp: ChannelQueue_Enqueue_def with_impl_def values_typed_def accepts_sends_def Let_def)
qed (use assms in \<open>auto simp: accepts_sends_def\<close>)

lemma inject_values_ok:
  "values_typed q \<Longrightarrow> accepts_sends q \<or> vs = [] \<Longrightarrow> list_all (\<lambda>v. has_type v (channel_type (queue_channel q))) vs \<Longrightarrow>
   \<exists>q'. inject_values vs q = returnS q' \<and> values_typed q' \<and> (accepts_sends q \<longrightarrow> accepts_sends q') \<and> queue_channel q' = queue_channel q"
proof (induction vs arbitrary: q)
  case (Cons v vs)
  obtain q1 where q1: "ChannelQueue_Enqueue v q = returnS q1" "values_typed q1" "accepts_sends q1" "queue_channel q1 = queue_channel q"
    using accepting_enqueue[of q v] Cons.prems by auto
  then show ?case using Cons.IH[of q1] Cons.prems by auto
qed simp

lemma inject_channels_ok:
  "mgr_ok channels m \<Longrightarrow> set chs \<subseteq> set channels \<Longrightarrow> distinct (map channel_id chs) \<Longrightarrow>
   \<forall>ch\<in>set chs. list_all (\<lambda>v. has_type v (channel_type ch)) (initial_values ch) \<and>
     (\<exists>q. mgr_queues m (channel_id ch) = Some q \<and> (accepts_sends q \<or> initial_values ch = [])) \<Longrightarrow>
   \<exists>m'. inject_channels chs m = returnS m' \<and> mgr_ok channels m'"
proof (induction chs arbitrary: m)
  case (Cons ch chs)
  have ch: "ch \<in> set channels" and dist: "distinct (map channel_id channels)" using Cons.prems(1,2) by (auto simp: mgr_ok_def)
  then have get: "GetChannel channels (channel_id ch) = Inr ch" by (simp add: GetChannel_def find_key_Some)
  obtain q where q: "mgr_queues m (channel_id ch) = Some q" "accepts_sends q \<or> initial_values ch = []" using Cons.prems(4) by auto
  have ok: "queue_ok ch q" using Cons.prems(1) ch q(1) by (auto simp: mgr_ok_def manager_ok_def)
  then obtain q' where q': "inject_values (initial_values ch) q = returnS q'" "values_typed q'" "accepts_sends q \<longrightarrow> accepts_sends q'" "queue_channel q' = ch"
    using inject_values_ok[of q "initial_values ch"] q(2) Cons.prems(4) by (auto simp: queue_ok_def)
  then have "queue_ok ch q'" using ok by (auto simp: queue_ok_def)
  then have "mgr_ok channels (set_queue (channel_id ch) q' m)" using set_queue_ok[OF Cons.prems(1) get] by blast
  moreover have "mgr_queues (set_queue (channel_id ch) q' m) (channel_id c) = mgr_queues m (channel_id c)" if "c \<in> set chs" for c
    using Cons.prems(3) imageI[OF that, of channel_id] by (auto simp: set_queue_def)
  ultimately have "\<exists>m'. inject_channels chs (set_queue (channel_id ch) q' m) = returnS m' \<and> mgr_ok channels m'"
    using Cons.prems by (intro Cons.IH) auto
  then show ?case using q(1) q'(1) by simp
qed simp

lemma Create_manager_ok:
  assumes "channels_ok channels uqs"
  shows "\<exists>m. ChannelQueueManager_Create uqs channels = Inr m \<and> mgr_ok channels m \<and>
    (\<forall>ch\<in>set channels. \<exists>q. mgr_queues m (channel_id ch) = Some q \<and> (accepts_sends q \<or> initial_values ch = []))"
proof -
  have dist: "distinct (map channel_id channels)" and valid: "user_queues_valid uqs" using assms by (simp_all add: channels_ok_def)
  obtain m where m: "ChannelQueueManager_Create uqs channels = Inr m" "mgr_channels m = channels"
      "\<forall>q\<in>set uqs. mgr_queues m (queue_id q) = Some q"
      "\<forall>ch\<in>set channels. channel_id ch \<notin> queue_id ` set uqs \<longrightarrow> mgr_queues m (channel_id ch) = Some (new_queue ch) \<and> ChannelQueue_empty (new_queue ch)"
    using queue_manager_spec[OF dist, of uqs] valid by blast
  have "\<exists>q. mgr_queues m (channel_id ch) = Some q \<and> queue_ok ch q \<and> (accepts_sends q \<or> initial_values ch = [])" if ch: "ch \<in> set channels" for ch
  proof (cases "channel_id ch \<in> queue_id ` set uqs")
    case True
    then obtain q where q: "q \<in> set uqs" "queue_id q = channel_id ch" by auto
    have "queue_channel q = ch" using assms q ch dist by (auto simp: channels_ok_def distinct_map dest: inj_onD)
    moreover have "\<not> Channel_CanSend ch" using valid q(1) \<open>queue_channel q = ch\<close>
      by (auto simp: user_queues_valid_def list_all_iff Channel_CanSend_def)
    ultimately show ?thesis using assms q m(3) by (auto simp: channels_ok_def queue_ok_def)
  next
    case False
    have "queue_ok ch (new_queue ch)" "accepts_sends (new_queue ch)"
      by (simp_all add: queue_ok_def new_queue_def values_typed_def accepts_sends_def)
    then show ?thesis using m(4) ch False by auto
  qed
  then show ?thesis using m(1,2) dist by (intro exI[of _ m]) (auto simp: mgr_ok_def manager_ok_def)
qed

lemma ProcInterpreter_new_ok:
  assumes "verified_proc pkg channels p"
  shows "\<exists>pin. ProcInterpreter_new p = Some pin \<and> pi_proc pin = p \<and> pin_ok pin"
proof -
  obtain ns where "TopoSort (proc_base p) None = Some ns" "topological (proc_base p) {} ns" "set ns = node_ids (proc_base p)"
    using TopoSort_spec[OF verified_proc_linked(1)[OF assms], of None] verified_proc_linked(2)[OF assms] by blast
  then show ?thesis by (auto simp: ProcInterpreter_new_def pin_ok_def)
qed

lemma Create_net_ok:
  assumes procs: "\<forall>p\<in>set procs. proc_env B num call pkg channels p" and chans: "channels_ok channels uqs"
  shows "\<exists>net. ProcNetworkInterpreter_Create procs channels uqs = returnS net \<and> net_ok B num call pkg channels net \<and> map pi_proc (net_procs net) = procs"
proof -
  obtain m where m: "ChannelQueueManager_Create uqs channels = Inr m" "mgr_ok channels m"
      "\<forall>ch\<in>set channels. \<exists>q. mgr_queues m (channel_id ch) = Some q \<and> (accepts_sends q \<or> initial_values ch = [])"
    using Create_manager_ok[OF chans] by blast
  obtain m' where m': "inject_channels channels m = returnS m'" "mgr_ok channels m'"
    using inject_channels_ok[OF m(2), of channels] chans m(3) by (auto simp: channels_ok_def)
  have "\<exists>pins. those (map ProcInterpreter_new ps) = Some pins \<and> map pi_proc pins = ps \<and> (\<forall>pin\<in>set pins. pin_ok pin)" if "set ps \<subseteq> set procs" for ps
    using that
  proof (induction ps)
    case (Cons p ps)
    then obtain pin where "ProcInterpreter_new p = Some pin" "pi_proc pin = p" "pin_ok pin"
      using ProcInterpreter_new_ok[of pkg channels p] procs by (auto simp: proc_env_def)
    then show ?case using Cons by auto
  qed simp
  then obtain pins where pins: "those (map ProcInterpreter_new procs) = Some pins" "map pi_proc pins = procs" "\<forall>pin\<in>set pins. pin_ok pin" by blast
  then have "\<forall>pin\<in>set pins. proc_env B num call pkg channels (pi_proc pin)" using procs by auto
  then show ?thesis using m(1) m' pins by (auto simp: ProcNetworkInterpreter_Create_def net_ok_def)
qed

section \<open>Running a network\<close>

primrec ticks :: "'b bn_api \<Rightarrow> interp_call \<Rightarrow> ir_package \<Rightarrow> nat \<Rightarrow> network \<Rightarrow> network statusor option" where
  "ticks B call pkg 0 net = returnS net"
| "ticks B call pkg (Suc k) net = bindS (Tick B call pkg net) (ticks B call pkg k)"

text \<open>
  The two ways in which a tick of a well typed network fails: an assertion of a proc fails, or no proc can make progress
  because each of them waits at a receive from an empty queue.
\<close>

definition deadlocked :: "'b bn_api \<Rightarrow> interp_call \<Rightarrow> ir_package \<Rightarrow> channel list \<Rightarrow> network \<Rightarrow> bool" where
  "deadlocked B call pkg channels net \<longleftrightarrow> (\<exists>blocked. TickInternal B call pkg net = returnS (False, blocked, net) \<and>
     (\<forall>pin\<in>set (net_procs net). \<exists>ch\<in>set blocked. waits_on channels (net_manager net) pin ch))"

definition stops_with :: "'b bn_api \<Rightarrow> interp_call \<Rightarrow> ir_package \<Rightarrow> channel list \<Rightarrow> network \<Rightarrow> status \<Rightarrow> bool" where
  "stops_with B call pkg channels net e \<longleftrightarrow>
     e = Aborted \<and> TickInternal B call pkg net = errorS Aborted \<or> e = Internal \<and> deadlocked B call pkg channels net"

lemma Tick_ok:
  assumes "net_ok B num call pkg channels net"
  shows "(\<exists>e. Tick B call pkg net = errorS e \<and> stops_with B call pkg channels net e) \<or>
    (\<exists>net'. Tick B call pkg net = returnS net' \<and> net_ok B num call pkg channels net' \<and> map pi_proc (net_procs net') = map pi_proc (net_procs net))"
proof -
  consider "TickInternal B call pkg net = errorS Aborted"
    | progress blocked net' where "TickInternal B call pkg net = returnS (progress, blocked, net')" "net_ok B num call pkg channels net'"
        "map pi_proc (net_procs net') = map pi_proc (net_procs net)"
        "\<not> progress \<longrightarrow> net' = net \<and> (\<forall>pin\<in>set (net_procs net). \<exists>ch\<in>set blocked. waits_on channels (net_manager net) pin ch)"
    using TickInternal_ok[OF assms] by blast
  then show ?thesis by cases (auto simp: Tick_def stops_with_def deadlocked_def)
qed

text \<open>Ticks go on until one of them fails in one of these two ways.\<close>

lemma ticks_ok:
  "net_ok B num call pkg channels net \<Longrightarrow>
   (\<exists>net'. ticks B call pkg k net = returnS net' \<and> net_ok B num call pkg channels net' \<and> map pi_proc (net_procs net') = map pi_proc (net_procs net)) \<or>
   (\<exists>j<k. \<exists>net' e. ticks B call pkg j net = returnS net' \<and> stops_with B call pkg channels net' e \<and> ticks B call pkg k net = errorS e)"
proof (induction k arbitrary: net)
  case (Suc k)
  from Tick_ok[OF Suc.prems] consider e where "Tick B call pkg net = errorS e" "stops_with B call pkg channels net e"
    | net1 where "Tick B call pkg net = returnS net1" "net_ok B num call pkg channels net1" "map pi_proc (net_procs net1) = map pi_proc (net_procs net)"
    by blast
  then show ?case
  proof cases
    case 1
    then have "ticks B call pkg 0 net = returnS net \<and> stops_with B call pkg channels net e \<and> ticks B call pkg (Suc k) net = errorS e" by simp
    then show ?thesis by blast
  next
    case 2
    have "ticks B call pkg (Suc j) net = ticks B call pkg j net1" for j using 2(1) by simp
    then show ?thesis using Suc.IH[OF 2(2)] 2(3) by (metis Suc_mono)
  qed
qed simp

definition has_output :: "(channel \<times> int) list \<Rightarrow> network \<Rightarrow> bool" where
  "has_output counts net \<longleftrightarrow>
     list_all (\<lambda>(ch, c). case mgr_queues (net_manager net) (channel_id ch) of None \<Rightarrow> False | Some q \<Rightarrow> c \<le> int (ChannelQueue_size q)) counts"

lemma needs_more_output_eq:
  assumes "net_ok B num call pkg channels net" and "fst ` set counts \<subseteq> set channels"
  shows "needs_more_output counts net = Some (\<not> has_output counts net)"
proof -
  let ?g = "\<lambda>(ch, k). map_option (\<lambda>q. int (ChannelQueue_size q) < k) (mgr_queues (net_manager net) (channel_id ch))"
  have "\<exists>bs. those (map ?g cs) = Some bs \<and> ((\<exists>b\<in>set bs. b) \<longleftrightarrow> \<not> has_output cs net)" if "fst ` set cs \<subseteq> set channels" for cs
    using that
  proof (induction cs)
    case (Cons c cs)
    then obtain q where q: "mgr_queues (net_manager net) (channel_id (fst c)) = Some q"
      using assms(1) by (fastforce simp: net_ok_def mgr_ok_def manager_ok_def)
    have "fst ` set cs \<subseteq> set channels" using Cons.prems by simp
    then obtain bs where bs: "those (map ?g cs) = Some bs" "(\<exists>b\<in>set bs. b) \<longleftrightarrow> \<not> has_output cs net" using Cons.IH by blast
    have "has_output (c # cs) net \<longleftrightarrow> snd c \<le> int (ChannelQueue_size q) \<and> has_output cs net"
      using q by (simp add: has_output_def split_beta)
    then have "(\<exists>b\<in>set ((int (ChannelQueue_size q) < snd c) # bs). b) \<longleftrightarrow> \<not> has_output (c # cs) net"
      using bs(2) by (simp add: not_le)
    moreover have "those (map ?g (c # cs)) = Some ((int (ChannelQueue_size q) < snd c) # bs)"
      using q bs(1) by (simp add: split_beta)
    ultimately show ?case by blast
  qed (simp add: has_output_def)
  from this[OF assms(2)] obtain bs where bs: "those (map ?g counts) = Some bs" "(\<exists>b\<in>set bs. b) \<longleftrightarrow> \<not> has_output counts net" by blast
  show ?thesis unfolding needs_more_output_def bs(1) bind.bind_lunit bs(2) ..
qed

text \<open>With a limit the two loops return after at most that many ticks.\<close>

lemma until_output_step:
  assumes "net_ok B num call pkg channels net" and "fst ` set counts \<subseteq> set channels"
  shows "tick_until_output_loop B call pkg counts (Some k) t net =
    (if has_output counts net then returnS (t, net) else if k \<le> t then errorS DeadlineExceeded
     else bindS (Tick B call pkg net) (\<lambda>net. tick_until_output_loop B call pkg counts (Some k) (t + 1) net))"
  using needs_more_output_eq[OF assms] by (subst tick_until_output_loop.simps)
    (auto simp: bindS_def returnS_def errorS_def intro!: Option.bind_cong split: sum.splits)

text \<open>How the loop ends after \<open>j\<close> more ticks, with the network \<open>net'\<close>.\<close>

definition output_end ::
    "'b bn_api \<Rightarrow> interp_call \<Rightarrow> ir_package \<Rightarrow> channel list \<Rightarrow> (channel \<times> int) list \<Rightarrow> int \<Rightarrow> int \<Rightarrow> network \<Rightarrow> (int \<times> network) statusor option \<Rightarrow> bool" where
  "output_end B call pkg channels counts max_ticks t net r \<longleftrightarrow>
     has_output counts net \<and> r = returnS (t, net) \<or>
     \<not> has_output counts net \<and> max_ticks \<le> t \<and> r = errorS DeadlineExceeded \<or>
     \<not> has_output counts net \<and> t < max_ticks \<and> (\<exists>e. stops_with B call pkg channels net e \<and> r = errorS e)"

lemma until_output_bounded:
  "net_ok B num call pkg channels net \<Longrightarrow> fst ` set counts \<subseteq> set channels \<Longrightarrow>
   \<exists>j net'. ticks B call pkg j net = returnS net' \<and> net_ok B num call pkg channels net' \<and> t + int j \<le> max t k \<and>
     (\<forall>i<j. \<exists>net_i. ticks B call pkg i net = returnS net_i \<and> \<not> has_output counts net_i) \<and>
     output_end B call pkg channels counts k (t + int j) net' (tick_until_output_loop B call pkg counts (Some k) t net)"
proof (induction "nat (k - t)" arbitrary: t net)
  case 0
  then show ?case by (intro exI[of _ 0] exI[of _ net]) (auto simp: output_end_def until_output_step)
next
  case (Suc d)
  note step = until_output_step[OF Suc.prems]
  from Tick_ok[OF Suc.prems(1)] consider "has_output counts net"
    | e where "\<not> has_output counts net" "Tick B call pkg net = errorS e" "stops_with B call pkg channels net e"
    | net1 where "\<not> has_output counts net" "Tick B call pkg net = returnS net1" "net_ok B num call pkg channels net1" by blast
  then show ?case
  proof cases
    case 3
    have "d = nat (k - (t + 1))" and tk: "t < k" using Suc.hyps(2) by simp_all
    from Suc.hyps(1)[OF this(1) 3(3) Suc.prems(2)] obtain j net' where ih:
      "ticks B call pkg j net1 = returnS net'" "net_ok B num call pkg channels net'" "t + 1 + int j \<le> max (t + 1) k"
      "\<forall>i<j. \<exists>net_i. ticks B call pkg i net1 = returnS net_i \<and> \<not> has_output counts net_i"
      "output_end B call pkg channels counts k (t + 1 + int j) net' (tick_until_output_loop B call pkg counts (Some k) (t + 1) net1)" by blast
    have "tick_until_output_loop B call pkg counts (Some k) t net = tick_until_output_loop B call pkg counts (Some k) (t + 1) net1"
      using step 3 tk by simp
    moreover have "\<exists>net_i. ticks B call pkg i net = returnS net_i \<and> \<not> has_output counts net_i" if "i < Suc j" for i
      using ih(4) 3 that by (cases i) auto
    ultimately show ?thesis using ih 3(2) tk by (intro exI[of _ "Suc j"] exI[of _ net']) (simp add: add.assoc)
  qed (use step Suc.hyps(2) Suc.prems in \<open>auto intro!: exI[of _ "0::nat"] exI[of _ net] simp: output_end_def\<close>)
qed

lemma until_blocked_bounded:
  "net_ok B num call pkg channels net \<Longrightarrow> 0 \<le> t \<Longrightarrow>
   tick_until_blocked_loop B call pkg (Some k) t net \<in> {errorS Aborted, errorS DeadlineExceeded} \<or>
   (\<exists>t' net'. tick_until_blocked_loop B call pkg (Some k) t net = returnS (t', net') \<and> t \<le> t' \<and> t' < k \<and>
      (\<forall>pin\<in>set (net_procs net'). \<exists>ch. waits_on channels (net_manager net') pin ch))"
proof (induction "nat (k - t)" arbitrary: t net)
  case 0
  then show ?case by (subst (1 2) tick_until_blocked_loop.simps) (auto simp: errorS_def)
next
  case (Suc d)
  have loop: "tick_until_blocked_loop B call pkg (Some k) t net = bindS (TickInternal B call pkg net) (\<lambda>(progress, blocked, net).
      if progress then tick_until_blocked_loop B call pkg (Some k) (t + 1) net else returnS (t, net))"
    using Suc.hyps(2) by (subst tick_until_blocked_loop.simps)
      (auto simp: bindS_def returnS_def intro!: Option.bind_cong split: sum.splits)
  from TickInternal_ok[OF Suc.prems(1)] consider "TickInternal B call pkg net = errorS Aborted"
    | progress blocked net1 where "TickInternal B call pkg net = returnS (progress, blocked, net1)" "net_ok B num call pkg channels net1"
        "\<not> progress \<longrightarrow> net1 = net \<and> (\<forall>pin\<in>set (net_procs net). \<exists>ch\<in>set blocked. waits_on channels (net_manager net) pin ch)" by blast
  then show ?case
  proof cases
    case 1
    then show ?thesis using loop by simp
  next
    case 2
    show ?thesis
    proof (cases progress)
      case True
      have "d = nat (k - (t + 1))" using Suc.hyps(2) by simp
      then show ?thesis using Suc.hyps(1)[of "t + 1" net1] 2(1,2) Suc.prems(2) loop True by fastforce
    next
      case False
      then show ?thesis using loop 2 Suc.hyps(2) by auto
    qed
  qed
qed

lemma output_checks:
  "seq_ok (map (\<lambda>(ch, k). seq_ok [error_if (supported_ops ch \<noteq> kSendOnly) InvalidArgument,
      error_if (ch_kind ch = kSingleValue \<and> k > 1) InvalidArgument]) counts) =
    (if \<exists>(ch, c)\<in>set counts. supported_ops ch \<noteq> kSendOnly \<or> ch_kind ch = kSingleValue \<and> 1 < c then errorS InvalidArgument else returnS ())"
  by (induction counts) (auto simp: error_if_def seq_ok.simps split: if_splits)

section \<open>An example network\<close>

text \<open>A proc that adds what it receives to its state and sends the sum.\<close>

definition in_channel :: channel where
  "in_channel = \<lparr>channel_id = 0, channel_name = ''in'', supported_ops = kReceiveOnly, ch_kind = kStreaming, channel_type = BitsType 8, initial_values = []\<rparr>"

definition out_channel :: channel where
  "out_channel = \<lparr>channel_id = 1, channel_name = ''out'', supported_ops = kSendOnly, ch_kind = kStreaming, channel_type = BitsType 8, initial_values = []\<rparr>"

definition accumulator :: ir_proc where
  "accumulator = \<lparr>proc_base = \<lparr>fn_nodes =
       [(0, mk_node Param [] TokenType 1 ''tkn''),
        (1, mk_node Param [] (BitsType 8) 2 ''st''),
        (2, mk_node (Receive 0 True) [0] (TupleType [TokenType, BitsType 8]) 3 ''rcv''),
        (3, mk_node (TupleIndex 0) [2] TokenType 4 ''rcv_tkn''),
        (4, mk_node (TupleIndex 1) [2] (BitsType 8) 5 ''rcv_data''),
        (5, mk_node (BinOp Op_Add) [1, 4] (BitsType 8) 6 ''sum''),
        (6, mk_node (Send 1) [3, 5] TokenType 7 ''snd'')],
       fn_params = [0, 1], fn_return = 6\<rparr>,
     InitValues = [VBits (Bits_FromSpan (replicate 8 False))], NextToken = 6, NextState = [5]\<rparr>"

definition input_queue :: "bool list list \<Rightarrow> channel_queue" where
  "input_queue vs = \<lparr>queue_channel = in_channel, queue_impl = FixedQueue (map (\<lambda>bs. VBits (Bits_FromSpan bs)) vs)\<rparr>"

lemmas network_defs = accumulator_def in_channel_def out_channel_def mk_node_def

lemma accumulator_VerifyProc: "VerifyProc [] [in_channel, out_channel] accumulator = returnS ()"
  by code_simp

lemma accumulator_env: "proc_env int_bn (\<lambda>x. x) call [] [in_channel, out_channel] accumulator"
proof -
  have "list_all (\<lambda>(n, nd). proc_interpretable [] (proc_base accumulator) nd) (fn_nodes (proc_base accumulator))"
    by (simp add: proc_interpretable_def interpretable_def interpretable_op_def has_result_def sets_value_def read_operands_def GetNode_def network_defs)
  moreover have "\<exists>t. has_type (VBits (Bits_FromSpan (replicate 8 False))) t" by (rule exI[of _ "BitsType 8"]) (simp add: Bits_FromSpan_typed)
  moreover have "distinct (map fst (fn_nodes (proc_base accumulator)))" "list_all (has_result (proc_base accumulator)) (NextState accumulator)"
    by (simp_all add: network_defs has_result_def sets_value_def GetNode_def)
  moreover have "InitValues accumulator = [VBits (Bits_FromSpan (replicate 8 False))]" by (simp add: accumulator_def)
  ultimately have "verified_proc [] [in_channel, out_channel] accumulator"
    using accumulator_VerifyProc by (simp add: verified_proc_def del: has_type_iff)
  moreover have "\<forall>(n, nd)\<in>set (fn_nodes (proc_base accumulator)). callees nd = []" by (simp add: network_defs callees_def)
  ultimately show ?thesis using int_bignum.bignum_axioms by (auto simp: proc_env_def)
qed

lemma example_channels_ok: "\<forall>bs\<in>set vs. length bs = 8 \<Longrightarrow> channels_ok [in_channel, out_channel] [input_queue vs]"
  by (auto simp: channels_ok_def user_queues_valid_def input_queue_def values_typed_def IsSingleValueChannelQueue_def list_all_iff
      network_defs Bits_FromSpan_typed)

section \<open>Properties\<close>

text \<open>The procs of a package whose functions and procs the verifier accepts. \<open>depth\<close> bounds the depth of the calls from procs.\<close>

definition verified_network :: "ir_package \<Rightarrow> channel list \<Rightarrow> (nat \<Rightarrow> nat) \<Rightarrow> nat \<Rightarrow> ir_proc list \<Rightarrow> bool" where
  "verified_network pkg channels rank depth procs \<longleftrightarrow> verified_package pkg channels \<and> calls_ranked pkg rank \<and>
     list_all (\<lambda>p. verified_proc pkg channels p \<and>
       list_all (\<lambda>(n, nd). list_all (\<lambda>g. g < length pkg \<and> rank g < depth) (callees nd)) (fn_nodes (proc_base p))) procs"

lemma verified_network_env:
  assumes B: "bignum B num" and net: "verified_network pkg channels rank depth procs" and p: "p \<in> set procs"
  shows "proc_env B num (InterpretFunction B depth pkg) pkg channels p"
proof -
  have "\<exists>fn. at_opt pkg g = Some fn \<and> call_sound (InterpretFunction B depth pkg) fn"
    if g: "(n, nd) \<in> set (fn_nodes (proc_base p))" "g \<in> set (callees nd)" for n nd g
  proof -
    have "list_all (\<lambda>(n, nd). list_all (\<lambda>g. g < length pkg \<and> rank g < depth) (callees nd)) (fn_nodes (proc_base p))"
      using net p by (simp add: verified_network_def list_all_iff)
    then have "list_all (\<lambda>g. g < length pkg \<and> rank g < depth) (callees nd)" using g(1) unfolding list_all_iff by fast
    then have "g < length pkg" "rank g < depth" "verified_package pkg channels" "calls_ranked pkg rank"
      using net g(2) by (simp_all add: verified_network_def list_all_iff)
    then show ?thesis using InterpretFunction_sound[OF B] by (auto simp: at_opt_def)
  qed
  then show ?thesis using B net p by (auto simp: proc_env_def verified_network_def list_all_iff)
qed

text \<open>C2: A verified network of procs runs. The network is created from procs and functions that the verifier accepts (and whose
  nodes are interpretable) and queues that hold values of their channels' types, and starts well typed. Any number of ticks
  returns: either the network after them, in which every node value, state element and queued value still has its type, or
  the error of an earlier tick, which is \<open>Aborted\<close> if an assertion fails in that tick, and \<open>Internal\<close> only if that
  tick makes no progress and every proc waits at a receive from an empty queue. No other error, no abort and no endless run is possible.\<close>

theorem verified_network_runs:
  assumes "bignum B num" and "verified_network pkg channels rank depth procs" and "channels_ok channels user_queues"
  defines "call \<equiv> InterpretFunction B depth pkg"
  shows "\<exists>net. ProcNetworkInterpreter_Create procs channels user_queues = returnS net \<and>
    net_ok B num call pkg channels net \<and> map pi_proc (net_procs net) = procs \<and>
    (\<forall>k. (\<exists>net'. ticks B call pkg k net = returnS net' \<and> net_ok B num call pkg channels net' \<and> map pi_proc (net_procs net') = procs) \<or>
      (\<exists>j<k. \<exists>net'. ticks B call pkg j net = returnS net' \<and>
        (TickInternal B call pkg net' = errorS Aborted \<and> ticks B call pkg k net = errorS Aborted \<or>
         deadlocked B call pkg channels net' \<and> ticks B call pkg k net = errorS Internal)))"
proof -
  obtain net where net: "ProcNetworkInterpreter_Create procs channels user_queues = returnS net"
      "net_ok B num call pkg channels net" "map pi_proc (net_procs net) = procs"
    using Create_net_ok[OF _ assms(3)] verified_network_env[OF assms(1,2)] unfolding call_def by blast
  show ?thesis
  proof (intro exI[of _ net] conjI allI net)
    fix k
    show "(\<exists>net'. ticks B call pkg k net = returnS net' \<and> net_ok B num call pkg channels net' \<and> map pi_proc (net_procs net') = procs) \<or>
      (\<exists>j<k. \<exists>net'. ticks B call pkg j net = returnS net' \<and>
        (TickInternal B call pkg net' = errorS Aborted \<and> ticks B call pkg k net = errorS Aborted \<or>
         deadlocked B call pkg channels net' \<and> ticks B call pkg k net = errorS Internal))"
      using ticks_ok[OF net(2), of k] net(3) unfolding stops_with_def by blast
  qed
qed

lemma example_verified_network: "verified_network [] [in_channel, out_channel] (\<lambda>_. 0) 1 [accumulator]"
  using accumulator_env[of "\<lambda>_ _. None"]
  by (simp add: verified_network_def proc_env_def verified_package_def calls_ranked_def network_defs callees_def)

theorem verified_network_runs_witness:
  "\<exists>net. ProcNetworkInterpreter_Create [accumulator] [in_channel, out_channel] [input_queue [replicate 8 True]] = returnS net \<and>
    (\<forall>k. (\<exists>net'. ticks int_bn (InterpretFunction int_bn 1 []) [] k net = returnS net' \<and> map pi_proc (net_procs net') = [accumulator]) \<or>
      (\<exists>j<k. \<exists>net'. ticks int_bn (InterpretFunction int_bn 1 []) [] j net = returnS net' \<and>
        (TickInternal int_bn (InterpretFunction int_bn 1 []) [] net' = errorS Aborted \<or>
         deadlocked int_bn (InterpretFunction int_bn 1 []) [] [in_channel, out_channel] net')))"
  using verified_network_runs[OF int_bignum.bignum_axioms example_verified_network example_channels_ok, of "[replicate 8 True]"]
  by (simp, meson)

text \<open>C3: One tick ends. From a network whose procs are verified and whose state is well typed, \<open>TickInternal\<close> either reports a
  failed assertion, or returns and leaves a well typed network with the same procs. If it makes no progress, then nothing has
  changed, every proc waits at a receive on one of the reported channels, and the queues of the reported channels, listed in
  the order of their identifiers, are empty.\<close>

theorem network_tick_outcome:
  assumes "net_ok B num call pkg channels net"
  shows "TickInternal B call pkg net = errorS Aborted \<or>
    (\<exists>progress blocked net'. TickInternal B call pkg net = returnS (progress, blocked, net') \<and> net_ok B num call pkg channels net' \<and>
       map pi_proc (net_procs net') = map pi_proc (net_procs net) \<and>
       (\<not> progress \<longrightarrow> net' = net \<and> sorted (map channel_id blocked) \<and>
          (\<forall>pin\<in>set (net_procs net). \<exists>ch\<in>set blocked. waits_on channels (net_manager net) pin ch) \<and>
          (\<forall>ch\<in>set blocked. queue_empty (net_manager net) ch)))"
  using TickInternal_ok[OF assms] .

definition example_network :: network where
  "example_network = (case ProcNetworkInterpreter_Create [accumulator] [in_channel, out_channel] [input_queue []] of
     Some (Inr net) \<Rightarrow> net | _ \<Rightarrow> \<lparr>net_procs = [], net_manager = \<lparr>mgr_channels = [], mgr_queues = Map.empty, queue_vec = []\<rparr>\<rparr>)"

lemma example_net_ok:
  "net_ok int_bn (\<lambda>x. x) (InterpretFunction int_bn 1 []) [] [in_channel, out_channel] example_network"
  "map pi_proc (net_procs example_network) = [accumulator]"
proof -
  obtain net where "ProcNetworkInterpreter_Create [accumulator] [in_channel, out_channel] [input_queue []] = returnS net"
      "net_ok int_bn (\<lambda>x. x) (InterpretFunction int_bn 1 []) [] [in_channel, out_channel] net" "map pi_proc (net_procs net) = [accumulator]"
    using Create_net_ok[OF _ example_channels_ok[of "[]"], of "[accumulator]" int_bn "\<lambda>x. x" "InterpretFunction int_bn 1 []" "[]"]
      accumulator_env by (metis empty_iff list.set(1,2) insert_iff)
  then show "net_ok int_bn (\<lambda>x. x) (InterpretFunction int_bn 1 []) [] [in_channel, out_channel] example_network"
    "map pi_proc (net_procs example_network) = [accumulator]" by (simp_all add: example_network_def returnS_def)
qed

theorem network_tick_outcome_witness:
  "TickInternal int_bn (InterpretFunction int_bn 1 []) [] example_network = errorS Aborted \<or>
   (\<exists>progress blocked net'. TickInternal int_bn (InterpretFunction int_bn 1 []) [] example_network = returnS (progress, blocked, net') \<and>
      map pi_proc (net_procs net') = [accumulator])"
  using network_tick_outcome[OF example_net_ok(1)] example_net_ok(2) by metis

text \<open>C14: The state machine of one proc. For a verified proc, a run of \<open>RunIterationUntilCompleteOrBlocked\<close> returns (unless an
  assertion failed), and the three ways in which the code tells a finished iteration agree: the flag in the result, the
  test \<open>IsIterationComplete\<close> that decides whether the next run starts a new iteration or resumes this one, and that no
  channel is reported as blocked. The iteration is finished exactly when every node was executed, and only then counted.\<close>

theorem proc_iteration_consistent:
  assumes "proc_env B num call pkg channels (pi_proc pin)" and "pin_ok pin" and "mgr_ok channels m"
  shows "RunIterationUntilCompleteOrBlocked B call pkg pin m = errorS Aborted \<or>
    (\<exists>res pin' m' v. RunIterationUntilCompleteOrBlocked B call pkg pin m = returnS (res, pin', m') \<and> pin_ok pin' \<and> mgr_ok channels m' \<and>
       pi_proc pin' = pi_proc pin \<and> pi_visitor pin' = Some v \<and>
       (iteration_complete res \<longleftrightarrow> IsIterationComplete pin') \<and>
       (iteration_complete res \<longleftrightarrow> blocked_channels res = []) \<and>
       (iteration_complete res \<longleftrightarrow> pv_visited v = node_ids (proc_base (pi_proc pin))) \<and>
       current_iteration pin' = current_iteration pin + (if iteration_complete res then 1 else 0))"
proof (cases "RunIterationUntilCompleteOrBlocked B call pkg pin m = errorS Aborted")
  case False
  obtain res pin' m' left where run: "RunIterationUntilCompleteOrBlocked B call pkg pin m = returnS (res, pin', m')"
      and post: "run_post channels pin m left res pin' m'" using Run_ok[OF assms] False by blast
  then obtain v where v: "pi_visitor pin' = Some v" "left = node_ids (proc_base (pi_proc pin)) - pv_visited v" by (auto simp: run_post_def)
  have "pv_visited v \<subseteq> node_ids (proc_base (pi_proc pin))" using post v(1) by (auto simp: run_post_def pin_ok_def visitor_ok_def)
  then have "left = {} \<longleftrightarrow> pv_visited v = node_ids (proc_base (pi_proc pin))" using v(2) by auto
  then show ?thesis using run post v(1) by (auto simp: run_post_def)
qed simp

theorem proc_iteration_consistent_witness:
  "\<exists>pin. ProcInterpreter_new accumulator = Some pin \<and>
    (let r = RunIterationUntilCompleteOrBlocked int_bn (\<lambda>_ _. None) [] pin (net_manager example_network) in
     r = errorS Aborted \<or> (\<exists>res pin' m'. r = returnS (res, pin', m') \<and> (iteration_complete res \<longleftrightarrow> IsIterationComplete pin')))"
proof -
  have env: "proc_env int_bn (\<lambda>x. x) (\<lambda>_ _. None) [] [in_channel, out_channel] accumulator" by (rule accumulator_env)
  then obtain pin where pin: "ProcInterpreter_new accumulator = Some pin" "pi_proc pin = accumulator" "pin_ok pin"
    using ProcInterpreter_new_ok[of "[]" "[in_channel, out_channel]" accumulator] by (auto simp: proc_env_def)
  have "mgr_ok [in_channel, out_channel] (net_manager example_network)" using example_net_ok(1) by (simp add: net_ok_def)
  from proc_iteration_consistent[OF _ pin(3) this, of int_bn "\<lambda>x. x" "\<lambda>_ _. None" "[]"] env pin(1,2) show ?thesis
    unfolding Let_def by metis
qed

text \<open>C16: \<open>TickUntilOutput\<close> with a limit, on a well typed network and channels of it. A request for a channel that is not
  send-only, or for several values of a single-value channel, is refused with \<open>InvalidArgument\<close>. Any other call ends after \<open>n\<close>
  ticks, where \<open>n\<close> is at most the limit (none, for a negative limit) and no earlier network had the requested output: it returns
  \<open>n\<close> and the network after these ticks if every channel of it holds the requested number of values; otherwise it reports
  \<open>DeadlineExceeded\<close> if the limit is reached, and below the limit the error of the next tick, which is \<open>Aborted\<close> for a
  failed assertion and \<open>Internal\<close> for a deadlock.\<close>

theorem tick_until_output_bounded:
  fixes max_ticks :: int
  assumes "net_ok B num call pkg channels net" and "fst ` set output_counts \<subseteq> set channels"
  defines "r \<equiv> TickUntilOutput B call pkg output_counts (Some max_ticks) net"
  shows "if \<exists>(ch, c)\<in>set output_counts. supported_ops ch \<noteq> kSendOnly \<or> ch_kind ch = kSingleValue \<and> 1 < c
    then r = errorS InvalidArgument
    else \<exists>n net'. ticks B call pkg n net = returnS net' \<and> net_ok B num call pkg channels net' \<and> int n \<le> max 0 max_ticks \<and>
      (\<forall>i<n. \<exists>net_i. ticks B call pkg i net = returnS net_i \<and> \<not> has_output output_counts net_i) \<and>
      (if has_output output_counts net' then r = returnS (int n, net')
       else if max_ticks \<le> int n then r = errorS DeadlineExceeded
       else r = errorS Aborted \<and> TickInternal B call pkg net' = errorS Aborted \<or>
         r = errorS Internal \<and> deadlocked B call pkg channels net')"
proof (cases "\<exists>(ch, c)\<in>set output_counts. supported_ops ch \<noteq> kSendOnly \<or> ch_kind ch = kSingleValue \<and> 1 < c")
  case True
  then show ?thesis by (simp add: r_def TickUntilOutput_def output_checks)
next
  case False
  then have "r = tick_until_output_loop B call pkg output_counts (Some max_ticks) 0 net"
    by (simp add: r_def TickUntilOutput_def output_checks)
  then obtain n net' where fin: "ticks B call pkg n net = returnS net'" "net_ok B num call pkg channels net'" "int n \<le> max 0 max_ticks"
      "\<forall>i<n. \<exists>net_i. ticks B call pkg i net = returnS net_i \<and> \<not> has_output output_counts net_i"
      "output_end B call pkg channels output_counts max_ticks (int n) net' r"
    using until_output_bounded[OF assms(1,2), of 0 max_ticks] by auto
  show ?thesis unfolding if_not_P[OF False]
    by (intro exI[of _ n] exI[of _ net'] conjI fin) (use fin(5) in \<open>auto simp: output_end_def stops_with_def\<close>)
qed

theorem tick_until_output_bounded_witness:
  "TickUntilOutput int_bn (InterpretFunction int_bn 1 []) [] [(in_channel, 1)] (Some 3) example_network = errorS InvalidArgument \<and>
   TickUntilOutput int_bn (InterpretFunction int_bn 1 []) [] [(out_channel, 1)] (Some (- 1)) example_network = errorS DeadlineExceeded"
proof -
  have no: "\<not> has_output [(out_channel, 1)] example_network" by code_simp
  show ?thesis
    using tick_until_output_bounded[OF example_net_ok(1), of "[(in_channel, 1)]" 3]
      tick_until_output_bounded[OF example_net_ok(1), of "[(out_channel, 1)]" "- 1"] no
    by (simp add: in_channel_def out_channel_def)
qed

end
