(* ===== verification/Xls_Abstract_Evaluator.thy ===== *)
theory Xls_Abstract_Evaluator
  imports Xls_Bits_Ops
begin

text \<open>
  \<open>xls/ir/abstract_evaluator.h\<close>: the operations of the IR composed from one, zero, NOT, AND and OR
  over an arbitrary element type. The derived class is a record \<open>logic\<close> that every operation takes
  as its first argument; a \<open>Vector\<close> is a list, element 0 first.

  The locale \<open>sound_logic\<close> states what the primitives promise with respect to a relation between
  elements and truth values; inside it every composite operation is shown to be related to its
  meaning on bit lists. The arithmetic follows in \<open>Xls_Abstract_Arith\<close>.
\<close>

record 'a logic =
  lg_One :: 'a
  lg_Zero :: 'a
  lg_Not :: "'a \<Rightarrow> 'a"
  lg_And :: "'a \<Rightarrow> 'a \<Rightarrow> 'a"
  lg_Or :: "'a \<Rightarrow> 'a \<Rightarrow> 'a"

section \<open>Adders and bitwise operations\<close>

definition ae_Xor :: "'a logic \<Rightarrow> 'a \<Rightarrow> 'a \<Rightarrow> 'a" where
  "ae_Xor L a b = lg_And L (lg_Or L a b) (lg_Not L (lg_And L a b))"

record 'a adder_result =
  ar_sum :: 'a
  ar_carry :: 'a

definition ae_HalfAdder :: "'a logic \<Rightarrow> 'a \<Rightarrow> 'a \<Rightarrow> 'a adder_result" where
  "ae_HalfAdder L a b =
     (let carry = lg_And L a b;
          sum = lg_And L (lg_Or L a b) (lg_Not L carry)
      in \<lparr>ar_sum = sum, ar_carry = carry\<rparr>)"

definition ae_FullAdder :: "'a logic \<Rightarrow> 'a \<Rightarrow> 'a \<Rightarrow> 'a \<Rightarrow> 'a adder_result" where
  "ae_FullAdder L a b carry_in =
     (let first_result = ae_HalfAdder L a b;
          second_result = ae_HalfAdder L (ar_sum first_result) carry_in
      in \<lparr>ar_sum = ar_sum second_result,
          ar_carry = lg_Or L (ar_carry first_result) (ar_carry second_result)\<rparr>)"

definition ae_BitsToVector :: "'a logic \<Rightarrow> bits \<Rightarrow> 'a list" where
  "ae_BitsToVector L b = map (\<lambda>i. if Bits_Get b i then lg_One L else lg_Zero L) [0..<bm_count b]"

definition ae_BitwiseNot :: "'a logic \<Rightarrow> 'a list \<Rightarrow> 'a list" where
  "ae_BitwiseNot L input = map (lg_Not L) input"

text \<open>A later operand that is shorter than the first is read out of range.\<close>

fun ae_NaryOp_loop :: "('a \<Rightarrow> 'a \<Rightarrow> 'a) \<Rightarrow> 'a list \<Rightarrow> 'a list list \<Rightarrow> 'a list option" where
  "ae_NaryOp_loop f result [] = Some result"
| "ae_NaryOp_loop f result (v # vs) = do {
     CHECK (length result \<le> length v);
     ae_NaryOp_loop f (map2 f result v) vs
   }"

definition ae_NaryOp :: "('a \<Rightarrow> 'a \<Rightarrow> 'a) \<Rightarrow> 'a list list \<Rightarrow> 'a list option" where
  "ae_NaryOp f inputs = do {
     CHECK (length inputs > 0);
     ae_NaryOp_loop f (hd inputs) (tl inputs)
   }"

definition ae_BitwiseAnd :: "'a logic \<Rightarrow> 'a list list \<Rightarrow> 'a list option" where
  "ae_BitwiseAnd L inputs = ae_NaryOp (lg_And L) inputs"

definition ae_BitwiseOr :: "'a logic \<Rightarrow> 'a list list \<Rightarrow> 'a list option" where
  "ae_BitwiseOr L inputs = ae_NaryOp (lg_Or L) inputs"

definition ae_BitwiseXor :: "'a logic \<Rightarrow> 'a list list \<Rightarrow> 'a list option" where
  "ae_BitwiseXor L inputs = ae_NaryOp (ae_Xor L) inputs"

definition ae_BitSlice :: "'a list \<Rightarrow> nat \<Rightarrow> nat \<Rightarrow> 'a list option" where
  "ae_BitSlice input start width = do {
     CHECK (start + width \<le> length input);
     Some (map (\<lambda>i. input ! (start + i)) [0..<width])
   }"

definition ae_Concat :: "'a list list \<Rightarrow> 'a list" where
  "ae_Concat inputs = concat (rev inputs)"

section \<open>Comparison\<close>

definition ae_Equals :: "'a logic \<Rightarrow> 'a list \<Rightarrow> 'a list \<Rightarrow> 'a option" where
  "ae_Equals L a b = do {
     CHECK (length a = length b);
     Some (foldl (\<lambda>result (x, y).
             lg_And L result (lg_Or L (lg_And L x y) (lg_And L (lg_Not L x) (lg_Not L y))))
           (lg_One L) (zip a b))
   }"

fun ae_ULessThan_loop :: "'a logic \<Rightarrow> ('a \<times> 'a) list \<Rightarrow> 'a \<Rightarrow> 'a \<Rightarrow> 'a" where
  "ae_ULessThan_loop L [] result upper_bits_lte = result"
| "ae_ULessThan_loop L ((x, y) # rest) result upper_bits_lte =
     ae_ULessThan_loop L rest
       (lg_Or L result (lg_And L upper_bits_lte (lg_And L (lg_Not L x) y)))
       (lg_And L upper_bits_lte (lg_Or L (lg_Not L x) y))"

definition ae_ULessThan :: "'a logic \<Rightarrow> 'a list \<Rightarrow> 'a list \<Rightarrow> 'a option" where
  "ae_ULessThan L a b = do {
     CHECK (length a = length b);
     Some (ae_ULessThan_loop L (rev (zip a b)) (lg_Zero L) (lg_One L))
   }"

text \<open>\<open>back()\<close> of an empty vector is undefined: \<open>None\<close>.\<close>

definition ae_back :: "'a list \<Rightarrow> 'a option" where
  "ae_back v = (if v = [] then None else Some (last v))"

definition ae_SLessThan :: "'a logic \<Rightarrow> 'a list \<Rightarrow> 'a list \<Rightarrow> 'a option" where
  "ae_SLessThan L a b = do {
     a_back \<leftarrow> ae_back a;
     b_back \<leftarrow> ae_back b;
     let a_neg_b_non_neg = lg_And L a_back (lg_Not L b_back);
     let a_non_neg_b_neg = lg_And L (lg_Not L a_back) b_back;
     lt \<leftarrow> ae_ULessThan L a b;
     Some (lg_Or L a_neg_b_non_neg (lg_And L (lg_Not L a_non_neg_b_neg) lt))
   }"

section \<open>Selects\<close>

definition ae_and_reduction :: "'a logic \<Rightarrow> nat \<Rightarrow> ('a \<times> 'a list) list \<Rightarrow> 'a list" where
  "ae_and_reduction L width arms =
     foldl (\<lambda>acc (s, c). if s \<noteq> lg_Zero L then map2 (lg_And L) acc c else acc)
       (replicate width (lg_One L)) arms"

definition ae_OneHotSelect :: "'a logic \<Rightarrow> 'a list \<Rightarrow> 'a list list \<Rightarrow> bool \<Rightarrow> 'a list option" where
  "ae_OneHotSelect L selector cases selector_can_be_zero = do {
     CHECK (length selector = length cases);
     CHECK (length selector > 0);
     let width = length (hd cases);
     CHECK (list_all (\<lambda>c. width \<le> length c) cases);
     let result = foldl (\<lambda>acc (s, c). map2 (\<lambda>r x. lg_Or L r (lg_And L x s)) acc c)
                    (replicate width (lg_Zero L)) (zip selector cases);
     if selector_can_be_zero then Some result
     else ae_BitwiseOr L [ae_and_reduction L width (zip selector cases), result]
   }"

definition ae_PrioritySelect :: "'a logic \<Rightarrow> 'a list \<Rightarrow> 'a list list \<Rightarrow> bool \<Rightarrow> 'a list option" where
  "ae_PrioritySelect L selector cases selector_can_be_zero = do {
     CHECK (length selector = length cases);
     CHECK (length selector > 0);
     let width = length (hd cases);
     CHECK (list_all (\<lambda>c. width \<le> length c) cases);
     let result = foldl (\<lambda>acc (s, c).
                      map2 (\<lambda>r x. lg_Or L (lg_And L x s) (lg_And L r (lg_Not L s))) acc c)
                    (replicate width (lg_Zero L)) (rev (zip selector cases));
     if selector_can_be_zero then Some result
     else ae_BitwiseOr L [ae_and_reduction L width (zip selector cases), result]
   }"

text \<open>A constant of the width of a vector; \<open>UBits\<close> aborts when it does not fit.\<close>

definition ae_const :: "'a logic \<Rightarrow> uint64 \<Rightarrow> nat \<Rightarrow> 'a list option" where
  "ae_const L v width = do { b \<leftarrow> UBits v width; Some (ae_BitsToVector L b) }"

definition ae_equals_const :: "'a logic \<Rightarrow> 'a list \<Rightarrow> nat \<Rightarrow> 'a option" where
  "ae_equals_const L a i = do { c \<leftarrow> ae_const L (of_nat i) (length a); ae_Equals L a c }"

definition ae_Select :: "'a logic \<Rightarrow> 'a list \<Rightarrow> 'a list list \<Rightarrow> 'a list option \<Rightarrow> 'a list option" where
  "ae_Select L selector cases default_value = do {
     one_hot_selector \<leftarrow> those (map (ae_equals_const L selector) [0..<length cases]);
     case default_value of
       None \<Rightarrow> ae_OneHotSelect L one_hot_selector cases False
     | Some d \<Rightarrow> do {
         limit \<leftarrow> ae_const L (of_nat (length cases) - 1) (length selector);
         over \<leftarrow> ae_ULessThan L limit selector;
         ae_OneHotSelect L (one_hot_selector @ [over]) (cases @ [d]) False
       }
   }"

section \<open>One-hot encodings\<close>

fun ae_one_hot_loop :: "'a logic \<Rightarrow> 'a list \<Rightarrow> 'a \<Rightarrow> 'a list \<Rightarrow> 'a list \<times> 'a" where
  "ae_one_hot_loop L [] all_zero result = (result, all_zero)"
| "ae_one_hot_loop L (x # xs) all_zero result =
     ae_one_hot_loop L xs (lg_And L all_zero (lg_Not L x)) (result @ [lg_And L all_zero x])"

definition ae_OneHotMsbToLsb :: "'a logic \<Rightarrow> 'a list \<Rightarrow> 'a list" where
  "ae_OneHotMsbToLsb L input =
     (let (result, all_zero) = ae_one_hot_loop L (rev input) (lg_One L) []
      in rev result @ [all_zero])"

definition ae_OneHotLsbToMsb :: "'a logic \<Rightarrow> 'a list \<Rightarrow> 'a list" where
  "ae_OneHotLsbToMsb L input =
     (let (result, all_zero) = ae_one_hot_loop L input (lg_One L) []
      in result @ [all_zero])"

section \<open>Extension and reduction\<close>

definition ae_ZeroExtend :: "'a logic \<Rightarrow> 'a list \<Rightarrow> nat \<Rightarrow> 'a list option" where
  "ae_ZeroExtend L input new_width = do {
     CHECK (new_width \<ge> length input);
     Some (ae_Concat [replicate (new_width - length input) (lg_Zero L), input])
   }"

definition ae_SignExtend :: "'a list \<Rightarrow> nat \<Rightarrow> 'a list option" where
  "ae_SignExtend input new_width = do {
     CHECK (length input \<ge> 1);
     CHECK (new_width \<ge> length input);
     Some (ae_Concat [replicate (new_width - length input) (last input), input])
   }"

definition ae_AndReduce :: "'a logic \<Rightarrow> 'a list \<Rightarrow> 'a list" where
  "ae_AndReduce L a = [foldl (lg_And L) (lg_One L) a]"

definition ae_OrReduce :: "'a logic \<Rightarrow> 'a list \<Rightarrow> 'a list" where
  "ae_OrReduce L a = [foldl (lg_Or L) (lg_Zero L) a]"

definition ae_XorReduce :: "'a logic \<Rightarrow> 'a list \<Rightarrow> 'a list" where
  "ae_XorReduce L a =
     [foldl (\<lambda>result e. lg_Or L (lg_And L (lg_Not L result) e) (lg_And L result (lg_Not L e)))
        (lg_Zero L) a]"

section \<open>Shifts\<close>

text \<open>The selector compares the amount with each constant it can express, and with the width;
  the cases are slices of the extended input.\<close>

definition ae_shift_selector :: "'a logic \<Rightarrow> nat \<Rightarrow> 'a list \<Rightarrow> 'a list option" where
  "ae_shift_selector L input_size amount = do {
     let expressible = takeWhile (\<lambda>i. \<not> length amount < MinBitCountUnsigned (of_nat i)) [0..<input_size];
     selector \<leftarrow> those (map (ae_equals_const L amount) expressible);
     if length amount \<ge> MinBitCountUnsigned (of_nat input_size) then do {
       limit \<leftarrow> ae_const L (of_nat input_size) (length amount);
       lt \<leftarrow> ae_ULessThan L amount limit;
       Some (selector @ [lg_Not L lt])
     }
     else Some selector
   }"

definition ae_shift_cases :: "'a logic \<Rightarrow> 'a list \<Rightarrow> nat \<Rightarrow> bool \<Rightarrow> bool \<Rightarrow> 'a list list" where
  "ae_shift_cases L input n right arithmetic =
     (if right then
        let extended = input @ replicate (n - 1) (if arithmetic then last input else lg_Zero L)
        in map (\<lambda>i. take (length input) (drop i extended)) [0..<n]
      else
        let extended = replicate (n - 1) (lg_Zero L) @ input
        in map (\<lambda>i. take (length input) (drop (n - 1 - i) extended)) [0..<n])"

definition ae_Shift :: "'a logic \<Rightarrow> 'a list \<Rightarrow> 'a list \<Rightarrow> bool \<Rightarrow> bool \<Rightarrow> 'a list option" where
  "ae_Shift L input amount right arithmetic = do {
     selector \<leftarrow> ae_shift_selector L (length input) amount;
     ae_OneHotSelect L selector (ae_shift_cases L input (length selector) right arithmetic) False
   }"

definition ae_ShiftRightLogical :: "'a logic \<Rightarrow> 'a list \<Rightarrow> 'a list \<Rightarrow> 'a list option" where
  "ae_ShiftRightLogical L input amount = ae_Shift L input amount True False"

definition ae_ShiftRightArith :: "'a logic \<Rightarrow> 'a list \<Rightarrow> 'a list \<Rightarrow> 'a list option" where
  "ae_ShiftRightArith L input amount = ae_Shift L input amount True True"

definition ae_ShiftLeftLogical :: "'a logic \<Rightarrow> 'a list \<Rightarrow> 'a list \<Rightarrow> 'a list option" where
  "ae_ShiftLeftLogical L input amount = ae_Shift L input amount False False"

definition ae_BitSliceUpdate :: "'a logic \<Rightarrow> 'a list \<Rightarrow> 'a list \<Rightarrow> 'a list \<Rightarrow> 'a list option" where
  "ae_BitSliceUpdate L input start update = do {
     let num_ones = min (length input) (length update);
     ones \<leftarrow> Bits_AllOnes num_ones;
     start_ones \<leftarrow> bits_ZeroExtend ones (length input);
     shifted_ones \<leftarrow> ae_ShiftLeftLogical L (ae_BitsToVector L start_ones) start;
     let mask = ae_BitwiseNot L shifted_ones;
     adjusted \<leftarrow> (if length update \<ge> length input then ae_BitSlice update 0 (length input)
                  else ae_ZeroExtend L update (length input));
     kept \<leftarrow> ae_BitwiseAnd L [mask, input];
     placed \<leftarrow> ae_ShiftLeftLogical L adjusted start;
     ae_BitwiseOr L [kept, placed]
   }"

section \<open>Encode and decode\<close>

definition ae_Decode :: "'a logic \<Rightarrow> 'a list \<Rightarrow> nat \<Rightarrow> 'a list option" where
  "ae_Decode L input result_width = those (map (ae_equals_const L input) [0..<result_width])"

definition ae_Encode :: "'a logic \<Rightarrow> 'a list \<Rightarrow> 'a list" where
  "ae_Encode L input =
     (let result_width = MinBitCountUnsigned (of_nat (length input) - 1)
      in foldl (\<lambda>result (i, x).
             map (\<lambda>j. if bit i j then lg_Or L (result ! j) x else result ! j) [0..<result_width])
           (replicate result_width (lg_Zero L)) (zip [0..<length input] input))"

section \<open>What the primitives promise\<close>

text \<open>\<open>yields R m y\<close>: the computation \<open>m\<close> does not abort and its result stands for \<open>y\<close>.\<close>

definition yields :: "('a \<Rightarrow> 'b \<Rightarrow> bool) \<Rightarrow> 'a option \<Rightarrow> 'b \<Rightarrow> bool" where
  "yields R m y \<longleftrightarrow> (\<exists>x. m = Some x \<and> R x y)"

lemma yields_Some [simp]: "yields R (Some x) y \<longleftrightarrow> R x y"
  by (simp add: yields_def)

lemma yields_bind:
  assumes "yields R m y" and "\<And>x. R x y \<Longrightarrow> yields S (f x) z"
  shows "yields S (m \<bind> f) z"
  using assms by (auto simp: yields_def)

lemma yieldsE:
  assumes "yields R m y"
  obtains x where "m = Some x" and "R x y"
  using assms by (auto simp: yields_def)

lemma yields_those:
  assumes "\<And>i. i < n \<Longrightarrow> yields R (f i) (g i)"
  shows "yields (list_all2 R) (those (map f [0..<n])) (map g [0..<n])"
proof -
  have those_Some: "those (map (\<lambda>i. Some (h i)) xs) = Some (map h xs)" for h :: "nat \<Rightarrow> _" and xs
    by (induction xs) simp_all
  obtain h where h: "\<And>i. i < n \<Longrightarrow> f i = Some (h i) \<and> R (h i) (g i)"
    using assms unfolding yields_def by metis
  then have eq: "map f [0..<n] = map (\<lambda>i. Some (h i)) [0..<n]" by simp
  show ?thesis unfolding eq those_Some using h by (simp add: list_all2_conv_all_nth)
qed

locale sound_logic =
  fixes L :: "'a logic" and R :: "'a \<Rightarrow> bool \<Rightarrow> bool"
  assumes One [simp]: "R (lg_One L) True"
    and Zero [simp]: "R (lg_Zero L) z \<longleftrightarrow> \<not> z"
    and Not [intro]: "R a x \<Longrightarrow> R (lg_Not L a) (\<not> x)"
    and And [intro]: "R a x \<Longrightarrow> R b y \<Longrightarrow> R (lg_And L a b) (x \<and> y)"
    and Or [intro]: "R a x \<Longrightarrow> R b y \<Longrightarrow> R (lg_Or L a b) (x \<or> y)"
begin

abbreviation V :: "'a list \<Rightarrow> bool list \<Rightarrow> bool" where
  "V \<equiv> list_all2 R"

lemma One' [intro]: "x \<Longrightarrow> R (lg_One L) x"
  by simp

lemma Not_eq: "R a x \<Longrightarrow> y = (\<not> x) \<Longrightarrow> R (lg_Not L a) y"
  using Not by blast

lemma And_eq: "R a x \<Longrightarrow> R b y \<Longrightarrow> z = (x \<and> y) \<Longrightarrow> R (lg_And L a b) z"
  using And by blast

lemma Or_eq: "R a x \<Longrightarrow> R b y \<Longrightarrow> z = (x \<or> y) \<Longrightarrow> R (lg_Or L a b) z"
  using Or by blast

lemma Xor [intro]: "R a x \<Longrightarrow> R b y \<Longrightarrow> R (ae_Xor L a b) (x \<noteq> y)"
  unfolding ae_Xor_def by (rule And_eq [OF Or Not [OF And]]) auto

lemma HalfAdder:
  assumes "R a x" and "R b y"
  shows "R (ar_sum (ae_HalfAdder L a b)) (x \<noteq> y)" and "R (ar_carry (ae_HalfAdder L a b)) (x \<and> y)"
  using assms Xor [of a x b y] by (auto simp: ae_HalfAdder_def ae_Xor_def Let_def)

lemma FullAdder:
  assumes "R a x" and "R b y" and "R c z"
  shows "R (ar_sum (ae_FullAdder L a b c)) (x \<noteq> (y \<noteq> z))"
    and "R (ar_carry (ae_FullAdder L a b c)) (x \<and> y \<or> x \<and> z \<or> y \<and> z)"
proof -
  note first = HalfAdder [OF assms(1,2)]
  note second = HalfAdder [OF first(1) assms(3)]
  show "R (ar_sum (ae_FullAdder L a b c)) (x \<noteq> (y \<noteq> z))"
    using second(1) by (cases x; cases y; cases z) (simp_all add: ae_FullAdder_def Let_def)
  show "R (ar_carry (ae_FullAdder L a b c)) (x \<and> y \<or> x \<and> z \<or> y \<and> z)"
    unfolding ae_FullAdder_def Let_def adder_result.select_convs
    by (rule Or_eq [OF first(2) second(2)]) auto
qed

lemma V_length: "V xs as \<Longrightarrow> length xs = length as"
  by (rule list_all2_lengthD)

lemma V_replicate: "R x b \<Longrightarrow> V (replicate n x) (replicate n b)"
  by (simp add: list_all2_conv_all_nth)

lemma V_map2:
  assumes "V xs as" and "V ys bs" and "\<And>x y a b. R x a \<Longrightarrow> R y b \<Longrightarrow> R (f x y) (g a b)"
  shows "V (map2 f xs ys) (map2 g as bs)"
  using assms by (simp add: list_all2_conv_all_nth)

lemma BitsToVector: "rep b bs \<Longrightarrow> V (ae_BitsToVector L b) bs"
  by (auto simp: ae_BitsToVector_def list_all2_conv_all_nth rep_count rep_get)

lemma BitwiseNot: "V xs as \<Longrightarrow> V (ae_BitwiseNot L xs) (map HOL.Not as)"
  by (auto simp: ae_BitwiseNot_def list_all2_conv_all_nth)

lemma NaryOp_loop:
  assumes "list_all2 V vs bss" and "V r rs" and "\<forall>bs\<in>set bss. length bs = length rs"
    and "\<And>x y a b. R x a \<Longrightarrow> R y b \<Longrightarrow> R (f x y) (g a b)"
  shows "yields V (ae_NaryOp_loop f r vs) (foldl (map2 g) rs bss)"
  using assms(1-3)
proof (induction vs bss arbitrary: r rs rule: list_all2_induct)
  case (Cons v vs bs bss)
  have "V (map2 f r v) (map2 g rs bs)" by (rule V_map2 [OF Cons.prems(1) Cons.hyps(1) assms(4)])
  moreover have "length r \<le> length v" using Cons V_length by fastforce
  ultimately show ?case using Cons.IH [of "map2 f r v" "map2 g rs bs"] Cons.prems by auto
qed simp

lemma NaryOp:
  assumes "V x as" and "list_all2 V vs bss" and "\<forall>bs\<in>set bss. length bs = length as"
    and "\<And>x y a b. R x a \<Longrightarrow> R y b \<Longrightarrow> R (f x y) (g a b)"
  shows "yields V (ae_NaryOp f (x # vs)) (foldl (map2 g) as bss)"
  using NaryOp_loop [OF assms(2,1,3,4)] by (simp add: ae_NaryOp_def)

lemma BitwiseAnd2: "V x as \<Longrightarrow> V y bs \<Longrightarrow> length as = length bs \<Longrightarrow> yields V (ae_BitwiseAnd L [x, y]) (map2 (\<and>) as bs)"
  using NaryOp [of x as "[y]" "[bs]" "lg_And L" "(\<and>)"] by (auto simp: ae_BitwiseAnd_def)

lemma BitwiseOr2: "V x as \<Longrightarrow> V y bs \<Longrightarrow> length as = length bs \<Longrightarrow> yields V (ae_BitwiseOr L [x, y]) (map2 (\<or>) as bs)"
  using NaryOp [of x as "[y]" "[bs]" "lg_Or L" "(\<or>)"] by (auto simp: ae_BitwiseOr_def)

lemma BitwiseXor2: "V x as \<Longrightarrow> V y bs \<Longrightarrow> length as = length bs \<Longrightarrow> yields V (ae_BitwiseXor L [x, y]) (map2 (\<noteq>) as bs)"
  using NaryOp [of x as "[y]" "[bs]" "ae_Xor L" "(\<noteq>)", OF _ _ _ Xor] by (auto simp: ae_BitwiseXor_def)

lemma BitSlice: "V xs as \<Longrightarrow> s + w \<le> length as \<Longrightarrow> yields V (ae_BitSlice xs s w) (take w (drop s as))"
  by (auto simp: ae_BitSlice_def list_all2_conv_all_nth)

lemma Concat: "list_all2 V xss ass \<Longrightarrow> V (ae_Concat xss) (concat (rev ass))"
  unfolding ae_Concat_def by (induction xss ass rule: list_all2_induct) (simp_all add: list_all2_appendI)

lemma const: "unat v < 2 ^ n \<Longrightarrow> yields V (ae_const L v n) (nat_bl n (unat v))"
  using returns_UBits [of v n] BitsToVector by (auto simp: ae_const_def returns_def)

end

text \<open>The comparison loop on truth values, most significant pair first.\<close>

fun msb_less :: "(bool \<times> bool) list \<Rightarrow> bool" where
  "msb_less [] \<longleftrightarrow> False"
| "msb_less ((x, y) # rest) \<longleftrightarrow> \<not> x \<and> y \<or> (\<not> x \<or> y) \<and> msb_less rest"

lemma int_unum_bound: "int (unum bs) < 2 ^ length bs"
  using unum_bound [of bs] by (metis of_nat_less_iff of_nat_numeral of_nat_power)

lemma unum_snoc: "unum (xs @ [b]) = unum xs + 2 ^ length xs * of_bool b"
  by (simp add: unum_append)

lemma unum_snoc_less:
  assumes "length as = length bs"
  shows "unum (as @ [x]) < unum (bs @ [y]) \<longleftrightarrow> \<not> x \<and> y \<or> x = y \<and> unum as < unum bs"
  using unum_bound [of as] unum_bound [of bs] assms
  by (cases x; cases y; simp only: unum_snoc) (simp_all del: unum_bound)

lemma msb_less_iff: "length as = length bs \<Longrightarrow> msb_less (rev (zip as bs)) \<longleftrightarrow> unum as < unum bs"
proof (induction as bs rule: rev_induct2)
  case (4 x xs y ys)
  then show ?case by (auto simp: unum_snoc_less simp del: unum_bound)
qed simp_all

context sound_logic
begin

lemma Equals_fold:
  "V xs as \<Longrightarrow> V ys bs \<Longrightarrow> length as = length bs \<Longrightarrow> R r c \<Longrightarrow>
   R (foldl (\<lambda>result (x, y). lg_And L result (lg_Or L (lg_And L x y) (lg_And L (lg_Not L x) (lg_Not L y))))
     r (zip xs ys)) (c \<and> as = bs)"
proof (induction xs as arbitrary: ys bs r c rule: list_all2_induct)
  case (Cons x xs a as)
  then obtain y ys' b bs' where ys: "ys = y # ys'" "bs = b # bs'" "R y b" "V ys' bs'"
    by (cases bs) (auto simp: list_all2_Cons2)
  have "R (lg_And L r (lg_Or L (lg_And L x y) (lg_And L (lg_Not L x) (lg_Not L y)))) (c \<and> a = b)"
    using Cons.hyps(1) Cons.prems(3) ys(3) by (intro And_eq [OF _ Or_eq [OF And And [OF Not Not]]]) auto
  from Cons.IH [OF ys(4) _ this] Cons.prems(2) show ?case by (simp add: ys conj_assoc)
qed simp

lemma Equals: "V xs as \<Longrightarrow> V ys bs \<Longrightarrow> length as = length bs \<Longrightarrow> yields R (ae_Equals L xs ys) (as = bs)"
  using Equals_fold [of xs as ys bs "lg_One L" True] V_length by (simp add: ae_Equals_def)

lemma equals_const:
  assumes "V xs as" and "i < 2 ^ length as" and "i < 2 ^ 64"
  shows "yields R (ae_equals_const L xs i) (unum as = i)"
proof -
  have i: "unat (of_nat i :: uint64) = i" using assms(3) by (simp add: unat_of_nat)
  have "yields V (ae_const L (of_nat i) (length xs)) (nat_bl (length as) i)"
    using const [of "of_nat i" "length as"] assms V_length [OF assms(1)] by (simp add: i)
  then have "yields R (ae_equals_const L xs i) (as = nat_bl (length as) i)"
    unfolding ae_equals_const_def by (rule yields_bind) (use assms(1) in \<open>auto intro: Equals\<close>)
  moreover have "as = nat_bl (length as) i \<longleftrightarrow> unum as = i"
    using assms(2) by (metis length_nat_bl mod_less nat_bl_unum unum_nat_bl)
  ultimately show ?thesis by simp
qed

lemma ULessThan_loop:
  "list_all2 (rel_prod R R) ps qs \<Longrightarrow> R r c \<Longrightarrow> R u d \<Longrightarrow> R (ae_ULessThan_loop L ps r u) (c \<or> d \<and> msb_less qs)"
proof (induction ps qs arbitrary: r c u d rule: list_all2_induct)
  case (Cons p ps q qs)
  obtain x y a b where p: "p = (x, y)" "q = (a, b)" "R x a" "R y b" using Cons.hyps(1) by (cases p; cases q) auto
  have "R (lg_Or L r (lg_And L u (lg_And L (lg_Not L x) y))) (c \<or> d \<and> \<not> a \<and> b)"
    "R (lg_And L u (lg_Or L (lg_Not L x) y)) (d \<and> (\<not> a \<or> b))"
    using Cons.prems p by blast+
  from Cons.IH [OF this] show ?case by (simp add: p conj_disj_distribL disj_assoc)
qed simp

lemma V_rev_zip: "V xs as \<Longrightarrow> V ys bs \<Longrightarrow> list_all2 (rel_prod R R) (rev (zip xs ys)) (rev (zip as bs))"
  unfolding list_all2_rev by (simp add: list_all2_conv_all_nth)

lemma ULessThan: "V xs as \<Longrightarrow> V ys bs \<Longrightarrow> length as = length bs \<Longrightarrow> yields R (ae_ULessThan L xs ys) (unum as < unum bs)"
  using ULessThan_loop [OF V_rev_zip, of xs as ys bs "lg_Zero L" False "lg_One L" True] V_length
  by (simp add: ae_ULessThan_def msb_less_iff)

lemma back_ok: "V xs as \<Longrightarrow> as \<noteq> [] \<Longrightarrow> yields R (ae_back xs) (last as)"
  by (cases "xs = []") (auto simp: ae_back_def last_conv_nth list_all2_conv_all_nth)

lemma SLessThan:
  assumes "V xs as" and "V ys bs" and "length as = length bs" and "as \<noteq> []"
  shows "yields R (ae_SLessThan L xs ys) (snum as < snum bs)"
proof -
  have bs: "bs \<noteq> []" using assms(3,4) by auto
  obtain x y lt where
    x: "ae_back xs = Some x" "R x (last as)" and y: "ae_back ys = Some y" "R y (last bs)"
    and lt: "ae_ULessThan L xs ys = Some lt" "R lt (unum as < unum bs)"
    using back_ok [OF assms(1,4)] back_ok [OF assms(2) bs] ULessThan [OF assms(1,2,3)] by (auto elim!: yieldsE)
  have "R (lg_Or L (lg_And L x (lg_Not L y)) (lg_And L (lg_Not L (lg_And L (lg_Not L x) y)) lt))
     (last as \<and> \<not> last bs \<or> \<not> (\<not> last as \<and> last bs) \<and> unum as < unum bs)"
    using x(2) y(2) lt(2) by blast
  moreover have "snum as < snum bs \<longleftrightarrow> last as \<and> \<not> last bs \<or> \<not> (\<not> last as \<and> last bs) \<and> unum as < unum bs"
    using assms(3,4) bs snum_neg_iff [of as] snum_neg_iff [of bs]
    by (cases "last as = last bs") (simp add: snum_def, linarith)
  ultimately show ?thesis using x y lt by (simp add: ae_SLessThan_def)
qed

end

section \<open>Selects\<close>

text \<open>The meaning of the selects on truth values.\<close>

definition or_select :: "nat \<Rightarrow> bool list \<Rightarrow> bool list list \<Rightarrow> bool list" where
  "or_select w ss cs = map (\<lambda>j. \<exists>i<length ss. ss ! i \<and> cs ! i ! j) [0..<w]"

definition priority_select :: "nat \<Rightarrow> bool list \<Rightarrow> bool list list \<Rightarrow> bool list" where
  "priority_select w ss cs =
     (let k = first_index ((!) ss) (length ss) in if k < length ss then take w (cs ! k) else replicate w False)"

lemma or_select_unique:
  assumes "length cs = length ss" and "k < length ss" and "length (cs ! k) = w"
    and "\<And>i. i < length ss \<Longrightarrow> ss ! i \<longleftrightarrow> i = k"
  shows "or_select w ss cs = cs ! k"
  using assms by (intro nth_equalityI) (auto simp: or_select_def)

lemma foldl_map2_if_nth:
  assumes "\<forall>(t, d)\<in>set arms. length acc \<le> length d"
  shows "length (foldl (\<lambda>acc (s, c). if p s then map2 (f s) acc c else acc) acc arms) = length acc \<and>
    (\<forall>j<length acc. foldl (\<lambda>acc (s, c). if p s then map2 (f s) acc c else acc) acc arms ! j =
      foldl (\<lambda>r (s, c). if p s then f s r (c ! j) else r) (acc ! j) arms)"
  using assms
proof (induction arms arbitrary: acc)
  case (Cons arm arms)
  obtain s c where arm: "arm = (s, c)" by (cases arm)
  let ?acc = "if p s then map2 (f s) acc c else acc"
  have len: "length ?acc = length acc" using Cons.prems(1) by (auto simp: arm)
  then have "\<forall>(t, d)\<in>set arms. length ?acc \<le> length d" using Cons.prems by auto
  from Cons.IH [OF this] len Cons.prems show ?case by (auto simp: arm)
qed simp

lemmas foldl_map2_nth = foldl_map2_if_nth [where p = "\<lambda>_. True", unfolded if_True]

context sound_logic
begin

text \<open>One bit of each of the three folds over the arms (selector bit and case).\<close>

lemma or_fold_bit:
  "list_all2 (rel_prod R V) arms brms \<Longrightarrow> R r b \<Longrightarrow> \<forall>(s, c)\<in>set brms. j < length c \<Longrightarrow>
   R (foldl (\<lambda>r (s, c). lg_Or L r (lg_And L (c ! j) s)) r arms) (b \<or> (\<exists>(s, c)\<in>set brms. s \<and> c ! j))"
proof (induction arms brms arbitrary: r b rule: list_all2_induct)
  case (Cons arm arms brm brms)
  obtain s c t d where arm: "arm = (s, c)" "brm = (t, d)" "R s t" "V c d"
    using Cons.hyps(1) by (cases arm; cases brm) auto
  have "R (lg_Or L r (lg_And L (c ! j) s)) (b \<or> d ! j \<and> t)"
    using arm Cons.prems by (intro Or And) (auto simp: list_all2_conv_all_nth)
  from Cons.IH [OF this] Cons.prems(2) show ?case by (simp add: arm disj_assoc conj_commute)
qed simp

lemma priority_fold_bit:
  "list_all2 (rel_prod R V) arms brms \<Longrightarrow> R r b \<Longrightarrow> \<forall>(s, c)\<in>set brms. j < length c \<Longrightarrow>
   R (foldl (\<lambda>r (s, c). lg_Or L (lg_And L (c ! j) s) (lg_And L r (lg_Not L s))) r arms)
     (foldl (\<lambda>b (s, c). if s then c ! j else b) b brms)"
proof (induction arms brms arbitrary: r b rule: list_all2_induct)
  case (Cons arm arms brm brms)
  obtain s c t d where arm: "arm = (s, c)" "brm = (t, d)" "R s t" "V c d"
    using Cons.hyps(1) by (cases arm; cases brm) auto
  have "R (lg_Or L (lg_And L (c ! j) s) (lg_And L r (lg_Not L s))) (if t then d ! j else b)"
    using arm Cons.prems by (intro Or_eq [OF And And [OF _ Not]]) (auto simp: list_all2_conv_all_nth)
  from Cons.IH [OF this] Cons.prems(2) show ?case by (simp add: arm)
qed simp

lemma and_fold_bit:
  "list_all2 (rel_prod R V) arms brms \<Longrightarrow> R r b \<Longrightarrow> \<forall>(s, c)\<in>set brms. j < length c \<Longrightarrow>
   \<exists>v. R (foldl (\<lambda>r (s, c). if s \<noteq> lg_Zero L then lg_And L r (c ! j) else r) r arms) v \<and>
     (v \<longrightarrow> b \<and> (\<forall>(s, c)\<in>set brms. s \<longrightarrow> c ! j))"
proof (induction arms brms arbitrary: r b rule: list_all2_induct)
  case (Cons arm arms brm brms)
  obtain s c t d where arm: "arm = (s, c)" "brm = (t, d)" "R s t" "V c d"
    using Cons.hyps(1) by (cases arm; cases brm) auto
  have prems: "\<forall>(s, c)\<in>set brms. j < length c" using Cons.prems(2) by simp
  show ?case
  proof (cases "s = lg_Zero L")
    case True
    then have "\<not> t" using arm(3) by simp
    with Cons.IH [OF Cons.prems(1) prems] True show ?thesis by (simp add: arm)
  next
    case False
    have "R (lg_And L r (c ! j)) (b \<and> d ! j)"
      using arm Cons.prems by (intro And) (auto simp: list_all2_conv_all_nth)
    from Cons.IH [OF this prems] False show ?thesis by (auto simp: arm)
  qed
qed auto

end

context sound_logic
begin

lemma arms_rel: "V sel ss \<Longrightarrow> list_all2 V cases cs \<Longrightarrow> list_all2 (rel_prod R V) (zip sel cases) (zip ss cs)"
  by (simp add: list_all2_conv_all_nth)

lemma arms_width:
  assumes "list_all2 V cases cs" and "\<forall>c\<in>set cs. length c = w"
  shows "\<forall>c\<in>set cases. length c = w" and "\<forall>(s, c)\<in>set (zip sel cases). length (replicate w z) \<le> length c"
    and "j < w \<Longrightarrow> \<forall>(s, c)\<in>set (zip ss cs). j < length c"
proof -
  show *: "\<forall>c\<in>set cases. length c = w"
    using assms by (induction cases cs rule: list_all2_induct) (auto dest: V_length)
  show "\<forall>(s, c)\<in>set (zip sel cases). length (replicate w z) \<le> length c" using * by (auto dest: set_zip_rightD)
  show "j < w \<Longrightarrow> \<forall>(s, c)\<in>set (zip ss cs). j < length c" using assms(2) by (auto dest: set_zip_rightD)
qed

lemma select_lengths:
  assumes "V sel ss" and "list_all2 V cases cs" and "length ss = length cs" and "ss \<noteq> []"
    and "\<forall>c\<in>set cs. length c = w"
  shows "length sel = length cases" and "sel \<noteq> []" and "cases \<noteq> []" and "length (hd cases) = w"
    and "list_all (\<lambda>c. w \<le> length c) cases"
proof -
  show "length sel = length cases" "sel \<noteq> []" "cases \<noteq> []"
    using assms(1-4) by (auto dest!: list_all2_lengthD)
  then show "length (hd cases) = w" "list_all (\<lambda>c. w \<le> length c) cases"
    using arms_width(1) [OF assms(2,5)] by (simp_all add: list_all_iff)
qed

lemma and_reduction:
  assumes "V sel ss" and "list_all2 V cases cs" and "\<forall>c\<in>set cs. length c = w"
  shows "\<exists>vs. V (ae_and_reduction L w (zip sel cases)) vs \<and> length vs = w \<and>
    (\<forall>j<w. vs ! j \<longrightarrow> (\<forall>(s, c)\<in>set (zip ss cs). s \<longrightarrow> c ! j))"
proof -
  note nth = foldl_map2_if_nth [OF arms_width(2) [OF assms(2,3), where sel = sel and z = "lg_One L"],
      where p = "\<lambda>s. s \<noteq> lg_Zero L" and f = "\<lambda>s. lg_And L"]
  have "\<exists>v. R (ae_and_reduction L w (zip sel cases) ! j) v \<and> (v \<longrightarrow> (\<forall>(s, c)\<in>set (zip ss cs). s \<longrightarrow> c ! j))"
    if "j < w" for j
    using and_fold_bit [OF arms_rel [OF assms(1,2)] One arms_width(3) [OF assms(2,3) that]] nth that
    by (simp add: ae_and_reduction_def)
  then obtain v where v: "\<And>j. j < w \<Longrightarrow> R (ae_and_reduction L w (zip sel cases) ! j) (v j) \<and>
      (v j \<longrightarrow> (\<forall>(s, c)\<in>set (zip ss cs). s \<longrightarrow> c ! j))" by metis
  moreover have "length (ae_and_reduction L w (zip sel cases)) = w"
    using nth by (simp add: ae_and_reduction_def)
  ultimately show ?thesis
    by (intro exI [of _ "map v [0..<w]"]) (simp add: list_all2_conv_all_nth)
qed

text \<open>Adding the AND of the cases that can be selected changes nothing when some selector bit is set.\<close>

lemma add_and_reduction:
  assumes "V sel ss" and "list_all2 V cases cs" and "\<forall>c\<in>set cs. length c = w"
    and "V result rs" and "length rs = w"
    and "\<And>j. j < w \<Longrightarrow> (\<forall>(s, c)\<in>set (zip ss cs). s \<longrightarrow> c ! j) \<Longrightarrow> rs ! j"
  shows "yields V (ae_BitwiseOr L [ae_and_reduction L w (zip sel cases), result]) rs"
proof -
  obtain vs where vs: "V (ae_and_reduction L w (zip sel cases)) vs" "length vs = w"
    "\<forall>j<w. vs ! j \<longrightarrow> (\<forall>(s, c)\<in>set (zip ss cs). s \<longrightarrow> c ! j)"
    using and_reduction [OF assms(1-3)] by blast
  then have "map2 (\<or>) vs rs = rs" using assms(5,6) by (intro nth_equalityI) auto
  with BitwiseOr2 [OF vs(1) assms(4)] vs(2) assms(5) show ?thesis by simp
qed

lemma OneHotSelect:
  assumes "V sel ss" and "list_all2 V cases cs" and "length ss = length cs" and "ss \<noteq> []"
    and "\<forall>c\<in>set cs. length c = w" and "can_be_zero \<or> True \<in> set ss"
  shows "yields V (ae_OneHotSelect L sel cases can_be_zero) (or_select w ss cs)"
proof -
  let ?f = "\<lambda>s r x. lg_Or L r (lg_And L x s)"
  let ?res = "foldl (\<lambda>acc (s, c). map2 (?f s) acc c) (replicate w (lg_Zero L)) (zip sel cases)"
  note lens = select_lengths [OF assms(1-5)]
  note nth = foldl_map2_nth [OF arms_width(2) [OF assms(2,5), where sel = sel and z = "lg_Zero L"], where f = ?f]
  have ex: "(\<exists>(s, c)\<in>set (zip ss cs). s \<and> c ! j) \<longleftrightarrow> (\<exists>i<length ss. ss ! i \<and> cs ! i ! j)" for j
    using assms(3) by (auto simp: set_zip)
  have "R (?res ! j) (or_select w ss cs ! j)" if "j < w" for j
    using or_fold_bit [OF arms_rel [OF assms(1,2)] _ arms_width(3) [OF assms(2,5) that], of "lg_Zero L" False]
      nth that by (simp add: or_select_def ex)
  then have res: "V ?res (or_select w ss cs)" using nth by (simp add: list_all2_conv_all_nth or_select_def)
  show ?thesis
  proof (cases can_be_zero)
    case False
    have "yields V (ae_BitwiseOr L [ae_and_reduction L w (zip sel cases), ?res]) (or_select w ss cs)"
    proof (rule add_and_reduction [OF assms(1,2,5) res])
      fix j assume "j < w" "\<forall>(s, c)\<in>set (zip ss cs). s \<longrightarrow> c ! j"
      with False assms(3,6) show "or_select w ss cs ! j"
        by (auto simp: or_select_def set_zip in_set_conv_nth)
    qed (simp add: or_select_def)
    with False lens show ?thesis by (simp add: ae_OneHotSelect_def Let_def)
  qed (use res lens in \<open>simp add: ae_OneHotSelect_def Let_def\<close>)
qed

end

lemma first_index_Cons:
  "first_index ((!) (s # ss)) (Suc n) = (if s then 0 else Suc (first_index ((!) ss) n))"
  by (simp add: first_index_def upt_conv_Cons takeWhile_map o_def flip: map_Suc_upt del: upt_Suc)

lemma priority_fold_eq:
  assumes "length cs = length ss" and "\<forall>c\<in>set cs. length c = w" and "j < w"
  shows "foldl (\<lambda>b (s, c). if s then c ! j else b) False (rev (zip ss cs)) = priority_select w ss cs ! j"
  using assms
proof (induction ss arbitrary: cs)
  case (Cons s ss)
  then obtain c cs' where cs: "cs = c # cs'" by (cases cs) auto
  then show ?case using Cons
    by (auto simp: priority_select_def first_index_Cons Let_def)
qed (simp add: priority_select_def)

context sound_logic
begin

lemma PrioritySelect:
  assumes "V sel ss" and "list_all2 V cases cs" and "length ss = length cs" and "ss \<noteq> []"
    and "\<forall>c\<in>set cs. length c = w" and "can_be_zero \<or> True \<in> set ss"
  shows "yields V (ae_PrioritySelect L sel cases can_be_zero) (priority_select w ss cs)"
proof -
  let ?f = "\<lambda>s r x. lg_Or L (lg_And L x s) (lg_And L r (lg_Not L s))"
  let ?res = "foldl (\<lambda>acc (s, c). map2 (?f s) acc c) (replicate w (lg_Zero L)) (rev (zip sel cases))"
  let ?k = "first_index ((!) ss) (length ss)"
  note lens = select_lengths [OF assms(1-5)]
  have width: "\<forall>(s, c)\<in>set (rev (zip sel cases)). length (replicate w (lg_Zero L)) \<le> length c"
    using arms_width(2) [OF assms(2,5)] by (simp only: set_rev)
  note nth = foldl_map2_nth [OF width, where f = ?f]
  have arms: "list_all2 (rel_prod R V) (rev (zip sel cases)) (rev (zip ss cs))"
    unfolding list_all2_rev by (rule arms_rel [OF assms(1,2)])
  have plen: "length (priority_select w ss cs) = w"
    using assms(3,5) nth_mem [of ?k cs] by (auto simp: priority_select_def Let_def)
  have "R (?res ! j) (priority_select w ss cs ! j)" if "j < w" for j
  proof -
    have "\<forall>(s, c)\<in>set (rev (zip ss cs)). j < length c"
      using arms_width(3) [OF assms(2,5) that] by (simp only: set_rev)
    from priority_fold_bit [OF arms _ this, of "lg_Zero L" False] nth that
    show ?thesis by (simp add: priority_fold_eq [OF assms(3) [symmetric] assms(5) that])
  qed
  then have res: "V ?res (priority_select w ss cs)" using nth plen by (simp add: list_all2_conv_all_nth)
  show ?thesis
  proof (cases can_be_zero)
    case False
    then have k: "?k < length ss" "ss ! ?k"
      using assms(6) first_index_at [of "(!) ss" "length ss"] first_index_eq_n_iff [of "(!) ss" "length ss"]
        first_index_le [of "(!) ss" "length ss"] by (auto simp: in_set_conv_nth le_less)
    have "yields V (ae_BitwiseOr L [ae_and_reduction L w (zip sel cases), ?res]) (priority_select w ss cs)"
    proof (rule add_and_reduction [OF assms(1,2,5) res plen])
      fix j assume "j < w" and *: "\<forall>(s, c)\<in>set (zip ss cs). s \<longrightarrow> c ! j"
      moreover have "(ss ! ?k, cs ! ?k) \<in> set (zip ss cs)" using k(1) assms(3) by (auto simp: set_zip)
      ultimately show "priority_select w ss cs ! j" using k by (auto simp: priority_select_def Let_def)
    qed
    with False lens show ?thesis by (simp add: ae_PrioritySelect_def Let_def)
  qed (use res lens in \<open>simp add: ae_PrioritySelect_def Let_def\<close>)
qed

lemma one_hot_const_selector:
  assumes "V sel ss" and "n \<le> 2 ^ length ss" and "n \<le> 2 ^ 64"
  shows "yields V (those (map (ae_equals_const L sel) [0..<n])) (map (\<lambda>i. unum ss = i) [0..<n])"
  by (rule yields_those) (use assms in \<open>auto intro: equals_const\<close>)

lemma Select:
  assumes "V sel ss" and "list_all2 V cases cs" and "\<forall>c\<in>set cs. length c = w"
    and "length cs \<le> 2 ^ length ss" and "length cs \<le> 2 ^ 64" and "unum ss < length cs"
  shows "yields V (ae_Select L sel cases None) (cs ! unum ss)"
proof -
  let ?hot = "map (\<lambda>i. unum ss = i) [0..<length cs]"
  have hot: "yields V (those (map (ae_equals_const L sel) [0..<length cases])) ?hot"
    using one_hot_const_selector [OF assms(1,4,5)] assms(2) by (simp add: list_all2_lengthD)
  have "or_select w ?hot cs = cs ! unum ss"
    using assms(3,6) by (intro or_select_unique) auto
  moreover have "True \<in> set ?hot" using assms(6) by auto
  ultimately have "yields V (ae_OneHotSelect L h cases False) (cs ! unum ss)" if "V h ?hot" for h
    using OneHotSelect [OF that assms(2) _ _ assms(3), of False] assms(6) by fastforce
  with hot show ?thesis by (auto simp: ae_Select_def intro: yields_bind)
qed

lemma Select_default:
  assumes "V sel ss" and "list_all2 V cases cs" and "V d ds" and "\<forall>c\<in>set (cs @ [ds]). length c = w"
    and "length cs \<le> 2 ^ length ss" and "length cs \<le> 2 ^ 64" and "cs \<noteq> []"
  shows "yields V (ae_Select L sel cases (Some d)) (if unum ss < length cs then cs ! unum ss else ds)"
proof -
  let ?n = "length cs" let ?hot = "map (\<lambda>i. unum ss = i) [0..<?n]"
  have n: "length cases = ?n" using assms(2) by (rule list_all2_lengthD)
  have hot: "yields V (those (map (ae_equals_const L sel) [0..<length cases])) ?hot"
    using one_hot_const_selector [OF assms(1,5,6)] by (simp add: n)
  have lim: "unat (of_nat ?n - 1 :: uint64) = ?n - 1"
  proof -
    have "of_nat ?n - 1 = (of_nat (?n - 1) :: uint64)" using assms(7) by (simp add: of_nat_diff Suc_le_eq)
    moreover have "?n - 1 < 2 ^ 64" using assms(6,7) by (cases cs) auto
    ultimately show ?thesis by (simp add: unat_of_nat)
  qed
  have "?n - 1 < 2 ^ length ss" using assms(5,7) by (cases cs) auto
  then have limit: "yields V (ae_const L (of_nat ?n - 1) (length sel)) (nat_bl (length ss) (?n - 1))"
    using const [of "of_nat ?n - 1" "length ss"] V_length [OF assms(1)] by (simp add: lim)
  let ?all = "?hot @ [?n - 1 < unum ss]"
  obtain m where m: "?n = Suc m" using assms(7) by (cases cs) auto
  have over: "yields R (ae_ULessThan L c sel) (?n - 1 < unum ss)" if "V c (nat_bl (length ss) (?n - 1))" for c
    using ULessThan [OF that assms(1)] \<open>?n - 1 < 2 ^ length ss\<close> by simp
  let ?k = "min (unum ss) ?n"
  have "or_select w ?all (cs @ [ds]) = (cs @ [ds]) ! ?k"
  proof (rule or_select_unique)
    show "length ((cs @ [ds]) ! ?k) = w" using assms(4) nth_mem [of ?k "cs @ [ds]"] by auto
    show "?all ! i \<longleftrightarrow> i = ?k" if "i < length ?all" for i
      using that m by (cases "i < ?n") (auto simp: nth_append min_def less_Suc_eq simp del: upt_Suc)
  qed auto
  moreover have "(cs @ [ds]) ! ?k = (if unum ss < ?n then cs ! unum ss else ds)"
    by (auto simp: nth_append min_def)
  moreover have "True \<in> set ?all" using m by (cases "unum ss < ?n") (auto simp del: upt_Suc)
  ultimately have sel: "yields V (ae_OneHotSelect L h (cases @ [d]) False) (if unum ss < ?n then cs ! unum ss else ds)"
    if "V h ?all" for h
    using OneHotSelect [OF that _ _ _ assms(4), of "cases @ [d]" False] assms(2,3) by (auto simp: list_all2_appendI)
  show ?thesis
    unfolding ae_Select_def option.case n
    by (rule yields_bind [OF hot [unfolded n]], rule yields_bind [OF limit], rule yields_bind, erule over, rule sel)
      (simp add: list_all2_appendI)
qed

end

section \<open>Extension, reduction, one-hot and shifts\<close>

lemma unum_pad: "unum (bs @ replicate k False) = unum bs"
  by (simp add: unum_append)

lemma pad_eq: "length bs \<le> n \<Longrightarrow> bs @ replicate (n - length bs) False = nat_bl n (unum bs)"
  by (auto simp: list_eq_iff_nth_eq nth_append bit_unum_iff)

lemma one_hot_index:
  "k \<le> n \<Longrightarrow> nat_bl (n + 1) (2 ^ k) = map (\<lambda>i. i = k) [0..<n + 1]"
  by (rule nth_equalityI) (auto simp: bit_exp_iff simp del: upt_Suc)

context sound_logic
begin

lemma ZeroExtend:
  "V xs as \<Longrightarrow> length as \<le> n \<Longrightarrow> yields V (ae_ZeroExtend L xs n) (nat_bl n (unum as))"
  using Concat [of "[replicate (n - length as) (lg_Zero L), xs]" "[replicate (n - length as) False, as]"] V_length [of xs as]
  by (simp add: ae_ZeroExtend_def V_replicate pad_eq)

lemma SignExtend:
  assumes "V xs as" and "as \<noteq> []" and "length as \<le> n"
  shows "yields V (ae_SignExtend xs n) (int_bl n (snum as))"
proof -
  have "R (last xs) (last as)" and ne: "xs \<noteq> []"
    using back_ok [OF assms(1,2)] by (auto simp: ae_back_def yields_def split: if_splits)
  then have "V (ae_Concat [replicate (n - length as) (last xs), xs]) (as @ replicate (n - length as) (last as))"
    using Concat [of "[replicate (n - length as) (last xs), xs]" "[replicate (n - length as) (last as), as]"] assms
    by (simp add: V_replicate)
  then show ?thesis
    using assms ne V_length [OF assms(1)] by (auto simp: ae_SignExtend_def int_bl_extend Suc_le_eq)
qed

lemma foldl_rel: "V xs as \<Longrightarrow> R r b \<Longrightarrow> (\<And>x y a c. R x a \<Longrightarrow> R y c \<Longrightarrow> R (f x y) (g a c)) \<Longrightarrow> R (foldl f r xs) (foldl g b as)"
  by (induction xs as arbitrary: r b rule: list_all2_induct) auto

lemma foldl_bool: "foldl (\<and>) b bs = (b \<and> False \<notin> set bs)" "foldl (\<or>) c bs = (c \<or> True \<in> set bs)"
  "foldl (\<noteq>) d bs = (d \<noteq> foldr (\<noteq>) bs False)"
  by (induction bs arbitrary: b c d) auto

lemma AndReduce: "V xs as \<Longrightarrow> V (ae_AndReduce L xs) [False \<notin> set as]"
  using foldl_rel [of xs as "lg_One L" True "lg_And L" "(\<and>)"] by (auto simp: ae_AndReduce_def foldl_bool)

lemma OrReduce: "V xs as \<Longrightarrow> V (ae_OrReduce L xs) [True \<in> set as]"
  using foldl_rel [of xs as "lg_Zero L" False "lg_Or L" "(\<or>)"] by (auto simp: ae_OrReduce_def foldl_bool)

lemma XorReduce: "V xs as \<Longrightarrow> V (ae_XorReduce L xs) [foldr (\<noteq>) as False]"
proof -
  assume "V xs as"
  moreover have "R (lg_Or L (lg_And L (lg_Not L r) e) (lg_And L r (lg_Not L e))) (b \<noteq> c)"
    if "R r b" "R e c" for r e b c
    using that by (intro Or_eq [OF And [OF Not] And [OF _ Not]]) auto
  ultimately have "R (hd (ae_XorReduce L xs)) (foldl (\<noteq>) False as)"
    unfolding ae_XorReduce_def list.sel by (intro foldl_rel) simp_all
  then have "R (hd (ae_XorReduce L xs)) (foldr (\<noteq>) as False)" unfolding foldl_bool(3) by simp
  then show ?thesis by (simp add: ae_XorReduce_def)
qed

lemma one_hot_loop:
  "V xs as \<Longrightarrow> R z c \<Longrightarrow> V res rs \<Longrightarrow>
   V (fst (ae_one_hot_loop L xs z res)) (rs @ map (\<lambda>i. c \<and> first_index ((!) as) (length as) = i) [0..<length as]) \<and>
   R (snd (ae_one_hot_loop L xs z res)) (c \<and> True \<notin> set as)"
proof (induction xs as arbitrary: z c res rs rule: list_all2_induct)
  case (Cons x xs a as)
  have "V (res @ [lg_And L z x]) (rs @ [c \<and> a])" "R (lg_And L z (lg_Not L x)) (c \<and> \<not> a)"
    using Cons.hyps(1) Cons.prems by (auto intro: list_all2_appendI)
  note IH = Cons.IH [OF this(2,1)]
  have "map (\<lambda>i. c \<and> first_index ((!) (a # as)) (Suc (length as)) = i) [0..<Suc (length as)] =
      (c \<and> a) # map (\<lambda>i. (c \<and> \<not> a) \<and> first_index ((!) as) (length as) = i) [0..<length as]"
    unfolding upt_conv_Cons [OF zero_less_Suc] map_Suc_upt [symmetric] first_index_Cons by auto
  with IH show ?case by auto
qed simp

end

lemma one_hot_rev:
  fixes as :: "bool list"
  defines "k \<equiv> (case find_high ((!) as) (length as) of Some i \<Rightarrow> i | None \<Rightarrow> length as)"
  shows "rev (map (\<lambda>i. first_index ((!) (rev as)) (length as) = i) [0..<length as]) @ [True \<notin> set as] =
    map (\<lambda>i. i = k) [0..<length as + 1]"
proof (cases "find_high ((!) as) (length as)")
  case None
  then have none: "\<forall>i<length as. \<not> as ! i" by (simp add: find_high_None)
  then have "first_index ((!) (rev as)) (length as) = length as"
    by (simp add: first_index_eq_n_iff rev_nth)
  moreover have "True \<notin> set as" using none by (auto simp: in_set_conv_nth)
  ultimately show ?thesis using None
    by (intro nth_equalityI) (auto simp: k_def nth_append rev_nth simp del: upt_Suc)
next
  case (Some h)
  then have h: "h < length as" "as ! h" "\<forall>j. h < j \<and> j < length as \<longrightarrow> \<not> as ! j" by (simp_all add: find_high_Some)
  moreover have "h < length as - Suc i \<and> length as - Suc i < length as" if "i < length as - 1 - h" for i
    using that by linarith
  ultimately have "first_index ((!) (rev as)) (length as) = length as - 1 - h"
    by (auto simp: first_index_eq_iff rev_nth)
  moreover have "True \<in> set as" using h by (metis nth_mem)
  ultimately show ?thesis using Some h(1)
    by (intro nth_equalityI) (auto simp: k_def nth_append rev_nth simp del: upt_Suc)
qed

definition encode_bits :: "nat \<Rightarrow> nat \<Rightarrow> bool list \<Rightarrow> bool list" where
  "encode_bits w k as = map (\<lambda>j. \<exists>i<length as. as ! i \<and> bit (k + i) j) [0..<w]"

lemma encode_bits_Cons:
  "encode_bits w k (a # as) = map2 (\<or>) (map (\<lambda>j. a \<and> bit k j) [0..<w]) (encode_bits w (Suc k) as)"
  by (rule nth_equalityI) (simp_all add: encode_bits_def Ex_less_Suc2)

context sound_logic
begin

lemma OneHotLsbToMsb:
  assumes "V xs as"
  shows "V (ae_OneHotLsbToMsb L xs) (nat_bl (length as + 1) (2 ^ first_index ((!) as) (length as)))"
proof -
  let ?k = "first_index ((!) as) (length as)"
  have "True \<notin> set as \<longleftrightarrow> length as = ?k"
    using first_index_eq_n_iff [of "(!) as" "length as"] by (auto simp: in_set_conv_nth)
  then have "map (\<lambda>i. ?k = i) [0..<length as] @ [True \<notin> set as] = map (\<lambda>i. i = ?k) [0..<length as + 1]"
    by auto
  then have list: "nat_bl (length as + 1) (2 ^ ?k) = map (\<lambda>i. ?k = i) [0..<length as] @ [True \<notin> set as]"
    by (simp only: one_hot_index first_index_le)
  show ?thesis
    using one_hot_loop [OF assms One, of "[]" "[]"] unfolding list
    by (auto simp: ae_OneHotLsbToMsb_def case_prod_unfold Let_def intro!: list_all2_appendI)
qed

lemma OneHotMsbToLsb:
  assumes "V xs as"
  shows "V (ae_OneHotMsbToLsb L xs)
    (nat_bl (length as + 1) (2 ^ (case find_high ((!) as) (length as) of Some i \<Rightarrow> i | None \<Rightarrow> length as)))"
proof -
  let ?k = "case find_high ((!) as) (length as) of Some i \<Rightarrow> i | None \<Rightarrow> length as"
  have k: "?k \<le> length as" by (auto simp: find_high_Some split: option.split)
  have "V (rev xs) (rev as)" using assms by (simp add: list_all2_rev)
  from one_hot_loop [OF this One, of "[]" "[]"]
  have "V (ae_OneHotMsbToLsb L xs)
     (rev (map (\<lambda>i. first_index ((!) (rev as)) (length as) = i) [0..<length as]) @ [True \<notin> set as])"
    by (auto simp: ae_OneHotMsbToLsb_def case_prod_unfold Let_def list_all2_rev intro!: list_all2_appendI)
  then show ?thesis by (simp only: one_hot_rev one_hot_index [OF k])
qed

lemma Decode:
  "V xs as \<Longrightarrow> w \<le> 2 ^ length as \<Longrightarrow> w \<le> 2 ^ 64 \<Longrightarrow> yields V (ae_Decode L xs w) (map (\<lambda>i. unum as = i) [0..<w])"
  unfolding ae_Decode_def by (rule one_hot_const_selector)

lemma Encode_fold:
  "V xs as \<Longrightarrow> V res rs \<Longrightarrow> length rs = w \<Longrightarrow>
   V (foldl (\<lambda>result (i, x). map (\<lambda>j. if bit i j then lg_Or L (result ! j) x else result ! j) [0..<w])
        res (zip [k..<k + length xs] xs))
     (map2 (\<or>) rs (encode_bits w k as))"
proof (induction xs as arbitrary: k res rs rule: list_all2_induct)
  case Nil
  then show ?case by (simp add: list_all2_conv_all_nth encode_bits_def)
next
  case (Cons x xs a as)
  let ?res = "map (\<lambda>j. if bit k j then lg_Or L (res ! j) x else res ! j) [0..<w]"
  let ?rs = "map2 (\<or>) rs (map (\<lambda>j. a \<and> bit k j) [0..<w])"
  have "V ?res ?rs" using Cons.hyps(1) Cons.prems by (auto simp: list_all2_conv_all_nth)
  from Cons.IH [OF this, of "Suc k"] Cons.prems
  have "V (foldl (\<lambda>result (i, x). map (\<lambda>j. if bit i j then lg_Or L (result ! j) x else result ! j) [0..<w])
      ?res (zip [Suc k..<Suc k + length xs] xs)) (map2 (\<or>) ?rs (encode_bits w (Suc k) as))" by simp
  moreover have "map2 (\<or>) ?rs (encode_bits w (Suc k) as) = map2 (\<or>) rs (encode_bits w k (a # as))"
    using Cons.prems(2) unfolding encode_bits_Cons
    by (intro nth_equalityI) (auto simp: encode_bits_def)
  moreover have "[k..<k + length (x # xs)] = k # [Suc k..<Suc k + length xs]" by (simp add: upt_rec)
  ultimately show ?case by simp
qed

lemma Encode:
  assumes "V xs as"
  shows "V (ae_Encode L xs) (encode_bits (MinBitCountUnsigned (of_nat (length as) - 1)) 0 as)"
proof -
  let ?w = "MinBitCountUnsigned (of_nat (length as) - 1)"
  have "map2 (\<or>) (replicate ?w False) (encode_bits ?w 0 as) = encode_bits ?w 0 as"
    by (rule nth_equalityI) (simp_all add: encode_bits_def)
  with Encode_fold [OF assms V_replicate [of "lg_Zero L" False ?w], where w = ?w and k = 0] V_length [OF assms]
  show ?thesis by (simp add: ae_Encode_def Let_def)
qed

end

lemma takeWhile_less_upt: "takeWhile (\<lambda>i. i < M) [0..<n] = [0..<min n M]"
proof -
  have "[0..<n] = [0..<min n M] @ [min n M..<n]"
    using upt_add_eq_append [of 0 "min n M" "n - min n M"] by simp
  moreover have "takeWhile (\<lambda>i. i < M) [min n M..<n] = []" by (cases "M < n") (auto simp: upt_rec)
  ultimately show ?thesis by (simp add: takeWhile_append)
qed

definition shift_result :: "bool list \<Rightarrow> bool \<Rightarrow> bool \<Rightarrow> nat \<Rightarrow> bool list" where
  "shift_result bs right arithmetic k =
     (let k = min k (length bs)
      in if right then drop k bs @ replicate k (arithmetic \<and> bs \<noteq> [] \<and> last bs)
         else replicate k False @ take (length bs - k) bs)"

lemma length_shift_result [simp]: "length (shift_result bs right arithmetic k) = length bs"
  by (simp add: shift_result_def Let_def)

lemma shift_result_min: "shift_result bs right arithmetic (min k (length bs)) = shift_result bs right arithmetic k"
  by (simp add: shift_result_def)

lemma nth_shift_left: "i < length bs \<Longrightarrow> shift_result bs False arithmetic k ! i \<longleftrightarrow> k \<le> i \<and> bs ! (i - k)"
  by (auto simp: shift_result_def Let_def nth_append min_def)

lemma shift_result_num:
  "shift_result bs True False k = nat_bl (length bs) (unum bs div 2 ^ k)"
  "shift_result bs True True k = int_bl (length bs) (snum bs div 2 ^ k)"
  "shift_result bs False False k = nat_bl (length bs) (unum bs * 2 ^ k)"
  by (simp_all only: nat_bl_shr int_bl_sar nat_bl_shl) (simp_all add: shift_result_def Let_def)

context sound_logic
begin

lemma shift_selector:
  fixes n :: nat
  assumes "V amount as" and "n < 2 ^ 64"
  defines "N \<equiv> (if n < 2 ^ length as then n + 1 else 2 ^ length as)"
  shows "yields V (ae_shift_selector L n amount) (map (\<lambda>i. i = min (unum as) n) [0..<N])"
proof -
  let ?m = "length as" let ?e = "min n (2 ^ ?m)"
  have m: "length amount = ?m" by (rule V_length [OF assms(1)])
  have small: "unat (of_nat i :: uint64) = i" if "i \<le> n" for i using that assms(2) by (simp add: unat_of_nat)
  have "takeWhile (\<lambda>i. \<not> ?m < MinBitCountUnsigned (of_nat i)) [0..<n] = takeWhile (\<lambda>i. i < 2 ^ ?m) [0..<n]"
    by (rule takeWhile_cong) (auto simp: not_less MinBitCountUnsigned_le_iff small)
  then have e: "takeWhile (\<lambda>i. \<not> ?m < MinBitCountUnsigned (of_nat i)) [0..<n] = [0..<?e]"
    by (simp add: takeWhile_less_upt)
  have hot: "yields V (those (map (ae_equals_const L amount) [0..<?e])) (map (\<lambda>i. unum as = i) [0..<?e])"
    using assms(1,2) by (intro one_hot_const_selector) auto
  show ?thesis
  proof (cases "n < 2 ^ ?m")
    case True
    have limit: "yields V (ae_const L (of_nat n) (length amount)) (nat_bl ?m n)"
      using const [of "of_nat n" ?m] True by (simp add: small m)
    have lt: "yields R (ae_ULessThan L amount c) (unum as < n)" if "V c (nat_bl ?m n)" for c
      using ULessThan [OF assms(1) that] True by simp
    have "map (\<lambda>i. i = min (unum as) n) [0..<N] = map (\<lambda>i. unum as = i) [0..<?e] @ [\<not> unum as < n]"
      using True by (auto simp: N_def min_def)
    moreover have "ae_shift_selector L n amount = do {
        selector \<leftarrow> those (map (ae_equals_const L amount) [0..<?e]);
        limit \<leftarrow> ae_const L (of_nat n) (length amount);
        lt \<leftarrow> ae_ULessThan L amount limit;
        Some (selector @ [lg_Not L lt]) }"
      using True by (simp add: ae_shift_selector_def m e MinBitCountUnsigned_le_iff small)
    moreover have "yields V \<dots> (map (\<lambda>i. unum as = i) [0..<?e] @ [\<not> unum as < n])"
      by (rule yields_bind [OF hot], rule yields_bind [OF limit], rule yields_bind, erule lt)
        (auto intro: list_all2_appendI)
    ultimately show ?thesis by (simp only:)
  next
    case False
    moreover have "unum as < 2 ^ ?m" by simp
    ultimately have "min (unum as) n = unum as" by linarith
    then have "map (\<lambda>i. i = min (unum as) n) [0..<N] = map (\<lambda>i. unum as = i) [0..<?e]"
      using False by (auto simp: N_def)
    moreover have "ae_shift_selector L n amount = those (map (ae_equals_const L amount) [0..<?e])"
      using False by (simp add: ae_shift_selector_def m e MinBitCountUnsigned_le_iff small)
    ultimately show ?thesis using hot by (simp only:)
  qed
qed

lemma shift_cases:
  assumes "V xs as" and "N > 0" and "as = [] \<Longrightarrow> N = 1" and "arithmetic \<longrightarrow> right"
  shows "list_all2 V (ae_shift_cases L xs N right arithmetic) (map (shift_result as right arithmetic) [0..<N])"
proof -
  note len = V_length [OF assms(1)]
  have last: "as \<noteq> [] \<Longrightarrow> R (last xs) (last as)"
    using assms(1) len by (cases "xs = []") (auto simp: last_conv_nth list_all2_conv_all_nth)
  have fill: "as \<noteq> [] \<Longrightarrow> R (if arithmetic then last xs else lg_Zero L) (arithmetic \<and> as \<noteq> [] \<and> last as)"
    using last by simp
  have nth: "\<And>j. j < length as \<Longrightarrow> R (xs ! j) (as ! j)" using assms(1) by (simp add: list_all2_conv_all_nth len)
  show ?thesis
  proof (cases right)
    case True
    have "V (take (length xs) (drop i (xs @ replicate (N - 1) (if arithmetic then last xs else lg_Zero L))))
        (shift_result as True arithmetic i)" if "i < N" for i
    proof (rule list_all2_all_nthI)
      fix j assume "j < length (take (length xs) (drop i (xs @ replicate (N - 1) (if arithmetic then last xs else lg_Zero L))))"
      then show "R (take (length xs) (drop i (xs @ replicate (N - 1) (if arithmetic then last xs else lg_Zero L))) ! j)
          (shift_result as True arithmetic i ! j)"
        using that nth fill by (cases "as = []") (auto simp: shift_result_def Let_def nth_append len min_def)
    qed (use that len in auto)
    then show ?thesis using True by (simp add: ae_shift_cases_def Let_def list.rel_map list_all2_same)
  next
    case False
    have "V (take (length xs) (drop (N - 1 - i) (replicate (N - 1) (lg_Zero L) @ xs))) (shift_result as False arithmetic i)"
      if "i < N" for i
    proof (rule list_all2_all_nthI)
      fix j assume "j < length (take (length xs) (drop (N - 1 - i) (replicate (N - 1) (lg_Zero L) @ xs)))"
      then show "R (take (length xs) (drop (N - 1 - i) (replicate (N - 1) (lg_Zero L) @ xs)) ! j) (shift_result as False arithmetic i ! j)"
        using that nth [of "j - i"] by (auto simp: nth_shift_left nth_append len)
    qed (use that len in auto)
    then show ?thesis using False by (simp add: ae_shift_cases_def Let_def list.rel_map list_all2_same)
  qed
qed

end

lemma slice_update_eq:
  fixes s :: nat
  assumes "length ones = length bs" and "length us' = length bs"
    and "\<And>i. i < length bs \<Longrightarrow> ones ! i \<longleftrightarrow> i < min (length bs) (length us)"
    and "\<And>i. i < length bs \<Longrightarrow> us' ! i \<longleftrightarrow> i < length us \<and> us ! i"
  shows "map2 (\<or>) (map2 (\<and>) (map HOL.Not (shift_result ones False False s)) bs) (shift_result us' False False s) =
    take (length bs) (take s bs @ us @ drop (s + length us) bs)"
proof (rule nth_equalityI)
  fix i assume "i < length (map2 (\<or>) (map2 (\<and>) (map HOL.Not (shift_result ones False False s)) bs) (shift_result us' False False s))"
  then have i: "i < length bs" using assms by simp
  show "map2 (\<or>) (map2 (\<and>) (map HOL.Not (shift_result ones False False s)) bs) (shift_result us' False False s) ! i =
      take (length bs) (take s bs @ us @ drop (s + length us) bs) ! i"
    using i assms(1,2) assms(3,4) [of "i - s"] by (auto simp: nth_shift_left nth_append min_def)
qed (use assms in auto)

context sound_logic
begin

lemma Shift:
  assumes "V xs as" and "V amount bs" and "length as < 2 ^ 64" and "arithmetic \<longrightarrow> right"
  shows "yields V (ae_Shift L xs amount right arithmetic) (shift_result as right arithmetic (unum bs))"
proof -
  let ?N = "if length as < 2 ^ length bs then length as + 1 else 2 ^ length bs"
  let ?k = "min (unum bs) (length as)"
  let ?hot = "map (\<lambda>i. i = ?k) [0..<?N]" and ?cases = "map (shift_result as right arithmetic) [0..<?N]"
  have k: "?k < ?N" by (cases "length as < 2 ^ length bs") (simp_all add: min_less_iff_disj)
  have hot: "yields V (ae_shift_selector L (length xs) amount) ?hot"
    using shift_selector [OF assms(2,3)] V_length [OF assms(1)] by simp
  have cases: "list_all2 V (ae_shift_cases L xs (length h) right arithmetic) ?cases" if "V h ?hot" for h
    using shift_cases [OF assms(1) _ _ assms(4), of ?N] V_length [OF that] by auto
  have "or_select (length as) ?hot ?cases = ?cases ! ?k"
    using k by (intro or_select_unique) (simp_all del: upt_Suc)
  also have "\<dots> = shift_result as right arithmetic (unum bs)" using k by (simp add: shift_result_min del: upt_Suc)
  finally have result: "or_select (length as) ?hot ?cases = shift_result as right arithmetic (unum bs)" .
  have "True \<in> set ?hot" using k by (simp add: image_iff del: upt_Suc)
  then have "yields V (ae_OneHotSelect L h (ae_shift_cases L xs (length h) right arithmetic) False)
      (or_select (length as) ?hot ?cases)" if "V h ?hot" for h
    using k by (intro OneHotSelect [OF that cases [OF that]]) (auto simp del: upt_Suc)
  then show ?thesis unfolding ae_Shift_def result by (rule yields_bind [OF hot])
qed

lemma ShiftRightLogical:
  "V xs as \<Longrightarrow> V amount bs \<Longrightarrow> length as < 2 ^ 64 \<Longrightarrow>
   yields V (ae_ShiftRightLogical L xs amount) (nat_bl (length as) (unum as div 2 ^ unum bs))"
  unfolding ae_ShiftRightLogical_def shift_result_num [symmetric] by (rule Shift) simp_all

lemma ShiftRightArith:
  "V xs as \<Longrightarrow> V amount bs \<Longrightarrow> length as < 2 ^ 64 \<Longrightarrow>
   yields V (ae_ShiftRightArith L xs amount) (int_bl (length as) (snum as div 2 ^ unum bs))"
  unfolding ae_ShiftRightArith_def shift_result_num [symmetric] by (rule Shift) simp_all

lemma ShiftLeftLogical:
  "V xs as \<Longrightarrow> V amount bs \<Longrightarrow> length as < 2 ^ 64 \<Longrightarrow>
   yields V (ae_ShiftLeftLogical L xs amount) (nat_bl (length as) (unum as * 2 ^ unum bs))"
  unfolding ae_ShiftLeftLogical_def shift_result_num [symmetric] by (rule Shift) simp_all

lemma BitSliceUpdate:
  assumes "V xs as" and "V start ss" and "V us bs" and "length as < 2 ^ 64"
  shows "yields V (ae_BitSliceUpdate L xs start us)
    (take (length as) (take (unum ss) as @ bs @ drop (unum ss + length bs) as))"
proof -
  let ?n = "length as" let ?k = "min ?n (length bs)"
  let ?ones = "nat_bl ?n (mask ?k)" let ?adj = "nat_bl ?n (unum bs)"
  note len = V_length [OF assms(1)] V_length [OF assms(3)]
  obtain o1 o2 where o: "Bits_AllOnes ?k = Some o1" "bits_ZeroExtend o1 ?n = Some o2" "rep o2 ?ones"
    using returns_AllOnes [of ?k] returns_ZeroExtend [of _ "replicate ?k True" ?n] by (auto simp: returns_def mask_eq_exp_minus_1) metis
  have shl: "yields V (ae_ShiftLeftLogical L x start) (shift_result a False False (unum ss))"
    if "V x a" "length a = ?n" for x a
    using Shift [OF that(1) assms(2), of False False] that(2) assms(4) by (simp add: ae_ShiftLeftLogical_def)
  have adj: "yields V (if length us \<ge> length xs then ae_BitSlice us 0 (length xs) else ae_ZeroExtend L us (length xs)) ?adj"
  proof (cases "length us \<ge> length xs")
    case True
    then have "take ?n bs = ?adj" using len by (intro nth_equalityI) (auto simp: bit_unum_iff)
    then show ?thesis using BitSlice [OF assms(3), of 0 ?n] True len by simp
  qed (use ZeroExtend [OF assms(3), of ?n] len in simp)
  have "map2 (\<or>) (map2 (\<and>) (map HOL.Not (shift_result ?ones False False (unum ss))) as) (shift_result ?adj False False (unum ss)) =
      take ?n (take (unum ss) as @ bs @ drop (unum ss + length bs) as)"
    by (rule slice_update_eq) (auto simp: bit_unum_iff bit_mask_iff)
  note eq = this [symmetric]
  show ?thesis
    unfolding ae_BitSliceUpdate_def Let_def len o bind.bind_lunit eq
    by (rule yields_bind [OF shl [OF BitsToVector [OF o(3)]]], simp, rule yields_bind [OF adj [unfolded len]],
        rule yields_bind [OF BitwiseAnd2 [OF BitwiseNot assms(1)]], assumption, simp,
        rule yields_bind [OF shl], assumption, simp, rule BitwiseOr2) simp_all
qed

end

section \<open>Plain booleans\<close>

definition bool_logic :: "bool logic" where
  "bool_logic = \<lparr>lg_One = True, lg_Zero = False, lg_Not = Not, lg_And = (\<and>), lg_Or = (\<or>)\<rparr>"

lemma bool_logic_simps [simp]:
  "lg_One bool_logic = True" "lg_Zero bool_logic = False" "lg_Not bool_logic = Not"
  "lg_And bool_logic = (\<and>)" "lg_Or bool_logic = (\<or>)"
  by (simp_all add: bool_logic_def)

lemma sound_bool_logic: "sound_logic bool_logic (=)"
  by unfold_locales simp_all

interpretation bl: sound_logic bool_logic "(=)"
  by (rule sound_bool_logic)

lemma list_all2_eq_refl: "list_all2 (=) xs xs" "list_all2 (list_all2 (=)) xss xss"
  by (simp_all add: list_all2_same)

section \<open>Properties\<close>

text \<open>The selects over an arbitrary sound logic. \<open>Select\<close> returns the case of the binary index,
  or the default beyond the cases; \<open>PrioritySelect\<close> the case of the lowest set selector bit and
  \<open>OneHotSelect\<close> the OR of the selected cases, also in the variant that narrows the result because
  the selector cannot be zero.\<close>

lemma evaluator_selects_sound:
  assumes "sound_logic L R" and "list_all2 R sel ss" and "list_all2 (list_all2 R) cases cs" and "list_all2 R d ds"
    and "\<forall>c\<in>set (cs @ [ds]). length c = w" and "cs \<noteq> []"
    and "length cs \<le> 2 ^ length ss" and "length cs \<le> 2 ^ 64"
    and "list_all2 R hot hs" and "length hs = length cs" and "can_be_zero \<or> True \<in> set hs"
  shows "yields (list_all2 R) (ae_Select L sel cases (Some d)) (if unum ss < length cs then cs ! unum ss else ds) \<and>
    yields (list_all2 R) (ae_OneHotSelect L hot cases can_be_zero) (or_select w hs cs) \<and>
    yields (list_all2 R) (ae_PrioritySelect L hot cases can_be_zero) (priority_select w hs cs)"
proof -
  have hs: "hs \<noteq> []" using assms(6,10) by auto
  have w: "\<forall>c\<in>set cs. length c = w" using assms(5) by simp
  show ?thesis
    using sound_logic.Select_default [OF assms(1-5,7,8,6)]
      sound_logic.OneHotSelect [OF assms(1,9,3,10) hs w assms(11)]
      sound_logic.PrioritySelect [OF assms(1,9,3,10) hs w assms(11)] by blast
qed

text \<open>The shifts over an arbitrary sound logic, by an amount of any width, are those of the numbers:
  the selector of constants and the slices of the extended input never miss an amount, and
  \<open>BitSliceUpdate\<close> overwrites the bits that are in range.\<close>

lemma evaluator_shifts_exact:
  assumes "sound_logic L R" and "list_all2 R xs as" and "list_all2 R amount bs" and "list_all2 R us cs"
    and "length as < 2 ^ 64"
  shows "yields (list_all2 R) (ae_ShiftLeftLogical L xs amount) (nat_bl (length as) (unum as * 2 ^ unum bs)) \<and>
    yields (list_all2 R) (ae_ShiftRightLogical L xs amount) (nat_bl (length as) (unum as div 2 ^ unum bs)) \<and>
    yields (list_all2 R) (ae_ShiftRightArith L xs amount) (int_bl (length as) (snum as div 2 ^ unum bs)) \<and>
    yields (list_all2 R) (ae_BitSliceUpdate L xs amount us)
      (take (length as) (take (unum bs) as @ cs @ drop (unum bs + length cs) as))"
  using sound_logic.ShiftLeftLogical [OF assms(1,2,3,5)] sound_logic.ShiftRightLogical [OF assms(1,2,3,5)]
    sound_logic.ShiftRightArith [OF assms(1,2,3,5)] sound_logic.BitSliceUpdate [OF assms] by blast

text \<open>The comparisons, reductions and one-hot encodings over an arbitrary sound logic decide equality
  and the unsigned and signed order, and find the lowest and the highest set bit.\<close>

lemma evaluator_comparisons_exact:
  assumes "sound_logic L R" and "list_all2 R xs as" and "list_all2 R ys bs" and "length as = length bs" and "as \<noteq> []"
  shows "yields R (ae_Equals L xs ys) (as = bs) \<and> yields R (ae_ULessThan L xs ys) (unum as < unum bs) \<and>
    yields R (ae_SLessThan L xs ys) (snum as < snum bs) \<and>
    list_all2 R (ae_AndReduce L xs) [False \<notin> set as] \<and> list_all2 R (ae_OrReduce L xs) [True \<in> set as] \<and>
    list_all2 R (ae_XorReduce L xs) [foldr (\<noteq>) as False] \<and>
    list_all2 R (ae_OneHotLsbToMsb L xs) (nat_bl (length as + 1) (2 ^ first_index ((!) as) (length as))) \<and>
    list_all2 R (ae_OneHotMsbToLsb L xs)
      (nat_bl (length as + 1) (2 ^ (case find_high ((!) as) (length as) of Some i \<Rightarrow> i | None \<Rightarrow> length as)))"
  using assms sound_logic.Equals [OF assms(1-4)] sound_logic.ULessThan [OF assms(1-4)] sound_logic.SLessThan [OF assms]
    sound_logic.AndReduce [OF assms(1,2)] sound_logic.OrReduce [OF assms(1,2)] sound_logic.XorReduce [OF assms(1,2)]
    sound_logic.OneHotLsbToMsb [OF assms(1,2)] sound_logic.OneHotMsbToLsb [OF assms(1,2)] by blast

end
