(* ===== verification/Xls_Abstract_Arith.thy ===== *)
theory Xls_Abstract_Arith
  imports Xls_Abstract_Evaluator
begin

text \<open>
  The arithmetic of \<open>xls/ir/abstract_evaluator.h\<close>: ripple-carry addition, the Dadda multiplier and
  long division over an arbitrary logic, with their meaning on bit lists. The multiplier is shown
  never to reach one of its own height checks: in a stage that goes from height \<open>D\<close> to \<open>d\<close>, the
  column at distance \<open>r\<close> from the last sends at most \<open>r + 1 - d\<close> carries on.
\<close>

section \<open>Addition and negation\<close>

fun ae_Add_loop :: "'a logic \<Rightarrow> 'a list \<Rightarrow> 'a list \<Rightarrow> 'a \<Rightarrow> 'a list option" where
  "ae_Add_loop L [] bs carry = Some []"
| "ae_Add_loop L (a # as) [] carry = None"
| "ae_Add_loop L (a # as) (b # bs) carry = do {
     let r = ae_FullAdder L a b carry;
     rest \<leftarrow> ae_Add_loop L as bs (ar_carry r);
     Some (ar_sum r # rest)
   }"

definition ae_Add :: "'a logic \<Rightarrow> 'a list \<Rightarrow> 'a list \<Rightarrow> 'a list option" where
  "ae_Add L a b = ae_Add_loop L a b (lg_Zero L)"

definition ae_Neg :: "'a logic \<Rightarrow> 'a list \<Rightarrow> 'a list option" where
  "ae_Neg L x = do { one \<leftarrow> ae_const L 1 (length x); ae_Add L (ae_BitwiseNot L x) one }"

definition ae_Abs :: "'a logic \<Rightarrow> 'a list \<Rightarrow> 'a list option" where
  "ae_Abs L x = do {
     s \<leftarrow> ae_back x;
     neg \<leftarrow> ae_Neg L x;
     ae_Select L [s] [x, neg] None
   }"

section \<open>Multiplication\<close>

text \<open>The Dadda multiplier. A column is a queue: \<open>push\<close> appends, \<open>front\<close>/\<open>pop\<close> take the head.\<close>

definition ae_partial_products :: "'a logic \<Rightarrow> 'a list \<Rightarrow> 'a list \<Rightarrow> 'a list list" where
  "ae_partial_products L a b =
     map (\<lambda>k. map (\<lambda>i. lg_And L (a ! i) (b ! (k - i)))
                (filter (\<lambda>i. i \<le> k \<and> k - i < length b) [0..<length a]))
       [0..<length a + length b]"

function ae_initial_height :: "nat \<Rightarrow> nat \<Rightarrow> nat" where
  "ae_initial_height limit max_height =
     (if 2 \<le> max_height \<and> max_height < limit then ae_initial_height limit (3 * max_height div 2)
      else max_height)"
  by pat_completeness auto
termination
  by (relation "measure (\<lambda>(limit, max_height). limit - max_height)") auto

declare ae_initial_height.simps [simp del]

function ae_reduce_full :: "'a logic \<Rightarrow> nat \<Rightarrow> 'a list \<Rightarrow> 'a list \<Rightarrow> ('a list \<times> 'a list) option" where
  "ae_reduce_full L max_height column next_column =
     (if length column > max_height + 1
      then (case column of
              a # b # c # rest \<Rightarrow>
                let r = ae_FullAdder L a b c
                in ae_reduce_full L max_height (rest @ [ar_sum r]) (next_column @ [ar_carry r])
            | _ \<Rightarrow> None)
      else Some (column, next_column))"
  by pat_completeness auto
termination
  by (relation "measure (\<lambda>(L, max_height, column, next_column). length column)") auto

declare ae_reduce_full.simps [simp del]

definition ae_reduce_column :: "'a logic \<Rightarrow> nat \<Rightarrow> 'a list \<Rightarrow> 'a list \<Rightarrow> ('a list \<times> 'a list) option" where
  "ae_reduce_column L max_height column next_column = do {
     (column, next_column) \<leftarrow> ae_reduce_full L max_height column next_column;
     if length column > max_height
     then (case column of
             a # b # rest \<Rightarrow>
               let r = ae_HalfAdder L a b
               in Some (rest @ [ar_sum r], next_column @ [ar_carry r])
           | _ \<Rightarrow> None)
     else Some (column, next_column)
   }"

text \<open>One stage over all columns; the last column must not need reduction.\<close>

fun ae_reduce_stage :: "'a logic \<Rightarrow> nat \<Rightarrow> 'a list list \<Rightarrow> 'a list list option" where
  "ae_reduce_stage L max_height [] = Some []"
| "ae_reduce_stage L max_height [column] =
     (if length column \<le> max_height then Some [column] else None)"
| "ae_reduce_stage L max_height (column # next_column # rest) =
     (if length column \<le> max_height then do {
        others \<leftarrow> ae_reduce_stage L max_height (next_column # rest);
        Some (column # others)
      }
      else do {
        (column', next_column') \<leftarrow> ae_reduce_column L max_height column next_column;
        others \<leftarrow> ae_reduce_stage L max_height (next_column' # rest);
        Some (column' # others)
      })"

function ae_reduce_stages :: "'a logic \<Rightarrow> nat \<Rightarrow> 'a list list \<Rightarrow> 'a list list option" where
  "ae_reduce_stages L max_height columns =
     (if max_height > 2
      then (case ae_reduce_stage L ((2 * max_height + 2) div 3) columns of
              None \<Rightarrow> None
            | Some columns' \<Rightarrow> ae_reduce_stages L ((2 * max_height + 2) div 3) columns')
      else Some columns)"
  by pat_completeness auto
termination
  by (relation "measure (\<lambda>(L, max_height, columns). max_height)") auto

declare ae_reduce_stages.simps [simp del]

text \<open>The final ripple-carry addition over columns of height at most two.\<close>

fun ae_ripple :: "'a logic \<Rightarrow> 'a list list \<Rightarrow> 'a list option" where
  "ae_ripple L [] = Some []"
| "ae_ripple L (column # rest) = do {
     (bit_out, carries) \<leftarrow>
       (case column of
          [] \<Rightarrow> Some (lg_Zero L, [])
        | [a] \<Rightarrow> Some (a, [])
        | [a, b] \<Rightarrow> (let r = ae_HalfAdder L a b in Some (ar_sum r, [ar_carry r]))
        | [a, b, c] \<Rightarrow> (let r = ae_FullAdder L a b c in Some (ar_sum r, [ar_carry r]))
        | _ \<Rightarrow> None);
     if carries = [] then do { others \<leftarrow> ae_ripple L rest; Some (bit_out # others) }
     else (case rest of
             [] \<Rightarrow> None
           | next_column # rest' \<Rightarrow> do {
               others \<leftarrow> ae_ripple L ((next_column @ carries) # rest');
               Some (bit_out # others)
             })
   }"

definition ae_UMul :: "'a logic \<Rightarrow> 'a list \<Rightarrow> 'a list \<Rightarrow> 'a list option" where
  "ae_UMul L a b = do {
     let partial_products = ae_partial_products L a b;
     let max_height = ae_initial_height (max (length a) (length b)) 2;
     columns \<leftarrow> ae_reduce_stages L max_height partial_products;
     ae_ripple L columns
   }"

text \<open>
  The doubled width is an \<open>int\<close> of 32 bits. A negative one passes the check of \<open>SignExtend\<close>, which compares it as an unsigned
  number, and the vector of almost \<open>2^64\<close> elements cannot be allocated.
\<close>

definition ae_SMul :: "'a logic \<Rightarrow> 'a list \<Rightarrow> 'a list \<Rightarrow> 'a list option" where
  "ae_SMul L a b = do {
     let max_width = to_int32 (int (max (length a) (length b)));
     let new_width = to_int32 (max_width * 2);
     CHECK (0 \<le> new_width);
     temp_a \<leftarrow> ae_SignExtend a (nat new_width);
     temp_b \<leftarrow> ae_SignExtend b (nat new_width);
     result \<leftarrow> ae_UMul L temp_a temp_b;
     ae_BitSlice result 0 (length a + length b)
   }"

section \<open>Division\<close>

record 'a division_result =
  dr_quotient :: "'a list"
  dr_remainder :: "'a list"

text \<open>Long division from the most significant bit of the numerator: the loop prepends to the
  quotient and keeps the remainder.\<close>

fun ae_UDivMod_loop :: "'a logic \<Rightarrow> 'a list \<Rightarrow> 'a list \<Rightarrow> 'a list \<Rightarrow> 'a list \<Rightarrow> 'a list \<Rightarrow> ('a list \<times> 'a list) option" where
  "ae_UDivMod_loop L divisor neg_divisor [] q r = Some (q, r)"
| "ae_UDivMod_loop L divisor neg_divisor (n # ns) q r = do {
     let r1 = n # r;
     lt \<leftarrow> ae_ULessThan L r1 divisor;
     let q_bit = lg_Not L lt;
     diff \<leftarrow> ae_Add L r1 neg_divisor;
     r2 \<leftarrow> ae_Select L [q_bit] [r1, diff] None;
     ae_UDivMod_loop L divisor neg_divisor ns (q_bit # q) (butlast r2)
   }"

definition ae_UDivMod :: "'a logic \<Rightarrow> 'a list \<Rightarrow> 'a list \<Rightarrow> 'a division_result option" where
  "ae_UDivMod L n d = do {
     let nonzero_divisor = ae_OrReduce L d;
     divisor \<leftarrow> ae_ZeroExtend L d (length d + 1);
     neg_divisor \<leftarrow> ae_Neg L divisor;
     (q, r) \<leftarrow> ae_UDivMod_loop L divisor neg_divisor (rev n) [] (replicate (length d) (lg_Zero L));
     q' \<leftarrow> ae_Select L nonzero_divisor [replicate (length q) (lg_One L), q] None;
     r' \<leftarrow> ae_Select L nonzero_divisor [replicate (length r) (lg_Zero L), r] None;
     Some \<lparr>dr_quotient = q', dr_remainder = r'\<rparr>
   }"

definition ae_UDiv :: "'a logic \<Rightarrow> 'a list \<Rightarrow> 'a list \<Rightarrow> 'a list option" where
  "ae_UDiv L n d = map_option dr_quotient (ae_UDivMod L n d)"

definition ae_UMod :: "'a logic \<Rightarrow> 'a list \<Rightarrow> 'a list \<Rightarrow> 'a list option" where
  "ae_UMod L n d = map_option dr_remainder (ae_UDivMod L n d)"

definition ae_SDivMod :: "'a logic \<Rightarrow> 'a list \<Rightarrow> 'a list \<Rightarrow> 'a division_result option" where
  "ae_SDivMod L n d = do {
     let nonzero_divisor = last (ae_OrReduce L d);
     let n_negative = (if length n > 0 then last n else lg_Zero L);
     let d_negative = (if length d > 0 then last d else lg_Zero L);
     abs_n \<leftarrow> ae_Abs L n;
     abs_d \<leftarrow> ae_Abs L d;
     result \<leftarrow> ae_UDivMod L abs_n abs_d;
     neg_r \<leftarrow> ae_Neg L (dr_remainder result);
     remainder \<leftarrow> ae_Select L [n_negative] [dr_remainder result, neg_r] None;
     neg_q \<leftarrow> ae_Neg L (dr_quotient result);
     quotient \<leftarrow> ae_Select L [ae_Xor L n_negative d_negative] [dr_quotient result, neg_q] None;
     let ones = replicate (length quotient) (lg_One L);
     let zeros = replicate (length quotient) (lg_Zero L);
     let largest_positive = (if length quotient > 0 then ones[length quotient - 1 := lg_Zero L] else ones);
     let largest_negative = (if length quotient > 0 then zeros[length quotient - 1 := lg_One L] else zeros);
     quotient' \<leftarrow> ae_Select L [n_negative, nonzero_divisor] [largest_positive, largest_negative] (Some quotient);
     Some \<lparr>dr_quotient = quotient', dr_remainder = remainder\<rparr>
   }"

definition ae_SDiv :: "'a logic \<Rightarrow> 'a list \<Rightarrow> 'a list \<Rightarrow> 'a list option" where
  "ae_SDiv L n d = map_option dr_quotient (ae_SDivMod L n d)"

definition ae_SMod :: "'a logic \<Rightarrow> 'a list \<Rightarrow> 'a list \<Rightarrow> 'a list option" where
  "ae_SMod L n d = map_option dr_remainder (ae_SDivMod L n d)"

section \<open>Addition and negation are modular arithmetic\<close>

lemma nat_bl_Suc: "nat_bl (Suc n) k = odd k # nat_bl n (k div 2)"
  by (rule nth_equalityI) (auto simp: nth_Cons bit_Suc bit_0 split: nat.split)

lemma int_unum_map_Not: "int (unum (map Not bs)) = 2 ^ length bs - 1 - int (unum bs)"
  by (induction bs) (auto simp: of_bool_def)

context sound_logic
begin

lemma Add_loop:
  "V xs as \<Longrightarrow> V ys bs \<Longrightarrow> length as = length bs \<Longrightarrow> R c z \<Longrightarrow>
   yields V (ae_Add_loop L xs ys c) (nat_bl (length as) (unum as + unum bs + of_bool z))"
proof (induction xs as arbitrary: ys bs c z rule: list_all2_induct)
  case (Cons x xs a as)
  then obtain y ys' b bs' where ys: "ys = y # ys'" "bs = b # bs'" "R y b" "V ys' bs'"
    by (cases bs) (auto simp: list_all2_Cons2)
  let ?r = "ae_FullAdder L x y c" let ?carry = "a \<and> b \<or> a \<and> z \<or> b \<and> z"
  note r = FullAdder [OF Cons.hyps(1) ys(3) Cons.prems(3)]
  have "yields V (ae_Add_loop L xs ys' (ar_carry ?r)) (nat_bl (length as) (unum as + unum bs' + of_bool ?carry))"
    using Cons.prems(2) ys by (intro Cons.IH r(2)) auto
  then obtain rest where rest: "ae_Add_loop L xs ys' (ar_carry ?r) = Some rest"
    "V rest (nat_bl (length as) (unum as + unum bs' + of_bool ?carry))" by (rule yieldsE)
  have "nat_bl (length (a # as)) (unum (a # as) + unum bs + of_bool z) =
      (a \<noteq> (b \<noteq> z)) # nat_bl (length as) (unum as + unum bs' + of_bool ?carry)"
    by (cases a; cases b; cases z) (simp_all add: nat_bl_Suc ys(2) div_add1_eq)
  then show ?case using rest r(1) by (simp add: ys)
qed simp

lemma Add: "V xs as \<Longrightarrow> V ys bs \<Longrightarrow> length as = length bs \<Longrightarrow> yields V (ae_Add L xs ys) (nat_bl (length as) (unum as + unum bs))"
  using Add_loop [of xs as ys bs "lg_Zero L" False] by (simp add: ae_Add_def)

lemma Neg:
  assumes "V xs as" and "as \<noteq> []"
  shows "yields V (ae_Neg L xs) (int_bl (length as) (- snum as))"
proof -
  let ?n = "length as"
  have "1 < (2::nat) ^ ?n" using assms(2) by (intro one_less_power) auto
  then have one: "yields V (ae_const L 1 (length xs)) (nat_bl ?n 1)"
    using const [of 1 ?n] V_length [OF assms(1)] by simp
  have "int_bl ?n (- snum as) = int_bl ?n (int (unum (map HOL.Not as) + 1))"
    unfolding int_bl_eq_iff by (auto simp: mod_eq_dvd_iff int_unum_map_Not snum_def)
  then have eq: "int_bl ?n (- snum as) = nat_bl ?n (unum (map HOL.Not as) + unum (nat_bl ?n 1))"
    using \<open>1 < 2 ^ ?n\<close> by (simp del: of_nat_add of_nat_Suc)
  show ?thesis
    unfolding ae_Neg_def eq
    by (rule yields_bind [OF one], drule Add [OF BitwiseNot [OF assms(1)]]) (simp_all only: length_map length_nat_bl)
qed

lemma Select_bit:
  assumes "R s b" and "V x as" and "V y bs" and "length as = length bs"
  shows "yields V (ae_Select L [s] [x, y] None) (if b then bs else as)"
  using Select [of "[s]" "[b]" "[x, y]" "[as, bs]" "length as"] assms by (cases b) simp_all

lemma Abs:
  assumes "V xs as" and "as \<noteq> []"
  shows "yields V (ae_Abs L xs) (int_bl (length as) \<bar>snum as\<bar>)"
proof -
  obtain s ns where s: "ae_back xs = Some s" "R s (last as)"
    and ns: "ae_Neg L xs = Some ns" "V ns (int_bl (length as) (- snum as))"
    using back_ok [OF assms] Neg [OF assms] by (auto elim!: yieldsE)
  have "(if last as then int_bl (length as) (- snum as) else as) = int_bl (length as) \<bar>snum as\<bar>"
    using snum_neg_iff [of as] assms(2) by auto
  with Select_bit [OF s(2) assms(1) ns(2)] s ns show ?thesis by (simp add: ae_Abs_def)
qed

end

section \<open>The Dadda multiplier\<close>

text \<open>The number a list of columns stands for, and the bound on the heights before a stage: the
  column at distance \<open>r\<close> from the last has at most \<open>r\<close> entries, or at most \<open>D\<close> when \<open>D \<le> r + 1\<close>.\<close>

abbreviation count_True :: "bool list \<Rightarrow> nat" where
  "count_True bs \<equiv> length (filter id bs)"

fun colval :: "bool list list \<Rightarrow> nat" where
  "colval [] = 0"
| "colval (c # cs) = count_True c + 2 * colval cs"

definition height_bound :: "nat \<Rightarrow> nat \<Rightarrow> nat" where
  "height_bound D r = (if r + 2 \<le> D then r else D)"

fun heights_ok :: "nat \<Rightarrow> 'a list list \<Rightarrow> bool" where
  "heights_ok D [] \<longleftrightarrow> True"
| "heights_ok D (c # cs) \<longleftrightarrow> length c \<le> height_bound D (length cs) \<and> heights_ok D cs"

text \<open>The carries a stage from \<open>D\<close> to \<open>d\<close> sends into the column at distance \<open>r\<close>.\<close>

definition carry_bound :: "nat \<Rightarrow> nat \<Rightarrow> nat \<Rightarrow> nat" where
  "carry_bound D d r = min (D - d) (r + 2 - d)"

lemma carry_bound_step:
  assumes "2 \<le> d" and "d \<le> D" and "h \<le> height_bound D (Suc r) + carry_bound D d (Suc r)"
  shows "(h - d + 1) div 2 \<le> carry_bound D d r"
  using assms unfolding height_bound_def carry_bound_def by (auto split: if_splits)

lemma height_bound_step:
  assumes "2 \<le> d" and "d \<le> D" and "h \<le> height_bound D r + carry_bound D d r"
  shows "min h d \<le> height_bound d r"
  using assms unfolding height_bound_def carry_bound_def by (auto split: if_splits)

lemma ripple_short:
  "ae_ripple L ([] # rest) = map_option ((#) (lg_Zero L)) (ae_ripple L rest)"
  "ae_ripple L ([a] # rest) = map_option ((#) a) (ae_ripple L rest)"
  by (simp_all add: map_conv_bind_option comp_def)

lemma ripple_adders:
  "ae_ripple L ([a, b] # nxt # rest) = map_option ((#) (ar_sum (ae_HalfAdder L a b)))
     (ae_ripple L ((nxt @ [ar_carry (ae_HalfAdder L a b)]) # rest))"
  "ae_ripple L ([a, b, c] # nxt # rest) = map_option ((#) (ar_sum (ae_FullAdder L a b c)))
     (ae_ripple L ((nxt @ [ar_carry (ae_FullAdder L a b c)]) # rest))"
  by (simp_all add: map_conv_bind_option comp_def Let_def)

lemma yields_Cons: "R x y \<Longrightarrow> yields (list_all2 R) m ys \<Longrightarrow> yields (list_all2 R) (map_option ((#) x) m) (y # ys)"
  by (auto simp: yields_def)

lemma length_ge2E: "2 \<le> length xs \<Longrightarrow> (\<And>x y ys. xs = x # y # ys \<Longrightarrow> P) \<Longrightarrow> P"
  by (auto simp: numeral_2_eq_2 Suc_le_length_iff)

lemma length_ge3E: "3 \<le> length xs \<Longrightarrow> (\<And>x y z ys. xs = x # y # z # ys \<Longrightarrow> P) \<Longrightarrow> P"
  by (auto simp: numeral_3_eq_3 Suc_le_length_iff)

context sound_logic
begin

lemma reduce_full:
  assumes "V col bc" and "V nxt bn" and "2 \<le> h" and "h \<le> length bc"
  shows "\<exists>col' nxt' bc' bn'. ae_reduce_full L h col nxt = Some (col', nxt') \<and> V col' bc' \<and> V nxt' bn' \<and>
    count_True bc' + 2 * count_True bn' = count_True bc + 2 * count_True bn \<and>
    length bc' = h + (length bc - h) mod 2 \<and> length bn' = length bn + (length bc - h) div 2"
  using assms
proof (induction "length bc" arbitrary: col nxt bc bn rule: less_induct)
  case less
  note len = V_length [OF less.prems(1)]
  show ?case
  proof (cases "h + 1 < length bc")
    case False
    then have "length bc - h < 2" using less.prems(4) by simp
    with False less.prems len show ?thesis
      by (subst ae_reduce_full.simps) (auto simp: mod_less div_less)
  next
    case True
    with less.prems(3) have "3 \<le> length bc" by simp
    then obtain x y z bs where bc: "bc = x # y # z # bs" by (rule length_ge3E)
    then obtain a b c rest where col: "col = a # b # c # rest" "R a x" "R b y" "R c z" "V rest bs"
      using less.prems(1) by (auto simp: list_all2_Cons2)
    let ?r = "ae_FullAdder L a b c" and ?s = "x \<noteq> (y \<noteq> z)" and ?c = "x \<and> y \<or> x \<and> z \<or> y \<and> z"
    have "V (rest @ [ar_sum ?r]) (bs @ [?s])" "V (nxt @ [ar_carry ?r]) (bn @ [?c])"
      using FullAdder [OF col(2-4)] col(5) less.prems(2) by (auto intro!: list_all2_appendI)
    moreover have "length (bs @ [?s]) < length bc" "h \<le> length (bs @ [?s])" using True by (simp_all add: bc)
    ultimately obtain col' nxt' bc' bn' where *:
      "ae_reduce_full L h (rest @ [ar_sum ?r]) (nxt @ [ar_carry ?r]) = Some (col', nxt')" "V col' bc'" "V nxt' bn'"
      "count_True bc' + 2 * count_True bn' = count_True (bs @ [?s]) + 2 * count_True (bn @ [?c])"
      "length bc' = h + (length (bs @ [?s]) - h) mod 2" "length bn' = length (bn @ [?c]) + (length (bs @ [?s]) - h) div 2"
      using less.hyps less.prems(3) by blast
    moreover have "ae_reduce_full L h col nxt = Some (col', nxt')"
      using True len *(1) by (subst ae_reduce_full.simps) (simp add: col Let_def bc)
    moreover have "count_True (bs @ [?s]) + 2 * count_True (bn @ [?c]) = count_True bc + 2 * count_True bn"
      by (cases x; cases y; cases z) (simp_all add: bc)
    moreover have "length bc - h = 2 + (length (bs @ [?s]) - h)" using True by (simp add: bc)
    ultimately show ?thesis by (intro exI [of _ col'] exI [of _ nxt'] exI [of _ bc'] exI [of _ bn']) simp
  qed
qed

lemma reduce_column:
  assumes "V col bc" and "V nxt bn" and "2 \<le> h" and "h < length bc"
  shows "\<exists>col' nxt' bc' bn'. ae_reduce_column L h col nxt = Some (col', nxt') \<and> V col' bc' \<and> V nxt' bn' \<and>
    count_True bc' + 2 * count_True bn' = count_True bc + 2 * count_True bn \<and>
    length bc' = h \<and> length bn' = length bn + (length bc - h + 1) div 2"
proof -
  obtain col1 nxt1 bc1 bn1 where 1: "ae_reduce_full L h col nxt = Some (col1, nxt1)" "V col1 bc1" "V nxt1 bn1"
    "count_True bc1 + 2 * count_True bn1 = count_True bc + 2 * count_True bn"
    "length bc1 = h + (length bc - h) mod 2" "length bn1 = length bn + (length bc - h) div 2"
    using reduce_full [OF assms(1-3)] assms(4) by auto
  note len = V_length [OF 1(2)]
  show ?thesis
  proof (cases "even (length bc - h)")
    case True
    then have "length bc1 = h" "(length bc - h + 1) div 2 = (length bc - h) div 2" using 1(5) by auto
    with 1 len show ?thesis by (auto simp: ae_reduce_column_def)
  next
    case False
    then obtain k where "length bc - h = 2 * k + 1" by (rule oddE)
    then have h1: "length bc1 = h + 1" "(length bc - h + 1) div 2 = (length bc - h) div 2 + 1"
      using 1(5) by simp_all
    then have "2 \<le> length bc1" using assms(3) by simp
    then obtain x y bs where bc: "bc1 = x # y # bs" by (rule length_ge2E)
    then obtain a b rest where col: "col1 = a # b # rest" "R a x" "R b y" "V rest bs"
      using 1(2) by (auto simp: list_all2_Cons2)
    let ?r = "ae_HalfAdder L a b"
    have "V (rest @ [ar_sum ?r]) (bs @ [x \<noteq> y])" "V (nxt1 @ [ar_carry ?r]) (bn1 @ [x \<and> y])"
      using HalfAdder [OF col(2,3)] col(4) 1(3) by (auto intro!: list_all2_appendI)
    moreover have "count_True (bs @ [x \<noteq> y]) + 2 * count_True (bn1 @ [x \<and> y]) = count_True bc + 2 * count_True bn"
      unfolding 1(4) [symmetric] by (cases x; cases y) (simp_all add: bc)
    moreover have "ae_reduce_column L h col nxt = Some (rest @ [ar_sum ?r], nxt1 @ [ar_carry ?r])"
      using 1(1) len h1(1) by (simp add: ae_reduce_column_def Let_def col)
    moreover have "length (bs @ [x \<noteq> y]) = h" using h1(1) by (simp add: bc)
    ultimately show ?thesis using h1(2) 1(6)
      by (intro exI [of _ "rest @ [ar_sum ?r]"] exI [of _ "nxt1 @ [ar_carry ?r]"] exI [of _ "bs @ [x \<noteq> y]"]
          exI [of _ "bn1 @ [x \<and> y]"]) simp
  qed
qed

end

context sound_logic
begin

lemma reduce_stage:
  assumes "2 \<le> d" and "d \<le> D"
    and "list_all2 V (col # rest) (bc # br)" and "heights_ok D br"
    and "length bc \<le> height_bound D (length br) + carry_bound D d (length br)"
  shows "\<exists>cols' bcs'. ae_reduce_stage L d (col # rest) = Some cols' \<and> list_all2 V cols' bcs' \<and>
    length bcs' = Suc (length br) \<and> colval bcs' = colval (bc # br) \<and> heights_ok d bcs'"
  using assms(3-5)
proof (induction rest arbitrary: col bc br)
  case Nil
  then have "br = []" "V col bc" by auto
  moreover from this have "length bc = 0"
    using assms(1,2) Nil.prems(3) by (simp add: height_bound_def carry_bound_def split: if_splits)
  ultimately show ?case using V_length by (auto simp: height_bound_def)
next
  case (Cons nxt rest)
  then obtain bn br' where br: "br = bn # br'" "V col bc" "V nxt bn" "list_all2 V rest br'"
    by (auto simp: list_all2_Cons1)
  let ?r = "length br'"
  have tail: "heights_ok D br'" "length bn \<le> height_bound D ?r" and
    head: "length bc \<le> height_bound D (Suc ?r) + carry_bound D d (Suc ?r)"
    using Cons.prems(2,3) by (simp_all add: br)
  note len = V_length [OF br(2)]
  note height = height_bound_step [OF assms(1,2) head]
  show ?case
  proof (cases "length col \<le> d")
    case True
    obtain cols' bcs' where "ae_reduce_stage L d (nxt # rest) = Some cols'" "list_all2 V cols' bcs'"
      "length bcs' = Suc ?r" "colval bcs' = colval (bn # br')" "heights_ok d bcs'"
      using Cons.IH [of nxt bn br'] tail br by auto
    then show ?thesis using True br height len
      by (intro exI [of _ "col # cols'"] exI [of _ "bc # bcs'"]) simp
  next
    case False
    then have "d < length bc" using len by simp
    from reduce_column [OF br(2,3) assms(1) this] obtain col' nxt' bc' bn' where
      c: "ae_reduce_column L d col nxt = Some (col', nxt')" "V col' bc'" "V nxt' bn'"
      "count_True bc' + 2 * count_True bn' = count_True bc + 2 * count_True bn"
      "length bc' = d" "length bn' = length bn + (length bc - d + 1) div 2"
      by blast
    have "length bn' \<le> height_bound D ?r + carry_bound D d ?r"
      using carry_bound_step [OF assms(1,2) head] tail(2) c(6) by linarith
    then obtain cols' bcs' where "ae_reduce_stage L d (nxt' # rest) = Some cols'" "list_all2 V cols' bcs'"
      "length bcs' = Suc ?r" "colval bcs' = colval (bn' # br')" "heights_ok d bcs'"
      using Cons.IH [of nxt' bn' br'] tail(1) br(4) c(3) by auto
    then show ?thesis using False br c height len
      by (intro exI [of _ "col' # cols'"] exI [of _ "bc' # bcs'"]) simp
  qed
qed

lemma reduce_stages:
  assumes "list_all2 V cols bcs" and "heights_ok D bcs" and "2 \<le> D"
  shows "\<exists>cols' bcs'. ae_reduce_stages L D cols = Some cols' \<and> list_all2 V cols' bcs' \<and>
    length bcs' = length bcs \<and> colval bcs' = colval bcs \<and> heights_ok 2 bcs'"
  using assms
proof (induction D arbitrary: cols bcs rule: less_induct)
  case (less D)
  show ?case
  proof (cases "D > 2")
    case False
    then have "D = 2" using less.prems(3) by simp
    with less.prems show ?thesis by (subst ae_reduce_stages.simps) auto
  next
    case True
    let ?d = "(2 * D + 2) div 3"
    have d: "2 \<le> ?d" "?d < D" using True by linarith+
    have "\<exists>cols' bcs'. ae_reduce_stage L ?d cols = Some cols' \<and> list_all2 V cols' bcs' \<and>
        length bcs' = length bcs \<and> colval bcs' = colval bcs \<and> heights_ok ?d bcs'"
    proof (cases cols)
      case (Cons col rest)
      with less.prems(1) obtain bc br where bcs: "bcs = bc # br" by (auto simp: list_all2_Cons1)
      show ?thesis
        using reduce_stage [of ?d D col rest bc br] d less.prems(1,2) by (auto simp: Cons bcs)
    qed (use less.prems in simp)
    then obtain cols' bcs' where *: "ae_reduce_stage L ?d cols = Some cols'" "list_all2 V cols' bcs'"
      "length bcs' = length bcs" "colval bcs' = colval bcs" "heights_ok ?d bcs'" by blast
    from less.IH [OF d(2) *(2,5) d(1)] *(1,3,4) True show ?thesis
      by (subst ae_reduce_stages.simps) simp
  qed
qed

lemma ripple:
  assumes "list_all2 V (col # rest) (bc # br)" and "heights_ok 2 br"
    and "length bc \<le> height_bound 2 (length br) + 1"
  shows "yields V (ae_ripple L (col # rest)) (nat_bl (Suc (length br)) (colval (bc # br)))"
  using assms
proof (induction rest arbitrary: col bc br)
  case Nil
  then have br: "br = []" "V col bc" "length bc \<le> 1" by (simp_all add: height_bound_def)
  have "length col \<le> 1" using V_length [OF br(2)] br(3) by simp
  then consider "col = []" "bc = []" | a x where "col = [a]" "bc = [x]" "R a x"
    using br(2) by (cases col) (auto simp: list_all2_Cons1)
  then show ?case by cases (simp_all add: br(1) nat_bl_Suc, metis (full_types))
next
  case (Cons nxt rest)
  then obtain bn br' where br: "br = bn # br'" "V col bc" "V nxt bn" "list_all2 V rest br'"
    by (auto simp: list_all2_Cons1)
  have tail: "heights_ok 2 br'" "length bn \<le> height_bound 2 (length br')" and head: "length bc \<le> 3"
    using Cons.prems(2,3) by (auto simp: br height_bound_def split: if_splits)
  have no_carry: "yields V (ae_ripple L (nxt # rest)) (nat_bl (Suc (length br')) (colval (bn # br')))"
    using Cons.IH [of nxt bn br'] tail br by simp
  have carry: "yields V (ae_ripple L ((nxt @ [c]) # rest)) (nat_bl (Suc (length br')) (colval ((bn @ [z]) # br')))"
    if "R c z" for c z
    using Cons.IH [of "nxt @ [c]" "bn @ [z]" br'] tail br that by (simp add: list_all2_appendI)
  have "length col \<le> 3" using V_length [OF br(2)] head by simp
  then consider "col = []" "bc = []" | a x where "col = [a]" "bc = [x]" "R a x"
    | a b x y where "col = [a, b]" "bc = [x, y]" "R a x" "R b y"
    | a b c x y z where "col = [a, b, c]" "bc = [x, y, z]" "R a x" "R b y" "R c z"
    using br(2) by (cases col rule: remdups_adj.cases) (auto simp: list_all2_Cons1 le_Suc_eq numeral_3_eq_3 length_Suc_conv)
  then show ?case
  proof cases
    case 1
    with yields_Cons [OF _ no_carry, of "lg_Zero L" False] show ?thesis
      by (simp add: ripple_short br nat_bl_Suc del: ae_ripple.simps)
  next
    case 2
    with yields_Cons [OF 2(3) no_carry] show ?thesis
      by (cases x) (simp_all add: ripple_short br nat_bl_Suc del: ae_ripple.simps)
  next
    case 3
    have "nat_bl (Suc (length br)) (colval (bc # br)) =
        (x \<noteq> y) # nat_bl (Suc (length br')) (colval ((bn @ [x \<and> y]) # br'))"
      by (cases x; cases y) (simp_all add: 3 br nat_bl_Suc [of "Suc _"])
    with yields_Cons [OF HalfAdder(1) carry, OF 3(3,4) HalfAdder(2), OF 3(3,4)] show ?thesis
      by (simp only: 3(1) ripple_adders)
  next
    case 4
    have "nat_bl (Suc (length br)) (colval (bc # br)) =
        (x \<noteq> (y \<noteq> z)) # nat_bl (Suc (length br')) (colval ((bn @ [x \<and> y \<or> x \<and> z \<or> y \<and> z]) # br'))"
      by (cases x; cases y; cases z) (simp_all add: 4 br nat_bl_Suc [of "Suc _"])
    with yields_Cons [OF FullAdder(1) carry, OF 4(3-5) FullAdder(2), OF 4(3-5)] show ?thesis
      by (simp only: 4(1) ripple_adders)
  qed
qed

end

text \<open>The partial products of two bit lists add up to the product.\<close>

lemma colval_map_upt: "colval (map f [0..<n]) = (\<Sum>k<n. 2 ^ k * count_True (f k))"
proof (induction n arbitrary: f)
  case (Suc n)
  have "colval (map f [0..<Suc n]) = count_True (f 0) + 2 * (\<Sum>k<n. 2 ^ k * count_True (f (Suc k)))"
    unfolding upt_conv_Cons [OF zero_less_Suc] map_Suc_upt [symmetric]
    by (simp only: list.map map_map comp_def colval.simps Suc.IH)
  also have "\<dots> = (\<Sum>k<Suc n. 2 ^ k * count_True (f k))"
    unfolding sum.lessThan_Suc_shift by (simp add: sum_distrib_left mult.assoc)
  finally show ?case .
qed simp

lemma unum_sum: "unum bs = (\<Sum>i<length bs. of_bool (bs ! i) * 2 ^ i)"
  by (simp add: horner_sum_eq_sum lessThan_atLeast0 mult.commute)

lemma count_True_filter_upt:
  "count_True (map f (filter p [0..<n])) = (\<Sum>i<n. if p i then of_bool (f i) else 0)"
  by (induction n) auto

lemma colval_partial_products:
  "colval (ae_partial_products bool_logic as bs) = unum as * unum bs"
proof -
  let ?t = "\<lambda>i j. of_bool (as ! i \<and> bs ! j) * 2 ^ (i + j) :: nat"
  let ?n = "length as + length bs"
  have shift: "(\<Sum>k<?n. if i \<le> k \<and> k - i < length bs then ?t i (k - i) else 0) = (\<Sum>j<length bs. ?t i j)"
    if "i < length as" for i
  proof -
    have "{k \<in> {..<?n}. i \<le> k \<and> k - i < length bs} = (+) i ` {..<length bs}"
    proof (intro equalityI subsetI)
      fix k assume "k \<in> {k \<in> {..<?n}. i \<le> k \<and> k - i < length bs}"
      then show "k \<in> (+) i ` {..<length bs}" by (intro image_eqI [of _ _ "k - i"]) auto
    qed (use that in auto)
    then have "(\<Sum>k<?n. if i \<le> k \<and> k - i < length bs then ?t i (k - i) else 0) =
        (\<Sum>k \<in> (+) i ` {..<length bs}. ?t i (k - i))"
      by (simp only: sum.inter_filter [symmetric] finite_lessThan)
    also have "\<dots> = (\<Sum>j<length bs. ?t i j)" by (subst sum.reindex) simp_all
    finally show ?thesis .
  qed
  have "colval (ae_partial_products bool_logic as bs) =
      (\<Sum>k<?n. \<Sum>i<length as. if i \<le> k \<and> k - i < length bs then ?t i (k - i) else 0)"
    unfolding ae_partial_products_def colval_map_upt count_True_filter_upt sum_distrib_left
    by (intro sum.cong) auto
  also have "\<dots> = (\<Sum>i<length as. \<Sum>j<length bs. ?t i j)"
    unfolding sum.swap [of _ "{..<length as}"] using shift by simp
  also have "\<dots> = unum as * unum bs"
    unfolding unum_sum sum_product by (intro sum.cong) (auto simp: power_add)
  finally show ?thesis .
qed

lemma heights_ok_partial_products:
  assumes "max (length as) (length bs) \<le> D"
  shows "heights_ok D (ae_partial_products bool_logic as bs)"
proof -
  let ?n = "length as + length bs"
  let ?col = "\<lambda>k. map (\<lambda>i. as ! i \<and> bs ! (k - i)) (filter (\<lambda>i. i \<le> k \<and> k - i < length bs) [0..<length as])"
  have height: "length (?col k) \<le> height_bound D (?n - Suc k)" if "k < ?n" for k
  proof -
    let ?S = "{i. i < length as \<and> i \<le> k \<and> k - i < length bs}"
    have "length (?col k) = card ?S"
    proof -
      have "set (filter (\<lambda>i. i \<le> k \<and> k - i < length bs) [0..<length as]) = ?S" by auto
      with distinct_card [of "filter (\<lambda>i. i \<le> k \<and> k - i < length bs) [0..<length as]"] show ?thesis by simp
    qed
    moreover have "?S \<subseteq> {length as - (?n - Suc k)..<length as}" "?S \<subseteq> {..<length as}" using that by auto
    from card_mono [OF _ this(1)] card_mono [OF _ this(2)] have "card ?S \<le> ?n - Suc k" "card ?S \<le> length as"
      by simp_all
    ultimately show ?thesis using assms by (auto simp: height_bound_def)
  qed
  have "heights_ok D (map ?col [k..<?n])" if "k \<le> ?n" for k
    using that
  proof (induction "?n - k" arbitrary: k)
    case (Suc m)
    then have "[k..<?n] = k # [Suc k..<?n]" by (intro upt_conv_Cons) simp
    with Suc height [of k] show ?case by simp
  qed simp
  then show ?thesis by (simp add: ae_partial_products_def)
qed

lemma initial_height_ge: "2 \<le> h \<Longrightarrow> limit \<le> ae_initial_height limit h \<and> 2 \<le> ae_initial_height limit h"
proof (induction limit h rule: ae_initial_height.induct)
  case (1 limit h)
  then show ?case by (subst (1 2) ae_initial_height.simps) auto
qed

context sound_logic
begin

lemma partial_products:
  assumes "V xs as" and "V ys bs"
  shows "list_all2 V (ae_partial_products L xs ys) (ae_partial_products bool_logic as bs)"
proof -
  note len = V_length [OF assms(1)] V_length [OF assms(2)]
  have "R (lg_And L (xs ! i) (ys ! j)) (as ! i \<and> bs ! j)" if "i < length as" "j < length bs" for i j
    using that assms by (auto simp: list_all2_conv_all_nth)
  then show ?thesis by (simp add: ae_partial_products_def len list.rel_map list_all2_same)
qed

lemma UMul:
  assumes "V xs as" and "V ys bs"
  shows "yields V (ae_UMul L xs ys) (nat_bl (length as + length bs) (unum as * unum bs))"
proof -
  let ?pp = "ae_partial_products bool_logic as bs" let ?h = "ae_initial_height (max (length as) (length bs)) 2"
  have h: "max (length as) (length bs) \<le> ?h" "2 \<le> ?h" using initial_height_ge [of 2] by blast+
  have len: "length ?pp = length as + length bs" by (simp add: ae_partial_products_def)
  obtain cols bcs where cols: "ae_reduce_stages L ?h (ae_partial_products L xs ys) = Some cols"
    "list_all2 V cols bcs" "length bcs = length ?pp" "colval bcs = colval ?pp" "heights_ok 2 bcs"
    using reduce_stages [OF partial_products [OF assms] heights_ok_partial_products [OF h(1)] h(2)] by blast
  have "yields V (ae_ripple L cols) (nat_bl (length bcs) (colval bcs))"
  proof (cases bcs)
    case (Cons bc br)
    with cols(2) obtain col rest where "cols = col # rest" by (auto simp: list_all2_Cons2)
    then show ?thesis using ripple [of col rest bc br] cols(2,5) Cons by simp
  qed (use cols(2) in simp)
  then show ?thesis
    using cols(1,3,4) V_length [OF assms(1)] V_length [OF assms(2)]
    by (simp add: ae_UMul_def Let_def len colval_partial_products)
qed

lemma SMul:
  assumes "V xs as" and "V ys bs" and "as \<noteq> []" and "bs \<noteq> []" and "length as < 2 ^ 30" and "length bs < 2 ^ 30"
  shows "yields V (ae_SMul L xs ys) (int_bl (length as + length bs) (snum as * snum bs))"
proof -
  let ?w = "max (length as) (length bs) * 2" let ?n = "length as + length bs"
  let ?a = "int_bl ?w (snum as)" and ?b = "int_bl ?w (snum bs)"
  note len = V_length [OF assms(1)] V_length [OF assms(2)]
  have n: "?n \<le> ?w" "?n \<le> ?w + ?w" by auto
  have ext: "yields V (ae_SignExtend xs ?w) ?a" "yields V (ae_SignExtend ys ?w) ?b"
    using assms by (auto intro!: SignExtend)
  have mul: "yields V (ae_UMul L x y) (nat_bl (?w + ?w) (unum ?a * unum ?b))" if "V x ?a" "V y ?b" for x y
    using UMul [OF that] by simp
  have slice: "yields V (ae_BitSlice z 0 ?n) (take ?n (nat_bl (?w + ?w) (unum ?a * unum ?b)))"
    if "V z (nat_bl (?w + ?w) (unum ?a * unum ?b))" for z
    using BitSlice [OF that, of 0 ?n] n(2) by simp
  have "take ?n (nat_bl (?w + ?w) (unum ?a * unum ?b)) = int_bl ?n (int (unum ?a * unum ?b))"
    using n(2) take_int_bl [of ?n "?w + ?w" "int (unum ?a * unum ?b)"] by (simp only: int_bl_of_nat)
  also have "\<dots> = int_bl ?n (snum as * snum bs)"
  proof -
    have dvd: "(2::int) ^ ?n dvd 2 ^ ?w" using n(1) by (rule le_imp_power_dvd)
    show ?thesis
      unfolding int_bl_eq_iff of_nat_mult unum_int_bl
      by (metis (no_types, lifting) dvd mod_mod_cancel mod_mult_eq)
  qed
  finally have eq: "int_bl ?n (snum as * snum bs) = take ?n (nat_bl (?w + ?w) (unum ?a * unum ?b))" by simp
  have width: "to_int32 (to_int32 (int (max (length as) (length bs))) * 2) = int ?w" using assms(5,6) by (simp add: max_def)
  have check: "CHECK (0 \<le> int ?w) \<bind> f = f ()" for f :: "unit \<Rightarrow> 'a list option" by simp
  show ?thesis
    unfolding ae_SMul_def Let_def len eq width nat_int check
    by (rule yields_bind [OF ext(1)], rule yields_bind [OF ext(2)], rule yields_bind [OF mul], assumption+)
      (rule slice)
qed

end

section \<open>Long division\<close>

lemma unum_butlast_small:
  assumes "length bs = Suc m" and "unum bs < 2 ^ m"
  shows "length (butlast bs) = m" and "unum (butlast bs) = unum bs"
  using assms unum_take [of m bs] by (simp_all add: butlast_conv_take)

lemma div_step:
  fixes D :: nat and b :: bool
  assumes "unum rs < D" and "D < 2 ^ length rs"
  defines "r1 \<equiv> b # rs"
  defines "r2 \<equiv> (if unum r1 < D then r1 else nat_bl (Suc (length rs)) (unum r1 + (2 ^ Suc (length rs) - D)))"
  shows "unum (butlast r2) < D" and "of_bool (\<not> unum r1 < D) * D + unum (butlast r2) = 2 * unum rs + of_bool b"
proof -
  have r1: "unum r1 = 2 * unum rs + of_bool b" by (simp add: r1_def)
  have "(unum r1 + (2 ^ Suc (length rs) - D)) mod 2 ^ Suc (length rs) = unum r1 - D" if "\<not> unum r1 < D"
  proof -
    have "unum r1 + (2 ^ Suc (length rs) - D) = (unum r1 - D) + 2 ^ Suc (length rs)" using that assms(2) by simp
    moreover have "unum r1 - D < 2 ^ Suc (length rs)" using r1 assms(1,2) by (auto simp: of_bool_def)
    ultimately show ?thesis by (simp only: mod_add_self2 mod_less)
  qed
  then have r2: "unum r2 = (if unum r1 < D then unum r1 else unum r1 - D)" by (simp add: r2_def)
  also have small: "\<dots> < D" using r1 assms(1) by (auto simp: of_bool_def)
  finally have "unum r2 < 2 ^ length rs" using assms(2) by simp
  then have "unum (butlast r2) = unum r2" by (intro unum_butlast_small(2)) (simp_all add: r2_def r1_def)
  then show "unum (butlast r2) < D" "of_bool (\<not> unum r1 < D) * D + unum (butlast r2) = 2 * unum rs + of_bool b"
    using r1 r2 small by auto
qed

context sound_logic
begin

lemma UDivMod_loop:
  assumes "V dv (nat_bl (Suc m) D)" and "V nd (nat_bl (Suc m) (2 ^ Suc m - D))" and "D < 2 ^ m"
  shows "V ns bs \<Longrightarrow> V q qs \<Longrightarrow> V r rs \<Longrightarrow> length rs = m \<Longrightarrow>
    \<exists>q' r' qs' rs'. ae_UDivMod_loop L dv nd ns q r = Some (q', r') \<and> V q' qs' \<and> V r' rs' \<and>
      length rs' = m \<and> length qs' = length qs + length bs \<and>
      (unum rs < D \<longrightarrow> unum rs' < D \<and>
        unum qs' * D + unum rs' = (unum qs * D + unum rs) * 2 ^ length bs + unum (rev bs))"
proof (induction ns bs arbitrary: q qs r rs rule: list_all2_induct)
  case (Cons n ns b bs)
  let ?r1 = "b # rs" let ?diff = "nat_bl (Suc m) (unum ?r1 + (2 ^ Suc m - D))"
  let ?r2 = "if unum ?r1 < D then ?r1 else ?diff"
  have D: "unum (nat_bl (Suc m) D) = D" using assms(3) by simp
  have r1: "V (n # r) ?r1" using Cons.hyps(1) Cons.prems(2) by simp
  obtain lt where lt: "ae_ULessThan L (n # r) dv = Some lt" "R lt (unum ?r1 < D)"
    using ULessThan [OF r1 assms(1)] Cons.prems(3) unfolding D by (auto elim: yieldsE)
  have "nat_bl (Suc m) (unum ?r1 + unum (nat_bl (Suc m) (2 ^ Suc m - D))) = ?diff"
    by (simp only: unum_nat_bl nat_bl_eq_iff mod_add_right_eq)
  then obtain diff where diff: "ae_Add L (n # r) nd = Some diff" "V diff ?diff"
    using Add [OF r1 assms(2)] Cons.prems(3) by (auto elim: yieldsE)
  have "yields V (ae_Select L [lg_Not L lt] [n # r, diff] None) (if \<not> unum ?r1 < D then ?diff else ?r1)"
    using Cons.prems(3) by (intro Select_bit Not lt(2) r1 diff(2)) simp
  then obtain r2 where r2: "ae_Select L [lg_Not L lt] [n # r, diff] None = Some r2" "V r2 ?r2"
    by (auto elim: yieldsE split: if_splits)
  have "V (butlast r2) (butlast ?r2)" using r2(2) unfolding butlast_conv_take
    by (metis V_length list_all2_takeI)
  moreover have len: "length (butlast ?r2) = m" using Cons.prems(3) by simp
  moreover have "V (lg_Not L lt # q) ((\<not> unum ?r1 < D) # qs)" using lt(2) Cons.prems(1) by auto
  ultimately obtain q' r' qs' rs' where
    IH: "ae_UDivMod_loop L dv nd ns (lg_Not L lt # q) (butlast r2) = Some (q', r')" "V q' qs'" "V r' rs'"
    "length rs' = m" "length qs' = Suc (length qs) + length bs"
    "unum (butlast ?r2) < D \<longrightarrow> unum rs' < D \<and> unum qs' * D + unum rs' =
       (unum ((\<not> unum ?r1 < D) # qs) * D + unum (butlast ?r2)) * 2 ^ length bs + unum (rev bs)"
    using Cons.IH [of "lg_Not L lt # q" "(\<not> unum ?r1 < D) # qs" "butlast r2" "butlast ?r2"] by auto
  have "unum rs' < D \<and> unum qs' * D + unum rs' = (unum qs * D + unum rs) * 2 ^ length (b # bs) + unum (rev (b # bs))"
    if "unum rs < D"
  proof -
    note step = div_step [OF that assms(3) [folded Cons.prems(3)], of b, unfolded Cons.prems(3)]
    have acc: "unum ((\<not> unum ?r1 < D) # qs) * D + unum (butlast ?r2) = 2 * (unum qs * D + unum rs) + of_bool b"
      using step(2) by (simp add: algebra_simps)
    from IH(6) step(1) have "unum rs' < D"
      and "unum qs' * D + unum rs' = (2 * (unum qs * D + unum rs) + of_bool b) * 2 ^ length bs + unum (rev bs)"
      unfolding acc by blast+
    then show ?thesis by (simp add: unum_append algebra_simps)
  qed
  with IH lt diff r2 show ?case by (intro exI [of _ q'] exI [of _ r'] exI [of _ qs'] exI [of _ rs']) simp
qed auto

end

lemma div_mod_unique:
  fixes q r n d :: nat
  assumes "q * d + r = n" and "r < d"
  shows "q = n div d" and "r = n mod d"
  using assms by auto

context sound_logic
begin

lemma UDivMod:
  assumes "V ns as" and "V ds bs"
  shows "\<exists>r. ae_UDivMod L ns ds = Some r \<and>
    V (dr_quotient r) (if unum bs = 0 then replicate (length as) True else nat_bl (length as) (unum as div unum bs)) \<and>
    V (dr_remainder r) (if unum bs = 0 then replicate (length bs) False else nat_bl (length bs) (unum as mod unum bs))"
proof -
  let ?m = "length bs" let ?D = "unum bs"
  note len = V_length [OF assms(1)] V_length [OF assms(2)]
  obtain dv where dv: "ae_ZeroExtend L ds (length ds + 1) = Some dv" "V dv (nat_bl (Suc ?m) ?D)"
    using ZeroExtend [OF assms(2), of "Suc ?m"] len by (auto elim: yieldsE)
  have "snum (nat_bl (Suc ?m) ?D) = int ?D"
    using pad_eq [of bs "Suc ?m"] unum_pad [of bs 1] by (subst snum_nonneg) (auto simp: last_conv_nth bit_unum_iff)
  moreover have "int_bl (Suc ?m) (- int ?D) = int_bl (Suc ?m) (int (2 ^ Suc ?m - ?D))"
  proof -
    have "?D \<le> 2 ^ Suc ?m" by (rule less_imp_le, rule less_le_trans [OF unum_bound]) simp
    then show ?thesis unfolding int_bl_eq_iff by (simp add: of_nat_diff mod_eq_dvd_iff)
  qed
  ultimately obtain nd where nd: "ae_Neg L dv = Some nd" "V nd (nat_bl (Suc ?m) (2 ^ Suc ?m - ?D))"
    using Neg [OF dv(2)] by (auto simp: nat_bl_Suc [of _ ?D] simp del: power_Suc elim!: yieldsE)
  have rev: "V (rev ns) (rev as)" using assms(1) by (simp add: list_all2_rev)
  obtain q r qs rs where loop: "ae_UDivMod_loop L dv nd (rev ns) [] (replicate (length ds) (lg_Zero L)) = Some (q, r)"
    "V q qs" "V r rs" "length rs = ?m" "length qs = length as"
    "0 < ?D \<longrightarrow> unum rs < ?D \<and> unum qs * ?D + unum rs = unum as"
    using UDivMod_loop [OF dv(2) nd(2) unum_bound rev, of "[]" "[]" "replicate (length ds) (lg_Zero L)" "replicate ?m False"]
    by (auto simp: V_replicate len)
  have lens: "length q = length as" "length r = ?m"
    using V_length [OF loop(2)] V_length [OF loop(3)] loop(4,5) by simp_all
  let ?z = "\<not> ?D = 0"
  have nz: "V (ae_OrReduce L ds) [?z]" using OrReduce [OF assms(2)] by (simp add: unum_eq_0_iff)
  then obtain z where z: "ae_OrReduce L ds = [z]" "R z ?z" by (auto simp: list_all2_Cons2)
  have vals: "qs = nat_bl (length as) (unum as div ?D)" "rs = nat_bl ?m (unum as mod ?D)" if ?z
    using that loop(4-6) div_mod_unique [of "unum qs" ?D "unum rs" "unum as"]
    by (metis nat_bl_unum not_gr_zero)+
  obtain q' where q': "ae_Select L [z] [replicate (length q) (lg_One L), q] None = Some q'"
    "V q' (if ?z then qs else replicate (length as) True)"
    using Select_bit [OF z(2) V_replicate [OF One, of "length as"] loop(2)] loop(5) unfolding lens
    by (auto elim!: yieldsE)
  obtain r' where r': "ae_Select L [z] [replicate (length r) (lg_Zero L), r] None = Some r'"
    "V r' (if ?z then rs else replicate ?m False)"
    using Select_bit [OF z(2) V_replicate [of "lg_Zero L" False ?m] loop(3)] loop(4) unfolding lens
    by (auto elim!: yieldsE)
  show ?thesis
    using q' r' vals loop(1) dv(1) nd(1) by (cases ?z) (simp_all add: ae_UDivMod_def Let_def z)
qed

end

lemma int_unum_abs: "int (unum (int_bl (length bs) \<bar>snum bs\<bar>)) = \<bar>snum bs\<bar>"
proof (cases "bs = []")
  case False
  then have "(0::int) < 2 ^ length bs" by simp
  with abs_snum_le [of bs] have "\<bar>snum bs\<bar> < 2 ^ length bs" by linarith
  then show ?thesis by (simp add: unum_int_bl)
qed (simp add: int_bl_def)

lemma int_bl_neg_unum: "int_bl (length bs) (- snum bs) = int_bl (length bs) (- int (unum bs))"
  unfolding int_bl_eq_iff by (auto simp: mod_eq_dvd_iff snum_def)

lemma signed_extremes:
  assumes "n > 0"
  shows "(replicate n True)[n - 1 := False] = int_bl n (2 ^ (n - 1) - 1)"
    and "(replicate n False)[n - 1 := True] = int_bl n (- (2 ^ (n - 1)))"
  using assms
  by (auto intro!: nth_equalityI simp: nth_list_update bit_mask_iff bit_minus_exp_iff
      simp flip: mask_eq_exp_minus_1 split: if_splits)

context sound_logic
begin

lemma Neg_unum:
  assumes "V xs as" and "as \<noteq> []"
  shows "yields V (ae_Neg L xs) (int_bl (length as) (- int (unum as)))"
  using Neg [OF assms] by (simp add: int_bl_neg_unum)

text \<open>Negating on a sign bit.\<close>

lemma Neg_if:
  assumes "R s b" and "V xs as" and "as \<noteq> []" and "as = int_bl (length as) k"
  shows "yields V (do { neg \<leftarrow> ae_Neg L xs; ae_Select L [s] [xs, neg] None }) (int_bl (length as) (if b then - k else k))"
proof -
  have "int_bl (length as) (- int (unum as)) = int_bl (length as) (- k)"
    unfolding int_bl_eq_iff using unum_int_bl [of "length as" k] assms(4) by (metis mod_minus_eq)
  then obtain neg where neg: "ae_Neg L xs = Some neg" "V neg (int_bl (length as) (- k))"
    using Neg_unum [OF assms(2,3)] by (auto elim!: yieldsE)
  have "yields V (ae_Select L [s] [xs, neg] None) (if b then int_bl (length as) (- k) else as)"
    by (rule Select_bit [OF assms(1,2) neg(2)]) simp
  with neg(1) assms(4) show ?thesis by (cases b) simp_all
qed

end

lemma int_bl_eqI: "length bs = n \<Longrightarrow> int (unum bs) mod 2 ^ n = k mod 2 ^ n \<Longrightarrow> bs = int_bl n k"
  by (metis int_bl_eq_iff int_bl_of_nat nat_bl_unum)

context sound_logic
begin

lemma SDivMod:
  assumes "V ns as" and "V ds bs" and "as \<noteq> []" and "bs \<noteq> []"
  shows "\<exists>r. ae_SDivMod L ns ds = Some r \<and>
    V (dr_quotient r) (int_bl (length as)
      (if snum bs \<noteq> 0 then snum as sdiv snum bs
       else if snum as < 0 then - (2 ^ (length as - 1)) else 2 ^ (length as - 1) - 1)) \<and>
    V (dr_remainder r)
      (if snum bs = 0 then replicate (length bs) False else int_bl (length bs) (snum as smod snum bs))"
proof -
  let ?n = "length as" and ?m = "length bs" and ?a = "int_bl (length as) \<bar>snum as\<bar>" and ?b = "int_bl (length bs) \<bar>snum bs\<bar>"
  note len = V_length [OF assms(1)] V_length [OF assms(2)]
  have ne: "ns \<noteq> []" "ds \<noteq> []" using assms(3,4) len by auto
  have sn: "R (last ns) (snum as < 0)" and sd: "R (last ds) (snum bs < 0)"
    using back_ok [OF assms(1,3)] back_ok [OF assms(2,4)] ne assms(3,4)
    by (simp_all add: ae_back_def snum_neg_iff)
  have nz: "R (last (ae_OrReduce L ds)) (snum bs \<noteq> 0)"
    using OrReduce [OF assms(2)] by (auto simp: list_all2_Cons2 snum_eq_0_iff unum_eq_0_iff)
  obtain an ad where an: "ae_Abs L ns = Some an" "V an ?a" and ad: "ae_Abs L ds = Some ad" "V ad ?b"
    using Abs [OF assms(1,3)] Abs [OF assms(2,4)] by (auto elim!: yieldsE)
  have zero: "unum ?b = 0 \<longleftrightarrow> snum bs = 0" using int_unum_abs [of bs] by (metis abs_eq_0 of_nat_eq_0_iff)
  obtain d where d: "ae_UDivMod L an ad = Some d"
    "V (dr_quotient d) (if snum bs = 0 then replicate ?n True else nat_bl ?n (unum ?a div unum ?b))"
    "V (dr_remainder d) (if snum bs = 0 then replicate ?m False else nat_bl ?m (unum ?a mod unum ?b))"
    using UDivMod [OF an(2) ad(2)] unfolding zero length_int_bl by blast
  let ?q = "if snum bs = 0 then -1 else \<bar>snum as\<bar> div \<bar>snum bs\<bar>" and ?r = "if snum bs = 0 then 0 else \<bar>snum as\<bar> mod \<bar>snum bs\<bar>"
  have q: "V (dr_quotient d) (int_bl ?n ?q)"
  proof -
    have "int_bl ?n (-1) = replicate ?n True" by (rule nth_equalityI) simp_all
    moreover have "int (unum ?a div unum ?b) = \<bar>snum as\<bar> div \<bar>snum bs\<bar>" by (simp add: zdiv_int int_unum_abs)
    ultimately show ?thesis using d(2) by (auto simp flip: int_bl_of_nat)
  qed
  have r: "V (dr_remainder d) (int_bl ?m ?r)"
  proof -
    have "int_bl ?m 0 = replicate ?m False" by (rule nth_equalityI) simp_all
    moreover have "int (unum ?a mod unum ?b) = \<bar>snum as\<bar> mod \<bar>snum bs\<bar>" by (simp add: zmod_int int_unum_abs)
    ultimately show ?thesis using d(3) by (auto simp flip: int_bl_of_nat)
  qed
  have ex: "int_bl k x \<noteq> []" if "k > 0" for k x using that by (simp add: int_bl_def)
  obtain nr rem where rem: "ae_Neg L (dr_remainder d) = Some nr"
    "ae_Select L [last ns] [dr_remainder d, nr] None = Some rem"
    "V rem (int_bl ?m (if snum as < 0 then - ?r else ?r))"
    using Neg_if [OF sn r, of ?r] ex assms(4) by (auto elim!: yieldsE simp: bind_eq_Some_conv)
  obtain nq quo where quo: "ae_Neg L (dr_quotient d) = Some nq"
    "ae_Select L [ae_Xor L (last ns) (last ds)] [dr_quotient d, nq] None = Some quo"
    "V quo (int_bl ?n (if (snum as < 0) \<noteq> (snum bs < 0) then - ?q else ?q))"
    using Neg_if [OF Xor [OF sn sd] q, of ?q] ex assms(3) by (auto elim!: yieldsE simp: bind_eq_Some_conv)
  have lq: "length quo = ?n" using V_length [OF quo(3)] by simp
  then have qne: "quo \<noteq> []" using assms(3) by auto
  have sel: "V [last ns, last (ae_OrReduce L ds)] [snum as < 0, snum bs \<noteq> 0]" using sn nz by simp
  have cases: "list_all2 V [(replicate ?n (lg_One L))[?n - 1 := lg_Zero L], (replicate ?n (lg_Zero L))[?n - 1 := lg_One L]]
      [int_bl ?n (2 ^ (?n - 1) - 1), int_bl ?n (- (2 ^ (?n - 1)))]"
    unfolding signed_extremes [OF assms(3) [folded length_greater_0_conv], symmetric]
    using V_replicate [OF One, of ?n] V_replicate [of "lg_Zero L" False ?n] by (simp add: list_all2_update_cong)
  have idx: "(if unum [s, z] < length [x, y] then [x, y] ! unum [s, z] else d) = (if z then d else if s then y else x)"
    for s z and x y d :: "bool list" by (cases s; cases z) simp_all
  have "\<forall>c\<in>set ([int_bl ?n (2 ^ (?n - 1) - 1), int_bl ?n (- (2 ^ (?n - 1)))] @
      [int_bl ?n (if (snum as < 0) \<noteq> (snum bs < 0) then - ?q else ?q)]). length c = ?n"
    by simp
  from Select_default [OF sel cases quo(3) this, unfolded idx] obtain fq where fq:
    "ae_Select L [last ns, last (ae_OrReduce L ds)]
      [(replicate ?n (lg_One L))[?n - 1 := lg_Zero L], (replicate ?n (lg_Zero L))[?n - 1 := lg_One L]] (Some quo) = Some fq"
    "V fq (if snum bs \<noteq> 0 then int_bl ?n (if (snum as < 0) \<noteq> (snum bs < 0) then - ?q else ?q)
      else if snum as < 0 then int_bl ?n (- (2 ^ (?n - 1))) else int_bl ?n (2 ^ (?n - 1) - 1))"
    by (auto elim!: yieldsE)
  have "ae_SDivMod L ns ds = Some \<lparr>dr_quotient = fq, dr_remainder = rem\<rparr>"
    using an(1) ad(1) d(1) rem(1,2) quo(1,2) fq(1) ne assms(3) lq qne by (simp add: ae_SDivMod_def Let_def)
  moreover have "snum bs \<noteq> 0 \<Longrightarrow> (if (snum as < 0) \<noteq> (snum bs < 0) then - ?q else ?q) = snum as sdiv snum bs"
    by (auto simp: signed_divide_int_def sgn_if)
  moreover have "(if snum as < 0 then - ?r else ?r) = (if snum bs = 0 then 0 else snum as smod snum bs)"
    by (auto simp: signed_modulo_int_def sgn_if)
  moreover have "int_bl ?m 0 = replicate ?m False" by (rule nth_equalityI) simp_all
  ultimately show ?thesis using fq(2) rem(3) by (auto split: if_splits)
qed

end

section \<open>Properties\<close>

text \<open>\<open>Add\<close>, \<open>Neg\<close> and \<open>Abs\<close> over an arbitrary sound logic are two's complement arithmetic.\<close>

lemma evaluator_add_exact:
  assumes "sound_logic L R" and "list_all2 R xs as" and "list_all2 R ys bs" and "length as = length bs" and "as \<noteq> []"
  shows "yields (list_all2 R) (ae_Add L xs ys) (nat_bl (length as) (unum as + unum bs)) \<and>
    yields (list_all2 R) (ae_Neg L xs) (int_bl (length as) (- snum as)) \<and>
    yields (list_all2 R) (ae_Abs L xs) (int_bl (length as) \<bar>snum as\<bar>)"
  using sound_logic.Add [OF assms(1-4)] sound_logic.Neg [OF assms(1,2,5)] sound_logic.Abs [OF assms(1,2,5)] by blast

text \<open>C10: the Dadda multiplier, over an arbitrary sound logic and for operands of any widths, zero included, terminates,
  passes its own checks on the column heights, and returns the exact product. The signed product
  is that of the sign-extended operands; it needs operands of at least one bit, on which sign extension is defined, and of fewer than
  \<open>2^30\<close> bits, because the doubled width is kept in 32 bits.\<close>

theorem dadda_multiplier_exact:
  assumes "sound_logic L R" and "list_all2 R xs as" and "list_all2 R ys bs"
  shows "yields (list_all2 R) (ae_UMul L xs ys) (nat_bl (length as + length bs) (unum as * unum bs)) \<and>
    unum as * unum bs < 2 ^ (length as + length bs) \<and>
    (0 < length as \<and> length as < 2 ^ 30 \<and> 0 < length bs \<and> length bs < 2 ^ 30 \<longrightarrow>
      yields (list_all2 R) (ae_SMul L xs ys) (int_bl (length as + length bs) (snum as * snum bs)))"
  using sound_logic.UMul [OF assms] sound_logic.SMul [OF assms] unum_mult_less [of as bs] by simp

theorem dadda_multiplier_exact_witness:
  "yields (list_all2 (=)) (ae_UMul bool_logic [True, True, True] [True, True, True])
     [True, False, False, False, True, True] \<and>
   yields (list_all2 (=)) (ae_SMul bool_logic [True, True, True] [True, True, True])
     [True, False, False, False, False, False]"
  using dadda_multiplier_exact [OF sound_bool_logic list_all2_eq_refl(1) list_all2_eq_refl(1),
      of "[True, True, True]" "[True, True, True]"]
  by (simp add: nat_bl_def int_bl_def snum_def bit_iff_odd)

text \<open>C22: long division over an arbitrary sound logic: the quotient and remainder of the unsigned and of
  the truncating signed division, with the results that the IR defines for a zero divisor.\<close>

theorem evaluator_division_exact:
  assumes "sound_logic L R" and "list_all2 R xs as" and "list_all2 R ys bs" and "as \<noteq> []" and "bs \<noteq> []"
  shows "yields (list_all2 R) (ae_UDiv L xs ys)
      (if unum bs = 0 then replicate (length as) True else nat_bl (length as) (unum as div unum bs)) \<and>
    yields (list_all2 R) (ae_UMod L xs ys)
      (if unum bs = 0 then replicate (length bs) False else nat_bl (length bs) (unum as mod unum bs)) \<and>
    yields (list_all2 R) (ae_SDiv L xs ys) (int_bl (length as)
      (if snum bs \<noteq> 0 then snum as sdiv snum bs
       else if snum as < 0 then - (2 ^ (length as - 1)) else 2 ^ (length as - 1) - 1)) \<and>
    yields (list_all2 R) (ae_SMod L xs ys)
      (if snum bs = 0 then replicate (length bs) False else int_bl (length bs) (snum as smod snum bs))"
  using sound_logic.UDivMod [OF assms(1-3)] sound_logic.SDivMod [OF assms]
  by (elim exE conjE) (simp add: ae_UDiv_def ae_UMod_def ae_SDiv_def ae_SMod_def yields_def)

theorem evaluator_division_exact_witness:
  "yields (list_all2 (=)) (ae_UDiv bool_logic [True, True, True] [True, True]) [False, True, False] \<and>
   yields (list_all2 (=)) (ae_UMod bool_logic [True, True, True] [True, True]) [True, False]"
  using evaluator_division_exact [OF sound_bool_logic list_all2_eq_refl(1) list_all2_eq_refl(1),
      of "[True, True, True]" "[True, True]"]
  by (simp add: nat_bl_def bit_iff_odd)

end
