(* ===== verification/Xls_Abstract_Node.thy ===== *)
theory Xls_Abstract_Node
  imports Xls_Abstract_Arith Xls_Verified
begin

text \<open>
  \<open>AbstractEvaluate\<close> of \<open>xls/ir/abstract_node_evaluator.h\<close>: the evaluation of a node on vectors of an abstract evaluator.

  The theory shows in the locale \<open>sound_logic\<close> that it simulates the interpreter: if the vectors of the operands stand for
  the operands' bits, the vector it returns stands for the bits that the interpreter gives the node. That it returns needs
  more than the verifier checks; \<open>analysable\<close> lists what is missing (operands without bits, and products too wide for a 32-bit width).
\<close>

section \<open>Evaluating a node\<close>

definition check_operand_count :: "'a list list \<Rightarrow> nat \<Rightarrow> 'a list option \<Rightarrow> 'a list statusor option" where
  "check_operand_count operands expected m = (if length operands \<noteq> expected then errorS InvalidArgument else map_option Inr m)"

definition ae_unary :: "'a list list \<Rightarrow> ('a list \<Rightarrow> 'a list option) \<Rightarrow> 'a list statusor option" where
  "ae_unary operands g = check_operand_count operands 1 (at_opt operands 0 \<bind> g)"

definition ae_binary :: "'a list list \<Rightarrow> ('a list \<Rightarrow> 'a list \<Rightarrow> 'a list option) \<Rightarrow> 'a list statusor option" where
  "ae_binary operands g = check_operand_count operands 2 (do { a \<leftarrow> at_opt operands 0; b \<leftarrow> at_opt operands 1; g a b })"

definition ae_bit :: "'a option \<Rightarrow> 'a list option" where
  "ae_bit m = map_option (\<lambda>x. [x]) m"

definition ae_fit :: "('a list \<Rightarrow> nat \<Rightarrow> 'a list option) \<Rightarrow> ir_node \<Rightarrow> 'a list \<Rightarrow> 'a list option" where
  "ae_fit ext nd result = do {
     expected_width \<leftarrow> BitCountOrDie nd;
     if length result > expected_width then ae_BitSlice result 0 expected_width
     else if length result < expected_width then ext result expected_width
     else Some result
   }"

definition selector_is_OneHot :: "ir_function \<Rightarrow> ir_node \<Rightarrow> bool option" where
  "selector_is_OneHot f nd = do {
     s \<leftarrow> operand nd 0;
     sel \<leftarrow> GetNode f s;
     Some (case node_op sel of OneHot priority \<Rightarrow> True | _ \<Rightarrow> False)
   }"

definition AbstractEvaluate_BinOp :: "'a logic \<Rightarrow> bin_op \<Rightarrow> 'a list list \<Rightarrow> 'a list statusor option" where
  "AbstractEvaluate_BinOp L op operands = ae_binary operands (case op of
     Op_Add \<Rightarrow> ae_Add L
   | Op_Sub \<Rightarrow> (\<lambda>a b. ae_Neg L b \<bind> ae_Add L a)
   | Op_UDiv \<Rightarrow> ae_UDiv L | Op_SDiv \<Rightarrow> ae_SDiv L | Op_UMod \<Rightarrow> ae_UMod L | Op_SMod \<Rightarrow> ae_SMod L
   | Op_Shll \<Rightarrow> ae_ShiftLeftLogical L | Op_Shra \<Rightarrow> ae_ShiftRightArith L | Op_Shrl \<Rightarrow> ae_ShiftRightLogical L)"

definition AbstractEvaluate_NaryOp :: "'a logic \<Rightarrow> nary_op \<Rightarrow> 'a list list \<Rightarrow> 'a list option" where
  "AbstractEvaluate_NaryOp L op operands = (case op of
     Op_And \<Rightarrow> ae_BitwiseAnd L operands
   | Op_Nand \<Rightarrow> map_option (ae_BitwiseNot L) (ae_BitwiseAnd L operands)
   | Op_Nor \<Rightarrow> map_option (ae_BitwiseNot L) (ae_BitwiseOr L operands)
   | Op_Or \<Rightarrow> ae_BitwiseOr L operands
   | Op_Xor \<Rightarrow> ae_BitwiseXor L operands)"

definition AbstractEvaluate_CompareOp :: "'a logic \<Rightarrow> compare_op \<Rightarrow> 'a list list \<Rightarrow> 'a list statusor option" where
  "AbstractEvaluate_CompareOp L op operands = ae_binary operands (\<lambda>a b. ae_bit (case op of
     Op_Eq \<Rightarrow> ae_Equals L a b
   | Op_Ne \<Rightarrow> map_option (lg_Not L) (ae_Equals L a b)
   | Op_SGe \<Rightarrow> map_option (lg_Not L) (ae_SLessThan L a b)
   | Op_SGt \<Rightarrow> ae_SLessThan L b a
   | Op_SLe \<Rightarrow> map_option (lg_Not L) (ae_SLessThan L b a)
   | Op_SLt \<Rightarrow> ae_SLessThan L a b
   | Op_UGe \<Rightarrow> map_option (lg_Not L) (ae_ULessThan L a b)
   | Op_UGt \<Rightarrow> ae_ULessThan L b a
   | Op_ULe \<Rightarrow> map_option (lg_Not L) (ae_ULessThan L b a)
   | Op_ULt \<Rightarrow> ae_ULessThan L a b))"

definition AbstractEvaluate_Select :: "'a logic \<Rightarrow> bool \<Rightarrow> 'a list list \<Rightarrow> 'a list option" where
  "AbstractEvaluate_Select L has_default operands = do {
     selector \<leftarrow> at_opt operands 0;
     let cases = (if has_default then take (length operands - 2) (drop 1 operands) else drop 1 operands);
     let default_value = (if has_default then Some (last operands) else None);
     ae_Select L selector cases default_value
   }"

text \<open>\<open>default_handler\<close> gives the result of the operations that the evaluator does not implement.\<close>

definition AbstractEvaluate ::
    "'a logic \<Rightarrow> ir_function \<Rightarrow> (ir_node \<Rightarrow> 'a list option) \<Rightarrow> ir_node \<Rightarrow> 'a list list \<Rightarrow> 'a list statusor option" where
  "AbstractEvaluate L f default_handler nd operands = (case node_op nd of
     BinOp op \<Rightarrow> AbstractEvaluate_BinOp L op operands
   | ArithOp op w \<Rightarrow> (case op of
        Op_SMul \<Rightarrow> ae_binary operands (\<lambda>a b. ae_SMul L a b \<bind> ae_fit ae_SignExtend nd)
      | Op_UMul \<Rightarrow> ae_binary operands (\<lambda>a b. ae_UMul L a b \<bind> ae_fit (ae_ZeroExtend L) nd))
   | PartialProductOp op w \<Rightarrow> errorS Unimplemented
   | NaryOp op \<Rightarrow> map_option Inr (AbstractEvaluate_NaryOp L op operands)
   | BitwiseReductionOp op \<Rightarrow> map_option Inr (map_option (case op of
        Op_AndReduce \<Rightarrow> ae_AndReduce L | Op_OrReduce \<Rightarrow> ae_OrReduce L | Op_XorReduce \<Rightarrow> ae_XorReduce L) (at_opt operands 0))
   | CompareOp op \<Rightarrow> AbstractEvaluate_CompareOp L op operands
   | UnOp op \<Rightarrow> ae_unary operands (case op of
        Op_Identity \<Rightarrow> Some | Op_Neg \<Rightarrow> ae_Neg L | Op_Not \<Rightarrow> (\<lambda>a. Some (ae_BitwiseNot L a)) | Op_Reverse \<Rightarrow> (\<lambda>a. Some (rev a)))
   | ExtendOp op w \<Rightarrow> ae_unary operands (\<lambda>a. do {
        width \<leftarrow> BitCountOrDie nd;
        (case op of Op_SignExt \<Rightarrow> ae_SignExtend a width | Op_ZeroExt \<Rightarrow> ae_ZeroExtend L a width)
      })
   | BitSlice start width \<Rightarrow> ae_unary operands (\<lambda>a. do { CHECK (0 \<le> start \<and> 0 \<le> width); ae_BitSlice a (nat start) (nat width) })
   | BitSliceUpdate \<Rightarrow> check_operand_count operands 3 (do {
        a \<leftarrow> at_opt operands 0; start \<leftarrow> at_opt operands 1; u \<leftarrow> at_opt operands 2; ae_BitSliceUpdate L a start u })
   | Concat \<Rightarrow> map_option Inr (Some (ae_Concat operands))
   | Decode w \<Rightarrow> ae_unary operands (\<lambda>a. ae_Decode L a w)
   | Encode \<Rightarrow> ae_unary operands (\<lambda>a. Some (ae_Encode L a))
   | OneHot priority \<Rightarrow> ae_unary operands (\<lambda>a. Some (if priority = kLsb then ae_OneHotLsbToMsb L a else ae_OneHotMsbToLsb L a))
   | OneHotSelect \<Rightarrow> map_option Inr (do {
        selector \<leftarrow> at_opt operands 0;
        one_hot \<leftarrow> selector_is_OneHot f nd;
        ae_OneHotSelect L selector (drop 1 operands) (\<not> one_hot) })
   | PrioritySelect \<Rightarrow> map_option Inr (do {
        selector \<leftarrow> at_opt operands 0;
        one_hot \<leftarrow> selector_is_OneHot f nd;
        ae_PrioritySelect L selector (drop 1 operands) (\<not> one_hot) })
   | Select cases has_default \<Rightarrow> map_option Inr (AbstractEvaluate_Select L has_default operands)
   | Literal v \<Rightarrow> check_operand_count operands 0 (case v of VBits b \<Rightarrow> Some (ae_BitsToVector L b) | _ \<Rightarrow> default_handler nd)
   | _ \<Rightarrow> map_option Inr (default_handler nd))"

section \<open>What the interpreter computes\<close>

text \<open>The bits of the operands in a state, and the bits of a node after its visit.\<close>

definition operand_reps :: "interp \<Rightarrow> ir_node \<Rightarrow> bool list list \<Rightarrow> bool" where
  "operand_reps st nd bss \<longleftrightarrow> list_all2 (\<lambda>a bs. \<exists>b. node_values st a = Some (VBits b) \<and> rep b bs) (node_operands nd) bss"

definition result_is :: "nat \<Rightarrow> interp \<Rightarrow> bool list \<Rightarrow> bool" where
  "result_is n st bs \<longleftrightarrow> (\<exists>b. node_values st n = Some (VBits b) \<and> rep b bs)"

lemma operand_reps_length: "operand_reps st nd bss \<Longrightarrow> length bss = length (node_operands nd)"
  by (auto simp: operand_reps_def dest: list_all2_lengthD)

lemma operand_reps_nth:
  assumes "operand_reps st nd bss" and "i < length bss"
  shows "\<exists>b. operand_bits st nd i = Some b \<and> operand_value st nd i = Some (VBits b) \<and> rep b (bss ! i)"
  using assms
  by (auto simp: operand_reps_def list_all2_conv_all_nth operand_bits_def operand_value_def operand_def at_opt_def ResolveAsBits_def
      ResolveAsValue_def Value_bits_def)

lemma operand_reps_Vector:
  assumes "operand_reps st nd bss"
  shows "\<exists>bs. ResolveAsBitsVector st (node_operands nd) = Some bs \<and> list_all2 rep bs bss"
  using assms unfolding operand_reps_def ResolveAsBitsVector_def
proof (induction rule: list_all2_induct)
  case (Cons a as bs bss)
  then obtain b cs where b: "node_values st a = Some (VBits b)" "rep b bs" "those (map (ResolveAsBits st) as) = Some cs" "list_all2 rep cs bss" by auto
  then have "ResolveAsBits st a = Some b" by (simp add: ResolveAsBits_def Value_bits_def)
  then show ?case using b by (intro exI[of _ "b # cs"]) simp
qed simp

lemma SetValueResult_returns: "SetValueResult n nd v st = returnS st' \<Longrightarrow> node_values st n = None \<and> st' = st\<lparr>node_values := (node_values st)(n \<mapsto> v)\<rparr>"
  by (auto simp: SetValueResult_def split: if_splits bind_splits)

lemma SetBitsResult_returns: "SetBitsResult n nd b st = returnS st' \<Longrightarrow> node_values st n = None \<and> st' = st\<lparr>node_values := (node_values st)(n \<mapsto> VBits b)\<rparr>"
  by (auto simp: SetBitsResult_def split: if_splits bind_splits dest: SetValueResult_returns)

lemma set_bits_result: "SetBitsResult n nd b st = returnS st' \<Longrightarrow> rep b bs \<Longrightarrow> result_is n st' bs"
  by (auto simp: result_is_def dest: SetBitsResult_returns)

lemma set_value_result: "SetValueResult n nd (VBits b) st = returnS st' \<Longrightarrow> rep b bs \<Longrightarrow> result_is n st' bs"
  by (auto simp: result_is_def dest: SetValueResult_returns)

lemma returns_set: "m \<bind> (\<lambda>r. SetBitsResult n nd r st) = returnS st' \<Longrightarrow> returns m rs \<Longrightarrow> result_is n st' rs"
  by (auto simp: returns_def dest: set_bits_result)

lemma unary_result:
  assumes "operand_reps st nd [as]" and "bits_unary g n nd st = returnS st'" and "\<And>a. rep a as \<Longrightarrow> returns (g a) rs"
  shows "result_is n st' rs"
  using operand_reps_nth[OF assms(1), of 0] assms(2,3) by (auto simp: bits_unary_def intro: returns_set)

lemma binary_result:
  assumes "operand_reps st nd [as, bs]" and "bits_binary g n nd st = returnS st'" and "\<And>a b. rep a as \<Longrightarrow> rep b bs \<Longrightarrow> returns (g a b) rs"
  shows "result_is n st' rs"
  using operand_reps_nth[OF assms(1), of 0] operand_reps_nth[OF assms(1), of 1] assms(2,3)
  by (auto simp: bits_binary_def intro: returns_set)

lemma nary_result:
  assumes "operand_reps st nd bss" and "bits_nary_handler g n nd st = returnS st'" and "\<And>bs. list_all2 rep bs bss \<Longrightarrow> returns (g bs) rs"
  shows "result_is n st' rs"
  using operand_reps_Vector[OF assms(1)] assms(2,3) by (auto simp: bits_nary_handler_def intro: returns_set)

lemma compare_result:
  assumes "operand_reps st nd [as, bs]" and "bits_compare g n nd st = returnS st'" and "\<And>a b. rep a as \<Longrightarrow> rep b bs \<Longrightarrow> g a b = Some c"
    and "node_type nd = BitsType 1"
  shows "result_is n st' [c]"
proof -
  obtain a b where ab: "operand_bits st nd 0 = Some a" "operand_bits st nd 1 = Some b" "rep a as" "rep b bs"
    using operand_reps_nth[OF assms(1), of 0] operand_reps_nth[OF assms(1), of 1] by auto
  then have "SetUint64Result n nd (if c then 1 else 0) st = returnS st'" using assms(2,3) by (simp add: bits_compare_def)
  then obtain r where r: "UBits (if c then 1 else 0) 1 = Some r" "SetValueResult n nd (VBits r) st = returnS st'"
    using assms(4) by (auto simp: SetUint64Result_def BitCountOrDie_def Type_AsBitsOrDie_def split: if_splits bind_splits)
  then show ?thesis using returns_bit[of c] by (auto simp: returns_def split: if_splits intro: set_value_result)
qed

section \<open>Simulation\<close>

text \<open>The abstract evaluation returns a vector that stands for the bits of the node.\<close>

definition yieldsS :: "('a \<Rightarrow> 'b \<Rightarrow> bool) \<Rightarrow> 'a statusor option \<Rightarrow> 'b \<Rightarrow> bool" where
  "yieldsS R m y \<longleftrightarrow> (\<exists>x. m = returnS x \<and> R x y)"

lemma yieldsS_map [simp]: "yieldsS R (map_option Inr m) y \<longleftrightarrow> yields R m y"
  by (auto simp: yieldsS_def yields_def returnS_def)

lemma yieldsS_Some [simp]: "yieldsS R (Some (Inr x)) y \<longleftrightarrow> R x y"
  by (auto simp: yieldsS_def returnS_def)

lemma yieldsS_unary: "yieldsS R (ae_unary [x] g) y \<longleftrightarrow> yields R (g x) y"
  by (simp add: ae_unary_def check_operand_count_def at_opt_def)

lemma yieldsS_binary: "yieldsS R (ae_binary [x, y] g) z \<longleftrightarrow> yields R (g x y) z"
  by (simp add: ae_binary_def check_operand_count_def at_opt_def)

lemma yields_map: "yields R m y \<Longrightarrow> (\<And>x. R x y \<Longrightarrow> S (g x) z) \<Longrightarrow> yields S (map_option g m) z"
  by (auto simp: yields_def)

definition simulates :: "('a \<Rightarrow> bool \<Rightarrow> bool) \<Rightarrow> 'a list statusor option \<Rightarrow> nat \<Rightarrow> interp \<Rightarrow> bool" where
  "simulates R m n st \<longleftrightarrow> (\<exists>rs. yieldsS (list_all2 R) m rs \<and> result_is n st rs)"

lemma simulatesI: "yieldsS (list_all2 R) m rs \<Longrightarrow> result_is n st rs \<Longrightarrow> simulates R m n st"
  by (auto simp: simulates_def)

text \<open>A node with its operands' types, bits and vectors.\<close>

definition evaluated :: "('a \<Rightarrow> bool \<Rightarrow> bool) \<Rightarrow> ir_function \<Rightarrow> ir_node \<Rightarrow> interp \<Rightarrow> 'a list list \<Rightarrow> bool list list \<Rightarrow> bool" where
  "evaluated R f nd st xs bss \<longleftrightarrow> operand_reps st nd bss \<and> list_all2 (list_all2 R) xs bss \<and>
     list_all2 (\<lambda>a bs. GetType f a = Some (BitsType (length bs))) (node_operands nd) bss"

lemma evaluated_length: "evaluated R f nd st xs bss \<Longrightarrow> length bss = length (node_operands nd) \<and> length xs = length (node_operands nd)"
  by (auto simp: evaluated_def dest!: list_all2_lengthD)

lemma evaluated_type: "evaluated R f nd st xs bss \<Longrightarrow> operand_type f nd i = Some t \<Longrightarrow> i < length bss \<and> t = BitsType (length (bss ! i))"
  by (auto simp: evaluated_def list_all2_conv_all_nth operand_type_def operand_def at_opt_def split: Option.bind_splits if_splits)

lemma length1E: "length xs = 1 \<Longrightarrow> (\<And>x. xs = [x] \<Longrightarrow> P) \<Longrightarrow> P"
  by (cases xs) auto

lemma length2E: "length xs = 2 \<Longrightarrow> (\<And>x y. xs = [x, y] \<Longrightarrow> P) \<Longrightarrow> P"
  by (auto simp: numeral_2_eq_2 length_Suc_conv)

lemma length3E: "length xs = 3 \<Longrightarrow> (\<And>x y z. xs = [x, y, z] \<Longrightarrow> P) \<Longrightarrow> P"
  by (auto simp: numeral_3_eq_3 length_Suc_conv)

lemma evaluated1:
  assumes "evaluated R f nd st xs bss" and "length (node_operands nd) = 1"
  obtains x bs where "xs = [x]" "bss = [bs]" "operand_reps st nd [bs]" "list_all2 R x bs" "operand_type f nd 0 = Some (BitsType (length bs))"
proof -
  have "length xs = 1" "length bss = 1" using evaluated_length[OF assms(1)] assms(2) by simp_all
  then obtain x bs where xs: "xs = [x]" "bss = [bs]" by (elim length1E)
  then show ?thesis using that assms by (auto simp: evaluated_def operand_type_def operand_def at_opt_def list_all2_Cons2)
qed

lemma evaluated2:
  assumes "evaluated R f nd st xs bss" and "length (node_operands nd) = 2"
  obtains x y as bs where "xs = [x, y]" "bss = [as, bs]" "operand_reps st nd [as, bs]" "list_all2 R x as" "list_all2 R y bs"
    "operand_type f nd 0 = Some (BitsType (length as))" "operand_type f nd 1 = Some (BitsType (length bs))"
proof -
  have "length xs = 2" "length bss = 2" using evaluated_length[OF assms(1)] assms(2) by simp_all
  then obtain x y as bs where xs: "xs = [x, y]" "bss = [as, bs]" by (elim length2E)
  then show ?thesis using that assms by (auto simp: evaluated_def operand_type_def operand_def at_opt_def list_all2_Cons2)
qed

text \<open>
  What the evaluator needs beyond the checks of the verifier: it aborts on operands of width zero in the signed operations,
  in subtraction and in negation, and it keeps the doubled width of a signed product in 32 bits. The last conditions are
  operand counts that the constructors of the node classes fix and the verifier does not check.
\<close>

definition analysable :: "ir_function \<Rightarrow> ir_node \<Rightarrow> bool" where
  "analysable f nd \<longleftrightarrow> (case node_op nd of
     BinOp op \<Rightarrow> length (node_operands nd) = 2 \<and> (op \<in> {Op_Sub, Op_SDiv, Op_SMod} \<longrightarrow> bits_operand f nd 0 (\<lambda>w. 0 < w))
   | ArithOp op w \<Rightarrow> op = Op_SMul \<longrightarrow> bits_operand f nd 0 (\<lambda>w. 0 < w \<and> w < 2 ^ 30) \<and> bits_operand f nd 1 (\<lambda>w. 0 < w \<and> w < 2 ^ 30)
   | CompareOp op \<Rightarrow> op \<in> {Op_SGe, Op_SGt, Op_SLe, Op_SLt} \<longrightarrow> bits_operand f nd 0 (\<lambda>w. 0 < w)
   | UnOp op \<Rightarrow> op = Op_Neg \<longrightarrow> bits_operand f nd 0 (\<lambda>w. 0 < w)
   | ExtendOp op w \<Rightarrow> op = Op_SignExt \<longrightarrow> bits_operand f nd 0 (\<lambda>w. 0 < w)
   | BitSliceUpdate \<Rightarrow> length (node_operands nd) = 3
   | Decode w \<Rightarrow> length (node_operands nd) = 1
   | Encode \<Rightarrow> length (node_operands nd) = 1
   | _ \<Rightarrow> True)"

section \<open>Arithmetic\<close>

lemma shift_bits_result:
  assumes "operand_reps st nd [as, bs]" and "bits_shift g n nd st = returnS st'" and "length as < 2 ^ 64"
    and "\<And>a k. rep a as \<Longrightarrow> returns (g a k) (shift_result as right arithmetic k)"
  shows "result_is n st' (shift_result as right arithmetic (unum bs))"
proof -
  obtain a b where ab: "operand_bits st nd 0 = Some a" "operand_bits st nd 1 = Some b" "rep a as" "rep b bs"
    using operand_reps_nth[OF assms(1), of 0] operand_reps_nth[OF assms(1), of 1] by auto
  obtain c where c: "operand nd 1 = Some c" "ResolveAsBits st c = Some b" using ab(2) by (auto simp: operand_bits_def split: Option.bind_splits)
  let ?k = "of_nat (min (unum bs) (length as)) :: uint64"
  have k: "unat ?k = min (unum bs) (length as)" "unat (of_nat (length as) :: uint64) = length as"
    using assms(3) unat_of_nat64[of "min (unum bs) (length as)"] unat_of_nat64[of "length as"] by auto
  have "g a (unat ?k) \<bind> (\<lambda>r. SetBitsResult n nd r st) = returnS st'"
    using assms(2) ab c BitsToBoundedUint64_ok[OF ab(4), of "of_nat (length as)"] k(2)
    by (simp add: bits_shift_def ResolveAsBoundedUint64_def rep_count[OF ab(3)] del: of_nat_min)
  moreover have "returns (g a (unat ?k)) (shift_result as right arithmetic (unum bs))"
    using assms(4)[OF ab(3), of "unat ?k"] k(1) shift_result_min by metis
  ultimately show ?thesis by (rule returns_set)
qed

context sound_logic
begin

lemma Sub_yields:
  assumes "V x as" and "V y bs" and "length as = length bs" and "as \<noteq> []"
  shows "yields V (ae_Neg L y \<bind> ae_Add L x) (int_bl (length as) (int (unum as) - int (unum bs)))"
proof -
  have "bs \<noteq> []" using assms(3,4) by auto
  then obtain z where z: "ae_Neg L y = Some z" "V z (int_bl (length bs) (- int (unum bs)))"
    using Neg_unum[OF assms(2)] by (auto simp: yields_def)
  have "nat_bl (length as) (unum as + unum (int_bl (length bs) (- int (unum bs)))) = int_bl (length as) (int (unum as) - int (unum bs))"
    using assms(3) by (intro int_bl_eqI) (simp_all add: of_nat_mod unum_int_bl mod_simps)
  then show ?thesis using Add[OF assms(1) z(2)] assms(3) z(1) by simp
qed

lemma Shift_simulates:
  assumes ok: "NodeChecker_HandleShiftOp f nd = returnS ()" and ev: "evaluated R f nd st xs bss"
    and vis: "HandleBinOp B op n nd st = returnS st'" and op: "op \<in> {Op_Shll, Op_Shra, Op_Shrl}"
    and sized: "machine_sized (node_type nd)" and arity: "length (node_operands nd) = 2"
  shows "simulates R (AbstractEvaluate_BinOp L op xs) n st'"
proof -
  obtain w where w: "node_type nd = BitsType w" "operand_type f nd 0 = Some (BitsType w)"
    using ok by (auto simp: NodeChecker_HandleShiftOp_def expect_iff bind_returnS_iff)
  obtain x y as bs where xs: "xs = [x, y]" "operand_reps st nd [as, bs]" "V x as" "V y bs" "operand_type f nd 0 = Some (BitsType (length as))"
    using evaluated2[OF ev arity] by metis
  have len: "length as < 2 ^ 64" using w xs(5) sized by simp
  note res = shift_bits_result[OF xs(2) _ len]
  have left: "result_is n st' (shift_result as False False (unum bs))" if "op = Op_Shll"
    using vis that returns_ShiftLeftLogical by (intro res) (auto simp: HandleBinOp_def HandleShll_def shift_result_num)
  have logical: "result_is n st' (shift_result as True False (unum bs))" if "op = Op_Shrl"
    using vis that returns_ShiftRightLogical by (intro res) (auto simp: HandleBinOp_def HandleShrl_def shift_result_num)
  have arith: "result_is n st' (shift_result as True True (unum bs))" if "op = Op_Shra"
    using vis that returns_ShiftRightArith by (intro res) (auto simp: HandleBinOp_def HandleShra_def shift_result_num)
  note shift = AbstractEvaluate_BinOp_def xs(1) yieldsS_binary ae_ShiftLeftLogical_def ae_ShiftRightLogical_def ae_ShiftRightArith_def
  consider "op = Op_Shll" | "op = Op_Shrl" | "op = Op_Shra" using op by blast
  then show ?thesis
  proof cases
    case 1
    then show ?thesis using Shift[OF xs(3,4) len, of False False] by (intro simulatesI[OF _ left]) (simp_all add: shift)
  next
    case 2
    then show ?thesis using Shift[OF xs(3,4) len, of False True] by (intro simulatesI[OF _ logical]) (simp_all add: shift)
  next
    case 3
    then show ?thesis using Shift[OF xs(3,4) len, of True True] by (intro simulatesI[OF _ arith]) (simp_all add: shift)
  qed
qed

lemma Div_yields:
  assumes "V x as" and "V y bs"
  shows "yields V (ae_UDiv L x y) (if unum bs = 0 then replicate (length as) True else nat_bl (length as) (unum as div unum bs))"
    and "yields V (ae_UMod L x y) (if unum bs = 0 then replicate (length bs) False else nat_bl (length bs) (unum as mod unum bs))"
  using UDivMod[OF assms] by (auto simp: ae_UDiv_def ae_UMod_def)

lemma SDiv_yields:
  assumes "V x as" and "V y bs" and "as \<noteq> []" and "bs \<noteq> []"
  shows "yields V (ae_SDiv L x y) (int_bl (length as) (if snum bs \<noteq> 0 then snum as sdiv snum bs
      else if snum as < 0 then - (2 ^ (length as - 1)) else 2 ^ (length as - 1) - 1))"
    and "yields V (ae_SMod L x y) (if snum bs = 0 then replicate (length bs) False else int_bl (length bs) (snum as smod snum bs))"
  using SDivMod[OF assms] by (auto simp: ae_SDiv_def ae_SMod_def)

lemma Arith_simulates:
  assumes B: "bignum B num" and ok: "seq_ok [ExpectOperandCount nd 2, ExpectAllSameBitsType f nd] = returnS ()" and ev: "evaluated R f nd st xs bss"
    and vis: "HandleBinOp B op n nd st = returnS st'" and op: "op \<notin> {Op_Shll, Op_Shra, Op_Shrl}"
    and nz: "op \<in> {Op_Sub, Op_SDiv, Op_SMod} \<Longrightarrow> bits_operand f nd 0 (\<lambda>w. 0 < w)"
  shows "simulates R (AbstractEvaluate_BinOp L op xs) n st'"
proof -
  obtain w where w: "length (node_operands nd) = 2" "node_type nd = BitsType w" "\<forall>i<length (node_operands nd). operand_type f nd i = Some (BitsType w)"
    using ok by (auto simp: expect_iff)
  obtain x y as bs where xs: "xs = [x, y]" "operand_reps st nd [as, bs]" "V x as" "V y bs" "operand_type f nd 0 = Some (BitsType (length as))"
      "operand_type f nd 1 = Some (BitsType (length bs))"
    using evaluated2[OF ev w(1)] by metis
  have len: "length as = length bs" using w xs(5,6) by auto
  have ne: "as \<noteq> []" "bs \<noteq> []" if "op \<in> {Op_Sub, Op_SDiv, Op_SMod}" using nz[OF that] xs(5) len by (auto simp: bits_operand_def)
  note res = binary_result[OF xs(2)]
  show ?thesis
  proof (cases op)
    case Op_Add
    then show ?thesis using Add[OF xs(3,4) len] vis bignum.returns_Add[OF B _ _ len]
      by (intro simulatesI[OF _ res]) (auto simp: AbstractEvaluate_BinOp_def xs(1) yieldsS_binary HandleBinOp_def HandleAdd_def)
  next
    case Op_Sub
    then show ?thesis using Sub_yields[OF xs(3,4) len ne(1)] vis bignum.returns_Sub[OF B _ _ len]
      by (intro simulatesI[OF _ res]) (auto simp: AbstractEvaluate_BinOp_def xs(1) yieldsS_binary HandleBinOp_def HandleSub_def)
  next
    case Op_UDiv
    then show ?thesis using Div_yields(1)[OF xs(3,4)] vis bignum.returns_UDiv[OF B]
      by (intro simulatesI[OF _ res]) (auto simp: AbstractEvaluate_BinOp_def xs(1) yieldsS_binary HandleBinOp_def HandleUDiv_def)
  next
    case Op_UMod
    then show ?thesis using Div_yields(2)[OF xs(3,4)] vis bignum.returns_UMod[OF B]
      by (intro simulatesI[OF _ res]) (auto simp: AbstractEvaluate_BinOp_def xs(1) yieldsS_binary HandleBinOp_def HandleUMod_def)
  next
    case Op_SDiv
    then show ?thesis using SDiv_yields(1)[OF xs(3,4) ne] vis bignum.returns_SDiv[OF B]
      by (intro simulatesI[OF _ res]) (auto simp: AbstractEvaluate_BinOp_def xs(1) yieldsS_binary HandleBinOp_def HandleSDiv_def)
  next
    case Op_SMod
    then show ?thesis using SDiv_yields(2)[OF xs(3,4) ne] vis bignum.returns_SMod[OF B]
      by (intro simulatesI[OF _ res]) (auto simp: AbstractEvaluate_BinOp_def xs(1) yieldsS_binary HandleBinOp_def HandleSMod_def)
  qed (use op in auto)
qed

lemma BinOp_simulates:
  assumes B: "bignum B num" and ok: "NodeChecker_BinOp op f nd = returnS ()" and ev: "evaluated R f nd st xs bss"
    and vis: "HandleBinOp B op n nd st = returnS st'" and nz: "op \<in> {Op_Sub, Op_SDiv, Op_SMod} \<longrightarrow> bits_operand f nd 0 (\<lambda>w. 0 < w)"
    and sized: "machine_sized (node_type nd)" and arity: "length (node_operands nd) = 2"
  shows "simulates R (AbstractEvaluate_BinOp L op xs) n st'"
proof (cases "op \<in> {Op_Shll, Op_Shra, Op_Shrl}")
  case True
  then have "NodeChecker_HandleShiftOp f nd = returnS ()"
    using ok by (auto simp: NodeChecker_BinOp_def NodeChecker_HandleShll_def NodeChecker_HandleShra_def NodeChecker_HandleShrl_def)
  then show ?thesis using Shift_simulates[OF _ ev vis True sized arity] by blast
next
  case False
  then have "seq_ok [ExpectOperandCount nd 2, ExpectAllSameBitsType f nd] = returnS ()"
    using ok by (cases op) (auto simp: NodeChecker_BinOp_def NodeChecker_HandleAdd_def NodeChecker_HandleSub_def
        NodeChecker_HandleUDiv_def NodeChecker_HandleSDiv_def NodeChecker_HandleUMod_def NodeChecker_HandleSMod_def)
  then show ?thesis using Arith_simulates[OF B _ ev vis False] nz by blast
qed

end

context sound_logic
begin

lemma UnOp_simulates:
  assumes B: "bignum B num" and ok: "NodeChecker_UnOp op f nd = returnS ()" and ev: "evaluated R f nd st xs bss"
    and vis: "HandleUnOp B op n nd st = returnS st'" and nz: "op = Op_Neg \<longrightarrow> bits_operand f nd 0 (\<lambda>w. 0 < w)"
  shows "simulates R (ae_unary xs (case op of
     Op_Identity \<Rightarrow> Some | Op_Neg \<Rightarrow> ae_Neg L | Op_Not \<Rightarrow> (\<lambda>a. Some (ae_BitwiseNot L a)) | Op_Reverse \<Rightarrow> (\<lambda>a. Some (rev a)))) n st'"
proof -
  have len: "length (node_operands nd) = 1"
    using ok by (cases op) (auto simp: NodeChecker_UnOp_def NodeChecker_HandleIdentity_def NodeChecker_HandleNeg_def
        NodeChecker_HandleNot_def NodeChecker_HandleReverse_def expect_iff)
  obtain x as where xs: "xs = [x]" "operand_reps st nd [as]" "V x as" "operand_type f nd 0 = Some (BitsType (length as))"
    using evaluated1[OF ev len] by metis
  note res = unary_result[OF xs(2)]
  show ?thesis
  proof (cases op)
    case Op_Identity
    then obtain b where "SetValueResult n nd (VBits b) st = returnS st'" "rep b as"
      using vis operand_reps_nth[OF xs(2), of 0] by (auto simp: HandleUnOp_def HandleIdentity_def)
    then show ?thesis using xs(3) Op_Identity by (intro simulatesI[OF _ set_value_result]) (auto simp: xs(1) yieldsS_unary)
  next
    case Op_Neg
    then have "as \<noteq> []" using nz xs(4) by (auto simp: bits_operand_def)
    then show ?thesis using Op_Neg Neg[OF xs(3)] vis bignum.returns_Negate[OF B]
      by (intro simulatesI[OF _ res]) (auto simp: xs(1) yieldsS_unary HandleUnOp_def HandleNeg_def)
  next
    case Op_Not
    then show ?thesis using BitwiseNot[OF xs(3)] vis returns_Not
      by (intro simulatesI[OF _ res]) (auto simp: xs(1) yieldsS_unary HandleUnOp_def HandleNot_def)
  next
    case Op_Reverse
    then show ?thesis using xs(3) vis rep_Reverse
      by (intro simulatesI[where rs = "rev as", OF _ res]) (auto simp: xs(1) yieldsS_unary HandleUnOp_def HandleReverse_def returns_def)
  qed
qed

lemma Reduction_simulates:
  assumes ok: "NodeChecker_Reduction op f nd = returnS ()" and ev: "evaluated R f nd st xs bss" and vis: "HandleReduction op n nd st = returnS st'"
  shows "simulates R (map_option Inr (map_option (case op of
     Op_AndReduce \<Rightarrow> ae_AndReduce L | Op_OrReduce \<Rightarrow> ae_OrReduce L | Op_XorReduce \<Rightarrow> ae_XorReduce L) (at_opt xs 0))) n st'"
proof -
  have len: "length (node_operands nd) = 1"
    using ok by (cases op) (auto simp: NodeChecker_Reduction_def NodeChecker_HandleAndReduce_def NodeChecker_HandleOrReduce_def
        NodeChecker_HandleXorReduce_def expect_iff)
  obtain x as where xs: "xs = [x]" "operand_reps st nd [as]" "V x as" using evaluated1[OF ev len] by metis
  note res = unary_result[OF xs(2)]
  show ?thesis
  proof (cases op)
    case Op_AndReduce
    then show ?thesis using AndReduce[OF xs(3)] vis returns_AndReduce
      by (intro simulatesI[OF _ res]) (auto simp: xs(1) at_opt_def HandleReduction_def HandleAndReduce_def)
  next
    case Op_OrReduce
    then show ?thesis using OrReduce[OF xs(3)] vis returns_OrReduce
      by (intro simulatesI[OF _ res]) (auto simp: xs(1) at_opt_def HandleReduction_def HandleOrReduce_def)
  next
    case Op_XorReduce
    then show ?thesis using XorReduce[OF xs(3)] vis returns_XorReduce
      by (intro simulatesI[OF _ res]) (auto simp: xs(1) at_opt_def HandleReduction_def HandleXorReduce_def)
  qed
qed

lemma yields_bit: "yields R m c \<Longrightarrow> yields V (ae_bit m) [c]"
  by (auto simp: yields_def ae_bit_def)

lemma yields_not: "yields R m c \<Longrightarrow> yields R (map_option (lg_Not L) m) (\<not> c)"
  by (auto simp: yields_def)

lemma CompareOp_simulates:
  assumes B: "bignum B num" and ok: "NodeChecker_CompareOp op f nd = returnS ()" and ev: "evaluated R f nd st xs bss"
    and vis: "HandleCompareOp B f op n nd st = returnS st'"
    and nz: "op \<in> {Op_SGe, Op_SGt, Op_SLe, Op_SLt} \<longrightarrow> bits_operand f nd 0 (\<lambda>w. 0 < w)"
  shows "simulates R (AbstractEvaluate_CompareOp L op xs) n st'"
proof -
  have chk: "seq_ok [ExpectOperandCount nd 2, ExpectOperandsSameBitsType f nd, ExpectHasBitsType (node_type nd) 1] = returnS ()"
    using ok by (cases op) (auto simp: NodeChecker_CompareOp_def NodeChecker_HandleEq_def NodeChecker_HandleNe_def
        NodeChecker_HandleSGe_def NodeChecker_HandleSGt_def NodeChecker_HandleSLe_def NodeChecker_HandleSLt_def
        NodeChecker_HandleUGe_def NodeChecker_HandleUGt_def NodeChecker_HandleULe_def NodeChecker_HandleULt_def)
  then have arity: "length (node_operands nd) = 2" and ty: "node_type nd = BitsType 1" by (auto simp: expect_iff)
  obtain x y as bs where xs: "xs = [x, y]" "operand_reps st nd [as, bs]" "V x as" "V y bs" "operand_type f nd 0 = Some (BitsType (length as))"
      "operand_type f nd 1 = Some (BitsType (length bs))"
    using evaluated2[OF ev arity] by metis
  have len: "length as = length bs" using chk xs(5,6) by (auto simp: expect_iff)
  have ne: "as \<noteq> []" "bs \<noteq> []" if "op \<in> {Op_SGe, Op_SGt, Op_SLe, Op_SLt}" using nz that xs(5) len by (auto simp: bits_operand_def)
  note slt = bignum.SLessThan_iff[OF B] and sle = bignum.SLessThanOrEqual_iff[OF B]
  have sim: "simulates R (AbstractEvaluate_CompareOp L op xs) n st'"
    if "bits_compare g n nd st = returnS st'" "\<And>a b. rep a as \<Longrightarrow> rep b bs \<Longrightarrow> g a b = Some c"
      "yields V (ae_bit (case op of Op_Eq \<Rightarrow> ae_Equals L x y
       | Op_Ne \<Rightarrow> map_option (lg_Not L) (ae_Equals L x y)
       | Op_SGe \<Rightarrow> map_option (lg_Not L) (ae_SLessThan L x y) | Op_SGt \<Rightarrow> ae_SLessThan L y x
       | Op_SLe \<Rightarrow> map_option (lg_Not L) (ae_SLessThan L y x) | Op_SLt \<Rightarrow> ae_SLessThan L x y
       | Op_UGe \<Rightarrow> map_option (lg_Not L) (ae_ULessThan L x y) | Op_UGt \<Rightarrow> ae_ULessThan L y x
       | Op_ULe \<Rightarrow> map_option (lg_Not L) (ae_ULessThan L y x) | Op_ULt \<Rightarrow> ae_ULessThan L x y)) [c]" for g c
    using that by (intro simulatesI[OF _ compare_result[OF xs(2) that(1) _ ty]]) (auto simp: AbstractEvaluate_CompareOp_def xs(1) yieldsS_binary)
  note eq = Equals[OF xs(3,4) len] and ult = ULessThan[OF xs(3,4) len] and ugt = ULessThan[OF xs(4,3) len[symmetric]]
  note defs = HandleCompareOp_def HandleEq_def HandleNe_def HandleSGe_def HandleSGt_def HandleSLe_def HandleSLt_def HandleUGe_def
    HandleUGt_def HandleULe_def HandleULt_def bindS_eq_returnS bits_SGreaterThanOrEqual_def bits_SGreaterThan_def
  show ?thesis
  proof (cases op)
    case Op_Eq
    then show ?thesis using vis yields_bit[OF eq] by (intro sim[of "\<lambda>a b. Some (Bits_eq a b)" "as = bs"]) (auto simp: defs rep_eq)
  next
    case Op_Ne
    then show ?thesis using vis yields_bit[OF yields_not[OF eq]] by (intro sim[of "\<lambda>a b. Some (\<not> Bits_eq a b)" "as \<noteq> bs"]) (auto simp: defs rep_eq)
  next
    case Op_SGe
    then show ?thesis using vis yields_bit[OF yields_not[OF SLessThan[OF xs(3,4) len ne(1)]]]
      by (intro sim[of "bits_SGreaterThanOrEqual B" "\<not> snum as < snum bs"]) (auto simp: defs slt sle)
  next
    case Op_SGt
    then show ?thesis using vis yields_bit[OF SLessThan[OF xs(4,3) len[symmetric] ne(2)]]
      by (intro sim[of "bits_SGreaterThan B" "snum bs < snum as"]) (auto simp: defs slt sle)
  next
    case Op_SLe
    then show ?thesis using vis yields_bit[OF yields_not[OF SLessThan[OF xs(4,3) len[symmetric] ne(2)]]]
      by (intro sim[of "bits_SLessThanOrEqual B" "\<not> snum bs < snum as"]) (auto simp: defs slt sle)
  next
    case Op_SLt
    then show ?thesis using vis yields_bit[OF SLessThan[OF xs(3,4) len ne(1)]]
      by (intro sim[of "bits_SLessThan B" "snum as < snum bs"]) (auto simp: defs slt sle)
  next
    case Op_UGe
    then show ?thesis using vis yields_bit[OF yields_not[OF ult]] by (intro sim[of "\<lambda>a b. Some (bits_UGreaterThanOrEqual a b)" "\<not> unum as < unum bs"]) (auto simp: defs UGreaterThanOrEqual_iff)
  next
    case Op_UGt
    then show ?thesis using vis yields_bit[OF ugt] by (intro sim[of "\<lambda>a b. Some (bits_UGreaterThan a b)" "unum bs < unum as"]) (auto simp: defs UGreaterThan_iff)
  next
    case Op_ULe
    then show ?thesis using vis yields_bit[OF yields_not[OF ugt]] by (intro sim[of "\<lambda>a b. Some (bits_ULessThanOrEqual a b)" "\<not> unum bs < unum as"]) (auto simp: defs ULessThanOrEqual_iff)
  next
    case Op_ULt
    then show ?thesis using vis yields_bit[OF ult] by (intro sim[of "\<lambda>a b. Some (bits_ULessThan a b)" "unum as < unum bs"]) (auto simp: defs ULessThan_iff)
  qed
qed

end

section \<open>Logic, products, extensions\<close>

context sound_logic
begin

lemma NaryOp_yields:
  assumes "list_all2 V xs bss" and "bss \<noteq> []" and "\<forall>bs\<in>set bss. length bs = w"
    and "\<And>x y a b. R x a \<Longrightarrow> R y b \<Longrightarrow> R (h x y) (g a b)"
  shows "yields V (ae_NaryOp h xs) (foldl (map2 g) (hd bss) (tl bss))"
proof -
  obtain x vs b cs where "xs = x # vs" "bss = b # cs" "V x b" "list_all2 V vs cs" using assms(1,2) by (cases bss) (auto simp: list_all2_Cons2)
  then show ?thesis using NaryOp[of x b vs cs h g] assms(3,4) by simp
qed

lemma yields_BitwiseNot: "yields V m bs \<Longrightarrow> yields V (map_option (ae_BitwiseNot L) m) (map HOL.Not bs)"
  using BitwiseNot by (auto simp: yields_def)

lemma NaryOp_simulates:
  assumes ok: "NodeChecker_NaryOp op f nd = returnS ()" and ev: "evaluated R f nd st xs bss" and vis: "HandleNaryOp op n nd st = returnS st'"
  shows "simulates R (map_option Inr (AbstractEvaluate_NaryOp L op xs)) n st'"
proof -
  have "seq_ok [ExpectOperandCountGt nd 0, ExpectAllSameBitsType f nd] = returnS ()"
    using ok by (cases op) (auto simp: NodeChecker_NaryOp_def NodeChecker_HandleNaryAnd_def NodeChecker_HandleNaryNand_def
        NodeChecker_HandleNaryNor_def NodeChecker_HandleNaryOr_def NodeChecker_HandleNaryXor_def)
  then obtain w where pos: "0 < length (node_operands nd)"
      and all: "\<forall>i<length (node_operands nd). operand_type f nd i = Some (BitsType w)" by (auto simp: expect_iff)
  have ne: "bss \<noteq> []" using pos evaluated_length[OF ev] by auto
  have w: "\<forall>bs\<in>set bss. length bs = w"
    using all evaluated_length[OF ev] evaluated_type[OF ev] by (fastforce simp: in_set_conv_nth)
  have reps: "operand_reps st nd bss" and vs: "list_all2 V xs bss" using ev by (auto simp: evaluated_def)
  note res = nary_result[OF reps] and nary = returns_nary[OF _ _ ne w]
  let ?spec = "\<lambda>g. foldl (map2 g) (hd bss) (tl bss)"
  have ret: "returns (bits_NaryAnd cs) (?spec (\<and>))" "returns (bits_NaryOr cs) (?spec (\<or>))" "returns (bits_NaryXor cs) (?spec (\<noteq>))"
    "returns (bits_NaryNand cs) (map HOL.Not (?spec (\<and>)))" "returns (bits_NaryNor cs) (map HOL.Not (?spec (\<or>)))" if "list_all2 rep cs bss" for cs
  proof -
    show 1: "returns (bits_NaryAnd cs) (?spec (\<and>))" "returns (bits_NaryOr cs) (?spec (\<or>))" "returns (bits_NaryXor cs) (?spec (\<noteq>))"
      using nary[OF returns_And that] nary[OF returns_Or that] nary[OF returns_Xor that]
      by (simp_all add: bits_NaryAnd_def bits_NaryOr_def bits_NaryXor_def)
    then show "returns (bits_NaryNand cs) (map HOL.Not (?spec (\<and>)))" "returns (bits_NaryNor cs) (map HOL.Not (?spec (\<or>)))"
      using returns_Not by (auto simp: bits_NaryNand_def bits_NaryNor_def bits_NaryAnd_def bits_NaryOr_def returns_def)
  qed
  note yld = NaryOp_yields[OF vs ne w]
  have ab: "yields V (ae_BitwiseAnd L xs) (?spec (\<and>))" "yields V (ae_BitwiseOr L xs) (?spec (\<or>))" "yields V (ae_BitwiseXor L xs) (?spec (\<noteq>))"
    unfolding ae_BitwiseAnd_def ae_BitwiseOr_def ae_BitwiseXor_def by (rule yld; blast)+
  note defs = AbstractEvaluate_NaryOp_def HandleNaryOp_def
  show ?thesis
  proof (cases op)
    case Op_And
    then show ?thesis using ab ret vis by (intro simulatesI[OF _ res]) (auto simp: defs HandleNaryAnd_def)
  next
    case Op_Nand
    then show ?thesis using yields_BitwiseNot[OF ab(1)] ret vis by (intro simulatesI[OF _ res]) (auto simp: defs HandleNaryNand_def)
  next
    case Op_Nor
    then show ?thesis using yields_BitwiseNot[OF ab(2)] ret vis by (intro simulatesI[OF _ res]) (auto simp: defs HandleNaryNor_def)
  next
    case Op_Or
    then show ?thesis using ab ret vis by (intro simulatesI[OF _ res]) (auto simp: defs HandleNaryOr_def)
  next
    case Op_Xor
    then show ?thesis using ab ret vis by (intro simulatesI[OF _ res]) (auto simp: defs HandleNaryXor_def)
  qed
qed

lemma Concat_simulates:
  assumes ev: "evaluated R f nd st xs bss" and vis: "HandleConcat n nd st = returnS st'"
  shows "simulates R (map_option Inr (Some (ae_Concat xs))) n st'"
  using ev vis Xls_Abstract_Node.nary_result[of st nd bss bits_Concat n st' "concat (rev bss)"] returns_Concat Concat[of xs bss]
  by (intro simulatesI[where rs = "concat (rev bss)"]) (auto simp: evaluated_def HandleConcat_def)

text \<open>Cutting or extending a product to the width of the node.\<close>

lemma fit_yields:
  assumes "rep r rs" and "V x rs" and "node_type nd = BitsType w"
    and ext: "length rs < w \<Longrightarrow> returns (ext r w) (es w) \<and> yields V (aext x w) (es w)"
  shows "\<exists>cs. returns (fit_product ext w r) cs \<and> yields V (ae_fit aext nd x) cs"
proof -
  have len: "length x = length rs" "bm_count r = length rs" using V_length[OF assms(2)] rep_count[OF assms(1)] by simp_all
  note defs = fit_product_def ae_fit_def BitCountOrDie_def Type_AsBitsOrDie_def assms(3)
  consider "w < length rs" | "length rs < w" | "length rs = w" by linarith
  then show ?thesis
  proof cases
    case 1
    then show ?thesis using returns_Slice[OF assms(1), of 0 w] BitSlice[OF assms(2), of 0 w] len by (intro exI[of _ "take w (drop 0 rs)"]) (simp add: defs)
  next
    case 2
    then show ?thesis using ext len by (intro exI[of _ "es w"]) (simp add: defs)
  next
    case 3
    then show ?thesis using assms(1,2) len by (intro exI[of _ rs]) (simp add: defs returns_def)
  qed
qed

lemma ArithOp_simulates:
  assumes B: "bignum B num" and arity: "length (node_operands nd) = 2" and ty: "node_type nd = BitsType w" and ev: "evaluated R f nd st xs bss"
  shows "HandleSMul B n nd st = returnS st' \<Longrightarrow>
      bits_operand f nd 0 (\<lambda>w. 0 < w \<and> w < 2 ^ 30) \<and> bits_operand f nd 1 (\<lambda>w. 0 < w \<and> w < 2 ^ 30) \<Longrightarrow>
      simulates R (ae_binary xs (\<lambda>a b. ae_SMul L a b \<bind> ae_fit ae_SignExtend nd)) n st'"
    and "HandleUMul B n nd st = returnS st' \<Longrightarrow> simulates R (ae_binary xs (\<lambda>a b. ae_UMul L a b \<bind> ae_fit (ae_ZeroExtend L) nd)) n st'"
proof -
  obtain x y as bs where xs: "xs = [x, y]" "operand_reps st nd [as, bs]" "V x as" "V y bs" "operand_type f nd 0 = Some (BitsType (length as))"
      "operand_type f nd 1 = Some (BitsType (length bs))"
    using evaluated2[OF ev arity] by metis
  obtain a b where ab: "operand_bits st nd 0 = Some a" "operand_bits st nd 1 = Some b" "rep a as" "rep b bs"
    using operand_reps_nth[OF xs(2), of 0] operand_reps_nth[OF xs(2), of 1] by auto
  note defs = BitCountOrDie_def Type_AsBitsOrDie_def ty xs(1) yieldsS_binary
  show "simulates R (ae_binary xs (\<lambda>a b. ae_SMul L a b \<bind> ae_fit ae_SignExtend nd)) n st'"
    if vis: "HandleSMul B n nd st = returnS st'"
      and nz: "bits_operand f nd 0 (\<lambda>w. 0 < w \<and> w < 2 ^ 30) \<and> bits_operand f nd 1 (\<lambda>w. 0 < w \<and> w < 2 ^ 30)"
  proof -
    have ne: "as \<noteq> []" "bs \<noteq> []" "length as < 2 ^ 30" "length bs < 2 ^ 30" using nz xs(5,6) by (auto simp: bits_operand_def)
    let ?p = "int_bl (length as + length bs) (snum as * snum bs)"
    obtain r where r: "bits_SMul B a b = Some r" "rep r ?p" using bignum.returns_SMul[OF B ab(3,4)] by (auto simp: returns_def)
    obtain z where z: "ae_SMul L x y = Some z" "V z ?p" using SMul[OF xs(3,4) ne] by (auto simp: yields_def)
    have "?p \<noteq> []" using ne(1) by (auto dest: arg_cong[of _ _ length])
    then obtain cs where "returns (fit_product bits_SignExtend w r) cs" "yields V (ae_fit ae_SignExtend nd z) cs"
      using fit_yields[OF r(2) z(2) ty, of bits_SignExtend "\<lambda>w. int_bl w (snum ?p)" ae_SignExtend]
        returns_SignExtend[OF r(2)] SignExtend[OF z(2)] by (auto simp: less_imp_le)
    then show ?thesis using vis ab r z by (intro simulatesI[OF _ returns_set]) (auto simp: HandleSMul_def defs)
  qed
  show "simulates R (ae_binary xs (\<lambda>a b. ae_UMul L a b \<bind> ae_fit (ae_ZeroExtend L) nd)) n st'" if vis: "HandleUMul B n nd st = returnS st'"
  proof -
    let ?p = "nat_bl (length as + length bs) (unum as * unum bs)"
    obtain r where r: "bits_UMul B a b = Some r" "rep r ?p" using bignum.returns_UMul[OF B ab(3,4)] by (auto simp: returns_def)
    obtain z where z: "ae_UMul L x y = Some z" "V z ?p" using UMul[OF xs(3,4)] by (auto simp: yields_def)
    then obtain cs where "returns (fit_product bits_ZeroExtend w r) cs" "yields V (ae_fit (ae_ZeroExtend L) nd z) cs"
      using fit_yields[OF r(2) z(2) ty, of bits_ZeroExtend "\<lambda>w. nat_bl w (unum ?p)" "ae_ZeroExtend L"]
        returns_ZeroExtend[OF r(2)] ZeroExtend[OF z(2)] by (auto simp: less_imp_le)
    then show ?thesis using vis ab r z by (intro simulatesI[OF _ returns_set]) (auto simp: HandleUMul_def defs)
  qed
qed

lemma ExtendOp_simulates:
  assumes ok: "NodeChecker_HandleExtendOp w f nd = returnS ()" and ev: "evaluated R f nd st xs bss"
  shows "HandleSignExtend w n nd st = returnS st' \<Longrightarrow> bits_operand f nd 0 (\<lambda>w. 0 < w) \<Longrightarrow>
      simulates R (ae_unary xs (\<lambda>a. BitCountOrDie nd \<bind> ae_SignExtend a)) n st'"
    and "HandleZeroExtend w n nd st = returnS st' \<Longrightarrow> simulates R (ae_unary xs (\<lambda>a. BitCountOrDie nd \<bind> ae_ZeroExtend L a)) n st'"
proof -
  obtain u where u: "length (node_operands nd) = 1" "operand_type f nd 0 = Some (BitsType u)" "u \<le> w" "node_type nd = BitsType w"
    using ok by (auto simp: NodeChecker_HandleExtendOp_def expect_iff bind_returnS_iff)
  obtain x as where xs: "xs = [x]" "operand_reps st nd [as]" "V x as" "operand_type f nd 0 = Some (BitsType (length as))"
    using evaluated1[OF ev u(1)] by metis
  have len: "length as \<le> w" using u xs(4) by simp
  note res = unary_result[OF xs(2)] and defs = xs(1) yieldsS_unary BitCountOrDie_def Type_AsBitsOrDie_def u(4)
  show "simulates R (ae_unary xs (\<lambda>a. BitCountOrDie nd \<bind> ae_SignExtend a)) n st'"
    if "HandleSignExtend w n nd st = returnS st'" "bits_operand f nd 0 (\<lambda>w. 0 < w)"
    using that SignExtend[OF xs(3) _ len] returns_SignExtend[OF _ len] xs(4)
    by (intro simulatesI[OF _ res]) (auto simp: defs HandleSignExtend_def bits_operand_def)
  show "simulates R (ae_unary xs (\<lambda>a. BitCountOrDie nd \<bind> ae_ZeroExtend L a)) n st'" if "HandleZeroExtend w n nd st = returnS st'"
    using that ZeroExtend[OF xs(3) len] returns_ZeroExtend[OF _ len] by (intro simulatesI[OF _ res]) (auto simp: defs HandleZeroExtend_def)
qed

end

section \<open>Slices and encoders\<close>

context sound_logic
begin

lemma BitSlice_simulates:
  assumes ok: "NodeChecker_HandleBitSlice start width f nd = returnS ()" and fits: "start + width < 2 ^ 63" and ev: "evaluated R f nd st xs bss"
    and vis: "HandleBitSlice start width n nd st = returnS st'"
  shows "simulates R (ae_unary xs (\<lambda>a. do { CHECK (0 \<le> start \<and> 0 \<le> width); ae_BitSlice a (nat start) (nat width) })) n st'"
proof -
  obtain u where u: "length (node_operands nd) = 1" "operand_type f nd 0 = Some (BitsType u)" "0 \<le> start" "0 \<le> width"
      "sint (of_int start + of_int width :: uint64) \<le> int u"
    using ok by (auto simp: NodeChecker_HandleBitSlice_def expect_iff bind_returnS_iff)
  have "sint (of_int start + of_int width :: uint64) = start + width" using sint_of_int64[of "start + width"] u(3,4) fits by simp
  then have le: "nat start + nat width \<le> u" using u by auto
  obtain x as where xs: "xs = [x]" "operand_reps st nd [as]" "V x as" "operand_type f nd 0 = Some (BitsType (length as))"
    using evaluated1[OF ev u(1)] by metis
  have len: "nat start + nat width \<le> length as" using le u(2) xs(4) by simp
  show ?thesis using vis u(3,4) BitSlice[OF xs(3) len] returns_Slice[OF _ len]
    by (intro simulatesI[OF _ unary_result[OF xs(2)]]) (auto simp: xs(1) yieldsS_unary HandleBitSlice_def CHECK_def)
qed

lemma BitSliceUpdate_simulates:
  assumes ok: "NodeChecker_HandleBitSliceUpdate f nd = returnS ()" and sized: "machine_sized (node_type nd)" and ev: "evaluated R f nd st xs bss"
    and arity: "length (node_operands nd) = 3" and vis: "HandleBitSliceUpdate n nd st = returnS st'"
  shows "simulates R (check_operand_count xs 3 (do {
     a \<leftarrow> at_opt xs 0; start \<leftarrow> at_opt xs 1; u \<leftarrow> at_opt xs 2; ae_BitSliceUpdate L a start u })) n st'"
proof -
  obtain w where w: "operand_type f nd 0 = Some (BitsType w)" "node_type nd = BitsType w"
    using ok by (auto simp: NodeChecker_HandleBitSliceUpdate_def expect_iff bind_returnS_iff)
  have "length xs = 3" "length bss = 3" using evaluated_length[OF ev] arity by simp_all
  then obtain x y z as bs cs where xs: "xs = [x, y, z]" "bss = [as, bs, cs]" by (elim length3E)
  have vs: "V x as" "V y bs" "V z cs" "operand_reps st nd [as, bs, cs]" using ev xs by (auto simp: evaluated_def)
  have len: "length as = w" "length as < 2 ^ 63" using evaluated_type[OF ev w(1)] xs sized w(2) by auto
  obtain a b c where abc: "operand_bits st nd 0 = Some a" "operand_bits st nd 1 = Some b" "operand_bits st nd 2 = Some c" "rep a as" "rep b bs" "rep c cs"
    using operand_reps_nth[OF vs(4), of 0] operand_reps_nth[OF vs(4), of 1] operand_reps_nth[OF vs(4), of 2] by (auto simp: numeral_2_eq_2)
  let ?spec = "take (length as) (take (unum bs) as @ cs @ drop (unum bs + length cs) as)"
  have oob: "bits_UGreaterThanOrEqual_int64 b (of_nat (length as)) = Some (unum bs \<ge> length as)"
    using UCmp_int64_iff(5)[OF abc(5), of "of_nat (length as)"] sint_of_nat64[OF len(2)] by simp
  have "result_is n st' ?spec"
  proof (cases "length as \<le> unum bs")
    case True
    then show ?thesis using vis abc oob by (auto simp: HandleBitSliceUpdate_def rep_count[OF abc(4)] intro: set_bits_result)
  next
    case False
    then have "Bits_ToUint64 b = Inr (of_nat (unum bs))" "unat (of_nat (unum bs) :: uint64) = unum bs"
      using abc(5) len(2) unat_of_nat64[of "unum bs"] by (simp_all add: rep_ToUint64)
    then have "bits_BitSliceUpdate a (unum bs) c \<bind> (\<lambda>r. SetBitsResult n nd r st) = returnS st'"
      using False vis abc oob by (simp add: HandleBitSliceUpdate_def rep_count[OF abc(4)])
    then show ?thesis using returns_set returns_BitSliceUpdate[OF abc(4,6)] by blast
  qed
  moreover have "yields V (ae_BitSliceUpdate L x y z) ?spec" using BitSliceUpdate[OF vs(1-3)] len(2) by simp
  ultimately show ?thesis by (intro simulatesI[where rs = ?spec]) (simp_all add: xs(1) check_operand_count_def at_opt_def del: take_append)
qed

lemma Decode_simulates:
  assumes ok: "NodeChecker_HandleDecode w f nd = returnS ()" and small: "bits_operand f nd 0 (\<lambda>u. u < 64)" and sized: "machine_sized (node_type nd)"
    and ev: "evaluated R f nd st xs bss" and arity: "length (node_operands nd) = 1" and vis: "HandleDecode n nd st = returnS st'"
  shows "simulates R (ae_unary xs (\<lambda>a. ae_Decode L a w)) n st'"
proof -
  obtain u where u: "operand_type f nd 0 = Some (BitsType u)" "node_type nd = BitsType w" "\<not> (u < 63 \<and> w > 2 ^ u)"
    using ok by (auto simp: NodeChecker_HandleDecode_def expect_iff bind_returnS_iff)
  obtain x as where xs: "xs = [x]" "operand_reps st nd [as]" "V x as" "operand_type f nd 0 = Some (BitsType (length as))"
    using evaluated1[OF ev arity] by metis
  have len: "length as < 64" "u = length as" "w < 2 ^ 63" using small xs(4) u(1,2) sized by (auto simp: bits_operand_def)
  have pow: "2 ^ length as \<le> (2 ^ 63 :: nat)" using len(1) by (intro power_increasing) auto
  have w: "w \<le> 2 ^ length as"
  proof (cases "length as < 63")
    case False
    then have "length as = 63" using len(1) by simp
    then show ?thesis using len(3) by simp
  qed (use u(3) len(2) in auto)
  obtain a where a: "operand_bits st nd 0 = Some a" "rep a as" using operand_reps_nth[OF xs(2), of 0] by auto
  have k: "unum as < 2 ^ 63" using unum_bound[of as] pow by linarith
  then have val: "Bits_ToUint64 a = Inr (of_nat (unum as))" "sint (of_nat (unum as) :: uint64) = int (unum as)"
    using a(2) by (simp_all add: rep_ToUint64 sint_of_nat64)
  let ?spec = "map (\<lambda>i. unum as = i) [0..<w]"
  have "result_is n st' ?spec"
  proof (cases "unum as < w")
    case True
    then have "nat_bl w (2 ^ unum as) = ?spec" by (intro nth_equalityI) (auto simp: bit_exp_iff)
    then have "returns (Bits_PowerOfTwo (unum as) w) ?spec" using returns_PowerOfTwo[OF True] by simp
    moreover have "Bits_PowerOfTwo (unum as) w \<bind> (\<lambda>r. SetBitsResult n nd r st) = returnS st'"
      using True vis a val u(2) by (simp add: HandleDecode_def BitCountOrDie_def Type_AsBitsOrDie_def CHECK_def)
    ultimately show ?thesis by (metis returns_set)
  next
    case False
    then have "replicate w False = ?spec" by (intro nth_equalityI) auto
    then have "rep (Bits_new w) ?spec" using rep_new[of w] by simp
    moreover have "SetBitsResult n nd (Bits_new w) st = returnS st'"
      using False vis a val u(2) by (simp add: HandleDecode_def BitCountOrDie_def Type_AsBitsOrDie_def)
    ultimately show ?thesis by (metis set_bits_result)
  qed
  then show ?thesis using Decode[OF xs(3) w] len(3) by (intro simulatesI) (auto simp: xs(1) yieldsS_unary)
qed

end

lemma encode_loop_bits:
  assumes "rep a as"
  shows "rep acc cs \<Longrightarrow> length cs = width \<Longrightarrow> \<forall>i\<in>set is. i < length as \<and> i < 2 ^ 64 \<and> i < 2 ^ width \<Longrightarrow>
    returns (encode_loop a width is acc) (map (\<lambda>j. cs ! j \<or> (\<exists>i\<in>set is. as ! i \<and> bit i j)) [0..<width])"
proof (induction "is" arbitrary: acc cs)
  case Nil
  then have "map (\<lambda>j. cs ! j) [0..<width] = cs" by (auto intro: map_nth)
  then show ?case using Nil by (simp add: returns_def)
next
  case (Cons i is')
  have get: "Bits_Get a i \<longleftrightarrow> as ! i" using rep_get[OF assms, of i] Cons.prems(3) by simp
  show ?case
  proof (cases "as ! i")
    case False
    then show ?thesis using Cons.IH[OF Cons.prems(1,2)] Cons.prems(3) get by simp
  next
    case True
    have i: "unat (of_nat i :: uint64) = i" using Cons.prems(3) unat_of_nat64[of i] by simp
    then obtain b where b: "UBits (of_nat i) width = Some b" "rep b (nat_bl width i)"
      using returns_UBits[of "of_nat i" width] Cons.prems(3) by (auto simp: returns_def)
    obtain r where r: "bits_Or acc b = Some r" "rep r (map2 (\<or>) cs (nat_bl width i))"
      using returns_Or[OF Cons.prems(1) b(2)] Cons.prems(2) by (auto simp: returns_def)
    have "returns (encode_loop a width is' r)
        (map (\<lambda>j. map2 (\<or>) cs (nat_bl width i) ! j \<or> (\<exists>i\<in>set is'. as ! i \<and> bit i j)) [0..<width])"
      using Cons.IH[OF r(2)] Cons.prems(2,3) by simp
    moreover have "map (\<lambda>j. map2 (\<or>) cs (nat_bl width i) ! j \<or> (\<exists>i\<in>set is'. as ! i \<and> bit i j)) [0..<width] =
        map (\<lambda>j. cs ! j \<or> (\<exists>i\<in>set (i # is'). as ! i \<and> bit i j)) [0..<width]"
      using True Cons.prems(2) by auto
    ultimately show ?thesis using True get b r by simp
  qed
qed

lemma find_first: "find p [0..<n] = (if first_index p n < n then Some (first_index p n) else None)"
proof (cases "find p [0..<n]")
  case None
  then have "first_index p n = n" by (auto simp: find_None_iff first_index_eq_n_iff)
  then show ?thesis using None by simp
next
  case (Some i)
  then have "first_index p n = i" "i < n" by (auto simp: find_Some_iff first_index_eq_iff)
  then show ?thesis using Some by simp
qed

lemma find_last: "find (\<lambda>i. p (n - i - 1)) [0..<n] = map_option (\<lambda>i. n - i - 1) (find_high p n)"
proof (cases "find_high p n")
  case None
  then have "find (\<lambda>i. p (n - i - 1)) [0..<n] = None" by (auto simp: find_None_iff find_high_None)
  then show ?thesis using None by simp
next
  case (Some i)
  then have i: "i < n" "p i" "\<forall>j. i < j \<and> j < n \<longrightarrow> \<not> p j" by (auto simp: find_high_Some)
  have "\<not> p (n - j - 1)" if "j < n - i - 1" for j using i that by auto
  then have "find (\<lambda>i. p (n - i - 1)) [0..<n] = Some (n - i - 1)" using i by (auto simp: find_Some_iff intro!: exI[of _ "n - i - 1"])
  then show ?thesis using Some by simp
qed

context sound_logic
begin

lemma Encode_simulates:
  assumes ok: "NodeChecker_HandleEncode f nd = returnS ()" and sized: "\<And>t. operand_type f nd 0 = Some t \<Longrightarrow> machine_sized t"
    and ev: "evaluated R f nd st xs bss" and arity: "length (node_operands nd) = 1" and vis: "HandleEncode n nd st = returnS st'"
  shows "simulates R (ae_unary xs (\<lambda>a. Some (ae_Encode L a))) n st'"
proof -
  obtain u w where u: "operand_type f nd 0 = Some (BitsType u)" "node_type nd = BitsType w" "w = MinBitCountUnsigned (of_nat u - 1)"
    using ok by (auto simp: NodeChecker_HandleEncode_def expect_iff bind_returnS_iff)
  obtain x as where xs: "xs = [x]" "operand_reps st nd [as]" "V x as" "operand_type f nd 0 = Some (BitsType (length as))"
    using evaluated1[OF ev arity] by metis
  have len: "u = length as" "u < 2 ^ 63" using xs(4) u(1) sized[OF u(1)] by auto
  obtain a where a: "operand_bits st nd 0 = Some a" "rep a as" using operand_reps_nth[OF xs(2), of 0] by auto
  have "i < 2 ^ 64 \<and> i < 2 ^ w" if i: "i < u" for i
  proof -
    have "unat (of_nat u - 1 :: uint64) = u - 1" using len i by (intro unat_of_nat64_pred) auto
    moreover have "unat (of_nat u - 1 :: uint64) < 2 ^ w" using MinBitCountUnsigned_le_iff[of "of_nat u - 1" w] u(3) by simp
    ultimately show ?thesis using i len by auto
  qed
  then have "returns (encode_loop a w [0..<u] (Bits_new w)) (map (\<lambda>j. replicate w False ! j \<or> (\<exists>i\<in>set [0..<u]. as ! i \<and> bit i j)) [0..<w])"
    using encode_loop_bits[OF a(2) rep_new[of w], of w "[0..<u]"] len(1) by simp
  moreover have "map (\<lambda>j. replicate w False ! j \<or> (\<exists>i\<in>set [0..<u]. as ! i \<and> bit i j)) [0..<w] = encode_bits w 0 as"
    using len(1) by (auto simp: encode_bits_def)
  moreover have "encode_loop a w [0..<u] (Bits_new w) \<bind> (\<lambda>r. SetBitsResult n nd r st) = returnS st'"
    using vis a u(2) len(1) by (simp add: HandleEncode_def BitCountOrDie_def Type_AsBitsOrDie_def rep_count[OF a(2)])
  ultimately have "result_is n st' (encode_bits w 0 as)" by (metis returns_set)
  then show ?thesis using Encode[OF xs(3)] u(3) len(1) by (intro simulatesI) (auto simp: xs(1) yieldsS_unary)
qed

text \<open>A one-hot node always has a bit set.\<close>

lemma OneHot_result:
  assumes ok: "NodeChecker_HandleOneHot f nd = returnS ()" and reps: "operand_reps st nd [as]" and len: "operand_type f nd 0 = Some (BitsType (length as))"
    and vis: "HandleOneHot priority n nd st = returnS st'"
  defines "k \<equiv> (if priority = kLsb then first_index ((!) as) (length as)
      else case find_high ((!) as) (length as) of Some i \<Rightarrow> i | None \<Rightarrow> length as)"
  shows "result_is n st' (nat_bl (length as + 1) (2 ^ k)) \<and> True \<in> set (nat_bl (length as + 1) (2 ^ k))"
proof -
  let ?u = "length as"
  have ty: "node_type nd = BitsType (?u + 1)" using ok len by (auto simp: NodeChecker_HandleOneHot_def expect_iff bind_returnS_iff)
  obtain a where a: "operand_bits st nd 0 = Some a" "rep a as" using operand_reps_nth[OF reps, of 0] by auto
  obtain b where b: "UBits 1 (?u + 1) = Some b" "rep b (nat_bl (?u + 1) (unat (1 :: uint64)))"
    using returns_UBits[of 1 "?u + 1"] one_less_power[of "2 :: nat" "?u + 1"] by (auto simp: returns_def)
  have get: "i < ?u \<Longrightarrow> Bits_Get a i \<longleftrightarrow> as ! i" for i using rep_get[OF a(2)] by simp
  have k: "k \<le> ?u" by (auto simp: k_def find_high_Some split: option.split)
  have "(1 :: nat) < 2 ^ (?u + 1)" by (rule one_less_power) simp_all
  then have one: "unum (nat_bl (?u + 1) (unat (1 :: uint64))) = 1" by simp
  let ?index = "\<lambda>i. if priority = kLsb then i else ?u - i - 1"
  let ?found = "find (\<lambda>i. Bits_Get a (?index i)) [0..<?u]"
  have found: "?found = find (\<lambda>i. as ! ?index i) [0..<?u]" using get by (intro find_cong refl) auto
  have "(case ?found of Some i \<Rightarrow> ?index i | None \<Rightarrow> ?u) = k"
  proof (cases "priority = kLsb")
    case True
    let ?i = "first_index ((!) as) ?u"
    have "?found = (if ?i < ?u then Some ?i else None)" using True found find_first[of "(!) as" ?u] by simp
    moreover have "\<not> ?i < ?u \<Longrightarrow> ?u = ?i" by (metis first_index_le le_neq_implies_less)
    ultimately show ?thesis using True by (cases "?i < ?u") (simp_all add: k_def)
  next
    case False
    then have "?found = map_option (\<lambda>i. ?u - i - 1) (find_high ((!) as) ?u)" using found find_last[of "(!) as" ?u] by simp
    moreover have "i < ?u" if "find_high ((!) as) ?u = Some i" for i using that by (simp add: find_high_Some)
    ultimately show ?thesis using False by (cases "find_high ((!) as) ?u") (fastforce simp: k_def)+
  qed
  moreover have "bits_ShiftLeftLogical b (case ?found of Some i \<Rightarrow> ?index i | None \<Rightarrow> ?u) \<bind> (\<lambda>r. SetBitsResult n nd r st) = returnS st'"
    using vis a b ty by (cases priority; cases ?found) (simp_all add: HandleOneHot_def BitCountOrDie_def Type_AsBitsOrDie_def Let_def rep_count[OF a(2)])
  ultimately have "bits_ShiftLeftLogical b k \<bind> (\<lambda>r. SetBitsResult n nd r st) = returnS st'" by simp
  then have "result_is n st' (nat_bl (?u + 1) (2 ^ k))"
    using returns_set returns_ShiftLeftLogical[OF b(2), of k] one by fastforce
  moreover have "nat_bl (?u + 1) (2 ^ k) ! k" using k by (simp add: bit_exp_iff)
  then have "True \<in> set (nat_bl (?u + 1) (2 ^ k))" using k by (metis length_nat_bl less_Suc_eq_le Suc_eq_plus1 nth_mem)
  ultimately show ?thesis by blast
qed

lemma OneHot_simulates:
  assumes ok: "NodeChecker_HandleOneHot f nd = returnS ()" and ev: "evaluated R f nd st xs bss" and vis: "HandleOneHot priority n nd st = returnS st'"
  shows "simulates R (ae_unary xs (\<lambda>a. Some (if priority = kLsb then ae_OneHotLsbToMsb L a else ae_OneHotMsbToLsb L a))) n st'"
proof -
  have arity: "length (node_operands nd) = 1" using ok by (auto simp: NodeChecker_HandleOneHot_def expect_iff bind_returnS_iff)
  obtain x as where xs: "xs = [x]" "operand_reps st nd [as]" "V x as" "operand_type f nd 0 = Some (BitsType (length as))"
    using evaluated1[OF ev arity] by metis
  show ?thesis using OneHotLsbToMsb[OF xs(3)] OneHotMsbToLsb[OF xs(3)] OneHot_result[OF ok xs(2,4) vis]
    by (cases "priority = kLsb") (auto simp: xs(1) yieldsS_unary intro!: simulatesI)
qed

end

section \<open>Selects\<close>

lemma or_inputs_bits:
  "rep acc cs \<Longrightarrow> length cs = w \<Longrightarrow> list_all2 (\<lambda>v bs. \<exists>b. v = VBits b \<and> rep b bs) vs bss \<Longrightarrow> \<forall>bs\<in>set bss. length bs = w \<Longrightarrow>
   returns (or_inputs acc vs) (map (\<lambda>j. cs ! j \<or> (\<exists>bs\<in>set bss. bs ! j)) [0..<w])"
proof (induction vs arbitrary: acc cs bss)
  case Nil
  then have "map (\<lambda>j. cs ! j) [0..<w] = cs" by (auto intro: map_nth)
  then show ?case using Nil by (simp add: returns_def)
next
  case (Cons v vs)
  then obtain b bs bss' where b: "v = VBits b" "rep b bs" "bss = bs # bss'" "list_all2 (\<lambda>v bs. \<exists>b. v = VBits b \<and> rep b bs) vs bss'"
    by (auto simp: list_all2_Cons1)
  obtain r where r: "bits_Or acc b = Some r" "rep r (map2 (\<or>) cs bs)"
    using returns_Or[OF Cons.prems(1) b(2)] Cons.prems(2,4) b(3) by (auto simp: returns_def)
  have "returns (or_inputs r vs) (map (\<lambda>j. map2 (\<or>) cs bs ! j \<or> (\<exists>bs\<in>set bss'. bs ! j)) [0..<w])"
    using Cons.IH[OF r(2) _ b(4)] Cons.prems(2,4) b(3) by simp
  moreover have "map (\<lambda>j. map2 (\<or>) cs bs ! j \<or> (\<exists>bs\<in>set bss'. bs ! j)) [0..<w] = map (\<lambda>j. cs ! j \<or> (\<exists>bs\<in>set bss. bs ! j)) [0..<w]"
    using Cons.prems(2,4) b(3) by auto
  ultimately show ?case using b(1) r(1) by (simp add: Value_bits_def)
qed

text \<open>The selector and the cases of a select.\<close>

lemma evaluated_select:
  assumes ev: "evaluated R f nd st xs bss" and ty: "node_type nd = BitsType w" and len: "1 < length (node_operands nd)"
    and cases: "\<forall>i\<in>{1..<length (node_operands nd)}. operand_type f nd i = Some (node_type nd)"
  obtains x vs ss cs a where "xs = x # vs" "bss = ss # cs" "list_all2 R x ss" "list_all2 (list_all2 R) vs cs" "\<forall>c\<in>set cs. length c = w"
    "length vs = length (node_operands nd) - 1" "length cs = length (node_operands nd) - 1" "operand_bits st nd 0 = Some a" "rep a ss"
    "operand_type f nd 0 = Some (BitsType (length ss))"
    "\<And>i. i < length cs \<Longrightarrow> \<exists>b. operand_value st nd (i + 1) = Some (VBits b) \<and> rep b (cs ! i)"
proof -
  have lens: "length bss = length (node_operands nd)" "length xs = length (node_operands nd)" using evaluated_length[OF ev] by simp_all
  obtain x vs where xs: "xs = x # vs" using lens(2) len by (cases xs) auto
  obtain ss cs where bss: "bss = ss # cs" using lens(1) len by (cases bss) auto
  have reps: "operand_reps st nd bss" and rel: "list_all2 (list_all2 R) xs bss" using ev by (auto simp: evaluated_def)
  obtain a where a: "operand_bits st nd 0 = Some a" "rep a ss" using operand_reps_nth[OF reps, of 0] bss by auto
  have w: "length c = w" if c: "c \<in> set cs" for c
  proof -
    obtain i where i: "i < length cs" "c = cs ! i" using c by (auto simp: in_set_conv_nth)
    then have "operand_type f nd (i + 1) = Some (BitsType w)" using cases lens(1) bss ty by simp
    then show ?thesis using evaluated_type[OF ev] i bss by fastforce
  qed
  have t0: "operand_type f nd 0 = Some (BitsType (length ss))"
    using ev bss by (cases "node_operands nd") (auto simp: evaluated_def operand_type_def operand_def at_opt_def)
  have val: "\<exists>b. operand_value st nd (i + 1) = Some (VBits b) \<and> rep b (cs ! i)" if i: "i < length cs" for i
    using operand_reps_nth[OF reps, of "i + 1"] i bss by auto
  show ?thesis by (rule that[OF xs bss _ _ _ _ _ a t0 val]) (use rel xs bss w lens in auto)
qed

definition bits_selector :: "ir_function \<Rightarrow> ir_node \<Rightarrow> bool list \<Rightarrow> bool" where
  "bits_selector f nd ss \<longleftrightarrow> (selector_is_OneHot f nd = Some True \<longrightarrow> True \<in> set ss)"

context sound_logic
begin

lemma OneHotSel_simulates:
  assumes ok: "NodeChecker_HandleOneHotSel f nd = returnS ()" and cases: "cases_typed f nd" and ty: "node_type nd = BitsType w"
    and ev: "evaluated R f nd st xs bss" and hot: "bits_selector f nd (hd bss)" and sel: "selector_is_OneHot f nd = Some one_hot"
    and vis: "HandleOneHotSel n nd st = returnS st'"
  shows "simulates R (map_option Inr (do {
        selector \<leftarrow> at_opt xs 0; one_hot \<leftarrow> selector_is_OneHot f nd; ae_OneHotSelect L selector (drop 1 xs) (\<not> one_hot) })) n st'"
proof -
  obtain u where u: "operand_type f nd 0 = Some (BitsType u)" "u = length (tl (node_operands nd))" "1 < length (node_operands nd)"
    using ok by (auto simp: NodeChecker_HandleOneHotSel_def expect_iff bind_returnS_iff error_if_def split: if_splits)
  obtain x vs ss cs a where x: "xs = x # vs" "bss = ss # cs" "V x ss" "list_all2 V vs cs" "\<forall>c\<in>set cs. length c = w"
      "length vs = length (node_operands nd) - 1" "length cs = length (node_operands nd) - 1" "operand_bits st nd 0 = Some a" "rep a ss"
      "operand_type f nd 0 = Some (BitsType (length ss))"
      "\<And>i. i < length cs \<Longrightarrow> \<exists>b. operand_value st nd (i + 1) = Some (VBits b) \<and> rep b (cs ! i)"
    using evaluated_select[OF ev ty u(3)] cases unfolding cases_typed_iff by blast
  have len: "length ss = length cs" "ss \<noteq> []" using x(7,10) u by auto
  obtain g where g: "\<And>i. i < length cs \<Longrightarrow> operand_value st nd (i + 1) = Some (VBits (g i)) \<and> rep (g i) (cs ! i)" using x(11) by metis
  let ?sel = "filter (\<lambda>i. ss ! i) [0..<length ss]"
  have "filter (Bits_Get a) [0..<bm_count a] = ?sel" using rep_get[OF x(9)] rep_count[OF x(9)] by (auto intro!: filter_cong)
  moreover have "those (map (\<lambda>i. operand_value st nd (i + 1)) ?sel) = Some (map (\<lambda>i. VBits (g i)) ?sel)"
    using g len(1) by (intro those_map_cong) auto
  ultimately have "bindS (DeepOr (node_type nd) (map (\<lambda>i. VBits (g i)) ?sel)) (\<lambda>result. SetValueResult n nd result st) = returnS st'"
    using vis x(8) by (simp add: HandleOneHotSel_def)
  then obtain r where r: "or_inputs (Bits_new w) (map (\<lambda>i. VBits (g i)) ?sel) = Some r" "SetValueResult n nd (VBits r) st = returnS st'"
    by (cases "or_inputs (Bits_new w) (map (\<lambda>i. VBits (g i)) ?sel)") (simp_all add: ty)
  have rel: "list_all2 (\<lambda>v bs. \<exists>b. v = VBits b \<and> rep b bs) (map (\<lambda>i. VBits (g i)) ?sel) (map ((!) cs) ?sel)"
    using g len(1) by (auto simp: list_all2_map1 list_all2_map2 intro!: list_all2_refl list.rel_refl_strong)
  have "\<forall>bs\<in>set (map ((!) cs) ?sel). length bs = w" using x(5) len(1) by auto
  then have "rep r (map (\<lambda>j. replicate w False ! j \<or> (\<exists>bs\<in>set (map ((!) cs) ?sel). bs ! j)) [0..<w])"
    using or_inputs_bits[OF rep_new[of w] _ rel] r(1) by (simp add: returns_def)
  moreover have "map (\<lambda>j. replicate w False ! j \<or> (\<exists>bs\<in>set (map ((!) cs) ?sel). bs ! j)) [0..<w] = or_select w ss cs"
    by (auto simp: or_select_def)
  ultimately have "result_is n st' (or_select w ss cs)" using set_value_result[OF r(2)] by metis
  moreover have "yields V (ae_OneHotSelect L x vs (\<not> one_hot)) (or_select w ss cs)"
    using OneHotSelect[OF x(3,4) len x(5)] hot sel x(2) by (cases one_hot) (auto simp: bits_selector_def)
  ultimately show ?thesis using sel x(1) by (intro simulatesI) (auto simp: at_opt_def)
qed

lemma PrioritySel_simulates:
  assumes ok: "NodeChecker_HandlePrioritySel f nd = returnS ()" and cases: "cases_typed f nd" and ty: "node_type nd = BitsType w"
    and ev: "evaluated R f nd st xs bss" and hot: "bits_selector f nd (hd bss)" and sel: "selector_is_OneHot f nd = Some one_hot"
    and vis: "HandlePrioritySel n nd st = returnS st'"
  shows "simulates R (map_option Inr (do {
        selector \<leftarrow> at_opt xs 0; one_hot \<leftarrow> selector_is_OneHot f nd; ae_PrioritySelect L selector (drop 1 xs) (\<not> one_hot) })) n st'"
proof -
  obtain u where u: "operand_type f nd 0 = Some (BitsType u)" "u = length (tl (node_operands nd))" "1 < length (node_operands nd)"
    using ok by (auto simp: NodeChecker_HandlePrioritySel_def expect_iff bind_returnS_iff error_if_def split: if_splits)
  obtain x vs ss cs a where x: "xs = x # vs" "bss = ss # cs" "V x ss" "list_all2 V vs cs" "\<forall>c\<in>set cs. length c = w"
      "length vs = length (node_operands nd) - 1" "length cs = length (node_operands nd) - 1" "operand_bits st nd 0 = Some a" "rep a ss"
      "operand_type f nd 0 = Some (BitsType (length ss))"
      "\<And>i. i < length cs \<Longrightarrow> \<exists>b. operand_value st nd (i + 1) = Some (VBits b) \<and> rep b (cs ! i)"
    using evaluated_select[OF ev ty u(3)] cases unfolding cases_typed_iff by blast
  have len: "length ss = length cs" "ss \<noteq> []" using x(7,10) u by auto
  have "find (Bits_Get a) [0..<bm_count a] = find ((!) ss) [0..<length ss]"
    using rep_get[OF x(9)] rep_count[OF x(9)] by (auto intro!: find_cong)
  then have found: "find (Bits_Get a) [0..<bm_count a] = (let k = first_index ((!) ss) (length ss) in if k < length ss then Some k else None)"
    by (simp add: find_first Let_def)
  have "result_is n st' (priority_select w ss cs)"
  proof (cases "first_index ((!) ss) (length ss) < length ss")
    case True
    then obtain b where "operand_value st nd (first_index ((!) ss) (length ss) + 1) = Some (VBits b)" "rep b (cs ! first_index ((!) ss) (length ss))"
      using x(11) len(1) by metis
    moreover have "length (cs ! first_index ((!) ss) (length ss)) = w" using x(5) True len(1) by simp
    ultimately show ?thesis using True vis x(8) found by (auto simp: HandlePrioritySel_def priority_select_def Let_def intro: set_value_result)
  next
    case False
    then show ?thesis using vis x(8) found ty returns_zeros[of w]
      by (auto simp: HandlePrioritySel_def priority_select_def Let_def ZeroOfType_def returns_def intro: set_value_result)
  qed
  moreover have "yields V (ae_PrioritySelect L x vs (\<not> one_hot)) (priority_select w ss cs)"
    using PrioritySelect[OF x(3,4) len x(5)] hot sel x(2) by (cases one_hot) (auto simp: bits_selector_def)
  ultimately show ?thesis using sel x(1) by (intro simulatesI) (auto simp: at_opt_def)
qed

end

context sound_logic
begin

text \<open>The binary select with and without a default.\<close>

lemma Select_yields:
  assumes "V x ss" and "list_all2 V vs cs" and "\<forall>c\<in>set cs. length c = w" and "0 < k" and "k < 2 ^ 64" and "k \<le> 2 ^ length ss"
    and "length cs = k + (if has_default then 1 else 0)" and "\<not> has_default \<Longrightarrow> unum ss < k"
  shows "yields V (AbstractEvaluate_Select L has_default (x # vs)) (cs ! (if unum ss < k then unum ss else k))"
proof (cases has_default)
  case True
  then obtain ds es where cs: "cs = es @ [ds]" "length es = k" using assms(7) by (cases cs rule: rev_exhaust) auto
  then obtain ys d where vs: "vs = ys @ [d]" "list_all2 V ys es" "V d ds" using assms(2) by (auto simp: list_all2_append2 list_all2_Cons2)
  have k: "length ys = k" using vs(2) cs(2) by (auto dest: list_all2_lengthD)
  then have "yields V (ae_Select L x ys (Some d)) (if unum ss < k then es ! unum ss else ds)"
    using Select_default[OF assms(1) vs(2,3), of w] assms(3-6) cs by fastforce
  moreover have "(if unum ss < k then es ! unum ss else ds) = cs ! (if unum ss < k then unum ss else k)" using cs by (simp add: nth_append)
  ultimately show ?thesis using True k vs(1) by (simp add: AbstractEvaluate_Select_def at_opt_def)
next
  case False
  then show ?thesis using Select[OF assms(1-3)] assms(5-8) by (simp add: AbstractEvaluate_Select_def at_opt_def)
qed

lemma Sel_simulates:
  assumes ok: "NodeChecker_HandleSel k has_default f nd = returnS ()" and ty: "node_type nd = BitsType w"
    and operands: "length (node_operands nd) = 1 + k + (if has_default then 1 else 0)" and k: "0 < k" "k < 2 ^ 64"
    and default: "has_default \<longrightarrow> operand_type f nd (k + 1) = Some (node_type nd)"
    and ev: "evaluated R f nd st xs bss" and vis: "HandleSel k has_default n nd st = returnS st'"
  shows "simulates R (map_option Inr (AbstractEvaluate_Select L has_default xs)) n st'"
proof -
  obtain u where u: "operand_type f nd 0 = Some (BitsType u)" "MinBitCountUnsigned (of_nat k - 1) \<le> u"
      "u = MinBitCountUnsigned (of_nat k - 1) \<and> IsPowerOfTwo (of_nat k) \<or> has_default"
      and typed: "\<forall>i<k. operand_type f nd (i + 1) = Some (node_type nd)"
    using ok by (auto simp: NodeChecker_HandleSel_def expect_iff bind_returnS_iff Let_def)
  have cases: "\<forall>i\<in>{1..<length (node_operands nd)}. operand_type f nd i = Some (node_type nd)"
  proof
    fix i assume "i \<in> {1..<length (node_operands nd)}"
    then show "operand_type f nd i = Some (node_type nd)" using typed default operands by (cases i; cases "i = k + 1") (auto split: if_splits)
  qed
  have "1 < length (node_operands nd)" using operands k by simp
  from evaluated_select[OF ev ty this cases]
  obtain x vs ss cs a where x: "xs = x # vs" "bss = ss # cs" "V x ss" "list_all2 V vs cs" "\<forall>c\<in>set cs. length c = w"
      "length vs = length (node_operands nd) - 1" "length cs = length (node_operands nd) - 1" "operand_bits st nd 0 = Some a" "rep a ss"
      "operand_type f nd 0 = Some (BitsType (length ss))"
      "\<And>i. i < length cs \<Longrightarrow> \<exists>b. operand_value st nd (i + 1) = Some (VBits b) \<and> rep b (cs ! i)"
    by blast
  have len: "u = length ss" "length cs = k + (if has_default then 1 else 0)" using u(1) x(7,10) operands by auto
  have pred: "unat (of_nat k - 1 :: uint64) = k - 1" using k by (rule unat_of_nat64_pred)
  then have bound: "k - 1 < 2 ^ length ss" using u(2) len(1) MinBitCountUnsigned_le_iff[of "of_nat k - 1" u] by simp
  then obtain l where l: "UBits (of_nat k - 1) (length ss) = Some l" "rep l (nat_bl (length ss) (k - 1))"
    using returns_UBits[of "of_nat k - 1" "length ss"] pred by (auto simp: returns_def)
  have gt: "bits_UGreaterThan a l \<longleftrightarrow> \<not> unum ss < k" 
  proof -
    have "bits_UGreaterThan a l \<longleftrightarrow> k - 1 < unum ss" using UGreaterThan_iff[OF x(9) l(2)] bound by simp
    also have "\<dots> \<longleftrightarrow> \<not> unum ss < k" using k(1) by linarith
    finally show ?thesis .
  qed
  have sel: "unum ss < k" if nd: "\<not> has_default"
  proof -
    have p: "IsPowerOfTwo (of_nat k)" "u = MinBitCountUnsigned (of_nat k - 1)" using u(3) nd by simp_all
    have "k = 2 ^ length ss" using power_of_2_cases[OF p(1) k p(2)] len(1) by simp
    then show ?thesis using unum_bound[of ss] by simp
  qed
  let ?i = "if unum ss < k then unum ss else k"
  have "?i < length cs" using len(2) sel by auto
  then obtain b where b: "operand_value st nd (?i + 1) = Some (VBits b)" "rep b (cs ! ?i)" using x(11) by blast
  have "SetValueResult n nd (VBits b) st = returnS st'"
  proof (cases "unum ss < k")
    case True
    then have "Bits_ToUint64 a = Inr (of_nat (unum ss))" "unat (of_nat (unum ss) :: uint64) = unum ss"
      using x(9) k(2) unat_of_nat64[of "unum ss"] by (simp_all add: rep_ToUint64)
    then show ?thesis using True vis x(8) l gt b by (simp add: HandleSel_def rep_count[OF x(9)] CHECK_def)
  next
    case False
    then have has_default using sel by blast
    then show ?thesis using False vis x(8) l gt b operands by (simp add: HandleSel_def rep_count[OF x(9)])
  qed
  then have "result_is n st' (cs ! ?i)" using b(2) by (rule set_value_result)
  moreover have "yields V (AbstractEvaluate_Select L has_default (x # vs)) (cs ! ?i)"
    using Select_yields[OF x(3-5) k _ len(2) sel] bound by fastforce
  ultimately show ?thesis using x(1) by (intro simulatesI) simp_all
qed

end

section \<open>Every node\<close>

lemma selector_known: "evaluated R f nd st xs bss \<Longrightarrow> node_operands nd \<noteq> [] \<Longrightarrow> \<exists>b. selector_is_OneHot f nd = Some b"
  by (cases "node_operands nd")
    (auto simp: evaluated_def selector_is_OneHot_def operand_def at_opt_def GetType_def list_all2_Cons1)

context sound_logic
begin

lemma AbstractEvaluate_simulates:
  assumes B: "bignum B num" and ok: "NodeChecker_Visit pkg channels f nd = returnS ()" and safe: "interpretable pkg f nd" and an: "analysable f nd"
    and sized: "\<And>i t. operand_type f nd i = Some t \<Longrightarrow> machine_sized t" and ty: "node_type nd = BitsType w"
    and ev: "evaluated R f nd st xs bss" and hot: "bss \<noteq> [] \<Longrightarrow> bits_selector f nd (hd bss)"
    and vis: "IrInterpreter_Visit B call pkg param f n nd st = returnS st'" and typed: "result_is n st' rs" "length rs = w"
    and dflt: "\<And>bs. length bs = w \<Longrightarrow> yields V (default_handler nd) bs"
  shows "simulates R (AbstractEvaluate L f default_handler nd xs) n st'"
proof -
  have msz: "machine_sized (node_type nd)" and op: "interpretable_op pkg f nd" using safe by (simp_all add: interpretable_def)
  have unk: "simulates R (map_option Inr (default_handler nd)) n st'" using dflt[OF typed(2)] typed(1) by (intro simulatesI) simp
  note defs = AbstractEvaluate_def IrInterpreter_Visit_def NodeChecker_Visit_def interpretable_op_def analysable_def
  show ?thesis
  proof (cases "node_op nd")
    case (BinOp op)
    then show ?thesis using BinOp_simulates[OF B _ ev _ _ msz] ok vis an by (simp add: defs)
  next
    case (ArithOp op v)
    then have "length (node_operands nd) = 2"
      using ok by (auto simp: defs NodeChecker_HandleSMul_def NodeChecker_HandleUMul_def expect_iff split: mul_op.splits)
    then show ?thesis using ArithOp_simulates[OF B _ ty ev] ArithOp vis an by (cases op) (simp_all add: defs)
  next
    case (PartialProductOp op v)
    then show ?thesis using op ty by (simp add: defs)
  next
    case (NaryOp op)
    then show ?thesis using NaryOp_simulates[OF _ ev] ok vis by (simp add: defs)
  next
    case (BitwiseReductionOp op)
    then show ?thesis using Reduction_simulates[OF _ ev, of op] ok vis by (simp add: defs)
  next
    case (CompareOp op)
    then show ?thesis using CompareOp_simulates[OF B _ ev] ok vis an by (simp add: defs)
  next
    case (UnOp op)
    then show ?thesis using UnOp_simulates[OF B _ ev, of op] ok vis an by (simp add: defs)
  next
    case (ExtendOp op v)
    then show ?thesis using ExtendOp_simulates[OF _ ev, of v] ok vis an
      by (cases op) (simp_all add: defs NodeChecker_HandleSignExtend_def NodeChecker_HandleZeroExtend_def)
  next
    case (BitSlice start width)
    then show ?thesis using BitSlice_simulates[OF _ _ ev, of start width] ok vis op by (simp add: defs)
  next
    case BitSliceUpdate
    then show ?thesis using BitSliceUpdate_simulates[OF _ msz ev] ok vis an by (simp add: defs)
  next
    case Concat
    then show ?thesis using Concat_simulates[OF ev] vis by (simp add: defs)
  next
    case (Decode v)
    then show ?thesis using Decode_simulates[OF _ _ msz ev, of v] ok vis op an by (simp add: defs)
  next
    case Encode
    then show ?thesis using Encode_simulates[OF _ sized ev] ok vis an by (simp add: defs)
  next
    case (OneHot priority)
    then show ?thesis using OneHot_simulates[OF _ ev, of priority] ok vis by (simp add: defs)
  next
    case OneHotSelect
    then have chk: "NodeChecker_HandleOneHotSel f nd = returnS ()" using ok by (simp add: defs)
    then have "node_operands nd \<noteq> []" by (auto simp: NodeChecker_HandleOneHotSel_def expect_iff error_if_def)
    then obtain b where b: "selector_is_OneHot f nd = Some b" "bss \<noteq> []" using selector_known[OF ev] evaluated_length[OF ev] by fastforce
    show ?thesis using OneHotSel_simulates[OF chk _ ty ev hot[OF b(2)] b(1)] OneHotSelect op vis by (simp add: defs)
  next
    case PrioritySelect
    then have chk: "NodeChecker_HandlePrioritySel f nd = returnS ()" using ok by (simp add: defs)
    then have "node_operands nd \<noteq> []" by (auto simp: NodeChecker_HandlePrioritySel_def expect_iff error_if_def)
    then obtain b where b: "selector_is_OneHot f nd = Some b" "bss \<noteq> []" using selector_known[OF ev] evaluated_length[OF ev] by fastforce
    show ?thesis using PrioritySel_simulates[OF chk _ ty ev hot[OF b(2)] b(1)] PrioritySelect op vis by (simp add: defs)
  next
    case (Select k has_default)
    then show ?thesis using Sel_simulates[OF _ ty _ _ _ _ ev, of k has_default] ok vis op by (simp add: defs)
  next
    case (Literal v)
    then have set: "SetValueResult n nd v st = returnS st'" using vis by (simp add: defs HandleLiteral_def)
    then have "node_values st' n = Some v" using SetValueResult_returns[OF set] by simp
    then obtain b where b: "v = VBits b" "rep b rs" using typed(1) by (auto simp: result_is_def)
    have "xs = []" using Literal ok evaluated_length[OF ev] by (auto simp: defs NodeChecker_HandleLiteral_def expect_iff)
    then show ?thesis using Literal b BitsToVector[OF b(2)] typed(1)
      by (intro simulatesI[where rs = rs]) (simp_all add: defs check_operand_count_def)
  qed (use unk in \<open>simp_all add: AbstractEvaluate_def\<close>)
qed

end

end
