(* ===== verification/Xls_Ternary.thy ===== *)
theory Xls_Ternary
  imports Xls_Abstract_Arith
begin

text \<open>
  \<open>xls/ir/ternary.{h,cc}\<close> and \<open>xls/passes/ternary_evaluator.h\<close>: bits that are known zero, known one or
  unknown, their textual form, the conversions from and to \<open>Bits\<close> masks, and the evaluator over
  them. \<open>stands_for t b\<close> says that the concrete bit \<open>b\<close> is one of those \<open>t\<close> allows; a ternary
  vector denotes the set of bit lists it stands for. Both the relation \<open>stands_for\<close> and the
  embedding of known bits make the ternary primitives a \<open>sound_logic\<close>: the first gives soundness
  of every derived operation, the second its exactness on known inputs.
\<close>

datatype ternary = kKnownZero | kKnownOne | kUnknown

type_synonym ternary_vector = "ternary list"

section \<open>Text\<close>

definition ternary_symbol :: "ternary \<Rightarrow> string" where
  "ternary_symbol v = (case v of kKnownZero \<Rightarrow> ''0'' | kKnownOne \<Rightarrow> ''1'' | kUnknown \<Rightarrow> ''X'')"

text \<open>The loop of \<open>ToString\<close>, from the most significant element down.\<close>

fun ternary_digits :: "ternary_vector \<Rightarrow> nat \<Rightarrow> string" where
  "ternary_digits value 0 = ''''"
| "ternary_digits value (Suc i) =
     ternary_symbol (value ! i) @ (if i \<noteq> 0 \<and> i mod 4 = 0 then ''_'' else '''') @ ternary_digits value i"

definition TernaryVector_ToString :: "ternary_vector \<Rightarrow> string" where
  "TernaryVector_ToString value = ''0b'' @ ternary_digits value (length value)"

definition TernaryValue_ToString :: "ternary \<Rightarrow> string" where
  "TernaryValue_ToString v =
     (case v of kKnownZero \<Rightarrow> ''TernaryValue::kKnownZero''
      | kKnownOne \<Rightarrow> ''TernaryValue::kKnownOne''
      | kUnknown \<Rightarrow> ''TernaryValue::kUnknown'')"

fun ternary_parse :: "string \<Rightarrow> ternary_vector \<Rightarrow> ternary_vector statusor" where
  "ternary_parse [] result = Inr result"
| "ternary_parse (c # cs) result =
     (if c = CHR ''0'' then ternary_parse cs (result @ [kKnownZero])
      else if c = CHR ''1'' then ternary_parse cs (result @ [kKnownOne])
      else if c = CHR ''X'' \<or> c = CHR ''x'' then ternary_parse cs (result @ [kUnknown])
      else if c = CHR ''_'' then ternary_parse cs result
      else Inl InvalidArgument)"

definition StringToTernaryVector :: "string \<Rightarrow> ternary_vector statusor" where
  "StringToTernaryVector s =
     (if take 2 s \<noteq> ''0b'' then Inl InvalidArgument
      else case ternary_parse (drop 2 s) [] of Inl e \<Rightarrow> Inl e | Inr result \<Rightarrow> Inr (rev result))"

section \<open>Known bits\<close>

definition ternary_FromKnownBits :: "bits \<Rightarrow> bits \<Rightarrow> ternary_vector option" where
  "ternary_FromKnownBits known_bits known_bits_values = do {
     CHECK (bm_count known_bits = bm_count known_bits_values);
     Some (map (\<lambda>i. if Bits_Get known_bits i
                    then (if Bits_Get known_bits_values i then kKnownOne else kKnownZero)
                    else kUnknown) [0..<bm_count known_bits])
   }"

definition ternary_ToKnownBits :: "ternary_vector \<Rightarrow> bits" where
  "ternary_ToKnownBits v = Bits_FromSpan (map (\<lambda>t. t \<noteq> kUnknown) v)"

definition ternary_ToKnownBitsValues :: "ternary_vector \<Rightarrow> bits" where
  "ternary_ToKnownBitsValues v = Bits_FromSpan (map (\<lambda>t. t = kKnownOne) v)"

text \<open>\<open>None\<close>: the size check fails; \<open>Some None\<close>: \<open>nullopt\<close>.\<close>

fun ternary_difference_loop :: "ternary_vector \<Rightarrow> ternary_vector \<Rightarrow> ternary_vector option" where
  "ternary_difference_loop (l # ls) (r # rs) =
     (if l \<noteq> kUnknown then
        (if r = kUnknown then map_option ((#) l) (ternary_difference_loop ls rs)
         else if l \<noteq> r then None
         else map_option ((#) kUnknown) (ternary_difference_loop ls rs))
      else map_option ((#) kUnknown) (ternary_difference_loop ls rs))"
| "ternary_difference_loop _ _ = Some []"

definition ternary_Difference :: "ternary_vector \<Rightarrow> ternary_vector \<Rightarrow> ternary_vector option option" where
  "ternary_Difference lhs rhs = do {
     CHECK (length lhs = length rhs);
     Some (ternary_difference_loop lhs rhs)
   }"

definition ternary_NumberOfKnownBits :: "ternary_vector \<Rightarrow> nat" where
  "ternary_NumberOfKnownBits vec = fold (\<lambda>value result. if value \<noteq> kUnknown then result + 1 else result) vec 0"

definition ternary_IsKnown :: "ternary \<Rightarrow> bool" where
  "ternary_IsKnown t \<longleftrightarrow> t \<noteq> kUnknown"

definition ternary_IsUnknown :: "ternary \<Rightarrow> bool" where
  "ternary_IsUnknown t \<longleftrightarrow> t = kUnknown"

definition ternary_AllUnknown :: "ternary_vector \<Rightarrow> bool" where
  "ternary_AllUnknown v \<longleftrightarrow> list_all ternary_IsUnknown v"

definition ternary_And :: "ternary \<Rightarrow> ternary \<Rightarrow> ternary" where
  "ternary_And a b =
     (if a = kKnownZero \<or> b = kKnownZero then kKnownZero
      else if a = kKnownOne \<and> b = kKnownOne then kKnownOne
      else kUnknown)"

definition ternary_Or :: "ternary \<Rightarrow> ternary \<Rightarrow> ternary" where
  "ternary_Or a b =
     (if a = kKnownOne \<or> b = kKnownOne then kKnownOne
      else if a = kKnownZero \<and> b = kKnownZero then kKnownZero
      else kUnknown)"

definition BitsToTernary :: "bits \<Rightarrow> ternary_vector" where
  "BitsToTernary b = map (\<lambda>i. if Bits_Get b i then kKnownOne else kKnownZero) [0..<bm_count b]"

section \<open>The evaluator\<close>

definition TernaryEvaluator_Not :: "ternary \<Rightarrow> ternary" where
  "TernaryEvaluator_Not input =
     (case input of kKnownZero \<Rightarrow> kKnownOne | kKnownOne \<Rightarrow> kKnownZero | kUnknown \<Rightarrow> kUnknown)"

definition TernaryEvaluator :: "ternary logic" where
  "TernaryEvaluator = \<lparr>lg_One = kKnownOne, lg_Zero = kKnownZero, lg_Not = TernaryEvaluator_Not,
     lg_And = ternary_And, lg_Or = ternary_Or\<rparr>"

section \<open>What a ternary vector stands for\<close>

definition known :: "bool \<Rightarrow> ternary" where
  "known b = (if b then kKnownOne else kKnownZero)"

definition stands_for :: "ternary \<Rightarrow> bool \<Rightarrow> bool" where
  "stands_for t b \<longleftrightarrow> t = kUnknown \<or> t = known b"

definition concretions :: "ternary_vector \<Rightarrow> bool list set" where
  "concretions v = {bs. list_all2 stands_for v bs}"

lemma stands_for_simps [simp]:
  "stands_for kKnownZero b \<longleftrightarrow> \<not> b" "stands_for kKnownOne b \<longleftrightarrow> b" "stands_for kUnknown b"
  by (auto simp: stands_for_def known_def)

lemma stands_for_known [simp]: "stands_for (known b) c \<longleftrightarrow> c = b"
  by (auto simp: stands_for_def known_def)

lemma TernaryEvaluator_simps [simp]:
  "lg_One TernaryEvaluator = kKnownOne" "lg_Zero TernaryEvaluator = kKnownZero"
  "lg_Not TernaryEvaluator = TernaryEvaluator_Not" "lg_And TernaryEvaluator = ternary_And"
  "lg_Or TernaryEvaluator = ternary_Or"
  by (simp_all add: TernaryEvaluator_def)

interpretation te: sound_logic TernaryEvaluator stands_for
proof unfold_locales
  fix a b :: ternary and x y :: bool
  assume a: "stands_for a x"
  then show "stands_for (lg_Not TernaryEvaluator a) (\<not> x)"
    by (cases a) (simp_all add: TernaryEvaluator_Not_def)
  assume b: "stands_for b y"
  from a b show "stands_for (lg_And TernaryEvaluator a b) (x \<and> y)" "stands_for (lg_Or TernaryEvaluator a b) (x \<or> y)"
    by (cases a; cases b; simp add: ternary_And_def ternary_Or_def)+
qed simp_all

text \<open>On known inputs the evaluator is exact.\<close>

interpretation tk: sound_logic TernaryEvaluator "\<lambda>t b. t = known b"
  by unfold_locales (auto simp: known_def TernaryEvaluator_Not_def ternary_And_def ternary_Or_def)

lemma list_all2_known: "list_all2 (\<lambda>t b. t = known b) xs bs \<longleftrightarrow> xs = map known bs"
  by (auto simp: list_all2_conv_all_nth list_eq_iff_nth_eq)

section \<open>Lemmas on text and masks\<close>

lemma ternary_parse_acc: "ternary_parse cs acc = (case ternary_parse cs [] of Inl e \<Rightarrow> Inl e | Inr r \<Rightarrow> Inr (acc @ r))"
proof (induction cs arbitrary: acc)
  case (Cons c cs)
  have IH: "ternary_parse cs (acc @ xs) = (case ternary_parse cs xs of Inl e \<Rightarrow> Inl e | Inr r \<Rightarrow> Inr (acc @ r))" for xs
    using Cons.IH [of "acc @ xs"] Cons.IH [of xs] by (auto split: sum.split)
  show ?case using IH [of "[kKnownZero]"] IH [of "[kKnownOne]"] IH [of "[kUnknown]"] IH [of "[]"] by simp
qed simp

lemma ternary_parse_symbol: "ternary_parse (ternary_symbol t @ cs) acc = ternary_parse cs (acc @ [t])"
  by (cases t) (simp_all add: ternary_symbol_def)

lemma ternary_parse_digits: "ternary_parse (ternary_digits v n) acc = Inr (acc @ map ((!) v) (rev [0..<n]))"
  by (induction n arbitrary: acc) (simp_all add: ternary_parse_symbol)

lemma StringToTernaryVector_ToString: "StringToTernaryVector (TernaryVector_ToString v) = Inr v"
  by (simp add: StringToTernaryVector_def TernaryVector_ToString_def ternary_parse_digits rev_map map_nth)

lemma ternary_parse_error: "ternary_parse cs acc = Inl e \<Longrightarrow> e = InvalidArgument \<and> \<not> set cs \<subseteq> set ''01Xx_''"
  by (induction cs arbitrary: acc) (auto split: if_splits)

lemma ternary_parse_ok: "ternary_parse cs acc = Inr r \<Longrightarrow> set cs \<subseteq> set ''01Xx_''"
  by (induction cs arbitrary: acc) (auto split: if_splits)

lemma FromKnownBits_rep:
  assumes "rep k ks" and "rep v vs" and "length ks = length vs"
  shows "ternary_FromKnownBits k v = Some (map2 (\<lambda>k v. if k then known v else kUnknown) ks vs)"
proof -
  have "map (\<lambda>i. if Bits_Get k i then (if Bits_Get v i then kKnownOne else kKnownZero) else kUnknown) [0..<length ks] =
      map2 (\<lambda>k v. if k then known v else kUnknown) ks vs"
    using assms(3) by (intro nth_equalityI) (simp_all add: rep_get [OF assms(1)] rep_get [OF assms(2)] known_def)
  then show ?thesis
    by (simp add: ternary_FromKnownBits_def rep_count [OF assms(1)] rep_count [OF assms(2)] assms(3))
qed

lemma difference_loop:
  "length ls = length rs \<Longrightarrow>
   (case ternary_difference_loop ls rs of
      None \<Rightarrow> concretions ls \<inter> concretions rs = {}
    | Some d \<Rightarrow> length d = length ls \<and> concretions ls \<inter> concretions rs \<noteq> {} \<and>
        concretions d \<inter> concretions rs = concretions ls \<inter> concretions rs)"
proof (induction ls rs rule: list_induct2)
  case (Cons l ls r rs)
  have split: "concretions (x # xs) = {b # bs | b bs. stands_for x b \<and> bs \<in> concretions xs}" for x xs
    by (auto simp: concretions_def list_all2_Cons1)
  show ?case
    using Cons.IH by (cases l; cases r) (auto simp: split split: option.splits; blast)+
qed (auto simp: concretions_def)

lemma card_concretions: "card (concretions v) = 2 ^ length (filter (\<lambda>t. t = kUnknown) v) \<and> finite (concretions v)"
proof (induction v)
  case (Cons t v)
  have "concretions (t # v) = (\<lambda>(b, bs). b # bs) ` ({b. stands_for t b} \<times> concretions v)"
    by (force simp: concretions_def list_all2_Cons1)
  moreover have "inj_on (\<lambda>(b, bs). b # bs) ({b. stands_for t b} \<times> concretions v)" by (auto simp: inj_on_def)
  moreover have "card {b. stands_for t b} = (if t = kUnknown then 2 else 1)"
  proof -
    have "{b. \<not> b} = {False}" "{b. b} = {True}" by auto
    then show ?thesis by (cases t) (simp_all add: card_UNIV_bool)
  qed
  ultimately show ?case using Cons.IH by (simp add: card_image card_cartesian_product)
qed (simp add: concretions_def)

lemma NumberOfKnownBits_eq: "ternary_NumberOfKnownBits v = length (filter (\<lambda>t. t \<noteq> kUnknown) v)"
proof -
  have "fold (\<lambda>value result. if value \<noteq> kUnknown then result + 1 else result) v n = n + length (filter (\<lambda>t. t \<noteq> kUnknown) v)" for n
    by (induction v arbitrary: n) simp_all
  then show ?thesis by (simp add: ternary_NumberOfKnownBits_def)
qed

section \<open>Properties\<close>

text \<open>Printing a ternary vector and parsing the text gives the vector back; the parser rejects, with
  InvalidArgument, exactly the strings without the prefix or with another character.\<close>

lemma ternary_text_round_trip:
  "StringToTernaryVector (TernaryVector_ToString v) = Inr v \<and>
   (StringToTernaryVector s = Inl InvalidArgument \<longleftrightarrow> \<not> (take 2 s = ''0b'' \<and> set (drop 2 s) \<subseteq> set ''01Xx_''))"
proof
  show "StringToTernaryVector (TernaryVector_ToString v) = Inr v" by (rule StringToTernaryVector_ToString)
  show "StringToTernaryVector s = Inl InvalidArgument \<longleftrightarrow> \<not> (take 2 s = ''0b'' \<and> set (drop 2 s) \<subseteq> set ''01Xx_'')"
    using ternary_parse_error [of "drop 2 s" "[]"] ternary_parse_ok [of "drop 2 s" "[]"]
    by (cases "ternary_parse (drop 2 s) []") (auto simp: StringToTernaryVector_def simp del: set_simps)
qed

text \<open>The mask and value bit vectors of a ternary vector determine it, and the number of bit lists a
  vector stands for is two to the number of its unknown elements.\<close>

lemma ternary_known_bits_round_trip:
  "ternary_FromKnownBits (ternary_ToKnownBits v) (ternary_ToKnownBitsValues v) = Some v \<and>
   card (concretions v) = 2 ^ (length v - ternary_NumberOfKnownBits v)"
proof
  have "map2 (\<lambda>k w. if k then known w else kUnknown) (map (\<lambda>t. t \<noteq> kUnknown) v) (map (\<lambda>t. t = kKnownOne) v) = v"
    by (rule nth_equalityI) (auto simp: known_def, metis ternary.exhaust)
  then show "ternary_FromKnownBits (ternary_ToKnownBits v) (ternary_ToKnownBitsValues v) = Some v"
    unfolding ternary_ToKnownBits_def ternary_ToKnownBitsValues_def
    by (simp add: FromKnownBits_rep [OF rep_FromSpan rep_FromSpan])
  have "length v - length (filter (\<lambda>t. t \<noteq> kUnknown) v) = length (filter (\<lambda>t. t = kUnknown) v)"
    using sum_length_filter_compl [of "\<lambda>t. t = kUnknown" v] by simp
  then show "card (concretions v) = 2 ^ (length v - ternary_NumberOfKnownBits v)"
    by (simp add: card_concretions NumberOfKnownBits_eq)
qed

text \<open>\<open>Difference\<close> returns nothing exactly when no bit list fits both vectors, and otherwise what is
  still to be said beside the second vector to say what the first does.\<close>

lemma ternary_difference_exact:
  assumes "length lhs = length rhs"
  shows "(ternary_Difference lhs rhs = Some None \<longleftrightarrow> concretions lhs \<inter> concretions rhs = {}) \<and>
    (\<forall>d. ternary_Difference lhs rhs = Some (Some d) \<longrightarrow>
      concretions d \<inter> concretions rhs = concretions lhs \<inter> concretions rhs)"
  using difference_loop [OF assms] assms by (auto simp: ternary_Difference_def split: option.splits)

text \<open>Ternary evaluation is sound and, on known operands, exact: whatever bits the operands stand for,
  the ternary sum, product, quotient and remainder stand for the concrete result, and known
  operands give the known result.\<close>

lemma ternary_evaluation_sound:
  assumes "as \<in> concretions xs" and "bs \<in> concretions ys" and "length as = length bs" and "as \<noteq> []"
  shows "(\<exists>r. ae_Add TernaryEvaluator xs ys = Some r \<and> nat_bl (length as) (unum as + unum bs) \<in> concretions r) \<and>
    (\<exists>r. ae_UMul TernaryEvaluator xs ys = Some r \<and>
      nat_bl (length as + length bs) (unum as * unum bs) \<in> concretions r) \<and>
    (\<exists>r. ae_UDivMod TernaryEvaluator xs ys = Some r \<and>
      (if unum bs = 0 then replicate (length as) True else nat_bl (length as) (unum as div unum bs)) \<in> concretions (dr_quotient r) \<and>
      (if unum bs = 0 then replicate (length bs) False else nat_bl (length bs) (unum as mod unum bs)) \<in> concretions (dr_remainder r)) \<and>
    ae_UMul TernaryEvaluator (map known as) (map known bs) =
      Some (map known (nat_bl (length as + length bs) (unum as * unum bs)))"
  using te.Add [of xs as ys bs] te.UMul [of xs as ys bs] te.UDivMod [of xs as ys bs]
    tk.UMul [of "map known as" as "map known bs" bs] assms
  by (simp add: concretions_def yields_def list_all2_known)

end
