(* ===== verification/Xls_Interval.thy ===== *)
theory Xls_Interval
  imports Xls_Bits_Ops
begin

text \<open>
  \<open>xls/ir/interval.{h,cc}\<close>: inclusive intervals of bit patterns. An interval whose upper bound is
  below its lower bound is improper and wraps around. Every operation that reads an interval
  first runs \<open>EnsureValid\<close>, so all of them return an \<open>option\<close>.

  \<open>ivr n i (lo, hi)\<close> relates an \<open>Interval\<close> of width \<open>n\<close> to its pair of bounds; the lemmas express
  each operation on such pairs, and \<open>wrap_points\<close> is the set of numbers an interval denotes.
\<close>

record interval =
  iv_valid :: bool
  lower_bound :: bits
  upper_bound :: bits

definition Interval_invalid :: interval where
  "Interval_invalid = \<lparr>iv_valid = False, lower_bound = Bits_new 0, upper_bound = Bits_new 0\<rparr>"

definition Interval :: "bits \<Rightarrow> bits \<Rightarrow> interval option" where
  "Interval lower upper = do {
     CHECK (bm_count lower = bm_count upper);
     Some \<lparr>iv_valid = True, lower_bound = lower, upper_bound = upper\<rparr>
   }"

definition Interval_EnsureValid :: "interval \<Rightarrow> unit option" where
  "Interval_EnsureValid i = do {
     CHECK (iv_valid i);
     CHECK (bm_count (lower_bound i) = bm_count (upper_bound i))
   }"

definition Interval_BitCount :: "interval \<Rightarrow> nat option" where
  "Interval_BitCount i = do {
     Interval_EnsureValid i;
     Some (bm_count (lower_bound i))
   }"

definition Interval_Maximal :: "nat \<Rightarrow> interval option" where
  "Interval_Maximal bit_width = do {
     zero \<leftarrow> UBits 0 bit_width;
     ones \<leftarrow> Bits_AllOnes bit_width;
     Interval zero ones
   }"

definition Interval_Precise :: "bits \<Rightarrow> interval option" where
  "Interval_Precise b = Interval b b"

definition Interval_ZeroExtend :: "interval \<Rightarrow> nat \<Rightarrow> interval option" where
  "Interval_ZeroExtend i bit_width = do {
     n \<leftarrow> Interval_BitCount i;
     CHECK (bit_width \<ge> n);
     lower \<leftarrow> bits_ZeroExtend (lower_bound i) bit_width;
     upper \<leftarrow> bits_ZeroExtend (upper_bound i) bit_width;
     Interval lower upper
   }"

text \<open>\<open>operator<\<close> and \<open>operator==\<close>.\<close>

definition Interval_less :: "interval \<Rightarrow> interval \<Rightarrow> bool" where
  "Interval_less lhs rhs \<longleftrightarrow>
     (if bits_ULessThan (lower_bound lhs) (lower_bound rhs) then True
      else if bits_UEqual (lower_bound lhs) (lower_bound rhs)
      then bits_ULessThan (upper_bound lhs) (upper_bound rhs)
      else False)"

definition Interval_eq :: "interval \<Rightarrow> interval \<Rightarrow> bool" where
  "Interval_eq lhs rhs \<longleftrightarrow>
     bits_UEqual (lower_bound lhs) (lower_bound rhs) \<and> bits_UEqual (upper_bound lhs) (upper_bound rhs)"

definition Interval_IsImproper :: "interval \<Rightarrow> bool option" where
  "Interval_IsImproper i = do {
     n \<leftarrow> Interval_BitCount i;
     Some (n \<noteq> 0 \<and> bits_ULessThan (upper_bound i) (lower_bound i))
   }"

definition Interval_IsPrecise :: "interval \<Rightarrow> bool option" where
  "Interval_IsPrecise i = do {
     n \<leftarrow> Interval_BitCount i;
     Some (n = 0 \<or> Bits_eq (lower_bound i) (upper_bound i))
   }"

definition Interval_GetPreciseValue :: "interval \<Rightarrow> bits option option" where
  "Interval_GetPreciseValue i = do {
     precise \<leftarrow> Interval_IsPrecise i;
     Some (if precise then Some (lower_bound i) else None)
   }"

text \<open>The checks that the binary operations share: equal widths, and no improper interval.\<close>

definition Interval_binary_checks :: "interval \<Rightarrow> interval \<Rightarrow> nat option" where
  "Interval_binary_checks lhs rhs = do {
     n \<leftarrow> Interval_BitCount lhs;
     m \<leftarrow> Interval_BitCount rhs;
     CHECK (n = m);
     a \<leftarrow> Interval_IsImproper lhs;
     CHECK (\<not> a);
     b \<leftarrow> Interval_IsImproper rhs;
     CHECK (\<not> b);
     Some n
   }"

text \<open>The recursive call of \<open>Overlaps\<close> and \<open>Abuts\<close> swaps the operands when the second is the
  smaller one; it repeats the same checks and does not recurse again.\<close>

definition Interval_Overlaps :: "interval \<Rightarrow> interval \<Rightarrow> bool option" where
  "Interval_Overlaps lhs rhs = do {
     n \<leftarrow> Interval_binary_checks lhs rhs;
     if n = 0 then Some True
     else if Interval_less rhs lhs
     then Some (bits_UGreaterThanOrEqual (upper_bound rhs) (lower_bound lhs))
     else Some (bits_UGreaterThanOrEqual (upper_bound lhs) (lower_bound rhs))
   }"

definition Interval_Disjoint :: "interval \<Rightarrow> interval \<Rightarrow> bool option" where
  "Interval_Disjoint lhs rhs = map_option Not (Interval_Overlaps lhs rhs)"

definition Interval_Abuts_ordered :: "'b bn_api \<Rightarrow> nat \<Rightarrow> interval \<Rightarrow> interval \<Rightarrow> bool option" where
  "Interval_Abuts_ordered B n lhs rhs = do {
     overlap \<leftarrow> Interval_Overlaps lhs rhs;
     if overlap then Some False
     else do {
       one \<leftarrow> UBits 1 n;
       next_value \<leftarrow> bits_Add B (upper_bound lhs) one;
       Some (bits_UEqual next_value (lower_bound rhs))
     }
   }"

definition Interval_Abuts :: "'b bn_api \<Rightarrow> interval \<Rightarrow> interval \<Rightarrow> bool option" where
  "Interval_Abuts B lhs rhs = do {
     n \<leftarrow> Interval_binary_checks lhs rhs;
     if n = 0 then Some False
     else if Interval_less rhs lhs then Interval_Abuts_ordered B n rhs lhs
     else Interval_Abuts_ordered B n lhs rhs
   }"

definition Interval_ConvexHull :: "interval \<Rightarrow> interval \<Rightarrow> interval option" where
  "Interval_ConvexHull lhs rhs = do {
     n \<leftarrow> Interval_binary_checks lhs rhs;
     if n = 0 then Interval (Bits_new 0) (Bits_new 0)
     else do {
       let result = lhs;
       let result = (if bits_ULessThan (lower_bound rhs) (lower_bound result)
                     then result\<lparr>lower_bound := lower_bound rhs\<rparr> else result);
       let result = (if bits_UGreaterThan (upper_bound rhs) (upper_bound result)
                     then result\<lparr>upper_bound := upper_bound rhs\<rparr> else result);
       Some result
     }
   }"

text \<open>The inner option is the \<open>std::optional\<close> that \<open>Intersect\<close> returns.\<close>

definition Interval_Intersect :: "interval \<Rightarrow> interval \<Rightarrow> interval option option" where
  "Interval_Intersect lhs rhs = do {
     Interval_binary_checks lhs rhs;
     overlap \<leftarrow> Interval_Overlaps lhs rhs;
     if \<not> overlap then Some None
     else do {
       let lower = (if bits_UGreaterThan (lower_bound rhs) (lower_bound lhs) then lower_bound rhs
                    else lower_bound lhs);
       let upper = (if bits_ULessThan (upper_bound rhs) (upper_bound lhs) then upper_bound rhs
                    else upper_bound lhs);
       r \<leftarrow> Interval lower upper;
       Some (Some r)
     }
   }"

definition Interval_Difference :: "'b bn_api \<Rightarrow> interval \<Rightarrow> interval \<Rightarrow> interval list option" where
  "Interval_Difference B lhs rhs = do {
     n \<leftarrow> Interval_binary_checks lhs rhs;
     overlap \<leftarrow> Interval_Overlaps lhs rhs;
     if \<not> overlap then Some [lhs]
     else do {
       below \<leftarrow> (if bits_ULessThan (lower_bound lhs) (lower_bound rhs) then do {
                   one \<leftarrow> UBits 1 n;
                   upper \<leftarrow> bits_Sub B (lower_bound rhs) one;
                   i \<leftarrow> Interval (lower_bound lhs) upper;
                   Some [i]
                 } else Some []);
       above \<leftarrow> (if bits_ULessThan (upper_bound rhs) (upper_bound lhs) then do {
                   one \<leftarrow> UBits 1 n;
                   lower \<leftarrow> bits_Add B (upper_bound rhs) one;
                   i \<leftarrow> Interval lower (upper_bound lhs);
                   Some [i]
                 } else Some []);
       Some (below @ above)
     }
   }"

definition Interval_Complement :: "'b bn_api \<Rightarrow> interval \<Rightarrow> interval list option" where
  "Interval_Complement B i = do {
     n \<leftarrow> Interval_BitCount i;
     m \<leftarrow> Interval_Maximal n;
     Interval_Difference B m i
   }"

definition Interval_IsSubsetOf :: "interval \<Rightarrow> interval \<Rightarrow> bool option" where
  "Interval_IsSubsetOf lhs rhs = do {
     Interval_binary_checks lhs rhs;
     Some (bits_ULessThanOrEqual (lower_bound rhs) (lower_bound lhs) \<and>
           bits_UGreaterThanOrEqual (upper_bound rhs) (upper_bound lhs))
   }"

text \<open>The callback may keep state; it returns whether to stop. The loops run until the value
  equals \<open>last\<close>, so their termination is a theorem about the bounds.\<close>

type_synonym 's visitor = "'s \<Rightarrow> bits \<Rightarrow> 's \<times> bool"

partial_function (option) foreach_loop ::
  "'b bn_api \<Rightarrow> 's visitor \<Rightarrow> bits \<Rightarrow> bits \<Rightarrow> bits \<Rightarrow> 's \<Rightarrow> ('s \<times> bool) option" where
  "foreach_loop B callback one last_value val s =
     (let (s', stop) = callback s val
      in if stop then Some (s', True)
         else if bits_UEqual val last_value then Some (s', False)
         else bits_Add B val one \<bind> (\<lambda>next_value. foreach_loop B callback one last_value next_value s'))"

definition Interval_ForEachElement ::
  "'b bn_api \<Rightarrow> interval \<Rightarrow> 's visitor \<Rightarrow> 's \<Rightarrow> ('s \<times> bool) option" where
  "Interval_ForEachElement B i callback s = do {
     n \<leftarrow> Interval_BitCount i;
     if bits_UEqual (lower_bound i) (upper_bound i) then Some (callback s (lower_bound i))
     else do {
       zero \<leftarrow> UBits 0 n;
       one \<leftarrow> UBits 1 n;
       max \<leftarrow> Bits_AllOnes n;
       if bits_UGreaterThan (lower_bound i) (upper_bound i) then do {
         (s', stop) \<leftarrow> foreach_loop B callback one max (lower_bound i) s;
         if stop then Some (s', True) else foreach_loop B callback one (upper_bound i) zero s'
       }
       else foreach_loop B callback one (upper_bound i) (lower_bound i) s
     }
   }"

definition Interval_Elements :: "'b bn_api \<Rightarrow> interval \<Rightarrow> bits list option" where
  "Interval_Elements B i = do {
     (result, _) \<leftarrow> Interval_ForEachElement B i (\<lambda>result v. (result @ [v], False)) [];
     Some result
   }"

text \<open>The recursive calls of \<open>SizeBits\<close> are on intervals that end at the greatest or start at
  the smallest value, so they do not recurse again.\<close>

definition Interval_SizeBits_straight :: "'b bn_api \<Rightarrow> bits \<Rightarrow> bits \<Rightarrow> bits option" where
  "Interval_SizeBits_straight B lower upper = do {
     let padded_size = bm_count lower + 1;
     difference \<leftarrow> bits_Sub B upper lower;
     one \<leftarrow> UBits 1 padded_size;
     d \<leftarrow> bits_ZeroExtend difference padded_size;
     bits_Add B one d
   }"

definition Interval_SizeBits :: "'b bn_api \<Rightarrow> interval \<Rightarrow> bits option" where
  "Interval_SizeBits B i = do {
     n \<leftarrow> Interval_BitCount i;
     if bits_UGreaterThan (lower_bound i) (upper_bound i) then do {
       zero \<leftarrow> UBits 0 n;
       max \<leftarrow> Bits_AllOnes n;
       x \<leftarrow> Interval_SizeBits_straight B (lower_bound i) max;
       y \<leftarrow> Interval_SizeBits_straight B zero (upper_bound i);
       bits_Add B x y
     }
     else Interval_SizeBits_straight B (lower_bound i) (upper_bound i)
   }"

definition Interval_Size :: "'b bn_api \<Rightarrow> interval \<Rightarrow> nat option option" where
  "Interval_Size B i = do {
     size_bits \<leftarrow> Interval_SizeBits B i;
     Some (case Bits_ToUint64 size_bits of
             Inr count \<Rightarrow> if unat count > 2 ^ 63 - 1 then None else Some (unat count)
           | Inl _ \<Rightarrow> None)
   }"

definition Interval_IsMaximal :: "'b bn_api \<Rightarrow> interval \<Rightarrow> bool option" where
  "Interval_IsMaximal B i = do {
     n \<leftarrow> Interval_BitCount i;
     if n = 0 then Some True
     else do {
       one \<leftarrow> UBits 1 n;
       upper_plus_one \<leftarrow> bits_Add B (upper_bound i) one;
       Some (bits_UEqual upper_plus_one (lower_bound i))
     }
   }"

definition Interval_Covers :: "interval \<Rightarrow> bits \<Rightarrow> bool option" where
  "Interval_Covers i point = do {
     n \<leftarrow> Interval_BitCount i;
     CHECK (n = bm_count point);
     if n = 0 then Some True
     else do {
       improper \<leftarrow> Interval_IsImproper i;
       Some (if improper
             then bits_ULessThanOrEqual (lower_bound i) point \<or> bits_ULessThanOrEqual point (upper_bound i)
             else bits_ULessThanOrEqual (lower_bound i) point \<and> bits_ULessThanOrEqual point (upper_bound i))
     }
   }"

definition Interval_CoversZero :: "interval \<Rightarrow> bool option" where
  "Interval_CoversZero i = do {
     n \<leftarrow> Interval_BitCount i;
     zero \<leftarrow> UBits 0 n;
     Interval_Covers i zero
   }"

definition Interval_CoversOne :: "interval \<Rightarrow> bool option" where
  "Interval_CoversOne i = do {
     n \<leftarrow> Interval_BitCount i;
     if n > 0 then do { one \<leftarrow> UBits 1 n; Interval_Covers i one } else Some False
   }"

definition Interval_CoversMax :: "interval \<Rightarrow> bool option" where
  "Interval_CoversMax i = do {
     n \<leftarrow> Interval_BitCount i;
     ones \<leftarrow> Bits_AllOnes n;
     Interval_Covers i ones
   }"

text \<open>\<open>Random\<close> over the bytes that the generator draws for the two bounds.\<close>

definition Interval_Random :: "(nat \<Rightarrow> uint8) \<Rightarrow> nat \<Rightarrow> interval option" where
  "Interval_Random draw bit_count = do {
     let num_bytes = bit_count div 8 + (if bit_count mod 8 = 0 then 0 else 1);
     start \<leftarrow> Bits_FromBytes (map draw [0..<num_bytes]) bit_count;
     end_bits \<leftarrow> Bits_FromBytes (map draw [num_bytes..<2 * num_bytes]) bit_count;
     Interval start end_bits
   }"


section \<open>Values of a fixed width\<close>

definition ub :: "nat \<Rightarrow> bits \<Rightarrow> nat \<Rightarrow> bool" where
  "ub n b x \<longleftrightarrow> rep b (nat_bl n x) \<and> x < 2 ^ n"

definition ivr :: "nat \<Rightarrow> interval \<Rightarrow> nat \<times> nat \<Rightarrow> bool" where
  "ivr n i p \<longleftrightarrow> iv_valid i \<and> ub n (lower_bound i) (fst p) \<and> ub n (upper_bound i) (snd p)"

definition wrap_points :: "nat \<Rightarrow> nat \<times> nat \<Rightarrow> nat set" where
  "wrap_points n p = {x. x < 2 ^ n \<and>
     (if fst p \<le> snd p then fst p \<le> x \<and> x \<le> snd p else fst p \<le> x \<or> x \<le> snd p)}"

definition ival :: "interval \<Rightarrow> nat \<times> nat" where
  "ival i = (uval (lower_bound i), uval (upper_bound i))"

definition valid_interval :: "nat \<Rightarrow> interval \<Rightarrow> bool" where
  "valid_interval n i \<longleftrightarrow> iv_valid i \<and> wf_bitmap (lower_bound i) \<and> wf_bitmap (upper_bound i) \<and>
     bm_count (lower_bound i) = n \<and> bm_count (upper_bound i) = n"

definition proper_interval :: "nat \<Rightarrow> interval \<Rightarrow> bool" where
  "proper_interval n i \<longleftrightarrow> valid_interval n i \<and> uval (lower_bound i) \<le> uval (upper_bound i)"

lemma ub_count: "ub n b x \<Longrightarrow> bm_count b = n"
  by (auto simp: ub_def rep_count)

lemma ub_less: "ub n b x \<Longrightarrow> x < 2 ^ n"
  by (simp add: ub_def)

lemma ub_le_max: "ub n b x \<Longrightarrow> x \<le> 2 ^ n - 1"
  using ub_less [of n b x] by linarith

lemma ub_of_wf: "wf_bitmap b \<Longrightarrow> ub (bm_count b) b (uval b)"
  using unum_bound [of "bits_of b"] by (simp add: ub_def nat_bl_unum_eq rep_bits_of)

lemma ub_uval: "ub n b x \<Longrightarrow> uval b = x"
  by (auto simp: ub_def rep_bits)

lemma ub_wf: "ub n b x \<Longrightarrow> wf_bitmap b"
  by (auto simp: ub_def)

lemma ub_0: "ub 0 b x \<Longrightarrow> x = 0"
  by (simp add: ub_def)

lemma ub_compare:
  assumes "ub n a x" and "ub m b y"
  shows "bits_UEqual a b \<longleftrightarrow> x = y" "bits_ULessThan a b \<longleftrightarrow> x < y" "bits_ULessThanOrEqual a b \<longleftrightarrow> x \<le> y"
    "bits_UGreaterThan a b \<longleftrightarrow> y < x" "bits_UGreaterThanOrEqual a b \<longleftrightarrow> y \<le> x"
  using assms unfolding ub_def by (auto simp: bits_val)

lemma ub_Bits_eq: "ub n a x \<Longrightarrow> ub n b y \<Longrightarrow> Bits_eq a b \<longleftrightarrow> x = y"
  by (auto simp: ub_def rep_eq nat_bl_eq_iff)

lemma UBits_ub: "unat v < 2 ^ n \<Longrightarrow> \<exists>b. UBits v n = Some b \<and> ub n b (unat v)"
  using returns_UBits [of v n] by (auto simp: ub_def elim: returns_bindE)

lemma UBits_0_ub: "\<exists>b. UBits 0 n = Some b \<and> ub n b 0"
  using UBits_ub [of 0 n] by simp

lemma UBits_1_ub: "n > 0 \<Longrightarrow> \<exists>b. UBits 1 n = Some b \<and> ub n b 1"
  using UBits_ub [of 1 n] one_less_power [of "2 :: nat" n] by simp

lemma AllOnes_ub: "\<exists>b. Bits_AllOnes n = Some b \<and> ub n b (2 ^ n - 1)"
  using returns_AllOnes [of n] nat_bl_unum [of "replicate n True"]
  by (auto simp: ub_def elim: returns_bindE)

lemma ZeroExtend_ub: "ub n b x \<Longrightarrow> n \<le> m \<Longrightarrow> \<exists>r. bits_ZeroExtend b m = Some r \<and> ub m r x"
  using returns_ZeroExtend [of b "nat_bl n x" m] order_less_le_trans [of x "2 ^ n" "2 ^ m"]
  by (auto simp: ub_def elim!: returns_bindE)

context bignum
begin

lemma Add_ub:
  "ub n a x \<Longrightarrow> ub n b y \<Longrightarrow> \<exists>r. bits_Add B a b = Some r \<and> ub n r ((x + y) mod 2 ^ n)"
  using returns_Add [of a "nat_bl n x" b "nat_bl n y"]
  by (auto simp: ub_def elim!: returns_bindE)

lemma Sub_ub:
  assumes "ub n a x" and "ub n b y" and "y \<le> x"
  shows "\<exists>r. bits_Sub B a b = Some r \<and> ub n r (x - y)"
  using returns_Sub [of a "nat_bl n x" b "nat_bl n y"] assms
  by (auto simp: ub_def simp flip: of_nat_diff elim!: returns_bindE)

end

section \<open>Operations on pairs of bounds\<close>

lemma ub_iff: "ub n b x \<longleftrightarrow> wf_bitmap b \<and> bm_count b = n \<and> x = uval b"
  using ub_of_wf ub_wf ub_count ub_uval by metis

lemma ivr_iff: "ivr n i p \<longleftrightarrow> valid_interval n i \<and> p = ival i"
  by (cases p) (auto simp: ivr_def valid_interval_def ival_def ub_iff)

lemma ivr_bounds: "ivr n i (a, b) \<Longrightarrow> a < 2 ^ n" "ivr n i (a, b) \<Longrightarrow> b < 2 ^ n"
  by (auto simp: ivr_def ub_less)

lemma ivrE:
  assumes "ivr n i (a, b)"
  obtains "iv_valid i" "ub n (lower_bound i) a" "ub n (upper_bound i) b"
    "bm_count (lower_bound i) = n" "bm_count (upper_bound i) = n" "a < 2 ^ n" "b < 2 ^ n"
  using assms by (auto simp: ivr_def ub_count ub_less)

lemma Interval_ivr: "ub n l a \<Longrightarrow> ub n u b \<Longrightarrow> \<exists>i. Interval l u = Some i \<and> ivr n i (a, b)"
  by (simp add: Interval_def ivr_def ub_count)

lemma EnsureValid_ivr [simp]: "ivr n i p \<Longrightarrow> Interval_EnsureValid i = Some ()"
  by (cases p) (auto simp: Interval_EnsureValid_def elim!: ivrE)

lemma BitCount_ivr [simp]: "ivr n i p \<Longrightarrow> Interval_BitCount i = Some n"
  by (cases p) (auto simp: Interval_BitCount_def elim: ivrE)

lemma IsImproper_ivr: "ivr n i (a, b) \<Longrightarrow> Interval_IsImproper i = Some (b < a)"
  by (cases "n = 0") (auto simp: Interval_IsImproper_def ub_compare elim!: ivrE)

lemma IsPrecise_ivr: "ivr n i (a, b) \<Longrightarrow> Interval_IsPrecise i = Some (a = b)"
  by (auto simp: Interval_IsPrecise_def ub_Bits_eq elim!: ivrE)

lemma Interval_less_ivr:
  "ivr n i (a, b) \<Longrightarrow> ivr n j (c, d) \<Longrightarrow> Interval_less i j \<longleftrightarrow> a < c \<or> (a = c \<and> b < d)"
  by (auto simp: Interval_less_def ub_compare elim!: ivrE)

lemma Interval_eq_ivr:
  "ivr n i (a, b) \<Longrightarrow> ivr m j (c, d) \<Longrightarrow> Interval_eq i j \<longleftrightarrow> (a, b) = (c, d)"
  by (auto simp: Interval_eq_def ub_compare elim!: ivrE)

lemma Maximal_ivr: "\<exists>i. Interval_Maximal n = Some i \<and> ivr n i (0, 2 ^ n - 1)"
proof -
  obtain z where z: "UBits 0 n = Some z" "ub n z 0" using UBits_0_ub by blast
  obtain m where m: "Bits_AllOnes n = Some m" "ub n m (2 ^ n - 1)" using AllOnes_ub by blast
  show ?thesis using Interval_ivr [OF z(2) m(2)] z(1) m(1) by (simp add: Interval_Maximal_def)
qed

lemma Precise_ivr: "ub n b x \<Longrightarrow> \<exists>i. Interval_Precise b = Some i \<and> ivr n i (x, x)"
  by (simp add: Interval_Precise_def Interval_ivr)

lemma ZeroExtend_ivr:
  assumes "ivr n i (a, b)" and "n \<le> m"
  shows "\<exists>r. Interval_ZeroExtend i m = Some r \<and> ivr m r (a, b)"
proof -
  from assms(1) have l: "ub n (lower_bound i) a" and u: "ub n (upper_bound i) b" by (auto elim: ivrE)
  obtain l' where l': "bits_ZeroExtend (lower_bound i) m = Some l'" "ub m l' a"
    using ZeroExtend_ub [OF l assms(2)] by blast
  obtain u' where u': "bits_ZeroExtend (upper_bound i) m = Some u'" "ub m u' b"
    using ZeroExtend_ub [OF u assms(2)] by blast
  show ?thesis
    using Interval_ivr [OF l'(2) u'(2)] assms l'(1) u'(1) by (simp add: Interval_ZeroExtend_def)
qed

lemma binary_checks_ivr:
  "ivr n i (a, b) \<Longrightarrow> ivr n j (c, d) \<Longrightarrow> a \<le> b \<Longrightarrow> c \<le> d \<Longrightarrow> Interval_binary_checks i j = Some n"
  by (simp add: Interval_binary_checks_def IsImproper_ivr)

lemma Overlaps_ivr:
  assumes "ivr n i (a, b)" and "ivr n j (c, d)" and "a \<le> b" and "c \<le> d"
  shows "Interval_Overlaps i j = Some (a \<le> d \<and> c \<le> b)"
proof -
  have "n = 0 \<Longrightarrow> a = 0 \<and> b = 0 \<and> c = 0 \<and> d = 0"
    using assms(1,2) by (auto simp: ivr_def dest!: ub_0)
  with assms show ?thesis
    by (auto simp: Interval_Overlaps_def binary_checks_ivr Interval_less_ivr ub_compare elim!: ivrE)
qed

lemma ConvexHull_ivr:
  assumes "ivr n i (a, b)" and "ivr n j (c, d)" and "a \<le> b" and "c \<le> d"
  shows "\<exists>r. Interval_ConvexHull i j = Some r \<and> ivr n r (min a c, max b d)"
proof (cases "n = 0")
  case True
  then have "a = 0" "b = 0" "c = 0" "d = 0" using assms(1,2) by (auto simp: ivr_def dest!: ub_0)
  moreover have "ub 0 (Bits_new 0) 0" using rep_new [of 0] by (simp add: ub_def)
  ultimately show ?thesis
    using Interval_ivr [of 0 "Bits_new 0" 0 "Bits_new 0" 0] assms True
    by (simp add: Interval_ConvexHull_def binary_checks_ivr)
next
  case False
  with assms show ?thesis
    by (auto simp: Interval_ConvexHull_def binary_checks_ivr ivr_def ub_compare Let_def min_def max_def)
qed

lemma Intersect_ivr:
  assumes "ivr n i (a, b)" and "ivr n j (c, d)" and "a \<le> b" and "c \<le> d"
  shows "\<exists>r. Interval_Intersect i j = Some r \<and>
    (if a \<le> d \<and> c \<le> b then \<exists>k. r = Some k \<and> ivr n k (max a c, min b d) else r = None)"
proof (cases "a \<le> d \<and> c \<le> b")
  case False
  with assms show ?thesis by (simp add: Interval_Intersect_def binary_checks_ivr Overlaps_ivr)
next
  case True
  from assms have l: "ub n (lower_bound i) a" "ub n (lower_bound j) c"
    and u: "ub n (upper_bound i) b" "ub n (upper_bound j) d"
    by (simp_all add: ivr_def)
  let ?l = "if bits_UGreaterThan (lower_bound j) (lower_bound i) then lower_bound j else lower_bound i"
  let ?u = "if bits_ULessThan (upper_bound j) (upper_bound i) then upper_bound j else upper_bound i"
  have "ub n ?l (max a c)" "ub n ?u (min b d)"
    using l u by (auto simp: ub_compare [OF l(2) l(1)] ub_compare [OF u(2) u(1)] max_def min_def)
  from Interval_ivr [OF this] True assms show ?thesis
    by (auto simp: Interval_Intersect_def binary_checks_ivr Overlaps_ivr Let_def)
qed

lemma IsSubsetOf_ivr:
  "ivr n i (a, b) \<Longrightarrow> ivr n j (c, d) \<Longrightarrow> a \<le> b \<Longrightarrow> c \<le> d \<Longrightarrow>
   Interval_IsSubsetOf i j = Some (c \<le> a \<and> b \<le> d)"
  by (auto simp: Interval_IsSubsetOf_def binary_checks_ivr ub_compare elim!: ivrE)

lemma Covers_ivr:
  assumes "ivr n i p" and "ub n v x"
  shows "Interval_Covers i v = Some (x \<in> wrap_points n p)"
proof (cases p)
  case (Pair a b)
  note i = assms(1) [unfolded Pair]
  have l: "ub n (lower_bound i) a" and u: "ub n (upper_bound i) b" using i by (auto elim: ivrE)
  have "n = 0 \<Longrightarrow> x = 0 \<and> a = 0 \<and> b = 0"
    using assms(2) l u by (auto dest!: ub_0)
  then show ?thesis
    using ub_less [OF assms(2)]
    by (auto simp: Interval_Covers_def BitCount_ivr [OF i] IsImproper_ivr [OF i] ub_count [OF assms(2)]
        ub_compare [OF l assms(2)] ub_compare [OF assms(2) u] wrap_points_def Pair)
qed


fun pair_diff :: "nat \<times> nat \<Rightarrow> nat \<times> nat \<Rightarrow> (nat \<times> nat) list" where
  "pair_diff (a, b) (c, d) =
     (if a \<le> d \<and> c \<le> b
      then (if a < c then [(a, c - 1)] else []) @ (if d < b then [(d + 1, b)] else [])
      else [(a, b)])"

text \<open>The order in which \<open>ForEachElement\<close> visits an interval.\<close>

definition visit_order :: "nat \<Rightarrow> nat \<times> nat \<Rightarrow> nat list" where
  "visit_order n p = (if fst p \<le> snd p then [fst p..<snd p + 1] else [fst p..<2 ^ n] @ [0..<snd p + 1])"

fun run_visitor :: "'s visitor \<Rightarrow> 's \<Rightarrow> bits list \<Rightarrow> 's \<times> bool" where
  "run_visitor callback s [] = (s, False)"
| "run_visitor callback s (v # vs) =
     (let (s', stop) = callback s v in if stop then (s', True) else run_visitor callback s' vs)"

lemma run_visitor_append:
  "run_visitor callback s (us @ vs) =
     (let (s', stop) = run_visitor callback s us in if stop then (s', True) else run_visitor callback s' vs)"
  by (induction us arbitrary: s) (simp_all split: prod.split)

lemma run_visitor_collect: "run_visitor (\<lambda>result v. (result @ [v], False)) acc vs = (acc @ vs, False)"
  by (induction vs arbitrary: acc) simp_all

lemma set_visit_order:
  assumes "fst p < 2 ^ n" and "snd p < 2 ^ n"
  shows "set (visit_order n p) = wrap_points n p" and "distinct (visit_order n p)"
  using assms by (auto simp: visit_order_def wrap_points_def)

lemma card_wrap_points:
  assumes "fst p < 2 ^ n" and "snd p < 2 ^ n"
  shows "card (wrap_points n p) = (if fst p \<le> snd p then snd p - fst p + 1 else (2 ^ n - fst p) + (snd p + 1))"
  using set_visit_order [OF assms] distinct_card [of "visit_order n p"]
  by (auto simp: visit_order_def)

context bignum
begin

lemma Abuts_ordered_ivr:
  assumes "ivr n i (a, b)" and "ivr n j (c, d)" and "a \<le> b" and "c \<le> d" and "n > 0" and "a \<le> c"
  shows "Interval_Abuts_ordered B n i j = Some (b + 1 = c)"
proof -
  from assms(1,2) have u: "ub n (upper_bound i) b" and l: "ub n (lower_bound j) c" by (auto elim: ivrE)
  obtain one where one: "UBits 1 n = Some one" "ub n one 1" using UBits_1_ub assms(5) by blast
  obtain r where r: "bits_Add B (upper_bound i) one = Some r" "ub n r ((b + 1) mod 2 ^ n)"
    using Add_ub [OF u one(2)] by blast
  have "(b + 1) mod 2 ^ n = c \<longleftrightarrow> b + 1 = c" if "\<not> c \<le> b"
    using that ub_less [OF l] by simp
  then show ?thesis
    using assms one(1) r(1) ub_compare(1) [OF r(2) l]
    by (auto simp: Interval_Abuts_ordered_def Overlaps_ivr)
qed

lemma Abuts_ivr:
  assumes "ivr n i (a, b)" and "ivr n j (c, d)" and "a \<le> b" and "c \<le> d"
  shows "Interval_Abuts B i j = Some (b + 1 = c \<or> d + 1 = a)"
proof (cases "n = 0")
  case True
  then have "a = 0 \<and> b = 0 \<and> c = 0 \<and> d = 0"
    using assms(1,2) by (auto simp: ivr_def dest!: ub_0)
  with True assms show ?thesis by (simp add: Interval_Abuts_def binary_checks_ivr)
next
  case False
  then show ?thesis
    using assms Abuts_ordered_ivr [OF assms] Abuts_ordered_ivr [OF assms(2,1,4,3)]
    by (auto simp: Interval_Abuts_def binary_checks_ivr Interval_less_ivr)
qed

lemma Difference_ivr:
  assumes i: "ivr n i (a, b)" and j: "ivr n j (c, d)" and "a \<le> b" and "c \<le> d"
  shows "\<exists>r. Interval_Difference B i j = Some r \<and> list_all2 (ivr n) r (pair_diff (a, b) (c, d))"
proof (cases "a \<le> d \<and> c \<le> b")
  case False
  with assms show ?thesis by (auto simp: Interval_Difference_def binary_checks_ivr Overlaps_ivr)
next
  case True
  from i j have ub: "ub n (lower_bound i) a" "ub n (lower_bound j) c" "ub n (upper_bound i) b" "ub n (upper_bound j) d"
    by (auto elim: ivrE)
  note less = ub_compare(2) [OF ub(1,2)] ub_compare(2) [OF ub(4,3)]
  have pos: "n > 0" if "a < c \<or> d < b" using that ub_less [OF ub(2)] ub_less [OF ub(3)] by (cases n) auto
  obtain xs where xs: "(if bits_ULessThan (lower_bound i) (lower_bound j) then
      UBits 1 n \<bind> (\<lambda>one. bits_Sub B (lower_bound j) one \<bind>
      (\<lambda>upper. Interval (lower_bound i) upper \<bind> (\<lambda>k. Some [k]))) else Some []) = Some xs"
    "list_all2 (ivr n) xs (if a < c then [(a, c - 1)] else [])"
  proof (cases "a < c")
    case lt: True
    then obtain one where one: "UBits 1 n = Some one" "ub n one 1" using UBits_1_ub pos by blast
    obtain r where r: "bits_Sub B (lower_bound j) one = Some r" "ub n r (c - 1)"
      using Sub_ub [OF ub(2) one(2)] lt by auto
    show ?thesis using that Interval_ivr [OF ub(1) r(2)] one(1) r(1) lt by (auto simp: less)
  qed (use that less in auto)
  obtain ys where ys: "(if bits_ULessThan (upper_bound j) (upper_bound i) then
      UBits 1 n \<bind> (\<lambda>one. bits_Add B (upper_bound j) one \<bind>
      (\<lambda>lower. Interval lower (upper_bound i) \<bind> (\<lambda>k. Some [k]))) else Some []) = Some ys"
    "list_all2 (ivr n) ys (if d < b then [(d + 1, b)] else [])"
  proof (cases "d < b")
    case lt: True
    then obtain one where one: "UBits 1 n = Some one" "ub n one 1" using UBits_1_ub pos by blast
    have "(d + 1) mod 2 ^ n = d + 1" using lt ub_less [OF ub(3)] by simp
    then obtain r where r: "bits_Add B (upper_bound j) one = Some r" "ub n r (d + 1)"
      using Add_ub [OF ub(4) one(2)] by auto
    show ?thesis using that Interval_ivr [OF r(2) ub(3)] one(1) r(1) lt by (auto simp: less)
  qed (use that less in auto)
  have "Interval_Difference B i j = Some (xs @ ys)"
    using True assms by (simp add: Interval_Difference_def binary_checks_ivr Overlaps_ivr xs(1) ys(1))
  moreover have "list_all2 (ivr n) (xs @ ys) (pair_diff (a, b) (c, d))"
    using True list_all2_appendI [OF xs(2) ys(2)] by simp
  ultimately show ?thesis by blast
qed

lemma Complement_ivr:
  assumes "ivr n i (a, b)" and "a \<le> b"
  shows "\<exists>r. Interval_Complement B i = Some r \<and> list_all2 (ivr n) r (pair_diff (0, 2 ^ n - 1) (a, b))"
proof -
  obtain m where m: "Interval_Maximal n = Some m" "ivr n m (0, 2 ^ n - 1)" using Maximal_ivr by blast
  show ?thesis
    using Difference_ivr [OF m(2) assms(1)] assms m(1) by (simp add: Interval_Complement_def)
qed

lemma foreach_loop_eq:
  assumes "ub n one 1" and "ub n last_value y" and "ub n v x" and "x \<le> y"
  shows "\<exists>vs. list_all2 (ub n) vs [x..<y + 1] \<and> foreach_loop B callback one last_value v s = Some (run_visitor callback s vs)"
  using assms(3,4)
proof (induction "y - x" arbitrary: x v s)
  case 0
  then have "x = y" by simp
  with 0 assms(2) have "list_all2 (ub n) [v] [x..<y + 1]" by simp
  moreover have "foreach_loop B callback one last_value v s = Some (run_visitor callback s [v])"
    using \<open>x = y\<close> ub_compare(1) [OF 0(2) assms(2)]
    by (subst foreach_loop.simps) (simp split: prod.split)
  ultimately show ?case by blast
next
  case (Suc k)
  have "(x + 1) mod 2 ^ n = x + 1" using Suc.hyps(2) ub_less [OF assms(2)] by simp
  then obtain r where r: "bits_Add B v one = Some r" "ub n r (x + 1)"
    using Add_ub [OF Suc.prems(1) assms(1)] by auto
  have less: "x < y" using Suc.hyps(2) by simp
  have "\<exists>vs. list_all2 (ub n) vs [x + 1..<y + 1] \<and>
      foreach_loop B callback one last_value r s' = Some (run_visitor callback s' vs)" for s'
    using Suc.hyps(1) [of "x + 1" r s'] Suc.hyps(2) r(2) less by simp
  then obtain vs where vs: "list_all2 (ub n) vs [x + 1..<y + 1]"
    "foreach_loop B callback one last_value r (fst (callback s v)) = Some (run_visitor callback (fst (callback s v)) vs)"
    by blast
  have "list_all2 (ub n) (v # vs) [x..<y + 1]"
    using vs(1) Suc.prems less by (simp add: upt_conv_Cons)
  moreover have "foreach_loop B callback one last_value v s = Some (run_visitor callback s (v # vs))"
    using less ub_compare(1) [OF Suc.prems(1) assms(2)] r(1) vs(2)
    by (subst foreach_loop.simps) (auto split: prod.split)
  ultimately show ?case by blast
qed

lemma ForEachElement_ivr:
  assumes "ivr n i p"
  shows "\<exists>vs. list_all2 (ub n) vs (visit_order n p) \<and>
    Interval_ForEachElement B i callback s = Some (run_visitor callback s vs)"
proof -
  obtain a b where p: "p = (a, b)" by fastforce
  have l: "ub n (lower_bound i) a" and u: "ub n (upper_bound i) b" using assms by (auto simp: p elim: ivrE)
  show ?thesis
  proof (cases "a = b")
    case True
    then have "list_all2 (ub n) [lower_bound i] (visit_order n p)" using l by (simp add: visit_order_def p)
    moreover have "Interval_ForEachElement B i callback s = Some (run_visitor callback s [lower_bound i])"
      using True assms ub_compare(1) [OF l u]
      by (simp add: Interval_ForEachElement_def split: prod.split)
    ultimately show ?thesis by blast
  next
    case False
    then have "n > 0" using ub_less [OF l] ub_less [OF u] by (cases n) simp_all
    then obtain one where one: "UBits 1 n = Some one" "ub n one 1" using UBits_1_ub by blast
    obtain z where z: "UBits 0 n = Some z" "ub n z 0" using UBits_0_ub by blast
    obtain m where m: "Bits_AllOnes n = Some m" "ub n m (2 ^ n - 1)" using AllOnes_ub by blast
    note cmp = ub_compare [OF l u] one(1) z(1) m(1)
    show ?thesis
    proof (cases "a \<le> b")
      case True
      then show ?thesis
        using foreach_loop_eq [OF one(2) u l, of callback s] False assms
        by (auto simp: Interval_ForEachElement_def cmp visit_order_def p)
    next
      case wrap: False
      obtain us where us: "list_all2 (ub n) us [a..<2 ^ n]"
        "foreach_loop B callback one m (lower_bound i) s = Some (run_visitor callback s us)"
        using foreach_loop_eq [OF one(2) m(2) l ub_le_max [OF l], of callback s] by auto
      define s' where "s' = fst (run_visitor callback s us)"
      obtain vs where vs: "list_all2 (ub n) vs [0..<b + 1]"
        "foreach_loop B callback one (upper_bound i) z s' = Some (run_visitor callback s' vs)"
        using foreach_loop_eq [OF one(2) u z(2), of callback s'] by auto
      have "list_all2 (ub n) (us @ vs) (visit_order n p)"
        using wrap us(1) vs(1) by (auto simp: visit_order_def p intro: list_all2_appendI)
      moreover have "Interval_ForEachElement B i callback s = Some (run_visitor callback s (us @ vs))"
        using False wrap assms us(2) vs(2) s'_def
        by (auto simp: Interval_ForEachElement_def cmp run_visitor_append split: prod.split)
      ultimately show ?thesis by blast
    qed
  qed
qed

lemma Elements_ivr:
  assumes "ivr n i p"
  shows "\<exists>vs. Interval_Elements B i = Some vs \<and> list_all2 (ub n) vs (visit_order n p)"
  using ForEachElement_ivr [OF assms, of "\<lambda>result v. (result @ [v], False)" "[]"]
  by (auto simp: Interval_Elements_def run_visitor_collect)

lemma SizeBits_straight_ub:
  assumes "ub n l a" and "ub n u b" and "a \<le> b"
  shows "\<exists>r. Interval_SizeBits_straight B l u = Some r \<and> ub (n + 1) r (b - a + 1)"
proof -
  obtain d where d: "bits_Sub B u l = Some d" "ub n d (b - a)" using Sub_ub [OF assms(2,1,3)] by blast
  obtain one where one: "UBits 1 (n + 1) = Some one" "ub (n + 1) one 1" using UBits_1_ub [of "n + 1"] by auto
  obtain e where e: "bits_ZeroExtend d (n + 1) = Some e" "ub (n + 1) e (b - a)"
    using ZeroExtend_ub [OF d(2), of "n + 1"] by auto
  have "1 + (b - a) < 2 ^ (n + 1)" using ub_less [OF d(2)] by simp
  then obtain r where "bits_Add B one e = Some r" "ub (n + 1) r (b - a + 1)"
    using Add_ub [OF one(2) e(2)] by (auto simp: add.commute)
  with d(1) one(1) e(1) ub_count [OF assms(1)] show ?thesis
    by (simp add: Interval_SizeBits_straight_def)
qed

lemma SizeBits_ivr:
  assumes "ivr n i p"
  shows "\<exists>r. Interval_SizeBits B i = Some r \<and> ub (n + 1) r (card (wrap_points n p))"
proof -
  obtain a b where p: "p = (a, b)" by fastforce
  have l: "ub n (lower_bound i) a" and u: "ub n (upper_bound i) b" using assms by (auto simp: p elim: ivrE)
  note card = card_wrap_points [of p n, unfolded p fst_conv snd_conv, OF ub_less [OF l] ub_less [OF u]]
  show ?thesis
  proof (cases "a \<le> b")
    case True
    then show ?thesis
      using SizeBits_straight_ub [OF l u] assms card
      by (simp add: Interval_SizeBits_def ub_compare [OF l u] p)
  next
    case False
    obtain z where z: "UBits 0 n = Some z" "ub n z 0" using UBits_0_ub by blast
    obtain m where m: "Bits_AllOnes n = Some m" "ub n m (2 ^ n - 1)" using AllOnes_ub by blast
    obtain x where x: "Interval_SizeBits_straight B (lower_bound i) m = Some x" "ub (n + 1) x (2 ^ n - a)"
      using SizeBits_straight_ub [OF l m(2) ub_le_max [OF l]] ub_less [OF l] by (auto simp: Suc_diff_Suc)
    obtain y where y: "Interval_SizeBits_straight B z (upper_bound i) = Some y" "ub (n + 1) y (b + 1)"
      using SizeBits_straight_ub [OF z(2) u] by auto
    have "2 ^ n - a + (b + 1) < 2 ^ (n + 1)" using False ub_less [OF l] by simp
    then obtain r where "bits_Add B x y = Some r" "ub (n + 1) r (2 ^ n - a + (b + 1))"
      using Add_ub [OF x(2) y(2)] by auto
    then show ?thesis
      using False assms card z(1) m(1) x(1) y(1)
      by (simp add: Interval_SizeBits_def ub_compare [OF l u] p)
  qed
qed

lemma Size_ivr:
  assumes "ivr n i p"
  shows "Interval_Size B i =
    Some (if card (wrap_points n p) < 2 ^ 63 then Some (card (wrap_points n p)) else None)"
proof -
  obtain r where r: "Interval_SizeBits B i = Some r" "ub (n + 1) r (card (wrap_points n p))"
    using SizeBits_ivr [OF assms] by blast
  then have "Bits_ToUint64 r = (if card (wrap_points n p) < 2 ^ 64 then
      Inr (of_nat (card (wrap_points n p))) else Inl InvalidArgument)"
    by (auto simp: ub_def rep_ToUint64)
  with r(1) show ?thesis by (auto simp: Interval_Size_def unat_of_nat)
qed

lemma IsMaximal_ivr:
  assumes "ivr n i p"
  shows "Interval_IsMaximal B i = Some (wrap_points n p = {..<2 ^ n})"
proof -
  obtain a b where p: "p = (a, b)" by fastforce
  have l: "ub n (lower_bound i) a" and u: "ub n (upper_bound i) b" using assms by (auto simp: p elim: ivrE)
  have sub: "wrap_points n p \<subseteq> {..<2 ^ n}" by (auto simp: wrap_points_def)
  have iff: "wrap_points n p = {..<2 ^ n} \<longleftrightarrow> card (wrap_points n p) = 2 ^ n"
    using sub by (metis card_lessThan card_subset_eq finite_lessThan)
  show ?thesis
  proof (cases "n = 0")
    case True
    then show ?thesis using assms l u by (auto simp: Interval_IsMaximal_def wrap_points_def p dest!: ub_0)
  next
    case False
    then obtain one where one: "UBits 1 n = Some one" "ub n one 1" using UBits_1_ub by blast
    obtain r where r: "bits_Add B (upper_bound i) one = Some r" "ub n r ((b + 1) mod 2 ^ n)"
      using Add_ub [OF u one(2)] by blast
    have "(b + 1) mod 2 ^ n = a \<longleftrightarrow> card (wrap_points n p) = 2 ^ n"
      using ub_less [OF l] ub_less [OF u] card_wrap_points [of p n]
      by (cases "b + 1 = 2 ^ n") (auto simp: p)
    then show ?thesis
      using False assms one(1) r(1) ub_compare(1) [OF r(2) l] iff
      by (simp add: Interval_IsMaximal_def)
  qed
qed

end

section \<open>Properties\<close>

definition IvPoints :: "nat \<Rightarrow> interval \<Rightarrow> nat set" where
  "IvPoints n i = wrap_points n (ival i)"

lemma ivr_proper: "ivr n i (a, b) \<Longrightarrow> a \<le> b \<Longrightarrow> proper_interval n i \<and> IvPoints n i = {a..b}"
  using ivr_bounds [of n i a b]
  by (auto simp: proper_interval_def ivr_iff ival_def IvPoints_def wrap_points_def)

lemma proper_interval_ivr:
  assumes "proper_interval n i"
  obtains a b where "ivr n i (a, b)" "a \<le> b" "IvPoints n i = {a..b}"
proof -
  have "ivr n i (fst (ival i), snd (ival i))" "fst (ival i) \<le> snd (ival i)"
    using assms by (simp_all add: proper_interval_def ivr_iff ival_def)
  then show ?thesis using that ivr_proper by blast
qed

lemma list_ivr_proper:
  "list_all2 (ivr n) xs ps \<Longrightarrow> \<forall>p\<in>set ps. fst p \<le> snd p \<Longrightarrow>
   list_all (proper_interval n) xs \<and> \<Union> (IvPoints n ` set xs) = (\<Union>p\<in>set ps. {fst p..snd p})"
proof (induction xs ps rule: list_all2_induct)
  case (Cons x xs p ps)
  then show ?case using ivr_proper [of n x "fst p" "snd p"] by simp
qed simp

text \<open>C28: on proper intervals of one width, \<open>Overlaps\<close>, \<open>Intersect\<close>, \<open>Difference\<close>, \<open>ConvexHull\<close> and
  \<open>IsSubsetOf\<close> are the set operations on the points the intervals cover, and no check fails.\<close>

theorem interval_set_algebra:
  assumes "bignum B num" and "proper_interval n i" and "proper_interval n j"
  shows "Interval_Overlaps i j = Some (IvPoints n i \<inter> IvPoints n j \<noteq> {}) \<and>
    (\<exists>r. Interval_Intersect i j = Some r \<and>
      (case r of None \<Rightarrow> IvPoints n i \<inter> IvPoints n j = {}
       | Some k \<Rightarrow> proper_interval n k \<and> IvPoints n k = IvPoints n i \<inter> IvPoints n j)) \<and>
    (\<exists>ds. Interval_Difference B i j = Some ds \<and> list_all (proper_interval n) ds \<and>
      \<Union> (IvPoints n ` set ds) = IvPoints n i - IvPoints n j) \<and>
    (\<exists>h. Interval_ConvexHull i j = Some h \<and> proper_interval n h \<and>
      IvPoints n h = {Min (IvPoints n i \<union> IvPoints n j)..Max (IvPoints n i \<union> IvPoints n j)}) \<and>
    Interval_IsSubsetOf i j = Some (IvPoints n i \<subseteq> IvPoints n j)"
proof -
  obtain a b where i: "ivr n i (a, b)" "a \<le> b" "IvPoints n i = {a..b}" using assms(2) by (rule proper_interval_ivr)
  obtain c d where j: "ivr n j (c, d)" "c \<le> d" "IvPoints n j = {c..d}" using assms(3) by (rule proper_interval_ivr)
  note ops = i(1) j(1) i(2) j(2)
  obtain ds where ds: "Interval_Difference B i j = Some ds" "list_all2 (ivr n) ds (pair_diff (a, b) (c, d))"
    using bignum.Difference_ivr [OF assms(1) ops] by blast
  have proper: "\<forall>p\<in>set (pair_diff (a, b) (c, d)). fst p \<le> snd p"
    and pts: "(\<Union>p\<in>set (pair_diff (a, b) (c, d)). {fst p..snd p}) = {a..b} - {c..d}"
    using i(2) j(2) by auto
  obtain h where h: "Interval_ConvexHull i j = Some h" "ivr n h (min a c, max b d)"
    using ConvexHull_ivr [OF ops] by blast
  have bounds: "Min ({a..b} \<union> {c..d}) = min a c" "Max ({a..b} \<union> {c..d}) = max b d"
    using i(2) j(2) by (auto intro!: Min_eqI Max_eqI simp: min_def max_def)
  obtain r where r: "Interval_Intersect i j = Some r"
    "if a \<le> d \<and> c \<le> b then \<exists>k. r = Some k \<and> ivr n k (max a c, min b d) else r = None"
    using Intersect_ivr [OF ops] by blast
  have "case r of None \<Rightarrow> {a..b} \<inter> {c..d} = {} | Some k \<Rightarrow> proper_interval n k \<and> IvPoints n k = {a..b} \<inter> {c..d}"
    using r(2) ivr_proper [of n _ "max a c" "min b d"] i(2) j(2) by (auto split: if_splits)
  moreover have "list_all (proper_interval n) ds" "\<Union> (IvPoints n ` set ds) = {a..b} - {c..d}"
    using list_ivr_proper [OF ds(2) proper] pts by simp_all
  moreover have "proper_interval n h" "IvPoints n h = {min a c..max b d}"
    using ivr_proper [OF h(2)] i(2) by auto
  ultimately show ?thesis
    using Overlaps_ivr [OF ops] IsSubsetOf_ivr [OF ops] r(1) ds(1) h(1) i(2) j(2)
    unfolding i(3) j(3) bounds by auto
qed

lemma FromSpan_interval:
  assumes "a < 2 ^ n" and "b < 2 ^ n"
  shows "ivr n \<lparr>iv_valid = True, lower_bound = Bits_FromSpan (nat_bl n a), upper_bound = Bits_FromSpan (nat_bl n b)\<rparr> (a, b)"
  using assms rep_FromSpan by (simp add: ivr_def ub_def)

theorem interval_set_algebra_witness:
  "Interval_Overlaps
     \<lparr>iv_valid = True, lower_bound = Bits_FromSpan (nat_bl 4 2), upper_bound = Bits_FromSpan (nat_bl 4 7)\<rparr>
     \<lparr>iv_valid = True, lower_bound = Bits_FromSpan (nat_bl 4 5), upper_bound = Bits_FromSpan (nat_bl 4 9)\<rparr> =
   Some ({2..7} \<inter> {5..9} \<noteq> ({} :: nat set))"
  using interval_set_algebra [OF int_bignum.bignum_axioms, of 4
      "\<lparr>iv_valid = True, lower_bound = Bits_FromSpan (nat_bl 4 2), upper_bound = Bits_FromSpan (nat_bl 4 7)\<rparr>"
      "\<lparr>iv_valid = True, lower_bound = Bits_FromSpan (nat_bl 4 5), upper_bound = Bits_FromSpan (nat_bl 4 9)\<rparr>"]
    ivr_proper [OF FromSpan_interval [of 2 4 7]] ivr_proper [OF FromSpan_interval [of 5 4 9]]
  by (simp del: atLeastatMost_empty_iff)

text \<open>For every valid interval, improper ones included, \<open>Elements\<close> terminates and lists each
  covered point exactly once, \<open>SizeBits\<close> is their number in one more bit, \<open>Covers\<close> tests
  membership, and \<open>IsMaximal\<close> says that every value is covered.\<close>

lemma interval_enumeration:
  assumes "bignum B num" and "valid_interval n i" and "ub n v x"
  shows "(\<exists>vs xs. Interval_Elements B i = Some vs \<and> list_all2 (ub n) vs xs \<and> distinct xs \<and> set xs = IvPoints n i) \<and>
    (\<exists>r. Interval_SizeBits B i = Some r \<and> ub (n + 1) r (card (IvPoints n i))) \<and>
    Interval_Covers i v = Some (x \<in> IvPoints n i) \<and>
    Interval_IsMaximal B i = Some (IvPoints n i = {..<2 ^ n})"
proof -
  have i: "ivr n i (ival i)" using assms(2) by (simp add: ivr_iff)
  have b: "fst (ival i) < 2 ^ n" "snd (ival i) < 2 ^ n"
    using i ivr_bounds [of n i "fst (ival i)" "snd (ival i)"] by simp_all
  show ?thesis
    using bignum.Elements_ivr [OF assms(1) i] set_visit_order [OF b] bignum.SizeBits_ivr [OF assms(1) i]
      Covers_ivr [OF i assms(3)] bignum.IsMaximal_ivr [OF assms(1) i]
    unfolding IvPoints_def by blast
qed

end
