(* ===== verification/Xls_Interval_Set.thy ===== *)
theory Xls_Interval_Set
  imports Xls_Interval "HOL-Library.Product_Lexorder"
begin

text \<open>
  \<open>xls/ir/interval_set.{h,cc}\<close>: finite unions of intervals. \<open>Normalize\<close> sorts the intervals and
  merges those that overlap or abut; the flag \<open>is_normalized\<close> records that it ran last.

  \<open>isr n s ps\<close> relates an \<open>IntervalSet\<close> of width \<open>n\<close> to its list of bound pairs, \<open>set_points\<close>
  is the set of numbers such a list denotes, and \<open>gapped\<close> is the normal form.
\<close>

record interval_set =
  is_normalized :: bool
  set_bit_count :: int
  set_intervals :: "interval list"

definition IntervalSet_default :: interval_set where
  "IntervalSet_default = \<lparr>is_normalized = True, set_bit_count = -1, set_intervals = []\<rparr>"

definition IntervalSet :: "nat \<Rightarrow> interval_set" where
  "IntervalSet bit_count = \<lparr>is_normalized = True, set_bit_count = int bit_count, set_intervals = []\<rparr>"

definition IntervalSet_NumberOfIntervals :: "interval_set \<Rightarrow> nat" where
  "IntervalSet_NumberOfIntervals s = length (set_intervals s)"

definition IntervalSet_Intervals :: "interval_set \<Rightarrow> interval list option" where
  "IntervalSet_Intervals s = do { CHECK (is_normalized s); Some (set_intervals s) }"

definition IntervalSet_BitCount :: "interval_set \<Rightarrow> nat option" where
  "IntervalSet_BitCount s = do { CHECK (set_bit_count s \<ge> 0); Some (nat (set_bit_count s)) }"

definition IntervalSet_AddInterval :: "interval_set \<Rightarrow> interval \<Rightarrow> interval_set option" where
  "IntervalSet_AddInterval s i = do {
     n \<leftarrow> IntervalSet_BitCount s;
     m \<leftarrow> Interval_BitCount i;
     CHECK (n = m);
     Some (s\<lparr>is_normalized := False, set_intervals := set_intervals s @ [i]\<rparr>)
   }"

fun IntervalSet_AddIntervals :: "interval_set \<Rightarrow> interval list \<Rightarrow> interval_set option" where
  "IntervalSet_AddIntervals s [] = Some s"
| "IntervalSet_AddIntervals s (i # ivs) = do {
     s' \<leftarrow> IntervalSet_AddInterval s i;
     IntervalSet_AddIntervals s' ivs
   }"

definition IntervalSet_SetIntervals :: "interval_set \<Rightarrow> interval list \<Rightarrow> interval_set option" where
  "IntervalSet_SetIntervals s intervals = do {
     count \<leftarrow> (case intervals of
                 [] \<Rightarrow> Some (-1)
               | i # _ \<Rightarrow> do { n \<leftarrow> Interval_BitCount i; Some (int n) });
     IntervalSet_AddIntervals
       (s\<lparr>is_normalized := False, set_intervals := [], set_bit_count := count\<rparr>) intervals
   }"

section \<open>Normalization\<close>

fun expand_improper :: "bits \<Rightarrow> bits \<Rightarrow> interval list \<Rightarrow> interval list option" where
  "expand_improper zero max_bits [] = Some []"
| "expand_improper zero max_bits (i # ivs) = do {
     improper \<leftarrow> Interval_IsImproper i;
     parts \<leftarrow> (if improper then do {
                 low \<leftarrow> Interval zero (upper_bound i);
                 high \<leftarrow> Interval (lower_bound i) max_bits;
                 Some [low, high]
               } else Some [i]);
     rest \<leftarrow> expand_improper zero max_bits ivs;
     Some (parts @ rest)
   }"

text \<open>The inner \<open>while\<close>: absorb the following intervals that overlap or abut.\<close>

fun merge_while :: "'b bn_api \<Rightarrow> interval \<Rightarrow> interval list \<Rightarrow> (interval \<times> interval list) option" where
  "merge_while B i [] = Some (i, [])"
| "merge_while B i (j # js) = do {
     overlaps \<leftarrow> Interval_Overlaps i j;
     absorb \<leftarrow> (if overlaps then Some True else Interval_Abuts B i j);
     if absorb then do {
       merged \<leftarrow> Interval_ConvexHull i j;
       merge_while B merged js
     }
     else Some (i, j # js)
   }"

text \<open>The outer loop starts each merge with the interval that is itself next.\<close>

partial_function (option) merge_intervals :: "'b bn_api \<Rightarrow> interval list \<Rightarrow> interval list option" where
  "merge_intervals B ivs =
     (case ivs of
        [] \<Rightarrow> Some []
      | i # _ \<Rightarrow> merge_while B i ivs \<bind> (\<lambda>(merged, rest).
          merge_intervals B rest \<bind> (\<lambda>others. Some (merged # others))))"

text \<open>\<open>std::sort\<close> with the lexicographic \<open>operator<\<close> sorts by the pair of bounds.\<close>

definition IntervalSet_Normalize :: "'b bn_api \<Rightarrow> interval_set \<Rightarrow> interval_set option" where
  "IntervalSet_Normalize B s = do {
     n \<leftarrow> IntervalSet_BitCount s;
     max \<leftarrow> Bits_AllOnes n;
     expanded \<leftarrow> expand_improper (Bits_new n) max (set_intervals s);
     merged \<leftarrow> merge_intervals B (sort_key ival expanded);
     Some (s\<lparr>set_intervals := merged, is_normalized := True\<rparr>)
   }"

definition IntervalSet_Maximal :: "'b bn_api \<Rightarrow> nat \<Rightarrow> interval_set option" where
  "IntervalSet_Maximal B bit_count = do {
     i \<leftarrow> Interval_Maximal bit_count;
     s \<leftarrow> IntervalSet_AddInterval (IntervalSet bit_count) i;
     IntervalSet_Normalize B s
   }"

definition IntervalSet_Precise :: "'b bn_api \<Rightarrow> bits \<Rightarrow> interval_set option" where
  "IntervalSet_Precise B b = do {
     i \<leftarrow> Interval_Precise b;
     s \<leftarrow> IntervalSet_AddInterval (IntervalSet (bm_count b)) i;
     IntervalSet_Normalize B s
   }"

section \<open>Bounds and extension\<close>

definition IntervalSet_LowerBound :: "interval_set \<Rightarrow> bits option option" where
  "IntervalSet_LowerBound s = do {
     CHECK (set_bit_count s \<ge> 0);
     Some (fold (\<lambda>i lower. case lower of
              Some l \<Rightarrow> if bits_ULessThan (lower_bound i) l then Some (lower_bound i) else lower
            | None \<Rightarrow> Some (lower_bound i)) (set_intervals s) None)
   }"

definition IntervalSet_UpperBound :: "interval_set \<Rightarrow> bits option option" where
  "IntervalSet_UpperBound s = do {
     CHECK (set_bit_count s \<ge> 0);
     Some (fold (\<lambda>i upper. case upper of
              Some u \<Rightarrow> if bits_UGreaterThan (upper_bound i) u then Some (upper_bound i) else upper
            | None \<Rightarrow> Some (upper_bound i)) (set_intervals s) None)
   }"

definition IntervalSet_ConvexHull :: "interval_set \<Rightarrow> interval option option" where
  "IntervalSet_ConvexHull s = do {
     CHECK (set_bit_count s \<ge> 0);
     lower \<leftarrow> IntervalSet_LowerBound s;
     upper \<leftarrow> IntervalSet_UpperBound s;
     case (lower, upper) of
       (Some l, Some u) \<Rightarrow> do { i \<leftarrow> Interval l u; Some (Some i) }
     | _ \<Rightarrow> Some None
   }"

fun zero_extend_all :: "interval list \<Rightarrow> nat \<Rightarrow> interval_set \<Rightarrow> interval_set option" where
  "zero_extend_all [] bit_width result = Some result"
| "zero_extend_all (i # ivs) bit_width result = do {
     e \<leftarrow> Interval_ZeroExtend i bit_width;
     result' \<leftarrow> IntervalSet_AddInterval result e;
     zero_extend_all ivs bit_width result'
   }"

definition IntervalSet_ZeroExtend :: "'b bn_api \<Rightarrow> interval_set \<Rightarrow> nat \<Rightarrow> interval_set option" where
  "IntervalSet_ZeroExtend B s bit_width = do {
     n \<leftarrow> IntervalSet_BitCount s;
     CHECK (bit_width \<ge> n);
     ivs \<leftarrow> IntervalSet_Intervals s;
     result \<leftarrow> zero_extend_all ivs bit_width (IntervalSet bit_width);
     IntervalSet_Normalize B result
   }"

fun foreach_intervals ::
  "'b bn_api \<Rightarrow> interval list \<Rightarrow> 's visitor \<Rightarrow> 's \<Rightarrow> ('s \<times> bool) option" where
  "foreach_intervals B [] callback s = Some (s, False)"
| "foreach_intervals B (i # ivs) callback s = do {
     (s', stop) \<leftarrow> Interval_ForEachElement B i callback s;
     if stop then Some (s', True) else foreach_intervals B ivs callback s'
   }"

definition IntervalSet_ForEachElement ::
  "'b bn_api \<Rightarrow> interval_set \<Rightarrow> 's visitor \<Rightarrow> 's \<Rightarrow> ('s \<times> bool) option" where
  "IntervalSet_ForEachElement B ivs callback s = do {
     CHECK (is_normalized ivs);
     foreach_intervals B (set_intervals ivs) callback s
   }"

section \<open>Set operations\<close>

definition IntervalSet_Combine :: "'b bn_api \<Rightarrow> interval_set \<Rightarrow> interval_set \<Rightarrow> interval_set option" where
  "IntervalSet_Combine B lhs rhs = do {
     n \<leftarrow> IntervalSet_BitCount lhs;
     m \<leftarrow> IntervalSet_BitCount rhs;
     CHECK (n = m);
     combined \<leftarrow> IntervalSet_AddIntervals (IntervalSet n) (set_intervals lhs);
     combined \<leftarrow> IntervalSet_AddIntervals combined (set_intervals rhs);
     IntervalSet_Normalize B combined
   }"

text \<open>\<open>left\<close> and \<open>right\<close> are the lists from the two iterators on. Inserting the remainder of an
  interval before the iterator leaves the interval itself in the list, behind the remainder.\<close>

partial_function (option) intersect_loop ::
  "'b bn_api \<Rightarrow> interval list \<Rightarrow> interval list \<Rightarrow> interval_set \<Rightarrow> interval_set option" where
  "intersect_loop B left right result =
     (case left of [] \<Rightarrow> Some result | l # ls \<Rightarrow>
     (case right of [] \<Rightarrow> Some result | r # rs \<Rightarrow>
       if bits_ULessThan (upper_bound l) (upper_bound r) then
         Interval_Intersect l r \<bind> (\<lambda>intersection. case intersection of
           None \<Rightarrow> intersect_loop B ls (r # rs) result
         | Some i \<Rightarrow>
             IntervalSet_AddInterval result i \<bind> (\<lambda>result'.
             Interval_Difference B r l \<bind> (\<lambda>difference.
             intersect_loop B ls (difference @ r # rs) result')))
       else if bits_ULessThan (upper_bound r) (upper_bound l) then
         Interval_Intersect l r \<bind> (\<lambda>intersection. case intersection of
           None \<Rightarrow> intersect_loop B (l # ls) rs result
         | Some i \<Rightarrow>
             IntervalSet_AddInterval result i \<bind> (\<lambda>result'.
             Interval_Difference B l r \<bind> (\<lambda>difference.
             intersect_loop B (difference @ l # ls) rs result')))
       else if bits_UEqual (upper_bound l) (upper_bound r) then
         Interval_Intersect l r \<bind> (\<lambda>intersection. case intersection of
           None \<Rightarrow> intersect_loop B ls rs result
         | Some i \<Rightarrow>
             IntervalSet_AddInterval result i \<bind> (\<lambda>result'. intersect_loop B ls rs result'))
       else intersect_loop B (l # ls) (r # rs) result))"

definition IntervalSet_Intersect :: "'b bn_api \<Rightarrow> interval_set \<Rightarrow> interval_set \<Rightarrow> interval_set option" where
  "IntervalSet_Intersect B lhs rhs = do {
     n \<leftarrow> IntervalSet_BitCount lhs;
     m \<leftarrow> IntervalSet_BitCount rhs;
     CHECK (n = m);
     lhs_intervals \<leftarrow> IntervalSet_Intervals lhs;
     rhs_intervals \<leftarrow> IntervalSet_Intervals rhs;
     result \<leftarrow> intersect_loop B lhs_intervals rhs_intervals (IntervalSet n);
     IntervalSet_Normalize B result
   }"

fun complement_loop :: "'b bn_api \<Rightarrow> nat \<Rightarrow> interval list \<Rightarrow> interval_set \<Rightarrow> interval_set option" where
  "complement_loop B n [] result = Some result"
| "complement_loop B n (i # ivs) result = do {
     complements \<leftarrow> Interval_Complement B i;
     complement_set \<leftarrow> IntervalSet_AddIntervals (IntervalSet n) complements;
     complement_set \<leftarrow> IntervalSet_Normalize B complement_set;
     result' \<leftarrow> IntervalSet_Intersect B result complement_set;
     complement_loop B n ivs result'
   }"

definition IntervalSet_Complement :: "'b bn_api \<Rightarrow> interval_set \<Rightarrow> interval_set option" where
  "IntervalSet_Complement B s = do {
     n \<leftarrow> IntervalSet_BitCount s;
     result \<leftarrow> IntervalSet_Maximal B n;
     ivs \<leftarrow> IntervalSet_Intervals s;
     complement_loop B n ivs result
   }"

section \<open>Queries\<close>

text \<open>The sum is an \<open>int64_t\<close>: the model wraps where C++ leaves the overflow undefined.\<close>

fun size_loop :: "'b bn_api \<Rightarrow> interval list \<Rightarrow> uint64 \<Rightarrow> uint64 option option" where
  "size_loop B [] total_size = Some (Some total_size)"
| "size_loop B (i # ivs) total_size = do {
     sz \<leftarrow> Interval_Size B i;
     case sz of
       Some k \<Rightarrow> size_loop B ivs (total_size + of_nat k)
     | None \<Rightarrow> Some None
   }"

definition IntervalSet_Size :: "'b bn_api \<Rightarrow> interval_set \<Rightarrow> uint64 option option" where
  "IntervalSet_Size B s = do {
     CHECK (is_normalized s);
     size_loop B (set_intervals s) 0
   }"

fun index_loop :: "'b bn_api \<Rightarrow> interval list \<Rightarrow> bits \<Rightarrow> (interval option \<times> bits) option" where
  "index_loop B [] so_far = Some (None, so_far)"
| "index_loop B (i # ivs) so_far = do {
     sz \<leftarrow> Interval_SizeBits B i;
     if bits_ULessThan so_far sz then Some (Some i, so_far)
     else do {
       so_far' \<leftarrow> bits_Sub B so_far sz;
       index_loop B ivs so_far'
     }
   }"

definition IntervalSet_Index :: "'b bn_api \<Rightarrow> interval_set \<Rightarrow> bits \<Rightarrow> bits option option" where
  "IntervalSet_Index B s index = do {
     CHECK (is_normalized s);
     n \<leftarrow> IntervalSet_BitCount s;
     CHECK (bm_count index = n);
     so_far \<leftarrow> bits_ZeroExtend index (n + 1);
     (to_index, so_far) \<leftarrow> index_loop B (set_intervals s) so_far;
     case to_index of
       None \<Rightarrow> Some None
     | Some i \<Rightarrow> do {
         lower \<leftarrow> bits_ZeroExtend (lower_bound i) (n + 1);
         result \<leftarrow> bits_Add B so_far lower;
         CHECK (\<not> Bits_msb result);
         r \<leftarrow> Bits_Slice result 0 n;
         Some (Some r)
       }
   }"

fun covers_any :: "interval list \<Rightarrow> bits \<Rightarrow> bool option" where
  "covers_any [] point = Some False"
| "covers_any (i # ivs) point = do {
     c \<leftarrow> Interval_Covers i point;
     if c then Some True else covers_any ivs point
   }"

definition IntervalSet_Covers :: "interval_set \<Rightarrow> bits \<Rightarrow> bool option" where
  "IntervalSet_Covers s point = do {
     n \<leftarrow> IntervalSet_BitCount s;
     CHECK (bm_count point = n);
     covers_any (set_intervals s) point
   }"

definition IntervalSet_CoversZero :: "interval_set \<Rightarrow> bool option" where
  "IntervalSet_CoversZero s = do {
     n \<leftarrow> IntervalSet_BitCount s; zero \<leftarrow> UBits 0 n; IntervalSet_Covers s zero
   }"

definition IntervalSet_CoversOne :: "interval_set \<Rightarrow> bool option" where
  "IntervalSet_CoversOne s = do {
     n \<leftarrow> IntervalSet_BitCount s; one \<leftarrow> UBits 1 n; IntervalSet_Covers s one
   }"

definition IntervalSet_CoversMax :: "interval_set \<Rightarrow> bool option" where
  "IntervalSet_CoversMax s = do {
     n \<leftarrow> IntervalSet_BitCount s; ones \<leftarrow> Bits_AllOnes n; IntervalSet_Covers s ones
   }"

fun precise_loop :: "interval list \<Rightarrow> interval option \<Rightarrow> bool option" where
  "precise_loop [] precisely = Some True"
| "precise_loop (i # ivs) precisely =
     (if (case precisely of Some p \<Rightarrow> \<not> Interval_eq p i | None \<Rightarrow> False) then Some False
      else do {
        precise \<leftarrow> Interval_IsPrecise i;
        if \<not> precise then Some False else precise_loop ivs (Some i)
      })"

definition IntervalSet_IsPrecise :: "interval_set \<Rightarrow> bool option" where
  "IntervalSet_IsPrecise s = do {
     CHECK (set_bit_count s \<ge> 0);
     precise_loop (set_intervals s) None
   }"

definition IntervalSet_GetPreciseValue :: "interval_set \<Rightarrow> bits option option" where
  "IntervalSet_GetPreciseValue s = do {
     CHECK (is_normalized s);
     precise \<leftarrow> IntervalSet_IsPrecise s;
     if \<not> precise then Some None
     else do {
       CHECK (length (set_intervals s) = 1);
       Interval_GetPreciseValue (hd (set_intervals s))
     }
   }"

fun maximal_any :: "'b bn_api \<Rightarrow> interval list \<Rightarrow> bool option" where
  "maximal_any B [] = Some False"
| "maximal_any B (i # ivs) = do {
     m \<leftarrow> Interval_IsMaximal B i;
     if m then Some True else maximal_any B ivs
   }"

definition IntervalSet_IsMaximal :: "'b bn_api \<Rightarrow> interval_set \<Rightarrow> bool option" where
  "IntervalSet_IsMaximal B s = do {
     CHECK (is_normalized s);
     CHECK (set_bit_count s \<ge> 0);
     maximal_any B (set_intervals s)
   }"

definition IntervalSet_IsEmpty :: "interval_set \<Rightarrow> bool option" where
  "IntervalSet_IsEmpty s = do {
     CHECK (is_normalized s);
     Some (set_intervals s = [])
   }"

definition IntervalSet_eq :: "'b bn_api \<Rightarrow> interval_set \<Rightarrow> interval_set \<Rightarrow> bool option" where
  "IntervalSet_eq B lhs rhs = do {
     lhs' \<leftarrow> IntervalSet_Normalize B lhs;
     rhs' \<leftarrow> IntervalSet_Normalize B rhs;
     Some (if set_bit_count lhs' \<noteq> set_bit_count rhs' then False
           else list_all2 Interval_eq (set_intervals lhs') (set_intervals rhs'))
   }"


section \<open>Lists of bound pairs\<close>

definition pts :: "(nat \<times> nat) list \<Rightarrow> nat set" where
  "pts ps = (\<Union>p\<in>set ps. {fst p..snd p})"

definition set_points :: "nat \<Rightarrow> (nat \<times> nat) list \<Rightarrow> nat set" where
  "set_points n ps = (\<Union>p\<in>set ps. wrap_points n p)"

text \<open>\<open>separated\<close>: proper, increasing and disjoint; \<open>gapped\<close>: moreover no two neighbours abut.\<close>

fun separated :: "nat \<Rightarrow> (nat \<times> nat) list \<Rightarrow> bool" where
  "separated k [] = True"
| "separated k (p # ps) = (k \<le> fst p \<and> fst p \<le> snd p \<and> separated (snd p + 1) ps)"

fun gapped_from :: "nat \<Rightarrow> (nat \<times> nat) list \<Rightarrow> bool" where
  "gapped_from k [] = True"
| "gapped_from k (p # ps) = (k \<le> fst p \<and> fst p \<le> snd p \<and> gapped_from (snd p + 2) ps)"

abbreviation gapped :: "(nat \<times> nat) list \<Rightarrow> bool" where
  "gapped \<equiv> gapped_from 0"

lemma pts_simps [simp]: "pts [] = {}" "pts (p # ps) = {fst p..snd p} \<union> pts ps" "pts (ps @ qs) = pts ps \<union> pts qs"
  by (auto simp: pts_def)

lemma set_points_simps [simp]:
  "set_points n [] = {}" "set_points n (p # ps) = wrap_points n p \<union> set_points n ps"
  "set_points n (ps @ qs) = set_points n ps \<union> set_points n qs"
  by (auto simp: set_points_def)

lemma wrap_points_proper: "fst p \<le> snd p \<Longrightarrow> snd p < 2 ^ n \<Longrightarrow> wrap_points n p = {fst p..snd p}"
  by (auto simp: wrap_points_def)

lemma set_points_proper:
  "\<forall>p\<in>set ps. fst p \<le> snd p \<and> snd p < 2 ^ n \<Longrightarrow> set_points n ps = pts ps"
  by (induction ps) (simp_all add: wrap_points_proper)

lemma separated_mono: "separated k ps \<Longrightarrow> j \<le> k \<Longrightarrow> separated j ps"
  by (cases ps) auto

lemma gapped_from_mono: "gapped_from k ps \<Longrightarrow> j \<le> k \<Longrightarrow> gapped_from j ps"
  by (cases ps) auto

lemma gapped_separated: "gapped_from k ps \<Longrightarrow> separated k ps"
proof (induction ps arbitrary: k)
  case (Cons p ps)
  then show ?case using separated_mono [of "snd p + 2" ps "snd p + 1"] by simp
qed simp

lemma separated_proper: "separated k ps \<Longrightarrow> p \<in> set ps \<Longrightarrow> fst p \<le> snd p"
  by (induction ps arbitrary: k) auto

lemma pts_separated_ge: "separated k ps \<Longrightarrow> x \<in> pts ps \<Longrightarrow> k \<le> x"
  by (induction ps arbitrary: k) fastforce+

lemma pts_gapped_ge: "gapped_from k ps \<Longrightarrow> x \<in> pts ps \<Longrightarrow> k \<le> x"
  using gapped_separated pts_separated_ge by blast

text \<open>The normal form is unique.\<close>

lemma gapped_first:
  assumes "gapped_from k (p # ps)"
  shows "(\<forall>x\<in>pts (p # ps). fst p \<le> x) \<and> fst p \<in> pts (p # ps) \<and> snd p + 1 \<notin> pts (p # ps) \<and>
    {fst p..snd p} \<subseteq> pts (p # ps)"
  using assms pts_gapped_ge [of "snd p + 2" ps] by fastforce

lemma gapped_unique:
  "gapped_from k ps \<Longrightarrow> gapped_from k qs \<Longrightarrow> pts ps = pts qs \<Longrightarrow> ps = qs"
proof (induction ps arbitrary: k qs)
  case Nil
  then show ?case by (cases qs) (auto dest: gapped_first)
next
  case (Cons p ps)
  then obtain q qs' where qs: "qs = q # qs'" by (cases qs) (auto dest: gapped_first)
  note p = gapped_first [OF Cons.prems(1)]
  note q = gapped_first [OF Cons.prems(2) [unfolded qs]]
  have eq: "pts (p # ps) = pts (q # qs')" using Cons.prems(3) qs by simp
  have fst: "fst p = fst q" using p q eq by (metis le_antisym)
  have "\<not> snd p < snd q"
  proof
    assume "snd p < snd q"
    then have "snd p + 1 \<in> {fst q..snd q}" using fst Cons.prems(1) by auto
    then show False using p q eq by blast
  qed
  moreover have "\<not> snd q < snd p"
  proof
    assume "snd q < snd p"
    then have "snd q + 1 \<in> {fst p..snd p}" using fst Cons.prems(2) qs by auto
    then show False using p q eq by blast
  qed
  ultimately have pq: "p = q" using fst by (simp add: prod_eq_iff)
  have g: "gapped_from (snd p + 2) ps" "gapped_from (snd p + 2) qs'" using Cons.prems qs pq by simp_all
  have "pts ps = pts (p # ps) - {..snd p + 1}" "pts qs' = pts (q # qs') - {..snd p + 1}"
    using g pq by (auto dest: pts_gapped_ge)
  then have "pts ps = pts qs'" using eq by simp
  from Cons.IH [OF g this] show ?case using qs pq by simp
qed

section \<open>Well-formed interval sets\<close>

definition wf_set :: "nat \<Rightarrow> interval_set \<Rightarrow> bool" where
  "wf_set n s \<longleftrightarrow> set_bit_count s = int n \<and> list_all (valid_interval n) (set_intervals s)"

definition Points :: "interval_set \<Rightarrow> nat set" where
  "Points s = set_points (nat (set_bit_count s)) (map ival (set_intervals s))"

definition normal_set :: "nat \<Rightarrow> interval_set \<Rightarrow> bool" where
  "normal_set n s \<longleftrightarrow> wf_set n s \<and> is_normalized s \<and> gapped (map ival (set_intervals s))"

lemma list_ivr_iff: "list_all2 (ivr n) xs ps \<longleftrightarrow> list_all (valid_interval n) xs \<and> ps = map ival xs"
proof (induction xs arbitrary: ps)
  case (Cons x xs)
  then show ?case by (cases ps) (auto simp: ivr_iff)
qed simp

lemma wf_set_ivr: "wf_set n s \<Longrightarrow> list_all2 (ivr n) (set_intervals s) (map ival (set_intervals s))"
  by (simp add: wf_set_def list_ivr_iff)

lemma normal_setD [dest]: "normal_set n s \<Longrightarrow> wf_set n s"
  by (simp add: normal_set_def)

lemma wf_set_count [simp]: "wf_set n s \<Longrightarrow> IntervalSet_BitCount s = Some n"
  by (simp add: wf_set_def IntervalSet_BitCount_def)

lemma wf_set_new [simp]: "wf_set n (IntervalSet n)" "Points (IntervalSet n) = {}"
  by (simp_all add: wf_set_def IntervalSet_def Points_def)

lemma Points_eq: "wf_set n s \<Longrightarrow> Points s = set_points n (map ival (set_intervals s))"
  by (simp add: Points_def wf_set_def)

lemma ivr_snd_less: "list_all2 (ivr n) xs ps \<Longrightarrow> p \<in> set ps \<Longrightarrow> snd p < 2 ^ n"
  by (induction xs ps rule: list_all2_induct) (auto dest: ivr_bounds)

lemma AddInterval_ok:
  assumes "wf_set n s" and "ivr n i p"
  shows "\<exists>s'. IntervalSet_AddInterval s i = Some s' \<and> wf_set n s' \<and>
    set_intervals s' = set_intervals s @ [i] \<and> Points s' = Points s \<union> wrap_points n p"
  using assms wf_set_count [OF assms(1)] BitCount_ivr [OF assms(2)]
  by (simp add: IntervalSet_AddInterval_def) (auto simp: wf_set_def Points_def ivr_iff)

lemma AddIntervals_ok:
  assumes "wf_set n s" and "list_all2 (ivr n) xs ps"
  shows "\<exists>s'. IntervalSet_AddIntervals s xs = Some s' \<and> wf_set n s' \<and>
    set_intervals s' = set_intervals s @ xs \<and> Points s' = Points s \<union> set_points n ps"
  using assms(2,1)
proof (induction xs ps arbitrary: s rule: list_all2_induct)
  case (Cons x xs p ps)
  obtain s1 where s1: "IntervalSet_AddInterval s x = Some s1" "wf_set n s1"
    "set_intervals s1 = set_intervals s @ [x]" "Points s1 = Points s \<union> wrap_points n p"
    using AddInterval_ok [OF Cons.prems Cons.hyps(1)] by blast
  with Cons.IH [OF s1(2)] show ?case by auto
qed simp

section \<open>Normalize\<close>

definition expand_pair :: "nat \<Rightarrow> nat \<times> nat \<Rightarrow> (nat \<times> nat) list" where
  "expand_pair n p = (if snd p < fst p then [(0, snd p), (fst p, 2 ^ n - 1)] else [p])"

lemma expand_improper_ok:
  assumes "ub n z 0" and "ub n m (2 ^ n - 1)" and "list_all2 (ivr n) xs ps"
  shows "\<exists>r. expand_improper z m xs = Some r \<and> list_all2 (ivr n) r (concat (map (expand_pair n) ps))"
  using assms(3)
proof (induction xs ps rule: list_all2_induct)
  case (Cons x xs p ps)
  obtain a b where p: "p = (a, b)" by fastforce
  have x: "ivr n x (a, b)" using Cons.hyps p by simp
  from x have l: "ub n (lower_bound x) a" and u: "ub n (upper_bound x) b" by (auto elim: ivrE)
  obtain i where i: "Interval z (upper_bound x) = Some i" "ivr n i (0, b)"
    using Interval_ivr [OF assms(1) u] by blast
  obtain j where j: "Interval (lower_bound x) m = Some j" "ivr n j (a, 2 ^ n - 1)"
    using Interval_ivr [OF l assms(2)] by blast
  from Cons.IH x i j show ?case
    by (auto simp: IsImproper_ivr [OF x] expand_pair_def p intro: list_all2_appendI)
qed simp

lemma pts_expand:
  assumes "list_all2 (ivr n) xs ps"
  shows "pts (concat (map (expand_pair n) ps)) = set_points n ps"
    and "\<forall>p\<in>set (concat (map (expand_pair n) ps)). fst p \<le> snd p"
  using assms
proof (induction xs ps rule: list_all2_induct)
  case (Cons x xs p ps)
  have p: "fst p < 2 ^ n" "snd p < 2 ^ n" using Cons.hyps by (cases p, auto dest: ivr_bounds)+
  have "pts (expand_pair n p) = wrap_points n p"
    using p by (auto simp: expand_pair_def wrap_points_def)
  moreover have "fst p \<le> 2 ^ n - 1" using p(1) by linarith
  then have "\<forall>q\<in>set (expand_pair n p). fst q \<le> snd q"
    by (auto simp: expand_pair_def)
  ultimately show "pts (concat (map (expand_pair n) (p # ps))) = set_points n (p # ps)"
    "\<forall>q\<in>set (concat (map (expand_pair n) (p # ps))). fst q \<le> snd q"
    using Cons.IH by auto
qed simp_all

lemma sort_ivr:
  assumes "list_all2 (ivr n) xs ps"
  shows "\<exists>qs. list_all2 (ivr n) (sort_key ival xs) qs \<and> sorted (map fst qs) \<and> set qs = set ps"
proof (intro exI conjI)
  let ?qs = "map ival (sort_key ival xs)"
  show "list_all2 (ivr n) (sort_key ival xs) ?qs" "set ?qs = set ps"
    using assms by (auto simp: list_ivr_iff list_all_iff)
  have "sorted ?qs" by simp
  moreover have "sorted ps \<Longrightarrow> sorted (map fst ps)" for ps :: "(nat \<times> nat) list"
    by (induction ps) (auto simp: less_eq_prod_def)
  ultimately show "sorted (map fst ?qs)" by blast
qed


context bignum
begin

lemma merge_while_ok:
  assumes "list_all2 (ivr n) xs ps" and "ivr n i (a, b)" and "a \<le> b"
    and "\<forall>p\<in>set ps. a \<le> fst p \<and> fst p \<le> snd p" and "sorted (map fst ps)"
  shows "\<exists>m rest b' k. merge_while B i xs = Some (m, rest) \<and> ivr n m (a, b') \<and> b \<le> b' \<and>
    list_all2 (ivr n) rest (drop k ps) \<and> {a..b} \<union> pts ps = {a..b'} \<union> pts (drop k ps) \<and>
    (\<forall>p\<in>set (drop k ps). b' + 2 \<le> fst p)"
  using assms
proof (induction xs ps arbitrary: i b rule: list_all2_induct)
  case Nil
  then show ?case by (intro exI [of _ i] exI [of _ "[]"] exI [of _ b] exI [of _ 0]) simp
next
  case (Cons x xs p ps)
  obtain c d where p: "p = (c, d)" by fastforce
  have x: "ivr n x (c, d)" and cd: "a \<le> c" "c \<le> d" using Cons.hyps Cons.prems p by simp_all
  have touch: "(a \<le> d \<and> c \<le> b) \<or> (b + 1 = c \<or> d + 1 = a) \<longleftrightarrow> c \<le> b + 1" using cd Cons.prems by auto
  note ops = Overlaps_ivr [OF Cons.prems(1) x Cons.prems(2) cd(2)] Abuts_ivr [OF Cons.prems(1) x Cons.prems(2) cd(2)]
  show ?case
  proof (cases "c \<le> b + 1")
    case True
    obtain r where r: "Interval_ConvexHull i x = Some r" "ivr n r (a, max b d)"
      using ConvexHull_ivr [OF Cons.prems(1) x Cons.prems(2) cd(2)] cd by (auto simp: min_def)
    have "a \<le> max b d" using Cons.prems(2) by simp
    from Cons.IH [OF r(2) this] Cons.prems obtain m rest b' k where IH:
      "merge_while B r xs = Some (m, rest)" "ivr n m (a, b')" "max b d \<le> b'"
      "list_all2 (ivr n) rest (drop k ps)" "{a..max b d} \<union> pts ps = {a..b'} \<union> pts (drop k ps)"
      "\<forall>p\<in>set (drop k ps). b' + 2 \<le> fst p"
      by auto
    have "{a..b} \<union> {c..d} = {a..max b d}" using True cd Cons.prems(2) by auto
    then have "{a..b} \<union> pts (p # ps) = {a..b'} \<union> pts (drop (Suc k) (p # ps))"
      using IH(5) by (simp add: p Un_assoc [symmetric])
    moreover have "merge_while B i (x # xs) = Some (m, rest)"
      using touch True ops r(1) IH(1) by (auto simp: ops)
    ultimately show ?thesis using IH
      by (intro exI [of _ m] exI [of _ rest] exI [of _ b'] exI [of _ "Suc k"]) simp
  next
    case False
    have "\<forall>q\<in>set (p # ps). b + 2 \<le> fst q" using False Cons.prems(4) p by auto
    moreover have "merge_while B i (x # xs) = Some (i, x # xs)"
      using False touch by (simp add: ops)
    ultimately show ?thesis using Cons.prems Cons.hyps
      by (intro exI [of _ i] exI [of _ "x # xs"] exI [of _ b] exI [of _ 0]) simp
  qed
qed

lemma merge_intervals_ok:
  assumes "list_all2 (ivr n) xs ps" and "\<forall>p\<in>set ps. k \<le> fst p \<and> fst p \<le> snd p" and "sorted (map fst ps)"
  shows "\<exists>ms qs. merge_intervals B xs = Some ms \<and> list_all2 (ivr n) ms qs \<and> gapped_from k qs \<and> pts qs = pts ps"
  using assms
proof (induction "length ps" arbitrary: xs ps k rule: less_induct)
  case less
  show ?case
  proof (cases ps)
    case Nil
    then show ?thesis using less.prems by (subst merge_intervals.simps) simp
  next
    case (Cons p ps')
    then obtain x xs' where xs: "xs = x # xs'" "ivr n x p" "list_all2 (ivr n) xs' ps'"
      using less.prems(1) by (auto simp: list_all2_Cons2)
    obtain a b where p: "p = (a, b)" by fastforce
    have x: "ivr n x (a, b)" and ab: "k \<le> a" "a \<le> b" using xs(2) less.prems(2) p Cons by auto
    have lo: "\<forall>q\<in>set ps'. a \<le> fst q \<and> fst q \<le> snd q" using less.prems(2,3) Cons p by auto
    obtain r where r: "Interval_ConvexHull x x = Some r" "ivr n r (a, b)"
      using ConvexHull_ivr [OF x x ab(2) ab(2)] by auto
    have first: "merge_while B x xs = merge_while B r xs'"
      using Overlaps_ivr [OF x x ab(2) ab(2)] r(1) ab xs(1) by simp
    obtain m rest b' j where m: "merge_while B r xs' = Some (m, rest)" "ivr n m (a, b')" "b \<le> b'"
      "list_all2 (ivr n) rest (drop j ps')" "{a..b} \<union> pts ps' = {a..b'} \<union> pts (drop j ps')"
      "\<forall>q\<in>set (drop j ps'). b' + 2 \<le> fst q"
      using merge_while_ok [OF xs(3) r(2) ab(2) lo] less.prems(3) Cons by auto
    have "\<forall>q\<in>set (drop j ps'). b' + 2 \<le> fst q \<and> fst q \<le> snd q"
      using m(6) lo by (auto dest: in_set_dropD)
    moreover have "sorted (map fst (drop j ps'))" using less.prems(3) Cons by (simp add: drop_map [symmetric] sorted_wrt_drop)
    moreover have "length (drop j ps') < length ps" using Cons by simp
    ultimately obtain ms qs where IH: "merge_intervals B rest = Some ms" "list_all2 (ivr n) ms qs"
      "gapped_from (b' + 2) qs" "pts qs = pts (drop j ps')"
      using less.hyps [OF _ m(4), of "b' + 2"] by blast
    have "merge_intervals B xs = Some (m # ms)"
      using first m(1) IH(1) xs(1) by (subst merge_intervals.simps) simp
    moreover have "list_all2 (ivr n) (m # ms) ((a, b') # qs)" using m(2) IH(2) by simp
    moreover have "gapped_from k ((a, b') # qs)" using ab m(3) IH(3) by simp
    moreover have "pts ((a, b') # qs) = pts ps" using m(5) IH(4) Cons p by simp
    ultimately show ?thesis by blast
  qed
qed

lemma Normalize_ok:
  assumes "wf_set n s"
  shows "\<exists>s'. IntervalSet_Normalize B s = Some s' \<and> normal_set n s' \<and> Points s' = Points s"
proof -
  obtain m where m: "Bits_AllOnes n = Some m" "ub n m (2 ^ n - 1)" using AllOnes_ub by blast
  have z: "ub n (Bits_new n) 0" using rep_new [of n] by (simp add: ub_def)
  note s = wf_set_ivr [OF assms]
  obtain es where es: "expand_improper (Bits_new n) m (set_intervals s) = Some es"
    "list_all2 (ivr n) es (concat (map (expand_pair n) (map ival (set_intervals s))))"
    using expand_improper_ok [OF z m(2) s] by blast
  obtain qs where qs: "list_all2 (ivr n) (sort_key ival es) qs" "sorted (map fst qs)"
    "set qs = set (concat (map (expand_pair n) (map ival (set_intervals s))))"
    using sort_ivr [OF es(2)] by blast
  have "pts qs = Points s" unfolding Points_eq [OF assms] pts_expand(1) [OF s, symmetric]
    by (simp only: pts_def qs(3))
  moreover have "\<forall>q\<in>set qs. 0 \<le> fst q \<and> fst q \<le> snd q" using pts_expand(2) [OF s] qs(3) by simp
  ultimately obtain ms rs where ms: "merge_intervals B (sort_key ival es) = Some ms"
    "list_all2 (ivr n) ms rs" "gapped rs" "pts rs = Points s"
    using merge_intervals_ok [OF qs(1) _ qs(2), of 0] by auto
  let ?s = "s\<lparr>set_intervals := ms, is_normalized := True\<rparr>"
  have "\<forall>p\<in>set rs. fst p \<le> snd p \<and> snd p < 2 ^ n"
    using ms(2,3) by (auto dest: ivr_snd_less separated_proper [OF gapped_separated])
  then have "set_points n rs = Points s" using set_points_proper ms(4) by blast
  then have "normal_set n ?s" "Points ?s = Points s"
    using assms ms(2,3) by (simp_all add: normal_set_def wf_set_def list_ivr_iff Points_def)
  moreover have "IntervalSet_Normalize B s = Some ?s"
    using assms m(1) es(1) ms(1) by (simp add: IntervalSet_Normalize_def)
  ultimately show ?thesis by blast
qed

end

lemma normal_set_pts:
  assumes "normal_set n s"
  shows "Points s = pts (map ival (set_intervals s))"
proof -
  have "\<forall>p\<in>set (map ival (set_intervals s)). fst p \<le> snd p \<and> snd p < 2 ^ n"
    using assms ivr_snd_less [OF wf_set_ivr, of n s] separated_proper [OF gapped_separated]
    unfolding normal_set_def by blast
  then show ?thesis using set_points_proper Points_eq assms by blast
qed


section \<open>Intersection\<close>

text \<open>The state of the loop: a list of live intervals \<open>ys\<close>, separated from a frontier \<open>f\<close> on,
  where the intervals \<open>S\<close> that were split stand behind their remainder, the first live one.
  They end at or before its upper bound, so they are passed over.\<close>

fun stacked :: "(nat \<times> nat) list \<Rightarrow> (nat \<times> nat) list \<Rightarrow> (nat \<times> nat) list" where
  "stacked S [] = []"
| "stacked S (y # ys) = y # S @ ys"

fun stack_ok :: "nat \<Rightarrow> (nat \<times> nat) list \<Rightarrow> (nat \<times> nat) list \<Rightarrow> bool" where
  "stack_ok f S [] = (S = [])"
| "stack_ok f S (y # ys) =
     (separated f (y # ys) \<and> (\<forall>s\<in>set S. fst s \<le> snd s \<and> snd s \<le> snd y) \<and> (S \<noteq> [] \<longrightarrow> fst y = f))"

lemma stack_ok_Nil [simp]: "stack_ok f [] ys = separated f ys"
  by (cases ys) auto

lemma stacked_Nil [simp]: "stacked [] ys = ys"
  by (cases ys) simp_all

lemma stack_ok_separated: "stack_ok f S ys \<Longrightarrow> separated f ys"
  by (cases ys) auto

text \<open>Intervals that end before the first interval of the other list are dropped. \<open>loop\<close> is the
  loop with its two lists in either order.\<close>

definition drops_dead :: "nat \<Rightarrow> (interval list \<Rightarrow> interval list \<Rightarrow> interval_set \<Rightarrow> interval_set option) \<Rightarrow> bool" where
  "drops_dead n loop \<longleftrightarrow> (\<forall>ds D rs R f ls result.
     list_all2 (ivr n) ds D \<longrightarrow> (\<forall>s\<in>set D. fst s \<le> snd s \<and> snd s < f) \<longrightarrow> list_all2 (ivr n) rs R \<longrightarrow>
     (R = [] \<or> f \<le> fst (hd R) \<and> fst (hd R) \<le> snd (hd R)) \<longrightarrow>
     loop (ds @ ls) rs result = loop ls rs result)"

lemma drops_deadD:
  "drops_dead n loop \<Longrightarrow> list_all2 (ivr n) ds D \<Longrightarrow> \<forall>s\<in>set D. fst s \<le> snd s \<and> snd s < f \<Longrightarrow>
   list_all2 (ivr n) rs R \<Longrightarrow> R = [] \<or> f \<le> fst (hd R) \<and> fst (hd R) \<le> snd (hd R) \<Longrightarrow>
   loop (ds @ ls) rs result = loop ls rs result"
  unfolding drops_dead_def by blast

lemma Intersect_disjoint:
  assumes "ivr n i p" and "ivr n j q" and "fst p \<le> snd p" and "fst q \<le> snd q" and "snd p < fst q \<or> snd q < fst p"
  shows "Interval_Intersect i j = Some None"
  using Intersect_ivr [of n i "fst p" "snd p" j "fst q" "snd q"] assms by auto

lemma ivr_upper: "ivr n i p \<Longrightarrow> ub n (upper_bound i) (snd p)"
  by (simp add: ivr_def)

lemma upper_compare:
  "ivr n i p \<Longrightarrow> ivr n j q \<Longrightarrow> bits_ULessThan (upper_bound i) (upper_bound j) \<longleftrightarrow> snd p < snd q"
  "ivr n i p \<Longrightarrow> ivr n j q \<Longrightarrow> bits_UEqual (upper_bound i) (upper_bound j) \<longleftrightarrow> snd p = snd q"
  using ub_compare [OF ivr_upper ivr_upper] by blast+

lemma drop_dead_left:
  assumes "list_all2 (ivr n) ds D" and "\<forall>s\<in>set D. fst s \<le> snd s \<and> snd s < f"
    and "list_all2 (ivr n) rs R" and "R = [] \<or> f \<le> fst (hd R) \<and> fst (hd R) \<le> snd (hd R)"
  shows "intersect_loop B (ds @ ls) rs result = intersect_loop B ls rs result"
proof (cases rs)
  case Nil
  show ?thesis unfolding Nil
    by (subst (1 2) intersect_loop.simps) (simp split: list.split)
next
  case (Cons r rs')
  then obtain q where r: "ivr n r q" "f \<le> fst q" "fst q \<le> snd q" using assms(3,4) by (auto simp: list_all2_Cons1)
  show ?thesis using assms(1,2)
  proof (induction ds D rule: list_all2_induct)
    case (Cons d ds p D)
    then have p: "fst p \<le> snd p" "snd p < fst q" using r(2) by auto
    then have "intersect_loop B ((d # ds) @ ls) rs result = intersect_loop B (ds @ ls) rs result"
      using upper_compare(1) [OF Cons.hyps(1) r(1)] r(3) Intersect_disjoint [OF Cons.hyps(1) r(1) p(1) r(3)]
      by (subst intersect_loop.simps) (simp add: \<open>rs = r # rs'\<close>)
    with Cons show ?case by simp
  qed simp
qed

lemma drop_dead_right:
  assumes "list_all2 (ivr n) ds D" and "\<forall>s\<in>set D. fst s \<le> snd s \<and> snd s < f"
    and "list_all2 (ivr n) ls L" and "L = [] \<or> f \<le> fst (hd L) \<and> fst (hd L) \<le> snd (hd L)"
  shows "intersect_loop B ls (ds @ rs) result = intersect_loop B ls rs result"
proof (cases ls)
  case Nil
  show ?thesis unfolding Nil by (subst (1 2) intersect_loop.simps) simp
next
  case (Cons l ls')
  then obtain p where l: "ivr n l p" "f \<le> fst p" "fst p \<le> snd p" using assms(3,4) by (auto simp: list_all2_Cons1)
  show ?thesis using assms(1,2)
  proof (induction ds D rule: list_all2_induct)
    case (Cons d ds q D)
    then have q: "fst q \<le> snd q" "snd q < fst p" using l(2) by auto
    then have "intersect_loop B ls ((d # ds) @ rs) result = intersect_loop B ls (ds @ rs) result"
      using upper_compare(1) [OF Cons.hyps(1) l(1)] upper_compare(1) [OF l(1) Cons.hyps(1)] l(3)
        Intersect_disjoint [OF l(1) Cons.hyps(1) l(3) q(1)]
      by (subst intersect_loop.simps) (simp add: \<open>ls = l # ls'\<close>)
    with Cons show ?case by simp
  qed simp
qed


lemma le_max_iff: "x \<le> 2 ^ n - 1 \<longleftrightarrow> x < (2 :: nat) ^ n"
proof -
  have "0 < (2 :: nat) ^ n" by simp
  then show ?thesis by linarith
qed

lemma inter_split_left:
  fixes A C :: "nat set"
  assumes "\<forall>x\<in>A. b < x" and "\<forall>x\<in>C. d < x" and "b < d"
  shows "({a..b} \<union> A) \<inter> ({c..d} \<union> C) = ({a..b} \<inter> {c..d}) \<union> (A \<inter> ({b + 1..d} \<inter> {c..d} \<union> C))"
proof (rule set_eqI)
  fix x
  have "x \<in> A \<Longrightarrow> b < x" "x \<in> C \<Longrightarrow> d < x" using assms by auto
  then show "x \<in> ({a..b} \<union> A) \<inter> ({c..d} \<union> C) \<longleftrightarrow>
      x \<in> ({a..b} \<inter> {c..d}) \<union> (A \<inter> ({b + 1..d} \<inter> {c..d} \<union> C))"
    using assms(3) by (cases "x \<le> b"; cases "x \<le> d") auto
qed

lemma stackedE:
  assumes "list_all2 (ivr n) ls (stacked S (y # ys))"
  obtains l ss ls' where "ls = l # ss @ ls'" "ivr n l y" "list_all2 (ivr n) ss S" "list_all2 (ivr n) ls' ys"
  using assms by (auto simp: list_all2_Cons2 list_all2_append2)

lemma separated_hd: "separated f ys \<Longrightarrow> ys = [] \<or> f \<le> fst (hd ys) \<and> fst (hd ys) \<le> snd (hd ys)"
  by (cases ys) auto

lemma drops_dead_loop:
  "drops_dead n (intersect_loop B)" "drops_dead n (\<lambda>rs ls. intersect_loop B ls rs)"
  unfolding drops_dead_def
  by (intro allI impI, rule drop_dead_left, assumption+)
    (intro allI impI, rule drop_dead_right, assumption+)

lemma Intersect_either:
  assumes "ivr n i (a, b)" and "ivr n j (c, d)" and "a \<le> b" and "c \<le> d"
    and "I = Interval_Intersect i j \<or> I = Interval_Intersect j i"
  shows "\<exists>r. I = Some r \<and>
    (if a \<le> d \<and> c \<le> b then \<exists>k. r = Some k \<and> ivr n k (max a c, min b d) else r = None)"
  using assms Intersect_ivr [OF assms(1-4)] Intersect_ivr [OF assms(2,1,4,3)]
  by (auto simp: max.commute min.commute)

context bignum
begin

lemma intersect_step:
  assumes l: "ivr n l (a, b)" "list_all2 (ivr n) ss SL" "list_all2 (ivr n) ls yl"
    and r: "ivr n r (c, d)" "list_all2 (ivr n) ts SR" "list_all2 (ivr n) rs yr"
    and okl: "stack_ok f SL ((a, b) # yl)" and okr: "stack_ok f SR ((c, d) # yr)"
    and less: "b < d"
    and dead: "drops_dead n loop" "drops_dead n (\<lambda>rs ls. loop ls rs)"
    and I: "I = Interval_Intersect l r \<or> I = Interval_Intersect r l"
  shows "\<exists>S y ys' k. I = Some k \<and>
      stack_ok (b + 1) S (y # yr) \<and> list_all2 (ivr n) ys' (stacked S (y # yr)) \<and>
      {fst y..snd y} = {b + 1..d} \<inter> {c..d} \<and>
      (case k of
         None \<Rightarrow> {a..b} \<inter> {c..d} = {} \<and>
           (\<forall>result. loop (ss @ ls) (r # ts @ rs) result = loop ls ys' result)
       | Some i \<Rightarrow> ivr n i (max a c, b) \<and> max a c \<le> b \<and>
           (\<exists>difference. Interval_Difference B r l = Some difference \<and>
             (\<forall>result. loop (ss @ ls) (difference @ r # ts @ rs) result =
                       loop ls ys' result)))"
proof -
  have ab: "f \<le> a" "a \<le> b" and cd: "f \<le> c" "c \<le> d" and sepl: "separated (b + 1) yl"
    and sepr: "separated (d + 1) yr" and deadl: "\<forall>s\<in>set SL. fst s \<le> snd s \<and> snd s < b + 1"
    and deadr: "\<forall>s\<in>set SR. fst s \<le> snd s \<and> snd s \<le> d"
    using okl okr by auto
  show ?thesis
  proof (cases "c \<le> b")
    case False
    then have "SR = []" using okr okl by auto
    let ?ys = "r # ts @ rs"
    have ys: "list_all2 (ivr n) ?ys (stacked [] ((c, d) # yr))" using r \<open>SR = []\<close> by simp
    have "loop (ss @ ls) ?ys result = loop ls ?ys result" for result
      using ys False cd by (intro drops_deadD [OF dead(1) l(2) deadl, where R = "(c, d) # yr"]) simp_all
    moreover have "I = Some None"
      using Intersect_either [OF l(1) r(1) ab(2) cd(2) I] False by simp
    moreover have "stack_ok (b + 1) [] ((c, d) # yr)" using False cd sepr by simp
    ultimately show ?thesis using ys False
      by (intro exI [of _ "[]"] exI [of _ "(c, d)"] exI [of _ ?ys] exI [of _ None]) auto
  next
    case True
    obtain i where i: "I = Some (Some i)" "ivr n i (max a c, b)"
      using Intersect_either [OF l(1) r(1) ab(2) cd(2) I] True ab less by auto
    obtain diff where diff: "Interval_Difference B r l = Some diff"
      "list_all2 (ivr n) diff (pair_diff (c, d) (a, b))"
      using Difference_ivr [OF r(1) l(1) cd(2) ab(2)] by blast
    define D where "D = (if c < a then [(c, a - 1)] else [])"
    have "pair_diff (c, d) (a, b) = D @ [(b + 1, d)]" using True ab less by (auto simp: D_def)
    then obtain ds p where ds: "diff = ds @ [p]" "list_all2 (ivr n) ds D" "ivr n p (b + 1, d)"
      using diff(2) by (auto simp: list_all2_append2 list_all2_Cons2)
    let ?ys = "p # (r # ts) @ rs"
    have ys: "list_all2 (ivr n) ?ys (stacked ((c, d) # SR) ((b + 1, d) # yr))"
      using ds(3) r by (auto intro: list_all2_appendI)
    have ok: "stack_ok (b + 1) ((c, d) # SR) ((b + 1, d) # yr)"
      using less cd deadr sepr by auto
    have "loop (ss @ ls) (diff @ r # ts @ rs) result = loop ls ?ys result" for result
    proof -
      have deadD: "\<forall>s\<in>set D. fst s \<le> snd s \<and> snd s < b + 1" using ab by (auto simp: D_def)
      have "D \<noteq> [] \<Longrightarrow> SL = []" using okl cd by (auto simp: D_def split: if_splits)
      then have "loop (ss @ ls) (ds @ ?ys) result = loop (ss @ ls) ?ys result"
        using drops_deadD [OF dead(2) ds(2) deadD l(3) separated_hd [OF sepl]] l(2) ds(2) by (cases "D = []") auto
      also have "\<dots> = loop ls ?ys result"
        using less by (intro drops_deadD [OF dead(1) l(2) deadl ys]) simp
      finally show ?thesis by (simp add: ds(1))
    qed
    then show ?thesis using i diff(1) ok ys True ab less
      by (intro exI [of _ "(c, d) # SR"] exI [of _ "(b + 1, d)"] exI [of _ ?ys] exI [of _ "Some i"]) auto
  qed
qed


lemma AddInterval_proper:
  assumes "wf_set n s" and "ivr n i (u, v)" and "u \<le> v"
  shows "\<exists>t. IntervalSet_AddInterval s i = Some t \<and> wf_set n t \<and> Points t = Points s \<union> {u..v}"
  using AddInterval_ok [OF assms(1,2)] wrap_points_proper [of "(u, v)" n] assms(2,3) by (auto dest: ivr_bounds)

text \<open>One iteration in which the first list advances; \<open>result\<close> is what the loop returns.\<close>

lemma intersect_advance:
  assumes l: "ivr n l (a, b)" "list_all2 (ivr n) ss SL" "list_all2 (ivr n) ls yl"
    and r: "ivr n r (c, d)" "list_all2 (ivr n) ts SR" "list_all2 (ivr n) rs yr"
    and okl: "stack_ok f SL ((a, b) # yl)" and okr: "stack_ok f SR ((c, d) # yr)" and less: "b < d"
    and dead: "drops_dead n loop" "drops_dead n (\<lambda>rs ls. loop ls rs)"
    and I: "I = Interval_Intersect l r \<or> I = Interval_Intersect r l" and s: "wf_set n s"
    and IH: "\<And>S w ys t. stack_ok (b + 1) S (w # yr) \<Longrightarrow> list_all2 (ivr n) ys (stacked S (w # yr)) \<Longrightarrow>
      wf_set n t \<Longrightarrow> \<exists>s'. loop ls ys t = Some s' \<and> wf_set n s' \<and> Points s' = Points t \<union> (pts yl \<inter> pts (w # yr))"
    and none: "I = Some None \<Longrightarrow> result = loop (ss @ ls) (r # ts @ rs) s"
    and some: "\<And>i t D. I = Some (Some i) \<Longrightarrow> IntervalSet_AddInterval s i = Some t \<Longrightarrow>
      Interval_Difference B r l = Some D \<Longrightarrow> result = loop (ss @ ls) (D @ r # ts @ rs) t"
  shows "\<exists>s'. result = Some s' \<and> wf_set n s' \<and> Points s' = Points s \<union> (pts ((a, b) # yl) \<inter> pts ((c, d) # yr))"
proof -
  obtain S w ys k where step: "I = Some k" "stack_ok (b + 1) S (w # yr)"
    "list_all2 (ivr n) ys (stacked S (w # yr))" "{fst w..snd w} = {b + 1..d} \<inter> {c..d}"
    "case k of None \<Rightarrow> {a..b} \<inter> {c..d} = {} \<and>
        (\<forall>t. loop (ss @ ls) (r # ts @ rs) t = loop ls ys t)
      | Some i \<Rightarrow> ivr n i (max a c, b) \<and> max a c \<le> b \<and>
        (\<exists>D. Interval_Difference B r l = Some D \<and>
          (\<forall>t. loop (ss @ ls) (D @ r # ts @ rs) t = loop ls ys t))"
    using intersect_step [OF l r okl okr less dead I] by blast
  have "\<forall>x\<in>pts yl. b < x" "\<forall>x\<in>pts yr. d < x"
    using okl okr pts_separated_ge [of "b + 1" yl] pts_separated_ge [of "d + 1" yr] by fastforce+
  then have split: "pts ((a, b) # yl) \<inter> pts ((c, d) # yr) = ({a..b} \<inter> {c..d}) \<union> (pts yl \<inter> pts (w # yr))"
    using inter_split_left [OF _ _ less, of "pts yl" "pts yr" a c]
    by (simp only: pts_simps fst_conv snd_conv step(4))
  show ?thesis
  proof (cases k)
    case None
    then show ?thesis using IH [OF step(2,3) s] none step(1,5) split by auto
  next
    case (Some i)
    then obtain D where D: "Interval_Difference B r l = Some D"
      "\<forall>t. loop (ss @ ls) (D @ r # ts @ rs) t = loop ls ys t"
      and i: "ivr n i (max a c, b)" "max a c \<le> b"
      using step(5) by auto
    obtain t where t: "IntervalSet_AddInterval s i = Some t" "wf_set n t" "Points t = Points s \<union> {max a c..b}"
      using AddInterval_proper [OF s i] by blast
    have "{a..b} \<inter> {c..d} = {max a c..b}" using less by auto
    then show ?thesis using IH [OF step(2,3) t(2)] some [OF _ t(1) D(1)] D(2) Some step(1) split t(3) by auto
  qed
qed

text \<open>One iteration in which both lists advance.\<close>

lemma intersect_both:
  assumes l: "ivr n l (a, b)" "list_all2 (ivr n) ss SL" "list_all2 (ivr n) ls yl"
    and r: "ivr n r (c, b)" "list_all2 (ivr n) ts SR" "list_all2 (ivr n) rs yr"
    and okl: "stack_ok f SL ((a, b) # yl)" and okr: "stack_ok f SR ((c, b) # yr)"
    and one: "SL = [] \<or> SR = []" and s: "wf_set n s"
  shows "\<exists>t. intersect_loop B (l # ss @ ls) (r # ts @ rs) s = intersect_loop B ls rs t \<and> wf_set n t \<and>
    Points t = Points s \<union> ({a..b} \<inter> {c..b})"
proof -
  have ab: "a \<le> b" "c \<le> b" "separated (b + 1) yl" "separated (b + 1) yr"
    and dead: "\<forall>x\<in>set SL. fst x \<le> snd x \<and> snd x < b + 1" "\<forall>x\<in>set SR. fst x \<le> snd x \<and> snd x < b + 1"
    using okl okr by auto
  obtain i where i: "Interval_Intersect l r = Some (Some i)" "ivr n i (max a c, b)"
    using Intersect_ivr [OF l(1) r(1) ab(1,2)] ab by auto
  obtain t where t: "IntervalSet_AddInterval s i = Some t" "wf_set n t" "Points t = Points s \<union> {max a c..b}"
    using AddInterval_proper [OF s i(2)] ab by auto
  have "intersect_loop B (l # ss @ ls) (r # ts @ rs) s = intersect_loop B (ss @ ls) (ts @ rs) t"
    using i(1) t(1) upper_compare [OF l(1) r(1)] upper_compare(1) [OF r(1) l(1)]
    by (subst intersect_loop.simps) simp
  also have "\<dots> = intersect_loop B ls rs t"
    using one l(2) r(2) drop_dead_right [OF r(2) dead(2) l(3) separated_hd [OF ab(3)]]
      drop_dead_left [OF l(2) dead(1) r(3) separated_hd [OF ab(4)]] by auto
  finally show ?thesis using t by auto
qed

lemma intersect_loop_ok:
  assumes "list_all2 (ivr n) ls (stacked SL yl)" and "list_all2 (ivr n) rs (stacked SR yr)"
    and "stack_ok f SL yl" and "stack_ok f SR yr" and "SL = [] \<or> SR = []" and "wf_set n s"
  shows "\<exists>s'. intersect_loop B ls rs s = Some s' \<and> wf_set n s' \<and> Points s' = Points s \<union> (pts yl \<inter> pts yr)"
  using assms
proof (induction "2 ^ n - f" arbitrary: f ls SL yl rs SR yr s rule: less_induct)
  case less
  show ?case
  proof (cases "yl = [] \<or> yr = []")
    case True
    then show ?thesis using less.prems(1,2,6)
      by (subst intersect_loop.simps) (auto split: list.split)
  next
    case False
    then obtain a b yl' c d yr' where yl: "yl = (a, b) # yl'" and yr: "yr = (c, d) # yr'"
      by (metis list.exhaust surj_pair)
    obtain l ss ls' where l: "ls = l # ss @ ls'" "ivr n l (a, b)" "list_all2 (ivr n) ss SL" "list_all2 (ivr n) ls' yl'"
      using less.prems(1) unfolding yl by (rule stackedE)
    obtain r ts rs' where r: "rs = r # ts @ rs'" "ivr n r (c, d)" "list_all2 (ivr n) ts SR" "list_all2 (ivr n) rs' yr'"
      using less.prems(2) unfolding yr by (rule stackedE)
    note ok = less.prems(3) [unfolded yl] less.prems(4) [unfolded yr]
    have sep: "separated (b + 1) yl'" "separated (d + 1) yr'" and fb: "f < b + 1" "f < d + 1" using ok by auto
    have bd: "b < 2 ^ n" "d < 2 ^ n" using l(2) r(2) by (auto dest: ivr_bounds)
    then have dec: "2 ^ n - (b + 1) < 2 ^ n - f" "2 ^ n - (d + 1) < 2 ^ n - f" using fb by linarith+
    note cmp = upper_compare [OF l(2) r(2)] upper_compare(1) [OF r(2) l(2)]
    have IH_left: "\<exists>s'. intersect_loop B ls' ys t = Some s' \<and> wf_set n s' \<and> Points s' = Points t \<union> (pts yl' \<inter> pts zs)"
      if "stack_ok (b + 1) S zs" "list_all2 (ivr n) ys (stacked S zs)" "wf_set n t" for S zs ys t
      using less.hyps [of "b + 1" ls' "[]" yl' ys S zs t] dec(1) l(4) sep(1) that by simp
    have IH_right: "\<exists>s'. intersect_loop B xs rs' t = Some s' \<and> wf_set n s' \<and> Points s' = Points t \<union> (pts yr' \<inter> pts zs)"
      if "stack_ok (d + 1) S zs" "list_all2 (ivr n) xs (stacked S zs)" "wf_set n t" for S zs xs t
      using less.hyps [of "d + 1" xs S zs rs' "[]" yr' t] dec(2) r(4) sep(2) that by (simp add: Int_commute)
    consider "b < d" | "d < b" | "b = d" by linarith
    then show ?thesis
    proof cases
      case 1
      have "\<exists>s'. intersect_loop B ls rs s = Some s' \<and> wf_set n s' \<and>
          Points s' = Points s \<union> (pts ((a, b) # yl') \<inter> pts ((c, d) # yr'))"
        by (rule intersect_advance [OF l(2-4) r(2-4) ok 1 drops_dead_loop [of n B] disjI1 [OF refl] less.prems(6) IH_left])
          (use 1 in \<open>simp_all add: l(1) r(1) cmp intersect_loop.simps [of B "l # _"]\<close>)
      then show ?thesis by (simp only: yl yr)
    next
      case 2
      have "\<exists>s'. intersect_loop B ls rs s = Some s' \<and> wf_set n s' \<and>
          Points s' = Points s \<union> (pts ((c, d) # yr') \<inter> pts ((a, b) # yl'))"
        by (rule intersect_advance [OF r(2-4) l(2-4) ok(2,1) 2 drops_dead_loop(2,1) [of n B] disjI2 [OF refl] less.prems(6) IH_right])
          (use 2 in \<open>simp_all add: l(1) r(1) cmp intersect_loop.simps [of B "l # _"]\<close>)
      then show ?thesis by (simp only: yl yr Int_commute)
    next
      case 3
      obtain t where t: "intersect_loop B ls rs s = intersect_loop B ls' rs' t" "wf_set n t"
        "Points t = Points s \<union> ({a..b} \<inter> {c..b})"
        using intersect_both [OF l(2-4) _ r(3,4) ok(1) _ less.prems(5,6)] r(2) ok(2) 3 l(1) r(1) by blast
      have "\<forall>x\<in>pts yl'. b < x" "\<forall>x\<in>pts yr'. b < x"
        using pts_separated_ge [OF sep(1)] pts_separated_ge [OF sep(2)] 3 by fastforce+
      then have "pts yl \<inter> pts yr = ({a..b} \<inter> {c..b}) \<union> (pts yl' \<inter> pts yr')"
        using 3 by (fastforce simp: yl yr)
      then show ?thesis using t IH_left [of "[]" yr' rs' t] r(4) sep(2) 3 by auto
    qed
  qed
qed

lemma Intersect_ok:
  assumes "normal_set n s" and "normal_set n t"
  shows "\<exists>u. IntervalSet_Intersect B s t = Some u \<and> normal_set n u \<and> Points u = Points s \<inter> Points t"
proof -
  have norm: "is_normalized s" "is_normalized t" and gap: "separated 0 (map ival (set_intervals s))"
    "separated 0 (map ival (set_intervals t))"
    using assms by (auto simp: normal_set_def intro: gapped_separated)
  have wf: "wf_set n s" "wf_set n t" using assms by auto
  obtain v where v: "intersect_loop B (set_intervals s) (set_intervals t) (IntervalSet n) = Some v" "wf_set n v"
    "Points v = pts (map ival (set_intervals s)) \<inter> pts (map ival (set_intervals t))"
    using intersect_loop_ok [of n "set_intervals s" "[]" "map ival (set_intervals s)"
        "set_intervals t" "[]" "map ival (set_intervals t)" 0 "IntervalSet n"] wf gap
    by (auto simp: wf_set_ivr)
  obtain u where u: "IntervalSet_Normalize B v = Some u" "normal_set n u" "Points u = Points v"
    using Normalize_ok [OF v(2)] by blast
  have "IntervalSet_Intersect B s t = Some u"
    using norm wf v(1) u(1) by (simp add: IntervalSet_Intersect_def IntervalSet_Intervals_def)
  then show ?thesis using u v(3) normal_set_pts [OF assms(1)] normal_set_pts [OF assms(2)] by auto
qed

lemma Maximal_ok: "\<exists>s. IntervalSet_Maximal B n = Some s \<and> normal_set n s \<and> Points s = {..<2 ^ n}"
proof -
  obtain i where i: "Interval_Maximal n = Some i" "ivr n i (0, 2 ^ n - 1)" using Maximal_ivr by blast
  obtain t where t: "IntervalSet_AddInterval (IntervalSet n) i = Some t" "wf_set n t" "Points t = {0..2 ^ n - 1}"
    using AddInterval_proper [OF wf_set_new(1) i(2)] by auto
  have "{0..2 ^ n - 1} = {..<(2::nat) ^ n}" by (auto simp only: atLeastAtMost_iff lessThan_iff le_max_iff zero_le)
  then show ?thesis
    using Normalize_ok [OF t(2)] i(1) t by (simp add: IntervalSet_Maximal_def)
qed

lemma Precise_ok:
  assumes "ub n b x"
  shows "\<exists>s. IntervalSet_Precise B b = Some s \<and> normal_set n s \<and> Points s = {x}"
proof -
  obtain i where i: "Interval_Precise b = Some i" "ivr n i (x, x)" using Precise_ivr [OF assms] by blast
  obtain t where t: "IntervalSet_AddInterval (IntervalSet n) i = Some t" "wf_set n t" "Points t = {x}"
    using AddInterval_proper [OF wf_set_new(1) i(2)] by auto
  show ?thesis
    using Normalize_ok [OF t(2)] i(1) t ub_count [OF assms] by (simp add: IntervalSet_Precise_def)
qed

lemma Combine_ok:
  assumes "wf_set n s" and "wf_set n t"
  shows "\<exists>u. IntervalSet_Combine B s t = Some u \<and> normal_set n u \<and> Points u = Points s \<union> Points t"
proof -
  obtain v where v: "IntervalSet_AddIntervals (IntervalSet n) (set_intervals s) = Some v" "wf_set n v" "Points v = Points s"
    using AddIntervals_ok [OF wf_set_new(1) wf_set_ivr [OF assms(1)]] by (auto simp: Points_eq [OF assms(1)])
  obtain w where w: "IntervalSet_AddIntervals v (set_intervals t) = Some w" "wf_set n w" "Points w = Points v \<union> Points t"
    using AddIntervals_ok [OF v(2) wf_set_ivr [OF assms(2)]] by (auto simp: Points_eq [OF assms(2)])
  show ?thesis
    using Normalize_ok [OF w(2)] assms v w by (simp add: IntervalSet_Combine_def)
qed

lemma pts_pair_diff: "a \<le> b \<Longrightarrow> c \<le> d \<Longrightarrow> pts (pair_diff (a, b) (c, d)) = {a..b} - {c..d}"
  by (cases "a \<le> d \<and> c \<le> b"; cases "a < c"; cases "d < b") auto

lemma pair_diff_proper: "a \<le> b \<Longrightarrow> c \<le> d \<Longrightarrow> p \<in> set (pair_diff (a, b) (c, d)) \<Longrightarrow> fst p \<le> snd p"
  by (auto split: if_splits)

lemma complement_loop_ok:
  assumes "list_all2 (ivr n) xs ps" and "\<forall>p\<in>set ps. fst p \<le> snd p" and "normal_set n s"
  shows "\<exists>t. complement_loop B n xs s = Some t \<and> normal_set n t \<and> Points t = Points s - pts ps"
  using assms
proof (induction xs ps arbitrary: s rule: list_all2_induct)
  case (Cons x xs p ps)
  obtain a b where p: "p = (a, b)" by fastforce
  have x: "ivr n x (a, b)" and ab: "a \<le> b" using Cons.hyps Cons.prems p by simp_all
  let ?d = "pair_diff (0, 2 ^ n - 1) (a, b)"
  obtain cs where cs: "Interval_Complement B x = Some cs" "list_all2 (ivr n) cs ?d"
    using Complement_ivr [OF x ab] by blast
  obtain u where u: "IntervalSet_AddIntervals (IntervalSet n) cs = Some u" "wf_set n u" "Points u = set_points n ?d"
    using AddIntervals_ok [OF wf_set_new(1) cs(2)] by auto
  have "set_points n ?d = {0..2 ^ n - 1} - {a..b}"
    using set_points_proper [of ?d n] pair_diff_proper [OF _ ab] ivr_snd_less [OF cs(2)] pts_pair_diff [OF _ ab]
    by (metis zero_le)
  then have d: "x \<in> Points u \<longleftrightarrow> x < 2 ^ n \<and> x \<notin> {a..b}" for x
    unfolding u(3) by (simp only: Diff_iff atLeastAtMost_iff le_max_iff zero_le simp_thms)
  obtain v where v: "IntervalSet_Normalize B u = Some v" "normal_set n v" "Points v = Points u"
    using Normalize_ok [OF u(2)] by blast
  obtain w where w: "IntervalSet_Intersect B s v = Some w" "normal_set n w" "Points w = Points s \<inter> Points v"
    using Intersect_ok [OF Cons.prems(2) v(2)] by blast
  have "Points s \<subseteq> {..<2 ^ n}"
    using Points_eq [OF normal_setD [OF Cons.prems(2)]] by (auto simp: set_points_def wrap_points_def)
  then have "Points w = Points s - {a..b}" using w(3) v(3) d by auto
  moreover obtain t where "complement_loop B n xs w = Some t" "normal_set n t" "Points t = Points w - pts ps"
    using Cons.IH [OF _ w(2)] Cons.prems(1) by auto
  ultimately show ?case using cs(1) u(1) v(1) w(1) by (auto simp: p)
qed simp

lemma Complement_ok:
  assumes "normal_set n s"
  shows "\<exists>t. IntervalSet_Complement B s = Some t \<and> normal_set n t \<and> Points t = {..<2 ^ n} - Points s"
proof -
  have proper: "\<forall>p\<in>set (map ival (set_intervals s)). fst p \<le> snd p" and norm: "is_normalized s"
    using assms separated_proper [OF gapped_separated] unfolding normal_set_def by blast+
  obtain m where m: "IntervalSet_Maximal B n = Some m" "normal_set n m" "Points m = {..<2 ^ n}"
    using Maximal_ok by blast
  show ?thesis
    using complement_loop_ok [OF wf_set_ivr [OF normal_setD [OF assms]] proper m(2)] m(1,3) norm assms
      normal_set_pts [OF assms]
    by (auto simp: IntervalSet_Complement_def IntervalSet_Intervals_def)
qed

lemma zero_extend_all_ok:
  assumes "list_all2 (ivr n) xs ps" and "n \<le> m" and "\<forall>p\<in>set ps. fst p \<le> snd p" and "wf_set m s"
  shows "\<exists>t. zero_extend_all xs m s = Some t \<and> wf_set m t \<and> Points t = Points s \<union> pts ps"
  using assms
proof (induction xs ps arbitrary: s rule: list_all2_induct)
  case (Cons x xs p ps)
  obtain a b where p: "p = (a, b)" by fastforce
  obtain r where r: "Interval_ZeroExtend x m = Some r" "ivr m r (a, b)"
    using ZeroExtend_ivr [of n x a b m] Cons p by auto
  obtain t where t: "IntervalSet_AddInterval s r = Some t" "wf_set m t" "Points t = Points s \<union> {a..b}"
    using AddInterval_proper [OF Cons.prems(3) r(2)] Cons.prems(2) p by auto
  then show ?case using Cons.IH [OF Cons.prems(1) _ t(2)] Cons.prems(2) r(1) p by auto
qed simp

lemma IntervalSet_ZeroExtend_ok:
  assumes "normal_set n s" and "n \<le> m"
  shows "\<exists>t. IntervalSet_ZeroExtend B s m = Some t \<and> normal_set m t \<and> Points t = Points s"
proof -
  have proper: "\<forall>p\<in>set (map ival (set_intervals s)). fst p \<le> snd p" and norm: "is_normalized s"
    using assms separated_proper [OF gapped_separated] unfolding normal_set_def by blast+
  obtain t where t: "zero_extend_all (set_intervals s) m (IntervalSet m) = Some t" "wf_set m t"
    "Points t = pts (map ival (set_intervals s))"
    using zero_extend_all_ok [OF wf_set_ivr [OF normal_setD [OF assms(1)]] assms(2) proper wf_set_new(1)] by auto
  show ?thesis
    using Normalize_ok [OF t(2)] t assms norm normal_set_pts [OF assms(1)]
    by (auto simp: IntervalSet_ZeroExtend_def IntervalSet_Intervals_def)
qed

lemma IntervalSet_eq_ok:
  assumes "wf_set n s" and "wf_set n t"
  shows "IntervalSet_eq B s t = Some (Points s = Points t)"
proof -
  obtain s' where s': "IntervalSet_Normalize B s = Some s'" "normal_set n s'" "Points s' = Points s"
    using Normalize_ok [OF assms(1)] by blast
  obtain t' where t': "IntervalSet_Normalize B t = Some t'" "normal_set n t'" "Points t' = Points t"
    using Normalize_ok [OF assms(2)] by blast
  let ?ps = "map ival (set_intervals s')" and ?qs = "map ival (set_intervals t')"
  have cnt: "set_bit_count s' = set_bit_count t'" using s'(2) t'(2) by (simp add: normal_set_def wf_set_def)
  have "list_all2 (ivr n) xs ps \<Longrightarrow> list_all2 (ivr n) ys qs \<Longrightarrow> list_all2 Interval_eq xs ys \<longleftrightarrow> ps = qs" for xs ps ys qs
  proof (induction xs ps arbitrary: ys qs rule: list_all2_induct)
    case (Cons x xs p ps)
    then show ?case
      by (cases ys; cases qs; cases p; cases "hd qs") (auto simp: Interval_eq_ivr)
  qed auto
  then have "list_all2 Interval_eq (set_intervals s') (set_intervals t') \<longleftrightarrow> ?ps = ?qs"
    using s'(2) t'(2) wf_set_ivr by blast
  also have "\<dots> \<longleftrightarrow> pts ?ps = pts ?qs"
    using gapped_unique [of 0 ?ps ?qs] s'(2) t'(2) by (auto simp: normal_set_def)
  also have "\<dots> \<longleftrightarrow> Points s = Points t"
    using s' t' normal_set_pts by metis
  finally show ?thesis using s'(1) t'(1) cnt by (simp add: IntervalSet_eq_def)
qed

end


section \<open>Queries\<close>

lemma covers_any_ivr:
  assumes "list_all2 (ivr n) xs ps" and "ub n v x"
  shows "covers_any xs v = Some (x \<in> set_points n ps)"
  using assms(1) by (induction xs ps rule: list_all2_induct) (auto simp: Covers_ivr [OF _ assms(2)])

lemma IntervalSet_Covers_ok:
  "wf_set n s \<Longrightarrow> ub n v x \<Longrightarrow> IntervalSet_Covers s v = Some (x \<in> Points s)"
  by (simp add: IntervalSet_Covers_def ub_count covers_any_ivr [OF wf_set_ivr] Points_eq)

lemma IntervalSet_IsEmpty_ok:
  assumes "normal_set n s"
  shows "IntervalSet_IsEmpty s = Some (Points s = {})"
proof -
  have "set_intervals s = [] \<longleftrightarrow> Points s = {}"
    using assms gapped_first [of 0] unfolding normal_set_pts [OF assms]
    by (cases "set_intervals s") (auto simp: normal_set_def)
  then show ?thesis using assms by (simp add: IntervalSet_IsEmpty_def normal_set_def)
qed

text \<open>The points of a normalized set in increasing order.\<close>

definition elems :: "(nat \<times> nat) list \<Rightarrow> nat list" where
  "elems ps = concat (map (\<lambda>p. [fst p..<snd p + 1]) ps)"

lemma elems_simps [simp]: "elems [] = []" "elems (p # ps) = [fst p..<snd p + 1] @ elems ps"
  by (simp_all add: elems_def)

lemma set_elems [simp]: "set (elems ps) = pts ps"
  by (induction ps) (simp_all add: atLeastLessThanSuc_atLeastAtMost del: upt_Suc)

lemma sorted_elems: "separated k ps \<Longrightarrow> sorted_wrt (<) (elems ps)"
proof (induction ps arbitrary: k)
  case (Cons p ps)
  then have "\<forall>x\<in>set (elems ps). snd p < x" using pts_separated_ge [of "snd p + 1" ps] by fastforce
  with Cons show ?case by (fastforce simp: sorted_wrt_append simp del: upt_Suc)
qed simp

lemma length_elems: "separated k ps \<Longrightarrow> length (elems ps) = card (pts ps)"
proof -
  assume "separated k ps"
  then have "distinct (elems ps)" using sorted_elems strict_sorted_iff by blast
  from distinct_card [OF this] show ?thesis by simp
qed

lemma precise_loop_ivr:
  assumes "list_all2 (ivr n) xs ps" and "case prev of None \<Rightarrow> True | Some i \<Rightarrow> ivr n i q"
  shows "precise_loop xs prev = Some (\<forall>p\<in>set ps. fst p = snd p \<and> (\<forall>p'\<in>set ps. p' = p) \<and> (prev \<noteq> None \<longrightarrow> p = q))"
  using assms
proof (induction xs ps arbitrary: prev q rule: list_all2_induct)
  case (Cons x xs p ps)
  obtain a b where p: "p = (a, b)" by fastforce
  have x: "ivr n x (a, b)" using Cons.hyps p by simp
  have eq: "Interval_eq i x \<longleftrightarrow> q = p" if "prev = Some i" for i
    using Interval_eq_ivr [of n i "fst q" "snd q" n x a b] Cons.prems that x p by (auto split: option.splits)
  have IH: "precise_loop xs (Some x) = Some (\<forall>r\<in>set ps. fst r = snd r \<and> (\<forall>p'\<in>set ps. p' = r) \<and> r = p)"
    using Cons.IH [where prev = "Some x" and q = p] x p by simp
  show ?case using eq IH IsPrecise_ivr [OF x] p by (cases prev) auto
qed simp

lemma IntervalSet_IsPrecise_ok:
  assumes "normal_set n s"
  shows "IntervalSet_IsPrecise s = Some (card (Points s) \<le> 1)"
proof -
  let ?ps = "map ival (set_intervals s)"
  have gap: "gapped ?ps" and wf: "wf_set n s" using assms by (auto simp: normal_set_def)
  have "(\<forall>p\<in>set ?ps. fst p = snd p \<and> (\<forall>p'\<in>set ?ps. p' = p)) \<longleftrightarrow> card (pts ?ps) \<le> 1"
  proof (cases ?ps)
    case (Cons p ps)
    have g: "fst p \<le> snd p" "gapped_from (snd p + 2) ps" using gap Cons by auto
    have fin: "finite (pts (p # ps))" by (simp add: pts_def)
    show ?thesis
    proof
      assume "\<forall>q\<in>set ?ps. fst q = snd q \<and> (\<forall>p'\<in>set ?ps. p' = q)"
      then have "\<forall>q\<in>set (p # ps). q = p \<and> fst p = snd p" unfolding Cons by simp
      then have "pts (p # ps) = (\<Union>q\<in>set (p # ps). {fst p})" unfolding pts_def by (intro SUP_cong) auto
      also have "\<dots> = {fst p}" by simp
      finally have "pts (p # ps) = {fst p}" .
      then show "card (pts ?ps) \<le> 1" unfolding Cons by simp
    next
      assume "card (pts ?ps) \<le> 1"
      then have single: "\<forall>x\<in>pts (p # ps). \<forall>y\<in>pts (p # ps). x = y"
        using fin unfolding Cons by (metis card_le_Suc0_iff_eq One_nat_def)
      have "ps = []"
      proof (rule ccontr)
        assume "ps \<noteq> []"
        then obtain q where "q \<in> set ps" by (cases ps) auto
        then have "fst q \<in> pts ps" using separated_proper [OF gapped_separated [OF g(2)]] by (fastforce simp: pts_def)
        then have "snd p + 2 \<le> fst q" "fst q \<in> pts (p # ps)" "fst p \<in> pts (p # ps)"
          using g pts_gapped_ge [OF g(2)] by simp_all
        then show False using single g(1) by fastforce
      qed
      moreover have "fst p = snd p" using single g(1) by simp
      ultimately show "\<forall>q\<in>set ?ps. fst q = snd q \<and> (\<forall>p'\<in>set ?ps. p' = q)" unfolding Cons by simp
    qed
  qed simp
  then show ?thesis
    using precise_loop_ivr [OF wf_set_ivr [OF wf], where prev = None] wf normal_set_pts [OF assms]
    by (simp add: IntervalSet_IsPrecise_def wf_set_def)
qed

context bignum
begin

lemma foreach_intervals_ok:
  assumes "list_all2 (ivr n) xs ps" and "\<forall>p\<in>set ps. fst p \<le> snd p"
  shows "\<exists>vs. list_all2 (ub n) vs (elems ps) \<and> foreach_intervals B xs callback s = Some (run_visitor callback s vs)"
  using assms
proof (induction xs ps arbitrary: s rule: list_all2_induct)
  case Nil
  then show ?case by (intro exI [of _ "[]"]) simp
next
  case (Cons x xs p ps)
  obtain us where us: "list_all2 (ub n) us [fst p..<snd p + 1]"
    "Interval_ForEachElement B x callback s = Some (run_visitor callback s us)"
    using ForEachElement_ivr [OF Cons.hyps(1), of callback s] Cons.prems by (auto simp: visit_order_def)
  obtain vs where vs: "list_all2 (ub n) vs (elems ps)"
    "foreach_intervals B xs callback (fst (run_visitor callback s us)) =
      Some (run_visitor callback (fst (run_visitor callback s us)) vs)"
    using Cons.IH [of "fst (run_visitor callback s us)"] Cons.prems by auto
  have "list_all2 (ub n) (us @ vs) (elems (p # ps))"
    using us(1) vs(1) by (simp add: list_all2_appendI del: upt_Suc)
  moreover have "foreach_intervals B (x # xs) callback s = Some (run_visitor callback s (us @ vs))"
    using us(2) vs(2) by (auto simp: run_visitor_append split: prod.split)
  ultimately show ?case by blast
qed

lemma IntervalSet_ForEachElement_ok:
  assumes "normal_set n s"
  shows "\<exists>vs. list_all2 (ub n) vs (elems (map ival (set_intervals s))) \<and>
    IntervalSet_ForEachElement B s callback st = Some (run_visitor callback st vs)"
proof -
  have "\<forall>p\<in>set (map ival (set_intervals s)). fst p \<le> snd p" and "is_normalized s"
    using assms separated_proper [OF gapped_separated] unfolding normal_set_def by blast+
  then show ?thesis
    using foreach_intervals_ok [OF wf_set_ivr [OF normal_setD [OF assms]]]
    by (simp add: IntervalSet_ForEachElement_def)
qed

lemma size_loop_ok:
  assumes "list_all2 (ivr n) xs ps" and "\<forall>p\<in>set ps. fst p \<le> snd p"
  shows "size_loop B xs t =
    Some (if \<forall>p\<in>set ps. snd p - fst p + 1 < 2 ^ 63 then Some (t + of_nat (length (elems ps))) else None)"
  using assms
proof (induction xs ps arbitrary: t rule: list_all2_induct)
  case (Cons x xs p ps)
  have b: "fst p < 2 ^ n" "snd p < 2 ^ n" using Cons.hyps by (cases p, auto dest: ivr_bounds)+
  have "card (wrap_points n p) = snd p - fst p + 1"
    using card_wrap_points [OF b] Cons.prems by simp
  then show ?case
    using Size_ivr [OF Cons.hyps(1)] Cons.IH Cons.prems by (auto simp: Suc_diff_le)
qed simp

lemma IntervalSet_Size_exact:
  assumes "normal_set n s" and "card (Points s) < 2 ^ 63"
  shows "IntervalSet_Size B s = Some (Some (of_nat (card (Points s))))"
proof -
  let ?ps = "map ival (set_intervals s)"
  have sep: "separated 0 ?ps" and norm: "is_normalized s" using assms(1) by (auto simp: normal_set_def intro: gapped_separated)
  have "snd p - fst p + 1 < 2 ^ 63" if "p \<in> set ?ps" for p
  proof -
    have "{fst p..snd p} \<subseteq> pts ?ps" using that by (auto simp: pts_def)
    then have "card {fst p..snd p} \<le> card (pts ?ps)" by (rule card_mono [rotated]) (simp add: pts_def)
    then show ?thesis using assms normal_set_pts [OF assms(1)] separated_proper [OF sep that] by simp
  qed
  then show ?thesis
    using size_loop_ok [OF wf_set_ivr [OF normal_setD [OF assms(1)]], of 0] separated_proper [OF sep]
      length_elems [OF sep] norm normal_set_pts [OF assms(1)]
    by (simp add: IntervalSet_Size_def)
qed

lemma index_loop_ok:
  assumes "list_all2 (ivr n) xs ps" and "\<forall>p\<in>set ps. fst p \<le> snd p" and "ub (n + 1) so x"
  shows "\<exists>r so'. index_loop B xs so = Some (r, so') \<and>
    (if x < length (elems ps)
     then \<exists>i p y. r = Some i \<and> ivr n i p \<and> ub (n + 1) so' y \<and> fst p + y = elems ps ! x \<and> fst p + y \<le> snd p
     else r = None)"
  using assms
proof (induction xs ps arbitrary: so x rule: list_all2_induct)
  case (Cons i xs p ps)
  have b: "fst p < 2 ^ n" "snd p < 2 ^ n" using Cons.hyps by (cases p, auto dest: ivr_bounds)+
  define c where "c = snd p + 1 - fst p"
  have card: "card (wrap_points n p) = c" using card_wrap_points [OF b] Cons.prems(1) by (auto simp: c_def)
  obtain sz where sz: "Interval_SizeBits B i = Some sz" "ub (n + 1) sz c"
    using SizeBits_ivr [OF Cons.hyps(1)] unfolding card by blast
  have len: "length (elems (p # ps)) = c + length (elems ps)" by (simp add: c_def del: upt_Suc)
  show ?case
  proof (cases "x < c")
    case True
    then have nth: "elems (p # ps) ! x = fst p + x" by (simp add: nth_append c_def del: upt_Suc)
    have "index_loop B (i # xs) so = Some (Some i, so)"
      using sz(1) ub_compare(2) [OF Cons.prems(2) sz(2)] True by simp
    moreover have "fst p + x \<le> snd p" "x < length (elems (p # ps))" using True len by (simp_all add: c_def)
    ultimately show ?thesis using Cons.hyps(1) Cons.prems(2) unfolding nth by (metis option.inject)
  next
    case False
    obtain so1 where so1: "bits_Sub B so sz = Some so1" "ub (n + 1) so1 (x - c)"
      using Sub_ub [OF Cons.prems(2) sz(2)] False by auto
    have nth: "elems (p # ps) ! x = elems ps ! (x - c)" using False by (simp add: nth_append c_def del: upt_Suc)
    have "index_loop B (i # xs) so = index_loop B xs so1"
      using sz so1(1) ub_compare(2) [OF Cons.prems(2) sz(2)] False by simp
    moreover have "x < length (elems (p # ps)) \<longleftrightarrow> x - c < length (elems ps)" using False len by linarith
    ultimately show ?thesis
      using Cons.IH [OF _ so1(2)] Cons.prems(1) unfolding nth by simp
  qed
qed simp

lemma IntervalSet_Index_ok:
  assumes "normal_set n s" and "ub n idx x"
  shows "\<exists>r. IntervalSet_Index B s idx = Some r \<and>
    (if x < card (Points s) then \<exists>b. r = Some b \<and> ub n b (elems (map ival (set_intervals s)) ! x) else r = None)"
proof -
  let ?ps = "map ival (set_intervals s)"
  have sep: "separated 0 ?ps" and norm: "is_normalized s" and wf: "wf_set n s"
    using assms(1) by (auto simp: normal_set_def intro: gapped_separated)
  obtain so where so: "bits_ZeroExtend idx (n + 1) = Some so" "ub (n + 1) so x"
    using ZeroExtend_ub [OF assms(2), of "n + 1"] by auto
  have "\<forall>p\<in>set ?ps. fst p \<le> snd p" using separated_proper [OF sep] by blast
  from index_loop_ok [OF wf_set_ivr [OF wf] this so(2)] obtain r so' where
    r: "index_loop B (set_intervals s) so = Some (r, so')"
      "if x < length (elems ?ps)
       then \<exists>i p y. r = Some i \<and> ivr n i p \<and> ub (n + 1) so' y \<and> fst p + y = elems ?ps ! x \<and> fst p + y \<le> snd p
       else r = None" by blast
  have len: "length (elems ?ps) = card (Points s)" using length_elems [OF sep] normal_set_pts [OF assms(1)] by simp
  show ?thesis
  proof (cases "x < card (Points s)")
    case False
    then show ?thesis
      using r so(1) norm wf ub_count [OF assms(2)] len by (simp add: IntervalSet_Index_def)
  next
    case True
    then obtain i p y where i: "r = Some i" "ivr n i p" "ub (n + 1) so' y" "fst p + y = elems ?ps ! x" "fst p + y \<le> snd p"
      using r(2) len by auto
    let ?v = "elems ?ps ! x"
    have l: "ub n (lower_bound i) (fst p)" using i(2) by (simp add: ivr_def)
    have v: "?v < 2 ^ n" using i(2,4,5) by (cases p) (auto dest: ivr_bounds)
    obtain lo where lo: "bits_ZeroExtend (lower_bound i) (n + 1) = Some lo" "ub (n + 1) lo (fst p)"
      using ZeroExtend_ub [OF l, of "n + 1"] by auto
    have "(y + fst p) mod 2 ^ (n + 1) = ?v" using i(4) v by (simp add: add.commute)
    then obtain res where res: "bits_Add B so' lo = Some res" "ub (n + 1) res ?v"
      using Add_ub [OF i(3) lo(2)] by auto
    have rep: "rep res (nat_bl (n + 1) ?v)" using res(2) by (simp add: ub_def)
    have "\<not> bit ?v n" using v by (metis bit_take_bit_iff less_irrefl take_bit_nat_eq_self)
    then have msb: "\<not> Bits_msb res" using rep_msb [OF rep] by (simp add: last_conv_nth flip: length_0_conv)
    have "take n (nat_bl (n + 1) ?v) = nat_bl n ?v" by (simp add: nat_bl_def take_map)
    then obtain w where "Bits_Slice res 0 n = Some w" "ub n w ?v"
      using returns_Slice [OF rep, of 0 n] v by (auto simp: ub_def elim: returns_bindE)
    then show ?thesis
      using True r(1) i(1) so(1) norm wf ub_count [OF assms(2)] lo(1) res(1) msb by (simp add: IntervalSet_Index_def)
  qed
qed

lemma maximal_any_ok:
  assumes "list_all2 (ivr n) xs ps"
  shows "maximal_any B xs = Some (\<exists>p\<in>set ps. wrap_points n p = {..<2 ^ n})"
  using assms by (induction xs ps rule: list_all2_induct) (auto simp: IsMaximal_ivr)

lemma IntervalSet_IsMaximal_ok:
  assumes "normal_set n s"
  shows "IntervalSet_IsMaximal B s = Some (Points s = {..<2 ^ n})"
proof -
  let ?ps = "map ival (set_intervals s)"
  have wf: "wf_set n s" and norm: "is_normalized s" and gap: "gapped ?ps"
    using assms by (auto simp: normal_set_def)
  have proper: "\<forall>p\<in>set ?ps. fst p \<le> snd p \<and> snd p < 2 ^ n"
    using ivr_snd_less [OF wf_set_ivr [OF wf]] separated_proper [OF gapped_separated [OF gap]] by blast
  have "(\<exists>p\<in>set ?ps. wrap_points n p = {..<2 ^ n}) \<longleftrightarrow> Points s = {..<2 ^ n}"
  proof
    assume "Points s = {..<2 ^ n}"
    also have "\<dots> = pts [(0, 2 ^ n - 1)]" by (auto simp only: pts_simps fst_conv snd_conv atLeastAtMost_iff
          lessThan_iff le_max_iff zero_le Un_empty_right)
    finally have "pts ?ps = pts [(0, 2 ^ n - 1)]" by (simp only: normal_set_pts [OF assms])
    then have "?ps = [(0, 2 ^ n - 1)]" using gapped_unique [OF gap, of "[(0, 2 ^ n - 1)]"] by simp
    then show "\<exists>p\<in>set ?ps. wrap_points n p = {..<2 ^ n}"
      by (auto simp: wrap_points_def simp flip: le_max_iff [unfolded One_nat_def])
  next
    assume "\<exists>p\<in>set ?ps. wrap_points n p = {..<2 ^ n}"
    moreover have "wrap_points n p \<subseteq> {..<2 ^ n}" for p by (auto simp: wrap_points_def)
    ultimately show "Points s = {..<2 ^ n}"
      unfolding Points_eq [OF wf] set_points_def by blast
  qed
  then show ?thesis
    using maximal_any_ok [OF wf_set_ivr [OF wf]] norm wf by (simp add: IntervalSet_IsMaximal_def wf_set_def)
qed

end

section \<open>The interface of a set of points\<close>

text \<open>What a client of interval sets relies on: operations that succeed on well-formed sets and
  act on the points. Its lemmas hold for any such representation.\<close>

locale point_sets =
  fixes wf :: "'s \<Rightarrow> bool" and points :: "'s \<Rightarrow> nat set" and univ :: "nat set"
    and union inter :: "'s \<Rightarrow> 's \<Rightarrow> 's option" and compl :: "'s \<Rightarrow> 's option"
  assumes points_univ: "wf s \<Longrightarrow> points s \<subseteq> univ"
    and union_ok: "wf s \<Longrightarrow> wf t \<Longrightarrow> \<exists>u. union s t = Some u \<and> wf u \<and> points u = points s \<union> points t"
    and inter_ok: "wf s \<Longrightarrow> wf t \<Longrightarrow> \<exists>u. inter s t = Some u \<and> wf u \<and> points u = points s \<inter> points t"
    and compl_ok: "wf s \<Longrightarrow> \<exists>u. compl s = Some u \<and> wf u \<and> points u = univ - points s"
begin

definition diff :: "'s \<Rightarrow> 's \<Rightarrow> 's option" where
  "diff s t = compl t \<bind> (\<lambda>c. inter s c)"

lemma diff_ok: "wf s \<Longrightarrow> wf t \<Longrightarrow> \<exists>u. diff s t = Some u \<and> wf u \<and> points u = points s - points t"
  using compl_ok [of t] inter_ok [of s] points_univ [of s] unfolding diff_def by fastforce

lemma compl_involutive:
  assumes "wf s"
  shows "\<exists>u. compl s \<bind> compl = Some u \<and> wf u \<and> points u = points s"
  using compl_ok [OF assms] compl_ok points_univ [OF assms] by fastforce

lemma de_morgan:
  assumes "wf s" and "wf t"
  shows "\<exists>u. compl s \<bind> (\<lambda>a. compl t \<bind> (\<lambda>b. inter a b \<bind> compl)) = Some u \<and> wf u \<and>
    points u = points s \<union> points t"
proof -
  obtain a where a: "compl s = Some a" "wf a" "points a = univ - points s" using compl_ok [OF assms(1)] by blast
  obtain b where b: "compl t = Some b" "wf b" "points b = univ - points t" using compl_ok [OF assms(2)] by blast
  obtain c where c: "inter a b = Some c" "wf c" "points c = points a \<inter> points b" using inter_ok [OF a(2) b(2)] by blast
  obtain d where d: "compl c = Some d" "wf d" "points d = univ - points c" using compl_ok [OF c(2)] by blast
  have "points d = points s \<union> points t"
    using a(3) b(3) c(3) d(3) points_univ [OF assms(1)] points_univ [OF assms(2)] by blast
  then show ?thesis using a(1) b(1) c(1) d(1,2) by simp
qed

end

lemma normal_set_univ: "normal_set n s \<Longrightarrow> Points s \<subseteq> {..<2 ^ n}"
  using Points_eq [OF normal_setD, of n s] by (auto simp: set_points_def wrap_points_def)

sublocale bignum \<subseteq> iset: point_sets "normal_set n" Points "{..<2 ^ n}"
  "IntervalSet_Combine B" "IntervalSet_Intersect B" "IntervalSet_Complement B" for n
  by unfold_locales
    (auto simp: normal_set_univ [THEN subsetD, simplified] intro: Combine_ok Intersect_ok Complement_ok)

context bignum
begin

lemmas iset_de_morgan = iset.de_morgan

end

section \<open>Properties\<close>

text \<open>C23: \<open>Normalize\<close> terminates on every set of valid intervals, improper ones included, keeps the
  covered points, and leaves proper, increasing intervals with a gap between any two; there is
  only one such list for a set of points.\<close>

theorem Normalize_normal_form:
  assumes "bignum B num" and "wf_set n s"
  shows "\<exists>s'. IntervalSet_Normalize B s = Some s' \<and> normal_set n s' \<and> Points s' = Points s \<and>
    (\<forall>ps. gapped ps \<and> pts ps = Points s \<longrightarrow> ps = map ival (set_intervals s'))"
proof -
  obtain s' where s': "IntervalSet_Normalize B s = Some s'" "normal_set n s'" "Points s' = Points s"
    using bignum.Normalize_ok [OF assms] by blast
  moreover have "gapped (map ival (set_intervals s'))" using s'(2) by (simp add: normal_set_def)
  ultimately show ?thesis using gapped_unique normal_set_pts by metis
qed

lemma wf_set_example: "wf_set n \<lparr>is_normalized = False, set_bit_count = int n, set_intervals =
    [\<lparr>iv_valid = True, lower_bound = Bits_FromSpan (nat_bl n a), upper_bound = Bits_FromSpan (nat_bl n b)\<rparr>]\<rparr>"
  if "a < 2 ^ n" "b < 2 ^ n"
  using FromSpan_interval [OF that] by (simp add: wf_set_def ivr_iff)

theorem Normalize_normal_form_witness:
  "\<exists>s'. IntervalSet_Normalize int_bn \<lparr>is_normalized = False, set_bit_count = 3, set_intervals =
      [\<lparr>iv_valid = True, lower_bound = Bits_FromSpan (nat_bl 3 6), upper_bound = Bits_FromSpan (nat_bl 3 1)\<rparr>]\<rparr> = Some s' \<and>
    normal_set 3 s'"
  using Normalize_normal_form [OF int_bignum.bignum_axioms wf_set_example [of 6 3 1]] by auto

text \<open>C8: \<open>Combine\<close>, \<open>Intersect\<close> and \<open>Complement\<close> terminate on normalized sets and return the
  normalized union, intersection and complement of the covered points, although the intersection
  loop leaves every interval it splits in its work list.\<close>

theorem interval_set_operations:
  assumes "bignum B num" and "normal_set n s" and "normal_set n t"
  shows "(\<exists>u. IntervalSet_Combine B s t = Some u \<and> normal_set n u \<and> Points u = Points s \<union> Points t) \<and>
    (\<exists>u. IntervalSet_Intersect B s t = Some u \<and> normal_set n u \<and> Points u = Points s \<inter> Points t) \<and>
    (\<exists>u. IntervalSet_Complement B s = Some u \<and> normal_set n u \<and> Points u = {..<2 ^ n} - Points s) \<and>
    (\<exists>u. (IntervalSet_Complement B s \<bind> (\<lambda>a. IntervalSet_Complement B t \<bind>
        (\<lambda>b. IntervalSet_Intersect B a b \<bind> IntervalSet_Complement B))) = Some u \<and>
      Points u = Points s \<union> Points t)"
  using bignum.Combine_ok [OF assms(1)] bignum.Intersect_ok [OF assms] bignum.Complement_ok [OF assms(1,2)]
    bignum.iset_de_morgan [OF assms] assms(2,3) by blast

lemma normal_set_example: "normal_set n \<lparr>is_normalized = True, set_bit_count = int n, set_intervals =
    [\<lparr>iv_valid = True, lower_bound = Bits_FromSpan (nat_bl n a), upper_bound = Bits_FromSpan (nat_bl n b)\<rparr>]\<rparr>"
  if "a \<le> b" "b < 2 ^ n"
proof -
  let ?i = "\<lparr>iv_valid = True, lower_bound = Bits_FromSpan (nat_bl n a), upper_bound = Bits_FromSpan (nat_bl n b)\<rparr>"
  have "valid_interval n ?i" and "ival ?i = (a, b)"
    using FromSpan_interval [of a n b] that by (simp_all add: ivr_iff)
  then show ?thesis using that by (simp add: normal_set_def wf_set_def)
qed

theorem interval_set_operations_witness:
  "\<exists>u. IntervalSet_Intersect int_bn
     \<lparr>is_normalized = True, set_bit_count = 3, set_intervals =
      [\<lparr>iv_valid = True, lower_bound = Bits_FromSpan (nat_bl 3 1), upper_bound = Bits_FromSpan (nat_bl 3 4)\<rparr>]\<rparr>
     \<lparr>is_normalized = True, set_bit_count = 3, set_intervals =
      [\<lparr>iv_valid = True, lower_bound = Bits_FromSpan (nat_bl 3 2), upper_bound = Bits_FromSpan (nat_bl 3 6)\<rparr>]\<rparr> = Some u \<and>
    normal_set 3 u"
  using interval_set_operations [OF int_bignum.bignum_axioms normal_set_example [of 1 4 3] normal_set_example [of 2 6 3]]
  by auto

text \<open>\<open>operator==\<close> decides whether two interval sets of the same width cover the same points,
  normalized or not.\<close>

lemma interval_set_equality:
  assumes "bignum B num" and "wf_set n s" and "wf_set n t"
  shows "IntervalSet_eq B s t = Some (Points s = Points t)"
  using bignum.IntervalSet_eq_ok [OF assms] .

text \<open>C27: \<open>Index\<close> and \<open>ForEachElement\<close> see the points of a normalized set in increasing order:
  \<open>Index\<close> returns the point of that rank, or nothing when the set has no more points.\<close>

theorem interval_set_enumeration:
  assumes "bignum B num" and "normal_set n s" and "ub n idx x"
  shows "\<exists>xs. sorted_wrt (<) xs \<and> set xs = Points s \<and>
    (\<exists>r. IntervalSet_Index B s idx = Some r \<and>
      (if x < length xs then \<exists>b. r = Some b \<and> ub n b (xs ! x) else r = None)) \<and>
    (\<exists>vs. list_all2 (ub n) vs xs \<and>
      IntervalSet_ForEachElement B s callback st = Some (run_visitor callback st vs))"
proof (intro exI [of _ "elems (map ival (set_intervals s))"] conjI)
  have sep: "separated 0 (map ival (set_intervals s))"
    using assms(2) by (auto simp: normal_set_def intro: gapped_separated)
  show "sorted_wrt (<) (elems (map ival (set_intervals s)))" by (rule sorted_elems [OF sep])
  show "set (elems (map ival (set_intervals s))) = Points s" using normal_set_pts [OF assms(2)] by simp
  then show "\<exists>r. IntervalSet_Index B s idx = Some r \<and>
      (if x < length (elems (map ival (set_intervals s)))
       then \<exists>b. r = Some b \<and> ub n b (elems (map ival (set_intervals s)) ! x) else r = None)"
    using bignum.IntervalSet_Index_ok [OF assms] length_elems [OF sep] by simp
  show "\<exists>vs. list_all2 (ub n) vs (elems (map ival (set_intervals s))) \<and>
      IntervalSet_ForEachElement B s callback st = Some (run_visitor callback st vs)"
    by (rule bignum.IntervalSet_ForEachElement_ok [OF assms(1,2)])
qed

theorem interval_set_enumeration_witness:
  "\<exists>r. IntervalSet_Index int_bn
     \<lparr>is_normalized = True, set_bit_count = 3, set_intervals =
      [\<lparr>iv_valid = True, lower_bound = Bits_FromSpan (nat_bl 3 1), upper_bound = Bits_FromSpan (nat_bl 3 4)\<rparr>]\<rparr>
     (Bits_FromSpan (nat_bl 3 2)) = Some r"
proof -
  have "ub 3 (Bits_FromSpan (nat_bl 3 2)) 2" using rep_FromSpan [of "nat_bl 3 2"] by (simp add: ub_def)
  from interval_set_enumeration [OF int_bignum.bignum_axioms normal_set_example [of 1 4 3] this,
      of "\<lambda>s v. (s, False)" "()"]
  show ?thesis by auto
qed

text \<open>On a normalized set \<open>Covers\<close>, \<open>IsEmpty\<close>, \<open>IsPrecise\<close> and \<open>IsMaximal\<close> answer for the covered
  points (with the empty set precise), and \<open>Size\<close> is their number when it is below 2^63.\<close>

lemma interval_set_queries:
  assumes "bignum B num" and "normal_set n s" and "ub n v x"
  shows "IntervalSet_Covers s v = Some (x \<in> Points s) \<and> IntervalSet_IsEmpty s = Some (Points s = {}) \<and>
    IntervalSet_IsPrecise s = Some (card (Points s) \<le> 1) \<and>
    IntervalSet_IsMaximal B s = Some (Points s = {..<2 ^ n}) \<and>
    (card (Points s) < 2 ^ 63 \<longrightarrow> IntervalSet_Size B s = Some (Some (of_nat (card (Points s)))))"
  using IntervalSet_Covers_ok [OF normal_setD [OF assms(2)] assms(3)] IntervalSet_IsEmpty_ok [OF assms(2)]
    IntervalSet_IsPrecise_ok [OF assms(2)] bignum.IntervalSet_IsMaximal_ok [OF assms(1,2)]
    bignum.IntervalSet_Size_exact [OF assms(1,2)] by simp

text \<open>\<open>Size\<close> adds the sizes of the intervals in an int64_t: it returns a negative number for a
  normalized set of 2^63 or more points all of whose intervals are smaller than that, where the
  documented result is nothing.\<close>

lemma interval_set_size_overflows:
  assumes "bignum B num" and "normal_set n s" and "\<forall>i\<in>set (set_intervals s). card (IvPoints n i) < 2 ^ 63"
    and "2 ^ 63 \<le> card (Points s)" and "card (Points s) < 2 ^ 64"
  shows "\<exists>w. IntervalSet_Size B s = Some (Some w) \<and> sint w < 0"
proof -
  let ?ps = "map ival (set_intervals s)"
  have sep: "separated 0 ?ps" and norm: "is_normalized s" using assms(2) by (auto simp: normal_set_def intro: gapped_separated)
  have b: "\<forall>p\<in>set ?ps. fst p < 2 ^ n \<and> snd p < 2 ^ n"
    using wf_set_ivr [OF normal_setD [OF assms(2)]] ivr_snd_less [OF wf_set_ivr [OF normal_setD [OF assms(2)]]]
      separated_proper [OF sep] by (meson le_less_trans)
  have proper: "\<forall>p\<in>set ?ps. fst p \<le> snd p" using separated_proper [OF sep] by blast
  have "\<forall>p\<in>set ?ps. snd p - fst p + 1 < 2 ^ 63"
    using assms(3) b proper card_wrap_points [of _ n] by (auto simp: IvPoints_def)
  then have "IntervalSet_Size B s = Some (Some (of_nat (card (Points s))))"
    using bignum.size_loop_ok [OF assms(1) wf_set_ivr [OF normal_setD [OF assms(2)]] proper, of 0]
      length_elems [OF sep] norm normal_set_pts [OF assms(2)]
    by (simp add: IntervalSet_Size_def)
  moreover have "card (Points s) div 2 ^ 63 = 1" using assms(4,5) by (intro div_nat_eqI) simp_all
  then have "bit (card (Points s)) 63" by (simp add: bit_iff_odd)
  then have "bit (of_nat (card (Points s)) :: uint64) 63" by (simp add: bit_of_nat_iff)
  moreover have "unat (of_nat (card (Points s)) :: uint64) = card (Points s)"
    using assms(5) by (simp add: unat_of_nat)
  ultimately show ?thesis using assms(5) by (auto simp: sint_uint64)
qed


end
