(* ===== verification/Xls_Runs.thy ===== *)
theory Xls_Runs
  imports Xls_Verified
begin

text \<open>
  Runs of the interpreter over the nodes of a function: the visit of a node sets the value of that node and no other, so
  that after a run the value of every node is the one its handler computes from the values of its operands.
\<close>

section \<open>A visit sets one value\<close>

definition sets_only :: "nat \<Rightarrow> interp \<Rightarrow> interp statusor option \<Rightarrow> bool" where
  "sets_only n st r \<longleftrightarrow> (\<forall>st'. r = returnS st' \<longrightarrow> node_values st n = None \<and> (\<exists>v. node_values st' = (node_values st)(n \<mapsto> v)))"

named_theorems sets_intros

lemma sets_SetValueResult [sets_intros]: "node_values st' = node_values st \<Longrightarrow> sets_only n st (SetValueResult n nd v st')"
  by (auto simp: sets_only_def SetValueResult_def split: if_splits bind_splits)

lemma sets_bind [sets_intros]: "(\<And>x. m = Some x \<Longrightarrow> sets_only n st (g x)) \<Longrightarrow> sets_only n st (m \<bind> g)"
  by (cases m) (auto simp: sets_only_def)

lemma sets_bindS [sets_intros]: "(\<And>x. m = returnS x \<Longrightarrow> sets_only n st (g x)) \<Longrightarrow> sets_only n st (bindS m g)"
  by (auto simp: sets_only_def bindS_eq_returnS)

lemma sets_simps [simp]: "sets_only n st (errorS e)" "sets_only n st None"
  by (simp_all add: sets_only_def)

lemma sets_SetBitsResult [sets_intros]: "node_values st' = node_values st \<Longrightarrow> sets_only n st (SetBitsResult n nd b st')"
  by (auto simp: SetBitsResult_def intro!: sets_intros)

lemma sets_SetUint64Result [sets_intros]: "node_values st' = node_values st \<Longrightarrow> sets_only n st (SetUint64Result n nd b st')"
  by (auto simp: SetUint64Result_def intro!: sets_intros)

lemma AddInterpreterEvents_values [simp]: "node_values (AddInterpreterEvents events st) = node_values st"
  by (simp add: AddInterpreterEvents_def)

lemma Map_loop_values: "Map_loop call g es results st = returnS (rs, st') \<Longrightarrow> node_values st' = node_values st"
proof (induction es arbitrary: results st)
  case (Cons e es)
  then obtain v events where "Map_loop call g es (results @ [v]) (AddInterpreterEvents events st) = returnS (rs, st')"
    by (auto simp: bindS_eq_returnS)
  then show ?case using Cons.IH by fastforce
qed simp

lemma CountedFor_loop_values:
  "CountedFor_loop call body invariants width stride trips iv s st = returnS (s', st') \<Longrightarrow> node_values st' = node_values st"
proof (induction trips arbitrary: iv s st)
  case (Suc trips)
  then obtain v events where "CountedFor_loop call body invariants width stride trips (iv + of_int stride) v (AddInterpreterEvents events st) = returnS (s', st')"
    by (auto simp: bindS_eq_returnS split: bind_splits)
  then show ?case using Suc.IH by fastforce
qed simp

lemma DynamicCountedFor_loop_values:
  assumes "DynamicCountedFor_loop B call body invariants limit stride index s st = returnS (s', st')"
  shows "node_values st' = node_values st"
proof -
  have "\<forall>s' st'. r = Inr (s', st') \<longrightarrow> node_values st' = node_values st"
    if "DynamicCountedFor_loop B call body invariants limit stride index s st = Some r" for r
    using that
  proof (induction rule: DynamicCountedFor_loop.raw_induct[rotated, consumes 1, case_names step])
    case (step loop B call body invariants limit stride index s st r)
    show ?case
    proof (cases "bits_SEqual B index limit")
      case True
      then show ?thesis using step.hyps by auto
    next
      case False
      then obtain c where c: "call body (VBits index # s # invariants) = Some c" "(case c of Inl e \<Rightarrow> Some (Inl e) | Inr p \<Rightarrow> do {
          index' \<leftarrow> bits_Add B index stride;
          loop B call body invariants limit stride index' (fst p) (AddInterpreterEvents (snd p) st) }) = Some r"
        using step.hyps by (cases "call body (VBits index # s # invariants)") simp_all
      show ?thesis
      proof (cases c)
        case (Inr p)
        then obtain index' where "loop B call body invariants limit stride index' (fst p) (AddInterpreterEvents (snd p) st) = Some r"
          using c(2) by (cases "bits_Add B index stride") simp_all
        from step.IH[OF this] show ?thesis by (simp only: AddInterpreterEvents_values)
      qed (use c(2) in auto)
    qed
  qed
  then show ?thesis using assms by (auto simp: returnS_def)
qed

lemmas handler_defs = bits_unary_def bits_binary_def bits_compare_def bits_nary_handler_def bits_shift_def
  HandleBinOp_def HandleAdd_def HandleSub_def HandleUDiv_def HandleSDiv_def HandleUMod_def HandleSMod_def HandleShll_def HandleShra_def HandleShrl_def
  HandleSMul_def HandleUMul_def HandleSMulp_def HandleUMulp_def
  HandleNaryOp_def HandleNaryAnd_def HandleNaryNand_def HandleNaryNor_def HandleNaryOr_def HandleNaryXor_def
  HandleReduction_def HandleAndReduce_def HandleOrReduce_def HandleXorReduce_def
  HandleCompareOp_def HandleEq_def HandleNe_def HandleSGe_def HandleSGt_def HandleSLe_def HandleSLt_def HandleUGe_def HandleUGt_def HandleULe_def HandleULt_def
  HandleUnOp_def HandleIdentity_def HandleNeg_def HandleNot_def HandleReverse_def HandleSignExtend_def HandleZeroExtend_def
  HandleBitSlice_def HandleDynamicBitSlice_def HandleBitSliceUpdate_def HandleConcat_def HandleDecode_def HandleEncode_def HandleOneHot_def
  HandleOneHotSel_def HandlePrioritySel_def HandleSel_def HandleGate_def HandleTuple_def HandleTupleIndex_def HandleArray_def HandleArrayIndex_def
  HandleArraySlice_def HandleArrayUpdate_def HandleArrayConcat_def HandleLiteral_def HandleAfterAll_def HandleAssert_def HandleTrace_def

lemma Visit_sets_only:
  assumes "sets_value nd" and "node_op nd = Param \<Longrightarrow> sets_only n st (param n nd st)"
  shows "sets_only n st (IrInterpreter_Visit B call pkg param f n nd st)"
proof (cases "node_op nd")
  case (BinOp op)
  then show ?thesis by (cases op) (auto simp: IrInterpreter_Visit_def handler_defs intro!: sets_intros)
next
  case (ArithOp op w)
  then show ?thesis by (cases op) (auto simp: IrInterpreter_Visit_def handler_defs intro!: sets_intros)
next
  case (PartialProductOp op w)
  then show ?thesis by (cases op) (auto simp: IrInterpreter_Visit_def handler_defs intro!: sets_intros)
next
  case (NaryOp op)
  then show ?thesis by (cases op) (auto simp: IrInterpreter_Visit_def handler_defs intro!: sets_intros)
next
  case (BitwiseReductionOp op)
  then show ?thesis by (cases op) (auto simp: IrInterpreter_Visit_def handler_defs intro!: sets_intros)
next
  case (CompareOp op)
  then show ?thesis by (cases op) (auto simp: IrInterpreter_Visit_def handler_defs intro!: sets_intros)
next
  case (UnOp op)
  then show ?thesis by (cases op) (auto simp: IrInterpreter_Visit_def handler_defs intro!: sets_intros)
next
  case (ExtendOp op w)
  then show ?thesis by (cases op) (auto simp: IrInterpreter_Visit_def handler_defs intro!: sets_intros)
next
  case (OneHot priority)
  then show ?thesis by (auto simp: IrInterpreter_Visit_def handler_defs Let_def intro!: sets_intros split: option.split)
next
  case (Invoke g)
  then show ?thesis by (auto simp: IrInterpreter_Visit_def HandleInvoke_def intro!: sets_intros)
next
  case (Map g)
  then show ?thesis by (auto simp: IrInterpreter_Visit_def HandleMap_def dest!: Map_loop_values intro!: sets_intros)
next
  case (CountedFor t s g)
  then show ?thesis by (auto simp: IrInterpreter_Visit_def HandleCountedFor_def dest!: CountedFor_loop_values intro!: sets_intros)
next
  case (DynamicCountedFor g)
  then show ?thesis by (auto simp: IrInterpreter_Visit_def HandleDynamicCountedFor_def Let_def dest!: DynamicCountedFor_loop_values intro!: sets_intros)
next
  case Param
  then show ?thesis using assms(2) by (simp add: IrInterpreter_Visit_def)
next
  case (Cover label)
  then show ?thesis using assms(1) by (simp add: sets_value_def)
qed (auto simp: IrInterpreter_Visit_def handler_defs Let_def intro!: sets_intros)

lemma Param_sets_only: "sets_only n st (FunctionInterpreter_HandleParam f args n nd st)"
  by (auto simp: FunctionInterpreter_HandleParam_def intro!: sets_intros)

lemma Visit_extends:
  assumes "IrInterpreter_Visit B call pkg (FunctionInterpreter_HandleParam f args) f n nd st = returnS st'"
  shows "node_values st \<subseteq>\<^sub>m node_values st'"
proof (cases "sets_value nd")
  case True
  then show ?thesis using Visit_sets_only[where param = "FunctionInterpreter_HandleParam f args" and B = B and call = call and pkg = pkg and f = f and n = n and st = st, OF True Param_sets_only] assms by (auto simp: sets_only_def map_le_def)
next
  case False
  then have "st' = st" using assms by (cases "node_op nd") (auto simp: sets_value_def IrInterpreter_Visit_def HandleCover_def)
  then show ?thesis by simp
qed

section \<open>Runs over a topological order\<close>

text \<open>
  \<open>visited_in h f st n\<close>: the value of the node \<open>n\<close> in the final state \<open>st\<close> is the one that its visit computed, in a state
  in which the values of the operands were already the final ones.
\<close>

definition visited_in :: "interp visitor \<Rightarrow> ir_function \<Rightarrow> interp \<Rightarrow> nat \<Rightarrow> bool" where
  "visited_in h f st n \<longleftrightarrow> (\<exists>nd V st0 st1. ready f V n nd st0 \<and> set (node_operands nd) \<inter> valued f \<subseteq> V \<and> h n nd st0 = returnS st1 \<and>
     typed_state f (if sets_value nd then insert n V else V) st1 \<and> node_values st0 \<subseteq>\<^sub>m node_values st \<and> node_values st1 \<subseteq>\<^sub>m node_values st)"

lemma visited_in_later: "visited_in h f st n \<Longrightarrow> node_values st \<subseteq>\<^sub>m node_values st' \<Longrightarrow> visited_in h f st' n"
  unfolding visited_in_def by (meson map_le_trans)

lemma run_nodes_visits:
  assumes step: "\<And>n nd V st. n \<in> set ns \<Longrightarrow> ready f V n nd st \<Longrightarrow> set (node_operands nd) \<inter> valued f \<subseteq> V \<Longrightarrow>
      steps_to f (if sets_value nd then insert n V else V) (h n nd st)"
    and ext: "\<And>n nd st st'. h n nd st = returnS st' \<Longrightarrow> node_values st \<subseteq>\<^sub>m node_values st'"
  shows "topological f visited ns \<Longrightarrow> typed_state f (visited \<inter> valued f) st \<Longrightarrow>
    \<exists>st'. run_nodes f h ns st = returnS st' \<and> typed_state f ((visited \<union> set ns) \<inter> valued f) st' \<and> node_values st \<subseteq>\<^sub>m node_values st' \<and>
      (\<forall>n\<in>set ns. visited_in h f st' n)"
  using step
proof (induction ns arbitrary: visited st)
  case (Cons n ns)
  obtain nd where nd: "GetNode f n = Some nd" "n \<notin> visited" "set (node_operands nd) \<subseteq> visited" "topological f (insert n visited) ns"
    using Cons.prems(1) by (auto split: option.splits)
  have eq: "(if sets_value nd then insert n (visited \<inter> valued f) else visited \<inter> valued f) = insert n visited \<inter> valued f"
    using nd(1) by (auto simp: valued_def has_result_def)
  have rdy: "ready f (visited \<inter> valued f) n nd st" using nd Cons.prems(2) by (simp add: ready_def)
  have ops: "set (node_operands nd) \<inter> valued f \<subseteq> visited \<inter> valued f" using nd(3) by auto
  have "steps_to f (insert n visited \<inter> valued f) (h n nd st)" using Cons.prems(3)[OF _ rdy ops] eq by simp
  then obtain st1 where st1: "h n nd st = returnS st1" "typed_state f (insert n visited \<inter> valued f) st1" by (auto simp: steps_to_def)
  obtain st' where st': "run_nodes f h ns st1 = returnS st'" "typed_state f ((insert n visited \<union> set ns) \<inter> valued f) st'"
      "node_values st1 \<subseteq>\<^sub>m node_values st'" "\<forall>n\<in>set ns. visited_in h f st' n"
    using Cons.IH[OF nd(4) st1(2)] Cons.prems(3) by auto
  have le: "node_values st \<subseteq>\<^sub>m node_values st1" using ext[OF st1(1)] .
  have "visited_in h f st' n"
    unfolding visited_in_def using rdy ops st1 eq st'(3) map_le_trans[OF le st'(3)] by (intro exI[of _ nd] exI) auto
  then show ?case using nd(1) st1(1) st' map_le_trans[OF le st'(3)] by simp
qed auto

text \<open>The run of a verified function on arguments of the right types.\<close>

definition function_run :: "'b bn_api \<Rightarrow> interp_call \<Rightarrow> ir_package \<Rightarrow> ir_function \<Rightarrow> xvalue list \<Rightarrow> interp statusor option" where
  "function_run B call pkg f args = FunctionBase_Accept f (IrInterpreter_Visit B call pkg (FunctionInterpreter_HandleParam f args) f) init_interp"

lemma function_run_visits:
  assumes B: "bignum B num" and ok: "VerifyFunction pkg channels f = returnS ()" and wf: "wf_function pkg f"
    and call: "\<forall>(n, nd)\<in>set (fn_nodes f). \<forall>g\<in>set (callees nd). \<exists>fn. at_opt pkg g = Some fn \<and> call_sound call fn"
    and args: "args_typed f args"
  shows "\<exists>st. function_run B call pkg f args = returnS st \<and> typed_state f (node_ids f \<inter> valued f) st \<and>
    (\<forall>n\<in>node_ids f. visited_in (IrInterpreter_Visit B call pkg (FunctionInterpreter_HandleParam f args) f) f st n)"
proof -
  let ?h = "IrInterpreter_Visit B call pkg (FunctionInterpreter_HandleParam f args) f"
  have dist: "distinct (map fst (fn_nodes f))" using wf by (simp add: wf_function_def)
  obtain ns where ns: "topological f {} ns" "set ns = node_ids f" "FunctionBase_Accept f ?h init_interp = run_nodes f ?h ns init_interp"
    using FunctionBase_Accept_order[OF VerifyFunctionBase_nodes(1)[OF VerifyFunction_base[OF ok]] dist, where 's = interp] by blast
  have "\<exists>st'. run_nodes f ?h ns init_interp = returnS st' \<and> typed_state f (({} \<union> set ns) \<inter> valued f) st' \<and>
      node_values init_interp \<subseteq>\<^sub>m node_values st' \<and> (\<forall>n\<in>set ns. visited_in ?h f st' n)"
    by (intro run_nodes_visits[OF function_steps[OF B ok wf call args] Visit_extends ns(1)]) (auto simp: typed_state_def init_interp_def)
  then show ?thesis using ns(2,3) by (auto simp: function_run_def)
qed

lemma InterpretFunction_run:
  assumes "InterpretFunction B (Suc depth) pkg f args = returnS (v, events)"
  shows "\<exists>st. function_run B (InterpretFunction B depth pkg) pkg f args = returnS st \<and> node_values st (fn_return f) = Some v \<and> interp_events st = events"
  using assms by (auto simp: InterpretFunction_step_def function_run_def bindS_eq_returnS ResolveAsValue_def split: if_splits bind_splits)

section \<open>Verified functions\<close>

text \<open>A verified function in a package whose callees return, and the final states of its runs.\<close>

definition fn_env :: "'b bn_api \<Rightarrow> ('b \<Rightarrow> int) \<Rightarrow> interp_call \<Rightarrow> ir_package \<Rightarrow> channel list \<Rightarrow> ir_function \<Rightarrow> bool" where
  "fn_env B num call pkg channels f \<longleftrightarrow> bignum B num \<and> VerifyFunction pkg channels f = returnS () \<and> wf_function pkg f \<and>
     (\<forall>(n, nd)\<in>set (fn_nodes f). \<forall>g\<in>set (callees nd). \<exists>fn. at_opt pkg g = Some fn \<and> call_sound call fn)"

definition run_of :: "'b bn_api \<Rightarrow> interp_call \<Rightarrow> ir_package \<Rightarrow> ir_function \<Rightarrow> interp \<Rightarrow> bool" where
  "run_of B call pkg f st \<longleftrightarrow> (\<exists>args. args_typed f args \<and> function_run B call pkg f args = returnS st)"

lemma fn_env_node:
  assumes "fn_env B num call pkg channels f" and "GetNode f n = Some nd"
  shows "NodeChecker_Visit pkg channels f nd = returnS ()" "interpretable pkg f nd" "set (node_operands nd) \<subseteq> node_ids f"
    "\<And>i t. operand_type f nd i = Some t \<Longrightarrow> machine_sized t"
proof -
  have ok: "VerifyFunction pkg channels f = returnS ()" and wf: "wf_function pkg f" using assms(1) by (simp_all add: fn_env_def)
  note nodes = VerifyFunctionBase_nodes[OF VerifyFunction_base[OF ok]]
  show "NodeChecker_Visit pkg channels f nd = returnS ()" "set (node_operands nd) \<subseteq> node_ids f" using nodes(2,4) GetNode_in[OF assms(2)] by blast+
  have safe: "interpretable pkg f nd" if "GetNode f n = Some nd" for n nd using wf GetNode_in[OF that] by (auto simp: wf_function_def list_all_iff)
  then show "interpretable pkg f nd" using assms(2) .
  show "machine_sized t" if "operand_type f nd i = Some t" for i t
    using that safe by (auto simp: operand_type_def GetType_def interpretable_def split: Option.bind_splits)
qed

lemma fn_env_linked:
  assumes "fn_env B num call pkg channels f"
  shows "well_linked f" and "\<exists>rank. operands_ranked f rank"
proof -
  have ok: "VerifyFunction pkg channels f = returnS ()" and dist: "distinct (map fst (fn_nodes f))"
    using assms by (simp_all add: fn_env_def wf_function_def)
  note nodes = VerifyFunctionBase_nodes[OF VerifyFunction_base[OF ok]]
  show "well_linked f" using dist nodes(4) by (auto simp: well_linked_def)
  show "\<exists>rank. operands_ranked f rank" using FunctionBase_Accept_order[OF nodes(1) dist] topological_ranked[OF dist] by blast
qed

lemma run_of_visits:
  assumes "fn_env B num call pkg channels f" and "run_of B call pkg f st"
  obtains args where "typed_state f (node_ids f \<inter> valued f) st"
    "\<And>n. n \<in> node_ids f \<Longrightarrow> visited_in (IrInterpreter_Visit B call pkg (FunctionInterpreter_HandleParam f args) f) f st n"
proof -
  obtain args where args: "args_typed f args" "function_run B call pkg f args = returnS st" using assms(2) by (auto simp: run_of_def)
  then show ?thesis using that function_run_visits[of B num pkg channels f call args] assms(1) by (fastforce simp: fn_env_def)
qed

lemma verify_params_nodes: "verify_params f ps P N = returnS Q \<Longrightarrow> set ps \<subseteq> node_ids f"
proof (induction ps arbitrary: P N)
  case (Cons p ps)
  then obtain nd where "GetNode f p = Some nd" "verify_params f ps (insert p P) (insert (node_name nd) N) = returnS Q"
    by (auto simp: bind_returnS_iff split: if_splits)
  then show ?case using Cons.IH GetNode_ids by auto
qed simp

lemma args_exist:
  assumes "fn_env B num call pkg channels f"
  shows "\<exists>args. args_typed f args"
proof -
  have "VerifyFunctionBase pkg channels f = returnS ()" using assms VerifyFunction_base by (auto simp: fn_env_def)
  then obtain P N Q where "verify_params f (fn_params f) P N = returnS Q" unfolding VerifyFunctionBase_def bindS_eq_returnS Let_def by auto
  note params = verify_params_nodes[OF this]
  have "\<exists>v. \<exists>t. GetType f n = Some t \<and> has_type v t" if n: "n \<in> set (fn_params f)" for n
  proof -
    obtain nd where nd: "GetNode f n = Some nd" using n params GetNode_ids[of n f] by blast
    then have "inhabited (node_type nd)" using fn_env_node(2)[OF assms nd] by (simp add: interpretable_def)
    then show ?thesis using ZeroOfType_typed[of "node_type nd"] nd by (auto simp: GetType_def)
  qed
  then obtain g where "\<forall>n\<in>set (fn_params f). \<exists>t. GetType f n = Some t \<and> has_type (g n) t" by metis
  then have "args_typed f (map g (fn_params f))" by (auto simp: args_typed_def list_all2_conv_all_nth)
  then show ?thesis ..
qed

lemma run_exists: "fn_env B num call pkg channels f \<Longrightarrow> args_typed f args \<Longrightarrow> \<exists>st. function_run B call pkg f args = returnS st \<and> run_of B call pkg f st"
  using function_run_visits[of B num pkg channels f call args] by (auto simp: fn_env_def run_of_def)

text \<open>Every node of a bits type gets bits of its width.\<close>

lemma bits_node_sets_value:
  assumes "NodeChecker_Visit pkg channels f nd = returnS ()" and "node_type nd = BitsType w"
  shows "sets_value nd"
  using assms by (cases "node_op nd") (auto simp: sets_value_def NodeChecker_Visit_def NodeChecker_HandleCover_def expect_iff)

lemma run_bits:
  assumes "fn_env B num call pkg channels f" and "run_of B call pkg f st" and "GetType f n = Some (BitsType w)"
  shows "\<exists>b bs. node_values st n = Some (VBits b) \<and> rep b bs \<and> length bs = w"
proof -
  obtain nd where nd: "GetNode f n = Some nd" "node_type nd = BitsType w" using assms(3) by (auto simp: GetType_def)
  then have "n \<in> node_ids f \<inter> valued f"
    using bits_node_sets_value[OF fn_env_node(1)[OF assms(1) nd(1)] nd(2)] by (auto simp: GetNode_ids valued_def has_result_def)
  moreover have "typed_state f (node_ids f \<inter> valued f) st" using run_of_visits[OF assms(1,2)] by blast
  ultimately obtain v t where "node_values st n = Some v" "GetType f n = Some t" "has_type v t" unfolding typed_state_def by blast
  then show ?thesis using bits_rep_of[of v w] assms(3) by auto
qed

lemma package_env:
  assumes "bignum B num" and "verified_package pkg channels" and "calls_ranked pkg rank" and "i < length pkg" and "rank i \<le> depth"
  shows "fn_env B num (InterpretFunction B depth pkg) pkg channels (pkg ! i)"
proof -
  have "call_sound (InterpretFunction B depth pkg) (pkg ! j)" if "j < length pkg" "rank j < rank i" for j
    using InterpretFunction_sound[OF assms(1-3) that(1)] that(2) assms(5) by simp
  then show ?thesis
    using assms(1-4) unfolding fn_env_def verified_package_def calls_ranked_def list_all_iff at_opt_def by fastforce
qed

end
