(* ===== verification/Xls_Leaf_Type_Tree.thy ===== *)
theory Xls_Leaf_Type_Tree
  imports Xls_Value
begin

text \<open>
  \<open>xls/data_structures/leaf_type_tree.h\<close>: a container with one element for each leaf (bits or token) of a type, kept in
  a flat vector, and the conversions between values and trees of values of \<open>xls/ir/value_helpers.cc\<close>.

  \<open>wf_ltt\<close> is the invariant: as many elements as the type has leaves, and the leaf types those of the type. It makes
  every access of the flat vector in range; the model returns \<open>None\<close> for an access out of range, for a failed check and
  for a conversion that aborts.
\<close>

record 'a leaf_type_tree =
  ltt_type :: xls_type
  ltt_elements :: "'a list"
  ltt_leaf_types :: "xls_type list"

section \<open>Construction\<close>

definition IsLeafType :: "xls_type \<Rightarrow> bool" where
  "IsLeafType t \<longleftrightarrow> Type_IsBits t \<or> Type_IsToken t"

fun MakeLeafTypes :: "xls_type \<Rightarrow> xls_type list" where
  "MakeLeafTypes (BitsType n) = [BitsType n]"
| "MakeLeafTypes TokenType = [TokenType]"
| "MakeLeafTypes (ArrayType n e) = concat (map (\<lambda>_. MakeLeafTypes e) [0..<n])"
| "MakeLeafTypes (TupleType ts) = concat (map MakeLeafTypes ts)"

definition LeafTypeTree_init :: "xls_type \<Rightarrow> 'a \<Rightarrow> 'a leaf_type_tree" where
  "LeafTypeTree_init t init_value =
     \<lparr>ltt_type = t, ltt_elements = replicate (Type_leaf_count t) init_value, ltt_leaf_types = MakeLeafTypes t\<rparr>"

definition LeafTypeTree_members :: "xls_type \<Rightarrow> 'a leaf_type_tree list \<Rightarrow> 'a leaf_type_tree option" where
  "LeafTypeTree_members t init_values = do {
     (case t of
        ArrayType n e \<Rightarrow> CHECK (n = length init_values \<and> list_all (\<lambda>v. e = ltt_type v) init_values)
      | TupleType ts \<Rightarrow> CHECK (length ts = length init_values \<and> list_all2 (\<lambda>u v. u = ltt_type v) ts init_values)
      | _ \<Rightarrow> None);
     Some \<lparr>ltt_type = t, ltt_elements = concat (map ltt_elements init_values), ltt_leaf_types = MakeLeafTypes t\<rparr>
   }"

definition LeafTypeTree_elements :: "xls_type \<Rightarrow> 'a list \<Rightarrow> 'a leaf_type_tree option" where
  "LeafTypeTree_elements t elements = do {
     let leaf_types = MakeLeafTypes t;
     CHECK (length leaf_types = length elements);
     Some \<lparr>ltt_type = t, ltt_elements = elements, ltt_leaf_types = leaf_types\<rparr>
   }"

definition ltt_size :: "'a leaf_type_tree \<Rightarrow> nat" where
  "ltt_size tree = length (ltt_elements tree)"

section \<open>Access\<close>

fun GetSubtypeAndOffset :: "xls_type \<Rightarrow> nat list \<Rightarrow> nat \<Rightarrow> (xls_type \<times> nat) option" where
  "GetSubtypeAndOffset t [] offset = Some (t, offset)"
| "GetSubtypeAndOffset (ArrayType n e) (i # index) offset =
     CHECK (i < n) \<bind> (\<lambda>_. GetSubtypeAndOffset e index (offset + i * Type_leaf_count e))"
| "GetSubtypeAndOffset (TupleType ts) (i # index) offset =
     CHECK (i < length ts) \<bind> (\<lambda>_.
       GetSubtypeAndOffset (ts ! i) index (offset + sum_list (map Type_leaf_count (take i ts))))"
| "GetSubtypeAndOffset _ (i # index) offset = None"

definition ltt_Get :: "'a leaf_type_tree \<Rightarrow> nat list \<Rightarrow> 'a option" where
  "ltt_Get tree index = do {
     (t, offset) \<leftarrow> GetSubtypeAndOffset (ltt_type tree) index 0;
     CHECK (IsLeafType t);
     at_opt (ltt_elements tree) offset
   }"

definition ltt_Set :: "'a leaf_type_tree \<Rightarrow> nat list \<Rightarrow> 'a \<Rightarrow> 'a leaf_type_tree option" where
  "ltt_Set tree index value = do {
     (t, offset) \<leftarrow> GetSubtypeAndOffset (ltt_type tree) index 0;
     CHECK (IsLeafType t);
     CHECK (offset < length (ltt_elements tree));
     Some (tree\<lparr>ltt_elements := (ltt_elements tree)[offset := value]\<rparr>)
   }"

definition ltt_span :: "'a leaf_type_tree \<Rightarrow> nat \<Rightarrow> nat \<Rightarrow> 'a list option" where
  "ltt_span tree offset n =
     (if n = 0 then Some []
      else CHECK (offset + n \<le> length (ltt_elements tree)) \<bind> (\<lambda>_. Some (take n (drop offset (ltt_elements tree)))))"

definition ltt_GetSubelements :: "'a leaf_type_tree \<Rightarrow> nat list \<Rightarrow> 'a list option" where
  "ltt_GetSubelements tree index = do {
     (t, offset) \<leftarrow> GetSubtypeAndOffset (ltt_type tree) index 0;
     ltt_span tree offset (Type_leaf_count t)
   }"

definition ltt_CopySubtree :: "'a leaf_type_tree \<Rightarrow> nat list \<Rightarrow> 'a leaf_type_tree option" where
  "ltt_CopySubtree tree index = do {
     (t, offset) \<leftarrow> GetSubtypeAndOffset (ltt_type tree) index 0;
     elements \<leftarrow> ltt_span tree offset (Type_leaf_count t);
     LeafTypeTree_elements t elements
   }"

section \<open>Mapping, comparing, iterating\<close>

definition ltt_Map :: "('a \<Rightarrow> 'b) \<Rightarrow> 'a leaf_type_tree \<Rightarrow> 'b leaf_type_tree option" where
  "ltt_Map f tree = LeafTypeTree_elements (ltt_type tree) (map f (ltt_elements tree))"

definition ltt_Zip ::
    "('a \<Rightarrow> 'b \<Rightarrow> 'c) \<Rightarrow> 'a leaf_type_tree \<Rightarrow> 'b leaf_type_tree \<Rightarrow> 'c leaf_type_tree option" where
  "ltt_Zip f lhs rhs = do {
     CHECK (Type_IsEqualTo (ltt_type lhs) (ltt_type rhs));
     CHECK (ltt_size lhs = ltt_size rhs);
     LeafTypeTree_elements (ltt_type lhs) (map2 f (ltt_elements lhs) (ltt_elements rhs))
   }"

definition ltt_eq :: "'a leaf_type_tree \<Rightarrow> 'a leaf_type_tree \<Rightarrow> bool option" where
  "ltt_eq lhs rhs =
     (if \<not> Type_IsEqualTo (ltt_type lhs) (ltt_type rhs) then Some False
      else do {
        CHECK (length (ltt_leaf_types lhs) = length (ltt_leaf_types rhs));
        CHECK (list_all2 Type_IsEqualTo (ltt_leaf_types lhs) (ltt_leaf_types rhs));
        Some (ltt_elements lhs = ltt_elements rhs)
      })"

text \<open>A loop over \<open>xs\<close> that threads the state \<open>s\<close> and leaves at the first error.\<close>

fun each_status :: "('i \<Rightarrow> 's \<Rightarrow> (status option \<times> 's) option) \<Rightarrow> 'i list \<Rightarrow> 's \<Rightarrow> (status option \<times> 's) option" where
  "each_status f [] s = Some (None, s)"
| "each_status f (x # xs) s = f x s \<bind> (\<lambda>(e, s). if e = None then each_status f xs s else Some (e, s))"

lemma each_status_cong [fundef_cong]:
  assumes "xs = ys" and "s = s'" and "\<And>x s. x \<in> set ys \<Longrightarrow> f x s = g x s"
  shows "each_status f xs s = each_status g ys s'"
proof -
  have "each_status f ys s = each_status g ys s"
    using assms(3) by (induction ys arbitrary: s) (auto intro!: Option.bind_cong)
  then show ?thesis using assms by simp
qed

lemma member_size: "t \<in> set ts \<Longrightarrow> size t < Suc (size_list size ts)"
  by (induction ts) auto

text \<open>
  The function of \<open>ForEach\<close> may change the element and a state \<open>'s\<close> of its own, and may fail. The state of the walk is
  the linear index, the elements and the function's state.
\<close>

function ForEachHelper ::
    "(xls_type \<Rightarrow> 'a \<Rightarrow> nat list \<Rightarrow> 's \<Rightarrow> status option \<times> 'a \<times> 's) \<Rightarrow> xls_type \<Rightarrow> nat list \<Rightarrow> nat \<times> 'a list \<times> 's \<Rightarrow>
     (status option \<times> nat \<times> 'a list \<times> 's) option" where
  "ForEachHelper f (ArrayType n e) type_index st =
     each_status (\<lambda>i st. ForEachHelper f e (type_index @ [i]) st) [0..<n] st"
| "ForEachHelper f (TupleType ts) type_index st =
     each_status (\<lambda>(i, t) st. ForEachHelper f t (type_index @ [i]) st) (zip [0..<length ts] ts) st"
| "ForEachHelper f (BitsType n) type_index (linear_index, elements, s) =
     at_opt elements linear_index \<bind> (\<lambda>x. let (e, x', s') = f (BitsType n) x type_index s in
       Some (e, linear_index + 1, elements[linear_index := x'], s'))"
| "ForEachHelper f TokenType type_index (linear_index, elements, s) =
     at_opt elements linear_index \<bind> (\<lambda>x. let (e, x', s') = f TokenType x type_index s in
       Some (e, linear_index + 1, elements[linear_index := x'], s'))"
  by pat_completeness auto
termination
  by (relation "measure (\<lambda>(f, t, type_index, st). size t)") (auto dest: set_zip_rightD intro!: member_size)

definition ltt_ForEach ::
    "(xls_type \<Rightarrow> 'a \<Rightarrow> nat list \<Rightarrow> 's \<Rightarrow> status option \<times> 'a \<times> 's) \<Rightarrow> 'a leaf_type_tree \<Rightarrow> 's \<Rightarrow>
     (status option \<times> 'a leaf_type_tree \<times> 's) option" where
  "ltt_ForEach f tree s = do {
     (e, linear_index, elements, s) \<leftarrow> ForEachHelper f (ltt_type tree) [] (0, ltt_elements tree, s);
     Some (e, tree\<lparr>ltt_elements := elements\<rparr>, s)
   }"

text \<open>The pieces of a text, with the linear index threaded through.\<close>

fun each_piece :: "('i \<Rightarrow> nat \<Rightarrow> (string \<times> nat) option) \<Rightarrow> 'i list \<Rightarrow> nat \<Rightarrow> (string list \<times> nat) option" where
  "each_piece f [] k = Some ([], k)"
| "each_piece f (x # xs) k = do { (s, k) \<leftarrow> f x k; (ss, k) \<leftarrow> each_piece f xs k; Some (s # ss, k) }"

lemma each_piece_cong [fundef_cong]:
  assumes "xs = ys" and "k = k'" and "\<And>x k. x \<in> set ys \<Longrightarrow> f x k = g x k"
  shows "each_piece f xs k = each_piece g ys k'"
proof -
  have "each_piece f ys k = each_piece g ys k"
    using assms(3) by (induction ys arbitrary: k) (auto intro!: Option.bind_cong)
  then show ?thesis using assms by simp
qed

definition bracket_pieces :: "string \<Rightarrow> string \<Rightarrow> bool \<Rightarrow> string \<Rightarrow> string list \<Rightarrow> string" where
  "bracket_pieces l r multiline indentation pieces =
     (if multiline
      then (if pieces = [] then indentation @ l @ r
            else indentation @ l @ ''\<newline>'' @ StrJoin pieces '',\<newline>'' @ ''\<newline>'' @ indentation @ r)
      else l @ StrJoin pieces '', '' @ r)"

function ToStringHelper :: "('a \<Rightarrow> string) \<Rightarrow> 'a list \<Rightarrow> bool \<Rightarrow> xls_type \<Rightarrow> nat \<Rightarrow> nat \<Rightarrow> (string \<times> nat) option" where
  "ToStringHelper f elements multiline (ArrayType n e) indent k =
     map_option (map_prod (bracket_pieces ''['' '']'' multiline (replicate indent CHR '' '')) id)
       (each_piece (\<lambda>i k. ToStringHelper f elements multiline e (indent + 2) k) [0..<n] k)"
| "ToStringHelper f elements multiline (TupleType ts) indent k =
     map_option (map_prod (bracket_pieces ''('' '')'' multiline (replicate indent CHR '' '')) id)
       (each_piece (\<lambda>t k. ToStringHelper f elements multiline t (indent + 2) k) ts k)"
| "ToStringHelper f elements multiline (BitsType n) indent k =
     map_option (\<lambda>x. ((if multiline then replicate indent CHR '' '' else '''') @ f x, k + 1)) (at_opt elements k)"
| "ToStringHelper f elements multiline TokenType indent k =
     map_option (\<lambda>x. ((if multiline then replicate indent CHR '' '' else '''') @ f x, k + 1)) (at_opt elements k)"
  by pat_completeness auto
termination
  by (relation "measure (\<lambda>(f, elements, multiline, t, indent, k). size t)") (auto dest!: member_size)

definition ltt_ToString :: "('a \<Rightarrow> string) \<Rightarrow> 'a leaf_type_tree \<Rightarrow> string option" where
  "ltt_ToString f tree = map_option fst (ToStringHelper f (ltt_elements tree) False (ltt_type tree) 0 0)"

definition ltt_ToMultilineString :: "('a \<Rightarrow> string) \<Rightarrow> 'a leaf_type_tree \<Rightarrow> string option" where
  "ltt_ToMultilineString f tree = map_option fst (ToStringHelper f (ltt_elements tree) True (ltt_type tree) 0 0)"

section \<open>Trees of values\<close>

definition ValueToLeafTypeTree :: "xvalue \<Rightarrow> xls_type \<Rightarrow> xvalue leaf_type_tree statusor option" where
  "ValueToLeafTypeTree v t = do {
     ok \<leftarrow> ValueConformsToType v t;
     if \<not> ok then Some (Inl Internal)
     else do {
       leaf_nodes \<leftarrow> ValueLeafNodes v;
       map_option Inr (LeafTypeTree_elements t leaf_nodes)
     }
   }"

lemma CopySubtree_type:
  "ltt_CopySubtree tree [i] = Some sub \<Longrightarrow>
   (\<exists>n e. ltt_type tree = ArrayType n e \<and> i < n \<and> ltt_type sub = e) \<or>
   (\<exists>ts. ltt_type tree = TupleType ts \<and> i < length ts \<and> ltt_type sub = ts ! i)"
  by (cases "ltt_type tree") (auto simp: ltt_CopySubtree_def LeafTypeTree_elements_def Let_def bind_eq_Some_conv split: if_splits)

lemma CopySubtree_size: "ltt_CopySubtree tree [i] = Some sub \<Longrightarrow> size (ltt_type sub) < size (ltt_type tree)"
  by (auto dest!: CopySubtree_type intro!: member_size)

text \<open>The function creates no error status of its own; its result is the value it returns.\<close>

function LeafTypeTreeToValue :: "xvalue leaf_type_tree \<Rightarrow> xvalue option" where
  "LeafTypeTreeToValue tree =
     (case ltt_type tree of
        TupleType ts \<Rightarrow>
          map_option VTuple (those (map (\<lambda>i. ltt_CopySubtree tree [i] \<bind> LeafTypeTreeToValue) [0..<length ts]))
      | ArrayType n e \<Rightarrow>
          those (map (\<lambda>i. ltt_CopySubtree tree [i] \<bind> LeafTypeTreeToValue) [0..<n]) \<bind> Value_ArrayOrDie
      | _ \<Rightarrow> ltt_Get tree [])"
  by pat_completeness auto
termination
  by (relation "measure (\<lambda>tree. size (ltt_type tree))") (auto dest: CopySubtree_size)

declare LeafTypeTreeToValue.simps [simp del]

section \<open>The invariant\<close>

definition wf_ltt :: "'a leaf_type_tree \<Rightarrow> bool" where
  "wf_ltt tree \<longleftrightarrow> length (ltt_elements tree) = Type_leaf_count (ltt_type tree) \<and> ltt_leaf_types tree = MakeLeafTypes (ltt_type tree)"

lemma length_MakeLeafTypes [simp]: "length (MakeLeafTypes t) = Type_leaf_count t"
  by (induction t) (simp_all add: length_concat comp_def sum_list_triv cong: map_cong)

lemma LeafTypeTree_elements_eq:
  "LeafTypeTree_elements t es =
     (if length es = Type_leaf_count t then Some \<lparr>ltt_type = t, ltt_elements = es, ltt_leaf_types = MakeLeafTypes t\<rparr> else None)"
  by (simp add: LeafTypeTree_elements_def)

lemma LeafTypeTree_elements_wf: "LeafTypeTree_elements t es = Some tree \<Longrightarrow> wf_ltt tree \<and> ltt_type tree = t \<and> ltt_elements tree = es"
  by (auto simp: LeafTypeTree_elements_eq wf_ltt_def split: if_splits)

lemma sum_list_take_le: "i < length xs \<Longrightarrow> sum_list (take i xs) + xs ! i \<le> sum_list (xs :: nat list)"
  by (metis add_le_cancel_left append_take_drop_id Cons_nth_drop_Suc le_add1 sum_list.Cons sum_list_append)

lemma GetSubtypeAndOffset_bounds:
  "GetSubtypeAndOffset t index offset = Some (u, k) \<Longrightarrow> offset \<le> k \<and> k + Type_leaf_count u \<le> offset + Type_leaf_count t"
proof (induction t index offset rule: GetSubtypeAndOffset.induct)
  case (2 n e i index offset)
  then have "i * Type_leaf_count e + Type_leaf_count e \<le> n * Type_leaf_count e"
    using mult_le_mono1[of "i + 1" n "Type_leaf_count e"] by (simp split: if_splits)
  with 2 show ?case by (fastforce split: if_splits)
next
  case (3 ts i index offset)
  then have "i < length ts" by (simp split: if_splits)
  then have "sum_list (map Type_leaf_count (take i ts)) + Type_leaf_count (ts ! i) \<le> sum_list (map Type_leaf_count ts)"
    using sum_list_take_le[of i "map Type_leaf_count ts"] by (simp add: take_map)
  with 3 show ?case by (fastforce split: if_splits)
qed auto

lemma GetSubtypeAndOffset_shift:
  "GetSubtypeAndOffset t index (offset + d) = map_option (map_prod id ((+) d)) (GetSubtypeAndOffset t index offset)"
proof (induction t index offset rule: GetSubtypeAndOffset.induct)
  case (2 n e i index offset)
  then show ?case by (simp add: ac_simps)
next
  case (3 ts i index offset)
  then show ?case by (simp add: ac_simps)
qed simp_all

lemma leaf_count_leaf: "IsLeafType t \<Longrightarrow> Type_leaf_count t = 1"
  by (cases t) (auto simp: IsLeafType_def)

lemma sum_list_take_mono: "i < j \<Longrightarrow> j \<le> length xs \<Longrightarrow> sum_list (take i xs) + xs ! i \<le> sum_list (take j (xs :: nat list))"
  using sum_list_take_le[of i "take j xs"] by (simp add: min_def)

lemma block_unique:
  fixes f :: "nat \<Rightarrow> nat"
  assumes "\<And>i j. i < j \<Longrightarrow> j < n \<Longrightarrow> f i + w i \<le> f j" and "i < n" and "j < n"
    and "f i \<le> k" "k < f i + w i" "f j \<le> k" "k < f j + w j"
  shows "i = j"
  using assms(1)[of i j] assms(1)[of j i] assms(2-) by (cases i j rule: linorder_cases) auto

lemma leaf_offsets_distinct:
  "GetSubtypeAndOffset t index offset = Some (u, k) \<Longrightarrow> GetSubtypeAndOffset t index' offset = Some (u', k) \<Longrightarrow>
   IsLeafType u \<Longrightarrow> IsLeafType u' \<Longrightarrow> index = index'"
proof (induction t index offset arbitrary: index' rule: GetSubtypeAndOffset.induct)
  case (1 t offset)
  then show ?case by (cases t; cases index') (auto simp: IsLeafType_def)
next
  case (2 n e i index offset)
  obtain j js where index': "index' = j # js" using 2 by (cases index') (auto simp: IsLeafType_def)
  let ?f = "\<lambda>i. offset + i * Type_leaf_count e"
  have sub: "i < n" "j < n" "GetSubtypeAndOffset e index (?f i) = Some (u, k)" "GetSubtypeAndOffset e js (?f j) = Some (u', k)"
    using 2 index' by (auto split: if_splits)
  have "?f a + Type_leaf_count e \<le> ?f b" if "a < b" for a b
    using mult_le_mono1[of "Suc a" b "Type_leaf_count e"] that by simp
  then have "i = j"
    by (rule block_unique[where n = n and k = k]) (use sub GetSubtypeAndOffset_bounds[OF sub(3)] GetSubtypeAndOffset_bounds[OF sub(4)] 2 in
      \<open>auto simp: leaf_count_leaf\<close>)
  then show ?case using 2 sub index' by simp
next
  case (3 ts i index offset)
  obtain j js where index': "index' = j # js" using 3 by (cases index') (auto simp: IsLeafType_def)
  let ?f = "\<lambda>i. offset + sum_list (map Type_leaf_count (take i ts))"
  have sub: "i < length ts" "j < length ts" "GetSubtypeAndOffset (ts ! i) index (?f i) = Some (u, k)"
      "GetSubtypeAndOffset (ts ! j) js (?f j) = Some (u', k)"
    using 3 index' by (auto split: if_splits)
  have "?f a + Type_leaf_count (ts ! a) \<le> ?f b" if "a < b" "b < length ts" for a b
    using sum_list_take_mono[of a b "map Type_leaf_count ts"] that by (simp add: take_map)
  then have "i = j"
    by (rule block_unique[where n = "length ts" and k = k]) (use sub GetSubtypeAndOffset_bounds[OF sub(3)] GetSubtypeAndOffset_bounds[OF sub(4)] 3 in
      \<open>auto simp: leaf_count_leaf\<close>)
  then show ?case using 3 sub index' by simp
qed simp_all

definition leaf_index :: "xls_type \<Rightarrow> nat list \<Rightarrow> bool" where
  "leaf_index t index \<longleftrightarrow> (\<exists>u k. GetSubtypeAndOffset t index 0 = Some (u, k) \<and> IsLeafType u)"

lemma ltt_Get_leaf:
  assumes "wf_ltt tree"
  shows "ltt_Get tree index = None \<longleftrightarrow> \<not> leaf_index (ltt_type tree) index"
proof (cases "GetSubtypeAndOffset (ltt_type tree) index 0")
  case (Some p)
  obtain u k where p: "p = (u, k)" by (cases p)
  show ?thesis
  proof (cases "IsLeafType u")
    case True
    then have "k < length (ltt_elements tree)"
      using GetSubtypeAndOffset_bounds[of "ltt_type tree" index 0 u k] Some p assms by (simp add: wf_ltt_def leaf_count_leaf)
    then show ?thesis using Some p True by (simp add: ltt_Get_def leaf_index_def at_opt_def)
  qed (use Some p in \<open>simp add: ltt_Get_def leaf_index_def\<close>)
qed (simp add: ltt_Get_def leaf_index_def)

lemma ltt_Set_laws:
  assumes wf: "wf_ltt tree" and leaf: "leaf_index (ltt_type tree) index"
  shows "\<exists>tree'. ltt_Set tree index x = Some tree' \<and> wf_ltt tree' \<and> ltt_type tree' = ltt_type tree \<and>
    (\<forall>index'. ltt_Get tree' index' = (if index' = index then Some x else ltt_Get tree index'))"
proof -
  obtain u k where k: "GetSubtypeAndOffset (ltt_type tree) index 0 = Some (u, k)" "IsLeafType u"
    using leaf by (auto simp: leaf_index_def)
  then have lt: "k < length (ltt_elements tree)"
    using GetSubtypeAndOffset_bounds[OF k(1)] wf by (simp add: wf_ltt_def leaf_count_leaf)
  let ?tree = "tree\<lparr>ltt_elements := (ltt_elements tree)[k := x]\<rparr>"
  have "ltt_Get ?tree index' = (if index' = index then Some x else ltt_Get tree index')" for index'
  proof (cases "GetSubtypeAndOffset (ltt_type tree) index' 0")
    case (Some p)
    obtain u' k' where p: "p = (u', k')" by (cases p)
    have "index' = index" if "IsLeafType u'" "k' = k"
      using leaf_offsets_distinct[OF k(1) _ k(2) that(1)] Some p that(2) by simp
    then show ?thesis using k lt Some p 
      by (cases "index' = index"; cases "k' = k") (auto simp: ltt_Get_def at_opt_def)
  qed (use k in \<open>auto simp: ltt_Get_def\<close>)
  moreover have "ltt_Set tree index x = Some ?tree" using k lt by (simp add: ltt_Set_def)
  ultimately show ?thesis using wf by (auto simp: wf_ltt_def)
qed

section \<open>Values as trees\<close>

lemma take_drop_concat:
  assumes "i < length ls" and "map length ls = ns"
  shows "take (ns ! i) (drop (sum_list (take i ns)) (concat ls)) = ls ! i"
proof -
  have "concat ls = concat (take i ls) @ ls ! i @ concat (drop (Suc i) ls)"
    using assms(1) by (metis append_take_drop_id concat.simps(2) concat_append Cons_nth_drop_Suc)
  moreover have "length (concat (take i ls)) = sum_list (take i ns)" "length (ls ! i) = ns ! i"
    using assms by (auto simp: length_concat take_map)
  ultimately show ?thesis by simp
qed

lemma ValueLeafNodes_typed: "has_type v t \<Longrightarrow> \<exists>ls. ValueLeafNodes v = Some ls \<and> length ls = Type_leaf_count t"
proof (induction t arbitrary: v)
  case (TupleType ts)
  then obtain es where es: "v = VTuple es" "list_all2 has_type es ts" by auto
  have "\<exists>lss. those (map ValueLeafNodes es) = Some lss \<and> length (concat lss) = sum_list (map Type_leaf_count ts)"
    using es(2) TupleType.IH by (induction es ts rule: list_all2_induct) fastforce+
  then show ?case using es(1) by auto
next
  case (ArrayType n t)
  then obtain es where es: "v = VArray es" "length es = n" "list_all (\<lambda>e. has_type e t) es" by auto
  have "\<exists>lss. those (map ValueLeafNodes es) = Some lss \<and> length (concat lss) = length es * Type_leaf_count t"
    using es(3) ArrayType.IH by (induction es) fastforce+
  then show ?case using es(1,2) by auto
qed auto

text \<open>The tree of a typed value, and how its subtrees are the trees of the members.\<close>

definition value_tree :: "xvalue \<Rightarrow> xls_type \<Rightarrow> xvalue leaf_type_tree" where
  "value_tree v t = \<lparr>ltt_type = t, ltt_elements = the (ValueLeafNodes v), ltt_leaf_types = MakeLeafTypes t\<rparr>"

lemma ValueToLeafTypeTree_typed: "has_type v t \<Longrightarrow> ValueToLeafTypeTree v t = Some (Inr (value_tree v t)) \<and> wf_ltt (value_tree v t)"
  using ValueLeafNodes_typed[of v t]
  by (auto simp: ValueToLeafTypeTree_def ValueConformsToType_typed LeafTypeTree_elements_eq value_tree_def wf_ltt_def)

lemma members_leaves:
  assumes "list_all (\<lambda>e. \<exists>t. has_type e t) es"
  shows "those (map ValueLeafNodes es) = Some (map (\<lambda>e. the (ValueLeafNodes e)) es)"
  using assms ValueLeafNodes_typed by (intro those_map_cong) (fastforce simp: list_all_iff)

lemma those_upt: "length es = n \<Longrightarrow> (\<And>i. i < n \<Longrightarrow> f i = Some (es ! i)) \<Longrightarrow> those (map f [0..<n]) = Some es"
  using those_map_cong[of "[0..<n]" f "(!) es"] by (auto simp: map_nth)

lemma length_leaves: "has_type v t \<Longrightarrow> length (the (ValueLeafNodes v)) = Type_leaf_count t"
  using ValueLeafNodes_typed[of v t] by auto

lemma CopySubtree_block:
  assumes "GetSubtypeAndOffset t [i] 0 = Some (u, sum_list (take i ns))" and "ltt_type tree = t"
    and "ltt_elements tree = concat ls" and "map length ls = ns" and "i < length ls" and "ns ! i = Type_leaf_count u"
  shows "ltt_CopySubtree tree [i] = Some \<lparr>ltt_type = u, ltt_elements = ls ! i, ltt_leaf_types = MakeLeafTypes u\<rparr>"
proof -
  have "sum_list (take i ns) + ns ! i \<le> length (concat ls)"
    using sum_list_take_le[of i ns] assms(4,5) by (auto simp: length_concat)
  then have "ltt_span tree (sum_list (take i ns)) (ns ! i) = Some (ls ! i)"
    using take_drop_concat[OF assms(5,4)] assms(3-5) by (auto simp: ltt_span_def)
  then show ?thesis using assms by (auto simp: ltt_CopySubtree_def LeafTypeTree_elements_eq)
qed

lemma CopySubtree_tuple:
  assumes "list_all2 has_type es ts" and "i < length es"
  shows "ltt_CopySubtree (value_tree (VTuple es) (TupleType ts)) [i] = Some (value_tree (es ! i) (ts ! i))"
proof -
  have len: "length es = length ts" using assms(1) by (rule list_all2_lengthD)
  have ns: "map length (map (\<lambda>e. the (ValueLeafNodes e)) es) = map Type_leaf_count ts"
    using assms(1) by (auto simp: list_eq_iff_nth_eq list_all2_conv_all_nth length_leaves)
  have "ltt_elements (value_tree (VTuple es) (TupleType ts)) = concat (map (\<lambda>e. the (ValueLeafNodes e)) es)"
    using members_leaves[OF typed_members[OF assms(1)]] by (simp add: value_tree_def)
  from CopySubtree_block[OF _ _ this ns, of "TupleType ts" i "ts ! i"] assms(2) len show ?thesis
    by (simp add: take_map value_tree_def)
qed

lemma CopySubtree_array:
  assumes "list_all (\<lambda>e. has_type e t) es" and "i < length es"
  shows "ltt_CopySubtree (value_tree (VArray es) (ArrayType (length es) t)) [i] = Some (value_tree (es ! i) t)"
proof -
  have ns: "map length (map (\<lambda>e. the (ValueLeafNodes e)) es) = replicate (length es) (Type_leaf_count t)"
    using assms(1) by (auto simp: list_eq_iff_nth_eq list_all_length length_leaves)
  have "ltt_elements (value_tree (VArray es) (ArrayType (length es) t)) = concat (map (\<lambda>e. the (ValueLeafNodes e)) es)"
    using members_leaves[of es] assms(1) by (fastforce simp: value_tree_def list_all_iff)
  from CopySubtree_block[OF _ _ this ns, of "ArrayType (length es) t" i t] assms(2) show ?thesis
    by (simp add: value_tree_def sum_list_replicate)
qed

lemma LeafTypeTreeToValue_value_tree: "has_type v t \<Longrightarrow> LeafTypeTreeToValue (value_tree v t) = Some v"
proof (induction t arbitrary: v)
  case (TupleType ts)
  then obtain es where es: "v = VTuple es" "list_all2 has_type es ts" by auto
  have "ltt_CopySubtree (value_tree v (TupleType ts)) [i] \<bind> LeafTypeTreeToValue = Some (es ! i)" if "i < length ts" for i
    using es that TupleType.IH by (simp add: CopySubtree_tuple list_all2_conv_all_nth)
  then have "those (map (\<lambda>i. ltt_CopySubtree (value_tree v (TupleType ts)) [i] \<bind> LeafTypeTreeToValue) [0..<length ts]) = Some es"
    using list_all2_lengthD[OF es(2)] by (intro those_upt)
  then show ?case using es(1) by (subst LeafTypeTreeToValue.simps) (simp add: value_tree_def)
next
  case (ArrayType n t)
  then obtain es where es: "v = VArray es" "es \<noteq> []" "length es = n" "list_all (\<lambda>e. has_type e t) es" by auto
  have "ltt_CopySubtree (value_tree v (ArrayType n t)) [i] \<bind> LeafTypeTreeToValue = Some (es ! i)" if "i < n" for i
    using es that ArrayType.IH CopySubtree_array[OF es(4), of i] by (simp add: list_all_length)
  then have "those (map (\<lambda>i. ltt_CopySubtree (value_tree v (ArrayType n t)) [i] \<bind> LeafTypeTreeToValue) [0..<n]) = Some es"
    using es(3) by (intro those_upt)
  then show ?case using es Value_Array_typed[OF es(2,4)]
    by (subst LeafTypeTreeToValue.simps) (simp add: value_tree_def Value_ArrayOrDie_def)
qed (auto simp: LeafTypeTreeToValue.simps value_tree_def ltt_Get_def IsLeafType_def at_opt_def)

section \<open>Iteration\<close>

text \<open>The leaves of a type with their indices, in the order of the flat vector.\<close>

function leaf_list :: "xls_type \<Rightarrow> nat list \<Rightarrow> (xls_type \<times> nat list) list" where
  "leaf_list (BitsType n) p = [(BitsType n, p)]"
| "leaf_list TokenType p = [(TokenType, p)]"
| "leaf_list (ArrayType n e) p = concat (map (\<lambda>i. leaf_list e (p @ [i])) [0..<n])"
| "leaf_list (TupleType ts) p = concat (map (\<lambda>(i, t). leaf_list t (p @ [i])) (zip [0..<length ts] ts))"
  by pat_completeness auto
termination
  by (relation "measure (\<lambda>(t, p). size t)") (auto dest: set_zip_rightD intro!: member_size)

text \<open>Calling a function on a sequence of leaves, up to the first error.\<close>

fun visit :: "(xls_type \<Rightarrow> 'a \<Rightarrow> nat list \<Rightarrow> 's \<Rightarrow> status option \<times> 'a \<times> 's) \<Rightarrow> (xls_type \<times> nat list) list \<Rightarrow> 'a list \<Rightarrow> 's \<Rightarrow>
    status option \<times> 'a list \<times> 's" where
  "visit f ((t, p) # leaves) (x # xs) s =
     (let (e, x', s') = f t x p s in
      if e \<noteq> None then (e, x' # xs, s')
      else let (e', xs', s'') = visit f leaves xs s' in (e', x' # xs', s''))"
| "visit f _ xs s = (None, xs, s)"

lemma visit_append:
  "length xs = length ls \<Longrightarrow> visit f (ls @ ls') (xs @ ys) s =
     (let (e, xs', s') = visit f ls xs s in
      if e \<noteq> None then (e, xs' @ ys, s')
      else let (e', ys', s'') = visit f ls' ys s' in (e', xs' @ ys', s''))"
  by (induction f ls xs s rule: visit.induct) (auto simp: Let_def split: prod.splits)

lemma length_visit: "length (fst (snd (visit f ls xs s))) = length xs"
  by (induction f ls xs s rule: visit.induct) (auto simp: Let_def split: prod.splits)

text \<open>A walk \<open>g\<close> from any linear index treats the leaves \<open>ls\<close> that start there, and no other element.\<close>

definition walks ::
    "(xls_type \<Rightarrow> 'a \<Rightarrow> nat list \<Rightarrow> 's \<Rightarrow> status option \<times> 'a \<times> 's) \<Rightarrow>
     (nat \<times> 'a list \<times> 's \<Rightarrow> (status option \<times> nat \<times> 'a list \<times> 's) option) \<Rightarrow> (xls_type \<times> nat list) list \<Rightarrow> bool" where
  "walks f g ls \<longleftrightarrow> (\<forall>before mid after s. length mid = length ls \<longrightarrow>
     (let (e, xs, s') = visit f ls mid s in
      \<exists>k. g (length before, before @ mid @ after, s) = Some (e, k, before @ xs @ after, s') \<and>
          (e = None \<longrightarrow> k = length before + length ls)))"

lemma walksD:
  assumes "walks f g ls" and "length mid = length ls" and "visit f ls mid s = (e, xs, s')"
  shows "\<exists>k. g (length before, before @ mid @ after, s) = Some (e, k, before @ xs @ after, s') \<and>
    (e = None \<longrightarrow> k = length before + length ls)"
  using assms(1)[unfolded walks_def, rule_format, OF assms(2), where s = s and before = before and after = after] assms(3) by simp

lemma walks_leaf:
  fixes f :: "xls_type \<Rightarrow> 'a \<Rightarrow> nat list \<Rightarrow> 's \<Rightarrow> status option \<times> 'a \<times> 's"
  assumes "\<And>i es s. g (i, es, s) =
    at_opt es i \<bind> (\<lambda>x. let (e, x', s') = f t x p s in Some (e, i + 1, es[i := x'], s'))"
  shows "walks f g [(t, p)]"
  unfolding walks_def
proof (intro allI impI)
  fix before mid after :: "'a list" and s :: 's
  assume "length mid = length [(t, p)]"
  then obtain x where "mid = [x]" by (auto simp: length_Suc_conv)
  then show "let (e, xs, s') = visit f [(t, p)] mid s in
      \<exists>k. g (length before, before @ mid @ after, s) = Some (e, k, before @ xs @ after, s') \<and>
          (e = None \<longrightarrow> k = length before + length [(t, p)])"
    by (simp add: assms at_opt_def nth_append Let_def split: prod.splits)
qed

lemma walks_Cons:
  fixes f :: "xls_type \<Rightarrow> 'a \<Rightarrow> nat list \<Rightarrow> 's \<Rightarrow> status option \<times> 'a \<times> 's"
  assumes "walks f (g x) ls" and "walks f (each_status g xs) ls'"
  shows "walks f (each_status g (x # xs)) (ls @ ls')"
  unfolding walks_def
proof (intro allI impI)
  fix before mid after :: "'a list" and s :: 's
  assume "length mid = length (ls @ ls')"
  then obtain xs1 xs2 where mid: "mid = xs1 @ xs2" "length xs1 = length ls" "length xs2 = length ls'"
    by (metis append_take_drop_id length_append length_drop length_take add_diff_cancel_left' le_add1 min.absorb2)
  obtain e1 ys1 s1 where v1: "visit f ls xs1 s = (e1, ys1, s1)" by (cases "visit f ls xs1 s")
  obtain e2 ys2 s2 where v2: "visit f ls' xs2 s1 = (e2, ys2, s2)" by (cases "visit f ls' xs2 s1")
  have len: "length ys1 = length ls" using length_visit[of f ls xs1 s] v1 mid by simp
  obtain k1 where k1: "g x (length before, before @ xs1 @ xs2 @ after, s) = Some (e1, k1, before @ ys1 @ xs2 @ after, s1)"
      "e1 = None \<longrightarrow> k1 = length before + length ls"
    using walksD[OF assms(1) mid(2) v1, of before "xs2 @ after"] by auto
  obtain k2 where k2: "each_status g xs (length (before @ ys1), (before @ ys1) @ xs2 @ after, s1) =
      Some (e2, k2, (before @ ys1) @ ys2 @ after, s2)" "e2 = None \<longrightarrow> k2 = length (before @ ys1) + length ls'"
    using walksD[OF assms(2) mid(3) v2, of "before @ ys1" after] by auto
  show "let (e, ys, s') = visit f (ls @ ls') mid s in
      \<exists>k. each_status g (x # xs) (length before, before @ mid @ after, s) = Some (e, k, before @ ys @ after, s') \<and>
          (e = None \<longrightarrow> k = length before + length (ls @ ls'))"
    using mid k1 k2 len v1 v2 by (cases e1) (simp_all add: visit_append)
qed

lemma walks_each:
  assumes "\<And>x. x \<in> set xs \<Longrightarrow> walks f (g x) (h x)"
  shows "walks f (each_status g xs) (concat (map h xs))"
  using assms
proof (induction xs)
  case Nil
  then show ?case by (simp add: walks_def)
next
  case (Cons x xs)
  then have "walks f (each_status g (x # xs)) (h x @ concat (map h xs))" by (intro walks_Cons) simp_all
  then show ?case by (simp only: list.map concat.simps)
qed

lemma ForEachHelper_walks: "walks f (ForEachHelper f t p) (leaf_list t p)"
proof (induction t p rule: leaf_list.induct)
  case (3 n e p)
  have "ForEachHelper f (ArrayType n e) p = each_status (\<lambda>i. ForEachHelper f e (p @ [i])) [0..<n]" by (rule ext) simp
  then show ?case using 3 by (auto intro!: walks_each)
next
  case (4 ts p)
  have "ForEachHelper f (TupleType ts) p =
      each_status (\<lambda>x. case x of (i, t) \<Rightarrow> ForEachHelper f t (p @ [i])) (zip [0..<length ts] ts)"
    by (rule ext) (simp add: case_prod_unfold)
  then show ?case using 4 by (auto intro!: walks_each)
qed (simp_all add: walks_leaf)

lemma map_zip_snd: "length xs = length ts \<Longrightarrow> map (\<lambda>(i, t). f t) (zip xs ts) = map f ts"
  by (induction xs ts rule: list_induct2) simp_all

lemma length_leaf_list [simp]: "length (leaf_list t p) = Type_leaf_count t"
proof (induction t arbitrary: p)
  case (TupleType ts)
  have "map length (map (\<lambda>(i, t). leaf_list t (p @ [i])) (zip [0..<length ts] ts)) =
      map (\<lambda>(i, t). Type_leaf_count t) (zip [0..<length ts] ts)"
    using TupleType by (auto dest!: set_zip_rightD)
  then show ?case by (simp add: length_concat map_zip_snd)
qed (simp_all add: length_concat comp_def sum_list_triv)

lemma ltt_ForEach_eq:
  assumes "wf_ltt tree"
  shows "ltt_ForEach f tree s =
    (let (e, xs, s') = visit f (leaf_list (ltt_type tree) []) (ltt_elements tree) s in
     Some (e, tree\<lparr>ltt_elements := xs\<rparr>, s'))"
proof -
  have "length (ltt_elements tree) = length (leaf_list (ltt_type tree) [])" using assms by (simp add: wf_ltt_def)
  then show ?thesis
    using ForEachHelper_walks[of f "ltt_type tree" "[]", unfolded walks_def, rule_format,
        where mid = "ltt_elements tree" and before = "[]" and after = "[]" and s = s]
    by (auto simp: ltt_ForEach_def Let_def split: prod.splits)
qed

lemma nth_concat_block:
  "k < length (concat ls) \<Longrightarrow>
   \<exists>i j. i < length ls \<and> j < length (ls ! i) \<and> k = sum_list (take i (map length ls)) + j \<and> concat ls ! k = ls ! i ! j"
proof (induction ls arbitrary: k)
  case (Cons l ls)
  show ?case
  proof (cases "k < length l")
    case True
    then show ?thesis by (intro exI[of _ 0] exI[of _ k]) (simp add: nth_append)
  next
    case False
    then have "k - length l < length (concat ls)" using Cons.prems by simp
    from Cons.IH[OF this] obtain i j where "i < length ls" "j < length (ls ! i)"
        "k - length l = sum_list (take i (map length ls)) + j" "concat ls ! (k - length l) = ls ! i ! j"
      by blast
    then show ?thesis using False by (intro exI[of _ "Suc i"] exI[of _ j]) (simp add: nth_append)
  qed
qed simp

lemma leaf_list_nth:
  "k < Type_leaf_count t \<Longrightarrow>
   \<exists>u q. leaf_list t p ! k = (u, p @ q) \<and> GetSubtypeAndOffset t q 0 = Some (u, k) \<and> IsLeafType u"
proof (induction t arbitrary: p k)
  case (TupleType ts)
  let ?ls = "map (\<lambda>(i, t). leaf_list t (p @ [i])) (zip [0..<length ts] ts)"
  have ls: "length ?ls = length ts" "map length ?ls = map Type_leaf_count ts"
    by (simp_all add: comp_def case_prod_unfold) (simp add: map_zip_snd[of _ ts Type_leaf_count, simplified case_prod_unfold])
  have "k < length (concat ?ls)" using TupleType.prems by (simp add: length_concat ls(2) del: map_map)
  from nth_concat_block[OF this, unfolded ls] obtain i j where "i < length ts" "j < length (?ls ! i)"
      "k = sum_list (take i (map Type_leaf_count ts)) + j" "concat ?ls ! k = ?ls ! i ! j"
    by blast
  then have ij: "i < length ts" "j < Type_leaf_count (ts ! i)"
      "k = sum_list (map Type_leaf_count (take i ts)) + j" "concat ?ls ! k = leaf_list (ts ! i) (p @ [i]) ! j"
    by (simp_all add: take_map)
  obtain u q where q: "leaf_list (ts ! i) (p @ [i]) ! j = (u, (p @ [i]) @ q)" "GetSubtypeAndOffset (ts ! i) q 0 = Some (u, j)" "IsLeafType u"
    using TupleType.IH[OF nth_mem[OF ij(1)] ij(2), of "p @ [i]"] by auto
  then show ?case
    using ij GetSubtypeAndOffset_shift[of "ts ! i" q 0 "sum_list (map Type_leaf_count (take i ts))"]
    by (intro exI[of _ u] exI[of _ "i # q"]) simp
next
  case (ArrayType n t)
  let ?ls = "map (\<lambda>i. leaf_list t (p @ [i])) [0..<n]"
  have ls: "map length ?ls = replicate n (Type_leaf_count t)" by (simp add: comp_def map_replicate_const)
  have "k < length (concat ?ls)" using ArrayType.prems by (simp add: length_concat ls sum_list_replicate del: map_map)
  from nth_concat_block[OF this, unfolded ls] obtain i j where "i < length ?ls" "j < length (?ls ! i)"
      "k = sum_list (take i (replicate n (Type_leaf_count t))) + j" "concat ?ls ! k = ?ls ! i ! j"
    by blast
  then have ij: "i < n" "j < Type_leaf_count t" "k = i * Type_leaf_count t + j" "concat ?ls ! k = leaf_list t (p @ [i]) ! j"
    by (simp_all add: sum_list_replicate)
  obtain u q where q: "leaf_list t (p @ [i]) ! j = (u, (p @ [i]) @ q)" "GetSubtypeAndOffset t q 0 = Some (u, j)" "IsLeafType u"
    using ArrayType.IH[OF ij(2), of "p @ [i]"] by auto
  then show ?case
    using ij GetSubtypeAndOffset_shift[of t q 0 "i * Type_leaf_count t"]
    by (intro exI[of _ u] exI[of _ "i # q"]) simp
qed (simp_all add: IsLeafType_def)

section \<open>Properties\<close>

text \<open>On a well-formed tree, reading returns exactly at the indices of leaves and aborts elsewhere; writing at a leaf
  index keeps the tree well formed and its type, the next read at that index delivers the written element, and reads at
  all other indices are unchanged.\<close>

lemma leaf_type_tree_get_set:
  assumes "wf_ltt tree"
  shows "(ltt_Get tree index = None \<longleftrightarrow> \<not> leaf_index (ltt_type tree) index) \<and>
    (ltt_Set tree index x = None \<longleftrightarrow> \<not> leaf_index (ltt_type tree) index) \<and>
    (\<forall>tree'. ltt_Set tree index x = Some tree' \<longrightarrow> wf_ltt tree' \<and> ltt_type tree' = ltt_type tree \<and>
      (\<forall>index'. ltt_Get tree' index' = (if index' = index then Some x else ltt_Get tree index')))"
proof (cases "leaf_index (ltt_type tree) index")
  case True
  then show ?thesis using ltt_Get_leaf[OF assms, of index] ltt_Set_laws[OF assms, of index x] by auto
next
  case False
  then have "ltt_Set tree index x = None"
    by (cases "GetSubtypeAndOffset (ltt_type tree) index 0") (auto simp: ltt_Set_def leaf_index_def)
  then show ?thesis using False ltt_Get_leaf[OF assms, of index] by simp
qed

text \<open>C38: Turning a value of type \<open>t\<close> into a tree of its leaves and back gives the value, the tree is well formed, and the
  subtree at the index of a member of a tuple or array is the tree of that member.\<close>

theorem value_leaf_tree_round_trip:
  assumes "has_type v t"
  shows "\<exists>tree. ValueToLeafTypeTree v t = Some (Inr tree) \<and> wf_ltt tree \<and> LeafTypeTreeToValue tree = Some v \<and>
    (\<forall>es ts i. v = VTuple es \<and> t = TupleType ts \<and> i < length es \<longrightarrow>
      map_option Inr (ltt_CopySubtree tree [i]) = ValueToLeafTypeTree (es ! i) (ts ! i)) \<and>
    (\<forall>es n u i. v = VArray es \<and> t = ArrayType n u \<and> i < length es \<longrightarrow>
      map_option Inr (ltt_CopySubtree tree [i]) = ValueToLeafTypeTree (es ! i) u)"
proof -
  have "ltt_CopySubtree (value_tree v t) [i] = Some (value_tree (es ! i) (ts ! i)) \<and>
      ValueToLeafTypeTree (es ! i) (ts ! i) = Some (Inr (value_tree (es ! i) (ts ! i)))"
    if "v = VTuple es" "t = TupleType ts" "i < length es" for es ts i
    using assms that CopySubtree_tuple[of es ts i]
    by (simp add: ValueToLeafTypeTree_typed list_all2_conv_all_nth)
  moreover have "ltt_CopySubtree (value_tree v t) [i] = Some (value_tree (es ! i) u) \<and>
      ValueToLeafTypeTree (es ! i) u = Some (Inr (value_tree (es ! i) u))"
    if "v = VArray es" "t = ArrayType n u" "i < length es" for es n u i
    using assms that CopySubtree_array[of u es i]
    by (auto simp: ValueToLeafTypeTree_typed list_all_length)
  ultimately show ?thesis
    using ValueToLeafTypeTree_typed[OF assms] LeafTypeTreeToValue_value_tree[OF assms]
    by (intro exI[of _ "value_tree v t"]) auto
qed

theorem value_leaf_tree_round_trip_witness:
  "\<exists>tree. ValueToLeafTypeTree (VArray [VToken, VToken]) (ArrayType 2 TokenType) = Some (Inr tree) \<and>
     LeafTypeTreeToValue tree = Some (VArray [VToken, VToken])"
  using value_leaf_tree_round_trip[of "VArray [VToken, VToken]" "ArrayType 2 TokenType"] by auto

text \<open>\<open>ForEach\<close> on a well-formed tree calls the function on the leaves in the order of the flat vector, with the type,
  element and index of each leaf, and stops at the first error; the elements after it are unchanged. The index passed with
  the \<open>k\<close>-th leaf is the index of the \<open>k\<close>-th element.\<close>

lemma leaf_type_tree_for_each:
  assumes "wf_ltt tree"
  shows "ltt_ForEach f tree s =
    (let (e, xs, s') = visit f (leaf_list (ltt_type tree) []) (ltt_elements tree) s in
     Some (e, tree\<lparr>ltt_elements := xs\<rparr>, s')) \<and>
    length (leaf_list (ltt_type tree) []) = length (ltt_elements tree) \<and>
    (\<forall>k<length (ltt_elements tree). ltt_Get tree (snd (leaf_list (ltt_type tree) [] ! k)) = Some (ltt_elements tree ! k))"
proof -
  have "ltt_Get tree (snd (leaf_list (ltt_type tree) [] ! k)) = Some (ltt_elements tree ! k)"
    if "k < length (ltt_elements tree)" for k
    using leaf_list_nth[of k "ltt_type tree" "[]"] assms that by (auto simp: wf_ltt_def ltt_Get_def at_opt_def)
  then show ?thesis using assms ltt_ForEach_eq[OF assms] by (simp add: wf_ltt_def)
qed

end
