(* ===== verification/Xls_Ternary_Query.thy ===== *)
theory Xls_Ternary_Query
  imports Xls_Abstract_Node Xls_Ternary Xls_Interval_Set Xls_Runs Xls_Node_Iterator Xls_Leaf_Type_Tree
begin

text \<open>
  The known-bits analysis of the optimizer, \<open>xls/passes/ternary_query_engine.{h,cc}\<close>, with the queries that every engine
  inherits from \<open>xls/passes/query_engine.{h,cc}\<close>.

  \<open>Populate\<close> evaluates the nodes of a function on ternary vectors, in topological order, and records which bits it knows.
  The theory shows that it returns, and that each answer of the engine holds of every run of the interpreter.
\<close>

section \<open>Populate\<close>

datatype reached_fixpoint = Unchanged | Changed | Unknown

record ternary_query_engine =
  known_bits :: "nat \<Rightarrow> bits option"
  bits_values :: "nat \<Rightarrow> bits option"

definition TernaryQueryEngine_new :: ternary_query_engine where
  "TernaryQueryEngine_new = \<lparr>known_bits = Map.empty, bits_values = Map.empty\<rparr>"

definition IsExpensiveToEvaluate :: "ir_node \<Rightarrow> bool" where
  "IsExpensiveToEvaluate nd \<longleftrightarrow> node_op nd \<in> {BinOp Op_Shrl, BinOp Op_Shra, BinOp Op_Shll} \<and> Type_GetFlatBitCount (node_type nd) > 256"

definition TernaryVectorToKnownBits :: "ternary_vector \<Rightarrow> bits" where
  "TernaryVectorToKnownBits v = Bits_FromSpan (map (\<lambda>t. t = kKnownOne \<or> t = kKnownZero) v)"

definition TernaryVectorToValueBits :: "ternary_vector \<Rightarrow> bits" where
  "TernaryVectorToValueBits v = Bits_FromSpan (map (\<lambda>t. t = kKnownOne) v)"

definition create_unknown_vector :: "ir_node \<Rightarrow> ternary_vector option" where
  "create_unknown_vector nd = map_option (\<lambda>w. replicate w kUnknown) (BitCountOrDie nd)"

fun populate_values :: "ir_function \<Rightarrow> nat list \<Rightarrow> (nat \<Rightarrow> ternary_vector option) \<Rightarrow> (nat \<Rightarrow> ternary_vector option) statusor option" where
  "populate_values f [] vals = returnS vals"
| "populate_values f (n # ns) vals = do {
     nd \<leftarrow> GetNode f n;
     if \<not> Type_IsBits (node_type nd) then populate_values f ns vals
     else do {
       types \<leftarrow> those (map (GetType f) (node_operands nd));
       if IsExpensiveToEvaluate nd \<or> list_ex (\<lambda>t. \<not> Type_IsBits t) types
       then do { v \<leftarrow> create_unknown_vector nd; populate_values f ns (vals(n \<mapsto> v)) }
       else do {
         operand_values \<leftarrow> those (map vals (node_operands nd));
         bindS (AbstractEvaluate TernaryEvaluator f create_unknown_vector nd operand_values) (\<lambda>v. populate_values f ns (vals(n \<mapsto> v)))
       }
     }
   }"

definition populate_node ::
    "(nat \<Rightarrow> ternary_vector option) \<Rightarrow> nat \<Rightarrow> reached_fixpoint \<times> ternary_query_engine \<Rightarrow> (reached_fixpoint \<times> ternary_query_engine) option" where
  "populate_node vals n s = (case s of (rf, e) \<Rightarrow> do {
     v \<leftarrow> vals n;
     let known = (case known_bits e n of Some k \<Rightarrow> k | None \<Rightarrow> Bits_new (length v));
     let value_bits = (if known_bits e n = None then Bits_new (length v) else case bits_values e n of Some b \<Rightarrow> b | None \<Rightarrow> Bits_new 0);
     combined_known_bits \<leftarrow> bits_Or known (TernaryVectorToKnownBits v);
     combined_bits_values \<leftarrow> bits_Or value_bits (TernaryVectorToValueBits v);
     let rf = (if \<not> Bits_eq combined_known_bits known \<or> \<not> Bits_eq combined_bits_values value_bits then Changed else rf);
     Some (rf, \<lparr>known_bits = (known_bits e)(n \<mapsto> combined_known_bits), bits_values = (bits_values e)(n \<mapsto> combined_bits_values)\<rparr>)
   })"

fun populate_nodes ::
    "(nat \<times> ir_node) list \<Rightarrow> (nat \<Rightarrow> ternary_vector option) \<Rightarrow> reached_fixpoint \<times> ternary_query_engine \<Rightarrow>
     (reached_fixpoint \<times> ternary_query_engine) option" where
  "populate_nodes [] vals s = Some s"
| "populate_nodes ((n, nd) # ns) vals s =
     (if Type_IsBits (node_type nd) then populate_node vals n s \<bind> populate_nodes ns vals else populate_nodes ns vals s)"

text \<open>\<open>return_value\<close> is the return value of a function, and \<open>None\<close> for procs and blocks.\<close>

definition TernaryQueryEngine_Populate ::
    "ir_function \<Rightarrow> nat option \<Rightarrow> ternary_query_engine \<Rightarrow> (reached_fixpoint \<times> ternary_query_engine) statusor option" where
  "TernaryQueryEngine_Populate f return_value e = do {
     order \<leftarrow> TopoSort f return_value;
     bindS (populate_values f order Map.empty) (\<lambda>vals. map_option Inr (populate_nodes (fn_nodes f) vals (Unchanged, e)))
   }"

section \<open>Queries\<close>

record tree_bit_location =
  loc_node :: nat
  loc_bit_index :: nat
  loc_tree_index :: "nat list"

definition bit_location :: "nat \<Rightarrow> nat \<Rightarrow> tree_bit_location" where
  "bit_location n i = \<lparr>loc_node = n, loc_bit_index = i, loc_tree_index = []\<rparr>"

definition IsTracked :: "ternary_query_engine \<Rightarrow> nat \<Rightarrow> bool" where
  "IsTracked e n \<longleftrightarrow> known_bits e n \<noteq> None"

definition GetTernary :: "ir_function \<Rightarrow> ternary_query_engine \<Rightarrow> nat \<Rightarrow> ternary_vector leaf_type_tree option" where
  "GetTernary f e n = do {
     t \<leftarrow> GetType f n;
     if \<not> Type_IsBits t then do {
       leaves \<leftarrow> LeafTypeTree_elements t (ltt_leaf_types (LeafTypeTree_init t ()));
       ltt_Map (\<lambda>type. replicate (Type_GetFlatBitCount type) kUnknown) leaves
     }
     else do {
       known \<leftarrow> known_bits e n;
       value_bits \<leftarrow> bits_values e n;
       ternary \<leftarrow> ternary_FromKnownBits known value_bits;
       ltt_Set (LeafTypeTree_init t []) [] ternary
     }
   }"

definition ternary_of :: "ir_function \<Rightarrow> ternary_query_engine \<Rightarrow> nat \<Rightarrow> ternary_vector option" where
  "ternary_of f e n = GetTernary f e n \<bind> (\<lambda>tree. ltt_Get tree [])"

definition vector_intervals :: "'b bn_api \<Rightarrow> ternary_vector \<Rightarrow> interval_set option" where
  "vector_intervals B vector = do {
     let min = map (\<lambda>t. case t of kKnownZero \<Rightarrow> False | kKnownOne \<Rightarrow> True | kUnknown \<Rightarrow> False) vector;
     let max = map (\<lambda>t. case t of kKnownZero \<Rightarrow> False | kKnownOne \<Rightarrow> True | kUnknown \<Rightarrow> True) vector;
     interval \<leftarrow> Interval (Bits_FromSpan min) (Bits_FromSpan max);
     interval_set \<leftarrow> IntervalSet_AddInterval (IntervalSet (length vector)) interval;
     IntervalSet_Normalize B interval_set
   }"

definition GetIntervals :: "'b bn_api \<Rightarrow> ir_function \<Rightarrow> ternary_query_engine \<Rightarrow> nat \<Rightarrow> interval_set leaf_type_tree option" where
  "GetIntervals B f e n = do {
     ternary \<leftarrow> GetTernary f e n;
     t \<leftarrow> GetType f n;
     elements \<leftarrow> those (map (vector_intervals B) (ltt_elements ternary));
     Some ((LeafTypeTree_init t IntervalSet_default)\<lparr>ltt_elements := elements\<rparr>)
   }"

definition IsKnown :: "ir_function \<Rightarrow> ternary_query_engine \<Rightarrow> tree_bit_location \<Rightarrow> bool option" where
  "IsKnown f e loc =
     (if \<not> IsTracked e (loc_node loc) then Some False
      else do {
        tree \<leftarrow> GetTernary f e (loc_node loc);
        v \<leftarrow> ltt_Get tree (loc_tree_index loc);
        t \<leftarrow> at_opt v (loc_bit_index loc);
        Some (t \<noteq> kUnknown)
      })"

definition known_bit :: "ir_function \<Rightarrow> ternary_query_engine \<Rightarrow> tree_bit_location \<Rightarrow> bool option" where
  "known_bit f e loc = do {
     tree \<leftarrow> GetTernary f e (loc_node loc);
     v \<leftarrow> ltt_Get tree (loc_tree_index loc);
     CHECK (loc_bit_index loc < length v);
     Some (Bits_Get (ternary_ToKnownBitsValues v) (loc_bit_index loc))
   }"

definition IsOne :: "ir_function \<Rightarrow> ternary_query_engine \<Rightarrow> tree_bit_location \<Rightarrow> bool option" where
  "IsOne f e loc = do { k \<leftarrow> IsKnown f e loc; if \<not> k then Some False else known_bit f e loc }"

definition IsZero :: "ir_function \<Rightarrow> ternary_query_engine \<Rightarrow> tree_bit_location \<Rightarrow> bool option" where
  "IsZero f e loc = do { k \<leftarrow> IsKnown f e loc; if \<not> k then Some False else map_option Not (known_bit f e loc) }"

definition IsMsbKnown :: "ir_function \<Rightarrow> ternary_query_engine \<Rightarrow> nat \<Rightarrow> bool option" where
  "IsMsbKnown f e n = do {
     t \<leftarrow> GetType f n;
     CHECK (Type_IsBits t);
     if \<not> IsTracked e n then Some False else do { v \<leftarrow> ternary_of f e n; Some (Bits_msb (ternary_ToKnownBits v)) }
   }"

definition GetKnownMsb :: "ir_function \<Rightarrow> ternary_query_engine \<Rightarrow> nat \<Rightarrow> bool option" where
  "GetKnownMsb f e n = do {
     t \<leftarrow> GetType f n;
     CHECK (Type_IsBits t);
     k \<leftarrow> IsMsbKnown f e n;
     CHECK k;
     v \<leftarrow> ternary_of f e n;
     Some (Bits_msb (ternary_ToKnownBitsValues v))
   }"

definition all_ternary :: "(ternary \<Rightarrow> bool) \<Rightarrow> ir_function \<Rightarrow> ternary_query_engine \<Rightarrow> nat \<Rightarrow> bool option" where
  "all_ternary p f e n = do {
     t \<leftarrow> GetType f n;
     CHECK (Type_IsBits t);
     if \<not> IsTracked e n then Some False else do { v \<leftarrow> ternary_of f e n; Some (list_all p v) }
   }"

definition IsAllZeros :: "ir_function \<Rightarrow> ternary_query_engine \<Rightarrow> nat \<Rightarrow> bool option" where
  "IsAllZeros = all_ternary (\<lambda>t. t = kKnownZero)"

definition IsAllOnes :: "ir_function \<Rightarrow> ternary_query_engine \<Rightarrow> nat \<Rightarrow> bool option" where
  "IsAllOnes = all_ternary (\<lambda>t. t = kKnownOne)"

definition AllBitsKnown :: "ir_function \<Rightarrow> ternary_query_engine \<Rightarrow> nat \<Rightarrow> bool option" where
  "AllBitsKnown = all_ternary (\<lambda>t. t \<noteq> kUnknown)"

definition AtMostOneTrue :: "ir_function \<Rightarrow> ternary_query_engine \<Rightarrow> tree_bit_location list \<Rightarrow> bool option" where
  "AtMostOneTrue f e locs = do {
     maybe_one \<leftarrow> those (map (\<lambda>loc. do { k \<leftarrow> IsKnown f e loc; if \<not> k then Some True else IsOne f e loc }) locs);
     Some (length (filter (\<lambda>b. b) maybe_one) \<le> 1)
   }"

fun AtLeastOneTrue :: "ir_function \<Rightarrow> ternary_query_engine \<Rightarrow> tree_bit_location list \<Rightarrow> bool option" where
  "AtLeastOneTrue f e [] = Some False"
| "AtLeastOneTrue f e (loc # locs) = do { b \<leftarrow> IsOne f e loc; if b then Some True else AtLeastOneTrue f e locs }"

definition KnownEquals :: "ir_function \<Rightarrow> ternary_query_engine \<Rightarrow> tree_bit_location \<Rightarrow> tree_bit_location \<Rightarrow> bool option" where
  "KnownEquals f e a b = do {
     ka \<leftarrow> IsKnown f e a;
     if \<not> ka then Some False else do {
       kb \<leftarrow> IsKnown f e b;
       if \<not> kb then Some False else do { x \<leftarrow> IsOne f e a; y \<leftarrow> IsOne f e b; Some (x = y) } }
   }"

definition KnownNotEquals :: "ir_function \<Rightarrow> ternary_query_engine \<Rightarrow> tree_bit_location \<Rightarrow> tree_bit_location \<Rightarrow> bool option" where
  "KnownNotEquals f e a b = do {
     ka \<leftarrow> IsKnown f e a;
     if \<not> ka then Some False else do {
       kb \<leftarrow> IsKnown f e b;
       if \<not> kb then Some False else do { x \<leftarrow> IsOne f e a; y \<leftarrow> IsOne f e b; Some (x \<noteq> y) } }
   }"

definition Implies :: "ir_function \<Rightarrow> ternary_query_engine \<Rightarrow> tree_bit_location \<Rightarrow> tree_bit_location \<Rightarrow> bool" where
  "Implies f e a b = False"

definition ImpliedNodeValue :: "ir_function \<Rightarrow> ternary_query_engine \<Rightarrow> (tree_bit_location \<times> bool) list \<Rightarrow> nat \<Rightarrow> bits option" where
  "ImpliedNodeValue f e predicate_bit_values n = None"

definition ToTreeBitLocations :: "ir_function \<Rightarrow> nat \<Rightarrow> tree_bit_location list option" where
  "ToTreeBitLocations f n = do { t \<leftarrow> GetType f n; w \<leftarrow> Type_AsBitsOrDie t; Some (map (bit_location n) [0..<w]) }"

definition ToTreeBitLocations_nodes :: "ir_function \<Rightarrow> nat list \<Rightarrow> tree_bit_location list option" where
  "ToTreeBitLocations_nodes f preds =
     those (map (\<lambda>n. do { t \<leftarrow> GetType f n; w \<leftarrow> Type_AsBitsOrDie t; CHECK (w = 1); Some (bit_location n 0) }) preds)"

definition AtMostOneNodeTrue :: "ir_function \<Rightarrow> ternary_query_engine \<Rightarrow> nat list \<Rightarrow> bool option" where
  "AtMostOneNodeTrue f e preds = ToTreeBitLocations_nodes f preds \<bind> AtMostOneTrue f e"

definition AtLeastOneNodeTrue :: "ir_function \<Rightarrow> ternary_query_engine \<Rightarrow> nat list \<Rightarrow> bool option" where
  "AtLeastOneNodeTrue f e preds = ToTreeBitLocations_nodes f preds \<bind> AtLeastOneTrue f e"

definition AtMostOneBitTrue :: "ir_function \<Rightarrow> ternary_query_engine \<Rightarrow> nat \<Rightarrow> bool option" where
  "AtMostOneBitTrue f e n = ToTreeBitLocations f n \<bind> AtMostOneTrue f e"

definition AtLeastOneBitTrue :: "ir_function \<Rightarrow> ternary_query_engine \<Rightarrow> nat \<Rightarrow> bool option" where
  "AtLeastOneBitTrue f e n = ToTreeBitLocations f n \<bind> AtLeastOneTrue f e"

definition MaxUnsignedValue :: "ir_function \<Rightarrow> ternary_query_engine \<Rightarrow> nat \<Rightarrow> bits option" where
  "MaxUnsignedValue f e n = do {
     t \<leftarrow> GetType f n;
     w \<leftarrow> Type_AsBitsOrDie t;
     zs \<leftarrow> those (map (\<lambda>i. IsZero f e (bit_location n i)) [0..<w]);
     Some (Bits_FromSpan (map Not zs))
   }"

definition MinUnsignedValue :: "ir_function \<Rightarrow> ternary_query_engine \<Rightarrow> nat \<Rightarrow> bits option" where
  "MinUnsignedValue f e n = do {
     t \<leftarrow> GetType f n;
     w \<leftarrow> Type_AsBitsOrDie t;
     ones \<leftarrow> those (map (\<lambda>i. IsOne f e (bit_location n i)) [0..<w]);
     Some (Bits_FromSpan ones)
   }"

definition get_known_bit :: "ir_function \<Rightarrow> ternary_query_engine \<Rightarrow> nat \<Rightarrow> nat \<Rightarrow> nat \<Rightarrow> ternary option" where
  "get_known_bit f e n w index =
     (if index \<ge> w then Some kKnownZero
      else do {
        z \<leftarrow> IsZero f e (bit_location n index);
        if z then Some kKnownZero
        else do { one \<leftarrow> IsOne f e (bit_location n index); Some (if one then kKnownOne else kUnknown) }
      })"

fun NotEquals_loop :: "ir_function \<Rightarrow> ternary_query_engine \<Rightarrow> nat \<Rightarrow> nat \<Rightarrow> nat \<Rightarrow> nat \<Rightarrow> nat list \<Rightarrow> bool option" where
  "NotEquals_loop f e a wa b wb [] = Some False"
| "NotEquals_loop f e a wa b wb (i # is) = do {
     a_bit \<leftarrow> get_known_bit f e a wa i;
     b_bit \<leftarrow> get_known_bit f e b wb i;
     if a_bit \<noteq> b_bit \<and> a_bit \<noteq> kUnknown \<and> b_bit \<noteq> kUnknown then Some True else NotEquals_loop f e a wa b wb is
   }"

definition NodesKnownUnsignedNotEquals :: "ir_function \<Rightarrow> ternary_query_engine \<Rightarrow> nat \<Rightarrow> nat \<Rightarrow> bool option" where
  "NodesKnownUnsignedNotEquals f e a b = do {
     ta \<leftarrow> GetType f a; wa \<leftarrow> Type_AsBitsOrDie ta;
     tb \<leftarrow> GetType f b; wb \<leftarrow> Type_AsBitsOrDie tb;
     NotEquals_loop f e a wa b wb [0..<max wa wb]
   }"

definition NodesKnownUnsignedEquals :: "ir_function \<Rightarrow> ternary_query_engine \<Rightarrow> nat \<Rightarrow> nat \<Rightarrow> bool option" where
  "NodesKnownUnsignedEquals f e a b = do {
     ta \<leftarrow> GetType f a; CHECK (Type_IsBits ta);
     tb \<leftarrow> GetType f b; CHECK (Type_IsBits tb);
     a_ternary \<leftarrow> ternary_of f e a;
     b_ternary \<leftarrow> ternary_of f e b;
     if a = b then Some True
     else do {
       ka \<leftarrow> AllBitsKnown f e a;
       if \<not> ka then Some False else do {
         kb \<leftarrow> AllBitsKnown f e b;
         if \<not> kb then Some False
         else Some (bits_UEqual (ternary_ToKnownBitsValues a_ternary) (ternary_ToKnownBitsValues b_ternary)) } }
   }"

definition QueryEngine_ToString :: "ir_function \<Rightarrow> ternary_query_engine \<Rightarrow> nat \<Rightarrow> string option" where
  "QueryEngine_ToString f e n = do {
     t \<leftarrow> GetType f n;
     CHECK (Type_IsBits t);
     CHECK (IsTracked e n);
     v \<leftarrow> ternary_of f e n;
     Some (TernaryVector_ToString v)
   }"

section \<open>The values computed by Populate\<close>

text \<open>The vector of a node stands for the bits the node has at the end of a run.\<close>

definition stands_in :: "interp \<Rightarrow> nat \<Rightarrow> ternary_vector \<Rightarrow> bool" where
  "stands_in st n ts \<longleftrightarrow> (\<exists>bs. result_is n st bs \<and> bs \<in> concretions ts)"

lemma rep_unique: "rep b as \<Longrightarrow> rep b bs \<Longrightarrow> as = bs"
  by (simp add: rep_def)

lemma result_is_unique: "result_is n st as \<Longrightarrow> result_is n st bs \<Longrightarrow> as = bs"
  by (auto simp: result_is_def dest: rep_unique)

lemma result_is_later: "result_is n st bs \<Longrightarrow> node_values st \<subseteq>\<^sub>m node_values st' \<Longrightarrow> result_is n st' bs"
  by (force simp: result_is_def map_le_def)

lemma unknown_stands_in:
  assumes "fn_env B num call pkg channels f" and "run_of B call pkg f st" and "GetType f n = Some (BitsType w)"
  shows "stands_in st n (replicate w kUnknown)"
  using run_bits[OF assms] by (auto simp: stands_in_def result_is_def concretions_def list_all2_conv_all_nth)

text \<open>The state of a visit, seen from the end of the run.\<close>

lemma visit_operands:
  assumes env: "fn_env B num call pkg channels f" and vis: "visited_in h f st n" and nd: "GetNode f n = Some nd"
    and bits: "\<And>a. a \<in> set (node_operands nd) \<Longrightarrow> \<exists>u bs. GetType f a = Some (BitsType u) \<and> result_is a st bs"
  obtains st0 st1 where "h n nd st0 = returnS st1" "node_values st1 \<subseteq>\<^sub>m node_values st"
    "\<forall>a bs. a \<in> set (node_operands nd) \<longrightarrow> result_is a st bs \<longrightarrow> result_is a st0 bs"
    "\<forall>bs. sets_value nd \<longrightarrow> result_is n st bs \<longrightarrow> result_is n st1 bs"
proof -
  obtain V st0 st1 where v: "ready f V n nd st0" "set (node_operands nd) \<inter> valued f \<subseteq> V" "h n nd st0 = returnS st1"
      "typed_state f (if sets_value nd then insert n V else V) st1" "node_values st0 \<subseteq>\<^sub>m node_values st" "node_values st1 \<subseteq>\<^sub>m node_values st"
    using vis nd by (auto simp: visited_in_def ready_def)
  have op: "result_is a st0 bs" if a: "a \<in> set (node_operands nd)" "result_is a st bs" for a bs
  proof -
    obtain u an where an: "GetNode f a = Some an" "node_type an = BitsType u" using bits[OF a(1)] by (auto simp: GetType_def)
    then have "a \<in> valued f" using bits_node_sets_value[OF fn_env_node(1)[OF env an(1)] an(2)] by (simp add: valued_def has_result_def)
    then have "a \<in> V" using v(2) a(1) by blast
    then obtain x where x: "node_values st0 a = Some x" using v(1) unfolding ready_def typed_state_def by blast
    then have "node_values st a = Some x" using v(5) by (force simp: map_le_def)
    then show ?thesis using x a(2) by (simp add: result_is_def)
  qed
  have res: "result_is n st1 bs" if s: "sets_value nd" "result_is n st bs" for bs
  proof -
    obtain x where x: "node_values st1 n = Some x" using v(4) s(1) unfolding typed_state_def by auto
    then have "node_values st n = Some x" using v(6) by (force simp: map_le_def)
    then show ?thesis using x s(2) by (simp add: result_is_def)
  qed
  show ?thesis using that v(3,6) op res by blast
qed

lemma one_hot_run:
  assumes env: "fn_env B num call pkg channels f" and run: "run_of B call pkg f st" and nd: "GetNode f n = Some nd" and op: "node_op nd = OneHot priority"
    and res: "result_is n st bs"
  shows "True \<in> set bs"
proof -
  have ok: "NodeChecker_HandleOneHot f nd = returnS ()" using fn_env_node(1)[OF env nd] op by (simp add: NodeChecker_Visit_def)
  then obtain a u where a: "node_operands nd = [a]" "GetType f a = Some (BitsType u)"
    by (auto simp: NodeChecker_HandleOneHot_def expect_iff bind_returnS_iff operand_type_def operand_def at_opt_def length_Suc_conv)
  obtain b as where as: "node_values st a = Some (VBits b)" "rep b as" "length as = u" using run_bits[OF env run a(2)] by blast
  then have ra: "result_is a st as" by (auto simp: result_is_def)
  obtain args where "\<And>n. n \<in> node_ids f \<Longrightarrow> visited_in (IrInterpreter_Visit B call pkg (FunctionInterpreter_HandleParam f args) f) f st n"
    using run_of_visits[OF env run] by blast
  then have vis: "visited_in (IrInterpreter_Visit B call pkg (FunctionInterpreter_HandleParam f args) f) f st n" using nd GetNode_ids by blast
  have bits: "\<exists>u bs. GetType f x = Some (BitsType u) \<and> result_is x st bs" if "x \<in> set (node_operands nd)" for x using that a ra by auto
  obtain st0 st1 where v: "IrInterpreter_Visit B call pkg (FunctionInterpreter_HandleParam f args) f n nd st0 = returnS st1"
      "node_values st1 \<subseteq>\<^sub>m node_values st" "\<forall>a bs. a \<in> set (node_operands nd) \<longrightarrow> result_is a st bs \<longrightarrow> result_is a st0 bs"
      "\<forall>bs. sets_value nd \<longrightarrow> result_is n st bs \<longrightarrow> result_is n st1 bs"
    by (rule visit_operands[OF env vis nd bits])
  have reps: "operand_reps st0 nd [as]" using v(3) ra a(1) by (simp add: operand_reps_def result_is_def)
  have ty: "operand_type f nd 0 = Some (BitsType (length as))" using a as(3) by (simp add: operand_type_def operand_def at_opt_def)
  obtain rs where "result_is n st1 rs" "True \<in> set rs"
    using sound_logic.OneHot_result[OF te.sound_logic_axioms ok reps ty, of priority n st1] v(1) op by (auto simp: IrInterpreter_Visit_def)
  then show ?thesis using result_is_unique[OF res result_is_later[OF _ v(2)]] by blast
qed

lemma operand_concretions:
  assumes env: "fn_env B num call pkg channels f" and run: "run_of B call pkg f st"
    and ops: "list_all2 (\<lambda>a x. stands_in st a x \<and> (\<exists>u. GetType f a = Some (BitsType u))) as xs"
  shows "\<exists>bss. list_all2 (\<lambda>a bs. result_is a st bs \<and> GetType f a = Some (BitsType (length bs))) as bss \<and> list_all2 (list_all2 stands_for) xs bss"
  using ops
proof (induction rule: list_all2_induct)
  case (Cons a as x xs)
  then obtain bss where bss: "list_all2 (\<lambda>a bs. result_is a st bs \<and> GetType f a = Some (BitsType (length bs))) as bss"
      "list_all2 (list_all2 stands_for) xs bss" by blast
  obtain bs u where bs: "result_is a st bs" "list_all2 stands_for x bs" "GetType f a = Some (BitsType u)"
    using Cons.hyps(1) by (auto simp: stands_in_def concretions_def)
  obtain cs where "result_is a st cs" "length cs = u" using run_bits[OF env run bs(3)] by (auto simp: result_is_def)
  then have "length bs = u" using result_is_unique[OF bs(1)] by simp
  then show ?case using bs bss by (intro exI[of _ "bs # bss"]) simp
qed simp

lemma Evaluate_stands_in:
  assumes env: "fn_env B num call pkg channels f" and run: "run_of B call pkg f st" and nd: "GetNode f n = Some nd"
    and ty: "node_type nd = BitsType w" and an: "analysable f nd"
    and ops: "list_all2 (\<lambda>a x. stands_in st a x \<and> (\<exists>u. GetType f a = Some (BitsType u))) (node_operands nd) xs"
  shows "\<exists>v. AbstractEvaluate TernaryEvaluator f create_unknown_vector nd xs = returnS v \<and> stands_in st n v"
proof -
  have B: "bignum B num" using env by (simp add: fn_env_def)
  obtain bss where bss: "list_all2 (\<lambda>a bs. result_is a st bs \<and> GetType f a = Some (BitsType (length bs))) (node_operands nd) bss"
      "list_all2 (list_all2 stands_for) xs bss" using operand_concretions[OF env run ops] by blast
  obtain args where "\<And>n. n \<in> node_ids f \<Longrightarrow> visited_in (IrInterpreter_Visit B call pkg (FunctionInterpreter_HandleParam f args) f) f st n"
    using run_of_visits[OF env run] by blast
  then have vis: "visited_in (IrInterpreter_Visit B call pkg (FunctionInterpreter_HandleParam f args) f) f st n" using nd GetNode_ids by blast
  have bits: "\<exists>u bs. GetType f a = Some (BitsType u) \<and> result_is a st bs" if "a \<in> set (node_operands nd)" for a
    using that bss(1) by (fastforce simp: list_all2_conv_all_nth in_set_conv_nth)
  obtain st0 st1 where v: "IrInterpreter_Visit B call pkg (FunctionInterpreter_HandleParam f args) f n nd st0 = returnS st1"
      "node_values st1 \<subseteq>\<^sub>m node_values st" "\<forall>a bs. a \<in> set (node_operands nd) \<longrightarrow> result_is a st bs \<longrightarrow> result_is a st0 bs"
      "\<forall>bs. sets_value nd \<longrightarrow> result_is n st bs \<longrightarrow> result_is n st1 bs"
    by (rule visit_operands[OF env vis nd bits])
  have "list_all2 (\<lambda>a bs. result_is a st0 bs \<and> GetType f a = Some (BitsType (length bs))) (node_operands nd) bss"
    using bss(1) v(3) by (auto intro: list_all2_mono[THEN list.rel_mono_strong] simp: list_all2_conv_all_nth)
  then have ev: "evaluated stands_for f nd st0 xs bss" using bss(2) by (auto simp: evaluated_def operand_reps_def result_is_def list_all2_conv_all_nth)
  have hot: "bits_selector f nd (hd bss)" if "bss \<noteq> []"
  proof -
    obtain a as where a: "node_operands nd = a # as" "result_is a st (hd bss)" using bss(1) \<open>bss \<noteq> []\<close> by (cases bss) (auto simp: list_all2_Cons2)
    have "True \<in> set (hd bss)" if sel: "selector_is_OneHot f nd = Some True"
    proof -
      obtain s p where "GetNode f a = Some s" "node_op s = OneHot p"
        using sel a(1) by (auto simp: selector_is_OneHot_def operand_def at_opt_def split: Option.bind_splits ir_op.splits)
      then show ?thesis using one_hot_run[OF env run _ _ a(2)] by blast
    qed
    then show ?thesis by (simp add: bits_selector_def)
  qed
  obtain rs where rs: "result_is n st rs" "length rs = w" using run_bits[OF env run, of n w] nd ty by (auto simp: result_is_def GetType_def)
  have dflt: "yields (list_all2 stands_for) (create_unknown_vector nd) bs" if "length bs = w" for bs
    using that ty by (auto simp: yields_def create_unknown_vector_def BitCountOrDie_def Type_AsBitsOrDie_def list_all2_conv_all_nth)
  note node = fn_env_node[OF env nd]
  have res: "result_is n st1 rs" using v(4) bits_node_sets_value[OF node(1) ty] rs(1) by blast
  have "simulates stands_for (AbstractEvaluate TernaryEvaluator f create_unknown_vector nd xs) n st1"
    by (rule sound_logic.AbstractEvaluate_simulates[OF te.sound_logic_axioms B node(1,2) an node(4) ty ev hot v(1)
          res rs(2), where default_handler = create_unknown_vector]) (simp_all add: dflt)
  then show ?thesis using result_is_later[OF _ v(2)] by (auto simp: simulates_def yieldsS_def stands_in_def concretions_def)
qed

text \<open>Every node of a bits type in \<open>V\<close> has a vector of its width that stands for its bits in every run.\<close>

definition values_sound :: "'b bn_api \<Rightarrow> interp_call \<Rightarrow> ir_package \<Rightarrow> ir_function \<Rightarrow> nat set \<Rightarrow> (nat \<Rightarrow> ternary_vector option) \<Rightarrow> bool" where
  "values_sound B call pkg f V vals \<longleftrightarrow> (\<forall>n\<in>V. \<forall>w. GetType f n = Some (BitsType w) \<longrightarrow>
     (\<exists>v. vals n = Some v \<and> length v = w \<and> (\<forall>st. run_of B call pkg f st \<longrightarrow> stands_in st n v)))"

lemma values_sound_set:
  assumes "values_sound B call pkg f V vals"
    and "\<And>w. GetType f n = Some (BitsType w) \<Longrightarrow> length v = w \<and> (\<forall>st. run_of B call pkg f st \<longrightarrow> stands_in st n v)"
  shows "values_sound B call pkg f (insert n V) (vals(n \<mapsto> v))"
  using assms by (simp add: values_sound_def)

lemma stands_in_length:
  assumes "fn_env B num call pkg channels f" and "run_of B call pkg f st" and "GetType f n = Some (BitsType w)" and "stands_in st n v"
  shows "length v = w"
proof -
  obtain bs where "result_is n st bs" "length bs = w" using run_bits[OF assms(1-3)] by (auto simp: result_is_def)
  then show ?thesis using assms(4) result_is_unique by (fastforce simp: stands_in_def concretions_def dest: list_all2_lengthD)
qed

lemma Evaluate_every_run:
  assumes env: "fn_env B num call pkg channels f" and nd: "GetNode f n = Some nd" and ty: "node_type nd = BitsType w" and an: "analysable f nd"
    and V: "values_sound B call pkg f V vals" "set (node_operands nd) \<subseteq> V" and bits: "\<forall>a\<in>set (node_operands nd). \<exists>u. GetType f a = Some (BitsType u)"
  shows "\<exists>xs v. those (map vals (node_operands nd)) = Some xs \<and> AbstractEvaluate TernaryEvaluator f create_unknown_vector nd xs = returnS v \<and>
    length v = w \<and> (\<forall>st. run_of B call pkg f st \<longrightarrow> stands_in st n v)"
proof -
  have "\<forall>a\<in>set (node_operands nd). \<exists>x. vals a = Some x \<and> (\<forall>st. run_of B call pkg f st \<longrightarrow> stands_in st a x)"
    using V bits unfolding values_sound_def by blast
  then obtain g where g: "\<And>a. a \<in> set (node_operands nd) \<Longrightarrow> vals a = Some (g a)"
      "\<And>a st. a \<in> set (node_operands nd) \<Longrightarrow> run_of B call pkg f st \<Longrightarrow> stands_in st a (g a)" by metis
  let ?xs = "map g (node_operands nd)"
  have eval: "\<exists>v. AbstractEvaluate TernaryEvaluator f create_unknown_vector nd ?xs = returnS v \<and> stands_in st n v" if "run_of B call pkg f st" for st
    using Evaluate_stands_in[OF env that nd ty an, of ?xs] g(2)[OF _ that] bits by (simp add: list_all2_conv_all_nth)
  obtain args where "args_typed f args" using args_exist[OF env] by blast
  then obtain st where st: "run_of B call pkg f st" using run_exists[OF env] by blast
  obtain v where v: "AbstractEvaluate TernaryEvaluator f create_unknown_vector nd ?xs = returnS v" "stands_in st n v" using eval[OF st] by blast
  have "length v = w" using stands_in_length[OF env st _ v(2)] nd ty by (simp add: GetType_def)
  moreover have "\<forall>st. run_of B call pkg f st \<longrightarrow> stands_in st n v" using eval v(1) by (auto simp: returnS_def)
  ultimately show ?thesis using v(1) those_map_cong[of "node_operands nd" vals g] g(1) by blast
qed

lemma populate_values_sound:
  assumes env: "fn_env B num call pkg channels f" and an: "list_all (\<lambda>(n, nd). analysable f nd) (fn_nodes f)"
  shows "topological f V ns \<Longrightarrow> values_sound B call pkg f V vals \<Longrightarrow>
    \<exists>vals'. populate_values f ns vals = returnS vals' \<and> values_sound B call pkg f (V \<union> set ns) vals'"
proof (induction ns arbitrary: V vals)
  case (Cons n ns)
  obtain nd where nd: "GetNode f n = Some nd" "set (node_operands nd) \<subseteq> V" "topological f (insert n V) ns"
    using Cons.prems(1) by (auto split: option.splits)
  have step: ?case if "populate_values f (n # ns) vals = populate_values f ns vals'" "values_sound B call pkg f (insert n V) vals'" for vals'
    using Cons.IH[OF nd(3) that(2)] that(1) by simp
  have skip: ?case if "\<not> Type_IsBits (node_type nd)"
    using that nd(1) Cons.prems(2) by (intro step[of vals]) (auto simp: values_sound_def GetType_def)
  have "\<exists>t. GetType f a = Some t" if "a \<in> set (node_operands nd)" for a
    using that fn_env_node(3)[OF env nd(1)] GetNode_ids[of a f] by (auto simp: GetType_def)
  then obtain g where g: "\<And>a. a \<in> set (node_operands nd) \<Longrightarrow> GetType f a = Some (g a)" by metis
  then have types: "those (map (GetType f) (node_operands nd)) = Some (map g (node_operands nd))" by (rule those_map_cong)
  show ?case
  proof (cases "node_type nd")
    case (BitsType w)
    show ?thesis
    proof (cases "IsExpensiveToEvaluate nd \<or> list_ex (\<lambda>t. \<not> Type_IsBits t) (map g (node_operands nd))")
      case True
      have "create_unknown_vector nd = Some (replicate w kUnknown)" by (simp add: create_unknown_vector_def BitCountOrDie_def Type_AsBitsOrDie_def BitsType)
      moreover have "values_sound B call pkg f (insert n V) (vals(n \<mapsto> replicate w kUnknown))"
        using unknown_stands_in[OF env] nd(1) BitsType by (intro values_sound_set[OF Cons.prems(2)]) (auto simp: GetType_def)
      ultimately show ?thesis using True types nd(1) BitsType by (intro step) simp_all
    next
      case False
      then have bits: "\<forall>a\<in>set (node_operands nd). \<exists>u. GetType f a = Some (BitsType u)"
        using g by (fastforce simp: list_ex_iff elim: Type_IsBitsE)
      have "analysable f nd" using an GetNode_in[OF nd(1)] by (auto simp: list_all_iff)
      from Evaluate_every_run[OF env nd(1) BitsType this Cons.prems(2) nd(2) bits]
      obtain xs v where v: "those (map vals (node_operands nd)) = Some xs" "AbstractEvaluate TernaryEvaluator f create_unknown_vector nd xs = returnS v"
        "length v = w" "\<forall>st. run_of B call pkg f st \<longrightarrow> stands_in st n v" by blast
      have "values_sound B call pkg f (insert n V) (vals(n \<mapsto> v))"
        using v(3,4) nd(1) BitsType by (intro values_sound_set[OF Cons.prems(2)]) (auto simp: GetType_def)
      then show ?thesis using False types nd(1) BitsType v(1,2) by (intro step) simp_all
    qed
  qed (rule skip, simp)+
qed simp

section \<open>The engine\<close>

text \<open>The ternary vector that the two bit maps of the engine hold for a node.\<close>

definition known_vector :: "bool list \<Rightarrow> bool list \<Rightarrow> ternary_vector" where
  "known_vector ks vs = map2 (\<lambda>k v. if k then known v else kUnknown) ks vs"

definition engine_vector :: "ternary_query_engine \<Rightarrow> nat \<Rightarrow> ternary_vector \<Rightarrow> bool" where
  "engine_vector e n ts \<longleftrightarrow> (\<exists>k v ks vs. known_bits e n = Some k \<and> bits_values e n = Some v \<and> rep k ks \<and> rep v vs \<and>
     list_all2 (\<lambda>v k. v \<longrightarrow> k) vs ks \<and> ts = known_vector ks vs)"

definition engine_sound :: "'b bn_api \<Rightarrow> interp_call \<Rightarrow> ir_package \<Rightarrow> ir_function \<Rightarrow> ternary_query_engine \<Rightarrow> bool" where
  "engine_sound B call pkg f e \<longleftrightarrow> (\<forall>n. IsTracked e n \<longrightarrow> (\<exists>w ts. GetType f n = Some (BitsType w) \<and> engine_vector e n ts \<and> length ts = w \<and>
     (\<forall>st. run_of B call pkg f st \<longrightarrow> stands_in st n ts)))"

lemma engine_sound_new: "engine_sound B call pkg f TernaryQueryEngine_new"
  by (simp add: engine_sound_def IsTracked_def TernaryQueryEngine_new_def)

definition combined :: "ternary \<Rightarrow> ternary \<Rightarrow> ternary" where
  "combined s t = (if s = kUnknown then t else if t = kUnknown then s else ternary_Or s t)"

lemma combined_stands_for: "stands_for s b \<Longrightarrow> stands_for t b \<Longrightarrow> stands_for (combined s t) b"
  by (cases s; cases t) (simp_all add: combined_def ternary_Or_def)

lemma combined_vector:
  assumes "list_all2 (\<lambda>v k. v \<longrightarrow> k) vs ks" and "length ts = length ks"
  shows "known_vector (map2 (\<or>) ks (map (\<lambda>t. t = kKnownOne \<or> t = kKnownZero) ts)) (map2 (\<or>) vs (map (\<lambda>t. t = kKnownOne) ts)) =
      map2 combined (known_vector ks vs) ts"
    and "list_all2 (\<lambda>v k. v \<longrightarrow> k) (map2 (\<or>) vs (map (\<lambda>t. t = kKnownOne) ts)) (map2 (\<or>) ks (map (\<lambda>t. t = kKnownOne \<or> t = kKnownZero) ts))"
proof -
  have bit: "(if k \<or> t = kKnownOne \<or> t = kKnownZero then known (v \<or> t = kKnownOne) else kUnknown) =
      combined (if k then known v else kUnknown) t" if "v \<longrightarrow> k" for k v t
    using that by (cases t) (auto simp: combined_def known_def ternary_Or_def)
  show "known_vector (map2 (\<or>) ks (map (\<lambda>t. t = kKnownOne \<or> t = kKnownZero) ts)) (map2 (\<or>) vs (map (\<lambda>t. t = kKnownOne) ts)) =
      map2 combined (known_vector ks vs) ts"
    using assms bit by (intro nth_equalityI) (simp_all add: known_vector_def list_all2_conv_all_nth)
  show "list_all2 (\<lambda>v k. v \<longrightarrow> k) (map2 (\<or>) vs (map (\<lambda>t. t = kKnownOne) ts)) (map2 (\<or>) ks (map (\<lambda>t. t = kKnownOne \<or> t = kKnownZero) ts))"
    using assms by (auto simp: list_all2_conv_all_nth)
qed

lemma known_vector_inj:
  assumes "list_all2 (\<lambda>v k. v \<longrightarrow> k) vs ks" and "list_all2 (\<lambda>v k. v \<longrightarrow> k) vs' ks'"
  shows "known_vector ks vs = known_vector ks' vs' \<longleftrightarrow> ks = ks' \<and> vs = vs'"
proof
  assume eq: "known_vector ks vs = known_vector ks' vs'"
  then have "length (known_vector ks vs) = length (known_vector ks' vs')" by simp
  then have len: "length ks = length ks'" "length vs = length ks" "length vs' = length ks"
    using assms by (auto simp: known_vector_def dest!: list_all2_lengthD)
  have "ks ! i = ks' ! i \<and> vs ! i = vs' ! i" if "i < length ks" for i
    using that arg_cong[OF eq, of "\<lambda>l. l ! i"] assms len by (auto simp: known_vector_def list_all2_conv_all_nth known_def split: if_splits)
  then show "ks = ks' \<and> vs = vs'" using len by (auto intro: nth_equalityI)
qed simp

lemma combined_again: "combined (combined s t) t = combined s t"
  by (cases s; cases t) (simp_all add: combined_def ternary_Or_def)

lemma stands_in_combined:
  assumes "stands_in st n ss" and "stands_in st n ts"
  shows "stands_in st n (map2 combined ss ts)"
proof -
  obtain bs cs where bs: "result_is n st bs" "list_all2 stands_for ss bs" "result_is n st cs" "list_all2 stands_for ts cs"
    using assms by (auto simp: stands_in_def concretions_def)
  then have "cs = bs" using result_is_unique by blast
  then show ?thesis using bs by (auto simp: stands_in_def concretions_def list_all2_conv_all_nth intro!: exI[of _ bs] combined_stands_for)
qed

text \<open>\<open>populate_node\<close> combines the vector of the engine with the new one; a node the engine does not track starts with unknown bits.\<close>

lemma populate_node_vector:
  assumes "vals n = Some ts" and "if IsTracked e n then engine_vector e n ss else ss = replicate (length ts) kUnknown" and "length ss = length ts"
  shows "\<exists>rf' e'. populate_node vals n (rf, e) = Some (rf', e') \<and> engine_vector e' n (map2 combined ss ts) \<and>
    (\<forall>m. m \<noteq> n \<longrightarrow> known_bits e' m = known_bits e m \<and> bits_values e' m = bits_values e m) \<and>
    rf' = (if map2 combined ss ts = ss then rf else Changed)"
proof -
  define k where "k = (case known_bits e n of Some k \<Rightarrow> k | None \<Rightarrow> Bits_new (length ts))"
  define v where "v = (if known_bits e n = None then Bits_new (length ts) else case bits_values e n of Some b \<Rightarrow> b | None \<Rightarrow> Bits_new 0)"
  obtain ks vs where kv: "rep k ks" "rep v vs" "list_all2 (\<lambda>v k. v \<longrightarrow> k) vs ks" "ss = known_vector ks vs"
  proof (cases "IsTracked e n")
    case True
    then show ?thesis using that assms(2) by (auto simp: engine_vector_def k_def v_def)
  next
    case False
    then have "k = Bits_new (length ts)" "v = Bits_new (length ts)" by (simp_all add: k_def v_def IsTracked_def)
    moreover have "ss = known_vector (replicate (length ts) False) (replicate (length ts) False)"
      using False assms(2) by (auto simp: known_vector_def intro: nth_equalityI)
    ultimately show ?thesis using that rep_new by (auto simp: list_all2_conv_all_nth)
  qed
  have len: "length ks = length ts" "length vs = length ts" using kv(3,4) assms(3) by (auto simp: known_vector_def dest: list_all2_lengthD)
  obtain k' v' where r: "bits_Or k (TernaryVectorToKnownBits ts) = Some k'" "rep k' (map2 (\<or>) ks (map (\<lambda>t. t = kKnownOne \<or> t = kKnownZero) ts))"
      "bits_Or v (TernaryVectorToValueBits ts) = Some v'" "rep v' (map2 (\<or>) vs (map (\<lambda>t. t = kKnownOne) ts))"
    using returns_Or[OF kv(1) rep_FromSpan, of "map (\<lambda>t. t = kKnownOne \<or> t = kKnownZero) ts"]
      returns_Or[OF kv(2) rep_FromSpan, of "map (\<lambda>t. t = kKnownOne) ts"] len
    by (auto simp: TernaryVectorToKnownBits_def TernaryVectorToValueBits_def returns_def)
  let ?rf = "if \<not> Bits_eq k' k \<or> \<not> Bits_eq v' v then Changed else rf"
  let ?e = "\<lparr>known_bits = (known_bits e)(n \<mapsto> k'), bits_values = (bits_values e)(n \<mapsto> v')\<rparr>"
  have "populate_node vals n (rf, e) = Some (?rf, ?e)"
    using r(1,3) assms(1) unfolding populate_node_def k_def v_def by (simp add: Let_def)
  moreover have "engine_vector ?e n (map2 combined ss ts)"
    unfolding engine_vector_def kv(4) combined_vector(1)[OF kv(3) len(1)[symmetric], symmetric]
    using r(2,4) combined_vector(2)[OF kv(3) len(1)[symmetric]] by auto
  moreover have "map2 combined ss ts = ss \<longleftrightarrow> Bits_eq k' k \<and> Bits_eq v' v"
    unfolding rep_eq[OF r(2) kv(1)] rep_eq[OF r(4) kv(2)] kv(4) combined_vector(1)[OF kv(3) len(1)[symmetric], symmetric]
    by (rule known_vector_inj[OF combined_vector(2)[OF kv(3) len(1)[symmetric]] kv(3)])
  ultimately show ?thesis by (intro exI[of _ ?rf] exI[of _ ?e]) auto
qed

text \<open>The nodes of a bits type, and the vector with which a pass over the nodes starts.\<close>

definition bits_nodes :: "(nat \<times> ir_node) list \<Rightarrow> nat set" where
  "bits_nodes ns = {n. \<exists>nd. (n, nd) \<in> set ns \<and> Type_IsBits (node_type nd)}"

definition starts_with :: "ternary_query_engine \<Rightarrow> nat \<Rightarrow> ternary_vector \<Rightarrow> bool" where
  "starts_with e n ss \<longleftrightarrow> (if IsTracked e n then engine_vector e n ss else ss = replicate (length ss) kUnknown)"

lemma engine_vector_cong:
  "known_bits e' n = known_bits e n \<Longrightarrow> bits_values e' n = bits_values e n \<Longrightarrow> engine_vector e' n ts \<longleftrightarrow> engine_vector e n ts"
  by (simp add: engine_vector_def)

lemma bits_nodes_Cons: "bits_nodes ((n, nd) # ns) = (if Type_IsBits (node_type nd) then insert n (bits_nodes ns) else bits_nodes ns)"
  by (auto simp: bits_nodes_def)

definition populated ::
    "nat set \<Rightarrow> (nat \<Rightarrow> ternary_vector) \<Rightarrow> (nat \<Rightarrow> ternary_vector) \<Rightarrow> reached_fixpoint \<times> ternary_query_engine \<Rightarrow>
     reached_fixpoint \<times> ternary_query_engine \<Rightarrow> bool" where
  "populated N sv tv s r \<longleftrightarrow> (\<forall>n\<in>N. engine_vector (snd r) n (map2 combined (sv n) (tv n))) \<and>
     (\<forall>m. m \<notin> N \<longrightarrow> known_bits (snd r) m = known_bits (snd s) m \<and> bits_values (snd r) m = bits_values (snd s) m) \<and>
     fst r = (if \<forall>n\<in>N. map2 combined (sv n) (tv n) = sv n then fst s else Changed)"

lemma populate_nodes_vectors:
  assumes "distinct (map fst ns)" and "\<forall>n\<in>bits_nodes ns. vals n = Some (tv n) \<and> starts_with e n (sv n) \<and> length (sv n) = length (tv n)"
  shows "\<exists>rf' e'. populate_nodes ns vals (rf, e) = Some (rf', e') \<and> populated (bits_nodes ns) sv tv (rf, e) (rf', e')"
  using assms
proof (induction ns arbitrary: rf e)
  case (Cons p ns)
  obtain n nd where p: "p = (n, nd)" by (cases p)
  have dist: "distinct (map fst ns)" "n \<notin> bits_nodes ns" using Cons.prems(1) p by (force simp: bits_nodes_def)+
  show ?case
  proof (cases "Type_IsBits (node_type nd)")
    case True
    have n: "vals n = Some (tv n)" "starts_with e n (sv n)" "length (sv n) = length (tv n)" using Cons.prems(2) p True by (simp_all add: bits_nodes_Cons)
    have start: "if IsTracked e n then engine_vector e n (sv n) else sv n = replicate (length (tv n)) kUnknown" using n(2,3) by (auto simp: starts_with_def)
    obtain rf1 e1 where e1: "populate_node vals n (rf, e) = Some (rf1, e1)" "engine_vector e1 n (map2 combined (sv n) (tv n))"
        "\<forall>m. m \<noteq> n \<longrightarrow> known_bits e1 m = known_bits e m \<and> bits_values e1 m = bits_values e m"
        "rf1 = (if map2 combined (sv n) (tv n) = sv n then rf else Changed)"
      using populate_node_vector[of vals n "tv n" e "sv n" rf] n(1,3) start by blast
    have "\<forall>m\<in>bits_nodes ns. vals m = Some (tv m) \<and> starts_with e1 m (sv m) \<and> length (sv m) = length (tv m)"
    proof
      fix m assume m: "m \<in> bits_nodes ns"
      then have "m \<noteq> n" using dist(2) by blast
      then have "starts_with e1 m (sv m) = starts_with e m (sv m)" using e1(3) by (simp add: starts_with_def IsTracked_def engine_vector_def)
      then show "vals m = Some (tv m) \<and> starts_with e1 m (sv m) \<and> length (sv m) = length (tv m)" using m Cons.prems(2) p True by (simp add: bits_nodes_Cons)
    qed
    from Cons.IH[OF dist(1) this, of rf1]
    obtain rf' e' where e': "populate_nodes ns vals (rf1, e1) = Some (rf', e')" "populated (bits_nodes ns) sv tv (rf1, e1) (rf', e')" by blast
    have "engine_vector e' n (map2 combined (sv n) (tv n))" using e1(2) e'(2) dist(2) engine_vector_cong[of e' n e1] by (simp add: populated_def)
    then show ?thesis using True p e1(1,3,4) e' dist(2) by (intro exI[of _ rf'] exI[of _ e']) (simp add: bits_nodes_Cons populated_def)
  next
    case False
    then show ?thesis using Cons.IH[OF dist(1), of e rf] Cons.prems(2) p by (simp add: bits_nodes_Cons)
  qed
qed (simp add: bits_nodes_def populated_def)

lemma bits_nodes_type:
  assumes "distinct (map fst (fn_nodes f))"
  shows "n \<in> bits_nodes (fn_nodes f) \<longleftrightarrow> (\<exists>w. GetType f n = Some (BitsType w))"
  unfolding bits_nodes_def GetType_def GetNode_def using map_of_eq_Some_iff[OF assms] by (auto elim!: Type_IsBitsE)

text \<open>What \<open>Populate\<close> computes: for every node of a bits type, the combination of what the engine held with a sound vector.\<close>

definition sound_vectors :: "'b bn_api \<Rightarrow> interp_call \<Rightarrow> ir_package \<Rightarrow> ir_function \<Rightarrow> (nat \<Rightarrow> ternary_vector) \<Rightarrow> bool" where
  "sound_vectors B call pkg f tv \<longleftrightarrow> (\<forall>n w. GetType f n = Some (BitsType w) \<longrightarrow> length (tv n) = w \<and> (\<forall>st. run_of B call pkg f st \<longrightarrow> stands_in st n (tv n)))"

lemma Populate_vectors:
  assumes env: "fn_env B num call pkg channels f" and an: "list_all (\<lambda>(n, nd). analysable f nd) (fn_nodes f)"
  shows "\<exists>tv. sound_vectors B call pkg f tv \<and>
    (\<forall>e sv. (\<forall>n w. GetType f n = Some (BitsType w) \<longrightarrow> starts_with e n (sv n) \<and> length (sv n) = w) \<longrightarrow>
      (\<exists>r. TernaryQueryEngine_Populate f rv e = returnS r \<and> populated (bits_nodes (fn_nodes f)) sv tv (Unchanged, e) r))"
proof -
  have dist: "distinct (map fst (fn_nodes f))" using env by (simp add: fn_env_def wf_function_def)
  obtain ns where ns: "TopoSort f rv = Some ns" "topological f {} ns" "set ns = node_ids f"
    using TopoSort_spec[OF fn_env_linked(1)[OF env], of rv] fn_env_linked(2)[OF env] by blast
  obtain vals where vals: "populate_values f ns Map.empty = returnS vals" "values_sound B call pkg f (node_ids f) vals"
    using populate_values_sound[OF env an ns(2), of Map.empty] ns(3) by (auto simp: values_sound_def)
  define tv where "tv n = the (vals n)" for n
  have tv: "vals n = Some (tv n)" "length (tv n) = w" "run_of B call pkg f st \<Longrightarrow> stands_in st n (tv n)" if ty: "GetType f n = Some (BitsType w)" for n w st
  proof -
    have "n \<in> node_ids f" using ty by (auto simp: GetType_def GetNode_ids)
    then obtain v where "vals n = Some v" "length v = w" "\<forall>st. run_of B call pkg f st \<longrightarrow> stands_in st n v" using vals(2) ty unfolding values_sound_def by blast
    then show "vals n = Some (tv n)" "length (tv n) = w" "run_of B call pkg f st \<Longrightarrow> stands_in st n (tv n)" by (simp_all add: tv_def)
  qed
  have "\<exists>r. TernaryQueryEngine_Populate f rv e = returnS r \<and> populated (bits_nodes (fn_nodes f)) sv tv (Unchanged, e) r"
    if start: "\<forall>n w. GetType f n = Some (BitsType w) \<longrightarrow> starts_with e n (sv n) \<and> length (sv n) = w" for e sv
  proof -
    have "\<forall>n\<in>bits_nodes (fn_nodes f). vals n = Some (tv n) \<and> starts_with e n (sv n) \<and> length (sv n) = length (tv n)"
      using tv start bits_nodes_type[OF dist] by metis
    from populate_nodes_vectors[OF dist this, of Unchanged]
    show ?thesis using ns(1) vals(1) by (auto simp: TernaryQueryEngine_Populate_def returnS_def)
  qed
  moreover have "sound_vectors B call pkg f tv" using tv by (simp add: sound_vectors_def)
  ultimately show ?thesis by blast
qed

lemma length_known_vector [simp]: "length (known_vector ks vs) = min (length ks) (length vs)"
  by (simp add: known_vector_def)

lemma engine_vector_unique: "engine_vector e n ts \<Longrightarrow> engine_vector e n us \<Longrightarrow> ts = us"
  unfolding engine_vector_def using rep_unique by (elim exE conjE) (metis option.inject)

lemma engine_vector_tracked: "engine_vector e n ts \<Longrightarrow> IsTracked e n"
  by (auto simp: engine_vector_def IsTracked_def)

lemma starts_with_vector: "engine_vector e n ss \<Longrightarrow> starts_with e n ss"
  by (simp add: starts_with_def engine_vector_tracked)

lemma engine_start:
  assumes "engine_sound B call pkg f e"
  obtains sv where "\<forall>n w. GetType f n = Some (BitsType w) \<longrightarrow> starts_with e n (sv n) \<and> length (sv n) = w"
    "\<forall>n. IsTracked e n \<longrightarrow> (\<forall>st. run_of B call pkg f st \<longrightarrow> stands_in st n (sv n))"
    "\<forall>n w. GetType f n = Some (BitsType w) \<and> \<not> IsTracked e n \<longrightarrow> sv n = replicate w kUnknown"
proof -
  let ?P = "\<lambda>n ss. (\<forall>w. GetType f n = Some (BitsType w) \<longrightarrow> starts_with e n ss \<and> length ss = w) \<and>
    (IsTracked e n \<longrightarrow> (\<forall>st. run_of B call pkg f st \<longrightarrow> stands_in st n ss)) \<and>
    (\<forall>w. GetType f n = Some (BitsType w) \<and> \<not> IsTracked e n \<longrightarrow> ss = replicate w kUnknown)"
  have "\<exists>ss. ?P n ss" for n
  proof (cases "IsTracked e n")
    case True
    then obtain w ts where "GetType f n = Some (BitsType w)" "engine_vector e n ts" "length ts = w" "\<forall>st. run_of B call pkg f st \<longrightarrow> stands_in st n ts"
      using assms unfolding engine_sound_def by blast
    then show ?thesis using True by (intro exI[of _ ts]) (simp add: starts_with_def)
  next
    case False
    show ?thesis
    proof (cases "\<exists>w. GetType f n = Some (BitsType w)")
      case True
      then obtain w where "GetType f n = Some (BitsType w)" by blast
      then show ?thesis using False by (intro exI[of _ "replicate w kUnknown"]) (simp add: starts_with_def)
    qed (use False in blast)
  qed
  then obtain sv where "\<forall>n. ?P n (sv n)" by metis
  then show ?thesis using that by blast
qed

text \<open>A sound engine stays sound, and then tracks every node of a bits type; a second pass over the function changes nothing.\<close>

lemma Populate_sound:
  assumes env: "fn_env B num call pkg channels f" and an: "list_all (\<lambda>(n, nd). analysable f nd) (fn_nodes f)" and snd: "engine_sound B call pkg f e"
  shows "\<exists>rf e'. TernaryQueryEngine_Populate f rv e = returnS (rf, e') \<and> engine_sound B call pkg f e' \<and>
    (\<forall>n w. GetType f n = Some (BitsType w) \<longrightarrow> IsTracked e' n) \<and>
    (\<exists>e''. TernaryQueryEngine_Populate f rv e' = returnS (Unchanged, e'') \<and> (\<forall>n ts. engine_vector e'' n ts \<longleftrightarrow> engine_vector e' n ts))"
proof -
  let ?N = "bits_nodes (fn_nodes f)"
  have N: "n \<in> ?N \<longleftrightarrow> (\<exists>w. GetType f n = Some (BitsType w))" for n
    using bits_nodes_type env by (auto simp: fn_env_def wf_function_def)
  obtain tv where tv: "sound_vectors B call pkg f tv" and all:
      "\<forall>e sv. (\<forall>n w. GetType f n = Some (BitsType w) \<longrightarrow> starts_with e n (sv n) \<and> length (sv n) = w) \<longrightarrow>
        (\<exists>r. TernaryQueryEngine_Populate f rv e = returnS r \<and> populated ?N sv tv (Unchanged, e) r)"
    using Populate_vectors[OF env an, of rv] by (elim exE conjE) (rule that)
  note populate = all[rule_format]
  obtain sv where sv: "\<forall>n w. GetType f n = Some (BitsType w) \<longrightarrow> starts_with e n (sv n) \<and> length (sv n) = w"
      "\<forall>n. IsTracked e n \<longrightarrow> (\<forall>st. run_of B call pkg f st \<longrightarrow> stands_in st n (sv n))"
      "\<forall>n w. GetType f n = Some (BitsType w) \<and> \<not> IsTracked e n \<longrightarrow> sv n = replicate w kUnknown"
    by (rule engine_start[OF snd])
  obtain rf e' where e': "TernaryQueryEngine_Populate f rv e = returnS (rf, e')" "populated ?N sv tv (Unchanged, e) (rf, e')"
    using populate[OF sv(1)[rule_format]] by auto
  let ?cv = "\<lambda>n. map2 combined (sv n) (tv n)"
  have vec: "engine_vector e' n (?cv n) \<and> length (?cv n) = w \<and> (\<forall>st. run_of B call pkg f st \<longrightarrow> stands_in st n (?cv n))"
    if ty: "GetType f n = Some (BitsType w)" for n w
  proof -
    have "stands_in st n (sv n)" if "run_of B call pkg f st" for st
      using sv(2,3) that ty unknown_stands_in[OF env that ty] by (cases "IsTracked e n") auto
    then have "\<forall>st. run_of B call pkg f st \<longrightarrow> stands_in st n (?cv n)" using stands_in_combined tv ty unfolding sound_vectors_def by blast
    moreover have "length (?cv n) = w" using sv(1) tv ty by (simp add: sound_vectors_def)
    moreover have "engine_vector e' n (?cv n)" using e'(2) ty N by (auto simp: populated_def)
    ultimately show ?thesis by blast
  qed
  have other: "\<not> IsTracked e' n" if "\<nexists>w. GetType f n = Some (BitsType w)" for n
    using that e'(2) snd N by (auto simp: populated_def IsTracked_def engine_sound_def)
  have snd': "engine_sound B call pkg f e'" unfolding engine_sound_def using vec other by blast
  have start: "\<forall>n w. GetType f n = Some (BitsType w) \<longrightarrow> starts_with e' n (?cv n) \<and> length (?cv n) = w"
    using vec starts_with_vector by blast
  obtain rf2 e'' where e'': "TernaryQueryEngine_Populate f rv e' = returnS (rf2, e'')" "populated ?N ?cv tv (Unchanged, e') (rf2, e'')"
    using populate[OF start[rule_format]] by auto
  have again: "map2 combined (?cv n) (tv n) = ?cv n" for n by (intro nth_equalityI) (simp_all add: combined_again)
  have "rf2 = Unchanged" using e''(2) again by (simp add: populated_def)
  moreover have "engine_vector e'' n ts \<longleftrightarrow> engine_vector e' n ts" for n ts
  proof (cases "n \<in> ?N")
    case True
    then show ?thesis using e''(2) vec again N engine_vector_unique unfolding populated_def by (metis snd_conv)
  next
    case False
    then show ?thesis using e''(2) engine_vector_cong[of e'' n e' ts] by (simp add: populated_def)
  qed
  ultimately show ?thesis using e'(1) snd' vec engine_vector_tracked e''(1) by blast
qed

section \<open>Answers\<close>

text \<open>The bit at a location in the final state of a run, and the locations that exist.\<close>

definition run_bit :: "interp \<Rightarrow> tree_bit_location \<Rightarrow> bool" where
  "run_bit st loc = (case node_values st (loc_node loc) of Some (VBits b) \<Rightarrow> Bits_Get b (loc_bit_index loc) | _ \<Rightarrow> False)"

definition valid_location :: "ir_function \<Rightarrow> tree_bit_location \<Rightarrow> bool" where
  "valid_location f loc \<longleftrightarrow> loc_tree_index loc = [] \<and>
     (case GetType f (loc_node loc) of Some (BitsType w) \<Rightarrow> loc_bit_index loc < w | _ \<Rightarrow> False)"

lemma valid_bit_location: "GetType f n = Some (BitsType w) \<Longrightarrow> valid_location f (bit_location n i) \<longleftrightarrow> i < w"
  by (simp add: valid_location_def bit_location_def)

lemma run_bit_nth: "result_is n st bs \<Longrightarrow> i < length bs \<Longrightarrow> run_bit st (bit_location n i) = bs ! i"
  by (auto simp: result_is_def run_bit_def bit_location_def rep_get)

lemma GetTernary_vector:
  assumes "engine_vector e n ts" and "GetType f n = Some (BitsType w)"
  shows "\<exists>tree. GetTernary f e n = Some tree \<and> ltt_Get tree [] = Some ts \<and> ltt_elements tree = [ts]"
proof -
  obtain k v ks vs where e: "known_bits e n = Some k" "bits_values e n = Some v" "rep k ks" "rep v vs"
      "list_all2 (\<lambda>v k. v \<longrightarrow> k) vs ks" "ts = known_vector ks vs" using assms(1) by (auto simp: engine_vector_def)
  have "ternary_FromKnownBits k v = Some ts" using FromKnownBits_rep[OF e(3,4)] list_all2_lengthD[OF e(5)] e(6) by (simp add: known_vector_def)
  then show ?thesis using e(1,2) assms(2)
    by (simp add: GetTernary_def ltt_Set_def ltt_Get_def LeafTypeTree_init_def IsLeafType_def at_opt_def)
qed

lemma unum_mono:
  assumes "length as = length bs" and "\<And>i. i < length as \<Longrightarrow> as ! i \<Longrightarrow> bs ! i"
  shows "unum as \<le> unum bs"
  unfolding unum_sum assms(1)[symmetric] using assms(2) by (intro sum_mono) auto

lemma vector_intervals_points:
  assumes "bignum B num" and "list_all2 stands_for ts bs" and "rep b bs"
  shows "\<exists>s. vector_intervals B ts = Some s \<and> normal_set (length ts) s \<and> IntervalSet_Covers s b = Some True"
proof -
  let ?lo = "map (\<lambda>t. case t of kKnownZero \<Rightarrow> False | kKnownOne \<Rightarrow> True | kUnknown \<Rightarrow> False) ts"
  let ?hi = "map (\<lambda>t. case t of kKnownZero \<Rightarrow> False | kKnownOne \<Rightarrow> True | kUnknown \<Rightarrow> True) ts"
  let ?i = "\<lparr>iv_valid = True, lower_bound = Bits_FromSpan ?lo, upper_bound = Bits_FromSpan ?hi\<rparr>"
  have len: "length bs = length ts" using assms(2) by (auto dest: list_all2_lengthD)
  have bit: "stands_for (ts ! j) (bs ! j)" if "j < length ts" for j using assms(2) that by (simp add: list_all2_conv_all_nth)
  have ord: "unum ?lo \<le> unum bs" "unum bs \<le> unum ?hi"
    using len by (auto intro!: unum_mono dest!: bit simp: stands_for_def known_def split: ternary.splits if_splits)
  have bnd: "unum bs < 2 ^ length ts" "unum ?hi < 2 ^ length ts" "unum ?lo < 2 ^ length ts"
    using unum_bound[of bs] unum_bound[of ?hi] unum_bound[of ?lo] len by simp_all
  have iv: "ivr (length ts) ?i (unum ?lo, unum ?hi)"
    using FromSpan_interval[OF bnd(3,2)] nat_bl_unum_eq[of "length ts" ?lo] nat_bl_unum_eq[of "length ts" ?hi] by simp
  obtain s where s: "IntervalSet_AddInterval (IntervalSet (length ts)) ?i = Some s" "wf_set (length ts) s" "Points s = wrap_points (length ts) (unum ?lo, unum ?hi)"
    using AddInterval_ok[OF wf_set_new(1) iv] by auto
  obtain s' where s': "IntervalSet_Normalize B s = Some s'" "normal_set (length ts) s'" "Points s' = Points s"
    using bignum.Normalize_ok[OF assms(1) s(2)] by blast
  have "ub (length ts) b (unum bs)" using assms(3) bnd(1) len nat_bl_unum_eq[of "length ts" bs] by (simp add: ub_def)
  moreover have "Points s' = {unum ?lo..unum ?hi}"
    using s(3) s'(3) wrap_points_proper[of "(unum ?lo, unum ?hi)" "length ts"] order_trans[OF ord] bnd(2) by simp
  then have "unum bs \<in> Points s'" using ord by simp
  ultimately have "IntervalSet_Covers s' b = Some True" using IntervalSet_Covers_ok[OF normal_setD[OF s'(2)]] by metis
  then show ?thesis using s(1) s'(1,2) by (simp add: vector_intervals_def Interval_def Bits_FromSpan_typed Let_def)
qed

lemma ternary_of_vector: "engine_vector e n ts \<Longrightarrow> GetType f n = Some (BitsType w) \<Longrightarrow> ternary_of f e n = Some ts"
  using GetTernary_vector by (fastforce simp: ternary_of_def)

lemma location_ternary:
  assumes snd: "engine_sound B call pkg f e" and val: "valid_location f loc"
  obtains t where "IsKnown f e loc = Some (t \<noteq> kUnknown)" "IsOne f e loc = Some (t = kKnownOne)" "IsZero f e loc = Some (t = kKnownZero)"
    "\<forall>st. run_of B call pkg f st \<longrightarrow> stands_for t (run_bit st loc)"
proof (cases "IsTracked e (loc_node loc)")
  case True
  let ?n = "loc_node loc" and ?i = "loc_bit_index loc"
  obtain w ts where ts: "GetType f ?n = Some (BitsType w)" "engine_vector e ?n ts" "length ts = w" "\<forall>st. run_of B call pkg f st \<longrightarrow> stands_in st ?n ts"
    using True snd unfolding engine_sound_def by blast
  have i: "?i < length ts" "loc_tree_index loc = []" using val ts(1,3) by (simp_all add: valid_location_def)
  obtain tree where tree: "GetTernary f e ?n = Some tree" "ltt_Get tree [] = Some ts" using GetTernary_vector[OF ts(2,1)] by blast
  have known: "IsKnown f e loc = Some (ts ! ?i \<noteq> kUnknown)" using True tree i by (simp add: IsKnown_def at_opt_def)
  have bit: "known_bit f e loc = Some (ts ! ?i = kKnownOne)"
    using tree i rep_get[OF rep_FromSpan, of ?i "map (\<lambda>t. t = kKnownOne) ts"] by (simp add: known_bit_def ternary_ToKnownBitsValues_def)
  have run: "stands_for (ts ! ?i) (run_bit st loc)" if r: "run_of B call pkg f st" for st
  proof -
    obtain b bs where "node_values st ?n = Some (VBits b)" "rep b bs" "list_all2 stands_for ts bs"
      using ts(4) r by (auto simp: stands_in_def result_is_def concretions_def)
    then show ?thesis using i(1) by (auto simp: run_bit_def rep_get list_all2_conv_all_nth)
  qed
  show ?thesis using that[OF known] known bit run by (cases "ts ! ?i") (auto simp: IsOne_def IsZero_def)
next
  case False
  then show ?thesis using that[of kUnknown] by (simp add: IsKnown_def IsOne_def IsZero_def)
qed

lemma location_run:
  assumes "engine_sound B call pkg f e" and run: "run_of B call pkg f st" and "valid_location f loc"
  shows "\<exists>t. IsKnown f e loc = Some (t \<noteq> kUnknown) \<and> IsOne f e loc = Some (t = kKnownOne) \<and> IsZero f e loc = Some (t = kKnownZero) \<and>
    stands_for t (run_bit st loc)"
  by (rule location_ternary[OF assms(1,3)]) (use run in blast)

text \<open>The queries on bits.\<close>

lemma AtMostOneTrue_sound:
  assumes snd: "engine_sound B call pkg f e" and run: "run_of B call pkg f st" and val: "list_all (valid_location f) locs"
  shows "\<exists>b. AtMostOneTrue f e locs = Some b \<and> (b \<longrightarrow> length (filter (run_bit st) locs) \<le> 1)"
proof -
  have "\<exists>ms. those (map (\<lambda>loc. do { k \<leftarrow> IsKnown f e loc; if \<not> k then Some True else IsOne f e loc }) locs) = Some ms \<and>
      length (filter (run_bit st) locs) \<le> length (filter (\<lambda>b. b) ms)"
    using val
  proof (induction locs)
    case (Cons loc locs)
    obtain t where t: "IsKnown f e loc = Some (t \<noteq> kUnknown)" "IsOne f e loc = Some (t = kKnownOne)" "stands_for t (run_bit st loc)"
      using location_run[OF snd run, of loc] Cons.prems by auto
    obtain ms where "those (map (\<lambda>loc. do { k \<leftarrow> IsKnown f e loc; if \<not> k then Some True else IsOne f e loc }) locs) = Some ms"
        "length (filter (run_bit st) locs) \<le> length (filter (\<lambda>b. b) ms)" using Cons by auto
    then show ?case using t by (cases t) auto
  qed simp
  then show ?thesis by (auto simp: AtMostOneTrue_def)
qed

lemma AtLeastOneTrue_sound:
  assumes snd: "engine_sound B call pkg f e" and run: "run_of B call pkg f st" and val: "list_all (valid_location f) locs"
  shows "\<exists>b. AtLeastOneTrue f e locs = Some b \<and> (b \<longrightarrow> list_ex (run_bit st) locs)"
  using val
proof (induction locs)
  case (Cons loc locs)
  have val: "valid_location f loc" "list_all (valid_location f) locs" using Cons.prems by simp_all
  obtain t where t: "IsOne f e loc = Some (t = kKnownOne)" "stands_for t (run_bit st loc)" using location_run[OF snd run val(1)] by blast
  then show ?case using Cons.IH[OF val(2)] by (cases t) auto
qed auto

lemma KnownEquals_sound:
  assumes snd: "engine_sound B call pkg f e" and run: "run_of B call pkg f st" and val: "valid_location f a" "valid_location f b"
  shows "\<exists>x y. KnownEquals f e a b = Some x \<and> (x \<longrightarrow> run_bit st a = run_bit st b) \<and>
    KnownNotEquals f e a b = Some y \<and> (y \<longrightarrow> run_bit st a \<noteq> run_bit st b)"
proof -
  obtain s where s: "IsKnown f e a = Some (s \<noteq> kUnknown)" "IsOne f e a = Some (s = kKnownOne)" "stands_for s (run_bit st a)"
    using location_run[OF snd run val(1)] by blast
  obtain t where t: "IsKnown f e b = Some (t \<noteq> kUnknown)" "IsOne f e b = Some (t = kKnownOne)" "stands_for t (run_bit st b)"
    using location_run[OF snd run val(2)] by blast
  show ?thesis using s t by (cases s; cases t) (auto simp: KnownEquals_def KnownNotEquals_def)
qed

text \<open>The queries on whole nodes.\<close>

lemma node_bits:
  assumes snd: "engine_sound B call pkg f e" and run: "run_of B call pkg f st" and ty: "GetType f n = Some (BitsType w)"
  shows "\<exists>ts. length ts = w \<and> (\<forall>i<w. IsOne f e (bit_location n i) = Some (ts ! i = kKnownOne) \<and> IsZero f e (bit_location n i) = Some (ts ! i = kKnownZero) \<and>
    stands_for (ts ! i) (run_bit st (bit_location n i)))"
proof -
  have "\<exists>t. IsOne f e (bit_location n i) = Some (t = kKnownOne) \<and> IsZero f e (bit_location n i) = Some (t = kKnownZero) \<and> stands_for t (run_bit st (bit_location n i))"
    if "i < w" for i
    using location_run[OF snd run, of "bit_location n i"] valid_bit_location[OF ty] that by auto
  then obtain t where t: "\<And>i. i < w \<Longrightarrow> IsOne f e (bit_location n i) = Some (t i = kKnownOne) \<and> IsZero f e (bit_location n i) = Some (t i = kKnownZero) \<and>
    stands_for (t i) (run_bit st (bit_location n i))" by metis
  then show ?thesis by (intro exI[of _ "map t [0..<w]"]) simp
qed

lemma unsigned_bounds_sound:
  assumes snd: "engine_sound B call pkg f e" and run: "run_of B call pkg f st" and ty: "GetType f n = Some (BitsType w)"
    and v: "node_values st n = Some (VBits v)" "rep v bs" "length bs = w"
  shows "\<exists>lo hi. MinUnsignedValue f e n = Some lo \<and> MaxUnsignedValue f e n = Some hi \<and> bits_ULessThanOrEqual lo v \<and> bits_ULessThanOrEqual v hi"
proof -
  obtain ts where ts: "length ts = w" "\<And>i. i < w \<Longrightarrow> IsOne f e (bit_location n i) = Some (ts ! i = kKnownOne)"
      "\<And>i. i < w \<Longrightarrow> IsZero f e (bit_location n i) = Some (ts ! i = kKnownZero)" "\<And>i. i < w \<Longrightarrow> stands_for (ts ! i) (run_bit st (bit_location n i))"
    using node_bits[OF snd run ty] by blast
  have "result_is n st bs" using v by (auto simp: result_is_def)
  then have "run_bit st (bit_location n i) = bs ! i" if "i < w" for i using run_bit_nth v(3) that by blast
  then have bit: "stands_for (ts ! i) (bs ! i)" if "i < w" for i using ts(4)[OF that] that by simp
  let ?lo = "map (\<lambda>t. t = kKnownOne) ts" and ?zs = "map (\<lambda>t. t = kKnownZero) ts"
  have "MinUnsignedValue f e n = Some (Bits_FromSpan ?lo)" "MaxUnsignedValue f e n = Some (Bits_FromSpan (map Not ?zs))"
    using those_upt[of ?lo w] those_upt[of ?zs w] ts ty by (simp_all add: MinUnsignedValue_def MaxUnsignedValue_def Type_AsBitsOrDie_def)
  moreover have lo: "bs ! i" if "i < w" "ts ! i = kKnownOne" for i using bit[OF that(1)] that(2) by simp
  moreover have hi: "ts ! i \<noteq> kKnownZero" if "i < w" "bs ! i" for i using bit[OF that(1)] that(2) by auto
  moreover have "unum ?lo \<le> unum bs" "unum bs \<le> unum (map Not ?zs)"
    using ts(1) v(3) bit by (auto intro!: unum_mono simp: lo hi)
  ultimately show ?thesis using ULessThanOrEqual_iff[OF rep_FromSpan v(2)] ULessThanOrEqual_iff[OF v(2) rep_FromSpan] by auto
qed

lemma intervals_sound:
  assumes B: "bignum B num" and snd: "engine_sound B call pkg f e" and run: "run_of B call pkg f st" and trk: "IsTracked e n"
    and v: "node_values st n = Some (VBits b)" "rep b bs"
  shows "\<exists>tree s. GetIntervals B f e n = Some tree \<and> ltt_Get tree [] = Some s \<and> IntervalSet_Covers s b = Some True"
proof -
  obtain w ts where ts: "GetType f n = Some (BitsType w)" "engine_vector e n ts" "stands_in st n ts"
    using snd trk run unfolding engine_sound_def by blast
  have "result_is n st bs" using v by (auto simp: result_is_def)
  then have "list_all2 stands_for ts bs" using ts(3) result_is_unique unfolding stands_in_def concretions_def by blast
  from vector_intervals_points[OF B this v(2)] obtain s where s: "vector_intervals B ts = Some s" "IntervalSet_Covers s b = Some True" by blast
  obtain tree where "GetTernary f e n = Some tree" "ltt_elements tree = [ts]" using GetTernary_vector[OF ts(2,1)] by blast
  then show ?thesis using s ts(1)
    by (simp add: GetIntervals_def ltt_Get_def LeafTypeTree_init_def IsLeafType_def at_opt_def)
qed

lemma get_known_bit_sound:
  assumes "engine_sound B call pkg f e" and "run_of B call pkg f st" and "GetType f n = Some (BitsType w)" and "result_is n st bs" "length bs = w"
  shows "\<exists>t. get_known_bit f e n w i = Some t \<and> stands_for t (i < w \<and> bs ! i)"
proof (cases "i < w")
  case True
  obtain t where t: "IsOne f e (bit_location n i) = Some (t = kKnownOne)" "IsZero f e (bit_location n i) = Some (t = kKnownZero)"
      "stands_for t (run_bit st (bit_location n i))"
    using location_run[OF assms(1,2), of "bit_location n i"] valid_bit_location[OF assms(3), of i] True by blast
  then show ?thesis using True run_bit_nth[OF assms(4), of i] assms(5) by (cases t) (simp_all add: get_known_bit_def)
qed (simp add: get_known_bit_def)

lemma NotEquals_loop_sound:
  assumes "engine_sound B call pkg f e" and "run_of B call pkg f st" and "GetType f a = Some (BitsType wa)" and "result_is a st as" "length as = wa"
    and "GetType f b = Some (BitsType wb)" and "result_is b st bs" "length bs = wb"
  shows "\<exists>r. NotEquals_loop f e a wa b wb is = Some r \<and> (r \<longrightarrow> unum as \<noteq> unum bs)"
proof (induction "is")
  case (Cons i "is")
  obtain s where s: "get_known_bit f e a wa i = Some s" "stands_for s (i < wa \<and> as ! i)" using get_known_bit_sound[OF assms(1-5)] by blast
  obtain t where t: "get_known_bit f e b wb i = Some t" "stands_for t (i < wb \<and> bs ! i)" using get_known_bit_sound[OF assms(1,2,6-8)] by blast
  have "unum as \<noteq> unum bs" if "s \<noteq> t \<and> s \<noteq> kUnknown \<and> t \<noteq> kUnknown"
    using that s(2) t(2) bit_unum_iff[of as i] bit_unum_iff[of bs i] assms(5,8) by (cases s; cases t) auto
  then show ?case using Cons.IH s(1) t(1) by auto
qed auto

lemma nodes_equal_sound:
  assumes snd: "engine_sound B call pkg f e" and run: "run_of B call pkg f st" and trk: "IsTracked e a" "IsTracked e b"
    and a: "node_values st a = Some (VBits x)" "rep x as" and b: "node_values st b = Some (VBits y)" "rep y bs"
  shows "\<exists>p q. NodesKnownUnsignedEquals f e a b = Some p \<and> (p \<longrightarrow> bits_UEqual x y) \<and>
    NodesKnownUnsignedNotEquals f e a b = Some q \<and> (q \<longrightarrow> \<not> bits_UEqual x y)"
proof -
  have res: "result_is a st as" "result_is b st bs" using a b by (auto simp: result_is_def)
  obtain wa ss where sa: "GetType f a = Some (BitsType wa)" "engine_vector e a ss" "length ss = wa" "stands_in st a ss"
    using snd trk(1) run unfolding engine_sound_def by blast
  obtain wb ts where tb: "GetType f b = Some (BitsType wb)" "engine_vector e b ts" "length ts = wb" "stands_in st b ts"
    using snd trk(2) run unfolding engine_sound_def by blast
  have rel: "list_all2 stands_for ss as" "list_all2 stands_for ts bs"
    using sa(4) tb(4) res result_is_unique by (auto simp: stands_in_def concretions_def)
  have len: "length as = wa" "length bs = wb" using rel sa(3) tb(3) by (auto dest: list_all2_lengthD)
  note eq = UEqual_iff[OF a(2) b(2)]
  have vec: "ternary_of f e a = Some ss" "ternary_of f e b = Some ts" using ternary_of_vector sa(1,2) tb(1,2) by blast+
  have exact: "map (\<lambda>t. t = kKnownOne) us = cs" if "list_all (\<lambda>t. t \<noteq> kUnknown) us" "list_all2 stands_for us cs" for us cs
    using that by (auto simp: list_all_length list_all2_conv_all_nth stands_for_def known_def intro!: nth_equalityI split: if_splits)
  have "\<exists>p. NodesKnownUnsignedEquals f e a b = Some p \<and> (p \<longrightarrow> bits_UEqual x y)"
  proof (cases "a = b")
    case True
    then show ?thesis using vec sa(1) tb(1) a b eq rep_unique[OF a(2), of bs] by (auto simp: NodesKnownUnsignedEquals_def)
  next
    case False
    have "bits_UEqual (ternary_ToKnownBitsValues ss) (ternary_ToKnownBitsValues ts) \<longleftrightarrow> bits_UEqual x y"
      if "list_all (\<lambda>t. t \<noteq> kUnknown) ss" "list_all (\<lambda>t. t \<noteq> kUnknown) ts"
      using exact[OF that(1) rel(1)] exact[OF that(2) rel(2)] UEqual_iff[OF rep_FromSpan rep_FromSpan] eq by (simp add: ternary_ToKnownBitsValues_def)
    then show ?thesis using False vec sa(1) tb(1) trk by (auto simp: NodesKnownUnsignedEquals_def AllBitsKnown_def all_ternary_def)
  qed
  moreover have "\<exists>q. NodesKnownUnsignedNotEquals f e a b = Some q \<and> (q \<longrightarrow> \<not> bits_UEqual x y)"
    using NotEquals_loop_sound[OF snd run sa(1) res(1) len(1) tb(1) res(2) len(2)] sa(1) tb(1) eq
    by (simp add: NodesKnownUnsignedNotEquals_def Type_AsBitsOrDie_def)
  ultimately show ?thesis by blast
qed

section \<open>Properties\<close>

text \<open>A function that masks its parameter, and compares the result.\<close>

definition mask_function :: ir_function where
  "mask_function = \<lparr>fn_nodes = [
     (0, mk_node Param [] (BitsType 4) 1 ''x''),
     (1, mk_node (Literal (VBits (Bits_FromSpan [True, True, False, False]))) [] (BitsType 4) 2 []),
     (2, mk_node (NaryOp Op_And) [0, 1] (BitsType 4) 3 []),
     (3, mk_node (CompareOp Op_ULt) [1, 2] (BitsType 1) 4 [])], fn_params = [0], fn_return = 3\<rparr>"

lemma mask_verified: "verified_package [mask_function] []" "calls_ranked [mask_function] (\<lambda>i. i)"
proof -
  have "FunctionBase_Accept mask_function trivial_visitor () = returnS ()"
    by (rule FunctionBase_Accept_ranked[where rank = "\<lambda>n. n"]; auto simp: mask_function_def mk_node_def operands_ranked_def node_ids_def)
  then have "VerifyFunction [mask_function] [] mask_function = returnS ()"
    by (auto simp: verify_simps NodeChecker_NaryOp_def NodeChecker_CompareOp_def NodeChecker_HandleNaryAnd_def NodeChecker_HandleULt_def ExpectAllSameBitsType_def mask_function_def mk_node_def Let_def Bits_FromSpan_typed less_Suc_eq)
  moreover have "wf_function [mask_function] mask_function"
    by (auto simp: wf_function_def interpretable_def interpretable_op_def has_result_def sets_value_def read_operands_def bits_operand_def
        mask_function_def mk_node_def Bits_FromSpan_typed GetNode_def operand_type_def operand_def at_opt_def GetType_def param_type_def)
  ultimately show "verified_package [mask_function] []" by (simp add: verified_package_def)
  show "calls_ranked [mask_function] (\<lambda>i. i)" by (simp add: calls_ranked_def callees_def mask_function_def mk_node_def)
qed

lemma mask_analysable: "list_all (\<lambda>(n, nd). analysable mask_function nd) (fn_nodes mask_function)"
  by (simp add: mask_function_def mk_node_def analysable_def)

lemma mask_vectors:
  "case TernaryQueryEngine_Populate mask_function (Some 3) TernaryQueryEngine_new of
     Some (Inr (rf, e)) \<Rightarrow> rf = Changed \<and> ternary_of mask_function e 2 = Some [kUnknown, kUnknown, kKnownZero, kKnownZero] \<and>
       ternary_of mask_function e 3 = Some [kKnownZero]
   | _ \<Rightarrow> False"
  by code_simp

text \<open>C6: \<open>Populate\<close> is sound. On a verified function without operands of width zero in signed operations, subtractions
  and negations and without signed products of operands of \<open>2^30\<close> bits or more, the known-bits analysis returns, and the ternary vector it computes for a node of a bits type stands for the bits that the node has
  at the end of any run of the interpreter. A second \<open>Populate\<close> reports \<open>Unchanged\<close> and leaves the vectors as they are.\<close>

theorem ternary_analysis_sound:
  assumes "bignum B num" and "verified_package pkg channels" and "calls_ranked pkg rank" and "i < length pkg" and "rank i \<le> depth"
    and "list_all (\<lambda>(n, nd). analysable (pkg ! i) nd) (fn_nodes (pkg ! i))"
  shows "\<exists>rf e. TernaryQueryEngine_Populate (pkg ! i) rv TernaryQueryEngine_new = returnS (rf, e) \<and>
    (\<forall>n w. GetType (pkg ! i) n = Some (BitsType w) \<longrightarrow> (\<exists>ts. ternary_of (pkg ! i) e n = Some ts \<and> length ts = w \<and>
      (\<forall>args st. args_typed (pkg ! i) args \<and> function_run B (InterpretFunction B depth pkg) pkg (pkg ! i) args = returnS st \<longrightarrow>
        (\<exists>b bs. node_values st n = Some (VBits b) \<and> rep b bs \<and> bs \<in> concretions ts)))) \<and>
    (\<exists>e'. TernaryQueryEngine_Populate (pkg ! i) rv e = returnS (Unchanged, e') \<and>
      (\<forall>n w. GetType (pkg ! i) n = Some (BitsType w) \<longrightarrow> ternary_of (pkg ! i) e' n = ternary_of (pkg ! i) e n))"
proof -
  let ?call = "InterpretFunction B depth pkg" and ?f = "pkg ! i"
  obtain rf e e' where e: "TernaryQueryEngine_Populate ?f rv TernaryQueryEngine_new = returnS (rf, e)" "engine_sound B ?call pkg ?f e"
      "\<forall>n w. GetType ?f n = Some (BitsType w) \<longrightarrow> IsTracked e n"
      "TernaryQueryEngine_Populate ?f rv e = returnS (Unchanged, e')" "\<forall>n ts. engine_vector e' n ts \<longleftrightarrow> engine_vector e n ts"
    using Populate_sound[OF package_env[OF assms(1-5)] assms(6) engine_sound_new, of rv] by blast
  have vec: "\<exists>ts. engine_vector e n ts \<and> length ts = w \<and> (\<forall>st. run_of B ?call pkg ?f st \<longrightarrow> stands_in st n ts)" if ty: "GetType ?f n = Some (BitsType w)" for n w
    using e(2,3) ty unfolding engine_sound_def by fastforce
  have "\<exists>ts. ternary_of ?f e n = Some ts \<and> length ts = w \<and>
      (\<forall>args st. args_typed ?f args \<and> function_run B ?call pkg ?f args = returnS st \<longrightarrow> (\<exists>b bs. node_values st n = Some (VBits b) \<and> rep b bs \<and> bs \<in> concretions ts))"
    if ty: "GetType ?f n = Some (BitsType w)" for n w
    using vec[OF ty] ternary_of_vector[OF _ ty] unfolding run_of_def stands_in_def result_is_def by blast
  moreover have "ternary_of ?f e' n = ternary_of ?f e n" if ty: "GetType ?f n = Some (BitsType w)" for n w
    using vec[OF ty] e(5) ternary_of_vector[OF _ ty] by metis
  ultimately show ?thesis using e(1,4) by blast
qed

theorem ternary_analysis_sound_witness:
  "\<exists>rf e. TernaryQueryEngine_Populate mask_function (Some 3) TernaryQueryEngine_new = returnS (rf, e) \<and>
    (\<exists>ts. ternary_of mask_function e 3 = Some ts \<and> length ts = 1 \<and>
      (\<forall>args st. args_typed mask_function args \<and>
          function_run int_bn (InterpretFunction int_bn 1 [mask_function]) [mask_function] mask_function args = returnS st \<longrightarrow>
        (\<exists>b bs. node_values st 3 = Some (VBits b) \<and> rep b bs \<and> bs \<in> concretions ts)))"
proof -
  have "GetType mask_function 3 = Some (BitsType 1)" by (simp add: GetType_def GetNode_def mask_function_def mk_node_def)
  then show ?thesis
    using ternary_analysis_sound[OF int_bignum.bignum_axioms mask_verified, of 0 1 "Some 3"] mask_analysable by (simp del: One_nat_def) blast
qed

text \<open>The engine that \<open>Populate\<close> returns, and the runs it speaks about.\<close>

lemma populated_engine:
  assumes "bignum B num" and "verified_package pkg channels" and "calls_ranked pkg rank" and "i < length pkg" and "rank i \<le> depth"
    and "list_all (\<lambda>(n, nd). analysable (pkg ! i) nd) (fn_nodes (pkg ! i))"
    and "TernaryQueryEngine_Populate (pkg ! i) rv TernaryQueryEngine_new = returnS (rf, e)"
  shows "engine_sound B (InterpretFunction B depth pkg) pkg (pkg ! i) e" and "\<forall>n w. GetType (pkg ! i) n = Some (BitsType w) \<longrightarrow> IsTracked e n"
  using Populate_sound[OF package_env[OF assms(1-5)] assms(6) engine_sound_new, of rv] assms(7) by (auto simp: returnS_def)

text \<open>C7: The queries about bits are sound. After \<open>Populate\<close>, every query about existing bits returns, and what it claims
  holds at the end of every run: a bit reported one is one, a bit reported zero is zero, at most one (at least one) of the
  locations is true, two bits are equal or differ.\<close>

theorem ternary_bit_queries_sound:
  assumes "bignum B num" and "verified_package pkg channels" and "calls_ranked pkg rank" and "i < length pkg" and "rank i \<le> depth"
    and "list_all (\<lambda>(n, nd). analysable (pkg ! i) nd) (fn_nodes (pkg ! i))"
    and "TernaryQueryEngine_Populate (pkg ! i) rv TernaryQueryEngine_new = returnS (rf, e)"
    and "args_typed (pkg ! i) args" and "function_run B (InterpretFunction B depth pkg) pkg (pkg ! i) args = returnS st"
    and "list_all (valid_location (pkg ! i)) locs" and "valid_location (pkg ! i) a" and "valid_location (pkg ! i) b"
  shows "(\<exists>r. IsOne (pkg ! i) e a = Some r \<and> (r \<longrightarrow> run_bit st a)) \<and> (\<exists>r. IsZero (pkg ! i) e a = Some r \<and> (r \<longrightarrow> \<not> run_bit st a)) \<and>
    (\<exists>r. AtMostOneTrue (pkg ! i) e locs = Some r \<and> (r \<longrightarrow> length (filter (run_bit st) locs) \<le> 1)) \<and>
    (\<exists>r. AtLeastOneTrue (pkg ! i) e locs = Some r \<and> (r \<longrightarrow> list_ex (run_bit st) locs)) \<and>
    (\<exists>r. KnownEquals (pkg ! i) e a b = Some r \<and> (r \<longrightarrow> run_bit st a = run_bit st b)) \<and>
    (\<exists>r. KnownNotEquals (pkg ! i) e a b = Some r \<and> (r \<longrightarrow> run_bit st a \<noteq> run_bit st b))"
proof -
  note snd = populated_engine(1)[OF assms(1-7)]
  have run: "run_of B (InterpretFunction B depth pkg) pkg (pkg ! i) st" using assms(8,9) by (auto simp: run_of_def)
  obtain t where t: "IsOne (pkg ! i) e a = Some (t = kKnownOne)" "IsZero (pkg ! i) e a = Some (t = kKnownZero)" "stands_for t (run_bit st a)"
    using location_run[OF snd run assms(11)] by blast
  then have "t = kKnownOne \<longrightarrow> run_bit st a" "t = kKnownZero \<longrightarrow> \<not> run_bit st a" by auto
  then show ?thesis
    using t(1,2) AtMostOneTrue_sound[OF snd run assms(10)] AtLeastOneTrue_sound[OF snd run assms(10)] KnownEquals_sound[OF snd run assms(11,12)] by blast
qed

text \<open>The engine of the example, and the run on the argument 7.\<close>

lemma mask_engine:
  "\<exists>rf e. TernaryQueryEngine_Populate mask_function (Some 3) TernaryQueryEngine_new = returnS (rf, e) \<and>
    ternary_of mask_function e 2 = Some [kUnknown, kUnknown, kKnownZero, kKnownZero] \<and> ternary_of mask_function e 3 = Some [kKnownZero]"
  using mask_vectors by (auto simp: returnS_def split: option.splits sum.splits)

definition mask_args :: "xvalue list" where
  "mask_args = [VBits (Bits_FromSpan [True, True, True, False])]"

lemma mask_run:
  "args_typed mask_function mask_args"
  "\<exists>st. function_run int_bn (InterpretFunction int_bn 1 [mask_function]) [mask_function] mask_function mask_args = returnS st"
proof -
  show "args_typed mask_function mask_args"
    by (simp add: args_typed_def mask_args_def mask_function_def mk_node_def GetType_def GetNode_def Bits_FromSpan_typed)
  then show "\<exists>st. function_run int_bn (InterpretFunction int_bn 1 [mask_function]) [mask_function] mask_function mask_args = returnS st"
    using run_exists[OF package_env[OF int_bignum.bignum_axioms mask_verified, of 0 1], of mask_args] by auto
qed

theorem ternary_bit_queries_sound_witness:
  "\<exists>rf e st. TernaryQueryEngine_Populate mask_function (Some 3) TernaryQueryEngine_new = returnS (rf, e) \<and>
    function_run int_bn (InterpretFunction int_bn 1 [mask_function]) [mask_function] mask_function mask_args = returnS st \<and>
    IsZero mask_function e (bit_location 3 0) = Some True \<and> \<not> run_bit st (bit_location 3 0)"
proof -
  obtain rf e where e: "TernaryQueryEngine_Populate mask_function (Some 3) TernaryQueryEngine_new = returnS (rf, e)" "ternary_of mask_function e 3 = Some [kKnownZero]"
    using mask_engine by blast
  obtain st where st: "function_run int_bn (InterpretFunction int_bn 1 [mask_function]) [mask_function] mask_function mask_args = returnS st"
    using mask_run(2) by blast
  have ty: "GetType mask_function 3 = Some (BitsType 1)" by (simp add: GetType_def GetNode_def mask_function_def mk_node_def)
  have val: "valid_location mask_function (bit_location 3 0)" using valid_bit_location[OF ty] by simp
  note query = ternary_bit_queries_sound[OF int_bignum.bignum_axioms mask_verified, of 0 1 "Some 3" rf e mask_args st "[]" "bit_location 3 0" "bit_location 3 0"]
  have "IsTracked e 3" using populated_engine(2)[OF int_bignum.bignum_axioms mask_verified, of 0 1 "Some 3" rf e] mask_analysable e(1) ty by simp
  moreover obtain tree where "GetTernary mask_function e 3 = Some tree" "ltt_Get tree [] = Some [kKnownZero]"
    using e(2) by (auto simp: ternary_of_def split: Option.bind_splits)
  ultimately have "IsZero mask_function e (bit_location 3 0) = Some True"
    using rep_get[OF rep_FromSpan, of 0 "[False]"]
    by (simp add: IsZero_def IsKnown_def known_bit_def bit_location_def at_opt_def ternary_ToKnownBitsValues_def)
  then show ?thesis using query mask_analysable e(1) st mask_run(1) val by auto
qed

text \<open>C17: The queries about whole nodes are sound. After \<open>Populate\<close>, \<open>MinUnsignedValue\<close> and \<open>MaxUnsignedValue\<close> bound the
  value of the node in every run, the set of \<open>GetIntervals\<close> covers it, and nodes reported equal (not equal) as unsigned numbers are, also of different widths.\<close>

theorem ternary_node_queries_sound:
  assumes "bignum B num" and "verified_package pkg channels" and "calls_ranked pkg rank" and "i < length pkg" and "rank i \<le> depth"
    and "list_all (\<lambda>(n, nd). analysable (pkg ! i) nd) (fn_nodes (pkg ! i))"
    and "TernaryQueryEngine_Populate (pkg ! i) rv TernaryQueryEngine_new = returnS (rf, e)"
    and "args_typed (pkg ! i) args" and "function_run B (InterpretFunction B depth pkg) pkg (pkg ! i) args = returnS st"
    and "GetType (pkg ! i) a = Some (BitsType wa)" and "GetType (pkg ! i) b = Some (BitsType wb)"
  shows "\<exists>x y. node_values st a = Some (VBits x) \<and> node_values st b = Some (VBits y) \<and>
    (\<exists>lo hi. MinUnsignedValue (pkg ! i) e a = Some lo \<and> MaxUnsignedValue (pkg ! i) e a = Some hi \<and>
      bits_ULessThanOrEqual lo x \<and> bits_ULessThanOrEqual x hi) \<and>
    (\<exists>tree s. GetIntervals B (pkg ! i) e a = Some tree \<and> ltt_Get tree [] = Some s \<and> IntervalSet_Covers s x = Some True) \<and>
    (\<exists>r. NodesKnownUnsignedEquals (pkg ! i) e a b = Some r \<and> (r \<longrightarrow> bits_UEqual x y)) \<and>
    (\<exists>r. NodesKnownUnsignedNotEquals (pkg ! i) e a b = Some r \<and> (r \<longrightarrow> \<not> bits_UEqual x y))"
proof -
  note eng = populated_engine[OF assms(1-7)]
  have run: "run_of B (InterpretFunction B depth pkg) pkg (pkg ! i) st" using assms(8,9) by (auto simp: run_of_def)
  note env = package_env[OF assms(1-5)]
  obtain x xs where x: "node_values st a = Some (VBits x)" "rep x xs" "length xs = wa" using run_bits[OF env run assms(10)] by blast
  obtain y ys where y: "node_values st b = Some (VBits y)" "rep y ys" using run_bits[OF env run assms(11)] by blast
  have trk: "IsTracked e a" "IsTracked e b" using eng(2) assms(10,11) by blast+
  show ?thesis
    using x(1) y(1) unsigned_bounds_sound[OF eng(1) run assms(10) x] intervals_sound[OF assms(1) eng(1) run trk(1) x(1,2)]
      nodes_equal_sound[OF eng(1) run trk x(1,2) y] by blast
qed

theorem ternary_node_queries_sound_witness:
  "\<exists>rf e st x y. TernaryQueryEngine_Populate mask_function (Some 3) TernaryQueryEngine_new = returnS (rf, e) \<and>
    function_run int_bn (InterpretFunction int_bn 1 [mask_function]) [mask_function] mask_function mask_args = returnS st \<and>
    node_values st 2 = Some (VBits x) \<and> node_values st 3 = Some (VBits y) \<and>
    (\<exists>hi. MaxUnsignedValue mask_function e 2 = Some hi \<and> bits_ULessThanOrEqual x hi)"
proof -
  obtain rf e where e: "TernaryQueryEngine_Populate mask_function (Some 3) TernaryQueryEngine_new = returnS (rf, e)" using mask_engine by blast
  obtain st where st: "function_run int_bn (InterpretFunction int_bn 1 [mask_function]) [mask_function] mask_function mask_args = returnS st"
    using mask_run(2) by blast
  have ty: "GetType mask_function 2 = Some (BitsType 4)" "GetType mask_function 3 = Some (BitsType 1)"
    by (simp_all add: GetType_def GetNode_def mask_function_def mk_node_def)
  note query = ternary_node_queries_sound[OF int_bignum.bignum_axioms mask_verified, of 0 1 "Some 3" rf e mask_args st 2 4 3 1]
  show ?thesis using query mask_analysable e st mask_run(1) ty by (simp del: One_nat_def) blast
qed

section \<open>Aborts\<close>

text \<open>The verifier accepts the negation of a value without bits; the analysis aborts on it.\<close>

definition empty_neg :: ir_function where
  "empty_neg = \<lparr>fn_nodes = [(0, mk_node Param [] (BitsType 0) 1 ''x''), (1, mk_node (UnOp Op_Neg) [0] (BitsType 0) 2 [])],
     fn_params = [0], fn_return = 1\<rparr>"

lemma empty_neg_aborts:
  "verified_package [empty_neg] []" "TernaryQueryEngine_Populate empty_neg (Some 1) TernaryQueryEngine_new = None"
proof -
  have "FunctionBase_Accept empty_neg trivial_visitor () = returnS ()"
    by (rule FunctionBase_Accept_ranked[where rank = "\<lambda>n. n"]; auto simp: empty_neg_def mk_node_def operands_ranked_def node_ids_def)
  then have "VerifyFunction [empty_neg] [] empty_neg = returnS ()"
    by (auto simp: verify_simps NodeChecker_UnOp_def NodeChecker_HandleNeg_def ExpectAllSameBitsType_def empty_neg_def mk_node_def Let_def less_Suc_eq)
  moreover have "wf_function [empty_neg] empty_neg"
    by (auto simp: wf_function_def interpretable_def interpretable_op_def has_result_def sets_value_def read_operands_def bits_operand_def
        empty_neg_def mk_node_def GetNode_def operand_type_def operand_def at_opt_def GetType_def param_type_def)
  ultimately show "verified_package [empty_neg] []" by (simp add: verified_package_def)
  show "TernaryQueryEngine_Populate empty_neg (Some 1) TernaryQueryEngine_new = None" by code_simp
qed

text \<open>Of nodes that the engine does not track, \<open>NodesKnownUnsignedNotEquals\<close> knows nothing and \<open>NodesKnownUnsignedEquals\<close> aborts.\<close>

lemma untracked_equals_aborts:
  "NodesKnownUnsignedNotEquals mask_function TernaryQueryEngine_new 2 3 = Some False"
  "NodesKnownUnsignedEquals mask_function TernaryQueryEngine_new 2 3 = None"
  by code_simp+

end
