(* ===== verification/Xls_Equivalence.thy ===== *)
theory Xls_Equivalence
  imports Xls_Runs
begin

text \<open>
  Two functions whose nodes compute the same values. The visit of a node depends on its operation, its type, and on the
  values and types of its operands only; so a function whose nodes read equal values runs like the original.
\<close>

section \<open>What a visit depends on\<close>

definition reads_same :: "ir_function \<Rightarrow> ir_node \<Rightarrow> interp \<Rightarrow> ir_function \<Rightarrow> ir_node \<Rightarrow> interp \<Rightarrow> bool" where
  "reads_same f nd st f' nd' st' \<longleftrightarrow> node_op nd' = node_op nd \<and> node_type nd' = node_type nd \<and>
     list_all2 (\<lambda>a' a. node_values st' a' = node_values st a \<and> GetType f' a' = GetType f a) (node_operands nd') (node_operands nd)"

definition same_result :: "nat \<Rightarrow> interp statusor option \<Rightarrow> interp statusor option \<Rightarrow> bool" where
  "same_result n r r' \<longleftrightarrow> (\<forall>s. r = returnS s \<longrightarrow> (\<exists>s'. r' = returnS s' \<and> node_values s' n = node_values s n))"

named_theorems same_intros

lemma same_SetValueResult [same_intros]:
  "node_type nd' = node_type nd \<Longrightarrow> node_values st' n = None \<Longrightarrow> same_result n (SetValueResult n nd v st) (SetValueResult n nd' v st')"
  by (auto simp: same_result_def SetValueResult_def split: if_splits bind_splits)

lemma same_bind [same_intros]: "(\<And>x. m = Some x \<Longrightarrow> same_result n (g x) (g' x)) \<Longrightarrow> same_result n (m \<bind> g) (m \<bind> g')"
  by (cases m) (auto simp: same_result_def)

lemma same_bindS [same_intros]: "(\<And>x. m = returnS x \<Longrightarrow> same_result n (g x) (g' x)) \<Longrightarrow> same_result n (bindS m g) (bindS m g')"
  by (auto simp: same_result_def bindS_eq_returnS)

lemma same_error [simp]: "same_result n (errorS e) r'" "same_result n None r'"
  by (simp_all add: same_result_def)

lemma same_SetBitsResult [same_intros]:
  "node_type nd' = node_type nd \<Longrightarrow> node_values st' n = None \<Longrightarrow> same_result n (SetBitsResult n nd b st) (SetBitsResult n nd' b st')"
  by (auto simp: SetBitsResult_def BitCountOrDie_def intro!: same_intros)

lemma same_SetUint64Result [same_intros]:
  "node_type nd' = node_type nd \<Longrightarrow> node_values st' n = None \<Longrightarrow> same_result n (SetUint64Result n nd b st) (SetUint64Result n nd' b st')"
  by (auto simp: SetUint64Result_def BitCountOrDie_def intro!: same_intros)

lemma same_Map_loop [same_intros]:
  "(\<And>rs t t'. node_values t' = node_values st' \<Longrightarrow> same_result n (k (rs, t)) (k' (rs, t'))) \<Longrightarrow>
   same_result n (bindS (Map_loop call g es results st) k) (bindS (Map_loop call g es results st') k')"
proof (induction es arbitrary: results st st')
  case (Cons e es)
  show ?case by (auto simp: bindS_assoc intro!: same_bindS Cons)
qed simp

lemma same_CountedFor_loop [same_intros]:
  "(\<And>x t t'. node_values t' = node_values st' \<Longrightarrow> same_result n (k (x, t)) (k' (x, t'))) \<Longrightarrow>
   same_result n (bindS (CountedFor_loop call body invariants width stride trips iv s st) k)
     (bindS (CountedFor_loop call body invariants width stride trips iv s st') k')"
proof (induction trips arbitrary: iv s st st')
  case (Suc trips)
  have *: "bindS (m \<bind> g) k = m \<bind> (\<lambda>x. bindS (g x) k)" for m :: "bits option" and g k by (cases m) simp_all
  show ?case by (auto simp: * bindS_assoc intro!: same_bind same_bindS Suc)
qed simp

lemma DynamicCountedFor_loop_state:
  assumes "DynamicCountedFor_loop B call body invariants limit stride index s st = returnS (x, t)"
  shows "\<exists>t'. DynamicCountedFor_loop B call body invariants limit stride index s st' = returnS (x, t') \<and> node_values t' = node_values st'"
proof -
  have "\<forall>x t st'. r = Inr (x, t) \<longrightarrow> (\<exists>t'. DynamicCountedFor_loop B call body invariants limit stride index s st' = Some (Inr (x, t')))"
    if "DynamicCountedFor_loop B call body invariants limit stride index s st = Some r" for r
    using that
  proof (induction rule: DynamicCountedFor_loop.raw_induct[rotated, consumes 1, case_names step])
    case (step loop B call body invariants limit stride index s st r)
    show ?case
    proof (cases "bits_SEqual B index limit")
      case True
      then show ?thesis using step.hyps by (auto simp: DynamicCountedFor_loop.simps)
    next
      case False
      then obtain c where c: "call body (VBits index # s # invariants) = Some c" "(case c of Inl e \<Rightarrow> Some (Inl e) | Inr p \<Rightarrow> do {
          index' \<leftarrow> bits_Add B index stride;
          loop B call body invariants limit stride index' (fst p) (AddInterpreterEvents (snd p) st) }) = Some r"
        using step.hyps by (cases "call body (VBits index # s # invariants)") simp_all
      show ?thesis
      proof (cases c)
        case (Inr p)
        then obtain index' where i: "bits_Add B index stride = Some index'" "loop B call body invariants limit stride index' (fst p) (AddInterpreterEvents (snd p) st) = Some r"
          using c(2) by (cases "bits_Add B index stride") simp_all
        show ?thesis using step.IH[OF i(2)] i(1) c(1) Inr False by (subst DynamicCountedFor_loop.simps) simp
      qed (use c(2) in auto)
    qed
  qed
  then show ?thesis using assms DynamicCountedFor_loop_values unfolding returnS_def by fastforce
qed

lemma same_DynamicCountedFor_loop [same_intros]:
  assumes "\<And>x t t'. node_values t' = node_values st' \<Longrightarrow> same_result n (k (x, t)) (k' (x, t'))"
  shows "same_result n (bindS (DynamicCountedFor_loop B call body invariants limit stride index s st) k)
     (bindS (DynamicCountedFor_loop B call body invariants limit stride index s st') k')"
  unfolding same_result_def bindS_eq_returnS
proof (intro allI impI)
  fix r assume "\<exists>p. DynamicCountedFor_loop B call body invariants limit stride index s st = returnS p \<and> k p = returnS r"
  then obtain x t where x: "DynamicCountedFor_loop B call body invariants limit stride index s st = returnS (x, t)" "k (x, t) = returnS r" by auto
  obtain t' where t': "DynamicCountedFor_loop B call body invariants limit stride index s st' = returnS (x, t')" "node_values t' = node_values st'"
    using DynamicCountedFor_loop_state[OF x(1)] by blast
  then show "\<exists>s'. (\<exists>p. DynamicCountedFor_loop B call body invariants limit stride index s st' = returnS p \<and> k' p = returnS s') \<and> node_values s' n = node_values r n"
    using assms[OF t'(2)] x(2) unfolding same_result_def by blast
qed

section \<open>Equal reads\<close>

lemma reads_same_nth:
  "reads_same f nd st f' nd' st' \<Longrightarrow> (operand nd' i = None \<longleftrightarrow> operand nd i = None) \<and>
    (\<forall>a a'. operand nd i = Some a \<and> operand nd' i = Some a' \<longrightarrow> node_values st' a' = node_values st a \<and> GetType f' a' = GetType f a)"
  by (auto simp: reads_same_def list_all2_conv_all_nth operand_def at_opt_def split: if_splits)

lemma reads_operand:
  assumes "reads_same f nd st f' nd' st'" and "\<And>a a'. node_values st' a' = node_values st a \<Longrightarrow> GetType f' a' = GetType f a \<Longrightarrow> g' a' = g a"
  shows "operand nd' i \<bind> g' = operand nd i \<bind> g"
  using reads_same_nth[OF assms(1), of i] assms(2) by (cases "operand nd i"; cases "operand nd' i") auto

lemma Resolve_cong:
  assumes "node_values st' a' = node_values st a"
  shows "ResolveAsValue st' a' = ResolveAsValue st a" "ResolveAsBits st' a' = ResolveAsBits st a" "ResolveAsBool st' a' = ResolveAsBool st a"
    "ResolveAsBoundedUint64 st' a' = ResolveAsBoundedUint64 st a"
  using assms by (simp_all add: ResolveAsValue_def ResolveAsBits_def ResolveAsBool_def ResolveAsBoundedUint64_def fun_eq_iff)

lemma reads_map:
  assumes "reads_same f nd st f' nd' st'" and "\<And>a a'. node_values st' a' = node_values st a \<Longrightarrow> g' a' = g a"
  shows "map g' (drop k (node_operands nd')) = map g (drop k (node_operands nd))"
  using assms by (auto simp: reads_same_def list_all2_conv_all_nth intro!: nth_equalityI)

lemma reads_length: "reads_same f nd st f' nd' st' \<Longrightarrow> length (node_operands nd') = length (node_operands nd)"
  by (auto simp: reads_same_def dest: list_all2_lengthD)

lemma ArrayIndex_loop_cong:
  "list_all2 (\<lambda>a' a. node_values st' a' = node_values st a) as' as \<Longrightarrow> ArrayIndex_loop st' as' v = ArrayIndex_loop st as v"
proof (induction arbitrary: v rule: list_all2_induct)
  case (Cons a' as' a as)
  have "ArrayIndex_loop st' as' = ArrayIndex_loop st as" using Cons.IH by (rule ext)
  then show ?case using Resolve_cong(2)[OF Cons(1)] by simp
qed simp

lemma Trace_loop_cong:
  "list_all2 (\<lambda>a' a. node_values st' a' = node_values st a) as' as \<Longrightarrow> Trace_loop st' steps as' out = Trace_loop st steps as out"
proof (induction st steps as out arbitrary: as' rule: Trace_loop.induct)
  case (3 st fmt steps as out)
  show ?case
  proof (cases as)
    case (Cons b bs)
    then obtain b' bs' where b: "as' = b' # bs'" "node_values st' b' = node_values st b" "list_all2 (\<lambda>a' a. node_values st' a' = node_values st a) bs' bs"
      using "3.prems" by (auto simp: list_all2_Cons2)
    show ?thesis using "3.IH"[OF Cons _ _ b(3)] b(1) Cons Resolve_cong(1)[OF b(2)] by (auto intro!: Option.bind_cong)
  qed (use "3.prems" in simp)
qed auto

lemma reads_drop: "reads_same f nd st f' nd' st' \<Longrightarrow> list_all2 (\<lambda>a' a. node_values st' a' = node_values st a) (drop k (node_operands nd')) (drop k (node_operands nd))"
  by (auto simp: reads_same_def list_all2_conv_all_nth)

lemma reads_simps:
  assumes "reads_same f nd st f' nd' st'"
  shows "operand_bits st' nd' i = operand_bits st nd i" "operand_value st' nd' i = operand_value st nd i"
    "operand nd' i \<bind> ResolveAsBool st' = operand nd i \<bind> ResolveAsBool st"
    "ResolveAsBitsVector st' (node_operands nd') = ResolveAsBitsVector st (node_operands nd)"
    "ResolveAsBitsVector st' (drop k (node_operands nd')) = ResolveAsBitsVector st (drop k (node_operands nd))"
    "map (ResolveAsValue st') (node_operands nd') = map (ResolveAsValue st) (node_operands nd)"
    "map (ResolveAsValue st') (tl (node_operands nd')) = map (ResolveAsValue st) (tl (node_operands nd))"
    "map (ResolveAsValue st') (drop k (node_operands nd')) = map (ResolveAsValue st) (drop k (node_operands nd))"
    "map (\<lambda>a. ResolveAsValue st' a \<bind> Value_elements) (node_operands nd') = map (\<lambda>a. ResolveAsValue st a \<bind> Value_elements) (node_operands nd)"
    "ArrayIndex_loop st' (tl (node_operands nd')) v = ArrayIndex_loop st (tl (node_operands nd)) v"
    "Trace_loop st' steps (drop k (node_operands nd')) out = Trace_loop st steps (drop k (node_operands nd)) out"
    "length (node_operands nd') = length (node_operands nd)" "BitCountOrDie nd' = BitCountOrDie nd" "node_type nd' = node_type nd"
    "VerifyAllBitsTypes f' nd' = VerifyAllBitsTypes f nd"
proof -
  note R = assms
  show "operand_bits st' nd' i = operand_bits st nd i" "operand_value st' nd' i = operand_value st nd i"
    "operand nd' i \<bind> ResolveAsBool st' = operand nd i \<bind> ResolveAsBool st"
    unfolding operand_bits_def operand_value_def by (rule reads_operand[OF R], erule Resolve_cong)+
  show "ResolveAsBitsVector st' (node_operands nd') = ResolveAsBitsVector st (node_operands nd)"
    "ResolveAsBitsVector st' (drop k (node_operands nd')) = ResolveAsBitsVector st (drop k (node_operands nd))"
    unfolding ResolveAsBitsVector_def using reads_map[OF R Resolve_cong(2), where k = 0] reads_map[OF R Resolve_cong(2), where k = k] by simp_all
  show "map (ResolveAsValue st') (node_operands nd') = map (ResolveAsValue st) (node_operands nd)"
    "map (ResolveAsValue st') (tl (node_operands nd')) = map (ResolveAsValue st) (tl (node_operands nd))"
    "map (ResolveAsValue st') (drop k (node_operands nd')) = map (ResolveAsValue st) (drop k (node_operands nd))"
    using reads_map[OF R Resolve_cong(1), where k = 0] reads_map[OF R Resolve_cong(1), where k = 1] reads_map[OF R Resolve_cong(1), where k = k]
    by (simp_all add: drop_Suc)
  show "map (\<lambda>a. ResolveAsValue st' a \<bind> Value_elements) (node_operands nd') = map (\<lambda>a. ResolveAsValue st a \<bind> Value_elements) (node_operands nd)"
    by (rule reads_map[OF R, where k = 0, simplified]) (drule Resolve_cong(1), simp)
  show "ArrayIndex_loop st' (tl (node_operands nd')) v = ArrayIndex_loop st (tl (node_operands nd)) v"
    "Trace_loop st' steps (drop k (node_operands nd')) out = Trace_loop st steps (drop k (node_operands nd)) out"
    using ArrayIndex_loop_cong[OF reads_drop[OF R, of 1]] Trace_loop_cong[OF reads_drop[OF R, of k]] by (simp_all add: drop_Suc)
  show "length (node_operands nd') = length (node_operands nd)" by (rule reads_length[OF R])
  show "BitCountOrDie nd' = BitCountOrDie nd" "node_type nd' = node_type nd" using R by (simp_all add: reads_same_def BitCountOrDie_def)
  have "map (GetType f') (node_operands nd') = map (GetType f) (node_operands nd)"
    using R by (auto simp: reads_same_def list_all2_conv_all_nth intro!: nth_equalityI)
  then show "VerifyAllBitsTypes f' nd' = VerifyAllBitsTypes f nd" using R by (simp add: VerifyAllBitsTypes_def reads_same_def)
qed

lemma same_operand:
  assumes "reads_same f nd st f' nd' st'"
    and "\<And>a a'. node_values st' a' = node_values st a \<Longrightarrow> GetType f' a' = GetType f a \<Longrightarrow> same_result n (g a) (g' a')"
  shows "same_result n (operand nd i \<bind> g) (operand nd' i \<bind> g')"
  using reads_same_nth[OF assms(1), of i] assms(2) by (cases "operand nd i"; cases "operand nd' i") auto

lemma Visit_same:
  assumes R: "reads_same f nd st f' nd' st'" and fresh: "node_values st' n = None"
    and param: "node_op nd = Param \<Longrightarrow> same_result n (param n nd st) (param' n nd' st')" and sets: "sets_value nd"
  shows "same_result n (IrInterpreter_Visit B call pkg param f n nd st) (IrInterpreter_Visit B call pkg param' f' n nd' st')"
proof -
  have op: "node_op nd' = node_op nd" using R by (simp add: reads_same_def)
  note simps = IrInterpreter_Visit_def op handler_defs reads_simps[OF R] Let_def
  have shift: "same_result n (bits_shift g n nd st) (bits_shift g n nd' st')" for g
    unfolding bits_shift_def reads_simps[OF R]
    by (intro same_bind same_operand[OF R]) (drule Resolve_cong(4), simp only:, intro same_intros; simp add: reads_simps[OF R] fresh)
  show ?thesis
  proof (cases "node_op nd")
    case (BinOp b)
    show ?thesis
    proof (cases "b \<in> {Op_Shll, Op_Shra, Op_Shrl}")
      case True
      then show ?thesis using BinOp shift by (auto simp: IrInterpreter_Visit_def op handler_defs simp del: bits_shift_def)
    next
      case False
      then show ?thesis using BinOp fresh by (cases b) (auto simp: simps intro!: same_intros)
    qed
  next
    case (ArithOp op w)
    then show ?thesis using fresh by (cases op) (auto simp: simps intro!: same_intros)
  next
    case (PartialProductOp op w)
    then show ?thesis using fresh by (cases op) (auto simp: simps intro!: same_intros)
  next
    case (NaryOp op)
    then show ?thesis using fresh by (cases op) (auto simp: simps intro!: same_intros)
  next
    case (BitwiseReductionOp op)
    then show ?thesis using fresh by (cases op) (auto simp: simps intro!: same_intros)
  next
    case (CompareOp op)
    then show ?thesis using fresh by (cases op) (auto simp: simps intro!: same_intros)
  next
    case (UnOp op)
    then show ?thesis using fresh by (cases op) (auto simp: simps intro!: same_intros)
  next
    case (ExtendOp op w)
    then show ?thesis using fresh by (cases op) (auto simp: simps intro!: same_intros)
  next
    case (OneHot priority)
    then show ?thesis using fresh by (auto simp: simps intro!: same_intros split: option.split)
  next
    case (DynamicBitSlice w)
    have "same_result n (HandleDynamicBitSlice f w n nd st) (HandleDynamicBitSlice f' w n nd' st')"
      unfolding HandleDynamicBitSlice_def reads_simps[OF R]
      by (rule same_operand[OF R]) (drule Resolve_cong(2), auto simp: fresh reads_simps[OF R] intro!: same_intros)
    then show ?thesis using DynamicBitSlice by (simp add: IrInterpreter_Visit_def op)
  next
    case (ArraySlice w)
    have "same_result n (HandleArraySlice w n nd st) (HandleArraySlice w n nd' st')"
      unfolding HandleArraySlice_def reads_simps[OF R]
      by (intro same_bind same_operand[OF R]) (drule Resolve_cong(4), auto simp: fresh reads_simps[OF R] intro!: same_intros)
    then show ?thesis using ArraySlice by (simp add: IrInterpreter_Visit_def op)
  next
    case (Invoke g)
    have "operand_value st' nd' = operand_value st nd" by (rule ext) (rule reads_simps[OF R])
    then show ?thesis using Invoke fresh by (auto simp: simps HandleInvoke_def intro!: same_intros)
  next
    case (Map g)
    then show ?thesis using fresh by (auto simp: simps HandleMap_def intro!: same_intros)
  next
    case (CountedFor t s g)
    then show ?thesis using fresh by (auto simp: simps HandleCountedFor_def intro!: same_intros)
  next
    case (DynamicCountedFor g)
    then show ?thesis using fresh by (auto simp: simps HandleDynamicCountedFor_def intro!: same_intros)
  next
    case PrioritySelect
    then show ?thesis using fresh by (auto simp: simps intro!: same_intros split: option.split)
  next
    case Param
    then show ?thesis using param by (simp add: IrInterpreter_Visit_def op)
  next
    case (Cover label)
    then show ?thesis using sets by (simp add: sets_value_def)
  qed (use fresh in \<open>auto simp: simps intro!: same_intros\<close>)
qed

section \<open>Equal runs\<close>

text \<open>
  \<open>mirrors f st vals f'\<close>: a node of \<open>f'\<close> is a node of \<open>f\<close> with the same operation and type, and operands with the values
  that the operands have at the end \<open>st\<close> of a run of \<open>f\<close>, or it is a new literal. \<open>vals\<close> are the values of the nodes of \<open>f'\<close>.
\<close>

definition mirrored_node :: "ir_function \<Rightarrow> interp \<Rightarrow> (nat \<Rightarrow> xvalue option) \<Rightarrow> ir_function \<Rightarrow> nat \<Rightarrow> ir_node \<Rightarrow> bool" where
  "mirrored_node f st vals f' n nd' \<longleftrightarrow> (case GetNode f n of
     Some nd \<Rightarrow> vals n = node_values st n \<and> node_op nd' = node_op nd \<and> node_type nd' = node_type nd \<and>
       list_all2 (\<lambda>a' a. vals a' = node_values st a \<and> GetType f' a' = GetType f a) (node_operands nd') (node_operands nd)
   | None \<Rightarrow> \<exists>v. node_op nd' = Literal v \<and> node_operands nd' = [] \<and> vals n = Some v \<and> has_type v (node_type nd'))"

definition mirrors :: "ir_function \<Rightarrow> interp \<Rightarrow> (nat \<Rightarrow> xvalue option) \<Rightarrow> ir_function \<Rightarrow> bool" where
  "mirrors f st vals f' \<longleftrightarrow> distinct (map fst (fn_nodes f')) \<and> (\<exists>rank. operands_ranked f' rank) \<and> fn_params f' = fn_params f \<and>
     (\<forall>n nd'. GetNode f' n = Some nd' \<longrightarrow> mirrored_node f st vals f' n nd')"

lemma mirrors_type: "mirrors f st vals f' \<Longrightarrow> n \<in> node_ids f' \<Longrightarrow> n \<in> node_ids f \<Longrightarrow> GetType f' n = GetType f n"
  unfolding mirrors_def mirrored_node_def GetNode_ids by (elim conjE exE allE impE) (assumption, auto simp: GetType_def)

lemma mirrors_operands: "mirrors f st vals f' \<Longrightarrow> GetNode f' n = Some nd' \<Longrightarrow> set (node_operands nd') \<subseteq> node_ids f'"
  by (auto simp: mirrors_def operands_ranked_def dest!: GetNode_in)

lemma Param_same:
  assumes "fn_params f' = fn_params f" and "node_type nd' = node_type nd" and "node_values st' n = None"
  shows "same_result n (FunctionInterpreter_HandleParam f args n nd st) (FunctionInterpreter_HandleParam f' args n nd' st')"
  using assms by (auto simp: FunctionInterpreter_HandleParam_def GetParamIndex_def intro!: same_intros)

lemma run_values:
  assumes "fn_env B num call pkg channels f" and "run_of B call pkg f st"
  shows "node_values st n = None \<longleftrightarrow> n \<notin> valued f"
proof -
  have "typed_state f (node_ids f \<inter> valued f) st" using run_of_visits[OF assms] by blast
  moreover have "valued f \<subseteq> node_ids f" by (auto simp: valued_def has_result_def GetNode_ids split: option.splits)
  ultimately show ?thesis unfolding typed_state_def by (metis Int_absorb1 option.distinct(1))
qed

text \<open>The visit of a node of the new function, after visits that gave its operands their values in the run of the old one.\<close>

lemma mirrored_visit:
  assumes env: "fn_env B num call pkg channels f" and args: "args_typed f args" and run: "function_run B call pkg f args = returnS st"
    and mir: "mirrors f st vals f'" and nd': "GetNode f' n = Some nd'" and fresh: "node_values s n = None"
    and ops: "\<forall>a\<in>set (node_operands nd'). node_values s a = vals a"
  shows "\<exists>s'. IrInterpreter_Visit B call pkg (FunctionInterpreter_HandleParam f' args) f' n nd' s = returnS s' \<and>
    node_values s' = (node_values s)(n := vals n)"
proof (cases "GetNode f n")
  case None
  then obtain v where "node_op nd' = Literal v" "vals n = Some v" "has_type v (node_type nd')"
    using mir nd' unfolding mirrors_def mirrored_node_def by fastforce
  then show ?thesis using fresh ValueConformsToType_typed by (simp add: IrInterpreter_Visit_def HandleLiteral_def SetValueResult_def)
next
  case (Some nd)
  then have "vals n = node_values st n \<and> node_op nd' = node_op nd \<and> node_type nd' = node_type nd \<and>
      list_all2 (\<lambda>a' a. vals a' = node_values st a \<and> GetType f' a' = GetType f a) (node_operands nd') (node_operands nd)"
    using mir nd' unfolding mirrors_def mirrored_node_def by fastforce
  then have nd: "GetNode f n = Some nd" "node_op nd' = node_op nd" "node_type nd' = node_type nd"
      "list_all2 (\<lambda>a' a. vals a' = node_values st a \<and> GetType f' a' = GetType f a) (node_operands nd') (node_operands nd)"
      and vn: "vals n = node_values st n"
    using Some by simp_all
  have run': "run_of B call pkg f st" using args run by (auto simp: run_of_def)
  show ?thesis
  proof (cases "sets_value nd")
    case False
    then have "node_values st n = None" using run_values[OF env run'] nd(1) by (simp add: valued_def has_result_def)
    moreover have "IrInterpreter_Visit B call pkg (FunctionInterpreter_HandleParam f' args) f' n nd' s = returnS s"
      using False nd(2) by (cases "node_op nd") (auto simp: sets_value_def IrInterpreter_Visit_def HandleCover_def)
    ultimately show ?thesis using fresh vn by (simp add: fun_upd_idem)
  next
    case True
    have "visited_in (IrInterpreter_Visit B call pkg (FunctionInterpreter_HandleParam f args) f) f st n"
      using function_run_visits[of B num pkg channels f call args] env args run nd(1) GetNode_ids by (fastforce simp: fn_env_def)
    then obtain V st0 st1 where v: "ready f V n nd st0" "set (node_operands nd) \<inter> valued f \<subseteq> V"
        "IrInterpreter_Visit B call pkg (FunctionInterpreter_HandleParam f args) f n nd st0 = returnS st1"
        "typed_state f (insert n V) st1" "node_values st0 \<subseteq>\<^sub>m node_values st" "node_values st1 \<subseteq>\<^sub>m node_values st"
      using nd(1) True unfolding visited_in_def ready_def by auto
    have old: "node_values st0 a = node_values st a" if "a \<in> set (node_operands nd)" for a
    proof (cases "a \<in> valued f")
      case True
      then have "a \<in> V" using v(2) that by blast
      then obtain x where "node_values st0 a = Some x" using v(1) unfolding ready_def typed_state_def by blast
      then show ?thesis using v(5) by (force simp: map_le_def)
    next
      case False
      then have "node_values st a = None" using run_values[OF env run'] by blast
      then show ?thesis using v(5) by (force simp: map_le_def dom_def)
    qed
    have R: "reads_same f nd st0 f' nd' s"
      using nd(2-4) old ops unfolding reads_same_def by (auto simp: list_all2_conv_all_nth)
    have "same_result n (IrInterpreter_Visit B call pkg (FunctionInterpreter_HandleParam f args) f n nd st0)
        (IrInterpreter_Visit B call pkg (FunctionInterpreter_HandleParam f' args) f' n nd' s)"
      using mir by (intro Visit_same[OF R fresh _ True] Param_same[OF _ nd(3) fresh]) (simp add: mirrors_def)
    then obtain s' where s': "IrInterpreter_Visit B call pkg (FunctionInterpreter_HandleParam f' args) f' n nd' s = returnS s'"
        "node_values s' n = node_values st1 n" using v(3) unfolding same_result_def by blast
    obtain x where "node_values st1 n = Some x" using v(4) unfolding typed_state_def by blast
    then have n: "node_values s' n = node_values st n" using s'(2) v(6) by (force simp: map_le_def)
    have "sets_value nd'" using True nd(2) by (simp add: sets_value_def)
    then obtain y where "node_values s' = (node_values s)(n \<mapsto> y)"
      using Visit_sets_only[where param = "FunctionInterpreter_HandleParam f' args" and B = B and call = call and pkg = pkg and f = f' and n = n and st = s, OF _ Param_sets_only]
        s'(1) unfolding sets_only_def by blast
    then show ?thesis using s'(1) n vn by auto
  qed
qed

lemma mirrored_run:
  assumes env: "fn_env B num call pkg channels f" and args: "args_typed f args" and run: "function_run B call pkg f args = returnS st"
    and mir: "mirrors f st vals f'"
  shows "\<exists>st'. function_run B call pkg f' args = returnS st' \<and> (\<forall>n\<in>node_ids f'. node_values st' n = vals n)"
proof -
  let ?h = "IrInterpreter_Visit B call pkg (FunctionInterpreter_HandleParam f' args) f'"
  have dist: "distinct (map fst (fn_nodes f'))" and "\<exists>rank. operands_ranked f' rank" using mir by (simp_all add: mirrors_def)
  then obtain ns where ns: "topological f' {} ns" "set ns = node_ids f'" "function_run B call pkg f' args = run_nodes f' ?h ns init_interp"
    using FunctionBase_Accept_order[OF FunctionBase_Accept_ranked[OF _ dist] dist, where 's = interp] unfolding function_run_def by metis
  have "\<exists>s'. run_nodes f' ?h ns s = returnS s' \<and> (\<forall>n\<in>visited \<union> set ns. node_values s' n = vals n)"
    if "topological f' visited ns" "\<forall>n\<in>visited. node_values s n = vals n" "\<forall>n. n \<notin> visited \<longrightarrow> node_values s n = None" for ns s visited
    using that
  proof (induction ns arbitrary: visited s)
    case (Cons n ns)
    obtain nd' where nd': "GetNode f' n = Some nd'" "n \<notin> visited" "set (node_operands nd') \<subseteq> visited" "topological f' (insert n visited) ns"
      using Cons.prems(1) by (auto split: option.splits)
    obtain s1 where s1: "?h n nd' s = returnS s1" "node_values s1 = (node_values s)(n := vals n)"
      using mirrored_visit[OF env args run mir nd'(1)] Cons.prems(2,3) nd'(2,3) by blast
    have "\<exists>s'. run_nodes f' ?h ns s1 = returnS s' \<and> (\<forall>m\<in>insert n visited \<union> set ns. node_values s' m = vals m)"
      using Cons.prems(2,3) s1(2) by (intro Cons.IH[OF nd'(4)]) auto
    then show ?case using nd'(1) s1(1) by auto
  qed simp
  from this[OF ns(1), of init_interp] show ?thesis using ns(2,3) by (auto simp: init_interp_def)
qed

lemma InterpretFunction_typed:
  assumes "args_typed f args"
  shows "length args = length (fn_params f)" "check_args f 0 args = returnS ()"
proof -
  show "length args = length (fn_params f)" using assms by (auto simp: args_typed_def dest: list_all2_lengthD)
  show "check_args f 0 args = returnS ()"
    using assms by (intro check_args_ok) (auto simp: args_typed_def list_all2_conv_all_nth param_type_Some)
qed

text \<open>Interpreting the two functions.\<close>

lemma mirrored_interpretation:
  assumes env: "fn_env B num (InterpretFunction B depth pkg) pkg channels f" and args: "args_typed f args"
    and mir: "\<And>st. run_of B (InterpretFunction B depth pkg) pkg f st \<Longrightarrow> \<exists>vals. mirrors f st vals f' \<and> vals (fn_return f') = node_values st (fn_return f)"
    and ids: "fn_return f' \<in> node_ids f'" "set (fn_params f) \<subseteq> node_ids f' \<inter> node_ids f"
  shows "\<exists>v events events'. InterpretFunction B (Suc depth) pkg f args = returnS (v, events) \<and> InterpretFunction B (Suc depth) pkg f' args = returnS (v, events')"
proof -
  let ?call = "InterpretFunction B depth pkg"
  obtain st where st: "function_run B ?call pkg f args = returnS st" "run_of B ?call pkg f st" using run_exists[OF env args] by blast
  obtain vals where m: "mirrors f st vals f'" "vals (fn_return f') = node_values st (fn_return f)" using mir[OF st(2)] by blast
  obtain st' where st': "function_run B ?call pkg f' args = returnS st'" "\<forall>n\<in>node_ids f'. node_values st' n = vals n"
    using mirrored_run[OF env args st(1) m(1)] by blast
  have "has_result f (fn_return f)" using env by (simp add: fn_env_def wf_function_def)
  then obtain v where v: "node_values st (fn_return f) = Some v" using run_values[OF env st(2), of "fn_return f"] by (auto simp: valued_def)
  have params: "fn_params f' = fn_params f" using m by (simp add: mirrors_def)
  have "args_typed f' args"
    using args ids(2) mirrors_type[OF m(1)] unfolding args_typed_def params by (auto simp: list_all2_conv_all_nth subset_iff)
  then show ?thesis
    using InterpretFunction_typed[OF args] InterpretFunction_typed[of f' args] st(1) st' v m ids(1) unfolding function_run_def
    by (simp add: InterpretFunction_step_def ResolveAsValue_def)
qed

lemma verify_params_set: "verify_params f ps P N = returnS Q \<Longrightarrow> Q = P \<union> set ps"
proof (induction ps arbitrary: P N)
  case (Cons p ps)
  then obtain nd where "GetNode f p = Some nd" "verify_params f ps (insert p P) (insert (node_name nd) N) = returnS Q"
    by (auto simp: bind_returnS_iff split: if_splits)
  then show ?case using Cons.IH by auto
qed simp

lemma verified_params:
  assumes ok: "VerifyFunction pkg channels f = returnS ()" and dist: "distinct (map fst (fn_nodes f))"
  shows "n \<in> set (fn_params f) \<longleftrightarrow> (\<exists>nd. GetNode f n = Some nd \<and> node_op nd = Param)"
proof -
  let ?ps = "filter (\<lambda>(n, nd). node_op nd = Param) (fn_nodes f)"
  have "VerifyFunctionBase pkg channels f = returnS ()" using VerifyFunction_base[OF ok] .
  then obtain Q where Q: "verify_params f (fn_params f) {} {} = returnS Q" "\<forall>(n, nd)\<in>set ?ps. n \<in> Q" "card Q = length ?ps"
    unfolding VerifyFunctionBase_def bindS_eq_returnS Let_def by (auto simp: expect_iff)
  have eq: "Q = set (fn_params f)" using verify_params_set[OF Q(1)] by simp
  have "card (fst ` set ?ps) = length ?ps" using distinct_card[of "map fst ?ps"] distinct_map_filter[OF dist] by simp
  then have "fst ` set ?ps = Q" using Q(2,3) eq by (intro card_subset_eq) auto
  then show ?thesis using eq GetNode_member[OF dist] by (force dest: GetNode_in)
qed

end
