(* ===== verification/Xls_Dce.thy ===== *)
theory Xls_Dce
  imports Xls_Equivalence Xls_Node_Iterator
begin

text \<open>
  Dead code elimination, \<open>xls/passes/dce_pass.cc\<close>, with the removal of nodes from a function (\<open>xls/ir/function_base.cc\<close>).
  The pass is compared with the set of nodes from which a root (the return value or a side effect) can be reached, and the
  function it leaves computes what the original computes.
\<close>

section \<open>The pass\<close>

definition HasImplicitUse :: "ir_function \<Rightarrow> nat \<Rightarrow> bool" where
  "HasImplicitUse f n \<longleftrightarrow> n = fn_return f"

definition RemoveNode :: "ir_function \<Rightarrow> nat \<Rightarrow> ir_function statusor option" where
  "RemoveNode f n = do {
     nd \<leftarrow> GetNode f n;
     bindS (RET_CHECK (node_users f n = [])) (\<lambda>_.
       bindS (RET_CHECK (\<not> HasImplicitUse f n)) (\<lambda>_.
         returnS (f\<lparr>fn_nodes := filter (\<lambda>(m, _). m \<noteq> n) (fn_nodes f),
                    fn_params := (if node_op nd = Param then filter (\<lambda>p. p \<noteq> n) (fn_params f) else fn_params f)\<rparr>)))
   }"

definition is_deletable :: "ir_function \<Rightarrow> nat \<Rightarrow> ir_node \<Rightarrow> bool" where
  "is_deletable f n nd \<longleftrightarrow> \<not> HasImplicitUse f n \<and> \<not> OpIsSideEffecting (node_op nd)"

fun push_operands :: "ir_function \<Rightarrow> nat list \<Rightarrow> nat set \<Rightarrow> nat list \<Rightarrow> nat list option" where
  "push_operands f [] unique_operands worklist = Some worklist"
| "push_operands f (a # operands) unique_operands worklist =
     (if a \<in> unique_operands then push_operands f operands unique_operands worklist
      else do {
        nd \<leftarrow> GetNode f a;
        push_operands f operands (insert a unique_operands)
          (if length (node_users f a) = 1 \<and> is_deletable f a nd then worklist @ [a] else worklist)
      })"

lemma RemoveNode_returns:
  "RemoveNode f n = returnS f' \<longleftrightarrow> (\<exists>nd. GetNode f n = Some nd \<and> node_users f n = [] \<and> \<not> HasImplicitUse f n \<and>
     f' = f\<lparr>fn_nodes := filter (\<lambda>(m, _). m \<noteq> n) (fn_nodes f),
            fn_params := (if node_op nd = Param then filter (\<lambda>p. p \<noteq> n) (fn_params f) else fn_params f)\<rparr>)"
  by (cases "GetNode f n") (auto simp: RemoveNode_def)

lemma RemoveNode_shrinks: "RemoveNode f n = returnS f' \<Longrightarrow> length (fn_nodes f') < length (fn_nodes f)"
  unfolding RemoveNode_returns by (auto dest!: GetNode_in intro!: length_filter_less)

function dce_loop :: "ir_function \<Rightarrow> nat list \<Rightarrow> nat \<Rightarrow> (nat \<times> ir_function) statusor option" where
  "dce_loop f [] removed_count = returnS (removed_count, f)"
| "dce_loop f (n # worklist) removed_count = do {
     nd \<leftarrow> GetNode f n;
     worklist \<leftarrow> push_operands f (node_operands nd) {} worklist;
     bindS (RemoveNode f n) (\<lambda>f'. dce_loop f' worklist (removed_count + 1))
   }"
  by pat_completeness auto
termination
  by (relation "measure (\<lambda>(f, worklist, k). length (fn_nodes f))") (auto dest: RemoveNode_shrinks)

definition DeadCodeEliminationPass :: "ir_function \<Rightarrow> (bool \<times> ir_function) statusor option" where
  "DeadCodeEliminationPass f =
     bindS (dce_loop f [n. (n, nd) \<leftarrow> fn_nodes f, node_users f n = [] \<and> is_deletable f n nd] 0)
       (\<lambda>(removed_count, f'). returnS (removed_count > 0, f'))"

section \<open>Live nodes\<close>

inductive live :: "ir_function \<Rightarrow> nat \<Rightarrow> bool" for f where
  root: "GetNode f n = Some nd \<Longrightarrow> \<not> is_deletable f n nd \<Longrightarrow> live f n"
| used: "live f m \<Longrightarrow> GetNode f m = Some nd \<Longrightarrow> n \<in> set (node_operands nd) \<Longrightarrow> live f n"

text \<open>A function and what is left of it when nodes are removed that nothing kept uses.\<close>

definition dead :: "ir_function \<Rightarrow> nat set" where
  "dead f = {n. node_users f n = [] \<and> (\<exists>nd. GetNode f n = Some nd \<and> is_deletable f n nd)}"

definition restriction :: "ir_function \<Rightarrow> nat set \<Rightarrow> ir_function" where
  "restriction f K = f\<lparr>fn_nodes := filter (\<lambda>(n, nd). n \<in> K) (fn_nodes f)\<rparr>"

lemma GetNode_restriction: "GetNode (restriction f K) n = (if n \<in> K then GetNode f n else None)"
proof -
  have "map_of (filter (\<lambda>(n, nd). n \<in> K) xs) n = (if n \<in> K then map_of xs n else None)" for xs :: "(nat \<times> ir_node) list"
    by (induction xs) auto
  then show ?thesis by (simp add: GetNode_def restriction_def)
qed

lemma restriction_simps [simp]: "fn_return (restriction f K) = fn_return f" "fn_params (restriction f K) = fn_params f"
  "fn_nodes (restriction f K) = filter (\<lambda>(n, nd). n \<in> K) (fn_nodes f)" "node_ids (restriction f K) = node_ids f \<inter> K"
  by (auto simp: restriction_def node_ids_def)

lemma is_deletable_restriction [simp]: "is_deletable (restriction f K) n nd = is_deletable f n nd"
  by (simp add: is_deletable_def HasImplicitUse_def)

lemma node_users_restriction: "node_users (restriction f K) n = filter (\<lambda>m. m \<in> K) (node_users f n)"
proof -
  have "[m. (m, nd) \<leftarrow> filter (\<lambda>(n, nd). n \<in> K) xs, n \<in> set (node_operands nd)] = filter (\<lambda>m. m \<in> K) [m. (m, nd) \<leftarrow> xs, n \<in> set (node_operands nd)]"
    for xs :: "(nat \<times> ir_node) list"
    by (induction xs) auto
  then show ?thesis by (simp add: node_users_def)
qed

lemma restriction_restriction: "restriction (restriction f K) L = restriction f (K \<inter> L)"
  by (simp add: restriction_def case_prod_unfold)

text \<open>\<open>closed f K\<close>: every operand of a node in \<open>K\<close> is in \<open>K\<close>, and so is every root.\<close>

definition closed_nodes :: "ir_function \<Rightarrow> nat set \<Rightarrow> bool" where
  "closed_nodes f K \<longleftrightarrow> (\<forall>n nd. GetNode f n = Some nd \<longrightarrow> (n \<in> K \<longrightarrow> set (node_operands nd) \<subseteq> K) \<and> (\<not> is_deletable f n nd \<longrightarrow> n \<in> K))"

lemma live_closed: "closed_nodes f K \<Longrightarrow> live f n \<Longrightarrow> n \<in> K"
  by (rotate_tac, induction rule: live.induct) (auto simp: closed_nodes_def)

definition last_use :: "ir_function \<Rightarrow> nat \<Rightarrow> bool" where
  "last_use f a \<longleftrightarrow> length (node_users f a) = 1 \<and> (\<exists>nd. GetNode f a = Some nd \<and> is_deletable f a nd)"

lemma push_operands_ok:
  assumes "set as \<subseteq> node_ids f"
  shows "\<exists>ps. push_operands f as seen wl = Some (wl @ ps) \<and> distinct ps \<and> set ps = {a \<in> set as - seen. last_use f a}"
  using assms
proof (induction as arbitrary: seen wl)
  case (Cons a as)
  have as: "set as \<subseteq> node_ids f" using Cons.prems by simp
  show ?case
  proof (cases "a \<in> seen")
    case True
    then show ?thesis using Cons.IH[OF as, of seen wl] by auto
  next
    case False
    obtain nd where nd: "GetNode f a = Some nd" using Cons.prems GetNode_ids[of a f] by auto
    have step: "push_operands f (a # as) seen wl = push_operands f as (insert a seen) (if last_use f a then wl @ [a] else wl)"
      using False nd by (simp add: last_use_def)
    obtain ps where ps: "push_operands f as (insert a seen) (if last_use f a then wl @ [a] else wl) = Some ((if last_use f a then wl @ [a] else wl) @ ps)"
        "distinct ps" "set ps = {b \<in> set as - insert a seen. last_use f b}"
      using Cons.IH[OF as] by blast
    have "set ((if last_use f a then [a] else []) @ ps) = {b \<in> set (a # as) - seen. last_use f b}" using ps(3) False by auto
    moreover have "distinct ((if last_use f a then [a] else []) @ ps)" using ps(2,3) by auto
    ultimately show ?thesis unfolding step ps(1) by (intro exI[of _ "(if last_use f a then [a] else []) @ ps"]) auto
  qed
qed simp

lemma RemoveNode_dead:
  assumes "n \<in> dead f"
  shows "RemoveNode f n = returnS (restriction f (- {n}))"
proof -
  obtain nd where nd: "GetNode f n = Some nd" "is_deletable f n nd" "node_users f n = []" using assms by (auto simp: dead_def)
  have "node_op nd \<noteq> Param" using nd(2) by (auto simp: is_deletable_def OpIsSideEffecting_def)
  then show ?thesis using nd unfolding RemoveNode_returns by (auto simp: is_deletable_def restriction_def)
qed

lemma dead_after_removal:
  assumes wl: "well_linked f" and n: "n \<in> dead f" "GetNode f n = Some nd"
  shows "dead (restriction f (- {n})) = dead f - {n} \<union> {a \<in> set (node_operands nd). last_use f a}"
proof -
  have users: "filter (\<lambda>k. k \<noteq> n) (node_users f m) = [] \<longleftrightarrow> node_users f m = [] \<or> length (node_users f m) = 1 \<and> m \<in> set (node_operands nd)" for m
  proof -
    have dist: "distinct (node_users f m)" using distinct_node_users[OF wl] .
    have mem: "n \<in> set (node_users f m) \<longleftrightarrow> m \<in> set (node_operands nd)" using set_node_users[OF wl] n(2) by auto
    have "filter (\<lambda>k. k \<noteq> n) (node_users f m) = [] \<longleftrightarrow> set (node_users f m) \<subseteq> {n}" by (auto simp: filter_empty_conv)
    also have "\<dots> \<longleftrightarrow> node_users f m = [] \<or> length (node_users f m) = 1 \<and> n \<in> set (node_users f m)"
      using dist by (cases "node_users f m"; cases "tl (node_users f m)") auto
    finally show ?thesis using mem by simp
  qed
  have "n \<notin> set (node_operands nd)" using n set_node_users[OF wl, of n n] by (auto simp: dead_def)
  then show ?thesis using users by (auto simp: dead_def last_use_def GetNode_restriction node_users_restriction)
qed

lemma well_linked_removal:
  assumes "well_linked f" and "node_users f n = []"
  shows "well_linked (restriction f (- {n}))"
proof -
  have "n \<notin> set (node_operands nd)" if "(m, nd) \<in> set (fn_nodes f)" for m nd using assms(2) that unfolding node_users_Nil_iff by blast
  then show ?thesis using assms(1) by (fastforce simp: well_linked_def distinct_map inj_on_def)
qed

lemma dce_loop_ok:
  "well_linked f \<Longrightarrow> distinct worklist \<Longrightarrow> set worklist = dead f \<Longrightarrow>
   \<exists>K. dce_loop f worklist k = returnS (k + card (node_ids f - K), restriction f K) \<and> closed_nodes f K \<and> dead (restriction f K) = {}"
proof (induction f worklist k rule: dce_loop.induct)
  case (1 f k)
  have all: "restriction f UNIV = f" by (simp add: restriction_def)
  then show ?case using 1 by (intro exI[of _ UNIV]) (simp add: closed_nodes_def all)
next
  case (2 f n worklist k)
  let ?f1 = "restriction f (- {n})"
  have n: "n \<in> dead f" using 2(4) by auto
  then obtain nd where nd: "GetNode f n = Some nd" "is_deletable f n nd" "node_users f n = []" by (auto simp: dead_def)
  have "set (node_operands nd) \<subseteq> node_ids f" using 2(2) GetNode_in[OF nd(1)] by (auto simp: well_linked_def)
  then obtain ps where ps: "push_operands f (node_operands nd) {} worklist = Some (worklist @ ps)" "distinct ps" "set ps = {a \<in> set (node_operands nd). last_use f a}"
    using push_operands_ok[of "node_operands nd" f "{}" worklist] by auto
  have users: "n \<notin> set (node_operands x)" if "GetNode f m = Some x" for m x using nd(3) set_node_users[OF 2(2), of m n] that by auto
  have "set ps \<inter> dead f = {}" using ps(3) by (auto simp: last_use_def dead_def)
  then have "distinct (worklist @ ps)" "set (worklist @ ps) = dead ?f1"
    using 2(3,4) ps(2,3) dead_after_removal[OF 2(2) n nd(1)] by auto
  from "2.IH"[OF nd(1) ps(1) RemoveNode_dead[OF n] well_linked_removal[OF 2(2) nd(3)] this]
  obtain K where K: "dce_loop ?f1 (worklist @ ps) (k + 1) = returnS (k + 1 + card (node_ids ?f1 - K), restriction ?f1 K)" "closed_nodes ?f1 K" "dead (restriction ?f1 K) = {}"
    by blast
  have "node_ids f - (- {n} \<inter> K) = insert n (node_ids ?f1 - K)" "n \<notin> node_ids ?f1 - K" using nd(1) GetNode_ids by auto
  then have "card (node_ids f - (- {n} \<inter> K)) = card (node_ids ?f1 - K) + 1" by (simp add: node_ids_def)
  moreover have "closed_nodes f (- {n} \<inter> K)"
    unfolding closed_nodes_def
  proof (intro allI impI)
    fix m x assume x: "GetNode f m = Some x"
    have "(m \<in> K \<longrightarrow> set (node_operands x) \<subseteq> K) \<and> (\<not> is_deletable f m x \<longrightarrow> m \<in> K)" if "m \<noteq> n"
      using K(2)[unfolded closed_nodes_def, rule_format, of m x] x that by (simp add: GetNode_restriction)
    then show "(m \<in> - {n} \<inter> K \<longrightarrow> set (node_operands x) \<subseteq> - {n} \<inter> K) \<and> (\<not> is_deletable f m x \<longrightarrow> m \<in> - {n} \<inter> K)"
      using users[OF x] x nd(1,2) by (cases "m = n") auto
  qed
  ultimately show ?case using nd(1) ps(1) RemoveNode_dead[OF n] K(1,3)
    by (intro exI[of _ "- {n} \<inter> K"]) (simp add: restriction_restriction)
qed

text \<open>In a graph without cycles, every node that is left when nothing is dead reaches a root.\<close>

lemma kept_live:
  assumes wl: "well_linked f" and rank: "operands_ranked f rank" and closed: "closed_nodes f K" and none: "dead (restriction f K) = {}"
  shows "n \<in> node_ids f \<inter> K \<Longrightarrow> live f n"
proof -
  define top where "top = Max (rank ` node_ids f)"
  have bound: "rank m \<le> top" if "m \<in> node_ids f" for m using that by (simp add: top_def node_ids_def)
  show "n \<in> node_ids f \<inter> K \<Longrightarrow> live f n"
  proof (induction "top - rank n" arbitrary: n rule: less_induct)
    case less
    then obtain nd where nd: "GetNode f n = Some nd" using GetNode_ids by blast
    show ?case
    proof (cases "is_deletable f n nd")
      case True
      then have "node_users (restriction f K) n \<noteq> []" using none nd less.prems by (auto simp: dead_def GetNode_restriction)
      then obtain m where m: "m \<in> K" "m \<in> set (node_users f n)" by (auto simp: node_users_restriction filter_empty_conv)
      then obtain x where x: "GetNode f m = Some x" "n \<in> set (node_operands x)" using set_node_users[OF wl] by blast
      have "rank n < rank m" using rank GetNode_in[OF x(1)] x(2) by (auto simp: operands_ranked_def)
      moreover have "m \<in> node_ids f" using x(1) GetNode_ids by blast
      ultimately have "top - rank m < top - rank n" using bound[of m] by simp
      then have "live f m" using less.hyps[of m] m(1) \<open>m \<in> node_ids f\<close> by blast
      then show ?thesis using x by (rule live.used)
    qed (use nd in \<open>rule live.root\<close>)
  qed
qed

lemma DeadCodeElimination_exact:
  assumes wl: "well_linked f" and rank: "operands_ranked f rank"
  shows "DeadCodeEliminationPass f = returnS (\<exists>n\<in>node_ids f. \<not> live f n, restriction f {n. live f n})"
proof -
  have dist: "distinct (map fst (fn_nodes f))" using wl by (simp add: well_linked_def)
  let ?start = "[n. (n, nd) \<leftarrow> fn_nodes f, node_users f n = [] \<and> is_deletable f n nd]"
  have sub: "distinct (map fst xs) \<Longrightarrow> distinct [n. (n, nd) \<leftarrow> xs, P n nd]" for xs :: "(nat \<times> ir_node) list" and P
    by (induction xs) (force split: if_splits)+
  have "distinct ?start" by (rule sub[OF dist])
  moreover have "set ?start = dead f" using GetNode_member[OF dist] by (auto simp: dead_def split: if_splits dest: GetNode_in)
  ultimately obtain K where K: "dce_loop f ?start 0 = returnS (card (node_ids f - K), restriction f K)" "closed_nodes f K" "dead (restriction f K) = {}"
    using dce_loop_ok[OF wl, of ?start 0] by auto
  have live: "n \<in> K \<longleftrightarrow> live f n" if "n \<in> node_ids f" for n using kept_live[OF wl rank K(2,3)] live_closed[OF K(2)] that by blast
  then have "a \<in> K \<longleftrightarrow> live f a" if "(a, b) \<in> set (fn_nodes f)" for a b using that by (force simp: node_ids_def)
  then have "restriction f K = restriction f {n. live f n}"
    by (auto simp: restriction_def intro!: filter_cong arg_cong[where f = "\<lambda>xs. f\<lparr>fn_nodes := xs\<rparr>"])
  moreover have "card (node_ids f - K) > 0 \<longleftrightarrow> (\<exists>n\<in>node_ids f. \<not> live f n)" using live by (auto simp: card_gt_0_iff node_ids_def)
  ultimately show ?thesis using K(1) by (simp add: DeadCodeEliminationPass_def)
qed

section \<open>The same results\<close>

lemma mirrors_live:
  assumes "mirrors f st vals g"
  shows "mirrors f st vals (restriction g {n. live g n})"
proof -
  have ops: "live g a" if "live g n" "GetNode g n = Some nd" "a \<in> set (node_operands nd)" for n nd a using that by (rule live.used)
  obtain rank where g: "distinct (map fst (fn_nodes g))" "operands_ranked g rank" using assms by (auto simp: mirrors_def)
  have "operands_ranked (restriction g {n. live g n}) rank"
    using g GetNode_member[OF g(1)] unfolding operands_ranked_def by (auto 0 4 intro: live.used)
  moreover have "distinct (map fst (filter (\<lambda>(n, nd). live g n) (fn_nodes g)))" using g(1) by (auto simp: distinct_map inj_on_def)
  moreover have "mirrored_node f st vals (restriction g {n. live g n}) n x" if "GetNode g n = Some x" "live g n" for n x
  proof -
    have "GetType (restriction g {n. live g n}) a = GetType g a" if "a \<in> set (node_operands x)" for a
      using ops[OF \<open>live g n\<close> \<open>GetNode g n = Some x\<close> that] by (simp add: GetType_def GetNode_restriction)
    moreover have "mirrored_node f st vals g n x" using assms that(1) by (simp add: mirrors_def)
    ultimately show ?thesis unfolding mirrored_node_def by (auto split: option.splits elim!: list.rel_mono_strong)
  qed
  ultimately show ?thesis using assms unfolding mirrors_def by (auto simp: GetNode_restriction split: if_splits)
qed

lemma mirrors_refl: "well_linked f \<Longrightarrow> operands_ranked f rank \<Longrightarrow> mirrors f st (node_values st) f"
  by (auto simp: mirrors_def mirrored_node_def well_linked_def list_all2_same)

lemma dce_interpretation:
  assumes env: "fn_env B num (InterpretFunction B depth pkg) pkg channels f" and args: "args_typed f args"
  shows "\<exists>f' v events events'. DeadCodeEliminationPass f = returnS (\<exists>n\<in>node_ids f. \<not> live f n, f') \<and> f' = restriction f {n. live f n} \<and>
    InterpretFunction B (Suc depth) pkg f args = returnS (v, events) \<and> InterpretFunction B (Suc depth) pkg f' args = returnS (v, events')"
proof -
  let ?f' = "restriction f {n. live f n}"
  have ok: "VerifyFunction pkg channels f = returnS ()" and dist: "distinct (map fst (fn_nodes f))" and ret: "has_result f (fn_return f)"
    using env by (simp_all add: fn_env_def wf_function_def)
  obtain rank where wl: "well_linked f" and rank: "operands_ranked f rank" using fn_env_linked[OF env] by blast
  obtain nd where nd: "GetNode f (fn_return f) = Some nd" using ret by (auto simp: has_result_def split: option.splits)
  then have "live f (fn_return f)" by (intro live.root) (auto simp: is_deletable_def HasImplicitUse_def)
  then have ids: "fn_return ?f' \<in> node_ids ?f'" using nd by (auto simp: GetNode_ids)
  have "n \<in> node_ids ?f'" if n: "n \<in> set (fn_params f)" for n
  proof -
    obtain p where p: "GetNode f n = Some p" "node_op p = Param" using verified_params[OF ok dist] n by blast
    then have "live f n" by (intro live.root) (auto simp: is_deletable_def OpIsSideEffecting_def)
    then show ?thesis using p(1) by (auto simp: GetNode_ids)
  qed
  then have params: "set (fn_params f) \<subseteq> node_ids ?f' \<inter> node_ids f" by auto
  show ?thesis
    using mirrored_interpretation[OF env args _ ids params] mirrors_live[OF mirrors_refl[OF wl rank]] DeadCodeElimination_exact[OF wl rank] by auto
qed

text \<open>A function with an identity, a node whose operands are literals, and a node that nothing uses.\<close>

definition pass_function :: ir_function where
  "pass_function = \<lparr>fn_nodes = [
     (0, mk_node Param [] (BitsType 4) 1 ''x''),
     (1, mk_node (Literal (VBits (Bits_FromSpan [True, True, False, False]))) [] (BitsType 4) 2 []),
     (2, mk_node (BinOp Op_Add) [1, 1] (BitsType 4) 3 []),
     (3, mk_node (UnOp Op_Identity) [2] (BitsType 4) 4 ''six''),
     (4, mk_node (BinOp Op_Add) [0, 1] (BitsType 4) 5 []),
     (5, mk_node (BinOp Op_Add) [0, 3] (BitsType 4) 6 [])], fn_params = [0], fn_return = 5\<rparr>"

lemma pass_verified: "verified_package [pass_function] []" "calls_ranked [pass_function] (\<lambda>i. i)"
proof -
  have "FunctionBase_Accept pass_function trivial_visitor () = returnS ()"
    by (rule FunctionBase_Accept_ranked[where rank = "\<lambda>n. n"]; auto simp: pass_function_def mk_node_def operands_ranked_def node_ids_def)
  then have "VerifyFunction [pass_function] [] pass_function = returnS ()"
    by (auto simp: verify_simps NodeChecker_UnOp_def NodeChecker_HandleIdentity_def ExpectAllSameType_def ExpectAllSameBitsType_def pass_function_def mk_node_def Let_def Bits_FromSpan_typed less_Suc_eq)
  moreover have "wf_function [pass_function] pass_function"
    by (auto simp: wf_function_def interpretable_def interpretable_op_def has_result_def sets_value_def read_operands_def bits_operand_def
        pass_function_def mk_node_def Bits_FromSpan_typed GetNode_def operand_type_def operand_def at_opt_def GetType_def param_type_def)
  ultimately show "verified_package [pass_function] []" by (simp add: verified_package_def)
  show "calls_ranked [pass_function] (\<lambda>i. i)" by (simp add: calls_ranked_def callees_def pass_function_def mk_node_def)
qed

definition pass_args :: "xvalue list" where
  "pass_args = [VBits (Bits_FromSpan [True, False, True, False])]"

lemma pass_args_typed: "args_typed pass_function pass_args"
  by (simp add: args_typed_def pass_args_def pass_function_def mk_node_def GetType_def GetNode_def Bits_FromSpan_typed)

lemma pass_function_dce:
  "case DeadCodeEliminationPass pass_function of Some (Inr (changed, f')) \<Rightarrow> changed \<and> map fst (fn_nodes f') = [0, 1, 2, 3, 5] | _ \<Rightarrow> False"
  by code_simp

text \<open>C5: Dead code elimination is exact and keeps the meaning. On a function of a verified package, the pass returns, it keeps exactly the
  nodes from which the return value or a node with a side effect can be reached, it reports whether it removed a node, and the
  interpreter returns the same value for both functions on all arguments of the parameter types.\<close>

theorem dead_code_elimination_correct:
  assumes "bignum B num" and "verified_package pkg channels" and "calls_ranked pkg rank" and "i < length pkg" and "rank i \<le> depth"
    and "args_typed (pkg ! i) args"
  shows "\<exists>f' v events events'. DeadCodeEliminationPass (pkg ! i) = returnS (\<exists>n\<in>node_ids (pkg ! i). \<not> live (pkg ! i) n, f') \<and>
    f' = (pkg ! i)\<lparr>fn_nodes := filter (\<lambda>(n, nd). live (pkg ! i) n) (fn_nodes (pkg ! i))\<rparr> \<and>
    InterpretFunction B (Suc depth) pkg (pkg ! i) args = returnS (v, events) \<and> InterpretFunction B (Suc depth) pkg f' args = returnS (v, events')"
  using dce_interpretation[OF package_env[OF assms(1-5)] assms(6)] by (simp add: restriction_def)

theorem dead_code_elimination_correct_witness:
  "\<exists>f' v events events'. DeadCodeEliminationPass pass_function = returnS (True, f') \<and> map fst (fn_nodes f') = [0, 1, 2, 3, 5] \<and>
    InterpretFunction int_bn 2 [pass_function] pass_function pass_args = returnS (v, events) \<and>
    InterpretFunction int_bn 2 [pass_function] f' pass_args = returnS (v, events')"
proof -
  obtain f' where f': "DeadCodeEliminationPass pass_function = returnS (True, f')" "map fst (fn_nodes f') = [0, 1, 2, 3, 5]"
    using pass_function_dce by (auto simp: returnS_def split: option.splits sum.splits)
  then show ?thesis
    using dead_code_elimination_correct[OF int_bignum.bignum_axioms pass_verified, of 0 1 pass_args] pass_args_typed
    by (simp add: numeral_2_eq_2 del: One_nat_def InterpretFunction.simps) (auto simp: returnS_def)
qed

end
