(* ===== verification/Xls_Rewrite.thy ===== *)
theory Xls_Rewrite
  imports Xls_Dce
begin

text \<open>
  Rewriting a function: adding nodes and replacing the uses of a node (\<open>xls/ir/node.cc\<close>), the invariant \<open>rewritten\<close> of a
  pass that does so, and identity removal (\<open>xls/passes/identity_removal_pass.cc\<close>), which returns on every verified function
  and leaves one that computes what the original computes.
\<close>

section \<open>Replacing the uses of a node\<close>

text \<open>
  The users of a node are computed from the operands. The code keeps them in a set beside the operands; replacing a node by
  itself would empty that set and keep the operands, which is outside the model. The check that \<open>ReplaceUsesWith\<close> makes for
  this case stands for it and is not in the code; the passes below never reach it.
\<close>

definition ReplaceOperand :: "nat \<Rightarrow> nat \<Rightarrow> nat \<Rightarrow> ir_node \<Rightarrow> ir_node" where
  "ReplaceOperand this old_operand new_operand nd =
     (if this = new_operand then nd
      else nd\<lparr>node_operands := map (\<lambda>a. if a = old_operand then new_operand else a) (node_operands nd)\<rparr>)"

definition ReplaceImplicitUsesWith :: "ir_function \<Rightarrow> nat \<Rightarrow> nat \<Rightarrow> (bool \<times> ir_function) statusor option" where
  "ReplaceImplicitUsesWith f n replacement =
     (if n = fn_return f
      then bindS (RET_CHECK (GetNode f replacement \<noteq> None)) (\<lambda>_. returnS (True, f\<lparr>fn_return := replacement\<rparr>))
      else returnS (False, f))"

definition move_name :: "nat \<Rightarrow> ir_node \<Rightarrow> nat \<Rightarrow> ir_node \<Rightarrow> ir_function \<Rightarrow> ir_function" where
  "move_name n nd r rd f =
     (if node_op nd \<noteq> Param \<and> node_name nd \<noteq> [] \<and> node_name rd = []
      then f\<lparr>fn_nodes := map (\<lambda>(m, x). (m, if m = r then x\<lparr>node_name := node_name nd\<rparr> else if m = n then x\<lparr>node_name := []\<rparr> else x)) (fn_nodes f)\<rparr>
      else f)"

definition ReplaceUsesWith :: "ir_function \<Rightarrow> nat \<Rightarrow> nat \<Rightarrow> ir_function statusor option" where
  "ReplaceUsesWith f n replacement = do {
     nd \<leftarrow> GetNode f n;
     rd \<leftarrow> GetNode f replacement;
     bindS (RET_CHECK (node_type nd = node_type rd)) (\<lambda>_. do {
       CHECK (n \<noteq> replacement);
       let orig_users = node_users f n;
       let f1 = f\<lparr>fn_nodes := map (\<lambda>(u, x). (u, if u \<in> set orig_users then ReplaceOperand u n replacement x else x)) (fn_nodes f)\<rparr>;
       bindS (ReplaceImplicitUsesWith f1 n replacement) (\<lambda>(changed, f2). returnS (move_name n nd replacement rd f2))
     })
   }"

text \<open>The new node gets an address of its own and the next identifier of the package.\<close>

definition AddNode :: "ir_function \<Rightarrow> ir_node \<Rightarrow> nat \<times> ir_function" where
  "AddNode f nd = (let n = Suc (fold max (map fst (fn_nodes f)) 0) in
     (n, f\<lparr>fn_nodes := fn_nodes f @ [(n, nd)],
           fn_params := (if node_op nd = Param then fn_params f @ [n] else fn_params f)\<rparr>))"

definition AddNodeToFunctionAndReplace ::
    "ir_package \<Rightarrow> channel list \<Rightarrow> ir_function \<Rightarrow> nat \<Rightarrow> ir_node \<Rightarrow> ir_function statusor option" where
  "AddNodeToFunctionAndReplace pkg channels f n replacement = (let (r, f1) = AddNode f replacement in
     bindS (VerifyNode pkg channels f1 r replacement) (\<lambda>_. ReplaceUsesWith f1 n r))"

definition ReplaceUsesWithNew_Literal ::
    "ir_package \<Rightarrow> channel list \<Rightarrow> int \<Rightarrow> ir_function \<Rightarrow> nat \<Rightarrow> xvalue \<Rightarrow> ir_function statusor option" where
  "ReplaceUsesWithNew_Literal pkg channels next_node_id f n v = do {
     t \<leftarrow> GetTypeForValue v;
     AddNodeToFunctionAndReplace pkg channels f n
       \<lparr>node_op = Literal v, node_operands = [], node_type = t, node_id = next_node_id, node_name = []\<rparr>
   }"

section \<open>The pass\<close>

fun identity_loop :: "nat list \<Rightarrow> bool \<times> ir_function \<Rightarrow> (bool \<times> ir_function) statusor option" where
  "identity_loop [] s = returnS s"
| "identity_loop (n # ns) s = do {
     nd \<leftarrow> GetNode (snd s) n;
     if node_op nd = UnOp Op_Identity
     then do { a \<leftarrow> operand nd 0; bindS (ReplaceUsesWith (snd s) n a) (\<lambda>f. identity_loop ns (True, f)) }
     else identity_loop ns s
   }"

definition IdentityRemovalPass :: "ir_function \<Rightarrow> (bool \<times> ir_function) statusor option" where
  "IdentityRemovalPass f = identity_loop (map fst (fn_nodes f)) (False, f)"

definition literal_value :: "ir_function \<Rightarrow> nat \<Rightarrow> xvalue option" where
  "literal_value f a = GetNode f a \<bind> (\<lambda>nd. case node_op nd of Literal v \<Rightarrow> Some v | _ \<Rightarrow> None)"

section \<open>What a replacement changes\<close>

lemma map_of_map_snd: "map_of (map (\<lambda>(m, x). (m, g m x)) xs) n = map_option (g n) (map_of xs n)"
  by (induction xs) auto

lemma GetNode_map: "GetNode (f\<lparr>fn_nodes := map (\<lambda>(m, x). (m, g m x)) (fn_nodes f)\<rparr>) n = map_option (g n) (GetNode f n)"
  by (simp add: GetNode_def map_of_map_snd)

text \<open>\<open>replaced n r f f'\<close>: the operands \<open>n\<close> of \<open>f\<close> are \<open>r\<close> in \<open>f'\<close>.\<close>

definition replaced :: "nat \<Rightarrow> nat \<Rightarrow> ir_function \<Rightarrow> ir_function \<Rightarrow> bool" where
  "replaced n r f f' \<longleftrightarrow> map fst (fn_nodes f') = map fst (fn_nodes f) \<and> fn_params f' = fn_params f \<and>
     fn_return f' = (if fn_return f = n then r else fn_return f) \<and>
     (\<forall>m. rel_option (\<lambda>x x'. node_op x' = node_op x \<and> node_type x' = node_type x \<and>
        node_operands x' = map (\<lambda>a. if a = n then r else a) (node_operands x)) (GetNode f m) (GetNode f' m))"

lemma ReplaceUsesWith_replaced:
  assumes wl: "well_linked f" and nd: "GetNode f n = Some nd" and rd: "GetNode f r = Some rd" and ty: "node_type nd = node_type rd"
    and neq: "n \<noteq> r" and use: "n \<notin> set (node_operands rd)"
  shows "\<exists>f'. ReplaceUsesWith f n r = returnS f' \<and> replaced n r f f'"
proof -
  let ?g = "\<lambda>u x. if u \<in> set (node_users f n) then ReplaceOperand u n r x else x"
  let ?f1 = "f\<lparr>fn_nodes := map (\<lambda>(u, x). (u, ?g u x)) (fn_nodes f)\<rparr>"
  have ops: "node_operands (?g m x) = map (\<lambda>a. if a = n then r else a) (node_operands x)" if x: "GetNode f m = Some x" for m x
  proof -
    have "m \<in> set (node_users f n) \<longleftrightarrow> n \<in> set (node_operands x)" using set_node_users[OF wl] x by auto
    moreover have "m \<noteq> r \<or> n \<notin> set (node_operands x)" using x rd use by auto
    ultimately show ?thesis by (auto simp: ReplaceOperand_def intro!: map_idI[symmetric])
  qed
  have g: "rel_option (\<lambda>x x'. node_op x' = node_op x \<and> node_type x' = node_type x \<and> node_operands x' = map (\<lambda>a. if a = n then r else a) (node_operands x))
      (GetNode f m) (GetNode ?f1 m)" for m
    using ops[of m] by (cases "GetNode f m") (simp_all add: GetNode_map ReplaceOperand_def)
  have "map fst (fn_nodes ?f1) = map fst (fn_nodes f)" by (auto simp: case_prod_unfold)
  moreover have "GetNode ?f1 r \<noteq> None" using rd by (simp add: GetNode_map)
  then have c: "ReplaceImplicitUsesWith ?f1 n r = returnS (fn_return f = n, ?f1\<lparr>fn_return := (if fn_return f = n then r else fn_return f)\<rparr>)"
    by (cases "fn_return f = n") (simp_all add: ReplaceImplicitUsesWith_def RET_CHECK_def)
  let ?f2 = "?f1\<lparr>fn_return := (if fn_return f = n then r else fn_return f)\<rparr>"
  have "ReplaceUsesWith f n r = returnS (move_name n nd r rd ?f2)" using nd rd ty neq c by (simp add: ReplaceUsesWith_def Let_def)
  moreover have "replaced n r f (move_name n nd r rd ?f2)"
  proof -
    have node: "GetNode (move_name n nd r rd ?f2) m = map_option (\<lambda>x. if node_op nd \<noteq> Param \<and> node_name nd \<noteq> [] \<and> node_name rd = [] then
        if m = r then x\<lparr>node_name := node_name nd\<rparr> else if m = n then x\<lparr>node_name := []\<rparr> else x else x) (GetNode ?f1 m)" for m
      by (auto simp: move_name_def GetNode_def map_of_map_snd option.map_comp comp_def option.map_ident simp del: map_map intro!: option.map_cong)
    show ?thesis unfolding replaced_def
    proof (intro conjI allI)
      show "map fst (fn_nodes (move_name n nd r rd ?f2)) = map fst (fn_nodes f)" by (auto simp: move_name_def case_prod_unfold)
      show "fn_params (move_name n nd r rd ?f2) = fn_params f" "fn_return (move_name n nd r rd ?f2) = (if fn_return f = n then r else fn_return f)"
        by (simp_all add: move_name_def)
      fix m show "rel_option (\<lambda>x x'. node_op x' = node_op x \<and> node_type x' = node_type x \<and> node_operands x' = map (\<lambda>a. if a = n then r else a) (node_operands x))
          (GetNode f m) (GetNode (move_name n nd r rd ?f2) m)"
        using g[of m] unfolding node by (cases "GetNode f m"; cases "GetNode ?f1 m") auto
    qed
  qed
  ultimately show ?thesis by blast
qed

lemma replacedD:
  assumes "replaced n r f f'" and "GetNode f' m = Some x'"
  obtains x where "GetNode f m = Some x" "node_op x' = node_op x" "node_type x' = node_type x"
    "node_operands x' = map (\<lambda>a. if a = n then r else a) (node_operands x)"
  using assms(1)[unfolded replaced_def, THEN conjunct2, THEN conjunct2, THEN conjunct2, rule_format, of m] assms(2) by (auto simp: option_rel_Some2)

lemma replaced_ids: "replaced n r f f' \<Longrightarrow> node_ids f' = node_ids f"
  by (metis node_ids_def replaced_def set_map)

lemma replaced_type: "replaced n r f f' \<Longrightarrow> GetType f' m = GetType f m"
  unfolding replaced_def GetType_def by (elim conjE allE[of _ m]) (auto elim!: option.rel_cases)

lemma ranked_node: "operands_ranked f rank \<Longrightarrow> GetNode f m = Some x \<Longrightarrow> a \<in> set (node_operands x) \<Longrightarrow> a \<in> node_ids f \<and> rank a < rank m"
  by (auto simp: operands_ranked_def dest!: GetNode_in)

lemma ranked_linked: "operands_ranked f rank \<Longrightarrow> distinct (map fst (fn_nodes f)) \<Longrightarrow> well_linked f"
  by (auto simp: well_linked_def operands_ranked_def)

lemma replaced_ranked:
  assumes rep: "replaced n r f f'" and dist: "distinct (map fst (fn_nodes f))" and rank: "operands_ranked f rank" and r: "r \<in> node_ids f" "rank r \<le> rank n"
  shows "operands_ranked f' rank"
  unfolding operands_ranked_def
proof (clarify)
  fix m x' a assume x': "(m, x') \<in> set (fn_nodes f')" and a: "a \<in> set (node_operands x')"
  have "GetNode f' m = Some x'" using x' rep dist by (intro GetNode_member) (simp_all add: replaced_def)
  then obtain x where x: "GetNode f m = Some x" "node_operands x' = map (\<lambda>a. if a = n then r else a) (node_operands x)" using rep by (elim replacedD)
  show "a \<in> node_ids f' \<and> rank a < rank m"
    using a r ranked_node[OF rank x(1)] unfolding x(2) replaced_ids[OF rep] by fastforce
qed

section \<open>Functions that compute the same\<close>

text \<open>
  A node of a rewritten function is a node of the original function, or a new literal. \<open>value_in f g st n\<close> is its value
  when the original function runs to \<open>st\<close>.
\<close>

definition value_in :: "ir_function \<Rightarrow> ir_function \<Rightarrow> interp \<Rightarrow> nat \<Rightarrow> xvalue option" where
  "value_in f g st n = (if n \<in> node_ids f then node_values st n else literal_value g n)"

definition same_node :: "'b bn_api \<Rightarrow> interp_call \<Rightarrow> ir_package \<Rightarrow> ir_function \<Rightarrow> ir_function \<Rightarrow> nat \<Rightarrow> nat \<Rightarrow> bool" where
  "same_node B call pkg f g a' a \<longleftrightarrow> GetType g a' = GetType f a \<and> (\<forall>st. run_of B call pkg f st \<longrightarrow> value_in f g st a' = node_values st a)"

definition new_literal :: "ir_node \<Rightarrow> bool" where
  "new_literal nd \<longleftrightarrow> (\<exists>v. node_op nd = Literal v \<and> node_operands nd = [] \<and> has_type v (node_type nd))"

definition rewritten :: "'b bn_api \<Rightarrow> interp_call \<Rightarrow> ir_package \<Rightarrow> ir_function \<Rightarrow> ir_function \<Rightarrow> bool" where
  "rewritten B call pkg f g \<longleftrightarrow> distinct (map fst (fn_nodes g)) \<and> (\<exists>rank. operands_ranked g rank) \<and> fn_params g = fn_params f \<and>
     node_ids f \<subseteq> node_ids g \<and> fn_return g \<in> node_ids g \<and> same_node B call pkg f g (fn_return g) (fn_return f) \<and>
     (\<forall>n nd'. GetNode g n = Some nd' \<longrightarrow> (case GetNode f n of
        Some nd \<Rightarrow> node_op nd' = node_op nd \<and> node_type nd' = node_type nd \<and> list_all2 (same_node B call pkg f g) (node_operands nd') (node_operands nd)
      | None \<Rightarrow> new_literal nd'))"

lemma rewritten_linked: "rewritten B call pkg f g \<Longrightarrow> well_linked g"
  by (auto simp: rewritten_def intro: ranked_linked)

lemma rewritten_old:
  assumes "rewritten B call pkg f g" and "GetNode g n = Some nd'" and "n \<in> node_ids f"
  obtains nd where "GetNode f n = Some nd" "node_op nd' = node_op nd" "node_type nd' = node_type nd"
    "list_all2 (same_node B call pkg f g) (node_operands nd') (node_operands nd)"
  using assms unfolding rewritten_def GetNode_ids by (fastforce split: option.splits)

lemma rewritten_new: "rewritten B call pkg f g \<Longrightarrow> GetNode g n = Some nd' \<Longrightarrow> n \<notin> node_ids f \<Longrightarrow> new_literal nd'"
  unfolding rewritten_def GetNode_ids by (fastforce split: option.splits)

lemma rewritten_type:
  assumes "rewritten B call pkg f g" and "n \<in> node_ids f"
  shows "GetType g n = GetType f n"
proof -
  have "n \<in> node_ids g" using assms by (auto simp: rewritten_def)
  then obtain nd' where nd': "GetNode g n = Some nd'" by (auto simp: GetNode_ids)
  from rewritten_old[OF assms(1) this assms(2)] obtain nd where "GetNode f n = Some nd" "node_type nd' = node_type nd" by metis
  then show ?thesis using nd' by (simp add: GetType_def)
qed

lemma rewritten_refl:
  assumes "fn_env B num call pkg channels f"
  shows "rewritten B call pkg f f"
proof -
  have "node_ids f = {n. GetNode f n \<noteq> None}" by (auto simp: GetNode_ids)
  moreover have "has_result f (fn_return f)" using assms by (simp add: fn_env_def wf_function_def)
  ultimately have "fn_return f \<in> node_ids f" by (auto simp: has_result_def split: option.splits)
  moreover have "same_node B call pkg f f a a" if "a \<in> node_ids f" for a using that by (simp add: same_node_def value_in_def)
  ultimately show ?thesis
    using fn_env_linked[OF assms] fn_env_node(3)[OF assms] unfolding rewritten_def well_linked_def by (auto simp: list_all2_same subset_iff split: option.split)
qed

lemma rewritten_mirrors:
  assumes "rewritten B call pkg f g" and "run_of B call pkg f st"
  shows "mirrors f st (value_in f g st) g"
proof -
  have "mirrored_node f st (value_in f g st) g n nd'" if nd': "GetNode g n = Some nd'" for n nd'
  proof (cases "n \<in> node_ids f")
    case True
    with rewritten_old[OF assms(1) nd'] obtain nd where nd: "GetNode f n = Some nd" "node_op nd' = node_op nd" "node_type nd' = node_type nd"
        "list_all2 (same_node B call pkg f g) (node_operands nd') (node_operands nd)" by metis
    then show ?thesis using True assms(2) by (auto simp: mirrored_node_def value_in_def[of _ _ _ n] same_node_def elim!: list.rel_mono_strong)
  next
    case False
    then have "GetNode f n = None" by (auto simp: GetNode_ids)
    then show ?thesis using rewritten_new[OF assms(1) nd' False] nd' False by (auto simp: mirrored_node_def new_literal_def value_in_def literal_value_def)
  qed
  then show ?thesis using assms(1) by (simp add: rewritten_def mirrors_def)
qed

text \<open>Interpreting the rewritten function, and what dead code elimination leaves of it.\<close>

lemma rewritten_interpretation:
  assumes env: "fn_env B num (InterpretFunction B depth pkg) pkg channels f" and args: "args_typed f args"
    and rew: "rewritten B (InterpretFunction B depth pkg) pkg f g"
  shows "\<exists>h v events events' events''. DeadCodeEliminationPass g = returnS (\<exists>n\<in>node_ids g. \<not> live g n, h) \<and> h = restriction g {n. live g n} \<and>
    InterpretFunction B (Suc depth) pkg f args = returnS (v, events) \<and> InterpretFunction B (Suc depth) pkg g args = returnS (v, events') \<and>
    InterpretFunction B (Suc depth) pkg h args = returnS (v, events'')"
proof -
  let ?h = "restriction g {n. live g n}" and ?call = "InterpretFunction B depth pkg"
  have g: "node_ids f \<subseteq> node_ids g" "fn_return g \<in> node_ids g" "same_node B ?call pkg f g (fn_return g) (fn_return f)"
    using rew by (simp_all add: rewritten_def)
  have ok: "VerifyFunction pkg channels f = returnS ()" and dist: "distinct (map fst (fn_nodes f))" using env by (simp_all add: fn_env_def wf_function_def)
  have params: "n \<in> node_ids ?h \<inter> node_ids g \<and> n \<in> node_ids f" if n: "n \<in> set (fn_params f)" for n
  proof -
    obtain p where p: "GetNode f n = Some p" "node_op p = Param" using verified_params[OF ok dist] n by blast
    then have nf: "n \<in> node_ids f" by (auto simp: GetNode_ids)
    then have "n \<in> node_ids g" using g(1) by blast
    then obtain p' where p': "GetNode g n = Some p'" by (auto simp: GetNode_ids)
    then have "node_op p' = Param" using rewritten_old[OF rew p' nf] p by (metis option.inject)
    then have "live g n" using p' by (intro live.root) (auto simp: is_deletable_def OpIsSideEffecting_def)
    then show ?thesis using nf g(1) by auto
  qed
  have "live g (fn_return g)" using g(2) unfolding GetNode_ids by (auto simp: is_deletable_def HasImplicitUse_def intro: live.root)
  then have ret: "fn_return ?h \<in> node_ids ?h" using g(2) by simp
  have val: "\<exists>vals. mirrors f st vals g \<and> vals (fn_return g) = node_values st (fn_return f)"
    "\<exists>vals. mirrors f st vals ?h \<and> vals (fn_return ?h) = node_values st (fn_return f)" if "run_of B ?call pkg f st" for st
    using rewritten_mirrors[OF rew that] mirrors_live[OF rewritten_mirrors[OF rew that]] g(3) that unfolding same_node_def by auto
  have "set (fn_params f) \<subseteq> node_ids g \<inter> node_ids f" "set (fn_params f) \<subseteq> node_ids ?h \<inter> node_ids f" using params by auto
  then obtain v e e' w e'' e3 where "InterpretFunction B (Suc depth) pkg f args = returnS (v, e)" "InterpretFunction B (Suc depth) pkg g args = returnS (v, e')"
      "InterpretFunction B (Suc depth) pkg f args = returnS (w, e'')" "InterpretFunction B (Suc depth) pkg ?h args = returnS (w, e3)"
    using mirrored_interpretation[OF env args val(1) g(2)] mirrored_interpretation[OF env args val(2) ret] by blast
  moreover obtain rank where "operands_ranked g rank" using rew by (auto simp: rewritten_def)
  ultimately show ?thesis using DeadCodeElimination_exact[OF rewritten_linked[OF rew]] by (auto simp: returnS_def)
qed

text \<open>Replacing a node by one that has the same value.\<close>

lemma rewritten_replaced:
  assumes rew: "rewritten B call pkg f g" and rep: "replaced n r g g'" and rank: "operands_ranked g' rank" and r: "r \<in> node_ids g"
    and ty: "GetType g r = GetType g n" and same: "\<And>st. run_of B call pkg f st \<Longrightarrow> value_in f g st r = value_in f g st n"
  shows "rewritten B call pkg f g'"
proof -
  have "literal_value g' m = literal_value g m" for m
    using rep unfolding replaced_def literal_value_def by (elim conjE allE[of _ m]) (auto elim!: option.rel_cases)
  then have val: "value_in f g' = value_in f g" by (simp add: value_in_def fun_eq_iff)
  have to: "same_node B call pkg f g' (if a = n then r else a) b" if "same_node B call pkg f g a b" for a b
    using that ty same by (auto simp: same_node_def val replaced_type[OF rep])
  have "case GetNode f m of Some nd \<Rightarrow> node_op x' = node_op nd \<and> node_type x' = node_type nd \<and> list_all2 (same_node B call pkg f g') (node_operands x') (node_operands nd)
      | None \<Rightarrow> new_literal x'" if x': "GetNode g' m = Some x'" for m x'
  proof -
    obtain x where x: "GetNode g m = Some x" "node_op x' = node_op x" "node_type x' = node_type x"
        "node_operands x' = map (\<lambda>a. if a = n then r else a) (node_operands x)" using rep x' by (elim replacedD)
    show ?thesis
      using rew[unfolded rewritten_def, THEN conjunct2, THEN conjunct2, THEN conjunct2, THEN conjunct2, THEN conjunct2, THEN conjunct2, rule_format, OF x(1)]
      unfolding x(2-4) new_literal_def list.rel_map by (auto split: option.splits intro: to elim!: list.rel_mono_strong)
  qed
  moreover have "fn_return g' \<in> node_ids g" "same_node B call pkg f g' (fn_return g') (fn_return f)"
    using rep r rew to[of "fn_return g" "fn_return f"] unfolding replaced_def rewritten_def by auto
  ultimately show ?thesis using rew rep rank unfolding rewritten_def replaced_ids[OF rep] by (auto simp: replaced_def)
qed

section \<open>Identity removal\<close>

lemma visit_values:
  assumes env: "fn_env B num call pkg channels f" and run: "run_of B call pkg f st" and nd: "GetNode f n = Some nd" and sets: "sets_value nd"
    and ops: "set (node_operands nd) \<subseteq> valued f"
  obtains param st0 st1 where "IrInterpreter_Visit B call pkg param f n nd st0 = returnS st1" "node_values st1 n = node_values st n" "node_values st n \<noteq> None"
    "\<forall>a\<in>set (node_operands nd). node_values st0 a = node_values st a" "node_values st0 n = None"
proof -
  obtain args where "\<And>n. n \<in> node_ids f \<Longrightarrow> visited_in (IrInterpreter_Visit B call pkg (FunctionInterpreter_HandleParam f args) f) f st n"
    using run_of_visits[OF env run] by blast
  then have "visited_in (IrInterpreter_Visit B call pkg (FunctionInterpreter_HandleParam f args) f) f st n" using nd GetNode_ids by blast
  then obtain V st0 st1 where v: "ready f V n nd st0" "set (node_operands nd) \<inter> valued f \<subseteq> V"
      "IrInterpreter_Visit B call pkg (FunctionInterpreter_HandleParam f args) f n nd st0 = returnS st1"
      "typed_state f (insert n V) st1" "node_values st0 \<subseteq>\<^sub>m node_values st" "node_values st1 \<subseteq>\<^sub>m node_values st"
    using nd sets unfolding visited_in_def ready_def by auto
  obtain x where x: "node_values st1 n = Some x" using v(4) unfolding typed_state_def by blast
  then have n: "node_values st n = Some x" using v(6) by (force simp: map_le_def)
  have op: "node_values st0 a = node_values st a" if a: "a \<in> set (node_operands nd)" for a
  proof -
    have "a \<in> V" using v(2) ops a by blast
    then obtain y where "node_values st0 a = Some y" using v(1) unfolding ready_def typed_state_def by blast
    then show ?thesis using v(5) by (force simp: map_le_def)
  qed
  have "node_values st0 n = None" using v(1) by (auto simp: ready_def typed_state_def)
  then show thesis using x n op by (intro that[OF v(3)]) auto
qed

lemma identity_operand:
  assumes env: "fn_env B num call pkg channels f" and nd: "GetNode f n = Some nd" and op: "node_op nd = UnOp Op_Identity"
  shows "\<exists>a. node_operands nd = [a] \<and> GetType f a = Some (node_type nd)"
proof -
  have "NodeChecker_HandleIdentity f nd = returnS ()" using fn_env_node(1)[OF env nd] op by (simp add: NodeChecker_Visit_def NodeChecker_UnOp_def)
  then show ?thesis
    by (auto simp: NodeChecker_HandleIdentity_def expect_iff ExpectAllSameType_def operand_type_def operand_def at_opt_def length_Suc_conv bind_returnS_iff)
qed

lemma identity_value:
  assumes env: "fn_env B num call pkg channels f" and run: "run_of B call pkg f st" and nd: "GetNode f n = Some nd" and op: "node_op nd = UnOp Op_Identity"
    and a: "node_operands nd = [a]"
  shows "node_values st n = node_values st a"
proof -
  have "set (node_operands nd) \<subseteq> valued f"
    using fn_env_node(2)[OF env nd] op by (auto simp: interpretable_def read_operands_def list_all_iff valued_def)
  moreover have "sets_value nd" using op by (simp add: sets_value_def)
  ultimately obtain param st0 st1 where v: "IrInterpreter_Visit B call pkg param f n nd st0 = returnS st1" "node_values st1 n = node_values st n"
      "\<forall>a\<in>set (node_operands nd). node_values st0 a = node_values st a"
    using visit_values[OF env run nd] by metis
  have "HandleIdentity n nd st0 = returnS st1" using v(1) op by (simp add: IrInterpreter_Visit_def HandleUnOp_def)
  then obtain x where x: "node_values st0 a = Some x" "SetValueResult n nd x st0 = returnS st1"
    using a by (auto simp: HandleIdentity_def operand_value_def operand_def at_opt_def ResolveAsValue_def split: bind_splits)
  then have "node_values st1 n = Some x" by (auto simp: SetValueResult_def split: if_splits bind_splits)
  then show ?thesis using a v(2,3) x(1) by auto
qed

text \<open>A node that nothing uses.\<close>

definition unused :: "ir_function \<Rightarrow> nat \<Rightarrow> bool" where
  "unused g n \<longleftrightarrow> n \<noteq> fn_return g \<and> (\<forall>m x. GetNode g m = Some x \<longrightarrow> n \<notin> set (node_operands x))"

lemma unused_not_live: "unused g n \<Longrightarrow> GetNode g n = Some nd \<Longrightarrow> \<not> OpIsSideEffecting (node_op nd) \<Longrightarrow> \<not> live g n"
  by (auto simp: unused_def is_deletable_def HasImplicitUse_def elim: live.cases)

lemma replaced_unused:
  assumes rep: "replaced n r g g'" and neq: "n \<noteq> r"
  shows "unused g' n" and "unused g m \<Longrightarrow> m \<noteq> r \<Longrightarrow> unused g' m"
proof -
  have ops: "b = r \<or> b \<noteq> n \<and> (\<exists>y. GetNode g k = Some y \<and> b \<in> set (node_operands y))" if x: "GetNode g' k = Some x" and b: "b \<in> set (node_operands x)" for k x b
  proof -
    obtain y where "GetNode g k = Some y" "node_operands x = map (\<lambda>a. if a = n then r else a) (node_operands y)"
      using rep x by (elim replacedD)
    then show ?thesis using b by auto
  qed
  have ret: "fn_return g' = (if fn_return g = n then r else fn_return g)" using rep by (simp add: replaced_def)
  show "unused g' n" using ret neq unfolding unused_def by (auto dest: ops)
  show "unused g' m" if "unused g m" "m \<noteq> r" using that ret unfolding unused_def by (auto dest!: ops)
qed

lemma identity_step:
  assumes env: "fn_env B num call pkg channels f" and rew: "rewritten B call pkg f g" and nd: "GetNode g n = Some nd" and op: "node_op nd = UnOp Op_Identity"
  shows "\<exists>a g'. operand nd 0 = Some a \<and> a \<in> set (node_operands nd) \<and> n \<noteq> a \<and> ReplaceUsesWith g n a = returnS g' \<and> replaced n a g g' \<and> rewritten B call pkg f g'"
proof -
  have n: "n \<in> node_ids f" using rewritten_new[OF rew nd] op by (auto simp: new_literal_def)
  from rewritten_old[OF rew nd this] op obtain x where x: "GetNode f n = Some x" "node_op x = UnOp Op_Identity" "node_type nd = node_type x"
      "list_all2 (same_node B call pkg f g) (node_operands nd) (node_operands x)" by metis
  have type: "\<exists>b. node_operands x = [b] \<and> GetType f b = Some (node_type x)" using identity_operand[OF env x(1,2)] .
  then obtain a b where a: "node_operands nd = [a]" and b: "node_operands x = [b]" "GetType f b = Some (node_type x)" "same_node B call pkg f g a b"
    using x(4) by (auto simp: list_all2_Cons2)
  obtain rank where rank: "operands_ranked g rank" and dist: "distinct (map fst (fn_nodes g))" using rew by (auto simp: rewritten_def)
  have ar: "a \<in> node_ids g" "rank a < rank n" using ranked_node[OF rank nd] a by auto
  then obtain ad where ad: "GetNode g a = Some ad" by (auto simp: GetNode_ids)
  have ty: "GetType g a = Some (node_type nd)" using b(2,3) x(3) by (simp add: same_node_def)
  then have "node_type nd = node_type ad" using ad by (simp add: GetType_def)
  moreover have "n \<notin> set (node_operands ad)" using ranked_node[OF rank ad] ar(2) by force
  moreover have "n \<noteq> a" using ar(2) by auto
  ultimately obtain g' where g': "ReplaceUsesWith g n a = returnS g'" "replaced n a g g'"
    using ReplaceUsesWith_replaced[OF rewritten_linked[OF rew] nd ad] by blast
  have "value_in f g st a = value_in f g st n" if run: "run_of B call pkg f st" for st
    using identity_value[OF env run x(1,2) b(1)] b(3) n run by (simp add: same_node_def value_in_def[of _ _ _ n])
  then have "rewritten B call pkg f g'"
    using rewritten_replaced[OF rew g'(2) replaced_ranked[OF g'(2) dist rank ar(1)] ar(1)] ar(2) ty nd by (simp add: GetType_def)
  then show ?thesis using a g' \<open>n \<noteq> a\<close> by (auto simp: operand_def at_opt_def)
qed

definition is_identity :: "ir_function \<Rightarrow> nat \<Rightarrow> bool" where
  "is_identity f n \<longleftrightarrow> (\<exists>nd. GetNode f n = Some nd \<and> node_op nd = UnOp Op_Identity)"

lemma replaced_identity: "replaced n r g g' \<Longrightarrow> is_identity g' m = is_identity g m"
  unfolding is_identity_def replaced_def by (elim conjE allE[of _ m]) (auto elim!: option.rel_cases)

lemma identity_loop_ok:
  assumes env: "fn_env B num call pkg channels f"
  shows "rewritten B call pkg f g \<Longrightarrow> set ns \<subseteq> node_ids g \<Longrightarrow> \<forall>m\<in>D. is_identity g m \<longrightarrow> unused g m \<Longrightarrow>
    \<exists>h. identity_loop ns (c, g) = returnS (c \<or> (\<exists>n\<in>set ns. is_identity g n), h) \<and> rewritten B call pkg f h \<and> node_ids h = node_ids g \<and>
      (\<forall>m. is_identity h m = is_identity g m) \<and> (\<forall>m\<in>D \<union> set ns. is_identity h m \<longrightarrow> unused h m)"
proof (induction ns arbitrary: c g D)
  case (Cons n ns)
  obtain nd where nd: "GetNode g n = Some nd" using Cons.prems(2) by (auto simp: GetNode_ids)
  show ?case
  proof (cases "node_op nd = UnOp Op_Identity")
    case True
    from identity_step[OF env Cons.prems(1) nd True] obtain a g' where a: "operand nd 0 = Some a" "a \<in> set (node_operands nd)" "n \<noteq> a"
      "ReplaceUsesWith g n a = returnS g'" "replaced n a g g'" "rewritten B call pkg f g'" by blast
    have "is_identity g' m \<longrightarrow> unused g' m" if "m \<in> insert n D" for m
    proof -
      have "m \<noteq> a" if "unused g m" using that nd a(2) by (auto simp: unused_def)
      then show ?thesis using that replaced_unused[OF a(5,3)] Cons.prems(3) replaced_identity[OF a(5)] by (cases "m = n") blast+
    qed
    then obtain h where h: "identity_loop ns (True, g') = returnS (True, h)" "rewritten B call pkg f h" "node_ids h = node_ids g'"
        "\<forall>m. is_identity h m = is_identity g' m" "\<forall>m\<in>insert n D \<union> set ns. is_identity h m \<longrightarrow> unused h m"
      using Cons.IH[OF a(6), of "insert n D" True] Cons.prems(2) replaced_ids[OF a(5)] by auto
    then show ?thesis using nd True a replaced_ids[OF a(5)] replaced_identity[OF a(5)]
      by (intro exI[of _ h]) (auto simp: is_identity_def[of g n])
  next
    case False
    have "\<forall>m\<in>insert n D. is_identity g m \<longrightarrow> unused g m" using Cons.prems(3) False nd by (auto simp: is_identity_def)
    then show ?thesis using Cons.IH[OF Cons.prems(1), of "insert n D" c] Cons.prems(2) nd False by (auto simp: is_identity_def[of g n])
  qed
qed auto

lemma IdentityRemoval_ok:
  assumes env: "fn_env B num call pkg channels f"
  shows "\<exists>g. IdentityRemovalPass f = returnS (\<exists>n\<in>node_ids f. is_identity f n, g) \<and> rewritten B call pkg f g \<and> node_ids g = node_ids f \<and>
    (\<forall>n. is_identity g n \<longrightarrow> unused g n)"
proof -
  have ids: "set (map fst (fn_nodes f)) = node_ids f" by (auto simp: node_ids_def)
  have "n \<in> node_ids f" if "is_identity f n" for n using that by (auto simp: is_identity_def GetNode_ids)
  then show ?thesis
    using identity_loop_ok[OF env rewritten_refl[OF env], of "map fst (fn_nodes f)" "{}" False] unfolding IdentityRemovalPass_def ids by auto
qed

lemma pass_function_identity:
  "case IdentityRemovalPass pass_function of Some (Inr (changed, g)) \<Rightarrow> changed \<and> map node_operands (map snd (fn_nodes g)) = [[], [], [1, 1], [2], [0, 1], [0, 2]] | _ \<Rightarrow> False"
  by code_simp

text \<open>C12: Identity removal keeps the meaning. On a function of a verified package, the pass returns and reports whether there is an identity;
  the function it leaves has the same nodes, nothing in it uses an identity, and the interpreter returns the same value for
  it. Dead code elimination then leaves no identity, and the same value.\<close>

theorem identity_removal_correct:
  assumes "bignum B num" and "verified_package pkg channels" and "calls_ranked pkg rank" and "i < length pkg" and "rank i \<le> depth"
    and "args_typed (pkg ! i) args"
  shows "\<exists>g c h v events events' events''. IdentityRemovalPass (pkg ! i) = returnS (\<exists>n\<in>node_ids (pkg ! i). is_identity (pkg ! i) n, g) \<and>
    node_ids g = node_ids (pkg ! i) \<and> (\<forall>n. is_identity g n \<longrightarrow> unused g n) \<and> DeadCodeEliminationPass g = returnS (c, h) \<and> (\<forall>n. \<not> is_identity h n) \<and>
    InterpretFunction B (Suc depth) pkg (pkg ! i) args = returnS (v, events) \<and> InterpretFunction B (Suc depth) pkg g args = returnS (v, events') \<and>
    InterpretFunction B (Suc depth) pkg h args = returnS (v, events'')"
proof -
  note env = package_env[OF assms(1-5)]
  obtain g where g: "IdentityRemovalPass (pkg ! i) = returnS (\<exists>n\<in>node_ids (pkg ! i). is_identity (pkg ! i) n, g)"
      "rewritten B (InterpretFunction B depth pkg) pkg (pkg ! i) g" "node_ids g = node_ids (pkg ! i)" "\<forall>n. is_identity g n \<longrightarrow> unused g n"
    using IdentityRemoval_ok[OF env] by blast
  have "\<not> live g n" if "is_identity g n" for n
    using unused_not_live[of g n] g(4) that by (fastforce simp: is_identity_def OpIsSideEffecting_def)
  then have "\<forall>n. \<not> is_identity (restriction g {n. live g n}) n" by (auto simp: is_identity_def GetNode_restriction)
  then show ?thesis using g(1,3,4) rewritten_interpretation[OF env assms(6) g(2)] by blast
qed

theorem identity_removal_correct_witness:
  "\<exists>g c h v events events' events''. IdentityRemovalPass pass_function = returnS (True, g) \<and>
    map node_operands (map snd (fn_nodes g)) = [[], [], [1, 1], [2], [0, 1], [0, 2]] \<and> DeadCodeEliminationPass g = returnS (c, h) \<and> (\<forall>n. \<not> is_identity h n) \<and>
    InterpretFunction int_bn 2 [pass_function] pass_function pass_args = returnS (v, events) \<and>
    InterpretFunction int_bn 2 [pass_function] g pass_args = returnS (v, events') \<and> InterpretFunction int_bn 2 [pass_function] h pass_args = returnS (v, events'')"
proof -
  obtain g where g: "IdentityRemovalPass pass_function = returnS (True, g)" "map node_operands (map snd (fn_nodes g)) = [[], [], [1, 1], [2], [0, 1], [0, 2]]"
    using pass_function_identity by (auto simp: returnS_def split: option.splits sum.splits)
  then show ?thesis
    using identity_removal_correct[OF int_bignum.bignum_axioms pass_verified, of 0 1 pass_args] pass_args_typed
    by (simp add: numeral_2_eq_2 del: One_nat_def InterpretFunction.simps list.map)
qed

end
