(* ===== verification/Xls_Constant_Folding.thy ===== *)
theory Xls_Constant_Folding
  imports Xls_Rewrite
begin

text \<open>
  Constant folding, \<open>xls/passes/constant_folding_pass.cc\<close>: the pass interprets every node whose operands are literals, in a
  topological order, and puts a literal in its place. It returns on every function that passes the verifier; the function it
  leaves computes what the original computes, and nothing in it uses a node that could still be folded.
\<close>

section \<open>The pass\<close>

definition foldable :: "ir_function \<Rightarrow> ir_node \<Rightarrow> bool" where
  "foldable f nd \<longleftrightarrow> (case node_op nd of Literal v \<Rightarrow> False | _ \<Rightarrow> True) \<and> \<not> TypeHasToken (node_type nd) \<and>
     \<not> OpIsSideEffecting (node_op nd) \<and> list_all (\<lambda>a. literal_value f a \<noteq> None) (node_operands nd)"

record fold_state =
  fs_changed :: bool
  fs_next_id :: int
  fs_function :: ir_function

fun folding_loop ::
    "'b bn_api \<Rightarrow> nat \<Rightarrow> ir_package \<Rightarrow> channel list \<Rightarrow> nat list \<Rightarrow> fold_state \<Rightarrow> fold_state statusor option" where
  "folding_loop B depth pkg channels [] s = returnS s"
| "folding_loop B depth pkg channels (n # ns) s = do {
     let f = fs_function s;
     nd \<leftarrow> GetNode f n;
     if foldable f nd
     then do {
       operand_values \<leftarrow> those (map (literal_value f) (node_operands nd));
       bindS (InterpretNode B depth pkg f n nd operand_values) (\<lambda>result.
         bindS (ReplaceUsesWithNew_Literal pkg channels (fs_next_id s) f n result) (\<lambda>f'.
           folding_loop B depth pkg channels ns \<lparr>fs_changed = True, fs_next_id = fs_next_id s + 1, fs_function = f'\<rparr>))
     }
     else folding_loop B depth pkg channels ns s
   }"

definition ConstantFoldingPass ::
    "'b bn_api \<Rightarrow> nat \<Rightarrow> ir_package \<Rightarrow> channel list \<Rightarrow> int \<Rightarrow> ir_function \<Rightarrow> fold_state statusor option" where
  "ConstantFoldingPass B depth pkg channels next_node_id f = do {
     order \<leftarrow> TopoSort f (Some (fn_return f));
     folding_loop B depth pkg channels order \<lparr>fs_changed = False, fs_next_id = next_node_id, fs_function = f\<rparr>
   }"

section \<open>The values of literals\<close>

lemma run_typed:
  assumes "fn_env B num call pkg channels f" and "run_of B call pkg f st" and "node_values st n = Some v"
  shows "\<exists>t. GetType f n = Some t \<and> has_type v t"
proof -
  obtain args where "typed_state f (node_ids f \<inter> valued f) st" using run_of_visits[OF assms(1,2)] by blast
  then show ?thesis using assms(3) unfolding typed_state_def by (metis option.inject option.distinct(1))
qed

lemma literal_run:
  assumes env: "fn_env B num call pkg channels f" and run: "run_of B call pkg f st" and nd: "GetNode f n = Some nd" and op: "node_op nd = Literal v"
  shows "node_values st n = Some v"
proof -
  have "NodeChecker_HandleLiteral v f nd = returnS ()" using fn_env_node(1)[OF env nd] op by (simp add: NodeChecker_Visit_def)
  then have "node_operands nd = []" by (simp add: NodeChecker_HandleLiteral_def expect_iff)
  moreover have "sets_value nd" using op by (simp add: sets_value_def)
  ultimately obtain param st0 st1 where "IrInterpreter_Visit B call pkg param f n nd st0 = returnS st1" "node_values st1 n = node_values st n"
    using visit_values[OF env run nd] by (metis empty_iff empty_set subsetI)
  moreover from this(1) have "node_values st1 n = Some v"
    using op by (auto simp: IrInterpreter_Visit_def HandleLiteral_def SetValueResult_def split: if_splits bind_splits)
  ultimately show ?thesis by simp
qed

lemma literal_in:
  assumes env: "fn_env B num call pkg channels f" and rew: "rewritten B call pkg f g" and run: "run_of B call pkg f st" and lit: "literal_value g a = Some v"
  shows "value_in f g st a = Some v" and "\<exists>nd. GetNode g a = Some nd \<and> has_type v (node_type nd)"
proof -
  obtain nd where nd: "GetNode g a = Some nd" "node_op nd = Literal v"
    using lit by (auto simp: literal_value_def split: bind_splits ir_op.splits)
  show "value_in f g st a = Some v"
  proof (cases "a \<in> node_ids f")
    case True
    from rewritten_old[OF rew nd(1) this] nd(2) obtain x where "GetNode f a = Some x" "node_op x = Literal v" by metis
    then show ?thesis using literal_run[OF env run] True by (simp add: value_in_def)
  qed (use lit in \<open>simp add: value_in_def\<close>)
  then show "\<exists>nd. GetNode g a = Some nd \<and> has_type v (node_type nd)"
  proof (cases "a \<in> node_ids f")
    case True
    then have "GetType g a = GetType f a" "node_values st a = Some v" using rewritten_type[OF rew] \<open>value_in f g st a = Some v\<close> by (simp_all add: value_in_def)
    then show ?thesis using run_typed[OF env run, of a v] nd(1) by (auto simp: GetType_def)
  next
    case False
    then show ?thesis using rewritten_new[OF rew nd(1)] nd by (auto simp: new_literal_def)
  qed
qed

lemma set_operands_literals:
  assumes "\<And>a v. literal_value g a = Some v \<Longrightarrow> \<exists>nd. GetNode g a = Some nd \<and> has_type v (node_type nd)"
  shows "those (map (literal_value g) as) = Some vs \<Longrightarrow> \<forall>a. node_values s a \<noteq> None \<longrightarrow> node_values s a = literal_value g a \<Longrightarrow>
    \<exists>s'. set_operands g as vs s = returnS s' \<and> (\<forall>a\<in>set as. node_values s' a = literal_value g a) \<and>
      (\<forall>a. a \<notin> set as \<longrightarrow> node_values s' a = node_values s a) \<and> (\<forall>a. node_values s' a \<noteq> None \<longrightarrow> node_values s' a = literal_value g a)"
proof (induction as arbitrary: vs s)
  case (Cons a as)
  then obtain v ws where v: "literal_value g a = Some v" "vs = v # ws" "those (map (literal_value g) as) = Some ws"
    by (auto split: option.splits)
  obtain nd where nd: "GetNode g a = Some nd" "has_type v (node_type nd)" using assms[OF v(1)] by blast
  show ?case
  proof (cases "node_values s a")
    case None
    let ?s = "s\<lparr>node_values := (node_values s)(a \<mapsto> v)\<rparr>"
    have "SetValueResult a nd v s = returnS ?s" using None nd(2) by (simp add: SetValueResult_def ValueConformsToType_typed)
    moreover have "\<forall>b. node_values ?s b \<noteq> None \<longrightarrow> node_values ?s b = literal_value g b" using Cons.prems(2) v(1) by simp
    then obtain s' where s': "set_operands g as ws ?s = returnS s'" "\<forall>a\<in>set as. node_values s' a = literal_value g a"
        "\<forall>b. b \<notin> set as \<longrightarrow> node_values s' b = node_values ?s b" "\<forall>a. node_values s' a \<noteq> None \<longrightarrow> node_values s' a = literal_value g a"
      using Cons.IH[OF v(3)] by blast
    ultimately have "set_operands g (a # as) vs s = returnS s'" using None nd(1) v(2) by simp
    moreover have "node_values s' a = literal_value g a" using s'(2,3) v(1) by (cases "a \<in> set as") simp_all
    ultimately show ?thesis using s'(2-4) by (intro exI[of _ s']) auto
  next
    case (Some w)
    obtain s' where s': "set_operands g as ws s = returnS s'" "\<forall>a\<in>set as. node_values s' a = literal_value g a"
        "\<forall>b. b \<notin> set as \<longrightarrow> node_values s' b = node_values s b" "\<forall>a. node_values s' a \<noteq> None \<longrightarrow> node_values s' a = literal_value g a"
      using Cons.IH[OF v(3) Cons.prems(2)] by blast
    moreover have "set_operands g (a # as) vs s = returnS s'" using Some v(2) s'(1) by simp
    moreover have "node_values s' a = literal_value g a" using s'(2,3) Cons.prems(2) Some by (cases "a \<in> set as") simp_all
    ultimately show ?thesis by (intro exI[of _ s']) auto
  qed
qed simp

section \<open>Folding a node\<close>

text \<open>Interpreting a node whose operands are literals gives the value that the node has in every run.\<close>

lemma those_Some: "list_all (\<lambda>a. h a \<noteq> None) xs \<Longrightarrow> \<exists>ys. those (map h xs) = Some ys \<and> length ys = length xs"
  by (induction xs) auto

lemma InterpretNode_folds:
  assumes env: "fn_env B num (InterpretFunction B depth pkg) pkg channels f" and rew: "rewritten B (InterpretFunction B depth pkg) pkg f g"
    and some: "run_of B (InterpretFunction B depth pkg) pkg f st\<^sub>0" and n: "n \<in> node_ids f" and nd: "GetNode g n = Some nd" and fold: "foldable g nd"
  shows "\<exists>vs v. those (map (literal_value g) (node_operands nd)) = Some vs \<and> InterpretNode B depth pkg g n nd vs = returnS v \<and>
    has_type v (node_type nd) \<and> (\<forall>st. run_of B (InterpretFunction B depth pkg) pkg f st \<longrightarrow> node_values st n = Some v)"
proof -
  let ?call = "InterpretFunction B depth pkg"
  have lits: "list_all (\<lambda>a. literal_value g a \<noteq> None) (node_operands nd)" and side: "\<not> OpIsSideEffecting (node_op nd)" using fold by (simp_all add: foldable_def)
  obtain vs where vs: "those (map (literal_value g) (node_operands nd)) = Some vs" "length vs = length (node_operands nd)" using those_Some[OF lits] by blast
  obtain s where s: "set_operands g (node_operands nd) vs init_interp = returnS s" "\<forall>a\<in>set (node_operands nd). node_values s a = literal_value g a"
      "\<forall>a. a \<notin> set (node_operands nd) \<longrightarrow> node_values s a = None"
    using set_operands_literals[OF literal_in(2)[OF env rew some] vs(1), of init_interp] by (auto simp: init_interp_def)
  obtain rank where rank: "operands_ranked g rank" using rew by (auto simp: rewritten_def)
  have "n \<notin> set (node_operands nd)" using ranked_node[OF rank nd] by force
  then have fresh: "node_values s n = None" using s(3) by blast
  from rewritten_old[OF rew nd n] obtain x where x: "GetNode f n = Some x" "node_op nd = node_op x" "node_type nd = node_type x"
      "list_all2 (same_node B ?call pkg f g) (node_operands nd) (node_operands x)" by metis
  have visit: "\<exists>s'. IrInterpreter_Visit B ?call pkg IrInterpreter_HandleParam g n nd s = returnS s' \<and> node_values s' n = node_values st n \<and> node_values st n \<noteq> None"
    if run: "run_of B ?call pkg f st" for st
  proof -
    have pair: "list_all2 (\<lambda>a' a. literal_value g a' = node_values st a \<and> node_values st a \<noteq> None \<and> GetType g a' = GetType f a) (node_operands nd) (node_operands x)"
      using x(4) lits literal_in(1)[OF env rew run] run unfolding same_node_def list_all2_conv_all_nth list_all_length by force
    then have "set (node_operands x) \<subseteq> valued f"
      using run_values[OF env run] by (auto simp: list_all2_conv_all_nth in_set_conv_nth)
    moreover have sets: "sets_value x" using side x(2) by (auto simp: sets_value_def OpIsSideEffecting_def split: ir_op.splits)
    ultimately obtain param st0 st1 where v: "IrInterpreter_Visit B ?call pkg param f n x st0 = returnS st1" "node_values st1 n = node_values st n"
        "node_values st n \<noteq> None" "\<forall>a\<in>set (node_operands x). node_values st0 a = node_values st a"
      using visit_values[OF env run x(1)] by metis
    have "reads_same f x st0 g nd s"
      using pair v(4) s(2) x(2,3) unfolding reads_same_def by (auto simp: list_all2_conv_all_nth)
    moreover have "node_op x \<noteq> Param" using side x(2) by (auto simp: OpIsSideEffecting_def)
    ultimately have "same_result n (IrInterpreter_Visit B ?call pkg param f n x st0) (IrInterpreter_Visit B ?call pkg IrInterpreter_HandleParam g n nd s)"
      using fresh sets by (intro Visit_same) auto
    then show ?thesis using v unfolding same_result_def by auto
  qed
  then obtain s' v where s': "IrInterpreter_Visit B ?call pkg IrInterpreter_HandleParam g n nd s = returnS s'" "node_values s' n = Some v" "node_values st\<^sub>0 n = Some v"
    using some by (metis not_None_eq)
  have "InterpretNode B depth pkg g n nd vs = returnS v" using side vs(2) s(1) s'(1,2) by (simp add: InterpretNode_def ResolveAsValue_def)
  moreover have "has_type v (node_type nd)" using run_typed[OF env some s'(3)] x(1,3) by (auto simp: GetType_def)
  moreover have "node_values st n = Some v" if "run_of B ?call pkg f st" for st using visit[OF that] s'(1,2) by (auto simp: returnS_def)
  ultimately show ?thesis using vs(1) by blast
qed

section \<open>The new literal\<close>

lemma AddNode_fresh: "fst (AddNode g nd) \<notin> node_ids g"
proof -
  have "(\<forall>m\<in>set xs. m \<le> fold max xs b) \<and> b \<le> fold max xs b" for xs and b :: nat by (induction xs arbitrary: b) (auto intro: le_trans[OF max.cobounded2] le_trans[OF max.cobounded1])
  from this[of "map fst (fn_nodes g)" 0] show ?thesis by (auto simp: AddNode_def node_ids_def Let_def)
qed

lemma typed_ExpectValueIsType:
  "has_type v t \<Longrightarrow> ExpectValueIsType v t = returnS ()"
  "list_all2 has_type vs ts \<Longrightarrow> ExpectValuesAreTypes vs ts = returnS ()"
proof (induction v t and vs ts rule: ExpectValueIsType_ExpectValuesAreTypes.induct)
  case (3 es t)
  then show ?case by (cases t) (auto dest: list_all2_lengthD)
next
  case (4 es t)
  then show ?case by (cases t) (auto simp: list_all2_conv_all_nth list_all_length)
qed (auto split: xls_type.splits)

lemma AddNode_literal:
  assumes rew: "rewritten B call pkg f g" and lit: "new_literal nd" and add: "AddNode g nd = (k, g1)"
  shows "k \<notin> node_ids g" and "GetNode g1 m = (if m = k then Some nd else GetNode g m)" and "node_ids g1 = insert k (node_ids g)"
    and "rewritten B call pkg f g1" and "operands_ranked g rank \<Longrightarrow> operands_ranked g1 (rank(k := 0))" and "fn_return g1 = fn_return g"
    and "VerifyNode pkg channels g1 k nd = returnS ()"
proof -
  obtain v where v: "node_op nd = Literal v" "node_operands nd = []" "has_type v (node_type nd)" using lit by (auto simp: new_literal_def)
  have g1: "g1 = g\<lparr>fn_nodes := fn_nodes g @ [(k, nd)]\<rparr>" using add v(1) by (auto simp: AddNode_def Let_def)
  show k: "k \<notin> node_ids g" using AddNode_fresh[of g nd] add by simp
  then have kn: "GetNode g k = None" by (auto simp: GetNode_ids)
  show node: "GetNode g1 m = (if m = k then Some nd else GetNode g m)" for m using kn by (auto simp: g1 GetNode_def map_add_def split: option.split)
  show ids: "node_ids g1 = insert k (node_ids g)" by (auto simp: g1 node_ids_def)
  show ret: "fn_return g1 = fn_return g" by (simp add: g1)
  show rank: "operands_ranked g1 (rank(k := 0))" if "operands_ranked g rank" for rank
    unfolding operands_ranked_def
  proof (clarify)
    fix m x a assume x: "(m, x) \<in> set (fn_nodes g1)" and a: "a \<in> set (node_operands x)"
    then have xg: "(m, x) \<in> set (fn_nodes g)" using v(2) by (auto simp: g1)
    then have "a \<in> node_ids g" "rank a < rank m" "m \<in> node_ids g" using that a by (force simp: operands_ranked_def node_ids_def)+
    then show "a \<in> node_ids g1 \<and> (rank(k := 0)) a < (rank(k := 0)) m" using k ids by auto
  qed
  have sub: "node_ids f \<subseteq> node_ids g" using rew by (simp add: rewritten_def)
  have "same_node B call pkg f g1 a b" if "same_node B call pkg f g a b" "a \<in> node_ids g" for a b
    using that k by (auto simp: same_node_def value_in_def literal_value_def node GetType_def)
  moreover obtain r where r: "operands_ranked g r" using rew by (auto simp: rewritten_def)
  ultimately have ops: "list_all2 (same_node B call pkg f g1) (node_operands x) ys"
    if "list_all2 (same_node B call pkg f g) (node_operands x) ys" "GetNode g m = Some x" for m x ys
    using that ranked_node[OF r that(2)] by (auto elim!: list.rel_mono_strong)
  have fk: "GetNode f k = None" using k sub by (auto simp: GetNode_ids)
  have "distinct (map fst (fn_nodes g1))" using rew k by (auto simp: rewritten_def g1 node_ids_def)
  moreover have "fn_return g \<in> node_ids g" "same_node B call pkg f g (fn_return g) (fn_return f)" using rew by (simp_all add: rewritten_def)
  then have "fn_return g1 \<in> node_ids g1" "same_node B call pkg f g1 (fn_return g1) (fn_return f)"
    using \<open>\<And>b a. same_node B call pkg f g a b \<Longrightarrow> a \<in> node_ids g \<Longrightarrow> same_node B call pkg f g1 a b\<close> unfolding ret ids by auto
  moreover have "case GetNode f m of Some y \<Rightarrow> node_op x = node_op y \<and> node_type x = node_type y \<and> list_all2 (same_node B call pkg f g1) (node_operands x) (node_operands y)
      | None \<Rightarrow> new_literal x" if x: "GetNode g1 m = Some x" for m x
  proof (cases "m = k")
    case True
    then show ?thesis using x lit fk node by simp
  next
    case False
    then have xg: "GetNode g m = Some x" using x node by simp
    have "case GetNode f m of Some y \<Rightarrow> node_op x = node_op y \<and> node_type x = node_type y \<and> list_all2 (same_node B call pkg f g) (node_operands x) (node_operands y)
        | None \<Rightarrow> new_literal x" using rew xg unfolding rewritten_def by blast
    then show ?thesis using ops[OF _ xg] by (auto split: option.splits)
  qed
  moreover have "fn_params g1 = fn_params f" using rew by (simp add: g1 rewritten_def)
  moreover have "node_ids f \<subseteq> node_ids g1" using sub ids by blast
  ultimately show "rewritten B call pkg f g1" using rank[OF r] unfolding rewritten_def by blast
  have "k \<notin> set (node_operands x)" if "(m, x) \<in> set (fn_nodes g1)" for m x
    using that k r v(2) by (auto simp: g1 operands_ranked_def)
  then have "node_users g1 k = []" by (auto simp: node_users_Nil_iff)
  then show "VerifyNode pkg channels g1 k nd = returnS ()"
    using v by (simp add: VerifyNode_def NodeChecker_Visit_def NodeChecker_HandleLiteral_def expect_iff typed_ExpectValueIsType)
qed

lemma fold_step:
  assumes rew: "rewritten B call pkg f g" and n: "n \<in> node_ids f" and nd: "GetNode g n = Some nd" and v: "has_type v (node_type nd)"
    and val: "\<forall>st. run_of B call pkg f st \<longrightarrow> node_values st n = Some v"
  shows "\<exists>k g1 g' lit. ReplaceUsesWithNew_Literal pkg channels i g n v = returnS g' \<and> AddNode g lit = (k, g1) \<and> new_literal lit \<and> node_op lit = Literal v \<and>
    replaced n k g1 g' \<and> n \<noteq> k \<and> rewritten B call pkg f g'"
proof -
  let ?lit = "\<lparr>node_op = Literal v, node_operands = [], node_type = node_type nd, node_id = i, node_name = []\<rparr>"
  obtain k g1 where add: "AddNode g ?lit = (k, g1)" by (cases "AddNode g ?lit")
  have lit: "new_literal ?lit" using v by (simp add: new_literal_def)
  note A = AddNode_literal[OF rew lit add]
  obtain rank where rank: "operands_ranked g rank" using rew by (auto simp: rewritten_def)
  have "n \<in> node_ids g" using nd GetNode_ids by blast
  then have neq: "n \<noteq> k" using A(1) by blast
  have nodes: "GetNode g1 n = Some nd" "GetNode g1 k = Some ?lit" using A(2) nd neq by simp_all
  obtain g' where g': "ReplaceUsesWith g1 n k = returnS g'" "replaced n k g1 g'"
    using ReplaceUsesWith_replaced[OF rewritten_linked[OF A(4)] nodes _ neq] by auto
  have dist: "distinct (map fst (fn_nodes g1))" using A(4) by (simp add: rewritten_def)
  have "k \<notin> node_ids f" using A(1) rew by (auto simp: rewritten_def)
  then have "rewritten B call pkg f g'"
    using rewritten_replaced[OF A(4) g'(2) replaced_ranked[OF g'(2) dist A(5)[OF rank]]] A(3) n neq nodes val
    by (auto simp: GetType_def value_in_def literal_value_def)
  moreover have "ReplaceUsesWithNew_Literal pkg channels i g n v = returnS g'"
    using add A(7) g'(1) GetTypeForValue_typed[OF v] by (simp add: ReplaceUsesWithNew_Literal_def AddNodeToFunctionAndReplace_def)
  ultimately show ?thesis using add lit g'(2) neq by force
qed

section \<open>The loop\<close>

definition can_fold :: "ir_function \<Rightarrow> nat \<Rightarrow> bool" where
  "can_fold g n \<longleftrightarrow> (\<exists>nd. GetNode g n = Some nd \<and> foldable g nd)"

text \<open>
  The visited nodes \<open>D\<close> are closed under operands of the original function, a node reads nodes it read in the original
  function or new literals, and nothing uses a visited node that can be folded.
\<close>

definition folded :: "ir_function \<Rightarrow> nat set \<Rightarrow> ir_function \<Rightarrow> bool" where
  "folded f D g \<longleftrightarrow> (\<forall>m\<in>D. can_fold g m \<longrightarrow> unused g m) \<and>
     (\<forall>m x x'. GetNode f m = Some x \<longrightarrow> GetNode g m = Some x' \<longrightarrow> set (node_operands x') \<inter> node_ids f \<subseteq> set (node_operands x))"

lemma folded_step:
  assumes rew: "rewritten B call pkg f g" and inv: "folded f D g" and D: "D \<subseteq> node_ids f" "\<forall>m\<in>D. \<forall>x. GetNode f m = Some x \<longrightarrow> set (node_operands x) \<subseteq> D" "n \<notin> D"
    and n: "n \<in> node_ids f" and add: "AddNode g lit = (k, g1)" and lit: "new_literal lit" and rep: "replaced n k g1 g'" and neq: "n \<noteq> k"
  shows "folded f (insert n D) g'"
proof -
  note A = AddNode_literal[OF rew lit add]
  have kf: "k \<notin> node_ids f" using A(1) rew by (auto simp: rewritten_def)
  have kept: "\<exists>y. GetNode g m = Some y \<and> node_op x' = node_op y \<and> node_type x' = node_type y \<and> node_operands x' = map (\<lambda>a. if a = n then k else a) (node_operands y)"
    if x': "GetNode g' m = Some x'" and m: "m \<noteq> k" for m x'
  proof -
    obtain y where "GetNode g1 m = Some y" "node_op x' = node_op y" "node_type x' = node_type y" "node_operands x' = map (\<lambda>a. if a = n then k else a) (node_operands y)"
      using rep x' by (elim replacedD)
    then show ?thesis using A(2)[of m] m by auto
  qed
  obtain rank where rank: "operands_ranked g rank" using rew by (auto simp: rewritten_def)
  have reads: "set (node_operands x') \<inter> node_ids f \<subseteq> set (node_operands x)" if x: "GetNode f m = Some x" and x': "GetNode g' m = Some x'" for m x x'
  proof -
    have "m \<noteq> k" using kf x GetNode_ids by blast
    then obtain y where y: "GetNode g m = Some y" "node_operands x' = map (\<lambda>a. if a = n then k else a) (node_operands y)" using kept[OF x'] by blast
    have "set (node_operands y) \<inter> node_ids f \<subseteq> set (node_operands x)" using inv x y(1) by (simp add: folded_def)
    then show ?thesis using y(2) kf by auto
  qed
  have lits: "literal_value g' a = literal_value g a" if "a \<in> node_ids g" for a
  proof -
    have "literal_value g' a = literal_value g1 a"
      using rep unfolding replaced_def literal_value_def by (elim conjE allE[of _ a]) (auto elim!: option.rel_cases)
    then show ?thesis using A(1,2) that by (auto simp: literal_value_def)
  qed
  have "unused g' m" if m: "m \<in> D" and can: "can_fold g' m" for m
  proof -
    have mf: "m \<in> node_ids f" using m D(1) by blast
    then have mk: "m \<noteq> k" using kf by blast
    obtain x' where x': "GetNode g' m = Some x'" "foldable g' x'" using can by (auto simp: can_fold_def)
    obtain y where y: "GetNode g m = Some y" "node_op x' = node_op y" "node_type x' = node_type y" "node_operands x' = map (\<lambda>a. if a = n then k else a) (node_operands y)"
      using kept[OF x'(1) mk] by blast
    obtain x where x: "GetNode f m = Some x" using mf by (auto simp: GetNode_ids)
    have "set (node_operands y) \<inter> node_ids f \<subseteq> D" using inv x y(1) D(2) m unfolding folded_def by blast
    then have "n \<notin> set (node_operands y)" using D(3) n by blast
    then have same: "node_operands x' = node_operands y" using y(4) by (auto intro: map_idI)
    have "foldable g y" using x'(2) lits ranked_node[OF rank y(1)] unfolding foldable_def y(2,3) same by (auto simp: list_all_iff)
    then have "unused g m" using inv m y(1) by (auto simp: folded_def can_fold_def)
    then have "unused g1 m" using A(2,6) lit mk by (auto simp: unused_def new_literal_def split: if_splits)
    then show ?thesis using replaced_unused(2)[OF rep neq] mk by blast
  qed
  then show ?thesis using reads replaced_unused(1)[OF rep neq] by (auto simp: folded_def)
qed

lemma folding_loop_ok:
  assumes env: "fn_env B num (InterpretFunction B depth pkg) pkg channels f" and some: "run_of B (InterpretFunction B depth pkg) pkg f st"
  shows "rewritten B (InterpretFunction B depth pkg) pkg f (fs_function s) \<Longrightarrow> folded f D (fs_function s) \<Longrightarrow> topological f D ns \<Longrightarrow>
    D \<subseteq> node_ids f \<Longrightarrow> \<forall>m\<in>D. \<forall>x. GetNode f m = Some x \<longrightarrow> set (node_operands x) \<subseteq> D \<Longrightarrow>
    \<exists>s'. folding_loop B depth pkg channels ns s = returnS s' \<and> rewritten B (InterpretFunction B depth pkg) pkg f (fs_function s') \<and>
      folded f (D \<union> set ns) (fs_function s') \<and> node_ids (fs_function s) \<subseteq> node_ids (fs_function s') \<and>
      (fs_changed s' \<longleftrightarrow> fs_changed s \<or> node_ids (fs_function s') \<noteq> node_ids (fs_function s))"
proof (induction ns arbitrary: s D)
  case (Cons n ns)
  let ?call = "InterpretFunction B depth pkg" and ?g = "fs_function s"
  obtain x where x: "GetNode f n = Some x" "n \<notin> D" "set (node_operands x) \<subseteq> D" "topological f (insert n D) ns"
    using Cons.prems(3) by (auto split: option.splits)
  have n: "n \<in> node_ids f" using x(1) GetNode_ids by blast
  then have "n \<in> node_ids ?g" using Cons.prems(1) by (auto simp: rewritten_def)
  then obtain nd where nd: "GetNode ?g n = Some nd" by (auto simp: GetNode_ids)
  have D: "insert n D \<subseteq> node_ids f" "\<forall>m\<in>insert n D. \<forall>x. GetNode f m = Some x \<longrightarrow> set (node_operands x) \<subseteq> insert n D"
    using n Cons.prems(4,5) x(1,3) by auto
  show ?case
  proof (cases "foldable ?g nd")
    case True
    obtain vs v where v: "those (map (literal_value ?g) (node_operands nd)) = Some vs" "InterpretNode B depth pkg ?g n nd vs = returnS v"
        "has_type v (node_type nd)" "\<forall>st. run_of B ?call pkg f st \<longrightarrow> node_values st n = Some v"
      using InterpretNode_folds[OF env Cons.prems(1) some n nd True] by blast
    obtain k g1 g' lit where k: "ReplaceUsesWithNew_Literal pkg channels (fs_next_id s) ?g n v = returnS g'" "AddNode ?g lit = (k, g1)" "new_literal lit"
        "replaced n k g1 g'" "n \<noteq> k" "rewritten B ?call pkg f g'"
      using fold_step[OF Cons.prems(1) n nd v(3,4), of channels "fs_next_id s"] by blast
    let ?s = "\<lparr>fs_changed = True, fs_next_id = fs_next_id s + 1, fs_function = g'\<rparr>"
    have "folded f (insert n D) g'" by (rule folded_step[OF Cons.prems(1,2,4,5) x(2) n k(2-5)])
    then obtain s' where s': "folding_loop B depth pkg channels ns ?s = returnS s'" "rewritten B ?call pkg f (fs_function s')" "folded f (insert n D \<union> set ns) (fs_function s')"
        "node_ids g' \<subseteq> node_ids (fs_function s')" "fs_changed s'"
      using Cons.IH[of ?s "insert n D"] k(6) x(4) D by auto
    have "node_ids g' = insert k (node_ids ?g)" "k \<notin> node_ids ?g"
      using AddNode_literal[OF Cons.prems(1) k(3,2)] replaced_ids[OF k(4)] by simp_all
    then show ?thesis using s' nd True v(1,2) k(1) by (intro exI[of _ s']) auto
  next
    case False
    have "folded f (insert n D) ?g" using Cons.prems(2) False nd by (auto simp: folded_def can_fold_def)
    then show ?thesis using Cons.IH[OF Cons.prems(1), of "insert n D"] x(4) D nd False by auto
  qed
qed auto

lemma ConstantFolding_ok:
  assumes env: "fn_env B num (InterpretFunction B depth pkg) pkg channels f" and args: "args_typed f args"
  shows "\<exists>s g. ConstantFoldingPass B depth pkg channels next_node_id f = returnS s \<and> g = fs_function s \<and> rewritten B (InterpretFunction B depth pkg) pkg f g \<and>
    (fs_changed s \<longleftrightarrow> node_ids g \<noteq> node_ids f) \<and> (\<forall>n. can_fold g n \<longrightarrow> unused g n)"
proof -
  let ?call = "InterpretFunction B depth pkg"
  obtain st where run: "run_of B ?call pkg f st" using run_exists[OF env args] by blast
  obtain rank where wl: "well_linked f" and rank: "operands_ranked f rank" using fn_env_linked[OF env] by blast
  obtain ns where ns: "TopoSort f (Some (fn_return f)) = Some ns" "topological f {} ns" "set ns = node_ids f" using TopoSort_spec[OF wl] rank by blast
  let ?s = "\<lparr>fs_changed = False, fs_next_id = next_node_id, fs_function = f\<rparr>"
  have "folded f {} f" by (auto simp: folded_def)
  then obtain s where s: "folding_loop B depth pkg channels ns ?s = returnS s" "rewritten B ?call pkg f (fs_function s)" "folded f (node_ids f) (fs_function s)"
      "fs_changed s \<longleftrightarrow> node_ids (fs_function s) \<noteq> node_ids f"
    using folding_loop_ok[OF env run, of ?s "{}" ns] rewritten_refl[OF env] ns(2,3) by auto
  have "unused (fs_function s) n" if can: "can_fold (fs_function s) n" for n
  proof -
    obtain nd where nd: "GetNode (fs_function s) n = Some nd" "foldable (fs_function s) nd" using can by (auto simp: can_fold_def)
    have "n \<in> node_ids f" using rewritten_new[OF s(2) nd(1)] nd(2) by (fastforce simp: new_literal_def foldable_def)
    then show ?thesis using s(3) can by (simp add: folded_def)
  qed
  then show ?thesis using s(1,2,4) ns(1) by (auto simp: ConstantFoldingPass_def)
qed

section \<open>Correctness\<close>

lemma pass_function_folding:
  "case ConstantFoldingPass int_bn 1 [pass_function] [] 7 pass_function of
     Some (Inr s) \<Rightarrow> fs_changed s \<and> fs_next_id s = 9 \<and> GetNode (fs_function s) 5 = Some (mk_node (BinOp Op_Add) [0, 7] (BitsType 4) 6 []) \<and>
       literal_value (fs_function s) 7 = Some (VBits (Bits_FromSpan [False, True, True, False]))
   | _ \<Rightarrow> False"
  by code_simp

text \<open>C4: Constant folding keeps the meaning and folds everything. On a function of a verified package, the pass returns and reports whether
  it added a literal; the function it leaves keeps the nodes, nothing in it uses a node that could be folded, and the
  interpreter returns the same value for it. Dead code elimination then leaves no node that could be folded, and the same value.\<close>

theorem constant_folding_correct:
  assumes "bignum B num" and "verified_package pkg channels" and "calls_ranked pkg rank" and "i < length pkg" and "rank i \<le> depth"
    and "args_typed (pkg ! i) args"
  shows "\<exists>s g c h v events events' events''. ConstantFoldingPass B depth pkg channels next_node_id (pkg ! i) = returnS s \<and> g = fs_function s \<and>
    node_ids (pkg ! i) \<subseteq> node_ids g \<and> (fs_changed s \<longleftrightarrow> node_ids g \<noteq> node_ids (pkg ! i)) \<and> (\<forall>n. can_fold g n \<longrightarrow> unused g n) \<and>
    DeadCodeEliminationPass g = returnS (c, h) \<and> (\<forall>n. \<not> can_fold h n) \<and>
    InterpretFunction B (Suc depth) pkg (pkg ! i) args = returnS (v, events) \<and> InterpretFunction B (Suc depth) pkg g args = returnS (v, events') \<and>
    InterpretFunction B (Suc depth) pkg h args = returnS (v, events'')"
proof -
  note env = package_env[OF assms(1-5)]
  obtain s g where g: "ConstantFoldingPass B depth pkg channels next_node_id (pkg ! i) = returnS s" "g = fs_function s"
      "rewritten B (InterpretFunction B depth pkg) pkg (pkg ! i) g" "fs_changed s \<longleftrightarrow> node_ids g \<noteq> node_ids (pkg ! i)" "\<forall>n. can_fold g n \<longrightarrow> unused g n"
    using ConstantFolding_ok[OF env assms(6)] by blast
  have "can_fold g n \<and> live g n" if "can_fold (restriction g {n. live g n}) n" for n
    using that live.used[of g n] by (auto simp: can_fold_def foldable_def GetNode_restriction literal_value_def list_all_iff split: if_splits)
  moreover have "\<not> live g n" if "can_fold g n" for n
    using unused_not_live[of g n] g(5) that by (auto simp: can_fold_def foldable_def)
  ultimately have "\<forall>n. \<not> can_fold (restriction g {n. live g n}) n" by blast
  moreover have "node_ids (pkg ! i) \<subseteq> node_ids g" using g(3) by (simp add: rewritten_def)
  ultimately show ?thesis using g(1,2,4,5) rewritten_interpretation[OF env assms(6) g(3)] by blast
qed

theorem constant_folding_correct_witness:
  "\<exists>s g c h v events events' events''. ConstantFoldingPass int_bn 1 [pass_function] [] 7 pass_function = returnS s \<and> g = fs_function s \<and>
    GetNode g 5 = Some (mk_node (BinOp Op_Add) [0, 7] (BitsType 4) 6 []) \<and> literal_value g 7 = Some (VBits (Bits_FromSpan [False, True, True, False])) \<and>
    DeadCodeEliminationPass g = returnS (c, h) \<and> (\<forall>n. \<not> can_fold h n) \<and>
    InterpretFunction int_bn 2 [pass_function] pass_function pass_args = returnS (v, events) \<and>
    InterpretFunction int_bn 2 [pass_function] g pass_args = returnS (v, events') \<and> InterpretFunction int_bn 2 [pass_function] h pass_args = returnS (v, events'')"
proof -
  obtain s where s: "ConstantFoldingPass int_bn 1 [pass_function] [] 7 pass_function = returnS s"
      "GetNode (fs_function s) 5 = Some (mk_node (BinOp Op_Add) [0, 7] (BitsType 4) 6 [])" "literal_value (fs_function s) 7 = Some (VBits (Bits_FromSpan [False, True, True, False]))"
    using pass_function_folding by (auto simp: returnS_def split: option.splits sum.splits)
  then show ?thesis
    using constant_folding_correct[OF int_bignum.bignum_axioms pass_verified, of 0 1 pass_args 7] pass_args_typed
    by (simp add: numeral_2_eq_2 del: One_nat_def InterpretFunction.simps)
qed

end
