(* ===== verification/Spec2Isabelle.thy ===== *)
theory Spec2Isabelle
  imports Xls_Bdd Xls_Search Xls_Union_Find Xls_Proc_Network Xls_Ternary_Query Xls_Constant_Folding
begin

text \<open>
  A verification library for the core of XLS (Accelerated HW Synthesis), the C++ code under \<open>src/xls/xls/\<close> of the
  SynCirc repository.

  \<^bold>\<open>The program.\<close> XLS represents hardware designs as a graph of typed operations (the IR). Values of the IR are bit
  vectors of any width, tuples, arrays and tokens; operations on them are defined by the bit vector library and used by
  the interpreter, by constant folding and by abstract interpretations (ternary vectors, intervals, decision diagrams)
  in the optimizer. The development follows that layering: each theory imports the ones its code calls.

  \<^bold>\<open>Representation.\<close> A function that may abort (\<open>XLS_CHECK\<close>, \<open>LOG(FATAL)\<close>, \<open>value()\<close> on an error, \<open>at\<close> out of range)
  returns an \<open>option\<close>; \<open>None\<close> is the abort. \<open>absl::StatusOr\<close> is the sum \<open>status + 'a\<close>. Machine words are \<open>word\<close>s; bit
  counts, indices and sizes, which most of the code keeps in \<open>int64_t\<close> or \<open>size_t\<close>, are \<open>nat\<close> where negative values are
  refused and \<open>int\<close> where the code tests for them. Where the code keeps them in 32 bits, the conversion is written out
  with \<open>to_int32\<close> and \<open>to_uint32\<close>: the node indices and variables of decision diagrams, the indices and sizes of the
  union-find map, and the doubled width of a signed product. The theorems about these then carry the bound (\<open>bdd_room\<close>, fewer
  than \<open>2^32\<close> elements, operands of fewer than \<open>2^30\<close> bits). A loop counter that only walks over a list, such as the
  \<open>int32_t\<close> counter of \<open>Normalize\<close>, is a recursion over the list. OpenSSL's \<open>BIGNUM\<close> is a parameter (\<open>bn_api\<close>) with its documented laws in the locale
  \<open>bignum\<close>, interpreted on HOL integers.

  \<^bold>\<open>Theories.\<close>
  \<^item> \<open>Xls_Prelude\<close>: errors, bit lists as numbers (\<open>unum\<close>, \<open>snum\<close>), shared arithmetic.
  \<^item> \<open>Xls_Math_Util\<close> (\<open>common/math_util\<close>): ratios, logarithms, mixed-radix iteration.
  \<^item> \<open>Xls_Inline_Bitmap\<close> (\<open>data_structures/inline_bitmap.h\<close>): the word array with its invariant \<open>wf_bitmap\<close>; \<open>rep b bs\<close>
    says that a bitmap stands for a list of bits.
  \<^item> \<open>Xls_Bits\<close>, \<open>Xls_Big_Int\<close>, \<open>Xls_Bits_Ops\<close> (\<open>ir/bits\<close>, \<open>ir/big_int\<close>, \<open>ir/bits_ops\<close>): every operation returns the bits
    that the reference arithmetic on \<open>unum\<close> and \<open>snum\<close> prescribes, on the 64-bit path and on the long path.
  \<^item> \<open>Xls_Interval\<close>, \<open>Xls_Interval_Set\<close> (\<open>ir/interval\<close>, \<open>ir/interval_set\<close>): intervals and sets of them, refined to the sets
    of numbers they denote.
  \<^item> \<open>Xls_Abstract_Evaluator\<close>, \<open>Xls_Abstract_Arith\<close> (\<open>ir/abstract_evaluator.h\<close>): the circuits built from five gates. The
    locale \<open>sound_logic\<close> is the interface of a gate library; the circuits are proved correct in it once, and it is
    interpreted on booleans and on ternary values.
  \<^item> \<open>Xls_Ternary\<close> (\<open>ir/ternary\<close>, \<open>passes/ternary_evaluator.h\<close>): three-valued vectors and the soundness of evaluating on them.
  \<^item> \<open>Xls_Bdd\<close> (\<open>data_structures/binary_decision_diagram\<close>): hash-consed diagrams with their invariant, canonicity.
  \<^item> \<open>Xls_Search\<close>, \<open>Xls_Union_Find\<close> (\<open>data_structures/binary_search\<close>, \<open>transitive_closure.h\<close>, \<open>union_find*.h\<close>).
  \<^item> \<open>Xls_Type\<close>, \<open>Xls_Format\<close>, \<open>Xls_Value\<close>, \<open>Xls_Leaf_Type_Tree\<close> (\<open>ir/type\<close>, \<open>ir/format_*\<close>, \<open>ir/number_parser\<close>,
    \<open>common/string_to_int\<close>, \<open>ir/value*\<close>, \<open>data_structures/leaf_type_tree.h\<close>): types, number text, values, and the flat
    containers indexed by types. \<open>has_type\<close> is the intended typing of values.
  \<^item> \<open>Xls_Ir\<close> (\<open>ir/op_specification.py\<close>, \<open>ir/node.cc\<close>, \<open>ir/function_base.cc\<close>): nodes, functions, and the depth-first
    traversal that every visitor of the IR uses; channels, registers and procs as data.
  \<^item> \<open>Xls_Interpreter\<close> (\<open>interpreter/ir_interpreter.cc\<close>, \<open>interpreter/function_interpreter.cc\<close>, \<open>ir/events\<close>): one definition
    per handler; \<open>InterpretFunction\<close> runs the visitor over the nodes of a function. The state is the map of node values
    and the trace and assertion messages.
  \<^item> \<open>Xls_Verifier\<close> (\<open>ir/verifier.cc\<close>): one definition per check of \<open>NodeChecker\<close>, the checks of functions and procs; the
    token connectivity test is proved equal to reachability along tokens.
  \<^item> \<open>Xls_Soundness\<close>, \<open>Xls_Verified\<close>: what the verifier accepts, the interpreter evaluates. \<open>Xls_Soundness\<close> shows for each
    handler that it keeps the typing of the node values (\<open>typed_state\<close>, \<open>steps_to\<close>) when the check of the node passed;
    \<open>Xls_Verified\<close> puts them together for packages of functions, says when a dynamic loop ends, and lists the nodes that
    pass the verifier and still fail (\<open>interpretable\<close> excludes exactly such nodes).
  \<^item> \<open>Xls_Node_Iterator\<close> (\<open>ir/node_iterator\<close>): the topological orders, by a work list that counts the users left of each
    node; proved to list every node once, after its operands.
  \<^item> \<open>Xls_Channel_Queue\<close> (\<open>interpreter/channel_queue\<close>): the queue classes and their manager. The locales
    \<open>channel_queue_spec\<close>, \<open>consuming_queue\<close>, \<open>fifo_queue\<close> and \<open>single_value_queue\<close> are the contracts, interpreted on the classes.
  \<^item> \<open>Xls_Proc_Interpreter\<close> (\<open>interpreter/proc_interpreter\<close>, \<open>interpreter/proc_network_interpreter\<close>): the state of a proc is its
    visitor, kept between runs when the proc waits at a receive; a tick of the network runs every proc, again and again,
    until each has finished its iteration or nothing moves.
  \<^item> \<open>Xls_Proc_Network\<close>: networks of verified procs. \<open>net_ok\<close> is the invariant (typed queues and proc states, every
    visited node after its operands); each operation keeps it, ticks end, and a tick without progress is a deadlock on
    empty queues.
  \<^item> \<open>Xls_Abstract_Node\<close> (\<open>ir/abstract_node_evaluator.h\<close>): the evaluation of a node on abstract vectors. In \<open>sound_logic\<close> it
    simulates the interpreter: vectors that stand for the operands give a vector that stands for the result.
  \<^item> \<open>Xls_Runs\<close>: a run of the interpreter seen from its end. Each visit sets the value of its node only, so the final
    state holds, for every node, what its handler computes from the final values of the operands (\<open>visited_in\<close>).
  \<^item> \<open>Xls_Ternary_Query\<close> (\<open>passes/ternary_query_engine\<close>, \<open>passes/query_engine\<close>): the known-bits analysis of the optimizer, by
    induction over the topological order; \<open>engine_sound\<close> is the invariant of the engine, and every answer of a query holds
    of all runs. \<open>analysable\<close> excludes the nodes on which the abstract evaluator aborts (signed operations without bits).
  \<^item> \<open>Xls_Equivalence\<close>: two functions that compute the same. The visit of a node depends on its operation, its type and what
    it reads (\<open>Visit_same\<close>), so a function whose nodes read equal values (\<open>mirrors\<close>) has an equal run.
  \<^item> \<open>Xls_Dce\<close> (\<open>passes/dce_pass.cc\<close>, \<open>FunctionBase::RemoveNode\<close>): dead code elimination. The work list holds exactly the dead
    nodes of what is left, and the pass keeps exactly the nodes that reach a root (\<open>live\<close>).
  \<^item> \<open>Xls_Rewrite\<close> (\<open>ir/node.cc\<close>, \<open>passes/identity_removal_pass.cc\<close>): replacing the uses of a node. \<open>rewritten\<close> is the invariant of
    a pass: every node of the new function is a node of the old one that reads equal values in every run, or a new literal.
  \<^item> \<open>Xls_Constant_Folding\<close> (\<open>passes/constant_folding_pass.cc\<close>): the pass interprets the nodes on literals; it keeps \<open>rewritten\<close>, and
    \<open>folded\<close> says that nothing uses a visited node that could still be folded.

  \<^bold>\<open>Bounds and fuel.\<close> Loops that the code bounds are structural or have a termination measure. \<open>partial_function\<close> is used
  where a loop depends on an invariant for its end; the properties then state that it returns. \<open>InterpretFunction\<close> takes a
  bound on the depth of calls: functions of a package call functions of lower rank, and any depth above the rank gives the
  result (\<open>verified_functions_interpret\<close>). The loop of a dynamic counted for may run forever, and
  \<open>dynamic_counted_for_terminates_iff\<close> says when it does not. The loops of the proc networks (\<open>tick_loop\<close> and the loops around it)
  are partial functions: a tick returns because every round that makes progress executes a node that was pending, and
  \<open>tick_until_output_bounded\<close> needs at most the given number of ticks.

  \<^bold>\<open>Not modelled.\<close> The DSLX front end, the text parser and the builders of the IR, the other optimization passes, the pass
  manager, the passes on procs, the range and BDD analyses, code generation, scheduling, the JIT, the block interpreter, the package, channel and block checks
  of the verifier, the solvers and the tools around them; the random generators of intervals (they draw from \<open>std::random\<close>); log output
  and the text of error messages. The Zig converter of the repository is not C++.
\<close>

end
